(* ===== verification/Vsta_Prelude.thy ===== *)
theory Vsta_Prelude
  imports Main "HOL-Library.Word"
begin

text \<open>
  Shared vocabulary of the development.

  The kernel of VSTa is compiled for the i386: \<open>int\<close>, \<open>uint\<close>, \<open>long\<close>, \<open>ulong\<close> and pointers
  are 32 bits wide, \<open>ushort\<close> 16 and \<open>uchar\<close> 8 (\<open>include/sys/types.h\<close>).  A component whose
  behaviour depends on the width uses the word types named here; counters whose range is
  bounded by the number of kernel objects are \<open>nat\<close> or \<open>int\<close>.

  The error strings are the values that \<open>include/sys/fs.h\<close> gives the kernel's error names.  A
  system call that fails calls \<open>err()\<close>, which records the string in the calling thread and
  returns \<open>-1\<close>; here such a call is the value \<open>Inl e\<close> of the type \<open>'a syscall\<close>.
\<close>

unbundle bit_operations_syntax

type_synonym u8 = "8 word"
type_synonym u16 = "16 word"
type_synonym u32 = "32 word"

type_synonym addr = nat
type_synonym errstr = string
type_synonym 'a syscall = "errstr + 'a"

abbreviation EPERM :: errstr where "EPERM \<equiv> ''perm''"
abbreviation ESRCH :: errstr where "ESRCH \<equiv> ''no entry''"
abbreviation EINTR :: errstr where "EINTR \<equiv> ''intr''"
abbreviation EIO :: errstr where "EIO \<equiv> ''io err''"
abbreviation ENOMEM :: errstr where "ENOMEM \<equiv> ''no mem''"
abbreviation EFAULT :: errstr where "EFAULT \<equiv> ''fault''"
abbreviation EBUSY :: errstr where "EBUSY \<equiv> ''busy''"
abbreviation EINVAL :: errstr where "EINVAL \<equiv> ''invalid''"
abbreviation ENOSPC :: errstr where "ENOSPC \<equiv> ''no space''"

section \<open>Collections\<close>

text \<open>
  \<open>frame\<close> collects the facts that an operation leaves a field alone; \<open>inv_simps\<close> the
  unfoldings of the component invariants; \<open>upd_simps\<close> the normal forms of array updates.
\<close>

named_theorems frame "fields an operation does not touch"
named_theorems inv_simps "unfoldings of component invariants"
named_theorems upd_simps "normal forms of list and map updates"

section \<open>Lists used as arrays\<close>

lemma nth_append_Cons [upd_simps]: "(xs @ x # ys) ! length xs = x"
  by simp

lemma list_update_append_Cons [upd_simps]: "(xs @ x # ys)[length xs := z] = xs @ z # ys"
  by simp

lemma take_drop_split: "i < length xs \<Longrightarrow> xs = take i xs @ xs ! i # drop (Suc i) xs"
  by (rule id_take_nth_drop)

lemma distinct_append_Cons_notin:
  "distinct (xs @ x # ys) \<Longrightarrow> x \<notin> set xs \<and> x \<notin> set ys"
  by simp

lemma not_in_butlast: "distinct zs \<Longrightarrow> zs \<noteq> [] \<Longrightarrow> last zs \<notin> set (butlast zs)"
  by (metis append_butlast_last_id distinct_append_Cons_notin)

lemma not_in_tl: "distinct zs \<Longrightarrow> zs \<noteq> [] \<Longrightarrow> hd zs \<notin> set (tl zs)"
  by (cases zs) auto

lemma remove1_split: "x \<notin> set as \<Longrightarrow> remove1 x (as @ x # bs) = as @ bs"
  by (simp add: remove1_append)

lemma sum_list_remove1_nat:
  "x \<in> set xs \<Longrightarrow> sum_list (map f (remove1 x xs)) + f x = (sum_list (map f xs) :: nat)"
  by (induction xs) auto

section \<open>Words\<close>

lemma unat_add_no_overflow:
  "unat a + unat b < 2 ^ 32 \<Longrightarrow> unat (a + b) = unat a + unat (b :: u32)"
  by (simp add: unat_word_ariths)

lemma unat_sub_le: "b \<le> a \<Longrightarrow> unat (a - b) = unat a - unat (b :: u32)"
  by (simp add: unat_sub)

lemma unat_lt_u32 [simp]: "unat (a :: u32) < 4294967296"
  using unsigned_less [of a] by simp

lemma unat_u16_inc: "unat (a :: u16) < 65535 \<Longrightarrow> unat (a + 1) = Suc (unat a)"
  by (simp add: unat_word_ariths)

lemma unat_u16_dec: "0 < unat (c :: u16) \<Longrightarrow> Suc (unat (c + - 1)) = unat c"
proof -
  assume "0 < unat c"
  then have "unat (c - 1) = unat c - 1" by (intro unat_minus_one) auto
  then show ?thesis using \<open>0 < unat c\<close> by simp
qed

lemma sint_u32: "sint (a :: u32) = (if uint a < 2147483648 then uint a else uint a - 4294967296)"
proof -
  have u: "0 \<le> uint a" "uint a < 4294967296" using uint_lt2p [of a] by auto
  have "sint a = (uint a + 2147483648) mod 4294967296 - 2147483648"
    by (simp add: sint_uint signed_take_bit_eq_take_bit_shift take_bit_eq_mod)
  moreover have "(uint a + 2147483648) mod 4294967296 = uint a + 2147483648" if "uint a < 2147483648"
    using u that by (intro mod_pos_pos_trivial) auto
  moreover have "(uint a + 2147483648) mod 4294967296 = uint a - 2147483648" if "\<not> uint a < 2147483648"
  proof -
    have "(uint a + 2147483648) mod 4294967296 = (uint a - 2147483648) mod 4294967296"
      using mod_add_self2 [of "uint a - 2147483648" 4294967296] by (simp add: algebra_simps)
    then show ?thesis using u that by simp
  qed
  ultimately show ?thesis by auto
qed

end
