(* ===== verification/Ring_Lists.thy ===== *)
theory Ring_Lists
  imports Vsta_Prelude
begin

text \<open>
  Circular doubly linked lists, as the kernel builds them everywhere: the run queues of the
  scheduler (\<open>s_hd\<close>, \<open>s_tl\<close>), the sleep queue of a semaphore (\<open>t_hd\<close>, \<open>t_tl\<close>), the references
  to a port (\<open>p_next\<close>, \<open>p_prev\<close>), the list of all processes (\<open>p_allnext\<close>, \<open>p_allprev\<close>), the
  chunks of a malloc bucket (\<open>f_forw\<close>, \<open>f_back\<close>) and the C library's \<open>llist\<close> (\<open>l_forw\<close>, \<open>l_back\<close>).
  The two pointer fields are maps from addresses to addresses.  \<open>ring n p xs\<close> says that the
  nodes of \<open>xs\<close>, in this order, form a ring under the forward field \<open>n\<close> and the backward
  field \<open>p\<close>; \<open>ring_q h n p xs\<close> adds the head pointer \<open>h\<close>, null when the queue is empty.
  The lemmas give the effect on \<open>xs\<close> of the pointer assignments that the components make.
\<close>

section \<open>Chains and rings\<close>

fun links :: "(addr \<Rightarrow> addr) \<Rightarrow> (addr \<Rightarrow> addr) \<Rightarrow> addr list \<Rightarrow> bool" where
  "links n p [] = True"
| "links n p [x] = True"
| "links n p (x # y # zs) = (n x = y \<and> p y = x \<and> links n p (y # zs))"

definition ring :: "(addr \<Rightarrow> addr) \<Rightarrow> (addr \<Rightarrow> addr) \<Rightarrow> addr list \<Rightarrow> bool" where
  "ring n p xs = (xs \<noteq> [] \<and> distinct xs \<and> links n p (xs @ [hd xs]))"

definition ring_q :: "addr \<Rightarrow> (addr \<Rightarrow> addr) \<Rightarrow> (addr \<Rightarrow> addr) \<Rightarrow> addr list \<Rightarrow> bool" where
  "ring_q h n p xs = (if xs = [] then h = 0 else h = hd xs \<and> 0 \<notin> set xs \<and> ring n p xs)"

lemma links_append:
  "links n p (xs @ y # zs) = (links n p (xs @ [y]) \<and> links n p (y # zs))"
  by (induction n p xs rule: links.induct) (cases zs; auto)+

lemma links_fwd_upd:
  "a \<notin> set (butlast zs) \<Longrightarrow> links (n(a := b)) p zs = links n p zs"
  by (induction n p zs rule: links.induct) (auto split: if_splits)

lemma links_back_upd:
  "a \<notin> set (tl zs) \<Longrightarrow> links n (p(a := b)) zs = links n p zs"
  by (induction n p zs rule: links.induct) (auto split: if_splits)

lemma links_snoc:
  "zs \<noteq> [] \<Longrightarrow> links n p (zs @ [y]) = (links n p zs \<and> n (last zs) = y \<and> p y = last zs)"
proof -
  assume "zs \<noteq> []"
  then obtain ws w where "zs = ws @ [w]" by (cases zs rule: rev_cases) auto
  then show ?thesis using links_append [of n p ws w "[y]"] by simp
qed

lemma ring_Cons:
  "ring n p (x # xs) = (distinct (x # xs) \<and> links n p (x # xs) \<and>
     n (last (x # xs)) = x \<and> p x = last (x # xs))"
  using links_snoc [of "x # xs" n p x] by (auto simp: ring_def)

lemma ring_distinct: "ring n p xs \<Longrightarrow> distinct xs"
  by (simp add: ring_def)

lemma ring_single [simp]: "ring n p [x] = (n x = x \<and> p x = x)"
  by (simp add: ring_Cons)

lemma ring_next: "ring n p (x # y # zs) \<Longrightarrow> n x = y"
  by (simp add: ring_Cons)

lemma ring_prev: "ring n p (x # xs) \<Longrightarrow> p x = last (x # xs)"
  by (simp add: ring_Cons)

lemma ring_prev_next: "ring n p (x # y # zs) \<Longrightarrow> p y = x"
  by (simp add: ring_Cons)

lemma ring_rotate1: "ring n p (x # xs) = ring n p (xs @ [x])"
proof (cases xs)
  case (Cons y zs)
  have "links n p (y # zs @ [x, y]) = (links n p (y # zs @ [x]) \<and> links n p [x, y])"
    using links_append [of n p "y # zs" x "[y]"] by simp
  then show ?thesis using Cons by (auto simp: ring_def)
qed simp

lemma ring_rotate: "ring n p (xs @ ys) = ring n p (ys @ xs)"
proof (induction xs arbitrary: ys)
  case (Cons x xs)
  have "ring n p ((x # xs) @ ys) = ring n p (xs @ (ys @ [x]))"
    using ring_rotate1 [of n p x "xs @ ys"] by simp
  also have "\<dots> = ring n p ((ys @ [x]) @ xs)" by (rule Cons.IH)
  finally show ?case by simp
qed simp

lemma ring_self_next: "ring n p (x # xs) \<Longrightarrow> (n x = x) = (xs = [])"
  by (cases xs) (auto simp: ring_Cons)

lemma ring_next_in: "ring n p xs \<Longrightarrow> x \<in> set xs \<Longrightarrow> n x \<in> set xs"
proof -
  assume r: "ring n p xs" and x: "x \<in> set xs"
  then obtain as bs where xs: "xs = as @ x # bs" by (meson split_list)
  then have "ring n p (x # bs @ as)" using r ring_rotate [of n p as "x # bs"] by simp
  then have "n x \<in> set (x # bs @ as)"
    by (cases "bs @ as") (auto simp: ring_Cons)
  then show ?thesis using xs by auto
qed

lemma ring_prev_in: "ring n p xs \<Longrightarrow> x \<in> set xs \<Longrightarrow> p x \<in> set xs"
proof -
  assume r: "ring n p xs" and x: "x \<in> set xs"
  then obtain as bs where xs: "xs = as @ x # bs" by (meson split_list)
  then have "ring n p (x # bs @ as)" using r ring_rotate [of n p as "x # bs"] by simp
  then have "p x = last (x # bs @ as)" by (rule ring_prev)
  then have "p x \<in> set (x # bs @ as)" by (metis last_in_set list.distinct(1))
  then show ?thesis using xs by auto
qed

lemma ring_frame:
  assumes "ring n p xs" "\<And>a. a \<in> set xs \<Longrightarrow> n' a = n a" "\<And>a. a \<in> set xs \<Longrightarrow> p' a = p a"
  shows "ring n' p' xs"
proof -
  have "links n p zs \<Longrightarrow> set zs \<subseteq> set xs \<Longrightarrow> links n' p' zs" for zs
    using assms(2,3) by (induction n p zs rule: links.induct) auto
  then show ?thesis using assms(1) by (auto simp: ring_def)
qed

lemma ring_cut: "ring n p xs \<Longrightarrow> x \<notin> set xs \<Longrightarrow> ring (n(x := v)) (p(x := w)) xs"
  by (erule ring_frame) auto

section \<open>Insertion and deletion by pointer assignment\<close>

lemma ring_insert_before:
  assumes r: "ring n p (h # ys)" and x: "x \<notin> set (h # ys)"
  shows "ring (n(x := h, p h := x)) (p(x := p h, h := x)) (h # ys @ [x])"
proof -
  let ?n = "n(x := h, p h := x)" and ?p = "p(x := p h, h := x)"
  let ?l = "last (h # ys)"
  have l: "p h = ?l" using r by (rule ring_prev)
  have d: "distinct (h # ys)" using r by (rule ring_distinct)
  have lin: "?l \<in> set (h # ys)" by (rule last_in_set) simp
  have k: "links n p (h # ys)" using r by (simp add: ring_Cons)
  have "x \<notin> set (butlast (h # ys))" "?l \<notin> set (butlast (h # ys))"
    using x in_set_butlastD [of x "h # ys"] not_in_butlast [OF d] by blast+
  then have "links ?n p (h # ys)"
    using k l by (simp add: links_fwd_upd del: butlast.simps last.simps)
  moreover have "x \<notin> set (tl (h # ys))" "h \<notin> set (tl (h # ys))" using x d by auto
  ultimately have "links ?n ?p (h # ys)" by (simp add: links_back_upd)
  moreover have "?n ?l = x" "?n x = h" "?p x = ?l" "?p h = x"
    using l x lin by auto
  ultimately show ?thesis
    using d x links_snoc [of "h # ys" ?n ?p x] by (simp add: ring_Cons)
qed

lemma ring_insert_after:
  assumes r: "ring n p (h # ys)" and x: "x \<notin> set (h # ys)"
  shows "ring (n(x := n h, h := x)) (p(n h := x, x := h)) (h # x # ys)"
proof (cases ys)
  case Nil
  then show ?thesis using r x by (simp add: ring_Cons)
next
  case (Cons y zs)
  let ?n = "n(x := n h, h := x)" and ?p = "p(n h := x, x := h)"
  have d: "distinct (h # y # zs)" using r Cons ring_distinct by blast
  have k: "links n p (y # zs @ [h])" "n h = y"
    using r Cons by (simp_all add: ring_def)
  have "links ?n p (y # zs @ [h])" using k(1) d x Cons by (simp add: links_fwd_upd butlast_append)
  then have "links ?n ?p (y # zs @ [h])" using d x Cons k(2) by (simp add: links_back_upd)
  then show ?thesis using d x Cons k(2) by (simp add: ring_def)
qed

lemma ring_delete_head:
  assumes r: "ring n p (x # ys)" and ys: "ys \<noteq> []"
  shows "ring (n(p x := n x)) (p(n x := p x)) ys"
proof -
  obtain y zs where y: "ys = y # zs" using ys by (cases ys) auto
  let ?n = "n(p x := n x)" and ?p = "p(n x := p x)"
  let ?l = "last (y # zs)"
  have nx: "n x = y" and px: "p x = ?l"
    using r y ring_next ring_prev by fastforce+
  have d: "distinct (y # zs)" using r y ring_distinct by fastforce
  have k: "links n p (y # zs)" using r y by (simp add: ring_Cons)
  have "links ?n p (y # zs)"
    using k px not_in_butlast [OF d] by (simp add: links_fwd_upd del: butlast.simps last.simps)
  then have "links ?n ?p (y # zs)" using d nx by (simp add: links_back_upd)
  then show ?thesis using d nx px y by (auto simp: ring_Cons)
qed

lemma ring_delete:
  assumes r: "ring n p (as @ x # bs)" and ne: "as @ bs \<noteq> []"
  shows "ring (n(p x := n x)) (p(n x := p x)) (as @ bs)"
proof -
  have "ring n p (x # (bs @ as))" using r ring_rotate [of n p as "x # bs"] by simp
  then have "ring (n(p x := n x)) (p(n x := p x)) (bs @ as)"
    using ne by (intro ring_delete_head) auto
  then show ?thesis using ring_rotate by blast
qed

section \<open>Queues with a head pointer\<close>

lemma ring_q_Nil [simp]: "ring_q h n p [] = (h = 0)"
  by (simp add: ring_q_def)

lemma ring_q_Cons:
  "ring_q h n p (x # xs) = (h = x \<and> 0 \<notin> set (x # xs) \<and> ring n p (x # xs))"
  by (auto simp: ring_q_def)

lemma ring_q_null: "ring_q h n p xs \<Longrightarrow> (h = 0) = (xs = [])"
  by (cases xs) (auto simp: ring_q_Cons)

lemma ring_q_distinct: "ring_q h n p xs \<Longrightarrow> distinct xs"
  by (cases xs) (auto simp: ring_q_Cons ring_distinct dest: ring_distinct)

lemma ring_q_first:
  assumes "x \<noteq> 0" "n x = x" "p x = x"
  shows "ring_q x n p [x]"
  using assms by (simp add: ring_q_Cons)

lemma ring_q_snoc:
  assumes q: "ring_q h n p xs" and ne: "xs \<noteq> []" and x: "x \<noteq> 0" "x \<notin> set xs"
  shows "ring_q h (n(x := h, p h := x)) (p(x := p h, h := x)) (xs @ [x])"
proof -
  obtain y ys where xs: "xs = y # ys" using ne by (cases xs) auto
  then have h: "h = y" "0 \<notin> set xs" "ring n p (y # ys)" using q by (auto simp: ring_q_Cons)
  then show ?thesis
    using ring_insert_before [OF h(3), of x] x xs by (auto simp: ring_q_Cons)
qed

lemma ring_q_delete:
  assumes q: "ring_q h n p (as @ x # bs)" and ne: "as @ bs \<noteq> []"
  shows "ring_q (if h = x then n x else h) (n(p x := n x)) (p(n x := p x)) (as @ bs)"
proof -
  have r: "ring n p (as @ x # bs)" and z: "0 \<notin> set (as @ x # bs)"
    and h: "h = hd (as @ x # bs)" using q by (auto simp: ring_q_def)
  have r': "ring (n(p x := n x)) (p(n x := p x)) (as @ bs)" using r ne by (rule ring_delete)
  have "(if h = x then n x else h) = hd (as @ bs)"
  proof (cases as)
    case Nil
    then obtain b cs where "bs = b # cs" using ne by (cases bs) auto
    then show ?thesis using Nil h r ring_next by auto
  next
    case (Cons a cs)
    then show ?thesis using h ring_distinct [OF r] by auto
  qed
  then show ?thesis using r' z ne by (auto simp: ring_q_def)
qed

lemma ring_q_cut: "ring_q h n p xs \<Longrightarrow> x \<notin> set xs \<Longrightarrow> ring_q h (n(x := v)) (p(x := w)) xs"
  by (auto simp: ring_q_def ring_cut)

text \<open>
  Taking \<open>x\<close> out of a queue and overwriting its own links: a node that is its own neighbour
  was alone, and otherwise the two assignments to the neighbours leave a ring.
\<close>

lemma ring_q_unlink:
  assumes q: "ring_q h n p (xs @ x # ys)"
  shows "(n x = x) = (xs @ ys = []) \<and>
    (xs @ ys \<noteq> [] \<longrightarrow> p x \<noteq> x \<and>
      ring_q (if h = x then n x else h) (n(p x := n x, x := v)) (p(n x := p x, x := w)) (xs @ ys))"
proof -
  have r: "ring n p (xs @ x # ys)" using q by (auto simp: ring_q_def)
  then have d: "distinct (xs @ x # ys)" by (rule ring_distinct)
  have r': "ring n p (x # ys @ xs)" using r ring_rotate [of _ _ xs "x # ys"] by simp
  then have self: "(n x = x) = (xs @ ys = [])" using ring_self_next by auto
  moreover have "p x \<noteq> x" if ne: "xs @ ys \<noteq> []"
  proof
    assume "p x = x"
    then have "last (x # ys @ xs) = x" using ring_prev [OF r'] by simp
    moreover have "last (x # ys @ xs) \<in> set (ys @ xs)" using ne by (auto simp: last_append)
    ultimately show False using d by auto
  qed
  moreover have "ring_q (if h = x then n x else h) (n(p x := n x, x := v)) (p(n x := p x, x := w)) (xs @ ys)"
    if ne: "xs @ ys \<noteq> []"
    using ring_q_cut [OF ring_q_delete [OF q ne], of x v w] d by simp
  ultimately show ?thesis by blast
qed

section \<open>Walking round a ring\<close>

text \<open>
  The loop \<open>do { ...; c = c->next; } while (c != start)\<close>: the nodes it visits, \<open>None\<close> if it
  never comes back.
\<close>

partial_function (option) ring_walk :: "(addr \<Rightarrow> addr) \<Rightarrow> addr \<Rightarrow> addr \<Rightarrow> addr list option" where
  "ring_walk n start c =
     (if n c = start then Some [c]
      else Option.bind (ring_walk n start (n c)) (\<lambda>rest. Some (c # rest)))"

lemma ring_walk_links:
  "links n p (c # cs @ [start]) \<Longrightarrow> start \<notin> set cs \<Longrightarrow> ring_walk n start c = Some (c # cs)"
proof (induction cs arbitrary: c)
  case Nil
  then show ?case by (subst ring_walk.simps) simp
next
  case (Cons d cs)
  then have "ring_walk n start d = Some (d # cs)" by simp
  then show ?case using Cons.prems by (subst ring_walk.simps) auto
qed

lemma ring_walk_ring: "ring n p (x # xs) \<Longrightarrow> ring_walk n x x = Some (x # xs)"
  by (rule ring_walk_links) (auto simp: ring_def)

text \<open>A loop that follows a null-terminated chain, such as the parents of a node.\<close>

partial_function (option) chain_walk :: "(addr \<Rightarrow> addr) \<Rightarrow> addr \<Rightarrow> addr list option" where
  "chain_walk n c =
     (if c = 0 then Some [] else Option.bind (chain_walk n (n c)) (\<lambda>rest. Some (c # rest)))"

fun chain :: "(addr \<Rightarrow> addr) \<Rightarrow> addr \<Rightarrow> addr list \<Rightarrow> bool" where
  "chain n c [] = (c = 0)"
| "chain n c (x # xs) = (c = x \<and> x \<noteq> 0 \<and> chain n (n x) xs)"

lemma chain_walk_chain: "chain n c xs \<Longrightarrow> chain_walk n c = Some xs"
  by (induction xs arbitrary: c) (subst chain_walk.simps; auto)+

text \<open>Frame and shape of the chains of the lists that the kernel links by hand.\<close>

lemma chain_upd_notin: "x \<notin> set xs \<Longrightarrow> chain (n(x := v)) c xs = chain n c xs"
  by (induction xs arbitrary: c) auto

lemma chain_snoc:
  "chain n c (xs @ [t]) \<Longrightarrow> distinct (xs @ [t]) \<Longrightarrow> x \<noteq> 0 \<Longrightarrow> x \<notin> set (xs @ [t]) \<Longrightarrow>
   chain (n(x := 0, t := x)) c (xs @ [t, x])"
  by (induction xs arbitrary: c) auto

lemma chain_in_nonzero: "chain n c xs \<Longrightarrow> x \<in> set xs \<Longrightarrow> x \<noteq> 0"
  by (induction xs arbitrary: c) auto

lemma chain_unique: "chain n c xs \<Longrightarrow> chain n c ys \<Longrightarrow> xs = ys"
proof (induction xs arbitrary: c ys)
  case Nil
  then show ?case by (cases ys) auto
next
  case (Cons x xs)
  then show ?case by (cases ys) auto
qed

section \<open>The queue interface\<close>

text \<open>
  What the clients of a queue rely on: \<open>rep q xs\<close> relates the state of the component that
  holds the queue to the elements waiting, oldest first.  \<open>adm x q\<close> is what the caller must
  guarantee when it enqueues \<open>x\<close> (a node is not queued twice).  The client lemma: whatever
  the order of arrivals and departures, the elements leave in the order they arrived.
\<close>

datatype 'a qop = Put 'a | Take

fun puts :: "'a qop list \<Rightarrow> 'a list" where
  "puts [] = []"
| "puts (Put x # ops) = x # puts ops"
| "puts (Take # ops) = puts ops"

fun qrun :: "('a \<Rightarrow> 'q \<Rightarrow> 'q) \<Rightarrow> ('q \<Rightarrow> 'q) \<Rightarrow> ('q \<Rightarrow> 'a) \<Rightarrow> 'q \<Rightarrow> 'a qop list \<Rightarrow> 'a list \<times> 'q" where
  "qrun enq deq front q [] = ([], q)"
| "qrun enq deq front q (Put x # ops) = qrun enq deq front (enq x q) ops"
| "qrun enq deq front q (Take # ops) =
     (let (out, q') = qrun enq deq front (deq q) ops in (front q # out, q'))"

text \<open>\<open>qlegal\<close>: every arrival is admissible and no departure finds the queue empty.\<close>

fun qlegal :: "('a \<Rightarrow> 'q \<Rightarrow> 'q) \<Rightarrow> ('q \<Rightarrow> 'q) \<Rightarrow> ('a \<Rightarrow> 'q \<Rightarrow> bool) \<Rightarrow> 'q \<Rightarrow> 'a list \<Rightarrow> 'a qop list \<Rightarrow> bool" where
  "qlegal enq deq adm q xs [] = True"
| "qlegal enq deq adm q xs (Put x # ops) = (adm x q \<and> qlegal enq deq adm (enq x q) (xs @ [x]) ops)"
| "qlegal enq deq adm q xs (Take # ops) = (xs \<noteq> [] \<and> qlegal enq deq adm (deq q) (tl xs) ops)"

locale fifo =
  fixes enq :: "'a \<Rightarrow> 'q \<Rightarrow> 'q"
    and deq :: "'q \<Rightarrow> 'q"
    and front :: "'q \<Rightarrow> 'a"
    and adm :: "'a \<Rightarrow> 'q \<Rightarrow> bool"
    and rep :: "'q \<Rightarrow> 'a list \<Rightarrow> bool"
  assumes rep_enq: "rep q xs \<Longrightarrow> adm x q \<Longrightarrow> rep (enq x q) (xs @ [x])"
    and rep_front: "rep q (x # xs) \<Longrightarrow> front q = x"
    and rep_deq: "rep q (x # xs) \<Longrightarrow> rep (deq q) xs"
begin

lemma run_fifo:
  "rep q xs \<Longrightarrow> qlegal enq deq adm q xs ops \<Longrightarrow> qrun enq deq front q ops = (out, q') \<Longrightarrow>
   \<exists>ys. rep q' ys \<and> out @ ys = xs @ puts ops"
proof (induction ops arbitrary: q xs out q')
  case Nil
  then show ?case by auto
next
  case (Cons a ops)
  show ?case
  proof (cases a)
    case (Put x)
    then have "rep (enq x q) (xs @ [x])" using Cons.prems rep_enq by simp
    then show ?thesis using Put Cons.prems Cons.IH [of "enq x q" "xs @ [x]" out q'] by simp
  next
    case Take
    then obtain x zs where xs: "xs = x # zs" using Cons.prems(2) by (cases xs) auto
    have "rep (deq q) zs" "front q = x" using xs Cons.prems(1) rep_deq rep_front by auto
    then show ?thesis
      using Take xs Cons.prems Cons.IH [of "deq q" zs] by (force split: prod.splits)
  qed
qed

end

end
