(* ===== verification/Scheduler.thy ===== *)
theory Scheduler
  imports Ring_Lists "HOL-Library.Multiset"
begin

text \<open>
  The scheduler, \<open>os/kern/sched.c\<close>.  Runnable threads wait in one of four places: the queue of
  real-time threads, that of threads which gave up the processor early, the scheduling tree
  and the background queue.  A node of the tree is a \<open>struct sched\<close>, here an address with field
  maps; the \<open>union\<close> of \<open>s_thread\<close> and \<open>s_down\<close> is two maps, of which \<open>s_leaf\<close> tells the valid
  one.  All the code here runs with \<open>runq_lock\<close> held at \<open>SPLHI\<close>, so each function is one step.
  A failing \<open>ASSERT_DEBUG\<close>, which stops the kernel, and a loop that does not end are \<open>None\<close>.
\<close>

datatype tstate = TS_SLEEP | TS_RUN | TS_ONPROC | TS_DEAD

record sched_st =
  s_up :: "addr \<Rightarrow> addr"
  s_hd :: "addr \<Rightarrow> addr"
  s_tl :: "addr \<Rightarrow> addr"
  s_down :: "addr \<Rightarrow> addr"
  s_thread :: "addr \<Rightarrow> addr"
  s_refs :: "addr \<Rightarrow> u32"
  s_prio :: "addr \<Rightarrow> u8"
  s_leaf :: "addr \<Rightarrow> bool"
  s_nrun :: "addr \<Rightarrow> u16"
  t_runq :: "addr \<Rightarrow> addr"
  t_state :: "addr \<Rightarrow> tstate"
  t_rt :: "addr \<Rightarrow> bool"
  t_bg :: "addr \<Rightarrow> bool"
  t_runticks :: "addr \<Rightarrow> u8"
  t_oink :: "addr \<Rightarrow> u8"
  t_wchan :: "addr \<Rightarrow> addr"
  t_eng :: "addr \<Rightarrow> addr"
  pc_up :: "addr \<Rightarrow> bool"
  pc_pri :: "addr \<Rightarrow> nat"
  pc_next :: "addr \<Rightarrow> addr"
  nextcpu :: addr
  nudged :: "addr list"
  cpu :: addr
  curthread :: addr
  do_preempt :: bool
  num_run :: u32

text \<open>The addresses of the four static nodes.\<close>

definition sched_rt :: addr where "sched_rt = 1"
definition sched_cheated :: addr where "sched_cheated = 2"
definition sched_bg :: addr where "sched_bg = 3"
definition sched_root :: addr where "sched_root = 4"

definition RUN_TICKS :: u8 where "RUN_TICKS = 6"
definition CHEAT_TICKS :: u8 where "CHEAT_TICKS = RUN_TICKS div 2"
definition PRIO_DEFAULT :: u8 where "PRIO_DEFAULT = 50"
definition PRI_IDLE :: nat where "PRI_IDLE = 0"
definition PRI_BG :: nat where "PRI_BG = 1"
definition PRI_TIMESHARE :: nat where "PRI_TIMESHARE = 2"
definition PRI_CHEATED :: nat where "PRI_CHEATED = 3"
definition PRI_RT :: nat where "PRI_RT = 4"

lemmas sched_heads = sched_rt_def sched_cheated_def sched_bg_def sched_root_def
lemmas pri_defs = PRI_IDLE_def PRI_BG_def PRI_TIMESHARE_def PRI_CHEATED_def PRI_RT_def

section \<open>Queues and nodes\<close>

definition sq_insert :: "addr \<Rightarrow> addr \<Rightarrow> sched_st \<Rightarrow> sched_st" where
  "sq_insert par s st =
     (let h = s_down st par in
      if h = 0 then
        st\<lparr>s_down := (s_down st)(par := s), s_tl := (s_tl st)(s := s), s_hd := (s_hd st)(s := s)\<rparr>
      else
        let l = s_tl st h;
            hds = (s_hd st)(s := h);
            tls = (s_tl st)(s := l, h := s)
        in st\<lparr>s_tl := tls, s_hd := hds(tls s := s)\<rparr>)"

definition dequeue :: "addr \<Rightarrow> addr \<Rightarrow> sched_st \<Rightarrow> sched_st" where
  "dequeue up s st =
     (let st1 = (if s_hd st s = s then st\<lparr>s_down := (s_down st)(up := 0)\<rparr>
        else
          let hds = (s_hd st)(s_tl st s := s_hd st s);
              tls = (s_tl st)(hds s := s_tl st s)
          in st\<lparr>s_hd := hds, s_tl := tls,
                s_down := (if s_down st up = s then (s_down st)(up := hds s) else s_down st)\<rparr>)
      in st1\<lparr>s_tl := (s_tl st1)(s := 0), s_hd := (s_hd st1)(s := 0)\<rparr>)"

definition init_sched2 :: "addr \<Rightarrow> sched_st \<Rightarrow> sched_st" where
  "init_sched2 s st = st\<lparr>s_refs := (s_refs st)(s := 1), s_tl := (s_tl st)(s := s),
     s_hd := (s_hd st)(s := s), s_up := (s_up st)(s := 0), s_down := (s_down st)(s := 0),
     s_leaf := (s_leaf st)(s := False), s_prio := (s_prio st)(s := PRIO_DEFAULT),
     s_nrun := (s_nrun st)(s := 0)\<rparr>"

definition init_sched :: "sched_st \<Rightarrow> sched_st" where
  "init_sched st =
     init_sched2 sched_cheated (init_sched2 sched_root (init_sched2 sched_bg (init_sched2 sched_rt st)))"

text \<open>\<open>a\<close> is the address that \<open>MALLOC\<close> returned.\<close>

definition sched_thread :: "addr \<Rightarrow> addr \<Rightarrow> addr \<Rightarrow> sched_st \<Rightarrow> sched_st" where
  "sched_thread a parent t st = st\<lparr>s_up := (s_up st)(a := parent), s_thread := (s_thread st)(a := t),
     s_prio := (s_prio st)(a := PRIO_DEFAULT), s_leaf := (s_leaf st)(a := True),
     s_nrun := (s_nrun st)(a := 0), s_refs := (s_refs st)(parent := s_refs st parent + 1)\<rparr>"

definition sched_node :: "addr \<Rightarrow> addr \<Rightarrow> sched_st \<Rightarrow> sched_st" where
  "sched_node a parent st =
     (let st1 = sq_insert parent a (st\<lparr>s_up := (s_up st)(a := parent), s_down := (s_down st)(a := 0),
            s_prio := (s_prio st)(a := PRIO_DEFAULT), s_leaf := (s_leaf st)(a := False),
            s_nrun := (s_nrun st)(a := 0), s_refs := (s_refs st)(a := 0)\<rparr>)
      in st1\<lparr>s_refs := (s_refs st1)(parent := s_refs st1 parent + 1)\<rparr>)"

definition free_sched_node :: "addr \<Rightarrow> sched_st \<Rightarrow> sched_st" where
  "free_sched_node s st =
     (let up = s_up st s;
          st1 = st\<lparr>s_refs := (s_refs st)(up := s_refs st up - 1)\<rparr>
      in if s_leaf st s then st1 else dequeue up s st1)"

section \<open>Preemption\<close>

text \<open>
  The loop of \<open>preempt\<close>; \<open>continue\<close> in a \<open>do ... while\<close> goes to the test without advancing.
  The result is the best priority, the engine \<open>lowest\<close> and the engine \<open>c\<close> the loop ended at.
\<close>

partial_function (option) preempt_scan ::
  "sched_st \<Rightarrow> addr \<Rightarrow> nat \<Rightarrow> addr \<Rightarrow> (nat \<times> addr \<times> addr) option" where
  "preempt_scan st c pri lowest =
     (if \<not> pc_up st c then
        (if c = nextcpu st then Some (pri, lowest, c) else preempt_scan st c pri lowest)
      else
        let (pri', lowest') = (if pc_pri st c < pri then (pc_pri st c, c) else (pri, lowest)) in
        if pc_next st c = nextcpu st then Some (pri', lowest', pc_next st c)
        else preempt_scan st (pc_next st c) pri' lowest')"

definition preempt :: "sched_st \<Rightarrow> sched_st option" where
  "preempt st =
     (case preempt_scan st (nextcpu st) 99 0 of
        None \<Rightarrow> None
      | Some (pri, lowest, c) \<Rightarrow>
          if pri = 99 then None
          else Some (st\<lparr>nextcpu := pc_next st c, nudged := c # nudged st\<rparr>))"

section \<open>Choosing a thread\<close>

text \<open>The second pass over the siblings: the roll of the dice picks one of the runnable nodes.\<close>

fun dice :: "(addr \<Rightarrow> nat) \<Rightarrow> addr list \<Rightarrow> nat \<Rightarrow> addr" where
  "dice prio [] r = 0"
| "dice prio [x] r = x"
| "dice prio (x # y # zs) r = (if r \<le> prio x then x else dice prio (y # zs) (r - prio x))"

definition pick_sib :: "sched_st \<Rightarrow> nat \<Rightarrow> addr list \<Rightarrow> addr option" where
  "pick_sib st random sibs =
     (let run = filter (\<lambda>n. s_nrun st n \<noteq> 0) sibs;
          prio = (\<lambda>n. unat (s_prio st n));
          sum = sum_list (map prio run)
      in if run = [] then None
         else if 1 < length run then Some (dice prio run (random mod sum))
         else Some (hd run))"

text \<open>\<open>random d\<close> is the number \<open>random()\<close> returns at depth \<open>d\<close> of the tree.\<close>

partial_function (option) pick_loop :: "sched_st \<Rightarrow> (nat \<Rightarrow> nat) \<Rightarrow> nat \<Rightarrow> addr \<Rightarrow> addr option" where
  "pick_loop st random d s =
     Option.bind (ring_walk (s_hd st) s s) (\<lambda>sibs.
     Option.bind (pick_sib st (random d) sibs) (\<lambda>pick.
       if s_leaf st pick then Some pick else pick_loop st random (Suc d) (s_down st pick)))"

definition add_nrun :: "u16 \<Rightarrow> addr list \<Rightarrow> sched_st \<Rightarrow> sched_st" where
  "add_nrun k xs st = foldl (\<lambda>st x. st\<lparr>s_nrun := (s_nrun st)(x := s_nrun st x + k)\<rparr>) st xs"

definition pick_run :: "(nat \<Rightarrow> nat) \<Rightarrow> addr \<Rightarrow> sched_st \<Rightarrow> (addr \<times> sched_st) option" where
  "pick_run random root st =
     Option.bind (pick_loop st random 0 root) (\<lambda>s.
     let st1 = dequeue (s_up st s) s st in
     Option.bind (chain_walk (s_up st1) s) (\<lambda>path. Some (s, add_nrun (- 1) path st1)))"

text \<open>
  One round of the loop of \<open>swtch\<close>: the node to run and its class, or nothing to run.
\<close>

definition swtch_choose :: "(nat \<Rightarrow> nat) \<Rightarrow> sched_st \<Rightarrow> ((addr \<times> nat) option \<times> sched_st) option" where
  "swtch_choose random st =
     (if s_down st sched_rt \<noteq> 0 then
        let s = s_down st sched_rt; st1 = dequeue sched_rt s st in
        if s_leaf st1 s then Some (Some (s, PRI_RT), st1) else None
      else if s_down st sched_cheated \<noteq> 0 then
        let s = s_down st sched_cheated in Some (Some (s, PRI_CHEATED), dequeue sched_cheated s st)
      else if 0 < s_nrun st sched_root then
        map_option (\<lambda>(s, st1). (Some (s, PRI_TIMESHARE), st1)) (pick_run random sched_root st)
      else if s_down st sched_bg \<noteq> 0 then
        let s = s_down st sched_bg; st1 = dequeue sched_bg s st in
        if s_leaf st1 s then Some (Some (s, PRI_BG), st1) else None
      else Some (None, st))"

text \<open>
  \<open>swtch\<close> up to the point where the processor runs the chosen thread or idles; after the idle
  loop it is called again with no current thread.
\<close>

definition swtch :: "(nat \<Rightarrow> nat) \<Rightarrow> sched_st \<Rightarrow> sched_st option" where
  "swtch random st0 =
     (let t = curthread st0;
          st = st0\<lparr>t_oink := (if t \<noteq> 0 \<and> t_state st0 t = TS_SLEEP \<and> 0 < t_oink st0 t
                             then (t_oink st0)(t := t_oink st0 t - 1) else t_oink st0),
                   do_preempt := False\<rparr>
      in case swtch_choose random st of
        None \<Rightarrow> None
      | Some (None, st1) \<Rightarrow> Some (st1\<lparr>curthread := 0\<rparr>)
      | Some (Some (s, pri), st1) \<Rightarrow>
          let t' = s_thread st1 s;
              st2 = st1\<lparr>pc_pri := (pc_pri st1)(cpu st1 := pri), curthread := t',
                t_runticks := (if pri \<noteq> PRI_CHEATED then (t_runticks st1)(t' := RUN_TICKS)
                               else t_runticks st1),
                t_state := (t_state st1)(t' := TS_ONPROC)\<rparr>
          in Some (if t' = t then st2 else st2\<lparr>t_eng := (t_eng st2)(t' := cpu st2)\<rparr>))"

text \<open>The loops evaluate on concrete states.\<close>

declare ring_walk.simps [code] chain_walk.simps [code] preempt_scan.simps [code] pick_loop.simps [code]

section \<open>Making a thread runnable\<close>

definition lsetrun :: "addr \<Rightarrow> sched_st \<Rightarrow> sched_st option" where
  "lsetrun t st0 =
     (if t_wchan st0 t \<noteq> 0 then None
      else
        let s = t_runq st0 t;
            st = st0\<lparr>t_state := (t_state st0)(t := TS_RUN), num_run := num_run st0 + 1\<rparr>
        in if t_rt st t then preempt (sq_insert sched_rt s st)
           else if t_bg st t then Some (sq_insert sched_bg s st)
           else if CHEAT_TICKS < t_runticks st t \<and> t_oink st t = 0 then
             let st1 = sq_insert sched_cheated s st in
             if pc_pri st1 (cpu st1) < PRI_CHEATED then preempt st1 else Some st1
           else if \<not> s_leaf st s then None
           else
             let st1 = sq_insert (s_up st s) s st in
             map_option (\<lambda>path. add_nrun 1 path st1) (chain_walk (s_up st1) s))"

definition setrun :: "addr \<Rightarrow> sched_st \<Rightarrow> sched_st option" where
  "setrun t st = lsetrun t st"

definition timeslice :: "(nat \<Rightarrow> nat) \<Rightarrow> sched_st \<Rightarrow> sched_st option" where
  "timeslice random st =
     Option.bind (lsetrun (curthread st) (st\<lparr>num_run := num_run st - 1\<rparr>)) (swtch random)"

section \<open>The scheduling system call\<close>

text \<open>
  \<open>root\<close> is the outcome of \<open>isroot()\<close>; \<open>garbage\<close> is the value of the variable \<open>t\<close>, which
  \<open>sched_prichg\<close> never initialises.
\<close>

definition sched_prichg :: "unit syscall \<Rightarrow> addr \<Rightarrow> nat \<Rightarrow> sched_st \<Rightarrow> sched_st \<times> int syscall" where
  "sched_prichg root garbage new_pri st =
     (case (if new_pri = PRI_RT then root else Inr ()) of
        Inl e \<Rightarrow> (st, Inl e)
      | Inr _ \<Rightarrow>
          let t = garbage;
              st1 = st\<lparr>t_bg := (t_bg st)(t := (new_pri = PRI_BG)), t_rt := (t_rt st)(t := (new_pri = PRI_RT))\<rparr>;
              st2 = (if new_pri < pc_pri st1 (cpu st1) then st1\<lparr>nudged := t_eng st1 t # nudged st1\<rparr> else st1)
          in (st2\<lparr>pc_pri := (pc_pri st2)(cpu st2 := new_pri)\<rparr>, Inr 0))"

definition sched_op ::
  "unit syscall \<Rightarrow> addr \<Rightarrow> (nat \<Rightarrow> nat) \<Rightarrow> int \<Rightarrow> int \<Rightarrow> sched_st \<Rightarrow> (sched_st \<times> int syscall) option" where
  "sched_op root garbage random op arg st =
     (if op = 0 then
        (if arg < int PRI_IDLE \<or> int PRI_RT < arg then Some (st, Inl EINVAL)
         else if arg = int PRI_IDLE then map_option (\<lambda>st'. (st', Inr 0)) (timeslice random st)
         else Some (sched_prichg root garbage (nat arg) st))
      else if op = 1 then
        Some (st, Inr (int (if t_bg st (curthread st) then PRI_BG
                            else if t_rt st (curthread st) then PRI_RT else PRI_TIMESHARE)))
      else Some (st, Inl EINVAL))"

section \<open>The queues are FIFO\<close>

definition sched_q :: "addr \<Rightarrow> sched_st \<Rightarrow> addr list \<Rightarrow> bool" where
  "sched_q par st xs = ring_q (s_down st par) (s_hd st) (s_tl st) xs"

lemma sq_insert_q:
  assumes q: "sched_q par st xs" and s: "s \<noteq> 0" "s \<notin> set xs"
  shows "sched_q par (sq_insert par s st) (xs @ [s])"
proof (cases xs)
  case Nil
  then have "s_down st par = 0" using q by (simp add: sched_q_def)
  then show ?thesis using Nil s by (simp add: sched_q_def sq_insert_def ring_q_Cons)
next
  case (Cons x ys)
  then have h: "s_down st par = x" "x \<noteq> 0" "s \<noteq> x" using q s by (auto simp: sched_q_def ring_q_Cons)
  then show ?thesis using ring_q_snoc [of x "s_hd st" "s_tl st" xs s] q s Cons
    by (simp add: sched_q_def sq_insert_def Let_def)
qed

lemma dequeue_q:
  assumes q: "sched_q par st (xs @ s # ys)"
  shows "sched_q par (dequeue par s st) (xs @ ys)"
proof -
  have u: "(s_hd st s = s) = (xs @ ys = [])"
    "xs @ ys \<noteq> [] \<Longrightarrow> s_tl st s \<noteq> s \<and> ring_q (if s_down st par = s then s_hd st s else s_down st par)
       ((s_hd st)(s_tl st s := s_hd st s, s := 0)) ((s_tl st)(s_hd st s := s_tl st s, s := 0)) (xs @ ys)"
    using ring_q_unlink [of "s_down st par" "s_hd st" "s_tl st" xs s ys 0 0] q by (auto simp: sched_q_def)
  show ?thesis
  proof (cases "xs @ ys = []")
    case True
    then show ?thesis using u(1) by (auto simp: sched_q_def dequeue_def)
  next
    case False
    then show ?thesis using u(1) u(2) [OF False]
      by (cases "s_down st par = s") (simp_all add: sched_q_def dequeue_def Let_def)
  qed
qed

lemma sched_q_front: "sched_q par st (x # xs) \<Longrightarrow> s_down st par = x \<and> x \<noteq> 0"
  by (auto simp: sched_q_def ring_q_Cons)

lemma sched_q_null: "sched_q par st xs \<Longrightarrow> (s_down st par = 0) = (xs = [])"
  by (auto simp: sched_q_def ring_q_null)

definition sq_adm :: "addr \<Rightarrow> addr \<Rightarrow> sched_st \<Rightarrow> bool" where
  "sq_adm par s st = (s \<noteq> 0 \<and> (\<forall>xs. sched_q par st xs \<longrightarrow> s \<notin> set xs))"

interpretation schedq: fifo "sq_insert par" "\<lambda>st. dequeue par (s_down st par) st" "\<lambda>st. s_down st par"
  "sq_adm par" "sched_q par" for par
proof
  fix st :: sched_st and xs x
  show "sched_q par st xs \<Longrightarrow> sq_adm par x st \<Longrightarrow> sched_q par (sq_insert par x st) (xs @ [x])"
    by (simp add: sq_adm_def sq_insert_q)
  show "sched_q par st (x # xs) \<Longrightarrow> s_down st par = x" using sched_q_front by blast
  show "sched_q par st (x # xs) \<Longrightarrow> sched_q par (dequeue par (s_down st par) st) xs"
    using dequeue_q [of par st "[]" x xs] sched_q_front by fastforce
qed

section \<open>The scheduling tree\<close>

text \<open>
  The tree the pointers describe: threads that wait to run are leaves; an internal node is
  always linked under its parent.  \<open>s_nrun\<close> of a node is the number of leaves below it.
\<close>

datatype stree = Leaf (node_at: addr) | Node (node_at: addr) (subs: "stree list")

fun nodes :: "stree \<Rightarrow> addr list" where
  "nodes (Leaf a) = [a]"
| "nodes (Node a ts) = a # concat (map nodes ts)"

fun leaves :: "stree \<Rightarrow> addr list" where
  "leaves (Leaf a) = [a]"
| "leaves (Node a ts) = concat (map leaves ts)"

fun tree_ok :: "sched_st \<Rightarrow> stree \<Rightarrow> bool" where
  "tree_ok st (Leaf a) = (s_leaf st a \<and> s_nrun st a = 1)"
| "tree_ok st (Node a ts) =
     (\<not> s_leaf st a \<and> unat (s_nrun st a) = length (leaves (Node a ts)) \<and>
      sched_q a st (map node_at ts) \<and>
      (\<forall>t \<in> set ts. s_up st (node_at t) = a \<and> tree_ok st t))"

lemma node_at_nodes [simp]: "node_at t \<in> set (nodes t)"
  by (cases t) auto

lemma leaves_nodes: "set (leaves t) \<subseteq> set (nodes t)"
  by (induction t) auto

lemma nrun_leaves: "tree_ok st t \<Longrightarrow> (s_nrun st (node_at t) \<noteq> 0) = (leaves t \<noteq> [])"
  by (cases t) (auto simp: unat_eq_0 [symmetric] simp del: unat_eq_0)

text \<open>A tree only depends on its own nodes; the links of its root belong to the parent.\<close>

lemma sched_q_frame:
  assumes "sched_q a st xs" "s_down st' a = s_down st a"
    and "\<And>x. x \<in> set xs \<Longrightarrow> s_hd st' x = s_hd st x \<and> s_tl st' x = s_tl st x"
  shows "sched_q a st' xs"
  using assms ring_frame [of "s_hd st" "s_tl st" xs "s_hd st'" "s_tl st'"]
  by (auto simp: sched_q_def ring_q_def)

lemma tree_ok_frame:
  assumes "tree_ok st t"
    and "\<And>x. x \<in> set (nodes t) \<Longrightarrow> s_leaf st' x = s_leaf st x \<and> s_nrun st' x = s_nrun st x \<and>
      s_down st' x = s_down st x"
    and "\<And>x. x \<in> set (nodes t) \<Longrightarrow> x \<noteq> node_at t \<Longrightarrow>
      s_hd st' x = s_hd st x \<and> s_tl st' x = s_tl st x \<and> s_up st' x = s_up st x"
    and "distinct (nodes t)"
  shows "tree_ok st' t"
  using assms
proof (induction t)
  case (Leaf a)
  then show ?case by simp
next
  case (Node a ts)
  have sub: "x \<in> set (nodes (Node a ts))" "x \<noteq> a" if "t \<in> set ts" "x \<in> set (nodes t)" for x t
    using that Node.prems(4) by auto
  have q: "sched_q a st' (map node_at ts)"
  proof (rule sched_q_frame)
    show "sched_q a st (map node_at ts)" using Node.prems(1) by simp
    show "s_down st' a = s_down st a" using Node.prems(2) [of a] by simp
    show "s_hd st' x = s_hd st x \<and> s_tl st' x = s_tl st x" if "x \<in> set (map node_at ts)" for x
      using that Node.prems(3) sub [OF _ node_at_nodes] by auto
  qed
  have "tree_ok st' t" if t: "t \<in> set ts" for t
  proof (rule Node.IH [OF t])
    show "tree_ok st t" using Node.prems(1) t by simp
    show "distinct (nodes t)" using Node.prems(4) t by (auto simp: distinct_concat_iff)
    show "s_leaf st' x = s_leaf st x \<and> s_nrun st' x = s_nrun st x \<and> s_down st' x = s_down st x"
      if "x \<in> set (nodes t)" for x using Node.prems(2) sub(1) [OF t that] by blast
    show "s_hd st' x = s_hd st x \<and> s_tl st' x = s_tl st x \<and> s_up st' x = s_up st x"
      if "x \<in> set (nodes t)" for x using Node.prems(3) sub [OF t that] by auto
  qed
  moreover have "s_up st' (node_at t) = s_up st (node_at t)" if t: "t \<in> set ts" for t
    using Node.prems(3) sub [OF t node_at_nodes] by auto
  ultimately show ?case using Node.prems(1,2) q by auto
qed

section \<open>pick_run takes a leaf off the tree\<close>

lemma add_nrun_s_nrun:
  "distinct xs \<Longrightarrow> s_nrun (add_nrun k xs st) x = (if x \<in> set xs then s_nrun st x + k else s_nrun st x)"
  unfolding add_nrun_def by (induction xs arbitrary: st) auto

lemma add_nrun_frame [frame]:
  "s_up (add_nrun k xs st) = s_up st" "s_hd (add_nrun k xs st) = s_hd st"
  "s_tl (add_nrun k xs st) = s_tl st" "s_down (add_nrun k xs st) = s_down st"
  "s_leaf (add_nrun k xs st) = s_leaf st" "s_thread (add_nrun k xs st) = s_thread st"
  unfolding add_nrun_def by (induction xs arbitrary: st) auto

lemma sq_insert_frame [frame]:
  "s_up (sq_insert p s st) = s_up st" "s_leaf (sq_insert p s st) = s_leaf st"
  "s_nrun (sq_insert p s st) = s_nrun st" "s_thread (sq_insert p s st) = s_thread st"
  by (simp_all add: sq_insert_def Let_def)

lemma dequeue_frame [frame]:
  "s_up (dequeue p s st) = s_up st" "s_leaf (dequeue p s st) = s_leaf st"
  "s_nrun (dequeue p s st) = s_nrun st" "s_thread (dequeue p s st) = s_thread st"
  "curthread (dequeue p s st) = curthread st" "cpu (dequeue p s st) = cpu st"
  by (simp_all add: dequeue_def Let_def)

lemma dice_in: "xs \<noteq> [] \<Longrightarrow> dice prio xs r \<in> set xs"
  by (induction prio xs r rule: dice.induct) auto

lemma pick_sib_run:
  assumes "\<exists>x \<in> set sibs. s_nrun st x \<noteq> 0"
  shows "\<exists>x \<in> set sibs. s_nrun st x \<noteq> 0 \<and> pick_sib st r sibs = Some x"
proof -
  let ?run = "filter (\<lambda>n. s_nrun st n \<noteq> 0) sibs"
  have ne: "?run \<noteq> []" using assms by (auto simp: filter_empty_conv)
  have "dice prio ?run k \<in> set ?run" for prio k using ne by (rule dice_in)
  moreover have "hd ?run \<in> set ?run" using ne by (rule hd_in_set)
  ultimately have "\<exists>x \<in> set ?run. pick_sib st r sibs = Some x"
    using ne by (simp add: pick_sib_def Let_def del: set_filter)
  then show ?thesis by auto
qed

lemma tree_ring_walk:
  assumes "tree_ok st (Node a ts)" "ts \<noteq> []"
  shows "ring_walk (s_hd st) (s_down st a) (s_down st a) = Some (map node_at ts)"
  using assms by (cases ts) (auto simp: sched_q_def ring_q_Cons intro: ring_walk_ring)

text \<open>Below an internal node with a runnable leaf, the loop finds one of its leaves.\<close>

lemma pick_loop_leaf:
  "tree_ok st (Node a ts) \<Longrightarrow> leaves (Node a ts) \<noteq> [] \<Longrightarrow>
   \<exists>l \<in> set (leaves (Node a ts)). pick_loop st rnd d (s_down st a) = Some l"
proof (induction "Node a ts" arbitrary: a ts d rule: measure_induct_rule [where f = size])
  case less
  have ts: "ts \<noteq> []" using less.prems(2) by auto
  have w: "ring_walk (s_hd st) (s_down st a) (s_down st a) = Some (map node_at ts)"
    using tree_ring_walk less.prems(1) ts by blast
  obtain u where "u \<in> set ts" "leaves u \<noteq> []" using less.prems(2) by auto
  then have "\<exists>x \<in> set (map node_at ts). s_nrun st x \<noteq> 0"
    using less.prems(1) nrun_leaves by auto
  then obtain t where t: "t \<in> set ts" "s_nrun st (node_at t) \<noteq> 0"
    "pick_sib st (rnd d) (map node_at ts) = Some (node_at t)"
    using pick_sib_run [of "map node_at ts" st "rnd d"] by auto
  have ok: "tree_ok st t" and lt: "leaves t \<noteq> []" using t less.prems(1) nrun_leaves by auto
  show ?case
  proof (cases t)
    case (Leaf l)
    then show ?thesis using w t ok by (subst pick_loop.simps) (auto intro!: bexI [of _ "Leaf l"])
  next
    case (Node b us)
    have "\<exists>l \<in> set (leaves (Node b us)). pick_loop st rnd (Suc d) (s_down st b) = Some l"
    proof (rule less.hyps)
      show "size (Node b us) < size (Node a ts)"
        using t(1) Node size_list_estimation' [of t ts "size t" size] by simp
      show "tree_ok st (Node b us)" "leaves (Node b us) \<noteq> []" using ok lt Node by auto
    qed
    then obtain l where l: "l \<in> set (leaves t)" "pick_loop st rnd (Suc d) (s_down st b) = Some l"
      using Node by blast
    have "\<not> s_leaf st b" using ok Node by simp
    then have "pick_loop st rnd d (s_down st a) = Some l"
      using w t(3) l(2) Node by (subst pick_loop.simps) simp
    moreover have "l \<in> set (leaves (Node a ts))" using l(1) t(1) by auto
    ultimately show ?thesis by blast
  qed
qed

section \<open>Changing the children of one node\<close>

text \<open>
  Both changes that the scheduler makes to the tree, a leaf that leaves and a leaf that
  arrives, replace the children of one internal node \<open>p\<close> by \<open>f\<close> of them.
\<close>

fun at_node :: "addr \<Rightarrow> (stree list \<Rightarrow> stree list) \<Rightarrow> stree \<Rightarrow> stree" where
  "at_node p f (Leaf a) = Leaf a"
| "at_node p f (Node a ts) = (if a = p then Node a (f ts) else Node a (map (at_node p f) ts))"

fun kids :: "addr \<Rightarrow> stree \<Rightarrow> stree list" where
  "kids p (Leaf a) = []"
| "kids p (Node a ts) = (if a = p then ts else concat (map (kids p) ts))"

fun internals :: "stree \<Rightarrow> addr list" where
  "internals (Leaf a) = []"
| "internals (Node a ts) = a # concat (map internals ts)"

text \<open>The internal nodes on the way from \<open>p\<close> up to the root.\<close>

fun path :: "addr \<Rightarrow> stree \<Rightarrow> addr list" where
  "path p (Leaf a) = []"
| "path p (Node a ts) =
     (if a = p then [a]
      else let below = concat (map (path p) ts) in if below = [] then [] else below @ [a])"

lemma internals_nodes: "set (internals t) \<subseteq> set (nodes t)"
  by (induction t) auto

lemma absent:
  "p \<notin> set (internals t) \<Longrightarrow> at_node p f t = t \<and> kids p t = [] \<and> path p t = []"
  by (induction t) (auto simp: map_idI)

lemma at_node_root [simp]: "node_at (at_node p f t) = node_at t"
  by (cases t) auto

lemma split_subtree:
  assumes "distinct (nodes (Node a ts))" "a \<noteq> p" "p \<in> set (internals (Node a ts))"
  shows "\<exists>as u bs. ts = as @ u # bs \<and> p \<in> set (internals u) \<and>
    (\<forall>w \<in> set as \<union> set bs. p \<notin> set (internals w) \<and> set (nodes w) \<inter> set (nodes u) = {}) \<and>
    kids p (Node a ts) = kids p u \<and> distinct (nodes u) \<and> a \<notin> set (nodes u) \<and>
    (\<forall>f. at_node p f (Node a ts) = Node a (as @ at_node p f u # bs)) \<and>
    path p (Node a ts) = (if path p u = [] then [] else path p u @ [a])"
proof -
  obtain u where "u \<in> set ts" and pu: "p \<in> set (internals u)" using assms(2,3) by auto
  then obtain as bs where ts: "ts = as @ u # bs" by (meson split_list)
  have dis: "set (nodes w) \<inter> set (nodes u) = {}" if "w \<in> set as \<union> set bs" for w
    using assms(1) that unfolding ts by fastforce
  then have p: "p \<notin> set (internals w)" if "w \<in> set as \<union> set bs" for w
    using that pu internals_nodes [of u] internals_nodes [of w] by blast
  have k: "concat (map (kids p) as) = []" "concat (map (kids p) bs) = []"
    and pa: "concat (map (path p) as) = []" "concat (map (path p) bs) = []"
    and f: "map (at_node p f) as = as" "map (at_node p f) bs = bs" for f
    using absent p by (auto intro!: map_idI)
  have "kids p (Node a ts) = kids p u" using assms(2) by (simp only: kids.simps ts map_append
        list.map concat_append concat.simps k if_False append_Nil append_Nil2)
  moreover have "concat (map (path p) ts) = path p u"
    by (simp only: ts map_append list.map concat_append concat.simps pa append_Nil append_Nil2)
  then have "path p (Node a ts) = (if path p u = [] then [] else path p u @ [a])"
    using assms(2) by simp
  moreover have "at_node p f (Node a ts) = Node a (as @ at_node p f u # bs)" for f
    using assms(2) by (simp add: ts f)
  moreover have "distinct (nodes u)" "a \<notin> set (nodes u)" using assms(1) ts by auto
  ultimately show ?thesis using ts pu p dis by blast
qed

lemma path_internals: "set (path p t) \<subseteq> set (internals t)"
  by (induction t) (auto simp: Let_def)

lemma path_nonempty: "p \<in> set (internals t) \<Longrightarrow> path p t \<noteq> []"
  by (induction t) (auto simp: Let_def)

lemma kids_nodes:
  "distinct (nodes t) \<Longrightarrow> k \<in> set (kids p t) \<Longrightarrow> set (nodes k) \<subseteq> set (nodes t) - {node_at t}"
proof (induction t)
  case (Node a ts)
  show ?case
  proof (cases "a = p")
    case True
    then show ?thesis using Node.prems by auto
  next
    case False
    then obtain t where t: "t \<in> set ts" "k \<in> set (kids p t)" using Node.prems(2) by auto
    then have "distinct (nodes t)" using Node.prems(1) by (auto simp: distinct_concat_iff)
    then have "set (nodes k) \<subseteq> set (nodes t)" using Node.IH [OF t(1)] t(2) by blast
    then show ?thesis using t(1) Node.prems(1) by auto
  qed
qed simp

lemma path_kids_disjoint:
  "distinct (nodes t) \<Longrightarrow> k \<in> set (kids p t) \<Longrightarrow> set (path p t) \<inter> set (nodes k) = {}"
proof (induction t)
  case (Node a ts)
  show ?case
  proof (cases "a = p")
    case True
    then show ?thesis using Node.prems by auto
  next
    case False
    show ?thesis
    proof (cases "p \<in> set (internals (Node a ts))")
      case True
      obtain as u bs where s: "ts = as @ u # bs" "kids p (Node a ts) = kids p u" "distinct (nodes u)"
        "path p (Node a ts) = (if path p u = [] then [] else path p u @ [a])"
        using split_subtree [OF Node.prems(1) False True] by blast
      then have "set (path p u) \<inter> set (nodes k) = {}" using Node.IH [of u] Node.prems(2) by auto
      moreover have "a \<notin> set (nodes k)" using kids_nodes [OF Node.prems(1,2)] by auto
      ultimately show ?thesis using s(4) by auto
    next
      case absent: False
      have "path p (Node a ts) = []" using Scheduler.absent [OF absent] by blast
      then show ?thesis by (simp only: list.set Int_empty_left)
    qed
  qed
qed simp

text \<open>What may change outside the children of \<open>p\<close>: the run counts on the way up, and \<open>s_down\<close> of \<open>p\<close>.\<close>

definition tree_frame :: "sched_st \<Rightarrow> sched_st \<Rightarrow> addr \<Rightarrow> u16 \<Rightarrow> addr list \<Rightarrow> addr set \<Rightarrow> bool" where
  "tree_frame st st' p d up X = (\<forall>x \<in> X. s_leaf st' x = s_leaf st x \<and> s_up st' x = s_up st x \<and>
     s_hd st' x = s_hd st x \<and> s_tl st' x = s_tl st x \<and> (x \<noteq> p \<longrightarrow> s_down st' x = s_down st x) \<and>
     s_nrun st' x = (if x \<in> set up then s_nrun st x + d else s_nrun st x))"

lemma tree_frame_sub:
  "tree_frame st st' p d up X \<Longrightarrow> Y \<subseteq> X \<Longrightarrow> (\<And>x. x \<in> Y \<Longrightarrow> (x \<in> set up) = (x \<in> set up')) \<Longrightarrow>
   tree_frame st st' p d up' Y"
  unfolding tree_frame_def by (simp add: subset_eq)

definition outside_kids :: "addr \<Rightarrow> stree \<Rightarrow> addr set" where
  "outside_kids p t = set (nodes t) - (\<Union>k \<in> set (kids p t). set (nodes k))"

definition lv :: "stree list \<Rightarrow> nat" where
  "lv ts = length (concat (map leaves ts))"

lemma tree_ok_untouched:
  assumes "tree_ok st t" "distinct (nodes t)" "tree_frame st st' p d up (set (nodes t))"
    "p \<notin> set (nodes t)" "set up \<inter> set (nodes t) = {}"
  shows "tree_ok st' t"
  using assms(1)
proof (rule tree_ok_frame)
  fix x assume x: "x \<in> set (nodes t)"
  then have "x \<noteq> p" "x \<notin> set up" using assms(4,5) by auto
  then show "s_leaf st' x = s_leaf st x \<and> s_nrun st' x = s_nrun st x \<and> s_down st' x = s_down st x"
    "s_hd st' x = s_hd st x \<and> s_tl st' x = s_tl st x \<and> s_up st' x = s_up st x"
    using assms(3) x by (auto simp: tree_frame_def)
qed (rule assms(2))

lemma tree_at_node:
  assumes "tree_ok st t" "distinct (nodes t)" "p \<in> set (internals t)" "length (leaves t) \<le> N"
    and "tree_frame st st' p d (path p t) (outside_kids p t)"
    and kq: "sched_q p st' (map node_at (f (kids p t)))"
    and kok: "\<And>k. k \<in> set (f (kids p t)) \<Longrightarrow> s_up st' (node_at k) = p \<and> tree_ok st' k"
    and cnt: "\<And>c. lv (kids p t) \<le> unat c \<Longrightarrow> unat c \<le> N \<Longrightarrow>
      unat (c + d) + lv (kids p t) = unat c + lv (f (kids p t))"
  shows "tree_ok st' (at_node p f t) \<and>
    length (leaves (at_node p f t)) + lv (kids p t) = length (leaves t) + lv (f (kids p t)) \<and>
    lv (kids p t) \<le> length (leaves t)"
  using assms
proof (induction t)
  case (Leaf a)
  then show ?case by simp
next
  case (Node a ts)
  have "a \<notin> set (nodes k)" if "k \<in> set (kids p (Node a ts))" for k
    using kids_nodes [OF Node.prems(2) that] by auto
  then have a: "a \<in> outside_kids p (Node a ts)"
    unfolding outside_kids_def by (simp del: kids.simps)
  have cnt_a: "unat (s_nrun st a) = length (leaves (Node a ts))" using Node.prems(1) by simp
  show ?case
  proof (cases "a = p")
    case True
    have "s_leaf st' a = s_leaf st a" "s_nrun st' a = s_nrun st a + d"
      using Node.prems(5) a True by (auto simp: tree_frame_def)
    moreover have "unat (s_nrun st a + d) = lv (f ts)"
      using Node.prems(8) [of "s_nrun st a"] cnt_a Node.prems(4) True by (simp add: lv_def)
    ultimately show ?thesis using True Node.prems(1,6,7) by (simp add: lv_def)
  next
    case False
    obtain as u bs where s: "ts = as @ u # bs" "p \<in> set (internals u)"
      "\<And>w. w \<in> set as \<union> set bs \<Longrightarrow> p \<notin> set (internals w) \<and> set (nodes w) \<inter> set (nodes u) = {}"
      "kids p (Node a ts) = kids p u" "distinct (nodes u)" "a \<notin> set (nodes u)"
      "at_node p f (Node a ts) = Node a (as @ at_node p f u # bs)"
      "path p (Node a ts) = (if path p u = [] then [] else path p u @ [a])"
      using split_subtree [OF Node.prems(2) False Node.prems(3)] by blast
    have up: "path p (Node a ts) = path p u @ [a]" using s(8) path_nonempty [OF s(2)] by simp
    have kin: "(\<Union>k \<in> set (kids p u). set (nodes k)) \<subseteq> set (nodes u) - {node_at u}"
      using kids_nodes [OF s(5)] by blast
    have len: "length (leaves u) \<le> N" using Node.prems(4) s(1) by simp
    have "outside_kids p u \<subseteq> outside_kids p (Node a ts)" using s(1,4) by (auto simp: outside_kids_def)
    moreover have "(x \<in> set (path p (Node a ts))) = (x \<in> set (path p u))" if "x \<in> outside_kids p u" for x
      using that s(6) up by (auto simp: outside_kids_def)
    ultimately have "tree_frame st st' p d (path p u) (outside_kids p u)"
      using Node.prems(5) tree_frame_sub by blast
    then have IH: "tree_ok st' (at_node p f u)"
      "length (leaves (at_node p f u)) + lv (kids p u) = length (leaves u) + lv (f (kids p u))"
      "lv (kids p u) \<le> length (leaves u)"
      using Node.IH [of u] s(1,2,5) len Node.prems(1,6-8) s(4) by auto
    have out: "set (nodes w) \<subseteq> outside_kids p (Node a ts)" if "w \<in> set as \<union> set bs" for w
      using that s(1,3,4) kin by (fastforce simp: outside_kids_def)
    have dw: "distinct (nodes w)" "a \<notin> set (nodes w)" "tree_ok st w" if "w \<in> set as \<union> set bs" for w
      using that Node.prems(1,2) s(1) by (auto simp: distinct_concat_iff)
    have rest: "tree_ok st' w" if w: "w \<in> set as \<union> set bs" for w
    proof (rule tree_ok_untouched)
      show "tree_ok st w" "distinct (nodes w)" using dw w by auto
      show "tree_frame st st' p d (path p (Node a ts)) (set (nodes w))"
        by (rule tree_frame_sub [OF Node.prems(5) out [OF w]]) (rule refl)
      show "p \<notin> set (nodes w)" using s(2,3) w internals_nodes [of u] by blast
      show "set (path p (Node a ts)) \<inter> set (nodes w) = {}"
        using up path_internals [of p u] internals_nodes [of u] s(3) w dw by fastforce
    qed
    have root: "node_at w \<in> outside_kids p (Node a ts)" if "w \<in> set ts" for w
    proof (cases "w = u")
      case True
      have "node_at u \<in> set (nodes (Node a ts))" using s(1) by simp
      moreover have "node_at u \<notin> (\<Union>k \<in> set (kids p u). set (nodes k))" using kin by blast
      ultimately show ?thesis unfolding outside_kids_def s(4) True by blast
    next
      case False
      then have "w \<in> set as \<union> set bs" using that s(1) by auto
      then show ?thesis using out node_at_nodes [of w] by blast
    qed
    have q: "sched_q a st' (map node_at ts)"
    proof (rule sched_q_frame)
      show "sched_q a st (map node_at ts)" using Node.prems(1) by simp
      show "s_down st' a = s_down st a" using Node.prems(5) a False by (auto simp: tree_frame_def)
      show "s_hd st' x = s_hd st x \<and> s_tl st' x = s_tl st x" if "x \<in> set (map node_at ts)" for x
        using that root Node.prems(5) by (auto simp: tree_frame_def)
    qed
    have ups: "s_up st' (node_at w) = a" if "w \<in> set ts" for w
      using that root Node.prems(1,5) by (auto simp: tree_frame_def)
    have "s_leaf st' a = s_leaf st a" "s_nrun st' a = s_nrun st a + d"
      using Node.prems(5) a up by (auto simp: tree_frame_def)
    moreover have "unat (s_nrun st a + d) + lv (kids p u) = unat (s_nrun st a) + lv (f (kids p u))"
      using Node.prems(8) [of "s_nrun st a"] cnt_a Node.prems(4) IH(3) s(1,4) by simp
    ultimately show ?thesis
      using s(1,4,7) IH rest q ups cnt_a Node.prems(1) by (auto simp: lv_def)
  qed
qed

text \<open>Following \<open>s_up\<close> from \<open>p\<close> visits the internal nodes up to the root.\<close>

lemma path_chain:
  assumes "tree_ok st t" "distinct (nodes t)" "0 \<notin> set (nodes t)" "p \<in> set (internals t)"
    "chain (s_up st) (s_up st (node_at t)) rest"
  shows "chain (s_up st) p (path p t @ rest)"
  using assms
proof (induction t arbitrary: rest)
  case (Node a ts)
  show ?case
  proof (cases "a = p")
    case True
    then show ?thesis using Node.prems by simp
  next
    case False
    obtain as u bs where s: "ts = as @ u # bs" "p \<in> set (internals u)" "distinct (nodes u)"
      "path p (Node a ts) = (if path p u = [] then [] else path p u @ [a])"
      using split_subtree [OF Node.prems(2) False Node.prems(4)] by blast
    have "chain (s_up st) p (path p u @ a # rest)"
    proof (rule Node.IH)
      show "u \<in> set ts" "tree_ok st u" "0 \<notin> set (nodes u)" using Node.prems s by auto
      show "chain (s_up st) (s_up st (node_at u)) (a # rest)" using Node.prems s(1) by auto
    qed (use s in auto)
    then show ?thesis using s path_nonempty [OF s(2)] by simp
  qed
qed simp

lemma path_self: "p \<in> set (internals t) \<Longrightarrow> p \<in> set (path p t)"
proof (induction t)
  case (Node a ts)
  show ?case
  proof (cases "a = p")
    case False
    then obtain u where "u \<in> set ts" "p \<in> set (path p u)" using Node by auto
    then have "p \<in> set (concat (map (path p) ts))" by auto
    moreover from this have "concat (map (path p) ts) \<noteq> []" by (metis empty_iff list.set(1))
    ultimately show ?thesis using False by (simp only: path.simps Let_def if_False set_append UnI1)
  qed simp
qed simp

lemma path_distinct: "distinct (nodes t) \<Longrightarrow> distinct (path p t)"
proof (induction t)
  case (Node a ts)
  show ?case
  proof (cases "a \<noteq> p \<and> p \<in> set (internals (Node a ts))")
    case True
    then obtain as u bs where s: "ts = as @ u # bs" "distinct (nodes u)" "a \<notin> set (nodes u)"
      "path p (Node a ts) = (if path p u = [] then [] else path p u @ [a])"
      using split_subtree [OF Node.prems, of p] by blast
    have "a \<notin> set (path p u)" using s(3) path_internals internals_nodes by blast
    then show ?thesis using s Node.IH [of u] by simp
  next
    case False
    then show ?thesis using absent [of p "Node a ts"] by (cases "a = p") auto
  qed
qed simp

lemma kids_ok:
  "tree_ok st t \<Longrightarrow> distinct (nodes t) \<Longrightarrow> p \<in> set (internals t) \<Longrightarrow>
   sched_q p st (map node_at (kids p t)) \<and> distinct (concat (map nodes (kids p t))) \<and>
   (\<forall>k \<in> set (kids p t). s_up st (node_at k) = p \<and> tree_ok st k) \<and> lv (kids p t) \<le> length (leaves t)"
proof (induction t)
  case (Node a ts)
  show ?case
  proof (cases "a = p")
    case True
    then show ?thesis using Node.prems by (auto simp: lv_def)
  next
    case False
    obtain as u bs where s: "ts = as @ u # bs" "p \<in> set (internals u)" "kids p (Node a ts) = kids p u"
      "distinct (nodes u)"
      using split_subtree [OF Node.prems(2) False Node.prems(3)] by blast
    then show ?thesis using Node.IH [of u] Node.prems by auto
  qed
qed simp

lemma leaf_parent:
  "tree_ok st (Node a ts) \<Longrightarrow> distinct (nodes (Node a ts)) \<Longrightarrow> l \<in> set (leaves (Node a ts)) \<Longrightarrow>
   s_up st l \<in> set (internals (Node a ts)) \<and> Leaf l \<in> set (kids (s_up st l) (Node a ts))"
proof (induction "Node a ts" arbitrary: a ts rule: measure_induct_rule [where f = size])
  case less
  obtain u where u: "u \<in> set ts" "l \<in> set (leaves u)" using less.prems(3) by auto
  have ok: "tree_ok st u" "distinct (nodes u)" "a \<notin> set (nodes u)"
    using less.prems(1,2) u(1) by (auto simp: distinct_concat_iff)
  show ?case
  proof (cases u)
    case (Leaf x)
    then show ?thesis using u less.prems(1) by auto
  next
    case (Node b us)
    have "s_up st l \<in> set (internals u) \<and> Leaf l \<in> set (kids (s_up st l) u)"
      unfolding Node
    proof (rule less.hyps)
      show "size (Node b us) < size (Node a ts)"
        using u(1) Node size_list_estimation' [of u ts "size u" size] by simp
    qed (use ok u Node in auto)
    moreover from this have "s_up st l \<noteq> a" using ok(3) internals_nodes [of u] by auto
    ultimately show ?thesis using u(1) by auto
  qed
qed

definition link_frame :: "sched_st \<Rightarrow> sched_st \<Rightarrow> addr \<Rightarrow> addr set \<Rightarrow> bool" where
  "link_frame st st' p K = (\<forall>x. s_leaf st' x = s_leaf st x \<and> s_up st' x = s_up st x \<and>
     (x \<noteq> p \<longrightarrow> s_down st' x = s_down st x) \<and>
     (x \<notin> K \<longrightarrow> s_hd st' x = s_hd st x \<and> s_tl st' x = s_tl st x))"

lemma same_kid:
  "distinct (concat (map nodes ks)) \<Longrightarrow> k \<in> set ks \<Longrightarrow> k' \<in> set ks \<Longrightarrow> x \<in> set (nodes k) \<Longrightarrow>
   x \<in> set (nodes k') \<Longrightarrow> k = k'"
  by (induction ks) auto

text \<open>One leaf \<open>l\<close> comes or goes among the children of \<open>p\<close>.\<close>

lemma tree_update:
  assumes t: "tree_ok st t" "distinct (nodes t)" "p \<in> set (internals t)" "length (leaves t) \<le> N"
    and lf: "link_frame st st' p (insert l (node_at ` set (kids p t)))"
    and nr: "\<And>x. x \<noteq> l \<Longrightarrow> s_nrun st' x = (if x \<in> set (path p t) then s_nrun st x + d else s_nrun st x)"
    and l: "l \<notin> set (nodes t) \<or> Leaf l \<in> set (kids p t)"
    and fs: "set (f (kids p t)) - {Leaf l} \<subseteq> set (kids p t)"
      "Leaf l \<in> set (f (kids p t)) \<Longrightarrow> s_leaf st' l \<and> s_nrun st' l = 1 \<and> s_up st' l = p"
    and kq: "sched_q p st' (map node_at (f (kids p t)))"
    and cnt: "\<And>c. lv (kids p t) \<le> unat c \<Longrightarrow> unat c \<le> N \<Longrightarrow>
      unat (c + d) + lv (kids p t) = unat c + lv (f (kids p t))"
  shows "tree_ok st' (at_node p f t) \<and>
    length (leaves (at_node p f t)) + lv (kids p t) = length (leaves t) + lv (f (kids p t))"
proof -
  note K = kids_ok [OF t(1-3)]
  have kn: "set (nodes k) \<subseteq> set (nodes t)" if "k \<in> set (kids p t)" for k
    using kids_nodes [OF t(2) that] by blast
  have lout: "l \<notin> outside_kids p t" using l by (force simp: outside_kids_def)
  have tf: "tree_frame st st' p d (path p t) (outside_kids p t)"
    unfolding tree_frame_def
  proof (intro ballI)
    fix x assume x: "x \<in> outside_kids p t"
    then have "x \<noteq> l" "x \<notin> insert l (node_at ` set (kids p t))"
      using lout by (auto simp: outside_kids_def)
    then show "s_leaf st' x = s_leaf st x \<and> s_up st' x = s_up st x \<and> s_hd st' x = s_hd st x \<and>
      s_tl st' x = s_tl st x \<and> (x \<noteq> p \<longrightarrow> s_down st' x = s_down st x) \<and>
      s_nrun st' x = (if x \<in> set (path p t) then s_nrun st x + d else s_nrun st x)"
      using lf nr [of x] by (simp add: link_frame_def)
  qed
  have kok: "s_up st' (node_at k) = p \<and> tree_ok st' k" if k: "k \<in> set (f (kids p t))" for k
  proof (cases "k = Leaf l")
    case True
    then show ?thesis using fs(2) k by simp
  next
    case False
    then have kk: "k \<in> set (kids p t)" using fs(1) k by auto
    have nl: "x \<noteq> l" if "x \<in> set (nodes k)" for x
    proof
      assume "x = l"
      then have "Leaf l \<in> set (kids p t)" using l kn [OF kk] that by auto
      then show False using same_kid [OF _ kk _ that, of "Leaf l"] K \<open>x = l\<close> False by auto
    qed
    have np: "x \<notin> set (path p t)" if "x \<in> set (nodes k)" for x
      using path_kids_disjoint [OF t(2) kk] that by blast
    have pp: "x \<noteq> p" if "x \<in> set (nodes k)" for x using np [OF that] path_self [OF t(3)] by auto
    have "tree_ok st' k"
    proof (rule tree_ok_frame)
      show "tree_ok st k" using K kk by blast
      show "distinct (nodes k)" using K kk by (auto simp: distinct_concat_iff)
      fix x assume x: "x \<in> set (nodes k)"
      show "s_leaf st' x = s_leaf st x \<and> s_nrun st' x = s_nrun st x \<and> s_down st' x = s_down st x"
        using lf nr [OF nl [OF x]] np [OF x] pp [OF x] by (simp add: link_frame_def)
      assume "x \<noteq> node_at k"
      then have "x \<notin> insert l (node_at ` set (kids p t))"
        using same_kid [OF _ kk _ x] K nl [OF x] by auto
      then show "s_hd st' x = s_hd st x \<and> s_tl st' x = s_tl st x \<and> s_up st' x = s_up st x"
        using lf by (simp add: link_frame_def)
    qed
    then show ?thesis using K kk lf by (simp add: link_frame_def)
  qed
  show ?thesis using tree_at_node [where f = f, OF t tf kq kok cnt] by blast
qed

section \<open>The whole tree\<close>

text \<open>
  The tree hangs under the static node \<open>sched_root\<close>, alone in its own ring and without parent.
  The bound is the width of \<open>s_nrun\<close>.
\<close>

definition root_ok :: "sched_st \<Rightarrow> stree \<Rightarrow> bool" where
  "root_ok st t = (tree_ok st t \<and> distinct (nodes t) \<and> 0 \<notin> set (nodes t) \<and> node_at t = sched_root \<and>
     internals t \<noteq> [] \<and> s_up st sched_root = 0 \<and> s_hd st sched_root = sched_root \<and>
     length (leaves t) < 65536)"

definition del_leaf :: "addr \<Rightarrow> addr \<Rightarrow> stree \<Rightarrow> stree" where
  "del_leaf p l t = at_node p (filter (\<lambda>k. k \<noteq> Leaf l)) t"

definition ins_leaf :: "addr \<Rightarrow> addr \<Rightarrow> stree \<Rightarrow> stree" where
  "ins_leaf p l t = at_node p (\<lambda>ks. ks @ [Leaf l]) t"

lemma root_internal: "internals t \<noteq> [] \<Longrightarrow> \<exists>a ts. t = Node a ts \<and> a \<in> set (internals t)"
  by (cases t) auto

lemma dequeue_link:
  assumes "sched_q p st xs" "s \<in> set xs"
  shows "link_frame st (dequeue p s st) p (set xs)"
proof -
  have "xs \<noteq> []" using assms(2) by auto
  then have r: "ring (s_hd st) (s_tl st) xs" using assms(1) by (simp add: sched_q_def ring_q_def)
  then have "s_hd st s \<in> set xs" "s_tl st s \<in> set xs"
    using assms(2) ring_next_in ring_prev_in by blast+
  then show ?thesis using assms(2) by (auto simp: link_frame_def dequeue_def Let_def)
qed

lemma sq_insert_link:
  assumes "sched_q p st xs" "s \<notin> set xs"
  shows "link_frame st (sq_insert p s st) p (insert s (set xs))"
proof (cases xs)
  case Nil
  then show ?thesis using assms by (auto simp: sched_q_def link_frame_def sq_insert_def)
next
  case (Cons x ys)
  then have "ring (s_hd st) (s_tl st) xs" "s_down st p = x"
    using assms by (auto simp: sched_q_def ring_q_Cons)
  then have "s_tl st x \<in> set xs" using Cons ring_prev_in by (metis list.set_intros(1))
  then show ?thesis using \<open>s_down st p = x\<close> Cons
    by (auto simp: link_frame_def sq_insert_def Let_def)
qed

lemma link_frame_nrun:
  "link_frame st (add_nrun k xs st1) p K = link_frame st st1 p K"
  by (simp add: link_frame_def frame)

lemma link_frame_mono: "link_frame st st' p K \<Longrightarrow> K \<subseteq> K' \<Longrightarrow> link_frame st st' p K'"
  by (auto simp: link_frame_def)

lemma sched_q_nrun [simp]: "sched_q p (add_nrun k xs st) ys = sched_q p st ys"
  by (simp add: sched_q_def frame)

lemma root_path_chain:
  assumes "root_ok st t" "p \<in> set (internals t)"
  shows "chain (s_up st) p (path p t)"
proof -
  have "chain (s_up st) p (path p t @ [])"
    by (rule path_chain) (use assms in \<open>auto simp: root_ok_def\<close>)
  then show ?thesis by simp
qed

lemma at_node_mset:
  "distinct (nodes t) \<Longrightarrow> p \<in> set (internals t) \<Longrightarrow>
   mset (nodes (at_node p f t)) + mset (concat (map nodes (kids p t))) =
   mset (nodes t) + mset (concat (map nodes (f (kids p t))))"
proof (induction t)
  case (Node a ts)
  show ?case
  proof (cases "a = p")
    case False
    obtain as u bs where s: "ts = as @ u # bs" "p \<in> set (internals u)" "distinct (nodes u)"
      "kids p (Node a ts) = kids p u" "\<forall>f. at_node p f (Node a ts) = Node a (as @ at_node p f u # bs)"
      using split_subtree [OF Node.prems(1) False Node.prems(2)] by blast
    have IH: "mset (nodes (at_node p f u)) + mset (concat (map nodes (kids p u))) =
        mset (nodes u) + mset (concat (map nodes (f (kids p u))))"
      using Node.IH [of u] s by simp
    have "mset (nodes (at_node p f (Node a ts))) + mset (concat (map nodes (kids p (Node a ts)))) =
        add_mset a (mset (concat (map nodes as)) + mset (concat (map nodes bs)) +
          (mset (nodes (at_node p f u)) + mset (concat (map nodes (kids p u)))))"
      unfolding s(4) s(5) [rule_format] by simp
    also have "\<dots> = mset (nodes (Node a ts)) + mset (concat (map nodes (f (kids p u))))"
      unfolding IH s(1) by simp
    finally show ?thesis unfolding s(4) .
  qed simp
qed simp

lemma at_node_internals: "internals t \<noteq> [] \<Longrightarrow> internals (at_node p f t) \<noteq> []"
  by (cases t) auto

lemma root_not_kid:
  "distinct (nodes t) \<Longrightarrow> k \<in> set (kids p t) \<Longrightarrow> node_at k \<noteq> node_at t"
  using kids_nodes [of t k p] node_at_nodes [of k] by blast

lemma root_ok_update:
  assumes ok: "root_ok st t" and p: "p \<in> set (internals t)"
    and lf: "link_frame st st' p (insert l (node_at ` set (kids p t)))" and l: "l \<noteq> sched_root"
    and t': "tree_ok st' (at_node p f t)" "length (leaves (at_node p f t)) < 65536"
    and d: "distinct (nodes (at_node p f t))" "0 \<notin> set (nodes (at_node p f t))"
  shows "root_ok st' (at_node p f t)"
proof -
  have "node_at k \<noteq> sched_root" if "k \<in> set (kids p t)" for k
    using root_not_kid [OF _ that] ok by (simp add: root_ok_def)
  then have "sched_root \<notin> insert l (node_at ` set (kids p t))" using l by (metis imageE insertE)
  then show ?thesis using assms at_node_internals [of t p f] by (simp add: root_ok_def link_frame_def)
qed

lemma pick_run_tree:
  assumes ok: "root_ok st t" and ne: "leaves t \<noteq> []"
  shows "\<exists>l st'. pick_run rnd sched_root st = Some (l, st') \<and> l \<in> set (leaves t) \<and> s_leaf st l \<and>
     root_ok st' (del_leaf (s_up st l) l t) \<and>
     add_mset l (mset (nodes (del_leaf (s_up st l) l t))) = mset (nodes t)"
proof -
  have T: "tree_ok st t" "distinct (nodes t)" "length (leaves t) \<le> 65535"
    using ok by (auto simp: root_ok_def)
  obtain ts where t: "t = Node sched_root ts" using ok root_internal by (fastforce simp: root_ok_def)
  have "ring_walk (s_hd st) sched_root sched_root = Some [sched_root]"
    using ok by (subst ring_walk.simps) (simp add: root_ok_def)
  moreover have "s_nrun st sched_root \<noteq> 0" using nrun_leaves [OF T(1)] ne t by simp
  then have "pick_sib st (rnd 0) [sched_root] = Some sched_root" by (simp add: pick_sib_def)
  ultimately have step: "pick_loop st rnd 0 sched_root = pick_loop st rnd 1 (s_down st sched_root)"
    using T(1) t by (subst pick_loop.simps) simp
  obtain l where l: "l \<in> set (leaves t)" "pick_loop st rnd 0 sched_root = Some l"
    using pick_loop_leaf [of st sched_root ts rnd 1] T(1) ne t step by auto
  let ?p = "s_up st l"
  have par: "?p \<in> set (internals t)" "Leaf l \<in> set (kids ?p t)"
    using leaf_parent [of st sched_root ts l] T t l(1) by auto
  note K = kids_ok [OF T(1,2) par(1)]
  obtain pre post where ks: "kids ?p t = pre @ Leaf l # post" using par(2) by (meson split_list)
  have fl: "filter (\<lambda>k. k \<noteq> Leaf l) (kids ?p t) = pre @ post"
  proof -
    have "Leaf l \<notin> set pre \<union> set post" using K ks by force
    then have "filter (\<lambda>k. k \<noteq> Leaf l) pre = pre" "filter (\<lambda>k. k \<noteq> Leaf l) post = post"
      by (auto simp: filter_id_conv)
    then show ?thesis using ks by simp
  qed
  let ?st1 = "dequeue ?p l st" and ?up = "l # path ?p t"
  let ?st' = "add_nrun (- 1) ?up ?st1"
  have "l \<in> set (nodes t)" using l(1) leaves_nodes by blast
  then have lnz: "l \<noteq> 0" using ok by (metis root_ok_def)
  have "chain (s_up ?st1) l ?up" using root_path_chain [OF ok par(1)] lnz by (simp add: frame)
  then have w: "chain_walk (s_up ?st1) l = Some ?up" by (rule chain_walk_chain)
  have dup: "distinct ?up"
    using path_distinct [OF T(2)] path_kids_disjoint [OF T(2) par(2)] by auto
  have "link_frame st ?st1 ?p (set (map node_at (kids ?p t)))"
    by (rule dequeue_link) (use K ks in auto)
  then have lf: "link_frame st ?st' ?p (insert l (node_at ` set (kids ?p t)))"
    unfolding link_frame_nrun by (rule link_frame_mono) auto
  have tree: "tree_ok ?st' (at_node ?p (filter (\<lambda>k. k \<noteq> Leaf l)) t) \<and>
      length (leaves (at_node ?p (filter (\<lambda>k. k \<noteq> Leaf l)) t)) + lv (kids ?p t) =
      length (leaves t) + lv (filter (\<lambda>k. k \<noteq> Leaf l) (kids ?p t))"
  proof (rule tree_update [OF T(1,2) par(1) T(3) lf])
    show "s_nrun ?st' x = (if x \<in> set (path ?p t) then s_nrun st x + - 1 else s_nrun st x)" if "x \<noteq> l" for x
      using that dup by (simp add: add_nrun_s_nrun frame)
    show "sched_q ?p ?st' (map node_at (filter (\<lambda>k. k \<noteq> Leaf l) (kids ?p t)))"
      using dequeue_q [of ?p st "map node_at pre" l "map node_at post"] K ks fl by simp
    show "unat (c + - 1) + lv (kids ?p t) = unat c + lv (filter (\<lambda>k. k \<noteq> Leaf l) (kids ?p t))"
      if "lv (kids ?p t) \<le> unat c" for c :: u16
      using that unat_u16_dec [of c] fl ks by (simp add: lv_def)
  qed (use par in auto)
  have "pick_run rnd sched_root st = Some (l, ?st')"
    using l(2) w by (simp add: pick_run_def)
  moreover have "s_leaf st l"
    using K par(2) by auto
  moreover have "lv (kids ?p t) = Suc (lv (pre @ post))" unfolding ks by (simp add: lv_def)
  then have len: "length (leaves (at_node ?p (filter (\<lambda>k. k \<noteq> Leaf l)) t)) < 65536"
    using tree T(3) unfolding fl by simp
  moreover have ms: "add_mset l (mset (nodes (at_node ?p (filter (\<lambda>k. k \<noteq> Leaf l)) t))) = mset (nodes t)"
  proof -
    have "mset (nodes (at_node ?p (filter (\<lambda>k. k \<noteq> Leaf l)) t)) + mset (concat (map nodes (kids ?p t))) =
        mset (nodes t) + mset (concat (map nodes (pre @ post)))"
      using at_node_mset [OF T(2) par(1), of "filter (\<lambda>k. k \<noteq> Leaf l)"] by (simp only: fl)
    then show ?thesis unfolding ks by simp
  qed
  moreover have "distinct (nodes (at_node ?p (filter (\<lambda>k. k \<noteq> Leaf l)) t))"
    using ms T(2) by (metis distinct.simps(2) mset.simps(2) mset_eq_imp_distinct_iff)
  moreover have "0 \<notin> set (nodes (at_node ?p (filter (\<lambda>k. k \<noteq> Leaf l)) t))"
    using ms ok by (metis insert_iff root_ok_def set_mset_add_mset_insert set_mset_mset)
  moreover have "sched_root \<noteq> l" using \<open>s_leaf st l\<close> T(1) t by auto
  ultimately show ?thesis
    using l(1) tree root_ok_update [OF ok par(1) lf] unfolding del_leaf_def by blast
qed

lemma lsetrun_tree:
  assumes ok: "root_ok st t"
    and th: "t_wchan st th = 0" "\<not> t_rt st th" "\<not> t_bg st th"
      "\<not> (CHEAT_TICKS < t_runticks st th \<and> t_oink st th = 0)"
    and s: "t_runq st th = s" "s \<noteq> 0" "s_leaf st s" "s_nrun st s = 0" "s \<notin> set (nodes t)"
      "s_up st s \<in> set (internals t)"
    and bound: "length (leaves t) < 65535"
  shows "\<exists>st'. lsetrun th st = Some st' \<and> root_ok st' (ins_leaf (s_up st s) s t) \<and>
     mset (nodes (ins_leaf (s_up st s) s t)) = add_mset s (mset (nodes t))"
proof -
  let ?p = "s_up st s"
  let ?st0 = "st\<lparr>t_state := (t_state st)(th := TS_RUN), num_run := num_run st + 1\<rparr>"
  let ?st1 = "sq_insert ?p s ?st0" and ?up = "s # path ?p t"
  let ?st' = "add_nrun 1 ?up ?st1"
  let ?f = "\<lambda>ks. ks @ [Leaf s]"
  have T: "tree_ok st t" "distinct (nodes t)" "length (leaves t) \<le> 65534"
    using ok bound by (auto simp: root_ok_def)
  note K = kids_ok [OF T(1,2) s(6)]
  have kn: "s \<notin> set (map node_at (kids ?p t))"
  proof
    assume "s \<in> set (map node_at (kids ?p t))"
    then obtain k where "k \<in> set (kids ?p t)" "s \<in> set (nodes k)" by auto
    then show False using kids_nodes [OF T(2)] s(5) by blast
  qed
  have q0: "sched_q ?p ?st0 (map node_at (kids ?p t))" using K by (simp add: sched_q_def)
  have "chain (s_up ?st1) s ?up" using root_path_chain [OF ok s(6)] s(2) by (simp add: frame)
  then have w: "chain_walk (s_up ?st1) s = Some ?up" by (rule chain_walk_chain)
  have dup: "distinct ?up"
    using path_distinct [OF T(2)] path_internals internals_nodes s(5) by fastforce
  have lf0: "link_frame ?st0 ?st1 ?p (insert s (set (map node_at (kids ?p t))))"
    by (rule sq_insert_link [OF q0 kn])
  then have lf: "link_frame st ?st' ?p (insert s (node_at ` set (kids ?p t)))"
    unfolding link_frame_nrun by (simp add: link_frame_def)
  have tree: "tree_ok ?st' (at_node ?p ?f t) \<and>
      length (leaves (at_node ?p ?f t)) + lv (kids ?p t) = length (leaves t) + lv (?f (kids ?p t))"
  proof (rule tree_update [OF T(1,2) s(6) T(3) lf])
    show "s_nrun ?st' x = (if x \<in> set (path ?p t) then s_nrun st x + 1 else s_nrun st x)" if "x \<noteq> s" for x
      using that dup by (simp add: add_nrun_s_nrun frame)
    show "s \<notin> set (nodes t) \<or> Leaf s \<in> set (kids ?p t)" using s(5) by simp
    show "s_leaf ?st' s \<and> s_nrun ?st' s = 1 \<and> s_up ?st' s = ?p"
      using s dup by (simp add: add_nrun_s_nrun frame)
    show "sched_q ?p ?st' (map node_at (?f (kids ?p t)))"
      using sq_insert_q [OF q0 s(2) kn] by simp
    show "unat (c + 1) + lv (kids ?p t) = unat c + lv (?f (kids ?p t))" if "unat c \<le> 65534" for c :: u16
      using that unat_u16_inc [of c] by (simp add: lv_def)
  qed auto
  then have len: "length (leaves (at_node ?p ?f t)) = Suc (length (leaves t))" by (simp add: lv_def)
  have "mset (nodes (at_node ?p ?f t)) + mset (concat (map nodes (kids ?p t))) =
      mset (nodes t) + mset (concat (map nodes (?f (kids ?p t))))"
    by (rule at_node_mset [OF T(2) s(6)])
  then have ms: "mset (nodes (at_node ?p ?f t)) = add_mset s (mset (nodes t))" by simp
  then have d: "distinct (nodes (at_node ?p ?f t))"
    using s(5) T(2) by (metis distinct.simps(2) mset.simps(2) mset_eq_imp_distinct_iff)
  have z: "0 \<notin> set (nodes (at_node ?p ?f t))"
    using ms s(2) ok by (metis insert_iff root_ok_def set_mset_add_mset_insert set_mset_mset)
  have "sched_root \<in> set (nodes t)" using ok by (metis node_at_nodes root_ok_def)
  then have "s \<noteq> sched_root" using s(5) by auto
  then have "root_ok ?st' (at_node ?p ?f t)"
    using root_ok_update [OF ok s(6) lf] tree len bound d z by simp
  moreover have "lsetrun th st = Some ?st'"
    using th s w by (auto simp: lsetrun_def Let_def)
  ultimately show ?thesis using ms unfolding ins_leaf_def by blast
qed

section \<open>The dice\<close>

definition wins :: "(addr \<Rightarrow> nat) \<Rightarrow> addr list \<Rightarrow> addr \<Rightarrow> nat \<Rightarrow> nat" where
  "wins prio xs z lo = card {r. lo \<le> r \<and> r < sum_list (map prio xs) \<and> dice prio xs r = z}"

lemma wins_from_one:
  "xs \<noteq> [] \<Longrightarrow> distinct xs \<Longrightarrow> \<forall>x \<in> set xs. 0 < prio x \<Longrightarrow> z \<in> set xs \<Longrightarrow>
   wins prio xs z 1 = (if z = last xs then prio z - 1 else prio z)"
proof (induction xs)
  case (Cons x ys)
  show ?case
  proof (cases ys)
    case Nil
    have "{r. 1 \<le> r \<and> r < prio x} = {1 ..< prio x}" by auto
    then show ?thesis using Cons.prems Nil by (simp add: wins_def)
  next
    case ys: (Cons y zs)
    let ?S = "sum_list (map prio ys)"
    have pos: "0 < ?S" using Cons.prems(3) ys by simp
    show ?thesis
    proof (cases "z = x")
      case True
      have "dice prio ys r \<noteq> x" for r using dice_in [of ys prio r] Cons.prems(2) ys by auto
      then have "{r. 1 \<le> r \<and> r < sum_list (map prio (x # ys)) \<and> dice prio (x # ys) r = z} = {1 .. prio x}"
        using True ys pos by auto
      then have "wins prio (x # ys) z 1 = prio x" by (simp only: wins_def) simp
      moreover have "last (x # ys) \<in> set ys" using ys by simp
      then have "last (x # ys) \<noteq> x" using Cons.prems(2) by auto
      ultimately show ?thesis using True by simp
    next
      case False
      have "{r. 1 \<le> r \<and> r < sum_list (map prio (x # ys)) \<and> dice prio (x # ys) r = z} =
          (\<lambda>r. r + prio x) ` {r. 1 \<le> r \<and> r < ?S \<and> dice prio ys r = z}" (is "?A = ?B")
      proof
        show "?B \<subseteq> ?A" using ys by auto
        show "?A \<subseteq> ?B"
        proof
          fix r assume "r \<in> ?A"
          then have "prio x < r" "r < prio x + ?S" "dice prio ys (r - prio x) = z"
            using False ys by (auto split: if_splits)
          then show "r \<in> ?B" by (intro image_eqI [of _ _ "r - prio x"]) auto
        qed
      qed
      then have "wins prio (x # ys) z 1 = wins prio ys z 1"
        unfolding wins_def by (simp add: card_image)
      moreover have "z \<in> set ys" using Cons.prems(4) False by simp
      ultimately show ?thesis using Cons.IH Cons.prems ys by simp
    qed
  qed
qed simp

lemma wins_from_zero:
  assumes "xs \<noteq> []" "\<forall>x \<in> set xs. 0 < prio x"
  shows "wins prio xs z 0 = wins prio xs z 1 + (if z = hd xs then 1 else 0)"
proof -
  have z: "dice prio xs 0 = hd xs" using assms(1) by (cases "(prio, xs, 0 :: nat)" rule: dice.cases) auto
  have p: "0 < sum_list (map prio xs)" using assms by (cases xs) auto
  let ?R = "\<lambda>lo. {r. lo \<le> r \<and> r < sum_list (map prio xs) \<and> dice prio xs r = z}"
  have "?R 0 = ?R 1 \<union> (if z = hd xs then {0} else {})"
    using z p by (auto simp: Suc_le_eq split: if_splits) (metis gr0I)+
  moreover have "finite (?R 1)" by simp
  ultimately show ?thesis unfolding wins_def by (auto simp: card_insert_if)
qed

section \<open>What the scheduler guarantees\<close>

lemma preempt_scan_result:
  assumes "preempt_scan st c pri lo = Some r"
  shows "snd (snd r) = nextcpu st \<and> (pc_up st c \<or> c = nextcpu st)"
proof (rule preempt_scan.raw_induct [where P = "\<lambda>st c pri lo r. snd (snd r) = nextcpu st \<and> (pc_up st c \<or> c = nextcpu st)"])
  fix scan st c pri lowest r
  assume IH: "\<And>st c pri lo r. scan st c pri lo = Some r \<Longrightarrow>
      snd (snd r) = nextcpu st \<and> (pc_up st c \<or> c = nextcpu st)"
    and body: "(if \<not> pc_up st c then if c = nextcpu st then Some (pri, lowest, c) else scan st c pri lowest
       else let (pri', lowest') = if pc_pri st c < pri then (pc_pri st c, c) else (pri, lowest)
         in if pc_next st c = nextcpu st then Some (pri', lowest', pc_next st c)
            else scan st (pc_next st c) pri' lowest') = Some r"
  show "snd (snd r) = nextcpu st \<and> (pc_up st c \<or> c = nextcpu st)"
  proof (cases "pc_up st c")
    case True
    then show ?thesis using body IH [of st "pc_next st c"] by (auto simp: Let_def split: if_splits)
  next
    case False
    then show ?thesis using body IH [of st c pri lowest r] by (auto split: if_splits)
  qed
qed (rule assms)

text \<open>
  A booted processor with one CPU at 1, a process node 10 below the root, and threads 21, 22
  and 23 with the nodes 11, 12 and 13; 21 and 22 wait in the tree, 23 runs.
\<close>

definition demo_sched :: sched_st where
  "demo_sched = \<lparr>s_up = (\<lambda>_. 0)(10 := 4, 11 := 10, 12 := 10, 13 := 10),
     s_hd = (\<lambda>_. 0)(1 := 1, 2 := 2, 3 := 3, 4 := 4, 10 := 10, 11 := 12, 12 := 11),
     s_tl = (\<lambda>_. 0)(1 := 1, 2 := 2, 3 := 3, 4 := 4, 10 := 10, 11 := 12, 12 := 11),
     s_down = (\<lambda>_. 0)(4 := 10, 10 := 11), s_thread = (\<lambda>_. 0)(11 := 21, 12 := 22, 13 := 23),
     s_refs = (\<lambda>_. 1)(4 := 2, 10 := 3), s_prio = \<lambda>_. 50,
     s_leaf = (\<lambda>_. False)(11 := True, 12 := True, 13 := True),
     s_nrun = (\<lambda>_. 0)(4 := 2, 10 := 2, 11 := 1, 12 := 1),
     t_runq = (\<lambda>_. 0)(21 := 11, 22 := 12, 23 := 13),
     t_state = (\<lambda>_. TS_SLEEP)(21 := TS_RUN, 22 := TS_RUN, 23 := TS_ONPROC),
     t_rt = \<lambda>_. False, t_bg = \<lambda>_. False, t_runticks = \<lambda>_. 0, t_oink = \<lambda>_. 0, t_wchan = \<lambda>_. 0,
     t_eng = \<lambda>_. 1, pc_up = \<lambda>_. True, pc_pri = \<lambda>_. PRI_TIMESHARE, pc_next = \<lambda>_. 1, nextcpu = 1,
     nudged = [], cpu = 1, curthread = 23, do_preempt = True, num_run = 3\<rparr>"

definition demo_tree :: stree where
  "demo_tree = Node sched_root [Node 10 [Leaf 11, Leaf 12]]"

lemma demo_root_ok: "root_ok demo_sched demo_tree"
  by (simp add: root_ok_def demo_sched_def demo_tree_def sched_root_def sched_q_def ring_q_Cons ring_Cons)

text \<open>
  C18. The scheduling tree: when some thread waits in the tree, \<open>pick_run\<close> ends, whatever the
  dice, at a leaf of the tree; that leaf and only that leaf leaves the tree, all sibling
  rings stay intact and \<open>s_nrun\<close> again counts the leaves below every node.
\<close>

theorem pick_run_removes_leaf:
  assumes "root_ok st t" and "leaves t \<noteq> []"
  shows "\<exists>l st'. pick_run rnd sched_root st = Some (l, st') \<and> l \<in> set (leaves t) \<and> s_leaf st l \<and>
     root_ok st' (del_leaf (s_up st l) l t) \<and>
     add_mset l (mset (nodes (del_leaf (s_up st l) l t))) = mset (nodes t)"
  using assms by (rule pick_run_tree)

theorem pick_run_removes_leaf_witness:
  "\<exists>l st'. pick_run (\<lambda>_. 60) sched_root demo_sched = Some (l, st') \<and> l \<in> {11, 12} \<and>
     add_mset l (mset (nodes (del_leaf (s_up demo_sched l) l demo_tree))) = {#4, 10, 11, 12#}"
  using pick_run_removes_leaf [OF demo_root_ok, of "\<lambda>_. 60"]
  by (fastforce simp: demo_tree_def sched_root_def)

text \<open>
  Making a timeshare thread runnable puts its node, once, below its parent in the tree,
  and keeps the rings and the counts of the tree right all the way up.
\<close>

theorem lsetrun_adds_leaf:
  assumes "root_ok st t" and "t_wchan st th = 0" and "\<not> t_rt st th" and "\<not> t_bg st th"
    and "\<not> (CHEAT_TICKS < t_runticks st th \<and> t_oink st th = 0)"
    and "t_runq st th = s" and "s \<noteq> 0" and "s_leaf st s" and "s_nrun st s = 0"
    and "s \<notin> set (nodes t)" and "s_up st s \<in> set (internals t)" and "length (leaves t) < 65535"
  shows "\<exists>st'. lsetrun th st = Some st' \<and> root_ok st' (ins_leaf (s_up st s) s t) \<and>
     mset (nodes (ins_leaf (s_up st s) s t)) = add_mset s (mset (nodes t))"
  using assms by (rule lsetrun_tree)

theorem lsetrun_adds_leaf_witness:
  "\<exists>st'. lsetrun 23 demo_sched = Some st' \<and> root_ok st' (Node 4 [Node 10 [Leaf 11, Leaf 12, Leaf 13]])"
  using lsetrun_adds_leaf [OF demo_root_ok, of 23 13]
  by (fastforce simp: demo_tree_def demo_sched_def sched_root_def ins_leaf_def CHEAT_TICKS_def RUN_TICKS_def)

text \<open>
  C24. \<open>swtch\<close> serves the classes in order, real-time, cheated, timeshare, background, takes
  the oldest entry of a queue, and finds nothing to run only when nothing is runnable.
\<close>

theorem swtch_class_order:
  assumes "sched_q sched_rt st rts" and "sched_q sched_cheated st chs" and "sched_q sched_bg st bgs"
    and "root_ok st t" and "list_all (s_leaf st) (rts @ bgs)"
  shows "case rts of
      s # ss \<Rightarrow> \<exists>st'. swtch_choose rnd st = Some (Some (s, PRI_RT), st') \<and> sched_q sched_rt st' ss
    | [] \<Rightarrow> (case chs of
      s # ss \<Rightarrow> \<exists>st'. swtch_choose rnd st = Some (Some (s, PRI_CHEATED), st') \<and> sched_q sched_cheated st' ss
    | [] \<Rightarrow> if leaves t \<noteq> [] then
        \<exists>s st'. swtch_choose rnd st = Some (Some (s, PRI_TIMESHARE), st') \<and> s \<in> set (leaves t) \<and>
           root_ok st' (del_leaf (s_up st s) s t)
      else (case bgs of
        s # ss \<Rightarrow> \<exists>st'. swtch_choose rnd st = Some (Some (s, PRI_BG), st') \<and> sched_q sched_bg st' ss
      | [] \<Rightarrow> swtch_choose rnd st = Some (None, st)))"
proof -
  have N: "(s_nrun st sched_root \<noteq> 0) = (leaves t \<noteq> [])"
    using assms(4) nrun_leaves by (metis root_ok_def)
  have deq: "sched_q par (dequeue par s st) ss" "s_down st par = s" "s \<noteq> 0" if "sched_q par st (s # ss)" for par s ss
    using schedq.rep_deq [OF that] sched_q_front [OF that] by auto
  have nil: "s_down st par = 0" if "sched_q par st []" for par
    using that by (simp add: sched_q_def)
  show ?thesis
  proof (cases rts)
    case (Cons s ss)
    then show ?thesis using deq [of sched_rt s ss] assms(1,5)
      by (simp add: swtch_choose_def Let_def frame)
  next
    case rt: Nil
    show ?thesis
    proof (cases chs)
      case (Cons s ss)
      then show ?thesis using deq [of sched_cheated s ss] nil [of sched_rt] assms(1,2) rt
        by (simp add: swtch_choose_def Let_def)
    next
      case ch: Nil
      have z: "s_down st sched_rt = 0" "s_down st sched_cheated = 0" using nil assms(1,2) rt ch by auto
      show ?thesis
      proof (cases "leaves t = []")
        case True
        then have "s_nrun st sched_root = 0" using N by simp
        then show ?thesis using True rt ch z deq [of sched_bg] nil [of sched_bg] assms(3,5)
          by (cases bgs) (simp_all add: swtch_choose_def Let_def frame)
      next
        case False
        then have "0 < s_nrun st sched_root" using N by (simp add: word_gt_0)
        then show ?thesis using False rt ch z pick_run_tree [OF assms(4) False, of rnd]
          by (auto simp: swtch_choose_def)
      qed
    qed
  qed
qed

theorem swtch_class_order_witness:
  "\<exists>s st'. swtch_choose (\<lambda>_. 60) demo_sched = Some (Some (s, PRI_TIMESHARE), st') \<and> s \<in> {11, 12}"
proof -
  have "sched_q sched_rt demo_sched []" "sched_q sched_cheated demo_sched []" "sched_q sched_bg demo_sched []"
    by (simp_all add: sched_q_def demo_sched_def sched_heads)
  from swtch_class_order [OF this demo_root_ok, of "\<lambda>_. 60"] show ?thesis
    by (auto simp: demo_tree_def)
qed

text \<open>
  The shares of CPU time: of the rolls 0 to sum - 1, each sibling wins as many as its
  priority, except that the first wins one more and the last one less, because the code
  compares with \<open>>=\<close>.
\<close>

theorem dice_shares:
  assumes "xs \<noteq> []" and "distinct xs" and "list_all (\<lambda>x. 0 < prio x) xs" and "z \<in> set xs"
  shows "card {r. r < sum_list (map prio xs) \<and> dice prio xs r = z} + (if z = last xs then 1 else 0) =
    prio z + (if z = hd xs then 1 else 0)"
proof -
  have pos: "\<forall>x \<in> set xs. 0 < prio x" using assms(3) by (simp add: list_all_iff)
  have "0 < prio z" using pos assms(4) by blast
  moreover have "wins prio xs z 0 = card {r. r < sum_list (map prio xs) \<and> dice prio xs r = z}"
    by (simp add: wins_def)
  ultimately show ?thesis
    using wins_from_zero [OF assms(1) pos, of z] wins_from_one [OF assms(1,2) pos assms(4)] by auto
qed

theorem dice_shares_witness:
  "card {r. r < sum_list (map (\<lambda>_. 50) [11 :: addr, 12]) \<and> dice (\<lambda>_. 50) [11, 12] r = 11} = 51"
  using dice_shares [of "[11, 12]" "\<lambda>_. 50" 11] by simp

text \<open>
  Real-time threads run in the order in which they became runnable, whatever the order
  of arrivals and departures.
\<close>

theorem rt_queue_fifo:
  assumes "sched_q sched_rt st xs"
    and "qlegal (sq_insert sched_rt) (\<lambda>st. dequeue sched_rt (s_down st sched_rt) st) (sq_adm sched_rt) st xs ops"
    and "qrun (sq_insert sched_rt) (\<lambda>st. dequeue sched_rt (s_down st sched_rt) st)
           (\<lambda>st. s_down st sched_rt) st ops = (out, st')"
  shows "\<exists>ys. sched_q sched_rt st' ys \<and> out @ ys = xs @ puts ops"
  by (rule schedq.run_fifo [OF assms])

theorem rt_queue_fifo_witness:
  "fst (qrun (sq_insert sched_rt) (\<lambda>st. dequeue sched_rt (s_down st sched_rt) st)
     (\<lambda>st. s_down st sched_rt) demo_sched [Put 13, Take]) = [13]"
proof -
  have q: "sched_q sched_rt demo_sched []" by (simp add: sched_q_def demo_sched_def sched_heads)
  have u: "xs = []" if "sched_q sched_rt demo_sched xs" for xs
    using sched_q_null [OF that] by (simp add: demo_sched_def sched_heads)
  have "13 \<notin> set xs" if "sched_q sched_rt demo_sched xs" for xs using u [OF that] by simp
  then have a: "sq_adm sched_rt 13 demo_sched" by (simp add: sq_adm_def)
  have l: "qlegal (sq_insert sched_rt) (\<lambda>st. dequeue sched_rt (s_down st sched_rt) st) (sq_adm sched_rt)
     demo_sched [] [Put 13, Take]" using a by simp
  obtain out st' where r: "qrun (sq_insert sched_rt) (\<lambda>st. dequeue sched_rt (s_down st sched_rt) st)
     (\<lambda>st. s_down st sched_rt) demo_sched [Put 13, Take] = (out, st')" by fastforce
  then have "length out = 1" by auto
  then show ?thesis using rt_queue_fifo [OF q l r] r by (auto simp: length_Suc_conv)
qed

text \<open>
  \<open>preempt()\<close> does not preempt the engine with the lowest priority: when it returns it
  has nudged \<open>nextcpu\<close>, and it never returns when the engine after \<open>nextcpu\<close> is down.
\<close>

theorem preempt_ignores_priority:
  "(preempt st = Some st' \<longrightarrow> nudged st' = nextcpu st # nudged st) \<and>
   (pc_up st (nextcpu st) \<and> \<not> pc_up st (pc_next st (nextcpu st)) \<and> pc_next st (nextcpu st) \<noteq> nextcpu st
      \<longrightarrow> preempt st = None)"
proof (intro conjI impI)
  assume p: "preempt st = Some st'"
  obtain pri lo c where s: "preempt_scan st (nextcpu st) 99 0 = Some (pri, lo, c)"
    using p by (auto simp: preempt_def split: option.splits)
  have "c = nextcpu st" using preempt_scan_result [OF s] by simp
  then show "nudged st' = nextcpu st # nudged st" using p s by (auto simp: preempt_def split: if_splits)
next
  assume a: "pc_up st (nextcpu st) \<and> \<not> pc_up st (pc_next st (nextcpu st)) \<and> pc_next st (nextcpu st) \<noteq> nextcpu st"
  have "preempt_scan st (pc_next st (nextcpu st)) pri lo = None" for pri lo
  proof (rule ccontr)
    assume "preempt_scan st (pc_next st (nextcpu st)) pri lo \<noteq> None"
    then obtain r where "preempt_scan st (pc_next st (nextcpu st)) pri lo = Some r" by auto
    then show False using preempt_scan_result a by blast
  qed
  then have "preempt_scan st (nextcpu st) 99 0 = None"
    using a by (subst preempt_scan.simps) (simp add: Let_def split: prod.split)
  then show "preempt st = None" by (simp add: preempt_def)
qed

theorem preempt_ignores_priority_witness:
  "preempt (demo_sched\<lparr>pc_next := (\<lambda>_. 1)(1 := 2), pc_up := (\<lambda>_. True)(2 := False)\<rparr>) = None"
  by (rule conjunct2 [OF preempt_ignores_priority, THEN mp]) (simp add: demo_sched_def)

text \<open>
  \<open>sched_prichg()\<close> changes the flags of whatever thread the uninitialised variable \<open>t\<close>
  designates: if that is not the caller, the call succeeds and the caller's class, as
  \<open>SCHEDOP_GETPRIO\<close> reports it, is what it was.
\<close>

theorem sched_setprio_misses_caller:
  assumes "garbage \<noteq> curthread st" and "PRI_IDLE < pri" and "pri < PRI_RT"
  shows "\<exists>st'. sched_op root garbage rnd 0 (int pri) st = Some (st', Inr 0) \<and>
     map_option snd (sched_op root garbage rnd 1 0 st') = map_option snd (sched_op root garbage rnd 1 0 st)"
  using assms by (simp add: sched_op_def sched_prichg_def Let_def pri_defs)

theorem sched_setprio_misses_caller_witness:
  "\<exists>st'. sched_op (Inl EPERM) 0 (\<lambda>_. 0) 0 (int PRI_BG) demo_sched = Some (st', Inr 0) \<and>
     map_option snd (sched_op (Inl EPERM) 0 (\<lambda>_. 0) 1 0 st') = Some (Inr 2)"
  using sched_setprio_misses_caller [of 0 demo_sched PRI_BG "Inl EPERM" "\<lambda>_. 0"]
  by (simp add: demo_sched_def pri_defs sched_op_def)

end
