(* ===== verification/Semaphores.thy ===== *)
theory Semaphores
  imports Scheduler
begin

text \<open>
  Sleeping semaphores, the second half of \<open>os/mach/mutex.c\<close>.  A semaphore has a count and a
  queue of sleeping threads linked by \<open>t_hd\<close> and \<open>t_tl\<close>.  \<open>s_lock\<close> is taken at \<open>SPLHI\<close> and
  released before the function ends or gives up the processor, so on the one processor each
  function is a step; the lock's own flag is kept, since \<open>cunsleep()\<close> tests it.  \<open>p_sema()\<close>
  consists of what it does before \<open>swtch()\<close> and what it does when the thread runs again.
  A failing \<open>ASSERT_DEBUG\<close> is \<open>None\<close>.
\<close>

record sema =
  s_lock :: bool
  s_count :: int
  s_sleepq :: addr

datatype pri = PRILO | PRICATCH | PRIHI

record kern =
  sch :: sched_st
  sem :: "addr \<Rightarrow> sema"
  t_hd :: "addr \<Rightarrow> addr"
  t_tl :: "addr \<Rightarrow> addr"
  t_intr :: "addr \<Rightarrow> bool"
  t_nointr :: "addr \<Rightarrow> bool"
  spin :: "addr \<Rightarrow> bool"

section \<open>Operations\<close>

definition set_count :: "addr \<Rightarrow> int \<Rightarrow> kern \<Rightarrow> kern" where
  "set_count s n st = st\<lparr>sem := (sem st)(s := (sem st s)\<lparr>s_count := n\<rparr>)\<rparr>"

definition set_sleepq :: "addr \<Rightarrow> addr \<Rightarrow> kern \<Rightarrow> kern" where
  "set_sleepq s q st = st\<lparr>sem := (sem st)(s := (sem st s)\<lparr>s_sleepq := q\<rparr>)\<rparr>"

definition q_sema :: "addr \<Rightarrow> addr \<Rightarrow> kern \<Rightarrow> kern" where
  "q_sema s t st =
     (if s_sleepq (sem st s) = 0 then
        (set_sleepq s t st)\<lparr>t_hd := (t_hd st)(t := t), t_tl := (t_tl st)(t := t)\<rparr>
      else
        let t2 = s_sleepq (sem st s);
            hds = (t_hd st)(t := t2);
            tls = (t_tl st)(t := t_tl st t2)
        in st\<lparr>t_hd := hds(tls t := t), t_tl := tls(t2 := t)\<rparr>)"

definition dq_sema :: "addr \<Rightarrow> addr \<Rightarrow> kern \<Rightarrow> kern option" where
  "dq_sema s t st0 =
     (if \<not> s_count (sem st0 s) < 0 then None
      else
        let st = set_count s (s_count (sem st0 s) + 1) st0;
            st1 = (if t_hd st t = t then set_sleepq s 0 st
              else
                let tls = (t_tl st)(t_hd st t := t_tl st t);
                    hds = (t_hd st)(tls t := t_hd st t);
                    st2 = st\<lparr>t_hd := hds, t_tl := tls\<rparr>
                in if s_sleepq (sem st2 s) = t then set_sleepq s (t_hd st2 t) st2 else st2)
        in Some (st1\<lparr>t_hd := (t_hd st1)(t := 0), t_tl := (t_tl st1)(t := 0)\<rparr>))"

text \<open>The slow path of \<open>p_sema\<close> and \<open>p_sema_v_lock\<close>: thread \<open>t\<close> goes to sleep on \<open>s\<close>.\<close>

definition sema_sleep :: "addr \<Rightarrow> pri \<Rightarrow> addr \<Rightarrow> kern \<Rightarrow> kern" where
  "sema_sleep s p t st0 =
     (let st = st0\<lparr>sch := (sch st0)\<lparr>t_wchan := (t_wchan (sch st0))(t := s)\<rparr>,
                   t_nointr := (t_nointr st0)(t := (p = PRIHI)),
                   t_intr := (t_intr st0)(t := False)\<rparr>;
          st1 = q_sema s t st
      in st1\<lparr>sch := (sch st1)\<lparr>t_state := (t_state (sch st1))(t := TS_SLEEP),
                              num_run := num_run (sch st1) - 1\<rparr>\<rparr>)"

text \<open>The first component tells whether the caller went to sleep.\<close>

definition p_sema_start :: "addr \<Rightarrow> pri \<Rightarrow> kern \<Rightarrow> (bool \<times> kern) option" where
  "p_sema_start s p st0 =
     (if s_lock (sem st0 s) then None
      else
        let st = set_count s (s_count (sem st0 s) - 1) st0 in
        if 0 \<le> s_count (sem st s) then Some (False, st)
        else Some (True, sema_sleep s p (curthread (sch st)) st))"

definition p_sema :: "(nat \<Rightarrow> nat) \<Rightarrow> addr \<Rightarrow> pri \<Rightarrow> kern \<Rightarrow> (bool \<times> kern) option" where
  "p_sema random s p st =
     (case p_sema_start s p st of
        None \<Rightarrow> None
      | Some (False, st1) \<Rightarrow> Some (False, st1)
      | Some (True, st1) \<Rightarrow> map_option (\<lambda>sc. (True, st1\<lparr>sch := sc\<rparr>)) (swtch random (sch st1)))"

datatype wakeup = Took | Interrupted | Longjmp

definition p_sema_resume :: "pri \<Rightarrow> addr \<Rightarrow> kern \<Rightarrow> (wakeup \<times> kern) option" where
  "p_sema_resume p t st0 =
     (let st = st0\<lparr>t_nointr := (t_nointr st0)(t := False)\<rparr> in
      if t_intr st t then
        (if t_wchan (sch st) t \<noteq> 0 \<or> p = PRIHI then None
         else if p \<noteq> PRICATCH then Some (Longjmp, st) else Some (Interrupted, st))
      else Some (Took, st))"

definition cp_sema :: "addr \<Rightarrow> kern \<Rightarrow> (int \<times> kern) option" where
  "cp_sema s st =
     (if s_lock (sem st s) then None
      else if 0 < s_count (sem st s) then Some (0, set_count s (s_count (sem st s) - 1) st)
      else Some (- 1, st))"

definition v_sema :: "addr \<Rightarrow> kern \<Rightarrow> kern option" where
  "v_sema s st =
     (if s_lock (sem st s) then None
      else if s_sleepq (sem st s) \<noteq> 0 then
        let t = s_sleepq (sem st s) in
        if \<not> s_count (sem st s) < 0 \<or> t_wchan (sch st) t \<noteq> s then None
        else Option.bind (dq_sema s t st) (\<lambda>st1.
          let sc = (sch st1)\<lparr>t_wchan := (t_wchan (sch st1))(t := 0)\<rparr> in
          map_option (\<lambda>sc'. st1\<lparr>sch := sc'\<rparr>) (setrun t sc))
      else Some (set_count s (s_count (sem st s) + 1) st))"

partial_function (option) vall_sema :: "addr \<Rightarrow> kern \<Rightarrow> kern option" where
  "vall_sema s st =
     (if s_count (sem st s) < 0 then Option.bind (v_sema s st) (vall_sema s) else Some st)"

definition blocked_sema :: "addr \<Rightarrow> kern \<Rightarrow> bool" where
  "blocked_sema s st = (s_count (sem st s) < 0)"

definition init_sema :: "addr \<Rightarrow> kern \<Rightarrow> kern" where
  "init_sema s st = st\<lparr>sem := (sem st)(s := \<lparr>s_lock = False, s_count = 1, s_sleepq = 0\<rparr>)\<rparr>"

definition set_sema :: "addr \<Rightarrow> int \<Rightarrow> kern \<Rightarrow> kern" where
  "set_sema s cnt st = set_count s cnt st"

text \<open>\<open>spin\<close> are the spinlocks that callers hand over; releasing one that is not held stops the kernel.\<close>

definition p_sema_v_lock_start :: "addr \<Rightarrow> pri \<Rightarrow> addr \<Rightarrow> kern \<Rightarrow> (bool \<times> kern) option" where
  "p_sema_v_lock_start s p l st0 =
     (if s_lock (sem st0 s) \<or> \<not> spin st0 l then None
      else
        let st = set_count s (s_count (sem st0 s) - 1) st0 in
        if 0 \<le> s_count (sem st s) then Some (False, st\<lparr>spin := (spin st)(l := False)\<rparr>)
        else let st1 = sema_sleep s p (curthread (sch st)) st in
          Some (True, st1\<lparr>spin := (spin st1)(l := False)\<rparr>))"

definition p_sema_v_lock :: "(nat \<Rightarrow> nat) \<Rightarrow> addr \<Rightarrow> pri \<Rightarrow> addr \<Rightarrow> kern \<Rightarrow> (bool \<times> kern) option" where
  "p_sema_v_lock random s p l st =
     (case p_sema_v_lock_start s p l st of
        None \<Rightarrow> None
      | Some (False, st1) \<Rightarrow> Some (False, st1)
      | Some (True, st1) \<Rightarrow> map_option (\<lambda>sc. (True, st1\<lparr>sch := sc\<rparr>)) (swtch random (sch st1)))"

definition cunsleep :: "addr \<Rightarrow> kern \<Rightarrow> (int \<times> kern) option" where
  "cunsleep t st =
     (if t_wchan (sch st) t = 0 then None
      else
        let sp = t_wchan (sch st) t in
        if s_lock (sem st sp) then Some (1, st)
        else Option.bind (dq_sema sp t st) (\<lambda>st1.
          Some (0, st1\<lparr>sch := (sch st1)\<lparr>t_wchan := (t_wchan (sch st1))(t := 0)\<rparr>,
                       t_intr := (t_intr st1)(t := True)\<rparr>)))"

section \<open>The sleep queue\<close>

text \<open>
  \<open>sleepers s st xs\<close>: the threads of \<open>xs\<close>, oldest first, sleep on \<open>s\<close>.  The count is negative
  exactly when somebody sleeps, and then says how many.
\<close>

definition sleepers :: "addr \<Rightarrow> kern \<Rightarrow> addr list \<Rightarrow> bool" where
  "sleepers s st xs =
     (ring_q (s_sleepq (sem st s)) (t_hd st) (t_tl st) xs \<and> \<not> s_lock (sem st s) \<and>
      (\<forall>t \<in> set xs. t_wchan (sch st) t = s) \<and>
      (if xs = [] then 0 \<le> s_count (sem st s) else s_count (sem st s) = - int (length xs)))"

lemma set_count_simps [simp]:
  "sem (set_count s n st) s = (sem st s)\<lparr>s_count := n\<rparr>" "t_hd (set_count s n st) = t_hd st"
  "t_tl (set_count s n st) = t_tl st" "sch (set_count s n st) = sch st"
  "s' \<noteq> s \<Longrightarrow> sem (set_count s n st) s' = sem st s'" "spin (set_count s n st) = spin st"
  "t_intr (set_count s n st) = t_intr st" "t_nointr (set_count s n st) = t_nointr st"
  by (simp_all add: set_count_def)

lemma set_sleepq_simps [simp]:
  "sem (set_sleepq s n st) s = (sem st s)\<lparr>s_sleepq := n\<rparr>" "t_hd (set_sleepq s n st) = t_hd st"
  "t_tl (set_sleepq s n st) = t_tl st" "sch (set_sleepq s n st) = sch st"
  "s' \<noteq> s \<Longrightarrow> sem (set_sleepq s n st) s' = sem st s'" "spin (set_sleepq s n st) = spin st"
  "t_intr (set_sleepq s n st) = t_intr st" "t_nointr (set_sleepq s n st) = t_nointr st"
  by (simp_all add: set_sleepq_def)

lemma q_sema_frame [frame]:
  "sch (q_sema s t st) = sch st" "s_count (sem (q_sema s t st) s) = s_count (sem st s)"
  "s_lock (sem (q_sema s t st) s) = s_lock (sem st s)"
  by (simp_all add: q_sema_def Let_def)

lemma q_sema_ring:
  assumes "ring_q (s_sleepq (sem st s)) (t_hd st) (t_tl st) xs" "t \<noteq> 0" "t \<notin> set xs"
  shows "ring_q (s_sleepq (sem (q_sema s t st) s)) (t_hd (q_sema s t st)) (t_tl (q_sema s t st)) (xs @ [t])"
proof (cases xs)
  case Nil
  then show ?thesis using assms by (simp add: q_sema_def ring_q_Cons)
next
  case (Cons x ys)
  then have "s_sleepq (sem st s) = x" "x \<noteq> 0" "t \<noteq> x" using assms by (auto simp: ring_q_Cons)
  then show ?thesis using ring_q_snoc [OF assms(1) _ assms(2,3)] Cons
    by (simp add: q_sema_def Let_def fun_upd_twist)
qed

lemma dq_sema_ring:
  assumes q: "ring_q (s_sleepq (sem st s)) (t_hd st) (t_tl st) (xs @ t # ys)"
    and neg: "s_count (sem st s) < 0"
  shows "\<exists>st'. dq_sema s t st = Some st' \<and>
    ring_q (s_sleepq (sem st' s)) (t_hd st') (t_tl st') (xs @ ys) \<and>
    s_count (sem st' s) = s_count (sem st s) + 1 \<and> s_lock (sem st' s) = s_lock (sem st s) \<and>
    sch st' = sch st \<and> t_intr st' = t_intr st \<and> t_nointr st' = t_nointr st \<and> spin st' = spin st \<and>
    (\<forall>s'. s' \<noteq> s \<longrightarrow> sem st' s' = sem st s')"
proof -
  have u: "(t_hd st t = t) = (xs @ ys = [])"
    "xs @ ys \<noteq> [] \<Longrightarrow> t_tl st t \<noteq> t \<and>
       ring_q (if s_sleepq (sem st s) = t then t_hd st t else s_sleepq (sem st s))
       ((t_hd st)(t_tl st t := t_hd st t, t := 0)) ((t_tl st)(t_hd st t := t_tl st t, t := 0)) (xs @ ys)"
    using ring_q_unlink [OF q, of 0 0] by auto
  show ?thesis
  proof (cases "xs @ ys = []")
    case True
    then show ?thesis using u(1) neg by (simp add: dq_sema_def)
  next
    case False
    then show ?thesis using u(1) u(2) [OF False] neg
      by (cases "s_sleepq (sem st s) = t") (simp_all add: dq_sema_def Let_def)
  qed
qed

section \<open>What each operation does to the sleep queue\<close>

lemma preempt_frame [frame]: "preempt sc = Some sc' \<Longrightarrow> t_wchan sc' = t_wchan sc \<and> curthread sc' = curthread sc"
  by (auto simp: preempt_def split: option.splits if_splits)

lemma sq_insert_wchan [frame]:
  "t_wchan (sq_insert p s sc) = t_wchan sc" "curthread (sq_insert p s sc) = curthread sc"
  by (simp_all add: sq_insert_def Let_def)

lemma dequeue_wchan [frame]: "t_wchan (dequeue p s sc) = t_wchan sc"
  by (simp add: dequeue_def Let_def)

lemma add_nrun_wchan [frame]:
  "t_wchan (add_nrun k xs sc) = t_wchan sc" "curthread (add_nrun k xs sc) = curthread sc"
  unfolding add_nrun_def by (induction xs arbitrary: sc) auto

lemma lsetrun_wchan:
  "lsetrun t sc = Some sc' \<Longrightarrow> t_wchan sc' = t_wchan sc \<and> curthread sc' = curthread sc"
  by (auto simp: lsetrun_def Let_def frame split: if_splits dest!: preempt_frame)

lemma pick_run_wchan: "pick_run rnd r sc = Some (s, sc') \<Longrightarrow> t_wchan sc' = t_wchan sc"
  by (auto simp: pick_run_def Let_def frame split: bind_splits)

lemma swtch_wchan: "swtch rnd sc = Some sc' \<Longrightarrow> t_wchan sc' = t_wchan sc"
  by (auto simp: swtch_def swtch_choose_def Let_def frame split: option.splits if_splits prod.splits
      dest!: pick_run_wchan)

lemma sleepers_count:
  "sleepers s st xs \<Longrightarrow> (s_count (sem st s) < 0) = (xs \<noteq> []) \<and> (s_sleepq (sem st s) = 0) = (xs = [])"
  unfolding sleepers_def using ring_q_null by (auto split: if_splits)

lemma sema_sleep_sleepers:
  assumes "ring_q (s_sleepq (sem st s)) (t_hd st) (t_tl st) xs" "\<not> s_lock (sem st s)"
    "\<forall>u \<in> set xs. t_wchan (sch st) u = s" "s_count (sem st s) = - int (Suc (length xs))"
    "t \<noteq> 0" "t \<notin> set xs"
  shows "sleepers s (sema_sleep s p t st) (xs @ [t])"
proof -
  let ?st = "st\<lparr>sch := (sch st)\<lparr>t_wchan := (t_wchan (sch st))(t := s)\<rparr>,
     t_nointr := (t_nointr st)(t := (p = PRIHI)), t_intr := (t_intr st)(t := False)\<rparr>"
  have "ring_q (s_sleepq (sem (q_sema s t ?st) s)) (t_hd (q_sema s t ?st)) (t_tl (q_sema s t ?st)) (xs @ [t])"
    using assms by (intro q_sema_ring) auto
  then show ?thesis using assms by (auto simp: sleepers_def sema_sleep_def Let_def frame)
qed

lemma sema_sleep_wchan: "t_wchan (sch (sema_sleep s p t st)) = (t_wchan (sch st))(t := s)"
  by (simp add: sema_sleep_def Let_def frame)

text \<open>\<open>p_sema\<close> goes through while the count lasts; otherwise the thread queues last.\<close>

lemma p_sema_start_spec:
  assumes q: "sleepers s st xs" and t: "t = curthread (sch st)" "t \<noteq> 0" "t \<notin> set xs"
  shows "if 0 < s_count (sem st s)
    then p_sema_start s p st = Some (False, set_count s (s_count (sem st s) - 1) st) \<and>
      sleepers s (set_count s (s_count (sem st s) - 1) st) []
    else \<exists>st'. p_sema_start s p st = Some (True, st') \<and> sleepers s st' (xs @ [t]) \<and>
      t_wchan (sch st') = (t_wchan (sch st))(t := s)"
proof (cases "0 < s_count (sem st s)")
  case True
  then have "xs = []" using q by (auto simp: sleepers_def split: if_splits)
  then show ?thesis using True q by (auto simp: p_sema_start_def sleepers_def Let_def)
next
  case False
  let ?st = "set_count s (s_count (sem st s) - 1) st"
  have "s_count (sem st s) = - int (length xs)" using q False by (auto simp: sleepers_def split: if_splits)
  then have "sleepers s (sema_sleep s p t ?st) (xs @ [t])"
    using q t by (intro sema_sleep_sleepers) (auto simp: sleepers_def)
  then show ?thesis using False q t
    by (auto simp: p_sema_start_def Let_def sleepers_def sema_sleep_wchan)
qed

lemma v_sema_spec:
  assumes q: "sleepers s st xs" and v: "v_sema s st = Some st'" and s: "s \<noteq> 0"
  shows "case xs of
      [] \<Rightarrow> st' = set_count s (s_count (sem st s) + 1) st \<and> sleepers s st' []
    | t # ys \<Rightarrow> sleepers s st' ys \<and> t_wchan (sch st') = (t_wchan (sch st))(t := 0) \<and>
        s_count (sem st' s) = s_count (sem st s) + 1"
proof (cases xs)
  case Nil
  then show ?thesis using v q by (auto simp: v_sema_def sleepers_def split: if_splits)
next
  case (Cons t ys)
  have h: "s_sleepq (sem st s) = t" "t \<noteq> 0" "t_wchan (sch st) t = s" "s_count (sem st s) < 0"
    using q Cons by (auto simp: sleepers_def ring_q_Cons)
  have "ring_q (s_sleepq (sem st s)) (t_hd st) (t_tl st) ([] @ t # ys)"
    using q Cons by (simp add: sleepers_def)
  from dq_sema_ring [OF this h(4)] obtain st1 where d: "dq_sema s t st = Some st1"
    "ring_q (s_sleepq (sem st1 s)) (t_hd st1) (t_tl st1) ys"
    "s_count (sem st1 s) = s_count (sem st s) + 1" "s_lock (sem st1 s) = s_lock (sem st s)"
    "sch st1 = sch st" by auto
  obtain sc where sc: "lsetrun t ((sch st1)\<lparr>t_wchan := (t_wchan (sch st1))(t := 0)\<rparr>) = Some sc"
    "st' = st1\<lparr>sch := sc\<rparr>"
    using v h d(1) q by (auto simp: v_sema_def Let_def setrun_def sleepers_def)
  then have w: "t_wchan sc = (t_wchan (sch st))(t := 0)" using lsetrun_wchan [OF sc(1)] d(5) by simp
  have "distinct (t # ys)" using q Cons ring_q_distinct unfolding sleepers_def by blast
  then have "\<forall>u \<in> set ys. t_wchan (sch st') u = s" using q Cons w sc(2) by (auto simp: sleepers_def)
  moreover have "s_count (sem st s) = - int (Suc (length ys))" "\<not> s_lock (sem st s)"
    using q Cons by (auto simp: sleepers_def)
  ultimately have "sleepers s st' ys" using d sc(2) by (simp add: sleepers_def)
  then show ?thesis using Cons d(3) sc(2) w by simp
qed

lemma cunsleep_spec:
  assumes q: "sleepers s st (as @ t # bs)" and c: "cunsleep t st = Some (r, st')" and s: "s \<noteq> 0"
  shows "r = 0 \<and> sleepers s st' (as @ bs) \<and> t_wchan (sch st') = (t_wchan (sch st))(t := 0) \<and>
    s_count (sem st' s) = s_count (sem st s) + 1 \<and> t_intr st' t"
proof -
  have w: "t_wchan (sch st) t = s" "s_count (sem st s) < 0" "\<not> s_lock (sem st s)"
    using q by (auto simp: sleepers_def)
  have r: "ring_q (s_sleepq (sem st s)) (t_hd st) (t_tl st) (as @ t # bs)" using q by (simp add: sleepers_def)
  obtain st1 where d: "dq_sema s t st = Some st1"
    "ring_q (s_sleepq (sem st1 s)) (t_hd st1) (t_tl st1) (as @ bs)"
    "s_count (sem st1 s) = s_count (sem st s) + 1" "s_lock (sem st1 s) = s_lock (sem st s)"
    "sch st1 = sch st" using dq_sema_ring [OF r w(2)] by auto
  have res: "r = 0" "st' = st1\<lparr>sch := (sch st1)\<lparr>t_wchan := (t_wchan (sch st1))(t := 0)\<rparr>,
      t_intr := (t_intr st1)(t := True)\<rparr>"
    using c w s d(1) by (auto simp: cunsleep_def Let_def)
  have "distinct (as @ t # bs)" using r by (rule ring_q_distinct)
  then have "\<forall>u \<in> set (as @ bs). t_wchan (sch st') u = s" using q res d(5) by (auto simp: sleepers_def)
  moreover have "s_count (sem st s) = - int (Suc (length (as @ bs)))"
    using q by (auto simp: sleepers_def)
  ultimately have "sleepers s st' (as @ bs)" using d res w(3) by (simp add: sleepers_def)
  then show ?thesis using d res by simp
qed

section \<open>The sleep queue is FIFO\<close>

text \<open>Going to sleep and being woken, seen as operations of a queue of threads.\<close>

definition sema_enq :: "addr \<Rightarrow> addr \<Rightarrow> kern \<Rightarrow> kern" where
  "sema_enq s t st = sema_sleep s PRIHI t (set_count s (s_count (sem st s) - 1) st)"

definition sema_deq :: "addr \<Rightarrow> kern \<Rightarrow> kern" where
  "sema_deq s st =
     (let t = s_sleepq (sem st s); st1 = the (dq_sema s t st) in
      st1\<lparr>sch := (sch st1)\<lparr>t_wchan := (t_wchan (sch st1))(t := 0)\<rparr>\<rparr>)"

definition waiting :: "addr \<Rightarrow> kern \<Rightarrow> addr list \<Rightarrow> bool" where
  "waiting s st xs = (sleepers s st xs \<and> s_count (sem st s) = - int (length xs))"

interpretation semaq: fifo "sema_enq s" "sema_deq s" "\<lambda>st. s_sleepq (sem st s)"
  "\<lambda>t st. t \<noteq> 0 \<and> t_wchan (sch st) t \<noteq> s" "waiting s" for s
proof
  fix st :: kern and xs t
  show "waiting s (sema_enq s t st) (xs @ [t])"
    if w: "waiting s st xs" and a: "t \<noteq> 0 \<and> t_wchan (sch st) t \<noteq> s"
  proof -
    have "t \<notin> set xs" using w a by (auto simp: waiting_def sleepers_def)
    then have "sleepers s (sema_enq s t st) (xs @ [t])" unfolding sema_enq_def
      using w a by (intro sema_sleep_sleepers) (auto simp: waiting_def sleepers_def)
    then show ?thesis by (simp add: waiting_def sleepers_def)
  qed
  show "s_sleepq (sem st s) = t" if "waiting s st (t # xs)"
    using that by (auto simp: waiting_def sleepers_def ring_q_Cons)
  show "waiting s (sema_deq s st) xs" if w: "waiting s st (t # xs)"
  proof -
    have h: "s_sleepq (sem st s) = t" "s_count (sem st s) < 0" "\<not> s_lock (sem st s)"
      "s_count (sem st s) = - int (Suc (length xs))" "\<forall>u \<in> set (t # xs). t_wchan (sch st) u = s"
      using w by (auto simp: waiting_def sleepers_def ring_q_Cons)
    have r: "ring_q (s_sleepq (sem st s)) (t_hd st) (t_tl st) ([] @ t # xs)"
      using w by (simp add: waiting_def sleepers_def)
    then obtain st1 where d: "dq_sema s t st = Some st1" "ring_q (s_sleepq (sem st1 s)) (t_hd st1) (t_tl st1) xs"
      "s_count (sem st1 s) = s_count (sem st s) + 1" "s_lock (sem st1 s) = s_lock (sem st s)" "sch st1 = sch st"
      using dq_sema_ring [OF r h(2)] by auto
    have "t \<notin> set xs" using ring_q_distinct [OF r] by simp
    then have "\<forall>u \<in> set xs. t_wchan (sch (sema_deq s st)) u = s" using h(5) d h(1)
      by (auto simp: sema_deq_def)
    then show ?thesis using h d by (simp add: waiting_def sleepers_def sema_deq_def)
  qed
qed

section \<open>A semaphore as a mutex\<close>

text \<open>
  Threads that bracket a section with \<open>p_sema\<close> and \<open>v_sema\<close> of one semaphore: the state and
  the set of threads inside.  A thread enters by a \<open>p_sema\<close> or \<open>cp_sema\<close> that goes through, or
  when the \<open>v_sema\<close> of another hands the semaphore over to it; a sleeper may be interrupted by
  \<open>cunsleep\<close>; the processor may switch threads at any time.
\<close>

inductive mutex_step :: "addr \<Rightarrow> kern \<times> addr set \<Rightarrow> kern \<times> addr set \<Rightarrow> bool" for s where
  enter: "p_sema_start s p st = Some (slept, st') \<Longrightarrow> t = curthread (sch st) \<Longrightarrow> t \<noteq> 0 \<Longrightarrow> t \<notin> H \<Longrightarrow>
    t_wchan (sch st) t = 0 \<Longrightarrow> mutex_step s (st, H) (st', if slept then H else insert t H)"
| try_enter: "cp_sema s st = Some (r, st') \<Longrightarrow> t = curthread (sch st) \<Longrightarrow> t \<notin> H \<Longrightarrow>
    t_wchan (sch st) t = 0 \<Longrightarrow> mutex_step s (st, H) (st', if r = 0 then insert t H else H)"
| leave: "v_sema s st = Some st' \<Longrightarrow> t \<in> H \<Longrightarrow>
    mutex_step s (st, H) (st', (H - {t}) \<union> (if s_sleepq (sem st s) = 0 then {} else {s_sleepq (sem st s)}))"
| interrupt: "cunsleep t st = Some (0, st') \<Longrightarrow> t_wchan (sch st) t = s \<Longrightarrow> t_nointr st t = False \<Longrightarrow>
    mutex_step s (st, H) (st', H)"
| switch: "swtch rnd (sch st) = Some sc \<Longrightarrow> mutex_step s (st, H) (st\<lparr>sch := sc\<rparr>, H)"

inductive_cases mutex_stepE: "mutex_step s (st, H) (st', H')"

text \<open>Threads that sleep on \<open>s\<close> are exactly those of its queue.\<close>

definition mutex_inv :: "addr \<Rightarrow> kern \<times> addr set \<Rightarrow> bool" where
  "mutex_inv s c = (case c of (st, H) \<Rightarrow>
     \<exists>xs. sleepers s st xs \<and> finite H \<and> (\<forall>t. (t_wchan (sch st) t = s) = (t \<in> set xs)) \<and>
       H \<inter> set xs = {} \<and> s_count (sem st s) = 1 - int (card H) - int (length xs))"

lemma mutex_invE:
  assumes "mutex_inv s (st, H)"
  obtains xs where "sleepers s st xs" "finite H" "\<And>t. (t_wchan (sch st) t = s) = (t \<in> set xs)"
    "H \<inter> set xs = {}" "s_count (sem st s) = 1 - int (card H) - int (length xs)"
  using assms by (auto simp: mutex_inv_def)

lemma mutex_invI:
  assumes "sleepers s st xs" "finite H" "\<And>t. (t_wchan (sch st) t = s) = (t \<in> set xs)"
    "H \<inter> set xs = {}" "s_count (sem st s) = 1 - int (card H) - int (length xs)"
  shows "mutex_inv s (st, H)"
  using assms by (auto simp: mutex_inv_def)

lemma sleepers_length: "sleepers s st xs \<Longrightarrow> xs \<noteq> [] \<Longrightarrow> s_count (sem st s) = - int (length xs)"
  by (simp add: sleepers_def)

lemma mutex_inv_step:
  assumes s: "s \<noteq> 0" and step: "mutex_step s (st, H) (st', H')" and inv: "mutex_inv s (st, H)"
  shows "mutex_inv s (st', H')"
proof -
  obtain xs where q: "sleepers s st xs" and fin: "finite H"
    and w: "\<And>t. (t_wchan (sch st) t = s) = (t \<in> set xs)" and dis: "H \<inter> set xs = {}"
    and cnt: "s_count (sem st s) = 1 - int (card H) - int (length xs)"
    using mutex_invE [OF inv] by metis
  have dist: "distinct xs" using q ring_q_distinct unfolding sleepers_def by blast
  show ?thesis using step
  proof (cases rule: mutex_stepE [consumes 1, case_names enter try_enter leave interrupt switch])
    case (enter p slept)
    let ?t = "curthread (sch st)"
    have tx: "?t \<notin> set xs" using w [of ?t] enter s by auto
    have t0: "?t \<noteq> 0" using enter(3) by simp
    note P = p_sema_start_spec [OF q refl t0 tx, of p]
    show ?thesis
    proof (cases "0 < s_count (sem st s)")
      case True
      then have xs: "xs = []" using sleepers_length [OF q] by (cases xs) auto
      have "st' = set_count s (s_count (sem st s) - 1) st" "slept = False" "sleepers s st' []"
        using P True enter(2) by auto
      then show ?thesis using enter xs fin w cnt by (intro mutex_invI [of s st' "[]"]) auto
    next
      case False
      then obtain st1 where "p_sema_start s p st = Some (True, st1)" "sleepers s st1 (xs @ [?t])"
        "t_wchan (sch st1) = (t_wchan (sch st))(?t := s)" using P by auto
      then have *: "slept = True" "sleepers s st' (xs @ [?t])" "t_wchan (sch st') = (t_wchan (sch st))(?t := s)"
        using enter(2) by auto
      have "s_count (sem st' s) = - int (length (xs @ [?t]))" using sleepers_length [OF *(2)] by simp
      moreover have "s_count (sem st s) = - int (length xs)"
        using False sleepers_length [OF q] q by (cases "xs = []") (auto simp: sleepers_def)
      ultimately show ?thesis using * enter fin w dis cnt
        by (intro mutex_invI [of s st' "xs @ [?t]"]) auto
    qed
  next
    case (try_enter r)
    let ?t = "curthread (sch st)"
    have tx: "?t \<notin> set xs" using w [of ?t] try_enter s by auto
    show ?thesis
    proof (cases "0 < s_count (sem st s)")
      case True
      then have xs: "xs = []" using sleepers_length [OF q] by (cases xs) auto
      have "st' = set_count s (s_count (sem st s) - 1) st" "r = 0"
        using True try_enter(2) by (auto simp: cp_sema_def split: if_splits)
      then show ?thesis using try_enter xs fin w cnt q True
        by (intro mutex_invI [of s st' "[]"]) (auto simp: sleepers_def)
    next
      case False
      then have "st' = st" "r = - 1" using try_enter(2) by (auto simp: cp_sema_def split: if_splits)
      then show ?thesis using try_enter inv by simp
    qed
  next
    case (leave t)
    note V = v_sema_spec [OF q leave(2) s]
    have c: "int (card (H - {t})) = int (card H) - 1" using fin leave(3) card_Diff_singleton card_gt_0_iff
      by (metis One_nat_def Suc_leI card_0_eq empty_iff int_ops(6) of_nat_1 of_nat_diff gr0I)
    show ?thesis
    proof (cases xs)
      case Nil
      then have "s_sleepq (sem st s) = 0" using sleepers_count [OF q] by simp
      then show ?thesis using Nil V leave fin w cnt c by (intro mutex_invI [of s st' "[]"]) auto
    next
      case (Cons u ys)
      then have su: "s_sleepq (sem st s) = u" "u \<noteq> 0" using q by (auto simp: sleepers_def ring_q_Cons)
      have uH: "u \<notin> H" using dis Cons by auto
      have v: "sleepers s st' ys" "t_wchan (sch st') = (t_wchan (sch st))(u := 0)"
        "s_count (sem st' s) = s_count (sem st s) + 1" using V Cons by auto
      have H': "H' = insert u (H - {t})" using leave su by auto
      have "int (card H') = int (card H)" using H' c fin uH by simp
      then show ?thesis using v H' fin w dis cnt dist Cons s by (intro mutex_invI [of s st' ys]) auto
    qed
  next
    case (interrupt t)
    then have "t \<in> set xs" using w by simp
    then obtain as bs where xs: "xs = as @ t # bs" by (meson split_list)
    have "sleepers s st' (as @ bs)" "t_wchan (sch st') = (t_wchan (sch st))(t := 0)"
      "s_count (sem st' s) = s_count (sem st s) + 1"
      using cunsleep_spec [of s st as t bs 0 st'] q xs interrupt s by auto
    then show ?thesis using interrupt fin w dis cnt dist xs s by (intro mutex_invI [of s st' "as @ bs"]) auto
  next
    case (switch rnd sc)
    then have "t_wchan sc = t_wchan (sch st)" using swtch_wchan by blast
    then show ?thesis using switch q fin w dis cnt by (intro mutex_invI [of s st' xs]) (auto simp: sleepers_def)
  qed
qed

lemma mutex_inv_steps:
  assumes "(mutex_step s)\<^sup>*\<^sup>* c c'" "s \<noteq> 0" "mutex_inv s c"
  shows "mutex_inv s c'"
  using assms
proof (induction rule: rtranclp_induct)
  case (step c' c'')
  then show ?case using mutex_inv_step by (cases c', cases c'') blast
qed

lemma mutex_init:
  assumes "\<And>t. t_wchan (sch st) t \<noteq> s"
  shows "mutex_inv s (init_sema s st, {})"
  using assms by (intro mutex_invI [of s _ "[]"]) (auto simp: init_sema_def sleepers_def)

section \<open>What the semaphores guarantee\<close>

fun v_times :: "nat \<Rightarrow> addr \<Rightarrow> kern \<Rightarrow> kern option" where
  "v_times 0 s st = Some st"
| "v_times (Suc n) s st = Option.bind (v_sema s st) (v_times n s)"

lemma vall_sema_times: "sleepers s st xs \<Longrightarrow> s \<noteq> 0 \<Longrightarrow> vall_sema s st = v_times (length xs) s st"
proof (induction xs arbitrary: st)
  case Nil
  then show ?case by (subst vall_sema.simps) (simp add: sleepers_def)
next
  case (Cons t ys)
  have neg: "s_count (sem st s) < 0" using sleepers_count [OF Cons.prems(1)] by simp
  show ?case
  proof (cases "v_sema s st")
    case None
    then show ?thesis using neg by (subst vall_sema.simps) simp
  next
    case (Some st1)
    then have "sleepers s st1 ys" using v_sema_spec [OF Cons.prems(1) _ Cons.prems(2)] by simp
    then show ?thesis using Cons.IH [of st1] Cons.prems(2) neg Some by (subst vall_sema.simps) simp
  qed
qed

lemma v_times_empties:
  "sleepers s st xs \<Longrightarrow> s \<noteq> 0 \<Longrightarrow> v_times (length xs) s st = Some st' \<Longrightarrow>
   sleepers s st' [] \<and> (\<forall>t \<in> set xs. t_wchan (sch st') t = 0)"
proof (induction xs arbitrary: st)
  case (Cons t ys)
  then obtain st1 where v: "v_sema s st = Some st1" "v_times (length ys) s st1 = Some st'"
    by (auto split: bind_splits)
  have S: "sleepers s st1 ys" "t_wchan (sch st1) = (t_wchan (sch st))(t := 0)"
    using v_sema_spec [OF Cons.prems(1) v(1) Cons.prems(2)] by auto
  have keep: "t_wchan (sch st1') u = 0" if "v_times n s st0 = Some st1'" "t_wchan (sch st0) u = 0" "sleepers s st0 zs" "n = length zs"
    for n st0 st1' u zs
    using that
  proof (induction n arbitrary: st0 zs)
    case (Suc n)
    then obtain z zs' where z: "zs = z # zs'" by (cases zs) auto
    obtain st2 where "v_sema s st0 = Some st2" "v_times n s st2 = Some st1'"
      using Suc.prems(1) by (auto split: bind_splits)
    then show ?case using v_sema_spec [OF Suc.prems(3) _ Cons.prems(2)] Suc z by auto
  qed simp
  have "t_wchan (sch st1) t = 0" using S(2) by simp
  then have "t_wchan (sch st') t = 0" using keep [OF v(2) _ S(1) refl] by simp
  then show ?case using Cons.IH [OF S(1) Cons.prems(2) v(2)] by simp
qed simp

definition demo_kern :: kern where
  "demo_kern = \<lparr>sch = demo_sched, sem = \<lambda>_. \<lparr>s_lock = False, s_count = 0, s_sleepq = 0\<rparr>,
     t_hd = \<lambda>_. 0, t_tl = \<lambda>_. 0, t_intr = \<lambda>_. False, t_nointr = \<lambda>_. False, spin = \<lambda>_. False\<rparr>"

text \<open>
  C12. Mutual exclusion: from an initialised semaphore, whatever the order of entries, failed
  and successful tries, exits, interruptions and thread switches, at most one thread is
  inside, and no thread sleeps on the semaphore unless another is inside to wake it.
\<close>

theorem semaphore_mutual_exclusion:
  assumes "s \<noteq> 0" and "\<And>t. t_wchan (sch st) t \<noteq> s"
    and "(mutex_step s)\<^sup>*\<^sup>* (init_sema s st, {}) (st', H)"
  shows "finite H \<and> card H \<le> 1 \<and> (\<forall>t. t_wchan (sch st') t = s \<longrightarrow> card H = 1)"
proof -
  have "mutex_inv s (st', H)" using mutex_inv_steps [OF assms(3,1) mutex_init [OF assms(2)]] .
  then obtain xs where q: "sleepers s st' xs" "finite H" "\<And>t. (t_wchan (sch st') t = s) = (t \<in> set xs)"
    "s_count (sem st' s) = 1 - int (card H) - int (length xs)"
    using mutex_invE by metis
  show ?thesis
  proof (cases "xs = []")
    case True
    then show ?thesis using q by (auto simp: sleepers_def)
  next
    case False
    then show ?thesis using q sleepers_length [OF q(1)] by auto
  qed
qed

theorem semaphore_mutual_exclusion_witness:
  "\<exists>st' H. (mutex_step 9)\<^sup>*\<^sup>* (init_sema 9 demo_kern, {}) (st', H) \<and> H = {23} \<and> card H \<le> 1"
proof -
  have "p_sema_start 9 PRIHI (init_sema 9 demo_kern) = Some (False, set_count 9 0 (init_sema 9 demo_kern))"
    by (simp add: p_sema_start_def init_sema_def Let_def set_count_def)
  then have "mutex_step 9 (init_sema 9 demo_kern, {}) (set_count 9 0 (init_sema 9 demo_kern), if False then {} else {23})"
    by (rule mutex_step.enter) (simp_all add: init_sema_def demo_kern_def demo_sched_def)
  then have r: "(mutex_step 9)\<^sup>*\<^sup>* (init_sema 9 demo_kern, {}) (set_count 9 0 (init_sema 9 demo_kern), {23})" by simp
  then show ?thesis
    using semaphore_mutual_exclusion [OF _ _ r] by (auto simp: demo_kern_def demo_sched_def)
qed

text \<open>
  Sleepers are woken in the order in which they went to sleep.
\<close>

theorem semaphore_wakes_in_order:
  assumes "waiting s st xs"
    and "qlegal (sema_enq s) (sema_deq s) (\<lambda>t st. t \<noteq> 0 \<and> t_wchan (sch st) t \<noteq> s) st xs ops"
    and "qrun (sema_enq s) (sema_deq s) (\<lambda>st. s_sleepq (sem st s)) st ops = (out, st')"
  shows "\<exists>ys. waiting s st' ys \<and> out @ ys = xs @ puts ops"
  by (rule semaq.run_fifo [OF assms])

theorem semaphore_wakes_in_order_witness:
  "fst (qrun (sema_enq 9) (sema_deq 9) (\<lambda>st. s_sleepq (sem st 9)) demo_kern [Put 21, Put 22, Take]) = [21]"
proof -
  have w: "waiting 9 demo_kern []" by (simp add: waiting_def sleepers_def demo_kern_def)
  let ?k = "sema_enq 9 21 demo_kern"
  have wc: "t_wchan (sch ?k) = (t_wchan (sch demo_kern))(21 := 9)"
    by (simp add: sema_enq_def sema_sleep_wchan)
  have l: "qlegal (sema_enq 9) (sema_deq 9) (\<lambda>t st. t \<noteq> 0 \<and> t_wchan (sch st) t \<noteq> 9) demo_kern []
    [Put 21, Put 22, Take]" using wc by (simp add: demo_kern_def demo_sched_def)
  obtain out st' where r: "qrun (sema_enq 9) (sema_deq 9) (\<lambda>st. s_sleepq (sem st 9)) demo_kern
    [Put 21, Put 22, Take] = (out, st')" by fastforce
  then have "length out = 1" by auto
  then show ?thesis using semaphore_wakes_in_order [OF w l r] r by (auto simp: length_Suc_conv)
qed

text \<open>
  C34. \<open>vall_sema\<close> ends: it makes exactly one \<open>v_sema\<close> per sleeper, after which nobody sleeps
  on the semaphore and every former sleeper has been released.
\<close>

theorem vall_sema_wakes_all:
  assumes "sleepers s st xs" and "s \<noteq> 0"
  shows "vall_sema s st = v_times (length xs) s st \<and>
    (case vall_sema s st of None \<Rightarrow> True
     | Some st' \<Rightarrow> sleepers s st' [] \<and> list_all (\<lambda>t. t_wchan (sch st') t = 0) xs)"
proof -
  have v: "vall_sema s st = v_times (length xs) s st" by (rule vall_sema_times [OF assms])
  moreover have "case vall_sema s st of None \<Rightarrow> True
     | Some st' \<Rightarrow> sleepers s st' [] \<and> list_all (\<lambda>t. t_wchan (sch st') t = 0) xs"
  proof (cases "vall_sema s st")
    case (Some st')
    then show ?thesis using v_times_empties [OF assms, of st'] v by (simp add: list_all_iff)
  qed simp
  ultimately show ?thesis by blast
qed

theorem vall_sema_wakes_all_witness:
  "vall_sema 9 (sema_enq 9 21 demo_kern) = v_times 1 9 (sema_enq 9 21 demo_kern)"
proof -
  have "waiting 9 demo_kern []" by (simp add: waiting_def sleepers_def demo_kern_def)
  then have "waiting 9 (sema_enq 9 21 demo_kern) ([] @ [21])"
    by (rule semaq.rep_enq) (simp add: demo_kern_def demo_sched_def)
  then have "sleepers 9 (sema_enq 9 21 demo_kern) [21]" by (simp add: waiting_def)
  from vall_sema_wakes_all [OF this] show ?thesis by simp
qed

text \<open>
  An interrupted sleep leaves no trace: after \<open>cunsleep\<close> of a thread that had queued up,
  the count and the queue are what they were, and the thread's \<open>p_sema\<close> reports the
  interruption, as a return value for \<open>PRICATCH\<close> and by \<open>longjmp\<close> for \<open>PRILO\<close>.
\<close>

theorem interrupted_sleep_undone:
  assumes "sleepers s st xs" and "s \<noteq> 0" and "t = curthread (sch st)" and "t \<noteq> 0" and "t \<notin> set xs"
    and "s_count (sem st s) \<le> 0" and "t_wchan (sch st) t = 0" and "p \<noteq> PRIHI"
  shows "\<exists>st1 st2. p_sema_start s p st = Some (True, st1) \<and> cunsleep t st1 = Some (0, st2) \<and>
     sleepers s st2 xs \<and> s_count (sem st2 s) = s_count (sem st s) \<and> t_wchan (sch st2) = t_wchan (sch st) \<and>
     map_option fst (p_sema_resume p t st2) = Some (if p = PRICATCH then Interrupted else Longjmp)"
proof -
  obtain st1 where a: "p_sema_start s p st = Some (True, st1)" "sleepers s st1 (xs @ [t])"
    "t_wchan (sch st1) = (t_wchan (sch st))(t := s)"
    using p_sema_start_spec [OF assms(1,3-5), of p] assms(6) by auto
  have st1: "sleepers s st1 (xs @ t # [])" using a(2) by simp
  have n: "s_count (sem st1 s) < 0" "\<not> s_lock (sem st1 s)" using a(2) by (auto simp: sleepers_def)
  have "\<exists>st2. cunsleep t st1 = Some (0, st2)"
    using dq_sema_ring [of st1 s xs t "[]"] st1 a(3) n assms(2)
    by (auto simp: cunsleep_def Let_def sleepers_def)
  then obtain st2 where b: "cunsleep t st1 = Some (0, st2)" by blast
  note C = cunsleep_spec [OF st1 b assms(2)]
  have w: "t_wchan (sch st2) = t_wchan (sch st)" using C a(3) assms(7) by auto
  have "s_count (sem st s) = - int (length xs)"
    using assms(1,6) by (auto simp: sleepers_def split: if_splits)
  moreover have "s_count (sem st1 s) = - int (Suc (length xs))" using sleepers_length [OF a(2)] by simp
  ultimately have "s_count (sem st2 s) = s_count (sem st s)" using C by simp
  moreover have "map_option fst (p_sema_resume p t st2) = Some (if p = PRICATCH then Interrupted else Longjmp)"
    using C w assms(7,8) by (simp add: p_sema_resume_def)
  ultimately show ?thesis using a(1) b C w by auto
qed

theorem interrupted_sleep_undone_witness:
  "\<exists>st1 st2. p_sema_start 9 PRILO demo_kern = Some (True, st1) \<and> cunsleep 23 st1 = Some (0, st2) \<and>
     s_count (sem st2 9) = 0"
proof -
  have "sleepers 9 demo_kern []" by (simp add: sleepers_def demo_kern_def)
  from interrupted_sleep_undone [OF this, of 23 PRILO] show ?thesis
    by (auto simp: demo_kern_def demo_sched_def)
qed

end
