(* ===== verification/Hash_Table.thy ===== *)
theory Hash_Table
  imports Vsta_Prelude
begin

text \<open>
  The hashed lookup mechanism of \<open>libc/hash.c\<close>, which the kernel links too: process IDs
  (\<open>pid_hash\<close>), port names (\<open>portnames\<close>) and the clients of a server (\<open>p_prefs\<close>) live in such
  tables.  A collision chain \<open>h_hash[i]\<close> is the list of its nodes, first node first: no other
  pointer reaches a node, so the chain pointers carry no more than the order.  A \<open>struct hash *\<close>
  argument that the code tests for null is an \<open>option\<close>; the outcome of \<open>malloc()\<close> is the
  argument \<open>mem\<close>.  Keys are 32-bit words, as \<open>long\<close> is.
\<close>

record 'v hash_node =
  h_key :: u32
  h_data :: 'v

record 'v hash =
  h_hashsize :: u32
  h_hash :: "'v hash_node list list"

section \<open>Operations\<close>

definition hashidx :: "u32 \<Rightarrow> u32 \<Rightarrow> u32" where
  "hashidx key sz = (key XOR drop_bit 2 key) mod sz"

definition hash_alloc :: "bool \<Rightarrow> u32 \<Rightarrow> 'v hash option" where
  "hash_alloc mem hashsize =
     (if mem then Some \<lparr>h_hashsize = hashsize, h_hash = replicate (unat hashsize) []\<rparr>
      else None)"

definition hash_insert :: "bool \<Rightarrow> 'v hash option \<Rightarrow> u32 \<Rightarrow> 'v \<Rightarrow> int \<times> 'v hash option" where
  "hash_insert mem ho key val =
     (case ho of
        None \<Rightarrow> (1, None)
      | Some h \<Rightarrow>
          let idx = unat (hashidx key (h_hashsize h)) in
          if \<not> mem then (1, Some h)
          else (0, Some (h\<lparr>h_hash := (h_hash h)[idx :=
                   \<lparr>h_key = key, h_data = val\<rparr> # h_hash h ! idx]\<rparr>)))"

fun chain_delete :: "u32 \<Rightarrow> 'v hash_node list \<Rightarrow> int \<times> 'v hash_node list" where
  "chain_delete key [] = (1, [])"
| "chain_delete key (hn # rest) =
     (if h_key hn = key then (0, rest)
      else let (r, rest') = chain_delete key rest in (r, hn # rest'))"

definition hash_delete :: "'v hash option \<Rightarrow> u32 \<Rightarrow> int \<times> 'v hash option" where
  "hash_delete ho key =
     (case ho of
        None \<Rightarrow> (1, None)
      | Some h \<Rightarrow>
          let idx = unat (hashidx key (h_hashsize h));
              (r, chain) = chain_delete key (h_hash h ! idx)
          in (r, Some (h\<lparr>h_hash := (h_hash h)[idx := chain]\<rparr>)))"

text \<open>\<open>hash_dealloc\<close> is the list of the nodes it frees, in the order of the calls to \<open>free()\<close>.\<close>

definition hash_dealloc :: "'v hash \<Rightarrow> 'v hash_node list" where
  "hash_dealloc h = concat (map (\<lambda>x. h_hash h ! x) [0..<unat (h_hashsize h)])"

fun chain_lookup :: "u32 \<Rightarrow> 'v hash_node list \<Rightarrow> 'v option" where
  "chain_lookup key [] = None"
| "chain_lookup key (hn # rest) = (if h_key hn = key then Some (h_data hn) else chain_lookup key rest)"

definition hash_lookup :: "'v hash option \<Rightarrow> u32 \<Rightarrow> 'v option" where
  "hash_lookup ho key =
     (case ho of
        None \<Rightarrow> None
      | Some h \<Rightarrow> chain_lookup key (h_hash h ! unat (hashidx key (h_hashsize h))))"

definition hash_size :: "'v hash \<Rightarrow> nat" where
  "hash_size h = foldl (\<lambda>cnt x. cnt + length (h_hash h ! x)) 0 [0..<unat (h_hashsize h)]"

text \<open>
  \<open>hash_foreach\<close> threads the state \<open>s\<close> that the callback works on; the callback's second result
  says whether it returned non-zero, which ends the enumeration.
\<close>

fun chain_foreach ::
  "(u32 \<Rightarrow> 'v \<Rightarrow> 's \<Rightarrow> 's \<times> bool) \<Rightarrow> 'v hash_node list \<Rightarrow> 's \<Rightarrow> 's \<times> bool" where
  "chain_foreach f [] s = (s, False)"
| "chain_foreach f (hn # rest) s =
     (let (s', stop) = f (h_key hn) (h_data hn) s in
      if stop then (s', True) else chain_foreach f rest s')"

fun table_foreach ::
  "(u32 \<Rightarrow> 'v \<Rightarrow> 's \<Rightarrow> 's \<times> bool) \<Rightarrow> 'v hash_node list list \<Rightarrow> 's \<Rightarrow> 's" where
  "table_foreach f [] s = s"
| "table_foreach f (c # cs) s =
     (let (s', stop) = chain_foreach f c s in if stop then s' else table_foreach f cs s')"

definition hash_foreach :: "'v hash \<Rightarrow> (u32 \<Rightarrow> 'v \<Rightarrow> 's \<Rightarrow> 's \<times> bool) \<Rightarrow> 's \<Rightarrow> 's" where
  "hash_foreach h f s = table_foreach f (take (unat (h_hashsize h)) (h_hash h)) s"

section \<open>The invariant and the abstraction\<close>

text \<open>
  Every node sits in the chain its key hashes to.  A key may be present more than once: an
  insertion hides the older ones.  The abstraction of a table is therefore the stack of values
  under each key, newest first.
\<close>

definition hash_inv :: "'v hash \<Rightarrow> bool" where
  "hash_inv h = (0 < h_hashsize h \<and> length (h_hash h) = unat (h_hashsize h) \<and>
     (\<forall>i < length (h_hash h). \<forall>hn \<in> set (h_hash h ! i).
        unat (hashidx (h_key hn) (h_hashsize h)) = i))"

definition hash_nodes :: "'v hash \<Rightarrow> 'v hash_node list" where
  "hash_nodes h = concat (h_hash h)"

definition hash_stack :: "'v hash \<Rightarrow> u32 \<Rightarrow> 'v list" where
  "hash_stack h k = map h_data (filter (\<lambda>hn. h_key hn = k) (hash_nodes h))"

lemma hashidx_less: "0 < sz \<Longrightarrow> unat (hashidx key sz) < unat sz"
  by (simp add: hashidx_def unat_mod word_gt_0 unat_gt_0)

lemma hash_inv_idx:
  "hash_inv h \<Longrightarrow> unat (hashidx key (h_hashsize h)) < length (h_hash h)"
  unfolding hash_inv_def using hashidx_less by auto

lemma hash_inv_place:
  "hash_inv h \<Longrightarrow> i < length (h_hash h) \<Longrightarrow> hn \<in> set (h_hash h ! i) \<Longrightarrow>
    unat (hashidx (h_key hn) (h_hashsize h)) = i"
  by (simp add: hash_inv_def)

lemma hash_inv_upd:
  assumes "hash_inv h"
    and "\<And>hn. hn \<in> set c \<Longrightarrow> unat (hashidx (h_key hn) (h_hashsize h)) = i"
  shows "hash_inv (h\<lparr>h_hash := (h_hash h)[i := c]\<rparr>)"
  using assms by (cases "i < length (h_hash h)") (auto simp: hash_inv_def nth_list_update list_update_beyond)

text \<open>The values under a key are those of the key's own chain.\<close>

lemma filter_concat_one:
  assumes "i < length xss" "\<And>j x. j < length xss \<Longrightarrow> j \<noteq> i \<Longrightarrow> x \<in> set (xss ! j) \<Longrightarrow> \<not> P x"
  shows "filter P (concat xss) = filter P (xss ! i)"
  using assms
proof (induction xss arbitrary: i)
  case (Cons xs xss)
  show ?case
  proof (cases i)
    case 0
    then have "filter P (xss ! j) = []" if "j < length xss" for j
      using that Cons.prems(2) [of "Suc j"] by (auto simp: filter_empty_conv)
    then have "filter P (concat xss) = []"
      by (metis filter_False filter_empty_conv in_set_conv_nth set_concat UN_E)
    then show ?thesis using 0 by simp
  next
    case (Suc i')
    then have "filter P xs = []" using Cons.prems(2) [of 0] by (auto simp: filter_empty_conv)
    moreover have "filter P (concat xss) = filter P (xss ! i')"
    proof (rule Cons.IH)
      show "i' < length xss" using Suc Cons.prems(1) by simp
      show "\<not> P x" if "j < length xss" "j \<noteq> i'" "x \<in> set (xss ! j)" for j x
        using Cons.prems(2) [of "Suc j" x] Suc that by simp
    qed
    ultimately show ?thesis using Suc by simp
  qed
qed simp

lemma hash_stack_chain:
  assumes "hash_inv h"
  shows "hash_stack h k =
    map h_data (filter (\<lambda>hn. h_key hn = k) (h_hash h ! unat (hashidx k (h_hashsize h))))"
  unfolding hash_stack_def hash_nodes_def
  by (subst filter_concat_one [where i = "unat (hashidx k (h_hashsize h))"])
    (use assms in \<open>auto simp: hash_inv_idx dest: hash_inv_place\<close>)

lemma chain_lookup_stack:
  "chain_lookup k c =
    (case map h_data (filter (\<lambda>hn. h_key hn = k) c) of [] \<Rightarrow> None | v # _ \<Rightarrow> Some v)"
  by (induction c) auto

lemma chain_delete_stack:
  "map h_data (filter (\<lambda>hn. h_key hn = k') (snd (chain_delete k c))) =
    (if k' = k then tl (map h_data (filter (\<lambda>hn. h_key hn = k') c))
     else map h_data (filter (\<lambda>hn. h_key hn = k') c))"
  by (induction k c rule: chain_delete.induct) (auto split: prod.splits)

lemma chain_delete_result:
  "fst (chain_delete k c) = (if \<exists>hn \<in> set c. h_key hn = k then 0 else 1)"
  by (induction k c rule: chain_delete.induct) (auto split: prod.splits)

lemma chain_delete_subset: "hn \<in> set (snd (chain_delete k c)) \<Longrightarrow> hn \<in> set c"
  by (induction k c rule: chain_delete.induct) (auto split: prod.splits if_splits)

section \<open>Correctness of the operations\<close>

lemma hash_alloc_inv:
  "0 < n \<Longrightarrow> hash_alloc True n = Some h \<Longrightarrow> hash_inv h \<and> hash_stack h k = []"
  by (auto simp: hash_alloc_def hash_inv_def hash_stack_def hash_nodes_def filter_empty_conv)

lemma hash_lookup_stack:
  "hash_inv h \<Longrightarrow>
    hash_lookup (Some h) k = (case hash_stack h k of [] \<Rightarrow> None | v # _ \<Rightarrow> Some v)"
  by (simp add: hash_lookup_def hash_stack_chain chain_lookup_stack)

lemma hash_insert_eq:
  "hash_insert True (Some h) k v = (0, Some (h\<lparr>h_hash := (h_hash h)[unat (hashidx k (h_hashsize h)) :=
     \<lparr>h_key = k, h_data = v\<rparr> # h_hash h ! unat (hashidx k (h_hashsize h))]\<rparr>))"
  by (simp add: hash_insert_def Let_def)

lemma hash_delete_eq:
  "hash_delete (Some h) k =
    (fst (chain_delete k (h_hash h ! unat (hashidx k (h_hashsize h)))),
     Some (h\<lparr>h_hash := (h_hash h)[unat (hashidx k (h_hashsize h)) :=
       snd (chain_delete k (h_hash h ! unat (hashidx k (h_hashsize h))))]\<rparr>))"
  by (simp add: hash_delete_def Let_def split: prod.splits)

lemma hash_insert_inv:
  assumes "hash_inv h" "hash_insert True (Some h) k v = (r, Some h')"
  shows "hash_inv h'"
proof -
  have "hash_inv (h\<lparr>h_hash := (h_hash h)[unat (hashidx k (h_hashsize h)) :=
     \<lparr>h_key = k, h_data = v\<rparr> # h_hash h ! unat (hashidx k (h_hashsize h))]\<rparr>)"
    using assms(1) hash_inv_place [OF assms(1) hash_inv_idx [OF assms(1)]]
    by (intro hash_inv_upd) auto
  then show ?thesis using assms(2) by (simp add: hash_insert_eq)
qed

lemma hash_insert_stack:
  assumes "hash_inv h" "hash_insert True (Some h) k v = (r, Some h')"
  shows "hash_stack h' k' = (if k' = k then v # hash_stack h k' else hash_stack h k')"
proof -
  have "hash_inv h'" using assms by (rule hash_insert_inv)
  then show ?thesis
    using assms hash_inv_idx [OF assms(1), of k]
    by (auto simp: hash_stack_chain hash_insert_eq nth_list_update)
qed

lemma hash_delete_inv:
  assumes "hash_inv h" "hash_delete (Some h) k = (r, Some h')"
  shows "hash_inv h'"
proof -
  have "hash_inv (h\<lparr>h_hash := (h_hash h)[unat (hashidx k (h_hashsize h)) :=
     snd (chain_delete k (h_hash h ! unat (hashidx k (h_hashsize h))))]\<rparr>)"
    using assms(1) hash_inv_place [OF assms(1) hash_inv_idx [OF assms(1)]]
    by (intro hash_inv_upd) (auto dest: chain_delete_subset)
  then show ?thesis using assms(2) by (simp add: hash_delete_eq)
qed

lemma hash_delete_stack:
  assumes "hash_inv h" "hash_delete (Some h) k = (r, Some h')"
  shows "hash_stack h' k' = (if k' = k then tl (hash_stack h k') else hash_stack h k')"
proof -
  have "hash_inv h'" using assms by (rule hash_delete_inv)
  then show ?thesis
    using assms hash_inv_idx [OF assms(1), of k]
    by (auto simp: hash_stack_chain hash_delete_eq nth_list_update chain_delete_stack)
qed

lemma hash_delete_result:
  "hash_inv h \<Longrightarrow> fst (hash_delete (Some h) k) = (if hash_stack h k = [] then 1 else 0)"
  by (simp add: hash_delete_eq chain_delete_result hash_stack_chain filter_empty_conv)

lemma foldl_length_concat:
  "foldl (\<lambda>cnt x. cnt + length (f x)) n xs = n + length (concat (map f xs))"
  by (induction xs arbitrary: n) auto

lemma hash_inv_length: "hash_inv h \<Longrightarrow> unat (h_hashsize h) = length (h_hash h)"
  by (simp add: hash_inv_def)

lemma hash_size_nodes: "hash_inv h \<Longrightarrow> hash_size h = length (hash_nodes h)"
  by (simp add: hash_size_def foldl_length_concat hash_nodes_def hash_inv_length map_nth)

lemma hash_dealloc_nodes: "hash_inv h \<Longrightarrow> hash_dealloc h = hash_nodes h"
  by (simp add: hash_dealloc_def hash_nodes_def hash_inv_length map_nth)

text \<open>Without an early stop, \<open>hash_foreach\<close> is the fold of the callback over all the nodes.\<close>

lemma chain_foreach_fold:
  "(\<And>k v s. snd (f k v s) = False) \<Longrightarrow>
   chain_foreach f c s = (fold (\<lambda>hn s. fst (f (h_key hn) (h_data hn) s)) c s, False)"
  by (induction c arbitrary: s) (auto split: prod.splits, metis snd_conv)

lemma table_foreach_fold:
  "(\<And>k v s. snd (f k v s) = False) \<Longrightarrow>
   table_foreach f cs s = fold (\<lambda>hn s. fst (f (h_key hn) (h_data hn) s)) (concat cs) s"
  by (induction cs arbitrary: s) (auto simp: chain_foreach_fold)

lemma hash_foreach_fold:
  "hash_inv h \<Longrightarrow> (\<And>k v s. snd (f k v s) = False) \<Longrightarrow>
   hash_foreach h f s = fold (\<lambda>hn s. fst (f (h_key hn) (h_data hn) s)) (hash_nodes h) s"
  by (simp add: hash_foreach_def table_foreach_fold hash_nodes_def hash_inv_length)

section \<open>The interface of an identifier table\<close>

text \<open>
  What the kernel relies on when it keeps objects under a number: ports under their names,
  processes under their PIDs, clients under their transaction IDs.  The callers insert an
  identifier only after a lookup has failed, so a table never holds one twice; \<open>tinv\<close> states
  that, and under it a table is a finite map.
\<close>

locale id_table =
  fixes get :: "'t \<Rightarrow> u32 \<Rightarrow> 'v option"
    and put :: "'t \<Rightarrow> u32 \<Rightarrow> 'v \<Rightarrow> 't"
    and del :: "'t \<Rightarrow> u32 \<Rightarrow> 't"
    and tinv :: "'t \<Rightarrow> bool"
  assumes tinv_put: "tinv t \<Longrightarrow> get t k = None \<Longrightarrow> tinv (put t k v)"
    and get_put: "tinv t \<Longrightarrow> get (put t k v) k' = (if k' = k then Some v else get t k')"
    and tinv_del: "tinv t \<Longrightarrow> tinv (del t k)"
    and get_del: "tinv t \<Longrightarrow> get (del t k) k' = (if k' = k then None else get t k')"
begin

text \<open>Registering an unused identifier and removing it again restores every lookup.\<close>

lemma put_del_roundtrip:
  "tinv t \<Longrightarrow> get t k = None \<Longrightarrow> get (del (put t k v) k) k' = get t k'"
  by (simp add: get_del get_put tinv_put)

lemma del_del: "tinv t \<Longrightarrow> get (del (del t k) k) k' = get (del t k) k'"
  by (simp add: get_del tinv_del)

lemma dom_put: "tinv t \<Longrightarrow> dom (get (put t k v)) = insert k (dom (get t))"
  by (auto simp: dom_def get_put)

lemma dom_del: "tinv t \<Longrightarrow> dom (get (del t k)) = dom (get t) - {k}"
  by (auto simp: dom_def get_del)

text \<open>Two objects registered one after the other under free identifiers do not interfere.\<close>

lemma put_commute:
  "tinv t \<Longrightarrow> get t k = None \<Longrightarrow> get t l = None \<Longrightarrow> k \<noteq> l \<Longrightarrow>
   get (put (put t k v) l w) m = get (put (put t l w) k v) m"
  by (simp add: get_put tinv_put)

end

definition hash_uniq :: "'v hash \<Rightarrow> bool" where
  "hash_uniq h = (\<forall>hn \<in> set (hash_nodes h). length (hash_stack h (h_key hn)) \<le> 1)"

lemma hash_uniq_stack: "hash_uniq h = (\<forall>k. length (hash_stack h k) \<le> 1)"
proof -
  have "hash_stack h k = []" if "\<forall>hn \<in> set (hash_nodes h). h_key hn \<noteq> k" for k
    using that by (simp add: hash_stack_def filter_empty_conv)
  then show ?thesis unfolding hash_uniq_def by (metis le0 list.size(3))
qed

text \<open>The table operations on a table that exists, with memory available.\<close>

definition hash_get :: "'v hash \<Rightarrow> u32 \<Rightarrow> 'v option" where
  "hash_get h k = hash_lookup (Some h) k"

definition hash_put :: "'v hash \<Rightarrow> u32 \<Rightarrow> 'v \<Rightarrow> 'v hash" where
  "hash_put h k v = the (snd (hash_insert True (Some h) k v))"

definition hash_del :: "'v hash \<Rightarrow> u32 \<Rightarrow> 'v hash" where
  "hash_del h k = the (snd (hash_delete (Some h) k))"

definition hash_tinv :: "'v hash \<Rightarrow> bool" where
  "hash_tinv h = (hash_inv h \<and> hash_uniq h)"

lemma hash_put_facts:
  assumes "hash_inv h"
  shows "hash_inv (hash_put h k v)"
    and "hash_stack (hash_put h k v) k' = (if k' = k then v # hash_stack h k' else hash_stack h k')"
  using hash_insert_inv [OF assms hash_insert_eq] hash_insert_stack [OF assms hash_insert_eq]
  by (simp_all add: hash_put_def hash_insert_eq)

lemma hash_del_facts:
  assumes "hash_inv h"
  shows "hash_inv (hash_del h k)"
    and "hash_stack (hash_del h k) k' = (if k' = k then tl (hash_stack h k') else hash_stack h k')"
  using hash_delete_inv [OF assms hash_delete_eq] hash_delete_stack [OF assms hash_delete_eq]
  by (simp_all add: hash_del_def hash_delete_eq)

lemma hash_get_stack:
  "hash_inv h \<Longrightarrow> hash_get h k = (case hash_stack h k of [] \<Rightarrow> None | v # _ \<Rightarrow> Some v)"
  by (simp add: hash_get_def hash_lookup_stack)

lemma hash_get_None: "hash_inv h \<Longrightarrow> (hash_get h k = None) = (hash_stack h k = [])"
  by (simp add: hash_get_stack split: list.splits)

interpretation htab: id_table hash_get hash_put hash_del hash_tinv
proof
  fix t :: "'v hash" and k k' v
  assume t: "hash_tinv t"
  then have inv: "hash_inv t" and one: "\<And>k. length (hash_stack t k) \<le> 1"
    by (auto simp: hash_tinv_def hash_uniq_stack)
  show "hash_tinv (hash_put t k v)" if "hash_get t k = None"
    using that inv one by (simp add: hash_tinv_def hash_uniq_stack hash_put_facts hash_get_None)
  show "hash_get (hash_put t k v) k' = (if k' = k then Some v else hash_get t k')"
    using inv by (simp add: hash_get_stack hash_put_facts)
  show "hash_tinv (hash_del t k)"
    using inv one by (auto simp: hash_tinv_def hash_uniq_stack hash_del_facts le_diff_conv
        intro: order_trans [OF diff_le_self])
  show "hash_get (hash_del t k) k' = (if k' = k then None else hash_get t k')"
    using inv one [of k] by (cases "hash_stack t k") (auto simp: hash_get_stack hash_del_facts)
qed

lemma hash_tinv_alloc:
  "0 < n \<Longrightarrow> hash_alloc True n = Some h \<Longrightarrow> hash_tinv h \<and> hash_get h k = None"
  using hash_alloc_inv [of n h] by (auto simp: hash_tinv_def hash_uniq_stack hash_get_stack)

end
