(* ===== verification/Processes.thy ===== *)
theory Processes
  imports Ring_Lists Hash_Table
begin

text \<open>
  The process table of \<open>os/kern/proc.c\<close>: the ring of all processes, the hash from process
  number to process, the list of the threads of a process, and the pool of unused numbers.

  A process or thread is an address with a map for each member; the pointers of the ring and
  of the thread lists are those of the code.  The sections are under \<open>pid_sema\<close> or \<open>p_sema\<close>, so
  each function is one step.  \<open>pid_t\<close> is a \<open>long\<close>: the comparisons are signed.  A failing
  assertion and a loop that does not end are \<open>None\<close>.
\<close>

record ptab =
  allprocs :: addr
  p_allnext :: "addr \<Rightarrow> addr"
  p_allprev :: "addr \<Rightarrow> addr"
  p_pid :: "addr \<Rightarrow> u32"
  p_threads :: "addr \<Rightarrow> addr"
  t_next :: "addr \<Rightarrow> addr"
  t_pid :: "addr \<Rightarrow> u32"
  npid_free :: u32
  pid_nextfree :: u32
  pid_rotor :: u32
  pid_hash :: "addr hash option"

section \<open>The list and the hash of processes\<close>

definition add_proclist :: "addr \<Rightarrow> ptab \<Rightarrow> ptab" where
  "add_proclist p st =
     (let a = allprocs st in
      if a = 0 then
        st\<lparr>p_allprev := (p_allprev st)(p := p), p_allnext := (p_allnext st)(p := p), allprocs := p\<rparr>
      else
        let nx = (p_allnext st)(p := a);
            pv = (p_allprev st)(p := p_allprev st a);
            nx1 = nx(pv a := p);
            pv1 = pv(a := p)
        in st\<lparr>p_allnext := nx1, p_allprev := pv1, allprocs := p\<rparr>)"

text \<open>The lines of \<open>free_proc\<close> that take a process off the list.\<close>

definition del_proclist :: "addr \<Rightarrow> ptab \<Rightarrow> ptab option" where
  "del_proclist p st =
     (let pv = (p_allprev st)(p_allnext st p := p_allprev st p);
          nx = (p_allnext st)(pv p := p_allnext st p);
          st1 = st\<lparr>p_allnext := nx, p_allprev := pv\<rparr>
      in if allprocs st = p then (if nx p = p then None else Some (st1\<lparr>allprocs := nx p\<rparr>)) else Some st1)"

text \<open>What \<open>fork\<close> and \<open>bootproc\<close> do to make a process known, and \<open>free_proc\<close> to forget it.\<close>

definition publish_proc :: "bool \<Rightarrow> addr \<Rightarrow> ptab \<Rightarrow> ptab" where
  "publish_proc mem p st = add_proclist p (st\<lparr>pid_hash := snd (hash_insert mem (pid_hash st) (p_pid st p) p)\<rparr>)"

definition forget_proc :: "addr \<Rightarrow> ptab \<Rightarrow> ptab option" where
  "forget_proc p st =
     map_option (\<lambda>st1. st1\<lparr>pid_hash := snd (hash_delete (pid_hash st1) (p_pid st1 p))\<rparr>) (del_proclist p st)"

definition pfind :: "u32 \<Rightarrow> ptab \<Rightarrow> addr option" where
  "pfind pid st = hash_lookup (pid_hash st) pid"

section \<open>The threads of a process\<close>

text \<open>The loop of \<open>do_exit\<close>: the place of the pointer to the thread, which \<open>tp\<close> holds.\<close>

datatype slot = Head | After addr

partial_function (option) find_slot :: "(addr \<Rightarrow> addr) \<Rightarrow> addr \<Rightarrow> slot \<Rightarrow> addr \<Rightarrow> slot option" where
  "find_slot nx t tp t2 =
     (if t2 = 0 then None else if t2 = t then Some tp else find_slot nx t (After t2) (nx t2))"

declare find_slot.simps [code]

definition unlink_thread :: "addr \<Rightarrow> addr \<Rightarrow> ptab \<Rightarrow> ptab option" where
  "unlink_thread t p st =
     map_option (\<lambda>tp. case tp of
         Head \<Rightarrow> st\<lparr>p_threads := (p_threads st)(p := t_next st t)\<rparr>
       | After a \<Rightarrow> st\<lparr>t_next := (t_next st)(a := t_next st t)\<rparr>)
       (find_slot (t_next st) t Head (p_threads st p))"

text \<open>The lines of \<open>fork_thread\<close> that add the new thread to its process.\<close>

definition link_thread :: "addr \<Rightarrow> addr \<Rightarrow> ptab \<Rightarrow> ptab" where
  "link_thread t p st = st\<lparr>t_next := (t_next st)(t := p_threads st p), p_threads := (p_threads st)(p := t)\<rparr>"

section \<open>Process numbers\<close>

text \<open>
  The loops of \<open>refill_pids\<close>, from one test of \<open>pid\<close> to the next: \<open>p\<close> is the process looked at, \<open>t\<close>
  its thread, or 0 for the number of the process itself.  \<open>continue\<close> goes to the test of \<open>t\<close> at
  the end of the inner loop; \<open>goto retry\<close> leaves \<open>t\<close> as it is.
\<close>

definition rotor_from :: "u32 \<Rightarrow> u32" where
  "rotor_from r = (if sint r \<le> 0 then 200 else r)"

partial_function (option) pid_scan :: "ptab \<Rightarrow> addr \<Rightarrow> u32 \<Rightarrow> addr \<Rightarrow> u32 \<Rightarrow> u32 \<Rightarrow> (u32 \<times> u32) option" where
  "pid_scan st p pid t r pnext =
     (if sint pid < sint r then
        if t \<noteq> 0 then pid_scan st p pid t r pnext
        else if p_allnext st p = allprocs st then Some (r, pnext)
        else pid_scan st (p_allnext st p) (p_pid st (p_allnext st p)) 0 (rotor_from r) pnext
      else if pid = r then
        if r + 1 = pnext then pid_scan st (allprocs st) (p_pid st (allprocs st)) t (rotor_from (r + 2)) (- 1)
        else if t \<noteq> 0 then pid_scan st p pid t (r + 1) pnext
        else if p_allnext st p = allprocs st then Some (r + 1, pnext)
        else pid_scan st (p_allnext st p) (p_pid st (p_allnext st p)) 0 (rotor_from (r + 1)) pnext
      else
        let pnext' = (if sint pid < sint pnext then pid else pnext);
            t' = (if t = 0 then p_threads st p else t_next st t)
        in if t' \<noteq> 0 then pid_scan st p (t_pid st t') t' r pnext'
           else if p_allnext st p = allprocs st then Some (r, pnext')
           else pid_scan st (p_allnext st p) (p_pid st (p_allnext st p)) 0 (rotor_from r) pnext')"

declare pid_scan.simps [code]

definition refill_pids :: "ptab \<Rightarrow> ptab option" where
  "refill_pids st =
     (let a = allprocs st in
      map_option (\<lambda>(r, pnext). st\<lparr>npid_free := pnext - r, pid_nextfree := r, pid_rotor := pnext + 1\<rparr>)
        (pid_scan st a (p_pid st a) 0 (rotor_from (pid_rotor st)) (- 1)))"

definition allocpid :: "ptab \<Rightarrow> (u32 \<times> ptab) option" where
  "allocpid st =
     map_option (\<lambda>st1. (pid_nextfree st1, st1\<lparr>npid_free := npid_free st1 - 1, pid_nextfree := pid_nextfree st1 + 1\<rparr>))
       (if npid_free st = 0 then refill_pids st else Some st)"

fun alloc_pids :: "nat \<Rightarrow> ptab \<Rightarrow> (u32 list \<times> ptab) option" where
  "alloc_pids 0 st = Some ([], st)"
| "alloc_pids (Suc n) st =
     (case allocpid st of
        None \<Rightarrow> None
      | Some (pid, st1) \<Rightarrow> map_option (\<lambda>(pids, st2). (pid # pids, st2)) (alloc_pids n st1))"

section \<open>The table of processes\<close>

text \<open>
  The abstract table: the processes, latest first, with different numbers, on the ring and in
  the hash.
\<close>

definition ptab_ok :: "ptab \<Rightarrow> addr list \<Rightarrow> bool" where
  "ptab_ok st ps = (ring_q (allprocs st) (p_allnext st) (p_allprev st) ps \<and>
     (\<exists>h. pid_hash st = Some h \<and> hash_tinv h \<and>
        (\<forall>k a. hash_get h k = Some a \<longleftrightarrow> a \<in> set ps \<and> p_pid st a = k)))"

lemma add_proclist_ring:
  assumes "ring_q (allprocs st) (p_allnext st) (p_allprev st) ps" "p \<notin> set ps" "p \<noteq> 0"
  shows "ring_q (allprocs (add_proclist p st)) (p_allnext (add_proclist p st)) (p_allprev (add_proclist p st)) (p # ps)"
proof (cases ps)
  case Nil
  then show ?thesis using assms by (simp add: add_proclist_def ring_q_Cons)
next
  case (Cons a as)
  let ?n = "p_allnext st" and ?v = "p_allprev st"
  have a: "allprocs st = a" "0 \<notin> set (a # as)" "ring ?n ?v (a # as)" using assms(1) Cons by (simp_all add: ring_q_Cons)
  have "p \<noteq> a" using assms(2) Cons by auto
  have "ring (?n(p := a, ?v a := p)) (?v(p := ?v a, a := p)) ((a # as) @ [p])"
    using ring_insert_before [OF a(3), of p] assms(2) Cons by simp
  then have "ring (?n(p := a, ?v a := p)) (?v(p := ?v a, a := p)) (p # a # as)"
    using ring_rotate1 [of _ _ p "a # as"] by simp
  then show ?thesis using a assms(2,3) Cons \<open>p \<noteq> a\<close>
    by (simp add: add_proclist_def ring_q_Cons Let_def)
qed

lemma del_proclist_ring:
  assumes "ring_q (allprocs st) (p_allnext st) (p_allprev st) (as @ p # bs)" "as @ bs \<noteq> []"
  shows "\<exists>st'. del_proclist p st = Some st' \<and> ring_q (allprocs st') (p_allnext st') (p_allprev st') (as @ bs) \<and>
    p_pid st' = p_pid st \<and> pid_hash st' = pid_hash st"
proof -
  let ?n = "p_allnext st" and ?v = "p_allprev st"
  have u: "?n p \<noteq> p" "?v p \<noteq> p" using ring_q_unlink [OF assms(1)] assms(2) by auto
  have "ring_q (if allprocs st = p then ?n p else allprocs st) (?n(?v p := ?n p)) (?v(?n p := ?v p)) (as @ bs)"
    by (rule ring_q_delete [OF assms])
  then show ?thesis using u by (auto simp: del_proclist_def Let_def)
qed

lemma del_proclist_last:
  assumes "ring_q (allprocs st) (p_allnext st) (p_allprev st) [p]"
  shows "del_proclist p st = None"
  using assms by (simp add: ring_q_Cons del_proclist_def)

lemma add_proclist_frame [frame]:
  "p_pid (add_proclist p st) = p_pid st" "pid_hash (add_proclist p st) = pid_hash st"
  by (simp_all add: add_proclist_def Let_def)

lemma add_proclist_hash: "add_proclist p (st\<lparr>pid_hash := h\<rparr>) = (add_proclist p st)\<lparr>pid_hash := h\<rparr>"
  by (simp add: add_proclist_def Let_def)

lemma publish_proc_ok:
  assumes "ptab_ok st ps" and p: "p \<noteq> 0" "p \<notin> set ps" "p_pid st p \<notin> p_pid st ` set ps"
  shows "ptab_ok (publish_proc True p st) (p # ps) \<and> pfind (p_pid st p) (publish_proc True p st) = Some p"
proof -
  let ?k = "p_pid st p"
  obtain h where r: "ring_q (allprocs st) (p_allnext st) (p_allprev st) ps" and h: "pid_hash st = Some h" "hash_tinv h"
    "\<And>k a. hash_get h k = Some a \<longleftrightarrow> a \<in> set ps \<and> p_pid st a = k" using assms(1) by (auto simp: ptab_ok_def)
  have ne: "\<And>a. a \<in> set ps \<Longrightarrow> p_pid st a \<noteq> ?k" using p(3) by (metis image_eqI)
  then have "hash_get h ?k \<noteq> Some a" for a using h(3) by auto
  then have no: "hash_get h ?k = None" by (cases "hash_get h ?k") blast+
  have pub: "publish_proc True p st = (add_proclist p st)\<lparr>pid_hash := Some (hash_put h ?k p)\<rparr>"
    by (simp add: publish_proc_def add_proclist_hash h(1) hash_put_def hash_insert_eq)
  have g: "hash_get (hash_put h ?k p) k = (if k = ?k then Some p else hash_get h k)" for k
    by (rule htab.get_put [OF h(2)])
  show ?thesis using add_proclist_ring [OF r p(2,1)] ne htab.tinv_put [OF h(2) no] g
    by (auto simp: ptab_ok_def pub frame h(3) pfind_def hash_get_def [symmetric] split: if_splits)
qed

lemma forget_proc_ok:
  assumes ok: "ptab_ok st ps" and p: "p \<in> set ps" "inj_on (p_pid st) (set ps)" "ps \<noteq> [p]"
  shows "\<exists>st'. forget_proc p st = Some st' \<and> ptab_ok st' (remove1 p ps) \<and> pfind (p_pid st p) st' = None"
proof -
  let ?k = "p_pid st p"
  obtain h where r: "ring_q (allprocs st) (p_allnext st) (p_allprev st) ps" and h: "pid_hash st = Some h" "hash_tinv h"
    "\<And>k a. hash_get h k = Some a \<longleftrightarrow> a \<in> set ps \<and> p_pid st a = k" using ok by (auto simp: ptab_ok_def)
  obtain as bs where ps: "ps = as @ p # bs" using p by (auto dest: split_list)
  have d: "distinct ps" using r by (rule ring_q_distinct)
  have "as @ bs \<noteq> []" using p(3) ps by auto
  then obtain st1 where st1: "del_proclist p st = Some st1" "ring_q (allprocs st1) (p_allnext st1) (p_allprev st1) (as @ bs)"
    "p_pid st1 = p_pid st" "pid_hash st1 = pid_hash st"
    using del_proclist_ring [of st as p bs] r ps by auto
  have rm: "remove1 p ps = as @ bs" using ps d by (simp add: remove1_append)
  obtain i where "hash_delete (Some h) ?k = (i, Some (hash_del h ?k))"
    by (cases "hash_delete (Some h) ?k") (auto simp: hash_del_def hash_delete_def Let_def split: prod.splits)
  then have fg: "forget_proc p st = Some (st1\<lparr>pid_hash := Some (hash_del h ?k)\<rparr>)"
    using st1 h(1) by (simp add: forget_proc_def)
  have g: "hash_get (hash_del h ?k) k = (if k = ?k then None else hash_get h k)" for k
    by (rule htab.get_del [OF h(2)])
  have "(hash_get (hash_del h ?k) k = Some a) = (a \<in> set (as @ bs) \<and> p_pid st a = k)" for k a
  proof -
    have "p_pid st a \<noteq> ?k" if "a \<in> set (as @ bs)" 
    proof
      assume "p_pid st a = ?k"
      then have "a = p" using inj_onD [OF p(2), of a p] that p(1) ps by simp
      then show False using that d ps by auto
    qed
    moreover have "p \<notin> set (as @ bs)" using d ps by auto
    ultimately show ?thesis by (auto simp: g h(3) ps)
  qed
  then show ?thesis using fg st1 htab.tinv_del [OF h(2)] g
    by (simp add: ptab_ok_def rm pfind_def hash_get_def [symmetric])
qed

text \<open>
  C29. The process table: a process made known is found under its number and heads the ring; one
  forgotten leaves both, wherever it is in the ring, and the others stay in their order; only
  the last process of the system cannot be taken off.
\<close>

theorem process_table:
  assumes ok: "ptab_ok st ps" and inj: "inj_on (p_pid st) (set ps)"
  shows "(p \<noteq> 0 \<and> p \<notin> set ps \<and> p_pid st p \<notin> p_pid st ` set ps \<longrightarrow>
      ptab_ok (publish_proc True p st) (p # ps) \<and> pfind (p_pid st p) (publish_proc True p st) = Some p) \<and>
    (p \<in> set ps \<longrightarrow> pfind (p_pid st p) st = Some p \<and>
      (if ps = [p] then forget_proc p st = None
       else \<exists>st'. forget_proc p st = Some st' \<and> ptab_ok st' (remove1 p ps) \<and> pfind (p_pid st p) st' = None))"
proof -
  have "pfind (p_pid st p) st = Some p" if "p \<in> set ps"
    using ok that by (auto simp: ptab_ok_def pfind_def hash_get_def [symmetric])
  moreover have "forget_proc p st = None" if "ps = [p]"
    using ok that del_proclist_last by (simp add: ptab_ok_def forget_proc_def)
  ultimately show ?thesis using publish_proc_ok [OF ok] forget_proc_ok [OF ok _ inj] by simp
qed

definition demo_ptab :: ptab where
  "demo_ptab = (let st = \<lparr>allprocs = 0, p_allnext = \<lambda>_. 0, p_allprev = \<lambda>_. 0, p_pid = (\<lambda>_. 0)(50 := 300, 60 := 201),
       p_threads = (\<lambda>_. 0)(50 := 55), t_next = \<lambda>_. 0, t_pid = (\<lambda>_. 0)(55 := 200), npid_free = 0,
       pid_nextfree = 7, pid_rotor = 0, pid_hash = hash_alloc True 16\<rparr>
     in publish_proc True 50 st)"

lemma demo_ptab_ok: "ptab_ok demo_ptab [50]"
proof -
  obtain h :: "addr hash" where h: "hash_alloc True 16 = Some h" by (simp add: hash_alloc_def)
  then have "hash_tinv h" "hash_get h k = None" for k using hash_tinv_alloc [of 16 h] by auto
  then show ?thesis unfolding demo_ptab_def Let_def
    by (intro publish_proc_ok [THEN conjunct1]) (simp_all add: ptab_ok_def h)
qed

theorem process_table_witness:
  "pfind 201 (publish_proc True 60 demo_ptab) = Some 60 \<and> pfind 300 demo_ptab = Some 50 \<and> forget_proc 50 demo_ptab = None"
proof -
  have pid: "p_pid demo_ptab 60 = 201" "p_pid demo_ptab 50 = 300"
    by (simp_all add: demo_ptab_def publish_proc_def frame Let_def)
  then show ?thesis
    using process_table [OF demo_ptab_ok, of 60] process_table [OF demo_ptab_ok, of 50] by simp
qed

section \<open>The pool of numbers\<close>

lemma allocpid_pool:
  assumes "npid_free st \<noteq> 0"
  shows "allocpid st = Some (pid_nextfree st, st\<lparr>npid_free := npid_free st - 1, pid_nextfree := pid_nextfree st + 1\<rparr>)"
  using assms by (simp add: allocpid_def)

lemma alloc_pids_pool:
  "n \<le> unat (npid_free st) \<Longrightarrow>
   \<exists>st'. alloc_pids n st = Some (map (\<lambda>i. pid_nextfree st + of_nat i) [0..<n], st')"
proof (induction n arbitrary: st)
  case (Suc n)
  have nz: "npid_free st \<noteq> 0" using Suc.prems by auto
  let ?st1 = "st\<lparr>npid_free := npid_free st - 1, pid_nextfree := pid_nextfree st + 1\<rparr>"
  have "n \<le> unat (npid_free ?st1)" using Suc.prems nz by (simp add: unat_minus_one)
  then obtain st2 where "alloc_pids n ?st1 = Some (map (\<lambda>i. pid_nextfree ?st1 + of_nat i) [0..<n], st2)"
    using Suc.IH by blast
  moreover have "map (\<lambda>i. pid_nextfree st + of_nat i) [0..<Suc n] =
      pid_nextfree st # map (\<lambda>i. pid_nextfree st + 1 + of_nat i) [0..<n]"
    by (simp add: upt_conv_Cons map_Suc_upt [symmetric] comp_def ac_simps del: upt_Suc)
  ultimately show ?case using allocpid_pool [OF nz] by simp
qed simp

text \<open>
  The scan goes on for ever when a thread's number lies below the rotor: \<open>continue\<close> then leads
  back to the same test.
\<close>

lemma pid_scan_loops:
  assumes "pid_scan st p pid t r pnext = Some y"
  shows "t \<noteq> 0 \<longrightarrow> sint pid < sint r \<longrightarrow> False"
  using assms
proof (rule pid_scan.raw_induct [where P = "\<lambda>st p pid t r pnext y. t \<noteq> 0 \<longrightarrow> sint pid < sint r \<longrightarrow> False", rotated], intro impI)
  fix f st p pid t r pnext y
  assume IH: "\<And>st p pid t r pnext y. f st p pid t r pnext = Some y \<Longrightarrow> t \<noteq> 0 \<longrightarrow> sint pid < sint r \<longrightarrow> False"
    and eq: "(if sint pid < sint r then
    if t \<noteq> 0 then f st p pid t r pnext
    else if p_allnext st p = allprocs st then Some (r, pnext)
    else f st (p_allnext st p) (p_pid st (p_allnext st p)) 0 (rotor_from r) pnext
  else if pid = r then
    if r + 1 = pnext then f st (allprocs st) (p_pid st (allprocs st)) t (rotor_from (r + 2)) (- 1)
    else if t \<noteq> 0 then f st p pid t (r + 1) pnext
    else if p_allnext st p = allprocs st then Some (r + 1, pnext)
    else f st (p_allnext st p) (p_pid st (p_allnext st p)) 0 (rotor_from (r + 1)) pnext
  else
    let pnext' = (if sint pid < sint pnext then pid else pnext);
        t' = (if t = 0 then p_threads st p else t_next st t)
    in if t' \<noteq> 0 then f st p (t_pid st t') t' r pnext'
       else if p_allnext st p = allprocs st then Some (r, pnext')
       else f st (p_allnext st p) (p_pid st (p_allnext st p)) 0 (rotor_from r) pnext') = Some y"
    and stuck: "t \<noteq> 0" "sint pid < sint r"
  have "f st p pid t r pnext = Some y" using eq stuck by simp
  then show False using IH stuck by blast
qed

lemma pid_scan_stuck: "t \<noteq> 0 \<Longrightarrow> sint pid < sint r \<Longrightarrow> pid_scan st p pid t r pnext = None"
  using pid_scan_loops by (cases "pid_scan st p pid t r pnext") blast+

text \<open>
  The search for new numbers hangs the kernel, with the number pool locked: it suffices that
  the first process has a number above the rotor and its first thread one below it.
\<close>

theorem refill_pids_hangs:
  assumes "rotor_from (pid_rotor st) = r" "sint r < sint (p_pid st (allprocs st))"
    and "p_threads st (allprocs st) = t" "t \<noteq> 0" "sint (t_pid st t) < sint r" "npid_free st = 0"
  shows "allocpid st = None"
proof -
  have "pid_scan st (allprocs st) (p_pid st (allprocs st)) 0 r (- 1) = pid_scan st (allprocs st) (t_pid st t) t r
      (if sint (p_pid st (allprocs st)) < - 1 then p_pid st (allprocs st) else - 1)"
    using assms(2-4) by (subst pid_scan.simps) auto
  then show ?thesis using assms pid_scan_stuck by (simp add: allocpid_def refill_pids_def Let_def)
qed

theorem refill_pids_hangs_witness: "allocpid (demo_ptab\<lparr>t_pid := (\<lambda>_. 0)(55 := 150)\<rparr>) = None"
proof -
  have d: "allprocs demo_ptab = 50" "p_pid demo_ptab 50 = 300" "p_threads demo_ptab 50 = 55" "npid_free demo_ptab = 0" "pid_rotor demo_ptab = 0"
    by (simp_all add: demo_ptab_def publish_proc_def add_proclist_def Let_def)
  show ?thesis
    by (rule refill_pids_hangs [where r = 200 and t = 55]) (simp_all add: d rotor_from_def)
qed

lemma sint_inc_pos: "0 < sint r \<Longrightarrow> (r :: u32) \<noteq> 0x7FFFFFFF \<Longrightarrow> 0 < sint (r + 1)"
proof -
  assume r: "0 < sint r" "r \<noteq> 0x7FFFFFFF"
  have b: "0 < uint r" "uint r < 2147483648" using r(1) uint_lt2p [of r] by (auto simp: sint_u32 split: if_splits)
  moreover have "uint r \<noteq> 2147483647" using r(2) by (simp add: word_uint_eq_iff)
  ultimately have "uint (r + 1) = uint r + 1" "uint r + 1 < 2147483648" by (auto simp: uint_word_ariths mod_pos_pos_trivial)
  then show ?thesis using b by (simp add: sint_u32)
qed

lemma rotor_from_pos: "0 < sint (rotor_from r)"
  by (simp add: rotor_from_def)

lemma pid_scan_top:
  assumes "pid_scan st p pid t r pnext = Some y"
  shows "(\<forall>a. p_pid st a \<noteq> 0x7FFFFFFF \<and> t_pid st a \<noteq> 0x7FFFFFFF) \<longrightarrow>
    pid \<noteq> 0x7FFFFFFF \<longrightarrow> 0 < sint r \<longrightarrow> pnext = - 1 \<longrightarrow> snd y = - 1"
  using assms
proof (rule pid_scan.raw_induct [where P = "\<lambda>st p pid t r pnext y.
    (\<forall>a. p_pid st a \<noteq> 0x7FFFFFFF \<and> t_pid st a \<noteq> 0x7FFFFFFF) \<longrightarrow>
    pid \<noteq> 0x7FFFFFFF \<longrightarrow> 0 < sint r \<longrightarrow> pnext = - 1 \<longrightarrow> snd y = - 1", rotated], intro impI)
  fix f st p pid t r pnext y
  assume IH: "\<And>st p pid t r pnext y. f st p pid t r pnext = Some y \<Longrightarrow>
      (\<forall>a. p_pid st a \<noteq> 0x7FFFFFFF \<and> t_pid st a \<noteq> 0x7FFFFFFF) \<longrightarrow>
      pid \<noteq> 0x7FFFFFFF \<longrightarrow> 0 < sint r \<longrightarrow> pnext = - 1 \<longrightarrow> snd y = - 1"
    and eq: "(if sint pid < sint r then
        if t \<noteq> 0 then f st p pid t r pnext
        else if p_allnext st p = allprocs st then Some (r, pnext)
        else f st (p_allnext st p) (p_pid st (p_allnext st p)) 0 (rotor_from r) pnext
      else if pid = r then
        if r + 1 = pnext then f st (allprocs st) (p_pid st (allprocs st)) t (rotor_from (r + 2)) (- 1)
        else if t \<noteq> 0 then f st p pid t (r + 1) pnext
        else if p_allnext st p = allprocs st then Some (r + 1, pnext)
        else f st (p_allnext st p) (p_pid st (p_allnext st p)) 0 (rotor_from (r + 1)) pnext
      else
        let pnext' = (if sint pid < sint pnext then pid else pnext);
            t' = (if t = 0 then p_threads st p else t_next st t)
        in if t' \<noteq> 0 then f st p (t_pid st t') t' r pnext'
           else if p_allnext st p = allprocs st then Some (r, pnext')
           else f st (p_allnext st p) (p_pid st (p_allnext st p)) 0 (rotor_from r) pnext') = Some y"
    and ok: "\<forall>a. p_pid st a \<noteq> 0x7FFFFFFF \<and> t_pid st a \<noteq> 0x7FFFFFFF" "pid \<noteq> 0x7FFFFFFF" "0 < sint r" "pnext = - 1"
  have high: "\<not> sint pid < - 1" if "\<not> sint pid < sint r" using that ok(3) by simp
  have up: "0 < sint (r + 1)" if "pid = r" using that sint_inc_pos ok(2,3) by simp
  have again: "snd y = - 1" if "f st a q t' r' (- 1) = Some y" "q \<noteq> 0x7FFFFFFF" "0 < sint r'" for a q t' r'
    using IH [OF that(1)] ok(1) that by blast
  show "snd y = - 1"
    using eq ok high up rotor_from_pos again by (auto simp: Let_def split: if_splits)
qed

text \<open>
  C31. A refilled pool does not leave out the numbers in use: the bound \<open>pnext\<close> starts as \<open>-1\<close>, below
  every number as the signed comparison sees it, so it is never lowered, and a process with
  a number above the rotor gets a namesake when the pool has come to it.
\<close>

theorem refill_pids_repeats:
  assumes "refill_pids st = Some st'" "\<forall>a. p_pid st a \<noteq> 0x7FFFFFFF \<and> t_pid st a \<noteq> 0x7FFFFFFF"
    and "pid_nextfree st' \<le> p_pid st a" "p_pid st a \<noteq> - 1"
  shows "\<exists>pids st''. alloc_pids (Suc (unat (p_pid st a - pid_nextfree st'))) st' = Some (pids, st'') \<and> last pids = p_pid st a"
proof -
  let ?q = "p_pid st a" and ?f = "pid_nextfree st'"
  obtain r where y: "pid_scan st (allprocs st) (p_pid st (allprocs st)) 0 (rotor_from (pid_rotor st)) (- 1) = Some (r, npid_free st' + ?f)"
    using assms(1) by (auto simp: refill_pids_def Let_def)
  have "npid_free st' + ?f = - 1" using pid_scan_top [OF y] assms(2) rotor_from_pos by simp
  then have n: "npid_free st' = - 1 - ?f" by (simp add: algebra_simps eq_neg_iff_add_eq_0)
  have "?q < - 1" using assms(4) word_order.extremum_strict [of ?q] by (metis word_order.not_eq_extremum)
  then have "?q - ?f < - 1 - ?f" using assms(3) by (simp add: word_less_nat_alt word_le_nat_alt unat_sub_le)
  then have "Suc (unat (?q - ?f)) \<le> unat (npid_free st')" by (simp add: n word_less_nat_alt)
  from alloc_pids_pool [OF this] show ?thesis by auto
qed

definition demo_full :: ptab where
  "demo_full = demo_ptab\<lparr>t_pid := (\<lambda>_. 0)(55 := 301)\<rparr>"

theorem refill_pids_repeats_witness:
  "\<exists>st' pids st''. refill_pids demo_full = Some st' \<and> alloc_pids 101 st' = Some (pids, st'') \<and>
     last pids = 300 \<and> p_pid demo_full 50 = 300"
proof -
  have d: "allprocs demo_full = 50" "p_pid demo_full = (\<lambda>_. 0)(50 := 300, 60 := 201)" "p_threads demo_full 50 = 55" "t_next demo_full 55 = 0"
    "t_pid demo_full = (\<lambda>_. 0)(55 := 301)" "pid_rotor demo_full = 0" "p_allnext demo_full 50 = 50"
    by (simp_all add: demo_full_def demo_ptab_def publish_proc_def add_proclist_def Let_def)
  have "pid_scan demo_full 50 300 0 200 (- 1) = Some (200, - 1)"
    by (subst pid_scan.simps, simp add: d, subst pid_scan.simps, simp add: d)
  then obtain st' where r: "refill_pids demo_full = Some st'" "pid_nextfree st' = 200"
    by (auto simp: refill_pids_def d rotor_from_def)
  have "\<exists>pids st''. alloc_pids (Suc (unat (p_pid demo_full 50 - pid_nextfree st'))) st' = Some (pids, st'') \<and> last pids = p_pid demo_full 50"
    by (rule refill_pids_repeats [OF r(1)]) (simp_all add: d r(2))
  then show ?thesis using r by (auto simp: d)
qed

section \<open>Thread lists\<close>

lemma find_slot_chain:
  "chain nx c (as @ t # bs) \<Longrightarrow> t \<notin> set as \<Longrightarrow>
   find_slot nx t tp c = Some (if as = [] then tp else After (last as))"
proof (induction as arbitrary: c tp)
  case Nil
  then show ?case by (subst find_slot.simps) simp
next
  case (Cons a as)
  then show ?case by (subst find_slot.simps) auto
qed

lemma find_slot_lost: "chain nx c xs \<Longrightarrow> t \<notin> set xs \<Longrightarrow> find_slot nx t tp c = None"
  by (induction xs arbitrary: c tp) (subst find_slot.simps; auto)+

text \<open>
  The list of threads of a process: a new thread heads it, a thread that exits is taken out
  from any place and leaves the others in order, and a thread that is not on the list of its
  process is detected.
\<close>

theorem thread_list:
  assumes "chain (t_next st) (p_threads st p) xs" "distinct xs" "t \<noteq> 0"
  shows "if t \<in> set xs then \<exists>st'. unlink_thread t p st = Some st' \<and> chain (t_next st') (p_threads st' p) (remove1 t xs)
    else unlink_thread t p st = None \<and> chain (t_next (link_thread t p st)) (p_threads (link_thread t p st) p) (t # xs)"
proof (cases "t \<in> set xs")
  case False
  then show ?thesis using assms find_slot_lost [OF assms(1)]
    by (simp add: unlink_thread_def link_thread_def chain_upd_notin)
next
  case True
  then obtain as bs where xs: "xs = as @ t # bs" by (auto dest: split_list)
  then have nt: "t \<notin> set as" "t \<notin> set bs" using assms(2) by auto
  have rm: "remove1 t xs = as @ bs" using xs nt by (simp add: remove1_append)
  have f: "find_slot (t_next st) t Head (p_threads st p) = Some (if as = [] then Head else After (last as))"
    using find_slot_chain assms(1) xs nt by blast
  have split: "chain n c (ys @ z # zs) \<Longrightarrow> ys \<noteq> [] \<Longrightarrow> distinct (ys @ zs) \<Longrightarrow> chain (n(last ys := n z)) c (ys @ zs)" for n c ys z zs
    by (induction ys arbitrary: c) (auto simp: chain_upd_notin)
  show ?thesis
  proof (cases "as = []")
    case True
    then show ?thesis using f rm xs assms(1) by (simp add: unlink_thread_def)
  next
    case False
    then have "chain ((t_next st)(last as := t_next st t)) (p_threads st p) (as @ bs)"
      using split assms(1,2) xs by simp
    then show ?thesis using False f rm xs by (simp add: unlink_thread_def)
  qed
qed

theorem thread_list_witness:
  "\<exists>st'. unlink_thread 55 50 (link_thread 56 50 demo_full) = Some st' \<and> chain (t_next st') (p_threads st' 50) [56] \<and>
     unlink_thread 57 50 demo_full = None"
proof -
  have d: "chain (t_next demo_full) (p_threads demo_full 50) [55]"
    by (simp add: demo_full_def demo_ptab_def publish_proc_def add_proclist_def Let_def)
  then have "chain (t_next (link_thread 56 50 demo_full)) (p_threads (link_thread 56 50 demo_full) 50) [56, 55]"
    using thread_list [OF d, of 56] by simp
  from thread_list [OF this, of 55] thread_list [OF d, of 57] show ?thesis by simp
qed

end
