(* ===== verification/Permissions.thy ===== *)
theory Permissions
  imports Vsta_Prelude
begin

text \<open>
  Permissions and protections: \<open>libc/permsup.c\<close>, which the kernel links too, the tests
  \<open>canget()\<close>, \<open>isroot()\<close> and \<open>issys()\<close> and the system call \<open>perm_ctl()\<close> of \<open>os/kern/misc.c\<close>.

  A permission is a label of up to six bytes that a process holds; a protection is a label
  with capability bits attached to an object.  The arrays are lists of \<open>PERMLEN\<close> bytes.
  The capability sum is an \<open>int\<close> in the code and an or of bytes, so it is a byte here.
\<close>

abbreviation PERMLEN :: nat where "PERMLEN \<equiv> 7"
abbreviation PROCPERMS :: nat where "PROCPERMS \<equiv> 6"

record perm =
  perm_len :: u8
  perm_id :: "u8 list"
  perm_uid :: u32

record prot =
  prot_len :: u8
  prot_default :: u8
  prot_id :: "u8 list"
  prot_bits :: "u8 list"

section \<open>The macros of perm.h\<close>

definition PERM_ACTIVE :: "perm \<Rightarrow> bool" where
  "PERM_ACTIVE p = (perm_len p < 7)"

definition PERM_DISABLED :: "perm \<Rightarrow> bool" where
  "PERM_DISABLED p = (perm_len p AND 0x80 \<noteq> 0)"

definition PERM_ENABLE :: "perm \<Rightarrow> perm" where
  "PERM_ENABLE p = p\<lparr>perm_len := perm_len p AND NOT 0x80\<rparr>"

definition PERM_NULL :: "perm \<Rightarrow> perm" where
  "PERM_NULL p = p\<lparr>perm_len := 7\<rparr>"

definition PERM_LEN :: "perm \<Rightarrow> nat" where
  "PERM_LEN p = unat ((perm_len p AND NOT 0x80) mod 7)"

section \<open>permsup.c\<close>

fun or_bits :: "u8 \<Rightarrow> u8 list \<Rightarrow> u8" where
  "or_bits g [] = g"
| "or_bits g (b # rest) = or_bits (g OR b) rest"

text \<open>The loop of \<open>perm_step\<close> from index \<open>x\<close> on; the inner loop adds all the remaining bits.\<close>

function perm_match :: "perm \<Rightarrow> prot \<Rightarrow> nat \<Rightarrow> u8 \<Rightarrow> u8" where
  "perm_match perm prot x granted =
     (if unat (prot_len prot) \<le> x then granted
      else if PERM_LEN perm \<le> x then
        or_bits granted (map (\<lambda>y. prot_bits prot ! y) [x..<unat (prot_len prot)])
      else if prot_id prot ! x \<noteq> perm_id perm ! x then granted
      else perm_match perm prot (Suc x) (granted OR prot_bits prot ! x))"
  by pat_completeness auto
termination by (relation "measure (\<lambda>(perm, prot, x, g). unat (prot_len prot) - x)") auto

declare perm_match.simps [simp del]

definition perm_step :: "perm \<Rightarrow> prot \<Rightarrow> u8" where
  "perm_step perm prot = perm_match perm prot 0 (prot_default prot)"

fun perm_calc :: "perm list \<Rightarrow> prot \<Rightarrow> u8" where
  "perm_calc [] prot = 0"
| "perm_calc (p # ps) prot =
     (if \<not> PERM_ACTIVE p then perm_calc ps prot else perm_step p prot OR perm_calc ps prot)"

definition zero_ids :: "nat \<Rightarrow> perm list" where
  "zero_ids nperms =
     map PERM_NULL (replicate nperms \<lparr>perm_len = 0, perm_id = replicate PERMLEN 0, perm_uid = 0\<rparr>)"

definition label_match :: "perm \<Rightarrow> perm \<Rightarrow> bool" where
  "label_match us p = list_all (\<lambda>x. perm_id us ! x = perm_id p ! x) [0..<PERM_LEN us]"

definition perm_dominates :: "perm \<Rightarrow> perm \<Rightarrow> bool" where
  "perm_dominates us target =
     (let p = PERM_ENABLE target in
      if \<not> PERM_ACTIVE p then True
      else if PERM_ACTIVE us \<and> perm_len us \<le> perm_len p \<and> label_match us p then True
      else if \<not> PERM_DISABLED us \<or> PERM_DISABLED target then False
      else if PERM_LEN us \<noteq> PERM_LEN p then False
      else label_match us p)"

section \<open>misc.c\<close>

record cred =
  p_ids :: "perm list"
  p_prot :: prot

definition ACC_EXEC :: u8 where "ACC_EXEC = 1"
definition ACC_WRITE :: u8 where "ACC_WRITE = 2"
definition ACC_READ :: u8 where "ACC_READ = 4"

definition rootprot :: prot where
  "rootprot = \<lparr>prot_len = 2, prot_default = 0, prot_id = [1, 1, 0, 0, 0, 0, 0],
     prot_bits = [ACC_READ, ACC_WRITE, 0, 0, 0, 0, 0]\<rparr>"

definition canget :: "u8 \<Rightarrow> cred \<Rightarrow> unit syscall" where
  "canget req c = (if perm_calc (p_ids c) rootprot AND req = 0 then Inl EPERM else Inr ())"

definition isroot :: "cred \<Rightarrow> unit syscall" where
  "isroot c = canget ACC_WRITE c"

definition issys :: "cred \<Rightarrow> unit syscall" where
  "issys c = canget ACC_READ c"

text \<open>
  \<open>struct prot\<close> and \<open>struct perm\<close> are bytes without padding up to \<open>perm_uid\<close>, so the element
  of index \<open>-1\<close> of \<open>prot_id\<close> is \<open>prot_default\<close>, and that of \<open>perm_id\<close> is \<open>perm_len\<close>.
\<close>

definition set_prot_id :: "int \<Rightarrow> u8 \<Rightarrow> prot \<Rightarrow> prot" where
  "set_prot_id i v p = (if i < 0 then p\<lparr>prot_default := v\<rparr> else p\<lparr>prot_id := (prot_id p)[nat i := v]\<rparr>)"

definition get_perm_id :: "perm \<Rightarrow> int \<Rightarrow> u8" where
  "get_perm_id p i = (if i < 0 then perm_len p else perm_id p ! nat i)"

fun copy_label :: "nat list \<Rightarrow> perm \<Rightarrow> prot \<Rightarrow> prot" where
  "copy_label [] own p = p"
| "copy_label (i # is) own p =
     copy_label is own (p\<lparr>prot_bits := (prot_bits p)[i := 0], prot_id := (prot_id p)[i := perm_id own ! i]\<rparr>)"

definition match_self :: "nat \<Rightarrow> perm \<Rightarrow> prot \<Rightarrow> prot" where
  "match_self plen own pr =
     (let pr1 = pr\<lparr>prot_bits := (prot_bits pr)[plen := prot_bits pr ! unat (prot_len pr)],
                   prot_len := of_nat plen\<rparr>;
          pr2 = set_prot_id (int plen - 1) (get_perm_id own (int plen - 1)) pr1
      in copy_label [0..<plen - 1] own pr2)"

text \<open>The index of the first permission that dominates, or \<open>PROCPERMS\<close>.\<close>

definition dom_slot :: "perm list \<Rightarrow> perm \<Rightarrow> nat" where
  "dom_slot ids target = length (takeWhile (\<lambda>u. \<not> perm_dominates u target) ids)"

definition set_slot :: "nat \<Rightarrow> perm \<Rightarrow> nat \<Rightarrow> perm list \<Rightarrow> perm list" where
  "set_slot idx perm x ids =
     (let ids1 = ids[idx := perm] in
      if perm_uid (ids1 ! x) \<noteq> 0 then ids1[idx := (ids1 ! idx)\<lparr>perm_uid := perm_uid (ids1 ! x)\<rparr>]
      else ids1)"

text \<open>
  \<open>arg_perm\<close> is \<open>None\<close> when null, \<open>Some None\<close> when \<open>copyin\<close> faults and otherwise what it
  reads; \<open>arg_ret\<close> is \<open>None\<close> when null and otherwise whether \<open>copyout\<close> succeeds.
\<close>

definition perm_set :: "nat \<Rightarrow> perm \<Rightarrow> cred \<Rightarrow> cred \<times> unit syscall" where
  "perm_set idx perm c =
     (let x = dom_slot (p_ids c) perm;
          c1 = (if x < PROCPERMS then c\<lparr>p_ids := set_slot idx perm x (p_ids c)\<rparr> else c);
          c2 = (if idx = 0 then c1\<lparr>p_prot := match_self (PERM_LEN perm) (p_ids c1 ! 0) (p_prot c1)\<rparr>
                else c1)
      in (c2, if PROCPERMS \<le> x then Inl EPERM else Inr ()))"

definition perm_ctl ::
  "int \<Rightarrow> perm option option \<Rightarrow> bool option \<Rightarrow> cred \<Rightarrow> cred \<times> perm option syscall" where
  "perm_ctl arg_idx arg_perm arg_ret c =
     (if arg_idx < 0 \<or> int PROCPERMS \<le> arg_idx then (c, Inl EINVAL)
      else
        let (c1, r) = (case arg_perm of
              None \<Rightarrow> (c, Inr ())
            | Some None \<Rightarrow> (c, Inl EFAULT)
            | Some (Some perm) \<Rightarrow> perm_set (nat arg_idx) perm c)
        in case r of
          Inl e \<Rightarrow> (c1, Inl e)
        | Inr _ \<Rightarrow>
            (case arg_ret of
               None \<Rightarrow> (c1, Inr None)
             | Some ok \<Rightarrow> (c1, if ok then Inr (Some (p_ids c1 ! nat arg_idx)) else Inl EFAULT)))"

section \<open>What a label grants\<close>

definition bits_le :: "u8 \<Rightarrow> u8 \<Rightarrow> bool" where
  "bits_le a b = (a OR b = b)"

lemma bits_le_iff: "bits_le a b = (\<forall>k. bit a k \<longrightarrow> bit b k)"
proof
  assume "bits_le a b"
  then show "\<forall>k. bit a k \<longrightarrow> bit b k" unfolding bits_le_def by (metis bit_or_iff)
next
  assume "\<forall>k. bit a k \<longrightarrow> bit b k"
  then show "bits_le a b" unfolding bits_le_def by (intro bit_eqI) (auto simp: bit_or_iff)
qed

lemma bits_le_refl [simp]: "bits_le a a"
  by (simp add: bits_le_def)

lemma bits_le_trans [trans]: "bits_le a b \<Longrightarrow> bits_le b c \<Longrightarrow> bits_le a c"
  by (auto simp: bits_le_iff)

lemma bit_or_bits: "bit (or_bits g bs) k = (bit g k \<or> (\<exists>b \<in> set bs. bit b k))"
  by (induction g bs rule: or_bits.induct) (auto simp: bit_or_iff)

text \<open>The capability at index \<open>y\<close> is granted when the labels agree up to there.\<close>

definition grants_at :: "perm \<Rightarrow> prot \<Rightarrow> nat \<Rightarrow> bool" where
  "grants_at perm prot y = (\<forall>i \<le> y. i < PERM_LEN perm \<longrightarrow> prot_id prot ! i = perm_id perm ! i)"

lemma bit_perm_match:
  "(\<forall>i < x. i < PERM_LEN perm \<longrightarrow> prot_id prot ! i = perm_id perm ! i) \<Longrightarrow>
   bit (perm_match perm prot x g) k = (bit g k \<or>
     (\<exists>y. x \<le> y \<and> y < unat (prot_len prot) \<and> bit (prot_bits prot ! y) k \<and> grants_at perm prot y))"
proof (induction perm prot x g rule: perm_match.induct)
  case (1 perm prot x g)
  consider (out) "unat (prot_len prot) \<le> x" | (all) "x < unat (prot_len prot)" "PERM_LEN perm \<le> x"
    | (dif) "x < unat (prot_len prot)" "x < PERM_LEN perm" "prot_id prot ! x \<noteq> perm_id perm ! x"
    | (eq) "x < unat (prot_len prot)" "x < PERM_LEN perm" "prot_id prot ! x = perm_id perm ! x"
    by linarith
  then show ?case
  proof cases
    case out
    then show ?thesis by (subst perm_match.simps) auto
  next
    case all
    then have "grants_at perm prot y" if "x \<le> y" for y
      using 1(2) that by (auto simp: grants_at_def)
    then show ?thesis using all by (subst perm_match.simps) (auto simp: bit_or_bits)
  next
    case dif
    then have "\<not> grants_at perm prot y" if "x \<le> y" for y
      using that by (auto simp: grants_at_def)
    then show ?thesis using dif by (subst perm_match.simps) auto
  next
    case eq
    have hyp: "\<forall>i < Suc x. i < PERM_LEN perm \<longrightarrow> prot_id prot ! i = perm_id perm ! i"
      using 1(2) eq less_Suc_eq by auto
    then have gx: "grants_at perm prot x" by (simp add: grants_at_def)
    have "bit (perm_match perm prot x g) k = bit (perm_match perm prot (Suc x) (g OR prot_bits prot ! x)) k"
      using eq by (subst perm_match.simps) simp
    also have "\<dots> = (bit (g OR prot_bits prot ! x) k \<or>
     (\<exists>y. Suc x \<le> y \<and> y < unat (prot_len prot) \<and> bit (prot_bits prot ! y) k \<and> grants_at perm prot y))"
      using 1(1) eq hyp by simp
    also have "\<dots> = (bit g k \<or>
     (\<exists>y. x \<le> y \<and> y < unat (prot_len prot) \<and> bit (prot_bits prot ! y) k \<and> grants_at perm prot y))"
      using gx eq by (auto simp: bit_or_iff Suc_le_eq) (metis le_neq_implies_less)
    finally show ?thesis .
  qed
qed

lemma bit_perm_step:
  "bit (perm_step perm prot) k = (bit (prot_default prot) k \<or>
     (\<exists>y < unat (prot_len prot). bit (prot_bits prot ! y) k \<and> grants_at perm prot y))"
  by (simp add: perm_step_def bit_perm_match)

lemma bit_perm_calc:
  "bit (perm_calc ps prot) k = (\<exists>p \<in> set ps. PERM_ACTIVE p \<and> bit (perm_step p prot) k)"
  by (induction ps) (auto simp: bit_or_iff)

lemma active_len: "PERM_ACTIVE p \<Longrightarrow> PERM_LEN p = unat (perm_len p)"
proof -
  assume a: "PERM_ACTIVE p"
  then have u: "unat (perm_len p) < 7" by (simp add: PERM_ACTIVE_def word_less_nat_alt)
  then have "unat (perm_len p) \<in> {0, 1, 2, 3, 4, 5, 6}" by auto
  then have "perm_len p \<in> {0, 1, 2, 3, 4, 5, 6}" by (auto simp: word_unat_eq_iff)
  then show ?thesis by (auto simp: PERM_LEN_def)
qed

lemma active_len_less: "PERM_ACTIVE p \<Longrightarrow> PERM_LEN p < 7"
  by (simp add: active_len PERM_ACTIVE_def word_less_nat_alt)

lemma active_not_disabled: "PERM_ACTIVE p \<Longrightarrow> \<not> PERM_DISABLED p \<and> PERM_ENABLE p = p"
proof -
  assume a: "PERM_ACTIVE p"
  then have "unat (perm_len p) \<in> {0, 1, 2, 3, 4, 5, 6}"
    by (auto simp: PERM_ACTIVE_def word_less_nat_alt)
  then have "perm_len p \<in> {0, 1, 2, 3, 4, 5, 6}" by (auto simp: word_unat_eq_iff)
  then show ?thesis by (auto simp: PERM_DISABLED_def PERM_ENABLE_def)
qed

lemma PERM_LEN_ENABLE [simp]: "PERM_LEN (PERM_ENABLE p) = PERM_LEN p"
  by (simp add: PERM_LEN_def PERM_ENABLE_def and.assoc)

lemma PERM_ENABLE_id [simp]: "perm_id (PERM_ENABLE p) = perm_id p"
  by (simp add: PERM_ENABLE_def)

lemma shorter_label_grants:
  "PERM_LEN us \<le> PERM_LEN t \<Longrightarrow> label_match us t \<Longrightarrow> grants_at t prot y \<Longrightarrow> grants_at us prot y"
  by (auto simp: grants_at_def label_match_def list_all_iff)

lemma shorter_label_step:
  "PERM_LEN us \<le> PERM_LEN t \<Longrightarrow> label_match us t \<Longrightarrow> bit (perm_step t prot) k \<Longrightarrow> bit (perm_step us prot) k"
  by (auto simp: bit_perm_step dest: shorter_label_grants)

section \<open>Rights a process can reach\<close>

text \<open>
  A process may re-enable its disabled slots, so the rights within its reach are those of its
  slots with the flag cleared.  A slot is sound when a disabled label has a real length.
\<close>

definition reach :: "cred \<Rightarrow> prot \<Rightarrow> u8" where
  "reach c prot = perm_calc (map PERM_ENABLE (p_ids c)) prot"

definition slot_sound :: "perm \<Rightarrow> bool" where
  "slot_sound p = (PERM_DISABLED p \<longrightarrow> PERM_ACTIVE (PERM_ENABLE p))"

definition cred_ok :: "cred \<Rightarrow> bool" where
  "cred_ok c = (length (p_ids c) = PROCPERMS \<and> list_all slot_sound (p_ids c))"

lemma bit_reach:
  "bit (reach c prot) k =
     (\<exists>p \<in> set (p_ids c). PERM_ACTIVE (PERM_ENABLE p) \<and> bit (perm_step (PERM_ENABLE p) prot) k)"
  by (auto simp: reach_def bit_perm_calc)

lemma perm_step_cong:
  "PERM_LEN p = PERM_LEN q \<Longrightarrow> perm_id p = perm_id q \<Longrightarrow> perm_step p prot = perm_step q prot"
  by (rule bit_eqI) (simp add: bit_perm_step grants_at_def)

lemma calc_within_reach: "bits_le (perm_calc (p_ids c) prot) (reach c prot)"
  unfolding bits_le_iff bit_perm_calc bit_reach by (metis active_not_disabled)

lemma dominated_step:
  assumes "perm_dominates us target" "slot_sound us" "PERM_ACTIVE (PERM_ENABLE target)"
    and "bit (perm_step (PERM_ENABLE target) prot) k"
  shows "PERM_ACTIVE (PERM_ENABLE us) \<and> bit (perm_step (PERM_ENABLE us) prot) k"
proof -
  consider (pre) "PERM_ACTIVE us" "perm_len us \<le> perm_len (PERM_ENABLE target)" "label_match us (PERM_ENABLE target)"
    | (dis) "PERM_DISABLED us" "PERM_LEN us = PERM_LEN (PERM_ENABLE target)" "label_match us (PERM_ENABLE target)"
    using assms(1,3) by (auto simp: perm_dominates_def Let_def split: if_splits)
  then show ?thesis
  proof cases
    case pre
    then have "PERM_LEN us \<le> PERM_LEN (PERM_ENABLE target)"
      using active_len [OF pre(1)] active_len [OF assms(3)] by (simp add: word_le_nat_alt)
    then show ?thesis using pre assms(4) shorter_label_step active_not_disabled by metis
  next
    case dis
    then have "PERM_ACTIVE (PERM_ENABLE us)" using assms(2) by (simp add: slot_sound_def)
    moreover have "label_match (PERM_ENABLE us) (PERM_ENABLE target)"
      using dis by (simp add: label_match_def)
    ultimately show ?thesis using dis assms(4) by (metis shorter_label_step PERM_LEN_ENABLE order_refl)
  qed
qed

lemma dom_slot_dominates:
  "dom_slot ids target < length ids \<Longrightarrow> perm_dominates (ids ! dom_slot ids target) target"
  unfolding dom_slot_def using nth_length_takeWhile by fastforce

text \<open>Changing only the owner of a slot changes no right.\<close>

lemma perm_uid_irrelevant [simp]:
  "PERM_LEN (p\<lparr>perm_uid := u\<rparr>) = PERM_LEN p" "PERM_ACTIVE (p\<lparr>perm_uid := u\<rparr>) = PERM_ACTIVE p"
  "PERM_DISABLED (p\<lparr>perm_uid := u\<rparr>) = PERM_DISABLED p"
  "PERM_ENABLE (p\<lparr>perm_uid := u\<rparr>) = (PERM_ENABLE p)\<lparr>perm_uid := u\<rparr>"
  by (simp_all add: PERM_LEN_def PERM_ACTIVE_def PERM_DISABLED_def PERM_ENABLE_def)

lemma perm_step_uid [simp]: "perm_step (p\<lparr>perm_uid := u\<rparr>) prot = perm_step p prot"
  by (rule perm_step_cong) auto

lemma set_slot_cases:
  assumes "idx < length ids"
  obtains u where "set_slot idx perm x ids = ids[idx := perm\<lparr>perm_uid := u\<rparr>]"
proof (cases "perm_uid (ids[idx := perm] ! x) \<noteq> 0")
  case True
  then have "set_slot idx perm x ids = ids[idx := perm\<lparr>perm_uid := perm_uid (ids[idx := perm] ! x)\<rparr>]"
    using assms by (simp add: set_slot_def)
  then show ?thesis by (rule that)
next
  case False
  then have "set_slot idx perm x ids = ids[idx := perm\<lparr>perm_uid := perm_uid perm\<rparr>]"
    by (simp add: set_slot_def)
  then show ?thesis by (rule that)
qed

lemma match_self_ids [frame]: "p_ids (c\<lparr>p_prot := pr\<rparr>) = p_ids c"
  by simp

lemma perm_set_ids:
  "p_ids (fst (perm_set idx perm c)) =
     (if dom_slot (p_ids c) perm < PROCPERMS then set_slot idx perm (dom_slot (p_ids c) perm) (p_ids c)
      else p_ids c)"
  by (simp add: perm_set_def Let_def)

lemma perm_set_reach:
  assumes ok: "cred_ok c" and idx: "idx < PROCPERMS"
  shows "bits_le (reach (fst (perm_set idx perm c)) prot) (reach c prot)"
proof (cases "dom_slot (p_ids c) perm < PROCPERMS")
  case False
  then show ?thesis by (simp add: reach_def perm_set_ids)
next
  case True
  let ?x = "dom_slot (p_ids c) perm"
  have len: "length (p_ids c) = PROCPERMS" and snd: "list_all slot_sound (p_ids c)"
    using ok by (auto simp: cred_ok_def)
  have dom: "perm_dominates (p_ids c ! ?x) perm"
    using True len by (intro dom_slot_dominates) simp
  have us: "p_ids c ! ?x \<in> set (p_ids c)" using True len by simp
  obtain u where new: "set_slot idx perm ?x (p_ids c) = (p_ids c)[idx := perm\<lparr>perm_uid := u\<rparr>]"
    using set_slot_cases idx len by metis
  show ?thesis unfolding bits_le_iff
  proof (intro allI impI)
    fix k assume "bit (reach (fst (perm_set idx perm c)) prot) k"
    then obtain p where p: "p \<in> set ((p_ids c)[idx := perm\<lparr>perm_uid := u\<rparr>])"
        "PERM_ACTIVE (PERM_ENABLE p)" "bit (perm_step (PERM_ENABLE p) prot) k"
      using True new by (auto simp: bit_reach perm_set_ids)
    show "bit (reach c prot) k"
    proof (cases "p \<in> set (p_ids c)")
      case True
      then show ?thesis using p by (auto simp: bit_reach)
    next
      case False
      then have "p = perm\<lparr>perm_uid := u\<rparr>" using p(1) set_update_subset_insert by fastforce
      then show ?thesis using dominated_step [OF dom _ _ , of prot k] p us snd
        by (auto simp: bit_reach list_all_iff)
    qed
  qed
qed

lemma perm_set_ok:
  assumes "cred_ok c" "idx < PROCPERMS" "slot_sound perm"
  shows "cred_ok (fst (perm_set idx perm c))"
proof -
  obtain u where "set_slot idx perm (dom_slot (p_ids c) perm) (p_ids c) = (p_ids c)[idx := perm\<lparr>perm_uid := u\<rparr>]"
    using set_slot_cases assms by (metis cred_ok_def)
  moreover have "slot_sound (perm\<lparr>perm_uid := u\<rparr>)" using assms(3) by (simp add: slot_sound_def)
  ultimately show ?thesis
    using assms(1) set_update_subset_insert by (fastforce simp: cred_ok_def perm_set_ids list_all_iff)
qed

section \<open>Sequences of perm_ctl calls\<close>

fun ctl_run :: "(int \<times> perm) list \<Rightarrow> cred \<Rightarrow> cred" where
  "ctl_run [] c = c"
| "ctl_run ((i, p) # rest) c = ctl_run rest (fst (perm_ctl i (Some (Some p)) None c))"

lemma perm_ctl_set:
  "0 \<le> i \<Longrightarrow> i < int PROCPERMS \<Longrightarrow>
   perm_ctl i (Some (Some perm)) None c =
     (fst (perm_set (nat i) perm c),
      case snd (perm_set (nat i) perm c) of Inl e \<Rightarrow> Inl e | Inr _ \<Rightarrow> Inr None)"
  by (cases "perm_set (nat i) perm c") (auto simp: perm_ctl_def split: sum.splits)

lemma perm_ctl_range:
  "\<not> (0 \<le> i \<and> i < int PROCPERMS) \<Longrightarrow> perm_ctl i a r c = (c, Inl EINVAL)"
  by (auto simp: perm_ctl_def)

lemma perm_ctl_reach:
  "cred_ok c \<Longrightarrow> slot_sound perm \<Longrightarrow>
   cred_ok (fst (perm_ctl i (Some (Some perm)) None c)) \<and>
   bits_le (reach (fst (perm_ctl i (Some (Some perm)) None c)) prot) (reach c prot)"
  by (cases "0 \<le> i \<and> i < int PROCPERMS")
    (auto simp: perm_ctl_set perm_ctl_range perm_set_reach perm_set_ok)

lemma ctl_run_reach:
  "cred_ok c \<Longrightarrow> list_all (\<lambda>(i, p). slot_sound p) xs \<Longrightarrow>
   cred_ok (ctl_run xs c) \<and> bits_le (reach (ctl_run xs c) prot) (reach c prot)"
proof (induction xs c rule: ctl_run.induct)
  case (2 i p rest c)
  then show ?case using perm_ctl_reach [of c p i prot] by (auto intro: bits_le_trans)
qed simp

lemma bits_le_and: "bits_le a b \<Longrightarrow> b AND m = 0 \<Longrightarrow> a AND m = 0"
  by (rule bit_eqI) (metis bit_0_eq bit_and_iff bits_le_iff bot_apply bot_bool_def)

lemma less_two: "((y :: nat) < 2) = (y = 0 \<or> y = Suc 0)" "(y \<le> Suc 0) = (y = 0 \<or> y = Suc 0)"
  by auto

lemma rootprot_bits:
  "bit (perm_step p rootprot) (Suc 0) = (\<forall>i < 2. i < PERM_LEN p \<longrightarrow> perm_id p ! i = 1)"
proof -
  have "\<not> bit (4 :: u8) (Suc 0)" "bit (2 :: u8) (Suc 0)" by simp_all
  then have "bit (perm_step p rootprot) (Suc 0) = grants_at p rootprot (Suc 0)"
    unfolding bit_perm_step by (auto simp: rootprot_def ACC_READ_def ACC_WRITE_def less_two)
  also have "\<dots> = (\<forall>i < 2. i < PERM_LEN p \<longrightarrow> perm_id p ! i = 1)"
    by (auto simp: grants_at_def rootprot_def less_two)
  finally show ?thesis .
qed

lemma bit_and_2: "bit (a AND 2) k = (k = Suc 0 \<and> bit (a :: u8) k)"
  unfolding bit_and_iff bit_2_iff by auto

lemma and_2_bit: "(a AND 2 = 0) = (\<not> bit (a :: u8) (Suc 0))"
  by (metis bit_and_2 bit_eqI bit_0_eq bot_apply bot_bool_def)

lemma isroot_iff:
  "(isroot c = Inr ()) = (\<exists>p \<in> set (p_ids c). PERM_ACTIVE p \<and> (\<forall>i < 2. i < PERM_LEN p \<longrightarrow> perm_id p ! i = 1))"
  by (auto simp: isroot_def canget_def ACC_WRITE_def and_2_bit bit_perm_calc rootprot_bits)

lemma set_slot_nth:
  assumes "idx < length ids"
  shows "PERM_LEN (set_slot idx perm x ids ! idx) = PERM_LEN perm \<and>
    PERM_ACTIVE (set_slot idx perm x ids ! idx) = PERM_ACTIVE perm \<and>
    PERM_DISABLED (set_slot idx perm x ids ! idx) = PERM_DISABLED perm \<and>
    perm_len (set_slot idx perm x ids ! idx) = perm_len perm \<and>
    perm_id (set_slot idx perm x ids ! idx) = perm_id perm \<and>
    length (set_slot idx perm x ids) = length ids"
proof -
  obtain u where "set_slot idx perm x ids = ids[idx := perm\<lparr>perm_uid := u\<rparr>]"
    using set_slot_cases assms by metis
  then show ?thesis using assms by simp
qed

lemma dom_slot_le: "i < length ids \<Longrightarrow> perm_dominates (ids ! i) target \<Longrightarrow> dom_slot ids target \<le> i"
  unfolding dom_slot_def
  by (metis leI nth_mem set_takeWhileD takeWhile_nth)

lemma copy_label_len [frame]: "prot_len (copy_label is own p) = prot_len p"
  by (induction "is" own p rule: copy_label.induct) auto

lemma copy_label_default [frame]: "prot_default (copy_label is own p) = prot_default p"
  by (induction "is" own p rule: copy_label.induct) auto

lemma match_self_len: "prot_len (match_self plen own pr) = of_nat plen"
  by (simp add: match_self_def Let_def frame set_prot_id_def)

section \<open>What the permission system guarantees\<close>

text \<open>
  A user whose only label is 2.1, and the protection that the first process is given.
\<close>

definition label :: "u8 \<Rightarrow> u8 list \<Rightarrow> u32 \<Rightarrow> perm" where
  "label n ids uid = \<lparr>perm_len = n, perm_id = take PERMLEN (ids @ replicate PERMLEN 0), perm_uid = uid\<rparr>"

definition user_cred :: cred where
  "user_cred = \<lparr>p_ids = label 2 [2, 1] 5 # zero_ids 5,
     p_prot = \<lparr>prot_len = 2, prot_default = 0, prot_id = [2, 1, 0, 0, 0, 0, 0],
       prot_bits = [0, 31, 0, 0, 0, 0, 0]\<rparr>\<rparr>"

text \<open>
  Each capability bit is granted exactly when the object gives it to everybody, or an
  active permission of the process agrees with the object's label at every position up to
  the one that carries the bit, as far as the permission reaches.
\<close>

theorem perm_calc_bits:
  "bit (perm_calc ps prot) k = (\<exists>p \<in> set ps. PERM_ACTIVE p \<and> (bit (prot_default prot) k \<or>
     (\<exists>y < unat (prot_len prot). bit (prot_bits prot ! y) k \<and> grants_at p prot y)))"
  by (auto simp: bit_perm_calc bit_perm_step)

text \<open>
  \<open>isroot()\<close> succeeds exactly for a process with an active permission that is a prefix of
  the label 1.1 or extends it.
\<close>

theorem isroot_label:
  "(isroot c = Inr ()) = (\<exists>p \<in> set (p_ids c). PERM_ACTIVE p \<and> grants_at p rootprot 1)"
  by (auto simp: isroot_iff grants_at_def rootprot_def less_two)

text \<open>
  C19. No sequence of \<open>perm_ctl()\<close> calls gains rights: as long as no label with the disabled
  flag and a length of seven or more is installed, what the process is granted on any
  object stays within what its labels, disabled ones included, granted at the start.
\<close>

theorem perm_ctl_no_escalation:
  assumes "cred_ok c" and "list_all (\<lambda>(i, p). slot_sound p) xs"
  shows "bits_le (perm_calc (p_ids (ctl_run xs c)) prot) (reach c prot) \<and> cred_ok (ctl_run xs c)"
  using ctl_run_reach [OF assms, of prot] calc_within_reach bits_le_trans by blast

theorem perm_ctl_no_escalation_witness:
  "bits_le (perm_calc (p_ids (ctl_run [(3, label 4 [2, 1, 9, 9] 0), (0, label 0x82 [2, 1] 0), (2, label 2 [1, 1] 0)]
     user_cred)) rootprot) (reach user_cred rootprot) \<and> reach user_cred rootprot = 0"
proof -
  have a: "cred_ok user_cred" by code_simp
  have b: "list_all (\<lambda>(i, p). slot_sound p)
    [(3 :: int, label 4 [2, 1, 9, 9] 0), (0, label 0x82 [2, 1] 0), (2, label 2 [1, 1] 0)]" by code_simp
  have "reach user_cred rootprot = 0" by code_simp
  then show ?thesis using perm_ctl_no_escalation [OF a b] by blast
qed

text \<open>
  C25. Without that condition every process becomes root in two calls: the length byte 0x87
  passes as a null slot, and its disabled flag with the length 7 mod 7 then counts as the
  disabled form of the empty label, which dominates everything.
\<close>

theorem perm_ctl_escalation:
  assumes len: "length (p_ids c) = PROCPERMS"
  shows "isroot (ctl_run [(1, label 0x87 [] u), (1, label 0 [] v)] c) = Inr ()"
proof -
  let ?bad = "label 0x87 [] u" and ?root = "label 0 [] v"
  let ?c1 = "fst (perm_set 1 ?bad c)"
  have pos: "0 < length (p_ids c)" using len by simp
  have nonact: "\<not> PERM_ACTIVE (PERM_ENABLE ?bad)"
    by (simp add: label_def PERM_ACTIVE_def PERM_ENABLE_def)
  have "perm_dominates (p_ids c ! 0) ?bad" using nonact by (simp add: perm_dominates_def Let_def)
  then have "dom_slot (p_ids c) ?bad = 0" using dom_slot_le [OF pos] by simp
  then have ids1: "p_ids ?c1 = set_slot 1 ?bad 0 (p_ids c)" by (simp add: perm_set_ids)
  have s1: "length (p_ids ?c1) = PROCPERMS" "PERM_LEN (p_ids ?c1 ! 1) = PERM_LEN ?bad"
    "PERM_DISABLED (p_ids ?c1 ! 1) = PERM_DISABLED ?bad"
    using set_slot_nth [of 1 "p_ids c" ?bad 0] len ids1 by auto
  have "PERM_LEN ?bad = 0" "PERM_DISABLED ?bad" "PERM_LEN ?root = 0" "\<not> PERM_DISABLED ?root"
    "PERM_LEN (PERM_ENABLE ?root) = 0"
    by (simp_all add: label_def PERM_LEN_def PERM_DISABLED_def PERM_ENABLE_def)
  then have "perm_dominates (p_ids ?c1 ! 1) ?root"
    using s1 by (auto simp: perm_dominates_def Let_def label_match_def)
  then have d: "dom_slot (p_ids ?c1) ?root < PROCPERMS"
    using dom_slot_le [of 1 "p_ids ?c1" ?root] s1 by simp
  let ?c2 = "fst (perm_set 1 ?root ?c1)"
  let ?new = "p_ids ?c2 ! 1"
  have n: "PERM_LEN ?new = 0" "PERM_ACTIVE ?new" "length (p_ids ?c2) = PROCPERMS"
    using set_slot_nth [of 1 "p_ids ?c1" ?root "dom_slot (p_ids ?c1) ?root"] d s1
    by (auto simp: perm_set_ids label_def PERM_LEN_def PERM_ACTIVE_def)
  then have "?new \<in> set (p_ids ?c2)" by simp
  then have "isroot ?c2 = Inr ()" using n by (auto simp: isroot_iff)
  then show ?thesis by (simp add: perm_ctl_set)
qed

theorem perm_ctl_escalation_witness:
  "isroot user_cred = Inl EPERM \<and> isroot (ctl_run [(1, label 0x87 [] 0), (1, label 0 [] 0)] user_cred) = Inr ()"
proof -
  have "isroot user_cred = Inl EPERM" by code_simp
  then show ?thesis using perm_ctl_escalation [of user_cred 0 0] by (simp add: user_cred_def zero_ids_def)
qed

text \<open>
  A refused request still rewrites the protection of the process when it names slot 0:
  the labels are unchanged and the error is \<open>EPERM\<close>, but \<open>prot_len\<close> is that of the label
  that was refused.
\<close>

theorem perm_ctl_refused_changes_prot:
  assumes "dom_slot (p_ids c) perm = PROCPERMS"
  shows "\<exists>c'. perm_ctl 0 (Some (Some perm)) None c = (c', Inl EPERM) \<and> p_ids c' = p_ids c \<and>
     prot_len (p_prot c') = of_nat (PERM_LEN perm)"
  using assms by (simp add: perm_ctl_def perm_set_def Let_def match_self_len)

theorem perm_ctl_refused_changes_prot_witness:
  "prot_len (p_prot (fst (perm_ctl 0 (Some (Some (label 1 [1] 0))) None user_cred))) = 1 \<and>
   prot_len (p_prot user_cred) = 2"
proof -
  have "dom_slot (p_ids user_cred) (label 1 [1] 0) = PROCPERMS" by code_simp
  moreover have "PERM_LEN (label 1 [1] 0) = 1" by (simp add: PERM_LEN_def label_def)
  ultimately show ?thesis using perm_ctl_refused_changes_prot [of user_cred "label 1 [1] 0"]
    by (auto simp: user_cred_def)
qed

text \<open>
  Clearing slot 0 with the null length 7 opens the process to everybody: the write to
  \<open>prot_id[-1]\<close> stores the length byte in \<open>prot_default\<close>, so any active permission is
  granted the bits \<open>P_PRIO\<close>, \<open>P_SIG\<close> and \<open>P_KILL\<close> (7) on the process.
\<close>

theorem perm_ctl_null_slot_opens_process:
  assumes "length (p_ids c) = PROCPERMS" and "perm_len perm = 7" and "PERM_ACTIVE q"
  shows "perm_step q (p_prot (fst (perm_ctl 0 (Some (Some perm)) None c))) = 7"
proof -
  have nonact: "\<not> PERM_ACTIVE (PERM_ENABLE perm)"
    using assms(2) by (simp add: PERM_ACTIVE_def PERM_ENABLE_def)
  have "perm_dominates (p_ids c ! 0) perm" using nonact by (simp add: perm_dominates_def Let_def)
  then have "dom_slot (p_ids c) perm = 0" using dom_slot_le [of 0 "p_ids c"] assms(1) by simp
  moreover have l: "PERM_LEN perm = 0" using assms(2) by (simp add: PERM_LEN_def)
  moreover have "perm_len (set_slot 0 perm 0 (p_ids c) ! 0) = 7"
    using set_slot_nth [of 0 "p_ids c"] assms by simp
  ultimately have "p_prot (fst (perm_ctl 0 (Some (Some perm)) None c)) =
      match_self 0 (set_slot 0 perm 0 (p_ids c) ! 0) (p_prot c)"
      "perm_len (set_slot 0 perm 0 (p_ids c) ! 0) = 7"
    by (simp_all add: perm_ctl_def perm_set_def Let_def)
  then show ?thesis
    by (simp add: match_self_def Let_def set_prot_id_def get_perm_id_def perm_step_def perm_match.simps)
qed

theorem perm_ctl_null_slot_opens_process_witness:
  "perm_step (label 3 [9, 9, 9] 0) (p_prot (fst (perm_ctl 0 (Some (Some (label 7 [] 0))) None user_cred))) = 7"
  by (rule perm_ctl_null_slot_opens_process)
    (simp_all add: user_cred_def zero_ids_def label_def PERM_ACTIVE_def)

text \<open>
  The owner recorded in a slot is not protected: a process that overwrites the very slot
  that dominates the request stores the owner of its choice, since the code reads the
  dominating slot after the assignment.
\<close>

theorem perm_ctl_uid_forged:
  assumes "length (p_ids c) = PROCPERMS" and "i < PROCPERMS" and "dom_slot (p_ids c) perm = i"
  shows "perm_uid (p_ids (fst (perm_ctl (int i) (Some (Some perm)) None c)) ! i) = perm_uid perm"
  using assms by (simp add: perm_ctl_def perm_set_def Let_def set_slot_def)

theorem perm_ctl_uid_forged_witness:
  "perm_uid (p_ids user_cred ! 0) = 5 \<and>
   perm_uid (p_ids (fst (perm_ctl (int 0) (Some (Some (label 2 [2, 1] 77))) None user_cred)) ! 0) = 77"
proof -
  have "dom_slot (p_ids user_cred) (label 2 [2, 1] 77) = 0" by code_simp
  then show ?thesis using perm_ctl_uid_forged [of user_cred 0 "label 2 [2, 1] 77"]
    by (simp add: user_cred_def zero_ids_def label_def)
qed

end
