(* ===== verification/Process_Groups.thy ===== *)
theory Process_Groups
  imports Vsta_Prelude "HOL-Library.Multiset" "HOL-Library.Monad_Syntax"
begin

text \<open>
  Process groups, the part of \<open>os/kern/event.c\<close> that keeps the numbers of the members in an array
  with holes.  The functions are what is done under \<open>pg_sema\<close>; a search that runs off the array is
  \<open>None\<close>.
\<close>

record pgrp =
  pg_nmember :: u32
  pg_nelem :: u32
  pg_members :: "u32 list"
  pg_sema :: addr

section \<open>Process groups\<close>

definition PG_GROWTH :: nat where "PG_GROWTH = 20"

definition alloc_pgrp :: "addr \<Rightarrow> pgrp" where
  "alloc_pgrp s = \<lparr>pg_nmember = 0, pg_nelem = of_nat PG_GROWTH, pg_members = replicate PG_GROWTH 0, pg_sema = s\<rparr>"

text \<open>The search for an open slot.\<close>

fun open_slot :: "u32 \<Rightarrow> u32 list \<Rightarrow> u32 list option" where
  "open_slot pid [] = None"
| "open_slot pid (x # xs) = (if x = 0 then Some (pid # xs) else map_option (Cons x) (open_slot pid xs))"

definition grow_pgrp :: "pgrp \<Rightarrow> pgrp" where
  "grow_pgrp pg =
     (if pg_nelem pg \<le> pg_nmember pg then
        pg\<lparr>pg_members := pg_members pg @ replicate PG_GROWTH 0, pg_nelem := pg_nelem pg + of_nat PG_GROWTH\<rparr>
      else pg)"

definition join_members :: "u32 \<Rightarrow> pgrp \<Rightarrow> pgrp option" where
  "join_members pid pg =
     (let pg1 = grow_pgrp pg in
      map_option (\<lambda>l. pg1\<lparr>pg_members := l, pg_nmember := pg_nmember pg1 + 1\<rparr>) (open_slot pid (pg_members pg1)))"

fun close_slot :: "u32 \<Rightarrow> u32 list \<Rightarrow> u32 list option" where
  "close_slot pid [] = None"
| "close_slot pid (x # xs) = (if x = pid then Some (0 # xs) else map_option (Cons x) (close_slot pid xs))"

text \<open>The last one throws the group away, which is \<open>Some None\<close>.\<close>

definition leave_members :: "u32 \<Rightarrow> pgrp \<Rightarrow> pgrp option option" where
  "leave_members pid pg =
     (if pg_nmember pg = 1 then Some None
      else map_option (\<lambda>l. Some (pg\<lparr>pg_nmember := pg_nmember pg - 1, pg_members := l\<rparr>)) (close_slot pid (pg_members pg)))"

text \<open>The list that \<open>notifypg\<close> makes: the next \<open>n\<close> entries that are not 0.\<close>

fun collect :: "nat \<Rightarrow> u32 list \<Rightarrow> u32 list option" where
  "collect 0 l = Some []"
| "collect (Suc n) [] = None"
| "collect (Suc n) (x # xs) = (if x = 0 then collect (Suc n) xs else map_option (Cons x) (collect n xs))"

section \<open>The members of a group\<close>

text \<open>A group as a multiset of process numbers.\<close>

definition group_of :: "pgrp \<Rightarrow> u32 multiset" where
  "group_of pg = filter_mset (\<lambda>p. p \<noteq> 0) (mset (pg_members pg))"

definition pg_ok :: "nat \<Rightarrow> pgrp \<Rightarrow> bool" where
  "pg_ok n pg = (unat (pg_nelem pg) = length (pg_members pg) \<and> length (pg_members pg) \<le> PG_GROWTH + PG_GROWTH * n \<and>
     unat (pg_nmember pg) = size (group_of pg))"

datatype group_op = Join u32 | Leave u32

fun group_run :: "group_op list \<Rightarrow> pgrp option \<Rightarrow> pgrp option option" where
  "group_run [] g = Some g"
| "group_run (Join p # ops) g = do { pg \<leftarrow> g; pg1 \<leftarrow> join_members p pg; group_run ops (Some pg1) }"
| "group_run (Leave p # ops) g = do { pg \<leftarrow> g; g1 \<leftarrow> leave_members p pg; group_run ops g1 }"

text \<open>What the members see: the group is gone when the last one has left it.\<close>

fun group_spec :: "group_op list \<Rightarrow> u32 multiset option \<Rightarrow> u32 multiset option option" where
  "group_spec [] G = Some G"
| "group_spec (Join p # ops) G = (case G of None \<Rightarrow> None | Some M \<Rightarrow> if p = 0 then None else group_spec ops (Some (add_mset p M)))"
| "group_spec (Leave p # ops) G =
     (case G of None \<Rightarrow> None
      | Some M \<Rightarrow> if p \<notin># M then None else group_spec ops (if M = {#p#} then None else Some (M - {#p#})))"

lemma open_slot_mset:
  assumes "0 \<in> set xs" "pid \<noteq> 0"
  shows "\<exists>ys. open_slot pid xs = Some ys \<and> length ys = length xs \<and>
    filter_mset (\<lambda>p. p \<noteq> 0) (mset ys) = add_mset pid (filter_mset (\<lambda>p. p \<noteq> 0) (mset xs))"
  using assms by (induction xs) auto

lemma close_slot_mset:
  assumes "pid \<in> set xs" "pid \<noteq> 0"
  shows "\<exists>ys. close_slot pid xs = Some ys \<and> length ys = length xs \<and>
    filter_mset (\<lambda>p. p \<noteq> 0) (mset ys) = filter_mset (\<lambda>p. p \<noteq> 0) (mset xs) - {#pid#}"
  using assms by (induction xs) auto

lemma collect_members:
  "n \<le> length (filter (\<lambda>x. x \<noteq> 0) xs) \<Longrightarrow> collect n xs = Some (take n (filter (\<lambda>x. x \<noteq> 0) xs))"
  by (induction n xs rule: collect.induct) auto

lemma zero_slot: "size (filter_mset (\<lambda>p. p \<noteq> 0) (mset xs)) < length xs \<Longrightarrow> 0 \<in> set xs"
  by (induction xs) (auto split: if_splits)

lemma group_size: "size (filter_mset P (mset xs)) \<le> length xs"
  using size_filter_mset_lesseq [of P "mset xs"] by simp

lemma pg_ok_alloc: "pg_ok 0 (alloc_pgrp s) \<and> group_of (alloc_pgrp s) = {#}"
  by (simp add: pg_ok_def alloc_pgrp_def group_of_def PG_GROWTH_def)

lemma pg_ok_grow:
  assumes ok: "pg_ok n pg" and n: "n < 100000000"
  shows "unat (pg_nelem (grow_pgrp pg)) = length (pg_members (grow_pgrp pg)) \<and>
    length (pg_members (grow_pgrp pg)) \<le> PG_GROWTH + PG_GROWTH * Suc n \<and> group_of (grow_pgrp pg) = group_of pg \<and>
    pg_nmember (grow_pgrp pg) = pg_nmember pg \<and> size (group_of pg) < length (pg_members (grow_pgrp pg))"
proof (cases "pg_nelem pg \<le> pg_nmember pg")
  case True
  then have "unat (pg_nelem pg + 20) = unat (pg_nelem pg) + 20"
    using ok n by (subst unat_add_no_overflow) (auto simp: pg_ok_def PG_GROWTH_def)
  then show ?thesis using True ok group_size [of "\<lambda>p. p \<noteq> 0" "pg_members pg"]
    by (auto simp: grow_pgrp_def pg_ok_def group_of_def PG_GROWTH_def)
next
  case False
  then show ?thesis using ok by (auto simp: grow_pgrp_def pg_ok_def word_le_nat_alt)
qed

lemma pg_ok_join:
  assumes ok: "pg_ok n pg" and n: "n < 100000000" and p: "pid \<noteq> 0"
  shows "\<exists>pg1. join_members pid pg = Some pg1 \<and> pg_ok (Suc n) pg1 \<and> group_of pg1 = add_mset pid (group_of pg)"
proof -
  let ?g = "grow_pgrp pg"
  note G = pg_ok_grow [OF ok n]
  have "0 \<in> set (pg_members ?g)" using G by (intro zero_slot) (simp add: group_of_def)
  then obtain l where l: "open_slot pid (pg_members ?g) = Some l" "length l = length (pg_members ?g)"
    "filter_mset (\<lambda>p. p \<noteq> 0) (mset l) = add_mset pid (group_of ?g)"
    using open_slot_mset [OF _ p] by (auto simp: group_of_def)
  have "unat (pg_nmember pg + 1) = unat (pg_nmember pg) + 1"
    using G n ok by (subst unat_add_no_overflow) (auto simp: pg_ok_def PG_GROWTH_def)
  then show ?thesis using l G ok
    by (simp add: join_members_def Let_def pg_ok_def group_of_def)
qed

lemma pg_ok_leave:
  assumes ok: "pg_ok n pg" and p: "pid \<in># group_of pg"
  shows "if group_of pg = {#pid#} then leave_members pid pg = Some None
    else \<exists>pg1. leave_members pid pg = Some (Some pg1) \<and> pg_ok n pg1 \<and> group_of pg1 = group_of pg - {#pid#}"
proof -
  have m: "pg_nmember pg = 1 \<longleftrightarrow> size (group_of pg) = 1"
    using ok by (simp add: pg_ok_def word_unat_eq_iff)
  have one: "size (group_of pg) = 1 \<longleftrightarrow> group_of pg = {#pid#}"
    using p by (auto simp: size_1_singleton_mset dest: multi_member_split)
  obtain l where l: "close_slot pid (pg_members pg) = Some l" "length l = length (pg_members pg)"
    "filter_mset (\<lambda>p. p \<noteq> 0) (mset l) = group_of pg - {#pid#}"
    using close_slot_mset [of pid "pg_members pg"] p by (auto simp: group_of_def)
  have s: "size (group_of pg - {#pid#}) = size (group_of pg) - 1" using p by (simp add: size_Diff_singleton)
  have "0 < size (group_of pg)" using p by (auto simp: nonempty_has_size [symmetric])
  then have "unat (pg_nmember pg - 1) = size (group_of pg) - 1"
    using ok by (subst unat_minus_one) (auto simp: pg_ok_def)
  then show ?thesis using m one l s ok
    by (simp add: leave_members_def pg_ok_def group_of_def)
qed

lemma pg_ok_mono: "pg_ok n pg \<Longrightarrow> pg_ok (Suc n) pg"
  by (simp add: pg_ok_def)

lemma group_run_ok:
  assumes "group_spec ops G = Some G'" "case g of None \<Rightarrow> G = None | Some pg \<Rightarrow> pg_ok n pg \<and> G = Some (group_of pg)"
    "n + length ops < 100000000"
  shows "\<exists>g'. group_run ops g = Some g' \<and>
    (case g' of None \<Rightarrow> G' = None | Some pg \<Rightarrow> (\<exists>m. pg_ok m pg) \<and> G' = Some (group_of pg))"
  using assms
proof (induction ops arbitrary: G g n)
  case (Cons a ops)
  then obtain pg where g: "g = Some pg" "pg_ok n pg" "G = Some (group_of pg)"
    by (cases a) (auto split: option.splits)
  show ?case
  proof (cases a)
    case (Join p)
    then have p: "p \<noteq> 0" using Cons.prems(1) g by (auto split: if_splits)
    obtain pg1 where "join_members p pg = Some pg1" "pg_ok (Suc n) pg1" "group_of pg1 = add_mset p (group_of pg)"
      using pg_ok_join [OF g(2) _ p] Cons.prems(3) by auto
    then show ?thesis using Cons.IH [where n = "Suc n" and g = "Some pg1"] Cons.prems g p Join by simp
  next
    case (Leave p)
    then have p: "p \<in># group_of pg" using Cons.prems(1) g by (auto split: if_splits)
    show ?thesis
    proof (cases "group_of pg = {#p#}")
      case True
      then show ?thesis
        using pg_ok_leave [OF g(2) p] Cons.IH [where n = "Suc n" and g = None] Cons.prems g p Leave by simp
    next
      case False
      then obtain pg1 where "leave_members p pg = Some (Some pg1)" "pg_ok n pg1" "group_of pg1 = group_of pg - {#p#}"
        using pg_ok_leave [OF g(2) p] by auto
      then show ?thesis
        using Cons.IH [where n = "Suc n" and g = "Some pg1"] Cons.prems g p Leave False pg_ok_mono by simp
    qed
  qed
qed (auto split: option.splits)

text \<open>
  C9. A process group is the multiset of its members: after any history of joins and of leaves
  of members, the list that a notification of the group makes names exactly the members, however
  the array has grown and whatever holes it has, no search runs off the array, and the group is
  gone exactly when the last member has left.
\<close>

theorem process_group:
  assumes "group_spec ops (Some {#}) = Some G" "length ops < 100000000"
  shows "\<exists>g. group_run ops (Some (alloc_pgrp s)) = Some g \<and>
    (case g of None \<Rightarrow> G = None
     | Some pg \<Rightarrow> \<exists>l. collect (unat (pg_nmember pg)) (pg_members pg) = Some l \<and> G = Some (mset l))"
proof -
  obtain g where g: "group_run ops (Some (alloc_pgrp s)) = Some g"
    "case g of None \<Rightarrow> G = None | Some pg \<Rightarrow> (\<exists>m. pg_ok m pg) \<and> G = Some (group_of pg)"
    using group_run_ok [OF assms(1), where n = 0 and g = "Some (alloc_pgrp s)"] pg_ok_alloc assms(2) by auto
  have "collect (unat (pg_nmember pg)) (pg_members pg) = Some (filter (\<lambda>p. p \<noteq> 0) (pg_members pg))" if "pg_ok n pg" for n pg
    using that by (subst collect_members) (simp_all add: pg_ok_def group_of_def flip: mset_filter)
  then show ?thesis using g by (cases g) (auto simp: group_of_def)
qed

theorem process_group_witness:
  "\<exists>pg l. group_run [Join 7, Join 9, Leave 7, Join 7, Join 12, Leave 9] (Some (alloc_pgrp 3)) = Some (Some pg) \<and>
     collect (unat (pg_nmember pg)) (pg_members pg) = Some l \<and> mset l = {#7, 12#}"
  using process_group [of "[Join 7, Join 9, Leave 7, Join 7, Join 12, Leave 9]" "Some {#7, 12#}" 3]
  by (auto split: option.splits)

end
