(* ===== verification/Events.thy ===== *)
theory Events
  imports Semaphores Processes Permissions Process_Groups
begin

text \<open>
  Delivery of events to threads, processes and process groups: \<open>os/kern/event.c\<close>, \<open>get_ustr\<close> of
  \<open>os/kern/misc.c\<close> and \<open>nudge\<close> of \<open>os/mach/trap.c\<close>.

  \<open>ek\<close> are the semaphores and the scheduler, \<open>ept\<close> the process table.  The members \<open>t_evq\<close>,
  \<open>p_sema\<close> and \<open>pg_sema\<close> are addresses of semaphores.  A failing assertion and a loop that runs off
  its array are \<open>None\<close>.  \<open>notify2\<close> is the call of a sender that finds every slot free, and has
  no value for another one; \<open>notify2_start\<close> and \<open>notify2_woken\<close> are the call of any sender, split
  where it sleeps for a slot.  Tracing and the registers of the user's handler are left out.
\<close>

record evst =
  ek :: kern
  ept :: ptab
  t_evsys :: "addr \<Rightarrow> string"
  t_evproc :: "addr \<Rightarrow> string"
  t_evq :: "addr \<Rightarrow> addr"
  t_proc :: "addr \<Rightarrow> addr"
  p_cred :: "addr \<Rightarrow> cred"
  p_sem :: "addr \<Rightarrow> addr"
  p_pgrp :: "addr \<Rightarrow> addr"
  p_handler :: "addr \<Rightarrow> u32"
  pgrps :: "addr \<Rightarrow> pgrp option"
  pid_lock :: addr

definition EVLEN :: nat where "EVLEN = 16"
definition P_SIG :: u8 where "P_SIG = 2"
definition NOTIFY_PG :: u32 where "NOTIFY_PG = - 1"


section \<open>Semaphores\<close>

text \<open>\<open>p_sema\<close> of a caller that does not have to sleep, and \<open>v_sema\<close>.\<close>

definition take_sema :: "addr \<Rightarrow> pri \<Rightarrow> evst \<Rightarrow> evst option" where
  "take_sema s p st = (case p_sema_start s p (ek st) of Some (False, k) \<Rightarrow> Some (st\<lparr>ek := k\<rparr>) | _ \<Rightarrow> None)"

definition give_sema :: "addr \<Rightarrow> evst \<Rightarrow> evst option" where
  "give_sema s st = map_option (\<lambda>k. st\<lparr>ek := k\<rparr>) (v_sema s (ek st))"

definition join_pgrp :: "addr \<Rightarrow> u32 \<Rightarrow> evst \<Rightarrow> evst option" where
  "join_pgrp a pid st = do {
     pg \<leftarrow> pgrps st a;
     st1 \<leftarrow> take_sema (pg_sema pg) PRIHI st;
     pg1 \<leftarrow> join_members pid pg;
     give_sema (pg_sema pg1) (st1\<lparr>pgrps := (pgrps st1)(a \<mapsto> pg1)\<rparr>)
   }"

definition leave_pgrp :: "addr \<Rightarrow> u32 \<Rightarrow> evst \<Rightarrow> evst option" where
  "leave_pgrp a pid st = do {
     pg \<leftarrow> pgrps st a;
     st1 \<leftarrow> take_sema (pg_sema pg) PRIHI st;
     r \<leftarrow> leave_members pid pg;
     (case r of
        None \<Rightarrow> Some (st1\<lparr>pgrps := (pgrps st1)(a := None)\<rparr>)
      | Some pg1 \<Rightarrow> give_sema (pg_sema pg1) (st1\<lparr>pgrps := (pgrps st1)(a \<mapsto> pg1)\<rparr>))
   }"

section \<open>Events for a thread\<close>

definition nudge :: "addr \<Rightarrow> kern \<Rightarrow> kern" where
  "nudge c k = k\<lparr>sch := (sch k)\<lparr>do_preempt := True\<rparr>\<rparr>"

definition EVENT :: "evst \<Rightarrow> addr \<Rightarrow> bool" where "EVENT st t = (t_evsys st t \<noteq> [] \<or> t_evproc st t \<noteq> [])"

text \<open>
  The part of \<open>signal_thread\<close> under \<open>runq_lock\<close>.  With one processor the lock of the semaphore is
  free, so that \<open>cunsleep\<close> does not ask for another try.
\<close>

definition wake_up :: "addr \<Rightarrow> kern \<Rightarrow> kern option" where
  "wake_up t k =
     (case t_state (sch k) t of
        TS_SLEEP \<Rightarrow>
          (if t_nointr k t then Some k
           else case cunsleep t k of
             Some (r, k1) \<Rightarrow> if r \<noteq> 0 then None else map_option (\<lambda>sc. k1\<lparr>sch := sc\<rparr>) (lsetrun t (sch k1))
           | None \<Rightarrow> None)
      | TS_ONPROC \<Rightarrow> Some (nudge (t_eng (sch k) t) k)
      | _ \<Rightarrow> Some k)"

definition signal_put :: "addr \<Rightarrow> string \<Rightarrow> bool \<Rightarrow> evst \<Rightarrow> evst option" where
  "signal_put t ev is_sys st =
     (let st1 = (if is_sys then st\<lparr>t_evsys := (t_evsys st)(t := ev)\<rparr> else st\<lparr>t_evproc := (t_evproc st)(t := ev)\<rparr>)
      in map_option (\<lambda>k. st1\<lparr>ek := k\<rparr>) (wake_up t (ek st1)))"

definition signal_thread :: "addr \<Rightarrow> string \<Rightarrow> bool \<Rightarrow> evst \<Rightarrow> (unit syscall \<times> evst) option" where
  "signal_thread t ev is_sys st = do {
     st1 \<leftarrow> (if is_sys then Some st else take_sema (t_evq st t) PRICATCH st);
     st2 \<leftarrow> signal_put t ev is_sys st1;
     Some (Inr (), st2)
   }"

definition signal_woken :: "addr \<Rightarrow> string \<Rightarrow> evst \<Rightarrow> (unit syscall \<times> evst) option" where
  "signal_woken t ev st = do {
     (w, k) \<leftarrow> p_sema_resume PRICATCH (curthread (sch (ek st))) (ek st);
     let st1 = st\<lparr>ek := k\<rparr>;
     if w = Interrupted then Some (Inl EINTR, st1)
     else map_option (Pair (Inr ())) (signal_put t ev False st1)
   }"

definition selfsig :: "string \<Rightarrow> evst \<Rightarrow> evst option" where
  "selfsig ev st =
     (let t = curthread (sch (ek st)) in
      if t = 0 then None else Some (st\<lparr>t_evsys := (t_evsys st)(t := ev)\<rparr>))"

text \<open>
  What becomes of the current thread: no event, its handler is called with the event, or it
  exits, with a status that names the event or because its stack is full.  \<open>room\<close> says whether the
  frame fits on the stack.
\<close>

datatype delivery = NoEvent | Handles string | DiesOf string | StackFull

definition EKILL :: string where "EKILL = ''kill''"

definition sendev :: "bool \<Rightarrow> addr \<Rightarrow> string \<Rightarrow> evst \<Rightarrow> delivery" where
  "sendev room t ev st =
     (if p_handler st (t_proc st t) = 0 \<or> ev = EKILL then DiesOf ev
      else if \<not> room then StackFull else Handles ev)"

definition check_events :: "bool \<Rightarrow> evst \<Rightarrow> (delivery \<times> evst) option" where
  "check_events room st =
     (let t = curthread (sch (ek st)) in
      if t = 0 \<or> \<not> EVENT st t then Some (NoEvent, st)
      else if t_evsys st t \<noteq> [] then
        (let st1 = st\<lparr>t_evsys := (t_evsys st)(t := [])\<rparr> in Some (sendev room t (t_evsys st t) st1, st1))
      else
        let st1 = st\<lparr>t_evproc := (t_evproc st)(t := [])\<rparr>;
            d = sendev room t (t_evproc st t) st1
        in case d of Handles ev \<Rightarrow> map_option (Pair d) (give_sema (t_evq st t) st1) | _ \<Rightarrow> Some (d, st1))"

section \<open>Events for processes and groups\<close>

fun signal_all :: "addr list \<Rightarrow> string \<Rightarrow> evst \<Rightarrow> (unit syscall \<times> evst) option" where
  "signal_all [] ev st = Some (Inr (), st)"
| "signal_all (t # ts) ev st = do {
     (r, st1) \<leftarrow> signal_thread t ev False st;
     (case r of Inl e \<Rightarrow> Some (Inl e, st1) | Inr _ \<Rightarrow> signal_all ts ev st1)
   }"

text \<open>The hunt for one thread goes on after it has been found, and ends with an error.\<close>

fun signal_one :: "u32 \<Rightarrow> addr list \<Rightarrow> string \<Rightarrow> evst \<Rightarrow> (unit syscall \<times> evst) option" where
  "signal_one tid [] ev st = Some (Inl ESRCH, st)"
| "signal_one tid (t # ts) ev st =
     (if t_pid (ept st) t = tid then do {
        (r, st1) \<leftarrow> signal_thread t ev False st;
        (case r of Inl e \<Rightarrow> Some (Inl e, st1) | Inr _ \<Rightarrow> signal_one tid ts ev st1)
      } else signal_one tid ts ev st)"

text \<open>
  The same loops, for a sender that may have to sleep: as far as the loop gets, with the thread whose
  slot is taken and those that are still to come.
\<close>

datatype progress = Done "unit syscall" | Sleeps addr "addr list"

definition signal_start :: "addr \<Rightarrow> string \<Rightarrow> evst \<Rightarrow> (bool \<times> evst) option" where
  "signal_start t ev st = do {
     (slept, k) \<leftarrow> p_sema_start (t_evq st t) PRICATCH (ek st);
     if slept then Some (True, st\<lparr>ek := k\<rparr>) else map_option (Pair False) (signal_put t ev False (st\<lparr>ek := k\<rparr>))
   }"

fun signal_loop :: "u32 \<Rightarrow> addr list \<Rightarrow> string \<Rightarrow> evst \<Rightarrow> (progress \<times> evst) option" where
  "signal_loop tid [] ev st = Some (Done (if tid \<noteq> 0 then Inl ESRCH else Inr ()), st)"
| "signal_loop tid (t # ts) ev st =
     (if tid \<noteq> 0 \<and> t_pid (ept st) t \<noteq> tid then signal_loop tid ts ev st
      else do {
        (slept, st1) \<leftarrow> signal_start t ev st;
        if slept then Some (Sleeps t ts, st1) else signal_loop tid ts ev st1 })"

text \<open>\<open>pfind\<close> with the semaphores that it takes: it gives the process back locked.\<close>

definition pfind_locked :: "u32 \<Rightarrow> evst \<Rightarrow> (addr option \<times> evst) option" where
  "pfind_locked pid st = do {
     st1 \<leftarrow> take_sema (pid_lock st) PRIHI st;
     let r = pfind pid (ept st1);
     st2 \<leftarrow> (case r of None \<Rightarrow> Some st1 | Some p \<Rightarrow> take_sema (p_sem st1 p) PRIHI st1);
     map_option (Pair r) (give_sema (pid_lock st2) st2)
   }"

definition notify_target :: "u32 \<Rightarrow> evst \<Rightarrow> (addr option \<times> evst) option" where
  "notify_target pid st =
     (if pid = 0 then
        let p = t_proc st (curthread (sch (ek st))) in map_option (Pair (Some p)) (take_sema (p_sem st p) PRILO st)
      else pfind_locked pid st)"

definition notify2_by :: "(addr \<Rightarrow> string \<Rightarrow> evst \<Rightarrow> (unit syscall \<times> evst) option) \<Rightarrow> u32 \<Rightarrow> u32 \<Rightarrow> string \<Rightarrow> evst \<Rightarrow> (unit syscall \<times> evst) option" where
  "notify2_by npg pid tid ev st = do {
     (r, st1) \<leftarrow> notify_target pid st;
     (case r of
        None \<Rightarrow> Some (Inl ESRCH, st1)
      | Some p \<Rightarrow>
          if perm_calc (p_ids (p_cred st1 (t_proc st1 (curthread (sch (ek st1)))))) (p_prot (p_cred st1 p)) AND P_SIG = 0 then
            map_option (Pair (Inl EPERM)) (give_sema (p_sem st1 p) st1)
          else if tid = NOTIFY_PG then npg p ev st1
          else do {
            ts \<leftarrow> chain_walk (t_next (ept st1)) (p_threads (ept st1) p);
            (r2, st2) \<leftarrow> (if tid \<noteq> 0 then signal_one tid ts ev st1 else signal_all ts ev st1);
            map_option (Pair r2) (give_sema (p_sem st2 p) st2)
          })
   }"

fun notify_each :: "u32 list \<Rightarrow> string \<Rightarrow> evst \<Rightarrow> evst option" where
  "notify_each [] ev st = Some st"
| "notify_each (pid # pids) ev st = do {
     (_, st1) \<leftarrow> notify2_by (\<lambda>_ _ _. None) pid 0 ev st;
     notify_each pids ev st1
   }"

definition notifypg :: "addr \<Rightarrow> string \<Rightarrow> evst \<Rightarrow> (unit syscall \<times> evst) option" where
  "notifypg p ev st = do {
     pg \<leftarrow> pgrps st (p_pgrp st p);
     st1 \<leftarrow> take_sema (pg_sema pg) PRIHI st;
     l \<leftarrow> collect (unat (pg_nmember pg)) (pg_members pg);
     st2 \<leftarrow> give_sema (pg_sema pg) st1;
     st3 \<leftarrow> give_sema (p_sem st2 p) st2;
     map_option (Pair (Inr ())) (notify_each l ev st3)
   }"

definition notify2 :: "u32 \<Rightarrow> u32 \<Rightarrow> string \<Rightarrow> evst \<Rightarrow> (unit syscall \<times> evst) option" where
  "notify2 = notify2_by notifypg"

text \<open>
  The call up to its first sleep for a slot, with the lock of the process held then, and from
  that sleep on, to its end or to the next sleep.
\<close>

definition notify2_out :: "addr \<Rightarrow> progress \<times> evst \<Rightarrow> (progress \<times> evst) option" where
  "notify2_out p x =
     (case x of (Done r, st) \<Rightarrow> map_option (Pair (Done r)) (give_sema (p_sem st p) st) | (Sleeps t ts, st) \<Rightarrow> Some x)"

definition notify2_start :: "u32 \<Rightarrow> u32 \<Rightarrow> string \<Rightarrow> evst \<Rightarrow> (progress \<times> evst) option" where
  "notify2_start pid tid ev st = do {
     (r, st1) \<leftarrow> notify_target pid st;
     (case r of
        None \<Rightarrow> Some (Done (Inl ESRCH), st1)
      | Some p \<Rightarrow>
          if perm_calc (p_ids (p_cred st1 (t_proc st1 (curthread (sch (ek st1)))))) (p_prot (p_cred st1 p)) AND P_SIG = 0 then
            notify2_out p (Done (Inl EPERM), st1)
          else if tid = NOTIFY_PG then map_option (\<lambda>(r, st2). (Done r, st2)) (notifypg p ev st1)
          else do {
            ts \<leftarrow> chain_walk (t_next (ept st1)) (p_threads (ept st1) p);
            x \<leftarrow> signal_loop tid ts ev st1;
            notify2_out p x
          })
   }"

definition notify2_woken :: "addr \<Rightarrow> u32 \<Rightarrow> addr \<Rightarrow> addr list \<Rightarrow> string \<Rightarrow> evst \<Rightarrow> (progress \<times> evst) option" where
  "notify2_woken p tid t ts ev st = do {
     (r, st1) \<leftarrow> signal_woken t ev st;
     (case r of
        Inl e \<Rightarrow> notify2_out p (Done (Inl e), st1)
      | Inr _ \<Rightarrow> do { x \<leftarrow> signal_loop tid ts ev st1; notify2_out p x })
   }"

text \<open>
  \<open>mem\<close> is the memory of the user, without a byte where an access fails.  \<open>copyin\<close> has the range
  checks of \<open>CP_PROLOG\<close>.
\<close>

definition copyin :: "(u32 \<Rightarrow> char option) \<Rightarrow> u32 \<Rightarrow> u32 \<Rightarrow> string option" where
  "copyin mem a n =
     (if 0x80000000 \<le> a \<or> 0x40000000 \<le> n \<or> 0x80000000 \<le> n + a then None
      else those (map (\<lambda>i. mem (a + of_nat i)) [0..<unat n]))"

text \<open>The comparison of the lengths is one of signed numbers, and the sum may wrap.\<close>

definition get_ustr :: "nat \<Rightarrow> (u32 \<Rightarrow> char option) \<Rightarrow> u32 \<Rightarrow> u32 \<Rightarrow> string syscall" where
  "get_ustr klen mem ustr ulen =
     (if int klen < sint (ulen + 1) then Inl EINVAL
      else case copyin mem ustr ulen of
        None \<Rightarrow> Inl EFAULT
      | Some s \<Rightarrow>
          let k = takeWhile (\<lambda>c. c \<noteq> CHR 0x00) s
          in if length k < 1 then Inl EINVAL else Inr k)"

definition notify :: "u32 \<Rightarrow> u32 \<Rightarrow> (u32 \<Rightarrow> char option) \<Rightarrow> u32 \<Rightarrow> u32 \<Rightarrow> evst \<Rightarrow> (unit syscall \<times> evst) option" where
  "notify pid tid mem msg msglen st =
     (case get_ustr EVLEN mem msg msglen of Inl e \<Rightarrow> Some (Inl e, st) | Inr ev \<Rightarrow> notify2 pid tid ev st)"

definition notify_handler :: "u32 \<Rightarrow> evst \<Rightarrow> evst" where
  "notify_handler h st = st\<lparr>p_handler := (p_handler st)(t_proc st (curthread (sch (ek st))) := h)\<rparr>"

section \<open>What the operations leave alone\<close>

text \<open>\<open>only_ev ev st st'\<close>: the text \<open>ev\<close> is the only one that has been put into a slot.\<close>

definition only_ev :: "string \<Rightarrow> evst \<Rightarrow> evst \<Rightarrow> bool" where
  "only_ev ev st st' = (t_evsys st' = t_evsys st \<and> (\<forall>t. t_evproc st' t = t_evproc st t \<or> t_evproc st' t = ev) \<and>
     ept st' = ept st \<and> t_proc st' = t_proc st \<and> p_cred st' = p_cred st \<and> t_evq st' = t_evq st)"

lemma only_ev_refl [simp]: "only_ev ev st st"
  by (simp add: only_ev_def)

lemma only_ev_trans [trans]: "only_ev ev st st1 \<Longrightarrow> only_ev ev st1 st2 \<Longrightarrow> only_ev ev st st2"
  unfolding only_ev_def by metis

lemma only_ev_ek [simp]: "only_ev ev st (st1\<lparr>ek := k\<rparr>) = only_ev ev st st1"
  by (simp add: only_ev_def)

lemma take_sema_ek: "take_sema s p st = Some st' \<Longrightarrow> \<exists>k. st' = st\<lparr>ek := k\<rparr>"
  by (auto simp: take_sema_def split: option.splits prod.splits bool.splits)

lemma give_sema_ek: "give_sema s st = Some st' \<Longrightarrow> \<exists>k. st' = st\<lparr>ek := k\<rparr>"
  by (auto simp: give_sema_def)

lemma take_sema_only [frame]: "take_sema s p st = Some st' \<Longrightarrow> only_ev ev st st'"
  by (auto dest!: take_sema_ek)

lemma give_sema_only [frame]: "give_sema s st = Some st' \<Longrightarrow> only_ev ev st st'"
  by (auto dest!: give_sema_ek)

lemma signal_put_only [frame]: "signal_put t ev False st = Some st' \<Longrightarrow> only_ev ev st st'"
  by (auto simp: signal_put_def Let_def only_ev_def)

lemma signal_thread_only [frame]:
  assumes "signal_thread t ev False st = Some (r, st')"
  shows "only_ev ev st st'"
proof -
  obtain st1 where "take_sema (t_evq st t) PRICATCH st = Some st1" "signal_put t ev False st1 = Some st'"
    using assms by (auto simp: signal_thread_def split: bind_splits)
  then show ?thesis using only_ev_trans take_sema_only signal_put_only by blast
qed

lemma signal_all_only [frame]: "signal_all ts ev st = Some (r, st') \<Longrightarrow> only_ev ev st st'"
proof (induction ts arbitrary: st)
  case (Cons t ts)
  then show ?case using only_ev_trans signal_thread_only
    by (fastforce split: bind_splits sum.splits)
qed simp

lemma signal_one_only [frame]: "signal_one tid ts ev st = Some (r, st') \<Longrightarrow> only_ev ev st st'"
proof (induction ts arbitrary: st)
  case (Cons t ts)
  then show ?case using only_ev_trans signal_thread_only
    by (fastforce split: bind_splits sum.splits if_splits)
qed simp

lemma pfind_locked_only:
  assumes "pfind_locked pid st = Some (r, st')"
  shows "only_ev ev st st'"
  using assms unfolding pfind_locked_def Let_def
  by (auto split: bind_splits option.splits dest!: take_sema_ek give_sema_ek)

lemma notify_target_only [frame]:
  "notify_target pid st = Some (r, st') \<Longrightarrow> only_ev ev st st'"
  using pfind_locked_only by (auto simp: notify_target_def Let_def split: if_splits dest!: take_sema_ek)

lemma notify2_by_only:
  assumes "\<And>p st st' r. npg p ev st = Some (r, st') \<Longrightarrow> only_ev ev st st'"
    and n: "notify2_by npg pid tid ev st = Some (r, st')"
  shows "only_ev ev st st'"
proof -
  obtain r1 st1 where t: "notify_target pid st = Some (r1, st1)" using n by (auto simp: notify2_by_def split: bind_splits)
  have s1: "only_ev ev st st1" by (rule notify_target_only [OF t])
  have s2: "only_ev ev st st2" if "signal_all ts ev st1 = Some (r2, st2)" for ts r2 st2
    using only_ev_trans [OF s1 signal_all_only [OF that]] .
  have s3: "only_ev ev st st2" if "signal_one tid ts ev st1 = Some (r2, st2)" for ts r2 st2
    using only_ev_trans [OF s1 signal_one_only [OF that]] .
  have s4: "only_ev ev st st2" if "npg p ev st1 = Some (r2, st2)" for p r2 st2
    using only_ev_trans [OF s1 assms(1) [OF that]] .
  show ?thesis using n t s1 s2 s3 s4 unfolding notify2_by_def
    by (auto split: option.splits if_splits bind_splits dest!: give_sema_ek)
qed

lemma notify_each_only: "notify_each pids ev st = Some st' \<Longrightarrow> only_ev ev st st'"
proof (induction pids arbitrary: st)
  case (Cons pid pids)
  then obtain r st1 where "notify2_by (\<lambda>_ _ _. None) pid 0 ev st = Some (r, st1)" "notify_each pids ev st1 = Some st'"
    by (auto split: bind_splits)
  then show ?case using Cons.IH only_ev_trans notify2_by_only [of "\<lambda>_ _ _. None"] by blast
qed simp

lemma notifypg_only:
  assumes "notifypg p ev st = Some (r, st')"
  shows "only_ev ev st st'"
proof -
  obtain k l where "notify_each l ev (st\<lparr>ek := k\<rparr>) = Some st'"
    using assms by (auto simp: notifypg_def Let_def split: bind_splits dest!: take_sema_ek give_sema_ek)
  then have "only_ev ev (st\<lparr>ek := k\<rparr>) st'" by (rule notify_each_only)
  then show ?thesis by (simp add: only_ev_def)
qed

lemma notify2_only [frame]: "notify2 pid tid ev st = Some (r, st') \<Longrightarrow> only_ev ev st st'"
  unfolding notify2_def using notify2_by_only [of notifypg] notifypg_only by blast

section \<open>Event texts\<close>

text \<open>What fits into a slot: a text with its final NUL in \<open>EVLEN\<close> bytes.\<close>

definition ev_text :: "string \<Rightarrow> bool" where
  "ev_text s = (length s < EVLEN \<and> CHR 0x00 \<notin> set s)"

definition ev_wf :: "evst \<Rightarrow> bool" where
  "ev_wf st = (\<forall>t. ev_text (t_evsys st t) \<and> ev_text (t_evproc st t))"

lemma those_length: "those xs = Some ys \<Longrightarrow> length ys = length xs"
  by (induction xs arbitrary: ys) (auto split: option.splits)

lemma copyin_length: "copyin mem a n = Some s \<Longrightarrow> length s = unat n \<and> unat n < 1073741824"
  by (auto simp: copyin_def word_le_nat_alt dest!: those_length split: if_splits)

lemma get_ustr_text:
  assumes g: "get_ustr EVLEN mem a n = Inr s"
  shows "ev_text s \<and> s \<noteq> []"
proof -
  obtain b where b: "copyin mem a n = Some b" "s = takeWhile (\<lambda>c. c \<noteq> CHR 0x00) b" "s \<noteq> []" "sint (n + 1) \<le> int EVLEN"
    using g by (auto simp: get_ustr_def Let_def split: if_splits option.splits)
  have n: "length b = unat n" "unat n < 1073741824" using copyin_length [OF b(1)] by auto
  then have "unat (n + 1) = unat n + 1" by (subst unat_add_no_overflow) auto
  then have "uint (n + 1) = int (unat n) + 1" by (simp only: uint_nat of_nat_add of_nat_1)
  then have "sint (n + 1) = int (unat n) + 1" using n(2) uint_nat [of n] by (simp add: sint_u32 del: of_nat_unat)
  then have "length b < EVLEN" using b(4) n uint_nat [of n] by (simp del: of_nat_unat)
  then show ?thesis using b length_takeWhile_le [of "\<lambda>c. c \<noteq> CHR 0x00" b]
    by (auto simp: ev_text_def dest: set_takeWhileD)
qed

text \<open>
  C8. Whatever \<open>notify\<close> is called with, a negative length and one near the top of
  the range included, and whichever threads it reaches, directly or through a group, the slots
  of all threads hold texts that fit into \<open>EVLEN\<close> bytes with their final NUL.
\<close>

theorem event_texts:
  assumes "ev_wf st" "notify pid tid mem msg len st = Some (r, st')"
  shows "ev_wf st'"
proof (cases "get_ustr EVLEN mem msg len")
  case (Inr ev)
  then have "only_ev ev st st'" using assms notify2_only by (auto simp: notify_def)
  then show ?thesis using get_ustr_text [OF Inr] assms(1) unfolding only_ev_def ev_wf_def by metis
qed (use assms in \<open>auto simp: notify_def\<close>)

section \<open>One thread, and all threads\<close>

lemma signal_thread_put: "signal_thread t ev False st = Some (r, st') \<Longrightarrow> r = Inr () \<and> t_evproc st' t = ev"
  by (auto simp: signal_thread_def signal_put_def Let_def split: bind_splits)

lemma only_ev_keeps: "only_ev ev st st' \<Longrightarrow> t_evproc st t = ev \<Longrightarrow> t_evproc st' t = ev"
  unfolding only_ev_def by metis

lemma signal_all_hits: "signal_all ts ev st = Some (r, st') \<Longrightarrow> r = Inr () \<and> (\<forall>t \<in> set ts. t_evproc st' t = ev)"
proof (induction ts arbitrary: st)
  case (Cons u ts)
  then obtain r1 st1 where a: "signal_thread u ev False st = Some (r1, st1)" by (auto split: bind_splits)
  then have b: "r1 = Inr ()" "t_evproc st1 u = ev" using signal_thread_put by auto
  have c: "signal_all ts ev st1 = Some (r, st')" using Cons.prems a b(1) by simp
  then show ?case using Cons.IH b(2) only_ev_keeps [OF signal_all_only [OF c]] by auto
qed simp

text \<open>\<open>awake k t\<close>: the thread does not sleep, or in a way that no event may end.\<close>

definition awake :: "kern \<Rightarrow> addr \<Rightarrow> bool" where
  "awake k t = (t_state (sch k) t \<noteq> TS_SLEEP \<or> t_nointr k t)"

definition no_new_sleep :: "kern \<Rightarrow> kern \<Rightarrow> bool" where
  "no_new_sleep k k' = (t_nointr k' = t_nointr k \<and> (\<forall>t. t_state (sch k') t = TS_SLEEP \<longrightarrow> t_state (sch k) t = TS_SLEEP))"

lemma no_new_sleep_awake: "no_new_sleep k k' \<Longrightarrow> awake k t \<Longrightarrow> awake k' t"
  by (auto simp: no_new_sleep_def awake_def)

lemma preempt_state [frame]: "preempt sc = Some sc' \<Longrightarrow> t_state sc' = t_state sc"
  by (auto simp: preempt_def split: option.splits if_splits)

lemma sq_insert_state [frame]: "t_state (sq_insert p s sc) = t_state sc"
  by (simp add: sq_insert_def Let_def)

lemma add_nrun_state [frame]: "t_state (add_nrun k xs sc) = t_state sc"
  unfolding add_nrun_def by (induction xs arbitrary: sc) auto

lemma lsetrun_state: "lsetrun t sc = Some sc' \<Longrightarrow> t_state sc' = (t_state sc)(t := TS_RUN)"
  by (auto simp: lsetrun_def Let_def frame split: if_splits dest!: preempt_state)

lemma dq_sema_sch: "dq_sema s t k = Some k' \<Longrightarrow> sch k' = sch k \<and> t_nointr k' = t_nointr k"
  by (auto simp: dq_sema_def Let_def split: if_splits)

lemma v_sema_no_new_sleep: "v_sema s k = Some k' \<Longrightarrow> no_new_sleep k k'"
  by (auto simp: v_sema_def Let_def no_new_sleep_def setrun_def split: if_splits bind_splits
      dest!: dq_sema_sch lsetrun_state)

lemma take_sema_no_new_sleep: "take_sema s p st = Some st' \<Longrightarrow> no_new_sleep (ek st) (ek st')"
  by (auto simp: take_sema_def p_sema_start_def Let_def no_new_sleep_def split: option.splits prod.splits bool.splits if_splits)

lemma give_sema_no_new_sleep: "give_sema s st = Some st' \<Longrightarrow> no_new_sleep (ek st) (ek st')"
  by (auto simp: give_sema_def dest: v_sema_no_new_sleep)

lemma wake_up_awake:
  assumes "wake_up t k = Some k'"
  shows "awake k' t \<and> no_new_sleep k k'"
  using assms
  by (auto simp: wake_up_def nudge_def cunsleep_def Let_def awake_def no_new_sleep_def
      split: tstate.splits if_splits option.splits bind_splits dest!: dq_sema_sch lsetrun_state)

lemma no_new_sleep_trans: "no_new_sleep a b \<Longrightarrow> no_new_sleep b c \<Longrightarrow> no_new_sleep a c"
  by (simp add: no_new_sleep_def)

lemma signal_thread_awake:
  assumes "signal_thread t ev False st = Some (r, st')"
  shows "awake (ek st') t \<and> no_new_sleep (ek st) (ek st') \<and> t_evproc st' = (t_evproc st)(t := ev)"
proof -
  obtain st1 where a: "take_sema (t_evq st t) PRICATCH st = Some st1" "signal_put t ev False st1 = Some st'"
    using assms by (auto simp: signal_thread_def split: bind_splits)
  obtain k where k: "wake_up t (ek st1) = Some k" "st' = st1\<lparr>t_evproc := (t_evproc st1)(t := ev), ek := k\<rparr>"
    using a(2) by (auto simp: signal_put_def Let_def)
  have "t_evproc st1 = t_evproc st" using take_sema_ek [OF a(1)] by auto
  then show ?thesis
    using wake_up_awake [OF k(1)] no_new_sleep_trans [OF take_sema_no_new_sleep [OF a(1)]] k(2) by auto
qed

lemma signal_all_awake:
  "signal_all ts ev st = Some (r, st') \<Longrightarrow> (\<forall>t \<in> set ts. awake (ek st') t) \<and> no_new_sleep (ek st) (ek st') \<and>
   t_evproc st' = (\<lambda>t. if t \<in> set ts then ev else t_evproc st t)"
proof (induction ts arbitrary: st)
  case (Cons u ts)
  then obtain r1 st1 where a: "signal_thread u ev False st = Some (r1, st1)" by (auto split: bind_splits)
  then have "r1 = Inr ()" using signal_thread_put by auto
  then have c: "signal_all ts ev st1 = Some (r, st')" using Cons.prems a by simp
  note A = signal_thread_awake [OF a]
  note I = Cons.IH [OF c]
  have "awake (ek st') u" using A I no_new_sleep_awake by blast
  then show ?case using A I no_new_sleep_trans [of "ek st" "ek st1" "ek st'"] by auto
qed (auto simp: no_new_sleep_def)

lemma signal_one_slots:
  "signal_one tid ts ev st = Some (r, st') \<Longrightarrow>
    r = Inl ESRCH \<and> t_evproc st' = (\<lambda>t. if t \<in> set ts \<and> t_pid (ept st) t = tid then ev else t_evproc st t)"
proof (induction ts arbitrary: st)
  case (Cons u ts)
  show ?case
  proof (cases "t_pid (ept st) u = tid")
    case True
    then obtain r1 st1 where a: "signal_thread u ev False st = Some (r1, st1)" using Cons.prems by (auto split: bind_splits)
    then have b: "r1 = Inr ()" "t_evproc st1 = (t_evproc st)(u := ev)"
      using signal_thread_put [OF a] signal_thread_awake [OF a] by auto
    have o: "ept st1 = ept st" using signal_thread_only [OF a] by (simp add: only_ev_def)
    have "signal_one tid ts ev st1 = Some (r, st')" using Cons.prems(1) a b(1) True by simp
    from Cons.IH [OF this] show ?thesis using b(2) o True by auto
  next
    case False
    then show ?thesis using Cons by auto
  qed
qed simp

definition may_signal :: "evst \<Rightarrow> addr \<Rightarrow> bool" where
  "may_signal st p =
     (perm_calc (p_ids (p_cred st (t_proc st (curthread (sch (ek st)))))) (p_prot (p_cred st p)) AND P_SIG \<noteq> 0)"

lemma take_sema_cur: "take_sema s p st = Some st' \<Longrightarrow> curthread (sch (ek st')) = curthread (sch (ek st))"
  by (auto simp: take_sema_def p_sema_start_def Let_def split: option.splits prod.splits bool.splits if_splits)

lemma v_sema_cur: "v_sema s k = Some k' \<Longrightarrow> curthread (sch k') = curthread (sch k)"
  by (auto simp: v_sema_def Let_def setrun_def split: if_splits bind_splits dest!: dq_sema_sch lsetrun_wchan)

lemma give_sema_cur: "give_sema s st = Some st' \<Longrightarrow> curthread (sch (ek st')) = curthread (sch (ek st))"
  by (auto simp: give_sema_def dest: v_sema_cur)

lemma notify_target_cur:
  "notify_target pid st = Some (r, st') \<Longrightarrow> curthread (sch (ek st')) = curthread (sch (ek st))"
  by (auto simp: notify_target_def pfind_locked_def Let_def split: if_splits bind_splits option.splits
      dest!: take_sema_cur give_sema_cur)

lemma signal_put_cur: "signal_put t ev False st = Some st' \<Longrightarrow>
    curthread (sch (ek st')) = curthread (sch (ek st)) \<and> t_evproc st' = (t_evproc st)(t := ev) \<and> t_evq st' = t_evq st"
  by (auto simp: signal_put_def wake_up_def nudge_def cunsleep_def Let_def
      split: tstate.splits if_splits option.splits bind_splits dest!: dq_sema_sch lsetrun_wchan)

lemma p_sema_start_free: "p_sema_start s p k = Some (False, k') \<Longrightarrow> no_new_sleep k k' \<and> curthread (sch k') = curthread (sch k)"
  by (auto simp: p_sema_start_def Let_def no_new_sleep_def split: if_splits)

lemma p_sema_start_slept:
  "p_sema_start s p k = Some (True, k') \<Longrightarrow> curthread (sch k') = curthread (sch k) \<and>
     t_wchan (sch k') (curthread (sch k)) = s \<and> t_nointr k' (curthread (sch k)) = (p = PRIHI) \<and>
     (\<forall>t. t \<noteq> curthread (sch k) \<and> awake k t \<longrightarrow> awake k' t)"
  by (auto simp: p_sema_start_def Let_def sema_sleep_def q_sema_def set_sleepq_def awake_def split: if_splits)

lemma signal_start_eff:
  assumes "signal_start t ev st = Some (slept, st')"
  shows "curthread (sch (ek st')) = curthread (sch (ek st)) \<and> t_evq st' = t_evq st \<and>
    (if slept then t_evproc st' = t_evproc st \<and> t_wchan (sch (ek st')) (curthread (sch (ek st))) = t_evq st t \<and>
        \<not> t_nointr (ek st') (curthread (sch (ek st))) \<and>
        (\<forall>u. u \<noteq> curthread (sch (ek st)) \<and> awake (ek st) u \<longrightarrow> awake (ek st') u)
     else awake (ek st') t \<and> no_new_sleep (ek st) (ek st') \<and> t_evproc st' = (t_evproc st)(t := ev))"
proof -
  obtain k where k: "p_sema_start (t_evq st t) PRICATCH (ek st) = Some (slept, k)"
    "if slept then st' = st\<lparr>ek := k\<rparr> else signal_put t ev False (st\<lparr>ek := k\<rparr>) = Some st'"
    using assms by (auto simp: signal_start_def split: bind_splits if_splits)
  show ?thesis
  proof (cases slept)
    case True
    then show ?thesis using k p_sema_start_slept by fastforce
  next
    case False
    then have p: "signal_put t ev False (st\<lparr>ek := k\<rparr>) = Some st'" and f: "no_new_sleep (ek st) k" "curthread (sch k) = curthread (sch (ek st))"
      using k p_sema_start_free by auto
    obtain k2 where "wake_up t k = Some k2" "ek st' = k2" using p by (auto simp: signal_put_def Let_def)
    then show ?thesis using signal_put_cur [OF p] f False wake_up_awake no_new_sleep_trans by fastforce
  qed
qed

text \<open>Which slots a loop over all threads has filled, and who is awake, when it ends or sleeps.\<close>

definition reached :: "addr list \<Rightarrow> string \<Rightarrow> evst \<Rightarrow> progress \<Rightarrow> evst \<Rightarrow> bool" where
  "reached ts ev st pr st' = (case pr of
     Done r \<Rightarrow> r = Inr () \<and> t_evproc st' = (\<lambda>t. if t \<in> set ts then ev else t_evproc st t) \<and> (\<forall>t \<in> set ts. awake (ek st') t)
   | Sleeps u rest \<Rightarrow> \<exists>pre. ts = pre @ u # rest \<and> t_evproc st' = (\<lambda>t. if t \<in> set pre then ev else t_evproc st t) \<and>
       (\<forall>t \<in> set pre. t \<noteq> curthread (sch (ek st)) \<longrightarrow> awake (ek st') t) \<and>
       curthread (sch (ek st')) = curthread (sch (ek st)) \<and>
       t_wchan (sch (ek st')) (curthread (sch (ek st))) = t_evq st u \<and> \<not> t_nointr (ek st') (curthread (sch (ek st))))"

lemma signal_loop_reached:
  "signal_loop 0 ts ev st = Some (pr, st') \<Longrightarrow> reached ts ev st pr st' \<and>
     (\<forall>t. t \<noteq> curthread (sch (ek st)) \<and> awake (ek st) t \<longrightarrow> awake (ek st') t) \<and>
     (case pr of Done r \<Rightarrow> no_new_sleep (ek st) (ek st') | Sleeps u rest \<Rightarrow> True)"
proof (induction ts arbitrary: st)
  case Nil
  then show ?case by (auto simp: reached_def no_new_sleep_def)
next
  case (Cons t ts)
  then obtain slept st1 where s: "signal_start t ev st = Some (slept, st1)" by (auto split: bind_splits)
  note S = signal_start_eff [OF s]
  show ?case
  proof (cases slept)
    case True
    then have "pr = Sleeps t ts" "st' = st1" using Cons.prems s by auto
    then show ?thesis using S True by (auto simp: reached_def intro!: exI [of _ "[]"])
  next
    case False
    then have r: "signal_loop 0 ts ev st1 = Some (pr, st')" using Cons.prems s by auto
    note I = Cons.IH [OF r]
    have a: "awake (ek st1) t" "no_new_sleep (ek st) (ek st1)" "t_evproc st1 = (t_evproc st)(t := ev)"
      "curthread (sch (ek st1)) = curthread (sch (ek st))" "t_evq st1 = t_evq st" using S False by auto
    have w: "\<forall>u. u \<noteq> curthread (sch (ek st)) \<and> awake (ek st) u \<longrightarrow> awake (ek st') u"
      using I a no_new_sleep_awake by metis
    show ?thesis
    proof (cases pr)
      case (Done x)
      then have "awake (ek st') t" using I a(1) no_new_sleep_awake by auto
      then show ?thesis using I a w no_new_sleep_trans Done by (auto simp: reached_def)
    next
      case (Sleeps u rest)
      then obtain pre where p: "ts = pre @ u # rest" "t_evproc st' = (\<lambda>t. if t \<in> set pre then ev else t_evproc st1 t)"
        "\<forall>t \<in> set pre. t \<noteq> curthread (sch (ek st)) \<longrightarrow> awake (ek st') t"
        "curthread (sch (ek st')) = curthread (sch (ek st))"
        "t_wchan (sch (ek st')) (curthread (sch (ek st))) = t_evq st u" "\<not> t_nointr (ek st') (curthread (sch (ek st)))"
        using I a(4,5) by (auto simp: reached_def)
      have "t \<noteq> curthread (sch (ek st)) \<longrightarrow> awake (ek st') t" using I a(1,4) by metis
      then have "reached (t # ts) ev st pr st'" unfolding Sleeps reached_def using p a(3)
        by (auto intro!: exI [of _ "t # pre"])
      then show ?thesis using w Sleeps by simp
    qed
  qed
qed

lemma signal_woken_eff:
  assumes "signal_woken t ev st = Some (r, st')"
  defines "c \<equiv> curthread (sch (ek st))"
  shows "if t_intr (ek st) c then r = Inl EINTR \<and> t_evproc st' = t_evproc st
    else r = Inr () \<and> awake (ek st') t \<and> t_evproc st' = (t_evproc st)(t := ev) \<and>
      curthread (sch (ek st')) = c \<and> t_evq st' = t_evq st"
proof -
  obtain w k where k: "p_sema_resume PRICATCH c (ek st) = Some (w, k)"
    "if w = Interrupted then r = Inl EINTR \<and> st' = st\<lparr>ek := k\<rparr> else r = Inr () \<and> signal_put t ev False (st\<lparr>ek := k\<rparr>) = Some st'"
    using assms by (auto simp: signal_woken_def Let_def split: bind_splits if_splits)
  have w: "(w = Interrupted) = t_intr (ek st) c" "curthread (sch k) = c"
    using k(1) by (auto simp: p_sema_resume_def c_def Let_def split: if_splits)
  show ?thesis
  proof (cases "w = Interrupted")
    case False
    then have p: "signal_put t ev False (st\<lparr>ek := k\<rparr>) = Some st'" using k(2) by simp
    obtain k2 where "wake_up t k = Some k2" "ek st' = k2" using p by (auto simp: signal_put_def Let_def)
    then show ?thesis using signal_put_cur [OF p] w False wake_up_awake k(2) by auto
  qed (use k w in auto)
qed

lemma notify2_out_eff:
  assumes "notify2_out p (pr, st) = Some (pr', st')"
  shows "pr' = pr \<and> t_evproc st' = t_evproc st \<and> t_evq st' = t_evq st \<and>
    (case pr of Done r \<Rightarrow> no_new_sleep (ek st) (ek st') \<and> give_sema (p_sem st p) st = Some st' | Sleeps u ts \<Rightarrow> st' = st)"
  using assms give_sema_no_new_sleep give_sema_ek by (fastforce simp: notify2_out_def split: progress.splits)

lemma reached_out:
  assumes "reached ts ev st pr st1" "notify2_out p (pr, st1) = Some (pr', st')"
  shows "pr' = pr \<and> reached ts ev st pr st'"
  using assms notify2_out_eff [OF assms(2)] no_new_sleep_awake by (auto simp: reached_def split: progress.splits)

text \<open>
  C7. An event for a process, sent by a thread that may have to wait for the slots of its threads.  With the
  permission it goes to the threads of the process in their order and to no other: when the call
  ends without a sleep all slots hold it, and none of the threads sleeps in a way that an event
  may end; when it has to sleep, interruptibly, for the slot of one thread, exactly the threads before that one have
  got it.  When it runs again, it goes on in the same way with that thread and the rest, or, after an
  interruption, ends with \<open>EINTR\<close> and leaves those threads without the event.  Without the
  permission the call ends with \<open>EPERM\<close> and no slot changes.
\<close>

theorem process_event:
  assumes t: "notify_target pid st = Some (Some p, st1)" and ts: "chain (t_next (ept st)) (p_threads (ept st) p) ts"
    and n: "notify2_start pid 0 ev st = Some (pr, st')"
  shows "(if may_signal st p then reached ts ev st pr st' else pr = Done (Inl EPERM) \<and> t_evproc st' = t_evproc st) \<and>
    (\<forall>u rest st2 pr2 st3. notify2_woken p 0 u rest ev st2 = Some (pr2, st3) \<longrightarrow>
       (if t_intr (ek st2) (curthread (sch (ek st2))) then pr2 = Done (Inl EINTR) \<and> t_evproc st3 = t_evproc st2
        else reached (u # rest) ev st2 pr2 st3))"
proof -
  have o: "ept st1 = ept st" "p_cred st1 = p_cred st" "t_proc st1 = t_proc st" "t_evq st1 = t_evq st"
      "curthread (sch (ek st1)) = curthread (sch (ek st))"
    using notify_target_only [OF t, of "[]"] notify_target_cur [OF t] by (simp_all add: only_ev_def)
  have e: "t_evproc st1 = t_evproc st"
    using t by (auto simp: notify_target_def pfind_locked_def Let_def split: if_splits bind_splits option.splits
      dest!: take_sema_ek give_sema_ek)
  have w: "chain_walk (t_next (ept st)) (p_threads (ept st) p) = Some ts" by (rule chain_walk_chain [OF ts])
  have start: "if may_signal st p then reached ts ev st pr st' else pr = Done (Inl EPERM) \<and> t_evproc st' = t_evproc st"
  proof (cases "may_signal st p")
    case True
    then obtain pr1 st2 where a: "signal_loop 0 ts ev st1 = Some (pr1, st2)" "notify2_out p (pr1, st2) = Some (pr, st')"
      using n t w o by (auto simp: notify2_start_def may_signal_def NOTIFY_PG_def split: bind_splits)
    have "reached ts ev st1 pr st'" using signal_loop_reached [OF a(1)] reached_out [OF _ a(2)] by blast
    then have "reached ts ev st pr st'" unfolding reached_def o e .
    then show ?thesis using True by simp
  next
    case False
    then have "notify2_out p (Done (Inl EPERM), st1) = Some (pr, st')"
      using n t o by (auto simp: notify2_start_def may_signal_def)
    from notify2_out_eff [OF this] show ?thesis using False e by simp
  qed
  have "if t_intr (ek st2) (curthread (sch (ek st2))) then pr2 = Done (Inl EINTR) \<and> t_evproc st3 = t_evproc st2
      else reached (u # rest) ev st2 pr2 st3" if wk: "notify2_woken p 0 u rest ev st2 = Some (pr2, st3)" for u rest st2 pr2 st3
  proof -
    obtain r s1 where s: "signal_woken u ev st2 = Some (r, s1)" using wk by (auto simp: notify2_woken_def split: bind_splits)
    note S = signal_woken_eff [OF s]
    show ?thesis
    proof (cases "t_intr (ek st2) (curthread (sch (ek st2)))")
      case True
      then have "notify2_out p (Done (Inl EINTR), s1) = Some (pr2, st3)" using wk s S by (auto simp: notify2_woken_def)
      from notify2_out_eff [OF this] show ?thesis using S True by simp
    next
      case False
      then obtain pr1 s2 where a: "signal_loop 0 rest ev s1 = Some (pr1, s2)" "notify2_out p (pr1, s2) = Some (pr2, st3)"
        using wk s S by (auto simp: notify2_woken_def split: bind_splits)
      note L = signal_loop_reached [OF a(1)]
      have q: "awake (ek s1) u" "t_evproc s1 = (t_evproc st2)(u := ev)" "curthread (sch (ek s1)) = curthread (sch (ek st2))"
        "t_evq s1 = t_evq st2" using S False by auto
      have "reached (u # rest) ev st2 pr1 s2"
      proof (cases pr1)
        case (Done x)
        then have "awake (ek s2) u" using L q(1) no_new_sleep_awake by auto
        then show ?thesis using L q Done by (auto simp: reached_def)
      next
        case (Sleeps v r')
        then obtain pre where "rest = pre @ v # r'" "t_evproc s2 = (\<lambda>t. if t \<in> set pre then ev else t_evproc s1 t)"
          "\<forall>t \<in> set pre. t \<noteq> curthread (sch (ek st2)) \<longrightarrow> awake (ek s2) t" "curthread (sch (ek s2)) = curthread (sch (ek st2))"
          "t_wchan (sch (ek s2)) (curthread (sch (ek st2))) = t_evq st2 v" "\<not> t_nointr (ek s2) (curthread (sch (ek st2)))"
          using L q(3,4) by (auto simp: reached_def)
        moreover have "u \<noteq> curthread (sch (ek st2)) \<longrightarrow> awake (ek s2) u" using L q(1,3) by metis
        ultimately show ?thesis unfolding Sleeps reached_def using q(2) by (auto intro!: exI [of _ "u # pre"])
      qed
      then show ?thesis using reached_out [OF _ a(2)] False by simp
    qed
  qed
  then show ?thesis using start by blast
qed

text \<open>
  C10. An event for one thread of a process, sent with the permission by a caller that does not have to
  sleep, is put into the slot of that thread and of no other, and yet the call ends with
  \<open>ESRCH\<close>, as if there were no such thread: the hunt goes on after the thread has been found.
\<close>

theorem notify_thread_esrch:
  assumes t: "notify_target pid st = Some (Some p, st1)" and p: "may_signal st p"
    and ts: "chain (t_next (ept st)) (p_threads (ept st) p) ts" and tid: "tid \<noteq> 0" "tid \<noteq> NOTIFY_PG"
    and n: "notify2 pid tid ev st = Some (r, st')"
  shows "r = Inl ESRCH \<and> t_evproc st' = (\<lambda>t. if t \<in> set ts \<and> t_pid (ept st) t = tid then ev else t_evproc st t)"
proof -
  have o: "ept st1 = ept st" "p_cred st1 = p_cred st" "t_proc st1 = t_proc st"
      "curthread (sch (ek st1)) = curthread (sch (ek st))"
    using notify_target_only [OF t, of "[]"] notify_target_cur [OF t] by (simp_all add: only_ev_def)
  have e: "t_evproc st1 = t_evproc st"
    using t by (auto simp: notify_target_def pfind_locked_def Let_def split: if_splits bind_splits option.splits
      dest!: take_sema_ek give_sema_ek)
  obtain st2 where s: "signal_one tid ts ev st1 = Some (r, st2)" "give_sema (p_sem st2 p) st2 = Some st'"
    using n t p o tid chain_walk_chain [OF ts]
    by (auto simp: notify2_def notify2_by_def may_signal_def split: bind_splits)
  have "t_evproc st' = t_evproc st2" using give_sema_ek [OF s(2)] by auto
  then show ?thesis using signal_one_slots [OF s(1)] unfolding o(1) e by simp
qed

section \<open>A system with one process of two threads\<close>

definition demo_events :: evst where
  "demo_events = \<lparr>ek = demo_kern\<lparr>sem := \<lambda>_. \<lparr>s_lock = False, s_count = 1, s_sleepq = 0\<rparr>\<rparr>,
     ept = demo_ptab\<lparr>p_threads := (\<lambda>_. 0)(50 := 23), t_next := (\<lambda>_. 0)(23 := 21), t_pid := (\<lambda>_. 0)(23 := 201, 21 := 202)\<rparr>,
     t_evsys = \<lambda>_. [], t_evproc = \<lambda>_. [], t_evq = \<lambda>t. 100 + t, t_proc = \<lambda>_. 50,
     p_cred = \<lambda>_. \<lparr>p_ids = [\<lparr>perm_len = 0, perm_id = replicate PERMLEN 0, perm_uid = 0\<rparr>],
       p_prot = \<lparr>prot_len = 0, prot_default = P_SIG, prot_id = [], prot_bits = []\<rparr>\<rparr>,
     p_sem = \<lambda>p. 200 + p, p_pgrp = \<lambda>_. 0, p_handler = \<lambda>_. 0, pgrps = \<lambda>_. None, pid_lock = 300\<rparr>"

lemma demo_may_signal: "may_signal demo_events 50"
  by (simp add: may_signal_def demo_events_def PERM_ACTIVE_def perm_step_def perm_match.simps P_SIG_def)

lemma demo_chain: "chain (t_next (ept demo_events)) (p_threads (ept demo_events) 50) [23, 21]"
  by (simp add: demo_events_def)

lemma demo_target: "\<exists>st1. notify_target 0 demo_events = Some (Some 50, st1)"
  by (simp add: notify_target_def demo_events_def take_sema_def p_sema_start_def Let_def)

lemma take_free:
  "\<not> s_lock (sem (ek st) s) \<Longrightarrow> 0 < s_count (sem (ek st) s) \<Longrightarrow>
   take_sema s p st = Some (st\<lparr>ek := set_count s (s_count (sem (ek st) s) - 1) (ek st)\<rparr>)"
  by (simp add: take_sema_def p_sema_start_def Let_def)

lemma give_free:
  "\<not> s_lock (sem (ek st) s) \<Longrightarrow> s_sleepq (sem (ek st) s) = 0 \<Longrightarrow>
   give_sema s st = Some (st\<lparr>ek := set_count s (s_count (sem (ek st) s) + 1) (ek st)\<rparr>)"
  by (simp add: give_sema_def v_sema_def Let_def)

lemma demo_sch: "curthread (sch demo_kern) = 23" "t_state (sch demo_kern) 23 = TS_ONPROC" "t_state (sch demo_kern) 21 = TS_RUN"
  by (simp_all add: demo_kern_def demo_sched_def)

lemma demo_walk: "chain_walk ((\<lambda>_. 0)(23 := 21)) 23 = Some [23, 21]"
  by (rule chain_walk_chain) simp

lemmas demo_run = notify2_def notify2_by_def notify_target_def take_free give_free signal_thread_def signal_put_def
  wake_up_def nudge_def demo_events_def Let_def demo_sch demo_walk set_count_def
  PERM_ACTIVE_def perm_step_def perm_match.simps P_SIG_def NOTIFY_PG_def

lemma demo_notify: "\<exists>r st'. notify2 0 0 ''hi'' demo_events = Some (r, st')"
  by (simp add: demo_run)

theorem process_event_witness:
  "\<exists>st'. notify2_start 0 0 ''hi'' (demo_events\<lparr>ek := set_count 121 0 (ek demo_events)\<rparr>) = Some (Sleeps 21 [], st') \<and>
     t_evproc st' 23 = ''hi'' \<and> t_evproc st' 21 = []"
proof -
  let ?st = "demo_events\<lparr>ek := set_count 121 0 (ek demo_events)\<rparr>"
  obtain st1 where t: "notify_target 0 ?st = Some (Some 50, st1)"
    by (simp add: notify_target_def demo_events_def take_sema_def p_sema_start_def Let_def set_count_def)
  have m: "may_signal ?st 50" using demo_may_signal by (simp add: may_signal_def)
  have c: "chain (t_next (ept ?st)) (p_threads (ept ?st) 50) [23, 21]" using demo_chain by simp
  obtain st' where n: "notify2_start 0 0 ''hi'' ?st = Some (Sleeps 21 [], st')"
    by (simp add: demo_run notify2_start_def signal_start_def p_sema_start_def notify2_out_def)
  have "t_evproc demo_events 21 = []" by (simp add: demo_events_def)
  then show ?thesis using process_event [OF t c n] m n by (auto simp: reached_def Cons_eq_append_conv)
qed

theorem notify_thread_esrch_witness:
  "\<exists>st'. notify2 0 202 ''hi'' demo_events = Some (Inl ESRCH, st') \<and> t_evproc st' 21 = ''hi'' \<and> t_evproc st' 23 = []"
proof -
  obtain st1 where t: "notify_target 0 demo_events = Some (Some 50, st1)" using demo_target by blast
  obtain r st' where n: "notify2 0 202 ''hi'' demo_events = Some (r, st')" by (simp add: demo_run)
  have "t_pid (ept demo_events) 21 = 202" "t_pid (ept demo_events) 23 = 201" "t_evproc demo_events 23 = []"
    by (simp_all add: demo_events_def)
  then show ?thesis using notify_thread_esrch [OF t demo_may_signal demo_chain _ _ n] n by (simp add: NOTIFY_PG_def)
qed

lemma those_const: "those (map (\<lambda>i. Some c) xs) = Some (replicate (length xs) c)"
  by (induction xs) auto

theorem event_texts_witness:
  "\<exists>st'. notify 0 0 (\<lambda>a. Some (CHR ''x'')) 4096 15 demo_events = Some (Inr (), st') \<and> ev_wf st' \<and> length (t_evproc st' 21) = 15"
proof -
  have s: "get_ustr EVLEN (\<lambda>a. Some (CHR ''x'')) 4096 15 = Inr (replicate 15 (CHR ''x''))"
    by (simp add: get_ustr_def copyin_def EVLEN_def those_const takeWhile_replicate)
  then obtain st' where n: "notify 0 0 (\<lambda>a. Some (CHR ''x'')) 4096 15 demo_events = Some (Inr (), st')"
    "t_evproc st' 21 = replicate 15 (CHR ''x'')" by (simp add: notify_def demo_run)
  have "ev_wf demo_events" by (simp add: ev_wf_def ev_text_def demo_events_def EVLEN_def)
  from event_texts [OF this n(1)] show ?thesis using n by simp
qed

end
