(* ===== verification/Event_Slots.thy ===== *)
theory Event_Slots
  imports Events
begin

text \<open>
  The slot for process events of one thread, with all the semaphores of the system: senders that
  wait for the slot, that have it and that have filled it, the thread that empties it, and other
  threads that sleep, wake up and are interrupted meanwhile.
\<close>

section \<open>Operations on one semaphore and the queues of the others\<close>

definition semq :: "addr \<Rightarrow> kern \<Rightarrow> addr list \<Rightarrow> bool" where
  "semq w k xs = (sleepers w k xs \<and> (\<forall>u. (t_wchan (sch k) u = w) = (u \<in> set xs)))"

definition all_sema :: "kern \<Rightarrow> bool" where
  "all_sema k = (\<forall>w. w \<noteq> 0 \<longrightarrow> (\<exists>xs. semq w k xs))"

definition elsewhere :: "addr \<Rightarrow> kern \<Rightarrow> kern \<Rightarrow> bool" where
  "elsewhere s k k' =
     (\<forall>w. w \<noteq> s \<longrightarrow> w \<noteq> 0 \<longrightarrow> sem k' w = sem k w \<and>
        (\<forall>u. (t_wchan (sch k') u = w) = (t_wchan (sch k) u = w) \<and>
             (t_wchan (sch k) u = w \<longrightarrow> t_hd k' u = t_hd k u \<and> t_tl k' u = t_tl k u)))"

lemma ring_q_frame:
  assumes "ring_q h n p xs" "\<And>a. a \<in> set xs \<Longrightarrow> n' a = n a \<and> p' a = p a"
  shows "ring_q h n' p' xs"
  using assms ring_frame [of n p xs n' p'] by (cases xs) (auto simp: ring_q_def)

lemma semq_elsewhere:
  assumes "semq w k xs" "elsewhere s k k'" "w \<noteq> s" "w \<noteq> 0"
  shows "semq w k' xs"
proof -
  have e: "sem k' w = sem k w" "\<And>u. (t_wchan (sch k') u = w) = (t_wchan (sch k) u = w)"
    "\<And>u. u \<in> set xs \<Longrightarrow> t_hd k' u = t_hd k u \<and> t_tl k' u = t_tl k u"
    using assms unfolding elsewhere_def semq_def by auto
  have "ring_q (s_sleepq (sem k w)) (t_hd k') (t_tl k') xs"
    using ring_q_frame [OF _ e(3)] assms(1) by (simp add: semq_def sleepers_def)
  then show ?thesis using assms(1) e(1,2) by (simp add: semq_def sleepers_def)
qed

lemma semq_in: "semq w k xs \<Longrightarrow> (t_wchan (sch k) u = w) = (u \<in> set xs)"
  by (simp add: semq_def)

lemma semq_distinct: "semq w k xs \<Longrightarrow> distinct xs"
  unfolding semq_def sleepers_def using ring_q_distinct by blast

lemma semq_unique: "semq w k xs \<Longrightarrow> semq w k ys \<Longrightarrow> set xs = set ys \<and> length xs = length ys"
  using semq_distinct [THEN distinct_card] unfolding semq_def by (metis subsetI subset_antisym)

lemma q_sema_links:
  assumes "ring_q (s_sleepq (sem st s)) (t_hd st) (t_tl st) xs" "u \<notin> set xs" "u \<noteq> t"
  shows "t_hd (q_sema s t st) u = t_hd st u \<and> t_tl (q_sema s t st) u = t_tl st u"
proof (cases xs)
  case Nil
  then show ?thesis using assms by (simp add: q_sema_def)
next
  case (Cons x ys)
  then have "s_sleepq (sem st s) = x" "x \<noteq> 0" "t_tl st x \<in> set xs"
    using assms(1) ring_prev_in [of "t_hd st" "t_tl st" xs x] by (auto simp: ring_q_Cons)
  then show ?thesis using assms(2,3) Cons by (auto simp: q_sema_def Let_def)
qed

lemma q_sema_others: "w \<noteq> s \<Longrightarrow> sem (q_sema s t st) w = sem st w"
  by (simp add: q_sema_def Let_def)

lemma dq_sema_links:
  assumes "ring_q (s_sleepq (sem st s)) (t_hd st) (t_tl st) xs" "t \<in> set xs" "u \<notin> set xs"
    and d: "dq_sema s t st = Some st'"
  shows "t_hd st' u = t_hd st u \<and> t_tl st' u = t_tl st u"
proof -
  have "ring (t_hd st) (t_tl st) xs" using assms(1,2) by (auto simp: ring_q_def split: if_splits)
  then have "t_hd st t \<in> set xs" "t_tl st t \<in> set xs" using ring_next_in ring_prev_in assms(2) by blast+
  then show ?thesis using d assms(2,3) by (auto simp: dq_sema_def Let_def split: if_splits)
qed

lemma p_sema_start_elsewhere:
  assumes q: "semq s k xs" and p: "p_sema_start s p k = Some (b, k')" and t: "t_wchan (sch k) (curthread (sch k)) = 0"
  shows "elsewhere s k k'"
proof (cases "s_count (sem k s) \<le> 0")
  case False
  then have "k' = set_count s (s_count (sem k s) - 1) k" using p by (auto simp: p_sema_start_def Let_def split: if_splits)
  then show ?thesis by (simp add: elsewhere_def)
next
  case True
  let ?t = "curthread (sch k)"
  let ?k = "set_count s (s_count (sem k s) - 1) k"
  let ?k1 = "?k\<lparr>sch := (sch ?k)\<lparr>t_wchan := (t_wchan (sch ?k))(?t := s)\<rparr>,
     t_nointr := (t_nointr ?k)(?t := (p = PRIHI)), t_intr := (t_intr ?k)(?t := False)\<rparr>"
  have k': "k' = sema_sleep s p ?t ?k" using p True by (auto simp: p_sema_start_def Let_def split: if_splits)
  have r: "ring_q (s_sleepq (sem ?k1 s)) (t_hd ?k1) (t_tl ?k1) xs" using q by (simp add: semq_def sleepers_def)
  have l: "t_hd k' u = t_hd k u \<and> t_tl k' u = t_tl k u" if "u \<notin> set xs" "u \<noteq> ?t" for u
    using q_sema_links [OF r that] k' by (simp add: sema_sleep_def Let_def)
  have m: "sem k' w = sem k w" if "w \<noteq> s" for w
    using q_sema_others [OF that] k' that by (simp add: sema_sleep_def Let_def)
  have w: "t_wchan (sch k') = (t_wchan (sch k))(?t := s)" using k' by (simp add: sema_sleep_wchan)
  show ?thesis unfolding elsewhere_def
  proof (intro allI impI conjI)
    fix w u assume a: "w \<noteq> s" "w \<noteq> 0" "t_wchan (sch k) u = w"
    then have "u \<notin> set xs" using semq_in [OF q, of u] by simp
    moreover have "u \<noteq> ?t" using a t by metis
    ultimately show "t_hd k' u = t_hd k u" "t_tl k' u = t_tl k u" using l by auto
  qed (use m w t in auto)
qed

lemma v_sema_elsewhere:
  assumes q: "semq s k xs" and v: "v_sema s k = Some k'" and s: "s \<noteq> 0"
  shows "elsewhere s k k'"
proof (cases "s_sleepq (sem k s) = 0")
  case True
  then have "k' = set_count s (s_count (sem k s) + 1) k" using v by (auto simp: v_sema_def split: if_splits)
  then show ?thesis by (simp add: elsewhere_def)
next
  case False
  let ?t = "s_sleepq (sem k s)"
  have r: "ring_q (s_sleepq (sem k s)) (t_hd k) (t_tl k) xs" using q by (simp add: semq_def sleepers_def)
  obtain ys where xs: "xs = ?t # ys" using False r by (cases xs) (auto simp: ring_q_Cons)
  have neg: "s_count (sem k s) < 0" using v False by (auto simp: v_sema_def Let_def split: if_splits)
  obtain k1 where d: "dq_sema s ?t k = Some k1" "\<forall>w. w \<noteq> s \<longrightarrow> sem k1 w = sem k w" "sch k1 = sch k"
    using dq_sema_ring [of k s "[]" ?t ys] r xs neg by auto
  obtain sc where sc: "lsetrun ?t ((sch k1)\<lparr>t_wchan := (t_wchan (sch k1))(?t := 0)\<rparr>) = Some sc" "k' = k1\<lparr>sch := sc\<rparr>"
    using v False d(1) by (auto simp: v_sema_def Let_def setrun_def split: if_splits)
  have w: "t_wchan (sch k') = (t_wchan (sch k))(?t := 0)" using lsetrun_wchan [OF sc(1)] sc(2) d(3) by simp
  have "t_wchan (sch k) ?t = s" using q xs unfolding semq_def by (metis list.set_intros(1))
  moreover have "t_hd k' u = t_hd k u \<and> t_tl k' u = t_tl k u" if "u \<notin> set xs" for u
    using dq_sema_links [OF r _ that d(1)] xs sc(2) by auto
  ultimately show ?thesis using w d(2) sc(2) s q unfolding elsewhere_def semq_def by auto
qed

lemma cunsleep_elsewhere:
  assumes q: "semq s k xs" and u: "u \<in> set xs" and c: "cunsleep u k = Some (r, k')" and s: "s \<noteq> 0"
  shows "elsewhere s k k'"
proof -
  have w: "t_wchan (sch k) u = s" and l: "\<not> s_lock (sem k s)" using q u by (auto simp: semq_def sleepers_def)
  have rq: "ring_q (s_sleepq (sem k s)) (t_hd k) (t_tl k) xs" using q by (simp add: semq_def sleepers_def)
  obtain k1 where d: "dq_sema s u k = Some k1" "k' = k1\<lparr>sch := (sch k1)\<lparr>t_wchan := (t_wchan (sch k1))(u := 0)\<rparr>,
      t_intr := (t_intr k1)(u := True)\<rparr>"
    using c w s l by (auto simp: cunsleep_def Let_def split: bind_splits)
  have o: "sem k1 w' = sem k w'" if "w' \<noteq> s" for w' using d(1) that by (auto simp: dq_sema_def Let_def split: if_splits)
  have e: "sch k1 = sch k" using dq_sema_sch [OF d(1)] by simp
  have "t_hd k' v = t_hd k v \<and> t_tl k' v = t_tl k v" if "v \<notin> set xs" for v
    using dq_sema_links [OF rq u that d(1)] d(2) by auto
  then show ?thesis using o e d(2) w s q unfolding elsewhere_def semq_def by auto
qed

text \<open>What an operation does to its own queue and count.\<close>

lemma semq_p:
  assumes q: "semq s k xs" and p: "p_sema_start s p k = Some (b, k')" and s: "s \<noteq> 0"
    and t: "t = curthread (sch k)" "t \<noteq> 0" "t_wchan (sch k) t = 0"
  shows "semq s k' (if b then xs @ [t] else xs) \<and> s_count (sem k' s) = s_count (sem k s) - 1 \<and> (b \<or> xs = [])"
proof -
  have tx: "t \<notin> set xs" using semq_in [OF q, of t] t(3) s by simp
  have sl: "sleepers s k xs" using q by (simp add: semq_def)
  note P = p_sema_start_spec [OF sl t(1,2) tx, of p]
  show ?thesis
  proof (cases "0 < s_count (sem k s)")
    case True
    then have xs: "xs = []" using sleepers_length [OF sl] by (cases xs) auto
    have r: "b = False" "k' = set_count s (s_count (sem k s) - 1) k" "sleepers s k' []" using P p True by auto
    have "semq s k' []" using r q xs by (simp add: semq_def)
    then show ?thesis using r xs by simp
  next
    case False
    then have r: "b = True" "sleepers s k' (xs @ [t])" "t_wchan (sch k') = (t_wchan (sch k))(t := s)" using P p by auto
    have "semq s k' (xs @ [t])" using r q by (auto simp: semq_def)
    moreover have "s_count (sem k s) = - int (length xs)"
      using False sl by (auto simp: sleepers_def split: if_splits)
    ultimately show ?thesis using r sleepers_length [OF r(2)] by simp
  qed
qed

lemma semq_v:
  assumes q: "semq s k xs" and v: "v_sema s k = Some k'" and s: "s \<noteq> 0"
  shows "semq s k' (tl xs) \<and> s_count (sem k' s) = s_count (sem k s) + 1 \<and>
    s_sleepq (sem k s) = (if xs = [] then 0 else hd xs) \<and> 0 \<notin> set xs"
proof -
  have sl: "sleepers s k xs" using q by (simp add: semq_def)
  have h: "s_sleepq (sem k s) = (if xs = [] then 0 else hd xs) \<and> 0 \<notin> set xs"
    using sl by (auto simp: sleepers_def ring_q_def split: if_splits)
  note V = v_sema_spec [OF sl v s]
  show ?thesis
  proof (cases xs)
    case Nil
    then show ?thesis using V q h by (auto simp: semq_def)
  next
    case (Cons t ys)
    have "t \<notin> set ys" using semq_distinct [OF q] Cons by simp
    then show ?thesis using V h Cons q s by (auto simp: semq_def)
  qed
qed

lemma semq_c:
  assumes q: "semq s k xs" and c: "cunsleep u k = Some (r, k')" and s: "s \<noteq> 0" and u: "u \<in> set xs"
  shows "semq s k' (remove1 u xs) \<and> s_count (sem k' s) = s_count (sem k s) + 1 \<and> r = 0"
proof -
  obtain as bs where xs: "xs = as @ u # bs" using u by (meson split_list)
  have d: "distinct xs" by (rule semq_distinct [OF q])
  have "sleepers s k (as @ u # bs)" using q xs by (simp add: semq_def)
  from cunsleep_spec [OF this c s] have r: "r = 0" "sleepers s k' (as @ bs)"
    "t_wchan (sch k') = (t_wchan (sch k))(u := 0)" "s_count (sem k' s) = s_count (sem k s) + 1" by auto
  have "remove1 u xs = as @ bs" using d xs by (auto simp: remove1_append)
  moreover have "semq s k' (as @ bs)" using r q xs d s by (auto simp: semq_def)
  ultimately show ?thesis using r by simp
qed

lemma semq_sch: "semq w k xs \<Longrightarrow> t_wchan sc = t_wchan (sch k) \<Longrightarrow> semq w (k\<lparr>sch := sc\<rparr>) xs"
  by (simp add: semq_def sleepers_def)

text \<open>
  \<open>harmless w k k'\<close>: the queues stay in order, and on \<open>w\<close> at most a sleeper has given up.
\<close>

definition harmless :: "addr \<Rightarrow> kern \<Rightarrow> kern \<Rightarrow> bool" where
  "harmless w k k' = (all_sema k \<longrightarrow> all_sema k' \<and>
     (\<forall>xs. semq w k xs \<longrightarrow> (\<exists>ys. semq w k' ys \<and> set ys \<subseteq> set xs \<and>
        s_count (sem k' w) + int (length ys) = s_count (sem k w) + int (length xs))))"

lemma harmless_refl: "harmless w k k"
  by (auto simp: harmless_def)

lemma harmless_trans:
  assumes "harmless w a b" "harmless w b c"
  shows "harmless w a c"
  unfolding harmless_def
proof (intro impI conjI allI)
  assume a: "all_sema a"
  then have b: "all_sema b" using assms(1) by (simp add: harmless_def)
  then show "all_sema c" using assms(2) by (simp add: harmless_def)
  fix xs assume "semq w a xs"
  then obtain ys where y: "semq w b ys" "set ys \<subseteq> set xs" "s_count (sem b w) + int (length ys) = s_count (sem a w) + int (length xs)"
    using assms(1) a unfolding harmless_def by blast
  obtain zs where z: "semq w c zs" "set zs \<subseteq> set ys" "s_count (sem c w) + int (length zs) = s_count (sem b w) + int (length ys)"
    using assms(2) b y(1) unfolding harmless_def by blast
  show "\<exists>ys. semq w c ys \<and> set ys \<subseteq> set xs \<and> s_count (sem c w) + int (length ys) = s_count (sem a w) + int (length xs)"
    using z y(2,3) by (intro exI [of _ zs]) auto
qed

lemma harmless_sch: "t_wchan sc = t_wchan (sch k) \<Longrightarrow> harmless w k (k\<lparr>sch := sc\<rparr>)"
  unfolding harmless_def all_sema_def using semq_sch [of _ k _ sc] by (metis kern.select_convs(2) kern.surjective kern.update_convs(1) order_refl)

lemma all_sema_one:
  assumes a: "all_sema k" and e: "elsewhere s k k'" and s: "semq s k' ys"
  shows "all_sema k'"
  unfolding all_sema_def
proof (intro allI impI)
  fix w :: addr assume w: "w \<noteq> 0"
  show "\<exists>xs. semq w k' xs"
  proof (cases "w = s")
    case False
    obtain xs where "semq w k xs" using a w by (auto simp: all_sema_def)
    then show ?thesis using semq_elsewhere [OF _ e False w] by blast
  qed (use s in auto)
qed

lemma harmless_elsewhere:
  assumes "all_sema k \<Longrightarrow> elsewhere s k k' \<and> (\<exists>ys. semq s k' ys)" "w \<noteq> s" "w \<noteq> 0"
  shows "harmless w k k'"
  unfolding harmless_def
proof (intro impI conjI allI)
  assume a: "all_sema k"
  then show "all_sema k'" using assms(1) all_sema_one by blast
  fix xs assume x: "semq w k xs"
  have e: "elsewhere s k k'" using assms(1) a by simp
  have "sem k' w = sem k w" using e assms(2,3) by (simp add: elsewhere_def)
  then show "\<exists>ys. semq w k' ys \<and> set ys \<subseteq> set xs \<and> s_count (sem k' w) + int (length ys) = s_count (sem k w) + int (length xs)"
    using semq_elsewhere [OF x e assms(2,3)] by auto
qed

lemma harmless_p:
  assumes "p_sema_start s p k = Some (b, k')" "s \<noteq> 0" "curthread (sch k) \<noteq> 0" "t_wchan (sch k) (curthread (sch k)) = 0"
    "w \<noteq> s" "w \<noteq> 0"
  shows "harmless w k k'"
proof (rule harmless_elsewhere [OF _ assms(5,6)])
  assume "all_sema k"
  then obtain xs where x: "semq s k xs" using assms(2) by (auto simp: all_sema_def)
  show "elsewhere s k k' \<and> (\<exists>ys. semq s k' ys)"
    using p_sema_start_elsewhere [OF x assms(1,4)] semq_p [OF x assms(1,2) refl assms(3,4)] by blast
qed

lemma harmless_v:
  assumes "v_sema s k = Some k'" "s \<noteq> 0" "w \<noteq> s" "w \<noteq> 0"
  shows "harmless w k k'"
proof (rule harmless_elsewhere [OF _ assms(3,4)])
  assume "all_sema k"
  then obtain xs where x: "semq s k xs" using assms(2) by (auto simp: all_sema_def)
  show "elsewhere s k k' \<and> (\<exists>ys. semq s k' ys)"
    using v_sema_elsewhere [OF x assms(1,2)] semq_v [OF x assms(1,2)] by blast
qed

lemma harmless_c:
  assumes c: "cunsleep u k = Some (r, k')" and w: "w \<noteq> 0"
  shows "harmless w k k'"
proof -
  let ?s = "t_wchan (sch k) u"
  have s: "?s \<noteq> 0" using c by (cases "?s = 0") (simp_all add: cunsleep_def)
  have E: "elsewhere ?s k k' \<and> semq ?s k' (remove1 u xs) \<and> s_count (sem k' ?s) = s_count (sem k ?s) + 1 \<and> u \<in> set xs"
    if "semq ?s k xs" for xs
    using cunsleep_elsewhere [OF that _ c s] semq_c [OF that c s] semq_in [OF that, of u] by blast
  show ?thesis
  proof (cases "w = ?s")
    case False
    show ?thesis by (rule harmless_elsewhere [OF _ False w]) (use E s in \<open>auto simp: all_sema_def\<close>)
  next
    case True
    show ?thesis unfolding harmless_def
    proof (intro impI conjI allI)
      assume a: "all_sema k"
      then obtain zs where "semq ?s k zs" using s by (auto simp: all_sema_def)
      then show "all_sema k'" using E all_sema_one [OF a] by blast
      fix xs assume "semq w k xs"
      then have "semq ?s k xs" using True by simp
      from E [OF this] show "\<exists>ys. semq w k' ys \<and> set ys \<subseteq> set xs \<and>
          s_count (sem k' w) + int (length ys) = s_count (sem k w) + int (length xs)"
        using True set_remove1_subset [of u xs] length_pos_if_in_set [of u xs]
        by (intro exI [of _ "remove1 u xs"]) (auto simp: length_remove1 of_nat_diff Suc_le_eq)
    qed
  qed
qed

lemma harmless_wake:
  assumes "wake_up t k = Some k'" "w \<noteq> 0"
  shows "harmless w k k'"
proof (cases "t_state (sch k) t = TS_SLEEP \<and> \<not> t_nointr k t")
  case True
  then obtain k1 sc where c: "cunsleep t k = Some (0, k1)" "lsetrun t (sch k1) = Some sc" "k' = k1\<lparr>sch := sc\<rparr>"
    using assms(1) by (auto simp: wake_up_def split: option.splits prod.splits if_splits)
  show ?thesis
    using harmless_trans [OF harmless_c [OF c(1) assms(2)] harmless_sch [of sc k1]] lsetrun_wchan [OF c(2)] c(3) by simp
next
  case False
  then show ?thesis using assms(1) harmless_refl harmless_sch [of "(sch k)\<lparr>do_preempt := True\<rparr>" k]
    by (auto simp: wake_up_def nudge_def split: tstate.splits if_splits)
qed

section \<open>The slot of a thread\<close>

text \<open>
  \<open>S\<close> are the senders that have the slot and have not filled it yet, \<open>sent\<close> the texts put into it
  and \<open>got\<close> those that its owner \<open>t\<close> has been given.  The current thread starts to send, fills the
  slot, takes an event of its own or uses another semaphore; system events, events for other
  threads, interruptions and changes of the current thread come in between.  An event that has no handler or
  does not fit on the stack makes the owner exit; it has emptied the slot then and does not release
  it, and 0 in \<open>S\<close> stands for it.
\<close>

definition pending :: "evst \<Rightarrow> addr \<Rightarrow> string list" where
  "pending st t = (if t_evproc st t = [] then [] else [t_evproc st t])"

definition takes :: "addr \<Rightarrow> evst \<Rightarrow> bool" where
  "takes t st = (curthread (sch (ek st)) = t \<and> t_evsys st t = [] \<and> t_evproc st t \<noteq> [])"

inductive slot_step :: "addr \<Rightarrow> evst \<times> addr set \<times> string list \<times> string list \<Rightarrow> evst \<times> addr set \<times> string list \<times> string list \<Rightarrow> bool" for t where
  send: "p_sema_start (t_evq st t) PRICATCH (ek st) = Some (slept, k) \<Longrightarrow> u = curthread (sch (ek st)) \<Longrightarrow> u \<noteq> 0 \<Longrightarrow>
    t_wchan (sch (ek st)) u = 0 \<Longrightarrow> u \<notin> S \<Longrightarrow>
    slot_step t (st, S, sent, got) (st\<lparr>ek := k\<rparr>, if slept then S else insert u S, sent, got)"
| put: "signal_put t ev False st = Some st' \<Longrightarrow> curthread (sch (ek st)) \<in> S \<Longrightarrow> curthread (sch (ek st)) \<noteq> 0 \<Longrightarrow> ev \<noteq> [] \<Longrightarrow>
    slot_step t (st, S, sent, got) (st', S - {curthread (sch (ek st))}, sent @ [ev], got)"
| deliver: "check_events room st = Some (d, st') \<Longrightarrow> d = NoEvent \<or> d = Handles ev \<Longrightarrow>
    slot_step t (st, S, sent, got)
      (st', if takes t st \<and> s_sleepq (sem (ek st) (t_evq st t)) \<noteq> 0 then insert (s_sleepq (sem (ek st) (t_evq st t))) S else S,
       sent, if takes t st then got @ [t_evproc st t] else got)"
| dies: "check_events room st = Some (d, st') \<Longrightarrow> d = StackFull \<or> d = DiesOf ev \<Longrightarrow>
    slot_step t (st, S, sent, got)
      (st', if takes t st then insert 0 S else S, sent, if takes t st then got @ [t_evproc st t] else got)"
| sys_event: "signal_put u ev True st = Some st' \<Longrightarrow> slot_step t (st, S, sent, got) (st', S, sent, got)"
| exception_event: "selfsig ev st = Some st' \<Longrightarrow> slot_step t (st, S, sent, got) (st', S, sent, got)"
| put_other: "signal_put u ev False st = Some st' \<Longrightarrow> u \<noteq> t \<Longrightarrow> slot_step t (st, S, sent, got) (st', S, sent, got)"
| p_other: "p_sema_start s p (ek st) = Some (slept, k) \<Longrightarrow> s \<noteq> 0 \<Longrightarrow> s \<noteq> t_evq st t \<Longrightarrow> curthread (sch (ek st)) \<noteq> 0 \<Longrightarrow>
    t_wchan (sch (ek st)) (curthread (sch (ek st))) = 0 \<Longrightarrow> slot_step t (st, S, sent, got) (st\<lparr>ek := k\<rparr>, S, sent, got)"
| v_other: "v_sema s (ek st) = Some k \<Longrightarrow> s \<noteq> 0 \<Longrightarrow> s \<noteq> t_evq st t \<Longrightarrow> slot_step t (st, S, sent, got) (st\<lparr>ek := k\<rparr>, S, sent, got)"
| interrupted: "cunsleep u (ek st) = Some (0, k) \<Longrightarrow> slot_step t (st, S, sent, got) (st\<lparr>ek := k\<rparr>, S, sent, got)"
| switch: "swtch rnd (sch (ek st)) = Some sc \<Longrightarrow> slot_step t (st, S, sent, got) (st\<lparr>ek := (ek st)\<lparr>sch := sc\<rparr>\<rparr>, S, sent, got)"

inductive_cases slot_stepE: "slot_step t (st, S, sent, got) (st', S', sent', got')"

definition evqs_ok :: "addr \<Rightarrow> evst \<Rightarrow> bool" where
  "evqs_ok t st = (t \<noteq> 0 \<and> (\<forall>u. t_evq st u \<noteq> 0 \<and> (u \<noteq> t \<longrightarrow> t_evq st u \<noteq> t_evq st t)))"

definition slot_inv :: "addr \<Rightarrow> evst \<times> addr set \<times> string list \<times> string list \<Rightarrow> bool" where
  "slot_inv t c = (case c of (st, S, sent, got) \<Rightarrow>
     evqs_ok t st \<and> all_sema (ek st) \<and> finite S \<and> sent = got @ pending st t \<and>
     (\<exists>xs. semq (t_evq st t) (ek st) xs \<and> S \<inter> set xs = {} \<and>
        s_count (sem (ek st) (t_evq st t)) + int (length xs) + int (card S) + int (length (pending st t)) = 1))"

lemma slot_invI:
  assumes "evqs_ok t st" "all_sema (ek st)" "finite S" "sent = got @ pending st t"
    "semq (t_evq st t) (ek st) xs" "S \<inter> set xs = {}"
    "s_count (sem (ek st) (t_evq st t)) + int (length xs) + int (card S) + int (length (pending st t)) = 1"
  shows "slot_inv t (st, S, sent, got)"
  using assms unfolding slot_inv_def by auto

lemma slot_invE:
  assumes "slot_inv t (st, S, sent, got)"
  obtains xs where "evqs_ok t st" "all_sema (ek st)" "finite S" "sent = got @ pending st t"
    "semq (t_evq st t) (ek st) xs" "S \<inter> set xs = {}"
    "s_count (sem (ek st) (t_evq st t)) + int (length xs) + int (card S) + int (length (pending st t)) = 1"
  using assms unfolding slot_inv_def by auto

lemma evqs_ok_cong: "t_evq st' = t_evq st \<Longrightarrow> evqs_ok t st' = evqs_ok t st"
  by (simp add: evqs_ok_def)

text \<open>Steps that change neither the slot nor who has it.\<close>

lemma slot_inv_harmless:
  assumes i: "slot_inv t (st, S, sent, got)" and h: "harmless (t_evq st t) (ek st) (ek st')"
    and e: "t_evq st' = t_evq st" "t_evproc st' t = t_evproc st t"
  shows "slot_inv t (st', S, sent, got)"
proof -
  from i obtain xs where x: "evqs_ok t st" "all_sema (ek st)" "finite S" "sent = got @ pending st t"
    "semq (t_evq st t) (ek st) xs" "S \<inter> set xs = {}"
    "s_count (sem (ek st) (t_evq st t)) + int (length xs) + int (card S) + int (length (pending st t)) = 1"
    by (rule slot_invE)
  from h x(2) have a: "all_sema (ek st')" by (simp add: harmless_def)
  from h x(2,5) obtain ys where y: "semq (t_evq st t) (ek st') ys" "set ys \<subseteq> set xs"
    "s_count (sem (ek st') (t_evq st t)) + int (length ys) = s_count (sem (ek st) (t_evq st t)) + int (length xs)"
    unfolding harmless_def by blast
  have p: "pending st' t = pending st t" using e by (simp add: pending_def)
  show ?thesis
    by (rule slot_invI [of _ _ _ _ _ ys]) (use x y a e p evqs_ok_cong [OF e(1)] in auto)
qed

lemma signal_put_harmless:
  assumes "signal_put u ev b st = Some st'" "w \<noteq> 0"
  shows "harmless w (ek st) (ek st') \<and> t_evq st' = t_evq st \<and>
    t_evproc st' = (if b then t_evproc st else (t_evproc st)(u := ev)) \<and> t_evsys st' = (if b then (t_evsys st)(u := ev) else t_evsys st)"
  using assms harmless_wake by (auto simp: signal_put_def Let_def split: if_splits)

lemma slot_at_most_one:
  assumes "slot_inv t (st, S, sent, got)"
  shows "card S + length (pending st t) \<le> 1 \<and> (\<forall>u. t_wchan (sch (ek st)) u = t_evq st t \<longrightarrow> card S + length (pending st t) = 1)"
proof -
  from assms obtain xs where x: "semq (t_evq st t) (ek st) xs"
    "s_count (sem (ek st) (t_evq st t)) + int (length xs) + int (card S) + int (length (pending st t)) = 1"
    by (rule slot_invE)
  show ?thesis
  proof (cases "xs = []")
    case True
    then show ?thesis using x by (auto simp: semq_def sleepers_def)
  next
    case False
    then show ?thesis using x by (simp add: semq_def sleepers_def)
  qed
qed

lemma slot_inv_send:
  assumes i: "slot_inv t (st, S, sent, got)" and p: "p_sema_start (t_evq st t) PRICATCH (ek st) = Some (slept, k)"
    and u: "u = curthread (sch (ek st))" "u \<noteq> 0" "t_wchan (sch (ek st)) u = 0" "u \<notin> S"
  shows "slot_inv t (st\<lparr>ek := k\<rparr>, if slept then S else insert u S, sent, got)"
proof -
  let ?w = "t_evq st t"
  from i obtain xs where x: "evqs_ok t st" "all_sema (ek st)" "finite S" "sent = got @ pending st t"
    "semq ?w (ek st) xs" "S \<inter> set xs = {}"
    "s_count (sem (ek st) ?w) + int (length xs) + int (card S) + int (length (pending st t)) = 1"
    by (rule slot_invE)
  have w: "?w \<noteq> 0" using x(1) by (simp add: evqs_ok_def)
  note Q = semq_p [OF x(5) p w u(1,2,3)]
  have a: "all_sema k" using all_sema_one [OF x(2) p_sema_start_elsewhere [OF x(5) p]] Q u(1,3) by blast
  have pd: "pending (st\<lparr>ek := k\<rparr>) t = pending st t" by (simp add: pending_def)
  have e: "evqs_ok t (st\<lparr>ek := k\<rparr>)" using x(1) by (simp add: evqs_ok_def)
  show ?thesis
  proof (cases slept)
    case True
    show ?thesis by (rule slot_invI [of _ _ _ _ _ "xs @ [u]"]) (use x Q a pd e True u(4) in auto)
  next
    case False
    then have "xs = []" using Q by simp
    then show ?thesis by - (rule slot_invI [of _ _ _ _ _ "[]"], use x Q a pd e False u(4) in auto)
  qed
qed

lemma slot_inv_put:
  assumes i: "slot_inv t (st, S, sent, got)" and p: "signal_put t ev False st = Some st'" and u: "u \<in> S" and ev: "ev \<noteq> []"
  shows "slot_inv t (st', S - {u}, sent @ [ev], got)"
proof -
  let ?w = "t_evq st t"
  from i obtain xs where x: "evqs_ok t st" "all_sema (ek st)" "finite S" "sent = got @ pending st t"
    "semq ?w (ek st) xs" "S \<inter> set xs = {}"
    "s_count (sem (ek st) ?w) + int (length xs) + int (card S) + int (length (pending st t)) = 1"
    by (rule slot_invE)
  have w: "?w \<noteq> 0" using x(1) by (simp add: evqs_ok_def)
  have "0 < card S" using x(3) u by (auto simp: card_gt_0_iff)
  then have c: "card S = 1" "pending st t = []" using slot_at_most_one [OF i] by (auto simp flip: length_0_conv)
  note H = signal_put_harmless [OF p w]
  from H x(2,5) obtain ys where y: "all_sema (ek st')" "semq ?w (ek st') ys" "set ys \<subseteq> set xs"
    "s_count (sem (ek st') ?w) + int (length ys) = s_count (sem (ek st) ?w) + int (length xs)"
    unfolding harmless_def by blast
  have pd: "pending st' t = [ev]" using H ev by (simp add: pending_def)
  have e: "evqs_ok t st'" using x(1) H evqs_ok_cong by blast
  have "card (S - {u}) = 0" using c u x(3) by simp
  then show ?thesis by - (rule slot_invI [of _ _ _ _ _ ys], use x y c pd e H in auto)
qed

lemma slot_inv_deliver:
  assumes i: "slot_inv t (st, S, sent, got)" and d: "check_events room st = Some (d, st')" "d = NoEvent \<or> d = Handles ev"
  shows "slot_inv t (st', if takes t st \<and> s_sleepq (sem (ek st) (t_evq st t)) \<noteq> 0 then insert (s_sleepq (sem (ek st) (t_evq st t))) S else S,
       sent, if takes t st then got @ [t_evproc st t] else got)"
proof -
  let ?w = "t_evq st t" and ?c = "curthread (sch (ek st))"
  from i obtain xs where x: "evqs_ok t st" "all_sema (ek st)" "finite S" "sent = got @ pending st t"
    "semq ?w (ek st) xs" "S \<inter> set xs = {}"
    "s_count (sem (ek st) ?w) + int (length xs) + int (card S) + int (length (pending st t)) = 1"
    by (rule slot_invE)
  have w: "?w \<noteq> 0" using x(1) by (simp add: evqs_ok_def)
  show ?thesis
  proof (cases "?c \<noteq> 0 \<and> t_evsys st ?c = [] \<and> t_evproc st ?c \<noteq> []")
    case False
    then have "ek st' = ek st" "t_evq st' = t_evq st" "t_evproc st' = t_evproc st"
      using d by (auto simp: check_events_def EVENT_def Let_def split: if_splits)
    moreover have "\<not> takes t st" using False x(1) by (auto simp: takes_def evqs_ok_def)
    ultimately show ?thesis using slot_inv_harmless [OF i, of st'] harmless_refl by simp
  next
    case True
    then obtain k where k: "v_sema (t_evq st ?c) (ek st) = Some k" "st' = st\<lparr>t_evproc := (t_evproc st)(?c := []), ek := k\<rparr>"
      using d by (auto simp: check_events_def EVENT_def Let_def give_sema_def sendev_def split: if_splits)
    show ?thesis
    proof (cases "?c = t")
      case False
      then have n: "\<not> takes t st" by (simp add: takes_def)
      have "t_evq st ?c \<noteq> 0" "?w \<noteq> t_evq st ?c" using x(1) False unfolding evqs_ok_def by metis+
      then have "harmless ?w (ek st) (ek st')" using harmless_v [OF k(1)] w k(2) by simp
      then have "slot_inv t (st', S, sent, got)" using slot_inv_harmless [OF i] k(2) False by simp
      then show ?thesis using n by simp
    next
      case eq: True
      then have tk: "takes t st" "pending st t = [t_evproc st t]" using True by (auto simp: takes_def pending_def)
      have v: "v_sema ?w (ek st) = Some k" using k(1) eq by simp
      note Q = semq_v [OF x(5) v w]
      have a: "all_sema k" using all_sema_one [OF x(2) v_sema_elsewhere [OF x(5) v w]] Q by blast
      have S: "S = {}" using slot_at_most_one [OF i] tk(2) x(3) by auto
      have pd: "pending st' t = []" using k(2) eq by (simp add: pending_def)
      have e: "evqs_ok t st'" using x(1) k(2) by (simp add: evqs_ok_def)
      have dist: "distinct xs" by (rule semq_distinct [OF x(5)])
      have "slot_inv t (st', if xs = [] then {} else {hd xs}, sent, got @ [t_evproc st t])"
        by (rule slot_invI [of _ _ _ _ _ "tl xs"]; cases xs) (use x Q a S pd e tk k(2) dist in auto)
      moreover have "s_sleepq (sem (ek st) ?w) = 0 \<longleftrightarrow> xs = []" using Q by (cases xs) auto
      ultimately show ?thesis using tk(1) S Q by auto
    qed
  qed
qed

lemma slot_inv_dies:
  assumes i: "slot_inv t (st, S, sent, got)" and d: "check_events room st = Some (d, st')" "d = StackFull \<or> d = DiesOf ev"
  shows "slot_inv t (st', if takes t st then insert 0 S else S, sent, if takes t st then got @ [t_evproc st t] else got)"
proof (cases "takes t st")
  case False
  then have "ek st' = ek st" "t_evq st' = t_evq st" "t_evproc st' t = t_evproc st t"
    using d by (auto simp: check_events_def EVENT_def Let_def takes_def split: if_splits delivery.splits)
  then show ?thesis using slot_inv_harmless [OF i, of st'] harmless_refl False by simp
next
  case True
  from i obtain xs where x: "evqs_ok t st" "all_sema (ek st)" "finite S" "sent = got @ pending st t"
    "semq (t_evq st t) (ek st) xs" "S \<inter> set xs = {}"
    "s_count (sem (ek st) (t_evq st t)) + int (length xs) + int (card S) + int (length (pending st t)) = 1"
    by (rule slot_invE)
  have p: "pending st t = [t_evproc st t]" using True by (simp add: takes_def pending_def)
  then have S: "S = {}" using slot_at_most_one [OF i] x(3) by auto
  have st': "st' = st\<lparr>t_evproc := (t_evproc st)(t := [])\<rparr>"
    using d True x(1) by (auto simp: check_events_def EVENT_def Let_def takes_def evqs_ok_def split: if_splits delivery.splits)
  have "ring_q (s_sleepq (sem (ek st) (t_evq st t))) (t_hd (ek st)) (t_tl (ek st)) xs" using x(5) by (simp add: semq_def sleepers_def)
  then have "0 \<notin> set xs" by (auto simp: ring_q_def split: if_splits)
  then have "slot_inv t (st', {0}, sent, got @ [t_evproc st t])"
    by - (rule slot_invI [of _ _ _ _ _ xs], use x p S st' in \<open>auto simp: pending_def evqs_ok_def\<close>)
  then show ?thesis using True S by simp
qed

lemma slot_inv_step:
  assumes step: "slot_step t (st, S, sent, got) (st', S', sent', got')" and i: "slot_inv t (st, S, sent, got)"
  shows "slot_inv t (st', S', sent', got')"
proof -
  have w: "t_evq st t \<noteq> 0" using i by (rule slot_invE) (simp add: evqs_ok_def)
  note H = slot_inv_harmless [OF i]
  show ?thesis using step
  proof (cases rule: slot_stepE [consumes 1, case_names send put deliver dies sys_event exception_event put_other p_other v_other interrupted switch])
    case (send slept k)
    then show ?thesis using slot_inv_send [OF i] by blast
  next
    case (put ev)
    then show ?thesis using slot_inv_put [OF i] by blast
  next
    case (deliver room d ev)
    then show ?thesis using slot_inv_deliver [OF i deliver(1,2)] by simp
  next
    case (dies room d ev)
    then show ?thesis using slot_inv_dies [OF i dies(1,2)] by simp
  next
    case (sys_event u ev)
    then show ?thesis using signal_put_harmless [OF _ w] H by simp
  next
    case (exception_event ev)
    then show ?thesis using H harmless_refl by (auto simp: selfsig_def Let_def split: if_splits)
  next
    case (put_other u ev)
    then show ?thesis using signal_put_harmless [OF _ w] H by simp
  next
    case (p_other s p slept k)
    then show ?thesis using harmless_p H w by simp
  next
    case (v_other s k)
    then show ?thesis using harmless_v H w by simp
  next
    case (interrupted u k)
    then show ?thesis using harmless_c H w by simp
  next
    case (switch rnd sc)
    then show ?thesis using harmless_sch swtch_wchan H by simp
  qed
qed

lemma slot_inv_steps:
  assumes "(slot_step t)\<^sup>*\<^sup>* c c'" "slot_inv t c"
  shows "slot_inv t c'"
  using assms
proof (induction rule: rtranclp_induct)
  case (step c' c'')
  then show ?case using slot_inv_step by (cases c', cases c'') blast
qed

text \<open>A system in which nobody sleeps and the slot of \<open>t\<close> is free.\<close>

definition quiet :: "addr \<Rightarrow> evst \<Rightarrow> bool" where
  "quiet t st = (evqs_ok t st \<and> t_evproc st t = [] \<and> s_count (sem (ek st) (t_evq st t)) = 1 \<and>
     (\<forall>s. \<not> s_lock (sem (ek st) s) \<and> s_sleepq (sem (ek st) s) = 0 \<and> 0 \<le> s_count (sem (ek st) s)) \<and>
     (\<forall>u. t_wchan (sch (ek st)) u = 0))"

lemma quiet_inv: "quiet t st \<Longrightarrow> slot_inv t (st, {}, [], [])"
  by (rule slot_invI [of _ _ _ _ _ "[]"]) (auto simp: quiet_def all_sema_def semq_def sleepers_def pending_def evqs_ok_def intro!: exI [of _ "[]"])

section \<open>A thread that exits\<close>

text \<open>
  What \<open>do_exit\<close> does with the thread list and the senders: the lock of the process, whose first
  component tells whether the thread goes to sleep, and what follows.
\<close>

definition exit_lock :: "evst \<Rightarrow> (bool \<times> evst) option" where
  "exit_lock st =
     map_option (\<lambda>(slept, k). (slept, st\<lparr>ek := k\<rparr>))
       (p_sema_start (p_sem st (t_proc st (curthread (sch (ek st))))) PRIHI (ek st))"

definition exit_unlink :: "evst \<Rightarrow> evst option" where
  "exit_unlink st = do {
     let t = curthread (sch (ek st));
     let p = t_proc st t;
     pt \<leftarrow> unlink_thread t p (ept st);
     st1 \<leftarrow> give_sema (p_sem st p) (st\<lparr>ept := pt\<rparr>);
     map_option (\<lambda>k. st1\<lparr>ek := k\<rparr>) (vall_sema (t_evq st1 t) (ek st1))
   }"

text \<open>
  The rest of the system, while \<open>t\<close> sleeps on \<open>m\<close> and \<open>u\<close> on \<open>w\<close>: only \<open>u\<close> has the lock \<open>m\<close> to
  release, and only \<open>t\<close> releases its own slot \<open>w\<close>.
\<close>

inductive rest_step :: "addr \<Rightarrow> addr \<Rightarrow> addr \<Rightarrow> addr \<Rightarrow> kern \<Rightarrow> kern \<Rightarrow> bool" for u t w m where
  sleep: "p_sema_start s p k = Some (b, k') \<Longrightarrow> s \<noteq> 0 \<Longrightarrow> curthread (sch k) \<notin> {0, u, t} \<Longrightarrow>
    t_wchan (sch k) (curthread (sch k)) = 0 \<Longrightarrow> rest_step u t w m k k'"
| release: "v_sema s k = Some k' \<Longrightarrow> s \<notin> {0, w, m} \<Longrightarrow> rest_step u t w m k k'"
| interrupt: "cunsleep x k = Some (0, k') \<Longrightarrow> \<not> t_nointr k x \<Longrightarrow> x \<noteq> u \<Longrightarrow> rest_step u t w m k k'"
| switch: "swtch rnd (sch k) = Some sc \<Longrightarrow> rest_step u t w m k (k\<lparr>sch := sc\<rparr>)"

definition both_asleep :: "addr \<Rightarrow> addr \<Rightarrow> addr \<Rightarrow> addr \<Rightarrow> kern \<Rightarrow> bool" where
  "both_asleep u t w m k = (all_sema k \<and> t_wchan (sch k) u = w \<and> t_wchan (sch k) t = m \<and> t_nointr k t)"

lemma p_sema_start_other_wchan:
  assumes "p_sema_start s p k = Some (b, k')" "x \<noteq> curthread (sch k)"
  shows "t_wchan (sch k') x = t_wchan (sch k) x \<and> t_nointr k' x = t_nointr k x"
  using assms by (auto simp: p_sema_start_def Let_def sema_sleep_def q_sema_def set_sleepq_def set_count_def split: if_splits)

lemma p_sema_start_all:
  assumes "all_sema k" "p_sema_start s p k = Some (b, k')" "s \<noteq> 0" "curthread (sch k) \<noteq> 0"
    "t_wchan (sch k) (curthread (sch k)) = 0"
  shows "all_sema k'"
proof -
  obtain xs where x: "semq s k xs" using assms(1,3) by (auto simp: all_sema_def)
  show ?thesis
    using all_sema_one [OF assms(1) p_sema_start_elsewhere [OF x assms(2,5)]] semq_p [OF x assms(2,3) refl assms(4,5)] by blast
qed

lemma both_asleep_step:
  assumes "rest_step u t w m k k'" "both_asleep u t w m k" "w \<noteq> 0" "m \<noteq> 0"
  shows "both_asleep u t w m k'"
  using assms(1)
proof cases
  case (sleep s p b)
  then have "all_sema k'" using p_sema_start_all assms(2) by (auto simp: both_asleep_def)
  then show ?thesis
    using p_sema_start_other_wchan [OF sleep(1), of u] p_sema_start_other_wchan [OF sleep(1), of t] sleep(3) assms(2)
    by (auto simp: both_asleep_def)
next
  case (release s)
  then obtain xs where x: "semq s k xs" using assms(2) by (auto simp: both_asleep_def all_sema_def)
  have e: "elsewhere s k k'" using v_sema_elsewhere [OF x] release by simp
  have "all_sema k'" using all_sema_one [OF _ e] semq_v [OF x] release assms(2) by (auto simp: both_asleep_def)
  moreover have "t_nointr k' = t_nointr k" using v_sema_no_new_sleep [OF release(1)] by (simp add: no_new_sleep_def)
  ultimately show ?thesis using e release(2) assms(2-4) by (auto simp: both_asleep_def elsewhere_def)
next
  case (interrupt x)
  have a: "all_sema k'" using harmless_c [OF interrupt(1) assms(3)] assms(2) by (simp add: harmless_def both_asleep_def)
  have "t_wchan (sch k') = (t_wchan (sch k))(x := 0) \<and> t_nointr k' = t_nointr k"
    using interrupt(1) by (auto simp: cunsleep_def Let_def split: if_splits bind_splits dest!: dq_sema_sch)
  then show ?thesis using a interrupt(2,3) assms(2) by (auto simp: both_asleep_def)
next
  case (switch rnd sc)
  then have w: "t_wchan sc = t_wchan (sch k)" using swtch_wchan by blast
  have "all_sema k'" using harmless_sch [OF w, of w] assms(2) switch(1) by (simp add: both_asleep_def harmless_def)
  then show ?thesis using w switch(1) assms(2) by (simp add: both_asleep_def)
qed

lemma both_asleep_steps:
  assumes "(rest_step u t w m)\<^sup>*\<^sup>* k k'" "both_asleep u t w m k" "w \<noteq> 0" "m \<noteq> 0"
  shows "both_asleep u t w m k'"
  using assms by (induction rule: rtranclp_induct) (auto intro: both_asleep_step)

lemma exit_lock_sleeps:
  assumes a: "all_sema k" and t: "curthread (sch k) = t" "t \<noteq> 0" "t_wchan (sch k) t = 0"
    and m: "m = p_sem st (t_proc st t)" "m \<noteq> 0" "s_count (sem k m) \<le> 0"
    and u: "t_wchan (sch k) u = w" "u \<noteq> t"
  shows "\<exists>k'. exit_lock (st\<lparr>ek := k\<rparr>) = Some (True, st\<lparr>ek := k'\<rparr>) \<and> both_asleep u t w m k'"
proof -
  obtain xs where x: "semq m k xs" using a m(2) by (auto simp: all_sema_def)
  then have l: "\<not> s_lock (sem k m)" by (simp add: semq_def sleepers_def)
  then obtain k' where k': "p_sema_start m PRIHI k = Some (True, k')" "t_nointr k' t"
    using m(3) t(1) by (auto simp: p_sema_start_def Let_def sema_sleep_def q_sema_def set_sleepq_def)
  have "all_sema k'" using p_sema_start_all [OF a k'(1) m(2)] t by simp
  moreover have "t_wchan (sch k') t = m"
    using semq_p [OF x k'(1) m(2) refl] t semq_in [of m k' "xs @ [t]" t] by simp
  moreover have "t_wchan (sch k') u = w" using p_sema_start_other_wchan [OF k'(1), of u] t(1) u by simp
  ultimately have "both_asleep u t w m k'" using k'(2) by (simp add: both_asleep_def)
  then show ?thesis using k'(1) m(1) t(1) by (auto simp: exit_lock_def)
qed

text \<open>
  C6. A sender that has to wait for the slot of \<open>t\<close> sleeps with the lock of the
  process of \<open>t\<close>. When \<open>t\<close> exits now, by the event that fills its slot
  or by itself, it sleeps for that lock before it lets the waiting senders through; whatever the
  rest of the system does, both sleep for ever, unless somebody interrupts the sender.
\<close>

theorem exit_deadlock:
  assumes a: "all_sema (ek st)" and u: "u = curthread (sch (ek st))" "u \<noteq> 0" "t_wchan (sch (ek st)) u = 0"
    and t: "t \<noteq> 0" "t \<noteq> u" "t_wchan (sch (ek st)) t = 0"
    and w: "w = t_evq st t" "w \<noteq> 0" "s_count (sem (ek st) w) \<le> 0"
    and m: "m = p_sem st (t_proc st t)" "m \<noteq> 0" "m \<noteq> w" "s_count (sem (ek st) m) = 1"
  shows "\<exists>st1 k. take_sema m PRIHI st = Some st1 \<and> p_sema_start w PRICATCH (ek st1) = Some (True, k) \<and>
     (\<forall>sc. t_wchan sc = t_wchan (sch k) \<and> curthread sc = t \<longrightarrow>
        (\<exists>st2. exit_lock (st1\<lparr>ek := k\<lparr>sch := sc\<rparr>\<rparr>) = Some (True, st2) \<and>
           (\<forall>k3. (rest_step u t w m)\<^sup>*\<^sup>* (ek st2) k3 \<longrightarrow> t_wchan (sch k3) t = m \<and> t_wchan (sch k3) u = w)))"
proof -
  let ?k1 = "set_count m 0 (ek st)"
  obtain xs where x: "semq m (ek st) xs" using a m(2) by (auto simp: all_sema_def)
  then have l: "\<not> s_lock (sem (ek st) m)" by (simp add: semq_def sleepers_def)
  have p1: "p_sema_start m PRIHI (ek st) = Some (False, ?k1)" using l m(4) by (simp add: p_sema_start_def Let_def set_count_def)
  have st1: "take_sema m PRIHI st = Some (st\<lparr>ek := ?k1\<rparr>)" using p1 by (simp add: take_sema_def)
  have a1: "all_sema ?k1" using p_sema_start_all [OF a p1 m(2)] u by simp
  obtain ys where y: "semq w ?k1 ys" using a1 w(2) by (auto simp: all_sema_def)
  have "\<not> s_lock (sem ?k1 w)" using y by (simp add: semq_def sleepers_def)
  then obtain k where k: "p_sema_start w PRICATCH ?k1 = Some (True, k)"
    using w(3) m(3) by (auto simp: p_sema_start_def Let_def)
  have cu: "curthread (sch ?k1) = u" "t_wchan (sch ?k1) u = 0" using u by simp_all
  have a2: "all_sema k" using p_sema_start_all [OF a1 k w(2)] u by simp
  have e: "elsewhere w ?k1 k" using p_sema_start_elsewhere [OF y k] u by simp
  have wu: "t_wchan (sch k) u = w" using semq_p [OF y k w(2) cu(1) [symmetric] u(2) cu(2)] semq_in [of w k "ys @ [u]" u] by simp
  have wt: "t_wchan (sch k) t = 0" using p_sema_start_other_wchan [OF k, of t] cu(1) t by simp
  have mc: "s_count (sem k m) = 0" using e m(2,3) by (simp add: elsewhere_def)
  have "\<exists>st2. exit_lock (st\<lparr>ek := ?k1\<rparr>\<lparr>ek := k\<lparr>sch := sc\<rparr>\<rparr>) = Some (True, st2) \<and>
      (\<forall>k3. (rest_step u t w m)\<^sup>*\<^sup>* (ek st2) k3 \<longrightarrow> t_wchan (sch k3) t = m \<and> t_wchan (sch k3) u = w)"
    if sc: "t_wchan sc = t_wchan (sch k)" "curthread sc = t" for sc
  proof -
    have "all_sema (k\<lparr>sch := sc\<rparr>)" using harmless_sch [OF sc(1), of w] a2 by (simp add: harmless_def)
    from exit_lock_sleeps [OF this, of t m st u w] obtain k' where k': "exit_lock (st\<lparr>ek := k\<lparr>sch := sc\<rparr>\<rparr>) = Some (True, st\<lparr>ek := k'\<rparr>)"
      "both_asleep u t w m k'" using sc t wt m(1,2) mc wu by auto
    have "\<forall>k3. (rest_step u t w m)\<^sup>*\<^sup>* k' k3 \<longrightarrow> t_wchan (sch k3) t = m \<and> t_wchan (sch k3) u = w"
      using both_asleep_steps [OF _ k'(2) w(2) m(2)] by (auto simp: both_asleep_def)
    then show ?thesis using k'(1) by (intro exI [of _ "st\<lparr>ek := k'\<rparr>"]) simp
  qed
  then show ?thesis using st1 k by (intro exI [of _ "st\<lparr>ek := ?k1\<rparr>"] exI [of _ k]) simp
qed

text \<open>A thread that gets through its exit wakes everybody who waits for its slot.\<close>

lemma vall_sema_semq: "semq s k xs \<Longrightarrow> s \<noteq> 0 \<Longrightarrow> vall_sema s k = Some k' \<Longrightarrow> semq s k' []"
proof (induction xs arbitrary: k)
  case Nil
  then show ?case by (subst (asm) vall_sema.simps) (auto simp: semq_def sleepers_def)
next
  case (Cons x xs)
  then have "s_count (sem k s) < 0" by (simp add: semq_def sleepers_def)
  then obtain k1 where k1: "v_sema s k = Some k1" "vall_sema s k1 = Some k'"
    using Cons.prems(3) by (subst (asm) vall_sema.simps) (auto split: bind_splits)
  have "semq s k1 xs" using semq_v [OF Cons.prems(1) k1(1) Cons.prems(2)] by simp
  then show ?case using Cons.IH k1(2) Cons.prems(2) by blast
qed

lemma exit_unlink_frees:
  assumes a: "all_sema (ek st)" and x: "exit_unlink st = Some st'" and t: "curthread (sch (ek st)) = t"
    and w: "t_evq st t \<noteq> 0" "p_sem st (t_proc st t) \<noteq> t_evq st t" "p_sem st (t_proc st t) \<noteq> 0"
  shows "t_wchan (sch (ek st')) u \<noteq> t_evq st t"
proof -
  obtain pt st1 k where e: "give_sema (p_sem st (t_proc st t)) (st\<lparr>ept := pt\<rparr>) = Some st1"
    "vall_sema (t_evq st1 t) (ek st1) = Some k" "st' = st1\<lparr>ek := k\<rparr>"
    using x t by (auto simp: exit_unlink_def Let_def split: bind_splits)
  obtain k1 where k1: "v_sema (p_sem st (t_proc st t)) (ek st) = Some k1" "st1 = st\<lparr>ept := pt, ek := k1\<rparr>"
    using e(1) by (auto simp: give_sema_def)
  obtain xs where xs: "semq (p_sem st (t_proc st t)) (ek st) xs" using a w(3) by (auto simp: all_sema_def)
  have "all_sema k1" using all_sema_one [OF a v_sema_elsewhere [OF xs k1(1) w(3)]] semq_v [OF xs k1(1) w(3)] by blast
  then obtain ys where "semq (t_evq st t) k1 ys" using w(1) by (auto simp: all_sema_def)
  then have "semq (t_evq st t) k []" using vall_sema_semq e(2) k1(2) w(1) by simp
  then show ?thesis using e(3) by (simp add: semq_def)
qed

text \<open>
  C5. In every interleaving of senders with the owner of a slot, with threads that use other
  semaphores, with system events, events for other threads, interruptions and thread switches, until
  the owner has exited: the process events put into the slot are those its owner has been given, in
  order, followed by the one in the slot; at most one sender has the slot, and only while it is
  empty, so that no event is overwritten; a thread waits for the slot only while it is taken; and
  if the owner exits, be it of an event, after that nobody sleeps for the slot any more.  The slot is free
  again as soon as the frame of the handler is on the stack of the owner, not, as the comment of
  \<open>event.c\<close> has it, when the handler has returned.
\<close>

theorem event_slot:
  assumes q: "quiet t st0" and r: "(slot_step t)\<^sup>*\<^sup>* (st0, {}, [], []) (st, S, sent, got)"
  shows "sent = got @ pending st t \<and> card S + length (pending st t) \<le> 1 \<and>
     (S \<noteq> {} \<longrightarrow> pending st t = []) \<and>
     (\<forall>u. t_wchan (sch (ek st)) u = t_evq st t \<longrightarrow> S \<noteq> {} \<or> pending st t \<noteq> []) \<and>
     (\<forall>st'. exit_unlink st = Some st' \<and> curthread (sch (ek st)) = t \<and> p_sem st (t_proc st t) \<notin> {0, t_evq st t} \<longrightarrow>
        (\<forall>u. t_wchan (sch (ek st')) u \<noteq> t_evq st t))"
proof -
  have i: "slot_inv t (st, S, sent, got)" by (rule slot_inv_steps [OF r quiet_inv [OF q]])
  have f: "finite S" and s: "sent = got @ pending st t" and a: "all_sema (ek st)" and w: "t_evq st t \<noteq> 0"
    using i by (auto elim: slot_invE simp: evqs_ok_def)
  note one = slot_at_most_one [OF i]
  have z: "S \<noteq> {} \<longleftrightarrow> 0 < card S" using f by (simp add: card_gt_0_iff)
  have "S \<noteq> {} \<longrightarrow> pending st t = []" using one z by (simp flip: length_0_conv)
  moreover have "S \<noteq> {} \<or> pending st t \<noteq> []" if "card S + length (pending st t) = 1"
    using that z by (cases "pending st t") auto
  moreover have "t_wchan (sch (ek st')) u \<noteq> t_evq st t"
    if "exit_unlink st = Some st'" "curthread (sch (ek st)) = t" "p_sem st (t_proc st t) \<notin> {0, t_evq st t}" for st' u
    using exit_unlink_frees [OF a that(1,2) w] that(3) by simp
  ultimately show ?thesis using s one by blast
qed

section \<open>Runs\<close>

lemma quiet_demo: "quiet 21 demo_events"
  by (simp add: quiet_def evqs_ok_def demo_events_def demo_kern_def demo_sched_def)

theorem event_slot_witness:
  "\<exists>st S sent got. (slot_step 21)\<^sup>*\<^sup>* (demo_events, {}, [], []) (st, S, sent, got) \<and> sent = [''hi''] \<and> pending st 21 = [''hi''] \<and> got = []"
proof -
  let ?k = "set_count 121 0 (ek demo_events)"
  let ?st = "demo_events\<lparr>ek := ?k\<rparr>"
  have s: "p_sema_start (t_evq demo_events 21) PRICATCH (ek demo_events) = Some (False, ?k)"
    by (simp add: p_sema_start_def Let_def demo_events_def set_count_def)
  have c: "curthread (sch (ek demo_events)) = 23" "t_wchan (sch (ek demo_events)) 23 = 0"
    by (simp_all add: demo_events_def demo_kern_def demo_sched_def)
  have a: "slot_step 21 (demo_events, {}, [], []) (?st, {23}, [], [])"
    using slot_step.send [OF s c(1) [symmetric], of "{}" "[]" "[]"] c by simp
  obtain st' where p: "signal_put 21 ''hi'' False ?st = Some st'"
    by (simp add: signal_put_def wake_up_def Let_def demo_events_def demo_sch set_count_def)
  have b: "slot_step 21 (?st, {23}, [], []) (st', {}, [''hi''], [])"
    using slot_step.put [OF p, of "{23}" "[]" "[]"] c by simp
  have r: "(slot_step 21)\<^sup>*\<^sup>* (demo_events, {}, [], []) (st', {}, [''hi''], [])" using a b by simp
  from event_slot [OF quiet_demo r] show ?thesis using r by auto
qed

theorem exit_deadlock_witness:
  "\<exists>st1 k. take_sema 250 PRIHI (demo_events\<lparr>ek := set_count 121 0 (ek demo_events)\<rparr>) = Some st1 \<and>
     p_sema_start 121 PRICATCH (ek st1) = Some (True, k)"
proof -
  let ?st = "demo_events\<lparr>ek := set_count 121 0 (ek demo_events)\<rparr>"
  have "semq w (ek ?st) []" if "w \<noteq> 0" for w
    using that by (cases "w = 121") (simp_all add: semq_def sleepers_def demo_events_def demo_kern_def demo_sched_def set_count_def)
  then have "all_sema (ek ?st)" by (auto simp: all_sema_def)
  from exit_deadlock [OF this, of 23 21 121 250] show ?thesis
    by (auto simp: demo_events_def demo_kern_def demo_sched_def set_count_def)
qed

end
