(* ===== verification/Clock.thy ===== *)
theory Clock
  imports Scheduler Permissions
begin

text \<open>
  The clock, \<open>os/kern/xclock.c\<close>: the count of ticks, the time of day, and the threads that
  sleep until a given time.

  \<open>long\<close> and \<open>ulong\<close> are 32 bits wide, so the members of \<open>struct time\<close> are words that a signed
  comparison reads with \<open>sint\<close>.  The sleepers, linked through \<open>e_next\<close>, are the list of their
  addresses; \<open>ep\<close>, the place of the link to the current element, is the position in the list.
  The semaphore of a sleeper is its count, negative while the thread sleeps.  One call of
  \<open>hardclock\<close> is two steps, up to \<open>sti()\<close> and after it, because the next tick can come between
  them.  A failing assertion is \<open>None\<close>.
\<close>

section \<open>Data\<close>

record time =
  t_sec :: u32
  t_usec :: u32

text \<open>The order of points in time, as the comparisons of \<open>alarm_wakeup\<close> spell it out.\<close>

instantiation time_ext :: (linorder) linorder
begin

definition less_eq_time_ext :: "'a time_scheme \<Rightarrow> 'a time_scheme \<Rightarrow> bool" where
  "less_eq_time_ext a b =
     (sint (t_sec a) < sint (t_sec b) \<or> sint (t_sec a) = sint (t_sec b) \<and>
       (sint (t_usec a) < sint (t_usec b) \<or> sint (t_usec a) = sint (t_usec b) \<and> time.more a \<le> time.more b))"

definition less_time_ext :: "'a time_scheme \<Rightarrow> 'a time_scheme \<Rightarrow> bool" where
  "less_time_ext a b = (a \<le> b \<and> \<not> b \<le> a)"

instance
proof
  fix x y z :: "'a time_scheme"
  show "(x < y) = (x \<le> y \<and> \<not> y \<le> x)" by (simp add: less_time_ext_def)
  show "x \<le> x" by (simp add: less_eq_time_ext_def)
  show "x \<le> y \<or> y \<le> x" by (auto simp: less_eq_time_ext_def)
  show "x \<le> z" if "x \<le> y" "y \<le> z" using that by (auto simp: less_eq_time_ext_def)
  show "x = y" if "x \<le> y" "y \<le> x"
    using that by (cases x; cases y) (auto simp: less_eq_time_ext_def intro: signed_word_eqI)
qed

end

lemma time_le_iff:
  "(a :: time) \<le> b = (sint (t_sec a) < sint (t_sec b) \<or> sint (t_sec a) = sint (t_sec b) \<and> sint (t_usec a) \<le> sint (t_usec b))"
  by (auto simp: less_eq_time_ext_def)

record eventq =
  e_tid :: u32
  e_time :: time
  e_sema :: int
  e_onlist :: bool

record clk =
  evs :: "addr \<Rightarrow> eventq"
  sleepers :: "addr list"
  boot_time :: time
  pc_time0 :: u32
  pc_time1 :: u32
  pc_ticks :: u32
  cpu_clock :: bool
  t_usrcpu :: "addr \<Rightarrow> u32"
  t_syscpu :: "addr \<Rightarrow> u32"
  pageout_secs :: u32
  pageout_wait :: u32
  pageout_kicks :: nat
  run :: sched_st

abbreviation (input) HZ :: u32 where "HZ \<equiv> 20"
abbreviation (input) T_MAX_OINK :: u8 where "T_MAX_OINK \<equiv> 32"

definition upd_ev :: "addr \<Rightarrow> (eventq \<Rightarrow> eventq) \<Rightarrow> clk \<Rightarrow> clk" where
  "upd_ev e f st = st\<lparr>evs := (evs st)(e := f (evs st e))\<rparr>"

text \<open>The macro \<open>CVT_TIME\<close>: 50000 is \<open>1000000 / HZ\<close>.\<close>

definition CVT_TIME :: "u32 \<Rightarrow> u32 \<Rightarrow> time" where
  "CVT_TIME tim0 tim1 = \<lparr>t_sec = tim1, t_usec = tim0 * 50000\<rparr>"

section \<open>Ticks\<close>

text \<open>The loop of \<open>alarm_wakeup\<close>: the sleepers left in the list, and the state.\<close>

fun alarm_scan :: "time \<Rightarrow> addr list \<Rightarrow> clk \<Rightarrow> addr list \<times> clk" where
  "alarm_scan t [] st = ([], st)"
| "alarm_scan t (e # es) st =
     (let l = t_sec t; l2 = t_usec t; et = e_time (evs st e) in
      if sint l < sint (t_sec et) then (e # es, st)
      else if t_sec et = l \<and> sint (t_usec et) \<le> sint l2 \<or> sint (t_sec et) < sint l then
        alarm_scan t es (upd_ev e (\<lambda>v. v\<lparr>e_onlist := False, e_sema := e_sema v + 1\<rparr>) st)
      else
        let (r, st') = alarm_scan t es st in (e # r, st'))"

definition alarm_wakeup :: "time \<Rightarrow> clk \<Rightarrow> clk" where
  "alarm_wakeup t st = (let (r, st') = alarm_scan t (sleepers st) st in st'\<lparr>sleepers := r\<rparr>)"

text \<open>
  \<open>hardclock\<close> up to \<open>sti()\<close>; the flag tells that the call goes on.
\<close>

definition hardclock_start :: "clk \<Rightarrow> bool \<times> clk" where
  "hardclock_start st =
     (if cpu_clock st then (False, st\<lparr>pc_ticks := pc_ticks st + 1\<rparr>)
      else (True, st\<lparr>cpu_clock := True, pc_time0 := pc_time0 st + pc_ticks st, pc_ticks := 0\<rparr>))"

function carry :: "u32 \<Rightarrow> u32 \<Rightarrow> u32 \<Rightarrow> u32 \<times> u32 \<times> u32" where
  "carry w t1 t0 = (if HZ \<le> t0 then carry (w + 1) (t1 + 1) (t0 - HZ) else (w, t1, t0))"
  by pat_completeness auto
termination
  by (relation "measure (\<lambda>(w, t1, t0). unat t0)") (auto simp: unat_sub_le word_le_nat_alt)

declare carry.simps [simp del]

definition bill_thread :: "bool \<Rightarrow> clk \<Rightarrow> clk" where
  "bill_thread usermode st =
     (let t = curthread (run st) in
      if t = 0 then st
      else
        let st1 = (if usermode then st\<lparr>t_usrcpu := (t_usrcpu st)(t := t_usrcpu st t + 1)\<rparr>
                   else st\<lparr>t_syscpu := (t_syscpu st)(t := t_syscpu st t + 1)\<rparr>);
            r = run st1;
            r1 = (if 0 < t_runticks r t then r\<lparr>t_runticks := (t_runticks r)(t := t_runticks r t - 1)\<rparr> else r);
            r2 = (if t_runticks r1 t = 0 then
                    (if t_oink r1 t < T_MAX_OINK then r1\<lparr>t_oink := (t_oink r1)(t := t_oink r1 t + 1)\<rparr> else r1)
                      \<lparr>do_preempt := True\<rparr>
                  else r1)
        in st1\<lparr>run := r2\<rparr>)"

text \<open>
  \<open>hardclock\<close> after \<open>sti()\<close>.  Ticks that come meanwhile only count in \<open>pc_ticks\<close>, which this
  part does not touch.
\<close>

definition hardclock_done :: "bool \<Rightarrow> clk \<Rightarrow> clk" where
  "hardclock_done usermode st =
     (let (w, t1, t0) = carry (pageout_wait st) (pc_time1 st) (pc_time0 st + 1);
          st1 = bill_thread usermode (st\<lparr>pageout_wait := w, pc_time1 := t1, pc_time0 := t0\<rparr>);
          st2 = (if sleepers st1 \<noteq> [] then alarm_wakeup (CVT_TIME (pc_time0 st1) (pc_time1 st1)) st1 else st1);
          st3 = (if 0 < pageout_secs st2 \<and> pageout_secs st2 \<le> pageout_wait st2
                 then st2\<lparr>pageout_wait := 0, pageout_kicks := pageout_kicks st2 + 1\<rparr> else st2)
      in st3\<lparr>cpu_clock := False\<rparr>)"

section \<open>Time of day\<close>

definition uptime :: "clk \<Rightarrow> time" where
  "uptime st = CVT_TIME (pc_time0 st) (pc_time1 st)"

text \<open>The arguments are \<open>None\<close> for an address that \<open>copyin\<close> refuses; \<open>-1\<close> and \<open>0\<close> are the results.\<close>

definition time_set :: "cred \<Rightarrow> time option \<Rightarrow> clk \<Rightarrow> int \<times> clk" where
  "time_set c arg st =
     (if isroot c \<noteq> Inr () then (- 1, st)
      else case arg of
        None \<Rightarrow> (- 1, st)
      | Some t \<Rightarrow>
          let ct = CVT_TIME (pc_time0 st) (pc_time1 st);
              s = t_sec t - t_sec ct;
              u = t_usec t - t_usec ct;
              b = (if sint u < 0 then \<lparr>t_sec = s - 1, t_usec = u + 1000000\<rparr> else \<lparr>t_sec = s, t_usec = u\<rparr>)
          in (0, st\<lparr>boot_time := b\<rparr>))"

definition time_get :: "bool \<Rightarrow> clk \<Rightarrow> int \<times> time option" where
  "time_get copied st =
     (let t = CVT_TIME (pc_time0 st) (pc_time1 st);
          s = t_sec t + t_sec (boot_time st);
          u = t_usec t + t_usec (boot_time st);
          r = (if 1000000 < sint u then \<lparr>t_sec = s + 1, t_usec = u - 1000000\<rparr> else \<lparr>t_sec = s, t_usec = u\<rparr>)
      in if copied then (0, Some r) else (- 1, None))"

section \<open>Sleeping\<close>

text \<open>A time of day relative to the boot, in which the clock counts.\<close>

definition since_boot :: "time \<Rightarrow> clk \<Rightarrow> time" where
  "since_boot t st =
     (let s = t_sec t - t_sec (boot_time st); u = t_usec t - t_usec (boot_time st)
      in if sint u < 0 then \<lparr>t_sec = s - 1, t_usec = u + 1000000\<rparr> else \<lparr>t_sec = s, t_usec = u\<rparr>)"

text \<open>The comparison is unsigned, since the code keeps the seconds in an \<open>ulong\<close>.\<close>

fun ev_insert :: "u32 \<Rightarrow> (addr \<Rightarrow> eventq) \<Rightarrow> addr \<Rightarrow> addr list \<Rightarrow> addr list" where
  "ev_insert l ev n [] = [n]"
| "ev_insert l ev n (e # es) = (if l \<le> t_sec (e_time (ev e)) then n # e # es else e # ev_insert l ev n es)"

text \<open>
  \<open>time_sleep\<close> until \<open>p_sema_v_lock\<close> puts the thread to sleep; \<open>n\<close> is the new element.
\<close>

definition time_sleep_start :: "time option \<Rightarrow> u32 \<Rightarrow> addr \<Rightarrow> clk \<Rightarrow> int \<times> clk" where
  "time_sleep_start arg tid n st =
     (case arg of
        None \<Rightarrow> (- 1, st)
      | Some t \<Rightarrow>
          let t' = since_boot t st;
              st1 = upd_ev n (\<lambda>_. \<lparr>e_tid = tid, e_time = t', e_sema = 0, e_onlist = True\<rparr>) st;
              st2 = st1\<lparr>sleepers := ev_insert (t_sec t') (evs st1) n (sleepers st1)\<rparr>
          in (0, upd_ev n (\<lambda>v. v\<lparr>e_sema := e_sema v - 1\<rparr>) st2))"

text \<open>\<open>time_sleep\<close> from there; \<open>intr\<close> is the result of \<open>p_sema_v_lock\<close>.\<close>

definition time_sleep_done :: "bool \<Rightarrow> addr \<Rightarrow> clk \<Rightarrow> (unit syscall \<times> clk) option" where
  "time_sleep_done intr n st =
     (if intr then
        if e_onlist (evs st n) then
          if n \<in> set (sleepers st) then Some (Inl EINTR, st\<lparr>sleepers := remove1 n (sleepers st)\<rparr>) else None
        else Some (Inl EINTR, st)
      else if e_onlist (evs st n) then None
      else Some (Inr (), st))"

section \<open>Which sleepers a tick wakes\<close>

definition sec_of :: "(addr \<Rightarrow> eventq) \<Rightarrow> addr \<Rightarrow> int" where
  "sec_of ev e = sint (t_sec (e_time (ev e)))"

definition due :: "time \<Rightarrow> clk \<Rightarrow> addr \<Rightarrow> bool" where
  "due t st e = (e_time (evs st e) \<le> t)"

definition wake_due :: "time \<Rightarrow> addr set \<Rightarrow> clk \<Rightarrow> clk" where
  "wake_due t es st = st\<lparr>evs := (\<lambda>e. if e \<in> es \<and> due t st e
     then (evs st e)\<lparr>e_onlist := False, e_sema := e_sema (evs st e) + 1\<rparr> else evs st e)\<rparr>"

lemma wake_due_none: "(\<forall>e \<in> es. \<not> due t st e) \<Longrightarrow> wake_due t es st = st"
  by (cases st) (auto simp: wake_due_def fun_eq_iff)

lemma wake_due_insert:
  "e \<notin> es \<Longrightarrow> wake_due t (insert e es) st =
     wake_due t es (if due t st e then upd_ev e (\<lambda>v. v\<lparr>e_onlist := False, e_sema := e_sema v + 1\<rparr>) st else st)"
  by (cases st) (auto simp: wake_due_def upd_ev_def due_def fun_eq_iff)

lemma sec_of_upd [simp]: "sec_of (evs (upd_ev e (\<lambda>v. v\<lparr>e_onlist := b, e_sema := k v\<rparr>) st)) = sec_of (evs st)"
  by (auto simp: sec_of_def upd_ev_def fun_eq_iff)

lemma due_upd [simp]: "due t (upd_ev e (\<lambda>v. v\<lparr>e_onlist := b, e_sema := k v\<rparr>) st) = due t st"
  by (auto simp: due_def upd_ev_def fun_eq_iff)

lemma alarm_scan_Cons:
  "alarm_scan t (e # es) st =
     (if sint (t_sec t) < sec_of (evs st) e then (e # es, st)
      else if due t st e then alarm_scan t es (upd_ev e (\<lambda>v. v\<lparr>e_onlist := False, e_sema := e_sema v + 1\<rparr>) st)
      else (e # fst (alarm_scan t es st), snd (alarm_scan t es st)))"
  by (auto simp: due_def time_le_iff sec_of_def Let_def split_beta intro: signed_word_eqI)

lemma alarm_scan_due:
  "sorted (map (sec_of (evs st)) es) \<Longrightarrow> distinct es \<Longrightarrow>
   alarm_scan t es st = (filter (\<lambda>e. \<not> due t st e) es, wake_due t (set es) st)"
proof (induction es arbitrary: st)
  case Nil
  then show ?case by (simp add: wake_due_none)
next
  case (Cons e es)
  show ?case
  proof (cases "sint (t_sec t) < sec_of (evs st) e")
    case True
    then have "\<forall>x \<in> set (e # es). \<not> due t st x"
      using Cons.prems(1) by (auto simp: due_def time_le_iff sec_of_def)
    then show ?thesis using True wake_due_none [of "set (e # es)" t st]
      by (simp add: alarm_scan_Cons filter_id_conv del: alarm_scan.simps)
  next
    case False
    then show ?thesis using Cons wake_due_insert [of e "set es" t st]
      by (simp add: alarm_scan_Cons del: alarm_scan.simps)
  qed
qed

lemma alarm_wakeup_due:
  assumes "sorted (map (sec_of (evs st)) (sleepers st))" "distinct (sleepers st)"
  shows "alarm_wakeup t st =
    (wake_due t (set (sleepers st)) st)\<lparr>sleepers := filter (\<lambda>e. \<not> due t st e) (sleepers st)\<rparr>"
  using alarm_scan_due [OF assms] by (simp add: alarm_wakeup_def)

section \<open>The count of ticks\<close>

lemma carry_sum: "carry w t1 t0 = (w', t1', t0') \<Longrightarrow> t1' * HZ + t0' = t1 * HZ + t0 \<and> t0' < HZ"
proof (induction w t1 t0 rule: carry.induct)
  case (1 w t1 t0)
  show ?case
  proof (cases "HZ \<le> t0")
    case True
    then show ?thesis using 1 by (simp add: carry.simps [of w t1 t0] algebra_simps)
  next
    case False
    then have "carry w t1 t0 = (w, t1, t0)" by (subst carry.simps) (simp only: if_False)
    then show ?thesis using False 1(2) by (simp add: not_le)
  qed
qed

lemma alarm_scan_clock [simp]:
  "pc_time0 (snd (alarm_scan t es st)) = pc_time0 st" "pc_time1 (snd (alarm_scan t es st)) = pc_time1 st"
  "pc_ticks (snd (alarm_scan t es st)) = pc_ticks st" "cpu_clock (snd (alarm_scan t es st)) = cpu_clock st"
  by (induction t es st rule: alarm_scan.induct) (auto simp: Let_def upd_ev_def split: prod.splits)

lemma alarm_wakeup_clock [simp]:
  "pc_time0 (alarm_wakeup t st) = pc_time0 st" "pc_time1 (alarm_wakeup t st) = pc_time1 st"
  "pc_ticks (alarm_wakeup t st) = pc_ticks st" "cpu_clock (alarm_wakeup t st) = cpu_clock st"
  by (simp_all add: alarm_wakeup_def split_beta)

lemma bill_thread_clock [simp]:
  "pc_time0 (bill_thread u st) = pc_time0 st" "pc_time1 (bill_thread u st) = pc_time1 st"
  "pc_ticks (bill_thread u st) = pc_ticks st" "cpu_clock (bill_thread u st) = cpu_clock st"
  "sleepers (bill_thread u st) = sleepers st" "evs (bill_thread u st) = evs st" "boot_time (bill_thread u st) = boot_time st"
  by (simp_all add: bill_thread_def Let_def)

lemmas clock_frame = alarm_wakeup_clock bill_thread_clock

text \<open>
  Every call of \<open>hardclock\<close> counts once, also while another call is in progress: its second
  half adds the tick that the first half stands for.
\<close>

definition ticks :: "clk \<Rightarrow> u32" where
  "ticks st = pc_time1 st * HZ + pc_time0 st + pc_ticks st + (if cpu_clock st then 1 else 0)"

definition clock_ok :: "clk \<Rightarrow> bool" where
  "clock_ok st = (cpu_clock st \<or> pc_time0 st < HZ)"

lemma hardclock_start_ticks: "hardclock_start st = (b, st') \<Longrightarrow> ticks st' = ticks st + 1 \<and> clock_ok st'"
  by (auto simp: hardclock_start_def ticks_def clock_ok_def split: if_splits)

lemma hardclock_done_ticks:
  assumes "cpu_clock st"
  shows "ticks (hardclock_done u st) = ticks st \<and> clock_ok (hardclock_done u st)"
proof -
  obtain w t1 t0 where c: "carry (pageout_wait st) (pc_time1 st) (pc_time0 st + 1) = (w, t1, t0)"
    by (metis prod_cases3)
  then have "t1 * HZ + t0 = pc_time1 st * HZ + (pc_time0 st + 1)" "t0 < HZ"
    using carry_sum by blast+
  then show ?thesis using assms c
    by (simp add: hardclock_done_def ticks_def clock_ok_def Let_def add.assoc)
qed

section \<open>The life of the sleepers\<close>

text \<open>
  The threads inside \<open>time_sleep\<close> are known by their elements; a thread leaves when its
  semaphore is free, or by an event.  Times before the boot are excluded.
\<close>

inductive clk_step :: "addr set \<times> clk \<Rightarrow> addr set \<times> clk \<Rightarrow> bool" where
  sleep: "n \<notin> L \<Longrightarrow> 0 \<le> sint (t_sec (since_boot t st)) \<Longrightarrow> time_sleep_start (Some t) tid n st = (0, st') \<Longrightarrow>
    clk_step (L, st) (insert n L, st')"
| tick: "hardclock_start st = (b, st') \<Longrightarrow> clk_step (L, st) (L, st')"
| tick_done: "cpu_clock st \<Longrightarrow> clk_step (L, st) (L, hardclock_done u st)"
| set_time: "time_set c arg st = (r, st') \<Longrightarrow> clk_step (L, st) (L, st')"
| woken: "n \<in> L \<Longrightarrow> 0 \<le> e_sema (evs st n) \<Longrightarrow> time_sleep_done False n st = Some (r, st') \<Longrightarrow>
    clk_step (L, st) (L - {n}, st')"
| interrupted: "n \<in> L \<Longrightarrow> time_sleep_done True n st = Some (r, st') \<Longrightarrow> clk_step (L, st) (L - {n}, st')"

inductive_cases clk_stepE: "clk_step (L, st) (L', st')"

inductive clk_reach :: "addr set \<times> clk \<Rightarrow> addr set \<times> clk \<Rightarrow> bool" for c where
  start: "clk_reach c c"
| step: "clk_reach c d \<Longrightarrow> clk_step d e \<Longrightarrow> clk_reach c e"

definition clk_ok :: "addr set \<Rightarrow> clk \<Rightarrow> bool" where
  "clk_ok L st = (distinct (sleepers st) \<and> set (sleepers st) = {n \<in> L. e_onlist (evs st n)} \<and>
     (\<forall>n \<in> L. e_sema (evs st n) = (if e_onlist (evs st n) then - 1 else 0)) \<and>
     sorted (map (sec_of (evs st)) (sleepers st)) \<and> (\<forall>n \<in> set (sleepers st). 0 \<le> sec_of (evs st) n))"

lemma le_sint_nonneg: "0 \<le> sint a \<Longrightarrow> 0 \<le> sint b \<Longrightarrow> (a \<le> b) = (sint a \<le> sint (b :: u32))"
  using uint_lt2p [of a] uint_lt2p [of b] by (auto simp: word_le_def sint_u32 split: if_splits)

lemma ev_insert_set: "set (ev_insert l ev n es) = insert n (set es)"
  by (induction es) auto

lemma ev_insert_distinct: "distinct (ev_insert l ev n es) = (n \<notin> set es \<and> distinct es)"
  by (induction es) (auto simp: ev_insert_set)

lemma ev_insert_sorted:
  assumes "sorted (map f es)" "f n = sint l" "0 \<le> sint l"
    and "\<forall>e \<in> set es. f e = sint (t_sec (e_time (ev e))) \<and> 0 \<le> f e"
  shows "sorted (map f (ev_insert l ev n es))"
  using assms
proof (induction es)
  case (Cons e es)
  have "(l \<le> t_sec (e_time (ev e))) = (sint l \<le> f e)"
    using le_sint_nonneg [OF Cons.prems(3)] Cons.prems(4) by simp
  moreover have "sorted (map f (ev_insert l ev n es))" 
    using Cons.prems(1) by (intro Cons.IH Cons.prems(2,3)) (simp, meson Cons.prems(4) list.set_intros(2))
  ultimately show ?case using Cons.prems(1,2) by (auto simp: ev_insert_set)
qed simp

lemma clk_ok_sleep:
  assumes "clk_ok L st" "n \<notin> L" "0 \<le> sint (t_sec (since_boot t st))"
    and st': "time_sleep_start (Some t) tid n st = (0, st')"
  shows "clk_ok (insert n L) st'"
proof -
  let ?t = "since_boot t st"
  let ?ev = "(evs st)(n := \<lparr>e_tid = tid, e_time = ?t, e_sema = 0, e_onlist = True\<rparr>)"
  have n: "n \<notin> set (sleepers st)" using assms(1,2) by (auto simp: clk_ok_def)
  have s: "sleepers st' = ev_insert (t_sec ?t) ?ev n (sleepers st)"
    "evs st' = ?ev(n := \<lparr>e_tid = tid, e_time = ?t, e_sema = - 1, e_onlist = True\<rparr>)"
    using st' by (auto simp: time_sleep_start_def Let_def upd_ev_def)
  have f: "sec_of (evs st') e = (if e = n then sint (t_sec ?t) else sec_of (evs st) e)" for e
    by (simp add: sec_of_def s)
  have "map (sec_of (evs st')) (sleepers st) = map (sec_of (evs st)) (sleepers st)"
    using n by (intro map_cong) (auto simp: f)
  then have "sorted (map (sec_of (evs st')) (sleepers st))" using assms(1) by (simp only: clk_ok_def)
  then have "sorted (map (sec_of (evs st')) (sleepers st'))"
    unfolding s(1)
  proof (rule ev_insert_sorted)
    show "\<forall>e \<in> set (sleepers st). sec_of (evs st') e = sint (t_sec (e_time (?ev e))) \<and> 0 \<le> sec_of (evs st') e"
      using assms(1) n by (auto simp: f clk_ok_def sec_of_def [of "evs st"])
  qed (simp_all add: f assms(3))
  moreover have "0 \<le> sec_of (evs st') e" if "e \<in> insert n (set (sleepers st))" for e
    using that assms(1,3) by (auto simp: f clk_ok_def)
  ultimately show ?thesis using assms(1,2) n s(2)
    by (auto simp: clk_ok_def s(1) ev_insert_set ev_insert_distinct)
qed

lemma clk_ok_alarm: "clk_ok L st \<Longrightarrow> clk_ok L (alarm_wakeup t st)"
proof -
  assume ok: "clk_ok L st"
  then have a: "alarm_wakeup t st =
      (wake_due t (set (sleepers st)) st)\<lparr>sleepers := filter (\<lambda>e. \<not> due t st e) (sleepers st)\<rparr>"
    by (intro alarm_wakeup_due) (auto simp: clk_ok_def)
  have f: "sec_of (evs (alarm_wakeup t st)) = sec_of (evs st)" by (auto simp: a wake_due_def sec_of_def fun_eq_iff)
  have "sorted (map (sec_of (evs st)) (filter (\<lambda>e. \<not> due t st e) (sleepers st)))"
    using ok sorted_filter [of "sec_of (evs st)" "sleepers st"] by (simp add: clk_ok_def)
  then show ?thesis using ok unfolding clk_ok_def f
    by (auto simp: a wake_due_def)
qed

lemma clk_ok_cong:
  "sleepers st' = sleepers st \<Longrightarrow> evs st' = evs st \<Longrightarrow> clk_ok L st' = clk_ok L st"
  by (simp add: clk_ok_def)

lemma clk_ok_done: "clk_ok L st \<Longrightarrow> clk_ok L (hardclock_done u st)"
proof -
  assume ok: "clk_ok L st"
  obtain w t1 t0 where c: "carry (pageout_wait st) (pc_time1 st) (pc_time0 st + 1) = (w, t1, t0)"
    by (metis prod_cases3)
  let ?s = "bill_thread u (st\<lparr>pageout_wait := w, pc_time1 := t1, pc_time0 := t0\<rparr>)"
  have "clk_ok L ?s" using ok clk_ok_cong [of ?s st L] by simp
  then have "clk_ok L (if sleepers ?s \<noteq> [] then alarm_wakeup (CVT_TIME (pc_time0 ?s) (pc_time1 ?s)) ?s else ?s)"
    using clk_ok_alarm by simp
  then show ?thesis using c by (simp add: hardclock_done_def Let_def clk_ok_def)
qed

lemma clk_ok_step: "clk_step (L, st) (L', st') \<Longrightarrow> clk_ok L st \<Longrightarrow> clk_ok L' st'"
proof (induction "(L, st)" "(L', st')" rule: clk_step.induct)
  case (sleep n t tid)
  then show ?case using clk_ok_sleep by blast
next
  case (tick b)
  then show ?case by (auto simp: hardclock_start_def clk_ok_def split: if_splits)
next
  case (tick_done u)
  then show ?case using clk_ok_done by blast
next
  case (set_time c arg r)
  then show ?case by (auto simp: time_set_def clk_ok_def Let_def split: if_splits option.splits)
next
  case (woken n r)
  then show ?case by (auto simp: time_sleep_done_def clk_ok_def split: if_splits)
next
  case (interrupted n r)
  then show ?case
    by (auto simp: time_sleep_done_def clk_ok_def sorted_map_remove1 split: if_splits)
qed

lemma clk_ok_reach: "clk_reach c d \<Longrightarrow> clk_ok (fst c) (snd c) \<Longrightarrow> clk_ok (fst d) (snd d)"
proof (induction rule: clk_reach.induct)
  case (step d e)
  then show ?case using clk_ok_step [of "fst d" "snd d" "fst e" "snd e"] by simp
qed simp

section \<open>The theorems\<close>

text \<open>
  C21. As long as no thread asks for a time before the boot (or so late that its second reads as
  negative; then \<open>past_alarm_waits\<close> shows that a sleeper is passed over), in every interleaving of
  ticks, settings of the clock, sleeps, wake-ups and interruptions, the list of the sleepers is
  sorted by seconds, and a scan of it wakes exactly the sleepers whose time has come, although it
  stops at the first that is a second ahead; nobody else is woken, and no assertion of
  \<open>time_sleep\<close> fails.
\<close>

theorem alarms_exact:
  assumes "clk_reach ({}, st0) (L, st)" "sleepers st0 = []"
  shows "sorted (map (\<lambda>n. sint (t_sec (e_time (evs st n)))) (sleepers st)) \<and>
    sleepers (alarm_wakeup t st) = filter (\<lambda>n. t < e_time (evs st n)) (sleepers st) \<and>
    (\<forall>n \<in> L. e_sema (evs (alarm_wakeup t st) n) =
       (if n \<in> set (sleepers st) \<and> t < e_time (evs st n) then - 1 else 0)) \<and>
    (\<forall>n \<in> L. time_sleep_done True n st \<noteq> None \<and> (0 \<le> e_sema (evs st n) \<longrightarrow> time_sleep_done False n st \<noteq> None))"
proof -
  have ok: "clk_ok L st" using clk_ok_reach [OF assms(1)] assms(2) by (simp add: clk_ok_def)
  have "alarm_wakeup t st =
      (wake_due t (set (sleepers st)) st)\<lparr>sleepers := filter (\<lambda>e. \<not> due t st e) (sleepers st)\<rparr>"
    using ok by (intro alarm_wakeup_due) (auto simp: clk_ok_def)
  moreover have "sorted (map (\<lambda>n. sint (t_sec (e_time (evs st n)))) (sleepers st))"
    using ok by (simp add: clk_ok_def sec_of_def [abs_def])
  ultimately show ?thesis using ok
    by (auto simp: clk_ok_def due_def not_le wake_due_def time_sleep_done_def)
qed

definition demo_clk :: clk where
  "demo_clk = \<lparr>evs = \<lambda>_. \<lparr>e_tid = 0, e_time = \<lparr>t_sec = 0, t_usec = 0\<rparr>, e_sema = 0, e_onlist = False\<rparr>,
     sleepers = [], boot_time = \<lparr>t_sec = 1000, t_usec = 0\<rparr>, pc_time0 = 3, pc_time1 = 7, pc_ticks = 0,
     cpu_clock = False, t_usrcpu = \<lambda>_. 0, t_syscpu = \<lambda>_. 0, pageout_secs = 0, pageout_wait = 0,
     pageout_kicks = 0, run = demo_sched\<rparr>"

text \<open>Two sleepers, until 20 and 10 seconds after the boot, which is at second 1000.\<close>

abbreviation (input) demo_at :: "u32 \<Rightarrow> time" where "demo_at s \<equiv> \<lparr>t_sec = s, t_usec = 0\<rparr>"

definition demo_asleep :: clk where
  "demo_asleep = snd (time_sleep_start (Some (demo_at 1010)) 8 6 (snd (time_sleep_start (Some (demo_at 1020)) 7 5 demo_clk)))"

lemma demo_asleep_reach: "clk_reach ({}, demo_clk) ({5, 6}, demo_asleep)"
proof -
  let ?s1 = "snd (time_sleep_start (Some (demo_at 1020)) 7 5 demo_clk)"
  have t: "since_boot (demo_at 1020) demo_clk = demo_at 20" "since_boot (demo_at 1010) ?s1 = demo_at 10"
    by (simp_all add: since_boot_def demo_clk_def time_sleep_start_def Let_def upd_ev_def)
  have "clk_step ({}, demo_clk) ({5}, ?s1)"
    by (rule clk_step.sleep [where t = "demo_at 1020" and tid = 7]) (simp_all add: t time_sleep_start_def Let_def)
  moreover have "clk_step ({5}, ?s1) (insert 6 {5}, demo_asleep)"
    by (rule clk_step.sleep [where t = "demo_at 1010" and tid = 8])
      (simp_all add: t demo_asleep_def, simp add: time_sleep_start_def Let_def)
  ultimately have "clk_reach ({}, demo_clk) (insert 6 {5}, demo_asleep)"
    by (intro clk_reach.step [OF clk_reach.step [OF clk_reach.start]])
  then show ?thesis by (simp add: insert_commute)
qed

theorem alarms_exact_witness:
  "sleepers demo_asleep = [6, 5] \<and> sleepers (alarm_wakeup \<lparr>t_sec = 12, t_usec = 0\<rparr> demo_asleep) = [5] \<and>
   e_sema (evs (alarm_wakeup \<lparr>t_sec = 12, t_usec = 0\<rparr> demo_asleep) 6) = 0"
proof -
  have s: "sleepers demo_asleep = [6, 5]" "e_time (evs demo_asleep 5) = demo_at 20" "e_time (evs demo_asleep 6) = demo_at 10"
    by (simp_all add: demo_asleep_def demo_clk_def time_sleep_start_def since_boot_def Let_def upd_ev_def)
  have "demo_at 12 < demo_at 20" "\<not> demo_at 12 < demo_at 10"
    by (simp_all add: less_le time_le_iff not_le)
  then show ?thesis using s alarms_exact [OF demo_asleep_reach, of "demo_at 12"] by (simp add: demo_clk_def)
qed

text \<open>\<open>None\<close> is a tick, \<open>Some u\<close> the completion of the one in progress.\<close>

fun tick_run :: "bool option list \<Rightarrow> clk \<Rightarrow> clk" where
  "tick_run [] st = st"
| "tick_run (None # es) st = tick_run es (snd (hardclock_start st))"
| "tick_run (Some u # es) st = tick_run es (if cpu_clock st then hardclock_done u st else st)"

text \<open>
  The count of ticks: whatever the interleaving of calls of \<open>hardclock\<close> with each other, each
  adds one to the time the clock shows together with the ticks it has queued, and outside of
  the clock code the count of ticks within the second is below \<open>HZ\<close>.
\<close>

theorem hardclock_counts:
  assumes "clock_ok st"
  shows "ticks (tick_run es st) = ticks st + of_nat (length (filter (\<lambda>e. e = None) es)) \<and> clock_ok (tick_run es st)"
  using assms
proof (induction es st rule: tick_run.induct)
  case (2 es st)
  obtain b st' where "hardclock_start st = (b, st')" by (cases "hardclock_start st")
  then show ?case using 2 hardclock_start_ticks [of st b st'] by simp
next
  case (3 u es st)
  then show ?case using hardclock_done_ticks [of st u] by simp
qed simp

theorem hardclock_counts_witness:
  "ticks (tick_run [None, None, Some True, None, Some False] demo_clk) = ticks demo_clk + 3 \<and> ticks demo_clk = 143"
  using hardclock_counts [of demo_clk "[None, None, Some True, None, Some False]"]
  by (simp add: clock_ok_def demo_clk_def ticks_def)

text \<open>
  What the clock shows right after it was set is the time it was set to, except for a whole
  second set between two seconds of the uptime: the carry of \<open>time_get\<close> tests for more than a
  million microseconds, so this time is shown as a million microseconds of the second before.
\<close>

theorem time_set_get:
  assumes "isroot c = Inr ()" "t_usec t < 1000000" "pc_time0 st < HZ"
  shows "\<exists>st'. time_set c (Some t) st = (0, st') \<and>
    time_get True st' = (0, Some (if t_usec t = 0 \<and> pc_time0 st \<noteq> 0
      then \<lparr>t_sec = t_sec t - 1, t_usec = 1000000\<rparr> else t))"
proof -
  let ?u = "t_usec t" and ?c = "pc_time0 st * 50000"
  have u: "uint ?u < 1000000" using assms(2) by (simp add: word_less_def)
  have p: "uint (pc_time0 st) < 20" using assms(3) by (simp add: word_less_def)
  have c: "uint ?c = uint (pc_time0 st) * 50000"
    using p by (simp add: uint_word_ariths mod_pos_pos_trivial)
  have z: "(?u = 0) = (\<not> 0 < uint ?u)" "(pc_time0 st = 0) = (\<not> 0 < uint (pc_time0 st))"
    using uint_ge_0 [of ?u] uint_ge_0 [of "pc_time0 st"] by (simp_all add: word_uint_eq_iff not_less order_le_less)
  have d: "(sint (?u - ?c) < 0) = (uint ?u < uint ?c)"
  proof -
    obtain a b where ab: "uint ?u = a" "uint ?c = b" by blast
    have "0 \<le> a" "a < 1000000" "0 \<le> b" "b < 1000000" using u p c ab uint_ge_0 [of ?u] uint_ge_0 [of ?c] by linarith+
    then show ?thesis using uint_sub_if' [of ?u ?c] sint_u32 [of "?u - ?c"] by (auto simp: ab split: if_splits)
  qed
  have s: "sint ?u = uint ?u" "sint (?u + 1000000) = uint ?u + 1000000"
    using u by (simp_all add: sint_u32 uint_word_ariths mod_pos_pos_trivial)
  have "?c + (?u - ?c) = ?u" "?c + (?u - ?c + 1000000) = ?u + 1000000" by simp_all
  then show ?thesis using assms(1) u p c z d s
    by (auto simp: time_set_def time_get_def CVT_TIME_def Let_def)
qed

definition root_cred :: cred where
  "root_cred = user_cred\<lparr>p_ids := [label 2 [1, 1] 0]\<rparr>"

theorem time_set_get_witness:
  "\<exists>st'. time_set root_cred (Some \<lparr>t_sec = 5000, t_usec = 0\<rparr>) demo_clk = (0, st') \<and>
     time_get True st' = (0, Some \<lparr>t_sec = 4999, t_usec = 1000000\<rparr>)"
proof -
  have "isroot root_cred = Inr ()" by code_simp
  then show ?thesis using time_set_get [of root_cred "\<lparr>t_sec = 5000, t_usec = 0\<rparr>" demo_clk] by (simp add: demo_clk_def)
qed

text \<open>
  A time before the boot is sorted as an unsigned number, behind every sleeper: the thread is
  not woken by the ticks that follow, although its time has passed, as long as the first
  sleeper of the list is a second ahead.
\<close>

theorem past_alarm_waits:
  assumes "sint (t_sec (since_boot t st)) < 0" "sleepers st = e # es" "n \<notin> set (e # es)"
    and "\<forall>x \<in> set (e # es). 0 \<le> sec_of (evs st) x" "0 \<le> sint (t_sec now)" "sint (t_sec now) < sec_of (evs st) e"
  shows "\<exists>st'. time_sleep_start (Some t) tid n st = (0, st') \<and> e_time (evs st' n) < now \<and>
    sleepers st' = sleepers st @ [n] \<and> alarm_wakeup now st' = st'"
proof -
  let ?t = "since_boot t st"
  have last: "ev_insert (t_sec ?t) ev n xs = xs @ [n]" if "\<forall>x \<in> set xs. 0 \<le> sint (t_sec (e_time (ev x)))" for ev xs
    using that
  proof (induction xs)
    case (Cons x xs)
    then have "\<not> t_sec ?t \<le> t_sec (e_time (ev x))"
      using assms(1) uint_lt2p [of "t_sec (e_time (ev x))"] by (auto simp: word_le_def sint_u32 split: if_splits)
    then show ?case using Cons by simp
  qed simp
  let ?ev = "(evs st)(n := \<lparr>e_tid = tid, e_time = ?t, e_sema = 0, e_onlist = True\<rparr>)"
  have l: "ev_insert (t_sec ?t) ?ev n (e # es) = (e # es) @ [n]"
    using assms(3,4) by (intro last) (auto simp: sec_of_def)
  have "?t < now" using assms(1,5) by (simp add: less_le time_le_iff) auto
  then show ?thesis using assms(2,3,6) l
    by (auto simp: time_sleep_start_def Let_def upd_ev_def alarm_wakeup_def sec_of_def)
qed

theorem past_alarm_waits_witness:
  "\<exists>st'. time_sleep_start (Some (demo_at 900)) 9 8 demo_asleep = (0, st') \<and> e_time (evs st' 8) < demo_at 7 \<and>
     sleepers st' = [6, 5, 8] \<and> alarm_wakeup (demo_at 7) st' = st'"
proof -
  have s: "sleepers demo_asleep = [6, 5]" "e_time (evs demo_asleep 5) = demo_at 20" "e_time (evs demo_asleep 6) = demo_at 10"
    "boot_time demo_asleep = demo_at 1000"
    by (simp_all add: demo_asleep_def demo_clk_def time_sleep_start_def since_boot_def Let_def upd_ev_def)
  then show ?thesis
    using past_alarm_waits [of "demo_at 900" demo_asleep 6 "[5]" 8 "demo_at 7" 9] by (simp add: since_boot_def sec_of_def)
qed

end
