(* ===== verification/Exit_Groups.thy ===== *)
theory Exit_Groups
  imports Vsta_Prelude "HOL-Library.Multiset"
begin

text \<open>
  Exit groups, \<open>os/kern/exitgrp.c\<close>: the children of a process share one with it, to which a child
  that exits posts a status and from which the parent collects them (\<open>waits\<close> of
  \<open>os/kern/proc.c\<close>).

  The statuses, linked through \<open>e_next\<close>, are a list, latest first; the semaphore of the group is
  its count.  Each function is as many steps as it has sections under \<open>e_lock\<close>, plus the
  operations on the semaphore outside of them.  Freed storage is told by \<open>eg_live\<close>; a failing
  assertion is \<open>None\<close>.
\<close>

record exitst =
  e_pid :: u32
  e_code :: u32
  e_usr :: u32
  e_sys :: u32
  e_event :: string

record exitgrp =
  e_parent :: addr
  e_sema :: int
  e_stat :: "exitst list"
  e_refs :: u32
  eg_live :: bool

text \<open>The members of the exiting process that go into its status.\<close>

record xproc =
  x_pid :: u32
  x_usr :: u32
  x_sys :: u32
  x_event :: string

definition parent_exitgrp :: "(addr \<Rightarrow> u32) \<Rightarrow> exitgrp \<Rightarrow> u32" where
  "parent_exitgrp pid_of e = (if e_parent e \<noteq> 0 then pid_of (e_parent e) else - 1)"

definition alloc_exitgrp :: "addr \<Rightarrow> exitgrp" where
  "alloc_exitgrp parent = \<lparr>e_parent = parent, e_sema = 0, e_stat = [],
     e_refs = (if parent \<noteq> 0 then 1 else 0), eg_live = True\<rparr>"

definition ref_exitgrp :: "exitgrp \<Rightarrow> exitgrp option" where
  "ref_exitgrp e = (let e' = e\<lparr>e_refs := e_refs e + 1\<rparr> in if 0 < e_refs e' then Some e' else None)"

definition deref_exitgrp :: "exitgrp \<Rightarrow> exitgrp option" where
  "deref_exitgrp e =
     (if \<not> 0 < e_refs e then None
      else
        let e' = e\<lparr>e_refs := e_refs e - 1\<rparr> in
        if 0 < e_refs e' then Some e'
        else if e_parent e' \<noteq> 0 \<or> e_stat e' \<noteq> [] then None
        else Some (e'\<lparr>eg_live := False\<rparr>))"

definition noparent_start :: "exitgrp \<Rightarrow> exitgrp option" where
  "noparent_start e = (if e_parent e = 0 then None else Some (e\<lparr>e_parent := 0, e_stat := []\<rparr>))"

definition noparent_exitgrp :: "exitgrp \<Rightarrow> exitgrp option" where
  "noparent_exitgrp e = Option.bind (noparent_start e) deref_exitgrp"

text \<open>
  \<open>post_exitgrp\<close>: the look without the lock, the status, and the section that queues it unless the
  parent has gone meanwhile.
\<close>

definition post_status :: "xproc \<Rightarrow> u32 \<Rightarrow> exitst" where
  "post_status p code = \<lparr>e_pid = x_pid p, e_code = code, e_usr = x_usr p, e_sys = x_sys p, e_event = x_event p\<rparr>"

definition post_queue :: "exitst \<Rightarrow> exitgrp \<Rightarrow> exitgrp" where
  "post_queue es e =
     (if e_parent e \<noteq> 0 then e\<lparr>e_stat := es # e_stat e, e_sema := e_sema e + 1\<rparr> else e)"

definition post_exitgrp :: "exitgrp \<Rightarrow> xproc \<Rightarrow> u32 \<Rightarrow> exitgrp" where
  "post_exitgrp e p code = (if e_parent e = 0 then e else post_queue (post_status p code) e)"

text \<open>
  \<open>wait_exitgrp\<close>: the first section ends with a status taken, with nothing to wait for, or with
  the thread on its way to sleep; then come \<open>p_sema\<close> for a status taken, or the section after
  the sleep.
\<close>

datatype wres = WTake exitst | WNone | WSleep

definition wait_start :: "bool \<Rightarrow> exitgrp \<Rightarrow> (wres \<times> exitgrp) option" where
  "wait_start block e =
     (if e_parent e = 0 then None
      else case e_stat e of
        es # rest \<Rightarrow> Some (WTake es, e\<lparr>e_stat := rest\<rparr>)
      | [] \<Rightarrow>
          if e_refs e = 1 \<or> \<not> block then Some (WNone, e)
          else Some (WSleep, e\<lparr>e_sema := e_sema e - 1\<rparr>))"

definition wait_sema :: "exitgrp \<Rightarrow> exitgrp" where
  "wait_sema e = e\<lparr>e_sema := e_sema e - 1\<rparr>"

definition wait_woken :: "exitgrp \<Rightarrow> (exitst \<times> exitgrp) option" where
  "wait_woken e = (case e_stat e of [] \<Rightarrow> None | es # rest \<Rightarrow> Some (es, e\<lparr>e_stat := rest\<rparr>))"

text \<open>
  \<open>wait_exitgrp\<close> as a whole, for a caller that finds the semaphore as it should be: \<open>sleep\<close> is
  what the rest of the system does to the group while the thread sleeps.
\<close>

definition wait_exitgrp :: "(exitgrp \<Rightarrow> exitgrp) \<Rightarrow> bool \<Rightarrow> exitgrp \<Rightarrow> (exitst option \<times> exitgrp) option" where
  "wait_exitgrp sleep block e =
     (case wait_start block e of
        None \<Rightarrow> None
      | Some (WTake es, e1) \<Rightarrow> Some (Some es, wait_sema e1)
      | Some (WNone, e1) \<Rightarrow> Some (None, e1)
      | Some (WSleep, e1) \<Rightarrow> map_option (\<lambda>(es, e2). (Some es, e2)) (wait_woken (sleep e1)))"

text \<open>
  The system call: it returns the exit code.  \<open>w\<close> tells whether the caller wants the status,
  \<open>copied\<close> whether \<open>copyout\<close> succeeds; the second component is the status copied, the last tells
  whether its storage is freed.
\<close>

definition waits :: "(exitgrp \<Rightarrow> exitgrp) \<Rightarrow> bool \<Rightarrow> bool \<Rightarrow> bool \<Rightarrow> exitgrp \<Rightarrow>
    (u32 syscall \<times> exitst option \<times> exitgrp \<times> bool) option" where
  "waits sleep w copied block e =
     (case wait_exitgrp sleep block e of
        None \<Rightarrow> None
      | Some (None, e1) \<Rightarrow> Some (Inl ESRCH, None, e1, True)
      | Some (Some es, e1) \<Rightarrow>
          if w \<and> \<not> copied then Some (Inl EFAULT, None, e1, False)
          else Some (Inr (e_code es), if w then Some es else None, e1, True))"

section \<open>A family\<close>

text \<open>
  One group with its parent and children, in any interleaving of their steps.  \<open>kids\<close> are the
  children that have not posted their status, \<open>leaving\<close> those between \<open>post_exitgrp\<close> and
  \<open>deref_exitgrp\<close> of \<open>do_exit\<close>; \<open>wp\<close> is what the one thread of the parent that calls
  \<open>wait_exitgrp\<close> is at, \<open>pp\<close> how far the exit of the parent is; \<open>taken\<close> are the statuses collected.
\<close>

datatype wphase = Idle | Took exitst | Asleep
datatype pphase = Alive | Detached | Gone

record family =
  grp :: exitgrp
  kids :: "addr set"
  leaving :: "addr set"
  wp :: wphase
  pp :: pphase
  posted :: "exitst list"
  taken :: "exitst list"

inductive fam_step :: "family \<Rightarrow> family \<Rightarrow> bool" where
  fork: "pp f = Alive \<Longrightarrow> c \<notin> kids f \<union> leaving f \<Longrightarrow> ref_exitgrp (grp f) = Some g \<Longrightarrow>
    fam_step f (f\<lparr>grp := g, kids := insert c (kids f)\<rparr>)"
| post: "c \<in> kids f \<Longrightarrow>
    fam_step f (f\<lparr>grp := post_exitgrp (grp f) p code, kids := kids f - {c}, leaving := insert c (leaving f),
      posted := (if e_parent (grp f) \<noteq> 0 then post_status p code # posted f else posted f)\<rparr>)"
| leave: "c \<in> leaving f \<Longrightarrow> deref_exitgrp (grp f) = Some g \<Longrightarrow>
    fam_step f (f\<lparr>grp := g, leaving := leaving f - {c}\<rparr>)"
| wait_take: "pp f = Alive \<Longrightarrow> wp f = Idle \<Longrightarrow> wait_start block (grp f) = Some (WTake es, g) \<Longrightarrow>
    fam_step f (f\<lparr>grp := g, wp := Took es\<rparr>)"
| wait_none: "pp f = Alive \<Longrightarrow> wp f = Idle \<Longrightarrow> wait_start block (grp f) = Some (WNone, g) \<Longrightarrow>
    fam_step f (f\<lparr>grp := g\<rparr>)"
| wait_sleep: "pp f = Alive \<Longrightarrow> wp f = Idle \<Longrightarrow> wait_start block (grp f) = Some (WSleep, g) \<Longrightarrow>
    fam_step f (f\<lparr>grp := g, wp := Asleep\<rparr>)"
| wait_taken: "wp f = Took es \<Longrightarrow> 0 < e_sema (grp f) \<Longrightarrow>
    fam_step f (f\<lparr>grp := wait_sema (grp f), wp := Idle, taken := es # taken f\<rparr>)"
| woken: "wp f = Asleep \<Longrightarrow> 0 \<le> e_sema (grp f) \<Longrightarrow> wait_woken (grp f) = Some (es, g) \<Longrightarrow>
    fam_step f (f\<lparr>grp := g, wp := Idle, taken := es # taken f\<rparr>)"
| interrupted: "wp f = Asleep \<Longrightarrow> e_sema (grp f) < 0 \<Longrightarrow>
    fam_step f (f\<lparr>grp := (grp f)\<lparr>e_sema := e_sema (grp f) + 1\<rparr>, wp := Idle\<rparr>)"
| detach: "pp f = Alive \<Longrightarrow> wp f = Idle \<Longrightarrow> noparent_start (grp f) = Some g \<Longrightarrow>
    fam_step f (f\<lparr>grp := g, pp := Detached\<rparr>)"
| depart: "pp f = Detached \<Longrightarrow> deref_exitgrp (grp f) = Some g \<Longrightarrow> fam_step f (f\<lparr>grp := g, pp := Gone\<rparr>)"

inductive fam_reach :: "family \<Rightarrow> family \<Rightarrow> bool" for f where
  start: "fam_reach f f"
| step: "fam_reach f g \<Longrightarrow> fam_step g h \<Longrightarrow> fam_reach f h"

section \<open>The invariant\<close>

definition in_hand :: "wphase \<Rightarrow> exitst multiset" where
  "in_hand w = (case w of Took es \<Rightarrow> {#es#} | _ \<Rightarrow> {#})"

definition awaited :: "wphase \<Rightarrow> int" where
  "awaited w = (case w of Idle \<Rightarrow> 0 | Took es \<Rightarrow> 1 | Asleep \<Rightarrow> - 1)"

definition refs_ok :: "family \<Rightarrow> bool" where
  "refs_ok f = (finite (kids f) \<and> finite (leaving f) \<and> kids f \<inter> leaving f = {} \<and>
     unat (e_refs (grp f)) = card (kids f) + card (leaving f) + (if pp f = Gone then 0 else 1) \<and>
     eg_live (grp f) = (e_refs (grp f) \<noteq> 0))"

definition wait_ok :: "family \<Rightarrow> bool" where
  "wait_ok f = ((pp f = Alive) = (e_parent (grp f) \<noteq> 0) \<and>
     (if pp f = Alive then
        e_sema (grp f) = int (length (e_stat (grp f))) + awaited (wp f) \<and>
        mset (posted f) = mset (e_stat (grp f)) + mset (taken f) + in_hand (wp f)
      else e_stat (grp f) = [] \<and> wp f = Idle))"

lemmas family_defs = refs_ok_def wait_ok_def in_hand_def awaited_def

lemma unat_ref: "0 < (x :: u32) + 1 \<Longrightarrow> unat (x + 1) = Suc (unat x)"
  using unatSuc [of x] by (auto simp: add.commute)

lemma unat_deref: "0 < (x :: u32) \<Longrightarrow> unat x = Suc (unat (x - 1))"
  by (metis Suc_pred' unat_gt_0 unat_minus_one word_neq_0_conv)

lemma ref_exitgrp_eff:
  "ref_exitgrp e = Some e' \<Longrightarrow> e' = e\<lparr>e_refs := e_refs e + 1\<rparr> \<and> unat (e_refs e') = Suc (unat (e_refs e))"
  using unat_ref [of "e_refs e"] by (auto simp: ref_exitgrp_def Let_def split: if_splits)

lemma deref_exitgrp_eff:
  "deref_exitgrp e = Some e' \<Longrightarrow> e_refs e' = e_refs e - 1 \<and> unat (e_refs e) = Suc (unat (e_refs e')) \<and>
     e_parent e' = e_parent e \<and> e_stat e' = e_stat e \<and> e_sema e' = e_sema e \<and>
     eg_live e' = (eg_live e \<and> e_refs e' \<noteq> 0)"
  using unat_deref [of "e_refs e"] by (auto simp: deref_exitgrp_def Let_def word_gt_0 split: if_splits)

lemma post_exitgrp_eff:
  "e_refs (post_exitgrp e p code) = e_refs e" "eg_live (post_exitgrp e p code) = eg_live e"
  "e_parent (post_exitgrp e p code) = e_parent e"
  "e_stat (post_exitgrp e p code) = (if e_parent e = 0 then e_stat e else post_status p code # e_stat e)"
  "e_sema (post_exitgrp e p code) = (if e_parent e = 0 then e_sema e else e_sema e + 1)"
  by (simp_all add: post_exitgrp_def post_queue_def)

lemma wait_start_eff:
  "wait_start block e = Some (WTake es, g) \<Longrightarrow> e_stat e = es # e_stat g \<and> g = e\<lparr>e_stat := e_stat g\<rparr>"
  "wait_start block e = Some (WNone, g) \<Longrightarrow> g = e"
  "wait_start block e = Some (WSleep, g) \<Longrightarrow> g = e\<lparr>e_sema := e_sema e - 1\<rparr> \<and> e_stat e = [] \<and> e_refs e \<noteq> 1"
  by (auto simp: wait_start_def split: if_splits list.splits)

lemma refs_ok_step: "fam_step f g \<Longrightarrow> refs_ok f \<Longrightarrow> refs_ok g"
proof (induction rule: fam_step.induct)
  case (fork f c g)
  then show ?case using ref_exitgrp_eff [of "grp f" g]
    by (auto simp: refs_ok_def unat_eq_zero [symmetric] simp del: unat_eq_zero)
next
  case (post c f p code)
  then have "card (kids f) = Suc (card (kids f - {c}))" by (metis card_Suc_Diff1 refs_ok_def)
  moreover have "card (insert c (leaving f)) = Suc (card (leaving f))"
    using post by (intro card_insert_disjoint) (auto simp: refs_ok_def)
  ultimately show ?case using post by (auto simp: refs_ok_def post_exitgrp_eff)
next
  case (leave c f g)
  then have "card (leaving f) = Suc (card (leaving f - {c}))" by (metis card_Suc_Diff1 refs_ok_def)
  then show ?case using leave deref_exitgrp_eff [of "grp f" g] by (auto simp: refs_ok_def)
next
  case (wait_take f block es g)
  then show ?case using wait_start_eff(1) [of block "grp f" es g] by (cases g) (auto simp: refs_ok_def)
next
  case (woken f es g)
  then show ?case by (auto simp: refs_ok_def wait_woken_def split: list.splits)
next
  case (detach f g)
  then show ?case by (auto simp: refs_ok_def noparent_start_def split: if_splits)
next
  case (depart f g)
  then show ?case using deref_exitgrp_eff [of "grp f" g] by (auto simp: refs_ok_def)
qed (auto simp: refs_ok_def wait_sema_def dest: wait_start_eff)

lemma wait_ok_step: "fam_step f g \<Longrightarrow> wait_ok f \<Longrightarrow> wait_ok g"
proof (induction rule: fam_step.induct)
  case (fork f c g)
  then show ?case using ref_exitgrp_eff [of "grp f" g] by (auto simp: wait_ok_def)
next
  case (leave c f g)
  then show ?case using deref_exitgrp_eff [of "grp f" g] by (auto simp: wait_ok_def)
next
  case (wait_take f block es g)
  then show ?case using wait_start_eff(1) [of block "grp f" es g]
    by (cases g) (auto simp: family_defs)
next
  case (woken f es g)
  then show ?case by (auto simp: family_defs wait_woken_def split: list.splits)
next
  case (detach f g)
  then show ?case by (auto simp: family_defs noparent_start_def split: if_splits)
next
  case (depart f g)
  then show ?case using deref_exitgrp_eff [of "grp f" g] by (auto simp: wait_ok_def)
qed (auto simp: family_defs wait_sema_def post_exitgrp_eff dest: wait_start_eff)

definition new_family :: "addr \<Rightarrow> family" where
  "new_family p = \<lparr>grp = alloc_exitgrp p, kids = {}, leaving = {}, wp = Idle, pp = Alive, posted = [], taken = []\<rparr>"

lemma family_reach: "fam_reach f g \<Longrightarrow> refs_ok f \<Longrightarrow> wait_ok f \<Longrightarrow> refs_ok g \<and> wait_ok g"
  by (induction rule: fam_reach.induct) (auto intro: refs_ok_step wait_ok_step)

lemma new_family_ok: "p \<noteq> 0 \<Longrightarrow> refs_ok (new_family p) \<and> wait_ok (new_family p)"
  by (simp add: new_family_def alloc_exitgrp_def family_defs)

lemma deref_enabled:
  assumes "refs_ok f" "wait_ok f" "leaving f \<noteq> {} \<or> pp f = Detached"
  shows "\<exists>g. deref_exitgrp (grp f) = Some g"
proof -
  have u: "unat (e_refs (grp f)) = card (kids f) + card (leaving f) + (if pp f = Gone then 0 else 1)"
    and fin: "finite (kids f)" "finite (leaving f)" using assms(1) by (auto simp: refs_ok_def)
  have "0 < unat (e_refs (grp f))" using u fin assms(3) by (auto simp: card_gt_0_iff)
  then have r: "0 < e_refs (grp f)" by (simp add: word_gt_0 unat_gt_0)
  have "e_refs (grp f) - 1 \<noteq> 0" if "e_parent (grp f) \<noteq> 0 \<or> e_stat (grp f) \<noteq> []"
  proof -
    have "pp f = Alive" using that assms(2) by (auto simp: wait_ok_def split: if_splits)
    then have "Suc 0 < unat (e_refs (grp f))" using u fin assms(3) by (auto simp: card_gt_0_iff)
    then show ?thesis using unat_deref [OF r] by auto
  qed
  then show ?thesis using r by (auto simp: deref_exitgrp_def Let_def word_gt_0)
qed

lemma ref_exitgrp_overflow: "ref_exitgrp e = None \<longleftrightarrow> unat (e_refs e) = 2 ^ 32 - 1"
proof -
  have "ref_exitgrp e = None \<longleftrightarrow> e_refs e + 1 = 0" by (auto simp: ref_exitgrp_def Let_def word_gt_0)
  also have "\<dots> \<longleftrightarrow> e_refs e = - 1" by (metis add.commute add_eq_0_iff)
  also have "\<dots> \<longleftrightarrow> unat (e_refs e) = unat (- 1 :: u32)" by (rule word_unat_eq_iff)
  also have "unat (- 1 :: u32) = 2 ^ 32 - 1" by (simp add: unsigned_minus_1_eq_mask mask_eq_exp_minus_1)
  finally show ?thesis .
qed

section \<open>The theorems\<close>

text \<open>
  C20. A family whose parent waits with one thread at a time: in every interleaving of forks, exits,
  waits and the exit of the parent no assertion of the exit group fails but that of
  \<open>ref_exitgrp\<close>, and that one exactly when the 32-bit count of references wraps round; the group
  is freed with its last reference and not before, each status posted is collected once or
  still in the list, and the parent never blocks on the semaphore for a status it has taken.
  (With two threads in \<open>waits\<close> an assertion does fail: \<open>two_waiters_panic\<close>.)
\<close>

theorem exit_group_safe:
  assumes "fam_reach (new_family p) f" "p \<noteq> 0"
  shows "(eg_live (grp f) \<longleftrightarrow> kids f \<noteq> {} \<or> leaving f \<noteq> {} \<or> pp f \<noteq> Gone) \<and>
    (leaving f \<noteq> {} \<or> pp f = Detached \<longrightarrow> deref_exitgrp (grp f) \<noteq> None) \<and>
    (pp f = Alive \<longrightarrow> noparent_start (grp f) \<noteq> None \<and> wait_start block (grp f) \<noteq> None \<and>
       mset (posted f) = mset (e_stat (grp f)) + mset (taken f) + in_hand (wp f)) \<and>
    (wp f = Asleep \<and> 0 \<le> e_sema (grp f) \<longrightarrow> wait_woken (grp f) \<noteq> None) \<and>
    (wp f = Took es \<longrightarrow> 0 < e_sema (grp f)) \<and>
    (ref_exitgrp (grp f) = None \<longleftrightarrow>
       card (kids f) + card (leaving f) + (if pp f = Gone then 0 else 1) = 2 ^ 32 - 1)"
proof -
  have r: "refs_ok f" and w: "wait_ok f" using family_reach [OF assms(1)] new_family_ok [OF assms(2)] by auto
  have "(unat (e_refs (grp f)) \<noteq> 0) = (kids f \<noteq> {} \<or> leaving f \<noteq> {} \<or> pp f \<noteq> Gone)"
    using r by (auto simp: refs_ok_def)
  then have "eg_live (grp f) \<longleftrightarrow> kids f \<noteq> {} \<or> leaving f \<noteq> {} \<or> pp f \<noteq> Gone"
    using r by (simp add: refs_ok_def unat_eq_zero)
  moreover have "leaving f \<noteq> {} \<or> pp f = Detached \<longrightarrow> deref_exitgrp (grp f) \<noteq> None"
    using deref_enabled [OF r w] by auto
  moreover have "pp f = Alive \<longrightarrow> noparent_start (grp f) \<noteq> None \<and> wait_start block (grp f) \<noteq> None \<and>
       mset (posted f) = mset (e_stat (grp f)) + mset (taken f) + in_hand (wp f)"
    using w by (auto simp: wait_ok_def noparent_start_def wait_start_def split: list.splits)
  moreover have "pp f = Alive" if "wp f \<noteq> Idle" using that w by (auto simp: wait_ok_def split: if_splits)
  moreover have "wp f = Asleep \<and> 0 \<le> e_sema (grp f) \<longrightarrow> wait_woken (grp f) \<noteq> None"
    using w calculation(4) by (auto simp: wait_ok_def awaited_def wait_woken_def split: list.splits)
  moreover have "wp f = Took es \<longrightarrow> 0 < e_sema (grp f)"
    using w calculation(4) by (auto simp: wait_ok_def awaited_def)
  moreover have "ref_exitgrp (grp f) = None \<longleftrightarrow>
      card (kids f) + card (leaving f) + (if pp f = Gone then 0 else 1) = 2 ^ 32 - 1"
    using r ref_exitgrp_overflow [of "grp f"] by (simp add: refs_ok_def)
  ultimately show ?thesis by blast
qed

definition demo_x :: xproc where
  "demo_x = \<lparr>x_pid = 30, x_usr = 0, x_sys = 0, x_event = []\<rparr>"

text \<open>A process forks child \<open>c\<close>, which exits with \<open>code\<close>; then the status is taken.\<close>

lemma demo_family:
  assumes "p \<noteq> 0"
  shows "\<exists>f. fam_reach (new_family p) f \<and> kids f = {} \<and> leaving f = {c} \<and> wp f = Took (post_status x code) \<and>
    pp f = Alive \<and> grp f = \<lparr>e_parent = p, e_sema = 1, e_stat = [], e_refs = 2, eg_live = True\<rparr> \<and> taken f = [] \<and>
    posted f = [post_status x code]"
proof -
  let ?f = "new_family p"
  let ?f1 = "?f\<lparr>grp := (grp ?f)\<lparr>e_refs := 2\<rparr>, kids := insert c (kids ?f)\<rparr>"
  have s1: "fam_step ?f ?f1"
    using assms by (intro fam_step.fork) (simp_all add: new_family_def ref_exitgrp_def alloc_exitgrp_def)
  obtain f2 where s2: "fam_step ?f1 f2" and f2: "grp f2 = post_exitgrp (grp ?f1) x code" "kids f2 = {}" "leaving f2 = {c}"
      "wp f2 = Idle" "pp f2 = Alive" "taken f2 = []" "posted f2 = [post_status x code]"
    using fam_step.post [of c ?f1 x code] assms by (force simp: new_family_def alloc_exitgrp_def)
  have g: "grp f2 = \<lparr>e_parent = p, e_sema = 1, e_stat = [post_status x code], e_refs = 2, eg_live = True\<rparr>"
    using assms f2(1) by (simp add: new_family_def alloc_exitgrp_def post_exitgrp_def post_queue_def)
  let ?f3 = "f2\<lparr>grp := (grp f2)\<lparr>e_stat := []\<rparr>, wp := Took (post_status x code)\<rparr>"
  have s3: "fam_step f2 ?f3"
    by (rule fam_step.wait_take [where block = True]) (use assms f2(4,5) g in \<open>simp_all add: wait_start_def\<close>)
  have "fam_reach (new_family p) ?f3"
    by (rule fam_reach.step [OF fam_reach.step [OF fam_reach.step [OF fam_reach.start s1] s2] s3])
  moreover have "grp ?f3 = \<lparr>e_parent = p, e_sema = 1, e_stat = [], e_refs = 2, eg_live = True\<rparr>" by (simp add: g)
  ultimately show ?thesis using f2(2-7) by (intro exI [of _ ?f3] conjI) simp_all
qed

theorem exit_group_safe_witness:
  "\<exists>f :: family. kids f = {} \<and> leaving f = {7} \<and> eg_live (grp f) \<and> deref_exitgrp (grp f) \<noteq> None \<and> 0 < e_sema (grp f) \<and>
     wp f = Took (post_status demo_x 5)"
proof -
  let ?es = "post_status demo_x 5"
  obtain f where f: "fam_reach (new_family 9) f" "kids f = {}" "leaving f = {7}" "wp f = Took ?es" "pp f = Alive"
    using demo_family [of 9 7] by (metis zero_neq_numeral)
  then show ?thesis using exit_group_safe [OF f(1), where es = ?es and block = True] by (auto intro!: exI [of _ f])
qed

lemma asleep_steps:
  assumes "fam_step f g" "wp f = Asleep" "e_sema (grp f) < 0" "kids f = {}" "leaving f = {}" "pp f = Alive"
  shows "(\<exists>c. kids g = {c} \<and> wp g = Asleep) \<or> (wp g = Idle \<and> taken g = taken f)"
  using assms by (cases rule: fam_step.cases) auto

text \<open>
  C32. A parent can sleep in \<open>waits\<close> with nobody left to wake it: between the status and the
  reference that a child drops, the parent that has just collected the status of its last
  child still sees two references and goes to sleep; the reference dropped does not wake it.
  From then on the family can make no step at all, but for another thread of the parent that
  forks a new child, or the interruption of the sleep, which returns with no status.
\<close>

theorem parent_sleeps_forever:
  assumes "p \<noteq> 0"
  shows "\<exists>f. fam_reach (new_family p) f \<and> taken f = [post_status x code] \<and> wp f = Asleep \<and> e_sema (grp f) < 0 \<and>
    kids f = {} \<and> leaving f = {} \<and> e_refs (grp f) = 1 \<and>
    (\<forall>g. fam_step f g \<longrightarrow> (\<exists>c. kids g = {c} \<and> wp g = Asleep) \<or> (wp g = Idle \<and> taken g = taken f))"
proof -
  obtain f where f: "fam_reach (new_family p) f" "kids f = {}" "leaving f = {1}" "wp f = Took (post_status x code)"
    "pp f = Alive" "grp f = \<lparr>e_parent = p, e_sema = 1, e_stat = [], e_refs = 2, eg_live = True\<rparr>" "taken f = []"
    using demo_family [OF assms, of 1 x code] by blast
  define f1 where "f1 = f\<lparr>grp := wait_sema (grp f), wp := Idle, taken := [post_status x code]\<rparr>"
  define f2 where "f2 = f1\<lparr>grp := (grp f1)\<lparr>e_sema := - 1\<rparr>, wp := Asleep\<rparr>"
  define f3 where "f3 = f2\<lparr>grp := (grp f2)\<lparr>e_refs := 1\<rparr>, leaving := {}\<rparr>"
  have s1: "fam_step f f1" using fam_step.wait_taken [OF f(4)] f by (simp add: f1_def)
  have "wait_start True (grp f1) = Some (WSleep, (grp f1)\<lparr>e_sema := - 1\<rparr>)"
    using f assms by (simp add: f1_def wait_sema_def wait_start_def)
  then have s2: "fam_step f1 f2" unfolding f2_def using f by (intro fam_step.wait_sleep) (simp_all add: f1_def)
  have "deref_exitgrp (grp f2) = Some ((grp f2)\<lparr>e_refs := 1\<rparr>)"
    using f by (simp add: f2_def f1_def wait_sema_def deref_exitgrp_def)
  then have s3: "fam_step f2 f3" using fam_step.leave [of 1 f2] f by (simp add: f3_def f2_def f1_def)
  have "fam_reach (new_family p) f3" by (rule fam_reach.step [OF fam_reach.step [OF fam_reach.step [OF f(1) s1] s2] s3])
  moreover have a: "wp f3 = Asleep" "e_sema (grp f3) < 0" "kids f3 = {}" "leaving f3 = {}" "e_refs (grp f3) = 1"
      "pp f3 = Alive" "taken f3 = [post_status x code]"
    using f by (simp_all add: f3_def f2_def f1_def wait_sema_def)
  moreover have "(\<exists>c. kids g = {c} \<and> wp g = Asleep) \<or> (wp g = Idle \<and> taken g = taken f3)" if "fam_step f3 g" for g
    using asleep_steps [OF that a(1-4,6)] .
  ultimately show ?thesis by blast
qed

theorem parent_sleeps_forever_witness:
  "\<exists>f. fam_reach (new_family 9) f \<and> wp f = Asleep \<and> kids f = {} \<and> leaving f = {}"
  using parent_sleeps_forever [of 9 "demo_x" 5] by auto

text \<open>
  Two threads of the parent in \<open>waits\<close> can stop the kernel: a status is taken off the list
  before the semaphore is, so a second thread that comes in between finds the list empty and
  the semaphore free, does not sleep, and fails the assertion that a status is there.
\<close>

theorem two_waiters_panic:
  assumes "e_parent e \<noteq> 0" "e_stat e = []" "e_refs e \<noteq> 1" "e_sema e = 0"
  shows "\<exists>e1 e2. wait_start b (post_exitgrp e x code) = Some (WTake (post_status x code), e1) \<and>
    wait_start True e1 = Some (WSleep, e2) \<and> 0 \<le> e_sema e2 \<and> wait_woken e2 = None"
  using assms by (simp add: wait_start_def post_exitgrp_def post_queue_def wait_woken_def)

theorem two_waiters_panic_witness:
  "\<exists>e1 e2. wait_start False (post_exitgrp ((alloc_exitgrp 9)\<lparr>e_refs := 2\<rparr>) demo_x 5) =
      Some (WTake (post_status demo_x 5), e1) \<and>
    wait_start True e1 = Some (WSleep, e2) \<and> wait_woken e2 = None"
  using two_waiters_panic [of "(alloc_exitgrp 9)\<lparr>e_refs := 2\<rparr>" False "demo_x" 5]
  by (auto simp: alloc_exitgrp_def)

end
