(* ===== verification/Resource_Map.thy ===== *)
theory Resource_Map
  imports Vsta_Prelude
begin

text \<open>
  Resource maps, \<open>libc/rmap.c\<close>: the allocator of ranges that the kernel uses for utility
  virtual memory (\<open>vmap\<close>) and for the address space of a process (\<open>h_map\<close>), and the swap
  server for swap blocks (\<open>smap\<close>).

  A map is an array of \<open>struct rmap\<close>, modelled as the list of its elements; element 0 is the
  header, whose \<open>r_off\<close> counts the elements in use and whose \<open>r_size\<close> is the number given to
  \<open>rmap_init()\<close>.  The pointers \<open>r\<close> and \<open>rlim\<close> of the code are indices into the array.  A write
  past the end of the array, undefined in C, is the result \<open>None\<close>.  \<open>bcopy()\<close> moves
  overlapping elements correctly.
\<close>

record rmap =
  r_off :: u32
  r_size :: u32

section \<open>The array operations\<close>

definition rmap_init :: "rmap list \<Rightarrow> u32 \<Rightarrow> rmap list" where
  "rmap_init r sz = r[0 := \<lparr>r_off = 0, r_size = sz\<rparr>]"

text \<open>\<open>bcopy(r+1, r, sizeof(struct rmap)*(rlim-r))\<close>: the elements above \<open>r\<close> move down by one.\<close>

definition move_down :: "rmap list \<Rightarrow> nat \<Rightarrow> nat \<Rightarrow> rmap list" where
  "move_down m r rlim = take r m @ take (rlim - r) (drop (Suc r) m) @ drop rlim m"

text \<open>\<open>bcopy(r, r+1, sizeof(struct rmap)*((rlim-r)+1))\<close>: the elements from \<open>r\<close> on move up.\<close>

definition move_up :: "rmap list \<Rightarrow> nat \<Rightarrow> nat \<Rightarrow> rmap list" where
  "move_up m r rlim = take (Suc r) m @ take (Suc rlim - r) (drop r m) @ drop (Suc (Suc rlim)) m"

function fit_loop :: "rmap list \<Rightarrow> u32 \<Rightarrow> nat \<Rightarrow> nat \<Rightarrow> nat" where
  "fit_loop m sz r rlim =
     (if rlim < r then r
      else if sz \<le> r_size (m ! r) then r
      else fit_loop m sz (Suc r) rlim)"
  by pat_completeness auto
termination by (relation "measure (\<lambda>(m, sz, r, rlim). Suc rlim - r)") auto

declare fit_loop.simps [simp del]

definition rmap_alloc :: "rmap list \<Rightarrow> u32 \<Rightarrow> u32 \<times> rmap list" where
  "rmap_alloc m sz =
     (let rlim = unat (r_off (m ! 0));
          r = fit_loop m sz 1 rlim
      in if rlim < r then (0, m)
         else let idx = r_off (m ! r) in
           if sz < r_size (m ! r) then
             (idx, m[r := \<lparr>r_off = r_off (m ! r) + sz, r_size = r_size (m ! r) - sz\<rparr>])
           else
             let m1 = m[0 := (m ! 0)\<lparr>r_off := r_off (m ! 0) - 1\<rparr>] in
             (idx, if r < rlim then move_down m1 r rlim else m1))"

text \<open>
  What \<open>rmap_free\<close> does after its loop: a new element at \<open>r\<close>, or the space is lost when the
  map is full.  The second component is what is added to \<open>lost_elems\<close>.
\<close>

definition rmap_insert ::
  "rmap list \<Rightarrow> u32 \<Rightarrow> u32 \<Rightarrow> nat \<Rightarrow> nat \<Rightarrow> (rmap list \<times> u32) option" where
  "rmap_insert m off sz r rlim =
     (if r_size (m ! 0) = r_off (m ! 0) then Some (m, sz)
      else
        let m1 = m[0 := (m ! 0)\<lparr>r_off := r_off (m ! 0) + 1\<rparr>] in
        if length m \<le> Suc rlim then None
        else if r \<le> rlim then
          Some ((move_up m1 r rlim)[r := \<lparr>r_off = off, r_size = sz\<rparr>], 0)
        else Some (m1[Suc rlim := \<lparr>r_off = off, r_size = sz\<rparr>], 0))"

function free_loop ::
  "rmap list \<Rightarrow> u32 \<Rightarrow> u32 \<Rightarrow> nat \<Rightarrow> nat \<Rightarrow> (rmap list \<times> u32) option" where
  "free_loop m off sz r rlim =
     (if rlim < r then rmap_insert m off sz r rlim
      else if r_off (m ! r) + r_size (m ! r) = off then
        let m1 = m[r := (m ! r)\<lparr>r_size := r_size (m ! r) + sz\<rparr>] in
        if r < rlim \<and> r_off (m1 ! r) + r_size (m1 ! r) = r_off (m1 ! Suc r) then
          let m2 = m1[r := (m1 ! r)\<lparr>r_size := r_size (m1 ! r) + r_size (m1 ! Suc r)\<rparr>];
              m3 = m2[0 := (m2 ! 0)\<lparr>r_off := r_off (m2 ! 0) - 1\<rparr>]
          in Some (if Suc r < rlim then move_down m3 (Suc r) rlim else m3, 0)
        else Some (m1, 0)
      else if off + sz = r_off (m ! r) then
        Some (m[r := \<lparr>r_off = off, r_size = r_size (m ! r) + sz\<rparr>], 0)
      else if off < r_off (m ! r) then rmap_insert m off sz r rlim
      else free_loop m off sz (Suc r) rlim)"
  by pat_completeness auto
termination by (relation "measure (\<lambda>(m, off, sz, r, rlim). Suc rlim - r)") auto

declare free_loop.simps [simp del]

definition rmap_free :: "rmap list \<Rightarrow> u32 \<Rightarrow> u32 \<Rightarrow> (rmap list \<times> u32) option" where
  "rmap_free m off sz = free_loop m off sz 1 (unat (r_off (m ! 0)))"

section \<open>The elements in use as a list\<close>

text \<open>
  The array holds the header, the elements in use in ascending order and then unused ones.
  The same operations on the list of elements in use are the reference the array code is
  proved against.
\<close>

definition rmap_arr :: "rmap list \<Rightarrow> rmap \<Rightarrow> rmap list \<Rightarrow> rmap list \<Rightarrow> bool" where
  "rmap_arr m h es rest = (m = h # es @ rest \<and> unat (r_off h) = length es)"

definition rmap_elems :: "rmap list \<Rightarrow> rmap list" where
  "rmap_elems m = take (unat (r_off (m ! 0))) (tl m)"

fun alloc_l :: "u32 \<Rightarrow> rmap list \<Rightarrow> (u32 \<times> rmap list) option" where
  "alloc_l sz [] = None"
| "alloc_l sz (e # es) =
     (if sz \<le> r_size e then
        Some (r_off e, if sz < r_size e
          then \<lparr>r_off = r_off e + sz, r_size = r_size e - sz\<rparr> # es else es)
      else map_option (\<lambda>(i, es'). (i, e # es')) (alloc_l sz es))"

fun free_l :: "u32 \<Rightarrow> u32 \<Rightarrow> rmap list \<Rightarrow> rmap list" where
  "free_l off sz [] = [\<lparr>r_off = off, r_size = sz\<rparr>]"
| "free_l off sz (e # es) =
     (if r_off e + r_size e = off then
        (let e' = e\<lparr>r_size := r_size e + sz\<rparr> in
         case es of
           [] \<Rightarrow> [e']
         | f # fs \<Rightarrow>
             if r_off e' + r_size e' = r_off f
             then e'\<lparr>r_size := r_size e' + r_size f\<rparr> # fs else e' # es)
      else if off + sz = r_off e then \<lparr>r_off = off, r_size = r_size e + sz\<rparr> # es
      else if off < r_off e then \<lparr>r_off = off, r_size = sz\<rparr> # e # es
      else e # free_l off sz es)"

text \<open>An insertion is needed when the freed range abuts no element.\<close>

fun needs_slot :: "u32 \<Rightarrow> u32 \<Rightarrow> rmap list \<Rightarrow> bool" where
  "needs_slot off sz [] = True"
| "needs_slot off sz (e # es) =
     (if r_off e + r_size e = off \<or> off + sz = r_off e then False
      else off < r_off e \<or> needs_slot off sz es)"

section \<open>The array code implements the list code\<close>

lemma rmap_arr_elems: "rmap_arr m h es rest \<Longrightarrow> rmap_elems m = es"
  by (auto simp: rmap_arr_def rmap_elems_def)

lemma rmap_arr_header: "rmap_arr m h es rest \<Longrightarrow> m ! 0 = h"
  by (auto simp: rmap_arr_def)

lemma fit_loop_closed:
  "fit_loop (pre @ es @ rest) sz (length pre) (length pre + length es - 1) =
     length pre + length (takeWhile (\<lambda>e. \<not> sz \<le> r_size e) es)"
  if "pre \<noteq> []"
  using that
proof (induction es arbitrary: pre)
  case Nil
  then show ?case by (subst fit_loop.simps) auto
next
  case (Cons e es)
  have "fit_loop ((pre @ [e]) @ es @ rest) sz (length (pre @ [e])) (length (pre @ [e]) + length es - 1) =
     length (pre @ [e]) + length (takeWhile (\<lambda>e. \<not> sz \<le> r_size e) es)"
    by (rule Cons.IH) simp
  then show ?case by (subst fit_loop.simps) auto
qed

lemma alloc_l_split:
  "alloc_l sz (as @ e # bs) =
     Some (r_off e, as @ (if sz < r_size e
        then \<lparr>r_off = r_off e + sz, r_size = r_size e - sz\<rparr> # bs else bs))"
  if "\<forall>a \<in> set as. \<not> sz \<le> r_size a" "sz \<le> r_size e"
  using that by (induction as) auto

lemma alloc_l_None: "(alloc_l sz es = None) = (\<forall>e \<in> set es. \<not> sz \<le> r_size e)"
  by (induction es) auto

lemma takeWhile_split:
  "\<forall>a \<in> set es. P a \<Longrightarrow> takeWhile P es = es"
  "\<not> (\<forall>a \<in> set es. P a) \<Longrightarrow> \<exists>as e bs. es = as @ e # bs \<and> (\<forall>a \<in> set as. P a) \<and> \<not> P e \<and> takeWhile P es = as"
proof -
  show "\<forall>a \<in> set es. P a \<Longrightarrow> takeWhile P es = es" by (simp add: takeWhile_eq_all_conv)
  assume "\<not> (\<forall>a \<in> set es. P a)"
  then obtain as e bs where "es = as @ e # bs" "\<not> P e" "\<forall>a \<in> set as. P a"
    using split_list_first_prop [of es "\<lambda>a. \<not> P a"] by auto
  then show "\<exists>as e bs. es = as @ e # bs \<and> (\<forall>a \<in> set as. P a) \<and> \<not> P e \<and> takeWhile P es = as"
    by (intro exI [of _ as] exI [of _ e] exI [of _ bs]) simp
qed

lemma rmap_alloc_list:
  assumes "rmap_arr m h es rest"
  shows "case alloc_l sz es of
     None \<Rightarrow> rmap_alloc m sz = (0, m)
   | Some (i, es') \<Rightarrow> \<exists>m' h' rest'. rmap_alloc m sz = (i, m') \<and> rmap_arr m' h' es' rest' \<and>
       r_size h' = r_size h \<and> length m' = length m"
proof -
  have m: "m = h # es @ rest" and n: "unat (r_off h) = length es"
    using assms by (auto simp: rmap_arr_def)
  have r: "fit_loop m sz 1 (length es) = Suc (length (takeWhile (\<lambda>e. \<not> sz \<le> r_size e) es))"
    using fit_loop_closed [of "[h]" es rest sz] m by simp
  show ?thesis
  proof (cases "\<forall>e \<in> set es. \<not> sz \<le> r_size e")
    case True
    then have "alloc_l sz es = None" by (simp add: alloc_l_None)
    moreover have "fit_loop m sz (Suc 0) (length es) = Suc (length es)"
      using r True by (simp add: takeWhile_split(1))
    ultimately show ?thesis using m n by (simp add: rmap_alloc_def)
  next
    case False
    then obtain as e bs where es: "es = as @ e # bs" and a: "\<forall>a \<in> set as. \<not> sz \<le> r_size a"
      and e: "sz \<le> r_size e" and tw: "takeWhile (\<lambda>e. \<not> sz \<le> r_size e) es = as"
      using takeWhile_split(2) [of es "\<lambda>e. \<not> sz \<le> r_size e"] by auto
    have r': "fit_loop m sz (Suc 0) (length es) = Suc (length as)" using r tw by simp
    have mr: "m ! Suc (length as) = e" using m es by simp
    have al: "alloc_l sz es = Some (r_off e, as @ (if sz < r_size e
        then \<lparr>r_off = r_off e + sz, r_size = r_size e - sz\<rparr> # bs else bs))"
      using alloc_l_split [OF a e] es by simp
    show ?thesis
    proof (cases "sz < r_size e")
      case True
      then show ?thesis using al r' mr m n es
        by (auto simp: rmap_alloc_def Let_def rmap_arr_def upd_simps)
    next
      case False
      have pos: "r_off h \<noteq> 0" using n es by auto
      then have d: "unat (r_off h - 1) = length as + length bs"
        using n es by (simp add: unat_minus_one)
      show ?thesis using False al r' mr m n es d
        by (auto simp: rmap_alloc_def Let_def rmap_arr_def move_down_def)
    qed
  qed
qed

lemma rmap_insert_found:
  assumes m: "m = h # ps @ es @ rest" and n: "unat (r_off h) = length ps + length es"
  shows "rmap_insert m off sz (Suc (length ps)) (length ps + length es) =
    (if r_size h = r_off h then Some (m, sz)
     else if rest = [] then None
     else Some (h\<lparr>r_off := r_off h + 1\<rparr> # ps @ \<lparr>r_off = off, r_size = sz\<rparr> # es @ tl rest, 0))"
proof (cases rest)
  case Nil
  then show ?thesis using m n by (simp add: rmap_insert_def)
next
  case (Cons x xs)
  show ?thesis
  proof (cases es)
    case Nil
    then show ?thesis using m n Cons
      by (simp add: rmap_insert_def Let_def list_update_append)
  next
    case es: (Cons e es')
    have "move_up (h\<lparr>r_off := r_off h + 1\<rparr> # ps @ es @ rest) (Suc (length ps)) (length ps + length es)
      = h\<lparr>r_off := r_off h + 1\<rparr> # ps @ e # es @ xs"
      using Cons es by (simp add: move_up_def)
    then show ?thesis using m n Cons es
      by (simp add: rmap_insert_def Let_def list_update_append)
  qed
qed

lemma free_loop_list:
  assumes "m = h # ps @ es @ rest" and "unat (r_off h) = length ps + length es"
  shows "if needs_slot off sz es then
      free_loop m off sz (Suc (length ps)) (length ps + length es) =
       (if r_size h = r_off h then Some (m, sz)
        else if rest = [] then None
        else Some (h\<lparr>r_off := r_off h + 1\<rparr> # ps @ free_l off sz es @ tl rest, 0))
    else (\<exists>h' rest'. free_loop m off sz (Suc (length ps)) (length ps + length es) =
       Some (h' # ps @ free_l off sz es @ rest', 0) \<and> r_size h' = r_size h \<and>
       unat (r_off h') = length ps + length (free_l off sz es) \<and>
       length (free_l off sz es @ rest') = length (es @ rest))"
  using assms
proof (induction es arbitrary: ps)
  case Nil
  then show ?case using rmap_insert_found [of m h ps "[]" rest off sz]
    by (subst free_loop.simps) simp
next
  case (Cons e es)
  have me: "m ! Suc (length ps) = e" using Cons.prems by simp
  consider (tail) "r_off e + r_size e = off"
    | (front) "r_off e + r_size e \<noteq> off" "off + sz = r_off e"
    | (ins) "r_off e + r_size e \<noteq> off" "off + sz \<noteq> r_off e" "off < r_off e"
    | (step) "r_off e + r_size e \<noteq> off" "off + sz \<noteq> r_off e" "\<not> off < r_off e" by blast
  then show ?case
  proof cases
    case tail
    show ?thesis
    proof (cases es)
      case Nil
      then show ?thesis using Cons.prems tail me
        by (subst free_loop.simps) (simp add: list_update_append Let_def)
    next
      case f: (Cons f fs)
      have mf: "m ! Suc (Suc (length ps)) = f" using Cons.prems f
        by (simp add: nth_append)
      have "r_off h \<noteq> 0" using Cons.prems(2) by auto
      then have d: "unat (r_off h - 1) = length ps + length es"
        using Cons.prems(2) by (simp add: unat_minus_one)
      have u: "m[Suc (length ps) := y] = h # ps @ y # es @ rest" for y
        using Cons.prems by (simp add: list_update_append)
      show ?thesis using Cons.prems(2) tail me f d
        by (subst free_loop.simps)
          (auto simp: u Let_def move_down_def nth_append list_update_append)
    qed
  next
    case front
    then show ?thesis using Cons.prems me
      by (subst free_loop.simps) (simp add: list_update_append)
  next
    case ins
    then show ?thesis using Cons.prems me rmap_insert_found [of m h ps "e # es" rest off sz]
      by (subst free_loop.simps) (auto)
  next
    case step
    have "free_loop m off sz (Suc (length ps)) (length ps + length (e # es)) =
      free_loop m off sz (Suc (length (ps @ [e]))) (length (ps @ [e]) + length es)"
      using step me by (subst free_loop.simps) simp
    then show ?thesis using step Cons.IH [of "ps @ [e]"] Cons.prems by (auto split: if_splits)
  qed
qed

lemma rmap_free_list:
  assumes "rmap_arr m h es rest"
  shows "if needs_slot off sz es then
      rmap_free m off sz =
       (if r_size h = r_off h then Some (m, sz)
        else if rest = [] then None
        else Some (h\<lparr>r_off := r_off h + 1\<rparr> # free_l off sz es @ tl rest, 0))
    else (\<exists>m' h' rest'. rmap_free m off sz = Some (m', 0) \<and>
       rmap_arr m' h' (free_l off sz es) rest' \<and> r_size h' = r_size h \<and> length m' = length m)"
  using assms free_loop_list [of m h "[]" es rest off sz]
  by (auto simp: rmap_free_def rmap_arr_def split: if_splits)

section \<open>The set of free units\<close>

text \<open>
  \<open>slots_ok\<close> is the order the map keeps: no empty element, no offset 0, no element that reaches
  past the end of the 32-bit range and, between two elements, at least one unit that is not
  free.  \<open>slots_set\<close> is the set of units the elements describe.
\<close>

fun slots_ok :: "nat \<Rightarrow> rmap list \<Rightarrow> bool" where
  "slots_ok lo [] = True"
| "slots_ok lo (e # es) =
     (lo < unat (r_off e) \<and> 0 < r_size e \<and> unat (r_off e) + unat (r_size e) < 2 ^ 32 \<and>
      slots_ok (unat (r_off e) + unat (r_size e)) es)"

definition units :: "u32 \<Rightarrow> u32 \<Rightarrow> nat set" where
  "units off sz = {unat off ..< unat off + unat sz}"

fun slots_set :: "rmap list \<Rightarrow> nat set" where
  "slots_set [] = {}"
| "slots_set (e # es) = units (r_off e) (r_size e) \<union> slots_set es"

lemma slots_set_append [simp]: "slots_set (as @ bs) = slots_set as \<union> slots_set bs"
  by (induction as) auto

lemma slots_ok_mono: "slots_ok lo es \<Longrightarrow> lo' \<le> lo \<Longrightarrow> slots_ok lo' es"
  by (cases es) auto

lemma slots_ok_lower: "slots_ok lo es \<Longrightarrow> x \<in> slots_set es \<Longrightarrow> lo < x"
  by (induction es arbitrary: lo) (fastforce simp: units_def)+

lemma slots_ok_lowerD: "slots_ok lo es \<Longrightarrow> x \<le> lo \<Longrightarrow> x \<notin> slots_set es"
  using slots_ok_lower by fastforce

lemma unat_pos: "0 < (a :: u32) \<Longrightarrow> 0 < unat a"
  by (simp add: unat_gt_0)

lemma units_nonempty: "0 < sz \<Longrightarrow> unat off \<in> units off sz"
  by (simp add: units_def unat_pos)

lemma alloc_l_slots_ok:
  "alloc_l sz es = Some (i, es') \<Longrightarrow> slots_ok lo es \<Longrightarrow> 0 < sz \<Longrightarrow> slots_ok lo es'"
proof (induction es arbitrary: lo es')
  case (Cons e es)
  show ?case
  proof (cases "sz \<le> r_size e")
    case fit: True
    show ?thesis
    proof (cases "sz < r_size e")
      case True
      then have "unat sz < unat (r_size e)" by (simp add: word_less_nat_alt)
      moreover have "unat (r_off e + sz) = unat (r_off e) + unat sz"
        by (rule unat_add_no_overflow) (use Cons.prems calculation in simp)
      moreover have "unat (r_size e - sz) = unat (r_size e) - unat sz"
        by (rule unat_sub_le) (use True in simp)
      ultimately show ?thesis using Cons.prems True fit by (auto simp: word_less_nat_alt)
    next
      case False
      then show ?thesis using Cons.prems fit by (auto elim: slots_ok_mono)
    qed
  next
    case False
    then show ?thesis using Cons by auto
  qed
qed simp

lemma alloc_l_units:
  "alloc_l sz es = Some (i, es') \<Longrightarrow> slots_ok lo es \<Longrightarrow> 0 < sz \<Longrightarrow>
     lo < unat i \<and> units i sz \<subseteq> slots_set es \<and> slots_set es' = slots_set es - units i sz"
proof (induction es arbitrary: lo es')
  case (Cons e es)
  have above: "slots_set es \<inter> {x. x \<le> unat (r_off e) + unat (r_size e)} = {}"
    using Cons.prems(2) slots_ok_lower by fastforce
  show ?case
  proof (cases "sz \<le> r_size e")
    case fit: True
    then have le: "unat sz \<le> unat (r_size e)" by (simp add: word_le_nat_alt)
    have sub: "units (r_off e) sz \<subseteq> units (r_off e) (r_size e)" using le by (auto simp: units_def)
    have dis: "units (r_off e) sz \<inter> slots_set es = {}" using above le by (fastforce simp: units_def)
    show ?thesis
    proof (cases "sz < r_size e")
      case True
      have "unat (r_off e + sz) = unat (r_off e) + unat sz"
        by (rule unat_add_no_overflow) (use Cons.prems le in simp)
      moreover have "unat (r_size e - sz) = unat (r_size e) - unat sz"
        by (rule unat_sub_le) (use True in simp)
      ultimately have "units (r_off e + sz) (r_size e - sz) = units (r_off e) (r_size e) - units (r_off e) sz"
        using le by (auto simp: units_def)
      then show ?thesis using Cons.prems True fit sub dis by auto
    next
      case False
      then have "r_size e = sz" using fit by simp
      then show ?thesis using Cons.prems dis by auto
    qed
  next
    case False
    then obtain es1 where es1: "alloc_l sz es = Some (i, es1)" "es' = e # es1"
      using Cons.prems(1) by auto
    have ok: "slots_ok (unat (r_off e) + unat (r_size e)) es" using Cons.prems(2) by simp
    note IH = Cons.IH [OF es1(1) ok Cons.prems(3)]
    then have "units (r_off e) (r_size e) \<inter> units i sz = {}" by (auto simp: units_def)
    then show ?thesis using IH es1(2) Cons.prems(2) by auto
  qed
qed simp

text \<open>A run of free units lies within one element, because elements do not touch.\<close>

lemma run_in_element:
  "{j ..< j + n} \<subseteq> slots_set es \<Longrightarrow> slots_ok lo es \<Longrightarrow> 0 < n \<Longrightarrow>
     \<exists>e \<in> set es. {j ..< j + n} \<subseteq> units (r_off e) (r_size e)"
proof (induction es arbitrary: lo)
  case (Cons e es)
  let ?top = "unat (r_off e) + unat (r_size e)"
  have gap: "?top \<notin> slots_set (e # es)"
    using slots_ok_lowerD [of ?top es ?top] Cons.prems(2) by (simp add: units_def)
  show ?case
  proof (cases "j < ?top")
    case True
    have "j + n \<le> ?top" using gap Cons.prems(1) True
      by (metis atLeastLessThan_iff leI less_imp_le_nat subsetD)
    moreover have "unat (r_off e) \<le> j"
    proof -
      have "j \<in> {j ..< j + n}" using Cons.prems(3) by simp
      then have "j \<in> slots_set (e # es)" using Cons.prems(1) by blast
      then show ?thesis using True slots_ok_lowerD [of ?top es j] Cons.prems(2) by (auto simp: units_def)
    qed
    ultimately show ?thesis by (intro bexI [of _ e]) (auto simp: units_def)
  next
    case False
    then have "{j ..< j + n} \<subseteq> slots_set es" using Cons.prems(1) by (fastforce simp: units_def)
    then show ?thesis using Cons.IH Cons.prems by auto
  qed
qed simp

lemma run_fits_element:
  assumes "{j ..< j + unat sz} \<subseteq> units (r_off e) (r_size e)" "0 < sz"
  shows "sz \<le> r_size e \<and> unat (r_off e) \<le> j"
proof -
  have p: "0 < unat sz" using assms(2) by (rule unat_pos)
  have "j \<in> units (r_off e) (r_size e)" "j + unat sz - 1 \<in> units (r_off e) (r_size e)"
    using assms(1) p by auto
  then show ?thesis by (auto simp: units_def word_le_nat_alt)
qed

lemma slots_ok_sorted: "slots_ok lo es \<Longrightarrow> e \<in> set es \<Longrightarrow> lo < unat (r_off e)"
proof (induction es arbitrary: lo)
  case (Cons a es)
  then show ?case by fastforce
qed simp

lemma alloc_l_least:
  "alloc_l sz es = Some (i, es') \<Longrightarrow> slots_ok lo es \<Longrightarrow> e \<in> set es \<Longrightarrow> sz \<le> r_size e \<Longrightarrow>
     unat i \<le> unat (r_off e)"
proof (induction es arbitrary: lo es')
  case (Cons a es)
  show ?case
  proof (cases "sz \<le> r_size a")
    case True
    then have "i = r_off a" using Cons.prems(1) by auto
    then show ?thesis using Cons.prems(2,3) slots_ok_sorted [of "unat (r_off a) + unat (r_size a)" es e]
      by auto
  next
    case False
    then show ?thesis using Cons by (auto)
  qed
qed simp

lemma free_l_ok:
  assumes "slots_ok lo es" "lo < unat off" "0 < sz" "unat off + unat sz < 2 ^ 32"
    and "units off sz \<inter> slots_set es = {}"
  shows "slots_ok lo (free_l off sz es) \<and> slots_set (free_l off sz es) = slots_set es \<union> units off sz"
  using assms
proof (induction es arbitrary: lo)
  case Nil
  then show ?case by simp
next
  case (Cons e es)
  let ?top = "unat (r_off e) + unat (r_size e)"
  have ok: "slots_ok ?top es" and e: "lo < unat (r_off e)" "0 < r_size e" "?top < 2 ^ 32"
    using Cons.prems(1) by auto
  have ue: "unat (r_off e + r_size e) = ?top" using e(3) by (rule unat_add_no_overflow)
  have uo: "unat (off + sz) = unat off + unat sz" using Cons.prems(4) by (rule unat_add_no_overflow)
  have p: "0 < unat sz" "0 < unat (r_size e)" using Cons.prems(3) e(2) by (auto dest: unat_pos)
  consider (tail) "r_off e + r_size e = off"
    | (front) "r_off e + r_size e \<noteq> off" "off + sz = r_off e"
    | (ins) "r_off e + r_size e \<noteq> off" "off + sz \<noteq> r_off e" "off < r_off e"
    | (step) "r_off e + r_size e \<noteq> off" "off + sz \<noteq> r_off e" "\<not> off < r_off e" by blast
  then show ?case
  proof cases
    case tail
    then have o: "unat off = ?top" using ue by simp
    have us: "unat (r_size e + sz) = unat (r_size e) + unat sz"
      by (rule unat_add_no_overflow) (use o Cons.prems(4) in simp)
    have un: "units (r_off e) (r_size e + sz) = units (r_off e) (r_size e) \<union> units off sz"
      using us o by (auto simp: units_def)
    have ps: "0 < r_size e + sz" using us p by (simp add: word_less_nat_alt)
    show ?thesis
    proof (cases es)
      case Nil
      then show ?thesis using tail e un us ps o Cons.prems(4) by (auto simp: Let_def)
    next
      case f: (Cons f fs)
      have F: "?top < unat (r_off f)" "unat (r_off f) + unat (r_size f) < 2 ^ 32" "0 < unat (r_size f)"
        using ok f by (auto dest: unat_pos)
      have uf: "unat (r_off e + (r_size e + sz)) = unat off + unat sz"
        using unat_add_no_overflow [of "r_off e" "r_size e + sz"] us o Cons.prems(4) by simp
      show ?thesis
      proof (cases "r_off e + (r_size e + sz) = r_off f")
        case True
        then have of': "unat (r_off f) = unat off + unat sz" using uf by simp
        have "unat (r_size e + sz + r_size f) = unat (r_size e) + unat sz + unat (r_size f)"
          using unat_add_no_overflow [of "r_size e + sz" "r_size f"] us of' o F by simp
        moreover from this have "units (r_off e) (r_size e + sz + r_size f) =
            units (r_off e) (r_size e + sz) \<union> units (r_off f) (r_size f)"
          using us of' o by (auto simp: units_def)
        moreover have "0 < r_size e + sz + r_size f"
          using calculation(1) p by (simp add: word_less_nat_alt)
        ultimately show ?thesis using tail f e un of' o F ok True
          by (auto simp: Let_def add.assoc)
      next
        case False
        have "unat (r_off f) \<notin> units off sz"
          using Cons.prems(5) f F by (auto simp: units_def)
        moreover have "unat (r_off f) \<noteq> unat off + unat sz" using False uf by (metis word_unat_eq_iff)
        ultimately have "unat off + unat sz < unat (r_off f)" using o F(1) by (auto simp: units_def)
        then show ?thesis using tail f e un us o F ok False ps Cons.prems(4) by (auto simp: Let_def)
      qed
    qed
  next
    case front
    then have o: "unat (r_off e) = unat off + unat sz" using uo by simp
    have "unat (r_size e + sz) = unat (r_size e) + unat sz"
      by (rule unat_add_no_overflow) (use o e(3) in simp)
    moreover from this have "units off (r_size e + sz) = units (r_off e) (r_size e) \<union> units off sz"
      using o by (auto simp: units_def)
    moreover have "0 < r_size e + sz" using calculation(1) p by (simp add: word_less_nat_alt)
    ultimately show ?thesis using front o ok e Cons.prems(2) by (auto simp: algebra_simps)
  next
    case ins
    have "unat (r_off e) \<notin> units off sz"
      using Cons.prems(5) units_nonempty [OF e(2), of "r_off e"] by auto
    moreover have "unat (r_off e) \<noteq> unat off + unat sz" using ins uo by (metis word_unat_eq_iff)
    moreover have "unat off < unat (r_off e)" using ins by (simp add: word_less_nat_alt)
    ultimately have "unat off + unat sz < unat (r_off e)" by (auto simp: units_def)
    then show ?thesis using ins ok e Cons.prems by auto
  next
    case step
    have "unat off \<notin> units (r_off e) (r_size e)"
      using Cons.prems(5) units_nonempty [OF Cons.prems(3), of off] by auto
    moreover have "unat off \<noteq> ?top" using step ue by (metis word_unat_eq_iff)
    moreover have "unat (r_off e) \<le> unat off" using step by (simp add: word_less_nat_alt)
    ultimately have "?top < unat off" by (auto simp: units_def)
    then show ?thesis using Cons.IH [OF ok] Cons.prems(3-5) step e by auto
  qed
qed

section \<open>The resource map as an allocator of ranges\<close>

definition rmap_inv :: "rmap list \<Rightarrow> bool" where
  "rmap_inv m = (m \<noteq> [] \<and> unat (r_off (m ! 0)) < length m \<and> r_off (m ! 0) \<le> r_size (m ! 0) \<and>
     slots_ok 0 (rmap_elems m))"

definition rmap_units :: "rmap list \<Rightarrow> nat set" where
  "rmap_units m = slots_set (rmap_elems m)"

lemma rmap_inv_arr:
  assumes "rmap_inv m"
  obtains h es rest where "rmap_arr m h es rest" "rmap_elems m = es" "slots_ok 0 es"
    "r_off h \<le> r_size h"
proof -
  obtain h t where m: "m = h # t" using assms by (auto simp: rmap_inv_def neq_Nil_conv)
  let ?n = "unat (r_off h)"
  have "rmap_arr m h (take ?n t) (drop ?n t)" "rmap_elems m = take ?n t"
    using assms m by (auto simp: rmap_arr_def rmap_inv_def rmap_elems_def)
  then show ?thesis using that assms m by (auto simp: rmap_inv_def)
qed

lemma rmap_arr_inv:
  "rmap_arr m h es rest \<Longrightarrow> slots_ok 0 es \<Longrightarrow> r_off h \<le> r_size h \<Longrightarrow> rmap_inv m"
  by (auto simp: rmap_inv_def rmap_arr_def rmap_elems_def)

lemma alloc_l_shrinks: "alloc_l sz es = Some (i, es') \<Longrightarrow> length es' \<le> length es"
  by (induction es arbitrary: es') (auto split: if_splits)

lemma rmap_alloc_spec:
  assumes inv: "rmap_inv m" and sz: "0 < sz" and al: "rmap_alloc m sz = (i, m')"
  shows "if i = 0 then m' = m \<and> (\<nexists>j. {j ..< j + unat sz} \<subseteq> rmap_units m)
    else rmap_inv m' \<and> length m' = length m \<and> units i sz \<subseteq> rmap_units m \<and>
      rmap_units m' = rmap_units m - units i sz \<and>
      (\<forall>j. {j ..< j + unat sz} \<subseteq> rmap_units m \<longrightarrow> unat i \<le> j)"
proof -
  obtain h es rest where a: "rmap_arr m h es rest" "rmap_elems m = es" "slots_ok 0 es"
    "r_off h \<le> r_size h" using rmap_inv_arr [OF inv] .
  have run: "\<exists>e \<in> set es. sz \<le> r_size e \<and> unat (r_off e) \<le> j" if j: "{j ..< j + unat sz} \<subseteq> slots_set es" for j
    using run_in_element [OF j a(3) unat_pos [OF sz]] run_fits_element [OF _ sz] by blast
  show ?thesis
  proof (cases "alloc_l sz es")
    case None
    then have "i = 0" "m' = m" using rmap_alloc_list [OF a(1), of sz] al by auto
    then show ?thesis using run None a(2) by (auto simp: rmap_units_def alloc_l_None)
  next
    case (Some r)
    obtain k es' where r: "r = (k, es')" by (cases r)
    then obtain h' rest' where b: "i = k" "rmap_arr m' h' es' rest'" "r_size h' = r_size h" "length m' = length m"
      using rmap_alloc_list [OF a(1), of sz] al Some by auto
    have u: "0 < unat i" "units i sz \<subseteq> slots_set es" "slots_set es' = slots_set es - units i sz"
      using alloc_l_units [of sz es i es' 0] Some r b(1) a(3) sz by auto
    have "slots_ok 0 es'" using alloc_l_slots_ok [of sz es i es' 0] Some r b(1) a(3) sz by simp
    moreover have "r_off h' \<le> r_size h'"
      using alloc_l_shrinks Some r b a by (fastforce simp: rmap_arr_def word_le_nat_alt)
    ultimately have "rmap_inv m'" using b(2) by (blast intro: rmap_arr_inv)
    moreover have "unat i \<le> j" if "{j ..< j + unat sz} \<subseteq> slots_set es" for j
      using run [OF that] alloc_l_least [of sz es i es' 0] Some r b(1) a(3) by fastforce
    moreover have "i \<noteq> 0" using u(1) by auto
    ultimately show ?thesis using u b a(2) rmap_arr_elems [OF b(2)] by (simp add: rmap_units_def)
  qed
qed

text \<open>
  The outcomes of a free: a full map loses the range, a map whose header announces more
  elements than the array has is overrun, and any other map gains exactly the range.
\<close>

definition rmap_full :: "rmap list \<Rightarrow> u32 \<Rightarrow> u32 \<Rightarrow> bool" where
  "rmap_full m off sz = (needs_slot off sz (rmap_elems m) \<and> r_size (m ! 0) = r_off (m ! 0))"

definition rmap_overrun :: "rmap list \<Rightarrow> u32 \<Rightarrow> u32 \<Rightarrow> bool" where
  "rmap_overrun m off sz = (needs_slot off sz (rmap_elems m) \<and> r_size (m ! 0) \<noteq> r_off (m ! 0) \<and>
     length m = Suc (unat (r_off (m ! 0))))"

lemma needs_slot_length: "needs_slot off sz es \<Longrightarrow> length (free_l off sz es) = Suc (length es)"
  by (induction es) (auto split: if_splits)

lemma no_slot_length: "\<not> needs_slot off sz es \<Longrightarrow> length (free_l off sz es) \<le> length es"
proof (induction es)
  case (Cons e es)
  show ?case
  proof (cases "r_off e + r_size e = off")
    case True
    then show ?thesis by (cases es) (simp_all add: Let_def)
  next
    case False
    then show ?thesis using Cons by (cases "off + sz = r_off e"; cases "off < r_off e") simp_all
  qed
qed simp

lemma rmap_free_spec:
  assumes inv: "rmap_inv m" and off: "0 < off" and sz: "0 < sz" and top: "unat off + unat sz < 2 ^ 32"
    and dis: "units off sz \<inter> rmap_units m = {}"
  shows "case rmap_free m off sz of
      None \<Rightarrow> rmap_overrun m off sz
    | Some (m', lost) \<Rightarrow> rmap_inv m' \<and> length m' = length m \<and> \<not> rmap_overrun m off sz \<and>
        (if rmap_full m off sz then m' = m \<and> lost = sz
         else lost = 0 \<and> rmap_units m' = rmap_units m \<union> units off sz)"
proof -
  obtain h es rest where a: "rmap_arr m h es rest" "rmap_elems m = es" "slots_ok 0 es"
    "r_off h \<le> r_size h" using rmap_inv_arr [OF inv] .
  have m0: "m ! 0 = h" and n: "unat (r_off h) = length es" and m: "m = h # es @ rest"
    using a(1) by (auto simp: rmap_arr_def)
  have ok: "slots_ok 0 (free_l off sz es)" "slots_set (free_l off sz es) = slots_set es \<union> units off sz"
    using free_l_ok [OF a(3) unat_pos [OF off] sz top] dis a(2) by (auto simp: rmap_units_def)
  note F = rmap_free_list [OF a(1), of off sz]
  show ?thesis
  proof (cases "needs_slot off sz es")
    case need: True
    consider (full) "r_size h = r_off h" | (over) "r_size h \<noteq> r_off h" "rest = []"
      | (room) "r_size h \<noteq> r_off h" "rest \<noteq> []" by blast
    then show ?thesis
    proof cases
      case full
      then show ?thesis using F need a m0 inv by (simp add: rmap_full_def rmap_overrun_def)
    next
      case over
      then show ?thesis using F need a m0 n m by (simp add: rmap_overrun_def)
    next
      case room
      let ?h = "h\<lparr>r_off := r_off h + 1\<rparr>"
      have lt: "r_off h < r_size h" using room(1) a(4) by simp
      then have un: "unat (r_off h + 1) = Suc (length es)"
        using unat_add_no_overflow [of "r_off h" 1] unat_lt_u32 [of "r_size h"] n
        by (simp add: word_less_nat_alt)
      have "rmap_arr (?h # free_l off sz es @ tl rest) ?h (free_l off sz es) (tl rest)"
        using un need by (simp add: rmap_arr_def needs_slot_length)
      moreover have "r_off ?h \<le> r_size ?h" using lt un n by (simp add: word_le_nat_alt word_less_nat_alt)
      ultimately have "rmap_inv (?h # free_l off sz es @ tl rest)"
          "rmap_elems (?h # free_l off sz es @ tl rest) = free_l off sz es"
        using ok(1) by (blast intro: rmap_arr_inv, blast intro: rmap_arr_elems)
      then show ?thesis using F need room m0 a(2) ok(2) m n
        by (simp add: rmap_full_def rmap_overrun_def rmap_units_def needs_slot_length)
    qed
  next
    case False
    then obtain m' h' rest' where b: "rmap_free m off sz = Some (m', 0)"
      "rmap_arr m' h' (free_l off sz es) rest'" "r_size h' = r_size h" "length m' = length m"
      using F by auto
    have "r_off h' \<le> r_size h'"
      using no_slot_length [OF False] b a n by (fastforce simp: rmap_arr_def word_le_nat_alt)
    then have "rmap_inv m'" using b(2) ok(1) by (blast intro: rmap_arr_inv)
    then show ?thesis using b False ok(2) a(2) rmap_arr_elems [OF b(2)]
      by (simp add: rmap_full_def rmap_overrun_def rmap_units_def)
  qed
qed

section \<open>Clients of an allocator of ranges\<close>

text \<open>
  A client allocates ranges and gives back ranges it holds, as the callers of \<open>rmap_alloc()\<close>
  and \<open>rmap_free()\<close> do.  The state is the allocator's and the list of ranges held; \<open>None\<close> is
  an allocator that corrupted memory.
\<close>

datatype rop = Acquire u32 | Release nat

fun client_step ::
  "('m \<Rightarrow> u32 \<Rightarrow> u32 \<times> 'm) \<Rightarrow> ('m \<Rightarrow> u32 \<Rightarrow> u32 \<Rightarrow> ('m \<times> u32) option) \<Rightarrow>
   'm \<times> (u32 \<times> u32) list \<Rightarrow> rop \<Rightarrow> ('m \<times> (u32 \<times> u32) list) option" where
  "client_step al fr (m, held) (Acquire sz) =
     (if sz = 0 then Some (m, held)
      else let (i, m') = al m sz in
        if i = 0 then Some (m', held) else Some (m', (i, sz) # held))"
| "client_step al fr (m, held) (Release k) =
     (if length held \<le> k then Some (m, held)
      else case fr m (fst (held ! k)) (snd (held ! k)) of
        None \<Rightarrow> None
      | Some (m', lost) \<Rightarrow> Some (m', take k held @ drop (Suc k) held))"

fun client_run ::
  "('m \<Rightarrow> u32 \<Rightarrow> u32 \<times> 'm) \<Rightarrow> ('m \<Rightarrow> u32 \<Rightarrow> u32 \<Rightarrow> ('m \<times> u32) option) \<Rightarrow>
   'm \<times> (u32 \<times> u32) list \<Rightarrow> rop list \<Rightarrow> ('m \<times> (u32 \<times> u32) list) option" where
  "client_run al fr st [] = Some st"
| "client_run al fr st (x # xs) =
     (case client_step al fr st x of None \<Rightarrow> None | Some st' \<Rightarrow> client_run al fr st' xs)"

text \<open>The ranges held are real, overlap neither each other nor what is still available.\<close>

fun held_ok :: "nat set \<Rightarrow> (u32 \<times> u32) list \<Rightarrow> bool" where
  "held_ok av [] = True"
| "held_ok av ((off, sz) # hs) =
     (0 < off \<and> 0 < sz \<and> unat off + unat sz < 2 ^ 32 \<and> units off sz \<inter> av = {} \<and>
      held_ok (av \<union> units off sz) hs)"

fun held_units :: "(u32 \<times> u32) list \<Rightarrow> nat set" where
  "held_units [] = {}"
| "held_units ((off, sz) # hs) = units off sz \<union> held_units hs"

lemma held_units_append [simp]: "held_units (as @ bs) = held_units as \<union> held_units bs"
  by (induction as rule: held_units.induct) auto

lemma held_ok_iff:
  "held_ok (av \<union> bv) hs = (held_ok av hs \<and> bv \<inter> held_units hs = {})"
proof (induction hs arbitrary: av bv rule: held_units.induct)
  case (2 off sz hs)
  have "av \<union> bv \<union> units off sz = av \<union> units off sz \<union> bv" by blast
  then show ?case using "2.IH" [of "av \<union> units off sz" bv] by auto
qed simp

lemma held_ok_anti: "held_ok av hs \<Longrightarrow> bv \<subseteq> av \<Longrightarrow> held_ok bv hs"
  using held_ok_iff [of bv av hs] by (simp add: Un_absorb1)

lemma held_ok_remove:
  "held_ok av (as @ (off, sz) # bs) \<Longrightarrow>
     0 < off \<and> 0 < sz \<and> unat off + unat sz < 2 ^ 32 \<and> units off sz \<inter> av = {} \<and>
     held_ok (av \<union> units off sz) (as @ bs)"
proof (induction as arbitrary: av rule: held_units.induct)
  case (2 o1 s1 as)
  let ?B = "units o1 s1"
  have IH: "units off sz \<inter> (av \<union> ?B) = {}" "held_ok (av \<union> ?B \<union> units off sz) (as @ bs)"
    "0 < off" "0 < sz" "unat off + unat sz < 2 ^ 32"
    using "2.IH" [of "av \<union> ?B"] "2.prems" by auto
  have "av \<union> ?B \<union> units off sz = av \<union> units off sz \<union> ?B" by blast
  then show ?case using IH "2.prems" by auto
qed simp

locale range_allocator =
  fixes al :: "'m \<Rightarrow> u32 \<Rightarrow> u32 \<times> 'm"
    and fr :: "'m \<Rightarrow> u32 \<Rightarrow> u32 \<Rightarrow> ('m \<times> u32) option"
    and avail :: "'m \<Rightarrow> nat set"
    and inv :: "'m \<Rightarrow> bool"
  assumes alloc_none: "inv m \<Longrightarrow> 0 < sz \<Longrightarrow> al m sz = (0, m') \<Longrightarrow> m' = m"
    and alloc_some: "inv m \<Longrightarrow> 0 < sz \<Longrightarrow> al m sz = (i, m') \<Longrightarrow> i \<noteq> 0 \<Longrightarrow>
      inv m' \<and> units i sz \<subseteq> avail m \<and> avail m' = avail m - units i sz"
    and avail_range: "inv m \<Longrightarrow> x \<in> avail m \<Longrightarrow> Suc x < 2 ^ 32"
    and free_some: "inv m \<Longrightarrow> 0 < off \<Longrightarrow> 0 < sz \<Longrightarrow> unat off + unat sz < 2 ^ 32 \<Longrightarrow>
      units off sz \<inter> avail m = {} \<Longrightarrow> fr m off sz = Some (m', lost) \<Longrightarrow>
      inv m' \<and> (avail m' = avail m \<or> avail m' = avail m \<union> units off sz)"
begin

lemma step_ok:
  assumes inv: "inv m" and ok: "held_ok (avail m) held"
    and step: "client_step al fr (m, held) x = Some (m', held')"
  shows "inv m' \<and> held_ok (avail m') held' \<and>
    avail m' \<union> held_units held' \<subseteq> avail m \<union> held_units held"
proof (cases x)
  case (Acquire sz)
  show ?thesis
  proof (cases "sz = 0")
    case True
    then show ?thesis using assms Acquire by simp
  next
    case False
    then have sz: "0 < sz" by (simp add: word_gt_0)
    obtain i m1 where a: "al m sz = (i, m1)" by fastforce
    show ?thesis
    proof (cases "i = 0")
      case True
      then have "m1 = m" using alloc_none inv sz a by blast
      then show ?thesis using assms Acquire a True by (auto split: if_splits)
    next
      case False
      note A = alloc_some [OF inv sz a False]
      have "unat i + unat sz - 1 \<in> units i sz" using unat_pos [OF sz] by (auto simp: units_def)
      then have top: "unat i + unat sz < 2 ^ 32" using A avail_range [OF inv] unat_pos [OF sz] by fastforce
      have "m' = m1" "held' = (i, sz) # held" using step Acquire a False sz by (auto split: if_splits)
      moreover have "avail m - units i sz \<union> units i sz = avail m" using A by blast
      moreover have "0 < i" using False by (simp add: word_gt_0)
      ultimately show ?thesis using A ok sz top by auto
    qed
  qed
next
  case (Release k)
  show ?thesis
  proof (cases "k < length held")
    case False
    then show ?thesis using assms Release by simp
  next
    case True
    obtain off sz where hk: "held ! k = (off, sz)" by fastforce
    have split: "held = take k held @ (off, sz) # drop (Suc k) held"
      using take_drop_split [OF True] hk by simp
    then have R: "0 < off" "0 < sz" "unat off + unat sz < 2 ^ 32" "units off sz \<inter> avail m = {}"
        "held_ok (avail m \<union> units off sz) (take k held @ drop (Suc k) held)"
      using held_ok_remove ok by metis+
    have un: "held_units held = units off sz \<union> held_units (take k held @ drop (Suc k) held)"
      by (subst split) auto
    obtain lost where f: "fr m off sz = Some (m', lost)" "held' = take k held @ drop (Suc k) held"
      using step Release True hk by (auto split: option.splits)
    note F = free_some [OF inv R(1-4) f(1)]
    then have "held_ok (avail m') held'" using R(5) f(2) by (auto intro: held_ok_anti)
    then show ?thesis using F un f(2) by auto
  qed
qed

lemma run_ok:
  "inv m \<Longrightarrow> held_ok (avail m) held \<Longrightarrow> client_run al fr (m, held) xs = Some (m', held') \<Longrightarrow>
   inv m' \<and> held_ok (avail m') held' \<and> avail m' \<union> held_units held' \<subseteq> avail m \<union> held_units held"
proof (induction xs arbitrary: m held)
  case (Cons x xs)
  obtain m1 held1 where s: "client_step al fr (m, held) x = Some (m1, held1)"
    using Cons.prems(3) by (auto split: option.splits)
  then have "client_run al fr (m1, held1) xs = Some (m', held')" using Cons.prems(3) by simp
  then show ?case using step_ok [OF Cons.prems(1,2) s] Cons.IH [of m1 held1] by blast
qed simp

end

lemma slots_range: "slots_ok lo es \<Longrightarrow> x \<in> slots_set es \<Longrightarrow> Suc x < 2 ^ 32"
  by (induction es arbitrary: lo) (auto simp: units_def)

interpretation rm: range_allocator rmap_alloc rmap_free rmap_units rmap_inv
proof unfold_locales
  fix m m' :: "rmap list" and sz i off lost :: u32 and x
  show "rmap_inv m \<Longrightarrow> 0 < sz \<Longrightarrow> rmap_alloc m sz = (0, m') \<Longrightarrow> m' = m"
    using rmap_alloc_spec [of m sz 0 m'] by simp
  show "rmap_inv m \<Longrightarrow> 0 < sz \<Longrightarrow> rmap_alloc m sz = (i, m') \<Longrightarrow> i \<noteq> 0 \<Longrightarrow>
      rmap_inv m' \<and> units i sz \<subseteq> rmap_units m \<and> rmap_units m' = rmap_units m - units i sz"
    using rmap_alloc_spec [of m sz i m'] by simp
  show "rmap_inv m \<Longrightarrow> x \<in> rmap_units m \<Longrightarrow> Suc x < 2 ^ 32"
    using slots_range [of 0 "rmap_elems m" x] by (simp add: rmap_inv_def rmap_units_def)
  show "rmap_inv m \<Longrightarrow> 0 < off \<Longrightarrow> 0 < sz \<Longrightarrow> unat off + unat sz < 2 ^ 32 \<Longrightarrow>
      units off sz \<inter> rmap_units m = {} \<Longrightarrow> rmap_free m off sz = Some (m', lost) \<Longrightarrow>
      rmap_inv m' \<and> (rmap_units m' = rmap_units m \<or> rmap_units m' = rmap_units m \<union> units off sz)"
    using rmap_free_spec [of m off sz] by (auto split: if_splits)
qed

text \<open>What has just been allocated can be given back: the map needs no slot it does not have.\<close>

lemma alloc_l_gives_back:
  "slots_ok lo es \<Longrightarrow> alloc_l sz es = Some (i, es') \<Longrightarrow> 0 < sz \<Longrightarrow>
   (length es' < length es \<or> \<not> needs_slot i sz es') \<and> lo < unat i"
proof (induction es arbitrary: lo es')
  case (Cons e es)
  show ?case
  proof (cases "sz \<le> r_size e")
    case True
    then show ?thesis using Cons.prems by (auto split: if_splits)
  next
    case False
    then obtain es1 where e: "es' = e # es1" "alloc_l sz es = Some (i, es1)" using Cons.prems by auto
    obtain lo' where lo: "slots_ok lo' es" "unat (r_off e) \<le> lo'" "lo \<le> lo'" "lo < unat (r_off e)"
      using Cons.prems(1) by (auto)
    have "(length es1 < length es \<or> \<not> needs_slot i sz es1) \<and> lo' < unat i"
      by (rule Cons.IH [OF lo(1) e(2) Cons.prems(3)])
    then show ?thesis using e(1) lo by (auto simp: word_less_nat_alt)
  qed
qed simp

lemma alloc_then_free:
  assumes inv: "rmap_inv m" and sz: "0 < sz" and al: "rmap_alloc m sz = (i, m')" and i: "i \<noteq> 0"
  shows "\<exists>m''. rmap_free m' i sz = Some (m'', 0) \<and> rmap_inv m'' \<and> rmap_units m'' = rmap_units m"
proof -
  obtain h es rest where a: "rmap_arr m h es rest" "rmap_elems m = es" "slots_ok 0 es"
    "r_off h \<le> r_size h" using rmap_inv_arr [OF inv] .
  have some: "alloc_l sz es \<noteq> None"
    using rmap_alloc_list [OF a(1), of sz] al i by (auto split: option.splits)
  then obtain es' h' rest' where b: "alloc_l sz es = Some (i, es')" "rmap_arr m' h' es' rest'"
      "r_size h' = r_size h" "length m' = length m"
    using rmap_alloc_list [OF a(1), of sz] al by (auto split: option.splits)
  have spec: "rmap_inv m'" "units i sz \<subseteq> rmap_units m" "rmap_units m' = rmap_units m - units i sz"
    using rmap_alloc_spec [OF inv sz al] i by auto
  have g: "length es' < length es \<or> \<not> needs_slot i sz es'"
    using alloc_l_gives_back [OF a(3) b(1) sz] by blast
  have m': "m' ! 0 = h'" "rmap_elems m' = es'" "unat (r_off h') = length es'"
    using b(2) rmap_arr_elems by (auto simp: rmap_arr_def)
  have n: "unat (r_off h) = length es" "length es < length m" using a(1) by (auto simp: rmap_arr_def)
  have "\<not> rmap_full m' i sz"
    using g m' b(3) n(1) a(4) by (auto simp: rmap_full_def word_le_nat_alt)
  moreover have "\<not> rmap_overrun m' i sz" using g m' b(4) n by (auto simp: rmap_overrun_def)
  moreover have "unat i + unat sz < 2 ^ 32"
  proof -
    have "unat i + unat sz - 1 \<in> units i sz" using sz unat_pos [OF sz] by (auto simp: units_def)
    then have "Suc (unat i + unat sz - 1) < 2 ^ 32"
      using spec(2) slots_range [OF a(3)] a(2) by (auto simp: rmap_units_def)
    then show ?thesis using unat_pos [OF sz] by simp
  qed
  moreover have "0 < i" using i by (simp add: word_gt_0)
  moreover have "units i sz \<inter> rmap_units m' = {}" using spec(3) by blast
  moreover have "rmap_units m' \<union> units i sz = rmap_units m" using spec(2,3) by blast
  ultimately show ?thesis using rmap_free_spec [OF spec(1) _ sz, of i]
    by (auto split: option.splits)
qed

section \<open>What a resource map guarantees\<close>

lemma rmap_init_inv:
  "0 < length a \<Longrightarrow> rmap_inv (rmap_init a n) \<and> rmap_units (rmap_init a n) = {} \<and>
     length (rmap_init a n) = length a"
  by (cases a) (auto simp: rmap_init_def rmap_inv_def rmap_units_def rmap_elems_def)

lemma rmap_free_none:
  assumes "rmap_inv m"
  shows "(rmap_free m off sz = None) = rmap_overrun m off sz"
proof -
  obtain h es rest where a: "rmap_arr m h es rest" "rmap_elems m = es" using rmap_inv_arr [OF assms] .
  then have "m = h # es @ rest" "unat (r_off h) = length es" by (auto simp: rmap_arr_def)
  then show ?thesis using rmap_free_list [OF a(1), of off sz] a(2)
    by (cases rest) (auto simp: rmap_overrun_def split: if_splits)
qed

text \<open>
  An array of ten elements, initialised as the callers do and then given the blocks 10 to 19
  and 30 to 34, and the map after three blocks have been allocated from it.
\<close>

definition demo_map :: "rmap list" where
  "demo_map = the (map_option fst (Option.bind
     (rmap_free (rmap_init (replicate 10 \<lparr>r_off = 0, r_size = 0\<rparr>) 10) 30 5)
     (\<lambda>(m, l). rmap_free m 10 10)))"

lemma demo_map_elems:
  "demo_map = \<lparr>r_off = 2, r_size = 10\<rparr> # \<lparr>r_off = 10, r_size = 10\<rparr> # \<lparr>r_off = 30, r_size = 5\<rparr>
     # replicate 7 \<lparr>r_off = 0, r_size = 0\<rparr>"
  by code_simp

lemma demo_map_inv: "rmap_inv demo_map"
  by (simp add: demo_map_elems rmap_inv_def rmap_elems_def)

text \<open>
  Allocation is first fit, sound and complete: \<open>rmap_alloc\<close> returns 0, leaving the map
  alone, exactly when no run of \<open>size\<close> consecutive free units exists; otherwise it
  returns the lowest start of such a run, the units leave the free set, nothing else
  does, and the order of the array is kept.
\<close>

theorem rmap_alloc_first_fit:
  assumes "rmap_inv m" and "0 < sz" and "rmap_alloc m sz = (i, m')"
  shows "if i = 0 then m' = m \<and> (\<nexists>j. {j ..< j + unat sz} \<subseteq> rmap_units m)
    else rmap_inv m' \<and> length m' = length m \<and> units i sz \<subseteq> rmap_units m \<and>
      rmap_units m' = rmap_units m - units i sz \<and>
      (\<forall>j. {j ..< j + unat sz} \<subseteq> rmap_units m \<longrightarrow> unat i \<le> j)"
  using assms by (rule rmap_alloc_spec)

theorem rmap_alloc_first_fit_witness:
  "fst (rmap_alloc demo_map 4) = 10 \<and> rmap_inv (snd (rmap_alloc demo_map 4)) \<and>
   rmap_units (snd (rmap_alloc demo_map 4)) = rmap_units demo_map - units 10 4"
proof -
  have v: "fst (rmap_alloc demo_map 4) = 10"
    by code_simp
  show ?thesis using rmap_alloc_first_fit [OF demo_map_inv, of 4 10 "snd (rmap_alloc demo_map 4)"] v
    by (simp add: prod_eq_iff)
qed

text \<open>
  Freeing a range that is not free adds exactly that range to the free set and keeps the
  array ordered and coalesced; when the range touches no element and all \<open>r_size\<close> slots
  are taken, the map is unchanged and the range is counted as lost; the only other
  outcome is a write past the end of the array.
\<close>

theorem rmap_free_adds_range:
  assumes "rmap_inv m" and "0 < off" and "0 < sz" and "unat off + unat sz < 2 ^ 32"
    and "units off sz \<inter> rmap_units m = {}"
  shows "case rmap_free m off sz of
      None \<Rightarrow> rmap_overrun m off sz
    | Some (m', lost) \<Rightarrow> rmap_inv m' \<and> length m' = length m \<and> \<not> rmap_overrun m off sz \<and>
        (if rmap_full m off sz then m' = m \<and> lost = sz
         else lost = 0 \<and> rmap_units m' = rmap_units m \<union> units off sz)"
  using assms by (rule rmap_free_spec)

theorem rmap_free_adds_range_witness:
  "let (m', lost) = the (rmap_free demo_map 20 10) in lost = 0 \<and>
     rmap_units m' = rmap_units demo_map \<union> units 20 10 \<and> rmap_elems m' = [\<lparr>r_off = 10, r_size = 25\<rparr>]"
proof -
  have d: "units 20 10 \<inter> rmap_units demo_map = {}" by code_simp
  have v: "map_option (\<lambda>(m', lost). (rmap_elems m', lost)) (rmap_free demo_map 20 10) =
      Some ([\<lparr>r_off = 10, r_size = 25\<rparr>], 0)" by code_simp
  have "\<not> rmap_full demo_map 20 10" by code_simp
  then show ?thesis using rmap_free_adds_range [OF demo_map_inv _ _ _ d] v
    by (auto split: option.splits)
qed

text \<open>
  C22. Over any sequence of allocations and frees by clients that give back only what they
  hold, the ranges handed out never overlap one another nor the free units, never
  contain unit 0, and no unit appears that was not there at the start.
\<close>

theorem rmap_clients_disjoint:
  assumes "rmap_inv m" and "client_run rmap_alloc rmap_free (m, []) xs = Some (m', held)"
  shows "held_ok (rmap_units m') held \<and> rmap_units m' \<union> held_units held \<subseteq> rmap_units m"
  using rm.run_ok [OF assms(1) _ assms(2)] by simp

theorem rmap_clients_disjoint_witness:
  "let (m', held) = the (client_run rmap_alloc rmap_free (demo_map, []) [Acquire 4, Acquire 5, Acquire 9, Release 1])
   in held = [(14, 5)] \<and> held_ok (rmap_units m') held"
proof -
  have "map_option snd (client_run rmap_alloc rmap_free (demo_map, [])
     [Acquire 4, Acquire 5, Acquire 9, Release 1]) = Some [(14, 5)]" by code_simp
  then show ?thesis using rmap_clients_disjoint [OF demo_map_inv]
    by (fastforce split: option.splits)
qed

text \<open>
  A map whose header announces as many elements as the array has (what every caller's
  \<open>rmap_init(map, N)\<close> on an array of \<open>N\<close> does) is overrun by a free of an isolated range
  once \<open>N - 1\<close> elements are in use, and one that announces fewer than the array has never is.
\<close>

theorem rmap_free_overrun:
  assumes "rmap_inv m"
  shows "(unat (r_size (m ! 0)) < length m \<longrightarrow> rmap_free m off sz \<noteq> None) \<and>
    (unat (r_size (m ! 0)) = length m \<and> Suc (unat (r_off (m ! 0))) = length m \<and>
     needs_slot off sz (rmap_elems m) \<longrightarrow> rmap_free m off sz = None)"
proof (intro conjI impI)
  assume "unat (r_size (m ! 0)) < length m"
  then have "\<not> rmap_overrun m off sz"
    using assms by (auto simp: rmap_overrun_def rmap_inv_def word_le_nat_alt word_unat_eq_iff)
  then show "rmap_free m off sz \<noteq> None" using rmap_free_none [OF assms] by simp
next
  assume a: "unat (r_size (m ! 0)) = length m \<and> Suc (unat (r_off (m ! 0))) = length m \<and>
     needs_slot off sz (rmap_elems m)"
  then have "r_size (m ! 0) \<noteq> r_off (m ! 0)" by auto
  then show "rmap_free m off sz = None" using a rmap_free_none [OF assms] by (simp add: rmap_overrun_def)
qed

theorem rmap_free_overrun_witness:
  "rmap_free [\<lparr>r_off = 2, r_size = 3\<rparr>, \<lparr>r_off = 1, r_size = 1\<rparr>, \<lparr>r_off = 3, r_size = 1\<rparr>] 5 1 = None"
  by (rule conjunct2 [OF rmap_free_overrun, THEN mp]) (simp_all add: rmap_inv_def rmap_elems_def)

end
