(* ===== verification/Core_Pages.thy ===== *)
theory Core_Pages
  imports Ring_Lists Resource_Map
begin

text \<open>
  Physical pages, \<open>os/kern/vm_page.c\<close>: the free list, through which \<open>struct core\<close> entries are
  linked, the map of kernel virtual addresses, and the locks of the entries.

  An entry of \<open>core\<close> is its page number; page 0 belongs to the kernel and is never free, so 0 is
  the null pointer.  \<open>c_free\<close> and \<open>c_pset\<close> are one word of an entry, the \<open>union\<close>, and one field
  here.  \<open>ktrans\<close> are the kernel translations that \<open>vtop\<close> looks up,
  from virtual to physical page.  The code is compiled with \<open>DEBUG\<close>; a failing assertion and a
  loop that does not end are \<open>None\<close>.
\<close>

record kmem =
  c_flags :: "nat \<Rightarrow> u16"
  c_psidx :: "nat \<Rightarrow> u16"
  c_free :: "nat \<Rightarrow> nat"
  freelist :: nat
  freemem :: u32
  totalmem :: u32
  mem_sema :: int
  bootpgs :: nat
  vmap :: "rmap list"
  vmap_sema :: int
  core_semas :: "nat \<Rightarrow> int"
  ktrans :: "nat \<Rightarrow> nat option"

definition C_BAD :: u16 where "C_BAD = 1"
definition C_SYS :: u16 where "C_SYS = 2"
definition C_WIRED :: u16 where "C_WIRED = 4"
definition C_ALLOC :: u16 where "C_ALLOC = 8"

abbreviation (input) NC_SEMA :: nat where "NC_SEMA \<equiv> 16"

section \<open>Single pages\<close>

text \<open>
  One round of the loop of \<open>alloc_page\<close>: \<open>Inl\<close> when the thread goes to sleep on \<open>mem_sema\<close>, after
  which it tries again.
\<close>

definition alloc_page_try :: "kmem \<Rightarrow> kmem + nat \<times> kmem" where
  "alloc_page_try st =
     (if freemem st = 0 then Inl (st\<lparr>mem_sema := mem_sema st - 1\<rparr>)
      else
        let c = freelist st;
            st1 = st\<lparr>freemem := freemem st - 1, freelist := c_free st c\<rparr>
        in Inr (c, st1\<lparr>c_flags := (c_flags st1)(c := C_ALLOC), c_free := (c_free st1)(c := 0)\<rparr>))"

text \<open>The page, for a caller that does not have to sleep.\<close>

definition alloc_page :: "kmem \<Rightarrow> (nat \<times> kmem) option" where
  "alloc_page st = (case alloc_page_try st of Inl _ \<Rightarrow> None | Inr r \<Rightarrow> Some r)"

definition free_page :: "nat \<Rightarrow> kmem \<Rightarrow> kmem option" where
  "free_page pfn st =
     (if \<not> pfn < bootpgs st then None
      else
        let st1 = st\<lparr>c_flags := (c_flags st)(pfn := c_flags st pfn AND NOT C_ALLOC)\<rparr> in
        case chain_walk (c_free st1) (freelist st1) of
          None \<Rightarrow> None
        | Some fs \<Rightarrow>
            if pfn \<in> set fs \<or> c_flags st1 pfn AND C_BAD \<noteq> 0 then None
            else
              let st2 = st1\<lparr>c_free := (c_free st1)(pfn := freelist st1), freelist := pfn, freemem := freemem st1 + 1\<rparr>
              in Some (if mem_sema st2 < 0 then st2\<lparr>mem_sema := mem_sema st2 + 1\<rparr> else st2))"

section \<open>Start of the system\<close>

text \<open>The pages between the ends of the kernel and of its heap belong to the system.\<close>

definition mark_sys :: "nat \<Rightarrow> (nat \<Rightarrow> u16) \<Rightarrow> nat \<Rightarrow> u16" where
  "mark_sys hpgs fl = (\<lambda>x. if x < hpgs then C_SYS else fl x)"

text \<open>The holes between one memory segment and the next, in bytes.\<close>

fun mark_holes :: "(u32 \<times> u32) list \<Rightarrow> (nat \<Rightarrow> u16) \<Rightarrow> nat \<Rightarrow> u16" where
  "mark_holes ((base, len) # (base2, len2) # ms) fl =
     mark_holes ((base2, len2) # ms)
       (\<lambda>y. if unat (drop_bit 12 (base + len)) \<le> y \<and> y < unat (drop_bit 12 base2) then C_BAD else fl y)"
| "mark_holes _ fl = fl"

fun link_free :: "nat list \<Rightarrow> kmem \<Rightarrow> kmem" where
  "link_free [] st = st"
| "link_free (c # cs) st =
     link_free cs (if c_flags st c AND (C_SYS OR C_BAD) \<noteq> 0 then st
       else st\<lparr>c_free := (c_free st)(c := freelist st), freelist := c, freemem := freemem st + 1\<rparr>)"

text \<open>\<open>hpgs\<close> is the number of pages up to the end of the array of entries, \<open>btorp(heap)\<close>.\<close>

definition init_page :: "nat \<Rightarrow> (u32 \<times> u32) list \<Rightarrow> kmem \<Rightarrow> kmem" where
  "init_page hpgs memsegs st =
     (let st1 = st\<lparr>c_psidx := \<lambda>_. 0, c_free := \<lambda>_. 0,
                   c_flags := mark_holes memsegs (mark_sys hpgs (\<lambda>_. 0)), freelist := 0, freemem := 0\<rparr>;
          st2 = link_free [0..<bootpgs st] st1
      in st2\<lparr>totalmem := freemem st2, vmap_sema := 0, core_semas := \<lambda>_. 1\<rparr>)"

section \<open>Several pages\<close>

text \<open>
  \<open>alloc_vmap\<close> retries for ever; here it is one attempt, \<open>None\<close> when the thread goes to sleep.
\<close>

definition alloc_vmap :: "u32 \<Rightarrow> kmem \<Rightarrow> (u32 \<times> kmem) option" where
  "alloc_vmap npg st =
     (let (idx, m) = rmap_alloc (vmap st) npg in if idx \<noteq> 0 then Some (idx, st\<lparr>vmap := m\<rparr>) else None)"

definition free_vmap :: "u32 \<Rightarrow> u32 \<Rightarrow> kmem \<Rightarrow> kmem option" where
  "free_vmap idx npg st = map_option (\<lambda>(m, lost). st\<lparr>vmap := m\<rparr>) (rmap_free (vmap st) idx npg)"

fun map_pages :: "nat \<Rightarrow> nat \<Rightarrow> kmem \<Rightarrow> kmem option" where
  "map_pages v 0 st = Some st"
| "map_pages v (Suc n) st =
     (case alloc_page st of
        None \<Rightarrow> None
      | Some (pg, st1) \<Rightarrow>
          map_pages (Suc v) n (st1\<lparr>c_flags := (c_flags st1)(pg := c_flags st1 pg OR C_SYS), ktrans := (ktrans st1)(v \<mapsto> pg)\<rparr>))"

text \<open>The result is the virtual page; the address is that times \<open>NBPG\<close>.\<close>

definition alloc_pages :: "u32 \<Rightarrow> kmem \<Rightarrow> (u32 \<times> kmem) option" where
  "alloc_pages npg st =
     (case alloc_vmap npg st of
        None \<Rightarrow> None
      | Some (v, st1) \<Rightarrow> map_option (Pair v) (map_pages (unat v) (unat npg) st1))"

fun unmap_pages :: "nat \<Rightarrow> nat \<Rightarrow> kmem \<Rightarrow> kmem option" where
  "unmap_pages v 0 st = Some st"
| "unmap_pages v (Suc n) st =
     (case ktrans st v of
        None \<Rightarrow> None
      | Some pg \<Rightarrow>
          (case free_page pg st of
             None \<Rightarrow> None
           | Some st1 \<Rightarrow> unmap_pages (Suc v) n (st1\<lparr>ktrans := (ktrans st1)(v := None)\<rparr>)))"

definition free_pages :: "u32 \<Rightarrow> u32 \<Rightarrow> kmem \<Rightarrow> kmem option" where
  "free_pages v npg st = Option.bind (unmap_pages (unat v) (unat npg) st) (free_vmap v npg)"

section \<open>Locks of the entries\<close>

definition lock_slot_of :: "nat \<Rightarrow> nat" where
  "lock_slot_of pfn = pfn mod NC_SEMA"

definition lock_page :: "nat \<Rightarrow> kmem \<Rightarrow> kmem" where
  "lock_page pfn st = st\<lparr>core_semas := (core_semas st)(lock_slot_of pfn := core_semas st (lock_slot_of pfn) - 1)\<rparr>"

definition clock_page :: "nat \<Rightarrow> kmem \<Rightarrow> nat \<times> kmem" where
  "clock_page pfn st = (if core_semas st (lock_slot_of pfn) \<le> 0 then (1, st) else (0, lock_page pfn st))"

definition unlock_page :: "nat \<Rightarrow> kmem \<Rightarrow> kmem" where
  "unlock_page pfn st = st\<lparr>core_semas := (core_semas st)(lock_slot_of pfn := core_semas st (lock_slot_of pfn) + 1)\<rparr>"

definition set_core :: "nat \<Rightarrow> addr \<Rightarrow> u16 \<Rightarrow> kmem \<Rightarrow> kmem option" where
  "set_core pfn ps idx st =
     (if \<not> (0 < pfn \<and> pfn < bootpgs st) then None
      else
        let st1 = lock_page pfn st
        in Some (unlock_page pfn (st1\<lparr>c_free := (c_free st1)(pfn := ps), c_psidx := (c_psidx st1)(pfn := idx)\<rparr>)))"

section \<open>Pools\<close>

text \<open>
  What a client of a pool of interchangeable units relies on: \<open>rep s F U\<close> says that in state \<open>s\<close>
  the units of \<open>F\<close> are free and those of \<open>U\<close> handed out.  The client lemmas: however calls
  follow each other, no unit is handed out twice, none is lost, and giving back never fails.
\<close>

datatype 'a pool_op = Get | Give 'a

fun pool_run :: "('s \<Rightarrow> ('a \<times> 's) option) \<Rightarrow> ('a \<Rightarrow> 's \<Rightarrow> 's option) \<Rightarrow> 'a pool_op list \<Rightarrow> 's \<Rightarrow> 'a list \<Rightarrow> ('s \<times> 'a list) option" where
  "pool_run get give [] s us = Some (s, us)"
| "pool_run get give (Get # ops) s us =
     (case get s of None \<Rightarrow> pool_run get give ops s us | Some (x, s') \<Rightarrow> pool_run get give ops s' (x # us))"
| "pool_run get give (Give x # ops) s us =
     (if x \<in> set us then Option.bind (give x s) (\<lambda>s'. pool_run get give ops s' (remove1 x us))
      else pool_run get give ops s us)"

locale pool =
  fixes get :: "'s \<Rightarrow> ('a \<times> 's) option"
    and give :: "'a \<Rightarrow> 's \<Rightarrow> 's option"
    and rep :: "'s \<Rightarrow> 'a set \<Rightarrow> 'a set \<Rightarrow> bool"
  assumes rep_disjoint: "rep s F U \<Longrightarrow> F \<inter> U = {}"
    and get_some: "rep s F U \<Longrightarrow> get s = Some (x, s') \<Longrightarrow> x \<in> F \<and> rep s' (F - {x}) (insert x U)"
    and get_none: "rep s F U \<Longrightarrow> get s = None \<Longrightarrow> F = {}"
    and give_some: "rep s F U \<Longrightarrow> x \<in> U \<Longrightarrow> \<exists>s'. give x s = Some s' \<and> rep s' (insert x F) (U - {x})"
begin

lemma run_unique:
  "rep s F (set us) \<Longrightarrow> distinct us \<Longrightarrow>
   \<exists>s' us' F'. pool_run get give ops s us = Some (s', us') \<and> rep s' F' (set us') \<and> distinct us' \<and>
     F' \<union> set us' = F \<union> set us"
proof (induction ops arbitrary: s F us)
  case (Cons a ops)
  show ?case
  proof (cases a)
    case Get
    show ?thesis
    proof (cases "get s")
      case None
      then show ?thesis using Get Cons by simp
    next
      case (Some xs)
      obtain x s1 where x: "xs = (x, s1)" by (cases xs)
      have r: "x \<in> F" "rep s1 (F - {x}) (set (x # us))" using get_some [OF Cons.prems(1)] Some x by auto
      have "x \<notin> set us" using rep_disjoint [OF Cons.prems(1)] r(1) by auto
      then have "distinct (x # us)" using Cons.prems(2) by simp
      moreover have "F - {x} \<union> set (x # us) = F \<union> set us" using r(1) by auto
      ultimately show ?thesis using Cons.IH [OF r(2)] Get Some x by simp
    qed
  next
    case (Give x)
    show ?thesis
    proof (cases "x \<in> set us")
      case True
      obtain s1 where s1: "give x s = Some s1" "rep s1 (insert x F) (set us - {x})"
        using give_some [OF Cons.prems(1) True] by auto
      have "set (remove1 x us) = set us - {x}" using Cons.prems(2) by simp
      then have "\<exists>s' us' F'. pool_run get give ops s1 (remove1 x us) = Some (s', us') \<and> rep s' F' (set us') \<and>
          distinct us' \<and> F' \<union> set us' = insert x F \<union> (set us - {x})"
        using Cons.IH [of s1 "insert x F" "remove1 x us"] s1(2) Cons.prems(2) by simp
      moreover have "insert x F \<union> (set us - {x}) = F \<union> set us" using True by auto
      ultimately show ?thesis using Give True s1(1) by simp
    next
      case False
      then show ?thesis using Give Cons by simp
    qed
  qed
qed auto

end

section \<open>The pages as a pool\<close>

definition pages :: "kmem \<Rightarrow> nat set \<Rightarrow> nat set \<Rightarrow> bool" where
  "pages st F U = (\<exists>fs. chain (c_free st) (freelist st) fs \<and> distinct fs \<and> set fs = F \<and>
     unat (freemem st) = length fs \<and> F \<inter> U = {} \<and> bootpgs st < 4294967296 \<and>
     (\<forall>x \<in> F \<union> U. 0 < x \<and> x < bootpgs st) \<and> (\<forall>x \<in> U. c_flags st x AND C_BAD = 0))"

lemma alloc_page_pages:
  assumes "pages st F U"
  shows "case alloc_page st of None \<Rightarrow> F = {}
    | Some (x, st') \<Rightarrow> x \<in> F \<and> pages st' (F - {x}) (insert x U) \<and> c_flags st' x = C_ALLOC \<and>
        (\<forall>y. y \<noteq> x \<longrightarrow> c_flags st' y = c_flags st y) \<and> ktrans st' = ktrans st \<and> vmap st' = vmap st"
proof -
  obtain fs where fs: "chain (c_free st) (freelist st) fs" "distinct fs" "set fs = F" "unat (freemem st) = length fs"
    "F \<inter> U = {}" "bootpgs st < 4294967296" "\<forall>x \<in> F \<union> U. 0 < x \<and> x < bootpgs st"
    "\<forall>x \<in> U. c_flags st x AND C_BAD = 0"
    using assms by (auto simp: pages_def)
  show ?thesis
  proof (cases fs)
    case Nil
    then have "freemem st = 0" using fs(4) by (simp add: unat_eq_zero)
    then show ?thesis using Nil fs(3) by (simp add: alloc_page_def alloc_page_try_def)
  next
    case (Cons x xs)
    have nz: "freemem st \<noteq> 0" using fs(4) Cons by auto
    have x: "freelist st = x" using fs(1) Cons by simp
    have ch: "chain ((c_free st)(x := 0)) (c_free st x) xs" using fs(1,2) Cons by (simp add: chain_upd_notin)
    have len: "unat (freemem st - 1) = length xs" using nz fs(4) Cons by (simp add: unat_minus_one)
    have set: "set xs = F - {x}" using fs(2,3) Cons by auto
    have bad: "C_ALLOC AND C_BAD = 0" by (simp add: C_ALLOC_def C_BAD_def)
    have "x \<in> F" using Cons fs(3) by auto
    then show ?thesis using nz x ch len set fs(5-8) bad Cons fs(2)
      by (auto simp: alloc_page_def alloc_page_try_def Let_def pages_def)
  qed
qed

lemma free_page_pages:
  assumes "pages st F U" "x \<in> U"
  shows "\<exists>st'. free_page x st = Some st' \<and> pages st' (insert x F) (U - {x}) \<and> ktrans st' = ktrans st \<and> vmap st' = vmap st \<and>
    (\<forall>y. y \<noteq> x \<longrightarrow> c_flags st' y = c_flags st y)"
proof -
  obtain fs where fs: "chain (c_free st) (freelist st) fs" "distinct fs" "set fs = F" "unat (freemem st) = length fs"
    "F \<inter> U = {}" "bootpgs st < 4294967296" "\<forall>x \<in> F \<union> U. 0 < x \<and> x < bootpgs st"
    "\<forall>x \<in> U. c_flags st x AND C_BAD = 0"
    using assms(1) by (auto simp: pages_def)
  have x: "x \<notin> set fs" "0 < x" "x < bootpgs st" "c_flags st x AND C_BAD = 0" using fs assms(2) by auto
  have "set (x # fs) \<subseteq> {0 ..< bootpgs st}" using fs(3,7) assms(2) by auto
  then have "card (set (x # fs)) \<le> bootpgs st" by (metis card_atLeastLessThan card_mono diff_zero finite_atLeastLessThan)
  then have "Suc (length fs) < 4294967296" using x(1) fs(2,6) distinct_card [of "x # fs"] by simp
  then have len: "unat (freemem st + 1) = Suc (length fs)" using fs(4) unat_add_no_overflow [of "freemem st" 1] by simp
  have ch: "chain ((c_free st)(x := freelist st)) (freelist st) fs" using fs(1) x(1) by (simp add: chain_upd_notin)
  have w: "chain_walk (c_free st) (freelist st) = Some fs" by (rule chain_walk_chain [OF fs(1)])
  have "(c_flags st x AND NOT C_ALLOC) AND C_BAD = (c_flags st x AND C_BAD) AND NOT C_ALLOC"
    by (rule bit_word_eqI) (auto simp: bit_simps)
  then have b: "(c_flags st x AND NOT C_ALLOC) AND C_BAD = 0" using x(4) by simp
  show ?thesis using x w b fs(2,3,5-8) ch len assms(2)
    by (auto simp: free_page_def Let_def pages_def intro!: exI [of _ "x # fs"])
qed

interpretation core: pool alloc_page free_page pages
proof
  fix st :: kmem and F U :: "nat set"
  assume r: "pages st F U"
  show "F \<inter> U = {}" using r by (auto simp: pages_def)
  show "x \<in> F \<and> pages st' (F - {x}) (insert x U)" if "alloc_page st = Some (x, st')" for x st'
    using alloc_page_pages [OF r] that by simp
  show "F = {}" if "alloc_page st = None" using alloc_page_pages [OF r] that by simp
  show "\<exists>st'. free_page x st = Some st' \<and> pages st' (insert x F) (U - {x})" if "x \<in> U" for x
    using free_page_pages [OF r that] by blast
qed

text \<open>
  C23. Single pages: whatever the order of calls of \<open>alloc_page\<close> and \<open>free_page\<close>, no page is in use
  twice, none is lost, and \<open>free_page\<close> of a page in use passes all its assertions.
\<close>

theorem pages_unique:
  assumes "pages st F (set us)" "distinct us"
  shows "\<exists>st' us' F'. pool_run alloc_page free_page ops st us = Some (st', us') \<and> pages st' F' (set us') \<and>
    distinct us' \<and> F' \<union> set us' = F \<union> set us"
  using assms by (rule core.run_unique)

definition demo_boot :: kmem where
  "demo_boot = \<lparr>c_flags = \<lambda>_. 0, c_psidx = \<lambda>_. 0, c_free = \<lambda>_. 0, freelist = 0, freemem = 0, totalmem = 0,
      mem_sema = 0, bootpgs = 8, vmap = [\<lparr>r_off = 1, r_size = 4\<rparr>, \<lparr>r_off = 0xC00, r_size = 16\<rparr>, \<lparr>r_off = 0, r_size = 0\<rparr>,
        \<lparr>r_off = 0, r_size = 0\<rparr>, \<lparr>r_off = 0, r_size = 0\<rparr>], vmap_sema = 0, core_semas = \<lambda>_. 1, ktrans = \<lambda>_. None\<rparr>"

definition demo_mem :: kmem where
  "demo_mem = init_page 2 [(0, 0x3000), (0x4000, 0x4000)] demo_boot"

section \<open>The free list of the start\<close>

definition in_hole :: "(u32 \<times> u32) list \<Rightarrow> nat \<Rightarrow> bool" where
  "in_hole ms y = (\<exists>i. Suc i < length ms \<and> unat (drop_bit 12 (fst (ms ! i) + snd (ms ! i))) \<le> y \<and>
     y < unat (drop_bit 12 (fst (ms ! Suc i))))"

lemma in_hole_Cons:
  "in_hole ((b, l) # (b2, l2) # ms) y = (unat (drop_bit 12 (b + l)) \<le> y \<and> y < unat (drop_bit 12 b2) \<or> in_hole ((b2, l2) # ms) y)"
proof -
  have "in_hole ((b, l) # (b2, l2) # ms) y = (\<exists>i. i < Suc (length ms) \<and>
      unat (drop_bit 12 (fst (((b, l) # (b2, l2) # ms) ! i) + snd (((b, l) # (b2, l2) # ms) ! i))) \<le> y \<and>
      y < unat (drop_bit 12 (fst (((b2, l2) # ms) ! i))))"
    by (simp add: in_hole_def)
  also have "\<dots> = (unat (drop_bit 12 (b + l)) \<le> y \<and> y < unat (drop_bit 12 b2) \<or> in_hole ((b2, l2) # ms) y)"
    by (subst Ex_less_Suc2) (simp add: in_hole_def)
  finally show ?thesis .
qed

lemma mark_holes_eq: "mark_holes ms fl y = (if in_hole ms y then C_BAD else fl y)"
proof (induction ms fl rule: mark_holes.induct)
  case (1 base len base2 len2 ms fl)
  then show ?case by (auto simp: in_hole_Cons)
qed (simp_all add: in_hole_def)

definition usable :: "(nat \<Rightarrow> u16) \<Rightarrow> nat \<Rightarrow> bool" where
  "usable fl c = (fl c AND (C_SYS OR C_BAD) = 0)"

lemma link_free_pages:
  assumes "pages st F {}" "distinct cs" "\<forall>c \<in> set cs. c < bootpgs st \<and> c \<notin> F \<and> (usable (c_flags st) c \<longrightarrow> 0 < c)"
  shows "pages (link_free cs st) (F \<union> {c \<in> set cs. usable (c_flags st) c}) {} \<and> c_flags (link_free cs st) = c_flags st \<and>
    bootpgs (link_free cs st) = bootpgs st"
  using assms
proof (induction cs arbitrary: st F)
  case (Cons c cs)
  define st1 where "st1 = (if c_flags st c AND (C_SYS OR C_BAD) \<noteq> 0 then st
       else st\<lparr>c_free := (c_free st)(c := freelist st), freelist := c, freemem := freemem st + 1\<rparr>)"
  define F1 where "F1 = (if usable (c_flags st) c then insert c F else F)"
  have "pages st1 F1 {}"
  proof (cases "usable (c_flags st) c")
    case True
    obtain fs where fs: "chain (c_free st) (freelist st) fs" "distinct fs" "set fs = F" "unat (freemem st) = length fs"
      "bootpgs st < 4294967296" "\<forall>x \<in> F. 0 < x \<and> x < bootpgs st"
      using Cons.prems(1) by (auto simp: pages_def)
    have c: "c \<notin> set fs" "0 < c" "c < bootpgs st" using Cons.prems(3) fs(3) True by auto
    have "set (c # fs) \<subseteq> {0 ..< bootpgs st}" using fs(3,6) c by auto
    then have "card (set (c # fs)) \<le> bootpgs st" by (metis card_atLeastLessThan card_mono diff_zero finite_atLeastLessThan)
    then have "Suc (length fs) < 4294967296" using c fs(2,5) distinct_card [of "c # fs"] by simp
    then have "unat (freemem st + 1) = Suc (length fs)" using fs(4) unat_add_no_overflow [of "freemem st" 1] by simp
    then show ?thesis using True fs c
      by (auto simp: pages_def st1_def F1_def usable_def chain_upd_notin intro!: exI [of _ "c # fs"])
  next
    case False
    then show ?thesis using Cons.prems(1) by (simp add: st1_def F1_def usable_def)
  qed
  moreover have "c_flags st1 = c_flags st" "bootpgs st1 = bootpgs st" by (simp_all add: st1_def)
  moreover have "distinct cs" "\<forall>c \<in> set cs. c < bootpgs st1 \<and> c \<notin> F1 \<and> (usable (c_flags st1) c \<longrightarrow> 0 < c)"
    using Cons.prems(2,3) calculation(2,3) by (auto simp: F1_def)
  ultimately have "pages (link_free cs st1) (F1 \<union> {c \<in> set cs. usable (c_flags st) c}) {} \<and> c_flags (link_free cs st1) = c_flags st \<and>
    bootpgs (link_free cs st1) = bootpgs st" using Cons.IH [of st1 F1] by simp
  moreover have "F1 \<union> {c \<in> set cs. usable (c_flags st) c} = F \<union> {x \<in> set (c # cs). usable (c_flags st) x}" by (auto simp: F1_def)
  ultimately show ?case by (simp add: st1_def)
qed simp

lemma init_page_pages:
  assumes "0 < hpgs" "bootpgs st < 4294967296"
  shows "pages (init_page hpgs ms st) {x. hpgs \<le> x \<and> x < bootpgs st \<and> \<not> in_hole ms x} {}"
proof -
  define st1 where "st1 = st\<lparr>c_psidx := \<lambda>_. 0, c_free := \<lambda>_. 0,
      c_flags := mark_holes ms (mark_sys hpgs (\<lambda>_. 0)), freelist := 0, freemem := 0\<rparr>"
  let ?F = "{x. hpgs \<le> x \<and> x < bootpgs st \<and> \<not> in_hole ms x}"
  have u: "usable (c_flags st1) c = (hpgs \<le> c \<and> \<not> in_hole ms c)" for c
    by (simp add: usable_def st1_def mark_holes_eq mark_sys_def C_SYS_def C_BAD_def)
  have "pages st1 {} {}" using assms by (simp add: pages_def st1_def)
  moreover have "\<forall>c \<in> set [0..<bootpgs st]. c < bootpgs st1 \<and> c \<notin> {} \<and> (usable (c_flags st1) c \<longrightarrow> 0 < c)"
    using assms u by (simp add: st1_def [THEN arg_cong [of _ _ bootpgs]])
  ultimately have "pages (link_free [0..<bootpgs st] st1) ({} \<union> {c \<in> set [0..<bootpgs st]. usable (c_flags st1) c}) {}"
    using link_free_pages [of st1 "{}" "[0..<bootpgs st]"] by simp
  moreover have "{} \<union> {c \<in> set [0..<bootpgs st]. usable (c_flags st1) c} = ?F" by (auto simp: u)
  ultimately have l: "pages (link_free [0..<bootpgs st] st1) ?F {}" by simp
  have i: "init_page hpgs ms st = (link_free [0..<bootpgs st] st1)
      \<lparr>totalmem := freemem (link_free [0..<bootpgs st] st1), vmap_sema := 0, core_semas := \<lambda>_. 1\<rparr>"
    by (simp add: init_page_def st1_def Let_def)
  then show ?thesis using l by (simp add: pages_def)
qed

text \<open>
  The start of the system: the free list holds exactly the pages above the kernel's heap that
  lie in no hole between the memory segments, and \<open>freemem\<close> counts them.
\<close>

theorem init_page_free:
  assumes "0 < hpgs" "bootpgs st < 4294967296"
  shows "pages (init_page hpgs ms st) {x. hpgs \<le> x \<and> x < bootpgs st \<and> \<not> in_hole ms x} {} \<and>
    unat (freemem (init_page hpgs ms st)) = card {x. hpgs \<le> x \<and> x < bootpgs st \<and> \<not> in_hole ms x} \<and>
    totalmem (init_page hpgs ms st) = freemem (init_page hpgs ms st)"
proof -
  note p = init_page_pages [OF assms, of ms]
  then have "unat (freemem (init_page hpgs ms st)) = card {x. hpgs \<le> x \<and> x < bootpgs st \<and> \<not> in_hole ms x}"
    by (auto simp: pages_def dest: distinct_card)
  then show ?thesis using p by (simp add: init_page_def Let_def)
qed

lemma demo_free_set: "{x. 2 \<le> x \<and> x < 8 \<and> \<not> in_hole [(0, 0x3000), (0x4000, 0x4000)] x} = {2, 4, 5, 6, 7 :: nat}"
proof -
  have "in_hole [(0, 0x3000), (0x4000, 0x4000)] x = (x = 3)" for x
    by (simp add: in_hole_Cons) (auto simp: in_hole_def)
  moreover have "{x. 2 \<le> x \<and> x < 8 \<and> x \<noteq> 3} = {2, 4, 5, 6, 7 :: nat}" by auto
  ultimately show ?thesis by simp
qed

lemma demo_boot_size: "bootpgs demo_boot = 8"
  by (simp add: demo_boot_def)

theorem init_page_free_witness:
  "pages demo_mem {2, 4, 5, 6, 7} {} \<and> unat (freemem demo_mem) = 5 \<and> totalmem demo_mem = freemem demo_mem"
  using init_page_free [of 2 demo_boot "[(0, 0x3000), (0x4000, 0x4000)]"]
  by (simp add: demo_boot_size demo_free_set demo_mem_def)

lemma demo_mem_pages: "pages demo_mem {2, 4, 5, 6, 7} {}"
  using init_page_pages [of 2 demo_boot "[(0, 0x3000), (0x4000, 0x4000)]"]
  by (simp add: demo_boot_size demo_free_set demo_mem_def)

theorem pages_unique_witness:
  "\<exists>st' us' F'. pool_run alloc_page free_page [Get, Get, Give 7, Get] demo_mem [] = Some (st', us') \<and>
     pages st' F' (set us') \<and> distinct us' \<and> F' \<union> set us' = {2, 4, 5, 6, 7}"
  using pages_unique [of demo_mem "{2, 4, 5, 6, 7}" "[]" "[Get, Get, Give 7, Get]"] demo_mem_pages by simp

section \<open>Contiguous kernel memory\<close>

lemma map_pages_ok:
  assumes "pages st F U" "n \<le> card F"
  shows "\<exists>st' ps. map_pages v n st = Some st' \<and> length ps = n \<and> distinct ps \<and> set ps \<subseteq> F \<and>
    pages st' (F - set ps) (U \<union> set ps) \<and> vmap st' = vmap st \<and>
    (\<forall>i < n. ktrans st' (v + i) = Some (ps ! i)) \<and> (\<forall>w. w < v \<or> v + n \<le> w \<longrightarrow> ktrans st' w = ktrans st w)"
  using assms
proof (induction n arbitrary: v st F U)
  case (Suc n)
  have "F \<noteq> {}" using Suc.prems(2) by auto
  then obtain pg st1 where a: "alloc_page st = Some (pg, st1)" "pg \<in> F" "pages st1 (F - {pg}) (insert pg U)" "ktrans st1 = ktrans st"
    "vmap st1 = vmap st" "c_flags st1 pg = C_ALLOC"
    using alloc_page_pages [OF Suc.prems(1)] by (auto split: option.splits)
  let ?st2 = "st1\<lparr>c_flags := (c_flags st1)(pg := c_flags st1 pg OR C_SYS), ktrans := (ktrans st1)(v \<mapsto> pg)\<rparr>"
  have "(C_ALLOC OR C_SYS) AND C_BAD = 0" by (simp add: C_ALLOC_def C_SYS_def C_BAD_def)
  then have p: "pages ?st2 (F - {pg}) (insert pg U)" using a(3,6) by (auto simp: pages_def)
  have "finite F" using Suc.prems(2) card.infinite by fastforce
  then have "n \<le> card (F - {pg})" using Suc.prems(2) a(2) by simp
  from Suc.IH [OF p this, of "Suc v"] obtain st' ps where i: "map_pages (Suc v) n ?st2 = Some st'" "length ps = n" "distinct ps"
    "set ps \<subseteq> F - {pg}" "pages st' (F - {pg} - set ps) (insert pg U \<union> set ps)" "vmap st' = vmap st1"
    "\<forall>i < n. ktrans st' (Suc v + i) = Some (ps ! i)" "\<forall>w. w < Suc v \<or> Suc v + n \<le> w \<longrightarrow> ktrans st' w = ktrans ?st2 w"
    by auto
  have "F - {pg} - set ps = F - set (pg # ps)" "insert pg U \<union> set ps = U \<union> set (pg # ps)" by auto
  moreover have "ktrans st' (v + i) = Some ((pg # ps) ! i)" if "i < Suc n" for i
    using that i(7,8) by (cases i) auto
  ultimately show ?case using a(1,2,4,5) i
    by (intro exI [of _ st'] exI [of _ "pg # ps"]) auto
qed (auto intro: exI [of _ "[]"])

lemma unmap_pages_ok:
  assumes "pages st F (U \<union> set ps)" "distinct ps" "U \<inter> set ps = {}" "\<forall>i < length ps. ktrans st (v + i) = Some (ps ! i)"
  shows "\<exists>st'. unmap_pages v (length ps) st = Some st' \<and> pages st' (F \<union> set ps) U \<and> vmap st' = vmap st \<and>
    (\<forall>i < length ps. ktrans st' (v + i) = None) \<and> (\<forall>w. w < v \<or> v + length ps \<le> w \<longrightarrow> ktrans st' w = ktrans st w)"
  using assms
proof (induction ps arbitrary: v st F)
  case (Cons pg ps)
  obtain st1 where f: "free_page pg st = Some st1" "pages st1 (insert pg F) (U \<union> set (pg # ps) - {pg})" "ktrans st1 = ktrans st" "vmap st1 = vmap st"
    using free_page_pages [OF Cons.prems(1), of pg] by auto
  let ?st2 = "st1\<lparr>ktrans := (ktrans st1)(v := None)\<rparr>"
  have "U \<union> set (pg # ps) - {pg} = U \<union> set ps" using Cons.prems(2,3) by auto
  then have p: "pages ?st2 (insert pg F) (U \<union> set ps)" using f(2) by (simp add: pages_def)
  have t: "ktrans st v = Some pg" using Cons.prems(4) by force
  have k: "\<forall>i < length ps. ktrans ?st2 (Suc v + i) = Some (ps ! i)" using Cons.prems(4) f(3) by fastforce
  have d: "distinct ps" "U \<inter> set ps = {}" using Cons.prems(2,3) by auto
  from Cons.IH [OF p d k] obtain st' where i: "unmap_pages (Suc v) (length ps) ?st2 = Some st'" "pages st' (insert pg F \<union> set ps) U"
    "vmap st' = vmap st1" "\<forall>i < length ps. ktrans st' (Suc v + i) = None"
    "\<forall>w. w < Suc v \<or> Suc v + length ps \<le> w \<longrightarrow> ktrans st' w = ktrans ?st2 w"
    by auto
  have "ktrans st' (v + i) = None" if "i < Suc (length ps)" for i
    using that i(4,5) by (cases i) auto
  then show ?case using t f i by auto
qed auto

text \<open>
  Contiguous kernel memory: \<open>alloc_pages\<close> maps as many different free pages, in order, at a range
  of virtual pages that nobody else holds, and \<open>free_pages\<close> gives the pages and the range back
  and removes the translations.
\<close>

theorem alloc_free_pages:
  assumes "pages st F U" "rmap_inv (vmap st)" "0 < npg" "unat npg \<le> card F" "fst (rmap_alloc (vmap st) npg) = v" "v \<noteq> 0"
  shows "\<exists>st1 ps st2. alloc_pages npg st = Some (v, st1) \<and> length ps = unat npg \<and> distinct ps \<and> set ps \<subseteq> F \<and>
    pages st1 (F - set ps) (U \<union> set ps) \<and> (\<forall>i < unat npg. ktrans st1 (unat v + i) = Some (ps ! i)) \<and>
    units v npg \<subseteq> rmap_units (vmap st) \<and> rmap_units (vmap st1) = rmap_units (vmap st) - units v npg \<and>
    free_pages v npg st1 = Some st2 \<and> pages st2 F U \<and> rmap_units (vmap st2) = rmap_units (vmap st) \<and>
    (\<forall>w \<in> units v npg. ktrans st2 w = None) \<and> (\<forall>w. w \<notin> units v npg \<longrightarrow> ktrans st2 w = ktrans st w)"
proof -
  obtain m where m: "rmap_alloc (vmap st) npg = (v, m)" using assms(5) by (cases "rmap_alloc (vmap st) npg") auto
  have u: "units v npg \<subseteq> rmap_units (vmap st)" "rmap_units m = rmap_units (vmap st) - units v npg"
    using rmap_alloc_spec [OF assms(2,3) m] assms(6) by auto
  obtain m2 where m2: "rmap_free m v npg = Some (m2, 0)" "rmap_units m2 = rmap_units (vmap st)"
    using alloc_then_free [OF assms(2,3) m assms(6)] by blast
  have p: "pages (st\<lparr>vmap := m\<rparr>) F U" using assms(1) by (simp add: pages_def)
  obtain st1 ps where a: "map_pages (unat v) (unat npg) (st\<lparr>vmap := m\<rparr>) = Some st1" "length ps = unat npg" "distinct ps"
    "set ps \<subseteq> F" "pages st1 (F - set ps) (U \<union> set ps)" "vmap st1 = m"
    "\<forall>i < unat npg. ktrans st1 (unat v + i) = Some (ps ! i)"
    "\<forall>w. w < unat v \<or> unat v + unat npg \<le> w \<longrightarrow> ktrans st1 w = ktrans st w"
    using map_pages_ok [OF p assms(4), of "unat v"] by auto
  have "U \<inter> set ps = {}" using a(4) assms(1) by (auto simp: pages_def)
  from unmap_pages_ok [OF a(5,3) this, of "unat v"] a(2,7)
  obtain st3 where f: "unmap_pages (unat v) (unat npg) st1 = Some st3" "pages st3 (F - set ps \<union> set ps) U" "vmap st3 = m"
    "\<forall>i < unat npg. ktrans st3 (unat v + i) = None"
    "\<forall>w. w < unat v \<or> unat v + unat npg \<le> w \<longrightarrow> ktrans st3 w = ktrans st1 w" using a(6) by auto
  have F: "F - set ps \<union> set ps = F" using a(4) by auto
  define st2 where "st2 = st3\<lparr>vmap := m2\<rparr>"
  have g: "free_pages v npg st1 = Some st2" using f m2(1) by (simp add: free_pages_def free_vmap_def st2_def)
  have none: "ktrans st2 w = None" if "w \<in> units v npg" for w
    using that f(4) [rule_format, of "w - unat v"] by (auto simp: st2_def units_def)
  have rest: "ktrans st2 w = ktrans st w" if "w \<notin> units v npg" for w
    using that f(5) a(8) by (auto simp: st2_def units_def not_less not_le)
  have "alloc_pages npg st = Some (v, st1)" using m a(1) assms(6) by (simp add: alloc_pages_def alloc_vmap_def)
  moreover have "pages st2 F U" using f(2) F by (simp add: st2_def pages_def)
  ultimately show ?thesis using a(2-7) u g none rest m2(2)
    by (intro exI [of _ st1] exI [of _ ps] exI [of _ st2]) (simp add: st2_def)
qed

lemma link_free_vmap [frame]: "vmap (link_free cs st) = vmap st"
  by (induction cs arbitrary: st) simp_all

theorem alloc_free_pages_witness:
  "\<exists>st1 ps st2. alloc_pages 3 demo_mem = Some (0xC00, st1) \<and> length ps = 3 \<and> distinct ps \<and> set ps \<subseteq> {2, 4, 5, 6, 7 :: nat} \<and>
     free_pages 0xC00 3 st1 = Some st2 \<and> pages st2 {2, 4, 5, 6, 7} {}"
proof -
  have v: "vmap demo_mem = vmap demo_boot" by (simp add: demo_mem_def init_page_def Let_def frame)
  have "rmap_inv (vmap demo_boot)" by (simp add: demo_boot_def rmap_inv_def rmap_elems_def)
  moreover have "fst (rmap_alloc [\<lparr>r_off = 1, r_size = 4\<rparr>, \<lparr>r_off = 0xC00, r_size = 16\<rparr>, \<lparr>r_off = 0, r_size = 0\<rparr>,
      \<lparr>r_off = 0, r_size = 0\<rparr>, \<lparr>r_off = 0, r_size = 0\<rparr>] 3) = 0xC00" by code_simp
  ultimately show ?thesis
    using alloc_free_pages [OF demo_mem_pages, of 3 "0xC00"] by (simp add: v) (auto simp: demo_boot_def)
qed

end
