(* ===== verification/Kernel_Malloc.thy ===== *)
theory Kernel_Malloc
  imports Core_Pages
begin

text \<open>
  The kernel's storage allocator, \<open>os/kern/malloc.c\<close>: buckets of chunks whose size is a power of
  two, carved out of pages, and whole pages for more than half a page.

  An address is a number of bytes.  A page that a bucket carves up is addressed through the
  linear mapping of physical memory, \<open>ptov\<close>; \<open>mapbase\<close> is its first virtual page.  \<open>struct page\<close>,
  which overlays the \<open>union\<close> of the page's \<open>core\<close> entry, is the maps \<open>p_bucket\<close> and \<open>p_out\<close>.  The
  list of a bucket, doubly linked with its header, is the list of the chunks from \<open>f_forw\<close> on,
  and the removal in place takes a chunk out of it.  A failing assertion, and a call that sleeps
  for memory, are \<open>None\<close>.
\<close>

record bucket =
  b_mem :: "nat list"
  b_elems :: u32
  b_pages :: u32
  b_size :: nat

record heap =
  km :: kmem
  mapbase :: nat
  p_bucket :: "nat \<Rightarrow> u16"
  p_out :: "nat \<Rightarrow> u16"
  buckets :: "nat \<Rightarrow> bucket"

abbreviation (input) PGSHIFT :: nat where "PGSHIFT \<equiv> 12"
abbreviation (input) NBPG :: nat where "NBPG \<equiv> 4096"
abbreviation (input) MIN_BUCKET :: nat where "MIN_BUCKET \<equiv> 4"

definition upd_bucket :: "nat \<Rightarrow> (bucket \<Rightarrow> bucket) \<Rightarrow> heap \<Rightarrow> heap" where
  "upd_bucket i f st = st\<lparr>buckets := (buckets st)(i := f (buckets st i))\<rparr>"

text \<open>\<open>btop(vtop(mem))\<close>: the physical page of a kernel address.\<close>

definition page_of :: "heap \<Rightarrow> nat \<Rightarrow> nat option" where
  "page_of st a =
     (let v = a div NBPG in
      if mapbase st \<le> v \<and> v < mapbase st + bootpgs (km st) then Some (v - mapbase st) else ktrans (km st) v)"

definition init_malloc :: "heap \<Rightarrow> heap" where
  "init_malloc st = st\<lparr>buckets := (\<lambda>x. if x < PGSHIFT then \<lparr>b_mem = [], b_elems = 0, b_pages = 0, b_size = 2 ^ x\<rparr> else buckets st x)\<rparr>"

text \<open>The choice of the bucket: the highest bit of the size, and one up if there are lower bits.\<close>

fun high_bit :: "u32 \<Rightarrow> nat \<Rightarrow> nat" where
  "high_bit sz b = (if b = 0 \<or> bit sz b then b else high_bit sz (b - 1))"

declare high_bit.simps [simp del]

definition bucket_of :: "u32 \<Rightarrow> nat" where
  "bucket_of sz =
     (if sz < 16 then MIN_BUCKET
      else let b = high_bit sz (PGSHIFT - 1) in if sz AND (push_bit b 1 - 1) \<noteq> 0 then b + 1 else b)"

definition alloc_hpage :: "heap \<Rightarrow> (nat \<times> heap) option" where
  "alloc_hpage st = map_option (\<lambda>(pg, m). (pg, st\<lparr>km := m\<rparr>)) (alloc_page (km st))"

text \<open>The chunks of a page, in the order in which the loop of \<open>malloc\<close> puts them on the list.\<close>

definition chunks_of :: "heap \<Rightarrow> nat \<Rightarrow> nat \<Rightarrow> nat list" where
  "chunks_of st i pg = map (\<lambda>k. (mapbase st + pg) * NBPG + k * b_size (buckets st i)) [0..<NBPG div b_size (buckets st i)]"

definition carve :: "nat \<Rightarrow> nat \<Rightarrow> heap \<Rightarrow> heap" where
  "carve i pg st =
     (let st1 = st\<lparr>km := (km st)\<lparr>c_flags := (c_flags (km st))(pg := c_flags (km st) pg OR C_SYS)\<rparr>,
                   p_bucket := (p_bucket st)(pg := of_nat i), p_out := (p_out st)(pg := 0)\<rparr>
      in upd_bucket i (\<lambda>b. b\<lparr>b_mem := rev (chunks_of st i pg) @ b_mem b,
           b_elems := b_elems b + of_nat (length (chunks_of st i pg)), b_pages := b_pages b + 1\<rparr>) st1)"

text \<open>The lines that take a chunk off the list, and count it in its page.\<close>

definition take_chunk :: "nat \<Rightarrow> heap \<Rightarrow> (nat \<times> heap) option" where
  "take_chunk i st =
     (case b_mem (buckets st i) of
        [] \<Rightarrow> None
      | f # fs \<Rightarrow>
          let st1 = upd_bucket i (\<lambda>b. b\<lparr>b_mem := fs, b_elems := b_elems b - 1\<rparr>) st in
          (case page_of st1 f of
             None \<Rightarrow> None
           | Some p \<Rightarrow> Some (f, st1\<lparr>p_out := (p_out st1)(p := p_out st1 p + 1)\<rparr>)))"

text \<open>
  \<open>malloc\<close> of at most half a page, from the lock on: \<open>pg\<close> is the page that the look without the
  lock has led to, 0 for none.
\<close>

definition malloc_locked :: "nat \<Rightarrow> nat \<Rightarrow> heap \<Rightarrow> (nat \<times> heap) option" where
  "malloc_locked i pg st =
     (case (if b_mem (buckets st i) = [] \<and> pg = 0 then alloc_hpage st else Some (pg, st)) of
        None \<Rightarrow> None
      | Some (pg, st1) \<Rightarrow>
          let dry = (b_mem (buckets st1 i) = []) in
          if dry \<and> (b_elems (buckets st1 i) \<noteq> 0 \<or> pg = 0) then None
          else
            let (spare, st2) = (if dry then (0, carve i pg st1) else (pg, st1)) in
            (case take_chunk i st2 of
               None \<Rightarrow> None
             | Some (f, st3) \<Rightarrow>
                 if spare \<noteq> 0 then map_option (\<lambda>m. (f, st3\<lparr>km := m\<rparr>)) (free_page spare (km st3))
                 else Some (f, st3)))"

text \<open>\<open>env\<close> is what other processors do between the look at the bucket and its lock.\<close>

definition malloc :: "(heap \<Rightarrow> heap) \<Rightarrow> u32 \<Rightarrow> heap \<Rightarrow> (nat \<times> heap) option" where
  "malloc env sz st =
     (if 2048 < sz then
        let pgs = drop_bit 12 (sz + 4095) in
        (case alloc_pages pgs (km st) of
           None \<Rightarrow> None
         | Some (v, m) \<Rightarrow>
             let st1 = st\<lparr>km := m\<rparr>; mem = unat v * NBPG in
             (case page_of st1 mem of
                None \<Rightarrow> None
              | Some p \<Rightarrow> Some (mem, st1\<lparr>p_bucket := (p_bucket st1)(p := of_nat (PGSHIFT + unat pgs))\<rparr>)))
      else
        let i = bucket_of sz in
        if b_mem (buckets st i) = [] then
          (case alloc_hpage st of None \<Rightarrow> None | Some (pg, st1) \<Rightarrow> malloc_locked i pg (env st1))
        else malloc_locked i 0 (env st))"

text \<open>The two halves of \<open>free\<close> of a chunk: it goes to its bucket, and its page may go back to the pool.\<close>

definition put_chunk :: "nat \<Rightarrow> nat \<Rightarrow> nat \<Rightarrow> heap \<Rightarrow> heap" where
  "put_chunk i pg mem st =
     (let st1 = upd_bucket i (\<lambda>b. b\<lparr>b_mem := mem # b_mem b, b_elems := b_elems b + 1\<rparr>) st
      in st1\<lparr>p_out := (p_out st1)(pg := p_out st1 pg - 1)\<rparr>)"

definition page_chunks :: "nat \<Rightarrow> nat \<Rightarrow> heap \<Rightarrow> nat list" where
  "page_chunks i mem st =
     map (\<lambda>k. mem div NBPG * NBPG + k * b_size (buckets st i)) [0..<NBPG div b_size (buckets st i)]"

definition reclaim :: "nat \<Rightarrow> nat \<Rightarrow> heap \<Rightarrow> heap" where
  "reclaim i mem st =
     upd_bucket i (\<lambda>b. b\<lparr>b_mem := fold remove1 (page_chunks i mem st) (b_mem b),
       b_elems := b_elems b - of_nat (length (page_chunks i mem st)), b_pages := b_pages b - 1\<rparr>) st"

definition kfree :: "nat \<Rightarrow> heap \<Rightarrow> heap option" where
  "kfree mem st =
     (case page_of st mem of
        None \<Rightarrow> None
      | Some pg \<Rightarrow>
          if PGSHIFT < unat (p_bucket st pg) then
            map_option (\<lambda>m. st\<lparr>km := m\<rparr>) (free_pages (of_nat (mem div NBPG)) (of_nat (unat (p_bucket st pg) - PGSHIFT)) (km st))
          else
            let i = unat (p_bucket st pg) in
            if mem \<in> set (b_mem (buckets st i)) then None
            else
              let st2 = put_chunk i pg mem st
              in if p_out st2 pg = 0 \<and> of_nat (NBPG div b_size (buckets st2 i)) < b_elems (buckets st2 i)
                 then let st3 = reclaim i mem st2 in map_option (\<lambda>m. st3\<lparr>km := m\<rparr>) (free_page pg (km st3))
                 else Some st2)"

section \<open>The choice of the bucket\<close>

lemma bit_top: "unat (sz :: u32) < 2 * 2 ^ b \<Longrightarrow> bit sz b = (2 ^ b \<le> unat sz)"
proof -
  assume a: "unat sz < 2 * 2 ^ b"
  have "bit (unat sz) b = odd (unat sz div 2 ^ b)" by (rule bit_iff_odd)
  then have "bit sz b = odd (unat sz div 2 ^ b)" by (simp add: bit_unsigned_iff)
  moreover have "unat sz div 2 ^ b < 2" using a by (simp add: less_mult_imp_div_less mult.commute)
  moreover have "(unat sz div 2 ^ b = 0) = (unat sz < 2 ^ b)" by (simp add: div_eq_0_iff)
  ultimately show ?thesis by (auto simp: less_2_cases_iff not_less)
qed

lemma high_bit_spec:
  "0 < unat sz \<Longrightarrow> unat sz < 2 * 2 ^ b \<Longrightarrow>
   high_bit sz b \<le> b \<and> 2 ^ high_bit sz b \<le> unat sz \<and> unat sz < 2 * 2 ^ high_bit sz b"
proof (induction sz b rule: high_bit.induct)
  case (1 sz b)
  show ?case
  proof (cases "b = 0 \<or> bit sz b")
    case True
    then have "high_bit sz b = b" by (subst high_bit.simps) simp
    then show ?thesis using True 1(2,3) bit_top [OF 1(3)] by auto
  next
    case False
    then obtain c where c: "b = Suc c" by (cases b) auto
    have "unat sz < 2 ^ b" using False bit_top [OF 1(3)] by simp
    then have "unat sz < 2 * 2 ^ c" using c by simp
    then show ?thesis using 1(1) [OF False 1(2)] False c by (subst (1 2 3) high_bit.simps) auto
  qed
qed

lemma bucket_of_spec:
  assumes "sz \<le> 2048"
  shows "MIN_BUCKET \<le> bucket_of sz \<and> bucket_of sz < PGSHIFT \<and> unat sz \<le> 2 ^ bucket_of sz \<and>
    (bucket_of sz = MIN_BUCKET \<or> 2 ^ (bucket_of sz - 1) < unat sz)"
proof (cases "sz < 16")
  case True
  then show ?thesis by (simp add: bucket_of_def word_less_nat_alt)
next
  case False
  let ?h = "high_bit sz 11"
  have u: "16 \<le> unat sz" "unat sz \<le> 2048" using False assms by (simp_all add: word_le_nat_alt word_less_nat_alt)
  then have h: "?h \<le> 11" "2 ^ ?h \<le> unat sz" "unat sz < 2 * 2 ^ ?h" using high_bit_spec [of sz 11] by auto
  have lo: "4 \<le> ?h"
  proof (rule ccontr)
    assume "\<not> 4 \<le> ?h"
    then have "?h \<le> 3" by simp
    then have "(2 :: nat) ^ ?h \<le> 2 ^ 3" by (rule power_increasing) simp
    then show False using h(3) u(1) by simp
  qed
  have m: "(sz AND (push_bit ?h 1 - 1) \<noteq> 0) = (unat sz mod 2 ^ ?h \<noteq> 0)"
  proof -
    have "sz AND (push_bit ?h 1 - 1) = take_bit ?h sz" by (simp add: take_bit_eq_mask mask_eq_exp_minus_1 push_bit_eq_mult)
    moreover have "unat (take_bit ?h sz) = take_bit ?h (unat sz)" by (rule unsigned_take_bit_eq)
    moreover have "take_bit ?h (unat sz) = unat sz mod 2 ^ ?h" by (rule take_bit_eq_mod)
    ultimately show ?thesis by (metis unat_eq_zero)
  qed
  show ?thesis
  proof (cases "unat sz mod 2 ^ ?h = 0")
    case True
    then have "unat sz = 2 ^ ?h * (unat sz div 2 ^ ?h)" by (metis add.right_neutral mult_div_mod_eq)
    moreover have "unat sz div 2 ^ ?h = 1" using h(2,3) by (intro div_nat_eqI) simp_all
    ultimately have e: "unat sz = 2 ^ ?h" by simp
    have "(2 :: nat) ^ (?h - 1) < 2 ^ ?h" using lo by simp
    then show ?thesis using False m True e lo h(1) by (simp add: bucket_of_def Let_def)
  next
    case no: False
    have "2 ^ ?h < unat sz" using no h(2) by (cases "unat sz = 2 ^ ?h") auto
    moreover have "?h \<noteq> 11" using h(2) u(2) calculation by auto
    ultimately show ?thesis using False m no lo h by (simp add: bucket_of_def Let_def)
  qed
qed

section \<open>Chunks\<close>

text \<open>The chunks of size \<open>2 ^ i\<close> of a page, given its virtual page.\<close>

definition chunk_list :: "nat \<Rightarrow> nat \<Rightarrow> nat list" where
  "chunk_list i v = map (\<lambda>k. v * NBPG + k * 2 ^ i) [0..<NBPG div 2 ^ i]"

lemma chunk_div:
  assumes "a \<in> set (chunk_list i v)"
  shows "a div NBPG = v" "a + 2 ^ i \<le> Suc v * NBPG" "v * NBPG \<le> a"
proof -
  obtain k where k: "a = v * NBPG + k * 2 ^ i" "k < NBPG div 2 ^ i" using assms by (auto simp: chunk_list_def)
  then have "Suc k * 2 ^ i \<le> NBPG div 2 ^ i * 2 ^ i" by (intro mult_le_mono1) simp
  also have "\<dots> \<le> NBPG" by (rule div_times_less_eq_dividend)
  finally have b: "k * 2 ^ i + 2 ^ i \<le> NBPG" by simp
  then have "k * 2 ^ i < NBPG" by (metis add_gr_0 le_neq_implies_less less_add_same_cancel1 order_less_le_trans zero_less_numeral zero_less_power)
  then show "a div NBPG = v" "a + 2 ^ i \<le> Suc v * NBPG" "v * NBPG \<le> a" using k(1) b by auto
qed

lemma chunk_distinct: "distinct (chunk_list i v)"
  by (auto simp: chunk_list_def distinct_map inj_on_def)

lemma chunks_apart:
  assumes "a \<in> set (chunk_list i v)" "b \<in> set (chunk_list i v)" "a \<noteq> b"
  shows "a + 2 ^ i \<le> b \<or> b + 2 ^ i \<le> a"
proof -
  obtain k l where k: "a = v * NBPG + k * 2 ^ i" "b = v * NBPG + l * 2 ^ i" using assms(1,2) by (auto simp: chunk_list_def)
  then have "k < l \<or> l < k" using assms(3) by (metis nat_neq_iff)
  then have "Suc k * 2 ^ i \<le> l * 2 ^ i \<or> Suc l * 2 ^ i \<le> k * 2 ^ i" by (metis Suc_leI mult_le_mono1)
  then show ?thesis using k by auto
qed

lemma chunk_nonempty: "i < PGSHIFT \<Longrightarrow> chunk_list i v \<noteq> []"
proof -
  assume "i < PGSHIFT"
  then have "(2 :: nat) ^ i \<le> 2 ^ 12" by (intro power_increasing) auto
  then have "0 < NBPG div 2 ^ i" by (simp add: div_greater_zero_iff)
  then show ?thesis by (simp add: chunk_list_def)
qed

lemma chunk_count: "4 \<le> i \<Longrightarrow> length (chunk_list i v) \<le> 256"
proof -
  assume "4 \<le> i"
  then have "(2 :: nat) ^ 4 \<le> 2 ^ i" by (intro power_increasing) auto
  then have "NBPG div 2 ^ i \<le> NBPG div 2 ^ 4" by (intro div_le_mono2) auto
  then show ?thesis by (simp add: chunk_list_def)
qed

section \<open>The invariant\<close>

text \<open>
  \<open>F\<close> are the free pages, \<open>U\<close> the pages handed out, \<open>P i\<close> those of them that bucket \<open>i\<close> has carved
  up, and \<open>L i\<close> the chunks of bucket \<open>i\<close> that callers hold.
\<close>

definition all_chunks :: "nat \<Rightarrow> nat \<Rightarrow> nat set \<Rightarrow> nat set" where
  "all_chunks mb i pgs = (\<Union>pg \<in> pgs. set (chunk_list i (mb + pg)))"

definition bucket_ok :: "nat \<Rightarrow> nat \<Rightarrow> bucket \<Rightarrow> nat set \<Rightarrow> nat set \<Rightarrow> bool" where
  "bucket_ok mb i b pgs live = (b_size b = 2 ^ i \<and> distinct (b_mem b) \<and> unat (b_elems b) = length (b_mem b) \<and>
     set (b_mem b) \<inter> live = {} \<and> set (b_mem b) \<union> live = all_chunks mb i pgs)"

definition page_ok :: "heap \<Rightarrow> nat \<Rightarrow> nat set \<Rightarrow> nat \<Rightarrow> bool" where
  "page_ok st i live pg = (unat (p_bucket st pg) = i \<and> unat (p_out st pg) = card (live \<inter> set (chunk_list i (mapbase st + pg))))"

definition heap_ok :: "heap \<Rightarrow> nat set \<Rightarrow> nat set \<Rightarrow> (nat \<Rightarrow> nat set) \<Rightarrow> (nat \<Rightarrow> nat set) \<Rightarrow> bool" where
  "heap_ok st F U L P = (pages (km st) F U \<and> (mapbase st + bootpgs (km st)) * NBPG \<le> 2 ^ 32 \<and>
     (\<forall>i \<in> {MIN_BUCKET ..< PGSHIFT}. bucket_ok (mapbase st) i (buckets st i) (P i) (L i) \<and> P i \<subseteq> U \<and>
        (\<forall>pg \<in> P i. page_ok st i (L i) pg)) \<and>
     (\<forall>i \<in> {MIN_BUCKET ..< PGSHIFT}. \<forall>j \<in> {MIN_BUCKET ..< PGSHIFT}. i \<noteq> j \<longrightarrow> P i \<inter> P j = {}))"

lemma heap_okD:
  assumes "heap_ok st F U L P" "i \<in> {MIN_BUCKET ..< PGSHIFT}"
  shows "bucket_ok (mapbase st) i (buckets st i) (P i) (L i)" "P i \<subseteq> U" "\<And>pg. pg \<in> P i \<Longrightarrow> page_ok st i (L i) pg"
    "\<And>j. j \<in> {MIN_BUCKET ..< PGSHIFT} \<Longrightarrow> j \<noteq> i \<Longrightarrow> P i \<inter> P j = {}"
    "pages (km st) F U"
  using assms by (auto simp: heap_ok_def)

text \<open>A page that a thread has taken and that no bucket has carved up.\<close>

definition page_in_hand :: "nat set \<Rightarrow> (nat \<Rightarrow> nat set) \<Rightarrow> nat \<Rightarrow> bool" where
  "page_in_hand U P pg = (pg \<in> U \<and> (\<forall>j \<in> {MIN_BUCKET ..< PGSHIFT}. pg \<notin> P j))"

lemma page_owner:
  "heap_ok st F U L P \<Longrightarrow> i \<in> {MIN_BUCKET ..< PGSHIFT} \<Longrightarrow> j \<in> {MIN_BUCKET ..< PGSHIFT} \<Longrightarrow> x \<in> P i \<Longrightarrow> x \<in> P j \<Longrightarrow> j = i"
  by (metis heap_okD(4) disjoint_iff)

lemma heap_ok_page:
  assumes "heap_ok st F U L P" "i \<in> {MIN_BUCKET ..< PGSHIFT}" "pg \<in> P i"
  shows "0 < pg" "pg < bootpgs (km st)" "pg \<in> U"
proof -
  show "pg \<in> U" using heap_okD(2) [OF assms(1,2)] assms(3) by blast
  then show "0 < pg" "pg < bootpgs (km st)" using heap_okD(5) [OF assms(1,2)] by (auto simp: pages_def)
qed

lemma chunk_page:
  assumes "heap_ok st F U L P" "i \<in> {MIN_BUCKET ..< PGSHIFT}" "a \<in> all_chunks (mapbase st) i (P i)"
  shows "\<exists>pg. page_of st a = Some pg \<and> pg \<in> P i \<and> a \<in> set (chunk_list i (mapbase st + pg)) \<and>
    (\<forall>p \<in> P i. a \<in> set (chunk_list i (mapbase st + p)) \<longrightarrow> p = pg)"
proof -
  obtain pg where pg: "pg \<in> P i" "a \<in> set (chunk_list i (mapbase st + pg))" using assms(3) by (auto simp: all_chunks_def)
  have "page_of st a = Some pg"
    using chunk_div(1) [OF pg(2)] heap_ok_page(2) [OF assms(1,2) pg(1)] by (simp add: page_of_def)
  moreover have "p = pg" if "a \<in> set (chunk_list i (mapbase st + p))" for p
    using chunk_div(1) [OF that] chunk_div(1) [OF pg(2)] by simp
  ultimately show ?thesis using pg by blast
qed

text \<open>Blocks of the size of their bucket that are in use do not overlap.\<close>

lemma live_disjoint:
  assumes ok: "heap_ok st F U L P" and i: "i \<in> {MIN_BUCKET ..< PGSHIFT}" and j: "j \<in> {MIN_BUCKET ..< PGSHIFT}"
    and a: "a \<in> L i" and b: "b \<in> L j" and ne: "(a, i) \<noteq> (b, j)"
  shows "{a ..< a + 2 ^ i} \<inter> {b ..< b + 2 ^ j} = {}"
proof -
  have "a \<in> all_chunks (mapbase st) i (P i)" "b \<in> all_chunks (mapbase st) j (P j)"
    using heap_okD(1) [OF ok i] heap_okD(1) [OF ok j] a b by (auto simp: bucket_ok_def)
  then obtain p q where p: "p \<in> P i" "a \<in> set (chunk_list i (mapbase st + p))"
    and q: "q \<in> P j" "b \<in> set (chunk_list j (mapbase st + q))" by (auto simp: all_chunks_def)
  note A = chunk_div(2,3) [OF p(2)] and B = chunk_div(2,3) [OF q(2)]
  show ?thesis
  proof (cases "p = q")
    case True
    then have "i = j" using heap_okD(4) [OF ok i j] p(1) q(1) by blast
    then show ?thesis using chunks_apart [OF p(2), of b] q(2) True ne by auto
  next
    case False
    then have "Suc (mapbase st + p) * NBPG \<le> (mapbase st + q) * NBPG \<or> Suc (mapbase st + q) * NBPG \<le> (mapbase st + p) * NBPG"
      by (metis Suc_leI mult_le_mono1 nat_neq_iff nat_add_left_cancel_less)
    then show ?thesis using A B by auto
  qed
qed

lemma bucket_bound:
  assumes "heap_ok st F U L P" "i \<in> {MIN_BUCKET ..< PGSHIFT}" "distinct xs" "set xs \<subseteq> all_chunks (mapbase st) i (P i)"
  shows "length xs < 4294967296"
proof -
  have "x < (mapbase st + bootpgs (km st)) * NBPG \<and> 0 < x" if x: "x \<in> set xs" for x
  proof -
    obtain pg where pg: "pg \<in> P i" "x \<in> set (chunk_list i (mapbase st + pg))" using subsetD [OF assms(4) x] by (auto simp: all_chunks_def)
    note g = heap_ok_page(1,2) [OF assms(1,2) pg(1)]
    then have "Suc (mapbase st + pg) * NBPG \<le> (mapbase st + bootpgs (km st)) * NBPG" using g by (intro mult_le_mono1) simp
    moreover have "x < x + 2 ^ i" by simp
    ultimately have "x < (mapbase st + bootpgs (km st)) * NBPG" using chunk_div(2) [OF pg(2)] by linarith
    moreover have "0 < x" using chunk_div(3) [OF pg(2)] g(1) by (cases x) auto
    ultimately show ?thesis by simp
  qed
  then have "set xs \<subseteq> {1 ..< 4294967296}" using assms(1) by (force simp: heap_ok_def)
  then have "card (set xs) \<le> card {1 ..< 4294967296 :: nat}" by (intro card_mono) simp_all
  then show ?thesis using assms(3) by (simp add: distinct_card)
qed

section \<open>The steps\<close>

lemma all_chunks_upd:
  "all_chunks mb i (insert pg P) = set (chunk_list i (mb + pg)) \<union> all_chunks mb i P"
  by (auto simp: all_chunks_def)

text \<open>Only one bucket, its pages and its chunks change.\<close>

lemma heap_ok_upd:
  assumes ok: "heap_ok st F U L P" and i: "i \<in> {MIN_BUCKET ..< PGSHIFT}"
    and same: "mapbase st' = mapbase st" "bootpgs (km st') = bootpgs (km st)"
      "\<And>j. j \<noteq> i \<Longrightarrow> buckets st' j = buckets st j"
      "\<And>pg. pg \<notin> P i \<union> P' \<Longrightarrow> p_bucket st' pg = p_bucket st pg \<and> p_out st' pg = p_out st pg"
    and pages: "pages (km st') F' U'" "P' \<subseteq> U'" "\<And>j. j \<in> {MIN_BUCKET ..< PGSHIFT} \<Longrightarrow> j \<noteq> i \<Longrightarrow> P j \<subseteq> U' \<and> P' \<inter> P j = {}"
    and new: "bucket_ok (mapbase st) i (buckets st' i) P' L'" "\<And>pg. pg \<in> P' \<Longrightarrow> page_ok st' i L' pg"
  shows "heap_ok st' F' U' (L(i := L')) (P(i := P'))"
proof -
  have "page_ok st' j (L j) pg" if "j \<in> {MIN_BUCKET ..< PGSHIFT}" "j \<noteq> i" "pg \<in> P j" for j pg
  proof -
    have "pg \<notin> P i \<union> P'" using heap_okD(4) [OF ok i that(1,2)] pages(3) [OF that(1,2)] that(3) by blast
    then show ?thesis using heap_okD(3) [OF ok that(1,3)] same(1,4) by (simp add: page_ok_def)
  qed
  then show ?thesis
    using ok same pages new heap_okD(4) [OF ok i]
    unfolding heap_ok_def by (auto simp: Int_commute)
qed

lemma take_ok:
  assumes ok: "heap_ok st F U L P" and i: "i \<in> {MIN_BUCKET ..< PGSHIFT}" and b: "b_mem (buckets st i) = f # fs"
    and p: "page_of st f = Some p"
    and st': "st' = (upd_bucket i (\<lambda>b. b\<lparr>b_mem := fs, b_elems := b_elems b - 1\<rparr>) st)\<lparr>p_out := (p_out st)(p := p_out st p + 1)\<rparr>"
  shows "heap_ok st' F U (L(i := insert f (L i))) P \<and> f \<notin> L i"
proof -
  note B = heap_okD(1) [OF ok i, unfolded bucket_ok_def]
  have f: "f \<in> all_chunks (mapbase st) i (P i)" "f \<notin> L i" using B b by auto
  obtain pg where pg: "page_of st f = Some pg" "pg \<in> P i" "f \<in> set (chunk_list i (mapbase st + pg))"
    "\<forall>q \<in> P i. f \<in> set (chunk_list i (mapbase st + q)) \<longrightarrow> q = pg" using chunk_page [OF ok i f(1)] by blast
  have pp: "p = pg" using pg(1) p by simp
  have el: "unat (b_elems (buckets st i) - 1) = length fs"
  proof -
    have "b_elems (buckets st i) \<noteq> 0" using B b by auto
    then show ?thesis using B b by (simp add: unat_minus_one)
  qed
  have "page_ok st' i (insert f (L i)) q" if q: "q \<in> P i" for q
  proof (cases "q = pg")
    case True
    let ?C = "set (chunk_list i (mapbase st + pg))"
    have "card (insert f (L i) \<inter> ?C) = Suc (card (L i \<inter> ?C))" using pg(3) f(2) by simp
    moreover have "card (insert f (L i) \<inter> ?C) \<le> 256"
      using card_mono [of ?C "insert f (L i) \<inter> ?C"] chunk_count [of i "mapbase st + pg"] i distinct_card [OF chunk_distinct, of i "mapbase st + pg"] by simp
    moreover have "unat (p_out st pg) = card (L i \<inter> ?C)" "unat (p_bucket st pg) = i" using heap_okD(3) [OF ok i pg(2)] by (simp_all add: page_ok_def)
    ultimately show ?thesis using True st' pp unat_u16_inc [of "p_out st pg"] by (simp add: page_ok_def upd_bucket_def)
  next
    case False
    then have "f \<notin> set (chunk_list i (mapbase st + q))" using pg(4) q by blast
    then show ?thesis using False heap_okD(3) [OF ok i q] st' pp by (simp add: page_ok_def upd_bucket_def)
  qed
  moreover have "bucket_ok (mapbase st) i (buckets st' i) (P i) (insert f (L i))"
    using B b el f by (auto simp: bucket_ok_def st' upd_bucket_def)
  ultimately have "heap_ok st' F U (L(i := insert f (L i))) (P(i := P i))"
    using heap_okD(2,4,5) [OF ok] pg(2) pp i
    by (intro heap_ok_upd [OF ok i]) (auto simp: st' upd_bucket_def)
  then show ?thesis using f(2) by simp
qed

lemma carve_ok:
  assumes ok: "heap_ok st F U L P" and i: "i \<in> {MIN_BUCKET ..< PGSHIFT}" and b: "b_mem (buckets st i) = []"
    and pg: "pg \<in> U" "\<forall>j \<in> {MIN_BUCKET ..< PGSHIFT}. pg \<notin> P j"
  shows "heap_ok (carve i pg st) F U L (P(i := insert pg (P i))) \<and> b_mem (buckets (carve i pg st) i) \<noteq> []"
proof -
  let ?st' = "carve i pg st" and ?C = "chunk_list i (mapbase st + pg)"
  note B = heap_okD(1) [OF ok i, unfolded bucket_ok_def]
  have c: "chunks_of st i pg = ?C" using B by (simp add: chunks_of_def chunk_list_def)
  have bk: "buckets ?st' i = (buckets st i)\<lparr>b_mem := rev ?C, b_elems := b_elems (buckets st i) + of_nat (length ?C), b_pages := b_pages (buckets st i) + 1\<rparr>"
    using b by (simp add: carve_def c upd_bucket_def Let_def)
  have no: "set ?C \<inter> all_chunks (mapbase st) i (P i) = {}"
  proof -
    have "x \<notin> set (chunk_list i (mapbase st + q))" if "x \<in> set ?C" "q \<in> P i" for x q
      using that chunk_div(1) [OF that(1)] chunk_div(1) [of x i "mapbase st + q"] pg(2) i by auto
    then show ?thesis by (auto simp: all_chunks_def)
  qed
  have live: "L i = all_chunks (mapbase st) i (P i)" using B b by simp
  have e: "b_elems (buckets st i) = 0" using B b by (simp add: unat_eq_zero)
  have "length ?C < 4294967296" using chunk_count [of i "mapbase st + pg"] i by simp
  then have "unat (of_nat (length ?C) :: u32) = length ?C" by (simp add: unat_of_nat)
  then have bo: "bucket_ok (mapbase st) i (buckets ?st' i) (insert pg (P i)) (L i)"
    using B b no live e chunk_distinct [of i "mapbase st + pg"] by (auto simp: bucket_ok_def bk all_chunks_upd)
  have po: "page_ok ?st' i (L i) q" if "q \<in> insert pg (P i)" for q
  proof (cases "q = pg")
    case True
    moreover have "unat (of_nat i :: u16) = i" using i by (simp add: unat_of_nat)
    ultimately show ?thesis using no live by (simp add: page_ok_def carve_def upd_bucket_def Let_def Int_commute)
  next
    case False
    then show ?thesis using that heap_okD(3) [OF ok i, of q] by (simp add: page_ok_def carve_def upd_bucket_def Let_def)
  qed
  have pgs: "pages (km ?st') F U"
  proof -
    have "(c OR C_SYS) AND C_BAD = c AND C_BAD" for c :: u16
      by (rule bit_word_eqI) (auto simp: C_SYS_def C_BAD_def bit_simps)
    then show ?thesis using heap_okD(5) [OF ok i] by (auto simp: pages_def carve_def upd_bucket_def Let_def)
  qed
  have "heap_ok ?st' F U (L(i := L i)) (P(i := insert pg (P i)))"
    using bo po pgs heap_okD(2,4) [OF ok] pg i
    by (intro heap_ok_upd [OF ok i]) (auto simp: carve_def upd_bucket_def Let_def)
  then show ?thesis using bk chunk_nonempty [of i "mapbase st + pg"] i by simp
qed

lemma heap_ok_pages:
  assumes ok: "heap_ok st F U L P" and m: "pages m F' U'" "bootpgs m = bootpgs (km st)"
    and P: "\<forall>i \<in> {MIN_BUCKET ..< PGSHIFT}. P i \<subseteq> U'"
  shows "heap_ok (st\<lparr>km := m\<rparr>) F' U' L P"
  using assms by (auto simp: heap_ok_def page_ok_def)

lemma alloc_page_size: "alloc_page st = Some (pg, st') \<Longrightarrow> bootpgs st' = bootpgs st"
  by (auto simp: alloc_page_def alloc_page_try_def Let_def split: if_splits)

lemma free_page_size: "free_page pg st = Some st' \<Longrightarrow> bootpgs st' = bootpgs st"
  by (auto simp: free_page_def Let_def split: if_splits option.splits)

lemma page_of_cong: "mapbase st' = mapbase st \<Longrightarrow> bootpgs (km st') = bootpgs (km st) \<Longrightarrow> ktrans (km st') = ktrans (km st) \<Longrightarrow> page_of st' a = page_of st a"
  by (simp add: page_of_def Let_def)

lemma free_spare_ok:
  assumes ok: "heap_ok st F U L P" and pg: "pg \<in> U" "\<forall>j \<in> {MIN_BUCKET ..< PGSHIFT}. pg \<notin> P j"
  shows "\<exists>m. free_page pg (km st) = Some m \<and> heap_ok (st\<lparr>km := m\<rparr>) (insert pg F) (U - {pg}) L P"
proof -
  have p: "pages (km st) F U" using heap_okD(5) [OF ok, of MIN_BUCKET] by simp
  obtain m where m: "free_page pg (km st) = Some m" "pages m (insert pg F) (U - {pg})"
    using free_page_pages [OF p pg(1)] by auto
  have "heap_ok (st\<lparr>km := m\<rparr>) (insert pg F) (U - {pg}) L P"
    using heap_okD(2) [OF ok] pg(2) by (intro heap_ok_pages [OF ok m(2) free_page_size [OF m(1)]]) blast
  then show ?thesis using m(1) by blast
qed

lemma alloc_hpage_ok:
  assumes ok: "heap_ok st F U L P" and a: "alloc_hpage st = Some (pg, st')"
  shows "pg \<in> F \<and> heap_ok st' (F - {pg}) (insert pg U) L P \<and> pg \<noteq> 0 \<and> (\<forall>j \<in> {MIN_BUCKET ..< PGSHIFT}. pg \<notin> P j) \<and>
    buckets st' = buckets st \<and> (\<forall>a. page_of st' a = page_of st a)"
proof -
  have p: "pages (km st) F U" using heap_okD(5) [OF ok, of MIN_BUCKET] by simp
  obtain m where m: "alloc_page (km st) = Some (pg, m)" "st' = st\<lparr>km := m\<rparr>" using a by (auto simp: alloc_hpage_def)
  have q: "pg \<in> F" "pages m (F - {pg}) (insert pg U)" "ktrans m = ktrans (km st)" using alloc_page_pages [OF p] m(1) by simp_all
  have n: "pg \<noteq> 0" "pg \<notin> U" using p q(1) by (auto simp: pages_def)
  have "\<forall>j \<in> {MIN_BUCKET ..< PGSHIFT}. P j \<subseteq> U" using heap_okD(2) [OF ok] by blast
  then have "heap_ok st' (F - {pg}) (insert pg U) L P" "\<forall>j \<in> {MIN_BUCKET ..< PGSHIFT}. pg \<notin> P j"
    using heap_ok_pages [OF ok q(2) alloc_page_size [OF m(1)]] m(2) n(2) by blast+
  then show ?thesis using q n m alloc_page_size [OF m(1)] by (simp add: page_of_def Let_def)
qed

lemma take_chunk_ok:
  assumes ok: "heap_ok st F U L P" and i: "i \<in> {MIN_BUCKET ..< PGSHIFT}" and ne: "b_mem (buckets st i) \<noteq> []"
  shows "\<exists>f st'. take_chunk i st = Some (f, st') \<and> f \<notin> L i \<and> heap_ok st' F U (L(i := insert f (L i))) P"
proof -
  obtain f fs where b: "b_mem (buckets st i) = f # fs" using ne by (cases "b_mem (buckets st i)") auto
  then have "f \<in> all_chunks (mapbase st) i (P i)" using heap_okD(1) [OF ok i] by (auto simp: bucket_ok_def)
  then obtain p where p: "page_of st f = Some p" using chunk_page [OF ok i] by blast
  let ?st1 = "upd_bucket i (\<lambda>b. b\<lparr>b_mem := fs, b_elems := b_elems b - 1\<rparr>) st"
  have "take_chunk i st = Some (f, ?st1\<lparr>p_out := (p_out st)(p := p_out st p + 1)\<rparr>)"
    using b p page_of_cong [of ?st1 st f] by (simp add: take_chunk_def upd_bucket_def)
  then show ?thesis using take_ok [OF ok i b p refl] by blast
qed

text \<open>
  What the section of \<open>malloc\<close> under the lock returns, whatever it finds: with or without a spare
  page, in an empty or a filled bucket.
\<close>

lemma malloc_locked_ok:
  assumes ok: "heap_ok st F U L P" and i: "i \<in> {MIN_BUCKET ..< PGSHIFT}"
    and pg: "pg \<noteq> 0 \<longrightarrow> pg \<in> U \<and> (\<forall>j \<in> {MIN_BUCKET ..< PGSHIFT}. pg \<notin> P j)"
  shows "case malloc_locked i pg st of None \<Rightarrow> b_mem (buckets st i) = [] \<and> pg = 0 \<and> F = {}
    | Some (f, st') \<Rightarrow> f \<notin> L i \<and> (\<exists>F' U' P'. heap_ok st' F' U' (L(i := insert f (L i))) P' \<and> (\<forall>q. q \<noteq> pg \<longrightarrow> page_in_hand U P q \<longrightarrow> page_in_hand U' P' q))"
proof (cases "b_mem (buckets st i) = []")
  case False
  obtain f st' where t: "take_chunk i st = Some (f, st')" "f \<notin> L i" "heap_ok st' F U (L(i := insert f (L i))) P"
    using take_chunk_ok [OF ok i False] by blast
  show ?thesis
  proof (cases "pg = 0")
    case True
    moreover have "malloc_locked i pg st = Some (f, st')" using t(1) False True by (simp add: malloc_locked_def)
    ultimately show ?thesis using t by (simp del: fun_upd_apply) blast
  next
    case spare: False
    then obtain m where m: "free_page pg (km st') = Some m" "heap_ok (st'\<lparr>km := m\<rparr>) (insert pg F) (U - {pg}) (L(i := insert f (L i))) P"
      using free_spare_ok [OF t(3)] pg by blast
    have "malloc_locked i pg st = Some (f, st'\<lparr>km := m\<rparr>)" using t(1) m(1) False spare by (simp add: malloc_locked_def)
    moreover have "\<forall>q. q \<noteq> pg \<longrightarrow> page_in_hand U P q \<longrightarrow> page_in_hand (U - {pg}) P q" by (simp add: page_in_hand_def)
    ultimately show ?thesis using t(2) m(2) by (simp del: fun_upd_apply) blast
  qed
next
  case dry: True
  have go: "\<exists>f st'. malloc_locked i pg st = Some (f, st') \<and> f \<notin> L i \<and> heap_ok st' F1 U1 (L(i := insert f (L i))) (P(i := insert pg1 (P i)))"
    if o1: "heap_ok st1 F1 U1 L P" and b1: "b_mem (buckets st1 i) = []" and p1: "pg1 \<noteq> 0" "pg1 \<in> U1" "\<forall>j \<in> {MIN_BUCKET ..< PGSHIFT}. pg1 \<notin> P j"
      and f1: "(if b_mem (buckets st i) = [] \<and> pg = 0 then alloc_hpage st else Some (pg, st)) = Some (pg1, st1)" for st1 F1 U1 pg1
  proof -
    have c: "heap_ok (carve i pg1 st1) F1 U1 L (P(i := insert pg1 (P i)))" "b_mem (buckets (carve i pg1 st1) i) \<noteq> []"
      using carve_ok [OF o1 i b1 p1(2,3)] by auto
    have "b_elems (buckets st1 i) = 0" using heap_okD(1) [OF o1 i] b1 by (simp add: bucket_ok_def unat_eq_zero)
    then show ?thesis using take_chunk_ok [OF c(1) i c(2)] b1 p1(1) by (auto simp: malloc_locked_def f1)
  qed
  show ?thesis
  proof (cases "pg = 0")
    case False
    then obtain f st' where "malloc_locked i pg st = Some (f, st')" "f \<notin> L i"
      "heap_ok st' F U (L(i := insert f (L i))) (P(i := insert pg (P i)))"
      using go [OF ok dry False] pg by auto
    moreover have "\<forall>q. q \<noteq> pg \<longrightarrow> page_in_hand U P q \<longrightarrow> page_in_hand U (P(i := insert pg (P i))) q" by (auto simp: page_in_hand_def)
    ultimately show ?thesis by (simp del: fun_upd_apply) blast
  next
    case True
    show ?thesis
    proof (cases "alloc_hpage st")
      case None
      then have "F = {}" using alloc_page_pages [OF heap_okD(5) [OF ok i]] by (auto simp: alloc_hpage_def)
      then show ?thesis using dry True None by (simp add: malloc_locked_def)
    next
      case (Some r)
      then obtain pg1 st1 where a: "alloc_hpage st = Some (pg1, st1)" by (cases r) auto
      note A = alloc_hpage_ok [OF ok a]
      then have "\<exists>f st'. malloc_locked i pg st = Some (f, st') \<and> f \<notin> L i \<and>
          heap_ok st' (F - {pg1}) (insert pg1 U) (L(i := insert f (L i))) (P(i := insert pg1 (P i)))"
        using dry True a by (intro go) auto
      then obtain f st' where "malloc_locked i pg st = Some (f, st')" "f \<notin> L i"
        "heap_ok st' (F - {pg1}) (insert pg1 U) (L(i := insert f (L i))) (P(i := insert pg1 (P i)))" by blast
      moreover have "\<forall>q. q \<noteq> pg \<longrightarrow> page_in_hand U P q \<longrightarrow> page_in_hand (insert pg1 U) (P(i := insert pg1 (P i))) q"
        using A heap_okD(5) [OF ok i] by (auto simp: page_in_hand_def pages_def)
      ultimately show ?thesis by (simp del: fun_upd_apply) blast
    qed
  qed
qed

text \<open>Giving a chunk back to its bucket, and a page whose chunks are all free to the pool.\<close>

lemma put_ok:
  assumes ok: "heap_ok st F U L P" and i: "i \<in> {MIN_BUCKET ..< PGSHIFT}" and f: "f \<in> L i"
    and p: "page_of st f = Some pg"
  shows "heap_ok (put_chunk i pg f st) F U (L(i := L i - {f})) P"
proof -
  let ?st' = "put_chunk i pg f st"
  have st': "?st' = (upd_bucket i (\<lambda>b. b\<lparr>b_mem := f # b_mem b, b_elems := b_elems b + 1\<rparr>) st)\<lparr>p_out := (p_out st)(pg := p_out st pg - 1)\<rparr>"
    by (simp add: put_chunk_def upd_bucket_def)
  note B = heap_okD(1) [OF ok i, unfolded bucket_ok_def]
  have fa: "f \<in> all_chunks (mapbase st) i (P i)" "f \<notin> set (b_mem (buckets st i))" using B f by auto
  have pg: "pg \<in> P i" "f \<in> set (chunk_list i (mapbase st + pg))"
    "\<And>q. q \<in> P i \<Longrightarrow> f \<in> set (chunk_list i (mapbase st + q)) \<Longrightarrow> q = pg" using chunk_page [OF ok i fa(1)] p by auto
  have "length (f # b_mem (buckets st i)) < 4294967296"
    using B fa by (intro bucket_bound [OF ok i]) auto
  then have "unat (b_elems (buckets st i) + 1) = Suc (length (b_mem (buckets st i)))"
    using B by (simp add: unat_word_ariths)
  then have bo: "bucket_ok (mapbase st) i (buckets ?st' i) (P i) (L i - {f})"
    using B f fa by (auto simp: bucket_ok_def st' upd_bucket_def)
  have po: "page_ok ?st' i (L i - {f}) q" if q: "q \<in> P i" for q
  proof (cases "q = pg")
    case True
    let ?C = "set (chunk_list i (mapbase st + pg))"
    have c: "unat (p_out st pg) = card (L i \<inter> ?C)" "unat (p_bucket st pg) = i" using heap_okD(3) [OF ok i pg(1)] by (simp_all add: page_ok_def)
    have "(L i - {f}) \<inter> ?C = L i \<inter> ?C - {f}" by blast
    then have "card ((L i - {f}) \<inter> ?C) = card (L i \<inter> ?C) - 1" "card (L i \<inter> ?C) \<noteq> 0" using f pg(2) by auto
    moreover have "p_out st pg \<noteq> 0" using calculation(2) c(1) by auto
    ultimately show ?thesis using c True st' by (simp add: page_ok_def upd_bucket_def unat_minus_one unat_eq_zero)
  next
    case False
    then have "(L i - {f}) \<inter> set (chunk_list i (mapbase st + q)) = L i \<inter> set (chunk_list i (mapbase st + q))" using pg(3) q by blast
    then show ?thesis using False heap_okD(3) [OF ok i q] st' by (simp add: page_ok_def upd_bucket_def)
  qed
  have "heap_ok ?st' F U (L(i := L i - {f})) (P(i := P i))"
    using bo po heap_okD(2,4,5) [OF ok] pg(1) i
    by (intro heap_ok_upd [OF ok i]) (auto simp: st' upd_bucket_def)
  then show ?thesis by simp
qed

lemma fold_remove1_spec:
  "distinct xs \<Longrightarrow> distinct (fold remove1 cs xs) \<and> set (fold remove1 cs xs) = set xs - set cs"
  by (induction cs arbitrary: xs) (auto simp: set_remove1_eq)

lemma reclaim_ok:
  assumes ok: "heap_ok st F U L P" and i: "i \<in> {MIN_BUCKET ..< PGSHIFT}" and pg: "pg \<in> P i" and z: "p_out st pg = 0"
    and cs0: "page_chunks i f st = chunk_list i (mapbase st + pg)"
  shows "heap_ok (reclaim i f st) F U L (P(i := P i - {pg}))"
proof -
  let ?b = "buckets st i" and ?st' = "reclaim i f st"
  define cs where "cs = chunk_list i (mapbase st + pg)"
  note cs = cs_def
  have st': "?st' = upd_bucket i (\<lambda>b. b\<lparr>b_mem := fold remove1 cs (b_mem b), b_elems := b_elems b - of_nat (length cs), b_pages := b_pages b - 1\<rparr>) st"
    by (simp add: reclaim_def cs0 cs)
  note B = heap_okD(1) [OF ok i, unfolded bucket_ok_def]
  have "card (L i \<inter> set cs) = 0" using heap_okD(3) [OF ok i pg] z cs by (simp add: page_ok_def)
  then have nolive: "L i \<inter> set cs = {}" by simp
  have sub: "set cs \<subseteq> set (b_mem ?b)" using B nolive pg cs by (auto simp: all_chunks_def)
  have dc: "distinct cs" using cs chunk_distinct by simp
  note R = fold_remove1_spec [of "b_mem ?b" cs]
  have all: "all_chunks (mapbase st) i (P i - {pg}) = all_chunks (mapbase st) i (P i) - set cs"
  proof -
    have "set (chunk_list i (mapbase st + q)) \<inter> set cs = {}" if "q \<noteq> pg" for q
      using that chunk_div(1) [of _ i "mapbase st + q"] chunk_div(1) [of _ i "mapbase st + pg"] cs
      by (metis add_left_imp_eq disjoint_iff)
    then show ?thesis using cs by (auto simp: all_chunks_def)
  qed
  have len: "length (fold remove1 cs (b_mem ?b)) = length (b_mem ?b) - length cs" "length cs \<le> length (b_mem ?b)"
  proof -
    have "length (fold remove1 cs (b_mem ?b)) = card (set (b_mem ?b) - set cs)" using R B distinct_card by metis
    then show "length (fold remove1 cs (b_mem ?b)) = length (b_mem ?b) - length cs"
      using sub B dc by (simp add: card_Diff_subset distinct_card)
    show "length cs \<le> length (b_mem ?b)" using card_mono [OF _ sub] B dc by (simp add: distinct_card)
  qed
  have le: "of_nat (length cs) \<le> b_elems ?b" "unat (of_nat (length cs) :: u32) = length cs"
  proof -
    have "length cs < 4294967296" using chunk_count [of i "mapbase st + pg"] i cs by simp
    then show u: "unat (of_nat (length cs) :: u32) = length cs" by (simp add: unat_of_nat)
    then show "of_nat (length cs) \<le> b_elems ?b" using len(2) B by (simp add: word_le_nat_alt)
  qed
  have "unat (b_elems ?b - of_nat (length cs)) = length (fold remove1 cs (b_mem ?b))"
    using le len B by (simp add: unat_sub)
  then have bo: "bucket_ok (mapbase st) i (buckets ?st' i) (P i - {pg}) (L i)"
    using B R nolive all by (auto simp: bucket_ok_def st' upd_bucket_def)
  have "heap_ok ?st' F U (L(i := L i)) (P(i := P i - {pg}))"
    using bo heap_okD(2,3,5) [OF ok] i page_owner [OF ok i]
    by (intro heap_ok_upd [OF ok i]) (auto simp: st' upd_bucket_def page_ok_def)
  then show ?thesis by simp
qed

lemma kfree_ok:
  assumes ok: "heap_ok st F U L P" and i: "i \<in> {MIN_BUCKET ..< PGSHIFT}" and f: "f \<in> L i"
  shows "\<exists>st' F' U' P'. kfree f st = Some st' \<and> heap_ok st' F' U' (L(i := L i - {f})) P' \<and>
    (\<forall>q. page_in_hand U P q \<longrightarrow> page_in_hand U' P' q)"
proof -
  note B = heap_okD(1) [OF ok i, unfolded bucket_ok_def]
  have fa: "f \<in> all_chunks (mapbase st) i (P i)" "f \<notin> set (b_mem (buckets st i))" using B f by auto
  obtain pg where pg: "page_of st f = Some pg" "pg \<in> P i" "f \<in> set (chunk_list i (mapbase st + pg))"
    using chunk_page [OF ok i fa(1)] by blast
  have bk: "unat (p_bucket st pg) = i" using heap_okD(3) [OF ok i pg(2)] by (simp add: page_ok_def)
  let ?st2 = "put_chunk i pg f st" and ?st3 = "reclaim i f (put_chunk i pg f st)"
  have ok2: "heap_ok ?st2 F U (L(i := L i - {f})) P" by (rule put_ok [OF ok i f pg(1)])
  have bs: "b_size (buckets ?st2 i) = 2 ^ i" using heap_okD(1) [OF ok2 i] by (simp add: bucket_ok_def)
  have cs: "page_chunks i f ?st2 = chunk_list i (mapbase ?st2 + pg)"
    using chunk_div(1) [OF pg(3)] by (simp add: page_chunks_def chunk_list_def bs) (simp add: put_chunk_def upd_bucket_def)
  have k: "kfree f st = (if p_out ?st2 pg = 0 \<and> of_nat (NBPG div 2 ^ i) < b_elems (buckets ?st2 i)
    then map_option (\<lambda>m. ?st3\<lparr>km := m\<rparr>) (free_page pg (km ?st3)) else Some ?st2)"
    using pg(1) bk i fa(2) by (simp add: kfree_def Let_def bs)
  show ?thesis
  proof (cases "p_out ?st2 pg = 0 \<and> of_nat (NBPG div 2 ^ i) < b_elems (buckets ?st2 i)")
    case False
    then show ?thesis using k ok2 by (simp del: fun_upd_apply) blast
  next
    case True
    have ok3: "heap_ok ?st3 F U (L(i := L i - {f})) (P(i := P i - {pg}))"
      by (rule reclaim_ok [OF ok2 i pg(2) _ cs]) (use True in simp)
    have "pg \<in> U" "\<forall>j \<in> {MIN_BUCKET ..< PGSHIFT}. pg \<notin> (P(i := P i - {pg})) j"
      using heap_ok_page(3) [OF ok i pg(2)] page_owner [OF ok i _ pg(2)] by auto
    then obtain m where "free_page pg (km ?st3) = Some m"
      "heap_ok (?st3\<lparr>km := m\<rparr>) (insert pg F) (U - {pg}) (L(i := L i - {f})) (P(i := P i - {pg}))"
      using free_spare_ok [OF ok3] by blast
    moreover have "\<forall>q. page_in_hand U P q \<longrightarrow> page_in_hand (U - {pg}) (P(i := P i - {pg})) q"
      using pg(2) i by (auto simp: page_in_hand_def)
    ultimately show ?thesis using k True by (simp del: fun_upd_apply) blast
  qed
qed

section \<open>Threads that allocate and free\<close>

text \<open>
  The steps of any number of threads: taking a page after finding a bucket empty, the part of
  \<open>malloc\<close> under the lock of the bucket, with that page or without one, and \<open>free\<close>.  \<open>H\<close> are the
  pages in the hands of threads between the two, \<open>A\<close> the blocks held, with the sizes asked for.
\<close>

type_synonym mstate = "heap \<times> nat set \<times> (nat \<times> u32) set"

inductive malloc_step :: "mstate \<Rightarrow> mstate \<Rightarrow> bool" where
  look: "alloc_hpage st = Some (pg, st') \<Longrightarrow> malloc_step (st, H, A) (st', insert pg H, A)"
| lock: "pg \<in> insert 0 H \<Longrightarrow> sz \<le> 2048 \<Longrightarrow> malloc_locked (bucket_of sz) pg st = Some (f, st') \<Longrightarrow>
    malloc_step (st, H, A) (st', H - {pg}, insert (f, sz) A)"
| give: "(f, sz) \<in> A \<Longrightarrow> kfree f st = Some st' \<Longrightarrow> malloc_step (st, H, A) (st', H, A - {(f, sz)})"

inductive malloc_reach :: "mstate \<Rightarrow> mstate \<Rightarrow> bool" for s0 where
  start: "malloc_reach s0 s0"
| step: "malloc_reach s0 s \<Longrightarrow> malloc_step s s' \<Longrightarrow> malloc_reach s0 s'"

definition blocks :: "(nat \<times> u32) set \<Rightarrow> nat \<Rightarrow> nat set" where
  "blocks A i = {f. \<exists>sz. (f, sz) \<in> A \<and> bucket_of sz = i}"

definition malloc_inv :: "mstate \<Rightarrow> bool" where
  "malloc_inv s = (case s of (st, H, A) \<Rightarrow> \<exists>F U P. heap_ok st F U (blocks A) P \<and> (\<forall>pg \<in> H. page_in_hand U P pg) \<and>
     (\<forall>(f, sz) \<in> A. sz \<le> 2048) \<and> (\<forall>f sz sz'. (f, sz) \<in> A \<longrightarrow> (f, sz') \<in> A \<longrightarrow> sz = sz'))"

lemma block_bucket: "sz \<le> 2048 \<Longrightarrow> bucket_of sz \<in> {MIN_BUCKET ..< PGSHIFT}"
  using bucket_of_spec [of sz] by simp

text \<open>An address is a block of one bucket only.\<close>

lemma block_unique:
  assumes ok: "heap_ok st F U L P" and "i \<in> {MIN_BUCKET ..< PGSHIFT}" "j \<in> {MIN_BUCKET ..< PGSHIFT}" "f \<in> L i"
    and "f \<in> all_chunks (mapbase st) j (P j)"
  shows "i = j"
proof -
  have "f \<in> all_chunks (mapbase st) i (P i)" using heap_okD(1) [OF ok assms(2)] assms(4) by (auto simp: bucket_ok_def)
  then obtain p where p: "page_of st f = Some p" "p \<in> P i" using chunk_page [OF ok assms(2)] by blast
  obtain q where q: "page_of st f = Some q" "q \<in> P j" using chunk_page [OF ok assms(3,5)] by blast
  show ?thesis using page_owner [OF ok assms(2,3) p(2)] p(1) q by simp
qed

lemma blocks_insert: "blocks (insert (f, sz) A) = (blocks A)(bucket_of sz := insert f (blocks A (bucket_of sz)))"
  by (auto simp: blocks_def fun_eq_iff)

lemma blocks_remove:
  assumes "(f, sz) \<in> A" "\<forall>f sz sz'. (f, sz) \<in> A \<longrightarrow> (f, sz') \<in> A \<longrightarrow> sz = sz'"
  shows "blocks (A - {(f, sz)}) = (blocks A)(bucket_of sz := blocks A (bucket_of sz) - {f})"
  using assms by (auto simp: blocks_def fun_eq_iff)

lemma malloc_step_inv:
  assumes "malloc_step s s'" "malloc_inv s"
  shows "malloc_inv s'"
  using assms
proof cases
  case (look st pg st' H A)
  obtain F U P where i: "heap_ok st F U (blocks A) P" "\<forall>pg \<in> H. page_in_hand U P pg" "\<forall>(f, sz) \<in> A. sz \<le> 2048"
    "\<forall>f sz sz'. (f, sz) \<in> A \<longrightarrow> (f, sz') \<in> A \<longrightarrow> sz = sz'" using assms(2) look(1) by (auto simp: malloc_inv_def)
  note a = alloc_hpage_ok [OF i(1) look(3)]
  have "\<forall>q \<in> insert pg H. page_in_hand (insert pg U) P q" using a i(2) by (auto simp: page_in_hand_def)
  then show ?thesis using a i(3,4) look(2) by (auto simp: malloc_inv_def)
next
  case (lock pg H sz st f st' A)
  obtain F U P where i: "heap_ok st F U (blocks A) P" "\<forall>pg \<in> H. page_in_hand U P pg" "\<forall>(f, sz) \<in> A. sz \<le> 2048"
    "\<forall>f sz sz'. (f, sz) \<in> A \<longrightarrow> (f, sz') \<in> A \<longrightarrow> sz = sz'" using assms(2) lock(1) by (auto simp: malloc_inv_def)
  have pg: "pg \<noteq> 0 \<longrightarrow> pg \<in> U \<and> (\<forall>j \<in> {MIN_BUCKET ..< PGSHIFT}. pg \<notin> P j)"
    using lock(3) i(2) by (auto simp: page_in_hand_def)
  obtain F' U' P' where r: "f \<notin> blocks A (bucket_of sz)" "heap_ok st' F' U' (blocks (insert (f, sz) A)) P'"
    "\<forall>q. q \<noteq> pg \<longrightarrow> page_in_hand U P q \<longrightarrow> page_in_hand U' P' q"
    using malloc_locked_ok [OF i(1) block_bucket [OF lock(4)] pg] lock(5) by (auto simp: blocks_insert)
  have new: "sz' = sz" if m: "(f, sz') \<in> insert (f, sz) A" for sz'
  proof (rule ccontr)
    assume "sz' \<noteq> sz"
    then have a: "(f, sz') \<in> A" using m by auto
    then have "sz' \<le> 2048" using i(3) by auto
    moreover have "f \<in> blocks (insert (f, sz) A) (bucket_of sz')" "f \<in> blocks (insert (f, sz) A) (bucket_of sz)"
      using a by (auto simp: blocks_def)
    moreover have "f \<in> all_chunks (mapbase st') (bucket_of sz) (P' (bucket_of sz))"
      using heap_okD(1) [OF r(2) block_bucket [OF lock(4)]] calculation(3) by (auto simp: bucket_ok_def)
    ultimately have "bucket_of sz' = bucket_of sz" using block_unique [OF r(2) block_bucket block_bucket [OF lock(4)]] by blast
    then show False using a r(1) by (auto simp: blocks_def)
  qed
  have "\<forall>q \<in> H - {pg}. page_in_hand U' P' q" using r(3) i(2) by blast
  moreover have "\<forall>g s s'. (g, s) \<in> insert (f, sz) A \<longrightarrow> (g, s') \<in> insert (f, sz) A \<longrightarrow> s = s'"
    using i(4) new by (metis insert_iff prod.inject)
  ultimately show ?thesis using r(2) i(3) lock(2,4) by (auto simp: malloc_inv_def)
next
  case (give f sz A st st' H)
  obtain F U P where i: "heap_ok st F U (blocks A) P" "\<forall>pg \<in> H. page_in_hand U P pg" "\<forall>(f, sz) \<in> A. sz \<le> 2048"
    "\<forall>f sz sz'. (f, sz) \<in> A \<longrightarrow> (f, sz') \<in> A \<longrightarrow> sz = sz'" using assms(2) give(1) by (auto simp: malloc_inv_def)
  have b: "bucket_of sz \<in> {MIN_BUCKET ..< PGSHIFT}" "f \<in> blocks A (bucket_of sz)"
    using i(3) give(3) block_bucket by (auto simp: blocks_def)
  obtain F' U' P' where "heap_ok st' F' U' (blocks (A - {(f, sz)})) P'" "\<forall>q. page_in_hand U P q \<longrightarrow> page_in_hand U' P' q"
    using kfree_ok [OF i(1) b] give(4) by (auto simp: blocks_remove [OF give(3) i(4)])
  moreover have "\<forall>(f, sz) \<in> A - {(f, sz)}. sz \<le> 2048" using i(3) by blast
  moreover have "\<forall>g s s'. (g, s) \<in> A - {(f, sz)} \<longrightarrow> (g, s') \<in> A - {(f, sz)} \<longrightarrow> s = s'" using i(4) by blast
  moreover have "\<forall>pg \<in> H. page_in_hand U' P' pg" using calculation(2) i(2) by blast
  ultimately show ?thesis using give(2) unfolding malloc_inv_def by (simp only: prod.case) blast
qed

lemma malloc_reach_inv: "malloc_reach s0 s \<Longrightarrow> malloc_inv s0 \<Longrightarrow> malloc_inv s"
  by (induction rule: malloc_reach.induct) (auto intro: malloc_step_inv)

text \<open>After \<open>init_malloc\<close> every bucket is empty.\<close>

lemma init_malloc_inv:
  assumes "pages (km st) F {}" "(mapbase st + bootpgs (km st)) * NBPG \<le> 2 ^ 32"
  shows "malloc_inv (init_malloc st, {}, {})"
proof -
  have "heap_ok (init_malloc st) F {} (blocks {}) (\<lambda>_. {})"
    using assms by (auto simp: heap_ok_def init_malloc_def bucket_ok_def page_ok_def blocks_def all_chunks_def)
  then show ?thesis by (auto simp: malloc_inv_def)
qed

section \<open>Properties\<close>

text \<open>
  C17. The allocator is safe for any number of threads that ask for blocks of up to half a page, the
  sizes that come from buckets.  Whatever steps have followed each other since the start, no two
  such blocks in use overlap, none is null, each can be freed without tripping an assertion or
  the check for a double free, and a call under the lock for such a size fails to deliver only
  when no page is left to sleep for.
\<close>

theorem malloc_blocks_disjoint:
  assumes "pages (km st) F {}" "(mapbase st + bootpgs (km st)) * NBPG \<le> 2 ^ 32"
    and "malloc_reach (init_malloc st, {}, {}) (st', H, A)"
  shows "(\<forall>(a, m) \<in> A. \<forall>(b, n) \<in> A. (a, m) \<noteq> (b, n) \<longrightarrow> {a ..< a + unat m} \<inter> {b ..< b + unat n} = {}) \<and>
    (\<forall>(a, m) \<in> A. 0 < a \<and> a + unat m \<le> 2 ^ 32 \<and> kfree a st' \<noteq> None) \<and>
    (\<forall>sz \<le> 2048. \<forall>pg \<in> insert 0 H. malloc_locked (bucket_of sz) pg st' = None \<longrightarrow> pg = 0 \<and> freemem (km st') = 0)"
proof (intro conjI)
  obtain F' U' P' where i: "heap_ok st' F' U' (blocks A) P'" "\<forall>pg \<in> H. page_in_hand U' P' pg" "\<forall>(f, sz) \<in> A. sz \<le> 2048"
    using malloc_reach_inv [OF assms(3) init_malloc_inv [OF assms(1,2)]] by (auto simp: malloc_inv_def)
  have b: "bucket_of m \<in> {MIN_BUCKET ..< PGSHIFT}" "a \<in> blocks A (bucket_of m)" "unat m \<le> 2 ^ bucket_of m" if "(a, m) \<in> A" for a m
    using that i(3) bucket_of_spec [of m] by (auto simp: blocks_def)
  have "{a ..< a + unat m} \<inter> {b ..< b + unat n} = {}" if m: "(a, m) \<in> A" and n: "(b, n) \<in> A" and ne: "(a, m) \<noteq> (b, n)" for a m b n
  proof (cases "(a, bucket_of m) = (b, bucket_of n)")
    case True
    have "m = n" using malloc_reach_inv [OF assms(3) init_malloc_inv [OF assms(1,2)]] m n True by (auto simp: malloc_inv_def)
    then show ?thesis using ne True by simp
  next
    case False
    then show ?thesis using live_disjoint [OF i(1) b(1) [OF m] b(1) [OF n] b(2) [OF m] b(2) [OF n] False] b(3) [OF m] b(3) [OF n] by fastforce
  qed
  then show "\<forall>(a, m) \<in> A. \<forall>(b, n) \<in> A. (a, m) \<noteq> (b, n) \<longrightarrow> {a ..< a + unat m} \<inter> {b ..< b + unat n} = {}" by blast
  have "0 < a \<and> a + unat m \<le> 2 ^ 32 \<and> kfree a st' \<noteq> None" if m: "(a, m) \<in> A" for a m
  proof -
    obtain pg where pg: "pg \<in> P' (bucket_of m)" "a \<in> set (chunk_list (bucket_of m) (mapbase st' + pg))"
      using heap_okD(1) [OF i(1) b(1) [OF m]] b(2) [OF m] by (auto simp: bucket_ok_def all_chunks_def)
    note g = heap_ok_page(1,2) [OF i(1) b(1) [OF m] pg(1)]
    have "Suc (mapbase st' + pg) * NBPG \<le> (mapbase st' + bootpgs (km st')) * NBPG" using g by (intro mult_le_mono1) simp
    also have "\<dots> \<le> 2 ^ 32" using i(1) by (simp add: heap_ok_def)
    finally show ?thesis using chunk_div(2,3) [OF pg(2)] g(1) b(3) [OF m] kfree_ok [OF i(1) b(1,2) [OF m]]
      by (intro conjI) (linarith | auto)+
  qed
  then show "\<forall>(a, m) \<in> A. 0 < a \<and> a + unat m \<le> 2 ^ 32 \<and> kfree a st' \<noteq> None" by blast
  have "pg = 0 \<and> freemem (km st') = 0"
    if "sz \<le> 2048" "pg \<in> insert 0 H" "malloc_locked (bucket_of sz) pg st' = None" for sz :: u32 and pg
  proof -
    have "pg \<noteq> 0 \<longrightarrow> pg \<in> U' \<and> (\<forall>j \<in> {MIN_BUCKET ..< PGSHIFT}. pg \<notin> P' j)" using that(2) i(2) by (auto simp: page_in_hand_def)
    then have "pg = 0 \<and> F' = {}" using malloc_locked_ok [OF i(1) block_bucket [OF that(1)]] that(3) by fastforce
    then show ?thesis using i(1) by (auto simp: heap_ok_def pages_def unat_eq_zero)
  qed
  then show "\<forall>sz \<le> 2048. \<forall>pg \<in> insert 0 H. malloc_locked (bucket_of sz) pg st' = None \<longrightarrow> pg = 0 \<and> freemem (km st') = 0" by blast
qed

definition demo_heap :: heap where
  "demo_heap = \<lparr>km = demo_mem, mapbase = 0x80, p_bucket = \<lambda>_. 0, p_out = \<lambda>_. 0, buckets = \<lambda>_. \<lparr>b_mem = [], b_elems = 0, b_pages = 0, b_size = 0\<rparr>\<rparr>"

lemma init_page_size: "bootpgs (init_page hpgs ms st) = bootpgs st"
proof -
  have "bootpgs (link_free cs s) = bootpgs s" for cs s by (induction cs arbitrary: s) simp_all
  then show ?thesis by (simp add: init_page_def Let_def)
qed

lemma demo_heap_bound: "(mapbase demo_heap + bootpgs (km demo_heap)) * NBPG \<le> 2 ^ 32" "pages (km demo_heap) {2, 4, 5, 6, 7} {}"
  using demo_mem_pages by (simp_all add: demo_heap_def demo_mem_def init_page_size demo_boot_def)

lemma demo_malloc: "\<exists>f st'. malloc_locked (bucket_of 24) 0 (init_malloc demo_heap) = Some (f, st')"
proof -
  obtain F U P where h: "heap_ok (init_malloc demo_heap) F U (blocks {}) P"
    using init_malloc_inv [OF demo_heap_bound(2,1)] by (auto simp: malloc_inv_def)
  have "F = {2, 4, 5, 6, 7}"
  proof -
    have "pages (km demo_heap) F U" using h by (simp add: heap_ok_def init_malloc_def)
    then show ?thesis using demo_heap_bound(2) by (auto simp: pages_def dest: chain_unique)
  qed
  then show ?thesis using malloc_locked_ok [OF h block_bucket [of 24], of 0] by (auto split: option.splits)
qed

theorem malloc_blocks_disjoint_witness:
  "\<exists>f st'. malloc_reach (init_malloc demo_heap, {}, {}) (st', {}, {(f, 24)}) \<and> 0 < f \<and> kfree f st' \<noteq> None"
proof -
  obtain f st' where m: "malloc_locked (bucket_of 24) 0 (init_malloc demo_heap) = Some (f, st')"
    using demo_malloc by auto
  have r: "malloc_reach (init_malloc demo_heap, {}, {}) (st', {}, {(f, 24)})"
    using malloc_reach.step [OF malloc_reach.start malloc_step.lock [of 0 "{}" 24]] m by auto
  then show ?thesis using malloc_blocks_disjoint [OF demo_heap_bound(2,1) r] by auto
qed

text \<open>
  A block has room for what was asked, is at least 16 bytes long, and wastes less than half
  of itself above that.
\<close>

theorem malloc_size_class:
  assumes "sz \<le> 2048"
  shows "MIN_BUCKET \<le> bucket_of sz \<and> bucket_of sz < PGSHIFT \<and> unat sz \<le> 2 ^ bucket_of sz \<and>
    (16 < sz \<longrightarrow> 2 ^ bucket_of sz < 2 * unat sz)"
proof -
  note b = bucket_of_spec [OF assms]
  have "2 ^ bucket_of sz < 2 * unat sz" if "16 < sz"
  proof -
    have "bucket_of sz \<noteq> 4" using b that by (auto simp: word_less_nat_alt)
    then have "2 ^ (bucket_of sz - 1) < unat sz" using b by blast
    moreover have "(2 :: nat) ^ bucket_of sz = 2 * 2 ^ (bucket_of sz - 1)" using b by (cases "bucket_of sz") auto
    ultimately show ?thesis by simp
  qed
  then show ?thesis using b by blast
qed

theorem malloc_size_class_witness: "unat (100 :: u32) \<le> 2 ^ bucket_of 100 \<and> 2 ^ bucket_of 100 < (200 :: nat)"
  using malloc_size_class [of 100] by simp

lemma alloc_pages_size: "alloc_pages npg st = Some (v, st') \<Longrightarrow> bootpgs st' = bootpgs st"
proof -
  have "map_pages w n s = Some s' \<Longrightarrow> bootpgs s' = bootpgs s" for w n s s'
    by (induction n arbitrary: w s) (auto split: option.splits dest: alloc_page_size)
  then show "alloc_pages npg st = Some (v, st') \<Longrightarrow> bootpgs st' = bootpgs st"
    by (auto simp: alloc_pages_def alloc_vmap_def split: prod.splits option.splits if_splits)
qed

text \<open>
  More than half a page comes as whole pages: \<open>malloc\<close> rounds the size up, takes that many
  contiguous virtual pages, and \<open>free\<close> of the address finds the count that \<open>malloc\<close> left in the
  entry of the first page, and gives every page back.  The count is kept in 16 bits, hence the bound on the size.
\<close>

theorem malloc_large_roundtrip:
  assumes p: "pages (km st) F U" and r: "rmap_inv (vmap (km st))" and sz: "2048 < sz" "unat sz < 0xFFF0000"
    and n: "npg = drop_bit 12 (sz + 4095)" "unat npg \<le> card F"
    and v: "fst (rmap_alloc (vmap (km st)) npg) = v" "v \<noteq> 0" "mapbase st + bootpgs (km st) \<le> unat v"
  shows "\<exists>st1 st2. malloc env sz st = Some (unat v * NBPG, st1) \<and> unat sz \<le> unat npg * NBPG \<and> unat npg * NBPG < unat sz + NBPG \<and>
    (\<forall>i < unat npg. ktrans (km st1) (unat v + i) \<noteq> None) \<and>
    kfree (unat v * NBPG) st1 = Some st2 \<and> pages (km st2) F U \<and> rmap_units (vmap (km st2)) = rmap_units (vmap (km st))"
proof -
  have "unat (sz + 4095) = unat sz + 4095" using sz(2) by (simp add: unat_word_ariths)
  then have u: "unat npg = (unat sz + 4095) div NBPG" by (simp add: n(1) drop_bit_eq_div uint_div_distrib unat_div_distrib)
  have "2048 < unat sz" using sz(1) by (simp add: word_less_nat_alt)
  then have pos: "0 < unat npg" by (simp add: u div_greater_zero_iff)
  have "0 < npg" using pos by (simp add: word_gt_0 unat_gt_0)
  from alloc_free_pages [OF p r this n(2) v(1,2)] obtain m1 ps m2 where
    a: "alloc_pages npg (km st) = Some (v, m1)" "\<forall>i < unat npg. ktrans m1 (unat v + i) = Some (ps ! i)"
      "free_pages v npg m1 = Some m2" "pages m2 F U" "rmap_units (vmap m2) = rmap_units (vmap (km st))" "length ps = unat npg"
      "set ps \<subseteq> F" by blast
  define st0 where "st0 = st\<lparr>km := m1\<rparr>"
  define st1 where "st1 = st0\<lparr>p_bucket := (p_bucket st0)(ps ! 0 := of_nat (PGSHIFT + unat npg))\<rparr>"
  define st2 where "st2 = st1\<lparr>km := m2\<rparr>"
  have same: "bootpgs m1 = bootpgs (km st)" using alloc_pages_size a(1) by blast
  have "page_of st0 (unat v * NBPG) = Some (ps ! 0)"
    using a(2) pos v(3) same by (auto simp: page_of_def st0_def)
  then have m: "malloc env sz st = Some (unat v * NBPG, st1)"
    using sz(1) a(1) by (simp add: malloc_def Let_def st0_def st1_def flip: n(1))
  have "page_of st1 (unat v * NBPG) = Some (ps ! 0)"
    using a(2) pos v(3) same by (auto simp: page_of_def st1_def st0_def)
  moreover have "unat (p_bucket st1 (ps ! 0)) = PGSHIFT + unat npg"
  proof -
    have "PGSHIFT + unat npg < 65536" using sz(2) u by simp
    then show ?thesis unfolding st1_def by (simp add: unat_of_nat del: of_nat_add of_nat_unat)
  qed
  moreover have "free_pages v (of_nat (PGSHIFT + unat npg - PGSHIFT)) (km st1) = Some m2" using a(3) by (simp add: st1_def st0_def)
  ultimately have k: "kfree (unat v * NBPG) st1 = Some st2"
    using pos by (simp add: kfree_def st2_def)
  have "unat sz \<le> unat npg * NBPG" "unat npg * NBPG < unat sz + NBPG" unfolding u by linarith+
  then show ?thesis using m k a by (auto simp: st1_def st2_def st0_def)
qed

theorem malloc_large_roundtrip_witness:
  "\<exists>st1 st2. malloc id 9000 demo_heap = Some (0xC00 * NBPG, st1) \<and> kfree (0xC00 * NBPG) st1 = Some st2 \<and>
     pages (km st2) {2, 4, 5, 6, 7} {}"
proof -
  have v: "vmap (km demo_heap) = vmap demo_boot" by (simp add: demo_heap_def demo_mem_def init_page_def Let_def frame)
  have "rmap_inv (vmap demo_boot)" by (simp add: demo_boot_def rmap_inv_def rmap_elems_def)
  moreover have "fst (rmap_alloc (vmap demo_boot) 3) = 0xC00" by code_simp
  moreover have "drop_bit 12 ((9000 :: u32) + 4095) = 3" by simp
  ultimately show ?thesis
    using malloc_large_roundtrip [OF demo_heap_bound(2), of 9000 3 "0xC00" id]
    by (simp add: v) (auto simp: demo_heap_def demo_mem_def init_page_size demo_boot_def)
qed

end
