(* ===== verification/Segments.thy ===== *)
theory Segments
  imports Resource_Map "HOL-Library.Monad_Syntax"
begin

text \<open>
  Segments, \<open>os/kern/seg.c\<close>: the unit of memory that a message carries.  A segment is a view of
  some pages of a page set (\<open>struct pview\<close>) with a byte offset and a byte length.  Receiving a
  segment attaches its view to the address space of the receiver, at an address taken from
  that space's resource map (\<open>os/kern/vas.c\<close>, \<open>hat_attach\<close> and \<open>hat_detach\<close> of
  \<open>os/mach/hat.c\<close>).

  The view is the first field of \<open>struct seg\<close> and has its address.  The list of the views of an
  address space, linked through them, is the list of their addresses.  Page sets are known by
  their reference count.  The teardown of the hardware translations in \<open>detach_pview\<close> is left
  out.  A failing assertion, a write past an array and the freeing of freed storage are
  \<open>None\<close>.  Storage comes from \<open>MALLOC\<close>, which does not fail: its address is an argument.
\<close>

record pview =
  p_set :: addr
  p_vaddr :: u32
  p_len :: u32
  p_off :: u32
  p_vas :: addr
  pv_prot :: u8

record seg =
  s_off :: u32
  s_len :: u32

record vas =
  v_views :: "addr list"
  v_flags :: u32
  h_map :: "rmap list"

record vmem =
  pviews :: "addr \<Rightarrow> pview"
  segs :: "addr \<Rightarrow> seg"
  vass :: "addr \<Rightarrow> vas"
  ps_refs :: "addr \<Rightarrow> u16"
  seg_live :: "addr \<Rightarrow> bool"

definition ptob :: "u32 \<Rightarrow> u32" where "ptob x = push_bit 12 x"
definition btop :: "u32 \<Rightarrow> u32" where "btop x = drop_bit 12 x"
definition btorp :: "u32 \<Rightarrow> u32" where "btorp x = drop_bit 12 (x + 4095)"

abbreviation (input) PROT_RO :: u8 where "PROT_RO \<equiv> 1"
abbreviation (input) PROT_FORK :: u8 where "PROT_FORK \<equiv> 8"
abbreviation (input) VF_DMA :: u32 where "VF_DMA \<equiv> 1"
abbreviation (input) VMAP_BASE :: u32 where "VMAP_BASE \<equiv> 0x40000000"
abbreviation (input) VMAP_SIZE :: u32 where "VMAP_SIZE \<equiv> 0x20000000"

definition upd_pv :: "addr \<Rightarrow> (pview \<Rightarrow> pview) \<Rightarrow> vmem \<Rightarrow> vmem" where
  "upd_pv a f st = st\<lparr>pviews := (pviews st)(a := f (pviews st a))\<rparr>"

definition upd_seg :: "addr \<Rightarrow> (seg \<Rightarrow> seg) \<Rightarrow> vmem \<Rightarrow> vmem" where
  "upd_seg a f st = st\<lparr>segs := (segs st)(a := f (segs st a))\<rparr>"

definition upd_vas :: "addr \<Rightarrow> (vas \<Rightarrow> vas) \<Rightarrow> vmem \<Rightarrow> vmem" where
  "upd_vas a f st = st\<lparr>vass := (vass st)(a := f (vass st a))\<rparr>"

lemmas vm_upd = upd_pv_def upd_seg_def upd_vas_def

section \<open>Views and address spaces\<close>

definition contains_va :: "pview \<Rightarrow> u32 \<Rightarrow> bool" where
  "contains_va pv va = (p_vaddr pv \<le> va \<and> va < p_vaddr pv + ptob (p_len pv))"

definition find_pview :: "vmem \<Rightarrow> addr \<Rightarrow> u32 \<Rightarrow> addr option" where
  "find_pview st vas va = find (\<lambda>a. contains_va (pviews st a) va) (v_views (vass st vas))"

definition ref_pset :: "addr \<Rightarrow> vmem \<Rightarrow> vmem" where
  "ref_pset ps st = st\<lparr>ps_refs := (ps_refs st)(ps := ps_refs st ps + 1)\<rparr>"

text \<open>At zero references the page set goes away; what it held is not modelled.\<close>

definition deref_pset :: "addr \<Rightarrow> vmem \<Rightarrow> vmem option" where
  "deref_pset ps st =
     (if ps_refs st ps = 0 then None
      else Some (st\<lparr>ps_refs := (ps_refs st)(ps := ps_refs st ps - 1)\<rparr>))"

text \<open>The result is the C value: 0 for success.\<close>

definition hat_attach :: "addr \<Rightarrow> u32 \<Rightarrow> vmem \<Rightarrow> int \<times> vmem" where
  "hat_attach pv vaddr st =
     (if vaddr \<noteq> 0 \<and> 0x80000000 \<le> vaddr then (1, st)
      else if vaddr \<noteq> 0 then
        if pv_prot (pviews st pv) AND PROT_FORK \<noteq> 0 then (0, st)
        else if VMAP_BASE \<le> vaddr \<and> vaddr < VMAP_BASE + VMAP_SIZE then (1, st)
        else (0, st)
      else
        let vas = p_vas (pviews st pv);
            (pg, m) = rmap_alloc (h_map (vass st vas)) (p_len (pviews st pv));
            st1 = upd_vas vas (\<lambda>v. v\<lparr>h_map := m\<rparr>) st
        in if pg = 0 then (1, st1)
           else (0, upd_pv pv (\<lambda>p. p\<lparr>p_vaddr := ptob pg\<rparr>) st1))"

definition hat_detach :: "addr \<Rightarrow> vmem \<Rightarrow> vmem option" where
  "hat_detach pv st =
     (let p = pviews st pv in
      if VMAP_BASE \<le> p_vaddr p \<and> p_vaddr p < VMAP_BASE + VMAP_SIZE then
        map_option (\<lambda>(m, lost). upd_vas (p_vas p) (\<lambda>v. v\<lparr>h_map := m\<rparr>) st)
          (rmap_free (h_map (vass st (p_vas p))) (btop (p_vaddr p)) (p_len p))
      else Some st)"

text \<open>The result is the address, 0 for failure.\<close>

definition attach_pview :: "addr \<Rightarrow> addr \<Rightarrow> vmem \<Rightarrow> u32 \<times> vmem" where
  "attach_pview vas pv st =
     (let st1 = upd_pv pv (\<lambda>p. p\<lparr>p_vas := vas\<rparr>) st;
          (r, st2) = hat_attach pv (p_vaddr (pviews st1 pv)) st1
      in if r \<noteq> 0 then (0, upd_pv pv (\<lambda>p. p\<lparr>p_vas := 0\<rparr>) st2)
         else (p_vaddr (pviews st2 pv), upd_vas vas (\<lambda>v. v\<lparr>v_views := pv # v_views v\<rparr>) st2))"

definition detach_pview :: "addr \<Rightarrow> u32 \<Rightarrow> vmem \<Rightarrow> (addr \<times> vmem) option" where
  "detach_pview vas va st =
     (case find_pview st vas va of
        None \<Rightarrow> None
      | Some pv \<Rightarrow>
          map_option (\<lambda>st'. (pv, st'))
            (hat_detach pv (upd_vas vas (\<lambda>v. v\<lparr>v_views := remove1 pv (v_views v)\<rparr>) st)))"

section \<open>Segments\<close>

definition free_seg :: "addr \<Rightarrow> vmem \<Rightarrow> vmem option" where
  "free_seg s st = do {
     st1 \<leftarrow> deref_pset (p_set (pviews st s)) st;
     if seg_live st1 s then Some (st1\<lparr>seg_live := (seg_live st1)(s := False)\<rparr>) else None
   }"

text \<open>\<open>s\<close> is the storage for the segment; \<open>None\<close> is the null pointer that reports the error.\<close>

definition make_seg :: "addr \<Rightarrow> u32 \<Rightarrow> u32 \<Rightarrow> addr \<Rightarrow> vmem \<Rightarrow> addr option \<times> vmem" where
  "make_seg vas buf buflen s st =
     (if buf = 0 \<or> buflen = 0 then (None, st)
      else case find_pview st vas buf of
        None \<Rightarrow> (None, st)
      | Some pva \<Rightarrow>
          let pv = pviews st pva in
          if p_vaddr pv + ptob (p_len pv) < buf + buflen then (None, st)
          else
            let off = buf - p_vaddr pv;
                x = btop off;
                off' = off - ptob x;
                view = pv\<lparr>p_off := p_off pv + x, p_len := btorp (off' + buflen)\<rparr>
            in (Some s, (ref_pset (p_set pv) st)\<lparr>
                  pviews := (pviews st)(s := view),
                  segs := (segs st)(s := \<lparr>s_off = off', s_len = buflen\<rparr>),
                  seg_live := (seg_live st)(s := True)\<rparr>))"

text \<open>The C value: 0 for success, 1 for failure.\<close>

definition attach_seg :: "addr \<Rightarrow> addr \<Rightarrow> vmem \<Rightarrow> int \<times> vmem" where
  "attach_seg vas s st =
     (let prot = (if v_flags (vass st vas) AND VF_DMA \<noteq> 0 then 0 else PROT_RO);
          st1 = upd_pv s (\<lambda>p. p\<lparr>pv_prot := prot, p_vaddr := 0\<rparr>) st;
          (va, st2) = attach_pview vas s st1
      in (if va \<noteq> 0 then 0 else 1, st2))"

definition detach_seg :: "addr \<Rightarrow> vmem \<Rightarrow> vmem option" where
  "detach_seg s st =
     map_option snd (detach_pview (p_vas (pviews st s)) (p_vaddr (pviews st s)) st)"

text \<open>
  \<open>ps\<close> is the new page set; the page frames stored in its slots are the second result, under
  the kernel's translation \<open>vtop\<close> of its own addresses.
\<close>

definition kern_mem :: "(u32 \<Rightarrow> u32) \<Rightarrow> u32 \<Rightarrow> u32 \<Rightarrow> addr \<Rightarrow> addr \<Rightarrow> vmem \<Rightarrow> u32 list \<times> vmem" where
  "kern_mem vtop vaddr len s ps st =
     (let pgstart = btop vaddr;
          pgend = btop (vaddr + len - 1);
          n = pgend - pgstart + 1
      in (map (\<lambda>x. btop (vtop (vaddr + ptob (of_nat x)))) [0..<unat n],
          st\<lparr>pviews := (pviews st)(s := (pviews st s)\<lparr>p_len := n, p_off := 0, p_set := ps, pv_prot := PROT_RO\<rparr>),
             segs := (segs st)(s := \<lparr>s_off = vaddr AND 4095, s_len = len\<rparr>),
             ps_refs := (ps_refs st)(ps := 1),
             seg_live := (seg_live st)(s := True)\<rparr>))"

section \<open>Copying a reply out\<close>

text \<open>
  \<open>uucopy\<close> with the range checks of \<open>CP_PROLOG\<close> in \<open>os/mach/locore.s\<close>; \<open>flt to from cnt\<close> says
  that the copy takes a page fault that cannot be resolved.
\<close>

definition uucopy_fails :: "(u32 \<Rightarrow> u32 \<Rightarrow> u32 \<Rightarrow> bool) \<Rightarrow> u32 \<Rightarrow> u32 \<Rightarrow> u32 \<Rightarrow> bool" where
  "uucopy_fails flt to from cnt =
     (0x80000000 \<le> to \<or> 0x40000000 \<le> cnt \<or> 0x80000000 \<le> cnt + to \<or> flt to from cnt)"

text \<open>
  \<open>ss\<close> are the segments of the reply and \<open>ms\<close> the buffers of the user's message; \<open>i\<close> and \<open>j\<close> are
  the positions of the pointers \<open>sm_segs\<close> and \<open>m_segs\<close>, \<open>tr\<close> collects the copies made.  A
  pointer past its array is \<open>None\<close>.
\<close>

function copy_loop ::
  "(u32 \<Rightarrow> u32 \<Rightarrow> u32 \<Rightarrow> bool) \<Rightarrow> addr list \<Rightarrow> nat \<Rightarrow> nat \<Rightarrow> int \<Rightarrow> int \<Rightarrow> u32 \<Rightarrow> vmem \<Rightarrow>
   (u32 \<times> u32) list \<Rightarrow> (u32 \<times> u32 \<times> u32) list \<Rightarrow>
   (u32 syscall \<times> vmem \<times> (u32 \<times> u32) list \<times> (u32 \<times> u32 \<times> u32) list) option" where
  "copy_loop flt ss i j nsm nm tot st ms tr =
     (if \<not> (i < length ss \<and> j < length ms) then None
      else
        let s = ss ! i; sg = segs st s; (buf, buflen) = ms ! j;
            cnt = min (s_len sg) buflen
        in if cnt = 0 then Some (Inr tot, st, ms, tr)
           else
             let from = p_vaddr (pviews st s) + s_off sg in
             if uucopy_fails flt buf from cnt then Some (Inl EFAULT, st, ms, tr)
             else
               let tot' = tot + cnt;
                   tr' = tr @ [(buf, from, cnt)];
                   sdone = (s_len sg - cnt = 0);
                   st' = upd_seg s (\<lambda>g. if sdone then g\<lparr>s_len := s_len g - cnt\<rparr>
                           else g\<lparr>s_len := s_len g - cnt, s_off := s_off g + cnt\<rparr>) st
               in if sdone \<and> nsm - 1 = 0 then Some (Inr tot', st', ms, tr')
                  else
                    let mdone = (buflen - cnt = 0);
                        ms' = ms[j := (if mdone then buf else buf + cnt, buflen - cnt)]
                    in if mdone \<and> nm - 1 = 0 then Some (Inr tot', st', ms', tr')
                       else copy_loop flt ss (if sdone then Suc i else i) (if mdone then Suc j else j)
                              (if sdone then nsm - 1 else nsm) (if mdone then nm - 1 else nm)
                              tot' st' ms' tr')"
  by pat_completeness auto
termination
  by (relation "measure (\<lambda>(flt, ss, i, j, nsm, nm, tot, st, ms, tr). (length ss - i) + (length ms - j))")
    (auto simp: min_def split: if_splits)

declare copy_loop.simps [simp del]

definition copyoutsegs ::
  "(u32 \<Rightarrow> u32 \<Rightarrow> u32 \<Rightarrow> bool) \<Rightarrow> addr list \<Rightarrow> int \<Rightarrow> (u32 \<times> u32) list \<Rightarrow> int \<Rightarrow> vmem \<Rightarrow>
   (u32 syscall \<times> vmem \<times> (u32 \<times> u32) list \<times> (u32 \<times> u32 \<times> u32) list) option" where
  "copyoutsegs flt ss nsm ms nm st = copy_loop flt ss 0 0 nsm nm 0 st ms []"

section \<open>Pages and bytes\<close>

lemma unat_ptob: "unat x < 2 ^ 20 \<Longrightarrow> unat (ptob x) = unat x * 4096"
proof -
  assume "unat x < 2 ^ 20"
  then have "unat x * 4096 < 4294967296" by simp
  moreover have "ptob x = x * 4096" by (simp add: ptob_def push_bit_eq_mult)
  ultimately show ?thesis by (simp add: unat_word_ariths)
qed

lemma unat_btop: "unat (btop x) = unat x div 4096"
  by (simp add: btop_def drop_bit_eq_div unat_div)

lemma unat_btorp: "unat x + 4095 < 4294967296 \<Longrightarrow> unat (btorp x) = (unat x + 4095) div 4096"
  by (simp add: btorp_def drop_bit_eq_div unat_div unat_word_ariths)

lemma make_seg_result:
  assumes "find_pview st vas buf = Some a" "buf \<noteq> 0" "buflen \<noteq> 0"
    "\<not> p_vaddr (pviews st a) + ptob (p_len (pviews st a)) < buf + buflen"
    and "make_seg vas buf buflen s st = (r, st')"
    and off: "off = buf - p_vaddr (pviews st a)"
  shows "r = Some s \<and> segs st' s = \<lparr>s_off = off - ptob (btop off), s_len = buflen\<rparr> \<and>
    pviews st' s = (pviews st a)\<lparr>p_off := p_off (pviews st a) + btop off,
      p_len := btorp (off - ptob (btop off) + buflen)\<rparr> \<and>
    ps_refs st' = (ps_refs st)(p_set (pviews st a) := ps_refs st (p_set (pviews st a)) + 1) \<and> seg_live st' s"
  using assms by (auto simp: make_seg_def Let_def ref_pset_def)

lemma round_up_bounds:
  "x \<le> 4096 * ((x + 4095) div 4096) \<and> 4096 * ((x + 4095) div 4096) < (x::nat) + 4096"
  using mult_div_mod_eq [of 4096 "x + 4095"] mod_less_divisor [of 4096 "x + 4095"] by linarith

lemma trim_pages:
  fixes p l n :: nat
  assumes "p + l \<le> 4096 * n"
  shows "p div 4096 + (p mod 4096 + l + 4095) div 4096 \<le> n"
proof -
  define q r k where "q = p div 4096" and "r = p mod 4096" and "k = (r + l + 4095) div 4096"
  have "p = 4096 * q + r" by (simp add: q_def r_def)
  moreover have "4096 * k < r + l + 4096" unfolding k_def using round_up_bounds by blast
  ultimately have "4096 * (q + k) < 4096 * (n + 1)" using assms by simp
  then have "q + k \<le> n" by simp
  then show ?thesis by (simp only: q_def r_def k_def)
qed

text \<open>The address space of a process lies below 2 GB and its views are within their page sets.\<close>

definition view_ok :: "pview \<Rightarrow> bool" where
  "view_ok pv = (unat (p_vaddr pv) + 4096 * unat (p_len pv) \<le> 0x80000000 \<and>
     unat (p_off pv) + unat (p_len pv) < 0x80000000)"

lemma view_ok_end:
  "view_ok pv \<Longrightarrow> unat (p_vaddr pv + ptob (p_len pv)) = unat (p_vaddr pv) + 4096 * unat (p_len pv)"
proof -
  assume v: "view_ok pv"
  then have "unat (ptob (p_len pv)) = unat (p_len pv) * 4096"
    by (intro unat_ptob) (simp add: view_ok_def)
  then show ?thesis using v by (subst unat_add_no_overflow) (auto simp: view_ok_def)
qed

lemma contains_va_nat:
  "view_ok pv \<Longrightarrow> contains_va pv va =
    (unat (p_vaddr pv) \<le> unat va \<and> unat va < unat (p_vaddr pv) + 4096 * unat (p_len pv))"
  by (simp add: contains_va_def word_le_nat_alt word_less_nat_alt view_ok_end)

lemma find_pview_contains:
  "find_pview st vas va = Some a \<Longrightarrow> a \<in> set (v_views (vass st vas)) \<and> contains_va (pviews st a) va"
  by (auto simp: find_pview_def find_Some_iff)

definition seg_pos :: "pview \<Rightarrow> seg \<Rightarrow> nat" where
  "seg_pos pv sg = 4096 * unat (p_off pv) + unat (s_off sg)"

lemma btop_ptob: "unat x < 2 ^ 20 \<Longrightarrow> btop (ptob x) = x"
  by (simp add: word_unat_eq_iff unat_btop unat_ptob)

section \<open>The copy loop\<close>

text \<open>The bytes of a list of buffers, and the pairs of bytes that a list of copies moves.\<close>

fun buf_bytes :: "(u32 \<times> u32) list \<Rightarrow> u32 list" where
  "buf_bytes [] = []"
| "buf_bytes ((a, l) # bs) = map (\<lambda>k. a + of_nat k) [0..<unat l] @ buf_bytes bs"

fun moved :: "(u32 \<times> u32 \<times> u32) list \<Rightarrow> (u32 \<times> u32) list" where
  "moved [] = []"
| "moved ((d, s, l) # cs) = map (\<lambda>k. (d + of_nat k, s + of_nat k)) [0..<unat l] @ moved cs"

definition seg_buf :: "vmem \<Rightarrow> addr \<Rightarrow> u32 \<times> u32" where
  "seg_buf st s = (p_vaddr (pviews st s) + s_off (segs st s), s_len (segs st s))"

lemma moved_append [simp]: "moved (cs @ ds) = moved cs @ moved ds"
  by (induction cs rule: moved.induct) auto

lemma buf_bytes_split:
  assumes "c \<le> l"
  shows "buf_bytes ((a, l) # bs) = map (\<lambda>k. a + of_nat k) [0..<unat c] @ buf_bytes ((a + c, l - c) # bs)"
proof -
  have l: "unat l = unat c + unat (l - c)" using assms unat_sub_le [OF assms] by (simp add: word_le_nat_alt)
  have "[0..<unat l] = [0..<unat c] @ map (\<lambda>k. k + unat c) [0..<unat (l - c)]"
    by (subst l) (simp add: map_add_upt upt_add_eq_append [of 0, simplified] add.commute)
  then show ?thesis by (simp add: comp_def ac_simps)
qed

lemma buf_bytes_zero [simp]: "buf_bytes ((a, 0) # bs) = buf_bytes bs"
  by simp

lemma zip_step:
  assumes "c \<le> dl" "c \<le> sl"
  shows "zip (buf_bytes ((d, dl) # ds)) (buf_bytes ((s, sl) # ss)) =
    moved [(d, s, c)] @ zip (buf_bytes ((d + c, dl - c) # ds)) (buf_bytes ((s + c, sl - c) # ss))"
  by (simp only: buf_bytes_split [OF assms(1)] buf_bytes_split [OF assms(2)])
    (simp add: zip_append zip_map1 zip_map2 zip_same_conv_map comp_def del: buf_bytes.simps(2))

lemma zip_step_length:
  "c \<le> dl \<Longrightarrow> c \<le> sl \<Longrightarrow>
   length (zip (buf_bytes ((d, dl) # ds)) (buf_bytes ((s, sl) # ss))) =
   unat c + length (zip (buf_bytes ((d + c, dl - c) # ds)) (buf_bytes ((s + c, sl - c) # ss)))"
  using zip_step [of c dl sl d ds s ss] by (simp del: buf_bytes.simps)

text \<open>What is still to be copied, and what one loop from there does with it.\<close>

definition todo :: "addr list \<Rightarrow> nat \<Rightarrow> nat \<Rightarrow> nat \<Rightarrow> vmem \<Rightarrow> (u32 \<times> u32) list \<Rightarrow> (u32 \<times> u32) list" where
  "todo ss i j m st ms = zip (buf_bytes (drop j (take m ms))) (buf_bytes (map (seg_buf st) (drop i ss)))"

definition copied ::
  "(u32 \<Rightarrow> u32 \<Rightarrow> u32 \<Rightarrow> bool) \<Rightarrow> u32 \<Rightarrow> (u32 \<times> u32) list \<Rightarrow> u32 syscall \<Rightarrow> (u32 \<times> u32 \<times> u32) list \<Rightarrow> bool" where
  "copied flt tot zs r tr = (\<exists>rest. zs = moved tr @ rest \<and>
     (r = Inr (tot + of_nat (length (moved tr))) \<and> rest = [] \<or>
      r = Inl EFAULT \<and> (\<exists>d s c zs'. c \<noteq> 0 \<and> rest = moved [(d, s, c)] @ zs' \<and> uucopy_fails flt d s c)))"

lemma copied_Cons:
  "copied flt (tot + c) zs r tr \<Longrightarrow> copied flt tot (moved [(d, s, c)] @ zs) r ((d, s, c) # tr)"
  by (auto simp: copied_def add.assoc)

lemma copied_stop: "copied flt tot (moved [(d, s, c)]) (Inr (tot + c)) [(d, s, c)]"
  by (auto simp: copied_def)

lemma copied_fault:
  "uucopy_fails flt d s c \<Longrightarrow> c \<noteq> 0 \<Longrightarrow> copied flt tot (moved [(d, s, c)] @ zs) (Inl EFAULT) []"
  by (auto simp: copied_def)

lemma drop_nth_Cons: "i < length xs \<Longrightarrow> drop i xs = xs ! i # drop (Suc i) xs"
  by (simp add: Cons_nth_drop_Suc)

lemma copy_loop_moves:
  assumes "i < length ss" "j < m" "m \<le> length ms" "distinct ss"
    "nsm = int (length ss - i)" "nm = int (m - j)"
    "\<And>k. i \<le> k \<Longrightarrow> k < length ss \<Longrightarrow> s_len (segs st (ss ! k)) \<noteq> 0"
    "\<And>k. j \<le> k \<Longrightarrow> k < m \<Longrightarrow> snd (ms ! k) \<noteq> 0"
  shows "\<exists>r st' ms' tr'. copy_loop flt ss i j nsm nm tot st ms tr = Some (r, st', ms', tr @ tr') \<and>
    copied flt tot (todo ss i j m st ms) r tr'"
  using assms
proof (induction "(length ss - i) + (m - j)" arbitrary: i j nsm nm tot st ms tr rule: less_induct)
  case less
  define s sl buf bl c src where "s = ss ! i" and "sl = s_len (segs st s)"
    and "buf = fst (ms ! j)" and "bl = snd (ms ! j)" and "c = min sl bl"
    and "src = p_vaddr (pviews st s) + s_off (segs st s)"
  have c: "c \<noteq> 0" "c \<le> sl" "c \<le> bl" using less.prems(1,2,7,8)
    by (auto simp: c_def sl_def s_def bl_def min_def)
  have D: "drop j (take m ms) = (buf, bl) # drop (Suc j) (take m ms)"
    using less.prems(2,3) by (simp add: drop_nth_Cons buf_def bl_def)
  have S: "map (seg_buf st) (drop i ss) = (src, sl) # map (seg_buf st) (drop (Suc i) ss)"
    using less.prems(1) by (simp add: drop_nth_Cons seg_buf_def src_def sl_def s_def)
  let ?rest = "zip (buf_bytes ((buf + c, bl - c) # drop (Suc j) (take m ms)))
    (buf_bytes ((src + c, sl - c) # map (seg_buf st) (drop (Suc i) ss)))"
  have z: "todo ss i j m st ms = moved [(buf, src, c)] @ ?rest"
    unfolding todo_def D S using c by (intro zip_step) auto
  define st1 where "st1 = upd_seg s (\<lambda>g. if sl - c = 0 then g\<lparr>s_len := s_len g - c\<rparr>
      else g\<lparr>s_len := s_len g - c, s_off := s_off g + c\<rparr>) st"
  define ms1 where "ms1 = ms[j := (if bl - c = 0 then buf else buf + c, bl - c)]"
  let ?i = "if sl - c = 0 then Suc i else i" and ?j = "if bl - c = 0 then Suc j else j"
  have eq: "copy_loop flt ss i j nsm nm tot st ms tr =
    (if uucopy_fails flt buf src c then Some (Inl EFAULT, st, ms, tr)
     else if sl - c = 0 \<and> nsm - 1 = 0 then Some (Inr (tot + c), st1, ms, tr @ [(buf, src, c)])
     else if bl - c = 0 \<and> nm - 1 = 0 then Some (Inr (tot + c), st1, ms1, tr @ [(buf, src, c)])
     else copy_loop flt ss ?i ?j (if sl - c = 0 then nsm - 1 else nsm) (if bl - c = 0 then nm - 1 else nm)
       (tot + c) st1 ms1 (tr @ [(buf, src, c)]))"
  proof -
    have e: "ss ! i = s" "s_len (segs st s) = sl" "ms ! j = (buf, bl)" "min sl bl = c"
        "p_vaddr (pviews st s) + s_off (segs st s) = src"
      by (simp_all add: s_def sl_def buf_def bl_def c_def src_def)
    have l: "(i < length ss) = True" "(j < length ms) = True" "(c = 0) = False"
      using c(1) less.prems(1,2,3) by auto
    show ?thesis
      by (subst copy_loop.simps)
        (simp only: e l Let_def prod.case simp_thms if_False if_True st1_def [symmetric] ms1_def [symmetric])
  qed
  have S1: "buf_bytes (map (seg_buf st1) (drop ?i ss)) =
      buf_bytes ((src + c, sl - c) # map (seg_buf st) (drop (Suc i) ss))"
  proof -
    have "s \<notin> set (drop (Suc i) ss)"
      using less.prems(1,4) by (metis s_def distinct_drop drop_nth_Cons distinct.simps(2))
    then have t: "map (seg_buf st1) (drop (Suc i) ss) = map (seg_buf st) (drop (Suc i) ss)"
      by (auto simp: seg_buf_def st1_def upd_seg_def)
    have "sl - c \<noteq> 0 \<Longrightarrow> seg_buf st1 s = (src + c, sl - c)"
      by (simp add: seg_buf_def st1_def upd_seg_def src_def sl_def)
    then show ?thesis using less.prems(1)
      by (cases "sl - c = 0") (simp_all only: drop_nth_Cons s_def [symmetric] list.map t if_True if_False buf_bytes_zero not_False_eq_True simp_thms True_implies_equals)
  qed
  have D1: "buf_bytes (drop ?j (take m ms1)) = buf_bytes ((buf + c, bl - c) # drop (Suc j) (take m ms))"
  proof -
    have "drop (Suc j) (take m ms1) = drop (Suc j) (take m ms)"
      by (simp add: ms1_def take_update_swap drop_update_cancel)
    moreover have "bl - c \<noteq> 0 \<Longrightarrow> drop j (take m ms1) = (buf + c, bl - c) # drop (Suc j) (take m ms1)"
      using less.prems(2,3) by (simp add: drop_nth_Cons ms1_def)
    ultimately show ?thesis by simp
  qed
  have next_todo: "todo ss ?i ?j m st1 ms1 = ?rest" unfolding todo_def S1 D1 ..
  show ?case
  proof (cases "uucopy_fails flt buf src c")
    case True
    then show ?thesis using eq copied_fault [OF True c(1), of tot ?rest] unfolding z by force
  next
    case ok: False
    show ?thesis
    proof (cases "?i < length ss \<and> ?j < m")
      case False
      then have "?rest = []" unfolding next_todo [symmetric] todo_def using less.prems(3) by auto
      then have t: "todo ss i j m st ms = moved [(buf, src, c)]" unfolding z by simp
      have "sl - c = 0 \<and> nsm - 1 = 0 \<or> bl - c = 0 \<and> nm - 1 = 0"
        using False less.prems(1,2,5,6) by (auto split: if_splits)
      then show ?thesis using eq ok copied_stop [of flt tot buf src c] unfolding t by auto
    next
      case True
      let ?nsm = "if sl - c = 0 then nsm - 1 else nsm" and ?nm = "if bl - c = 0 then nm - 1 else nm"
      have dec: "(length ss - ?i) + (m - ?j) < (length ss - i) + (m - j)"
        using less.prems(1,2) c by (auto simp: c_def min_def split: if_splits)
      have "\<exists>r st' ms' tr'. copy_loop flt ss ?i ?j ?nsm ?nm (tot + c) st1 ms1 (tr @ [(buf, src, c)]) =
          Some (r, st', ms', (tr @ [(buf, src, c)]) @ tr') \<and> copied flt (tot + c) (todo ss ?i ?j m st1 ms1) r tr'"
      proof (rule less.hyps [OF dec])
        show "?i < length ss" "?j < m" using True by auto
        show "m \<le> length ms1" "distinct ss" using less.prems by (auto simp: ms1_def)
        show "?nsm = int (length ss - ?i)" "?nm = int (m - ?j)" using less.prems(1,2,5,6) by auto
        show "s_len (segs st1 (ss ! k)) \<noteq> 0" if "?i \<le> k" "k < length ss" for k
          using that less.prems(1,4,7) c
          by (cases "k = i") (auto simp: st1_def upd_seg_def s_def sl_def nth_eq_iff_index_eq split: if_splits)
        show "snd (ms1 ! k) \<noteq> 0" if "?j \<le> k" "k < m" for k
          using that less.prems(2,3,8) by (cases "k = j") (auto simp: ms1_def split: if_splits)
      qed
      moreover have "\<not> (sl - c = 0 \<and> nsm - 1 = 0)" "\<not> (bl - c = 0 \<and> nm - 1 = 0)"
        using True less.prems(1,2,5,6) by auto
      ultimately show ?thesis using eq ok copied_Cons unfolding z next_todo by (auto 0 3)
    qed
  qed
qed

section \<open>What segments guarantee\<close>

text \<open>
  A process with one view, of pages 2 to 4 of a page set, at address 0x1000, and the map
  \<open>demo_map\<close> moved into the utility area.
\<close>

definition demo_vm :: vmem where
  "demo_vm = \<lparr>pviews = (\<lambda>a. if a = 10 then \<lparr>p_set = 5, p_vaddr = 0x1000, p_len = 3, p_off = 2, p_vas = 1, pv_prot = 0\<rparr>
       else \<lparr>p_set = 5, p_vaddr = 0, p_len = 2, p_off = 3, p_vas = 0, pv_prot = 0\<rparr>),
     segs = (\<lambda>a. if a = 20 then \<lparr>s_off = 0x800, s_len = 3\<rparr> else \<lparr>s_off = 0, s_len = 2\<rparr>),
     vass = (\<lambda>a. \<lparr>v_views = [10], v_flags = 0, h_map = \<lparr>r_off = 1, r_size = 4\<rparr> # \<lparr>r_off = 0x40000, r_size = 8\<rparr>
       # replicate 3 \<lparr>r_off = 0, r_size = 0\<rparr>\<rparr>),
     ps_refs = (\<lambda>a. 1), seg_live = (\<lambda>a. a = 20 \<or> a = 30)\<rparr>"

text \<open>
  \<open>make_seg\<close> describes exactly the bytes asked for: when the range lies in the view that
  contains its start, the segment begins at the same byte of the page set, has the length
  given, covers only pages of that view and no page in excess, and takes one reference
  to the page set; a range that leaves the view is refused with nothing changed.
\<close>

theorem make_seg_exact:
  assumes find: "find_pview st vas buf = Some a" and view: "view_ok (pviews st a)"
    and nz: "buf \<noteq> 0" "buflen \<noteq> 0" and nowrap: "unat buf + unat buflen < 2 ^ 32"
  shows "if unat buf + unat buflen \<le> unat (p_vaddr (pviews st a)) + 4096 * unat (p_len (pviews st a))
    then \<exists>st'. make_seg vas buf buflen s st = (Some s, st') \<and>
      seg_pos (pviews st' s) (segs st' s) =
        4096 * unat (p_off (pviews st a)) + (unat buf - unat (p_vaddr (pviews st a))) \<and>
      s_len (segs st' s) = buflen \<and> unat (s_off (segs st' s)) < 4096 \<and>
      unat (s_off (segs st' s)) + unat buflen \<le> 4096 * unat (p_len (pviews st' s)) \<and>
      4096 * unat (p_len (pviews st' s)) < unat (s_off (segs st' s)) + unat buflen + 4096 \<and>
      unat (p_off (pviews st' s)) + unat (p_len (pviews st' s)) \<le>
        unat (p_off (pviews st a)) + unat (p_len (pviews st a)) \<and>
      p_set (pviews st' s) = p_set (pviews st a) \<and>
      ps_refs st' = (ps_refs st)(p_set (pviews st a) := ps_refs st (p_set (pviews st a)) + 1)
    else make_seg vas buf buflen s st = (None, st)"
proof -
  let ?pv = "pviews st a"
  define off where "off = buf - p_vaddr ?pv"
  have c: "unat (p_vaddr ?pv) \<le> unat buf" "unat buf < unat (p_vaddr ?pv) + 4096 * unat (p_len ?pv)"
    using find_pview_contains [OF find] contains_va_nat [OF view] by auto
  have e: "unat (p_vaddr ?pv + ptob (p_len ?pv)) = unat (p_vaddr ?pv) + 4096 * unat (p_len ?pv)"
    by (rule view_ok_end [OF view])
  have b: "unat (buf + buflen) = unat buf + unat buflen" using nowrap by (rule unat_add_no_overflow)
  have test: "(p_vaddr ?pv + ptob (p_len ?pv) < buf + buflen) =
      (\<not> unat buf + unat buflen \<le> unat (p_vaddr ?pv) + 4096 * unat (p_len ?pv))"
    by (simp add: word_less_nat_alt e b not_le)
  show ?thesis
  proof (cases "unat buf + unat buflen \<le> unat (p_vaddr ?pv) + 4096 * unat (p_len ?pv)")
    case False
    then show ?thesis using find nz test by (simp add: make_seg_def)
  next
    case True
    obtain r st' where m: "make_seg vas buf buflen s st = (r, st')" by (cases "make_seg vas buf buflen s st")
    note res = make_seg_result [OF find nz _ m off_def, simplified test True not_True_eq_False]
    have o: "unat off = unat buf - unat (p_vaddr ?pv)"
      using c(1) unat_sub_le [of "p_vaddr ?pv" buf] by (simp add: off_def word_le_nat_alt)
    have bt: "unat (btop off) = unat off div 4096" by (rule unat_btop)
    have "unat (btop off) < 2 ^ 20" using bt unat_lt_u32 [of off] by (simp add: less_mult_imp_div_less)
    then have pb: "unat (ptob (btop off)) = unat off div 4096 * 4096" using unat_ptob bt by simp
    have so: "unat (off - ptob (btop off)) = unat off mod 4096"
      using unat_sub_le [of "ptob (btop off)" off] pb
      by (simp add: word_le_nat_alt minus_div_mult_eq_mod)
    have view': "unat (p_vaddr ?pv) + 4096 * unat (p_len ?pv) \<le> 0x80000000"
        "unat (p_off ?pv) + unat (p_len ?pv) < 0x80000000" using view by (auto simp: view_ok_def)
    have po: "unat (p_off ?pv + btop off) = unat (p_off ?pv) + unat off div 4096"
      using view' c o bt by (subst unat_add_no_overflow) auto
    have sum: "unat (off - ptob (btop off) + buflen) = unat off mod 4096 + unat buflen"
      using so True view' by (subst unat_add_no_overflow) auto
    have pl: "unat (btorp (off - ptob (btop off) + buflen)) = (unat off mod 4096 + unat buflen + 4095) div 4096"
      using sum True view' by (subst unat_btorp) auto
    have "unat off + unat buflen \<le> 4096 * unat (p_len ?pv)" using True o c(1) by simp
    then have "unat off div 4096 + (unat off mod 4096 + unat buflen + 4095) div 4096 \<le> unat (p_len ?pv)"
      by (rule trim_pages)
    moreover have "unat off mod 4096 + unat buflen \<le> 4096 * ((unat off mod 4096 + unat buflen + 4095) div 4096)"
      "4096 * ((unat off mod 4096 + unat buflen + 4095) div 4096) < unat off mod 4096 + unat buflen + 4096"
      using round_up_bounds by blast+
    moreover have "4096 * (unat off div 4096) + unat off mod 4096 = unat off" by simp
    ultimately have "make_seg vas buf buflen s st = (Some s, st') \<and>
      seg_pos (pviews st' s) (segs st' s) = 4096 * unat (p_off ?pv) + unat off \<and>
      s_len (segs st' s) = buflen \<and> unat (s_off (segs st' s)) < 4096 \<and>
      unat (s_off (segs st' s)) + unat buflen \<le> 4096 * unat (p_len (pviews st' s)) \<and>
      4096 * unat (p_len (pviews st' s)) < unat (s_off (segs st' s)) + unat buflen + 4096 \<and>
      unat (p_off (pviews st' s)) + unat (p_len (pviews st' s)) \<le> unat (p_off ?pv) + unat (p_len ?pv) \<and>
      p_set (pviews st' s) = p_set ?pv \<and>
      ps_refs st' = (ps_refs st)(p_set ?pv := ps_refs st (p_set ?pv) + 1)"
      using m res so po pl by (simp add: seg_pos_def)
    then show ?thesis unfolding o using True by (simp only: if_True) blast
  qed
qed

theorem make_seg_exact_witness:
  "\<exists>st'. make_seg 1 0x1800 0x1000 40 demo_vm = (Some 40, st') \<and>
     seg_pos (pviews st' 40) (segs st' 40) = 4096 * 2 + 0x800 \<and> unat (p_len (pviews st' 40)) < 3"
proof -
  have f: "find_pview demo_vm 1 0x1800 = Some 10"
    by (simp add: find_pview_def demo_vm_def contains_va_def ptob_def)
  have v: "view_ok (pviews demo_vm 10)" by (simp add: view_ok_def demo_vm_def)
  show ?thesis using make_seg_exact [OF f v, of "0x1000" 40] by (auto simp: demo_vm_def)
qed

text \<open>
  The check of \<open>make_seg\<close> that the range ends in the view adds in 32 bits: a length that
  wraps the sum is accepted, and the segment claims bytes far outside the view.
\<close>

theorem make_seg_accepts_wrap:
  assumes find: "find_pview st vas buf = Some a" and view: "view_ok (pviews st a)" and nz: "buf \<noteq> 0"
    and wrap: "2 ^ 32 \<le> unat buf + unat buflen"
  shows "\<exists>st'. make_seg vas buf buflen s st = (Some s, st') \<and> s_len (segs st' s) = buflen \<and>
    unat (p_vaddr (pviews st a)) + 4096 * unat (p_len (pviews st a)) < unat buf + unat (s_len (segs st' s))"
proof -
  let ?pv = "pviews st a"
  have c: "unat buf < unat (p_vaddr ?pv) + 4096 * unat (p_len ?pv)"
    using find_pview_contains [OF find] contains_va_nat [OF view] by auto
  have e: "unat (buf + buflen) = unat buf + unat buflen - 2 ^ 32"
    using wrap by (simp add: unat_plus_if')
  have fits: "\<not> p_vaddr ?pv + ptob (p_len ?pv) < buf + buflen"
  proof -
    have "unat buflen \<le> 4294967296" by (rule less_imp_le) simp
    then have "unat buf + unat buflen - 2 ^ 32 \<le> unat buf" by (simp add: le_diff_conv)
    then show ?thesis using c e by (simp add: word_less_nat_alt view_ok_end [OF view])
  qed
  have bl: "buflen \<noteq> 0"
  proof
    assume "buflen = 0"
    then have "4294967296 \<le> unat buf" using wrap by simp
    then show False using unat_lt_u32 [of buf] by linarith
  qed
  have "unat (p_vaddr ?pv) + 4096 * unat (p_len ?pv) < unat buf + unat buflen"
    using wrap view by (simp add: view_ok_def)
  moreover obtain r st' where m: "make_seg vas buf buflen s st = (r, st')"
    by (cases "make_seg vas buf buflen s st")
  ultimately show ?thesis using make_seg_result [OF find nz bl fits m refl] by auto
qed

theorem make_seg_accepts_wrap_witness:
  "\<exists>st'. make_seg 1 0x1800 0xFFFFF000 40 demo_vm = (Some 40, st') \<and> s_len (segs st' 40) = 0xFFFFF000"
proof -
  have f: "find_pview demo_vm 1 0x1800 = Some 10"
    by (simp add: find_pview_def demo_vm_def contains_va_def ptob_def)
  have v: "view_ok (pviews demo_vm 10)" by (simp add: view_ok_def demo_vm_def)
  show ?thesis using make_seg_accepts_wrap [OF f v, of "0xFFFFF000" 40] by auto
qed

text \<open>
  Attaching a segment gives it pages of the receiver's utility area that were free, and
  fails only if there is no free run of its length; detaching it again restores the list of
  views and the free pages, so no segment leaks address space and none finds the map full.
\<close>

theorem attach_detach_seg:
  assumes inv: "rmap_inv (h_map (vass st v))" and area: "rmap_units (h_map (vass st v)) \<subseteq> {0x40000 ..< 0x60000}"
    and len: "0 < p_len (pviews st s)"
    and at: "attach_seg v s st = (r, st1)"
  shows "if r \<noteq> 0 then vass st1 = vass st \<and>
      (\<nexists>j. {j ..< j + unat (p_len (pviews st s))} \<subseteq> rmap_units (h_map (vass st v)))
    else v_views (vass st1 v) = s # v_views (vass st v) \<and>
      units (btop (p_vaddr (pviews st1 s))) (p_len (pviews st s)) \<subseteq> rmap_units (h_map (vass st v)) \<and>
      rmap_units (h_map (vass st1 v)) =
        rmap_units (h_map (vass st v)) - units (btop (p_vaddr (pviews st1 s))) (p_len (pviews st s)) \<and>
      (\<exists>st2. detach_seg s st1 = Some st2 \<and> v_views (vass st2 v) = v_views (vass st v) \<and>
        rmap_inv (h_map (vass st2 v)) \<and> rmap_units (h_map (vass st2 v)) = rmap_units (h_map (vass st v)))"
proof -
  let ?n = "p_len (pviews st s)" and ?m = "h_map (vass st v)"
  obtain pg m where al: "rmap_alloc ?m ?n = (pg, m)" by fastforce
  note spec = rmap_alloc_spec [OF inv len al]
  show ?thesis
  proof (cases "pg = 0")
    case True
    then show ?thesis using spec al at
      by (auto simp: attach_seg_def attach_pview_def hat_attach_def Let_def vm_upd)
  next
    case False
    have "unat pg \<in> units pg ?n" using unat_pos [OF len] by (auto simp: units_def)
    then have pg: "0x40000 \<le> unat pg" "unat pg < 0x60000" using spec False area by auto
    then have pt: "unat (ptob pg) = unat pg * 4096" by (intro unat_ptob) simp
    then have va: "ptob pg \<noteq> 0" "VMAP_BASE \<le> ptob pg" "ptob pg < VMAP_BASE + VMAP_SIZE"
      using pg by (auto simp: word_le_nat_alt word_less_nat_alt)
    have bp: "btop (ptob pg) = pg" using pg by (intro btop_ptob) simp
    have end_: "unat pg + unat ?n - 1 \<in> units pg ?n" using unat_pos [OF len] by (auto simp: units_def)
    then have last: "unat pg + unat ?n - 1 < 0x60000" using spec False area by auto
    then have "unat (ptob ?n) = unat ?n * 4096" using pg by (intro unat_ptob) simp
    then have "ptob pg < ptob pg + ptob ?n"
      using pt last pg unat_pos [OF len] by (simp add: word_less_nat_alt unat_add_no_overflow)
    then have self: "contains_va \<lparr>p_set = x, p_vaddr = ptob pg, p_len = ?n, p_off = y, p_vas = z, pv_prot = w\<rparr> (ptob pg)"
      for x y z w by (simp add: contains_va_def)
    obtain m'' where fr: "rmap_free m pg ?n = Some (m'', 0)" "rmap_inv m''" "rmap_units m'' = rmap_units ?m"
      using alloc_then_free [OF inv len al False] by blast
    let ?prot = "if v_flags (vass st v) AND VF_DMA \<noteq> 0 then 0 else PROT_RO"
    have st1: "r = 0" "st1 = upd_vas v (\<lambda>v. v\<lparr>h_map := m, v_views := s # v_views v\<rparr>)
        (upd_pv s (\<lambda>p. p\<lparr>pv_prot := ?prot, p_vas := v, p_vaddr := ptob pg\<rparr>) st)"
      using at al False va(1) by (auto simp: attach_seg_def attach_pview_def hat_attach_def Let_def vm_upd)
    have "find_pview st1 v (ptob pg) = Some s"
      using self by (simp add: find_pview_def st1(2) vm_upd contains_va_def)
    then have "\<exists>st2. detach_seg s st1 = Some st2 \<and> v_views (vass st2 v) = v_views (vass st v) \<and> h_map (vass st2 v) = m''"
      using va bp fr(1) by (simp add: detach_seg_def detach_pview_def hat_detach_def Let_def st1(2) vm_upd)
    then show ?thesis using spec False st1 bp fr by (auto simp: vm_upd)
  qed
qed

theorem attach_detach_seg_witness:
  "fst (attach_seg 1 20 demo_vm) = 0 \<and> btop (p_vaddr (pviews (snd (attach_seg 1 20 demo_vm)) 20)) = 0x40000 \<and>
   (\<exists>st2. detach_seg 20 (snd (attach_seg 1 20 demo_vm)) = Some st2 \<and> v_views (vass st2 1) = [10])"
proof -
  have u: "rmap_elems (h_map (vass demo_vm 1)) = [\<lparr>r_off = 0x40000, r_size = 8\<rparr>]"
    by (simp add: demo_vm_def rmap_elems_def)
  have i: "rmap_inv (h_map (vass demo_vm 1))"
    unfolding rmap_inv_def u by (simp add: demo_vm_def)
  have a: "rmap_units (h_map (vass demo_vm 1)) \<subseteq> {0x40000 ..< 0x60000}"
    unfolding rmap_units_def u by (auto simp: units_def)
  have l: "0 < p_len (pviews demo_vm 20)" "v_views (vass demo_vm 1) = [10]" by (simp_all add: demo_vm_def)
  have al: "rmap_alloc (\<lparr>r_off = 1, r_size = 4\<rparr> # \<lparr>r_off = 0x40000, r_size = 8\<rparr> # replicate 3 \<lparr>r_off = 0, r_size = 0\<rparr>) 2 =
      (0x40000, \<lparr>r_off = 1, r_size = 4\<rparr> # \<lparr>r_off = 0x40002, r_size = 6\<rparr> # replicate 3 \<lparr>r_off = 0, r_size = 0\<rparr>)"
    by code_simp
  have r: "fst (attach_seg 1 20 demo_vm) = 0"
    "btop (p_vaddr (pviews (snd (attach_seg 1 20 demo_vm)) 20)) = 0x40000"
    using al by (simp_all add: demo_vm_def attach_seg_def attach_pview_def hat_attach_def vm_upd Let_def ptob_def btop_def)
  show ?thesis using attach_detach_seg [OF i a l(1), of "fst (attach_seg 1 20 demo_vm)" "snd (attach_seg 1 20 demo_vm)"] r l(2)
    by auto
qed

text \<open>
  C26. \<open>copyoutsegs\<close> is a gather and scatter.  The segments are distinct and there is at least one,
  no segment and no buffer is empty: then the k-th byte of the reply goes to the k-th byte of the
  user's buffers until one of the two is used up, so that the lesser of the two lengths is copied
  (the comment in front of the function says the greater), whatever the lengths of the pieces,
  and the result counts the bytes; a fault stops it at the first copy that fails, with everything
  before that copied.
\<close>

theorem copyoutsegs_moves:
  assumes "ss \<noteq> []" "0 < n" "n \<le> length ms" "distinct ss"
    and "\<forall>s \<in> set ss. s_len (segs st s) \<noteq> 0" and "\<forall>b \<in> set (take n ms). snd b \<noteq> 0"
  shows "\<exists>r st' ms' tr. copyoutsegs flt ss (int (length ss)) ms (int n) st = Some (r, st', ms', tr) \<and>
    (let zs = zip (buf_bytes (take n ms)) (buf_bytes (map (seg_buf st) ss)) in
     r = Inr (of_nat (length zs)) \<and> moved tr = zs \<or>
     r = Inl EFAULT \<and> (\<exists>d s c rest. c \<noteq> 0 \<and> uucopy_fails flt d s c \<and> zs = moved tr @ moved [(d, s, c)] @ rest))"
proof -
  have "\<exists>r st' ms' tr'. copy_loop flt ss 0 0 (int (length ss)) (int n) 0 st ms [] = Some (r, st', ms', [] @ tr') \<and>
    copied flt 0 (todo ss 0 0 n st ms) r tr'"
    using assms by (intro copy_loop_moves) (force simp: in_set_conv_nth)+
  then obtain r st' ms' tr where e: "copyoutsegs flt ss (int (length ss)) ms (int n) st = Some (r, st', ms', tr)"
    and c: "copied flt 0 (todo ss 0 0 n st ms) r tr" by (auto simp: copyoutsegs_def)
  have "todo ss 0 0 n st ms = zip (buf_bytes (take n ms)) (buf_bytes (map (seg_buf st) ss))"
    by (simp add: todo_def)
  with c have "copied flt 0 (zip (buf_bytes (take n ms)) (buf_bytes (map (seg_buf st) ss))) r tr" by simp
  then show ?thesis using e unfolding copied_def Let_def add_0 by (metis append_Nil2 append_assoc)
qed

theorem copyoutsegs_moves_witness:
  "\<exists>st' ms' tr. copyoutsegs (\<lambda>to src cnt. False) [20, 30] 2 [(0x100, 4), (0x200, 4)] 2 demo_vm = Some (Inr 5, st', ms', tr) \<and>
     moved tr = [(0x100, 0x800), (0x101, 0x801), (0x102, 0x802), (0x103, 0), (0x200, 1)]"
proof -
  let ?flt = "\<lambda>to src cnt :: u32. False" and ?ms = "[(0x100, 4), (0x200, 4)] :: (u32 \<times> u32) list"
  have "zip (buf_bytes [(0x100, 4), (0x200, 4)]) (buf_bytes [(0x800, 3), (0, 2)]) =
      [(0x100, 0x800), (0x101, 0x801), (0x102, 0x802), (0x103, 0), (0x200, 1)]"
    by code_simp
  then have z: "zip (buf_bytes (take 2 ?ms)) (buf_bytes (map (seg_buf demo_vm) [20, 30])) =
      [(0x100, 0x800), (0x101, 0x801), (0x102, 0x802), (0x103, 0), (0x200, 1)]"
    by (simp add: seg_buf_def demo_vm_def del: buf_bytes.simps)
  have ok: "\<exists>st' ms' tr. copyoutsegs ?flt [20, 30] 2 ?ms 2 demo_vm = Some (Inr 5, st', ms', tr)"
    by (simp add: copyoutsegs_def copy_loop.simps uucopy_fails_def demo_vm_def upd_seg_def Let_def)
      (simp add: word_le_nat_alt)
  show ?thesis using copyoutsegs_moves [of "[20, 30]" 2 ?ms demo_vm ?flt] ok z
    by (auto simp: demo_vm_def Let_def simp del: moved.simps buf_bytes.simps)
qed

text \<open>
  \<open>copyoutsegs\<close> looks at a count only after it has used a piece up: a user message that
  announces no segment still has the buffer that happens to lie in its first slot
  overwritten with the reply.
\<close>

theorem copyoutsegs_ignores_zero_count:
  assumes "s_len (segs st s) = n" "n \<noteq> 0" "nm \<le> 0"
    and "\<not> uucopy_fails flt buf (p_vaddr (pviews st s) + s_off (segs st s)) n"
  shows "\<exists>st' ms'. copyoutsegs flt [s] 1 ((buf, n) # ms) nm st =
    Some (Inr n, st', ms', [(buf, p_vaddr (pviews st s) + s_off (segs st s), n)])"
  using assms by (simp add: copyoutsegs_def copy_loop.simps Let_def)

theorem copyoutsegs_ignores_zero_count_witness:
  "\<exists>st' ms'. copyoutsegs (\<lambda>to src cnt. False) [20] 1 [(0x100, 3)] 0 demo_vm = Some (Inr 3, st', ms', [(0x100, 0x800, 3)])"
  using copyoutsegs_ignores_zero_count [of demo_vm 20 3 0 "\<lambda>to src cnt. False" "0x100" "[]"]
  by (simp add: demo_vm_def uucopy_fails_def)

end
