(* ===== verification/Page_Sets.thy ===== *)
theory Page_Sets
  imports Core_Pages Segments
begin

text \<open>
  Page sets, \<open>os/kern/pset.c\<close> and its kinds \<open>pset_zfo.c\<close>, \<open>pset_fod.c\<close>, \<open>pset_mem.c\<close> and
  \<open>pset_cow.c\<close>, the attach lists of \<open>atl.c\<close> and the page transfers of \<open>vm_swap.c\<close>.

  A set is an array of slots, each of which may hold a physical page, have an image on swap, or
  share the page of a slot of the set it copies from.  \<open>frames\<close> are the contents of the physical
  pages, \<open>dev\<close> what the server behind a connection stores at a byte offset, and \<open>dev_fails\<close>
  whether it fails there.  References to a set are counted by \<open>ps_refs\<close> of \<open>vmm\<close>; the union of
  \<open>p_cow\<close> and \<open>p_pr\<close> is \<open>ps_u\<close>, and the operations of a set are named by the kind whose table
  they are.  The spin lock of a set is not in the model: there is one processor.  \<open>None\<close> is a
  failing assertion or a thread that goes to sleep.
\<close>

type_synonym page = "nat \<Rightarrow> u8"

datatype ptype = PT_UNINIT | PT_ZERO | PT_FILE | PT_COW | PT_MEM

record perpage =
  pp_flags :: u8
  pp_lock :: u8
  pp_refs :: u16
  pp_pfn :: nat
  pp_atl :: "(addr \<times> u32) list"

record pset =
  ps_len :: u32
  ps_off :: u32
  ps_type :: ptype
  ps_locks :: u16
  ps_u :: addr
  ps_swapblk :: u32
  ps_cowsets :: addr
  ps_flags :: u16
  ps_pp :: "u32 \<Rightarrow> perpage"
  ps_ops :: ptype
  ps_live :: bool

record qio =
  q_port :: addr
  q_pset :: addr
  q_idx :: u32
  q_off :: u32

text \<open>An entry of a page table, and the state of the virtual memory.\<close>

record pte =
  t_pfn :: nat
  t_v :: bool
  t_w :: bool
  t_u :: bool
  t_r :: bool
  t_m :: bool

record vm =
  vmm :: vmem
  psets :: "addr \<Rightarrow> pset"
  kcore :: kmem
  frames :: "nat \<Rightarrow> page"
  dev :: "addr \<Rightarrow> u32 \<Rightarrow> page"
  dev_fails :: "addr \<Rightarrow> u32 \<Rightarrow> bool"
  swapdev :: addr
  swap_pending :: u32
  swap_leaked :: u32
  ptes :: "addr \<Rightarrow> u32 \<Rightarrow> pte"
  l1pt :: "addr \<Rightarrow> u32 \<Rightarrow> nat"
  qios :: "qio list"

definition PP_V :: u8 where "PP_V = 1"
definition PP_COW :: u8 where "PP_COW = 2"
definition PP_SWAPPED :: u8 where "PP_SWAPPED = 4"
definition PP_BAD :: u8 where "PP_BAD = 8"
definition PP_M :: u8 where "PP_M = 16"
definition PP_R :: u8 where "PP_R = 32"
definition PP_LOCK :: u8 where "PP_LOCK = 1"
definition PP_WANT :: u8 where "PP_WANT = 2"
definition PF_SHARED :: u16 where "PF_SHARED = 1"

datatype fsop = FS_ABSREAD | FS_ABSWRITE

definition zero_page :: page where "zero_page = (\<lambda>_. 0)"

definition upd_ps :: "addr \<Rightarrow> (pset \<Rightarrow> pset) \<Rightarrow> vm \<Rightarrow> vm" where
  "upd_ps ps f st = st\<lparr>psets := (psets st)(ps := f (psets st ps))\<rparr>"

definition upd_pp :: "addr \<Rightarrow> u32 \<Rightarrow> (perpage \<Rightarrow> perpage) \<Rightarrow> vm \<Rightarrow> vm" where
  "upd_pp ps idx f st = upd_ps ps (\<lambda>p. p\<lparr>ps_pp := (ps_pp p)(idx := f (ps_pp p idx))\<rparr>) st"

section \<open>Transfers of pages\<close>

text \<open>\<open>pageio\<close>: the result is the C value, 0 for success.\<close>

definition pageio :: "nat \<Rightarrow> addr \<Rightarrow> u32 \<Rightarrow> fsop \<Rightarrow> vm \<Rightarrow> (int \<times> vm) option" where
  "pageio pfn pr off op st =
     (if pr = 0 then None
      else if dev_fails st pr off then Some (1, st)
      else case op of
        FS_ABSREAD \<Rightarrow> Some (0, st\<lparr>frames := (frames st)(pfn := dev st pr off)\<rparr>)
      | FS_ABSWRITE \<Rightarrow> Some (0, st\<lparr>dev := (dev st)(pr := (dev st pr)(off := frames st pfn))\<rparr>))"

text \<open>
  \<open>alloc_swap\<close>: \<open>ans\<close> are the answers of the swap manager, to the request for the blocks counted
  before it came up, which have to start at 1, and to this request.  Without a manager blocks are
  only counted.  The call sleeps while the manager has no room.
\<close>

type_synonym swap_ans = "u32 \<times> u32"

definition alloc_swap :: "swap_ans \<Rightarrow> u32 \<Rightarrow> vm \<Rightarrow> (u32 \<times> vm) option" where
  "alloc_swap ans n st =
     (let pend = (swap_pending st \<noteq> 0 \<and> swapdev st \<noteq> 0) in
      if pend \<and> fst ans \<noteq> 1 then None
      else
        let st1 = (if pend then st\<lparr>swap_pending := 0\<rparr> else st) in
        if swapdev st1 = 0 then Some (swap_pending st1 + 1, st1\<lparr>swap_pending := swap_pending st1 + n\<rparr>)
        else if sint (snd ans) \<le> 0 then None else Some (snd ans, st1))"

definition free_swap :: "u32 \<Rightarrow> u32 \<Rightarrow> vm \<Rightarrow> vm" where
  "free_swap blk n st = (if swapdev st = 0 then st\<lparr>swap_leaked := swap_leaked st + n\<rparr> else st)"

section \<open>Attach lists\<close>

definition add_atl :: "addr \<Rightarrow> u32 \<Rightarrow> perpage \<Rightarrow> perpage" where
  "add_atl pv off pp = pp\<lparr>pp_atl := (pv, off) # pp_atl pp\<rparr>"

definition delete_atl :: "addr \<Rightarrow> u32 \<Rightarrow> perpage \<Rightarrow> int \<times> perpage" where
  "delete_atl pv off pp =
     (if (pv, off) \<in> set (pp_atl pp) then (0, pp\<lparr>pp_atl := remove1 (pv, off) (pp_atl pp)\<rparr>) else (1, pp))"

section \<open>Slots\<close>

definition find_pp :: "addr \<Rightarrow> u32 \<Rightarrow> vm \<Rightarrow> perpage option" where
  "find_pp ps idx st = (if idx < ps_len (psets st ps) then Some (ps_pp (psets st ps) idx) else None)"

definition lock_slot :: "addr \<Rightarrow> u32 \<Rightarrow> vm \<Rightarrow> vm option" where
  "lock_slot ps idx st =
     (let st1 = upd_ps ps (\<lambda>p. p\<lparr>ps_locks := ps_locks p + 1\<rparr>) st in
      if pp_lock (ps_pp (psets st ps) idx) AND PP_LOCK \<noteq> 0 then None
      else Some (upd_pp ps idx (\<lambda>p. p\<lparr>pp_lock := pp_lock p OR PP_LOCK\<rparr>) st1))"

definition clock_slot :: "addr \<Rightarrow> u32 \<Rightarrow> vm \<Rightarrow> int \<times> vm" where
  "clock_slot ps idx st =
     (if pp_lock (ps_pp (psets st ps) idx) AND PP_LOCK \<noteq> 0 then (1, st)
      else (0, upd_pp ps idx (\<lambda>p. p\<lparr>pp_lock := pp_lock p OR PP_LOCK\<rparr>)
                 (upd_ps ps (\<lambda>p. p\<lparr>ps_locks := ps_locks p + 1\<rparr>) st)))"

definition unlock_slot :: "addr \<Rightarrow> u32 \<Rightarrow> vm \<Rightarrow> vm option" where
  "unlock_slot ps idx st =
     (if pp_lock (ps_pp (psets st ps) idx) AND PP_LOCK = 0 then None
      else Some (upd_pp ps idx (\<lambda>p. p\<lparr>pp_lock := pp_lock p AND NOT (PP_LOCK OR PP_WANT)\<rparr>)
                  (upd_ps ps (\<lambda>p. p\<lparr>ps_locks := ps_locks p - 1\<rparr>) st)))"

definition deref_slot :: "addr \<Rightarrow> u32 \<Rightarrow> vm \<Rightarrow> vm option" where
  "deref_slot ps idx st =
     (if pp_refs (ps_pp (psets st ps) idx) = 0 then None
      else Some (upd_pp ps idx (\<lambda>p. p\<lparr>pp_refs := pp_refs p - 1\<rparr>) st))"

definition ref_slot :: "addr \<Rightarrow> u32 \<Rightarrow> vm \<Rightarrow> vm option" where
  "ref_slot ps idx st =
     (if pp_refs (ps_pp (psets st ps) idx) + 1 = 0 then None
      else Some (upd_pp ps idx (\<lambda>p. p\<lparr>pp_refs := pp_refs p + 1\<rparr>) st))"

section \<open>Filling a slot\<close>

text \<open>A page for a slot: \<open>alloc_page\<close> and \<open>set_core\<close>.\<close>

definition slot_page :: "addr \<Rightarrow> u32 \<Rightarrow> vm \<Rightarrow> (nat \<times> vm) option" where
  "slot_page ps idx st = do {
     (pg, c) \<leftarrow> alloc_page (kcore st);
     c1 \<leftarrow> set_core pg ps (ucast idx) c;
     Some (pg, st\<lparr>kcore := c1\<rparr>)
   }"

definition drop_page :: "nat \<Rightarrow> vm \<Rightarrow> vm option" where
  "drop_page pg st = map_option (\<lambda>c. st\<lparr>kcore := c\<rparr>) (free_page pg (kcore st))"

text \<open>The page arrives in the slot: valid, clean, with one reference.\<close>

definition slot_filled :: "addr \<Rightarrow> u32 \<Rightarrow> nat \<Rightarrow> vm \<Rightarrow> vm" where
  "slot_filled ps idx pg st =
     upd_pp ps idx (\<lambda>p. p\<lparr>pp_flags := (pp_flags p OR PP_V) AND NOT (PP_M OR PP_R), pp_pfn := pg, pp_refs := 1\<rparr>) st"

definition page_in :: "addr \<Rightarrow> u32 \<Rightarrow> nat \<Rightarrow> addr \<Rightarrow> u32 \<Rightarrow> vm \<Rightarrow> (int \<times> vm) option" where
  "page_in ps idx pg pr off st = do {
     (r, st1) \<leftarrow> pageio pg pr off FS_ABSREAD st;
     if r \<noteq> 0 then map_option (Pair 1) (drop_page pg st1)
     else Some (0, slot_filled ps idx pg st1)
   }"

definition zfod_fillslot :: "addr \<Rightarrow> u32 \<Rightarrow> vm \<Rightarrow> (int \<times> vm) option" where
  "zfod_fillslot ps idx st =
     (let fl = pp_flags (ps_pp (psets st ps) idx) in
      if fl AND (PP_V OR PP_BAD) \<noteq> 0 then None
      else do {
        (pg, st1) \<leftarrow> slot_page ps idx st;
        if fl AND PP_SWAPPED \<noteq> 0 then page_in ps idx pg (swapdev st1) (ptob (idx + ps_swapblk (psets st1 ps))) st1
        else Some (0, slot_filled ps idx pg (st1\<lparr>frames := (frames st1)(pg := zero_page)\<rparr>))
      })"

definition fod_fillslot :: "addr \<Rightarrow> u32 \<Rightarrow> vm \<Rightarrow> (int \<times> vm) option" where
  "fod_fillslot ps idx st =
     (let fl = pp_flags (ps_pp (psets st ps) idx) in
      if fl AND (PP_V OR PP_BAD) \<noteq> 0 then None
      else do {
        (pg, st1) \<leftarrow> slot_page ps idx st;
        page_in ps idx pg (ps_u (psets st1 ps)) (ptob (idx + ps_off (psets st1 ps))) st1
      })"

definition mem_fillslot :: "addr \<Rightarrow> u32 \<Rightarrow> vm \<Rightarrow> (int \<times> vm) option" where
  "mem_fillslot ps idx st = (if pp_flags (ps_pp (psets st ps) idx) AND PP_V = 0 then None else Some (0, st))"

text \<open>
  The table of operations.  The set that a copy-on-write set shadows is never one itself, which
  \<open>alloc_pset_cow\<close> asserts.
\<close>

definition master_fillslot :: "addr \<Rightarrow> u32 \<Rightarrow> vm \<Rightarrow> (int \<times> vm) option" where
  "master_fillslot ps idx st =
     (case ps_ops (psets st ps) of
        PT_ZERO \<Rightarrow> zfod_fillslot ps idx st
      | PT_FILE \<Rightarrow> fod_fillslot ps idx st
      | PT_MEM \<Rightarrow> mem_fillslot ps idx st
      | _ \<Rightarrow> None)"

text \<open>The sharing of a slot of the master: it is filled if it has to be, and counted.\<close>

definition share_slot :: "addr \<Rightarrow> u32 \<Rightarrow> vm \<Rightarrow> (int \<times> nat \<times> vm) option" where
  "share_slot cow idx2 st = do {
     pp2 \<leftarrow> find_pp cow idx2 st;
     st1 \<leftarrow> lock_slot cow idx2 st;
     if pp_flags pp2 AND PP_V = 0 then do {
       (r, st2) \<leftarrow> master_fillslot cow idx2 st1;
       st3 \<leftarrow> unlock_slot cow idx2 st2;
       if r \<noteq> 0 then Some (1, 0, st3)
       else if pp_flags (ps_pp (psets st2 cow) idx2) AND PP_V = 0 then None
       else Some (0, pp_pfn (ps_pp (psets st2 cow) idx2), st3)
     } else do {
       let st2 = upd_pp cow idx2 (\<lambda>p. p\<lparr>pp_refs := pp_refs p + 1\<rparr>) st1;
       st3 \<leftarrow> unlock_slot cow idx2 st2;
       Some (0, pp_pfn pp2, st3)
     }
   }"

text \<open>The page on swap is asked for at the number of its block, not at its byte offset.\<close>

definition cow_fillslot :: "addr \<Rightarrow> u32 \<Rightarrow> vm \<Rightarrow> (int \<times> vm) option" where
  "cow_fillslot ps idx st =
     (let p = psets st ps; fl = pp_flags (ps_pp p idx) in
      if fl AND (PP_V OR PP_BAD) \<noteq> 0 then None
      else if fl AND PP_SWAPPED \<noteq> 0 then do {
        (pg, st1) \<leftarrow> slot_page ps idx st;
        page_in ps idx pg (swapdev st1) (ps_swapblk (psets st1 ps) + idx) st1
      } else do {
        (r, pg, st1) \<leftarrow> share_slot (ps_u p) (ps_off p + idx) st;
        if r \<noteq> 0 then Some (1, st1)
        else Some (0, slot_filled ps idx pg (upd_pp ps idx (\<lambda>p. p\<lparr>pp_flags := pp_flags p OR PP_COW\<rparr>) st1))
      })"

definition fillslot :: "addr \<Rightarrow> u32 \<Rightarrow> vm \<Rightarrow> (int \<times> vm) option" where
  "fillslot ps idx st = (if ps_ops (psets st ps) = PT_COW then cow_fillslot ps idx st else master_fillslot ps idx st)"

text \<open>Breaking the sharing of a slot when it is written.\<close>

definition cow_write :: "addr \<Rightarrow> u32 \<Rightarrow> vm \<Rightarrow> vm option" where
  "cow_write ps idx st =
     (let p = psets st ps; idx2 = ps_off p + idx in do {
        pp2 \<leftarrow> find_pp (ps_u p) idx2 st;
        (pg, st1) \<leftarrow> slot_page ps idx st;
        if pp_flags pp2 AND PP_V = 0 then None
        else do {
          st2 \<leftarrow> deref_slot (ps_u p) idx2 (st1\<lparr>frames := (frames st1)(pg := frames st1 (pp_pfn pp2))\<rparr>);
          Some (upd_pp ps idx (\<lambda>p. p\<lparr>pp_pfn := pg, pp_flags := pp_flags p AND NOT PP_COW\<rparr>) st2)
        }
      })"

section \<open>Writing a slot out\<close>

text \<open>
  \<open>pset_writeslot\<close>; \<open>async\<close> tells whether a function to call on completion is given, and the
  operation is queued.  \<open>io_done\<close> is the completion by the thread that runs the queue, with
  \<open>iodone_unlock\<close>: the result of the transfer is not looked at.
\<close>

definition pset_writeslot :: "addr \<Rightarrow> u32 \<Rightarrow> bool \<Rightarrow> vm \<Rightarrow> (int \<times> vm) option" where
  "pset_writeslot ps idx async st =
     (let p = psets st ps; pp = ps_pp p idx in
      if pp_flags pp AND PP_V = 0 then None
      else
        let st1 = upd_pp ps idx (\<lambda>p. p\<lparr>pp_flags := (pp_flags p AND NOT PP_M) OR PP_SWAPPED\<rparr>) st in
        if \<not> async then do {
          (r, st2) \<leftarrow> pageio (pp_pfn pp) (swapdev st) (ptob (idx + ps_swapblk p)) FS_ABSWRITE st1;
          if r \<noteq> 0 then Some (1, upd_pp ps idx (\<lambda>p. p\<lparr>pp_flags := pp_flags p OR PP_BAD\<rparr>) st2) else Some (0, st2)
        } else
          Some (0, st1\<lparr>qios := qios st1 @ [\<lparr>q_port = swapdev st, q_pset = ps, q_idx = idx, q_off = ptob (idx + ps_swapblk p)\<rparr>]\<rparr>))"

definition iodone_unlock :: "addr \<Rightarrow> u32 \<Rightarrow> vm \<Rightarrow> vm option" where
  "iodone_unlock ps idx st =
     unlock_slot ps idx (upd_pp ps idx (\<lambda>p. p\<lparr>pp_flags := pp_flags p AND NOT (PP_R OR PP_M)\<rparr>) st)"

definition io_done :: "vm \<Rightarrow> vm option" where
  "io_done st =
     (case qios st of
        [] \<Rightarrow> None
      | q # qs \<Rightarrow> do {
          (r, st1) \<leftarrow> pageio (pp_pfn (ps_pp (psets st (q_pset q)) (q_idx q))) (q_port q) (q_off q) FS_ABSWRITE (st\<lparr>qios := qs\<rparr>);
          iodone_unlock (q_pset q) (q_idx q) st1
        })"

definition writeslot :: "addr \<Rightarrow> u32 \<Rightarrow> bool \<Rightarrow> vm \<Rightarrow> (int \<times> vm) option" where
  "writeslot ps idx async st =
     (let fl = pp_flags (ps_pp (psets st ps) idx) in
      case ps_ops (psets st ps) of
        PT_FILE \<Rightarrow> if fl AND PP_V = 0 \<or> fl AND PP_M \<noteq> 0 then None else Some (0, st)
      | PT_MEM \<Rightarrow> if fl AND PP_V = 0 then None else Some (0, upd_pp ps idx (\<lambda>p. p\<lparr>pp_flags := pp_flags p AND NOT PP_M\<rparr>) st)
      | _ \<Rightarrow> pset_writeslot ps idx async st)"

section \<open>Creating sets\<close>

text \<open>\<open>a\<close> is the storage from \<open>MALLOC\<close>.\<close>

definition empty_pp :: perpage where
  "empty_pp = \<lparr>pp_flags = 0, pp_lock = 0, pp_refs = 0, pp_pfn = 0, pp_atl = []\<rparr>"

definition new_refs :: "addr \<Rightarrow> vm \<Rightarrow> vm" where
  "new_refs a st = st\<lparr>vmm := (vmm st)\<lparr>ps_refs := (ps_refs (vmm st))(a := 0)\<rparr>\<rparr>"

definition alloc_pset :: "addr \<Rightarrow> u32 \<Rightarrow> ptype \<Rightarrow> vm \<Rightarrow> vm" where
  "alloc_pset a n t st =
     new_refs a (st\<lparr>psets := (psets st)(a := \<lparr>ps_len = n, ps_off = 0, ps_type = t, ps_locks = 0, ps_u = 0, ps_swapblk = 0,
       ps_cowsets = 0, ps_flags = 0, ps_pp = \<lambda>_. empty_pp, ps_ops = t, ps_live = True\<rparr>)\<rparr>)"

definition alloc_pset_zfod :: "swap_ans \<Rightarrow> addr \<Rightarrow> u32 \<Rightarrow> vm \<Rightarrow> (addr \<times> vm) option" where
  "alloc_pset_zfod ans a n st = do {
     (b, st1) \<leftarrow> alloc_swap ans n st;
     if b = 0 then Some (0, st1)
     else Some (a, upd_ps a (\<lambda>p. p\<lparr>ps_swapblk := b\<rparr>) (alloc_pset a n PT_ZERO st1))
   }"

definition alloc_pset_fod :: "addr \<Rightarrow> addr \<Rightarrow> u32 \<Rightarrow> vm \<Rightarrow> vm" where
  "alloc_pset_fod a pr n st = upd_ps a (\<lambda>p. p\<lparr>ps_u := pr\<rparr>) (alloc_pset a n PT_FILE st)"

definition physmem_pset :: "addr \<Rightarrow> nat \<Rightarrow> u32 \<Rightarrow> vm \<Rightarrow> vm" where
  "physmem_pset a pfn n st =
     upd_ps a (\<lambda>p. p\<lparr>ps_pp := (\<lambda>x. if x < n then empty_pp\<lparr>pp_pfn := pfn + unat x, pp_flags := PP_V\<rparr> else empty_pp)\<rparr>)
       (alloc_pset a n PT_MEM st)"

definition add_cowset :: "addr \<Rightarrow> addr \<Rightarrow> vm \<Rightarrow> vm" where
  "add_cowset pscow ps st =
     (let st1 = st\<lparr>vmm := ref_pset pscow (vmm st)\<rparr>;
          st2 = upd_ps ps (\<lambda>p. p\<lparr>ps_cowsets := ps_cowsets (psets st1 pscow), ps_u := pscow\<rparr>) st1
      in upd_ps pscow (\<lambda>p. p\<lparr>ps_cowsets := ps\<rparr>) st2)"

definition alloc_pset_cow :: "swap_ans \<Rightarrow> addr \<Rightarrow> addr \<Rightarrow> u32 \<Rightarrow> u32 \<Rightarrow> vm \<Rightarrow> (addr \<times> vm) option" where
  "alloc_pset_cow ans a psold off n st =
     (if ps_type (psets st psold) = PT_COW then None
      else do {
        (b, st1) \<leftarrow> alloc_swap ans n st;
        if b = 0 then Some (0, st1)
        else Some (a, add_cowset psold a (upd_ps a (\<lambda>p. p\<lparr>ps_off := off, ps_swapblk := b\<rparr>) (alloc_pset a n PT_COW st1)))
      })"

section \<open>Copying a set\<close>

text \<open>A page on swap is written, not read: the operation is \<open>FS_ABSWRITE\<close>.\<close>

definition copy_page :: "u32 \<Rightarrow> addr \<Rightarrow> addr \<Rightarrow> vm \<Rightarrow> vm option" where
  "copy_page idx ops ps st = do {
     let opp = ps_pp (psets st ops) idx;
     (pg, st1) \<leftarrow> slot_page ps idx st;
     (r, st2) \<leftarrow> (if pp_flags opp AND PP_V \<noteq> 0 then Some (0, st1\<lparr>frames := (frames st1)(pg := frames st1 (pp_pfn opp))\<rparr>)
                 else if pp_flags opp AND PP_SWAPPED = 0 then None
                 else pageio pg (swapdev st1) (ptob (idx + ps_swapblk (psets st1 ops))) FS_ABSWRITE st1);
     if r \<noteq> 0 then drop_page pg (upd_pp ps idx (\<lambda>p. p\<lparr>pp_flags := pp_flags p OR PP_BAD\<rparr>) st2)
     else Some (upd_pp ps idx (\<lambda>p. p\<lparr>pp_flags := pp_flags p OR PP_V, pp_pfn := pg\<rparr>) st2)
   }"

text \<open>One round of \<open>dup_slots\<close>.  The lock is given back only after a copy.\<close>

definition dup_slot :: "addr \<Rightarrow> addr \<Rightarrow> u32 \<Rightarrow> vm \<Rightarrow> vm option" where
  "dup_slot ops ps x st =
     (let fl = pp_flags (ps_pp (psets st ops) x) in
      if fl AND (PP_V OR PP_SWAPPED) = 0 then Some st
      else do {
        st1 \<leftarrow> lock_slot ops x st;
        if fl AND (PP_V OR PP_COW) \<noteq> PP_V OR PP_COW then do {
          st2 \<leftarrow> copy_page x ops ps st1;
          unlock_slot ops x st2
        } else Some st1
      })"

fun dup_slots :: "addr \<Rightarrow> addr \<Rightarrow> nat list \<Rightarrow> vm \<Rightarrow> vm option" where
  "dup_slots ops ps [] st = Some st"
| "dup_slots ops ps (x # xs) st = Option.bind (dup_slot ops ps (of_nat x) st) (dup_slots ops ps xs)"

text \<open>
  \<open>junk\<close> is what the storage \<open>a\<close> held before, of which the members that are not set remain; \<open>pr\<close>
  is the duplicate of the connection to the file.
\<close>

definition copy_pset :: "pset \<Rightarrow> addr \<Rightarrow> swap_ans \<Rightarrow> swap_ans \<Rightarrow> addr \<Rightarrow> addr \<Rightarrow> vm \<Rightarrow> vm option" where
  "copy_pset junk pr ans1 ans2 ops a st = do {
     let o' = psets st ops;
     let new = junk\<lparr>ps_len := ps_len o', ps_off := ps_off o', ps_type := ps_type o', ps_locks := 0, ps_flags := ps_flags o',
                 ps_ops := ps_ops o', ps_pp := \<lambda>_. empty_pp, ps_live := True\<rparr>;
     let st1 = new_refs a (st\<lparr>psets := (psets st)(a := new)\<rparr>);
     st2 \<leftarrow> (case ps_type o' of
               PT_FILE \<Rightarrow> Some (upd_ps a (\<lambda>p. p\<lparr>ps_u := pr\<rparr>) st1)
             | PT_COW \<Rightarrow> Some (add_cowset (ps_u o') a st1)
             | PT_MEM \<Rightarrow> do {
                 (b, st2) \<leftarrow> alloc_swap ans1 (ps_len o') st1;
                 Some (upd_ps a (\<lambda>p. p\<lparr>ps_type := PT_ZERO, ps_ops := PT_ZERO, ps_swapblk := b\<rparr>) st2)
               }
             | _ \<Rightarrow> Some st1);
     st3 \<leftarrow> (if ps_swapblk o' \<noteq> 0 then do {
               (b, st3) \<leftarrow> alloc_swap ans2 (ps_len o') st2;
               Some (upd_ps a (\<lambda>p. p\<lparr>ps_swapblk := b\<rparr>) st3)
             } else Some st2);
     dup_slots ops a [0..<unat (ps_len o')] st3
   }"

section \<open>Freeing a set\<close>

definition free_slot :: "addr \<Rightarrow> u32 \<Rightarrow> vm \<Rightarrow> vm option" where
  "free_slot ps x st =
     (let p = psets st ps; pp = ps_pp p x in
      if pp_refs pp \<noteq> 0 then None
      else if pp_flags pp AND PP_V = 0 then Some st
      else if pp_flags pp AND PP_COW \<noteq> 0 then do {
        let idx = ps_off p + x;
        _ \<leftarrow> find_pp (ps_u p) idx st;
        st1 \<leftarrow> lock_slot (ps_u p) idx st;
        st2 \<leftarrow> deref_slot (ps_u p) idx st1;
        unlock_slot (ps_u p) idx st2
      } else drop_page (pp_pfn pp) st)"

fun free_slots :: "addr \<Rightarrow> nat list \<Rightarrow> vm \<Rightarrow> vm option" where
  "free_slots ps [] st = Some st"
| "free_slots ps (x # xs) st = Option.bind (free_slot ps (of_nat x) st) (free_slots ps xs)"

definition free_pages_of :: "addr \<Rightarrow> vm \<Rightarrow> vm option" where
  "free_pages_of ps st =
     (let p = psets st ps in
      if ps_type p = PT_MEM then Some st
      else map_option (free_swap (ps_swapblk p) (ps_len p)) (free_slots ps [0..<unat (ps_len p)] st))"

partial_function (option) find_cow :: "(addr \<Rightarrow> addr) \<Rightarrow> addr \<Rightarrow> addr \<Rightarrow> addr \<Rightarrow> addr option" where
  "find_cow nx ps prev c = (if c = 0 then None else if c = ps then Some prev else find_cow nx ps c (nx c))"

declare find_cow.simps [code]

definition del_cowset :: "addr \<Rightarrow> addr \<Rightarrow> vm \<Rightarrow> vm option" where
  "del_cowset cow ps st =
     map_option (\<lambda>prev. upd_ps prev (\<lambda>p. p\<lparr>ps_cowsets := ps_cowsets (psets st ps)\<rparr>) st)
       (find_cow (\<lambda>a. ps_cowsets (psets st a)) ps cow (ps_cowsets (psets st cow)))"

definition drop_pset :: "addr \<Rightarrow> vm \<Rightarrow> vm option" where
  "drop_pset ps st = (if ps_live (psets st ps) then Some (upd_ps ps (\<lambda>p. p\<lparr>ps_live := False\<rparr>) st) else None)"

text \<open>\<open>psop_deinit\<close>: only the sets of files have something to check.\<close>

definition deinit_ok :: "addr \<Rightarrow> vm \<Rightarrow> bool" where
  "deinit_ok ps st =
     (ps_ops (psets st ps) = PT_FILE \<longrightarrow>
       list_all (\<lambda>x. pp_flags (ps_pp (psets st ps) (of_nat x)) AND PP_M = 0) [0..<unat (ps_len (psets st ps))])"

text \<open>
  \<open>free_pset\<close> and \<open>deref_pset\<close> call each other: a copy-on-write set gives up its reference to its
  master, which is no such set.  \<open>shut_client\<close> of the connection to a file is in the model of
  connections.
\<close>

definition free_master :: "addr \<Rightarrow> vm \<Rightarrow> vm option" where
  "free_master ps st =
     (if ps_refs (vmm st) ps \<noteq> 0 \<or> ps_locks (psets st ps) \<noteq> 0 \<or> ps_type (psets st ps) = PT_COW then None
      else Option.bind (free_pages_of ps st) (drop_pset ps))"

definition deref_pset_by :: "(addr \<Rightarrow> vm \<Rightarrow> vm option) \<Rightarrow> addr \<Rightarrow> vm \<Rightarrow> vm option" where
  "deref_pset_by free ps st = do {
     m \<leftarrow> deref_pset ps (vmm st);
     let st1 = st\<lparr>vmm := m\<rparr>;
     if ps_refs m ps \<noteq> 0 then Some st1 else if deinit_ok ps st1 then free ps st1 else None
   }"

definition free_pset :: "addr \<Rightarrow> vm \<Rightarrow> vm option" where
  "free_pset ps st =
     (if ps_type (psets st ps) \<noteq> PT_COW then free_master ps st
      else if ps_refs (vmm st) ps \<noteq> 0 \<or> ps_locks (psets st ps) \<noteq> 0 then None
      else do {
        let cow = ps_u (psets st ps);
        st1 \<leftarrow> free_pages_of ps st;
        st2 \<leftarrow> del_cowset cow ps st1;
        st3 \<leftarrow> deref_pset_by free_master cow st2;
        drop_pset ps st3
      })"

definition deref_set :: "addr \<Rightarrow> vm \<Rightarrow> vm option" where
  "deref_set = deref_pset_by free_pset"

end
