(* ===== verification/Page_Faults.thy ===== *)
theory Page_Faults
  imports Page_Sets
begin

text \<open>
  Translations, \<open>os/mach/hat.c\<close>, views of sets, \<open>os/kern/pview.c\<close>, the address spaces that hold
  them, \<open>os/kern/vas.c\<close>, and page faults, \<open>os/kern/vm_fault.c\<close>.

  \<open>ptes\<close> gives the entry of the page table of an address space for the number of a virtual page,
  \<open>l1pt\<close> the physical page of the table that holds it, 0 for none.  The bit map \<open>h_l1segs\<close>, which
  only speeds up the search for tables, and the tables of the kernel's half are left out, and so
  is the TLB.  Storage for views and sets is an argument.
\<close>

abbreviation (input) PROT_KERN :: u8 where "PROT_KERN \<equiv> 2"
abbreviation (input) VF_MEMLOCK :: u32 where "VF_MEMLOCK \<equiv> 2"

definition no_pte :: pte where
  "no_pte = \<lparr>t_pfn = 0, t_v = False, t_w = False, t_u = False, t_r = False, t_m = False\<rparr>"

definition user_va :: "u32 \<Rightarrow> u32" where "user_va va = va OR 0x80000000"
definition va_page :: "u32 \<Rightarrow> u32" where "va_page va = drop_bit 12 (user_va va)"
definition L1IDX :: "u32 \<Rightarrow> u32" where "L1IDX va = drop_bit 22 (user_va va)"

definition upd_pte :: "addr \<Rightarrow> u32 \<Rightarrow> (pte \<Rightarrow> pte) \<Rightarrow> vm \<Rightarrow> vm" where
  "upd_pte vas v f st = st\<lparr>ptes := (ptes st)(vas := (ptes st vas)(v := f (ptes st vas v)))\<rparr>"

abbreviation vas_of :: "vm \<Rightarrow> addr \<Rightarrow> addr" where "vas_of st pv \<equiv> p_vas (pviews (vmm st) pv)"

section \<open>Translations\<close>

text \<open>The table for an address is there, or is allocated and zeroed.\<close>

definition hat_table :: "addr \<Rightarrow> u32 \<Rightarrow> vm \<Rightarrow> vm option" where
  "hat_table vas va st =
     (if l1pt st vas (L1IDX va) \<noteq> 0 then Some st
      else do {
        (pg, c) \<leftarrow> alloc_page (kcore st);
        Some (st\<lparr>kcore := c,
                ptes := (ptes st)(vas := (\<lambda>v. if drop_bit 10 v = L1IDX va then no_pte else ptes st vas v)),
                l1pt := (l1pt st)(vas := (l1pt st vas)(L1IDX va := pg))\<rparr>)
      })"

definition hat_addtrans :: "addr \<Rightarrow> u32 \<Rightarrow> nat \<Rightarrow> u8 \<Rightarrow> vm \<Rightarrow> vm option" where
  "hat_addtrans pv va pfn prot st =
     map_option (upd_pte (vas_of st pv) (va_page va)
       (\<lambda>_. \<lparr>t_pfn = pfn, t_v = True, t_w = (prot AND PROT_RO = 0), t_u = (prot AND PROT_KERN = 0), t_r = False, t_m = False\<rparr>))
       (hat_table (vas_of st pv) va st)"

definition hat_deletetrans :: "addr \<Rightarrow> u32 \<Rightarrow> vm \<Rightarrow> vm" where
  "hat_deletetrans pv va st =
     (if l1pt st (vas_of st pv) (L1IDX va) = 0 \<or> \<not> t_v (ptes st (vas_of st pv) (va_page va)) then st
      else upd_pte (vas_of st pv) (va_page va) (\<lambda>t. t\<lparr>t_v := False\<rparr>) st)"

definition hat_getbits :: "addr \<Rightarrow> u32 \<Rightarrow> vm \<Rightarrow> u8 \<times> vm" where
  "hat_getbits pv va st =
     (if l1pt st (vas_of st pv) (L1IDX va) = 0 then (0, st)
      else
        let t = ptes st (vas_of st pv) (va_page va) in
        ((if t_r t then PP_R else 0) OR (if t_m t then PP_M else 0),
         upd_pte (vas_of st pv) (va_page va) (\<lambda>t. t\<lparr>t_r := False, t_m := False\<rparr>) st))"

definition hat_initvas :: "rmap list \<Rightarrow> addr \<Rightarrow> vm \<Rightarrow> vm option" where
  "hat_initvas m vas st =
     map_option (\<lambda>(m', lost). st\<lparr>vmm := upd_vas vas (\<lambda>v. v\<lparr>h_map := m'\<rparr>) (vmm st),
         ptes := (ptes st)(vas := \<lambda>_. no_pte), l1pt := (l1pt st)(vas := \<lambda>_. 0)\<rparr>)
       (rmap_free (rmap_init m 20) (btop VMAP_BASE) (btop VMAP_SIZE))"

fun free_tables :: "addr \<Rightarrow> nat list \<Rightarrow> vm \<Rightarrow> vm option" where
  "free_tables vas [] st = Some st"
| "free_tables vas (i # is) st =
     (if l1pt st vas (of_nat i) = 0 then free_tables vas is st
      else Option.bind (drop_page (l1pt st vas (of_nat i)) st) (free_tables vas is))"

definition hat_freevas :: "addr \<Rightarrow> vm \<Rightarrow> vm option" where
  "hat_freevas vas st = free_tables vas [512..<1024] st"

definition hat_fork :: "addr \<Rightarrow> addr \<Rightarrow> vm \<Rightarrow> vm" where
  "hat_fork ovas vas st = st\<lparr>vmm := upd_vas vas (\<lambda>v. v\<lparr>h_map := h_map (vass (vmm st) ovas)\<rparr>) (vmm st)\<rparr>"

section \<open>Views\<close>

definition alloc_pview :: "addr \<Rightarrow> addr \<Rightarrow> vm \<Rightarrow> vm" where
  "alloc_pview a ps st =
     st\<lparr>vmm := ref_pset ps (upd_pv a (\<lambda>_. \<lparr>p_set = ps, p_vaddr = 0, p_len = ps_len (psets st ps), p_off = 0, p_vas = 0, pv_prot = 0\<rparr>) (vmm st))\<rparr>"

definition free_pview :: "addr \<Rightarrow> vm \<Rightarrow> vm option" where
  "free_pview pv st = deref_set (p_set (pviews (vmm st) pv)) st"

definition dup_pview :: "addr \<Rightarrow> pview \<Rightarrow> vm \<Rightarrow> vm" where
  "dup_pview a opv st = st\<lparr>vmm := upd_pv a (\<lambda>_. opv\<lparr>p_vas := 0\<rparr>) (ref_pset (p_set opv) (vmm st))\<rparr>"

text \<open>The results of the calls for storage, swap and a connection that copying a view makes.\<close>

record copy_env =
  f_pv :: addr
  f_ps :: addr
  f_junk :: pset
  f_pr :: addr
  f_ans1 :: swap_ans
  f_ans2 :: swap_ans

definition copy_pview :: "copy_env \<Rightarrow> pview \<Rightarrow> vm \<Rightarrow> vm option" where
  "copy_pview e opv st = do {
     let st1 = dup_pview (f_pv e) opv st;
     st2 \<leftarrow> copy_pset (f_junk e) (f_pr e) (f_ans1 e) (f_ans2 e) (p_set opv) (f_ps e) st1;
     st3 \<leftarrow> deref_set (p_set opv) st2;
     Some (st3\<lparr>vmm := ref_pset (f_ps e) (upd_pv (f_pv e) (\<lambda>p. p\<lparr>p_set := f_ps e\<rparr>) (vmm st3))\<rparr>)
   }"

text \<open>One slot of the walk of \<open>detach_pview\<close> over a view.\<close>

definition detach_slot :: "addr \<Rightarrow> u32 \<Rightarrow> vm \<Rightarrow> vm option" where
  "detach_slot pv x st = do {
     let p = pviews (vmm st) pv;
     let ps = p_set p;
     let idx = p_off p + x;
     pp \<leftarrow> find_pp ps idx st;
     if pp_flags pp AND PP_V = 0 then Some st
     else do {
       st1 \<leftarrow> lock_slot ps idx st;
       let (r, pp1) = delete_atl pv x (ps_pp (psets st1 ps) idx);
       st2 \<leftarrow> (if r = 0 then
                 let va = p_vaddr p + ptob x;
                     s1 = hat_deletetrans pv va (upd_pp ps idx (\<lambda>_. pp1) st1);
                     (fl, s2) = hat_getbits pv va s1
                 in deref_slot ps idx (upd_pp ps idx (\<lambda>q. q\<lparr>pp_flags := pp_flags q OR fl\<rparr>) s2)
               else Some st1);
       unlock_slot ps idx st2
     }
   }"

fun detach_slots :: "addr \<Rightarrow> nat list \<Rightarrow> vm \<Rightarrow> vm option" where
  "detach_slots pv [] st = Some st"
| "detach_slots pv (x # xs) st = Option.bind (detach_slot pv (of_nat x) st) (detach_slots pv xs)"

definition vas_detach_pview :: "addr \<Rightarrow> u32 \<Rightarrow> vm \<Rightarrow> (addr \<times> vm) option" where
  "vas_detach_pview vas va st =
     (case find_pview (vmm st) vas va of
        None \<Rightarrow> None
      | Some pv \<Rightarrow> do {
          let st1 = st\<lparr>vmm := upd_vas vas (\<lambda>v. v\<lparr>v_views := remove1 pv (v_views v)\<rparr>) (vmm st)\<rparr>;
          st2 \<leftarrow> detach_slots pv [0..<unat (p_len (pviews (vmm st) pv))] st1;
          m \<leftarrow> hat_detach pv (vmm st2);
          Some (pv, st2\<lparr>vmm := m\<rparr>)
        })"

definition remove_pview :: "addr \<Rightarrow> u32 \<Rightarrow> vm \<Rightarrow> vm option" where
  "remove_pview vas va st = do {
     (pv, st1) \<leftarrow> vas_detach_pview vas va st;
     deref_set (p_set (pviews (vmm st1) pv)) st1
   }"

section \<open>Address spaces\<close>

partial_function (option) free_views :: "addr \<Rightarrow> vm \<Rightarrow> vm option" where
  "free_views vas st =
     (case v_views (vass (vmm st) vas) of
        [] \<Rightarrow> Some st
      | pv # _ \<Rightarrow> Option.bind (remove_pview vas (p_vaddr (pviews (vmm st) pv)) st) (free_views vas))"

declare free_views.simps [code]

definition free_vas :: "addr \<Rightarrow> vm \<Rightarrow> vm option" where
  "free_vas vas st = Option.bind (free_views vas st) (hat_freevas vas)"

text \<open>
  \<open>alloc_zfod\<close> is the case of address 0, where \<open>hat_attach\<close> chooses.  The result is the address,
  0 for failure.
\<close>

definition alloc_zfod_vaddr :: "swap_ans \<Rightarrow> addr \<Rightarrow> addr \<Rightarrow> addr \<Rightarrow> u32 \<Rightarrow> u32 \<Rightarrow> vm \<Rightarrow> (u32 \<times> vm) option" where
  "alloc_zfod_vaddr ans a pv vas n va st = do {
     (ps, st1) \<leftarrow> alloc_pset_zfod ans a n st;
     if ps = 0 then None
     else do {
       let st2 = alloc_pview pv ps st1;
       let st3 = st2\<lparr>vmm := upd_pv pv (\<lambda>p. p\<lparr>p_vaddr := va, pv_prot := 0\<rparr>) (vmm st2)\<rparr>;
       let (r, m) = attach_pview vas pv (vmm st3);
       let st4 = st3\<lparr>vmm := m\<rparr>;
       if r = 0 then map_option (Pair 0) (free_pview pv st4) else Some (r, st4)
     }
   }"

definition alloc_zfod :: "swap_ans \<Rightarrow> addr \<Rightarrow> addr \<Rightarrow> addr \<Rightarrow> u32 \<Rightarrow> vm \<Rightarrow> (u32 \<times> vm) option" where
  "alloc_zfod ans a pv vas n st = alloc_zfod_vaddr ans a pv vas n 0 st"

text \<open>The search of \<open>fork_vas\<close> for the view with the lowest address above the last one.\<close>

fun closest_view :: "(addr \<Rightarrow> pview) \<Rightarrow> u32 \<Rightarrow> addr option \<Rightarrow> addr list \<Rightarrow> addr option" where
  "closest_view V va c [] = c"
| "closest_view V va c (pv # pvs) =
     (if p_vaddr (V pv) \<le> va then closest_view V va c pvs
      else case c of
        None \<Rightarrow> closest_view V va (Some pv) pvs
      | Some d \<Rightarrow> closest_view V va (Some (if p_vaddr (V pv) < p_vaddr (V d) then pv else d)) pvs)"

definition fork_view :: "copy_env \<Rightarrow> addr \<Rightarrow> addr \<Rightarrow> vm \<Rightarrow> vm option" where
  "fork_view e vas c st = do {
     let pv2 = pviews (vmm st) c;
     let ps = p_set pv2;
     let st1 = st\<lparr>vmm := ref_pset ps (vmm st)\<rparr>;
     st2 \<leftarrow> (if pv_prot pv2 AND PROT_RO \<noteq> 0 \<or> ps_flags (psets st1 ps) AND PF_SHARED \<noteq> 0
             then Some (dup_pview (f_pv e) pv2 st1) else copy_pview e pv2 st1);
     let m1 = upd_pv (f_pv e) (\<lambda>p. p\<lparr>pv_prot := pv_prot p OR PROT_FORK\<rparr>) (vmm st2);
     let (_, m2) = attach_pview vas (f_pv e) m1;
     let m3 = upd_pv (f_pv e) (\<lambda>p. p\<lparr>pv_prot := pv_prot p AND NOT PROT_FORK\<rparr>) m2;
     deref_set ps (st2\<lparr>vmm := m3\<rparr>)
   }"

partial_function (option) fork_views :: "(u32 \<Rightarrow> copy_env) \<Rightarrow> addr \<Rightarrow> addr \<Rightarrow> u32 \<Rightarrow> vm \<Rightarrow> vm option" where
  "fork_views env ovas vas va st =
     (case closest_view (pviews (vmm st)) va None (v_views (vass (vmm st) ovas)) of
        None \<Rightarrow> Some st
      | Some c \<Rightarrow>
          let va' = p_vaddr (pviews (vmm st) c)
          in Option.bind (fork_view (env va') vas c st) (fork_views env ovas vas va'))"

declare fork_views.simps [code]

definition fork_vas :: "(u32 \<Rightarrow> copy_env) \<Rightarrow> rmap list \<Rightarrow> addr \<Rightarrow> addr \<Rightarrow> vm \<Rightarrow> vm option" where
  "fork_vas env m ovas vas st = do {
     let st1 = st\<lparr>vmm := upd_vas vas (\<lambda>v. v\<lparr>v_views := [], v_flags := 0\<rparr>) (vmm st)\<rparr>;
     st2 \<leftarrow> hat_initvas m vas st1;
     st3 \<leftarrow> fork_views env ovas vas 0 st2;
     Some (hat_fork ovas vas st3)
   }"

section \<open>Page faults\<close>

text \<open>
  \<open>vas_fault\<close>; \<open>kern\<close> tells that the thread runs with \<open>T_KERN\<close>.  After the slot is locked:
  \<open>fault_fill\<close> makes it valid or counts the reference, \<open>fault_cow\<close> breaks the sharing.
\<close>

definition fault_fill :: "addr \<Rightarrow> u32 \<Rightarrow> vm \<Rightarrow> (int \<times> bool \<times> vm) option" where
  "fault_fill ps idx st =
     (if pp_flags (ps_pp (psets st ps) idx) AND PP_V = 0 then do {
        (r, st1) \<leftarrow> fillslot ps idx st;
        if r \<noteq> 0 then Some (1, False, st1)
        else if pp_flags (ps_pp (psets st1 ps) idx) AND PP_V = 0 then None
        else Some (0, False, st1)
      } else map_option (\<lambda>st1. (0, True, st1)) (ref_slot ps idx st))"

definition fault_cow :: "addr \<Rightarrow> addr \<Rightarrow> u32 \<Rightarrow> u32 \<Rightarrow> bool \<Rightarrow> vm \<Rightarrow> vm option" where
  "fault_cow pv ps idx pvidx wasvalid st = do {
     st1 \<leftarrow> (if wasvalid then
               let (r, pp) = delete_atl pv pvidx (ps_pp (psets st ps) idx)
               in if r = 0 then deref_slot ps idx (upd_pp ps idx (\<lambda>_. pp) st) else Some st
             else Some st);
     st2 \<leftarrow> cow_write ps idx st1;
     if pp_flags (ps_pp (psets st2 ps) idx) AND PP_V = 0 then None else Some st2
   }"

definition fault_locked :: "addr \<Rightarrow> u32 \<Rightarrow> bool \<Rightarrow> vm \<Rightarrow> (int \<times> vm) option" where
  "fault_locked pv va write st = do {
     let p = pviews (vmm st) pv;
     let ps = p_set p;
     let pvidx = btop (va - p_vaddr p);
     let idx = pvidx + p_off p;
     if pp_flags (ps_pp (psets st ps) idx) AND PP_BAD \<noteq> 0 then Some (1, st)
     else do {
       (r, wasvalid, st1) \<leftarrow> fault_fill ps idx st;
       if r \<noteq> 0 then Some (1, st1)
       else do {
         st2 \<leftarrow> (if pp_flags (ps_pp (psets st1 ps) idx) AND PP_COW \<noteq> 0 \<and> write then fault_cow pv ps idx pvidx wasvalid st1 else Some st1);
         let st3 = upd_pp ps idx (add_atl pv pvidx) st2;
         let pp = ps_pp (psets st3 ps) idx;
         st4 \<leftarrow> hat_addtrans pv va (pp_pfn pp) (pv_prot p OR (if pp_flags pp AND PP_COW \<noteq> 0 then PROT_RO else 0)) st3;
         Some (0, st4)
       }
     }
   }"

definition vas_fault :: "addr \<Rightarrow> u32 \<Rightarrow> bool \<Rightarrow> bool \<Rightarrow> vm \<Rightarrow> (int \<times> vm) option" where
  "vas_fault vas va write kern st =
     (case find_pview (vmm st) vas va of
        None \<Rightarrow> Some (1, st)
      | Some pv \<Rightarrow>
          let p = pviews (vmm st) pv in
          if write \<and> pv_prot p AND PROT_RO \<noteq> 0 then Some (1, st)
          else if \<not> kern \<and> pv_prot p AND PROT_KERN \<noteq> 0 then Some (1, st)
          else do {
            let idx = btop (va - p_vaddr p) + p_off p;
            _ \<leftarrow> find_pp (p_set p) idx st;
            st1 \<leftarrow> lock_slot (p_set p) idx st;
            (r, st2) \<leftarrow> fault_locked pv va write st1;
            st3 \<leftarrow> unlock_slot (p_set p) idx st2;
            Some (r, st3)
          })"

end
