(* ===== verification/Page_Stealing.thy ===== *)
theory Page_Stealing
  imports Page_Faults
begin

text \<open>
  The page-out daemon, \<open>os/kern/vm_steal.c\<close>: two hands that go round the pages of the machine,
  take the translations of a page away, and write it to swap or take it back.

  \<open>steal\<close> is the rule of a hand, \<open>steal1\<close> or \<open>steal2\<close>.  The locks of the pages are the counts of
  \<open>core_semas\<close>; a hand that finds a lock taken leaves the page alone.
\<close>

definition steal1 :: "u8 \<Rightarrow> nat \<Rightarrow> bool" where "steal1 flags trouble = (1 < trouble)"
definition steal2 :: "u8 \<Rightarrow> nat \<Rightarrow> bool" where
  "steal2 flags trouble = (trouble \<noteq> 0 \<and> flags AND (PP_R OR PP_M) = 0)"

definition bad_core :: "kmem \<Rightarrow> nat \<Rightarrow> bool" where
  "bad_core c pfn = (c_flags c pfn AND (C_SYS OR C_BAD OR C_WIRED) \<noteq> 0)"

text \<open>The walk of \<open>unvirt\<close> over the attach list: what is left of it, and the bits collected.\<close>

fun unvirt_list :: "addr \<Rightarrow> u32 \<Rightarrow> (addr \<times> u32) list \<Rightarrow> vm \<Rightarrow> ((addr \<times> u32) list \<times> u8 \<times> vm) option" where
  "unvirt_list ps idx [] st = Some ([], 0, st)"
| "unvirt_list ps idx ((pv, i) # as) st =
     (let p = pviews (vmm st) pv; va = p_vaddr p + ptob i in
      if v_flags (vass (vmm st) (p_vas p)) AND VF_MEMLOCK \<noteq> 0 then do {
        (r, fl, st') \<leftarrow> unvirt_list ps idx as st;
        Some ((pv, i) # r, fl, st')
      } else do {
        let (b, st1) = hat_getbits pv va (hat_deletetrans pv va st);
        st2 \<leftarrow> deref_slot ps idx st1;
        (r, fl, st') \<leftarrow> unvirt_list ps idx as st2;
        Some (r, b OR fl, st')
      })"

definition unvirt :: "addr \<Rightarrow> u32 \<Rightarrow> vm \<Rightarrow> (u8 \<times> vm) option" where
  "unvirt ps idx st = do {
     (r, fl, st1) \<leftarrow> unvirt_list ps idx (pp_atl (ps_pp (psets st ps) idx)) st;
     Some (fl, upd_pp ps idx (\<lambda>p. p\<lparr>pp_atl := r\<rparr>) st1)
   }"

text \<open>\<open>pp->pp_flags |= unvirt(pp)\<close>\<close>

definition unvirt_flags :: "addr \<Rightarrow> u32 \<Rightarrow> addr \<Rightarrow> u32 \<Rightarrow> vm \<Rightarrow> vm option" where
  "unvirt_flags ps idx ps2 idx2 st =
     map_option (\<lambda>(fl, st1). upd_pp ps idx (\<lambda>p. p\<lparr>pp_flags := pp_flags p OR fl\<rparr>) st1) (unvirt ps2 idx2 st)"

section \<open>The master of copy-on-write sets\<close>

definition covers :: "u32 \<Rightarrow> u32 \<Rightarrow> u32 \<Rightarrow> bool" where
  "covers base cnt num = (base \<le> num \<and> num < base + cnt)"

text \<open>One set of the list of sets that copy from the slot.\<close>

definition steal_cow :: "addr \<Rightarrow> u32 \<Rightarrow> addr \<Rightarrow> vm \<Rightarrow> vm option" where
  "steal_cow ps idx ps2 st =
     (let q = psets st ps2; idx2 = idx - ps_off q in
      if \<not> covers (ps_off q) (ps_len q) idx then Some st
      else do {
        _ \<leftarrow> find_pp ps2 idx2 st;
        let (busy, st1) = clock_slot ps2 idx2 st;
        if busy \<noteq> 0 then Some st1
        else do {
          st3 \<leftarrow> (if pp_flags (ps_pp (psets st1 ps2) idx2) AND PP_COW \<noteq> 0 then do {
                    st2 \<leftarrow> unvirt_flags ps idx ps2 idx2 st1;
                    if pp_refs (ps_pp (psets st2 ps2) idx2) = 0 then
                      Some (upd_pp ps idx (\<lambda>p. p\<lparr>pp_refs := pp_refs p - 1\<rparr>)
                        (upd_pp ps2 idx2 (\<lambda>p. p\<lparr>pp_flags := pp_flags p AND NOT (PP_COW OR PP_V OR PP_R)\<rparr>) st2))
                    else Some st2
                  } else Some st1);
          unlock_slot ps2 idx2 st3
        }
      })"

partial_function (option) steal_cows :: "addr \<Rightarrow> u32 \<Rightarrow> addr \<Rightarrow> vm \<Rightarrow> vm option" where
  "steal_cows ps idx ps2 st =
     (if ps2 = 0 \<or> pp_refs (ps_pp (psets st ps) idx) = 0 then Some st
      else Option.bind (steal_cow ps idx ps2 st) (\<lambda>st1. steal_cows ps idx (ps_cowsets (psets st1 ps2)) st1))"

declare steal_cows.simps [code]

definition steal_master :: "(u8 \<Rightarrow> nat \<Rightarrow> bool) \<Rightarrow> nat \<Rightarrow> addr \<Rightarrow> u32 \<Rightarrow> vm \<Rightarrow> vm option" where
  "steal_master steal trouble ps idx st = do {
     st1 \<leftarrow> unvirt_flags ps idx ps idx st;
     st2 \<leftarrow> steal_cows ps idx (ps_cowsets (psets st1 ps)) st1;
     let pp = ps_pp (psets st2 ps) idx;
     if pp_flags pp AND PP_M \<noteq> 0 then None
     else if pp_refs pp = 0 \<and> steal (pp_flags pp) trouble then do {
       st3 \<leftarrow> drop_page (pp_pfn pp) st2;
       Some (upd_pp ps idx (\<lambda>p. p\<lparr>pp_flags := pp_flags p AND NOT (PP_R OR PP_V)\<rparr>) st3)
     } else Some st2
   }"

section \<open>A hand\<close>

text \<open>
  What a hand does with a slot it has locked; the result tells whether it still holds the lock.
\<close>

definition steal_slot :: "(u8 \<Rightarrow> nat \<Rightarrow> bool) \<Rightarrow> nat \<Rightarrow> addr \<Rightarrow> u32 \<Rightarrow> vm \<Rightarrow> (bool \<times> vm) option" where
  "steal_slot steal trouble ps idx st = do {
     st1 \<leftarrow> unvirt_flags ps idx ps idx st;
     let pp = ps_pp (psets st1 ps) idx;
     if 0 < pp_refs pp then Some (True, st1)
     else if pp_flags pp AND PP_M = 0 \<and> steal (pp_flags pp) trouble then do {
       st2 \<leftarrow> drop_page (pp_pfn pp) st1;
       Some (True, upd_pp ps idx (\<lambda>p. p\<lparr>pp_flags := pp_flags p AND NOT (PP_V OR PP_R)\<rparr>) st2)
     } else if trouble \<noteq> 0 \<and> pp_flags pp AND PP_M \<noteq> 0 \<and> swapdev st1 \<noteq> 0 then do {
       (_, st2) \<leftarrow> writeslot ps idx True (upd_pp ps idx (\<lambda>p. p\<lparr>pp_flags := pp_flags p AND NOT PP_M\<rparr>) st1);
       Some (False, st2)
     } else Some (True, upd_pp ps idx (\<lambda>p. p\<lparr>pp_flags := pp_flags p AND NOT PP_R\<rparr>) st1)
   }"

definition hand_slot :: "(u8 \<Rightarrow> nat \<Rightarrow> bool) \<Rightarrow> nat \<Rightarrow> addr \<Rightarrow> u32 \<Rightarrow> vm \<Rightarrow> vm option" where
  "hand_slot steal trouble ps idx st =
     (if pp_flags (ps_pp (psets st ps) idx) AND PP_COW \<noteq> 0 then None
      else if ps_type (psets st ps) \<noteq> PT_COW \<and> ps_cowsets (psets st ps) \<noteq> 0 then
        Option.bind (steal_master steal trouble ps idx st) (unlock_slot ps idx)
      else do {
        (held, st1) \<leftarrow> steal_slot steal trouble ps idx st;
        if held then unlock_slot ps idx st1 else Some st1
      })"

definition unlock_core :: "nat \<Rightarrow> vm \<Rightarrow> vm" where
  "unlock_core pfn st = st\<lparr>kcore := unlock_page pfn (kcore st)\<rparr>"

definition do_hand :: "(u8 \<Rightarrow> nat \<Rightarrow> bool) \<Rightarrow> nat \<Rightarrow> nat \<Rightarrow> vm \<Rightarrow> vm option" where
  "do_hand steal trouble pfn st =
     (if c_flags (kcore st) pfn AND C_ALLOC = 0 then Some st
      else
        let (busy, c) = clock_page pfn (kcore st) in
        if busy \<noteq> 0 then Some st
        else
          let st1 = st\<lparr>kcore := c\<rparr>; ps = c_free c pfn; idx = ucast (c_psidx c pfn) in
          if bad_core c pfn \<or> ps = 0 then Some (unlock_core pfn st1)
          else if ps_refs (vmm st1) ps = 0 then Some (unlock_core pfn st1)
          else do {
            _ \<leftarrow> find_pp ps idx st1;
            let (busy, st2) = clock_slot ps idx st1;
            if busy \<noteq> 0 then Some (unlock_core pfn st2)
            else map_option (unlock_core pfn) (hand_slot steal trouble ps idx st2)
          })"

section \<open>The daemon\<close>

text \<open>The step from one page to the next usable one; \<open>n\<close> is the number of pages.\<close>

definition INC :: "nat \<Rightarrow> nat \<Rightarrow> nat \<Rightarrow> nat" where
  "INC base n hand = (if n \<le> Suc hand then base else Suc hand)"

partial_function (option) skip_bad :: "kmem \<Rightarrow> nat \<Rightarrow> nat \<Rightarrow> nat \<Rightarrow> nat option" where
  "skip_bad c base n hand = (if bad_core c hand then skip_bad c base n (INC base n hand) else Some hand)"

declare skip_bad.simps [code]

definition ADVANCE :: "kmem \<Rightarrow> nat \<Rightarrow> nat \<Rightarrow> nat \<Rightarrow> nat option" where
  "ADVANCE c base n hand = skip_bad c base n (INC base n hand)"

record hands =
  h_hand1 :: nat
  h_hand2 :: nat
  h_npg :: nat
  h_sema :: int

definition trouble_of :: "kmem \<Rightarrow> nat" where
  "trouble_of c =
     (if freemem c < totalmem c div 16 then 2 else if freemem c < totalmem c div 8 then 1 else 0)"

definition scan_limit :: "kmem \<Rightarrow> nat \<Rightarrow> u32" where
  "scan_limit c trouble = totalmem c div (if trouble = 0 then 32 else if trouble = 1 then 16 else 4)"

text \<open>
  One round of the main loop, of a daemon that does not have to sleep on its semaphore: it has
  been kicked, or has scanned too little.  \<open>base\<close> is the first page of the hands.
\<close>

definition pageout_round :: "nat \<Rightarrow> hands \<Rightarrow> vm \<Rightarrow> (hands \<times> vm) option" where
  "pageout_round base h st = do {
     let trouble = trouble_of (kcore st);
     let n = bootpgs (kcore st);
     h1 \<leftarrow> (if unat (scan_limit (kcore st) trouble) < h_npg h then
              (if 0 < h_sema h then Some (h\<lparr>h_npg := 0, h_sema := 0\<rparr>) else None)
            else Some h);
     st1 \<leftarrow> do_hand steal1 trouble (h_hand1 h1) st;
     x1 \<leftarrow> ADVANCE (kcore st1) base n (h_hand1 h1);
     st2 \<leftarrow> do_hand steal2 trouble (h_hand2 h1) st1;
     x2 \<leftarrow> ADVANCE (kcore st2) base n (h_hand2 h1);
     Some (h1\<lparr>h_hand1 := x1, h_hand2 := x2, h_npg := Suc (h_npg h1)\<rparr>, st2)
   }"

definition kick_pageout :: "hands \<Rightarrow> hands" where
  "kick_pageout h = h\<lparr>h_sema := h_sema h + 1\<rparr>"

text \<open>
  The start: the first hand begins one eighth of the memory ahead of the second.  The search for
  the first page to scan ends at a page that is in use by the kernel or bad.
\<close>

partial_function (option) first_core :: "kmem \<Rightarrow> nat \<Rightarrow> nat option" where
  "first_core c pfn = (if bad_core c pfn then Some pfn else first_core c (Suc pfn))"

declare first_core.simps [code]

fun advance_n :: "nat \<Rightarrow> kmem \<Rightarrow> nat \<Rightarrow> nat \<Rightarrow> nat \<Rightarrow> nat option" where
  "advance_n 0 c base n hand = Some hand"
| "advance_n (Suc k) c base n hand = Option.bind (ADVANCE c base n hand) (advance_n k c base n)"

definition pageout_start :: "kmem \<Rightarrow> (nat \<times> hands) option" where
  "pageout_start c = do {
     base \<leftarrow> first_core c 0;
     h1 \<leftarrow> advance_n (unat (totalmem c div 8)) c base (bootpgs c) base;
     Some (base, \<lparr>h_hand1 = h1, h_hand2 = base, h_npg = 0, h_sema = 1\<rparr>)
   }"

end
