(* ===== verification/Paging.thy ===== *)
theory Paging
  imports Page_Stealing
begin

text \<open>
  The invariant of the virtual memory for anonymous sets, and that each piece of work on a slot
  keeps it: a fault (\<open>vas_fault_ok\<close>), a step of a hand of the page-out daemon (\<open>do_hand_ok\<close>) and the
  end of a transfer (\<open>io_done_ok\<close>).  None of them changes what a slot stands for, which is \<open>unseen\<close>.
  The proofs share the relation \<open>step_at\<close>: only what belongs to one slot has changed, so that every
  other slot keeps its part of the invariant.
\<close>

section \<open>Flags as bits\<close>

lemma test_bit_u8: "x AND push_bit n 1 = 0 \<longleftrightarrow> \<not> bit x n" if "n < 8" for x :: u8
proof -
  have "bit (x AND push_bit n 1) m = (m = n \<and> bit x n)" if "m < 8" for m
    using that \<open>n < 8\<close> by (auto simp: bit_simps)
  then show ?thesis using \<open>n < 8\<close> by (auto simp: bit_eq_iff bit_simps)
qed

lemma pp_push: "PP_V = push_bit 0 1" "PP_COW = push_bit 1 1" "PP_SWAPPED = push_bit 2 1" "PP_BAD = push_bit 3 1"
  "PP_M = push_bit 4 1" "PP_R = push_bit 5 1" "PP_LOCK = push_bit 0 1"
  by (simp_all add: PP_V_def PP_COW_def PP_SWAPPED_def PP_BAD_def PP_M_def PP_R_def PP_LOCK_def push_bit_eq_mult)

lemma pp_test:
  "x AND PP_V = 0 \<longleftrightarrow> \<not> bit x 0" "x AND PP_COW = 0 \<longleftrightarrow> \<not> bit x 1" "x AND PP_SWAPPED = 0 \<longleftrightarrow> \<not> bit x 2"
  "x AND PP_BAD = 0 \<longleftrightarrow> \<not> bit x 3" "x AND PP_M = 0 \<longleftrightarrow> \<not> bit x 4" "x AND PP_R = 0 \<longleftrightarrow> \<not> bit x 5"
  "x AND PP_LOCK = 0 \<longleftrightarrow> \<not> bit x 0"
  unfolding pp_push by (rule test_bit_u8; simp)+

lemma or_eq_0: "x OR y = 0 \<longleftrightarrow> x = 0 \<and> y = (0 :: u8)"
  by (metis or.right_neutral or_eq_0_iff)

lemma pp_test2: "x AND (PP_V OR PP_BAD) = 0 \<longleftrightarrow> \<not> bit x 0 \<and> \<not> bit x 3"
  by (simp add: bit.conj_disj_distrib or_eq_0 pp_test)

lemma pp_bit:
  "bit PP_V n \<longleftrightarrow> n = 0" "bit PP_COW n \<longleftrightarrow> n = 1" "bit PP_SWAPPED n \<longleftrightarrow> n = 2" "bit PP_BAD n \<longleftrightarrow> n = 3"
  "bit PP_M n \<longleftrightarrow> n = 4" "bit PP_R n \<longleftrightarrow> n = 5" "bit PP_LOCK n \<longleftrightarrow> n = 0" "bit PP_WANT n \<longleftrightarrow> n = 1"
proof -
  have a: "bit (push_bit k 1 :: u8) n \<longleftrightarrow> n = k" if "k < 8" for k using that by (auto simp: bit_simps)
  have w: "PP_WANT = push_bit 1 1" by (simp add: PP_WANT_def)
  show "bit PP_V n \<longleftrightarrow> n = 0" "bit PP_COW n \<longleftrightarrow> n = 1" "bit PP_SWAPPED n \<longleftrightarrow> n = 2" "bit PP_BAD n \<longleftrightarrow> n = 3"
    "bit PP_M n \<longleftrightarrow> n = 4" "bit PP_R n \<longleftrightarrow> n = 5" "bit PP_LOCK n \<longleftrightarrow> n = 0" "bit PP_WANT n \<longleftrightarrow> n = 1"
    unfolding pp_push w by (rule a; simp)+
qed

lemma bit_not_u8: "bit (NOT x) n \<longleftrightarrow> n < 8 \<and> \<not> bit x n" for x :: u8
  by (auto simp: bit_simps)

lemmas pp_bits = pp_test pp_test2 pp_bit bit_or_iff bit_and_iff bit_not_u8

section \<open>Addresses\<close>

lemma va_page_L1: "L1IDX va = drop_bit 10 (va_page va)"
  by (simp add: L1IDX_def va_page_def)

lemma btop_less:
  assumes "contains_va p va"
  shows "btop (va - p_vaddr p) < p_len p"
proof -
  have le: "p_vaddr p \<le> va" "va < p_vaddr p + ptob (p_len p)" using assms by (auto simp: contains_va_def)
  have "unat va < unat (p_vaddr p + ptob (p_len p))" using le(2) by (simp add: word_less_nat_alt)
  also have "\<dots> \<le> unat (p_vaddr p) + unat (ptob (p_len p))" by (simp add: unat_word_ariths)
  also have "unat (ptob (p_len p)) \<le> unat (p_len p) * 4096"
    by (simp add: ptob_def push_bit_eq_mult unat_word_ariths mult.commute)
  finally have "unat va < unat (p_vaddr p) + unat (p_len p) * 4096" by simp
  moreover have "unat (va - p_vaddr p) = unat va - unat (p_vaddr p)" using le(1) by (rule unat_sub)
  ultimately have "unat (va - p_vaddr p) < unat (p_len p) * 4096" using le(1) by (simp add: word_le_nat_alt)
  then have "unat (va - p_vaddr p) div 4096 < unat (p_len p)" by (simp add: less_mult_imp_div_less)
  then show ?thesis by (simp add: btop_def word_less_nat_alt drop_bit_eq_div unat_div_distrib)
qed

lemma drop_or: "drop_bit n (x OR y) = drop_bit n x OR drop_bit n (y :: u32)"
  by (rule bit_word_eqI) (simp add: bit_simps)

lemma mod_4096_div: "n mod 4294967296 div 4096 = n div 4096 mod (1048576 :: nat)"
  using mod_mult2_eq [of n 4096 1048576] by simp

lemma va_page_view:
  assumes "p AND 4095 = (0 :: u32)"
  shows "va_page (p + ptob (btop (va - p))) = va_page va"
proof -
  have d: "drop_bit 12 (p + ptob (btop (va - p))) = drop_bit 12 va"
  proof -
    have "unat p mod 4096 = 0"
    proof -
      have "p AND mask 12 = 0" using assms by (simp add: mask_eq_exp_minus_1)
      then have "take_bit 12 p = 0" by (simp add: take_bit_eq_mask)
      then have "take_bit 12 (unat p) = 0" by (metis unsigned_take_bit_eq unsigned_0)
      then show ?thesis by (simp add: take_bit_eq_mod)
    qed
    then obtain q where q: "unat p = q * 4096" by auto
    have x: "unat (ptob (btop (va - p))) = unat (va - p) div 4096 * 4096"
    proof -
      have "unat (va - p) < 4294967296" using unsigned_less [where ?'a = nat, of "va - p"] by simp
      then have "unat (va - p) div 4096 * 4096 < 4294967296" by (meson div_times_less_eq_dividend le_less_trans)
      then show ?thesis by (simp add: ptob_def btop_def push_bit_eq_mult drop_bit_eq_div unat_word_ariths unat_div_distrib mult.commute)
    qed
    have v: "unat va = (unat p + unat (va - p)) mod 4294967296"
      using unat_word_ariths(1) [of p "va - p"] by simp
    define k where "k = unat (va - p) div 4096"
    have "unat (p + ptob (btop (va - p))) = (unat p + unat (ptob (btop (va - p)))) mod 4294967296"
      using unat_word_ariths(1) [of p "ptob (btop (va - p))"] by simp
    also have "\<dots> = ((q + k) * 4096) mod 4294967296" unfolding q x k_def by (simp add: add_mult_distrib)
    finally have "unat (p + ptob (btop (va - p))) div 4096 = (q + k) mod 1048576" by (simp only: mod_4096_div) simp
    also have "\<dots> = unat va div 4096" unfolding v q mod_4096_div k_def by simp
    finally show ?thesis by (simp add: drop_bit_eq_div word_unat_eq_iff unat_div_distrib)
  qed
  then show ?thesis by (simp add: va_page_def user_va_def drop_or)
qed

lemma unat_ucast_u16: "unat (ucast x :: u16) = unat (x :: u32) mod 65536"
  by (simp add: unsigned_ucast_eq take_bit_eq_mod)

section \<open>The invariant\<close>

text \<open>
  \<open>A\<close> are the page sets in use and \<open>W\<close> the views, which stay the same while pages come and go.
  The sets are anonymous memory: filled with zeroes, private, backed by swap.
\<close>

abbreviation slot :: "vm \<Rightarrow> addr \<Rightarrow> u32 \<Rightarrow> perpage" where "slot st ps idx \<equiv> ps_pp (psets st ps) idx"

definition vkey :: "vm \<Rightarrow> addr \<times> u32 \<Rightarrow> addr \<times> u32" where
  "vkey st = (\<lambda>(pv, i). let p = pviews (vmm st) pv in (p_vas p, va_page (p_vaddr p + ptob i)))"

definition pte_at :: "vm \<Rightarrow> addr \<times> u32 \<Rightarrow> pte" where
  "pte_at st m = ptes st (fst (vkey st m)) (snd (vkey st m))"

definition tab_at :: "vm \<Rightarrow> addr \<times> u32 \<Rightarrow> nat" where
  "tab_at st m = l1pt st (fst (vkey st m)) (drop_bit 10 (snd (vkey st m)))"

definition all_maps :: "addr set \<Rightarrow> vm \<Rightarrow> (addr \<times> u32) set" where
  "all_maps W st = {(pv, i). pv \<in> W \<and> i < p_len (pviews (vmm st) pv)}"

text \<open>The places in the views that show a slot.\<close>

definition maps :: "addr set \<Rightarrow> vm \<Rightarrow> addr \<Rightarrow> u32 \<Rightarrow> (addr \<times> u32) set" where
  "maps W st ps idx = {(pv, i) \<in> all_maps W st. p_set (pviews (vmm st) pv) = ps \<and> i + p_off (pviews (vmm st) pv) = idx}"

definition swap_off :: "vm \<Rightarrow> addr \<Rightarrow> u32 \<Rightarrow> u32" where
  "swap_off st ps idx = ptob (idx + ps_swapblk (psets st ps))"

text \<open>What a slot without a page stands for, and the contents of a slot.\<close>

definition backing :: "vm \<Rightarrow> addr \<Rightarrow> u32 \<Rightarrow> page" where
  "backing st ps idx =
     (if pp_flags (slot st ps idx) AND PP_SWAPPED \<noteq> 0 then dev st (swapdev st) (swap_off st ps idx) else zero_page)"

definition contents :: "vm \<Rightarrow> addr \<Rightarrow> u32 \<Rightarrow> page" where
  "contents st ps idx =
     (if pp_flags (slot st ps idx) AND PP_V \<noteq> 0 then frames st (pp_pfn (slot st ps idx)) else backing st ps idx)"

definition in_flight :: "vm \<Rightarrow> addr \<Rightarrow> u32 \<Rightarrow> bool" where
  "in_flight st ps idx = (\<exists>q \<in> set (qios st). q_pset q = ps \<and> q_idx q = idx)"

text \<open>What does not change: the views, the shape of the sets and their places on swap.\<close>

definition slots_of :: "addr set \<Rightarrow> vm \<Rightarrow> (addr \<times> u32) set" where
  "slots_of A st = {(ps, idx). ps \<in> A \<and> idx < ps_len (psets st ps)}"

definition anon :: "vm \<Rightarrow> addr \<Rightarrow> bool" where
  "anon st ps = (ps \<noteq> 0 \<and> ps_type (psets st ps) = PT_ZERO \<and> ps_ops (psets st ps) = PT_ZERO \<and> ps_cowsets (psets st ps) = 0 \<and>
     ps_len (psets st ps) \<le> 65536)"

definition views_ok :: "addr set \<Rightarrow> vm \<Rightarrow> bool" where
  "views_ok W st = (inj_on (vkey st) (all_maps W st) \<and> (\<forall>pv \<in> W. p_vaddr (pviews (vmm st) pv) AND 4095 = 0) \<and>
     (\<forall>pv \<in> W. unat (p_vaddr (pviews (vmm st) pv)) + unat (p_len (pviews (vmm st) pv)) * 4096 \<le> 2147483648) \<and>
     (\<forall>vas pv. pv \<in> set (v_views (vass (vmm st) vas)) \<longleftrightarrow> pv \<in> W \<and> vas_of st pv = vas))"

definition fixed_ok :: "addr set \<Rightarrow> addr set \<Rightarrow> vm \<Rightarrow> bool" where
  "fixed_ok A W st = (views_ok W st \<and> (\<forall>ps \<in> A. anon st ps) \<and> (\<forall>pv \<in> W. p_set (pviews (vmm st) pv) \<in> A \<and>
       unat (p_off (pviews (vmm st) pv)) + unat (p_len (pviews (vmm st) pv)) \<le> unat (ps_len (psets st (p_set (pviews (vmm st) pv))))) \<and>
     inj_on (\<lambda>(ps, idx). swap_off st ps idx) (slots_of A st) \<and> swapdev st \<noteq> 0)"

text \<open>A slot with attach list \<open>al\<close> and flags \<open>fl\<close>.\<close>

definition mapped_ok :: "addr set \<Rightarrow> vm \<Rightarrow> addr \<Rightarrow> u32 \<Rightarrow> (addr \<times> u32) list \<Rightarrow> bool" where
  "mapped_ok W st ps idx al =
     (distinct al \<and> unat (pp_refs (slot st ps idx)) = length al \<and>
      set al = {m \<in> maps W st ps idx. t_v (pte_at st m)} \<and>
      (\<forall>m \<in> set al. t_pfn (pte_at st m) = pp_pfn (slot st ps idx) \<and> tab_at st m \<noteq> 0 \<and>
         t_w (pte_at st m) = (pv_prot (pviews (vmm st) (fst m)) AND PROT_RO = 0) \<and>
         t_u (pte_at st m) = (pv_prot (pviews (vmm st) (fst m)) AND PROT_KERN = 0)))"

definition page_owned :: "nat set \<Rightarrow> vm \<Rightarrow> addr \<Rightarrow> u32 \<Rightarrow> bool" where
  "page_owned U st ps idx =
     (let pg = pp_pfn (slot st ps idx) in pg \<in> U \<and> c_free (kcore st) pg = ps \<and> c_psidx (kcore st) pg = ucast idx)"

definition clean_ok :: "vm \<Rightarrow> addr \<Rightarrow> u32 \<Rightarrow> (addr \<times> u32) list \<Rightarrow> u8 \<Rightarrow> bool" where
  "clean_ok st ps idx al fl =
     (fl AND PP_M = 0 \<longrightarrow> (\<forall>m \<in> set al. \<not> t_m (pte_at st m)) \<longrightarrow> frames st (pp_pfn (slot st ps idx)) = backing st ps idx)"

definition slot_ok :: "addr set \<Rightarrow> nat set \<Rightarrow> vm \<Rightarrow> addr \<Rightarrow> u32 \<Rightarrow> bool" where
  "slot_ok W U st ps idx =
     (let pp = slot st ps idx in
      mapped_ok W st ps idx (pp_atl pp) \<and> pp_flags pp AND (PP_COW OR PP_BAD) = 0 \<and>
      (if pp_flags pp AND PP_V = 0 then pp_atl pp = [] else page_owned U st ps idx) \<and>
      (if in_flight st ps idx then pp_lock pp AND PP_LOCK \<noteq> 0 \<and> pp_flags pp AND PP_V \<noteq> 0 \<and> pp_flags pp AND PP_SWAPPED \<noteq> 0 \<and> pp_atl pp = []
       else pp_lock pp AND PP_LOCK = 0 \<and> (pp_flags pp AND PP_V \<noteq> 0 \<longrightarrow> clean_ok st ps idx (pp_atl pp) (pp_flags pp))))"

text \<open>The pages of the machine, the page tables and the queue of transfers.\<close>

definition kc_ok :: "nat set \<Rightarrow> nat set \<Rightarrow> kmem \<Rightarrow> bool" where
  "kc_ok F U c = (pages c F U \<and> (\<forall>x. c_flags c x AND C_ALLOC \<noteq> 0 \<longrightarrow> x \<in> U))"

definition owner :: "vm \<Rightarrow> addr \<times> u32 \<Rightarrow> nat \<Rightarrow> bool" where
  "owner st h x = (c_free (kcore st) x = fst h \<and> c_psidx (kcore st) x = ucast (snd h))"

text \<open>A page of the pageable pool belongs to a slot; those of \<open>H\<close> are being worked on.\<close>

definition back_ok :: "addr set \<Rightarrow> (addr \<times> u32) set \<Rightarrow> nat set \<Rightarrow> vm \<Rightarrow> bool" where
  "back_ok A H U st =
     (\<forall>x \<in> U. \<not> bad_core (kcore st) x \<longrightarrow> c_free (kcore st) x \<noteq> 0 \<longrightarrow>
        (\<exists>(ps, idx) \<in> slots_of A st. owner st (ps, idx) x \<and>
          ((ps, idx) \<in> H \<or> pp_flags (slot st ps idx) AND PP_V \<noteq> 0 \<and> pp_pfn (slot st ps idx) = x)))"

definition pt_ok :: "vm \<Rightarrow> bool" where
  "pt_ok st = (\<forall>vas v. l1pt st vas (drop_bit 10 v) = 0 \<longrightarrow> ptes st vas v = no_pte)"

definition pt_maps :: "addr set \<Rightarrow> vm \<Rightarrow> bool" where
  "pt_maps W st = (\<forall>vas v. t_v (ptes st vas v) \<longrightarrow> (vas, v) \<in> vkey st ` all_maps W st)"

definition qio_ok :: "addr set \<Rightarrow> vm \<Rightarrow> bool" where
  "qio_ok A st =
     (distinct (map (\<lambda>q. (q_pset q, q_idx q)) (qios st)) \<and>
      (\<forall>q \<in> set (qios st). (q_pset q, q_idx q) \<in> slots_of A st \<and> q_port q = swapdev st \<and> q_off q = swap_off st (q_pset q) (q_idx q)))"

definition vm_but :: "addr set \<Rightarrow> addr set \<Rightarrow> (addr \<times> u32) set \<Rightarrow> nat set \<Rightarrow> nat set \<Rightarrow> vm \<Rightarrow> bool" where
  "vm_but A W H F U st =
     (fixed_ok A W st \<and> kc_ok F U (kcore st) \<and> back_ok A H U st \<and> pt_ok st \<and> pt_maps W st \<and> qio_ok A st \<and>
      (\<forall>(ps, idx) \<in> slots_of A st - H. slot_ok W U st ps idx))"

definition vm_ok :: "addr set \<Rightarrow> addr set \<Rightarrow> vm \<Rightarrow> bool" where
  "vm_ok A W st = (\<exists>F U. vm_but A W {} F U st)"

section \<open>Steps at one slot\<close>

definition pinfo :: "pset \<Rightarrow> u32 \<times> u32 \<times> ptype \<times> ptype \<times> addr \<times> u32" where
  "pinfo p = (ps_len p, ps_off p, ps_type p, ps_ops p, ps_cowsets p, ps_swapblk p)"

text \<open>From \<open>st\<close> to \<open>st'\<close> only what belongs to the slot \<open>h\<close> changes.\<close>

definition step_at :: "addr set \<Rightarrow> nat set \<Rightarrow> nat set \<Rightarrow> addr \<times> u32 \<Rightarrow> vm \<Rightarrow> vm \<Rightarrow> bool" where
  "step_at W U U' h st st' =
     (vmm st' = vmm st \<and> swapdev st' = swapdev st \<and> (\<forall>ps. pinfo (psets st' ps) = pinfo (psets st ps)) \<and>
      (\<forall>ps idx. (ps, idx) \<noteq> h \<longrightarrow> slot st' ps idx = slot st ps idx \<and> in_flight st' ps idx = in_flight st ps idx) \<and>
      (\<forall>m \<in> all_maps W st. (m \<notin> maps W st (fst h) (snd h) \<longrightarrow> pte_at st' m = pte_at st m) \<and> (tab_at st m \<noteq> 0 \<longrightarrow> tab_at st' m \<noteq> 0)) \<and>
      (\<forall>v p. (v, p) \<notin> vkey st ` all_maps W st \<longrightarrow> ptes st' v p = ptes st v p) \<and>
      (\<forall>x \<in> U. \<not> owner st h x \<longrightarrow> x \<in> U' \<and> frames st' x = frames st x \<and> c_free (kcore st') x = c_free (kcore st) x \<and>
         c_psidx (kcore st') x = c_psidx (kcore st) x \<and> c_flags (kcore st') x = c_flags (kcore st) x) \<and>
      (\<forall>x \<in> U'. x \<in> U \<and> \<not> owner st h x \<or> c_free (kcore st') x = 0 \<or> owner st' h x) \<and>
      (\<forall>off. off \<noteq> swap_off st (fst h) (snd h) \<longrightarrow> dev st' (swapdev st) off = dev st (swapdev st) off))"

lemma pinfo_eq:
  assumes "\<forall>ps. pinfo (psets st' ps) = pinfo (psets st ps)"
  shows "ps_len (psets st' ps) = ps_len (psets st ps)" "ps_swapblk (psets st' ps) = ps_swapblk (psets st ps)"
    "ps_type (psets st' ps) = ps_type (psets st ps)" "ps_ops (psets st' ps) = ps_ops (psets st ps)"
    "ps_cowsets (psets st' ps) = ps_cowsets (psets st ps)" "ps_off (psets st' ps) = ps_off (psets st ps)"
    "swap_off st' ps idx = swap_off st ps idx" "slots_of A st' = slots_of A st" "anon st' ps = anon st ps"
  using assms[rule_format, of ps] assms by (simp_all add: pinfo_def swap_off_def slots_of_def anon_def)

lemma vmm_eq:
  assumes "vmm st' = vmm st"
  shows "vkey st' = vkey st" "all_maps W st' = all_maps W st" "maps W st' ps idx = maps W st ps idx" "views_ok W st' = views_ok W st"
  using assms by (simp_all add: vkey_def all_maps_def maps_def views_ok_def fun_eq_iff)

lemma step_at_trans:
  assumes a: "step_at W U1 U2 h s1 s2" and b: "step_at W U2 U3 h s2 s3"
  shows "step_at W U1 U3 h s1 s3"
proof -
  have v: "vmm s2 = vmm s1" "\<forall>ps. pinfo (psets s2 ps) = pinfo (psets s1 ps)" using a by (simp_all add: step_at_def)
  note e = vmm_eq [OF v(1)] pinfo_eq [OF v(2)]
  show ?thesis using a b unfolding step_at_def e owner_def by (auto 0 3)
qed

text \<open>A change of the slot itself, or of counts of its set.\<close>

lemma step_at_psets:
  assumes "\<forall>ps. pinfo (P ps) = pinfo (psets st ps)" "\<forall>ps idx. (ps, idx) \<noteq> h \<longrightarrow> ps_pp (P ps) idx = slot st ps idx"
  shows "step_at W U U h st (st\<lparr>psets := P\<rparr>)"
  using assms by (auto simp: step_at_def in_flight_def pte_at_def tab_at_def vkey_def owner_def)

lemma step_at_upd_pp: "step_at W U U (ps, idx) st (upd_pp ps idx f st)"
  unfolding upd_pp_def upd_ps_def by (rule step_at_psets) (auto simp: pinfo_def)

lemma slot_upd_pp: "slot (upd_pp ps idx f st) ps' idx' = (if ps' = ps \<and> idx' = idx then f (slot st ps idx) else slot st ps' idx')"
  by (simp add: upd_pp_def upd_ps_def)

lemma step_at_fixed:
  assumes "step_at W U U' h st st'" "fixed_ok A W st"
  shows "fixed_ok A W st'" "slots_of A st' = slots_of A st"
proof -
  have v: "vmm st' = vmm st" "\<forall>ps. pinfo (psets st' ps) = pinfo (psets st ps)" "swapdev st' = swapdev st" using assms(1) by (simp_all add: step_at_def)
  note e = vmm_eq [OF v(1)] pinfo_eq [OF v(2)]
  show "fixed_ok A W st'" "slots_of A st' = slots_of A st" using assms(2) by (simp_all add: fixed_ok_def e v(1,3))
qed

lemma slot_index: "fixed_ok A W st \<Longrightarrow> (ps, idx) \<in> slots_of A st \<Longrightarrow> unat idx < 65536"
  by (fastforce simp: fixed_ok_def slots_of_def anon_def word_less_nat_alt word_le_nat_alt)

lemma owner_slot:
  assumes f: "fixed_ok A W st" and h: "h \<in> slots_of A st" and g: "g \<in> slots_of A st" and o: "owner st h x" "owner st g x"
  shows "h = g"
proof -
  obtain ps idx ps' idx' where d: "h = (ps, idx)" "g = (ps', idx')" by (cases h, cases g) auto
  have "ucast idx = (ucast idx' :: u16)" using o d by (simp add: owner_def)
  then have "unat idx mod 65536 = unat idx' mod 65536" by (metis unat_ucast_u16)
  then have "idx = idx'" using slot_index [OF f h [unfolded d]] slot_index [OF f g [unfolded d]] by (simp add: word_unat_eq_iff)
  then show ?thesis using o d by (simp add: owner_def)
qed

lemma maps_disjoint: "m \<in> maps W st ps idx \<Longrightarrow> m \<in> maps W st ps' idx' \<Longrightarrow> (ps', idx') = (ps, idx)"
  by (auto simp: maps_def)

text \<open>The slots that the step is not about keep their invariant and their contents.\<close>

lemma slot_ok_frame:
  assumes f: "fixed_ok A W st" and s: "step_at W U U' h st st'" and h: "h \<in> slots_of A st" and g: "(ps, idx) \<in> slots_of A st" "(ps, idx) \<noteq> h"
    and ok: "slot_ok W U st ps idx"
  shows "slot_ok W U' st' ps idx \<and> contents st' ps idx = contents st ps idx"
proof -
  have v: "vmm st' = vmm st" "\<forall>ps. pinfo (psets st' ps) = pinfo (psets st ps)" "swapdev st' = swapdev st" using s by (simp_all add: step_at_def)
  note e = vmm_eq [OF v(1)] pinfo_eq [OF v(2)]
  have sl: "slot st' ps idx = slot st ps idx" "in_flight st' ps idx = in_flight st ps idx" using s g(2) by (simp_all add: step_at_def)
  have pt: "pte_at st' m = pte_at st m \<and> (tab_at st m \<noteq> 0 \<longrightarrow> tab_at st' m \<noteq> 0)" if m: "m \<in> maps W st ps idx" for m
  proof -
    have "m \<notin> maps W st (fst h) (snd h)" using maps_disjoint [OF m] g(2) by fastforce
    then show ?thesis using s m by (auto simp: step_at_def maps_def)
  qed
  have dv: "backing st' ps idx = backing st ps idx"
  proof -
    have "swap_off st ps idx \<noteq> swap_off st (fst h) (snd h)"
      using f h g by (force simp: fixed_ok_def inj_on_def split: prod.splits)
    then show ?thesis using s sl(1) v(3) e by (simp add: backing_def step_at_def)
  qed
  have pg: "pp_pfn (slot st ps idx) \<in> U' \<and> frames st' (pp_pfn (slot st ps idx)) = frames st (pp_pfn (slot st ps idx)) \<and> page_owned U' st' ps idx"
    if "page_owned U st ps idx"
  proof -
    let ?x = "pp_pfn (slot st ps idx)"
    have o: "owner st (ps, idx) ?x" "?x \<in> U" using that by (auto simp: page_owned_def owner_def Let_def)
    then have "\<not> owner st h ?x" using owner_slot [OF f h g(1) _ o(1)] g(2) by auto
    then show ?thesis using s o(2) that sl(1) by (simp add: step_at_def page_owned_def Let_def)
  qed
  have mp: "mapped_ok W st' ps idx al" if "mapped_ok W st ps idx al" for al
  proof -
    have "{m \<in> maps W st ps idx. t_v (pte_at st' m)} = {m \<in> maps W st ps idx. t_v (pte_at st m)}" using pt by auto
    then show ?thesis using that pt unfolding mapped_ok_def e sl(1) v(1) by auto
  qed
  have cl: "clean_ok st' ps idx al fl" if "clean_ok st ps idx al fl" "mapped_ok W st ps idx al" "page_owned U st ps idx" for al fl
  proof -
    have "\<forall>m \<in> set al. pte_at st' m = pte_at st m" using that(2) pt by (auto simp: mapped_ok_def)
    then show ?thesis using that(1) pg [OF that(3)] dv by (simp add: clean_ok_def sl(1))
  qed
  have "slot_ok W U' st' ps idx"
    using ok mp cl pg unfolding slot_ok_def sl Let_def by (auto split: if_splits)
  moreover have "contents st' ps idx = contents st ps idx"
    using ok pg dv unfolding slot_ok_def contents_def sl Let_def by (auto split: if_splits)
  ultimately show ?thesis by blast
qed

text \<open>The whole invariant but for the slot.\<close>

lemma step_at_vm:
  assumes v: "vm_but A W {h} F U st" and h: "h \<in> slots_of A st" and s: "step_at W U U' h st st'"
    and k: "kc_ok F' U' (kcore st')" "pt_ok st'" "qio_ok A st'"
  shows "vm_but A W {h} F' U' st' \<and> (\<forall>(ps, idx) \<in> slots_of A st - {h}. contents st' ps idx = contents st ps idx)"
proof -
  have f: "fixed_ok A W st" using v by (simp add: vm_but_def)
  note F = step_at_fixed [OF s f]
  have sl: "\<forall>ps idx. (ps, idx) \<noteq> h \<longrightarrow> slot st' ps idx = slot st ps idx" using s by (simp add: step_at_def)
  have fr: "slot_ok W U' st' ps idx \<and> contents st' ps idx = contents st ps idx" if "(ps, idx) \<in> slots_of A st - {h}" for ps idx
  proof -
    have "slot_ok W U st ps idx" using v that unfolding vm_but_def by blast
    then show ?thesis using slot_ok_frame [OF f s h] that by simp
  qed
  have "back_ok A {h} U' st'"
    unfolding back_ok_def F(2)
  proof (intro ballI impI)
    fix x assume x: "x \<in> U'" "\<not> bad_core (kcore st') x" "c_free (kcore st') x \<noteq> 0"
    then have "x \<in> U \<and> \<not> owner st h x \<or> owner st' h x" using s by (auto simp: step_at_def)
    then show "\<exists>(ps, idx) \<in> slots_of A st. owner st' (ps, idx) x \<and>
        ((ps, idx) \<in> {h} \<or> pp_flags (slot st' ps idx) AND PP_V \<noteq> 0 \<and> pp_pfn (slot st' ps idx) = x)"
    proof
      assume "owner st' h x"
      then show ?thesis using h by (intro bexI [of _ h]) (auto split: prod.splits)
    next
      assume u: "x \<in> U \<and> \<not> owner st h x"
      then have e: "c_free (kcore st') x = c_free (kcore st) x" "c_psidx (kcore st') x = c_psidx (kcore st) x"
        "c_flags (kcore st') x = c_flags (kcore st) x" using s by (simp_all add: step_at_def)
      then have "\<exists>(ps, idx) \<in> slots_of A st. owner st (ps, idx) x \<and>
          ((ps, idx) \<in> {h} \<or> pp_flags (slot st ps idx) AND PP_V \<noteq> 0 \<and> pp_pfn (slot st ps idx) = x)"
        using v u x by (auto simp: vm_but_def back_ok_def bad_core_def)
      then obtain ps idx where p: "(ps, idx) \<in> slots_of A st" "owner st (ps, idx) x"
        "(ps, idx) = h \<or> pp_flags (slot st ps idx) AND PP_V \<noteq> 0 \<and> pp_pfn (slot st ps idx) = x" by auto
      then have "(ps, idx) \<noteq> h" using u by auto
      then show ?thesis using p e sl by (intro bexI [OF _ p(1)]) (auto simp: owner_def)
    qed
  qed
  moreover have "pt_maps W st'"
    unfolding pt_maps_def
  proof (intro allI impI)
    fix vas p assume t: "t_v (ptes st' vas p)"
    have e: "vmm st' = vmm st" using s by (simp add: step_at_def)
    have "(vas, p) \<notin> vkey st ` all_maps W st \<longrightarrow> ptes st' vas p = ptes st vas p" using s unfolding step_at_def by blast
    then have "(vas, p) \<in> vkey st ` all_maps W st \<or> t_v (ptes st vas p)" using t by metis
    then show "(vas, p) \<in> vkey st' ` all_maps W st'" using v by (auto simp: vmm_eq [OF e] vm_but_def pt_maps_def)
  qed
  ultimately show ?thesis using F k fr by (auto simp: vm_but_def)
qed

lemma vm_open:
  assumes "vm_but A W {} F U st" "(ps, idx) \<in> slots_of A st"
  shows "vm_but A W {(ps, idx)} F U st \<and> slot_ok W U st ps idx \<and>
    (\<forall>x \<in> U. owner st (ps, idx) x \<longrightarrow> \<not> bad_core (kcore st) x \<longrightarrow>
       pp_flags (slot st ps idx) AND PP_V \<noteq> 0 \<and> pp_pfn (slot st ps idx) = x)"
proof -
  have f: "fixed_ok A W st" and b: "back_ok A {} U st" using assms(1) by (simp_all add: vm_but_def)
  have "back_ok A {(ps, idx)} U st" using b unfolding back_ok_def by fast
  moreover have "pp_flags (slot st ps idx) AND PP_V \<noteq> 0 \<and> pp_pfn (slot st ps idx) = x"
    if x: "x \<in> U" "owner st (ps, idx) x" "\<not> bad_core (kcore st) x" for x
  proof -
    have "ps \<noteq> 0" using f assms(2) by (auto simp: fixed_ok_def slots_of_def anon_def)
    then have "c_free (kcore st) x \<noteq> 0" using x(2) by (simp add: owner_def)
    then obtain g where g: "g \<in> slots_of A st" "owner st g x" "pp_flags (slot st (fst g) (snd g)) AND PP_V \<noteq> 0 \<and> pp_pfn (slot st (fst g) (snd g)) = x"
      using b x unfolding back_ok_def by fastforce
    have "g = (ps, idx)" by (rule owner_slot [OF f g(1) assms(2) g(2) x(2)])
    then show ?thesis using g(3) by simp
  qed
  ultimately show ?thesis using assms by (auto simp: vm_but_def)
qed

lemma vm_close:
  assumes v: "vm_but A W {(ps, idx)} F U st" and ok: "slot_ok W U st ps idx"
    and o: "\<forall>x \<in> U. owner st (ps, idx) x \<longrightarrow> \<not> bad_core (kcore st) x \<longrightarrow>
       pp_flags (slot st ps idx) AND PP_V \<noteq> 0 \<and> pp_pfn (slot st ps idx) = x"
  shows "vm_but A W {} F U st"
proof -
  have "back_ok A {} U st"
    using v o unfolding vm_but_def back_ok_def by (fastforce split: prod.splits)
  then show ?thesis using v ok by (auto simp: vm_but_def)
qed

section \<open>Pages of a slot\<close>

lemma alloc_page_kc:
  assumes k: "kc_ok F U c" and a: "alloc_page c = Some (pg, c')"
  shows "pg \<in> F \<and> pg \<notin> U \<and> kc_ok (F - {pg}) (insert pg U) c' \<and> \<not> bad_core c' pg \<and> c_free c' pg = 0 \<and>
    (\<forall>y. y \<noteq> pg \<longrightarrow> c_free c' y = c_free c y \<and> c_flags c' y = c_flags c y) \<and> c_psidx c' = c_psidx c"
proof -
  have p: "pages c F U" using k by (simp add: kc_ok_def)
  note q = alloc_page_pages [OF p, unfolded a]
  have d: "c_free c' = (c_free c)(pg := 0)" "c_psidx c' = c_psidx c"
    using a by (auto simp: alloc_page_def alloc_page_try_def Let_def split: if_splits)
  have "\<not> bad_core c' pg" using q by (simp add: bad_core_def C_ALLOC_def C_SYS_def C_BAD_def C_WIRED_def)
  moreover have "pg \<notin> U" using q p by (auto simp: pages_def)
  moreover have "kc_ok (F - {pg}) (insert pg U) c'" using q k by (auto simp: kc_ok_def)
  ultimately show ?thesis using q d by simp
qed

lemma free_page_kc:
  assumes k: "kc_ok F U c" and pg: "pg \<in> U" and a: "free_page pg c = Some c'"
  shows "kc_ok (insert pg F) (U - {pg}) c' \<and> (\<forall>y. y \<noteq> pg \<longrightarrow> c_free c' y = c_free c y \<and> c_flags c' y = c_flags c y) \<and> c_psidx c' = c_psidx c"
proof -
  have p: "pages c F U" using k by (simp add: kc_ok_def)
  have q: "pages c' (insert pg F) (U - {pg})" "\<forall>y. y \<noteq> pg \<longrightarrow> c_flags c' y = c_flags c y" using free_page_pages [OF p pg] a by auto
  have d: "\<forall>y. y \<noteq> pg \<longrightarrow> c_free c' y = c_free c y" "c_psidx c' = c_psidx c" "c_flags c' pg = c_flags c pg AND NOT C_ALLOC"
    using a by (auto simp: free_page_def Let_def split: if_splits option.splits)
  have "c_flags c' pg AND C_ALLOC = 0" unfolding d(3) by (simp add: and.assoc)
  then have "kc_ok (insert pg F) (U - {pg}) c'" using q k by (auto simp: kc_ok_def)
  then show ?thesis using q d by blast
qed

lemma set_core_kc:
  assumes k: "kc_ok F U c" and pg: "pg \<in> U" and a: "set_core pg ps i c = Some c'"
  shows "kc_ok F U c' \<and> c_free c' = (c_free c)(pg := ps) \<and> c_psidx c' = (c_psidx c)(pg := i) \<and> c_flags c' = c_flags c"
proof -
  have d: "c_free c' = (c_free c)(pg := ps)" "c_psidx c' = (c_psidx c)(pg := i)" "c_flags c' = c_flags c"
    "freelist c' = freelist c" "freemem c' = freemem c" "bootpgs c' = bootpgs c"
    using a by (auto simp: set_core_def lock_page_def unlock_page_def Let_def split: if_splits)
  obtain fs where "chain (c_free c) (freelist c) fs" "distinct fs" "set fs = F" "unat (freemem c) = length fs" "F \<inter> U = {}"
    using k by (auto simp: kc_ok_def pages_def)
  moreover have "pg \<notin> set fs" using calculation pg by auto
  ultimately have "pages c' F U" using k unfolding kc_ok_def pages_def d
    by (auto simp: chain_upd_notin intro!: exI [of _ fs])
  then show ?thesis using k d by (simp add: kc_ok_def)
qed

text \<open>Only the core changes: pages come to or leave the slot.\<close>

lemma step_at_core:
  assumes "\<forall>x \<in> U. \<not> owner st h x \<longrightarrow> x \<in> U' \<and> c_free c x = c_free (kcore st) x \<and> c_psidx c x = c_psidx (kcore st) x \<and> c_flags c x = c_flags (kcore st) x"
    and "\<forall>x \<in> U'. x \<in> U \<and> \<not> owner st h x \<or> c_free c x = 0 \<or> c_free c x = fst h \<and> c_psidx c x = ucast (snd h)"
  shows "step_at W U U' h st (st\<lparr>kcore := c\<rparr>)"
  using assms by (auto simp: step_at_def in_flight_def pte_at_def tab_at_def vkey_def owner_def)

lemma slot_page_step:
  assumes k: "kc_ok F U (kcore st)" and a: "slot_page ps idx st = Some (pg, st')"
  shows "pg \<in> F \<and> pg \<notin> U \<and> st' = st\<lparr>kcore := kcore st'\<rparr> \<and> kc_ok (F - {pg}) (insert pg U) (kcore st') \<and>
    owner st' (ps, idx) pg \<and> (\<forall>x \<in> U. owner st' (ps, idx) x = owner st (ps, idx) x \<and> bad_core (kcore st') x = bad_core (kcore st) x) \<and>
    \<not> bad_core (kcore st') pg \<and> step_at W U (insert pg U) (ps, idx) st st'"
proof -
  obtain c c1 where c: "alloc_page (kcore st) = Some (pg, c)" "set_core pg ps (ucast idx) c = Some c1" "st' = st\<lparr>kcore := c1\<rparr>"
    using a by (auto simp: slot_page_def bind_eq_Some_conv)
  note A = alloc_page_kc [OF k c(1)]
  note S = set_core_kc [OF _ _ c(2), of "F - {pg}" "insert pg U"]
  have s: "kc_ok (F - {pg}) (insert pg U) c1 \<and> c_free c1 = (c_free c)(pg := ps) \<and> c_psidx c1 = (c_psidx c)(pg := ucast idx) \<and> c_flags c1 = c_flags c"
    using A S by blast
  have "step_at W U (insert pg U) (ps, idx) st (st\<lparr>kcore := c1\<rparr>)"
    using A s by (intro step_at_core) (auto simp: owner_def)
  then show ?thesis using A s c(3) by (auto simp: owner_def bad_core_def)
qed

lemma drop_page_step:
  assumes k: "kc_ok F U (kcore st)" and pg: "pg \<in> U" "owner st (ps, idx) pg" and a: "drop_page pg st = Some st'"
  shows "st' = st\<lparr>kcore := kcore st'\<rparr> \<and> kc_ok (insert pg F) (U - {pg}) (kcore st') \<and>
    (\<forall>x \<in> U - {pg}. owner st' (ps, idx) x = owner st (ps, idx) x \<and> bad_core (kcore st') x = bad_core (kcore st) x) \<and>
    step_at W U (U - {pg}) (ps, idx) st st'"
proof -
  obtain c where c: "free_page pg (kcore st) = Some c" "st' = st\<lparr>kcore := c\<rparr>" using a by (auto simp: drop_page_def)
  note A = free_page_kc [OF k pg(1) c(1)]
  have "step_at W U (U - {pg}) (ps, idx) st (st\<lparr>kcore := c\<rparr>)"
    using A pg(2) by (intro step_at_core) (auto simp: owner_def)
  then show ?thesis using A c(2) by (auto simp: owner_def bad_core_def)
qed

text \<open>The contents of a page of the slot change, or its image on swap.\<close>

lemma step_at_frames: "owner st h pg \<or> pg \<notin> U \<Longrightarrow> step_at W U U h st (st\<lparr>frames := (frames st)(pg := p)\<rparr>)"
  by (auto simp: step_at_def in_flight_def pte_at_def tab_at_def vkey_def owner_def)

lemma step_at_dev:
  "step_at W U U (ps, idx) st (st\<lparr>dev := (dev st)(swapdev st := (dev st (swapdev st))(swap_off st ps idx := p))\<rparr>)"
  by (auto simp: step_at_def in_flight_def pte_at_def tab_at_def vkey_def owner_def)

section \<open>Locks and references\<close>

lemma lock_slot_step:
  "lock_slot ps idx st = Some st' \<Longrightarrow>
   pp_lock (slot st ps idx) AND PP_LOCK = 0 \<and> slot st' ps idx = (slot st ps idx)\<lparr>pp_lock := pp_lock (slot st ps idx) OR PP_LOCK\<rparr> \<and>
   st' = st\<lparr>psets := psets st'\<rparr> \<and> step_at W U U (ps, idx) st st'"
  unfolding lock_slot_def upd_pp_def upd_ps_def
  by (auto simp: Let_def pinfo_def split: if_splits intro!: step_at_psets)

lemma clock_slot_step:
  "clock_slot ps idx st = (0, st') \<Longrightarrow>
   pp_lock (slot st ps idx) AND PP_LOCK = 0 \<and> slot st' ps idx = (slot st ps idx)\<lparr>pp_lock := pp_lock (slot st ps idx) OR PP_LOCK\<rparr> \<and>
   st' = st\<lparr>psets := psets st'\<rparr> \<and> step_at W U U (ps, idx) st st'"
  unfolding clock_slot_def upd_pp_def upd_ps_def
  by (auto simp: Let_def pinfo_def split: if_splits intro!: step_at_psets)

lemma unlock_slot_step:
  "unlock_slot ps idx st = Some st' \<Longrightarrow>
   slot st' ps idx = (slot st ps idx)\<lparr>pp_lock := pp_lock (slot st ps idx) AND NOT (PP_LOCK OR PP_WANT)\<rparr> \<and>
   st' = st\<lparr>psets := psets st'\<rparr> \<and> step_at W U U (ps, idx) st st'"
  unfolding unlock_slot_def upd_pp_def upd_ps_def
  by (auto simp: Let_def pinfo_def split: if_splits intro!: step_at_psets)

lemma slot_change_step:
  "slot (upd_pp ps idx f st) ps idx = f (slot st ps idx) \<and>
   upd_pp ps idx f st = st\<lparr>psets := psets (upd_pp ps idx f st)\<rparr> \<and> step_at W U U (ps, idx) st (upd_pp ps idx f st)"
  by (simp add: slot_upd_pp step_at_upd_pp) (simp add: upd_pp_def upd_ps_def)

section \<open>Filling a slot\<close>

lemma page_in_step:
  assumes k: "kc_ok F U (kcore st)" and pg: "pg \<in> U" "owner st (ps, idx) pg" and a: "page_in ps idx pg pr off st = Some (r, st')"
  shows "(r = 0 \<longrightarrow> st' = slot_filled ps idx pg (st\<lparr>frames := (frames st)(pg := dev st pr off)\<rparr>)) \<and>
    (r \<noteq> 0 \<longrightarrow> drop_page pg st = Some st')"
  using a by (auto simp: page_in_def pageio_def bind_eq_Some_conv split: if_splits)

text \<open>What filling leaves alone.\<close>

definition keeps :: "vm \<Rightarrow> vm \<Rightarrow> bool" where
  "keeps st st' = (ptes st' = ptes st \<and> l1pt st' = l1pt st \<and> qios st' = qios st \<and> dev st' = dev st)"

definition same_owner :: "nat set \<Rightarrow> addr \<times> u32 \<Rightarrow> vm \<Rightarrow> vm \<Rightarrow> bool" where
  "same_owner U h st st' = (\<forall>x \<in> U. owner st' h x = owner st h x \<and> bad_core (kcore st') x = bad_core (kcore st) x)"

lemma fill_step:
  assumes k: "kc_ok F U (kcore st)" and an: "anon st ps" and fl: "pp_flags (slot st ps idx) AND PP_V = 0"
    and a: "fillslot ps idx st = Some (r, st')"
  shows "\<exists>F' U'. kc_ok F' U' (kcore st') \<and> step_at W U U' (ps, idx) st st' \<and> keeps st st' \<and>
    (if r \<noteq> 0 then U' = U \<and> slot st' ps idx = slot st ps idx \<and> same_owner U (ps, idx) st st'
     else \<exists>pg. pg \<notin> U \<and> U' = insert pg U \<and> same_owner U (ps, idx) st st' \<and> owner st' (ps, idx) pg \<and>
       frames st' pg = backing st ps idx \<and>
       slot st' ps idx = (slot st ps idx)\<lparr>pp_flags := (pp_flags (slot st ps idx) OR PP_V) AND NOT (PP_M OR PP_R), pp_pfn := pg, pp_refs := 1\<rparr>)"
proof -
  let ?h = "(ps, idx)"
  have z: "zfod_fillslot ps idx st = Some (r, st')" using a an by (simp add: fillslot_def master_fillslot_def anon_def)
  then obtain pg st1 where s1: "slot_page ps idx st = Some (pg, st1)"
    and z1: "(if pp_flags (slot st ps idx) AND PP_SWAPPED \<noteq> 0 then page_in ps idx pg (swapdev st1) (ptob (idx + ps_swapblk (psets st1 ps))) st1
        else Some (0, slot_filled ps idx pg (st1\<lparr>frames := (frames st1)(pg := zero_page)\<rparr>))) = Some (r, st')"
    by (auto simp: zfod_fillslot_def Let_def bind_eq_Some_conv split: if_splits)
  note P = slot_page_step [OF k s1, where W = W]
  have e: "psets st1 = psets st" "swapdev st1 = swapdev st" "dev st1 = dev st" "ptes st1 = ptes st" "l1pt st1 = l1pt st" "qios st1 = qios st"
  proof -
    have u1: "st1 = st\<lparr>kcore := kcore st1\<rparr>" using P by blast
    show "psets st1 = psets st" "swapdev st1 = swapdev st" "dev st1 = dev st" "ptes st1 = ptes st" "l1pt st1 = l1pt st" "qios st1 = qios st"
      by (subst u1, simp)+
  qed
  have o1: "same_owner U ?h st st1" using P by (simp add: same_owner_def)
  show ?thesis
  proof (cases "r = 0")
    case True
    have st': "st' = slot_filled ps idx pg (st1\<lparr>frames := (frames st1)(pg := backing st ps idx)\<rparr>)"
    proof (cases "pp_flags (slot st ps idx) AND PP_SWAPPED \<noteq> 0")
      case sw: True
      then show ?thesis using z1 True page_in_step [of "F - {pg}" "insert pg U" st1 pg ps idx _ _ r st'] P
        by (simp add: backing_def swap_off_def e)
    next
      case False
      then show ?thesis using z1 True by (simp add: backing_def)
    qed
    let ?s2 = "st1\<lparr>frames := (frames st1)(pg := backing st ps idx)\<rparr>"
    have "step_at W (insert pg U) (insert pg U) ?h st1 ?s2" using P by (intro step_at_frames) blast
    moreover have "step_at W (insert pg U) (insert pg U) ?h ?s2 st'" unfolding st' slot_filled_def by (rule step_at_upd_pp)
    ultimately have "step_at W U (insert pg U) ?h st st'" using P step_at_trans by blast
    moreover have "kcore st' = kcore st1" "keeps st st'" "frames st' pg = backing st ps idx"
      unfolding st' slot_filled_def upd_pp_def upd_ps_def keeps_def by (simp_all add: e)
    moreover have "slot st' ps idx = (slot st ps idx)\<lparr>pp_flags := (pp_flags (slot st ps idx) OR PP_V) AND NOT (PP_M OR PP_R), pp_pfn := pg, pp_refs := 1\<rparr>"
      unfolding st' slot_filled_def slot_upd_pp by (simp add: e)
    moreover have "owner st' ?h pg" "same_owner U ?h st st'" using calculation(2) P o1 by (simp_all add: owner_def same_owner_def)
    ultimately show ?thesis using P True by auto
  next
    case False
    then have d: "drop_page pg st1 = Some st'"
      using z1 page_in_step [of "F - {pg}" "insert pg U" st1 pg ps idx _ _ r st'] P by (auto split: if_splits)
    note D = drop_page_step [OF _ _ _ d, of "F - {pg}" "insert pg U" ps idx, where W = W]
    have D': "st' = st1\<lparr>kcore := kcore st'\<rparr>" "kc_ok (insert pg (F - {pg})) (insert pg U - {pg}) (kcore st')"
      "\<forall>x \<in> insert pg U - {pg}. owner st' ?h x = owner st1 ?h x \<and> bad_core (kcore st') x = bad_core (kcore st1) x"
      "step_at W (insert pg U) (insert pg U - {pg}) ?h st1 st'" using D P by blast+
    have u: "insert pg U - {pg} = U" using P by auto
    have "step_at W U U ?h st st'" using P D'(4) u step_at_trans by metis
    moreover have "keeps st st'" "slot st' ps idx = slot st ps idx"
      by (subst D'(1), simp add: keeps_def e)+
    moreover have "same_owner U ?h st st'" using o1 D'(3) u by (auto simp: same_owner_def)
    ultimately show ?thesis using D'(2) u False by metis
  qed
qed

section \<open>Translations\<close>

lemma pte_upd: "vkey (upd_pte v p f st) = vkey st"
  by (simp add: upd_pte_def vkey_def)

lemma pte_at_upd:
  assumes "vkey st m = (v, p)"
  shows "pte_at (upd_pte v p f st) m' = (if vkey st m' = vkey st m then f (pte_at st m) else pte_at st m')"
  unfolding pte_at_def pte_upd using assms by (cases "vkey st m'") (auto simp: upd_pte_def)

lemma vkey_eq: "fixed_ok A W st \<Longrightarrow> m \<in> all_maps W st \<Longrightarrow> m' \<in> all_maps W st \<Longrightarrow> (vkey st m' = vkey st m) = (m' = m)"
  by (auto simp: fixed_ok_def views_ok_def inj_on_def)

text \<open>The entry of a place that shows the slot changes.\<close>

lemma upd_pte_step:
  assumes f: "fixed_ok A W st" and m: "m \<in> maps W st ps idx" and key: "vkey st m = (v, p)" and p: "pt_ok st" "tab_at st m \<noteq> 0"
  shows "step_at W U U (ps, idx) st (upd_pte v p g st) \<and> pt_ok (upd_pte v p g st) \<and>
    (\<forall>m' \<in> all_maps W st. pte_at (upd_pte v p g st) m' = (if m' = m then g (pte_at st m) else pte_at st m')) \<and>
    (\<forall>m'. tab_at (upd_pte v p g st) m' = tab_at st m')"
proof -
  have am: "m \<in> all_maps W st" using m by (auto simp: maps_def)
  have pt: "\<forall>m' \<in> all_maps W st. pte_at (upd_pte v p g st) m' = (if m' = m then g (pte_at st m) else pte_at st m')"
    using vkey_eq [OF f am] by (simp add: pte_at_upd [OF key])
  have tb: "\<forall>m'. tab_at (upd_pte v p g st) m' = tab_at st m'" by (simp add: tab_at_def pte_upd) (simp add: upd_pte_def)
  have "step_at W U U (ps, idx) st (upd_pte v p g st)"
  proof -
    have "(v, p) \<in> vkey st ` all_maps W st" using key am by force
    then show ?thesis using pt tb m by (auto simp: step_at_def upd_pte_def in_flight_def owner_def)
  qed
  moreover have "pt_ok (upd_pte v p g st)"
    using p key by (auto simp: pt_ok_def upd_pte_def tab_at_def)
  ultimately show ?thesis using pt tb by blast
qed

lemma hat_table_step:
  assumes k: "kc_ok F U (kcore st)" and p: "pt_ok st" and a: "hat_table v va st = Some st'" and nz: "fst h \<noteq> 0"
  shows "\<exists>F' U'. kc_ok F' U' (kcore st') \<and> U \<subseteq> U' \<and> pt_ok st' \<and> step_at W U U' h st st' \<and> same_owner U h st st' \<and>
    (\<forall>x \<in> U' - U. \<not> owner st' h x) \<and> ptes st' = ptes st \<and> psets st' = psets st \<and> frames st' = frames st \<and> qios st' = qios st \<and>
    dev st' = dev st \<and> (\<forall>m. tab_at st m \<noteq> 0 \<longrightarrow> tab_at st' m \<noteq> 0) \<and> l1pt st' v (L1IDX va) \<noteq> 0"
proof (cases "l1pt st v (L1IDX va) = 0")
  case False
  then have "st' = st" using a by (simp add: hat_table_def)
  moreover have "step_at W U U h st st" using step_at_psets [of "psets st" st h W U] by simp
  ultimately show ?thesis using k p False by (intro exI [of _ F] exI [of _ U]) (simp add: same_owner_def)
next
  case True
  obtain pg c where c: "alloc_page (kcore st) = Some (pg, c)"
    and st': "st' = st\<lparr>kcore := c, ptes := (ptes st)(v := (\<lambda>w. if drop_bit 10 w = L1IDX va then no_pte else ptes st v w)),
                l1pt := (l1pt st)(v := (l1pt st v)(L1IDX va := pg))\<rparr>"
    using a True by (auto simp: hat_table_def bind_eq_Some_conv)
  note A = alloc_page_kc [OF k c]
  have pz: "(\<lambda>w. if drop_bit 10 w = L1IDX va then no_pte else ptes st v w) = ptes st v"
    using p True by (auto simp: pt_ok_def fun_eq_iff)
  have st'': "st' = st\<lparr>kcore := c, l1pt := (l1pt st)(v := (l1pt st v)(L1IDX va := pg))\<rparr>" unfolding st' pz by simp
  have p0: "pg \<noteq> 0" using A k by (auto simp: kc_ok_def pages_def)
  have tb: "\<forall>m. tab_at st m \<noteq> 0 \<longrightarrow> tab_at st' m \<noteq> 0" using p0 by (simp add: tab_at_def vkey_def st'')
  have so: "same_owner U h st st'" using A by (auto simp: same_owner_def owner_def bad_core_def st'')
  have "step_at W U (insert pg U) h st st'"
    using A tb by (auto simp: step_at_def st'' in_flight_def pte_at_def vkey_def owner_def)
  moreover have "pt_ok st'" using p p0 by (auto simp: pt_ok_def st'')
  moreover have "\<not> owner st' h pg" using A nz by (simp add: owner_def st'')
  ultimately show ?thesis using A tb so p0
    by (intro exI [of _ "F - {pg}"] exI [of _ "insert pg U"]) (auto simp: st'')
qed

lemma hat_addtrans_step:
  assumes f: "fixed_ok A W st" and k: "kc_ok F U (kcore st)" and p: "pt_ok st" and m: "(pv, i) \<in> maps W st ps idx"
    and key: "vkey st (pv, i) = (vas_of st pv, va_page va)" and nz: "ps \<noteq> 0" and a: "hat_addtrans pv va pfn prot st = Some st'"
  shows "\<exists>F' U'. kc_ok F' U' (kcore st') \<and> U \<subseteq> U' \<and> pt_ok st' \<and> step_at W U U' (ps, idx) st st' \<and> same_owner U (ps, idx) st st' \<and>
    (\<forall>x \<in> U' - U. \<not> owner st' (ps, idx) x) \<and> psets st' = psets st \<and> frames st' = frames st \<and> qios st' = qios st \<and> dev st' = dev st \<and>
    (\<forall>m' \<in> all_maps W st. pte_at st' m' = (if m' = (pv, i)
        then \<lparr>t_pfn = pfn, t_v = True, t_w = (prot AND PROT_RO = 0), t_u = (prot AND PROT_KERN = 0), t_r = False, t_m = False\<rparr>
        else pte_at st m') \<and> (tab_at st m' \<noteq> 0 \<longrightarrow> tab_at st' m' \<noteq> 0)) \<and> tab_at st' (pv, i) \<noteq> 0"
proof -
  let ?e = "\<lparr>t_pfn = pfn, t_v = True, t_w = (prot AND PROT_RO = 0), t_u = (prot AND PROT_KERN = 0), t_r = False, t_m = False\<rparr>"
  obtain s1 where s1: "hat_table (vas_of st pv) va st = Some s1" and st': "st' = upd_pte (vas_of st pv) (va_page va) (\<lambda>_. ?e) s1"
    using a by (auto simp: hat_addtrans_def)
  obtain F' U' where T: "kc_ok F' U' (kcore s1)" "U \<subseteq> U'" "pt_ok s1" "step_at W U U' (ps, idx) st s1" "same_owner U (ps, idx) st s1"
    "\<forall>x \<in> U' - U. \<not> owner s1 (ps, idx) x" "ptes s1 = ptes st" "psets s1 = psets st" "frames s1 = frames st" "qios s1 = qios st" "dev s1 = dev st"
    "\<forall>m. tab_at st m \<noteq> 0 \<longrightarrow> tab_at s1 m \<noteq> 0" "l1pt s1 (vas_of st pv) (L1IDX va) \<noteq> 0"
    using hat_table_step [OF k p s1, of "(ps, idx)" W] nz by auto
  have v1: "vmm s1 = vmm st" using T(4) by (simp add: step_at_def)
  note e = vmm_eq [OF v1]
  have f1: "fixed_ok A W s1" using step_at_fixed(1) [OF T(4) f] .
  have tab: "tab_at s1 (pv, i) \<noteq> 0" using T(13) key by (simp add: tab_at_def e va_page_L1)
  have m1: "(pv, i) \<in> maps W s1 ps idx" "vkey s1 (pv, i) = (vas_of st pv, va_page va)" using m key by (simp_all add: e)
  note B = upd_pte_step [OF f1 m1 T(3) tab, of U' "\<lambda>_. ?e", folded st']
  have p1: "pte_at s1 m' = pte_at st m'" for m' by (simp add: pte_at_def e T(7))
  have kc: "kcore st' = kcore s1" "psets st' = psets s1" "frames st' = frames s1" "qios st' = qios s1" "dev st' = dev s1"
    by (simp_all add: st' upd_pte_def)
  have "step_at W U U' (ps, idx) st st'" using T(4) B step_at_trans by blast
  moreover have "same_owner U (ps, idx) st st'" "\<forall>x \<in> U' - U. \<not> owner st' (ps, idx) x"
    using T(5,6) by (simp_all add: same_owner_def owner_def kc)
  moreover have "\<forall>m' \<in> all_maps W st. pte_at st' m' = (if m' = (pv, i) then ?e else pte_at st m') \<and> (tab_at st m' \<noteq> 0 \<longrightarrow> tab_at st' m' \<noteq> 0)"
  proof
    fix m' assume a: "m' \<in> all_maps W st"
    have "tab_at st m' \<noteq> 0 \<longrightarrow> tab_at st' m' \<noteq> 0" using B T(12) by metis
    moreover have "pte_at st' m' = (if m' = (pv, i) then ?e else pte_at st m')" using B p1 a unfolding e by simp
    ultimately show "pte_at st' m' = (if m' = (pv, i) then ?e else pte_at st m') \<and> (tab_at st m' \<noteq> 0 \<longrightarrow> tab_at st' m' \<noteq> 0)" by blast
  qed
  moreover have "tab_at st' (pv, i) \<noteq> 0" "pt_ok st'" using B tab by simp_all
  ultimately show ?thesis unfolding kc using T(1,2,8-11)
    by - (rule exI [of _ F'], rule exI [of _ U'], (rule conjI | assumption)+)
qed

section \<open>Page faults\<close>

text \<open>What holds of a slot that is not being written out, apart from its lock.\<close>

definition slot_body :: "addr set \<Rightarrow> nat set \<Rightarrow> vm \<Rightarrow> addr \<Rightarrow> u32 \<Rightarrow> bool" where
  "slot_body W U st ps idx =
     (let pp = slot st ps idx in
      mapped_ok W st ps idx (pp_atl pp) \<and> pp_flags pp AND (PP_COW OR PP_BAD) = 0 \<and>
      (if pp_flags pp AND PP_V = 0 then pp_atl pp = [] else page_owned U st ps idx \<and> clean_ok st ps idx (pp_atl pp) (pp_flags pp)) \<and>
      (\<forall>x \<in> U. owner st (ps, idx) x \<longrightarrow> \<not> bad_core (kcore st) x \<longrightarrow> pp_flags pp AND PP_V \<noteq> 0 \<and> pp_pfn pp = x))"

lemma slot_body_open:
  assumes "vm_but A W {} F U st" "(ps, idx) \<in> slots_of A st" "\<not> in_flight st ps idx"
  shows "vm_but A W {(ps, idx)} F U st \<and> slot_body W U st ps idx \<and> pp_lock (slot st ps idx) AND PP_LOCK = 0"
  using vm_open [OF assms(1,2)] assms(3) by (auto simp: slot_ok_def slot_body_def Let_def)

lemma slot_body_close:
  assumes "vm_but A W {(ps, idx)} F U st" "slot_body W U st ps idx" "\<not> in_flight st ps idx" "pp_lock (slot st ps idx) AND PP_LOCK = 0"
  shows "vm_but A W {} F U st"
  using assms by (intro vm_close [OF assms(1)]) (auto simp: slot_ok_def slot_body_def Let_def split: if_splits)

lemma slot_body_cong:
  assumes b: "slot_body W U st ps idx" and v: "vmm st' = vmm st" and c: "same_owner U (ps, idx) st st'"
    and s: "pp_atl (slot st' ps idx) = pp_atl (slot st ps idx)" "pp_flags (slot st' ps idx) = pp_flags (slot st ps idx)"
      "pp_refs (slot st' ps idx) = pp_refs (slot st ps idx)" "pp_pfn (slot st' ps idx) = pp_pfn (slot st ps idx)"
    and p: "ptes st' = ptes st" "l1pt st' = l1pt st" and f: "\<forall>x \<in> U. owner st (ps, idx) x \<longrightarrow> frames st' x = frames st x"
    and d: "backing st' ps idx = backing st ps idx"
  shows "slot_body W U st' ps idx"
proof -
  note e = vmm_eq [OF v]
  have pt: "pte_at st' = pte_at st" "tab_at st' = tab_at st" by (simp_all add: pte_at_def tab_at_def e p fun_eq_iff)
  have o: "\<forall>x \<in> U. owner st' (ps, idx) x = owner st (ps, idx) x \<and> bad_core (kcore st') x = bad_core (kcore st) x"
    using c by (auto simp: same_owner_def owner_def)
  have ow: "page_owned U s ps idx = (pp_pfn (slot s ps idx) \<in> U \<and> owner s (ps, idx) (pp_pfn (slot s ps idx)))" for s
    by (simp add: page_owned_def owner_def Let_def)
  show ?thesis
    using b o f unfolding slot_body_def Let_def mapped_ok_def clean_ok_def e pt s d ow v by (auto split: if_splits)
qed

lemma same_owner_core: "kcore st' = kcore st \<Longrightarrow> same_owner U h st st'"
  by (simp add: same_owner_def owner_def)

text \<open>A page in the slot, with a reference for the place that is about to show it.\<close>

definition slot_ready :: "addr set \<Rightarrow> nat set \<Rightarrow> vm \<Rightarrow> addr \<Rightarrow> u32 \<Rightarrow> bool" where
  "slot_ready W U st ps idx =
     (let pp = slot st ps idx; al = pp_atl pp in
      distinct al \<and> unat (pp_refs pp) = Suc (length al) \<and> set al = {m \<in> maps W st ps idx. t_v (pte_at st m)} \<and>
      (\<forall>m \<in> set al. t_pfn (pte_at st m) = pp_pfn pp \<and> tab_at st m \<noteq> 0 \<and>
         t_w (pte_at st m) = (pv_prot (pviews (vmm st) (fst m)) AND PROT_RO = 0) \<and>
         t_u (pte_at st m) = (pv_prot (pviews (vmm st) (fst m)) AND PROT_KERN = 0)) \<and>
      pp_flags pp AND (PP_COW OR PP_BAD) = 0 \<and> pp_flags pp AND PP_V \<noteq> 0 \<and> page_owned U st ps idx \<and> clean_ok st ps idx al (pp_flags pp) \<and>
      (\<forall>x \<in> U. owner st (ps, idx) x \<longrightarrow> \<not> bad_core (kcore st) x \<longrightarrow> pp_pfn pp = x))"

lemma pp_test3: "x AND (PP_COW OR PP_BAD) = 0 \<longleftrightarrow> \<not> bit x 1 \<and> \<not> bit x 3"
  by (simp add: bit.conj_disj_distrib or_eq_0 pp_test)

lemma fault_fill_ok:
  assumes k: "kc_ok F U (kcore st)" and an: "anon st ps" and b: "slot_body W U st ps idx"
    and a: "fault_fill ps idx st = Some (r, wv, st1)"
  shows "\<exists>F' U'. kc_ok F' U' (kcore st1) \<and> step_at W U U' (ps, idx) st st1 \<and> keeps st st1 \<and>
    pp_lock (slot st1 ps idx) = pp_lock (slot st ps idx) \<and> contents st1 ps idx = contents st ps idx \<and>
    (if r \<noteq> 0 then slot_body W U' st1 ps idx else slot_ready W U' st1 ps idx)"
proof (cases "pp_flags (slot st ps idx) AND PP_V = 0")
  case False
  then have w: "r = 0" "ref_slot ps idx st = Some st1" using a by (auto simp: fault_fill_def)
  then have s: "st1 = upd_pp ps idx (\<lambda>p. p\<lparr>pp_refs := pp_refs p + 1\<rparr>) st" "pp_refs (slot st ps idx) + 1 \<noteq> 0"
    by (auto simp: ref_slot_def split: if_splits)
  have sl: "slot st1 ps idx = (slot st ps idx)\<lparr>pp_refs := pp_refs (slot st ps idx) + 1\<rparr>" by (simp add: s(1) slot_upd_pp)
  have r1: "unat (pp_refs (slot st1 ps idx)) = Suc (unat (pp_refs (slot st ps idx)))" using s(2) unatSuc [of "pp_refs (slot st ps idx)"] by (simp add: sl add.commute)
  have e: "vmm st1 = vmm st" "ptes st1 = ptes st" "l1pt st1 = l1pt st" "kcore st1 = kcore st" "frames st1 = frames st" "dev st1 = dev st"
    "swapdev st1 = swapdev st" "keeps st st1" by (simp_all add: s(1) upd_pp_def upd_ps_def keeps_def)
  have so: "swap_off st1 ps idx = swap_off st ps idx" by (simp add: s(1) upd_pp_def upd_ps_def swap_off_def)
  have bk: "backing st1 ps idx = backing st ps idx" by (simp add: backing_def sl e so)
  have pt: "pte_at st1 = pte_at st" "tab_at st1 = tab_at st" by (simp_all add: pte_at_def tab_at_def vmm_eq [OF e(1)] e fun_eq_iff)
  have "slot_ready W U st1 ps idx"
    using b r1 False unfolding slot_ready_def slot_body_def mapped_ok_def page_owned_def clean_ok_def owner_def Let_def sl e bk pt vmm_eq [OF e(1)]
    by (simp add: e)
  moreover have "step_at W U U (ps, idx) st st1" unfolding s(1) by (rule step_at_upd_pp)
  moreover have "contents st1 ps idx = contents st ps idx" by (simp add: contents_def sl bk e(5))
  ultimately show ?thesis using k w(1) e(4,8) sl by - (rule exI [of _ F], rule exI [of _ U], simp)
next
  case nv: True
  obtain r0 where f: "fillslot ps idx st = Some (r0, st1)" "r0 \<noteq> 0 \<longrightarrow> r = 1" "r0 = 0 \<longrightarrow> r = 0"
    using a nv by (auto simp: fault_fill_def bind_eq_Some_conv split: if_splits)
  obtain F' U' where G: "kc_ok F' U' (kcore st1)" "step_at W U U' (ps, idx) st st1" "keeps st st1"
    "if r0 \<noteq> 0 then U' = U \<and> slot st1 ps idx = slot st ps idx \<and> same_owner U (ps, idx) st st1
     else \<exists>pg. pg \<notin> U \<and> U' = insert pg U \<and> same_owner U (ps, idx) st st1 \<and> owner st1 (ps, idx) pg \<and>
       frames st1 pg = backing st ps idx \<and>
       slot st1 ps idx = (slot st ps idx)\<lparr>pp_flags := (pp_flags (slot st ps idx) OR PP_V) AND NOT (PP_M OR PP_R), pp_pfn := pg, pp_refs := 1\<rparr>"
    using fill_step [OF k an nv f(1), of W] by blast
  have v: "vmm st1 = vmm st" "\<forall>ps. pinfo (psets st1 ps) = pinfo (psets st ps)" "swapdev st1 = swapdev st" using G(2) by (simp_all add: step_at_def)
  note e = vmm_eq [OF v(1)] pinfo_eq [OF v(2)]
  have kp: "ptes st1 = ptes st" "l1pt st1 = l1pt st" "dev st1 = dev st" using G(3) by (simp_all add: keeps_def)
  have pt: "pte_at st1 = pte_at st" "tab_at st1 = tab_at st" by (simp_all add: pte_at_def tab_at_def e kp fun_eq_iff)
  show ?thesis
  proof (cases "r0 = 0")
    case False
    then have g: "U' = U" "slot st1 ps idx = slot st ps idx" "same_owner U (ps, idx) st st1" using G(4) by simp_all
    have bk: "backing st1 ps idx = backing st ps idx" by (simp add: backing_def g(2) kp v(3) e)
    have no: "\<not> owner st (ps, idx) x \<or> bad_core (kcore st) x" if "x \<in> U" for x using b nv that by (auto simp: slot_body_def Let_def)
    have "slot_body W U st1 ps idx"
      using b g(3) nv unfolding slot_body_def mapped_ok_def same_owner_def Let_def g(2) e pt v by auto
    then show ?thesis using G g False f bk nv by - (rule exI [of _ F'], rule exI [of _ U'], simp add: contents_def)
  next
    case True
    then obtain pg where g: "pg \<notin> U" "U' = insert pg U" "same_owner U (ps, idx) st st1" "owner st1 (ps, idx) pg"
      "frames st1 pg = backing st ps idx"
      "slot st1 ps idx = (slot st ps idx)\<lparr>pp_flags := (pp_flags (slot st ps idx) OR PP_V) AND NOT (PP_M OR PP_R), pp_pfn := pg, pp_refs := 1\<rparr>"
      using G(4) by auto
    have bk: "backing st1 ps idx = backing st ps idx" by (simp add: backing_def g(6) kp v(3) e pp_bits)
    have al: "pp_atl (slot st ps idx) = []" using b nv by (simp add: slot_body_def Let_def)
    have mt: "{m \<in> maps W st ps idx. t_v (pte_at st m)} = {}" using b al by (simp add: slot_body_def mapped_ok_def Let_def)
    have own: "pg = x" if "x \<in> U'" "owner st1 (ps, idx) x" "\<not> bad_core (kcore st1) x" for x
    proof (rule ccontr)
      assume "pg \<noteq> x"
      then have "x \<in> U" using that(1) g(2) by simp
      then show False using b nv g(3) that(2,3) by (auto simp: slot_body_def same_owner_def Let_def)
    qed
    have "slot_ready W U' st1 ps idx"
      using b nv al mt own g(2,4,5) bk
      by (simp add: slot_ready_def slot_body_def g(6) e pt pp_test3 pp_bits page_owned_def clean_ok_def owner_def Let_def)
    moreover have "contents st1 ps idx = contents st ps idx" using nv g(5) by (simp add: contents_def g(6) pp_bits)
    ultimately show ?thesis using G True f by - (rule exI [of _ F'], rule exI [of _ U'], simp add: g(6))
  qed
qed

text \<open>The translation of the place is added.\<close>

lemma ready_mapped_ok:
  assumes f: "fixed_ok A W st" and k: "kc_ok F U (kcore st)" and p: "pt_ok st" and an: "ps \<noteq> 0"
    and m: "(pv, i) \<in> maps W st ps idx" and key: "vkey st (pv, i) = (vas_of st pv, va_page va)"
    and rd: "slot_ready W U st ps idx" and nv: "\<not> t_v (pte_at st (pv, i))"
    and a: "hat_addtrans pv va (pp_pfn (slot st ps idx)) (pv_prot (pviews (vmm st) pv)) (upd_pp ps idx (add_atl pv i) st) = Some st'"
  shows "\<exists>F' U'. kc_ok F' U' (kcore st') \<and> step_at W U U' (ps, idx) st st' \<and> pt_ok st' \<and> qios st' = qios st \<and>
    pp_lock (slot st' ps idx) = pp_lock (slot st ps idx) \<and> contents st' ps idx = contents st ps idx \<and> slot_body W U' st' ps idx \<and>
    t_v (pte_at st' (pv, i))"
proof -
  let ?m = "(pv, i)"
  let ?s1 = "upd_pp ps idx (add_atl pv i) st"
  have v1: "vmm ?s1 = vmm st" "kcore ?s1 = kcore st" "frames ?s1 = frames st" "qios ?s1 = qios st" "dev ?s1 = dev st" "swapdev ?s1 = swapdev st"
    "ptes ?s1 = ptes st" "l1pt ?s1 = l1pt st" by (simp_all add: upd_pp_def upd_ps_def)
  note e1 = vmm_eq [OF v1(1)]
  have so: "step_at W U U (ps, idx) st ?s1" by (rule step_at_upd_pp)
  have f1: "fixed_ok A W ?s1" using step_at_fixed(1) [OF so f] .
  have k1: "kc_ok F U (kcore ?s1)" "pt_ok ?s1" using k p by (simp_all add: v1 pt_ok_def)
  have m1: "?m \<in> maps W ?s1 ps idx" "vkey ?s1 ?m = (vas_of ?s1 pv, va_page va)" using m key by (simp_all add: e1 v1)
  obtain F' U' where H: "kc_ok F' U' (kcore st')" "U \<subseteq> U'" "pt_ok st'" "step_at W U U' (ps, idx) ?s1 st'" "same_owner U (ps, idx) ?s1 st'"
    "\<forall>x \<in> U' - U. \<not> owner st' (ps, idx) x" "psets st' = psets ?s1" "frames st' = frames ?s1" "qios st' = qios ?s1" "dev st' = dev ?s1"
    and pt: "\<forall>m' \<in> all_maps W ?s1. pte_at st' m' = (if m' = ?m
        then \<lparr>t_pfn = pp_pfn (slot st ps idx), t_v = True, t_w = (pv_prot (pviews (vmm st) pv) AND PROT_RO = 0),
              t_u = (pv_prot (pviews (vmm st) pv) AND PROT_KERN = 0), t_r = False, t_m = False\<rparr>
        else pte_at ?s1 m') \<and> (tab_at ?s1 m' \<noteq> 0 \<longrightarrow> tab_at st' m' \<noteq> 0)" and tm: "tab_at st' ?m \<noteq> 0"
    using hat_addtrans_step [OF f1 k1 m1 an a] by auto
  have sl: "slot st' ps idx = add_atl pv i (slot st ps idx)" by (simp add: H(7) slot_upd_pp)
  have st: "step_at W U U' (ps, idx) st st'" using step_at_trans [OF so H(4)] .
  then have v: "vmm st' = vmm st" "\<forall>ps. pinfo (psets st' ps) = pinfo (psets st ps)" "swapdev st' = swapdev st" by (simp_all add: step_at_def)
  note e = vmm_eq [OF v(1)] pinfo_eq [OF v(2)]
  have bk: "backing st' ps idx = backing st ps idx" by (simp add: backing_def sl add_atl_def e v H(10) v1)
  have ct: "contents st' ps idx = contents st ps idx" by (simp add: contents_def sl add_atl_def bk H(8) v1)
  have pto: "pte_at st' m' = pte_at st m' \<and> (tab_at st m' \<noteq> 0 \<longrightarrow> tab_at st' m' \<noteq> 0)" if "m' \<in> maps W st ps idx" "m' \<noteq> ?m" for m'
  proof -
    have "pte_at ?s1 m' = pte_at st m'" "tab_at ?s1 m' = tab_at st m'" by (simp_all add: pte_at_def tab_at_def e1 v1)
    moreover have "m' \<in> all_maps W ?s1" using that(1) by (auto simp: maps_def e1)
    ultimately show ?thesis using bspec [OF pt] that(2) by simp
  qed
  have ptm: "pte_at st' ?m = \<lparr>t_pfn = pp_pfn (slot st ps idx), t_v = True, t_w = (pv_prot (pviews (vmm st) pv) AND PROT_RO = 0),
              t_u = (pv_prot (pviews (vmm st) pv) AND PROT_KERN = 0), t_r = False, t_m = False\<rparr>"
    using bspec [OF pt, of ?m] m by (auto simp: maps_def e1)
  have ow: "owner st' (ps, idx) x = owner st (ps, idx) x \<and> bad_core (kcore st') x = bad_core (kcore st) x" if "x \<in> U" for x
    using H(5) that by (simp add: same_owner_def owner_def v1)
  let ?al = "pp_atl (slot st ps idx)"
  have al: "set ?al = {m \<in> maps W st ps idx. t_v (pte_at st m)}" "?m \<notin> set ?al" using rd nv by (simp_all add: slot_ready_def Let_def)
  have S: "set (?m # ?al) = {m \<in> maps W st ps idx. t_v (pte_at st' m)}"
  proof -
    have "t_v (pte_at st' m') = (m' = ?m \<or> m' \<in> set ?al)" if "m' \<in> maps W st ps idx" for m'
      using pto [OF that] ptm al that by (cases "m' = ?m") simp_all
    then show ?thesis using al(1) m by auto
  qed
  have P: "\<forall>m' \<in> set ?al. pte_at st' m' = pte_at st m' \<and> (tab_at st m' \<noteq> 0 \<longrightarrow> tab_at st' m' \<noteq> 0)"
  proof
    fix m' assume "m' \<in> set ?al"
    then have "m' \<in> maps W st ps idx" "m' \<noteq> ?m" using al by auto
    then show "pte_at st' m' = pte_at st m' \<and> (tab_at st m' \<noteq> 0 \<longrightarrow> tab_at st' m' \<noteq> 0)" by (rule pto)
  qed
  have R: "distinct ?al" "unat (pp_refs (slot st ps idx)) = Suc (length ?al)"
    "\<forall>m \<in> set ?al. t_pfn (pte_at st m) = pp_pfn (slot st ps idx) \<and> tab_at st m \<noteq> 0 \<and>
         t_w (pte_at st m) = (pv_prot (pviews (vmm st) (fst m)) AND PROT_RO = 0) \<and>
         t_u (pte_at st m) = (pv_prot (pviews (vmm st) (fst m)) AND PROT_KERN = 0)"
    "clean_ok st ps idx ?al (pp_flags (slot st ps idx))" using rd by (simp_all add: slot_ready_def Let_def)
  have mp: "mapped_ok W st' ps idx (?m # ?al)"
  proof -
    have "unat (pp_refs (slot st' ps idx)) = length (?m # ?al)" "distinct (?m # ?al)" using R(1,2) al(2) by (simp_all add: sl add_atl_def)
    moreover have "\<forall>x \<in> set (?m # ?al). t_pfn (pte_at st' x) = pp_pfn (slot st' ps idx) \<and> tab_at st' x \<noteq> 0 \<and>
         t_w (pte_at st' x) = (pv_prot (pviews (vmm st') (fst x)) AND PROT_RO = 0) \<and>
         t_u (pte_at st' x) = (pv_prot (pviews (vmm st') (fst x)) AND PROT_KERN = 0)"
      using R(3) P ptm tm by (simp add: sl add_atl_def v)
    ultimately show ?thesis using S unfolding mapped_ok_def e by blast
  qed
  have cl: "clean_ok st' ps idx (?m # ?al) (pp_flags (slot st ps idx))"
    using R(4) P ptm by (simp add: clean_ok_def bk sl add_atl_def H(8) v1)
  have po: "pp_pfn (slot st ps idx) \<in> U" "owner st (ps, idx) (pp_pfn (slot st ps idx))"
    using rd by (simp_all add: slot_ready_def page_owned_def owner_def Let_def)
  have "page_owned U' st' ps idx"
    using po H(2) ow [OF po(1)] by (auto simp: page_owned_def owner_def Let_def sl add_atl_def)
  moreover have "\<forall>x \<in> U'. owner st' (ps, idx) x \<longrightarrow> \<not> bad_core (kcore st') x \<longrightarrow> pp_pfn (slot st ps idx) = x"
  proof (intro ballI impI)
    fix x assume x: "x \<in> U'" "owner st' (ps, idx) x" "\<not> bad_core (kcore st') x"
    then have "x \<in> U" using H(6) by blast
    then show "pp_pfn (slot st ps idx) = x" using rd ow x by (simp add: slot_ready_def Let_def)
  qed
  moreover have "pp_flags (slot st ps idx) AND (PP_COW OR PP_BAD) = 0" "pp_flags (slot st ps idx) AND PP_V \<noteq> 0"
    using rd by (simp_all add: slot_ready_def Let_def)
  ultimately have "slot_body W U' st' ps idx"
    using mp cl by (simp add: slot_body_def Let_def sl add_atl_def)
  then show ?thesis using H(1,3,9) st ct sl ptm v1
    by - (rule exI [of _ F'], rule exI [of _ U'], simp add: add_atl_def)
qed

text \<open>The place that a fault of \<open>pv\<close> at \<open>va\<close> is about.\<close>

definition place :: "vm \<Rightarrow> addr \<Rightarrow> u32 \<Rightarrow> addr \<times> u32" where
  "place st pv va = (pv, btop (va - p_vaddr (pviews (vmm st) pv)))"

lemma place_ok:
  assumes f: "fixed_ok A W st" and p: "find_pview (vmm st) vas va = Some pv"
  shows "pv \<in> W \<and> vas_of st pv = vas \<and>
    place st pv va \<in> maps W st (p_set (pviews (vmm st) pv)) (btop (va - p_vaddr (pviews (vmm st) pv)) + p_off (pviews (vmm st) pv)) \<and>
    vkey st (place st pv va) = (vas, va_page va)"
proof -
  have pv: "pv \<in> set (v_views (vass (vmm st) vas))" "contains_va (pviews (vmm st) pv) va"
    using p by (auto simp: find_pview_def find_Some_iff dest: nth_mem)
  then have w: "pv \<in> W" "vas_of st pv = vas" using f by (auto simp: fixed_ok_def views_ok_def)
  have "p_vaddr (pviews (vmm st) pv) AND 4095 = 0" using f w(1) by (auto simp: fixed_ok_def views_ok_def)
  then have "vkey st (place st pv va) = (vas, va_page va)" using w(2) va_page_view by (simp add: vkey_def place_def Let_def)
  then show ?thesis using w btop_less [OF pv(2)] by (simp add: maps_def all_maps_def place_def)
qed

lemma fault_locked_ok:
  fixes pv va st
  defines "ps \<equiv> p_set (pviews (vmm st) pv)" and "idx \<equiv> btop (va - p_vaddr (pviews (vmm st) pv)) + p_off (pviews (vmm st) pv)"
  assumes f: "fixed_ok A W st" and k: "kc_ok F U (kcore st)" and p: "pt_ok st" and an: "anon st ps"
    and m: "place st pv va \<in> maps W st ps idx" and key: "vkey st (place st pv va) = (vas_of st pv, va_page va)"
    and b: "slot_body W U st ps idx" and nv: "\<not> t_v (pte_at st (place st pv va))"
    and a: "fault_locked pv va write st = Some (r, st')"
  shows "\<exists>F' U'. kc_ok F' U' (kcore st') \<and> step_at W U U' (ps, idx) st st' \<and> pt_ok st' \<and> qios st' = qios st \<and>
    pp_lock (slot st' ps idx) = pp_lock (slot st ps idx) \<and> contents st' ps idx = contents st ps idx \<and> slot_body W U' st' ps idx \<and>
    (r = 0 \<longrightarrow> t_v (pte_at st' (place st pv va)))"
proof -
  have fl: "pp_flags (slot st ps idx) AND PP_BAD = 0" using b by (simp add: slot_body_def Let_def pp_test3 pp_bits)
  obtain r1 wv st1 where ff: "fault_fill ps idx st = Some (r1, wv, st1)"
    using a fl unfolding fault_locked_def ps_def idx_def Let_def by (auto simp: bind_eq_Some_conv)
  obtain F1 U1 where G: "kc_ok F1 U1 (kcore st1)" "step_at W U U1 (ps, idx) st st1" "keeps st st1"
    "pp_lock (slot st1 ps idx) = pp_lock (slot st ps idx)" "contents st1 ps idx = contents st ps idx"
    "if r1 \<noteq> 0 then slot_body W U1 st1 ps idx else slot_ready W U1 st1 ps idx"
    using fault_fill_ok [OF k an b ff] by blast
  have v: "vmm st1 = vmm st" using G(2) by (simp add: step_at_def)
  have p1: "pt_ok st1" "qios st1 = qios st" using G(3) p by (simp_all add: pt_ok_def keeps_def)
  note e = vmm_eq [OF v]
  show ?thesis
  proof (cases "r1 = 0")
    case False
    then have "r = 1" "st' = st1" using a fl ff unfolding fault_locked_def ps_def idx_def Let_def by auto
    then show ?thesis using G p1 False by - (rule exI [of _ F1], rule exI [of _ U1], simp)
  next
    case True
    then have rd: "slot_ready W U1 st1 ps idx" using G(6) by simp
    then have cw: "pp_flags (slot st1 ps idx) AND PP_COW = 0" by (simp add: slot_ready_def Let_def pp_test3 pp_bits)
    let ?i = "btop (va - p_vaddr (pviews (vmm st) pv))"
    have cw3: "pp_flags (slot (upd_pp ps idx (add_atl pv ?i) st1) ps idx) AND PP_COW = 0"
      "pp_pfn (slot (upd_pp ps idx (add_atl pv ?i) st1) ps idx) = pp_pfn (slot st1 ps idx)" using cw by (simp_all add: slot_upd_pp add_atl_def)
    have ha: "hat_addtrans pv va (pp_pfn (slot st1 ps idx)) (pv_prot (pviews (vmm st1) pv)) (upd_pp ps idx (add_atl pv ?i) st1) = Some st'" "r = 0"
      using a True fl ff cw cw3 v unfolding fault_locked_def ps_def idx_def Let_def by (auto simp: bind_eq_Some_conv)
    have f1: "fixed_ok A W st1" using step_at_fixed(1) [OF G(2) f] .
    have m1: "(pv, ?i) \<in> maps W st1 ps idx" "vkey st1 (pv, ?i) = (vas_of st1 pv, va_page va)" using m key by (simp_all add: e v place_def)
    have nv1: "\<not> t_v (pte_at st1 (pv, ?i))" using nv G(3) by (simp add: pte_at_def e keeps_def place_def)
    have "ps \<noteq> 0" using an by (simp add: anon_def)
    from ready_mapped_ok [OF f1 G(1) p1(1) this m1 rd nv1 ha(1)]
    obtain F' U' where H: "kc_ok F' U' (kcore st')" "step_at W U1 U' (ps, idx) st1 st'" "pt_ok st'" "qios st' = qios st1"
      "pp_lock (slot st' ps idx) = pp_lock (slot st1 ps idx)" "contents st' ps idx = contents st1 ps idx" "slot_body W U' st' ps idx"
      "t_v (pte_at st' (pv, ?i))" by blast
    have "step_at W U U' (ps, idx) st st'" using step_at_trans [OF G(2) H(2)] .
    then show ?thesis using H G(4,5) p1 by - (rule exI [of _ F'], rule exI [of _ U'], simp add: place_def)
  qed
qed

text \<open>Locking and unlocking change only the lock.\<close>

lemma slot_body_lock:
  assumes u: "st' = st\<lparr>psets := psets st'\<rparr>" "step_at W U U (ps, idx) st st'" and l: "slot st' ps idx = (slot st ps idx)\<lparr>pp_lock := x\<rparr>"
    and b: "slot_body W U st ps idx"
  shows "slot_body W U st' ps idx \<and> contents st' ps idx = contents st ps idx \<and> kcore st' = kcore st \<and> ptes st' = ptes st \<and>
    l1pt st' = l1pt st \<and> qios st' = qios st \<and> frames st' = frames st"
proof -
  have e: "vmm st' = vmm st" "kcore st' = kcore st" "ptes st' = ptes st" "l1pt st' = l1pt st" "qios st' = qios st" "frames st' = frames st"
    "dev st' = dev st" "swapdev st' = swapdev st" by (subst u(1), simp)+
  have so: "swap_off st' ps idx = swap_off st ps idx" using pinfo_eq(7) [of st' st] u(2) by (simp add: step_at_def)
  have bk: "backing st' ps idx = backing st ps idx" by (simp add: backing_def l e so)
  have "slot_body W U st' ps idx"
    by (rule slot_body_cong [OF b e(1) same_owner_core [OF e(2)]]) (simp_all add: l e bk)
  then show ?thesis by (simp add: e contents_def l bk)
qed

lemma qio_ok_step: "step_at W U U' h st st' \<Longrightarrow> qios st' = qios st \<Longrightarrow> qio_ok A st' = qio_ok A st"
  using pinfo_eq(7,8) [of st' st] by (simp add: qio_ok_def step_at_def)

text \<open>A piece of work on one slot keeps the invariant and the contents.\<close>

lemma slot_work:
  assumes v: "vm_but A W {} F U st" and h: "(ps, idx) \<in> slots_of A st" and s: "step_at W U U' (ps, idx) st st'"
    and k: "kc_ok F' U' (kcore st')" "pt_ok st'" "qio_ok A st'" and ok: "slot_ok W U' st' ps idx" "contents st' ps idx = c"
    and o: "\<forall>x \<in> U'. owner st' (ps, idx) x \<longrightarrow> \<not> bad_core (kcore st') x \<longrightarrow>
       pp_flags (slot st' ps idx) AND PP_V \<noteq> 0 \<and> pp_pfn (slot st' ps idx) = x"
  shows "vm_ok A W st' \<and> (\<forall>(p, i) \<in> slots_of A st. contents st' p i = (if (p, i) = (ps, idx) then c else contents st p i))"
proof -
  have w: "vm_but A W {(ps, idx)} F U st" using vm_open [OF v h] by blast
  note S = step_at_vm [OF w h s k]
  have "vm_but A W {} F' U' st'" using vm_close [of A W ps idx F' U' st'] S ok(1) o by blast
  then show ?thesis using S ok(2) by (auto simp: vm_ok_def)
qed

lemma slot_body_ok:
  assumes "slot_body W U st ps idx" "\<not> in_flight st ps idx" "pp_lock (slot st ps idx) AND PP_LOCK = 0"
  shows "slot_ok W U st ps idx \<and> (\<forall>x \<in> U. owner st (ps, idx) x \<longrightarrow> \<not> bad_core (kcore st) x \<longrightarrow>
       pp_flags (slot st ps idx) AND PP_V \<noteq> 0 \<and> pp_pfn (slot st ps idx) = x)"
  using assms by (auto simp: slot_ok_def slot_body_def Let_def split: if_splits)

text \<open>Nothing that a program can see changes.\<close>

definition unseen :: "addr set \<Rightarrow> vm \<Rightarrow> vm \<Rightarrow> bool" where
  "unseen A st st' = (vmm st' = vmm st \<and> slots_of A st' = slots_of A st \<and> (\<forall>(p, i) \<in> slots_of A st. contents st' p i = contents st p i))"

lemma unseen_refl: "unseen A st st"
  by (auto simp: unseen_def)

lemma unseen_trans: "unseen A st1 st2 \<Longrightarrow> unseen A st2 st3 \<Longrightarrow> unseen A st1 st3"
  by (fastforce simp: unseen_def)

text \<open>The access traps.\<close>

definition traps :: "vm \<Rightarrow> addr \<Rightarrow> u32 \<Rightarrow> bool \<Rightarrow> bool \<Rightarrow> bool" where
  "traps st vas va write su =
     (let e = ptes st vas (va_page va) in \<not> (t_v e \<and> (su \<or> (write \<longrightarrow> t_w e) \<and> t_u e)))"

lemma vas_fault_ok:
  assumes v: "vm_but A W {} F U st" and t: "traps st vas va write su" and k: "kern \<longrightarrow> su"
    and a: "vas_fault vas va write kern st = Some (r, st')"
  shows "vm_ok A W st' \<and> unseen A st st' \<and>
    (r = 0 \<longrightarrow> (\<exists>pv. find_pview (vmm st') vas va = Some pv \<and> t_v (pte_at st' (place st' pv va))))"
proof (cases "find_pview (vmm st) vas va")
  case None
  then show ?thesis using a v unseen_refl by (auto simp: vas_fault_def vm_ok_def)
next
  case (Some pv)
  let ?p = "pviews (vmm st) pv"
  let ?ps = "p_set ?p"
  let ?idx = "btop (va - p_vaddr ?p) + p_off ?p"
  have f: "fixed_ok A W st" "pt_ok st" "qio_ok A st" "kc_ok F U (kcore st)" using v by (simp_all add: vm_but_def)
  note pl = place_ok [OF f(1) Some]
  show ?thesis
  proof (cases "write \<and> pv_prot ?p AND PROT_RO \<noteq> 0 \<or> \<not> kern \<and> pv_prot ?p AND PROT_KERN \<noteq> 0")
    case True
    then have "r = 1 \<and> st' = st" using a Some by (auto simp: vas_fault_def Let_def split: if_splits)
    then show ?thesis using v unseen_refl by (auto simp: vm_ok_def)
  next
    case False
    then obtain pp s1 s2 where s1: "find_pp ?ps ?idx st = Some pp" "lock_slot ?ps ?idx st = Some s1"
      "fault_locked pv va write s1 = Some (r, s2)" "unlock_slot ?ps ?idx s2 = Some st'"
      using a Some by (auto simp: vas_fault_def Let_def bind_eq_Some_conv)
    have h: "(?ps, ?idx) \<in> slots_of A st" using s1(1) f(1) pl by (auto simp: slots_of_def fixed_ok_def find_pp_def split: if_splits)
    note L = lock_slot_step [OF s1(2), of W U]
    have nf: "\<not> in_flight st ?ps ?idx" using vm_open [OF v h] L by (auto simp: slot_ok_def Let_def)
    note O = slot_body_open [OF v h nf]
    have B: "slot_body W U s1 ?ps ?idx \<and> contents s1 ?ps ?idx = contents st ?ps ?idx \<and> kcore s1 = kcore st \<and> ptes s1 = ptes st \<and>
      l1pt s1 = l1pt st \<and> qios s1 = qios st \<and> frames s1 = frames st"
      by (rule slot_body_lock [OF L [THEN conjunct2, THEN conjunct2, THEN conjunct1] L [THEN conjunct2, THEN conjunct2, THEN conjunct2]
          L [THEN conjunct2, THEN conjunct1] O [THEN conjunct2, THEN conjunct1]])
    have v1: "vmm s1 = vmm st" using L by (simp add: step_at_def)
    note e = vmm_eq [OF v1]
    have f1: "fixed_ok A W s1" using step_at_fixed(1) L f(1) by blast
    have k1: "kc_ok F U (kcore s1)" "pt_ok s1" using f B by (simp_all add: pt_ok_def)
    have an: "anon s1 ?ps" using f1 h by (auto simp: fixed_ok_def slots_of_def)
    have m1: "place s1 pv va \<in> maps W s1 ?ps ?idx" "vkey s1 (place s1 pv va) = (vas_of s1 pv, va_page va)"
      using pl by (simp_all add: e v1 place_def)
    have nv: "\<not> t_v (pte_at s1 (place s1 pv va))"
    proof
      assume tv: "t_v (pte_at s1 (place s1 pv va))"
      have eq: "pte_at s1 (place s1 pv va) = ptes st vas (va_page va)" using pl B by (simp add: pte_at_def m1 v1)
      have "place s1 pv va \<in> set (pp_atl (slot s1 ?ps ?idx))" using B m1 tv by (simp add: slot_body_def mapped_ok_def Let_def)
      then have "t_w (pte_at s1 (place s1 pv va)) = (pv_prot ?p AND PROT_RO = 0)" "t_u (pte_at s1 (place s1 pv va)) = (pv_prot ?p AND PROT_KERN = 0)"
        using B by (auto simp: slot_body_def mapped_ok_def Let_def v1 place_def)
      then show False using t k False tv by (auto simp: traps_def Let_def eq)
    qed
    obtain F' U' where G: "kc_ok F' U' (kcore s2)" "step_at W U U' (?ps, ?idx) s1 s2" "pt_ok s2" "qios s2 = qios s1"
      "pp_lock (slot s2 ?ps ?idx) = pp_lock (slot s1 ?ps ?idx)" "contents s2 ?ps ?idx = contents s1 ?ps ?idx" "slot_body W U' s2 ?ps ?idx"
      "r = 0 \<longrightarrow> t_v (pte_at s2 (place s1 pv va))"
      using fault_locked_ok [of A W s1 F U pv va "write" r s2] f1 k1 an m1 nv B s1(3) v1 by auto
    note N = unlock_slot_step [OF s1(4), of W U']
    have C: "slot_body W U' st' ?ps ?idx \<and> contents st' ?ps ?idx = contents s2 ?ps ?idx \<and> kcore st' = kcore s2 \<and> ptes st' = ptes s2 \<and>
      l1pt st' = l1pt s2 \<and> qios st' = qios s2 \<and> frames st' = frames s2"
      by (rule slot_body_lock [OF N [THEN conjunct2, THEN conjunct1] N [THEN conjunct2, THEN conjunct2] N [THEN conjunct1] G(7)])
    have s: "step_at W U U' (?ps, ?idx) st st'" 
      by (rule step_at_trans [OF step_at_trans [OF L [THEN conjunct2, THEN conjunct2, THEN conjunct2] G(2)] N [THEN conjunct2, THEN conjunct2]])
    then have vv: "vmm st' = vmm st" "vmm s2 = vmm st" using G(2) v1 by (simp_all add: step_at_def)
    have fin: "\<not> in_flight st' ?ps ?idx" "pp_lock (slot st' ?ps ?idx) AND PP_LOCK = 0"
      using nf C G(4) B N by (simp_all add: in_flight_def pp_bits)
    have ct: "contents st' ?ps ?idx = contents st ?ps ?idx" using B G(6) C by simp
    have "pt_ok st'" using C G(3) by (simp add: pt_ok_def)
    moreover have "qio_ok A st'" using qio_ok_step [OF s] f(3) C G(4) B by simp
    moreover have "kc_ok F' U' (kcore st')" using C G(1) by simp
    ultimately have "vm_ok A W st' \<and> (\<forall>(p, i) \<in> slots_of A st. contents st' p i = (if (p, i) = (?ps, ?idx) then contents st ?ps ?idx else contents st p i))"
      using slot_work [OF v h s] slot_body_ok [OF _ fin] C ct by blast
    moreover have "r = 0 \<longrightarrow> t_v (pte_at st' (place st' pv va))"
      using G(8) C by (simp add: pte_at_def vmm_eq(1) [OF vv(1)] vmm_eq(1) [OF vv(2)] place_def vv v1)
    ultimately show ?thesis using Some vv(1) step_at_fixed(2) [OF s f(1)] by (auto simp: unseen_def split: if_splits)
  qed
qed

section \<open>Taking translations away\<close>

definition memlocked :: "vm \<Rightarrow> addr \<times> u32 \<Rightarrow> bool" where
  "memlocked st m = (v_flags (vass (vmm st) (vas_of st (fst m))) AND VF_MEMLOCK \<noteq> 0)"

definition bits_of :: "pte \<Rightarrow> u8" where "bits_of t = (if t_r t then PP_R else 0) OR (if t_m t then PP_M else 0)"

definition drop_pte :: "pte \<Rightarrow> pte" where "drop_pte t = t\<lparr>t_v := False, t_r := False, t_m := False\<rparr>"

lemma upd_pte_twice: "upd_pte v p f (upd_pte v p g st) = upd_pte v p (f \<circ> g) st"
  by (simp add: upd_pte_def)

lemma hat_drop:
  assumes k: "vkey st (pv, i) = (v, p)" and t: "t_v (pte_at st (pv, i))" "tab_at st (pv, i) \<noteq> 0" and va: "va = p_vaddr (pviews (vmm st) pv) + ptob i"
  shows "hat_getbits pv va (hat_deletetrans pv va st) = (bits_of (pte_at st (pv, i)), upd_pte v p drop_pte st)"
proof -
  have d: "v = vas_of st pv" "p = va_page va" using k va by (auto simp: vkey_def Let_def)
  have l: "l1pt st v (L1IDX va) \<noteq> 0" "t_v (ptes st v p)" using t k d by (simp_all add: tab_at_def pte_at_def va_page_L1)
  have 1: "hat_deletetrans pv va st = upd_pte v p (\<lambda>t. t\<lparr>t_v := False\<rparr>) st"
    using l by (simp add: hat_deletetrans_def d)
  have 2: "vmm (upd_pte v p f st) = vmm st" "l1pt (upd_pte v p f st) = l1pt st" "ptes (upd_pte v p f st) v p = f (ptes st v p)" for f
    by (simp_all add: upd_pte_def)
  have 3: "upd_pte v p (\<lambda>t. t\<lparr>t_r := False, t_m := False\<rparr>) (upd_pte v p (\<lambda>t. t\<lparr>t_v := False\<rparr>) st) = upd_pte v p drop_pte st"
    by (simp add: upd_pte_twice comp_def drop_pte_def [abs_def])
  show ?thesis
    using l unfolding 1 hat_getbits_def Let_def 2 d(1) [symmetric] d(2) [symmetric] 3
    by (simp add: bits_of_def pte_at_def k)
qed

lemma unvirt_list_step:
  assumes f: "fixed_ok A W st" and p: "pt_ok st" and al: "distinct as" "\<forall>m \<in> set as. m \<in> maps W st ps idx \<and> t_v (pte_at st m) \<and> tab_at st m \<noteq> 0"
    and a: "unvirt_list ps idx as st = Some (r, fl, st')"
  shows "r = filter (memlocked st) as \<and> step_at W U U (ps, idx) st st' \<and> pt_ok st' \<and> kcore st' = kcore st \<and> frames st' = frames st \<and>
    dev st' = dev st \<and> qios st' = qios st \<and>
    (\<forall>m \<in> all_maps W st. pte_at st' m = (if m \<in> set as \<and> \<not> memlocked st m then drop_pte (pte_at st m) else pte_at st m)) \<and>
    (\<forall>m. tab_at st' m = tab_at st m) \<and> length as - length r \<le> unat (pp_refs (slot st ps idx)) \<and>
    (\<exists>n. slot st' ps idx = (slot st ps idx)\<lparr>pp_refs := n\<rparr> \<and> unat n = unat (pp_refs (slot st ps idx)) - (length as - length r)) \<and>
    (\<forall>n. bit fl n \<longrightarrow> n = 4 \<or> n = 5) \<and> (bit fl 4 \<longleftrightarrow> (\<exists>m \<in> set as. \<not> memlocked st m \<and> t_m (pte_at st m)))"
  using f p al a
proof (induction "as" arbitrary: st r fl)
  case Nil
  have "step_at W U U (ps, idx) st st" using step_at_psets [of "psets st" st "(ps, idx)" W U] by simp
  moreover have "\<exists>n. slot st ps idx = (slot st ps idx)\<lparr>pp_refs := n\<rparr> \<and> unat n = unat (pp_refs (slot st ps idx))"
    by (rule exI [of _ "pp_refs (slot st ps idx)"]) simp
  ultimately show ?case using Nil by auto
next
  case (Cons m as)
  obtain pv i where m: "m = (pv, i)" by (cases m)
  have am: "m \<in> maps W st ps idx" "t_v (pte_at st m)" "tab_at st m \<noteq> 0" "m \<notin> set as" "distinct as" using Cons.prems(3,4) by auto
  let ?va = "p_vaddr (pviews (vmm st) pv) + ptob i"
  show ?case
  proof (cases "memlocked st m")
    case True
    then have "v_flags (vass (vmm st) (vas_of st pv)) AND VF_MEMLOCK \<noteq> 0" by (simp add: memlocked_def m)
    then obtain r0 where r0: "unvirt_list ps idx as st = Some (r0, fl, st')" "r = m # r0"
      using Cons.prems(5) by (auto simp: m Let_def bind_eq_Some_conv)
    note I = Cons.IH [OF Cons.prems(1,2) am(5) _ r0(1)]
    have "length as - length r0 = length (m # as) - length r" using r0(2) by simp
    then show ?thesis using I Cons.prems(4) True r0(2) am(4) by auto
  next
    case False
    then have nm: "\<not> v_flags (vass (vmm st) (vas_of st pv)) AND VF_MEMLOCK \<noteq> 0" by (simp add: memlocked_def m)
    obtain v p where k: "vkey st (pv, i) = (v, p)" by fastforce
    let ?s1 = "upd_pte v p drop_pte st"
    have hd: "hat_getbits pv ?va (hat_deletetrans pv ?va st) = (bits_of (pte_at st m), ?s1)"
      using hat_drop [OF k] am(2,3) m by simp
    obtain s2 r0 fl0 where s2: "deref_slot ps idx ?s1 = Some s2" "unvirt_list ps idx as s2 = Some (r, fl0, st')" "fl = bits_of (pte_at st m) OR fl0"
      using Cons.prems(5) nm hd by (auto simp: m Let_def bind_eq_Some_conv)
    note B = upd_pte_step [OF Cons.prems(1) am(1) k [folded m] Cons.prems(2) am(3), of U drop_pte]
    have e1: "slot ?s1 ps idx = slot st ps idx" "kcore ?s1 = kcore st" "frames ?s1 = frames st" "dev ?s1 = dev st" "qios ?s1 = qios st" "vmm ?s1 = vmm st"
      by (simp_all add: upd_pte_def)
    have d2: "pp_refs (slot st ps idx) \<noteq> 0" "s2 = upd_pp ps idx (\<lambda>p. p\<lparr>pp_refs := pp_refs p - 1\<rparr>) ?s1"
      using s2(1) by (auto simp: deref_slot_def e1 split: if_splits)
    have S2: "step_at W U U (ps, idx) ?s1 s2" unfolding d2(2) by (rule step_at_upd_pp)
    have e2: "kcore s2 = kcore st" "frames s2 = frames st" "dev s2 = dev st" "qios s2 = qios st" "vmm s2 = vmm st" "ptes s2 = ptes ?s1" "l1pt s2 = l1pt ?s1"
      "slot s2 ps idx = (slot st ps idx)\<lparr>pp_refs := pp_refs (slot st ps idx) - 1\<rparr>"
      by (simp_all add: d2(2) slot_upd_pp e1) (simp_all add: upd_pp_def upd_ps_def upd_pte_def)
    have S: "step_at W U U (ps, idx) st s2" using step_at_trans B S2 by blast
    note v = vmm_eq [OF e2(5)] vmm_eq [OF e1(6)]
    have pt2: "pte_at s2 = pte_at ?s1" "tab_at s2 = tab_at ?s1" by (simp_all add: pte_at_def tab_at_def v e2 fun_eq_iff)
    have p2: "\<forall>m' \<in> all_maps W st. pte_at s2 m' = (if m' = m then drop_pte (pte_at st m) else pte_at st m')" "\<forall>m'. tab_at s2 m' = tab_at st m'"
      using B by (simp_all add: pt2)
    have pk: "pt_ok s2" using B by (simp add: pt_ok_def e2)
    have f2: "fixed_ok A W s2" using step_at_fixed(1) [OF S Cons.prems(1)] .
    have al2: "\<forall>m' \<in> set as. m' \<in> maps W s2 ps idx \<and> t_v (pte_at s2 m') \<and> tab_at s2 m' \<noteq> 0"
    proof
      fix m' assume m': "m' \<in> set as"
      then have "m' \<in> maps W st ps idx" "m' \<noteq> m" "t_v (pte_at st m')" "tab_at st m' \<noteq> 0" using Cons.prems(4) am(4) by auto
      moreover from this(1) have "m' \<in> all_maps W st" by (auto simp: maps_def)
      ultimately show "m' \<in> maps W s2 ps idx \<and> t_v (pte_at s2 m') \<and> tab_at s2 m' \<noteq> 0" using bspec [OF p2(1)] spec [OF p2(2), of m'] by (simp add: v)
    qed
    have ml: "memlocked s2 = memlocked st" by (simp add: memlocked_def fun_eq_iff e2)
    note I = Cons.IH [OF f2 pk am(5) al2 s2(2), unfolded ml v e2(1-4)]
    have rf: "r = filter (memlocked st) as" using I by blast
    have un: "unat (pp_refs (slot st ps idx)) = Suc (unat (pp_refs (slot s2 ps idx)))" using d2(1) by (simp add: e2(8) unat_minus_one) (metis Suc_pred unat_gt_0)
    have len: "length (m # as) - length r = Suc (length as - length r)" using rf by (simp add: Suc_diff_le)
    have c1: "step_at W U U (ps, idx) st st'" using I step_at_trans [OF S] by blast
    have c2: "\<forall>m' \<in> all_maps W st. pte_at st' m' = (if m' \<in> set (m # as) \<and> \<not> memlocked st m' then drop_pte (pte_at st m') else pte_at st m')"
    proof
      fix m' assume m': "m' \<in> all_maps W st"
      have "pte_at st' m' = (if m' \<in> set as \<and> \<not> memlocked st m' then drop_pte (pte_at s2 m') else pte_at s2 m')" using I m' by blast
      then show "pte_at st' m' = (if m' \<in> set (m # as) \<and> \<not> memlocked st m' then drop_pte (pte_at st m') else pte_at st m')"
        using p2(1) m' False am(4) by auto
    qed
    obtain n where n: "slot st' ps idx = (slot s2 ps idx)\<lparr>pp_refs := n\<rparr>" "unat n = unat (pp_refs (slot s2 ps idx)) - (length as - length r)"
      using I by blast
    have c3: "\<exists>n. slot st' ps idx = (slot st ps idx)\<lparr>pp_refs := n\<rparr> \<and> unat n = unat (pp_refs (slot st ps idx)) - (length (m # as) - length r)"
      using n un len e2(8) by (intro exI [of _ n]) simp
    have c4: "\<forall>n. bit fl n \<longrightarrow> n = 4 \<or> n = 5" using I by (auto simp: s2(3) bits_of_def bit_simps pp_bit)
    have tm: "(\<exists>m' \<in> set as. \<not> memlocked st m' \<and> t_m (pte_at s2 m')) = (\<exists>m' \<in> set as. \<not> memlocked st m' \<and> t_m (pte_at st m'))"
    proof (rule bex_cong [OF refl])
      fix m' assume "m' \<in> set as"
      then have "m' \<in> all_maps W st" "m' \<noteq> m" using Cons.prems(4) am(4) by (auto simp: maps_def)
      then show "(\<not> memlocked st m' \<and> t_m (pte_at s2 m')) = (\<not> memlocked st m' \<and> t_m (pte_at st m'))" using p2(1) by simp
    qed
    have "bit fl 4 = (t_m (pte_at st m) \<or> bit fl0 4)" by (simp add: s2(3) bits_of_def bit_simps pp_bit)
    then have c5: "bit fl 4 \<longleftrightarrow> (\<exists>m' \<in> set (m # as). \<not> memlocked st m' \<and> t_m (pte_at st m'))" using I tm False by auto
    have c6: "length (m # as) - length r \<le> unat (pp_refs (slot st ps idx))"
    proof -
      have "length as - length r \<le> unat (pp_refs (slot s2 ps idx))" using I by blast
      then show ?thesis unfolding len un by simp
    qed
    have c7: "r = filter (memlocked st) (m # as)" using rf False by simp
    have c8: "pt_ok st' \<and> kcore st' = kcore st \<and> frames st' = frames st \<and> dev st' = dev st \<and> qios st' = qios st \<and> (\<forall>m'. tab_at st' m' = tab_at st m')"
      using I p2(2) by simp
    show ?thesis using c1 c2 c3 c4 c5 c6 c7 c8 by blast
  qed
qed

lemma unvirt_flags_ok:
  assumes f: "fixed_ok A W st" and p: "pt_ok st" and b: "slot_body W U st ps idx" and a: "unvirt_flags ps idx ps idx st = Some st'"
  shows "step_at W U U (ps, idx) st st' \<and> slot_body W U st' ps idx \<and> pt_ok st' \<and> kcore st' = kcore st \<and> qios st' = qios st \<and>
    contents st' ps idx = contents st ps idx \<and> pp_lock (slot st' ps idx) = pp_lock (slot st ps idx) \<and>
    (pp_flags (slot st' ps idx) AND PP_V = 0 \<longleftrightarrow> pp_flags (slot st ps idx) AND PP_V = 0)"
proof -
  let ?al = "pp_atl (slot st ps idx)"
  have mp: "mapped_ok W st ps idx ?al" using b by (simp add: slot_body_def Let_def)
  obtain r fl s1 where u: "unvirt_list ps idx ?al st = Some (r, fl, s1)"
    and st': "st' = upd_pp ps idx (\<lambda>p. p\<lparr>pp_flags := pp_flags p OR fl\<rparr>) (upd_pp ps idx (\<lambda>p. p\<lparr>pp_atl := r\<rparr>) s1)"
    using a by (auto simp: unvirt_flags_def unvirt_def bind_eq_Some_conv)
  have al: "distinct ?al" "\<forall>m \<in> set ?al. m \<in> maps W st ps idx \<and> t_v (pte_at st m) \<and> tab_at st m \<noteq> 0"
    "set ?al = {m \<in> maps W st ps idx. t_v (pte_at st m)}"
    using mp by (auto simp: mapped_ok_def)
  note I = unvirt_list_step [OF f p al(1,2) u, of U]
  have r: "r = filter (memlocked st) ?al" using I by blast
  obtain n where n: "slot s1 ps idx = (slot st ps idx)\<lparr>pp_refs := n\<rparr>" "unat n = unat (pp_refs (slot st ps idx)) - (length ?al - length r)"
    using I by blast
  have k: "step_at W U U (ps, idx) st s1" "pt_ok s1" "kcore s1 = kcore st" "frames s1 = frames st" "dev s1 = dev st" "qios s1 = qios st"
    "\<forall>m. tab_at s1 m = tab_at st m" "\<forall>n. bit fl n \<longrightarrow> n = 4 \<or> n = 5" "bit fl 4 \<longleftrightarrow> (\<exists>m \<in> set ?al. \<not> memlocked st m \<and> t_m (pte_at st m))"
    using I by blast+
  have pte: "pte_at s1 m = (if m \<in> set ?al \<and> \<not> memlocked st m then drop_pte (pte_at st m) else pte_at st m)" if "m \<in> all_maps W st" for m
    using I that by blast
  have sl: "slot st' ps idx = (slot st ps idx)\<lparr>pp_refs := n, pp_atl := r, pp_flags := pp_flags (slot st ps idx) OR fl\<rparr>"
    by (simp add: st' slot_upd_pp n(1))
  have e1: "vmm st' = vmm s1" "kcore st' = kcore s1" "frames st' = frames s1" "dev st' = dev s1" "qios st' = qios s1" "ptes st' = ptes s1" "l1pt st' = l1pt s1"
    by (simp_all add: st' upd_pp_def upd_ps_def)
  have S: "step_at W U U (ps, idx) st st'" unfolding st' by (rule step_at_trans [OF step_at_trans [OF k(1) step_at_upd_pp] step_at_upd_pp])
  then have v: "vmm st' = vmm st" "\<forall>ps. pinfo (psets st' ps) = pinfo (psets st ps)" "swapdev st' = swapdev st" by (simp_all add: step_at_def)
  note e = vmm_eq [OF v(1)] pinfo_eq [OF v(2)] vmm_eq [OF e1(1)]
  have pt': "pte_at st' = pte_at s1" "tab_at st' = tab_at s1" by (simp_all add: pte_at_def tab_at_def vmm_eq [OF e1(1)] e1 fun_eq_iff)
  have bk: "backing st' ps idx = backing st ps idx"
    using k(8) by (auto simp: backing_def sl e v(3) e1(4) k(5) pp_bits)
  have ct: "contents st' ps idx = contents st ps idx"
    using k(8) by (auto simp: contents_def sl bk e1(3) k(4) pp_bits)
  have am: "m \<in> all_maps W st" if "m \<in> maps W st ps idx" for m using that by (auto simp: maps_def)
  have S1: "set r = {m \<in> maps W st ps idx. t_v (pte_at st' m)}"
  proof -
    have "t_v (pte_at st' m) = (m \<in> set ?al \<and> memlocked st m)" if "m \<in> maps W st ps idx" for m
      using pte [OF am [OF that]] al(3) that by (cases "memlocked st m") (auto simp: pt' drop_pte_def)
    then show ?thesis using al(2) by (auto simp: r)
  qed
  have P1: "\<forall>m \<in> set r. pte_at st' m = pte_at st m \<and> tab_at st' m = tab_at st m"
  proof
    fix m assume m: "m \<in> set r"
    then have "m \<in> all_maps W st" "memlocked st m" using al(2) am r by auto
    then show "pte_at st' m = pte_at st m \<and> tab_at st' m = tab_at st m" using pte spec [OF k(7), of m] by (simp add: pt')
  qed
  have len: "unat n = length r"
  proof -
    have "length r \<le> length ?al" unfolding r by (rule length_filter_le)
    then show ?thesis using n(2) mp by (simp add: mapped_ok_def)
  qed
  have mp': "mapped_ok W st' ps idx r"
  proof -
    have "unat (pp_refs (slot st' ps idx)) = length r" "distinct r" using len al(1) by (simp_all add: sl r)
    moreover have "\<forall>m \<in> set r. t_pfn (pte_at st' m) = pp_pfn (slot st' ps idx) \<and> tab_at st' m \<noteq> 0 \<and>
         t_w (pte_at st' m) = (pv_prot (pviews (vmm st') (fst m)) AND PROT_RO = 0) \<and>
         t_u (pte_at st' m) = (pv_prot (pviews (vmm st') (fst m)) AND PROT_KERN = 0)"
      using mp P1 unfolding mapped_ok_def v(1) sl r by auto
    ultimately show ?thesis using S1 unfolding mapped_ok_def e by blast
  qed
  have cl: "clean_ok st' ps idx r (pp_flags (slot st ps idx) OR fl)" if "clean_ok st ps idx ?al (pp_flags (slot st ps idx))"
  proof -
    have "frames st (pp_pfn (slot st ps idx)) = backing st ps idx"
      if h: "\<not> bit (pp_flags (slot st ps idx)) 4" "\<not> bit fl 4" "\<forall>m \<in> set r. \<not> t_m (pte_at st' m)"
    proof -
      have "\<forall>m \<in> set ?al. \<not> t_m (pte_at st m)" using h(2,3) k(9) P1 by (auto simp: r)
      then show ?thesis using \<open>clean_ok st ps idx ?al _\<close> h(1) by (simp add: clean_ok_def pp_bits)
    qed
    then show ?thesis by (auto simp: clean_ok_def sl bk e1(3) k(4) pp_bits)
  qed
  have po: "page_owned U st' ps idx = page_owned U st ps idx" "owner st' (ps, idx) = owner st (ps, idx)"
    by (simp_all add: page_owned_def owner_def sl e1(2) k(3) fun_eq_iff)
  have fv: "(pp_flags (slot st ps idx) OR fl) AND PP_V = 0 \<longleftrightarrow> pp_flags (slot st ps idx) AND PP_V = 0"
    "(pp_flags (slot st ps idx) OR fl) AND (PP_COW OR PP_BAD) = 0 \<longleftrightarrow> pp_flags (slot st ps idx) AND (PP_COW OR PP_BAD) = 0"
    using k(8) by (auto simp: pp_bits pp_test3)
  have "pp_flags (slot st ps idx) AND PP_V = 0 \<Longrightarrow> r = []" using b by (simp add: r slot_body_def Let_def)
  then have "slot_body W U st' ps idx"
    using b mp' cl unfolding slot_body_def Let_def po by (simp add: sl fv e1(2) k(3))
  moreover have "pt_ok st'" using k(2) by (simp add: pt_ok_def e1)
  ultimately show ?thesis using S k ct sl e1 fv(1) by simp
qed

text \<open>
  The outcome of a hand at a slot: kept, its page taken away as it is the same as on swap, or
  queued to be written.
\<close>

lemma steal_slot_ok:
  assumes f: "fixed_ok A W st" and k: "kc_ok F U (kcore st)" and p: "pt_ok st" and an: "anon st ps" and b: "slot_body W U st ps idx"
    and nf: "\<not> in_flight st ps idx" and V0: "pp_flags (slot st ps idx) AND PP_V \<noteq> 0" and a: "steal_slot steal trouble ps idx st = Some (held, st')"
  shows "\<exists>F' U'. kc_ok F' U' (kcore st') \<and> step_at W U U' (ps, idx) st st' \<and> pt_ok st' \<and> contents st' ps idx = contents st ps idx \<and>
    pp_lock (slot st' ps idx) = pp_lock (slot st ps idx) \<and>
    (if held then slot_body W U' st' ps idx \<and> qios st' = qios st
     else U' = U \<and> qios st' = qios st @ [\<lparr>q_port = swapdev st, q_pset = ps, q_idx = idx, q_off = swap_off st ps idx\<rparr>] \<and>
       mapped_ok W st' ps idx [] \<and> pp_atl (slot st' ps idx) = [] \<and> pp_flags (slot st' ps idx) AND (PP_COW OR PP_BAD) = 0 \<and>
       pp_flags (slot st' ps idx) AND PP_V \<noteq> 0 \<and> pp_flags (slot st' ps idx) AND PP_SWAPPED \<noteq> 0 \<and> page_owned U st' ps idx \<and>
       (\<forall>x \<in> U. owner st' (ps, idx) x \<longrightarrow> \<not> bad_core (kcore st') x \<longrightarrow> pp_pfn (slot st' ps idx) = x))"
proof -
  obtain s1 where s1: "unvirt_flags ps idx ps idx st = Some s1" using a by (auto simp: steal_slot_def bind_eq_Some_conv)
  note N = unvirt_flags_ok [OF f p b s1]
  let ?pp = "slot s1 ps idx"
  have b1: "slot_body W U s1 ps idx" using N by blast
  have ne: "pp_refs ?pp = 0 \<longleftrightarrow> pp_atl ?pp = []"
    using b1 by (auto simp: slot_body_def mapped_ok_def Let_def unat_eq_0)
  have v1: "vmm s1 = vmm st" "\<forall>ps. pinfo (psets s1 ps) = pinfo (psets st ps)" "swapdev s1 = swapdev st" using N by (simp_all add: step_at_def)
  note e1 = vmm_eq [OF v1(1)] pinfo_eq [OF v1(2)]
  have V: "pp_flags ?pp AND PP_V \<noteq> 0" using N V0 by simp
  consider (refs) "0 < pp_refs ?pp" "held" "st' = s1"
    | (drop) s2 where "pp_refs ?pp = 0" "pp_flags ?pp AND PP_M = 0" "drop_page (pp_pfn ?pp) s1 = Some s2" "held"
        "st' = upd_pp ps idx (\<lambda>p. p\<lparr>pp_flags := pp_flags p AND NOT (PP_V OR PP_R)\<rparr>) s2"
    | (queue) x where "pp_refs ?pp = 0" "writeslot ps idx True (upd_pp ps idx (\<lambda>p. p\<lparr>pp_flags := pp_flags p AND NOT PP_M\<rparr>) s1) = Some (x, st')" "\<not> held"
    | (keep) "held" "st' = upd_pp ps idx (\<lambda>p. p\<lparr>pp_flags := pp_flags p AND NOT PP_R\<rparr>) s1"
    using a s1 by (auto simp: steal_slot_def Let_def bind_eq_Some_conv word_gt_0 split: if_splits)
  then show ?thesis
  proof cases
    case refs
    then show ?thesis using N k by - (rule exI [of _ F], rule exI [of _ U], simp)
  next
    case keep
    have sl: "slot st' ps idx = ?pp\<lparr>pp_flags := pp_flags ?pp AND NOT PP_R\<rparr>" by (simp add: keep(2) slot_upd_pp)
    have e: "vmm st' = vmm s1" "kcore st' = kcore s1" "frames st' = frames s1" "dev st' = dev s1" "qios st' = qios s1" "ptes st' = ptes s1" "l1pt st' = l1pt s1"
      "swapdev st' = swapdev s1" "swap_off st' ps idx = swap_off s1 ps idx"
      by (simp_all add: keep(2) upd_pp_def upd_ps_def swap_off_def)
    have bk: "backing st' ps idx = backing s1 ps idx" by (simp add: backing_def sl e pp_bits)
    have pt: "pte_at st' = pte_at s1" "tab_at st' = tab_at s1" by (simp_all add: pte_at_def tab_at_def vmm_eq [OF e(1)] e fun_eq_iff)
    have S: "step_at W U U (ps, idx) s1 st'" unfolding keep(2) by (rule step_at_upd_pp)
    have "slot_body W U st' ps idx"
      using b1 unfolding slot_body_def mapped_ok_def clean_ok_def page_owned_def owner_def Let_def sl e pt bk vmm_eq [OF e(1)]
      by (simp add: e pp_bits pp_test3)
    moreover have "contents st' ps idx = contents s1 ps idx" by (simp add: contents_def sl bk e pp_bits)
    moreover have "step_at W U U (ps, idx) st st'" using N S step_at_trans by blast
    moreover have "pt_ok st'" using N by (simp add: pt_ok_def e)
    ultimately show ?thesis using N k keep(1) by - (rule exI [of _ F], rule exI [of _ U], simp add: e sl)
  next
    case drop
    let ?pg = "pp_pfn ?pp"
    have al: "pp_atl ?pp = []" using ne drop(1) by simp
    have po: "?pg \<in> U" "owner s1 (ps, idx) ?pg" "frames s1 ?pg = backing s1 ps idx"
      using b1 V drop(2) al by (simp_all add: slot_body_def page_owned_def owner_def clean_ok_def Let_def)
    have k1: "kc_ok F U (kcore s1)" using N k by simp
    note D = drop_page_step [OF k1 po(1,2) drop(3), of W]
    have e2: "vmm s2 = vmm s1" "psets s2 = psets s1" "frames s2 = frames s1" "dev s2 = dev s1" "qios s2 = qios s1" "ptes s2 = ptes s1" "l1pt s2 = l1pt s1"
      "swapdev s2 = swapdev s1"
      by (subst D [THEN conjunct1], simp)+
    have e: "vmm st' = vmm s1" "kcore st' = kcore s2" "frames st' = frames s1" "dev st' = dev s1" "qios st' = qios s1" "ptes st' = ptes s1" "l1pt st' = l1pt s1"
      "swapdev st' = swapdev s1" "swap_off st' ps idx = swap_off s1 ps idx"
      by (simp_all add: drop(5) upd_pp_def upd_ps_def swap_off_def e2)
    have sl: "slot st' ps idx = ?pp\<lparr>pp_flags := pp_flags ?pp AND NOT (PP_V OR PP_R)\<rparr>" by (simp add: drop(5) slot_upd_pp e2)
    have bk: "backing st' ps idx = backing s1 ps idx" by (simp add: backing_def sl e pp_bits)
    have pt: "pte_at st' = pte_at s1" "tab_at st' = tab_at s1" by (simp_all add: pte_at_def tab_at_def vmm_eq [OF e(1)] e fun_eq_iff)
    have no: "\<not> owner s2 (ps, idx) x \<or> bad_core (kcore s2) x" if "x \<in> U - {?pg}" for x
    proof -
      have "owner s2 (ps, idx) x = owner s1 (ps, idx) x" "bad_core (kcore s2) x = bad_core (kcore s1) x" using D that by blast+
      then show ?thesis using b1 that by (auto simp: slot_body_def Let_def)
    qed
    have mp: "mapped_ok W st' ps idx []"
      using b1 al unfolding slot_body_def mapped_ok_def Let_def sl e pt vmm_eq [OF e(1)] by simp
    have "slot_body W (U - {?pg}) st' ps idx"
      using b1 mp no al by (simp add: slot_body_def Let_def sl e pp_bits pp_test3 owner_def)
    moreover have "contents st' ps idx = contents s1 ps idx" using V po(3) by (simp add: contents_def sl bk pp_bits)
    moreover have "step_at W U (U - {?pg}) (ps, idx) st st'"
      unfolding drop(5)
      by (rule step_at_trans [OF step_at_trans [OF N [THEN conjunct1] D [THEN conjunct2, THEN conjunct2, THEN conjunct2]] step_at_upd_pp])
    moreover have "pt_ok st'" using N by (simp add: pt_ok_def e)
    ultimately show ?thesis using N D drop(4)
      by - (rule exI [of _ "insert ?pg F"], rule exI [of _ "U - {?pg}"], simp add: e sl)
  next
    case queue
    have al: "pp_atl ?pp = []" using ne queue(1) by simp
    have an1: "ps_ops (psets s1 ps) = PT_ZERO" using an by (simp add: anon_def e1)
    let ?s2 = "upd_pp ps idx (\<lambda>p. p\<lparr>pp_flags := pp_flags p AND NOT PP_M\<rparr>) s1"
    let ?q = "\<lparr>q_port = swapdev st, q_pset = ps, q_idx = idx, q_off = swap_off st ps idx\<rparr>"
    let ?s3 = "upd_pp ps idx (\<lambda>p. p\<lparr>pp_flags := (pp_flags p AND NOT PP_M) OR PP_SWAPPED\<rparr>) ?s2"
    have o2: "ps_ops (psets ?s2 ps) = PT_ZERO" "swap_off ?s2 ps idx = swap_off st ps idx" "swapdev ?s2 = swapdev st"
      using an1 e1 v1 by (simp_all add: upd_pp_def upd_ps_def swap_off_def)
    have q: "ptob (idx + ps_swapblk (psets ?s2 ps)) = swap_off st ps idx" using o2(2) by (simp add: swap_off_def)
    have st': "st' = ?s3\<lparr>qios := qios ?s3 @ [?q]\<rparr>"
      using queue(2) unfolding writeslot_def pset_writeslot_def Let_def o2 q by (auto split: if_splits)
    have q3: "qios ?s3 = qios st" using N by (simp add: upd_pp_def upd_ps_def)
    have sl: "slot st' ps idx = ?pp\<lparr>pp_flags := (pp_flags ?pp AND NOT PP_M) OR PP_SWAPPED\<rparr>"
      by (simp add: st' slot_upd_pp and.assoc)
    have e: "vmm st' = vmm s1" "kcore st' = kcore s1" "frames st' = frames s1" "dev st' = dev s1" "ptes st' = ptes s1" "l1pt st' = l1pt s1"
      by (simp_all add: st' upd_pp_def upd_ps_def)
    have pt: "pte_at st' = pte_at s1" "tab_at st' = tab_at s1" by (simp_all add: pte_at_def tab_at_def vmm_eq [OF e(1)] e fun_eq_iff)
    have S3: "step_at W U U (ps, idx) st ?s3"
      by (rule step_at_trans [OF step_at_trans [OF _ step_at_upd_pp] step_at_upd_pp]) (use N in blast)
    have "step_at W U U (ps, idx) ?s3 st'" unfolding st'
      by (auto simp: step_at_def in_flight_def pte_at_def tab_at_def vkey_def owner_def)
    then have S: "step_at W U U (ps, idx) st st'" using S3 step_at_trans by blast
    have mp: "mapped_ok W st' ps idx []"
      using b1 al unfolding slot_body_def mapped_ok_def Let_def sl e pt vmm_eq [OF e(1)] by simp
    have V': "pp_flags (slot st' ps idx) AND PP_V \<noteq> 0" "pp_flags (slot st' ps idx) AND (PP_COW OR PP_BAD) = 0"
      "pp_flags (slot st' ps idx) AND PP_SWAPPED \<noteq> 0"
      using V b1 by (simp_all add: sl slot_body_def Let_def pp_bits pp_test3) (simp add: PP_SWAPPED_def)
    have po: "page_owned U st' ps idx" using b1 V by (simp add: slot_body_def page_owned_def Let_def sl e)
    have ow: "\<forall>x \<in> U. owner st' (ps, idx) x \<longrightarrow> \<not> bad_core (kcore st') x \<longrightarrow> pp_pfn (slot st' ps idx) = x"
      using b1 by (simp add: slot_body_def owner_def Let_def sl e)
    have ct: "contents st' ps idx = contents st ps idx" using N V V' by (simp add: contents_def e) (simp add: sl)
    have "pt_ok st'" using N by (simp add: pt_ok_def e)
    moreover have "qios st' = qios st @ [?q]" by (simp add: st' q3)
    moreover have "kc_ok F U (kcore st')" using N k by (simp add: e)
    moreover have "pp_atl (slot st' ps idx) = []" "pp_lock (slot st' ps idx) = pp_lock (slot st ps idx)" using N al by (simp_all add: sl)
    ultimately show ?thesis using S mp V' po ow ct queue(3)
      by - (rule exI [of _ F], rule exI [of _ U], simp)
  qed
qed

text \<open>The locks of the core do not matter.\<close>

lemma core_locks:
  assumes c: "c_free c = c_free (kcore st)" "c_psidx c = c_psidx (kcore st)" "c_flags c = c_flags (kcore st)" "freelist c = freelist (kcore st)"
    "freemem c = freemem (kcore st)" "bootpgs c = bootpgs (kcore st)"
  shows "vm_but A W H F U (st\<lparr>kcore := c\<rparr>) = vm_but A W H F U st"
    "contents (st\<lparr>kcore := c\<rparr>) ps idx = contents st ps idx"
proof -
  let ?s = "st\<lparr>kcore := c\<rparr>"
  have b: "bad_core c = bad_core (kcore st)" by (simp add: bad_core_def fun_eq_iff c)
  have m: "slots_of A ?s = slots_of A st" "maps W ?s = maps W st" "all_maps W ?s = all_maps W st" "vkey ?s = vkey st" "swap_off ?s = swap_off st"
    "anon ?s = anon st" "in_flight ?s = in_flight st"
    by (simp_all add: slots_of_def maps_def all_maps_def vkey_def swap_off_def anon_def in_flight_def fun_eq_iff)
  have p: "pte_at ?s = pte_at st" "tab_at ?s = tab_at st" "backing ?s = backing st" "views_ok W ?s = views_ok W st"
    by (simp_all add: pte_at_def tab_at_def backing_def views_ok_def m fun_eq_iff)
  have k: "kc_ok F U c = kc_ok F U (kcore st)" by (simp add: kc_ok_def pages_def c)
  have o: "owner ?s = owner st" by (simp add: owner_def fun_eq_iff c)
  have "slot_ok W U ?s ps idx = slot_ok W U st ps idx" for ps idx
    by (simp add: slot_ok_def mapped_ok_def clean_ok_def page_owned_def m p c Let_def)
  then have so: "slot_ok W U ?s = slot_ok W U st" by (simp add: fun_eq_iff)
  show "vm_but A W H F U ?s = vm_but A W H F U st"
    unfolding vm_but_def fixed_ok_def back_ok_def so by (simp add: k m p o b c pt_ok_def pt_maps_def qio_ok_def)
  show "contents ?s ps idx = contents st ps idx" by (simp add: contents_def p)
qed

lemma unlock_core_ok: "vm_but A W H F U (unlock_core pfn st) = vm_but A W H F U st" "contents (unlock_core pfn st) ps idx = contents st ps idx"
  "slots_of A (unlock_core pfn st) = slots_of A st" "vmm (unlock_core pfn st) = vmm st"
  by (simp_all add: unlock_core_def core_locks unlock_page_def) (simp add: slots_of_def)

lemma hand_slot_ok:
  assumes v: "vm_but A W {} F U st" and h: "(ps, idx) \<in> slots_of A st" and l: "clock_slot ps idx st = (0, s1)"
    and V: "pp_flags (slot st ps idx) AND PP_V \<noteq> 0" and a: "hand_slot steal trouble ps idx s1 = Some st'"
  shows "vm_ok A W st' \<and> unseen A st st'"
proof -
  have f: "fixed_ok A W st" "pt_ok st" "qio_ok A st" "kc_ok F U (kcore st)" using v by (simp_all add: vm_but_def)
  note L = clock_slot_step [OF l, of W U]
  have nf: "\<not> in_flight st ps idx" using vm_open [OF v h] L by (auto simp: slot_ok_def Let_def)
  note O = slot_body_open [OF v h nf]
  have B: "slot_body W U s1 ps idx \<and> contents s1 ps idx = contents st ps idx \<and> kcore s1 = kcore st \<and> ptes s1 = ptes st \<and>
      l1pt s1 = l1pt st \<and> qios s1 = qios st \<and> frames s1 = frames st"
    by (rule slot_body_lock [OF L [THEN conjunct2, THEN conjunct2, THEN conjunct1] L [THEN conjunct2, THEN conjunct2, THEN conjunct2]
          L [THEN conjunct2, THEN conjunct1] O [THEN conjunct2, THEN conjunct1]])
  have f1: "fixed_ok A W s1" "slots_of A s1 = slots_of A st" using step_at_fixed L f(1) by blast+
  have k1: "kc_ok F U (kcore s1)" "pt_ok s1" "\<not> in_flight s1 ps idx" using f nf B by (simp_all add: pt_ok_def in_flight_def)
  have an: "anon s1 ps" using f1 h by (auto simp: fixed_ok_def slots_of_def)
  have V1: "pp_flags (slot s1 ps idx) AND PP_V \<noteq> 0" using V L by simp
  obtain held s2 where s2: "steal_slot steal trouble ps idx s1 = Some (held, s2)" "(if held then unlock_slot ps idx s2 else Some s2) = Some st'"
    using a an B unfolding hand_slot_def anon_def by (auto simp: bind_eq_Some_conv slot_body_def Let_def pp_test3 pp_bits)
  obtain F' U' where G: "kc_ok F' U' (kcore s2)" "step_at W U U' (ps, idx) s1 s2" "pt_ok s2" "contents s2 ps idx = contents s1 ps idx"
    "pp_lock (slot s2 ps idx) = pp_lock (slot s1 ps idx)"
    "if held then slot_body W U' s2 ps idx \<and> qios s2 = qios s1
     else U' = U \<and> qios s2 = qios s1 @ [\<lparr>q_port = swapdev s1, q_pset = ps, q_idx = idx, q_off = swap_off s1 ps idx\<rparr>] \<and>
       mapped_ok W s2 ps idx [] \<and> pp_atl (slot s2 ps idx) = [] \<and> pp_flags (slot s2 ps idx) AND (PP_COW OR PP_BAD) = 0 \<and>
       pp_flags (slot s2 ps idx) AND PP_V \<noteq> 0 \<and> pp_flags (slot s2 ps idx) AND PP_SWAPPED \<noteq> 0 \<and> page_owned U s2 ps idx \<and>
       (\<forall>x \<in> U. owner s2 (ps, idx) x \<longrightarrow> \<not> bad_core (kcore s2) x \<longrightarrow> pp_pfn (slot s2 ps idx) = x)"
    using steal_slot_ok [OF f1(1) k1(1,2) an B [THEN conjunct1] k1(3) V1 s2(1)] by blast
  have S2: "step_at W U U' (ps, idx) st s2" by (rule step_at_trans [OF L [THEN conjunct2, THEN conjunct2, THEN conjunct2] G(2)])
  have lk: "pp_lock (slot s2 ps idx) AND PP_LOCK \<noteq> 0" using L G(5) by (simp add: pp_bits) (simp add: PP_LOCK_def)
  show ?thesis
  proof (cases held)
    case True
    then have u: "unlock_slot ps idx s2 = Some st'" and b2: "slot_body W U' s2 ps idx" "qios s2 = qios s1" using s2(2) G(6) by simp_all
    note N = unlock_slot_step [OF u, of W U']
    have C: "slot_body W U' st' ps idx \<and> contents st' ps idx = contents s2 ps idx \<and> kcore st' = kcore s2 \<and> ptes st' = ptes s2 \<and>
      l1pt st' = l1pt s2 \<and> qios st' = qios s2 \<and> frames st' = frames s2"
      by (rule slot_body_lock [OF N [THEN conjunct2, THEN conjunct1] N [THEN conjunct2, THEN conjunct2] N [THEN conjunct1] b2(1)])
    have s: "step_at W U U' (ps, idx) st st'" by (rule step_at_trans [OF S2 N [THEN conjunct2, THEN conjunct2]])
    have fin: "\<not> in_flight st' ps idx" "pp_lock (slot st' ps idx) AND PP_LOCK = 0"
      using nf C b2(2) B N by (simp_all add: in_flight_def pp_bits)
    have ct: "contents st' ps idx = contents st ps idx" using B G(4) C by simp
    have "pt_ok st'" using C G(3) by (simp add: pt_ok_def)
    moreover have "qio_ok A st'" using qio_ok_step [OF s] f(3) C b2(2) B by simp
    moreover have "kc_ok F' U' (kcore st')" using C G(1) by simp
    ultimately have "vm_ok A W st' \<and> (\<forall>(p, i) \<in> slots_of A st. contents st' p i = (if (p, i) = (ps, idx) then contents st ps idx else contents st p i))"
      using slot_work [OF v h s] slot_body_ok [OF _ fin] C ct by blast
    then show ?thesis using step_at_fixed(2) [OF s f(1)] s by (auto simp: unseen_def step_at_def split: if_splits)
  next
    case False
    let ?q = "\<lparr>q_port = swapdev s1, q_pset = ps, q_idx = idx, q_off = swap_off s1 ps idx\<rparr>"
    have st': "st' = s2" and U: "U' = U" and q2: "qios s2 = qios s1 @ [?q]" and b2: "mapped_ok W s2 ps idx []" "pp_atl (slot s2 ps idx) = []"
        "pp_flags (slot s2 ps idx) AND (PP_COW OR PP_BAD) = 0" "pp_flags (slot s2 ps idx) AND PP_V \<noteq> 0"
        "pp_flags (slot s2 ps idx) AND PP_SWAPPED \<noteq> 0" "page_owned U s2 ps idx"
        "\<forall>x \<in> U. owner s2 (ps, idx) x \<longrightarrow> \<not> bad_core (kcore s2) x \<longrightarrow> pp_pfn (slot s2 ps idx) = x" using s2(2) False G(6) by simp_all
    have v2: "swapdev s2 = swapdev st" "swapdev s1 = swapdev st" "\<forall>ps. pinfo (psets s2 ps) = pinfo (psets st ps)" "\<forall>ps. pinfo (psets s1 ps) = pinfo (psets st ps)"
      using S2 L by (simp_all add: step_at_def)
    have fl: "in_flight s2 ps idx" by (simp add: in_flight_def q2)
    have ok: "slot_ok W U s2 ps idx" using b2 lk fl by (simp add: slot_ok_def Let_def)
    have "qio_ok A s2"
      using f(3) h nf B unfolding qio_ok_def q2 pinfo_eq(7,8) [OF v2(3)] pinfo_eq(7) [OF v2(4)] v2(1,2) in_flight_def by auto
    then have "vm_ok A W s2 \<and> (\<forall>(p, i) \<in> slots_of A st. contents s2 p i = (if (p, i) = (ps, idx) then contents st ps idx else contents st p i))"
      using slot_work [OF v h S2 [unfolded U] G(1) [unfolded U] G(3) _ ok, of "contents st ps idx"] b2(4,7) G(4) B by simp
    then show ?thesis using st' step_at_fixed(2) [OF S2 f(1)] S2 by (auto simp: unseen_def step_at_def split: if_splits)
  qed
qed

lemma ucast_u16_u32: "unat (x :: u32) < 65536 \<Longrightarrow> ucast (ucast x :: u16) = x"
  by (simp add: word_unat_eq_iff unat_ucast_u16 unsigned_ucast_eq take_bit_eq_mod unat_mod_distrib)

lemma do_hand_ok:
  assumes v: "vm_but A W {} F U st" and a: "do_hand steal trouble pfn st = Some st'"
  shows "vm_ok A W st' \<and> unseen A st st'"
proof -
  have self: "vm_ok A W st \<and> unseen A st st" using v unseen_refl by (auto simp: vm_ok_def)
  show ?thesis
  proof (cases "c_flags (kcore st) pfn AND C_ALLOC = 0 \<or> fst (clock_page pfn (kcore st)) \<noteq> 0")
    case True
    then have "st' = st" using a by (auto simp: do_hand_def split: if_splits prod.splits)
    then show ?thesis using self by simp
  next
    case False
    define c where "c = lock_page pfn (kcore st)"
    define s1 where "s1 = st\<lparr>kcore := c\<rparr>"
    have cl: "clock_page pfn (kcore st) = (0, c)" using False by (auto simp: clock_page_def c_def split: if_splits)
    have v1: "vm_but A W {} F U s1" "\<And>p i. contents s1 p i = contents st p i" "slots_of A s1 = slots_of A st"
      using v unfolding s1_def c_def by (simp_all add: core_locks lock_page_def) (simp add: slots_of_def)
    have al: "c_flags (kcore s1) pfn AND C_ALLOC \<noteq> 0" using False by (simp add: s1_def c_def lock_page_def)
    let ?ps = "c_free c pfn" and ?idx = "ucast (c_psidx c pfn) :: u32"
    have e1: "vmm s1 = vmm st" by (simp add: s1_def)
    have un: "vm_ok A W (unlock_core pfn s1) \<and> unseen A st (unlock_core pfn s1)"
    proof -
      have "vm_but A W {} F U (unlock_core pfn s1)" using v1(1) by (simp add: unlock_core_ok)
      then show ?thesis using v1(2,3) e1 by (auto simp: vm_ok_def unseen_def unlock_core_ok)
    qed
    show ?thesis
    proof (cases "(bad_core c pfn \<or> ?ps = 0) \<or> ps_refs (vmm s1) ?ps = 0")
      case True
      then have "st' = unlock_core pfn s1" using a cl False unfolding do_hand_def s1_def Let_def by (auto split: if_splits)
      then show ?thesis using un by simp
    next
      case ok: False
      obtain r s2 where s2: "clock_slot ?ps ?idx s1 = (r, s2)" by fastforce
      have st': "(if r \<noteq> 0 then Some (unlock_core pfn s2) else map_option (unlock_core pfn) (hand_slot steal trouble ?ps ?idx s2)) = Some st'"
        using a cl False ok s2 unfolding do_hand_def s1_def Let_def by (auto simp: bind_eq_Some_conv)
      show ?thesis
      proof (cases "r = 0")
        case False
        then have "s2 = s1" using s2 by (auto simp: clock_slot_def Let_def split: if_splits)
        then show ?thesis using st' False un by simp
      next
        case True
        then obtain s3 where s3: "hand_slot steal trouble ?ps ?idx s2 = Some s3" "st' = unlock_core pfn s3" using st' by auto
        have "pfn \<in> U" using al v1(1) by (auto simp: vm_but_def kc_ok_def)
        moreover have "c_free (kcore s1) pfn \<noteq> 0" "\<not> bad_core (kcore s1) pfn" using ok by (simp_all add: s1_def)
        ultimately obtain ps0 idx0 where g: "(ps0, idx0) \<in> slots_of A s1" "owner s1 (ps0, idx0) pfn" "pp_flags (slot s1 ps0 idx0) AND PP_V \<noteq> 0"
          using v1(1) unfolding vm_but_def back_ok_def by fastforce
        have "fixed_ok A W s1" using v1(1) by (simp add: vm_but_def)
        then have i: "unat idx0 < 65536" using slot_index g(1) by blast
        have eq: "?ps = ps0" "?idx = idx0" using g(2) ucast_u16_u32 [OF i] by (simp_all add: owner_def s1_def)
        have "vm_ok A W s3 \<and> unseen A s1 s3"
          by (rule hand_slot_ok [OF v1(1) g(1) _ g(3)]) (use s2 s3 True eq in simp_all)
        then show ?thesis using v1(2,3) e1 s3(2) by (auto simp: vm_ok_def unseen_def unlock_core_ok)
      qed
    qed
  qed
qed

section \<open>The end of a transfer\<close>

lemma io_done_ok:
  assumes v: "vm_but A W {} F U st" and d: "\<not> dev_fails st (q_port (hd (qios st))) (q_off (hd (qios st)))" and a: "io_done st = Some st'"
  shows "vm_ok A W st' \<and> unseen A st st'"
proof -
  have f: "fixed_ok A W st" "pt_ok st" "qio_ok A st" "kc_ok F U (kcore st)" using v by (simp_all add: vm_but_def)
  obtain q qs where q: "qios st = q # qs" using a by (auto simp: io_done_def split: list.splits)
  obtain ps idx where pi: "q_pset q = ps" "q_idx q = idx" by blast
  have h: "(ps, idx) \<in> slots_of A st" "q_port q = swapdev st" "q_off q = swap_off st ps idx"
    using f(3) q pi by (auto simp: qio_ok_def)
  have "(q_pset q, q_idx q) \<notin> (\<lambda>q. (q_pset q, q_idx q)) ` set qs" using f(3) q by (simp add: qio_ok_def)
  then have nq: "\<forall>q' \<in> set qs. (q_pset q', q_idx q') \<noteq> (ps, idx)" by (auto simp: image_iff pi)
  note O = vm_open [OF v h(1)]
  have fl: "in_flight st ps idx" using q pi by (auto simp: in_flight_def)
  let ?pp = "slot st ps idx"
  have ok: "mapped_ok W st ps idx []" "pp_atl ?pp = []" "pp_lock ?pp AND PP_LOCK \<noteq> 0" "pp_flags ?pp AND PP_V \<noteq> 0" "pp_flags ?pp AND PP_SWAPPED \<noteq> 0"
    "pp_flags ?pp AND (PP_COW OR PP_BAD) = 0" "page_owned U st ps idx"
    using O fl by (auto simp: slot_ok_def Let_def split: if_splits)
  let ?s0 = "st\<lparr>qios := qs\<rparr>"
  let ?s1 = "?s0\<lparr>dev := (dev ?s0)(swapdev st := (dev ?s0 (swapdev st))(swap_off st ps idx := frames st (pp_pfn ?pp)))\<rparr>"
  let ?s2 = "upd_pp ps idx (\<lambda>p. p\<lparr>pp_flags := pp_flags p AND NOT (PP_R OR PP_M)\<rparr>) ?s1"
  define s2 where "s2 = ?s2"
  have nz: "swapdev st \<noteq> 0" using f(1) by (simp add: fixed_ok_def)
  have st': "unlock_slot ps idx s2 = Some st'"
    using a nz d unfolding s2_def by (simp add: io_done_def q iodone_unlock_def pageio_def h(2,3) pi del: bit.de_Morgan_disj)
  note N = unlock_slot_step [OF st', of W U]
  have S0: "step_at W U U (ps, idx) st ?s0"
    using q pi by (auto simp: step_at_def in_flight_def pte_at_def tab_at_def vkey_def owner_def)
  have "swap_off ?s0 ps idx = swap_off st ps idx" by (simp add: swap_off_def)
  then have S1: "step_at W U U (ps, idx) ?s0 ?s1" using step_at_dev [of W U ps idx ?s0] by simp
  have s: "step_at W U U (ps, idx) st st'"
  proof -
    have "step_at W U U (ps, idx) st s2" unfolding s2_def by (rule step_at_trans [OF step_at_trans [OF S0 S1] step_at_upd_pp])
    then show ?thesis by (rule step_at_trans [OF _ N [THEN conjunct2, THEN conjunct2]])
  qed
  have e2: "vmm s2 = vmm st" "kcore s2 = kcore st" "frames s2 = frames st" "ptes s2 = ptes st" "l1pt s2 = l1pt st" "qios s2 = qs"
    "swapdev s2 = swapdev st" "dev s2 (swapdev st) (swap_off st ps idx) = frames st (pp_pfn ?pp)" "swap_off s2 ps idx = swap_off st ps idx"
    "slot s2 ps idx = ?pp\<lparr>pp_flags := pp_flags ?pp AND NOT (PP_R OR PP_M)\<rparr>"
    unfolding s2_def by (simp_all add: slot_upd_pp) (simp_all add: upd_pp_def upd_ps_def swap_off_def)
  have bk: "frames s2 (pp_pfn (slot s2 ps idx)) = backing s2 ps idx"
    using ok(5) by (simp add: backing_def e2 pp_bits)
  have pt: "pte_at s2 = pte_at st" "tab_at s2 = tab_at st" by (simp_all add: pte_at_def tab_at_def vmm_eq [OF e2(1)] e2 fun_eq_iff)
  have "mapped_ok W s2 ps idx []"
    using ok(1) unfolding mapped_ok_def e2(1) pt vmm_eq [OF e2(1)] by (simp add: e2)
  then have b2: "slot_body W U s2 ps idx"
    using ok O bk by (simp add: slot_body_def clean_ok_def Let_def page_owned_def owner_def e2 pp_bits pp_test3)
  have C: "slot_body W U st' ps idx \<and> contents st' ps idx = contents s2 ps idx \<and> kcore st' = kcore s2 \<and> ptes st' = ptes s2 \<and>
      l1pt st' = l1pt s2 \<and> qios st' = qios s2 \<and> frames st' = frames s2"
    by (rule slot_body_lock [OF N [THEN conjunct2, THEN conjunct1] N [THEN conjunct2, THEN conjunct2] N [THEN conjunct1] b2])
  have fin: "\<not> in_flight st' ps idx" "pp_lock (slot st' ps idx) AND PP_LOCK = 0"
    using C nq N by (auto simp: in_flight_def e2(6) pp_bits)
  have ct: "contents st' ps idx = contents st ps idx" using C ok(4) by (simp add: contents_def e2 pp_bits)
  have k: "kc_ok F U (kcore st')" "pt_ok st'" using C f by (simp_all add: e2 pt_ok_def)
  have v': "swapdev st' = swapdev st" "\<forall>ps. pinfo (psets st' ps) = pinfo (psets st ps)" using s by (simp_all add: step_at_def)
  have "qio_ok A st'"
    using f(3) C by (simp add: qio_ok_def pinfo_eq(7,8) [OF v'(2)] v'(1) e2(6) q)
  then have "vm_ok A W st' \<and> (\<forall>(p, i) \<in> slots_of A st. contents st' p i = (if (p, i) = (ps, idx) then contents st ps idx else contents st p i))"
    using slot_work [OF v h(1) s k] slot_body_ok [OF _ fin] C ct by blast
  then show ?thesis using step_at_fixed(2) [OF s f(1)] s by (auto simp: unseen_def step_at_def split: if_splits)
qed

end
