(* ===== verification/Virtual_Memory.thy ===== *)
theory Virtual_Memory
  imports Paging
begin

text \<open>
  What a program sees.  An access of the processor either goes through the translation or traps,
  and then runs \<open>vas_fault\<close>; the page-out daemon and the ends of transfers come in between.
  The abstract memory has one page for every slot of a set.
\<close>

section \<open>Accesses\<close>

text \<open>
  An access to an address of a program, by the program itself or, with \<open>su\<close>, by \<open>copyin\<close> and
  \<open>copyout\<close> in kernel mode; both end at the limit of the user's segments.  \<open>kern\<close> is \<open>T_KERN\<close> of
  the thread, which no code sets.
\<close>

definition access :: "bool \<Rightarrow> bool \<Rightarrow> bool \<Rightarrow> addr \<Rightarrow> u32 \<Rightarrow> vm \<Rightarrow> (bool \<times> vm) option" where
  "access wr su kern vas va st =
     (if 0x80000000 \<le> va then Some (False, st)
      else if \<not> traps st vas va wr su then Some (True, st)
      else do {
        (r, st1) \<leftarrow> vas_fault vas va wr kern st;
        if r \<noteq> 0 then Some (False, st1)
        else if traps st1 vas va wr su then None
        else Some (True, st1)
      })"

definition touch :: "bool \<Rightarrow> addr \<Rightarrow> u32 \<Rightarrow> vm \<Rightarrow> vm" where
  "touch wr vas va st = upd_pte vas (va_page va) (\<lambda>t. t\<lparr>t_r := True, t_m := t_m t \<or> wr\<rparr>) st"

definition pfn_at :: "addr \<Rightarrow> u32 \<Rightarrow> vm \<Rightarrow> nat" where
  "pfn_at vas va st = t_pfn (ptes st vas (va_page va))"

definition byte_off :: "u32 \<Rightarrow> nat" where "byte_off va = unat (va AND 4095)"

definition cpu_load :: "addr \<Rightarrow> u32 \<Rightarrow> vm \<Rightarrow> u8 \<times> vm" where
  "cpu_load vas va st = (frames st (pfn_at vas va st) (byte_off va), touch False vas va st)"

definition cpu_store :: "addr \<Rightarrow> u32 \<Rightarrow> u8 \<Rightarrow> vm \<Rightarrow> vm" where
  "cpu_store vas va b st =
     (let pg = pfn_at vas va st in
      touch True vas va (st\<lparr>frames := (frames st)(pg := (frames st pg)(byte_off va := b))\<rparr>))"

section \<open>Where an address leads\<close>

definition slot_at :: "vmem \<Rightarrow> addr \<Rightarrow> u32 \<Rightarrow> (addr \<times> u32) option" where
  "slot_at V vas va =
     map_option (\<lambda>pv. (p_set (pviews V pv), btop (va - p_vaddr (pviews V pv)) + p_off (pviews V pv))) (find_pview V vas va)"

definition allowed :: "vmem \<Rightarrow> bool \<Rightarrow> bool \<Rightarrow> addr \<Rightarrow> u32 \<Rightarrow> bool" where
  "allowed V wr kern vas va =
     (case find_pview V vas va of
        None \<Rightarrow> False
      | Some pv \<Rightarrow> (wr \<longrightarrow> pv_prot (pviews V pv) AND PROT_RO = 0) \<and> (kern \<or> pv_prot (pviews V pv) AND PROT_KERN = 0))"

lemma low_half: "va < 0x80000000 \<Longrightarrow> \<not> bit (va :: u32) 31"
proof -
  assume "va < 0x80000000"
  then have "unat va div 2 ^ 31 = 0" by (simp add: word_less_nat_alt)
  then have "\<not> bit (unat va) 31" by (simp add: bit_iff_odd)
  then show "\<not> bit va 31" by (simp add: bit_unsigned_iff)
qed

lemma bit_va_page: "bit (va_page va) n \<longleftrightarrow> n < 20 \<and> (bit va (n + 12) \<or> n = 19)"
proof -
  have w: "(0x80000000 :: u32) = push_bit 31 1" by simp
  have p: "bit (push_bit k 1 :: u32) m \<longleftrightarrow> m = k" if "k < 32" for k m using that by (auto simp: bit_simps)
  have m: "bit (push_bit 31 1 :: u32) m \<longleftrightarrow> m = 31" for m by (rule p) simp
  have "bit (va_page va) n \<longleftrightarrow> bit va (n + 12) \<or> n + 12 = 31"
    by (simp only: va_page_def user_va_def w bit_drop_bit_eq bit_or_iff m comp_apply add.commute)
  then show ?thesis using bit_imp_le_length [of va "n + 12"] by auto
qed

lemma user_pages:
  assumes "va < 0x80000000" "vb < 0x80000000" "va_page va = va_page vb"
  shows "unat va div 4096 = unat vb div 4096"
proof -
  have "bit va (n + 12) = bit vb (n + 12)" for n
  proof (cases "n < 19")
    case True
    then show ?thesis using arg_cong [OF assms(3), of "\<lambda>x. bit x n"] by (simp add: bit_va_page)
  next
    case False
    then have "n = 19 \<or> 32 \<le> n + 12" by auto
    then show ?thesis using low_half [OF assms(1)] low_half [OF assms(2)] by (auto dest: bit_imp_le_length)
  qed
  then have "drop_bit 12 va = drop_bit 12 vb" by (intro bit_word_eqI) (simp add: bit_drop_bit_eq add.commute)
  then have "unat (drop_bit 12 va) = unat (drop_bit 12 vb)" by simp
  then show ?thesis by (simp add: drop_bit_eq_div unat_div_distrib)
qed

lemma offset_page:
  fixes p va :: u32
  assumes "unat p mod 4096 = 0" "unat p + unat i * 4096 < 4294967296"
  shows "unat (p + ptob i) = unat p + unat i * 4096"
proof -
  have "unat (ptob i) = unat i * 4096" using assms(2) by (simp add: ptob_def push_bit_eq_mult unat_word_ariths mult.commute)
  then show ?thesis using assms(2) by (simp add: unat_word_ariths)
qed

lemma aligned_mod: "p AND 4095 = (0 :: u32) \<Longrightarrow> unat p mod 4096 = 0"
proof -
  assume "p AND 4095 = 0"
  then have "p AND mask 12 = 0" by (simp add: mask_eq_exp_minus_1)
  then have "take_bit 12 p = 0" by (simp add: take_bit_eq_mask)
  then have "take_bit 12 (unat p) = 0" by (metis unsigned_take_bit_eq unsigned_0)
  then show ?thesis by (simp add: take_bit_eq_mod)
qed

lemma page_range:
  fixes v p i n :: nat
  assumes "v div 4096 = p div 4096 + i" "p mod 4096 = 0" "i < n"
  shows "p \<le> v \<and> v < p + n * 4096"
proof -
  obtain q where q: "p = q * 4096" using assms(2) by auto
  have "v = v div 4096 * 4096 + v mod 4096" by simp
  moreover have "v div 4096 = q + i" using assms(1) q by simp
  ultimately have "v = (q + i) * 4096 + v mod 4096" by simp
  moreover have "v mod 4096 < 4096" by simp
  moreover have "(i + 1) * 4096 \<le> n * 4096" using assms(3) by simp
  ultimately show ?thesis using q by (simp add: algebra_simps)
qed

text \<open>A translation of a user address belongs to a view of the address space, and shows its slot.\<close>

lemma valid_pte:
  assumes v: "vm_but A W {} F U st" and t: "t_v (ptes st vas (va_page va))" and va: "va < 0x80000000"
  shows "\<exists>pv ps idx. find_pview (vmm st) vas va = Some pv \<and> slot_at (vmm st) vas va = Some (ps, idx) \<and> (ps, idx) \<in> slots_of A st \<and>
    place st pv va \<in> maps W st ps idx \<and> vkey st (place st pv va) = (vas, va_page va) \<and> place st pv va \<in> set (pp_atl (slot st ps idx)) \<and>
    ps = p_set (pviews (vmm st) pv)"
proof -
  have f: "fixed_ok A W st" using v by (simp add: vm_but_def)
  have "(vas, va_page va) \<in> vkey st ` all_maps W st" using v t by (auto simp: vm_but_def pt_maps_def)
  then obtain pv0 i where m0: "(pv0, i) \<in> all_maps W st" "vkey st (pv0, i) = (vas, va_page va)" by fastforce
  let ?p = "pviews (vmm st) pv0"
  have w: "pv0 \<in> W" "i < p_len ?p" "vas_of st pv0 = vas" "va_page (p_vaddr ?p + ptob i) = va_page va"
    using m0 by (auto simp: all_maps_def vkey_def Let_def)
  have al: "unat (p_vaddr ?p) mod 4096 = 0" "unat (p_vaddr ?p) + unat (p_len ?p) * 4096 \<le> 2147483648"
    using f w(1) aligned_mod by (auto simp: fixed_ok_def views_ok_def)
  have il: "unat i < unat (p_len ?p)" using w(2) by (simp add: word_less_nat_alt)
  have ad: "unat (p_vaddr ?p + ptob i) = unat (p_vaddr ?p) + unat i * 4096" using al il by (intro offset_page) linarith+
  have en: "unat (p_vaddr ?p + ptob (p_len ?p)) = unat (p_vaddr ?p) + unat (p_len ?p) * 4096" using al by (intro offset_page) linarith+
  have "p_vaddr ?p + ptob i < 0x80000000" using ad al(2) il by (simp add: word_less_nat_alt)
  then have "unat va div 4096 = (unat (p_vaddr ?p) + unat i * 4096) div 4096"
    using user_pages [OF va _ w(4) [symmetric]] ad by simp
  also have "\<dots> = unat (p_vaddr ?p) div 4096 + unat i" by simp
  finally have d: "unat va div 4096 = unat (p_vaddr ?p) div 4096 + unat i" .
  have "contains_va ?p va"
  proof -
    have "unat (p_vaddr ?p) \<le> unat va" "unat va < unat (p_vaddr ?p) + unat (p_len ?p) * 4096"
      using page_range [OF d al(1) il] by blast+
    then show ?thesis using en by (simp add: contains_va_def word_le_nat_alt word_less_nat_alt)
  qed
  moreover have "pv0 \<in> set (v_views (vass (vmm st) vas))" using f w by (simp add: fixed_ok_def views_ok_def)
  ultimately have "find_pview (vmm st) vas va \<noteq> None" by (auto simp: find_pview_def find_None_iff)
  then obtain pv where pv: "find_pview (vmm st) vas va = Some pv" by auto
  define ps where "ps = p_set (pviews (vmm st) pv)"
  define idx where "idx = btop (va - p_vaddr (pviews (vmm st) pv)) + p_off (pviews (vmm st) pv)"
  have P: "pv \<in> W" "place st pv va \<in> maps W st ps idx" "vkey st (place st pv va) = (vas, va_page va)"
    using place_ok [OF f pv] by (simp_all add: ps_def idx_def)
  have h: "(ps, idx) \<in> slots_of A st"
  proof -
    have "unat (btop (va - p_vaddr (pviews (vmm st) pv))) < unat (p_len (pviews (vmm st) pv))"
      using P(2) by (simp add: maps_def all_maps_def place_def word_less_nat_alt)
    moreover have "ps \<in> A" "unat (p_off (pviews (vmm st) pv)) + unat (p_len (pviews (vmm st) pv)) \<le> unat (ps_len (psets st ps))"
      using f P(1) by (auto simp: fixed_ok_def ps_def)
    moreover have "unat idx \<le> unat (btop (va - p_vaddr (pviews (vmm st) pv))) + unat (p_off (pviews (vmm st) pv))"
      by (simp add: idx_def unat_word_ariths)
    ultimately show ?thesis by (simp add: slots_of_def word_less_nat_alt)
  qed
  have "mapped_ok W st ps idx (pp_atl (slot st ps idx))" using vm_open [OF v h] by (simp add: slot_ok_def Let_def)
  then have "place st pv va \<in> set (pp_atl (slot st ps idx))" using P t by (simp add: mapped_ok_def pte_at_def)
  then show ?thesis using pv P h by (auto simp: slot_at_def ps_def idx_def)
qed

lemma valid_slot:
  assumes v: "vm_but A W {} F U st" and h: "(ps, idx) \<in> slots_of A st" and m: "m \<in> set (pp_atl (slot st ps idx))"
  shows "pp_flags (slot st ps idx) AND PP_V \<noteq> 0 \<and> \<not> in_flight st ps idx \<and> t_pfn (pte_at st m) = pp_pfn (slot st ps idx) \<and> tab_at st m \<noteq> 0 \<and>
    t_w (pte_at st m) = (pv_prot (pviews (vmm st) (fst m)) AND PROT_RO = 0) \<and>
    t_u (pte_at st m) = (pv_prot (pviews (vmm st) (fst m)) AND PROT_KERN = 0)"
  using vm_open [OF v h] m by (auto simp: slot_ok_def mapped_ok_def Let_def split: if_splits)

text \<open>The fault has done its work: the access does not trap again.\<close>

lemma vas_fault_prot:
  "vas_fault vas va wr kern st = Some (0, st') \<Longrightarrow>
   \<exists>pv. find_pview (vmm st) vas va = Some pv \<and> (wr \<longrightarrow> pv_prot (pviews (vmm st) pv) AND PROT_RO = 0) \<and>
     (\<not> kern \<longrightarrow> pv_prot (pviews (vmm st) pv) AND PROT_KERN = 0)"
  by (auto simp: vas_fault_def Let_def split: option.splits if_splits)

lemma fault_resolves:
  assumes v: "vm_but A W {} F U st" and t: "traps st vas va wr su" and k: "kern \<longrightarrow> su" and va: "va < 0x80000000"
    and a: "vas_fault vas va wr kern st = Some (0, st')"
  shows "\<not> traps st' vas va wr su"
proof -
  note V = vas_fault_ok [OF v t k a]
  obtain F' U' where v': "vm_but A W {} F' U' st'" using V by (auto simp: vm_ok_def)
  obtain pv where pv: "find_pview (vmm st') vas va = Some pv" "t_v (pte_at st' (place st' pv va))" using V by auto
  have f': "fixed_ok A W st'" using v' by (simp add: vm_but_def)
  note P = place_ok [OF f' pv(1)]
  have tv: "t_v (ptes st' vas (va_page va))" using pv(2) P by (simp add: pte_at_def)
  obtain ps idx where h: "(ps, idx) \<in> slots_of A st'" "place st' pv va \<in> set (pp_atl (slot st' ps idx))"
    using valid_pte [OF v' tv va] pv(1) by auto
  note S = valid_slot [OF v' h]
  have e: "vmm st' = vmm st" using V by (simp add: unseen_def)
  have "pte_at st' (place st' pv va) = ptes st' vas (va_page va)" using P by (simp add: pte_at_def)
  then show ?thesis using S tv vas_fault_prot [OF a] pv(1) k by (auto simp: traps_def Let_def e place_def)
qed

lemma access_ok:
  assumes v: "vm_ok A W st" and k: "kern \<longrightarrow> su" and a: "access wr su kern vas va st = Some (ok, st')"
  shows "vm_ok A W st' \<and> unseen A st st' \<and> (ok \<longrightarrow> va < 0x80000000 \<and> \<not> traps st' vas va wr su)"
proof -
  obtain F U where w: "vm_but A W {} F U st" using v by (auto simp: vm_ok_def)
  consider (now) "st' = st" "ok \<longrightarrow> va < 0x80000000 \<and> \<not> traps st vas va wr su"
    | (fault) r where "traps st vas va wr su" "vas_fault vas va wr kern st = Some (r, st')" "ok = (r = 0)" "va < 0x80000000" "ok \<longrightarrow> \<not> traps st' vas va wr su"
    using a by (auto simp: access_def bind_eq_Some_conv not_le split: if_splits)
  then show ?thesis
  proof cases
    case now
    then show ?thesis using v unseen_refl by simp
  next
    case fault
    then show ?thesis using vas_fault_ok [OF w fault(1) k fault(2)] by simp
  qed
qed

lemma touch_ok:
  assumes v: "vm_but A W {} F U st" and h: "(ps, idx) \<in> slots_of A st" and m: "m \<in> set (pp_atl (slot st ps idx))" and key: "vkey st m = (vas, va_page va)"
    and d: "wr \<or> dat = frames st (pp_pfn (slot st ps idx))"
  shows "vm_ok A W (touch wr vas va (st\<lparr>frames := (frames st)(pp_pfn (slot st ps idx) := dat)\<rparr>)) \<and>
    (let st' = touch wr vas va (st\<lparr>frames := (frames st)(pp_pfn (slot st ps idx) := dat)\<rparr>) in vmm st' = vmm st \<and> slots_of A st' = slots_of A st \<and>
     (\<forall>(p, i) \<in> slots_of A st. contents st' p i = (if (p, i) = (ps, idx) then dat else contents st p i)))"
proof -
  let ?pg = "pp_pfn (slot st ps idx)"
  let ?g = "\<lambda>t. t\<lparr>t_r := True, t_m := t_m t \<or> wr\<rparr>"
  define s1 where "s1 = st\<lparr>frames := (frames st)(?pg := dat)\<rparr>"
  define s2 where "s2 = touch wr vas va s1"
  have f: "fixed_ok A W st" "pt_ok st" "qio_ok A st" "kc_ok F U (kcore st)" using v by (simp_all add: vm_but_def)
  note O = vm_open [OF v h]
  note V = valid_slot [OF v h m]
  have po: "page_owned U st ps idx" using O V by (auto simp: slot_ok_def Let_def split: if_splits)
  then have ow: "owner st (ps, idx) ?pg" by (simp add: page_owned_def owner_def Let_def)
  have mm: "m \<in> maps W st ps idx" using O m by (auto simp: slot_ok_def mapped_ok_def Let_def)
  have S1: "step_at W U U (ps, idx) st s1" unfolding s1_def by (rule step_at_frames) (use ow in blast)
  have v1: "vmm s1 = vmm st" by (simp add: s1_def)
  have f1: "fixed_ok A W s1" using step_at_fixed(1) [OF S1 f(1)] .
  have pt1: "pte_at s1 = pte_at st" "tab_at s1 = tab_at st" by (simp_all add: pte_at_def tab_at_def vmm_eq [OF v1] fun_eq_iff) (simp_all add: s1_def)
  have B: "step_at W U U (ps, idx) s1 s2 \<and> pt_ok s2 \<and> (\<forall>m' \<in> all_maps W s1. pte_at s2 m' = (if m' = m then ?g (pte_at s1 m) else pte_at s1 m')) \<and>
    (\<forall>m'. tab_at s2 m' = tab_at s1 m')"
    unfolding s2_def touch_def
    by (rule upd_pte_step [OF f1]) (use mm key f(2) V in \<open>simp_all add: vmm_eq [OF v1] pt1 pt_ok_def, simp_all add: s1_def\<close>)
  have S: "step_at W U U (ps, idx) st s2" using step_at_trans [OF S1] B by blast
  have e: "kcore s2 = kcore st" "psets s2 = psets st" "qios s2 = qios st" "dev s2 = dev st" "swapdev s2 = swapdev st" "vmm s2 = vmm st"
    "frames s2 = (frames st)(?pg := dat)"
    by (simp_all add: s2_def touch_def upd_pte_def s1_def)
  have bk: "backing s2 ps idx = backing st ps idx" by (simp add: backing_def e swap_off_def)
  have am: "m' \<in> all_maps W st" if "m' \<in> maps W st ps idx" for m' using that by (auto simp: maps_def)
  have pte: "pte_at s2 m' = (if m' = m then ?g (pte_at st m) else pte_at st m') \<and> tab_at s2 m' = tab_at st m'" if "m' \<in> maps W st ps idx" for m'
    using bspec [OF conjunct1 [OF conjunct2 [OF conjunct2 [OF B]]], of m'] spec [OF conjunct2 [OF conjunct2 [OF conjunct2 [OF B]]], of m'] am [OF that]
    by (simp add: vmm_eq [OF v1] pt1)
  have mp: "mapped_ok W s2 ps idx (pp_atl (slot st ps idx))"
  proof -
    have M: "mapped_ok W st ps idx (pp_atl (slot st ps idx))" using O by (simp add: slot_ok_def Let_def)
    have p: "t_v (pte_at s2 m') = t_v (pte_at st m') \<and> t_pfn (pte_at s2 m') = t_pfn (pte_at st m') \<and> t_w (pte_at s2 m') = t_w (pte_at st m') \<and>
        t_u (pte_at s2 m') = t_u (pte_at st m') \<and> tab_at s2 m' = tab_at st m'" if "m' \<in> maps W st ps idx" for m'
      using pte [OF that] by (simp split: if_splits)
    have "{m \<in> maps W st ps idx. t_v (pte_at s2 m)} = {m \<in> maps W st ps idx. t_v (pte_at st m)}" using p by blast
    moreover have "\<forall>m' \<in> set (pp_atl (slot st ps idx)). t_pfn (pte_at s2 m') = pp_pfn (slot st ps idx) \<and> tab_at s2 m' \<noteq> 0 \<and>
         t_w (pte_at s2 m') = (pv_prot (pviews (vmm st) (fst m')) AND PROT_RO = 0) \<and>
         t_u (pte_at s2 m') = (pv_prot (pviews (vmm st) (fst m')) AND PROT_KERN = 0)"
    proof
      fix m' assume m': "m' \<in> set (pp_atl (slot st ps idx))"
      then have "m' \<in> maps W st ps idx" using M by (auto simp: mapped_ok_def)
      from p [OF this] m' M show "t_pfn (pte_at s2 m') = pp_pfn (slot st ps idx) \<and> tab_at s2 m' \<noteq> 0 \<and>
         t_w (pte_at s2 m') = (pv_prot (pviews (vmm st) (fst m')) AND PROT_RO = 0) \<and>
         t_u (pte_at s2 m') = (pv_prot (pviews (vmm st) (fst m')) AND PROT_KERN = 0)" by (simp add: mapped_ok_def)
    qed
    ultimately show ?thesis using M unfolding mapped_ok_def vmm_eq [OF e(6)] e(2,6) by blast
  qed
  have cl: "clean_ok s2 ps idx (pp_atl (slot st ps idx)) (pp_flags (slot st ps idx))"
  proof (cases wr)
    case True
    then have "t_m (pte_at s2 m)" using pte [OF mm] by simp
    then show ?thesis using m by (auto simp: clean_ok_def)
  next
    case False
    have C: "clean_ok st ps idx (pp_atl (slot st ps idx)) (pp_flags (slot st ps idx))" using O V by (auto simp: slot_ok_def Let_def)
    have al: "\<forall>m' \<in> set (pp_atl (slot st ps idx)). t_m (pte_at s2 m') = t_m (pte_at st m')"
    proof
      fix m' assume "m' \<in> set (pp_atl (slot st ps idx))"
      then have "m' \<in> maps W st ps idx" using O by (auto simp: slot_ok_def mapped_ok_def Let_def)
      then show "t_m (pte_at s2 m') = t_m (pte_at st m')" using pte False by simp
    qed
    show ?thesis using C al d False by (simp add: clean_ok_def e bk)
  qed
  have nf: "\<not> in_flight s2 ps idx" using V by (simp add: in_flight_def e)
  have ok: "slot_ok W U s2 ps idx"
    using O V mp cl po nf by (auto simp: slot_ok_def Let_def e page_owned_def)
  have ct: "contents s2 ps idx = dat" using V by (simp add: contents_def e)
  have own: "\<forall>x \<in> U. owner s2 (ps, idx) x \<longrightarrow> \<not> bad_core (kcore s2) x \<longrightarrow> pp_flags (slot s2 ps idx) AND PP_V \<noteq> 0 \<and> pp_pfn (slot s2 ps idx) = x"
    using O by (simp add: owner_def e)
  have "kc_ok F U (kcore s2)" "pt_ok s2" using f B by (simp_all add: e)
  moreover have "qio_ok A s2" using qio_ok_step [OF S e(3)] f(3) by simp
  ultimately have "vm_ok A W s2 \<and> (\<forall>(p, i) \<in> slots_of A st. contents s2 p i = (if (p, i) = (ps, idx) then dat else contents st p i))"
    using slot_work [OF v h S _ _ _ ok ct own] by blast
  moreover have "slots_of A s2 = slots_of A st" by (simp add: slots_of_def e)
  ultimately show ?thesis using e(6) by (simp add: s2_def s1_def Let_def)
qed

section \<open>Runs\<close>

text \<open>
  What can happen: accesses in user mode or in kernel mode, a step of a hand of the page-out
  daemon or a round of both, the end of a transfer, and a change in what the devices refuse.  An
  access that faults is one step: no other operation comes while the fault sleeps for memory or
  for the device.  A run that would wait for the lock of a slot, or that fails an assertion, has
  no result.
\<close>

datatype vm_op = Op_load bool addr u32 | Op_store bool addr u32 u8 | Op_hand bool nat nat | Op_round nat hands | Op_io
  | Op_refuse "addr \<Rightarrow> u32 \<Rightarrow> bool"

datatype vm_out = Out_byte u8 | Out_done | Out_refused

fun vm_do :: "vm_op \<Rightarrow> vm \<Rightarrow> (vm_out \<times> vm) option" where
  "vm_do (Op_load kern vas va) st =
     map_option (\<lambda>(ok, st1). if ok then apfst Out_byte (cpu_load vas va st1) else (Out_refused, st1)) (access False kern False vas va st)"
| "vm_do (Op_store kern vas va b) st =
     map_option (\<lambda>(ok, st1). if ok then (Out_done, cpu_store vas va b st1) else (Out_refused, st1)) (access True kern False vas va st)"
| "vm_do (Op_hand first trouble pfn) st = map_option (Pair Out_done) (do_hand (if first then steal1 else steal2) trouble pfn st)"
| "vm_do (Op_round base h) st = map_option (\<lambda>(h', st1). (Out_done, st1)) (pageout_round base h st)"
| "vm_do Op_io st =
     map_option (Pair (if dev_fails st (q_port (hd (qios st))) (q_off (hd (qios st))) then Out_refused else Out_done)) (io_done st)"
| "vm_do (Op_refuse f) st = Some (Out_done, st\<lparr>dev_fails := f\<rparr>)"

fun vm_run :: "vm_op list \<Rightarrow> vm \<Rightarrow> (vm_out list \<times> vm) option" where
  "vm_run [] st = Some ([], st)"
| "vm_run (x # xs) st = do {
     (r, st1) \<leftarrow> vm_do x st;
     (rs, st2) \<leftarrow> vm_run xs st1;
     Some (r # rs, st2)
   }"

text \<open>
  The abstract memory: a load gives the byte last stored, a store changes one byte, and nothing
  else changes anything.  \<open>mem_do\<close> gives \<open>None\<close> for an answer that the memory does not give.
\<close>

type_synonym mem = "addr \<times> u32 \<Rightarrow> page"

fun mem_do :: "vmem \<Rightarrow> vm_op \<Rightarrow> vm_out \<Rightarrow> mem \<Rightarrow> mem option" where
  "mem_do V (Op_load kern vas va) (Out_byte b) m =
     (case slot_at V vas va of
        None \<Rightarrow> None
      | Some h \<Rightarrow> if (kern \<or> allowed V False False vas va) \<and> b = m h (byte_off va) then Some m else None)"
| "mem_do V (Op_store kern vas va b) Out_done m =
     (case slot_at V vas va of
        None \<Rightarrow> None
      | Some h \<Rightarrow> if kern \<or> allowed V True False vas va then Some (m(h := (m h)(byte_off va := b))) else None)"
| "mem_do V (Op_load kern vas va) r m = (if r = Out_refused then Some m else None)"
| "mem_do V (Op_store kern vas va b) r m = (if r = Out_refused then Some m else None)"
| "mem_do V x r m = (if r = Out_done then Some m else None)"

fun mem_run :: "vmem \<Rightarrow> vm_op list \<Rightarrow> vm_out list \<Rightarrow> mem \<Rightarrow> mem option" where
  "mem_run V [] [] m = Some m"
| "mem_run V (x # xs) (r # rs) m = Option.bind (mem_do V x r m) (mem_run V xs rs)"
| "mem_run V _ _ m = None"

definition abs_mem :: "addr set \<Rightarrow> vm \<Rightarrow> mem" where
  "abs_mem A st = (\<lambda>(p, i). if (p, i) \<in> slots_of A st then contents st p i else zero_page)"

lemma unseen_abs: "unseen A st st' \<Longrightarrow> abs_mem A st' = abs_mem A st"
  by (fastforce simp: unseen_def abs_mem_def fun_eq_iff)

text \<open>An access that goes through is to a slot, and allowed.\<close>

lemma no_trap:
  assumes v: "vm_but A W {} F U st" and t: "\<not> traps st vas va wr kern" and va: "va < 0x80000000"
  shows "\<exists>m ps idx. slot_at (vmm st) vas va = Some (ps, idx) \<and> (ps, idx) \<in> slots_of A st \<and> (kern \<or> allowed (vmm st) wr False vas va) \<and>
    m \<in> set (pp_atl (slot st ps idx)) \<and> vkey st m = (vas, va_page va) \<and> pfn_at vas va st = pp_pfn (slot st ps idx) \<and>
    pp_flags (slot st ps idx) AND PP_V \<noteq> 0"
proof -
  have tv: "t_v (ptes st vas (va_page va))" "kern \<or> (wr \<longrightarrow> t_w (ptes st vas (va_page va))) \<and> t_u (ptes st vas (va_page va))"
    using t by (simp_all add: traps_def Let_def)
  obtain pv ps idx where p: "find_pview (vmm st) vas va = Some pv" "slot_at (vmm st) vas va = Some (ps, idx)" "(ps, idx) \<in> slots_of A st"
    "vkey st (place st pv va) = (vas, va_page va)" "place st pv va \<in> set (pp_atl (slot st ps idx))"
    using valid_pte [OF v tv(1) va] by blast
  note S = valid_slot [OF v p(3) p(5)]
  have e: "pte_at st (place st pv va) = ptes st vas (va_page va)" by (simp add: pte_at_def p(4))
  have "kern \<or> allowed (vmm st) wr False vas va" using S [unfolded e] tv(2) p(1) by (auto simp: allowed_def place_def)
  moreover have "pfn_at vas va st = pp_pfn (slot st ps idx)" using S by (simp add: pfn_at_def e)
  ultimately show ?thesis using p S by blast
qed

lemma load_ok:
  assumes v: "vm_ok A W st" and t: "\<not> traps st vas va False kern" and va: "va < 0x80000000"
  shows "vm_ok A W (snd (cpu_load vas va st)) \<and> vmm (snd (cpu_load vas va st)) = vmm st \<and>
    mem_do (vmm st) (Op_load kern vas va) (Out_byte (fst (cpu_load vas va st))) (abs_mem A st) = Some (abs_mem A (snd (cpu_load vas va st)))"
proof -
  obtain F U where w: "vm_but A W {} F U st" using v by (auto simp: vm_ok_def)
  obtain m ps idx where p: "slot_at (vmm st) vas va = Some (ps, idx)" "(ps, idx) \<in> slots_of A st" "kern \<or> allowed (vmm st) False False vas va"
    "m \<in> set (pp_atl (slot st ps idx))" "vkey st m = (vas, va_page va)" "pfn_at vas va st = pp_pfn (slot st ps idx)" "pp_flags (slot st ps idx) AND PP_V \<noteq> 0"
    using no_trap [OF w t va] by blast
  let ?d = "frames st (pp_pfn (slot st ps idx))"
  have c: "?d = contents st ps idx" using p(7) by (simp add: contents_def)
  have same: "st\<lparr>frames := (frames st)(pp_pfn (slot st ps idx) := ?d)\<rparr> = st" by simp
  note T = touch_ok [OF w p(2,4,5), of False ?d, unfolded same Let_def]
  have "abs_mem A (touch False vas va st) = abs_mem A st"
    using T c by (intro unseen_abs) (auto simp: unseen_def split: if_splits)
  then show ?thesis using T p c by (simp add: cpu_load_def abs_mem_def)
qed

lemma store_ok:
  assumes v: "vm_ok A W st" and t: "\<not> traps st vas va True kern" and va: "va < 0x80000000"
  shows "vm_ok A W (cpu_store vas va b st) \<and> vmm (cpu_store vas va b st) = vmm st \<and>
    mem_do (vmm st) (Op_store kern vas va b) Out_done (abs_mem A st) = Some (abs_mem A (cpu_store vas va b st))"
proof -
  obtain F U where w: "vm_but A W {} F U st" using v by (auto simp: vm_ok_def)
  obtain m ps idx where p: "slot_at (vmm st) vas va = Some (ps, idx)" "(ps, idx) \<in> slots_of A st" "kern \<or> allowed (vmm st) True False vas va"
    "m \<in> set (pp_atl (slot st ps idx))" "vkey st m = (vas, va_page va)" "pfn_at vas va st = pp_pfn (slot st ps idx)" "pp_flags (slot st ps idx) AND PP_V \<noteq> 0"
    using no_trap [OF w t va] by blast
  let ?d = "(frames st (pp_pfn (slot st ps idx)))(byte_off va := b)"
  have c: "?d = (contents st ps idx)(byte_off va := b)" using p(7) by (simp add: contents_def)
  have e: "cpu_store vas va b st = touch True vas va (st\<lparr>frames := (frames st)(pp_pfn (slot st ps idx) := ?d)\<rparr>)" by (simp add: cpu_store_def p(6) Let_def)
  have T: "vm_ok A W (cpu_store vas va b st) \<and> vmm (cpu_store vas va b st) = vmm st \<and> slots_of A (cpu_store vas va b st) = slots_of A st \<and>
     (\<forall>(p, i) \<in> slots_of A st. contents (cpu_store vas va b st) p i = (if (p, i) = (ps, idx) then ?d else contents st p i))"
    using touch_ok [OF w p(2,4,5), of True ?d, unfolded Let_def] unfolding e by blast
  have "abs_mem A (cpu_store vas va b st) = (abs_mem A st)((ps, idx) := ((abs_mem A st) (ps, idx))(byte_off va := b))"
  proof
    fix h :: "addr \<times> u32"
    obtain q j where h: "h = (q, j)" by (rule prod.exhaust)
    show "abs_mem A (cpu_store vas va b st) h = ((abs_mem A st)((ps, idx) := ((abs_mem A st) (ps, idx))(byte_off va := b))) h"
      using T p(2) c unfolding h abs_mem_def by (cases "(q, j) \<in> slots_of A st") auto
  qed
  then show ?thesis using T p by simp
qed

text \<open>A round of the daemon is a step of each hand.\<close>

lemma hand_ok:
  assumes "vm_ok A W st" "do_hand steal trouble pfn st = Some st'"
  shows "vm_ok A W st' \<and> unseen A st st'"
  using assms do_hand_ok by (auto simp: vm_ok_def [of A W st])

lemma round_ok:
  assumes v: "vm_ok A W st" and a: "pageout_round base h st = Some (h', st')"
  shows "vm_ok A W st' \<and> unseen A st st'"
proof -
  obtain t1 t2 p1 p2 st1 where d: "do_hand steal1 t1 p1 st = Some st1" "do_hand steal2 t2 p2 st1 = Some st'"
    using a by (auto simp: pageout_round_def Let_def bind_eq_Some_conv)
  show ?thesis using hand_ok [OF v d(1)] hand_ok [OF _ d(2)] unseen_trans by blast
qed

lemma refuse_ok: "vm_ok A W (st\<lparr>dev_fails := f\<rparr>) = vm_ok A W st" "abs_mem A (st\<lparr>dev_fails := f\<rparr>) = abs_mem A st"
proof -
  let ?s = "st\<lparr>dev_fails := f\<rparr>"
  have m: "slots_of A ?s = slots_of A st" "maps W ?s = maps W st" "all_maps W ?s = all_maps W st" "vkey ?s = vkey st" "swap_off ?s = swap_off st"
    "anon ?s = anon st" "in_flight ?s = in_flight st" "owner ?s = owner st"
    by (simp_all add: slots_of_def maps_def all_maps_def vkey_def swap_off_def anon_def in_flight_def owner_def fun_eq_iff)
  have p: "pte_at ?s = pte_at st" "tab_at ?s = tab_at st" "backing ?s = backing st" "views_ok W ?s = views_ok W st"
    by (simp_all add: pte_at_def tab_at_def backing_def views_ok_def m fun_eq_iff)
  have so: "slot_ok W U ?s = slot_ok W U st" for U
    by (simp add: fun_eq_iff slot_ok_def mapped_ok_def clean_ok_def page_owned_def m p Let_def)
  show "vm_ok A W ?s = vm_ok A W st"
    unfolding vm_ok_def vm_but_def fixed_ok_def back_ok_def so by (simp add: m p pt_ok_def pt_maps_def qio_ok_def)
  show "abs_mem A ?s = abs_mem A st" by (simp add: abs_mem_def contents_def m p fun_eq_iff)
qed

lemma vm_do_ok:
  assumes v: "vm_ok A W st" and a: "vm_do x st = Some (r, st')" and q: "x = Op_io \<longrightarrow> r = Out_done"
  shows "vm_ok A W st' \<and> vmm st' = vmm st \<and> mem_do (vmm st) x r (abs_mem A st) = Some (abs_mem A st')"
proof (cases x)
  case (Op_load kern vas va)
  obtain ok st1 where ac: "access False kern False vas va st = Some (ok, st1)"
    and r: "(if ok then apfst Out_byte (cpu_load vas va st1) else (Out_refused, st1)) = (r, st')" using a Op_load by auto
  have nk: "False \<longrightarrow> kern" by simp
  note A1 = access_ok [OF v nk ac]
  then have e: "vmm st1 = vmm st" "abs_mem A st1 = abs_mem A st" using unseen_abs by (auto simp: unseen_def)
  show ?thesis
  proof (cases ok)
    case True
    then have "r = Out_byte (fst (cpu_load vas va st1))" "st' = snd (cpu_load vas va st1)" using r by (auto simp: apfst_def map_prod_def split: prod.splits)
    then show ?thesis using load_ok [of A W st1 vas va kern] A1 True e Op_load by simp
  next
    case False
    then show ?thesis using r A1 e Op_load by auto
  qed
next
  case (Op_store kern vas va b)
  obtain ok st1 where ac: "access True kern False vas va st = Some (ok, st1)"
    and r: "(if ok then (Out_done, cpu_store vas va b st1) else (Out_refused, st1)) = (r, st')" using a Op_store by auto
  have nk: "False \<longrightarrow> kern" by simp
  note A1 = access_ok [OF v nk ac]
  then have e: "vmm st1 = vmm st" "abs_mem A st1 = abs_mem A st" using unseen_abs by (auto simp: unseen_def)
  show ?thesis
  proof (cases ok)
    case True
    then have "r = Out_done" "st' = cpu_store vas va b st1" using r by auto
    then show ?thesis using store_ok [of A W st1 vas va kern b] A1 True e Op_store by simp
  next
    case False
    then show ?thesis using r A1 e Op_store by auto
  qed
next
  case (Op_hand first trouble pfn)
  then obtain s where "do_hand (if first then steal1 else steal2) trouble pfn st = Some st'" "r = Out_done" using a by auto
  then show ?thesis using hand_ok [OF v] unseen_abs Op_hand by (fastforce simp: unseen_def)
next
  case (Op_round base h)
  then obtain h' where "pageout_round base h st = Some (h', st')" "r = Out_done" using a by auto
  then show ?thesis using round_ok [OF v] unseen_abs Op_round by (fastforce simp: unseen_def)
next
  case Op_io
  then have d: "\<not> dev_fails st (q_port (hd (qios st))) (q_off (hd (qios st)))" "io_done st = Some st'" "r = Out_done"
    using a q by (auto split: if_splits)
  obtain F U where w: "vm_but A W {} F U st" using v by (auto simp: vm_ok_def)
  show ?thesis using io_done_ok [OF w d(1,2)] unseen_abs d(3) Op_io by (fastforce simp: unseen_def)
next
  case (Op_refuse f)
  then show ?thesis using a v refuse_ok by auto
qed

lemma vm_run_ok:
  assumes "vm_ok A W st" "vm_run xs st = Some (rs, st')" "(Op_io, Out_refused) \<notin> set (zip xs rs)"
  shows "vm_ok A W st' \<and> vmm st' = vmm st \<and> mem_run (vmm st) xs rs (abs_mem A st) = Some (abs_mem A st')"
  using assms
proof (induction xs arbitrary: st rs)
  case Nil
  then show ?case by auto
next
  case (Cons x xs)
  obtain r st1 rs1 where s: "vm_do x st = Some (r, st1)" "vm_run xs st1 = Some (rs1, st')" "rs = r # rs1"
    using Cons.prems(2) by (auto simp: bind_eq_Some_conv)
  have "x = Op_io \<longrightarrow> r = Out_done" using Cons.prems(3) s(1,3) by auto
  note D = vm_do_ok [OF Cons.prems(1) s(1) this]
  then show ?case using Cons.IH [of st1 rs1] Cons.prems(3) s by simp
qed

section \<open>Progress\<close>

lemma alloc_page_some:
  "freemem c \<noteq> 0 \<Longrightarrow> \<exists>pg c'. alloc_page c = Some (pg, c') \<and> freemem c' = freemem c - 1 \<and> bootpgs c' = bootpgs c"
  by (auto simp: alloc_page_def alloc_page_try_def Let_def)

lemma slot_page_some:
  assumes k: "kc_ok F U (kcore st)" and m: "freemem (kcore st) \<noteq> 0"
  shows "\<exists>pg st'. slot_page ps idx st = Some (pg, st') \<and> freemem (kcore st') = freemem (kcore st) - 1 \<and> st' = st\<lparr>kcore := kcore st'\<rparr>"
proof -
  obtain pg c where c: "alloc_page (kcore st) = Some (pg, c)" "freemem c = freemem (kcore st) - 1" "bootpgs c = bootpgs (kcore st)"
    using alloc_page_some [OF m] by blast
  have "pg \<in> F" using alloc_page_kc [OF k c(1)] by blast
  then have "0 < pg \<and> pg < bootpgs c" using k c(3) by (auto simp: kc_ok_def pages_def)
  then obtain c1 where "set_core pg ps (ucast idx) c = Some c1" "freemem c1 = freemem c"
    by (auto simp: set_core_def Let_def lock_page_def unlock_page_def)
  then show ?thesis using c by (simp add: slot_page_def)
qed

lemma fault_fill_some:
  assumes k: "kc_ok F U (kcore st)" and an: "anon st ps" and fl: "pp_flags (slot st ps idx) AND (PP_COW OR PP_BAD) = 0"
    and m: "2 \<le> freemem (kcore st)" and r: "unat (pp_refs (slot st ps idx)) < 65535"
    and d: "swapdev st \<noteq> 0" "\<not> dev_fails st (swapdev st) (swap_off st ps idx)"
  shows "\<exists>wv st1. fault_fill ps idx st = Some (0, wv, st1) \<and> freemem (kcore st1) \<noteq> 0 \<and> vmm st1 = vmm st \<and>
    pp_flags (slot st1 ps idx) AND PP_COW = 0 \<and> pp_lock (slot st1 ps idx) = pp_lock (slot st ps idx)"
proof (cases "pp_flags (slot st ps idx) AND PP_V = 0")
  case False
  have "unat (pp_refs (slot st ps idx) + 1) = unat (pp_refs (slot st ps idx)) + 1" using r by (simp add: unat_word_ariths)
  then have "pp_refs (slot st ps idx) + 1 \<noteq> 0" by auto
  moreover have "freemem (kcore st) \<noteq> 0" using m by auto
  ultimately show ?thesis using False fl by (simp add: fault_fill_def ref_slot_def slot_upd_pp pp_test3 pp_bits) (auto simp: upd_pp_def upd_ps_def)
next
  case True
  have m1: "freemem (kcore st) \<noteq> 0" "freemem (kcore st) - 1 \<noteq> 0" using m by (auto simp: word_le_nat_alt)
  obtain pg s1 where s1: "slot_page ps idx st = Some (pg, s1)" "freemem (kcore s1) = freemem (kcore st) - 1" "s1 = st\<lparr>kcore := kcore s1\<rparr>"
    using slot_page_some [OF k m1(1)] by blast
  have e: "psets s1 = psets st" "swapdev s1 = swapdev st" "dev_fails s1 = dev_fails st" "vmm s1 = vmm st" by (subst s1(3), simp)+
  have fs: "fillslot ps idx st = Some (0, s2) \<Longrightarrow> pp_flags (slot s2 ps idx) AND PP_V \<noteq> 0 \<Longrightarrow> ?thesis
    \<or> \<not> (freemem (kcore s2) \<noteq> 0 \<and> vmm s2 = vmm st \<and> pp_flags (slot s2 ps idx) AND PP_COW = 0 \<and> pp_lock (slot s2 ps idx) = pp_lock (slot st ps idx))" for s2
    using True by (auto simp: fault_fill_def)
  have op: "ps_ops (psets st ps) = PT_ZERO" "pp_flags (slot st ps idx) AND (PP_V OR PP_BAD) = 0" using an True fl by (simp_all add: anon_def pp_test2 pp_test3 pp_bits)
  have F: "freemem (kcore (slot_filled ps idx pg (s1\<lparr>frames := f\<rparr>))) \<noteq> 0 \<and> vmm (slot_filled ps idx pg (s1\<lparr>frames := f\<rparr>)) = vmm st \<and>
      pp_flags (slot (slot_filled ps idx pg (s1\<lparr>frames := f\<rparr>)) ps idx) AND PP_V \<noteq> 0 \<and>
      pp_flags (slot (slot_filled ps idx pg (s1\<lparr>frames := f\<rparr>)) ps idx) AND PP_COW = 0 \<and>
      pp_lock (slot (slot_filled ps idx pg (s1\<lparr>frames := f\<rparr>)) ps idx) = pp_lock (slot st ps idx)" for f
    using fl m1(2) s1(2) by (simp add: slot_filled_def slot_upd_pp pp_bits pp_test3 e) (simp add: upd_pp_def upd_ps_def e)
  show ?thesis
  proof (cases "pp_flags (slot st ps idx) AND PP_SWAPPED = 0")
    case True
    then have "fillslot ps idx st = Some (0, slot_filled ps idx pg (s1\<lparr>frames := (frames s1)(pg := zero_page)\<rparr>))"
      using op s1(1) by (simp add: fillslot_def master_fillslot_def zfod_fillslot_def)
    then show ?thesis using fs F by blast
  next
    case False
    have q: "ptob (idx + ps_swapblk (psets st ps)) = swap_off st ps idx" by (simp add: swap_off_def)
    have "fillslot ps idx st = Some (0, slot_filled ps idx pg (s1\<lparr>frames := (frames s1)(pg := dev s1 (swapdev st) (swap_off st ps idx))\<rparr>))"
      using op s1(1) False d by (simp add: fillslot_def master_fillslot_def zfod_fillslot_def page_in_def pageio_def q e)
    then show ?thesis using fs F by blast
  qed
qed

lemma hat_addtrans_some:
  "freemem (kcore st) \<noteq> 0 \<Longrightarrow> \<exists>st'. hat_addtrans pv va pfn prot st = Some st' \<and> psets st' = psets st"
proof -
  assume m: "freemem (kcore st) \<noteq> 0"
  obtain pg c where "alloc_page (kcore st) = Some (pg, c)" using alloc_page_some [OF m] by blast
  then show ?thesis by (auto simp: hat_addtrans_def hat_table_def upd_pte_def)
qed

lemma access_some:
  assumes v: "vm_ok A W st" and k: "kern \<longrightarrow> su" and al: "allowed (vmm st) wr kern vas va" and h: "slot_at (vmm st) vas va = Some (ps, idx)" and va: "va < 0x80000000"
    and nf: "\<not> in_flight st ps idx" and m: "2 \<le> freemem (kcore st)" and r: "unat (pp_refs (slot st ps idx)) < 65535"
    and d: "\<not> dev_fails st (swapdev st) (swap_off st ps idx)"
  shows "\<exists>st'. access wr su kern vas va st = Some (True, st')"
proof (cases "traps st vas va wr su")
  case False
  then show ?thesis using va by (simp add: access_def not_le)
next
  case True
  obtain F U where w: "vm_but A W {} F U st" using v by (auto simp: vm_ok_def)
  have f: "fixed_ok A W st" "kc_ok F U (kcore st)" using w by (simp_all add: vm_but_def)
  obtain pv where pv: "find_pview (vmm st) vas va = Some pv" "(wr \<longrightarrow> pv_prot (pviews (vmm st) pv) AND PROT_RO = 0)"
    "kern \<or> pv_prot (pviews (vmm st) pv) AND PROT_KERN = 0" using al by (auto simp: allowed_def split: option.splits)
  have p: "ps = p_set (pviews (vmm st) pv)" "idx = btop (va - p_vaddr (pviews (vmm st) pv)) + p_off (pviews (vmm st) pv)"
    using h pv(1) by (simp_all add: slot_at_def)
  note P = place_ok [OF f(1) pv(1)]
  have hs: "(ps, idx) \<in> slots_of A st"
  proof -
    have "unat (btop (va - p_vaddr (pviews (vmm st) pv))) < unat (p_len (pviews (vmm st) pv))"
      using P by (simp add: maps_def all_maps_def place_def word_less_nat_alt)
    moreover have "ps \<in> A" "unat (p_off (pviews (vmm st) pv)) + unat (p_len (pviews (vmm st) pv)) \<le> unat (ps_len (psets st ps))"
      using f(1) P by (auto simp: fixed_ok_def p)
    moreover have "unat idx \<le> unat (btop (va - p_vaddr (pviews (vmm st) pv))) + unat (p_off (pviews (vmm st) pv))"
      by (simp add: p unat_word_ariths)
    ultimately show ?thesis by (simp add: slots_of_def word_less_nat_alt)
  qed
  note O = slot_body_open [OF w hs nf]
  have lk: "pp_lock (slot st ps idx) AND PP_LOCK = 0" and fl: "pp_flags (slot st ps idx) AND (PP_COW OR PP_BAD) = 0"
    using O by (simp_all add: slot_body_def Let_def)
  obtain s1 where s1: "lock_slot ps idx st = Some s1" using lk by (auto simp: lock_slot_def Let_def)
  note L = lock_slot_step [OF s1, of W U]
  have e: "vmm s1 = vmm st" "kcore s1 = kcore st" "swapdev s1 = swapdev st" "dev_fails s1 = dev_fails st"
    by (subst L [THEN conjunct2, THEN conjunct2, THEN conjunct1], simp)+
  have e2: "swap_off s1 ps idx = swap_off st ps idx" "anon s1 ps = anon st ps" using pinfo_eq(7,9) [of s1 st] L by (simp_all add: step_at_def)
  have an: "anon st ps" "swapdev st \<noteq> 0" using f(1) hs by (auto simp: fixed_ok_def slots_of_def)
  have "\<exists>wv s2. fault_fill ps idx s1 = Some (0, wv, s2) \<and> freemem (kcore s2) \<noteq> 0 \<and> vmm s2 = vmm s1 \<and>
    pp_flags (slot s2 ps idx) AND PP_COW = 0 \<and> pp_lock (slot s2 ps idx) = pp_lock (slot s1 ps idx)"
    by (rule fault_fill_some [of F U]) (use f(2) an fl m r d L in \<open>simp_all add: e e2\<close>)
  then obtain wv s2 where s2: "fault_fill ps idx s1 = Some (0, wv, s2)" "freemem (kcore s2) \<noteq> 0" "vmm s2 = vmm s1"
    "pp_flags (slot s2 ps idx) AND PP_COW = 0" "pp_lock (slot s2 ps idx) = pp_lock (slot s1 ps idx)" by blast
  let ?i = "btop (va - p_vaddr (pviews (vmm st) pv))"
  let ?s3 = "upd_pp ps idx (add_atl pv ?i) s2"
  have "freemem (kcore ?s3) \<noteq> 0" using s2(2) by (simp add: upd_pp_def upd_ps_def)
  then obtain s4 where s4: "hat_addtrans pv va (pp_pfn (slot ?s3 ps idx)) (pv_prot (pviews (vmm st) pv)) ?s3 = Some s4" "psets s4 = psets ?s3"
    using hat_addtrans_some by blast
  have sl3: "slot ?s3 ps idx = add_atl pv ?i (slot s2 ps idx)" by (simp add: slot_upd_pp)
  have fl1: "pp_flags (slot s1 ps idx) AND PP_BAD = 0" using fl L by (simp add: pp_test3 pp_bits)
  have c3: "pp_flags (slot ?s3 ps idx) AND PP_COW = 0" using s2(4) by (simp add: sl3 add_atl_def)
  have fk: "fault_locked pv va wr s1 = Some (0, s4)"
    using s2(1,4) s4(1) c3 fl1 by (simp add: fault_locked_def Let_def e p [symmetric])
  have "pp_lock (slot s4 ps idx) AND PP_LOCK \<noteq> 0"
    using s2(5) L by (simp add: s4(2) slot_upd_pp add_atl_def pp_bits) (simp add: PP_LOCK_def)
  then obtain s5 where s5: "unlock_slot ps idx s4 = Some s5" by (auto simp: unlock_slot_def)
  have fp: "find_pp ps idx st \<noteq> None" using hs by (simp add: find_pp_def slots_of_def)
  have vf: "vas_fault vas va wr kern st = Some (0, s5)"
    using pv s1 fk s5 fp by (auto simp: vas_fault_def Let_def p [symmetric])
  have "\<not> traps s5 vas va wr su" by (rule fault_resolves [OF w True k va vf])
  then show ?thesis using True va vf by (simp add: access_def not_le)
qed

section \<open>Two address spaces that share a set\<close>

definition demo_views :: vmem where
  "demo_views = \<lparr>pviews = (\<lambda>a. \<lparr>p_set = 30, p_vaddr = (if a = 20 then 0x1000 else 0x4000), p_len = 2, p_off = 0,
                        p_vas = (if a = 20 then 7 else 8), pv_prot = (if a = 20 then 0 else 1)\<rparr>),
            segs = (\<lambda>_. \<lparr>s_off = 0, s_len = 0\<rparr>),
            vass = (\<lambda>a. \<lparr>v_views = (if a = 7 then [20] else if a = 8 then [21] else []), v_flags = 0, h_map = []\<rparr>),
            ps_refs = (\<lambda>_. 2), seg_live = (\<lambda>_. False)\<rparr>"

definition demo_set :: "perpage \<Rightarrow> u16 \<Rightarrow> pset" where
  "demo_set pp n = \<lparr>ps_len = 2, ps_off = 0, ps_type = PT_ZERO, ps_locks = n, ps_u = 0, ps_swapblk = 5, ps_cowsets = 0,
                  ps_flags = 0, ps_pp = (\<lambda>_. empty_pp)(0 := pp), ps_ops = PT_ZERO, ps_live = True\<rparr>"

definition demo_paging :: "perpage \<Rightarrow> u16 \<Rightarrow> kmem \<Rightarrow> (nat \<Rightarrow> page) \<Rightarrow> (addr \<Rightarrow> u32 \<Rightarrow> page) \<Rightarrow> (addr \<Rightarrow> u32 \<Rightarrow> pte) \<Rightarrow> (addr \<Rightarrow> u32 \<Rightarrow> nat) \<Rightarrow> qio list \<Rightarrow> vm" where
  "demo_paging pp n k fr dv pt l1 q =
     \<lparr>vmm = demo_views, psets = (\<lambda>_. demo_set empty_pp 0)(30 := demo_set pp n),
      kcore = k, frames = fr, dev = dv, dev_fails = (\<lambda>_ _. False), swapdev = 9, swap_pending = 0, swap_leaked = 0,
      ptes = pt, l1pt = l1, qios = q\<rparr>"

lemma demo_sel:
  "vmm (demo_paging pp n k fr dv pt l1 q) = demo_views" "psets (demo_paging pp n k fr dv pt l1 q) 30 = demo_set pp n"
  "kcore (demo_paging pp n k fr dv pt l1 q) = k" "frames (demo_paging pp n k fr dv pt l1 q) = fr" "dev (demo_paging pp n k fr dv pt l1 q) = dv"
  "dev_fails (demo_paging pp n k fr dv pt l1 q) = (\<lambda>_ _. False)" "swapdev (demo_paging pp n k fr dv pt l1 q) = 9"
  "ptes (demo_paging pp n k fr dv pt l1 q) = pt" "l1pt (demo_paging pp n k fr dv pt l1 q) = l1" "qios (demo_paging pp n k fr dv pt l1 q) = q"
  by (simp_all add: demo_paging_def)

lemma demo_upd:
  "demo_paging pp n k fr dv pt l1 q\<lparr>kcore := k'\<rparr> = demo_paging pp n k' fr dv pt l1 q"
  "demo_paging pp n k fr dv pt l1 q\<lparr>frames := fr'\<rparr> = demo_paging pp n k fr' dv pt l1 q"
  "demo_paging pp n k fr dv pt l1 q\<lparr>dev := dv'\<rparr> = demo_paging pp n k fr dv' pt l1 q"
  "demo_paging pp n k fr dv pt l1 q\<lparr>qios := q'\<rparr> = demo_paging pp n k fr dv pt l1 q'"
  "demo_paging pp n k fr dv pt l1 q\<lparr>kcore := k', ptes := pt', l1pt := l1'\<rparr> = demo_paging pp n k' fr dv pt' l1' q"
  "demo_paging pp n k fr dv pt l1 q\<lparr>qios := q', dev := dv'\<rparr> = demo_paging pp n k fr dv' pt l1 q'"
  "demo_paging pp n k fr dv pt l1 q\<lparr>ptes := pt', l1pt := l1'\<rparr> = demo_paging pp n k fr dv pt' l1' q"
  "upd_pte v p f (demo_paging pp n k fr dv pt l1 q) = demo_paging pp n k fr dv (pt(v := (pt v)(p := f (pt v p)))) l1 q"
  by (simp_all add: demo_paging_def upd_pte_def)

lemma demo_pp:
  "upd_pp 30 0 f (demo_paging pp n k fr dv pt l1 q) = demo_paging (f pp) n k fr dv pt l1 q"
  "upd_ps 30 (\<lambda>p. p\<lparr>ps_locks := g (ps_locks p)\<rparr>) (demo_paging pp n k fr dv pt l1 q) = demo_paging pp (g n) k fr dv pt l1 q"
  "upd_ps 30 (\<lambda>p. p\<lparr>ps_locks := ps_locks p + 1\<rparr>) (demo_paging pp n k fr dv pt l1 q) = demo_paging pp (n + 1) k fr dv pt l1 q"
  "upd_ps 30 (\<lambda>p. p\<lparr>ps_locks := ps_locks p - 1\<rparr>) (demo_paging pp n k fr dv pt l1 q) = demo_paging pp (n - 1) k fr dv pt l1 q"
  by (simp_all add: demo_paging_def upd_pp_def upd_ps_def demo_set_def)

lemma demo_set_sel: "ps_pp (demo_set pp n) 0 = pp" "ps_len (demo_set pp n) = 2" "ps_ops (demo_set pp n) = PT_ZERO" "ps_type (demo_set pp n) = PT_ZERO"
  "ps_swapblk (demo_set pp n) = 5" "ps_cowsets (demo_set pp n) = 0"
  by (simp_all add: demo_set_def)

lemma demo_view: "find_pview demo_views 7 0x1004 = Some 20" "find_pview demo_views 8 0x4004 = Some 21"
  "pviews demo_views 20 = \<lparr>p_set = 30, p_vaddr = 0x1000, p_len = 2, p_off = 0, p_vas = 7, pv_prot = 0\<rparr>"
  "pviews demo_views 21 = \<lparr>p_set = 30, p_vaddr = 0x4000, p_len = 2, p_off = 0, p_vas = 8, pv_prot = 1\<rparr>"
  "v_flags (vass demo_views v) = 0" "ps_refs demo_views v = 2"
  by (simp_all add: demo_views_def find_pview_def contains_va_def ptob_def)

lemma demo_table:
  "l1 v (L1IDX va) = 0 \<Longrightarrow> pt v = (\<lambda>_. no_pte) \<Longrightarrow> hat_table v va (demo_paging pp n k fr dv pt l1 q) =
     map_option (\<lambda>(pg, k'). demo_paging pp n k' fr dv pt (l1(v := (l1 v)(L1IDX va := pg))) q) (alloc_page k)"
  "l1 v (L1IDX va) \<noteq> 0 \<Longrightarrow> hat_table v va (demo_paging pp n k fr dv pt l1 q) = Some (demo_paging pp n k fr dv pt l1 q)"
proof -
  show "hat_table v va (demo_paging pp n k fr dv pt l1 q) =
     map_option (\<lambda>(pg, k'). demo_paging pp n k' fr dv pt (l1(v := (l1 v)(L1IDX va := pg))) q) (alloc_page k)"
    if "l1 v (L1IDX va) = 0" "pt v = (\<lambda>_. no_pte)"
  proof -
    have "pt(v := \<lambda>_. no_pte) = pt" using that(2) by (rule fun_upd_idem)
    then show ?thesis using that by (cases "alloc_page k") (auto simp: hat_table_def demo_sel demo_upd cong: if_cong)
  qed
  show "l1 v (L1IDX va) \<noteq> 0 \<Longrightarrow> hat_table v va (demo_paging pp n k fr dv pt l1 q) = Some (demo_paging pp n k fr dv pt l1 q)"
    by (simp add: hat_table_def demo_sel)
qed

lemma no_pte_sel: "t_v no_pte = False" "t_r no_pte = False" "t_m no_pte = False"
  by (simp_all add: no_pte_def)

lemmas demo_rules = demo_sel demo_upd demo_pp demo_set_sel demo_view demo_table no_pte_sel

text \<open>Rules that evaluate the steps of the demonstration.\<close>

lemmas vm_defs = access_def traps_def Let_def vas_fault_def va_page_def user_va_def ptob_def btop_def empty_pp_def
  find_pp_def lock_slot_def PP_LOCK_def PP_V_def PP_COW_def PP_BAD_def PP_M_def PP_R_def PP_SWAPPED_def PP_WANT_def
  fault_locked_def fault_fill_def fillslot_def master_fillslot_def zfod_fillslot_def slot_page_def alloc_page_def alloc_page_try_def set_core_def
  lock_page_def unlock_page_def slot_filled_def add_atl_def hat_addtrans_def L1IDX_def unlock_slot_def
  cpu_store_def cpu_load_def pfn_at_def touch_def byte_off_def lock_slot_of_def C_ALLOC_def C_BAD_def C_SYS_def C_WIRED_def
  do_hand_def clock_page_def bad_core_def clock_slot_def hand_slot_def steal_slot_def unvirt_flags_def unvirt_def hat_deletetrans_def hat_getbits_def
  deref_slot_def steal1_def free_page_def writeslot_def pset_writeslot_def io_done_def pageio_def iodone_unlock_def drop_page_def page_in_def unlock_core_def ref_slot_def

definition demo_kmem :: kmem where
  "demo_kmem = \<lparr>c_flags = (\<lambda>_. 0), c_psidx = (\<lambda>_. 0), c_free = (\<lambda>_. 0)(2 := 3, 3 := 4, 4 := 5), freelist = 2, freemem = 4,
              totalmem = 4, mem_sema = 0, bootpgs = 6, vmap = [], vmap_sema = 0, core_semas = (\<lambda>_. 1), ktrans = (\<lambda>_. None)\<rparr>"

definition demo_vm0 :: vm where
  "demo_vm0 = demo_paging empty_pp 0 demo_kmem (\<lambda>_. zero_page) (\<lambda>_ _. zero_page) (\<lambda>_ _. no_pte) (\<lambda>_ _. 0) []"

text \<open>A byte is stored through one space, its page written to swap and taken away, and read back through the other.\<close>

definition demo_trace :: "vm_op list" where
  "demo_trace = [Op_store False 7 0x1004 42, Op_hand True 2 2, Op_io, Op_hand True 2 2, Op_load False 8 0x4004, Op_store False 8 0x4004 1]"

definition demo_outs :: "vm_out list" where
  "demo_outs = [Out_done, Out_done, Out_done, Out_done, Out_byte 42, Out_refused]"

lemma demo_trace_runs: "map_option fst (vm_run demo_trace demo_vm0) = Some demo_outs"
  unfolding demo_vm0_def demo_trace_def demo_outs_def
  by (simp add: vm_defs demo_kmem_def demo_rules chain_walk.simps)

lemma demo_trace_run: "\<exists>st'. vm_run demo_trace demo_vm0 = Some (demo_outs, st')"
  using demo_trace_runs by (cases "vm_run demo_trace demo_vm0") auto

lemma demo_trace_io: "(Op_io, Out_refused) \<notin> set (zip demo_trace demo_outs)"
  by (simp add: demo_trace_def demo_outs_def)

lemma word_less_2: "i < (2 :: u32) \<longleftrightarrow> i = 0 \<or> i = 1"
  by (auto simp: word_less_nat_alt word_unat_eq_iff)

lemma demo_maps: "all_maps {20, 21} demo_vm0 = {(20, 0), (20, 1), (21, 0), (21, 1)}"
  by (auto simp: all_maps_def demo_vm0_def demo_rules word_less_2)

lemma demo_slots: "slots_of {30} demo_vm0 = {(30, 0), (30, 1)}"
  by (auto simp: slots_of_def demo_vm0_def demo_rules word_less_2)

lemma demo_vm0_ok: "vm_ok {30} {20, 21} demo_vm0"
proof -
  have f: "fixed_ok {30} {20, 21} demo_vm0"
    unfolding fixed_ok_def views_ok_def demo_maps demo_slots
    by (auto simp: inj_on_def vkey_def demo_vm0_def demo_rules Let_def va_page_def user_va_def ptob_def anon_def swap_off_def demo_views_def)
  have k: "kc_ok {2, 3, 4, 5} {} (kcore demo_vm0)"
    unfolding kc_ok_def pages_def
    by (rule conjI, rule exI [of _ "[2, 3, 4, 5]"]) (auto simp: demo_vm0_def demo_rules demo_kmem_def)
  have nv: "ptes demo_vm0 v p = no_pte" for v p by (simp add: demo_vm0_def demo_rules)
  have pv: "\<not> t_v (pte_at demo_vm0 m)" for m by (simp add: pte_at_def nv no_pte_sel)
  have sl: "slot demo_vm0 ps idx = empty_pp" for ps idx by (simp add: demo_vm0_def demo_paging_def demo_set_def)
  have nq: "qios demo_vm0 = []" by (simp add: demo_vm0_def demo_rules)
  have "slot_ok {20, 21} {} demo_vm0 ps idx" for ps idx
    using pv by (simp add: slot_ok_def mapped_ok_def in_flight_def nq sl) (simp add: empty_pp_def)
  then have "vm_but {30} {20, 21} {} {2, 3, 4, 5} {} demo_vm0"
    using f k by (auto simp: vm_but_def back_ok_def pt_ok_def pt_maps_def qio_ok_def nv nq no_pte_sel)
  then show ?thesis by (auto simp: vm_ok_def)
qed

section \<open>What holds of the virtual memory\<close>

text \<open>
  C2. Paging is transparent.  Take a machine whose sets are anonymous memory and whose invariant
  holds, and any run in which programs load and store bytes and the kernel does so for them,
  translations are taken away and pages written to swap and freed by the hands of the daemon,
  transfers end, and devices refuse to read.  As long as no write of a page to swap fails (such a
  page is lost: \<open>failed_write_lost\<close>), and no two accesses are in a fault at the same time (see
  \<open>refault_loses_store\<close>), the answers to the accesses are those of a memory with one page for each
  slot of a set: a load gives the byte last stored at that place of the set, through whatever
  view and address space.  No access in user mode goes through that its view does not allow;
  an access in kernel mode may (\<open>kernel_store_read_only\<close>).
\<close>

theorem paging_transparent:
  assumes "vm_ok A W st" "vm_run xs st = Some (rs, st')" "(Op_io, Out_refused) \<notin> set (zip xs rs)"
  shows "mem_run (vmm st) xs rs (abs_mem A st) = Some (abs_mem A st')"
  using vm_run_ok [OF assms] by blast

theorem paging_transparent_witness:
  "\<exists>st'. vm_run demo_trace demo_vm0 = Some (demo_outs, st') \<and>
    mem_run demo_views demo_trace demo_outs (abs_mem {30} demo_vm0) = Some (abs_mem {30} st')"
proof -
  obtain st' where r: "vm_run demo_trace demo_vm0 = Some (demo_outs, st')" using demo_trace_run by blast
  have v: "vmm demo_vm0 = demo_views" by (simp add: demo_vm0_def demo_rules)
  show ?thesis using paging_transparent [OF demo_vm0_ok r demo_trace_io] r by (simp add: v)
qed

text \<open>
  Such a run keeps the invariant: the attach list of a slot holds exactly the valid
  translations of its page, which its count counts; every page that can be taken away belongs to
  one slot; and a page that is not marked as modified is equal to its image on swap, or to zeroes
  when it has none.
\<close>

theorem paging_invariant:
  assumes "vm_ok A W st" "vm_run xs st = Some (rs, st')" "(Op_io, Out_refused) \<notin> set (zip xs rs)"
  shows "vm_ok A W st' \<and> vmm st' = vmm st"
  using vm_run_ok [OF assms] by blast

theorem paging_invariant_witness:
  "\<exists>st'. vm_run demo_trace demo_vm0 = Some (demo_outs, st') \<and> vm_ok {30} {20, 21} st' \<and> vmm st' = demo_views"
proof -
  obtain st' where r: "vm_run demo_trace demo_vm0 = Some (demo_outs, st')" using demo_trace_run by blast
  have v: "vmm demo_vm0 = demo_views" by (simp add: demo_vm0_def demo_rules)
  show ?thesis using paging_invariant [OF demo_vm0_ok r demo_trace_io] r v by simp
qed

text \<open>
  Two threads of a process in a fault on one page.  The second has trapped and waits for the lock
  of the slot while the first maps the page; then the first stores a byte.  The fault of the
  second finds the page valid, attaches the view a second time, and \<open>hat_addtrans\<close> writes a new
  entry over the one that the store has marked as modified.  The page-out daemon takes the page for
  clean and frees it, and the store is lost.
\<close>

theorem refault_loses_store:
  "traps demo_vm0 7 0x1004 False False \<and>
   do {
     (r1, st1) \<leftarrow> vm_run [Op_store False 7 0x1004 42] demo_vm0;
     (e, st2) \<leftarrow> vas_fault 7 0x1004 False False st1;
     (r2, st3) \<leftarrow> vm_run [Op_hand True 2 2, Op_hand True 2 2, Op_load False 7 0x1004] st2;
     Some (r1, e, r2)
   } = Some ([Out_done], 0, [Out_done, Out_done, Out_byte 0])"
  unfolding demo_vm0_def
  by (simp add: vm_defs demo_kmem_def demo_rules chain_walk.simps) (simp add: zero_page_def)

text \<open>
  The processor checks \<open>PT_W\<close> for an access in user mode only, as \<open>CR0_WP\<close> is not set: a system call
  that copies its result out to a page that is mapped, through a view that is read-only, succeeds
  and changes the page for all that share it; without the translation it is refused.
\<close>

theorem kernel_store_read_only:
  "map_option fst (vm_run [Op_load False 7 0x1004, Op_store True 8 0x4004 1, Op_load False 8 0x4004,
     Op_store False 8 0x4004 1, Op_store True 8 0x4004 1, Op_load False 7 0x1004] demo_vm0) =
   Some [Out_byte 0, Out_refused, Out_byte 0, Out_refused, Out_done, Out_byte 1]"
  unfolding demo_vm0_def
  by (simp add: vm_defs demo_kmem_def demo_rules chain_walk.simps) (simp add: zero_page_def)

text \<open>C15. An access that the view allows goes through, after one fault at most: when the slot is
  not on its way to swap, two pages are free, for the contents and for a table, the count of the
  slot does not overflow and the device answers.\<close>

theorem access_granted:
  assumes "vm_ok A W st" "kern \<longrightarrow> su" "allowed (vmm st) wr kern vas va" "slot_at (vmm st) vas va = Some (ps, idx)" "va < 0x80000000"
    and "\<not> in_flight st ps idx" "2 \<le> freemem (kcore st)" "unat (pp_refs (slot st ps idx)) < 65535"
    and "\<not> dev_fails st (swapdev st) (swap_off st ps idx)"
  shows "\<exists>st'. access wr su kern vas va st = Some (True, st')"
  using assms by (rule access_some)

theorem access_granted_witness: "\<exists>st'. access True False False 7 0x1004 demo_vm0 = Some (True, st')"
proof (rule access_granted [OF demo_vm0_ok])
  show "allowed (vmm demo_vm0) True False 7 0x1004" by (simp add: allowed_def demo_vm0_def demo_rules)
  show "slot_at (vmm demo_vm0) 7 0x1004 = Some (30, 0)" by (simp add: slot_at_def demo_vm0_def demo_rules btop_def)
qed (simp_all add: in_flight_def demo_vm0_def demo_rules demo_kmem_def empty_pp_def)

end
