(* ===== verification/Page_Copies.thy ===== *)
theory Page_Copies
  imports Virtual_Memory
begin

text \<open>
  Copies of pages: breaking the sharing of a copy-on-write slot, and the copies that a fork makes;
  what the daemon then does with such a copy, and with a page whose transfer has failed.
\<close>

text \<open>Set 30 has a page with a byte in its first slot, set 31 none.\<close>

definition demo_page :: page where "demo_page = zero_page(4 := 42)"

definition demo_shared :: "u8 \<Rightarrow> vm" where
  "demo_shared fl = demo_paging \<lparr>pp_flags = PP_V OR fl, pp_lock = 0, pp_refs = 1, pp_pfn = 2, pp_atl = []\<rparr> 0
     (demo_kmem\<lparr>c_flags := (\<lambda>_. 0)(2 := 8), c_free := (\<lambda>_. 0)(2 := 30, 3 := 4, 4 := 5), freelist := 3, freemem := 3\<rparr>)
     ((\<lambda>_. zero_page)(2 := demo_page)) (\<lambda>_ _. zero_page) (\<lambda>_ _. no_pte) (\<lambda>_ _. 0) []"

lemma demo_other: "psets (demo_paging pp n k fr dv pt l1 q) 31 = demo_set empty_pp 0"
  by (simp add: demo_paging_def)

lemma demo_shared_kc: "kc_ok {3, 4, 5} {2} (kcore (demo_shared fl))"
  unfolding kc_ok_def pages_def
  by (rule conjI, rule exI [of _ "[3, 4, 5]"]) (auto simp: demo_shared_def demo_rules demo_kmem_def C_BAD_def)

text \<open>Breaking the sharing of a slot gives it a page that was not in use, with the contents of
  the page of the master, which keeps its page with one reference less; no other page changes.\<close>

theorem cow_write_private:
  assumes "kc_ok F U (kcore st)" "cow_write ps idx st = Some st'" "ps_u (psets st ps) \<noteq> ps"
  defines "m \<equiv> ps_u (psets st ps)" and "i \<equiv> ps_off (psets st ps) + idx"
  shows "pp_pfn (slot st' ps idx) \<notin> U \<and> frames st' (pp_pfn (slot st' ps idx)) = frames st (pp_pfn (slot st m i)) \<and>
    pp_flags (slot st' ps idx) = pp_flags (slot st ps idx) AND NOT PP_COW \<and>
    slot st' m i = (slot st m i)\<lparr>pp_refs := pp_refs (slot st m i) - 1\<rparr> \<and> (\<forall>x \<in> U. frames st' x = frames st x)"
proof -
  obtain pg s1 s2 where w: "slot_page ps idx st = Some (pg, s1)" "pp_flags (slot st m i) AND PP_V \<noteq> 0"
    "deref_slot m i (s1\<lparr>frames := (frames s1)(pg := frames s1 (pp_pfn (slot st m i)))\<rparr>) = Some s2"
    "st' = upd_pp ps idx (\<lambda>p. p\<lparr>pp_pfn := pg, pp_flags := pp_flags p AND NOT PP_COW\<rparr>) s2"
    using assms(2) by (auto simp: cow_write_def m_def i_def Let_def bind_eq_Some_conv find_pp_def split: if_splits)
  have "pg \<notin> U \<and> s1 = st\<lparr>kcore := kcore s1\<rparr>" using slot_page_step [OF assms(1) w(1), of W] by blast
  then have pg: "pg \<notin> U" and u: "s1 = st\<lparr>kcore := kcore s1\<rparr>" by blast+
  have e: "psets s1 = psets st" "frames s1 = frames st" by (subst u, simp)+
  have s2: "s2 = upd_pp m i (\<lambda>p. p\<lparr>pp_refs := pp_refs p - 1\<rparr>) (s1\<lparr>frames := (frames s1)(pg := frames s1 (pp_pfn (slot st m i)))\<rparr>)"
    using w(3) by (auto simp: deref_slot_def split: if_splits)
  have "slot st' ps idx = (slot st ps idx)\<lparr>pp_pfn := pg, pp_flags := pp_flags (slot st ps idx) AND NOT PP_COW\<rparr>"
    "slot st' m i = (slot st m i)\<lparr>pp_refs := pp_refs (slot st m i) - 1\<rparr>"
    using assms(3) by (simp_all add: w(4) slot_upd_pp s2 e m_def)
  moreover have "frames st' = (frames st)(pg := frames st (pp_pfn (slot st m i)))"
    by (simp add: w(4) s2 upd_pp_def upd_ps_def e)
  ultimately show ?thesis using pg by auto
qed

text \<open>A fork leaves a valid copy-on-write slot of the old set locked: whoever wants the slot
  after that sleeps, and the slot of the new set has not been touched.\<close>

theorem dup_slot_keeps_lock:
  assumes "pp_flags (slot st ops x) AND (PP_V OR PP_COW) = PP_V OR PP_COW" "dup_slot ops ps x st = Some st'"
  shows "lock_slot ops x st' = None \<and> (ops \<noteq> ps \<longrightarrow> psets st' ps = psets st ps)"
proof -
  have "pp_flags (slot st ops x) AND (PP_V OR PP_SWAPPED) \<noteq> 0"
  proof
    assume z: "pp_flags (slot st ops x) AND (PP_V OR PP_SWAPPED) = 0"
    have "bit (pp_flags (slot st ops x) AND (PP_V OR PP_COW)) 0" unfolding assms(1) by (simp add: bit_or_iff pp_bit)
    then have "bit (pp_flags (slot st ops x) AND (PP_V OR PP_SWAPPED)) 0" by (simp add: bit_and_iff bit_or_iff pp_bit)
    then show False by (simp add: z)
  qed
  then have "lock_slot ops x st = Some st'" using assms by (simp add: dup_slot_def Let_def bind_eq_Some_conv)
  then show ?thesis by (auto simp: lock_slot_def Let_def slot_upd_pp pp_bits split: if_splits) (simp_all add: upd_pp_def upd_ps_def)
qed

theorem dup_slot_keeps_lock_witness:
  "\<exists>st'. dup_slot 30 31 0 (demo_shared PP_COW) = Some st' \<and> lock_slot 30 0 st' = None \<and> psets st' 31 = demo_set empty_pp 0"
proof -
  have fl: "pp_flags (slot (demo_shared PP_COW) 30 0) AND (PP_V OR PP_COW) = PP_V OR PP_COW"
    by (simp add: demo_shared_def demo_rules PP_V_def PP_COW_def)
  obtain st' where "dup_slot 30 31 0 (demo_shared PP_COW) = Some st'"
    by (simp add: demo_shared_def dup_slot_def lock_slot_def demo_rules Let_def PP_V_def PP_COW_def PP_SWAPPED_def PP_LOCK_def)
  then show ?thesis using dup_slot_keeps_lock [OF fl, of 31 st'] by (auto simp: demo_shared_def demo_other)
qed

text \<open>A hand in trouble takes away a page that nothing shows and that is not marked as modified.\<close>

lemma steal_clean_slot:
  assumes "pp_atl (slot st ps idx) = []" "pp_refs (slot st ps idx) = 0" "pp_flags (slot st ps idx) AND PP_M = 0" "1 < trouble"
    and "steal_slot steal1 trouble ps idx st = Some (held, st')"
  shows "contents st' ps idx = backing st ps idx \<and> dev st' = dev st \<and> qios st' = qios st"
proof -
  define s1 where "s1 = upd_pp ps idx (\<lambda>p. p\<lparr>pp_flags := pp_flags p OR 0\<rparr>) (upd_pp ps idx (\<lambda>p. p\<lparr>pp_atl := []\<rparr>) st)"
  have u: "unvirt_flags ps idx ps idx st = Some s1" using assms(1) by (simp add: unvirt_flags_def unvirt_def s1_def)
  have sl: "slot s1 ps idx = slot st ps idx" by (simp add: s1_def slot_upd_pp assms(1))
  obtain s2 where s2: "drop_page (pp_pfn (slot s1 ps idx)) s1 = Some s2"
    "st' = upd_pp ps idx (\<lambda>p. p\<lparr>pp_flags := pp_flags p AND NOT (PP_V OR PP_R)\<rparr>) s2"
    using assms(2-5) by (auto simp: steal_slot_def u Let_def sl steal1_def bind_eq_Some_conv)
  obtain c where c: "s2 = s1\<lparr>kcore := c\<rparr>" using s2(1) by (auto simp: drop_page_def)
  have e1: "swap_off s1 ps idx = swap_off st ps idx" "dev s1 = dev st" "swapdev s1 = swapdev st" "qios s1 = qios st"
    by (simp_all add: s1_def upd_pp_def upd_ps_def swap_off_def)
  have e: "slot st' ps idx = (slot st ps idx)\<lparr>pp_flags := pp_flags (slot st ps idx) AND NOT (PP_V OR PP_R)\<rparr>"
    "swap_off st' ps idx = swap_off s1 ps idx" "dev st' = dev s1" "swapdev st' = swapdev s1" "qios st' = qios s1"
    using sl by (simp_all add: s2(2) c slot_upd_pp) (simp_all add: upd_pp_def upd_ps_def swap_off_def)
  note e = e [unfolded e1]
  have "backing st' ps idx = backing st ps idx" by (simp add: backing_def e pp_bits)
  then show ?thesis by (simp add: contents_def e pp_bits)
qed

lemma steal_clean_some:
  assumes "pp_atl (slot st ps idx) = []" "pp_refs (slot st ps idx) = 0" "pp_flags (slot st ps idx) AND PP_M = 0" "1 < trouble"
    and "pages (kcore st) F U" "pp_pfn (slot st ps idx) \<in> U"
  shows "\<exists>st'. steal_slot steal1 trouble ps idx st = Some (True, st')"
proof -
  define s1 where "s1 = upd_pp ps idx (\<lambda>p. p\<lparr>pp_flags := pp_flags p OR 0\<rparr>) (upd_pp ps idx (\<lambda>p. p\<lparr>pp_atl := []\<rparr>) st)"
  have u: "unvirt_flags ps idx ps idx st = Some s1" using assms(1) by (simp add: unvirt_flags_def unvirt_def s1_def)
  have sl: "slot s1 ps idx = slot st ps idx" "kcore s1 = kcore st" by (simp add: s1_def slot_upd_pp assms(1)) (simp add: s1_def upd_pp_def upd_ps_def)
  obtain k where "free_page (pp_pfn (slot st ps idx)) (kcore st) = Some k" using free_page_pages [OF assms(5,6)] by blast
  then have "drop_page (pp_pfn (slot s1 ps idx)) s1 = Some (s1\<lparr>kcore := k\<rparr>)" by (simp add: drop_page_def sl)
  then show ?thesis using assms(2-4) by (simp add: steal_slot_def u Let_def sl steal1_def)
qed

text \<open>C16. The copy of a page that a fork makes is lost when memory runs short: it is the page of the
  parent before a hand of the daemon comes, and zeroes after, as the copy is not marked as modified.\<close>

theorem copied_page_lost:
  assumes "pp_flags (slot st ops idx) AND PP_V \<noteq> 0" "slot st ps idx = empty_pp" "copy_page idx ops ps st = Some st1"
    and "1 < trouble" "steal_slot steal1 trouble ps idx st1 = Some (held, st2)"
  shows "contents st1 ps idx = contents st ops idx \<and> contents st2 ps idx = zero_page"
proof -
  obtain pg s1 where w: "slot_page ps idx st = Some (pg, s1)"
    "st1 = upd_pp ps idx (\<lambda>p. p\<lparr>pp_flags := pp_flags p OR PP_V, pp_pfn := pg\<rparr>) (s1\<lparr>frames := (frames s1)(pg := frames s1 (pp_pfn (slot st ops idx)))\<rparr>)"
    using assms(1,3) by (auto simp: copy_page_def Let_def bind_eq_Some_conv)
  obtain c where c: "s1 = st\<lparr>kcore := c\<rparr>" using w(1) by (auto simp: slot_page_def bind_eq_Some_conv)
  have sl: "slot st1 ps idx = empty_pp\<lparr>pp_flags := PP_V, pp_pfn := pg\<rparr>"
    using assms(2) by (simp add: w(2) c slot_upd_pp) (simp add: empty_pp_def)
  have fr: "frames st1 pg = frames st (pp_pfn (slot st ops idx))" by (simp add: w(2) c upd_pp_def upd_ps_def)
  have V: "PP_V AND PP_V \<noteq> 0" "PP_V AND PP_M = 0" "PP_V AND PP_SWAPPED = 0" by (simp_all add: PP_V_def PP_M_def PP_SWAPPED_def)
  have "contents st1 ps idx = contents st ops idx" using assms(1) V fr by (simp add: contents_def sl)
  moreover have "backing st1 ps idx = zero_page" using V by (simp add: backing_def sl)
  moreover have "contents st2 ps idx = backing st1 ps idx"
    by (rule steal_clean_slot [OF _ _ _ assms(4,5), THEN conjunct1]) (use V in \<open>simp_all add: sl empty_pp_def\<close>)
  ultimately show ?thesis by simp
qed

text \<open>A page whose transfer to swap failed is taken for clean: when a hand comes back to it the
  page is freed, and the slot stands for what was on swap before.\<close>

theorem failed_write_lost:
  assumes "qios st = q # qs" "dev_fails st (q_port q) (q_off q)" "q_pset q = ps" "q_idx q = idx"
    and "pp_atl (slot st ps idx) = []" "pp_refs (slot st ps idx) = 0" "pp_flags (slot st ps idx) AND PP_SWAPPED \<noteq> 0"
    and "io_done st = Some st1" "1 < trouble" "steal_slot steal1 trouble ps idx st1 = Some (held, st2)"
  shows "contents st2 ps idx = dev st (swapdev st) (swap_off st ps idx)"
proof -
  let ?s = "upd_pp ps idx (\<lambda>p. p\<lparr>pp_flags := pp_flags p AND NOT (PP_R OR PP_M)\<rparr>) (st\<lparr>qios := qs\<rparr>)"
  have "unlock_slot ps idx ?s = Some st1"
    using assms(1-4,8) by (auto simp: io_done_def pageio_def iodone_unlock_def split: if_splits)
  then have u: "st1 = upd_pp ps idx (\<lambda>p. p\<lparr>pp_lock := pp_lock p AND NOT (PP_LOCK OR PP_WANT)\<rparr>) (upd_ps ps (\<lambda>p. p\<lparr>ps_locks := ps_locks p - 1\<rparr>) ?s)"
    by (auto simp: unlock_slot_def split: if_splits)
  have sl: "slot st1 ps idx = (slot st ps idx)\<lparr>pp_flags := pp_flags (slot st ps idx) AND NOT (PP_R OR PP_M),
      pp_lock := pp_lock (slot st ps idx) AND NOT (PP_LOCK OR PP_WANT)\<rparr>"
    by (simp add: u slot_upd_pp) (simp add: upd_pp_def upd_ps_def)
  have e: "dev st1 = dev st" "swapdev st1 = swapdev st" "swap_off st1 ps idx = swap_off st ps idx"
    by (simp_all add: u upd_pp_def upd_ps_def swap_off_def)
  have "contents st2 ps idx = backing st1 ps idx"
    by (rule steal_clean_slot [OF _ _ _ assms(9,10), THEN conjunct1]) (use assms(5,6) in \<open>simp_all add: sl pp_bits\<close>)
  also have "\<dots> = dev st (swapdev st) (swap_off st ps idx)" using assms(7) by (simp add: backing_def e sl pp_bits)
  finally show ?thesis .
qed

definition demo_cow :: vm where
  "demo_cow = upd_ps 31 (\<lambda>p. p\<lparr>ps_u := 30, ps_type := PT_COW, ps_ops := PT_COW,
     ps_pp := (\<lambda>_. empty_pp)(0 := \<lparr>pp_flags = PP_V OR PP_COW, pp_lock = 0, pp_refs = 1, pp_pfn = 2, pp_atl = []\<rparr>)\<rparr>) (demo_shared 0)"

lemma demo_free: "freemem (kcore (demo_shared fl)) \<noteq> 0" "freemem (kcore demo_cow) \<noteq> 0"
  by (simp_all add: demo_cow_def upd_ps_def) (simp_all add: demo_shared_def demo_rules)

theorem cow_write_private_witness:
  "\<exists>st'. cow_write 31 0 demo_cow = Some st' \<and> pp_pfn (slot st' 31 0) \<noteq> 2 \<and> frames st' (pp_pfn (slot st' 31 0)) = demo_page \<and>
    pp_refs (slot st' 30 0) = 0"
proof -
  have k: "kc_ok {3, 4, 5} {2} (kcore demo_cow)" using demo_shared_kc [of 0] by (simp add: demo_cow_def upd_ps_def)
  have u: "ps_u (psets demo_cow 31) = 30" "ps_off (psets demo_cow 31) = 0" "slot demo_cow 30 0 = \<lparr>pp_flags = PP_V, pp_lock = 0, pp_refs = 1, pp_pfn = 2, pp_atl = []\<rparr>"
    "frames demo_cow 2 = demo_page" "ps_len (psets demo_cow 30) = 2"
    by (simp_all add: demo_cow_def upd_ps_def demo_shared_def demo_other demo_rules) (simp add: demo_set_def)
  obtain pg s1 where s1: "slot_page 31 0 demo_cow = Some (pg, s1)" "s1 = demo_cow\<lparr>kcore := kcore s1\<rparr>"
    using slot_page_some [OF k demo_free(2), of 31 0] by blast
  have e: "psets s1 = psets demo_cow" by (subst s1(2)) simp
  obtain st' where w: "cow_write 31 0 demo_cow = Some st'"
    using s1(1) by (auto simp: cow_write_def u find_pp_def deref_slot_def e PP_V_def)
  show ?thesis using cow_write_private [OF k w] w by (simp add: u)
qed

theorem copied_page_lost_witness:
  "\<exists>st1 held st2. copy_page 0 30 31 (demo_shared 0) = Some st1 \<and> steal_slot steal1 2 31 0 st1 = Some (held, st2) \<and>
    contents st1 31 0 4 = 42 \<and> contents st2 31 0 4 = 0"
proof -
  have k: "kc_ok {3, 4, 5} {2} (kcore (demo_shared 0))" by (rule demo_shared_kc)
  have u: "slot (demo_shared 0) 30 0 = \<lparr>pp_flags = PP_V, pp_lock = 0, pp_refs = 1, pp_pfn = 2, pp_atl = []\<rparr>" "slot (demo_shared 0) 31 0 = empty_pp"
    "frames (demo_shared 0) 2 = demo_page"
    by (simp_all add: demo_shared_def demo_other demo_rules)
  obtain pg s1 where s1: "slot_page 31 0 (demo_shared 0) = Some (pg, s1)" "s1 = (demo_shared 0)\<lparr>kcore := kcore s1\<rparr>"
    using slot_page_some [OF k demo_free(1), of 31 0] by blast
  note S = slot_page_step [OF k s1(1), of "{}"]
  have e: "psets s1 = psets (demo_shared 0)" by (subst s1(2)) simp
  define st1 where "st1 = upd_pp 31 0 (\<lambda>p. p\<lparr>pp_flags := pp_flags p OR PP_V, pp_pfn := pg\<rparr>) (s1\<lparr>frames := (frames s1)(pg := frames s1 2)\<rparr>)"
  have c: "copy_page 0 30 31 (demo_shared 0) = Some st1" using s1(1) by (simp add: copy_page_def u PP_V_def st1_def)
  have c2: "kcore st1 = kcore s1" "slot st1 31 0 = \<lparr>pp_flags = PP_V, pp_lock = 0, pp_refs = 0, pp_pfn = pg, pp_atl = []\<rparr>"
    by (simp add: st1_def upd_pp_def upd_ps_def) (simp add: st1_def slot_upd_pp e u empty_pp_def)
  have "pp_flags (slot (demo_shared 0) 30 0) AND PP_V \<noteq> 0" by (simp add: u PP_V_def)
  note L = copied_page_lost [OF this u(2) c]
  have "pages (kcore s1) ({3, 4, 5} - {pg}) (insert pg {2})" using S by (simp add: kc_ok_def)
  then have "\<exists>st2. steal_slot steal1 2 31 0 st1 = Some (True, st2)"
    by (intro steal_clean_some [where F = "{3, 4, 5} - {pg}" and U = "insert pg {2}"]) (simp_all add: c2 PP_V_def PP_M_def)
  then obtain st2 where "steal_slot steal1 2 31 0 st1 = Some (True, st2)" by blast
  then show ?thesis using L [of 2 True st2] c by (auto simp: contents_def u PP_V_def demo_page_def zero_page_def)
qed

text \<open>The page is on its way to swap, which refuses it.\<close>

definition demo_refused :: vm where
  "demo_refused = (demo_paging \<lparr>pp_flags = PP_V OR PP_SWAPPED, pp_lock = PP_LOCK, pp_refs = 0, pp_pfn = 2, pp_atl = []\<rparr> 1 (kcore (demo_shared 0))
     ((\<lambda>_. zero_page)(2 := demo_page)) (\<lambda>_ _. zero_page) (\<lambda>_ _. no_pte) (\<lambda>_ _. 0)
     [\<lparr>q_port = 9, q_pset = 30, q_idx = 0, q_off = 0x5000\<rparr>])\<lparr>dev_fails := \<lambda>_ _. True\<rparr>"

theorem failed_write_lost_witness:
  "\<exists>st1 held st2. io_done demo_refused = Some st1 \<and> steal_slot steal1 2 30 0 st1 = Some (held, st2) \<and>
    contents demo_refused 30 0 4 = 42 \<and> contents st2 30 0 4 = 0"
proof -
  have u: "qios demo_refused = [\<lparr>q_port = 9, q_pset = 30, q_idx = 0, q_off = 0x5000\<rparr>]" "dev_fails demo_refused 9 off"
    "slot demo_refused 30 0 = \<lparr>pp_flags = PP_V OR PP_SWAPPED, pp_lock = PP_LOCK, pp_refs = 0, pp_pfn = 2, pp_atl = []\<rparr>"
    "frames demo_refused 2 = demo_page" "kcore demo_refused = kcore (demo_shared 0)" "dev demo_refused p o' = zero_page" for off p o'
    by (simp_all add: demo_refused_def demo_rules)
  define s0 where "s0 = demo_refused\<lparr>qios := []\<rparr>"
  define s1 where "s1 = upd_pp 30 0 (\<lambda>p. p\<lparr>pp_flags := pp_flags p AND NOT (PP_R OR PP_M)\<rparr>) s0"
  define s2 where "s2 = upd_pp 30 0 (\<lambda>p. p\<lparr>pp_lock := pp_lock p AND NOT (PP_LOCK OR PP_WANT)\<rparr>) (upd_ps 30 (\<lambda>p. p\<lparr>ps_locks := ps_locks p - 1\<rparr>) s1)"
  have sl1: "slot s1 30 0 = \<lparr>pp_flags = PP_V OR PP_SWAPPED, pp_lock = PP_LOCK, pp_refs = 0, pp_pfn = 2, pp_atl = []\<rparr>"
    by (simp add: s1_def slot_upd_pp s0_def u) (simp add: PP_V_def PP_SWAPPED_def PP_R_def PP_M_def)
  have "unlock_slot 30 0 s1 = Some s2" by (simp add: unlock_slot_def sl1 s2_def) (simp add: PP_LOCK_def)
  then have "iodone_unlock 30 0 s0 = Some s2" unfolding iodone_unlock_def s1_def .
  then have i: "io_done demo_refused = Some s2" by (simp add: io_done_def u pageio_def s0_def [symmetric])
  have sl2: "slot s2 30 0 = \<lparr>pp_flags = PP_V OR PP_SWAPPED, pp_lock = 0, pp_refs = 0, pp_pfn = 2, pp_atl = []\<rparr>" "kcore s2 = kcore (demo_shared 0)"
    by (simp add: s2_def slot_upd_pp upd_ps_def sl1 PP_LOCK_def PP_WANT_def) (simp add: s2_def s1_def s0_def upd_pp_def upd_ps_def u)
  have "\<exists>st2. steal_slot steal1 2 30 0 s2 = Some (True, st2)"
    by (rule steal_clean_some [where F = "{3, 4, 5}" and U = "{2}"])
      (use demo_shared_kc [of 0] in \<open>simp_all add: sl2 kc_ok_def PP_V_def PP_SWAPPED_def PP_M_def\<close>)
  then obtain st2 where st2: "steal_slot steal1 2 30 0 s2 = Some (True, st2)" by blast
  have "contents st2 30 0 = dev demo_refused (swapdev demo_refused) (swap_off demo_refused 30 0)"
    by (rule failed_write_lost [OF u(1) _ _ _ _ _ _ i _ st2]) (simp_all add: u PP_V_def PP_SWAPPED_def)
  then have "contents st2 30 0 4 = 0" by (simp add: u zero_page_def)
  moreover have "contents demo_refused 30 0 4 = 42" by (simp add: contents_def u PP_V_def PP_SWAPPED_def demo_page_def)
  ultimately show ?thesis using i st2 by blast
qed

end
