(* ===== verification/Spinlocks.thy ===== *)
theory Spinlocks
  imports Vsta_Prelude
begin

text \<open>
  The spinlocks of the uniprocessor \<open>os/mach/mutex.c\<close>.  The state is which locks are held
  (\<open>l_lock\<close>), whether the processor accepts interrupts, and the per-CPU count \<open>pc_locks\<close>.  The
  kernel is built with \<open>DEBUG\<close>, so a failing \<open>ASSERT_DEBUG\<close> stops it: that is the result \<open>None\<close>.
  \<open>cli()\<close> disables interrupts and tells whether they were enabled; \<open>sti()\<close> enables them.
\<close>

datatype spl = SPL0 | SPLHI

record 'l lockst =
  l_lock :: "'l \<Rightarrow> bool"
  if_flag :: bool
  pc_locks :: u16

definition p_lock :: "'l \<Rightarrow> spl \<Rightarrow> 'l lockst \<Rightarrow> (spl \<times> 'l lockst) option" where
  "p_lock l s st =
     (let (x, st1) = (if s = SPLHI then (if_flag st, st\<lparr>if_flag := False\<rparr>) else (True, st)) in
      if l_lock st1 l then None
      else Some (if x then SPL0 else SPLHI,
             st1\<lparr>l_lock := (l_lock st1)(l := True), pc_locks := pc_locks st1 + 1\<rparr>))"

text \<open>\<open>cp_lock\<close> returns \<open>-1\<close> for a lock that is taken: here the first component \<open>None\<close>.\<close>

definition cp_lock :: "'l \<Rightarrow> spl \<Rightarrow> 'l lockst \<Rightarrow> spl option \<times> 'l lockst" where
  "cp_lock l s st =
     (let (x, st1) = (if s = SPLHI then (if_flag st, st\<lparr>if_flag := False\<rparr>) else (True, st)) in
      if l_lock st1 l then (None, if s = SPLHI \<and> x then st1\<lparr>if_flag := True\<rparr> else st1)
      else (Some (if x then SPL0 else SPLHI),
             st1\<lparr>l_lock := (l_lock st1)(l := True), pc_locks := pc_locks st1 + 1\<rparr>))"

definition v_lock :: "'l \<Rightarrow> spl \<Rightarrow> 'l lockst \<Rightarrow> 'l lockst option" where
  "v_lock l s st =
     (if \<not> l_lock st l then None
      else Some (st\<lparr>l_lock := (l_lock st)(l := False),
              if_flag := (if s = SPL0 then True else if_flag st), pc_locks := pc_locks st - 1\<rparr>))"

definition init_lock :: "'l \<Rightarrow> 'l lockst \<Rightarrow> 'l lockst" where
  "init_lock l st = st\<lparr>l_lock := (l_lock st)(l := False)\<rparr>"

section \<open>The count of held locks\<close>

definition held :: "'l lockst \<Rightarrow> 'l set" where
  "held st = {l. l_lock st l}"

definition lock_inv :: "'l lockst \<Rightarrow> bool" where
  "lock_inv st = (finite (held st) \<and> unat (pc_locks st) = card (held st))"

lemma p_lock_Some:
  "p_lock l s st = Some (r, st') \<longleftrightarrow>
     \<not> l_lock st l \<and> r = (if s = SPLHI \<and> \<not> if_flag st then SPLHI else SPL0) \<and>
     st' = st\<lparr>l_lock := (l_lock st)(l := True), if_flag := (s \<noteq> SPLHI \<and> if_flag st),
              pc_locks := pc_locks st + 1\<rparr>"
  by (cases s) (auto simp: p_lock_def)

lemma cp_lock_taken: "l_lock st l \<Longrightarrow> cp_lock l s st = (None, st)"
  by (cases s) (auto simp: cp_lock_def)

lemma cp_lock_free: "\<not> l_lock st l \<Longrightarrow> \<exists>r st'. p_lock l s st = Some (r, st') \<and> cp_lock l s st = (Some r, st')"
  by (cases s) (auto simp: p_lock_def cp_lock_def)

lemma v_lock_Some:
  "v_lock l s st = Some st' \<longleftrightarrow>
     l_lock st l \<and> st' = st\<lparr>l_lock := (l_lock st)(l := False),
       if_flag := (s = SPL0 \<or> if_flag st), pc_locks := pc_locks st - 1\<rparr>"
  by (auto simp: v_lock_def)

lemma held_upd:
  "held (st\<lparr>l_lock := (l_lock st)(l := b), if_flag := i, pc_locks := n\<rparr>) =
     (if b then insert l (held st) else held st - {l})"
  by (auto simp: held_def)

lemma lock_inv_p_lock:
  assumes "lock_inv st" "card (held st) < 65535" "p_lock l s st = Some (r, st')"
  shows "lock_inv st' \<and> held st' = insert l (held st) \<and> l \<notin> held st"
  using assms by (auto simp: lock_inv_def p_lock_Some held_upd unat_u16_inc) (simp_all add: held_def)

lemma lock_inv_v_lock:
  assumes "lock_inv st" "v_lock l s st = Some st'"
  shows "lock_inv st' \<and> held st' = held st - {l}"
proof -
  have l: "l \<in> held st" and st': "held st' = held st - {l}" "pc_locks st' = pc_locks st - 1"
    using assms(2) by (auto simp: v_lock_Some held_upd) (simp add: held_def)
  have "0 < card (held st)" using l assms(1) by (auto simp: lock_inv_def card_gt_0_iff)
  then have "unat (pc_locks st - 1) = unat (pc_locks st) - 1"
    using assms(1) by (intro unat_minus_one) (auto simp: lock_inv_def)
  then show ?thesis using assms(1) l st' by (auto simp: lock_inv_def)
qed

text \<open>Taking a lock at \<open>SPLHI\<close> and giving it back with the level returned restores everything.\<close>

lemma lock_bracket:
  "p_lock l SPLHI st = Some (r, st1) \<Longrightarrow> v_lock l r st1 = Some st"
  by (cases st) (auto simp: p_lock_Some v_lock_Some fun_eq_iff)

text \<open>Sections nest: the level a section was entered with comes back at its end.\<close>

datatype 'l crit = Crit 'l "'l crit list"

fun exec_section :: "'l crit \<Rightarrow> 'l lockst \<Rightarrow> 'l lockst option"
  and exec_sections :: "'l crit list \<Rightarrow> 'l lockst \<Rightarrow> 'l lockst option" where
  "exec_section (Crit l ss) st =
     (case p_lock l SPLHI st of
        None \<Rightarrow> None
      | Some (r, st1) \<Rightarrow>
          (case exec_sections ss st1 of None \<Rightarrow> None | Some st2 \<Rightarrow> v_lock l r st2))"
| "exec_sections [] st = Some st"
| "exec_sections (s # ss) st =
     (case exec_section s st of None \<Rightarrow> None | Some st1 \<Rightarrow> exec_sections ss st1)"

lemma exec_section_restores:
  "exec_section s st = Some st' \<Longrightarrow> st' = st"
  "exec_sections ss st = Some st' \<Longrightarrow> st' = st"
proof (induction s st and ss st arbitrary: st' and st' rule: exec_section_exec_sections.induct)
  case (1 l ss st)
  obtain r st1 where p: "p_lock l SPLHI st = Some (r, st1)"
    using "1.prems" by (auto split: option.splits)
  obtain st2 where b: "exec_sections ss st1 = Some st2" "v_lock l r st2 = Some st'"
    using "1.prems" p by (auto split: option.splits)
  then have "st2 = st1" using "1.IH" p by blast
  then show ?case using lock_bracket [OF p] b(2) by simp
qed (auto split: option.splits)

fun locks_of :: "'l crit \<Rightarrow> 'l list"
  and locks_ofs :: "'l crit list \<Rightarrow> 'l list" where
  "locks_of (Crit l ss) = l # locks_ofs ss"
| "locks_ofs [] = []"
| "locks_ofs (s # ss) = locks_of s @ locks_ofs ss"

text \<open>A section deadlocks exactly when it takes a lock that it, or its caller, already holds.\<close>

fun no_relock :: "'l set \<Rightarrow> 'l crit \<Rightarrow> bool"
  and no_relocks :: "'l set \<Rightarrow> 'l crit list \<Rightarrow> bool" where
  "no_relock H (Crit l ss) = (l \<notin> H \<and> no_relocks (insert l H) ss)"
| "no_relocks H [] = True"
| "no_relocks H (s # ss) = (no_relock H s \<and> no_relocks H ss)"

lemma exec_section_iff:
  "(exec_section s st \<noteq> None) = no_relock (held st) s"
  "(exec_sections ss st \<noteq> None) = no_relocks (held st) ss"
proof (induction s st and ss st rule: exec_section_exec_sections.induct)
  case (1 l ss st)
  show ?case
  proof (cases "p_lock l SPLHI st")
    case None
    then have "l \<in> held st" by (auto simp: p_lock_def held_def split: if_splits)
    then show ?thesis using None by simp
  next
    case (Some p)
    obtain r st1 where p: "p_lock l SPLHI st = Some (r, st1)" using Some by (cases p) auto
    then have h: "l \<notin> held st" "held st1 = insert l (held st)"
      by (auto simp: p_lock_Some held_upd) (simp add: held_def)
    have "v_lock l r st2 \<noteq> None" if "exec_sections ss st1 = Some st2" for st2
      using exec_section_restores(2) [OF that] lock_bracket [OF p] by simp
    moreover have "(exec_sections ss st1 \<noteq> None) = no_relocks (insert l (held st)) ss"
      using "1.IH" [OF p refl] h by simp
    ultimately show ?thesis using p h by (auto split: option.splits)
  qed
next
  case (3 s ss st)
  then show ?case using exec_section_restores(1) [of s st] by (auto split: option.splits)
qed simp

section \<open>What the spinlocks guarantee\<close>

text \<open>
  Critical sections nest: a section entered at \<open>SPLHI\<close> and left with the level that
  \<open>p_lock\<close> returned restores the locks, the interrupt flag and \<open>pc_locks\<close> whatever sections
  run inside it, and it stops the kernel exactly when some lock is taken twice.
\<close>

theorem lock_sections_nest:
  "exec_section s st = (if no_relock (held st) s then Some st else None)"
  using exec_section_iff(1) [of s st] exec_section_restores(1) [of s st]
  by (cases "exec_section s st") auto

text \<open>
  An \<open>SPL0\<close> lock may not nest in an \<open>SPLHI\<close> one: nothing stops it, contrary to the
  header, and its release enables interrupts while the outer lock is still held.
\<close>

theorem spl0_nesting_enables_interrupts:
  assumes "l \<noteq> k" and "\<not> l_lock st l" and "\<not> l_lock st k"
  shows "\<exists>r st1 st2 st3. p_lock l SPLHI st = Some (r, st1) \<and> \<not> if_flag st1 \<and>
     p_lock k SPL0 st1 = Some (SPL0, st2) \<and> v_lock k SPL0 st2 = Some st3 \<and>
     l_lock st3 l \<and> if_flag st3"
  using assms by (auto simp: p_lock_Some v_lock_Some)

theorem spl0_nesting_enables_interrupts_witness:
  "\<exists>r st1 st2 st3. p_lock (0 :: nat) SPLHI \<lparr>l_lock = \<lambda>_. False, if_flag = True, pc_locks = 0\<rparr> = Some (r, st1) \<and>
     \<not> if_flag st1 \<and> p_lock 1 SPL0 st1 = Some (SPL0, st2) \<and> v_lock 1 SPL0 st2 = Some st3 \<and>
     l_lock st3 0 \<and> if_flag st3"
  by (rule spl0_nesting_enables_interrupts) simp_all

end
