(* ===== verification/Ports.thy ===== *)
theory Ports
  imports Ring_Lists Hash_Table Segments
begin

text \<open>
  The data structures of the message system, \<open>os/kern/port.c\<close> and parts of \<open>os/kern/msg.c\<close> and
  \<open>os/kern/msgcon.c\<close>: the queue of messages of a port (linked by \<open>m_next\<close>), the ring of the
  connections to it (\<open>p_next\<close>, \<open>p_prev\<close>), the tables of a process and the table of port names.

  A function that holds a spinlock from start to end is one step.  The semaphores are counts:
  a \<open>p_sema\<close> subtracts one and the caller sleeps while the count is negative.  The kernel is
  built with \<open>DEBUG\<close>; a failing assertion, which stops it, is \<open>None\<close>.  A connection is known to
  its server by the address of the portref.
\<close>

abbreviation (input) PROCOPENS :: nat where "PROCOPENS \<equiv> 32"
abbreviation (input) PROCPORTS :: nat where "PROCPORTS \<equiv> 4"
abbreviation (input) MSGSEGS :: nat where "MSGSEGS \<equiv> 4"
abbreviation (input) PORT_RESERVED :: addr where "PORT_RESERVED \<equiv> 1"

datatype pstate = PS_NONE | PS_IOWAIT | PS_IODONE | PS_ABWAIT | PS_ABDONE | PS_OPENING | PS_CLOSING

definition M_CONNECT :: u32 where "M_CONNECT = 1"
definition M_DISCONNECT :: u32 where "M_DISCONNECT = 2"
definition M_DUP :: u32 where "M_DUP = 3"
definition M_ABORT :: u32 where "M_ABORT = 4"
definition M_ISR :: u32 where "M_ISR = 5"
definition M_TIME :: u32 where "M_TIME = 6"
definition M_RESVD :: u32 where "M_RESVD = 99"
definition M_READ :: u32 where "M_READ = 0x80000000"

lemmas op_defs = M_CONNECT_def M_DISCONNECT_def M_DUP_def M_ABORT_def M_ISR_def M_TIME_def
  M_RESVD_def M_READ_def

record sysmsg =
  m_op :: u32
  m_arg :: u32
  m_arg1 :: u32
  m_nseg :: int
  m_sender :: addr
  m_seg :: "addr list"
  m_err :: string

record portref =
  pr_sema :: int
  p_port :: addr
  p_iowait :: int
  p_svwait :: int
  p_state :: pstate
  p_nodup :: bool
  p_msg :: addr
  p_segs :: "addr list"

record port =
  p_hd :: addr
  p_tl :: addr
  pt_sema :: int
  p_wait :: int
  p_closing :: bool
  p_isr :: bool
  p_refs :: addr
  p_name :: u32

record proc =
  p_open :: "addr list"
  p_nopen :: int
  p_ports :: "addr list"
  p_prefs :: "addr hash option"

record ipc =
  prs :: "addr \<Rightarrow> portref"
  p_next :: "addr \<Rightarrow> addr"
  p_prev :: "addr \<Rightarrow> addr"
  msgs :: "addr \<Rightarrow> sysmsg"
  m_next :: "addr \<Rightarrow> addr"
  pts :: "addr \<Rightarrow> port"
  procs :: "addr \<Rightarrow> proc"
  portnames :: "addr hash option"
  rotor :: u32
  vm :: vmem

definition upd_pr :: "addr \<Rightarrow> (portref \<Rightarrow> portref) \<Rightarrow> ipc \<Rightarrow> ipc" where
  "upd_pr a f st = st\<lparr>prs := (prs st)(a := f (prs st a))\<rparr>"

definition upd_pt :: "addr \<Rightarrow> (port \<Rightarrow> port) \<Rightarrow> ipc \<Rightarrow> ipc" where
  "upd_pt a f st = st\<lparr>pts := (pts st)(a := f (pts st a))\<rparr>"

definition upd_msg :: "addr \<Rightarrow> (sysmsg \<Rightarrow> sysmsg) \<Rightarrow> ipc \<Rightarrow> ipc" where
  "upd_msg a f st = st\<lparr>msgs := (msgs st)(a := f (msgs st a))\<rparr>"

definition upd_proc :: "addr \<Rightarrow> (proc \<Rightarrow> proc) \<Rightarrow> ipc \<Rightarrow> ipc" where
  "upd_proc a f st = st\<lparr>procs := (procs st)(a := f (procs st a))\<rparr>"

lemmas ipc_upd = upd_pr_def upd_pt_def upd_msg_def upd_proc_def

section \<open>The message queue of a port\<close>

definition lqueue_msg :: "addr \<Rightarrow> addr \<Rightarrow> ipc \<Rightarrow> ipc" where
  "lqueue_msg port sm st =
     (let t = p_tl (pts st port);
          nx = (m_next st)(sm := 0);
          nx1 = (if t \<noteq> 0 then nx(t := sm) else nx)
      in upd_pt port (\<lambda>p. p\<lparr>p_tl := sm, p_hd := (if p_hd p = 0 then sm else p_hd p), p_wait := p_wait p + 1\<rparr>)
           (st\<lparr>m_next := nx1\<rparr>))"

definition queue_msg :: "addr \<Rightarrow> addr \<Rightarrow> ipc \<Rightarrow> ipc" where
  "queue_msg port sm st = lqueue_msg port sm st"

text \<open>The lines of \<open>msg_receive\<close> that take the next message; the caller has found \<open>p_hd\<close> set.\<close>

definition take_msg :: "addr \<Rightarrow> ipc \<Rightarrow> ipc" where
  "take_msg port st =
     (let sm = p_hd (pts st port); h = m_next st sm in
      upd_pt port (\<lambda>p. p\<lparr>p_hd := h, p_tl := (if h = 0 then 0 else p_tl p)\<rparr>) st)"

definition msg_q :: "addr \<Rightarrow> ipc \<Rightarrow> addr list \<Rightarrow> bool" where
  "msg_q port st xs = (chain (m_next st) (p_hd (pts st port)) xs \<and> distinct xs \<and>
     p_tl (pts st port) = (if xs = [] then 0 else last xs))"

lemma lqueue_msg_q:
  assumes q: "msg_q port st xs" and x: "x \<noteq> 0" "x \<notin> set xs"
  shows "msg_q port (lqueue_msg port x st) (xs @ [x])"
proof (cases xs rule: rev_cases)
  case Nil
  then show ?thesis using assms by (simp add: msg_q_def lqueue_msg_def upd_pt_def)
next
  case (snoc ys t)
  have t: "t \<noteq> 0" "p_tl (pts st port) = t" using q snoc chain_in_nonzero by (auto simp: msg_q_def)
  have hd: "p_hd (pts st port) \<noteq> 0" using q snoc by (cases ys) (auto simp: msg_q_def)
  show ?thesis using q t hd x snoc chain_snoc [of "m_next st" "p_hd (pts st port)" ys t x]
    by (simp add: msg_q_def lqueue_msg_def upd_pt_def)
qed

lemma take_msg_q:
  "msg_q port st (x # xs) \<Longrightarrow> msg_q port (take_msg port st) xs \<and> p_hd (pts st port) = x \<and> x \<noteq> 0"
  by (cases xs) (auto simp: msg_q_def take_msg_def upd_pt_def)

lemma msg_q_unique: "msg_q port st xs \<Longrightarrow> msg_q port st ys \<Longrightarrow> xs = ys"
  by (auto simp: msg_q_def intro: chain_unique)

interpretation msgq: fifo "lqueue_msg port" "take_msg port" "\<lambda>st. p_hd (pts st port)"
  "\<lambda>x st. x \<noteq> 0 \<and> (\<forall>xs. msg_q port st xs \<longrightarrow> x \<notin> set xs)" "msg_q port" for port
  by unfold_locales (auto simp: lqueue_msg_q dest: take_msg_q)

section \<open>The connections of a port\<close>

definition ref_port :: "addr \<Rightarrow> addr \<Rightarrow> ipc \<Rightarrow> ipc" where
  "ref_port port pr st =
     (let ref = p_refs (pts st port) in
      if ref = 0 then
        (upd_pt port (\<lambda>p. p\<lparr>p_refs := pr\<rparr>) st)\<lparr>p_prev := (p_prev st)(pr := pr), p_next := (p_next st)(pr := pr)\<rparr>
      else
        let nx = (p_next st)(pr := p_next st ref);
            pv = (p_prev st)(nx ref := pr)
        in st\<lparr>p_next := nx(ref := pr), p_prev := pv(pr := ref)\<rparr>)"

text \<open>The search of the \<open>DEBUG\<close> kernel: false where it would stop for a portref not in the ring.\<close>

partial_function (option) ref_search :: "(addr \<Rightarrow> addr) \<Rightarrow> addr \<Rightarrow> addr \<Rightarrow> addr \<Rightarrow> bool option" where
  "ref_search n pr start cur =
     (if cur = pr then Some True
      else if cur = start then Some False
      else ref_search n pr start (n cur))"

definition deref_check :: "addr \<Rightarrow> addr \<Rightarrow> ipc \<Rightarrow> ipc option" where
  "deref_check port pr st =
     (let ref = p_refs (pts st port) in
      if ref = 0 \<or> ref_search (p_next st) pr ref (p_next st ref) \<noteq> Some True then None
      else if p_next st pr = pr then
        (if ref \<noteq> pr \<or> p_wait (pts st port) < 0 then None
         else case chain_walk (m_next st) (p_hd (pts st port)) of
           None \<Rightarrow> None
         | Some q \<Rightarrow>
             if list_all (\<lambda>sm. m_op (msgs st sm) = M_ISR \<or> m_op (msgs st sm) = M_CONNECT) q
             then Some (upd_pt port (\<lambda>p. p\<lparr>p_refs := 0\<rparr>) st) else None)
      else Some st)"

definition deref_port :: "addr \<Rightarrow> addr \<Rightarrow> ipc \<Rightarrow> ipc option" where
  "deref_port port pr st0 =
     (let ref = p_refs (pts st0 port) in
      Option.bind (deref_check port pr st0) (\<lambda>st.
        let st1 = (if p_next st pr \<noteq> pr then
              let pv = (p_prev st)(p_next st pr := p_prev st pr);
                  nx = (p_next st)(pv pr := p_next st pr);
                  st2 = st\<lparr>p_prev := pv, p_next := nx\<rparr>
              in if ref = pr then upd_pt port (\<lambda>p. p\<lparr>p_refs := nx pr\<rparr>) st2 else st2
            else st)
        in Some (st1\<lparr>p_next := (p_next st1)(pr := 0), p_prev := (p_prev st1)(pr := 0)\<rparr>)))"

text \<open>What \<open>deref_port\<close> leaves of \<open>p_refs\<close> without \<open>DEBUG\<close>: a lone reference stays linked.\<close>

definition deref_port_release :: "addr \<Rightarrow> addr \<Rightarrow> ipc \<Rightarrow> ipc" where
  "deref_port_release port pr st =
     (if p_next st pr \<noteq> pr then
        let pv = (p_prev st)(p_next st pr := p_prev st pr);
            nx = (p_next st)(pv pr := p_next st pr);
            st2 = st\<lparr>p_prev := pv, p_next := nx\<rparr>
        in if p_refs (pts st port) = pr then upd_pt port (\<lambda>p. p\<lparr>p_refs := nx pr\<rparr>) st2 else st2
      else st)"

definition ref_ring :: "addr \<Rightarrow> ipc \<Rightarrow> addr list \<Rightarrow> bool" where
  "ref_ring port st xs = ring_q (p_refs (pts st port)) (p_next st) (p_prev st) xs"

lemma ref_port_refs:
  assumes r: "ref_ring port st xs" and x: "x \<noteq> 0" "x \<notin> set xs"
  shows "ref_ring port (ref_port port x st) (case xs of [] \<Rightarrow> [x] | h # ys \<Rightarrow> h # x # ys)"
proof (cases xs)
  case Nil
  then show ?thesis using assms by (simp add: ref_ring_def ref_port_def upd_pt_def ring_q_Cons)
next
  case (Cons h ys)
  then have h: "p_refs (pts st port) = h" "h \<noteq> 0" "h \<noteq> x" "ring (p_next st) (p_prev st) (h # ys)"
    "0 \<notin> set ys" using assms by (auto simp: ref_ring_def ring_q_Cons)
  show ?thesis using ring_insert_after [OF h(4), of x] h x Cons
    by (auto simp: ref_ring_def ref_port_def Let_def ring_q_Cons)
qed

lemma ref_search_links:
  "links n p (cur # cs @ [start]) \<Longrightarrow> start \<notin> set cs \<Longrightarrow> cur \<noteq> start \<Longrightarrow>
   ref_search n pr start cur = Some (pr \<in> set (cur # cs) \<or> pr = start)"
proof (induction cs arbitrary: cur)
  case Nil
  then have "n cur = start" by simp
  moreover have "ref_search n pr start start = Some (pr = start)"
    by (subst ref_search.simps) simp
  ultimately show ?case using Nil.prems by (subst ref_search.simps) auto
next
  case (Cons d cs)
  then have "n cur = d" "ref_search n pr start d = Some (pr \<in> set (d # cs) \<or> pr = start)" by auto
  then show ?case using Cons.prems by (subst ref_search.simps) auto
qed

lemma ref_search_ring:
  assumes "ring n p (h # ys)"
  shows "ref_search n pr h (n h) = Some (pr \<in> set (h # ys))"
proof (cases ys)
  case Nil
  then have "n h = h" using assms by simp
  then show ?thesis using Nil by (subst ref_search.simps) auto
next
  case (Cons y zs)
  then have "n h = y" "links n p (y # zs @ [h])" "h \<notin> set zs" "y \<noteq> h"
    using assms by (auto simp: ring_def)
  then show ?thesis using ref_search_links [of n p y zs h pr] Cons by auto
qed

lemma deref_port_refs:
  assumes r: "ref_ring port st (as @ pr # bs)"
    and last: "as @ bs = [] \<Longrightarrow> 0 \<le> p_wait (pts st port) \<and> msg_q port st q \<and>
      list_all (\<lambda>sm. m_op (msgs st sm) = M_ISR \<or> m_op (msgs st sm) = M_CONNECT) q"
  shows "\<exists>st'. deref_port port pr st = Some st' \<and> ref_ring port st' (as @ bs) \<and> prs st' = prs st \<and>
    msgs st' = msgs st \<and> m_next st' = m_next st \<and> procs st' = procs st \<and> portnames st' = portnames st \<and>
    (\<forall>f. pts st' f = (pts st f)\<lparr>p_refs := p_refs (pts st' f)\<rparr>)"
proof -
  have q: "ring_q (p_refs (pts st port)) (p_next st) (p_prev st) (as @ pr # bs)"
    using r by (simp add: ref_ring_def)
  obtain h ys where hy: "as @ pr # bs = h # ys" by (cases as) auto
  then have h: "p_refs (pts st port) = h" "h \<noteq> 0" "ring (p_next st) (p_prev st) (h # ys)"
    using q by (auto simp: ring_q_Cons)
  have s: "ref_search (p_next st) pr h (p_next st h) = Some True"
    using ref_search_ring [OF h(3), of pr] hy by (metis in_set_conv_decomp)
  have u: "(p_next st pr = pr) = (as @ bs = [])"
    "as @ bs \<noteq> [] \<Longrightarrow> p_prev st pr \<noteq> pr \<and>
       ring_q (if p_refs (pts st port) = pr then p_next st pr else p_refs (pts st port))
       ((p_next st)(p_prev st pr := p_next st pr, pr := 0)) ((p_prev st)(p_next st pr := p_prev st pr, pr := 0)) (as @ bs)"
    using ring_q_unlink [OF q, of 0 0] by auto
  show ?thesis
  proof (cases "as @ bs = []")
    case True
    then have "pr = h" using hy by auto
    moreover have "chain_walk (m_next st) (p_hd (pts st port)) = Some q"
      using last [OF True] by (intro chain_walk_chain) (simp add: msg_q_def)
    ultimately show ?thesis using True h s u(1) last [OF True]
      by (auto simp: deref_port_def deref_check_def Let_def ref_ring_def upd_pt_def)
  next
    case False
    then have "deref_check port pr st = Some st" using h s u(1) by (auto simp: deref_check_def Let_def)
    then show ?thesis using u(1) u(2) [OF False] False
      by (cases "p_refs (pts st port) = pr") (auto simp: deref_port_def Let_def ref_ring_def upd_pt_def)
  qed
qed

section \<open>The tables of a process\<close>

text \<open>
  A table search of the code, \<open>for (slot = 0; slot < n; ++slot) if (t[slot] == 0) break\<close>.
\<close>

definition first_free :: "addr list \<Rightarrow> nat" where
  "first_free t = length (takeWhile (\<lambda>x. x \<noteq> 0) t)"

lemma first_free_le: "first_free t \<le> length t"
  by (simp add: first_free_def length_takeWhile_le)

lemma first_free_replicate [simp]: "first_free (replicate n 0) = 0"
  by (cases n) (auto simp: first_free_def)

lemma first_free_slot: "first_free t < length t \<Longrightarrow> t ! first_free t = 0"
  unfolding first_free_def using nth_length_takeWhile by fastforce

lemma first_free_before: "i < first_free t \<Longrightarrow> t ! i \<noteq> 0"
proof (induction t arbitrary: i)
  case (Cons x t)
  then show ?case by (cases i) (auto simp: first_free_def split: if_splits)
qed (simp add: first_free_def)

lemma first_free_full: "(first_free t = length t) = (0 \<notin> set t)"
proof
  assume "first_free t = length t"
  then have "takeWhile (\<lambda>x. x \<noteq> 0) t = t"
    unfolding first_free_def by (metis takeWhile_eq_take take_all order_refl)
  then show "0 \<notin> set t" by (metis (mono_tags) set_takeWhileD)
next
  assume "0 \<notin> set t"
  then show "first_free t = length t" by (metis (mono_tags) first_free_def takeWhile_eq_all_conv)
qed

text \<open>The first result of \<open>alloc_open\<close> is the slot or the error.\<close>

definition alloc_open :: "proc \<Rightarrow> (nat syscall \<times> proc) option" where
  "alloc_open p =
     (if int PROCOPENS \<le> p_nopen p then Some (Inl ENOSPC, p)
      else
        let slot = first_free (p_open p) in
        if \<not> slot < PROCOPENS then None
        else Some (Inr slot, p\<lparr>p_open := (p_open p)[slot := PORT_RESERVED], p_nopen := p_nopen p + 1\<rparr>))"

definition free_open :: "nat \<Rightarrow> proc \<Rightarrow> proc" where
  "free_open slot p = p\<lparr>p_open := (p_open p)[slot := 0], p_nopen := p_nopen p - 1\<rparr>"

text \<open>\<open>p_nopen\<close> counts the slots in use.\<close>

fun used :: "addr list \<Rightarrow> nat" where
  "used [] = 0"
| "used (x # t) = (if x = 0 then 0 else 1) + used t"

definition opens_ok :: "proc \<Rightarrow> bool" where
  "opens_ok p = (length (p_open p) = PROCOPENS \<and> p_nopen p = int (used (p_open p)))"

lemma used_update:
  "i < length t \<Longrightarrow> used (t[i := v]) + (if t ! i = 0 then 0 else 1) = used t + (if v = 0 then 0 else 1)"
proof (induction t arbitrary: i)
  case (Cons x t)
  then show ?case by (cases i) auto
qed simp

lemma used_le: "used t \<le> length t"
  by (induction t) auto

lemma used_replicate [simp]: "used (replicate n 0) = 0"
  by (induction n) auto

lemma used_full: "(used t = length t) = (0 \<notin> set t)"
proof (induction t)
  case (Cons x t)
  then show ?case using used_le [of t] by auto
qed simp

lemma alloc_open_spec:
  assumes "opens_ok p"
  shows "if 0 \<in> set (p_open p)
    then \<exists>slot p'. alloc_open p = Some (Inr slot, p') \<and> slot < PROCOPENS \<and> p_open p ! slot = 0 \<and>
      opens_ok p' \<and> p_open p' = (p_open p)[slot := PORT_RESERVED]
    else alloc_open p = Some (Inl ENOSPC, p)"
proof (cases "0 \<in> set (p_open p)")
  case True
  have len: "length (p_open p) = PROCOPENS" using assms by (simp add: opens_ok_def)
  have lt: "first_free (p_open p) < PROCOPENS"
    using True first_free_full [of "p_open p"] first_free_le [of "p_open p"] len by auto
  then have z: "p_open p ! first_free (p_open p) = 0" using first_free_slot len by simp
  have "used (p_open p) < PROCOPENS"
    using True used_full [of "p_open p"] used_le [of "p_open p"] len by linarith
  then have "p_nopen p < int PROCOPENS" using assms by (simp add: opens_ok_def)
  then show ?thesis using True lt z assms len used_update [of "first_free (p_open p)" "p_open p" 1]
    by (auto simp: alloc_open_def Let_def opens_ok_def)
next
  case False
  then have "used (p_open p) = PROCOPENS"
    using used_full [of "p_open p"] assms by (simp add: opens_ok_def)
  then show ?thesis using False assms by (simp add: alloc_open_def opens_ok_def)
qed

lemma free_open_spec:
  "opens_ok p \<Longrightarrow> slot < PROCOPENS \<Longrightarrow> p_open p ! slot \<noteq> 0 \<Longrightarrow> opens_ok (free_open slot p)"
  using used_update [of slot "p_open p" 0] by (auto simp: opens_ok_def free_open_def)

lemma alloc_free_open:
  assumes "opens_ok p" "alloc_open p = Some (Inr slot, p')"
  shows "free_open slot p' = p"
proof -
  have "slot < length (p_open p)" "p_open p ! slot = 0" "p' = p\<lparr>p_open := (p_open p)[slot := PORT_RESERVED], p_nopen := p_nopen p + 1\<rparr>"
    using assms alloc_open_spec [OF assms(1)] first_free_slot [of "p_open p"]
    by (auto simp: alloc_open_def Let_def opens_ok_def split: if_splits)
  moreover from this have "(p_open p)[slot := 0] = p_open p" by (metis list_update_id)
  ultimately show ?thesis by (simp add: free_open_def)
qed

section \<open>Finding a connection or a port by its handle\<close>

text \<open>
  A search that may sleep comes in two parts.  The first ends where the caller has taken one
  from the count of the semaphore; its flag says whether the count became negative, so that
  the caller sleeps.  \<open>intr\<close> is the outcome of that sleep: true when a signal ended it, in
  which case \<open>cunsleep\<close> has given the count back.  \<open>env\<close> stands for what the other threads do
  in the meantime.
\<close>

definition portref_slot :: "proc \<Rightarrow> int \<Rightarrow> addr option" where
  "portref_slot p port =
     (if port < 0 \<or> int PROCOPENS \<le> port then None
      else let pr = p_open p ! nat port in if pr = 0 \<or> pr = PORT_RESERVED then None else Some pr)"

definition find_portref_start :: "addr \<Rightarrow> int \<Rightarrow> ipc \<Rightarrow> (addr \<times> bool) syscall \<times> ipc" where
  "find_portref_start pa port st =
     (case portref_slot (procs st pa) port of
        None \<Rightarrow> (Inl EINVAL, st)
      | Some pr \<Rightarrow>
          if p_port (prs st pr) = 0 then (Inl EIO, st)
          else let st1 = upd_pr pr (\<lambda>r. r\<lparr>pr_sema := pr_sema r - 1\<rparr>) st
               in (Inr (pr, pr_sema (prs st1 pr) < 0), st1))"

definition find_portref_done :: "bool \<Rightarrow> addr \<Rightarrow> ipc \<Rightarrow> addr syscall \<times> ipc" where
  "find_portref_done intr pr st =
     (if intr then (Inl EINTR, st)
      else if p_port (prs st pr) = 0 then (Inl EIO, upd_pr pr (\<lambda>r. r\<lparr>pr_sema := pr_sema r + 1\<rparr>) st)
      else (Inr pr, st))"

definition find_portref :: "(ipc \<Rightarrow> bool \<times> ipc) \<Rightarrow> addr \<Rightarrow> int \<Rightarrow> ipc \<Rightarrow> addr syscall \<times> ipc" where
  "find_portref env pa port st =
     (case find_portref_start pa port st of
        (Inl e, st1) \<Rightarrow> (Inl e, st1)
      | (Inr (pr, slp), st1) \<Rightarrow>
          let (intr, st2) = (if slp then env st1 else (False, st1)) in find_portref_done intr pr st2)"

definition delete_portref :: "addr \<Rightarrow> int \<Rightarrow> ipc \<Rightarrow> (addr \<times> bool) syscall \<times> ipc" where
  "delete_portref pa port st =
     (case portref_slot (procs st pa) port of
        None \<Rightarrow> (Inl EINVAL, st)
      | Some pr \<Rightarrow>
          let st1 = upd_proc pa (\<lambda>p. p\<lparr>p_open := (p_open p)[nat port := 0], p_nopen := p_nopen p - 1\<rparr>) st;
              st2 = upd_pr pr (\<lambda>r. r\<lparr>pr_sema := pr_sema r - 1\<rparr>) st1
          in (Inr (pr, pr_sema (prs st2 pr) < 0), st2))"

definition port_slot :: "proc \<Rightarrow> int \<Rightarrow> addr option" where
  "port_slot p portid =
     (let i = portid - int PROCOPENS in
      if i < 0 \<or> int PROCPORTS \<le> i then None
      else let port = p_ports p ! nat i in if port = 0 then None else Some port)"

definition find_port :: "addr \<Rightarrow> int \<Rightarrow> ipc \<Rightarrow> (addr \<times> bool) syscall \<times> ipc" where
  "find_port pa portid st =
     (case port_slot (procs st pa) portid of
        None \<Rightarrow> (Inl EINVAL, st)
      | Some port \<Rightarrow>
          let st1 = upd_pt port (\<lambda>p. p\<lparr>pt_sema := pt_sema p - 1\<rparr>) st
          in (Inr (port, pt_sema (pts st1 port) < 0), st1))"

definition delete_port :: "addr \<Rightarrow> int \<Rightarrow> ipc \<Rightarrow> (addr \<times> bool) syscall \<times> ipc" where
  "delete_port pa portid st =
     (case port_slot (procs st pa) portid of
        None \<Rightarrow> (Inl EINVAL, st)
      | Some port \<Rightarrow>
          let st1 = upd_proc pa (\<lambda>p. p\<lparr>p_ports := (p_ports p)[nat (portid - int PROCOPENS) := 0]\<rparr>) st;
              st2 = upd_pt port (\<lambda>p. p\<lparr>pt_sema := pt_sema p - 1\<rparr>) st1
          in (Inr (port, pt_sema (pts st2 port) < 0), st2))"

section \<open>Port names\<close>

abbreviation (input) START_ROTOR :: u32 where "START_ROTOR \<equiv> 1024"

text \<open>The search for a free name; \<open>None\<close> is a search that does not end.\<close>

partial_function (option) next_name :: "(u32 \<Rightarrow> 'v option) \<Rightarrow> u32 \<Rightarrow> u32 option" where
  "next_name get r =
     (if get r = None then Some r
      else next_name get (if r + 1 = 0 then START_ROTOR else r + 1))"

definition alloc_port :: port where
  "alloc_port = \<lparr>p_hd = 0, p_tl = 0, pt_sema = 1, p_wait = 0, p_closing = False, p_isr = False,
     p_refs = 0, p_name = 0\<rparr>"

definition alloc_portref :: portref where
  "alloc_portref = \<lparr>pr_sema = 1, p_port = 0, p_iowait = 0, p_svwait = 0, p_state = PS_OPENING,
     p_nodup = False, p_msg = 0, p_segs = replicate (MSGSEGS + 2) 0\<rparr>"

text \<open>
  \<open>a\<close> is the address of the new port; memory for the hash entries is available, as kernel
  \<open>malloc\<close> does not return without it.  \<open>NPROC/4\<close> is 16.
\<close>

definition msg_port :: "addr \<Rightarrow> addr \<Rightarrow> u32 \<Rightarrow> ipc \<Rightarrow> ((nat \<times> u32) syscall \<times> ipc) option" where
  "msg_port pa a arg_port st =
     (let p = procs st pa; slot = first_free (p_ports p) in
      if PROCPORTS \<le> slot then Some (Inl ENOSPC, st)
      else
        let st1 = (case p_prefs p of
              None \<Rightarrow> upd_proc pa (\<lambda>p. p\<lparr>p_prefs := hash_alloc True 16\<rparr>) st
            | Some _ \<Rightarrow> st);
            chosen = (if arg_port = 0 then
                map_option (\<lambda>n. Inr (n, n + 1)) (next_name (hash_lookup (portnames st1)) (rotor st1))
              else if hash_lookup (portnames st1) arg_port \<noteq> None then Some (Inl EBUSY)
              else Some (Inr (arg_port, rotor st1)))
        in case chosen of
          None \<Rightarrow> None
        | Some (Inl e) \<Rightarrow> Some (Inl e, st1)
        | Some (Inr (name, rot)) \<Rightarrow>
            Some (Inr (slot + PROCOPENS, name),
              upd_proc pa (\<lambda>p. p\<lparr>p_ports := (p_ports p)[slot := a]\<rparr>)
                (st1\<lparr>portnames := snd (hash_insert True (portnames st1) name a), rotor := rot,
                     pts := (pts st1)(a := alloc_port\<lparr>p_name := name\<rparr>)\<rparr>)))"

definition init_msg :: "ipc \<Rightarrow> ipc" where
  "init_msg st = st\<lparr>portnames := hash_alloc True 64\<rparr>"

text \<open>The search visits the names from the rotor up and then from \<open>START_ROTOR\<close> up.\<close>

lemma next_name_free: "get r = None \<Longrightarrow> next_name get r = Some r"
  by (subst next_name.simps) simp

lemma next_name_step:
  "get r = Some v \<Longrightarrow> next_name get r = next_name get (if r + 1 = 0 then START_ROTOR else r + 1)"
  by (subst next_name.simps) simp

lemma next_name_result: "next_name get r = Some n \<Longrightarrow> get n = None"
proof (rule next_name.raw_induct [where P = "\<lambda>get r n. get n = None"])
  fix loop :: "(u32 \<Rightarrow> 'a option) \<Rightarrow> u32 \<Rightarrow> u32 option" and get r n
  assume "\<And>get r n. loop get r = Some n \<Longrightarrow> get n = None"
    and "(if get r = None then Some r else loop get (if r + 1 = 0 then START_ROTOR else r + 1)) = Some n"
  then show "get n = None" by (auto split: if_splits)
qed

lemma next_name_up:
  "unat r + k < 2 ^ 32 \<Longrightarrow> get (of_nat (unat r + k)) = None \<Longrightarrow> next_name get r \<noteq> None"
proof (induction k arbitrary: r)
  case 0
  then show ?case by (simp add: next_name_free)
next
  case (Suc k)
  show ?case
  proof (cases "get r")
    case None
    then show ?thesis by (simp add: next_name_free)
  next
    case (Some v)
    have u: "unat (r + 1) = unat r + 1" using Suc.prems(1) unat_add_no_overflow [of r 1] by simp
    then have k: "unat (r + 1) + k = unat r + Suc k" by simp
    have "next_name get (r + 1) \<noteq> None" by (rule Suc.IH) (use Suc.prems in \<open>simp_all only: k\<close>)
    moreover have "r + 1 \<noteq> 0" using u by (metis add_is_0 one_neq_zero unat_0)
    ultimately show ?thesis using Some by (simp add: next_name_step)
  qed
qed

lemma next_name_wrap:
  "unat r + m = 2 ^ 32 - 1 \<Longrightarrow>
   next_name get r = None \<Longrightarrow> next_name get START_ROTOR = None"
proof (induction m arbitrary: r)
  case 0
  then have "r + 1 = 0" by (simp add: word_unat_eq_iff unat_word_ariths)
  then show ?case using 0 by (cases "get r") (auto simp: next_name_free next_name_step)
next
  case (Suc m)
  obtain v where v: "get r = Some v" using Suc.prems(2) by (cases "get r") (auto simp: next_name_free)
  have u: "unat (r + 1) = unat r + 1" using Suc.prems(1) unat_add_no_overflow [of r 1] by simp
  then have "r + 1 \<noteq> 0" by (metis add_is_0 one_neq_zero unat_0)
  then have "next_name get (r + 1) = None" using Suc.prems(2) v by (simp add: next_name_step)
  then show ?case using Suc.IH [of "r + 1"] u Suc.prems(1) by simp
qed

lemma next_name_ends:
  assumes "get n = None" "START_ROTOR \<le> n"
  shows "\<exists>m. next_name get r = Some m \<and> get m = None"
proof -
  have "unat START_ROTOR \<le> unat n" using assms(2) by (simp only: word_le_nat_alt)
  then obtain k where k: "unat n = unat START_ROTOR + k" using le_Suc_ex by blast
  have "next_name get START_ROTOR \<noteq> None"
  proof (rule next_name_up)
    show "unat START_ROTOR + k < 2 ^ 32" using k unat_lt_u32 [of n] by simp
    have "of_nat (unat START_ROTOR + k) = n" unfolding k [symmetric] by simp
    then show "get (of_nat (unat START_ROTOR + k)) = None" using assms(1) by simp
  qed
  moreover have "unat r + (4294967295 - unat r) = 4294967295" using unat_lt_u32 [of r] by arith
  ultimately have "next_name get r \<noteq> None" using next_name_wrap [of r "4294967295 - unat r" get] by fastforce
  then show ?thesis using next_name_result by blast
qed

section \<open>What the tables guarantee\<close>

lemma delete_portref_opens:
  assumes "opens_ok (procs st pa)" "delete_portref pa port st = (Inr (pr, slp), st')"
  shows "opens_ok (procs st' pa) \<and> 0 \<le> port \<and> port < int PROCOPENS \<and>
    p_open (procs st pa) ! nat port = pr \<and> pr \<noteq> 0 \<and> p_open (procs st' pa) = (p_open (procs st pa))[nat port := 0]"
proof -
  have p: "0 \<le> port" "port < int PROCOPENS" "p_open (procs st pa) ! nat port = pr" "pr \<noteq> 0"
    "procs st' pa = free_open (nat port) (procs st pa)"
    using assms(2) by (auto simp: delete_portref_def portref_slot_def Let_def ipc_upd free_open_def split: if_splits)
  then have "opens_ok (procs st' pa)" using free_open_spec [OF assms(1), of "nat port"] by simp
  then show ?thesis using p by (simp add: free_open_def)
qed

text \<open>The part of the state that the creation of a port relies on: both tables of names exist.\<close>

definition names_ok :: "ipc \<Rightarrow> bool" where
  "names_ok st = (case portnames st of None \<Rightarrow> False | Some h \<Rightarrow> hash_tinv h)"

definition name_of :: "ipc \<Rightarrow> u32 \<Rightarrow> addr option" where
  "name_of st n = hash_lookup (portnames st) n"

lemma init_msg_names: "names_ok (init_msg st) \<and> name_of (init_msg st) n = None"
  using hash_tinv_alloc [of 64] by (auto simp: init_msg_def names_ok_def name_of_def hash_get_def hash_alloc_def)

text \<open>
  C33. A port delivers messages in the order they were queued: whatever the interleaving of
  \<open>lqueue_msg\<close> and of the removals of \<open>msg_receive\<close>, the messages taken, followed by those
  still queued, are the messages queued so far in their order; none is lost or repeated.
\<close>

theorem message_queue_fifo:
  assumes "msg_q port st xs"
    and "qlegal (lqueue_msg port) (take_msg port) (\<lambda>x st. x \<noteq> 0 \<and> (\<forall>xs. msg_q port st xs \<longrightarrow> x \<notin> set xs)) st xs ops"
    and "qrun (lqueue_msg port) (take_msg port) (\<lambda>st. p_hd (pts st port)) st ops = (out, st')"
  shows "\<exists>ys. msg_q port st' ys \<and> out @ ys = xs @ puts ops"
  using assms by (rule msgq.run_fifo)

text \<open>A kernel with one process, one port and nothing else.\<close>

definition demo_ipc :: ipc where
  "demo_ipc = \<lparr>prs = (\<lambda>_. alloc_portref), p_next = (\<lambda>_. 0), p_prev = (\<lambda>_. 0),
     msgs = (\<lambda>_. \<lparr>m_op = 200, m_arg = 7, m_arg1 = 0, m_nseg = 0, m_sender = 0, m_seg = [0, 0, 0, 0, 0], m_err = []\<rparr>),
     m_next = (\<lambda>_. 0), pts = (\<lambda>_. alloc_port),
     procs = (\<lambda>_. \<lparr>p_open = replicate 32 0, p_nopen = 0, p_ports = replicate 4 0, p_prefs = hash_alloc True 16\<rparr>),
     portnames = hash_alloc True 64, rotor = 1024, vm = demo_vm\<rparr>"

theorem message_queue_fifo_witness:
  "fst (qrun (lqueue_msg 9) (take_msg 9) (\<lambda>st. p_hd (pts st 9)) demo_ipc [Put 21, Put 22, Take, Put 23, Take, Take]) = [21, 22, 23]"
proof -
  let ?ops = "[Put 21, Put 22, Take, Put 23, Take, Take] :: addr qop list"
  have e: "msg_q 9 demo_ipc []" by (simp add: msg_q_def demo_ipc_def alloc_port_def)
  have u: "(\<forall>xs. msg_q 9 st xs \<longrightarrow> x \<notin> set xs) = (x \<notin> set ys)" if "msg_q 9 st ys" for st x ys
    using that msg_q_unique by blast
  have q1: "msg_q 9 (lqueue_msg 9 21 demo_ipc) [21]" using lqueue_msg_q [OF e, of 21] by simp
  then have "msg_q 9 (lqueue_msg 9 22 (lqueue_msg 9 21 demo_ipc)) [21, 22]" using lqueue_msg_q [of 9 _ "[21]" 22] by simp
  then have q3: "msg_q 9 (take_msg 9 (lqueue_msg 9 22 (lqueue_msg 9 21 demo_ipc))) [22]" using take_msg_q by blast
  have l: "qlegal (lqueue_msg 9) (take_msg 9) (\<lambda>x st. x \<noteq> 0 \<and> (\<forall>xs. msg_q 9 st xs \<longrightarrow> x \<notin> set xs)) demo_ipc [] ?ops"
    by (simp add: u [OF e] u [OF q1] u [OF q3])
  obtain out st' where r: "qrun (lqueue_msg 9) (take_msg 9) (\<lambda>st. p_hd (pts st 9)) demo_ipc ?ops = (out, st')"
    by fastforce
  have "length out = 3" using r by (auto split: prod.splits)
  then show ?thesis using message_queue_fifo [OF e l r] r by (auto simp: length_Suc_conv numeral_3_eq_3)
qed

text \<open>
  \<open>msg_port\<close> gives every port a name of its own: the search for a name ends as long as some
  name from \<open>START_ROTOR\<close> up is free, the name is one that no port had, an explicit name is
  either granted as given or refused as busy, all other names keep their ports, and the
  empty port is entered in a free slot of the process.
\<close>

theorem msg_port_names:
  assumes ok: "names_ok st" and room: "first_free (p_ports (procs st pa)) < PROCPORTS"
    and free: "arg = 0 \<Longrightarrow> START_ROTOR \<le> n \<and> name_of st n = None"
  shows "if arg \<noteq> 0 \<and> name_of st arg \<noteq> None
    then \<exists>st'. msg_port pa a arg st = Some (Inl EBUSY, st') \<and> portnames st' = portnames st
    else \<exists>slot name st'. msg_port pa a arg st = Some (Inr (slot + PROCOPENS, name), st') \<and>
      name_of st name = None \<and> (arg \<noteq> 0 \<longrightarrow> name = arg) \<and> names_ok st' \<and>
      (\<forall>k. name_of st' k = (if k = name then Some a else name_of st k)) \<and> p_name (pts st' a) = name \<and>
      msg_q a st' [] \<and> slot < PROCPORTS \<and> p_ports (procs st' pa) = (p_ports (procs st pa))[slot := a]"
proof -
  define slot where "slot = first_free (p_ports (procs st pa))"
  obtain h where h: "portnames st = Some h" "hash_tinv h" using ok by (auto simp: names_ok_def split: option.splits)
  define st1 where "st1 = (case p_prefs (procs st pa) of None \<Rightarrow> upd_proc pa (\<lambda>p. p\<lparr>p_prefs := hash_alloc True 16\<rparr>) st | Some _ \<Rightarrow> st)"
  have s1: "portnames st1 = Some h" "p_ports (procs st1 pa) = p_ports (procs st pa)" "rotor st1 = rotor st"
    by (auto simp: st1_def h(1) ipc_upd split: option.splits)
  have no: "name_of st = hash_get h" by (rule ext) (simp add: name_of_def h(1) hash_get_def)
  have nn: "hash_lookup (portnames st1) = hash_get h" by (rule ext) (simp add: s1(1) hash_get_def)
  let ?st' = "\<lambda>name rot. upd_proc pa (\<lambda>p. p\<lparr>p_ports := (p_ports p)[slot := a]\<rparr>)
    (st1\<lparr>portnames := snd (hash_insert True (portnames st1) name a), rotor := rot,
       pts := (pts st1)(a := alloc_port\<lparr>p_name := name\<rparr>)\<rparr>)"
  have post: "names_ok (?st' name rot) \<and>
      (\<forall>k. name_of (?st' name rot) k = (if k = name then Some a else name_of st k)) \<and>
      p_name (pts (?st' name rot) a) = name \<and> msg_q a (?st' name rot) [] \<and>
      p_ports (procs (?st' name rot) pa) = (p_ports (procs st pa))[slot := a]" if "hash_get h name = None" for name rot
  proof -
    have "snd (hash_insert True (Some h) name a) = Some (hash_put h name a)"
      by (simp add: hash_put_def hash_insert_eq)
    then show ?thesis using htab.tinv_put [OF h(2) that] htab.get_put [OF h(2)]
      by (auto simp: names_ok_def name_of_def h(1) s1 ipc_upd hash_get_def [symmetric] msg_q_def alloc_port_def)
  qed
  have unfold: "msg_port pa a arg st = (let chosen = (if arg = 0 then
        map_option (\<lambda>n. Inr (n, n + 1)) (next_name (hash_get h) (rotor st1))
      else if hash_get h arg \<noteq> None then Some (Inl EBUSY) else Some (Inr (arg, rotor st1)))
    in case chosen of None \<Rightarrow> None | Some (Inl e) \<Rightarrow> Some (Inl e, st1)
     | Some (Inr (name, rot)) \<Rightarrow> Some (Inr (slot + PROCOPENS, name), ?st' name rot))"
    using room unfolding msg_port_def nn [symmetric] by (simp add: Let_def slot_def [symmetric] st1_def [symmetric])
  show ?thesis
  proof (cases "arg = 0")
    case True
    then obtain m where "next_name (hash_get h) (rotor st1) = Some m" "hash_get h m = None"
      using next_name_ends [of "hash_get h" n "rotor st1"] free no by auto
    then show ?thesis using True unfold post [of m "m + 1"] no room by (auto simp: slot_def)
  next
    case False
    then show ?thesis using unfold post [of arg "rotor st1"] no room s1(1) h(1) by (auto simp: slot_def)
  qed
qed

theorem msg_port_names_witness:
  "\<exists>slot name st'. msg_port 1 9 0 demo_ipc = Some (Inr (slot + 32, name), st') \<and> name_of st' name = Some 9"
proof -
  have n: "names_ok demo_ipc" "name_of demo_ipc 1024 = None"
    using init_msg_names [of demo_ipc 1024] by (simp_all add: init_msg_def demo_ipc_def names_ok_def name_of_def)
  have r: "first_free (p_ports (procs demo_ipc 1)) < 4" by (simp add: demo_ipc_def)
  show ?thesis using msg_port_names [OF n(1) r, of 0 1024 9] n(2) by auto
qed

text \<open>
  \<open>p_nopen\<close> always counts the slots in use, so the assertion of \<open>alloc_open\<close> never fails: a
  process gets the lowest free slot exactly when it has one and an error otherwise, and
  giving the slot back undoes it.
\<close>

theorem open_slots:
  assumes "opens_ok p"
  shows "(if 0 \<in> set (p_open p)
      then \<exists>slot p'. alloc_open p = Some (Inr slot, p') \<and> slot < PROCOPENS \<and> p_open p ! slot = 0 \<and>
        (\<forall>i < slot. p_open p ! i \<noteq> 0) \<and> opens_ok p' \<and> free_open slot p' = p
      else alloc_open p = Some (Inl ENOSPC, p))"
proof (cases "0 \<in> set (p_open p)")
  case True
  then obtain slot p' where a: "alloc_open p = Some (Inr slot, p')" "slot < PROCOPENS" "p_open p ! slot = 0" "opens_ok p'"
    using alloc_open_spec [OF assms] by auto
  have "slot = first_free (p_open p)"
    using a(1) by (auto simp: alloc_open_def Let_def split: if_splits)
  then have low: "\<forall>i < slot. p_open p ! i \<noteq> 0"
    using first_free_before by simp
  have "free_open slot p' = p" by (rule alloc_free_open [OF assms a(1)])
  then show ?thesis unfolding if_P [OF True] using a low by blast
next
  case False
  then show ?thesis using alloc_open_spec [OF assms] by simp
qed

theorem open_slots_witness:
  "\<exists>slot p'. alloc_open (procs demo_ipc 1) = Some (Inr slot, p') \<and> free_open slot p' = procs demo_ipc 1"
proof -
  have o: "opens_ok (procs demo_ipc 1)" by (simp add: opens_ok_def demo_ipc_def)
  have "(0 \<in> set (p_open (procs demo_ipc 1))) = True" by (simp add: demo_ipc_def)
  then show ?thesis using open_slots [OF o] by (simp only: if_True) blast
qed

end
