(* ===== verification/Messages.thy ===== *)
theory Messages
  imports Ports
begin

text \<open>
  Sending, receiving and replying: \<open>os/kern/msg.c\<close> and \<open>os/kern/msgkern.c\<close>.  A system call that
  sleeps is split at the points where it gives up the processor, and composed again with
  arguments \<open>env\<close> that stand for what the other threads do meanwhile.  The user's message is
  copied in and out by value; \<open>copyout\<close> may fail.  New storage has the address given.  \<open>None\<close> is
  a failed assertion, a pointer that is null, a write out of bounds or a second \<open>free\<close>.
\<close>

record usermsg =
  um_sender :: u32
  um_op :: u32
  um_arg :: u32
  um_arg1 :: u32
  um_seg :: "(u32 \<times> u32) list"
  um_nseg :: int

definition upd_vm :: "(vmem \<Rightarrow> vmem option) \<Rightarrow> ipc \<Rightarrow> ipc option" where
  "upd_vm f st = map_option (\<lambda>v. st\<lparr>vm := v\<rparr>) (f (vm st))"

section \<open>The segments of a message\<close>

fun free_list :: "addr list \<Rightarrow> vmem \<Rightarrow> vmem option" where
  "free_list [] v = Some v"
| "free_list (s # ss) v = Option.bind (free_seg s v) (free_list ss)"

definition live_segs :: "sysmsg \<Rightarrow> addr list" where
  "live_segs m = take (nat (m_nseg m)) (m_seg m)"

definition freesegs :: "addr \<Rightarrow> ipc \<Rightarrow> ipc option" where
  "freesegs sm st =
     map_option (upd_msg sm (\<lambda>m. m\<lparr>m_nseg := 0\<rparr>)) (upd_vm (free_list (live_segs (msgs st sm))) st)"

fun unmap_list :: "addr list \<Rightarrow> vmem \<Rightarrow> vmem option" where
  "unmap_list [] v = Some v"
| "unmap_list (s # ss) v = do { v1 \<leftarrow> detach_seg s v; v2 \<leftarrow> free_seg s v1; unmap_list ss v2 }"

definition mapped :: "addr list \<Rightarrow> addr list" where
  "mapped refs = takeWhile (\<lambda>s. s \<noteq> 0) (take (MSGSEGS + 1) refs)"

definition unmapsegs :: "addr list \<Rightarrow> vmem \<Rightarrow> (addr list \<times> vmem) option" where
  "unmapsegs refs v =
     (let n = length (mapped refs) in
      map_option (\<lambda>v'. (replicate n 0 @ drop n refs, v')) (unmap_list (mapped refs) v))"

fun detach_list :: "addr list \<Rightarrow> vmem \<Rightarrow> vmem option" where
  "detach_list [] v = Some v"
| "detach_list (s # ss) v = Option.bind (detach_seg s v) (detach_list ss)"

text \<open>With the number of segments attached before a failure.\<close>

fun attach_list :: "addr \<Rightarrow> addr list \<Rightarrow> addr list \<Rightarrow> u32 \<Rightarrow> vmem \<Rightarrow> (u32 syscall \<times> nat \<times> vmem) option" where
  "attach_list vas dn [] cnt v = Some (Inr cnt, length dn, v)"
| "attach_list vas dn (s # ss) cnt v =
     (let (r, v1) = attach_seg vas s v in
      if r \<noteq> 0 then map_option (\<lambda>v2. (Inl ENOMEM, length dn, v2)) (detach_list dn v1)
      else attach_list vas (dn @ [s]) ss (cnt + s_len (segs v1 s)) v1)"

text \<open>\<open>refs\<close> is the \<open>s_refs\<close> array of the segref, before and after.\<close>

definition mapsegs :: "addr \<Rightarrow> sysmsg \<Rightarrow> addr list \<Rightarrow> vmem \<Rightarrow> (u32 syscall \<times> addr list \<times> vmem) option" where
  "mapsegs vas m refs v = do {
     (refs1, v1) \<leftarrow> (if refs ! 0 \<noteq> 0 then unmapsegs refs v else Some (refs, v));
     (r, x, v2) \<leftarrow> attach_list vas [] (live_segs m) 0 v1;
     (case r of
        Inl e \<Rightarrow> Some (Inl e, replicate x 0 @ drop x refs1, v2)
      | Inr cnt \<Rightarrow>
          if m_nseg m < 0 \<or> length refs1 \<le> x then None
          else Some (Inr cnt, live_segs m @ 0 # drop (Suc x) refs1, v2))
   }"

text \<open>
  A freed segment has whatever contents the allocator left there: \<open>stale\<close>.  The fields of the
  user's message that the reply does not set keep their values.
\<close>

definition seg_user :: "(addr \<Rightarrow> u32 \<times> u32) \<Rightarrow> vmem \<Rightarrow> addr \<Rightarrow> u32 \<times> u32" where
  "seg_user stale v s = (if seg_live v s then seg_buf v s else stale s)"

definition sm_to_m :: "(addr \<Rightarrow> u32 \<times> u32) \<Rightarrow> addr \<Rightarrow> usermsg \<Rightarrow> ipc \<Rightarrow> usermsg \<times> ipc" where
  "sm_to_m stale sm m st =
     (let k = msgs st sm; bs = map (seg_user stale (vm st)) (live_segs k) in
      (m\<lparr>um_sender := of_nat (m_sender k), um_op := m_op k AND NOT M_READ, um_arg := m_arg k,
         um_arg1 := m_arg1 k, um_nseg := m_nseg k, um_seg := bs @ drop (length bs) (um_seg m)\<rparr>,
       upd_msg sm (\<lambda>k. k\<lparr>m_nseg := 0\<rparr>) st))"

text \<open>On failure the segments made so far.\<close>

fun make_list :: "addr \<Rightarrow> addr list \<Rightarrow> (u32 \<times> u32) list \<Rightarrow> addr list \<Rightarrow> vmem \<Rightarrow> (addr list + addr list) \<times> vmem" where
  "make_list vas dn ((buf, len) # bs) (s # as) v =
     (case make_seg vas buf len s v of
        (None, v1) \<Rightarrow> (Inl dn, v1)
      | (Some s1, v1) \<Rightarrow> make_list vas (dn @ [s1]) bs as v1)"
| "make_list vas dn bs as v = (Inr dn, v)"

definition m_to_sm :: "addr \<Rightarrow> usermsg \<Rightarrow> addr \<Rightarrow> addr list \<Rightarrow> ipc \<Rightarrow> (unit syscall \<times> ipc) option" where
  "m_to_sm vas m sm as st =
     (if int MSGSEGS < um_nseg m then Some (Inl EINVAL, st)
      else
        let st1 = upd_msg sm (\<lambda>k. k\<lparr>m_op := um_op m, m_arg := um_arg m, m_arg1 := um_arg1 m\<rparr>) st in
        if um_op m AND M_READ \<noteq> 0 then Some (Inr (), upd_msg sm (\<lambda>k. k\<lparr>m_nseg := 0\<rparr>) st1)
        else (case make_list vas [] (take (nat (um_nseg m)) (um_seg m)) as (vm st1) of
            (Inl dn, v) \<Rightarrow>
              map_option (\<lambda>v'. (Inl EFAULT,
                  upd_msg sm (\<lambda>k. k\<lparr>m_seg := replicate (length dn) 0 @ drop (length dn) (m_seg k), m_nseg := 0\<rparr>)
                    (st1\<lparr>vm := v'\<rparr>)))
                (free_list dn v)
          | (Inr ss, v) \<Rightarrow>
              Some (Inr (), upd_msg sm (\<lambda>k. k\<lparr>m_seg := ss @ drop (length ss) (m_seg k), m_nseg := um_nseg m\<rparr>)
                (st1\<lparr>vm := v\<rparr>))))"

section \<open>Sending\<close>

definition reserved_op :: "u32 \<Rightarrow> bool" where
  "reserved_op op = (op AND 0xFFF < M_RESVD \<and> op AND 0xFFF \<noteq> M_TIME)"

text \<open>From the message in hand to the sleep on \<open>p_iowait\<close>, whose count this leaves at -1.\<close>

definition msg_send_queue :: "addr \<Rightarrow> addr \<Rightarrow> ipc \<Rightarrow> ipc option" where
  "msg_send_queue pr sm st =
     (let st1 = upd_pr pr (\<lambda>r. r\<lparr>p_msg := sm\<rparr>) (upd_msg sm (\<lambda>k. k\<lparr>m_sender := pr\<rparr>) st) in
      if p_iowait (prs st1 pr) \<noteq> 0 then None
      else
        let st2 = upd_pr pr (\<lambda>r. r\<lparr>p_state := PS_IOWAIT\<rparr>) st1 in
        if p_port (prs st2 pr) = 0 then None
        else Some (upd_pr pr (\<lambda>r. r\<lparr>p_iowait := p_iowait r - 1\<rparr>) (queue_msg (p_port (prs st2 pr)) sm st2)))"

text \<open>
  After a sleep that a signal ended: \<open>True\<close> is another sleep, for the answer to the \<open>M_ABORT\<close>
  that is queued in \<open>sm2\<close>.
\<close>

definition msg_send_intr :: "addr \<Rightarrow> addr \<Rightarrow> ipc \<Rightarrow> (bool \<times> ipc) option" where
  "msg_send_intr pr sm2 st =
     (case p_state (prs st pr) of
        PS_IOWAIT \<Rightarrow>
          let st1 = upd_msg sm2 (\<lambda>k. k\<lparr>m_sender := pr, m_op := M_ABORT, m_arg := 0, m_arg1 := 0, m_nseg := 0\<rparr>) st in
          if p_port (prs st1 pr) = 0 then None
          else
            let st2 = queue_msg (p_port (prs st1 pr)) sm2 st1 in
            Some (True, upd_pr pr (\<lambda>r. r\<lparr>p_state := PS_ABWAIT, p_iowait := p_iowait r - 1\<rparr>) st2)
      | PS_IODONE \<Rightarrow> Some (False, upd_pr pr (\<lambda>r. r\<lparr>p_iowait := 0\<rparr>) st)
      | _ \<Rightarrow> None)"

definition msg_send_abdone :: "addr \<Rightarrow> ipc \<Rightarrow> ipc option" where
  "msg_send_abdone pr st = (if p_state (prs st pr) = PS_ABDONE then Some st else None)"

text \<open>The clean-up at the label \<open>out\<close>, when the connection is held.\<close>

definition msg_send_out :: "addr \<Rightarrow> addr \<Rightarrow> ipc \<Rightarrow> ipc option" where
  "msg_send_out pr sm st =
     (let st1 = upd_pr pr (\<lambda>r. r\<lparr>p_svwait := p_svwait r + 1, pr_sema := pr_sema r + 1\<rparr>) st in
      if m_nseg (msgs st1 sm) \<noteq> 0 then freesegs sm st1 else Some st1)"

text \<open>
  What the caller gets: the value or the error, and the message written back to its buffer.
  \<open>-1\<close> as a count is taken for an error by the code.
\<close>

definition give_back ::
  "(u32 \<Rightarrow> u32 \<Rightarrow> u32 \<Rightarrow> bool) \<Rightarrow> (addr \<Rightarrow> u32 \<times> u32) \<Rightarrow> addr \<Rightarrow> addr \<Rightarrow> usermsg \<Rightarrow> bool \<Rightarrow> ipc \<Rightarrow>
   (u32 syscall \<times> usermsg option \<times> ipc) option" where
  "give_back flt stale vas sm m cok st = do {
     (r, refs, v1) \<leftarrow> mapsegs vas (msgs st sm) (replicate (MSGSEGS + 2) 0) (vm st);
     let st1 = st\<lparr>vm := v1\<rparr>;
     (case r of
        Inl e \<Rightarrow> Some (Inl e, None, st1)
      | Inr cnt \<Rightarrow>
          if cnt = - 1 then Some (Inr (- 1), None, st1)
          else do {
            (r2, v2, bs, tr) \<leftarrow> copyoutsegs flt (live_segs (msgs st1 sm)) (m_nseg (msgs st1 sm)) (um_seg m) (um_nseg m) v1;
            (refs3, v3) \<leftarrow> unmapsegs refs v2;
            let st2 = st1\<lparr>vm := v3\<rparr>;
            (case r2 of
               Inl e \<Rightarrow> Some (Inl e, None, st2)
             | Inr n \<Rightarrow>
                 if n = - 1 then Some (Inr (- 1), None, st2)
                 else
                   let (m', st3) = sm_to_m stale sm (m\<lparr>um_seg := bs\<rparr>) st2 in
                   if cok then Some (Inr n, Some m', st3) else Some (Inl EFAULT, None, st3))
          })
   }"

definition msg_send_result ::
  "(u32 \<Rightarrow> u32 \<Rightarrow> u32 \<Rightarrow> bool) \<Rightarrow> (addr \<Rightarrow> u32 \<times> u32) \<Rightarrow> addr \<Rightarrow> addr \<Rightarrow> usermsg \<Rightarrow> bool \<Rightarrow> ipc \<Rightarrow>
   (u32 syscall \<times> usermsg option \<times> ipc) option" where
  "msg_send_result flt stale vas sm m cok st =
     (if m_arg (msgs st sm) = - 1 then Some (Inl (m_err (msgs st sm)), None, st)
      else do {
        (r, um, st1) \<leftarrow> (if m_nseg (msgs st sm) \<noteq> 0 then give_back flt stale vas sm m cok st
                        else Some (Inr 0, None, st));
        Some (if r = Inr 0 then Inr (m_arg (msgs st1 sm)) else r, um, st1)
      })"

definition msg_send_done ::
  "(u32 \<Rightarrow> u32 \<Rightarrow> u32 \<Rightarrow> bool) \<Rightarrow> (addr \<Rightarrow> u32 \<times> u32) \<Rightarrow> addr \<Rightarrow> addr \<Rightarrow> addr \<Rightarrow> usermsg \<Rightarrow> bool \<Rightarrow> ipc \<Rightarrow>
   (u32 syscall \<times> usermsg option \<times> ipc) option" where
  "msg_send_done flt stale vas pr sm m cok st = do {
     (r, um, st1) \<leftarrow> msg_send_result flt stale vas sm m cok st;
     st2 \<leftarrow> msg_send_out pr sm st1;
     Some (r, um, st2)
   }"

text \<open>The way out without a connection.\<close>

definition drop_msg :: "addr \<Rightarrow> ipc \<Rightarrow> ipc option" where
  "drop_msg sm st = (if m_nseg (msgs st sm) \<noteq> 0 then freesegs sm st else Some st)"

text \<open>
  The whole call.  \<open>sm\<close> and \<open>sm2\<close> are the new message descriptors, with the contents that the
  allocator left in them, \<open>as\<close> the storage for the segments; \<open>env1\<close>, \<open>env2\<close> and \<open>env3\<close> are the
  sleeps, the last one not interruptible.
\<close>

definition msg_send ::
  "(u32 \<Rightarrow> u32 \<Rightarrow> u32 \<Rightarrow> bool) \<Rightarrow> (addr \<Rightarrow> u32 \<times> u32) \<Rightarrow> (ipc \<Rightarrow> bool \<times> ipc) \<Rightarrow> (ipc \<Rightarrow> bool \<times> ipc) \<Rightarrow> (ipc \<Rightarrow> ipc) \<Rightarrow>
   addr \<Rightarrow> addr \<Rightarrow> int \<Rightarrow> usermsg \<Rightarrow> bool \<Rightarrow> addr \<Rightarrow> addr \<Rightarrow> addr list \<Rightarrow> ipc \<Rightarrow>
   (u32 syscall \<times> usermsg option \<times> ipc) option" where
  "msg_send flt stale env1 env2 env3 pa vas port m cok sm sm2 as st =
     (if reserved_op (um_op m) then Some (Inl EINVAL, None, st)
      else do {
        (r, st1) \<leftarrow> m_to_sm vas m sm as st;
        (case r of
           Inl e \<Rightarrow> map_option (\<lambda>st2. (Inl e, None, st2)) (drop_msg sm st1)
         | Inr _ \<Rightarrow>
           (case find_portref env1 pa port st1 of
              (Inl e, st2) \<Rightarrow> map_option (\<lambda>st3. (Inl e, None, st3)) (drop_msg sm st2)
            | (Inr pr, st2) \<Rightarrow> do {
                st3 \<leftarrow> msg_send_queue pr sm st2;
                let (intr, st4) = env2 st3;
                (if intr then do {
                   (again, st5) \<leftarrow> msg_send_intr pr sm2 st4;
                   st6 \<leftarrow> (if again then msg_send_abdone pr (env3 st5) else Some st5);
                   st7 \<leftarrow> msg_send_out pr sm st6;
                   Some (Inl EINTR, None, st7)
                 }
                 else msg_send_done flt stale vas pr sm m cok st4)
              }))
      })"

text \<open>
  \<open>kernmsg_send\<close>, up to its sleep on \<open>p_iowait\<close> and after it; the result is the C value with the
  three words given back.
\<close>

definition kernmsg_start :: "addr \<Rightarrow> u32 \<Rightarrow> u32 \<Rightarrow> u32 \<Rightarrow> addr \<Rightarrow> ipc \<Rightarrow> (bool \<times> ipc) option" where
  "kernmsg_start pr op a0 a1 sm st =
     (let st1 = upd_pr pr (\<lambda>r. r\<lparr>p_msg := sm\<rparr>)
            (upd_msg sm (\<lambda>k. k\<lparr>m_sender := pr, m_op := op, m_nseg := 0, m_arg := a0, m_arg1 := a1\<rparr>) st)
      in if p_port (prs st1 pr) = 0 then Some (False, st1)
         else if p_iowait (prs st1 pr) \<noteq> 0 then None
         else
           let st2 = upd_pr pr (\<lambda>r. r\<lparr>p_state := PS_IOWAIT\<rparr>) st1
           in Some (True, upd_pr pr (\<lambda>r. r\<lparr>p_iowait := p_iowait r - 1\<rparr>) (queue_msg (p_port (prs st2 pr)) sm st2)))"

definition kernmsg_done :: "addr \<Rightarrow> addr \<Rightarrow> ipc \<Rightarrow> ((u32 \<times> u32 \<times> u32) option \<times> ipc) option" where
  "kernmsg_done pr sm st =
     (let st1 = upd_pr pr (\<lambda>r. r\<lparr>p_svwait := p_svwait r + 1\<rparr>) st; k = msgs st1 sm in
      if m_arg k = - 1 then Some (None, st1)
      else if m_nseg k \<noteq> 0 then None
      else Some (Some (m_arg k, m_arg1 k, m_op k), st1))"

definition kernmsg_send ::
  "(ipc \<Rightarrow> ipc) \<Rightarrow> addr \<Rightarrow> u32 \<Rightarrow> u32 \<Rightarrow> u32 \<Rightarrow> addr \<Rightarrow> ipc \<Rightarrow> ((u32 \<times> u32 \<times> u32) option \<times> ipc) option" where
  "kernmsg_send env pr op a0 a1 sm st = do {
     (sent, st1) \<leftarrow> kernmsg_start pr op a0 a1 sm st;
     (if sent then kernmsg_done pr sm (env st1) else Some (None, st1))
   }"

section \<open>Receiving\<close>

definition new_client :: "addr \<Rightarrow> addr \<Rightarrow> ipc \<Rightarrow> ipc option" where
  "new_client pa pr st =
     (if hash_lookup (p_prefs (procs st pa)) (of_nat pr) \<noteq> None then None
      else Some (upd_proc pa (\<lambda>p. p\<lparr>p_prefs := snd (hash_insert True (p_prefs p) (of_nat pr) pr)\<rparr>) st))"

definition del_client :: "addr \<Rightarrow> addr \<Rightarrow> ipc \<Rightarrow> ipc option" where
  "del_client pa pr st =
     (if hash_lookup (p_prefs (procs st pa)) (of_nat pr) = None then None
      else Some (upd_proc pa (\<lambda>p. p\<lparr>p_prefs := snd (hash_delete (p_prefs p) (of_nat pr))\<rparr>) st))"

definition unmap_portref :: "addr \<Rightarrow> ipc \<Rightarrow> ipc option" where
  "unmap_portref pr st =
     map_option (\<lambda>(refs, v). upd_pr pr (\<lambda>r. r\<lparr>p_segs := refs\<rparr>) (st\<lparr>vm := v\<rparr>))
       (unmapsegs (p_segs (prs st pr)) (vm st))"

text \<open>The message that \<open>receive_isr\<close> copies out; the fields it does not set are the caller's stack.\<close>

definition receive_isr :: "u32 \<Rightarrow> u32 \<Rightarrow> usermsg \<Rightarrow> bool \<Rightarrow> u32 syscall \<times> usermsg option" where
  "receive_isr isr nintr stack cok =
     (if cok then (Inr 0, Some (stack\<lparr>um_op := M_ISR, um_arg := isr, um_arg1 := nintr, um_nseg := 0\<rparr>))
      else (Inr (- 1), None))"

text \<open>What \<open>msg_receive\<close> does for each kind of message before the message is mapped.\<close>

definition receive_connect :: "(u32 \<Rightarrow> u32) \<Rightarrow> addr \<Rightarrow> addr \<Rightarrow> addr \<Rightarrow> addr \<Rightarrow> addr \<Rightarrow> addr \<Rightarrow> ipc \<Rightarrow> ipc option" where
  "receive_connect vtop pa port pr sm s ps st =
     map_option (\<lambda>st1.
         let (pfns, v) = kern_mem vtop (of_nat (m_seg (msgs st1 sm) ! 0)) (of_int (m_nseg (msgs st1 sm))) s ps (vm st1)
         in upd_msg sm (\<lambda>k. k\<lparr>m_seg := (m_seg k)[0 := s], m_nseg := 1\<rparr>) (st1\<lparr>vm := v\<rparr>))
       (new_client pa pr (ref_port port pr st))"

definition receive_disconnect :: "addr \<Rightarrow> addr \<Rightarrow> addr \<Rightarrow> ipc \<Rightarrow> ipc option" where
  "receive_disconnect pa port pr st =
     (if p_state (prs st pr) \<noteq> PS_CLOSING \<or> p_port (prs st pr) \<noteq> port then None
      else do {
        st1 \<leftarrow> deref_port port pr st;
        st2 \<leftarrow> del_client pa pr st1;
        st3 \<leftarrow> unmap_portref pr st2;
        Some (upd_pr pr (\<lambda>r. r\<lparr>p_iowait := p_iowait r + 1\<rparr>) st3)
      })"

text \<open>The rest of the call once the message is the receiver's, and the release of the port.\<close>

definition receive_deliver ::
  "(addr \<Rightarrow> u32 \<times> u32) \<Rightarrow> addr \<Rightarrow> addr \<Rightarrow> addr \<Rightarrow> addr \<Rightarrow> usermsg \<Rightarrow> bool \<Rightarrow> ipc \<Rightarrow>
   (u32 syscall \<times> usermsg option \<times> ipc) option" where
  "receive_deliver stale vas port pr sm m cok st = do {
     (r, st1) \<leftarrow> (if m_nseg (msgs st sm) \<noteq> 0 then
         map_option (\<lambda>(r, refs, v). (r, upd_pr pr (\<lambda>p. p\<lparr>p_segs := refs\<rparr>) (st\<lparr>vm := v\<rparr>)))
           (mapsegs vas (msgs st sm) (p_segs (prs st pr)) (vm st))
       else Some (Inr 0, st));
     (r2, um, st2) \<leftarrow> Some (case r of
         Inl e \<Rightarrow> (Inl e, None, st1)
       | Inr n \<Rightarrow>
           if n = - 1 then (Inr (- 1), None, st1)
           else let (m', st3) = sm_to_m stale sm m st1 in
             if cok then (Inr n, Some m', st3) else (Inl EFAULT, None, st3));
     let st4 = upd_pt port (\<lambda>p. p\<lparr>pt_sema := pt_sema p + 1\<rparr>) st2;
     st5 \<leftarrow> drop_msg sm st4;
     Some (r2, um, st5)
   }"

text \<open>After the sleep on \<open>p_wait\<close>; \<open>intr\<close> is its outcome.\<close>

definition msg_receive_done ::
  "(u32 \<Rightarrow> u32) \<Rightarrow> (addr \<Rightarrow> u32 \<times> u32) \<Rightarrow> bool \<Rightarrow> addr \<Rightarrow> addr \<Rightarrow> addr \<Rightarrow> usermsg \<Rightarrow> bool \<Rightarrow> addr \<Rightarrow> addr \<Rightarrow> ipc \<Rightarrow>
   (u32 syscall \<times> usermsg option \<times> ipc) option" where
  "msg_receive_done vtop stale intr pa vas port m cok s ps st =
     (if intr then Some (Inl EINTR, None, upd_pt port (\<lambda>p. p\<lparr>pt_sema := pt_sema p + 1\<rparr>) st)
      else if p_hd (pts st port) = 0 then None
      else
        let sm = p_hd (pts st port); st1 = take_msg port st; k = msgs st1 sm; pr = m_sender k in
        if m_op k = M_ISR then
          let (r, um) = receive_isr (m_arg k) (m_arg1 k) m cok;
              st2 = upd_msg sm (\<lambda>k. k\<lparr>m_op := 0\<rparr>) st1
          in Some (r, um, upd_pt port (\<lambda>p. p\<lparr>pt_sema := pt_sema p + 1\<rparr>) st2)
        else do {
          st2 \<leftarrow> (if m_op k = M_CONNECT then receive_connect vtop pa port pr sm s ps st1
                 else if m_op k = M_DISCONNECT then receive_disconnect pa port pr st1
                 else Some st1);
          receive_deliver stale vas port pr sm m cok st2
        })"

definition msg_receive ::
  "(u32 \<Rightarrow> u32) \<Rightarrow> (addr \<Rightarrow> u32 \<times> u32) \<Rightarrow> (ipc \<Rightarrow> bool \<times> ipc) \<Rightarrow> (ipc \<Rightarrow> bool \<times> ipc) \<Rightarrow> addr \<Rightarrow> addr \<Rightarrow> int \<Rightarrow> usermsg \<Rightarrow> bool \<Rightarrow>
   addr \<Rightarrow> addr \<Rightarrow> ipc \<Rightarrow> (u32 syscall \<times> usermsg option \<times> ipc) option" where
  "msg_receive vtop stale env1 env2 pa vas portid m cok s ps st =
     (case find_port pa portid st of
        (Inl e, st1) \<Rightarrow> Some (Inl e, None, st1)
      | (Inr (port, slp), st1) \<Rightarrow>
          let (intr1, st2) = (if slp then env1 st1 else (False, st1)) in
          if intr1 then Some (Inl EINTR, None, st2)
          else
            let st3 = upd_pt port (\<lambda>p. p\<lparr>p_wait := p_wait p - 1\<rparr>) st2;
                (intr2, st4) = (if p_wait (pts st3 port) < 0 then env2 st3 else (False, st3))
            in msg_receive_done vtop stale intr2 pa vas port m cok s ps st4)"

section \<open>Replying\<close>

text \<open>
  The switch of \<open>msg_reply\<close> on the state of the connection \<open>pr\<close>: the result, whether the server
  now sleeps on \<open>p_svwait\<close> for the client to copy the reply, and the state.
\<close>

definition reply_switch :: "addr \<Rightarrow> addr \<Rightarrow> addr \<Rightarrow> ipc \<Rightarrow> (unit syscall \<times> bool \<times> ipc) option" where
  "reply_switch pa pr sm st =
     (let r = prs st pr; k = msgs st sm in
      case p_state r of
        PS_IOWAIT \<Rightarrow>
          if m_op (msgs st (p_msg r)) = M_DUP \<and> m_arg k \<noteq> - 1 then
            let newpr = unat (m_arg (msgs st (p_msg r))) in
            if p_port (prs st newpr) \<noteq> p_port r then None
            else map_option (\<lambda>st'. (Inr (), False, st'))
              (new_client pa newpr (upd_pr pr (\<lambda>r. r\<lparr>p_iowait := p_iowait r + 1\<rparr>) (ref_port (p_port r) newpr st)))
          else
            let st1 = upd_msg sm (\<lambda>k. k\<lparr>m_nseg := 0\<rparr>)
                  (upd_msg (p_msg r) (\<lambda>_. k) (st\<lparr>m_next := (m_next st)(p_msg r := m_next st sm)\<rparr>))
            in Some (Inr (), True, upd_pr pr (\<lambda>r. r\<lparr>p_state := PS_IODONE, p_svwait := 0 - 1, p_iowait := p_iowait r + 1\<rparr>) st1)
      | PS_ABWAIT \<Rightarrow>
          if m_op k \<noteq> M_ABORT then Some (Inl EIO, False, st)
          else Some (Inr (), False, upd_pr pr (\<lambda>r. r\<lparr>p_state := PS_ABDONE, p_iowait := p_iowait r + 1\<rparr>) st)
      | _ \<Rightarrow> Some (Inl EINVAL, False, st))"

text \<open>Up to the sleep on \<open>p_svwait\<close>, after which only the storage of \<open>sm\<close> is released.\<close>

definition msg_reply :: "addr \<Rightarrow> addr \<Rightarrow> u32 \<Rightarrow> usermsg \<Rightarrow> addr \<Rightarrow> addr list \<Rightarrow> ipc \<Rightarrow> (unit syscall \<times> bool \<times> ipc) option" where
  "msg_reply pa vas who m sm as st = do {
     (r, st1) \<leftarrow> m_to_sm vas m sm as st;
     (r2, slp, st2) \<leftarrow> (case r of
         Inl e \<Rightarrow> Some (Inl e, False, st1)
       | Inr _ \<Rightarrow>
         (case hash_lookup (p_prefs (procs st1 pa)) who of
            None \<Rightarrow> Some (Inl EINVAL, False, st1)
          | Some pr \<Rightarrow> Option.bind (unmap_portref pr st1) (reply_switch pa pr sm)));
     st3 \<leftarrow> drop_msg sm st2;
     Some (r2, slp, st3)
   }"

end
