(* ===== verification/Connections.thy ===== *)
theory Connections
  imports Messages
begin

text \<open>
  Opening and closing connections: the rest of \<open>os/kern/msgcon.c\<close>, and the operations of
  \<open>os/kern/port.c\<close> that need them.  The conventions are those of the theory of messages.
\<close>

section \<open>Connecting\<close>

text \<open>
  \<open>pr\<close> and \<open>sm\<close> are the new portref and message, \<open>ids\<close> the address of the caller's abilities.
  The first part ends asleep on \<open>p_iowait\<close>, with the slot.
\<close>

definition msg_connect_start ::
  "addr \<Rightarrow> u32 \<Rightarrow> u32 \<Rightarrow> addr \<Rightarrow> addr \<Rightarrow> addr \<Rightarrow> int \<Rightarrow> ipc \<Rightarrow> (nat syscall \<times> ipc) option" where
  "msg_connect_start pa name mode pr sm ids idlen st =
     (let st1 = upd_pr pr (\<lambda>_. alloc_portref\<lparr>p_msg := sm\<rparr>)
            (upd_msg sm (\<lambda>k. k\<lparr>m_op := M_CONNECT, m_sender := pr, m_seg := (m_seg k)[0 := ids], m_nseg := idlen,
               m_arg := mode, m_arg1 := 0\<rparr>) (st\<lparr>m_next := (m_next st)(sm := 0)\<rparr>))
      in do {
        (r, p) \<leftarrow> alloc_open (procs st1 pa);
        (case r of
           Inl e \<Rightarrow> Some (Inl e, st1)
         | Inr slot \<Rightarrow>
             let st2 = upd_proc pa (\<lambda>_. p) st1 in
             (case hash_lookup (portnames st2) name of
                None \<Rightarrow> Some (Inl ESRCH, upd_proc pa (free_open slot) st2)
              | Some port \<Rightarrow>
                  Some (Inr slot, upd_pr pr (\<lambda>r. r\<lparr>p_iowait := p_iowait r - 1\<rparr>)
                    (lqueue_msg port sm (upd_pr pr (\<lambda>r. r\<lparr>p_port := port\<rparr>) st2)))))
      })"

definition msg_connect_done :: "addr \<Rightarrow> nat \<Rightarrow> addr \<Rightarrow> addr \<Rightarrow> ipc \<Rightarrow> nat syscall \<times> ipc" where
  "msg_connect_done pa slot pr sm st =
     (if p_port (prs st pr) = 0 then (Inl EIO, upd_proc pa (free_open slot) st)
      else if p_state (prs st pr) \<noteq> PS_IODONE then (Inl (m_err (msgs st sm)), upd_proc pa (free_open slot) st)
      else (Inr slot, upd_proc pa (\<lambda>p. p\<lparr>p_open := (p_open p)[slot := pr]\<rparr>) st))"

definition msg_connect ::
  "(ipc \<Rightarrow> ipc) \<Rightarrow> addr \<Rightarrow> u32 \<Rightarrow> u32 \<Rightarrow> addr \<Rightarrow> addr \<Rightarrow> addr \<Rightarrow> int \<Rightarrow> ipc \<Rightarrow> (nat syscall \<times> ipc) option" where
  "msg_connect env pa name mode pr sm ids idlen st =
     Option.bind (msg_connect_start pa name mode pr sm ids idlen st)
       (\<lambda>(r, st1). Some (case r of Inl e \<Rightarrow> (Inl e, st1) | Inr slot \<Rightarrow> msg_connect_done pa slot pr sm (env st1)))"

definition tran_find :: "addr \<Rightarrow> u32 \<Rightarrow> ipc \<Rightarrow> addr option" where
  "tran_find pa tran st = hash_lookup (p_prefs (procs st pa)) tran"

definition msg_accept :: "addr \<Rightarrow> u32 \<Rightarrow> ipc \<Rightarrow> unit syscall \<times> ipc" where
  "msg_accept pa tran st =
     (case tran_find pa tran st of
        None \<Rightarrow> (Inl EINVAL, st)
      | Some pr \<Rightarrow>
          if p_state (prs st pr) \<noteq> PS_OPENING then (Inl EINVAL, st)
          else (Inr (), upd_pr pr (\<lambda>r. r\<lparr>p_state := PS_IODONE, p_iowait := p_iowait r + 1\<rparr>) st))"

text \<open>\<open>why\<close> is the string that \<open>get_ustr\<close> copied in, or its error.\<close>

definition msg_err :: "addr \<Rightarrow> u32 \<Rightarrow> errstr syscall \<Rightarrow> int \<Rightarrow> ipc \<Rightarrow> (unit syscall \<times> ipc) option" where
  "msg_err pa tran why len st =
     (if len < 1 \<or> 16 \<le> len then Some (Inl EINVAL, st)
      else case why of
        Inl e \<Rightarrow> Some (Inl e, st)
      | Inr errmsg \<Rightarrow>
        (case hash_lookup (p_prefs (procs st pa)) tran of
           None \<Rightarrow> Some (Inl EINVAL, st)
         | Some pr \<Rightarrow>
             let st1 = (if p_state (prs st pr) = PS_OPENING then
                   upd_proc pa (\<lambda>p. p\<lparr>p_prefs := snd (hash_delete (p_prefs p) tran)\<rparr>) st else st);
                 port = p_port (prs st1 pr)
             in if port = 0 then Some (Inl EIO, st1)
                else case p_state (prs st1 pr) of
                  PS_IOWAIT \<Rightarrow>
                    Some (Inr (), upd_pr pr (\<lambda>r. r\<lparr>p_state := PS_IODONE, p_iowait := p_iowait r + 1\<rparr>)
                      (upd_msg (p_msg (prs st1 pr)) (\<lambda>k. k\<lparr>m_arg := - 1, m_err := errmsg\<rparr>) st1))
                | PS_OPENING \<Rightarrow>
                    map_option (\<lambda>st2. (Inr (), upd_pr pr (\<lambda>r. r\<lparr>p_state := PS_ABDONE, p_iowait := p_iowait r + 1\<rparr>)
                        (upd_msg (p_msg (prs st2 pr)) (\<lambda>k. k\<lparr>m_err := errmsg\<rparr>) st2)))
                      (deref_port port pr st1)
                | _ \<Rightarrow> Some (Inl EINVAL, st1)))"

definition msg_portname :: "(ipc \<Rightarrow> bool \<times> ipc) \<Rightarrow> addr \<Rightarrow> int \<Rightarrow> ipc \<Rightarrow> u32 syscall \<times> ipc" where
  "msg_portname env pa port st =
     (case find_portref env pa port st of
        (Inl e, st1) \<Rightarrow> (Inl e, st1)
      | (Inr pr, st1) \<Rightarrow>
          let pt = p_port (prs st1 pr); st2 = upd_pr pr (\<lambda>r. r\<lparr>pr_sema := pr_sema r + 1\<rparr>) st1
          in (if pt \<noteq> 0 then Inr (p_name (pts st1 pt)) else Inl EIO, st2))"

section \<open>Closing the client's side\<close>

definition free_portref :: "addr \<Rightarrow> ipc \<Rightarrow> ipc option" where
  "free_portref pr st = unmap_portref pr st"

text \<open>\<open>True\<close>: the disconnect message is queued and the caller sleeps on \<open>p_iowait\<close>.\<close>

definition shut_client_start :: "addr \<Rightarrow> addr \<Rightarrow> ipc \<Rightarrow> (bool \<times> ipc) option" where
  "shut_client_start pr sm st =
     (let st1 = upd_msg sm (\<lambda>k. k\<lparr>m_sender := pr, m_op := M_DISCONNECT, m_arg := of_nat pr, m_arg1 := 0, m_nseg := 0\<rparr>) st;
          port = p_port (prs st1 pr)
      in if port = 0 then map_option (Pair False) (free_portref pr st1)
         else
           let st2 = upd_pr pr (\<lambda>r. r\<lparr>p_state := PS_CLOSING\<rparr>) st1
           in Some (True, upd_pr pr (\<lambda>r. r\<lparr>p_iowait := p_iowait r - 1\<rparr>) (queue_msg port sm st2)))"

definition shut_client :: "(ipc \<Rightarrow> ipc) \<Rightarrow> addr \<Rightarrow> addr \<Rightarrow> ipc \<Rightarrow> ipc option" where
  "shut_client env pr sm st =
     Option.bind (shut_client_start pr sm st)
       (\<lambda>(slp, st1). if slp then free_portref pr (env st1) else Some st1)"

section \<open>Closing the server's side\<close>

text \<open>\<open>True\<close>: messages were found in the queue and nothing but the unmapping has been done.\<close>

definition close_client :: "addr \<Rightarrow> addr \<Rightarrow> ipc \<Rightarrow> (bool \<times> ipc) option" where
  "close_client port pr st = do {
     st1 \<leftarrow> unmap_portref pr st;
     (if p_hd (pts st1 port) \<noteq> 0 then Some (True, st1)
      else
        let st2 = upd_pr pr (\<lambda>r. r\<lparr>p_port := 0\<rparr>) st1;
            st3 = (if p_iowait (prs st2 pr) < 0 then upd_pr pr (\<lambda>r. r\<lparr>p_iowait := p_iowait r + 1\<rparr>) st2 else st2)
        in map_option (Pair False) (deref_port port pr st3))
   }"

definition bounce_one :: "addr \<Rightarrow> addr \<Rightarrow> ipc \<Rightarrow> ipc option" where
  "bounce_one port sm st =
     (let pr = m_sender (msgs st sm); st1 = st\<lparr>m_next := (m_next st)(sm := 0)\<rparr> in
      if pr = 0 then (if m_op (msgs st1 sm) = M_ISR then Some st1 else None)
      else if p_port (prs st1 pr) \<noteq> port then None
      else do {
        st2 \<leftarrow> (if 0 < m_nseg (msgs st1 sm) then freesegs sm st1 else Some st1);
        (if p_state (prs st2 pr) = PS_ABWAIT \<and> m_op (msgs st2 sm) \<noteq> M_ABORT then Some st2
         else
           let st3 = upd_msg sm (\<lambda>k. k\<lparr>m_arg := - 1, m_arg1 := - 1, m_err := EIO\<rparr>) st2;
               st4 = upd_pr pr (\<lambda>r. r\<lparr>p_port := 0, p_iowait := p_iowait r + 1\<rparr>) st3
           in deref_port port pr st4)
      })"

fun bounce_list :: "addr \<Rightarrow> addr list \<Rightarrow> ipc \<Rightarrow> ipc option" where
  "bounce_list port [] st = Some st"
| "bounce_list port (sm # sms) st = Option.bind (bounce_one port sm st) (bounce_list port sms)"

definition bounce_msgs :: "addr \<Rightarrow> ipc \<Rightarrow> ipc option" where
  "bounce_msgs port st = do {
     sms \<leftarrow> chain_walk (m_next st) (p_hd (pts st port));
     bounce_list port sms (upd_pt port (\<lambda>p. p\<lparr>p_hd := 0, p_tl := 0\<rparr>) st)
   }"

text \<open>
  The loop of \<open>shut_server\<close> over the clients; without end where it does not end.
\<close>

partial_function (option) shut_loop :: "addr \<Rightarrow> addr \<Rightarrow> ipc \<Rightarrow> ipc option" where
  "shut_loop pa port st =
     (let pr = p_refs (pts st port) in
      if pr = 0 then Some st
      else Option.bind (close_client port pr st) (\<lambda>(more, st1).
        Option.bind (if more then bounce_msgs port st1 else Some st1) (\<lambda>st2.
          if hash_lookup (p_prefs (procs st2 pa)) (of_nat pr) = None then None
          else shut_loop pa port
            (upd_proc pa (\<lambda>p. p\<lparr>p_prefs := snd (hash_delete (p_prefs p) (of_nat pr))\<rparr>) st2))))"

declare shut_loop.simps [code]

text \<open>
  \<open>disable_isr\<close> and \<open>mmap_cleanup\<close> touch nothing that is modelled here.
\<close>

definition shut_server :: "addr \<Rightarrow> addr \<Rightarrow> ipc \<Rightarrow> ipc option" where
  "shut_server pa port st =
     (let st1 = upd_pt port (\<lambda>p. p\<lparr>p_closing := True\<rparr>) st;
          st2 = st1\<lparr>portnames := snd (hash_delete (portnames st1) (p_name (pts st1 port)))\<rparr>;
          st3 = upd_pt port (\<lambda>p. p\<lparr>p_isr := False\<rparr>) st2
      in shut_loop pa port st3)"

text \<open>\<open>env\<close> are the sleeps, on the semaphore of the port or portref and on \<open>p_iowait\<close>.\<close>

definition msg_disconnect :: "(ipc \<Rightarrow> ipc) \<Rightarrow> (ipc \<Rightarrow> ipc) \<Rightarrow> addr \<Rightarrow> int \<Rightarrow> addr \<Rightarrow> ipc \<Rightarrow> (unit syscall \<times> ipc) option" where
  "msg_disconnect env1 env2 pa arg sm st =
     (if int PROCOPENS \<le> arg then
        (case delete_port pa (arg - int PROCOPENS) st of
           (Inl e, st1) \<Rightarrow> Some (Inl e, st1)
         | (Inr (port, slp), st1) \<Rightarrow>
             map_option (Pair (Inr ())) (shut_server pa port (if slp then env1 st1 else st1)))
      else
        (case delete_portref pa arg st of
           (Inl e, st1) \<Rightarrow> Some (Inl e, st1)
         | (Inr (pr, slp), st1) \<Rightarrow>
             map_option (Pair (Inr ())) (shut_client env2 pr sm (if slp then env1 st1 else st1))))"

section \<open>Duplicating\<close>

text \<open>\<open>npr\<close> and \<open>sm\<close> are the new portref and the message.\<close>

definition dup_port :: "(ipc \<Rightarrow> ipc) \<Rightarrow> addr \<Rightarrow> addr \<Rightarrow> addr \<Rightarrow> ipc \<Rightarrow> (addr \<times> ipc) option" where
  "dup_port env opr npr sm st =
     (if p_nodup (prs st opr) then Some (0, st)
      else do {
        let st1 = upd_pr npr (\<lambda>_. alloc_portref\<lparr>p_port := p_port (prs st opr), p_state := PS_IODONE\<rparr>) st;
        (r, st2) \<leftarrow> kernmsg_send env opr M_DUP (of_nat npr) 0 sm st1;
        Some (case r of None \<Rightarrow> 0 | Some (a0, _) \<Rightarrow> if a0 = - 1 then 0 else npr, st2)
      })"

definition clone :: "(ipc \<Rightarrow> bool \<times> ipc) \<Rightarrow> (ipc \<Rightarrow> ipc) \<Rightarrow> addr \<Rightarrow> int \<Rightarrow> addr \<Rightarrow> addr \<Rightarrow> ipc \<Rightarrow> (nat syscall \<times> ipc) option" where
  "clone env1 env2 pa port npr sm st = do {
     (r, p) \<leftarrow> alloc_open (procs st pa);
     (case r of
        Inl e \<Rightarrow> Some (Inl e, st)
      | Inr slot \<Rightarrow>
        (case find_portref env1 pa port (upd_proc pa (\<lambda>_. p) st) of
           (Inl e, st2) \<Rightarrow> Some (Inl e, upd_proc pa (free_open slot) st2)
         | (Inr pr, st2) \<Rightarrow> do {
             (newpr, st3) \<leftarrow> dup_port env2 pr npr sm st2;
             let st4 = upd_pr pr (\<lambda>r. r\<lparr>pr_sema := pr_sema r + 1\<rparr>) st3;
             Some (if newpr \<noteq> 0 then (Inr slot, upd_proc pa (\<lambda>p. p\<lparr>p_open := (p_open p)[slot := newpr]\<rparr>) st4)
                   else (Inl [], upd_proc pa (free_open slot) st4))
           }))
   }"

text \<open>
  \<open>old\<close> is the parent's table; the result is the child's.  Each sleep on the semaphore of a
  portref is \<open>env1\<close>; \<open>npr x\<close> and \<open>sm x\<close> are the storage for slot \<open>x\<close>.
\<close>

fun fork_ports :: "(ipc \<Rightarrow> ipc) \<Rightarrow> (ipc \<Rightarrow> ipc) \<Rightarrow> (nat \<Rightarrow> addr) \<Rightarrow> (nat \<Rightarrow> addr) \<Rightarrow> nat \<Rightarrow> addr list \<Rightarrow> ipc \<Rightarrow> (addr list \<times> ipc) option" where
  "fork_ports env1 env2 npr sm x [] st = Some ([], st)"
| "fork_ports env1 env2 npr sm x (pr # old) st =
     (if pr = 0 then map_option (\<lambda>(new, st'). (0 # new, st')) (fork_ports env1 env2 npr sm (Suc x) old st)
      else do {
        let st1 = upd_pr pr (\<lambda>r. r\<lparr>pr_sema := pr_sema r - 1\<rparr>) st;
        let st2 = (if pr_sema (prs st1 pr) < 0 then env1 st1 else st1);
        (n, st3) \<leftarrow> dup_port env2 pr (npr x) (sm x) st2;
        (new, st4) \<leftarrow> fork_ports env1 env2 npr sm (Suc x) old (upd_pr pr (\<lambda>r. r\<lparr>pr_sema := pr_sema r + 1\<rparr>) st3);
        Some (n # new, st4)
      })"

fun close_ports :: "addr \<Rightarrow> addr list \<Rightarrow> ipc \<Rightarrow> (addr list \<times> ipc) option" where
  "close_ports pa [] st = Some ([], st)"
| "close_ports pa (port # ports) st = do {
     st1 \<leftarrow> (if port \<noteq> 0 then shut_server pa port st else Some st);
     (rest, st2) \<leftarrow> close_ports pa ports st1;
     Some (0 # rest, st2)
   }"

fun close_portrefs :: "(ipc \<Rightarrow> ipc) \<Rightarrow> (nat \<Rightarrow> addr) \<Rightarrow> nat \<Rightarrow> addr list \<Rightarrow> ipc \<Rightarrow> (addr list \<times> ipc) option" where
  "close_portrefs env sm x [] st = Some ([], st)"
| "close_portrefs env sm x (pr # rest) st = do {
     st1 \<leftarrow> (if pr \<noteq> 0 then shut_client env pr (sm x) st else Some st);
     (new, st2) \<leftarrow> close_portrefs env sm (Suc x) rest st1;
     Some (0 # new, st2)
   }"

end
