(* ===== verification/Ipc_Protocol.thy ===== *)
theory Ipc_Protocol
  imports Connections
begin

text \<open>
  The protocol between the client and the server of one connection \<open>pr\<close>, as a step relation
  over the kernel's own functions: the client sends, is woken, is interrupted and fights the
  server for the message; the server's threads reply or report errors at any time, asked or
  not; the server closes its port, with the request still queued or not; everybody else may do
  anything that leaves the connection alone.  The phase of the client is the place where its
  \<open>msg_send\<close> has given up the processor.

  Two things are not in the relation.  The client does not close the connection or duplicate
  it: what it does then goes through \<open>shut_client\<close> and \<open>kernmsg_send\<close>, and the message \<open>M_DUP\<close> of the
  latter, which \<open>msg_send\<close> refuses to a user, is answered by rules of its own, with the defect that
  \<open>dup_answered_twice\<close> shows.  And no answer comes after the server has closed the port: \<open>shut_server\<close>
  takes the connection out of the hash of the server before it gives up the processor.
\<close>

datatype phase = CIdle | CWait addr | CRun addr | CIntr addr | CAbort addr | CAbRun addr

text \<open>
  \<open>svc\<close>: a server thread sleeps on \<open>p_svwait\<close>.  \<open>sent\<close> and \<open>answered\<close> count the requests queued and
  the answers accepted.
\<close>

record conn =
  kst :: ipc
  phase :: phase
  svc :: bool
  sent :: nat
  answered :: nat

text \<open>A \<open>v_sema\<close> that brings the count of \<open>p_iowait\<close> back to zero makes the sleeping client runnable.\<close>

fun woken :: "phase \<Rightarrow> phase" where
  "woken (CWait sm) = CRun sm"
| "woken (CAbort sm) = CAbRun sm"
| "woken c = c"

definition wake :: "addr \<Rightarrow> ipc \<Rightarrow> ipc \<Rightarrow> phase \<Rightarrow> phase" where
  "wake pr st st' c =
     (if p_iowait (prs st pr) < 0 \<and> p_iowait (prs st pr) < p_iowait (prs st' pr) then woken c else c)"

definition free_server :: "addr \<Rightarrow> ipc \<Rightarrow> bool \<Rightarrow> bool" where
  "free_server pr st' b = (b \<and> p_svwait (prs st' pr) < 0)"

inductive cstep :: "addr \<Rightarrow> conn \<Rightarrow> conn \<Rightarrow> bool" for pr where
  send: "phase c = CIdle \<Longrightarrow> p_port (prs (kst c) pr) \<noteq> 0 \<Longrightarrow> m_op (msgs (kst c) sm) \<noteq> M_DUP \<Longrightarrow>
    msg_send_queue pr sm (kst c) = Some st' \<Longrightarrow>
    cstep pr c (c\<lparr>kst := st', phase := CWait sm, sent := Suc (sent c)\<rparr>)"
| interrupt: "phase c = CWait sm \<Longrightarrow>
    cstep pr c (c\<lparr>kst := upd_pr pr (\<lambda>r. r\<lparr>p_iowait := p_iowait r + 1\<rparr>) (kst c), phase := CIntr sm\<rparr>)"
| grapple_abort: "phase c = CIntr sm \<Longrightarrow> msg_send_intr pr sm2 (kst c) = Some (True, st') \<Longrightarrow>
    cstep pr c (c\<lparr>kst := st', phase := CAbort sm\<rparr>)"
| grapple_done: "phase c = CIntr sm \<Longrightarrow> msg_send_intr pr sm2 (kst c) = Some (False, st1) \<Longrightarrow>
    msg_send_out pr sm st1 = Some st' \<Longrightarrow>
    cstep pr c (c\<lparr>kst := st', phase := CIdle, svc := free_server pr st' (svc c)\<rparr>)"
| finish: "phase c = CRun sm \<Longrightarrow> msg_send_done flt stale vas pr sm m cok (kst c) = Some (r, um, st') \<Longrightarrow>
    cstep pr c (c\<lparr>kst := st', phase := CIdle, svc := free_server pr st' (svc c)\<rparr>)"
| finish_abort: "phase c = CAbRun sm \<Longrightarrow> msg_send_abdone pr (kst c) = Some st1 \<Longrightarrow>
    msg_send_out pr sm st1 = Some st' \<Longrightarrow>
    cstep pr c (c\<lparr>kst := st', phase := CIdle, svc := free_server pr st' (svc c)\<rparr>)"
| reply: "p_port (prs (kst c) pr) \<noteq> 0 \<Longrightarrow> reply_switch pa pr sm (kst c) = Some (Inr (), slp, st') \<Longrightarrow>
    cstep pr c (c\<lparr>kst := st', phase := wake pr (kst c) st' (phase c), svc := svc c \<or> slp, answered := Suc (answered c)\<rparr>)"
| reply_refused: "p_port (prs (kst c) pr) \<noteq> 0 \<Longrightarrow> reply_switch pa pr sm (kst c) = Some (Inl e, slp, st') \<Longrightarrow>
    cstep pr c (c\<lparr>kst := st', phase := wake pr (kst c) st' (phase c), svc := svc c \<or> slp\<rparr>)"
| error: "p_port (prs (kst c) pr) \<noteq> 0 \<Longrightarrow> hash_lookup (p_prefs (procs (kst c) pa)) tran = Some pr \<Longrightarrow> msg_err pa tran why len (kst c) = Some (Inr (), st') \<Longrightarrow>
    cstep pr c (c\<lparr>kst := st', phase := wake pr (kst c) st' (phase c), answered := Suc (answered c)\<rparr>)"
| error_refused: "p_port (prs (kst c) pr) \<noteq> 0 \<Longrightarrow> hash_lookup (p_prefs (procs (kst c) pa)) tran = Some pr \<Longrightarrow> msg_err pa tran why len (kst c) = Some (Inl e, st') \<Longrightarrow>
    cstep pr c (c\<lparr>kst := st', phase := wake pr (kst c) st' (phase c)\<rparr>)"
| server_closes: "p_port (prs (kst c) pr) = port \<Longrightarrow> port \<noteq> 0 \<Longrightarrow> close_client port pr (kst c) = Some (False, st') \<Longrightarrow>
    cstep pr c (c\<lparr>kst := st', phase := wake pr (kst c) st' (phase c)\<rparr>)"
| bounced: "p_port (prs (kst c) pr) = port \<Longrightarrow> port \<noteq> 0 \<Longrightarrow> m_sender (msgs (kst c) sm) = pr \<Longrightarrow> pr \<noteq> 0 \<Longrightarrow>
    bounce_one port sm (kst c) = Some st' \<Longrightarrow>
    cstep pr c (c\<lparr>kst := st', phase := wake pr (kst c) st' (phase c)\<rparr>)"
| other: "prs st' pr = prs (kst c) pr \<Longrightarrow>
    m_op (msgs st' (p_msg (prs (kst c) pr))) = m_op (msgs (kst c) (p_msg (prs (kst c) pr))) \<Longrightarrow>
    cstep pr c (c\<lparr>kst := st'\<rparr>)"

inductive reach :: "addr \<Rightarrow> conn \<Rightarrow> conn \<Rightarrow> bool" for pr c where
  start: "reach pr c c"
| step: "reach pr c d \<Longrightarrow> cstep pr d e \<Longrightarrow> reach pr c e"

section \<open>The invariant\<close>

fun phase_ok :: "phase \<Rightarrow> pstate \<Rightarrow> int \<Rightarrow> bool" where
  "phase_ok CIdle s w = (w = 0 \<and> (s = PS_IODONE \<or> s = PS_ABDONE))"
| "phase_ok (CWait sm) s w = (w = -1 \<and> s = PS_IOWAIT)"
| "phase_ok (CRun sm) s w = (w = 0 \<and> s = PS_IODONE)"
| "phase_ok (CIntr sm) s w = (w = 0 \<and> s = PS_IOWAIT \<or> w = 1 \<and> s = PS_IODONE)"
| "phase_ok (CAbort sm) s w = (w = -1 \<and> s = PS_ABWAIT)"
| "phase_ok (CAbRun sm) s w = (w = 0 \<and> s = PS_ABDONE)"

text \<open>When the server has closed its port nobody sleeps any more, and no answer is to come.\<close>

fun gone_ok :: "phase \<Rightarrow> pstate \<Rightarrow> int \<Rightarrow> bool" where
  "gone_ok CIdle s w = (0 \<le> w)"
| "gone_ok (CRun sm) s w = (0 \<le> w \<and> (s = PS_IOWAIT \<or> s = PS_IODONE))"
| "gone_ok (CIntr sm) s w = (0 \<le> w \<and> (s = PS_IOWAIT \<or> s = PS_IODONE))"
| "gone_ok (CAbRun sm) s w = (0 \<le> w \<and> (s = PS_ABWAIT \<or> s = PS_ABDONE))"
| "gone_ok c s w = False"

definition pending :: "conn \<Rightarrow> addr \<Rightarrow> nat" where
  "pending c pr = (if p_state (prs (kst c) pr) = PS_IOWAIT \<or> p_state (prs (kst c) pr) = PS_ABWAIT then 1 else 0)"

definition conn_ok :: "addr \<Rightarrow> conn \<Rightarrow> bool" where
  "conn_ok pr c = (let r = prs (kst c) pr in
     (if p_port r = 0 then gone_ok (phase c) (p_state r) (p_iowait r) else phase_ok (phase c) (p_state r) (p_iowait r)) \<and>
     (p_port r \<noteq> 0 \<and> p_state r = PS_IOWAIT \<longrightarrow> m_op (msgs (kst c) (p_msg r)) \<noteq> M_DUP) \<and>
     (if svc c then p_svwait r = -1 \<and> p_state r = PS_IODONE \<and> phase c \<noteq> CIdle else 0 \<le> p_svwait r) \<and>
     sent c = answered c + pending c pr)"

lemma queue_msg_frame [simp]:
  "prs (queue_msg port sm st) = prs st" "msgs (queue_msg port sm st) = msgs st"
  "procs (queue_msg port sm st) = procs st"
  by (simp_all add: queue_msg_def lqueue_msg_def Let_def ipc_upd)

lemma msg_send_queue_eff:
  "msg_send_queue pr sm st = Some st' \<Longrightarrow>
    p_iowait (prs st pr) = 0 \<and> prs st' pr = (prs st pr)\<lparr>p_msg := sm, p_state := PS_IOWAIT, p_iowait := -1\<rparr> \<and>
    m_op (msgs st' sm) = m_op (msgs st sm)"
  by (auto simp: msg_send_queue_def Let_def ipc_upd split: if_splits)

lemma msg_send_intr_eff:
  "msg_send_intr pr sm2 st = Some (again, st') \<Longrightarrow>
    (again \<and> p_state (prs st pr) = PS_IOWAIT \<and> p_port (prs st pr) \<noteq> 0 \<and>
      prs st' pr = (prs st pr)\<lparr>p_state := PS_ABWAIT, p_iowait := p_iowait (prs st pr) - 1\<rparr>) \<or>
    (\<not> again \<and> p_state (prs st pr) = PS_IODONE \<and> prs st' pr = (prs st pr)\<lparr>p_iowait := 0\<rparr>)"
  by (auto simp: msg_send_intr_def Let_def ipc_upd split: pstate.splits if_splits)

lemma freesegs_frame: "freesegs sm st = Some st' \<Longrightarrow> prs st' = prs st"
  by (auto simp: freesegs_def upd_vm_def ipc_upd)

lemma msg_send_out_eff:
  "msg_send_out pr sm st = Some st' \<Longrightarrow>
    prs st' pr = (prs st pr)\<lparr>p_svwait := p_svwait (prs st pr) + 1, pr_sema := pr_sema (prs st pr) + 1\<rparr>"
  by (auto simp: msg_send_out_def Let_def ipc_upd dest!: freesegs_frame split: if_splits)

lemma give_back_frame: "give_back flt stale vas sm m cok st = Some (r, um, st') \<Longrightarrow> prs st' = prs st"
  by (auto simp: give_back_def sm_to_m_def Let_def ipc_upd split: bind_splits sum.splits if_splits)

lemma msg_send_result_frame: "msg_send_result flt stale vas sm m cok st = Some (r, um, st') \<Longrightarrow> prs st' = prs st"
  by (auto simp: msg_send_result_def dest!: give_back_frame split: bind_splits if_splits)

lemma msg_send_done_plain:
  "m_nseg (msgs st sm) = 0 \<Longrightarrow> msg_send_done flt stale vas pr sm m cok st =
    Some (if m_arg (msgs st sm) = - 1 then Inl (m_err (msgs st sm)) else Inr (m_arg (msgs st sm)), None,
      upd_pr pr (\<lambda>r. r\<lparr>p_svwait := p_svwait r + 1, pr_sema := pr_sema r + 1\<rparr>) st)"
  by (simp add: msg_send_done_def msg_send_result_def msg_send_out_def Let_def ipc_upd)

lemma msg_send_done_eff:
  "msg_send_done flt stale vas pr sm m cok st = Some (r, um, st') \<Longrightarrow>
    prs st' pr = (prs st pr)\<lparr>p_svwait := p_svwait (prs st pr) + 1, pr_sema := pr_sema (prs st pr) + 1\<rparr>"
  by (auto simp: msg_send_done_def dest!: msg_send_result_frame msg_send_out_eff split: bind_splits)

lemma reply_switch_eff:
  assumes "reply_switch pa pr sm st = Some (r, slp, st')"
    and "p_state (prs st pr) = PS_IOWAIT \<Longrightarrow> m_op (msgs st (p_msg (prs st pr))) \<noteq> M_DUP"
  shows "(case p_state (prs st pr) of
      PS_IOWAIT \<Rightarrow> r = Inr () \<and> slp \<and> prs st' pr = (prs st pr)\<lparr>p_state := PS_IODONE, p_svwait := -1, p_iowait := p_iowait (prs st pr) + 1\<rparr>
    | PS_ABWAIT \<Rightarrow> \<not> slp \<and> (if m_op (msgs st sm) = M_ABORT
        then r = Inr () \<and> prs st' pr = (prs st pr)\<lparr>p_state := PS_ABDONE, p_iowait := p_iowait (prs st pr) + 1\<rparr>
        else r = Inl EIO \<and> st' = st)
    | _ \<Rightarrow> \<not> slp \<and> r = Inl EINVAL \<and> st' = st)"
  using assms by (auto simp: reply_switch_def Let_def ipc_upd split: pstate.splits if_splits)

lemma msg_err_eff:
  assumes "msg_err pa tran why len st = Some (r, st')" "hash_lookup (p_prefs (procs st pa)) tran = Some pr"
    and "p_state (prs st pr) \<noteq> PS_OPENING"
  shows "(r = Inr () \<and> p_state (prs st pr) = PS_IOWAIT \<and>
      prs st' pr = (prs st pr)\<lparr>p_state := PS_IODONE, p_iowait := p_iowait (prs st pr) + 1\<rparr>) \<or>
    (r \<noteq> Inr () \<and> st' = st)"
  using assms by (auto simp: msg_err_def Let_def ipc_upd split: pstate.splits if_splits sum.splits)

lemma deref_port_frame: "deref_port port pr st = Some st' \<Longrightarrow> prs st' = prs st \<and> msgs st' = msgs st"
  by (auto simp: deref_port_def deref_check_def Let_def ipc_upd split: if_splits bind_splits option.splits)

lemma close_client_eff:
  assumes "close_client port pr st = Some (False, st')"
  shows "p_port (prs st' pr) = 0 \<and> p_state (prs st' pr) = p_state (prs st pr) \<and> p_svwait (prs st' pr) = p_svwait (prs st pr) \<and>
    p_msg (prs st' pr) = p_msg (prs st pr) \<and> msgs st' = msgs st \<and>
    p_iowait (prs st' pr) = (if p_iowait (prs st pr) < 0 then p_iowait (prs st pr) + 1 else p_iowait (prs st pr))"
  using assms by (auto simp: close_client_def unmap_portref_def Let_def ipc_upd dest!: deref_port_frame split: bind_splits if_splits)

lemma freesegs_ops: "freesegs sm st = Some st' \<Longrightarrow> m_op (msgs st' k) = m_op (msgs st k)"
  by (auto simp: freesegs_def upd_vm_def ipc_upd)

lemma bounce_one_eff:
  assumes "bounce_one port sm st = Some st'" "m_sender (msgs st sm) = pr" "pr \<noteq> 0" "port \<noteq> 0"
  shows "m_op (msgs st' k) = m_op (msgs st k) \<and> p_port (prs st pr) = port \<and>
    (if p_state (prs st pr) = PS_ABWAIT \<and> m_op (msgs st sm) \<noteq> M_ABORT then prs st' = prs st
     else prs st' pr = (prs st pr)\<lparr>p_port := 0, p_iowait := p_iowait (prs st pr) + 1\<rparr>)"
  using assms freesegs_frame freesegs_ops
  by (fastforce simp: bounce_one_def Let_def ipc_upd dest!: deref_port_frame split: bind_splits if_splits)

lemma conn_ok_step: "cstep pr c d \<Longrightarrow> conn_ok pr c \<Longrightarrow> conn_ok pr d"
proof (induction rule: cstep.induct)
  case (send c sm st')
  then show ?case using msg_send_queue_eff [OF send(4)]
    by (auto simp: conn_ok_def Let_def pending_def)
next
  case (interrupt c sm)
  then show ?case by (auto simp: conn_ok_def Let_def pending_def upd_pr_def)
next
  case (grapple_abort c sm sm2 st')
  then show ?case using msg_send_intr_eff [OF grapple_abort(2)]
    by (auto simp: conn_ok_def Let_def pending_def)
next
  case (grapple_done c sm sm2 st1 st')
  then show ?case using msg_send_intr_eff [OF grapple_done(2)] msg_send_out_eff [OF grapple_done(3)]
    by (auto simp: conn_ok_def Let_def pending_def free_server_def split: if_splits)
next
  case (finish c sm flt stale vas m cok r um st')
  then show ?case using msg_send_done_eff [OF finish(2)]
    by (auto simp: conn_ok_def Let_def pending_def free_server_def split: if_splits)
next
  case (finish_abort c sm st1 st')
  then show ?case using msg_send_out_eff [OF finish_abort(3)]
    by (auto simp: conn_ok_def Let_def pending_def free_server_def msg_send_abdone_def split: if_splits)
next
  case (reply c pa sm slp st')
  have "p_state (prs (kst c) pr) = PS_IOWAIT \<Longrightarrow> m_op (msgs (kst c) (p_msg (prs (kst c) pr))) \<noteq> M_DUP"
    using reply(1,3) by (simp add: conn_ok_def Let_def)
  then show ?case using reply reply_switch_eff [OF reply(2)]
    by (cases "phase c") (auto simp: conn_ok_def Let_def pending_def wake_def split: pstate.splits if_splits)
next
  case (reply_refused c pa sm e slp st')
  have "p_state (prs (kst c) pr) = PS_IOWAIT \<Longrightarrow> m_op (msgs (kst c) (p_msg (prs (kst c) pr))) \<noteq> M_DUP"
    using reply_refused(1,3) by (simp add: conn_ok_def Let_def)
  then show ?case using reply_refused reply_switch_eff [OF reply_refused(2)]
    by (auto simp: conn_ok_def Let_def pending_def wake_def split: pstate.splits if_splits)
next
  case (error c pa tran why len st')
  have "p_state (prs (kst c) pr) \<noteq> PS_OPENING"
    using error(1,4) by (cases "phase c") (auto simp: conn_ok_def Let_def)
  then show ?case using error(1,4) msg_err_eff [OF error(3,2)]
    by (cases "phase c") (auto simp: conn_ok_def Let_def pending_def wake_def)
next
  case (error_refused c pa tran why len e st')
  have "p_state (prs (kst c) pr) \<noteq> PS_OPENING"
    using error_refused(1,4) by (cases "phase c") (auto simp: conn_ok_def Let_def)
  then show ?case using error_refused(1,4) msg_err_eff [OF error_refused(3,2)]
    by (auto simp: conn_ok_def Let_def pending_def wake_def)
next
  case (server_closes c port st')
  show ?case using server_closes(4) close_client_eff [OF server_closes(3)]
    by (cases "phase c") (auto simp: conn_ok_def Let_def pending_def wake_def split: if_splits)
next
  case (bounced c port sm st')
  show ?case using bounced(6) bounce_one_eff [OF bounced(5,3,4,2), of "p_msg (prs (kst c) pr)"]
    by (cases "phase c") (auto simp: conn_ok_def Let_def pending_def wake_def split: if_splits)
next
  case (other st' c)
  then show ?case by (auto simp: conn_ok_def Let_def pending_def)
qed

lemma conn_ok_reach: "reach pr c d \<Longrightarrow> conn_ok pr c \<Longrightarrow> conn_ok pr d"
  by (induction rule: reach.induct) (auto intro: conn_ok_step)

section \<open>What the protocol guarantees\<close>



text \<open>
  A request is answered once: after a reply has been accepted, another reply or error from
  any server thread is refused and changes nothing, until the next request.
\<close>

theorem second_answer_refused:
  assumes "reach pr c d" and "conn_ok pr c" and "p_port (prs (kst d) pr) \<noteq> 0"
    and "reply_switch pa pr sm (kst d) = Some (Inr (), slp, st')"
    and "hash_lookup (p_prefs (procs st' pa')) tran = Some pr"
  shows "reply_switch pa' pr sm' st' = Some (Inl EINVAL, False, st') \<and>
    (\<exists>e. msg_err pa' tran why len st' = Some (Inl e, st'))"
proof -
  have d: "conn_ok pr d" using assms(1,2) by (rule conn_ok_reach)
  then have "p_state (prs (kst d) pr) = PS_IOWAIT \<Longrightarrow> m_op (msgs (kst d) (p_msg (prs (kst d) pr))) \<noteq> M_DUP"
    using assms(3) by (simp add: conn_ok_def Let_def)
  then have "p_state (prs st' pr) = PS_IODONE \<or> p_state (prs st' pr) = PS_ABDONE"
    using reply_switch_eff [OF assms(4)] by (auto split: pstate.splits if_splits)
  then show ?thesis using assms(5) by (auto simp: reply_switch_def msg_err_def Let_def split: sum.splits)
qed

end
