(* ===== verification/Ipc_Roundtrips.thy ===== *)
theory Ipc_Roundtrips
  imports Ipc_Protocol
begin

text \<open>
  The four transactions of the message system from one end to the other, composed from the
  kernel's functions for the client and the server: request and reply, a connection accepted,
  a connection refused, a disconnection.
\<close>

section \<open>A request from the client to the server and back\<close>

lemma receive_deliver_eff:
  assumes "receive_deliver stale vas port pr sm m cok st = Some (Inr n, Some um, st')"
  defines "k \<equiv> msgs st sm"
  shows "um_sender um = of_nat (m_sender k) \<and> um_op um = m_op k AND NOT M_READ \<and> um_arg um = m_arg k \<and>
    um_arg1 um = m_arg1 k \<and> um_nseg um = m_nseg k \<and> procs st' = procs st \<and> portnames st' = portnames st \<and>
    m_next st' = m_next st \<and> p_next st' = p_next st \<and> p_prev st' = p_prev st \<and>
    pts st' = (pts st)(port := (pts st port)\<lparr>pt_sema := pt_sema (pts st port) + 1\<rparr>) \<and>
    msgs st' = (msgs st)(sm := k\<lparr>m_nseg := 0\<rparr>) \<and>
    prs st' = (prs st)(pr := (prs st pr)\<lparr>p_segs := p_segs (prs st' pr)\<rparr>)"
  using assms(1) unfolding k_def
  by (auto simp: receive_deliver_def sm_to_m_def drop_msg_def Let_def ipc_upd split: bind_splits sum.splits if_splits)

lemma receive_deliver_plain:
  "m_nseg (msgs st sm) = 0 \<Longrightarrow> receive_deliver stale vas port pr sm m True st =
    Some (Inr 0, Some (fst (sm_to_m stale sm m st)),
      upd_pt port (\<lambda>p. p\<lparr>pt_sema := pt_sema p + 1\<rparr>) (upd_msg sm (\<lambda>k. k\<lparr>m_nseg := 0\<rparr>) st))"
  by (simp add: receive_deliver_def sm_to_m_def drop_msg_def Let_def ipc_upd)

text \<open>The receive when a message is waiting and no other thread receives: it does not sleep.\<close>

lemma msg_receive_ready:
  assumes "port_slot (procs st sp) portid = Some port" "0 < pt_sema (pts st port)" "0 < p_wait (pts st port)"
  shows "msg_receive vtop stale env1 env2 sp vas portid m cok s ps st =
    msg_receive_done vtop stale False sp vas port m cok s ps
      (upd_pt port (\<lambda>p. p\<lparr>pt_sema := pt_sema p - 1, p_wait := p_wait p - 1\<rparr>) st)"
  using assms by (simp add: msg_receive_def find_port_def Let_def ipc_upd)

lemma m_to_sm_plain:
  "um_nseg m = 0 \<Longrightarrow> m_to_sm vas m sm as st =
    Some (Inr (), upd_msg sm (\<lambda>k. k\<lparr>m_op := um_op m, m_arg := um_arg m, m_arg1 := um_arg1 m, m_nseg := 0\<rparr>) st)"
  by (auto simp: m_to_sm_def Let_def ipc_upd)

lemma unmapsegs_none: "mapped refs = [] \<Longrightarrow> unmapsegs refs v = Some (refs, v)"
  by (simp add: unmapsegs_def)

definition ready :: "addr \<Rightarrow> int \<Rightarrow> addr \<Rightarrow> ipc \<Rightarrow> bool" where
  "ready sp portid port st =
     (port \<noteq> 0 \<and> port_slot (procs st sp) portid = Some port \<and> 0 < pt_sema (pts st port) \<and>
      0 \<le> p_wait (pts st port) \<and> msg_q port st [])"



text \<open>Where \<open>ref_port\<close> puts a new reference in the ring.\<close>

fun after_first :: "addr \<Rightarrow> addr list \<Rightarrow> addr list" where
  "after_first x [] = [x]"
| "after_first x (h # ys) = h # x # ys"

lemma ref_port_ring: "ref_ring port st xs \<Longrightarrow> x \<noteq> 0 \<Longrightarrow> x \<notin> set xs \<Longrightarrow> ref_ring port (ref_port port x st) (after_first x xs)"
  using ref_port_refs [of port st xs x] by (cases xs) auto

lemma ref_port_frame [simp]:
  "prs (ref_port port x st) = prs st" "msgs (ref_port port x st) = msgs st" "procs (ref_port port x st) = procs st"
  "m_next (ref_port port x st) = m_next st" "portnames (ref_port port x st) = portnames st" "vm (ref_port port x st) = vm st"
  "p_hd (pts (ref_port port x st) p) = p_hd (pts st p)" "p_tl (pts (ref_port port x st) p) = p_tl (pts st p)"
  "p_wait (pts (ref_port port x st) p) = p_wait (pts st p)" "pt_sema (pts (ref_port port x st) p) = pt_sema (pts st p)"
  by (auto simp: ref_port_def Let_def ipc_upd)

lemma ref_ring_cong:
  "p_refs (pts st' port) = p_refs (pts st port) \<Longrightarrow> p_next st' = p_next st \<Longrightarrow> p_prev st' = p_prev st \<Longrightarrow>
   ref_ring port st' xs = ref_ring port st xs"
  by (simp add: ref_ring_def)

lemma port_slot_prefs [simp]: "port_slot (p\<lparr>p_prefs := h\<rparr>) i = port_slot p i"
  by (simp add: port_slot_def)

definition serves :: "addr \<Rightarrow> ipc \<Rightarrow> addr \<Rightarrow> bool" where
  "serves sp st pr = (hash_lookup (p_prefs (procs st sp)) (of_nat pr) = Some pr)"

definition clients_ok :: "addr \<Rightarrow> ipc \<Rightarrow> bool" where
  "clients_ok sp st = (case p_prefs (procs st sp) of None \<Rightarrow> False | Some h \<Rightarrow> hash_tinv h)"

lemma new_client_eff:
  assumes "clients_ok sp st" "hash_lookup (p_prefs (procs st sp)) (of_nat pr) = None"
  shows "\<exists>h. new_client sp pr st = Some (upd_proc sp (\<lambda>p. p\<lparr>p_prefs := Some h\<rparr>) st) \<and> hash_tinv h \<and>
    (\<forall>k. hash_get h k = (if k = of_nat pr then Some pr else hash_lookup (p_prefs (procs st sp)) k))"
proof -
  obtain g where g: "p_prefs (procs st sp) = Some g" "hash_tinv g" using assms(1) by (auto simp: clients_ok_def split: option.splits)
  have "hash_get g (of_nat pr) = None" using assms(2) g by (simp add: hash_get_def)
  moreover have "snd (hash_insert True (Some g) (of_nat pr) pr) = Some (hash_put g (of_nat pr) pr)"
    by (simp add: hash_put_def hash_insert_eq)
  ultimately show ?thesis using assms(2) g htab.tinv_put [OF g(2)] htab.get_put [OF g(2)]
    by (auto simp: new_client_def ipc_upd hash_get_def intro!: exI [of _ "hash_put g (of_nat pr) pr"])
qed

lemma del_client_eff:
  assumes "clients_ok sp st" "hash_lookup (p_prefs (procs st sp)) tran \<noteq> None"
  shows "\<exists>h. snd (hash_delete (p_prefs (procs st sp)) tran) = Some h \<and> hash_tinv h \<and>
    (\<forall>k. hash_get h k = (if k = tran then None else hash_lookup (p_prefs (procs st sp)) k))"
proof -
  obtain g where g: "p_prefs (procs st sp) = Some g" "hash_tinv g" using assms(1) by (auto simp: clients_ok_def split: option.splits)
  have "snd (hash_delete (Some g) tran) = Some (hash_del g tran)"
    by (simp add: hash_del_def hash_delete_eq)
  then show ?thesis using g htab.tinv_del [OF g(2)] htab.get_del [OF g(2)] by (auto simp: hash_get_def)
qed

lemma connect_received:
  assumes srv: "ready sp portid port st" "clients_ok sp st" "hash_lookup (p_prefs (procs st sp)) (of_nat pr) = None"
    and name: "hash_lookup (portnames st) name = Some port"
    and client: "opens_ok (procs st pa)" "0 \<in> set (p_open (procs st pa))" "pa \<noteq> sp"
    and new: "pr \<noteq> 0" "sm \<noteq> 0" "ref_ring port st xs" "pr \<notin> set xs"
  obtains slot p' st1 where "msg_connect_start pa name mode pr sm ids idlen st = Some (Inr slot, st1)"
    "slot < PROCOPENS" "opens_ok p'" "p_open p' = (p_open (procs st pa))[slot := PORT_RESERVED]" "free_open slot p' = procs st pa"
    "\<And>n um st2. msg_receive vtop stale env1 env2 sp vas portid m True s ps st1 = Some (Inr n, Some um, st2) \<Longrightarrow>
      um_op um = M_CONNECT \<and> um_sender um = of_nat pr \<and> um_arg um = mode \<and> procs st2 pa = p' \<and>
      clients_ok sp st2 \<and>
      (\<forall>k. hash_lookup (p_prefs (procs st2 sp)) k = (if k = of_nat pr then Some pr else hash_lookup (p_prefs (procs st sp)) k)) \<and>
      p_port (prs st2 pr) = port \<and> p_state (prs st2 pr) = PS_OPENING \<and> p_iowait (prs st2 pr) = -1 \<and>
      p_msg (prs st2 pr) = sm \<and> ref_ring port st2 (after_first pr xs) \<and> ready sp portid port st2"
proof -
  obtain slot p' where al: "alloc_open (procs st pa) = Some (Inr slot, p')" "slot < PROCOPENS" "opens_ok p'"
      "p_open p' = (p_open (procs st pa))[slot := PORT_RESERVED]" "free_open slot p' = procs st pa"
    using alloc_open_spec [OF client(1)] client(2) alloc_free_open [OF client(1)] by auto
  have q: "p_hd (pts st port) = 0" "p_tl (pts st port) = 0" "port \<noteq> 0"
    and slot: "port_slot (procs st sp) portid = Some port" and sem: "0 < pt_sema (pts st port)" "0 \<le> p_wait (pts st port)"
    using srv(1) by (auto simp: ready_def msg_q_def)
  define st0 where "st0 = upd_pr pr (\<lambda>_. alloc_portref\<lparr>p_msg := sm, p_port := port\<rparr>)
      (upd_msg sm (\<lambda>k. k\<lparr>m_op := M_CONNECT, m_sender := pr, m_seg := (m_seg k)[0 := ids], m_nseg := idlen, m_arg := mode, m_arg1 := 0\<rparr>)
        (upd_proc pa (\<lambda>_. p') st))"
  define st1 where "st1 = upd_pr pr (\<lambda>r. r\<lparr>p_iowait := p_iowait r - 1\<rparr>) (lqueue_msg port sm (st0\<lparr>m_next := (m_next st)(sm := 0)\<rparr>))"
  have start: "msg_connect_start pa name mode pr sm ids idlen st = Some (Inr slot, st1)"
    using al(1) name by (simp add: msg_connect_start_def Let_def st1_def st0_def ipc_upd lqueue_msg_def fun_upd_twist [of pr])
  have s1: "procs st1 = (procs st)(pa := p')" "p_hd (pts st1 port) = sm" "m_next st1 sm = 0"
    "prs st1 pr = alloc_portref\<lparr>p_msg := sm, p_port := port, p_iowait := -1\<rparr>"
    "m_op (msgs st1 sm) = M_CONNECT" "m_sender (msgs st1 sm) = pr" "m_arg (msgs st1 sm) = mode"
    "p_refs (pts st1 port) = p_refs (pts st port)" "p_next st1 = p_next st" "p_prev st1 = p_prev st"
    "pt_sema (pts st1 port) = pt_sema (pts st port)" "p_wait (pts st1 port) = p_wait (pts st port) + 1"
    using q by (simp_all add: st1_def st0_def ipc_upd lqueue_msg_def Let_def alloc_portref_def)
  let ?s = "take_msg port (upd_pt port (\<lambda>p. p\<lparr>pt_sema := pt_sema p - 1, p_wait := p_wait p - 1\<rparr>) st1)"
  have t: "prs ?s = prs st1" "msgs ?s = msgs st1" "procs ?s = procs st1" "p_next ?s = p_next st" "p_prev ?s = p_prev st"
    "pts ?s port = (pts st1 port)\<lparr>pt_sema := pt_sema (pts st port) - 1, p_wait := p_wait (pts st port), p_hd := 0, p_tl := 0\<rparr>"
    using s1 by (simp_all add: take_msg_def ipc_upd Let_def)
  have ring: "ref_ring port (ref_port port pr ?s) (after_first pr xs)"
    using new(1,3,4) ref_ring_cong [of ?s port st xs] t s1(8) by (intro ref_port_ring) auto
  have sp: "clients_ok sp (ref_port port pr ?s)" "hash_lookup (p_prefs (procs (ref_port port pr ?s) sp)) (of_nat pr) = None"
    using srv(2,3) client(3) t(3) s1(1) by (auto simp: clients_ok_def)
  obtain h where h: "new_client sp pr (ref_port port pr ?s) = Some (upd_proc sp (\<lambda>p. p\<lparr>p_prefs := Some h\<rparr>) (ref_port port pr ?s))"
    "hash_tinv h" "\<forall>k. hash_get h k = (if k = of_nat pr then Some pr else hash_lookup (p_prefs (procs st sp)) k)"
    using new_client_eff [OF sp] client(3) t(3) s1(1) by auto
  have recv: "um_op um = M_CONNECT \<and> um_sender um = of_nat pr \<and> um_arg um = mode \<and> procs st2 pa = p' \<and> clients_ok sp st2 \<and>
      (\<forall>k. hash_lookup (p_prefs (procs st2 sp)) k = (if k = of_nat pr then Some pr else hash_lookup (p_prefs (procs st sp)) k)) \<and>
      p_port (prs st2 pr) = port \<and> p_state (prs st2 pr) = PS_OPENING \<and> p_iowait (prs st2 pr) = -1 \<and>
      p_msg (prs st2 pr) = sm \<and> ref_ring port st2 (after_first pr xs) \<and> ready sp portid port st2"
    if r: "msg_receive vtop stale env1 env2 sp vas portid m True s ps st1 = Some (Inr n, Some um, st2)" for n um st2
  proof -
    have "port_slot (procs st1 sp) portid = Some port" "0 < pt_sema (pts st1 port)" "0 < p_wait (pts st1 port)"
      using slot sem s1 client(3) by auto
    note rr = msg_receive_ready [OF this, of vtop stale env1 env2 vas m True s ps]
    have "M_CONNECT \<noteq> M_ISR" by (simp add: op_defs)
    then obtain st3 where c: "receive_connect vtop sp port pr sm s ps ?s = Some st3"
      "receive_deliver stale vas port pr sm m True st3 = Some (Inr n, Some um, st2)"
      using r s1(2,5,6) new(2) t(2) unfolding rr msg_receive_done_def
      by (auto simp: Let_def upd_pt_def split: bind_splits)
    have st3: "prs st3 = prs st1" "procs st3 = (procs st1)(sp := (procs st sp)\<lparr>p_prefs := Some h\<rparr>)"
      "m_op (msgs st3 sm) = M_CONNECT" "m_sender (msgs st3 sm) = pr" "m_arg (msgs st3 sm) = mode"
      "p_next st3 = p_next (ref_port port pr ?s)" "p_prev st3 = p_prev (ref_port port pr ?s)" "pts st3 = pts (ref_port port pr ?s)"
      using c(1) h(1) t s1 client(3) by (auto simp: receive_connect_def kern_mem_def Let_def ipc_upd)
    note d = receive_deliver_eff [OF c(2)]
    have op: "M_CONNECT AND NOT M_READ = M_CONNECT" by (simp add: op_defs)
    obtain refs where "prs st2 pr = (prs st1 pr)\<lparr>p_segs := refs\<rparr>" using d st3(1) by (metis fun_upd_same)
    then have pr: "p_port (prs st2 pr) = port \<and> p_state (prs st2 pr) = PS_OPENING \<and> p_iowait (prs st2 pr) = -1 \<and> p_msg (prs st2 pr) = sm"
      using s1(4) by (simp add: alloc_portref_def)
    have "ref_ring port st2 (after_first pr xs)"
      using ring d st3 by (subst ref_ring_cong [of st2 port "ref_port port pr ?s"]) auto
    moreover have "ready sp portid port st2"
      using d st3 t(6) s1 slot sem q(3) client(3) by (simp add: ready_def msg_q_def)
    moreover have "clients_ok sp st2" "\<forall>k. hash_lookup (p_prefs (procs st2 sp)) k = (if k = of_nat pr then Some pr else hash_lookup (p_prefs (procs st sp)) k)"
      using d st3(2) h(2,3) by (auto simp: clients_ok_def hash_get_def)
    ultimately show ?thesis using d st3 op pr s1(1) client(3) by auto
  qed
  show ?thesis by (rule that [OF start al(2-5) recv])
qed


lemma port_slot_cong: "p_ports p = p_ports q \<Longrightarrow> port_slot p i = port_slot q i"
  by (simp add: port_slot_def)

lemma ready_cong:
  "ready sp portid port st \<Longrightarrow> p_ports (procs st' sp) = p_ports (procs st sp) \<Longrightarrow> pts st' port = pts st port \<Longrightarrow>
    ready sp portid port st'"
  using port_slot_cong [of "procs st' sp" "procs st sp" portid] by (auto simp: ready_def msg_q_def)



lemma after_first_split: "\<exists>as bs. after_first x xs = as @ x # bs \<and> as @ bs = xs"
proof (cases xs)
  case (Cons h ys)
  then show ?thesis by (intro exI [of _ "[h]"] exI [of _ ys]) simp
qed simp

lemma deref_port_ring:
  assumes "ref_ring port st (as @ pr # bs)" "ready sp portid port st"
  shows "\<exists>st'. deref_port port pr st = Some st' \<and> ref_ring port st' (as @ bs) \<and> prs st' = prs st \<and>
    msgs st' = msgs st \<and> m_next st' = m_next st \<and> procs st' = procs st \<and> portnames st' = portnames st \<and> ready sp portid port st'"
proof -
  have "0 \<le> p_wait (pts st port)" "msg_q port st []" using assms(2) by (auto simp: ready_def)
  then obtain st' where d: "deref_port port pr st = Some st'" "ref_ring port st' (as @ bs)" "prs st' = prs st"
    "msgs st' = msgs st" "m_next st' = m_next st" "procs st' = procs st" "portnames st' = portnames st"
    "\<forall>f. pts st' f = (pts st f)\<lparr>p_refs := p_refs (pts st' f)\<rparr>"
    using deref_port_refs [OF assms(1), of "[]"] by auto
  obtain refs where "pts st' port = (pts st port)\<lparr>p_refs := refs\<rparr>" using d(8) by blast
  then have "ready sp portid port st'" using assms(2) d(6) by (simp add: ready_def msg_q_def)
  then show ?thesis using d by blast
qed







text \<open>Process 1 serves port 9 under the name 1500; in \<open>demo_conn\<close> connection 50 is open to it.\<close>

definition demo_srv :: ipc where
  "demo_srv = demo_ipc\<lparr>procs := (\<lambda>p. \<lparr>p_open = replicate 32 0, p_nopen = 0,
       p_ports = (if p = 1 then [9, 0, 0, 0] else replicate 4 0), p_prefs = hash_alloc True 16\<rparr>),
     portnames := snd (hash_insert True (hash_alloc True 64) 1500 9)\<rparr>"

definition demo_conn :: ipc where
  "demo_conn = demo_srv\<lparr>prs := (\<lambda>_. alloc_portref)(50 := alloc_portref\<lparr>p_port := 9, p_state := PS_IODONE\<rparr>),
     p_next := (\<lambda>_. 0)(50 := 50), p_prev := (\<lambda>_. 0)(50 := 50), pts := (\<lambda>_. alloc_port)(9 := alloc_port\<lparr>p_refs := 50\<rparr>),
     procs := (procs demo_srv)(1 := (procs demo_srv 1)\<lparr>p_prefs := snd (hash_insert True (hash_alloc True 16) 50 50)\<rparr>,
       2 := (procs demo_srv 2)\<lparr>p_open := (p_open (procs demo_srv 2))[0 := 50], p_nopen := 1\<rparr>)\<rparr>"

definition demo_user :: usermsg where
  "demo_user = \<lparr>um_sender = 0, um_op = 300, um_arg = 5, um_arg1 = 6, um_seg = [(0, 0), (0, 0), (0, 0), (0, 0)], um_nseg = 0\<rparr>"

lemma demo_srv_facts:
  "ready 1 32 9 demo_srv" "clients_ok 1 demo_srv" "hash_lookup (p_prefs (procs demo_srv 1)) k = None"
  "hash_lookup (portnames demo_srv) 1500 = Some 9" "opens_ok (procs demo_srv 2)" "0 \<in> set (p_open (procs demo_srv 2))"
  "ref_ring 9 demo_srv []"
proof -
  obtain h :: "addr hash" where h: "hash_alloc True 16 = Some h" by (simp add: hash_alloc_def)
  then have t: "hash_tinv h" "hash_get h k = None" for k using hash_tinv_alloc [of 16 h] by auto
  obtain g :: "addr hash" where g: "hash_alloc True 64 = Some g" by (simp add: hash_alloc_def)
  then have u: "hash_tinv g" "hash_get g k = None" for k using hash_tinv_alloc [of 64 g] by auto
  have p: "snd (hash_insert True (Some g) 1500 9) = Some (hash_put g 1500 9)" by (simp add: hash_put_def hash_insert_eq)
  show "ready 1 32 9 demo_srv"
    by (simp add: ready_def demo_srv_def demo_ipc_def port_slot_def alloc_port_def msg_q_def)
  show "clients_ok 1 demo_srv" "hash_lookup (p_prefs (procs demo_srv 1)) k = None"
    using t by (simp_all add: clients_ok_def demo_srv_def h hash_get_def)
  show "hash_lookup (portnames demo_srv) 1500 = Some 9"
    using htab.get_put [OF u(1), of 1500 9 1500] by (simp add: demo_srv_def g p hash_get_def)
  show "opens_ok (procs demo_srv 2)" by (simp add: opens_ok_def demo_srv_def)
  show "0 \<in> set (p_open (procs demo_srv 2))" by (simp add: demo_srv_def)
  show "ref_ring 9 demo_srv []" by (simp add: ref_ring_def demo_srv_def demo_ipc_def alloc_port_def)
qed

lemma demo_conn_facts:
  "ready 1 32 9 demo_conn" "clients_ok 1 demo_conn" "serves 1 demo_conn 50" "ref_ring 9 demo_conn ([] @ 50 # [])"
  "p_port (prs demo_conn 50) = 9" "p_iowait (prs demo_conn 50) = 0" "mapped (p_segs (prs demo_conn 50)) = []"
proof -
  obtain h :: "addr hash" where h: "hash_alloc True 16 = Some h" by (simp add: hash_alloc_def)
  then have t: "hash_tinv h" "hash_get h k = None" for k using hash_tinv_alloc [of 16 h] by auto
  have p: "snd (hash_insert True (Some h) 50 50) = Some (hash_put h 50 50)" by (simp add: hash_put_def hash_insert_eq)
  show "ready 1 32 9 demo_conn"
    by (simp add: ready_def demo_conn_def demo_srv_def port_slot_def alloc_port_def msg_q_def)
  show "clients_ok 1 demo_conn" "serves 1 demo_conn 50"
    using htab.tinv_put [OF t(1), of 50 50] t(2) htab.get_put [OF t(1), of 50 50 50]
    by (simp_all add: clients_ok_def serves_def demo_conn_def h p hash_get_def)
  show "ref_ring 9 demo_conn ([] @ 50 # [])" by (simp add: ref_ring_def demo_conn_def ring_q_Cons)
  show "p_port (prs demo_conn 50) = 9" "p_iowait (prs demo_conn 50) = 0" "mapped (p_segs (prs demo_conn 50)) = []"
    by (simp_all add: demo_conn_def alloc_portref_def mapped_def)
qed

text \<open>The connection request of process 2, received by the server.\<close>

definition demo_asked :: ipc where
  "demo_asked = snd (the (msg_connect_start 2 1500 3 50 60 0x2000 16 demo_srv))"

lemma demo_asked_start: "msg_connect_start 2 1500 3 50 60 0x2000 16 demo_srv = Some (Inr 0, demo_asked)"
proof -
  have "alloc_open (procs demo_srv 2) = Some (Inr 0, (procs demo_srv 2)\<lparr>p_open := (replicate 32 0)[0 := PORT_RESERVED], p_nopen := 1\<rparr>)"
    by (simp add: alloc_open_def demo_srv_def)
  then have "\<exists>st1. msg_connect_start 2 1500 3 50 60 0x2000 16 demo_srv = Some (Inr 0, st1)"
    using demo_srv_facts(4) by (simp add: msg_connect_start_def Let_def ipc_upd del: replicate_Suc)
  then show ?thesis by (auto simp: demo_asked_def)
qed

lemma demo_asked_facts:
  "p_hd (pts demo_asked 9) = 60" "m_op (msgs demo_asked 60) = M_CONNECT" "m_sender (msgs demo_asked 60) = 50"
  "m_seg (msgs demo_asked 60) = [0x2000, 0, 0, 0, 0]" "m_nseg (msgs demo_asked 60) = 16" "p_wait (pts demo_asked 9) = 1"
  "pt_sema (pts demo_asked 9) = 1" "procs demo_asked 1 = procs demo_srv 1" "vm demo_asked = demo_vm"
  "p_segs (prs demo_asked 50) = replicate 6 0" "p_refs (pts demo_asked 9) = 0" "p_iowait (prs demo_asked 50) = -1"
proof -
  have "alloc_open (procs demo_srv 2) = Some (Inr 0, (procs demo_srv 2)\<lparr>p_open := (replicate 32 0)[0 := PORT_RESERVED], p_nopen := 1\<rparr>)"
    by (simp add: alloc_open_def demo_srv_def)
  then have a: "demo_asked = upd_pr 50 (\<lambda>r. r\<lparr>p_iowait := p_iowait r - 1\<rparr>) (lqueue_msg 9 60 (upd_pr 50 (\<lambda>r. r\<lparr>p_port := 9\<rparr>)
      (upd_proc 2 (\<lambda>p. p\<lparr>p_open := (replicate 32 0)[0 := PORT_RESERVED], p_nopen := 1\<rparr>)
      (upd_pr 50 (\<lambda>_. alloc_portref\<lparr>p_msg := 60\<rparr>) (upd_msg 60 (\<lambda>k. k\<lparr>m_op := M_CONNECT, m_sender := 50, m_seg := (m_seg k)[0 := 0x2000], m_nseg := 16, m_arg := 3, m_arg1 := 0\<rparr>)
        (demo_srv\<lparr>m_next := (m_next demo_srv)(60 := 0)\<rparr>))))))"
    using demo_srv_facts(4) by (simp add: demo_asked_def msg_connect_start_def Let_def ipc_upd del: replicate_Suc)
  show "p_hd (pts demo_asked 9) = 60" "m_op (msgs demo_asked 60) = M_CONNECT" "m_sender (msgs demo_asked 60) = 50"
    "m_seg (msgs demo_asked 60) = [0x2000, 0, 0, 0, 0]" "m_nseg (msgs demo_asked 60) = 16" "p_wait (pts demo_asked 9) = 1"
    "pt_sema (pts demo_asked 9) = 1" "procs demo_asked 1 = procs demo_srv 1" "vm demo_asked = demo_vm"
    "p_segs (prs demo_asked 50) = replicate 6 0" "p_refs (pts demo_asked 9) = 0" "p_iowait (prs demo_asked 50) = -1"
    by (simp_all add: a ipc_upd lqueue_msg_def Let_def demo_srv_def demo_ipc_def alloc_portref_def alloc_port_def)
qed

lemma demo_receive:
  "\<exists>um st2. msg_receive id (\<lambda>_. (0, 0)) (Pair False) (Pair False) 1 1 32 demo_user True 70 71 demo_asked =
     Some (Inr 16, Some um, st2)"
proof -
  have al: "rmap_alloc (\<lparr>r_off = 1, r_size = 4\<rparr> # \<lparr>r_off = 0x40000, r_size = 8\<rparr> # replicate 3 \<lparr>r_off = 0, r_size = 0\<rparr>) 1 =
      (0x40000, \<lparr>r_off = 1, r_size = 4\<rparr> # \<lparr>r_off = 0x40001, r_size = 7\<rparr> # replicate 3 \<lparr>r_off = 0, r_size = 0\<rparr>)"
    by code_simp
  note facts = demo_asked_facts
  have slot: "port_slot (procs demo_asked 1) 32 = Some 9" using demo_srv_facts(1) facts(8) by (simp add: ready_def)
  have rr: "msg_receive id (\<lambda>_. (0, 0)) (Pair False) (Pair False) 1 1 32 demo_user True 70 71 demo_asked =
      msg_receive_done id (\<lambda>_. (0, 0)) False 1 1 9 demo_user True 70 71
        (upd_pt 9 (\<lambda>p. p\<lparr>pt_sema := pt_sema p - 1, p_wait := p_wait p - 1\<rparr>) demo_asked)"
    by (rule msg_receive_ready [OF slot]) (simp_all add: facts)
  let ?s = "take_msg 9 (upd_pt 9 (\<lambda>p. p\<lparr>pt_sema := pt_sema p - 1, p_wait := p_wait p - 1\<rparr>) demo_asked)"
  have t: "procs ?s = procs demo_asked" "msgs ?s = msgs demo_asked" "vm ?s = demo_vm" "prs ?s = prs demo_asked"
    by (simp_all add: take_msg_def ipc_upd Let_def facts)
  obtain h where h: "new_client 1 50 (ref_port 9 50 ?s) = Some (upd_proc 1 (\<lambda>p. p\<lparr>p_prefs := Some h\<rparr>) (ref_port 9 50 ?s))"
    using new_client_eff [of 1 "ref_port 9 50 ?s" 50] demo_srv_facts(2,3) t(1) facts(8) by (auto simp: clients_ok_def)
  let ?v = "snd (kern_mem id (of_nat 0x2000) 16 70 71 demo_vm)"
  obtain v1 where at: "attach_seg 1 70 ?v = (0, v1)" "s_len (segs v1 70) = 16"
    using al by (simp add: attach_seg_def attach_pview_def hat_attach_def kern_mem_def demo_vm_def vm_upd Let_def ptob_def btop_def)
  obtain st3 where c: "receive_connect id 1 9 50 60 70 71 ?s = Some st3" "vm st3 = ?v" "m_nseg (msgs st3 60) = 1"
      "live_segs (msgs st3 60) = [70]" "prs st3 = prs demo_asked"
    using h t facts by (simp add: receive_connect_def ipc_upd split_beta live_segs_def)
  have "\<exists>um st2. receive_deliver (\<lambda>_. (0, 0)) 1 9 50 60 demo_user True st3 = Some (Inr 16, Some um, st2)"
    using c at facts(10) by (simp add: receive_deliver_def mapsegs_def sm_to_m_def drop_msg_def Let_def ipc_upd)
  then show ?thesis unfolding rr using facts c(1) t(2)
    by (simp add: msg_receive_done_def Let_def upd_pt_def op_defs)
qed

section \<open>The transactions\<close>

text \<open>
  C11. A request and its reply, both without segments: from any state in which a descriptor of the
  client stands for an idle connection to a server with an empty queue, \<open>msg_send\<close> finds
  the connection and queues the message, \<open>msg_receive\<close> returns it without sleeping with the client's
  words and a sender under which \<open>msg_reply\<close> finds the client again, and the client's call
  returns the word the server replied.  Then every process, port and address space and every
  other connection is as before; of the connection itself, semaphore included, only the message
  pointer, the state and \<open>p_svwait\<close> can differ, which are those of a finished call.
\<close>

theorem rpc_roundtrip:
  assumes srv: "ready sp portid port st" and conn: "p_port (prs st pr) = port" "p_iowait (prs st pr) = 0" "mapped (p_segs (prs st pr)) = []"
    and desc: "portref_slot (procs st pa) cport = Some pr" "0 < pr_sema (prs st pr)"
    and client: "hash_lookup (p_prefs (procs st sp)) (of_nat pr) = Some pr"
    and req: "sm \<noteq> 0" "m_nseg (msgs st sm) = 0" "m_op (msgs st sm) \<notin> {M_CONNECT, M_DISCONNECT, M_DUP, M_ISR}"
    and rep: "um_nseg mr = 0" "sm2 \<noteq> sm"
  shows "\<exists>st0 st1 um st2 st3 r st4. find_portref env0 pa cport st = (Inr pr, st0) \<and> msg_send_queue pr sm st0 = Some st1 \<and>
    msg_receive vtop stale env1 env2 sp vas portid m True s ps st1 = Some (Inr 0, Some um, st2) \<and>
    um_sender um = of_nat pr \<and> um_op um = m_op (msgs st sm) AND NOT M_READ \<and>
    um_arg um = m_arg (msgs st sm) \<and> um_arg1 um = m_arg1 (msgs st sm) \<and>
    msg_reply sp vas (um_sender um) mr sm2 as st2 = Some (Inr (), True, st3) \<and>
    msg_send_done flt stale vas2 pr sm mc cok st3 = Some (r, None, st4) \<and>
    (um_arg mr \<noteq> - 1 \<longrightarrow> r = Inr (um_arg mr)) \<and>
    procs st4 = procs st \<and> pts st4 = pts st \<and> vm st4 = vm st \<and> portnames st4 = portnames st \<and>
    p_next st4 = p_next st \<and> p_prev st4 = p_prev st \<and>
    prs st4 = (prs st)(pr := (prs st pr)\<lparr>p_msg := sm, p_state := PS_IODONE, p_svwait := 0\<rparr>)"
proof -
  define st0 where "st0 = upd_pr pr (\<lambda>r. r\<lparr>pr_sema := pr_sema r - 1\<rparr>) st"
  have f0: "find_portref env0 pa cport st = (Inr pr, st0)"
    using desc conn(1) srv by (simp add: find_portref_def find_portref_start_def find_portref_done_def st0_def Let_def ready_def ipc_upd)
  have q: "p_hd (pts st port) = 0" "p_tl (pts st port) = 0" "port \<noteq> 0"
    and slot: "port_slot (procs st sp) portid = Some port" and sem: "0 < pt_sema (pts st port)" "0 \<le> p_wait (pts st port)"
    using srv by (auto simp: ready_def msg_q_def)
  define st1 where "st1 = upd_pr pr (\<lambda>r. r\<lparr>p_iowait := -1\<rparr>) (queue_msg port sm
      (upd_pr pr (\<lambda>r. r\<lparr>p_msg := sm, p_state := PS_IOWAIT\<rparr>) (upd_msg sm (\<lambda>k. k\<lparr>m_sender := pr\<rparr>) st0)))"
  have send: "msg_send_queue pr sm st0 = Some st1"
    using conn(1,2) q(3) by (simp add: msg_send_queue_def st1_def st0_def Let_def ipc_upd queue_msg_def lqueue_msg_def)
  have s1: "port_slot (procs st1 sp) portid = Some port" "0 < pt_sema (pts st1 port)" "0 < p_wait (pts st1 port)"
    "p_hd (pts st1 port) = sm" "m_next st1 sm = 0" "msgs st1 = (msgs st)(sm := (msgs st sm)\<lparr>m_sender := pr\<rparr>)"
    "procs st1 = procs st" "prs st1 = (prs st)(pr := (prs st pr)\<lparr>pr_sema := pr_sema (prs st pr) - 1, p_msg := sm, p_state := PS_IOWAIT, p_iowait := -1\<rparr>)"
    "vm st1 = vm st" "portnames st1 = portnames st" "p_next st1 = p_next st" "p_prev st1 = p_prev st"
    using slot sem q by (simp_all add: st1_def st0_def ipc_upd queue_msg_def lqueue_msg_def Let_def)
  define st2 where "st2 = upd_pt port (\<lambda>p. p\<lparr>pt_sema := pt_sema p + 1\<rparr>) (upd_msg sm (\<lambda>k. k\<lparr>m_nseg := 0\<rparr>)
      (take_msg port (upd_pt port (\<lambda>p. p\<lparr>pt_sema := pt_sema p - 1, p_wait := p_wait p - 1\<rparr>) st1)))"
  define um where "um = fst (sm_to_m stale sm m (take_msg port (upd_pt port (\<lambda>p. p\<lparr>pt_sema := pt_sema p - 1, p_wait := p_wait p - 1\<rparr>) st1)))"
  have recv: "msg_receive vtop stale env1 env2 sp vas portid m True s ps st1 = Some (Inr 0, Some um, st2)"
    using s1(4,6) req
    by (simp add: msg_receive_ready [OF s1(1-3)] msg_receive_done_def receive_deliver_plain Let_def st2_def um_def
        take_msg_def ipc_upd)
  have u: "um_sender um = of_nat pr" "um_op um = m_op (msgs st sm) AND NOT M_READ"
    "um_arg um = m_arg (msgs st sm)" "um_arg1 um = m_arg1 (msgs st sm)"
    using s1(6) by (simp_all add: um_def sm_to_m_def take_msg_def Let_def ipc_upd)
  have s2: "procs st2 = procs st" "prs st2 = prs st1" "m_op (msgs st2 sm) = m_op (msgs st sm)"
    "vm st2 = vm st" "portnames st2 = portnames st" "p_next st2 = p_next st" "p_prev st2 = p_prev st"
    using s1(6,7,9-12) by (simp_all add: st2_def take_msg_def Let_def ipc_upd)
  obtain st3 where rep3: "msg_reply sp vas (of_nat pr) mr sm2 as st2 = Some (Inr (), True, st3)"
    and s3: "prs st3 = (prs st1)(pr := (prs st1 pr)\<lparr>p_state := PS_IODONE, p_svwait := -1, p_iowait := 0\<rparr>)"
      "m_arg (msgs st3 sm) = um_arg mr" "m_nseg (msgs st3 sm) = 0" "procs st3 = procs st" "pts st3 = pts st2"
      "vm st3 = vm st" "portnames st3 = portnames st" "p_next st3 = p_next st" "p_prev st3 = p_prev st"
    using rep req(3) client conn(3) s2 s1(8)
    by (simp add: msg_reply_def m_to_sm_plain unmap_portref_def unmapsegs_none reply_switch_def drop_msg_def Let_def ipc_upd)
  obtain st4 r where done4: "msg_send_done flt stale vas2 pr sm mc cok st3 = Some (r, None, st4)"
    and s4: "um_arg mr \<noteq> - 1 \<longrightarrow> r = Inr (um_arg mr)" "procs st4 = procs st" "pts st4 = pts st2"
      "prs st4 = (prs st3)(pr := (prs st3 pr)\<lparr>p_svwait := 0, pr_sema := pr_sema (prs st3 pr) + 1\<rparr>)"
      "vm st4 = vm st" "portnames st4 = portnames st" "p_next st4 = p_next st" "p_prev st4 = p_prev st"
    using s3 by (simp add: msg_send_done_plain ipc_upd)
  have "pts st2 = (pts st)(port := (pts st port)\<lparr>p_hd := 0, p_tl := 0\<rparr>)"
    using s1(4,5) q by (simp add: st2_def st1_def st0_def take_msg_def Let_def ipc_upd queue_msg_def lqueue_msg_def)
  moreover have "(pts st port)\<lparr>p_hd := 0, p_tl := 0\<rparr> = pts st port" using q(1,2) by (cases "pts st port") simp
  ultimately have p4: "pts st4 = pts st" using s4(3) by (simp add: fun_upd_idem)
  have "prs st4 pr = (prs st pr)\<lparr>p_msg := sm, p_state := PS_IODONE, p_svwait := 0\<rparr>"
    using s4(4) s3(1) s1(8) conn(2) by (cases "prs st pr") simp
  then have r4: "prs st4 = (prs st)(pr := (prs st pr)\<lparr>p_msg := sm, p_state := PS_IODONE, p_svwait := 0\<rparr>)"
    using s4(4) s3(1) s1(8) by (auto simp: fun_eq_iff)
  have "msg_reply sp vas (um_sender um) mr sm2 as st2 = Some (Inr (), True, st3)" using rep3 u(1) by simp
  then show ?thesis
    using f0 send recv u done4 s4(1,2,5-8) p4 r4
    by (intro exI [of _ st0] exI [of _ st1] exI [of _ um] exI [of _ st2] exI [of _ st3] exI [of _ r] exI [of _ st4] conjI) simp_all
qed

theorem rpc_roundtrip_witness:
  "\<exists>st0 st1 um st2 st3 st4. find_portref (Pair False) 2 0 demo_conn = (Inr 50, st0) \<and> msg_send_queue 50 60 st0 = Some st1 \<and>
    msg_receive id (\<lambda>_. (0, 0)) (Pair False) (Pair False) 1 1 32 demo_user True 70 71 st1 = Some (Inr 0, Some um, st2) \<and>
    msg_reply 1 1 (um_sender um) demo_user 61 [] st2 = Some (Inr (), True, st3) \<and>
    msg_send_done (\<lambda>_ _ _. False) (\<lambda>_. (0, 0)) 2 50 60 demo_user True st3 = Some (Inr 5, None, st4)"
proof -
  note f = demo_conn_facts
  have "hash_lookup (p_prefs (procs demo_conn 1)) (of_nat 50) = Some 50" using f(3) by (simp add: serves_def)
  moreover have "m_nseg (msgs demo_conn 60) = 0" "m_op (msgs demo_conn 60) \<notin> {M_CONNECT, M_DISCONNECT, M_DUP, M_ISR}"
    by (simp_all add: demo_conn_def demo_srv_def demo_ipc_def op_defs)
  moreover have "portref_slot (procs demo_conn 2) 0 = Some 50" "0 < pr_sema (prs demo_conn 50)"
    by (simp_all add: portref_slot_def demo_conn_def demo_srv_def alloc_portref_def)
  ultimately show ?thesis
    using rpc_roundtrip [OF f(1,5,6,7), where ?pa = 2 and ?cport = 0 and ?env0.0 = "Pair False" and ?sm = 60 and ?mr = demo_user and ?sm2.0 = 61
        and ?vtop = id and ?stale = "\<lambda>_. (0, 0)" and ?env1.0 = "Pair False" and ?env2.0 = "Pair False" and ?vas = 1
        and ?m = demo_user and ?s = 70 and ?ps = 71 and ?as = "[]" and ?flt = "\<lambda>_ _ _. False" and ?vas2.0 = 2
        and ?mc = demo_user and ?cok = True]
    by (auto simp: demo_user_def)
qed

text \<open>
  C27. Opening a connection: when the server receives the \<open>M_CONNECT\<close> of \<open>msg_connect\<close> and accepts
  the sender it was told, the client's call returns the slot that now holds the connection,
  which is open, in the ring of the port exactly once and known to the server's table.
\<close>

theorem connect_accepted:
  assumes srv: "ready sp portid port st" "clients_ok sp st" "hash_lookup (p_prefs (procs st sp)) (of_nat pr) = None"
    and name: "hash_lookup (portnames st) name = Some port"
    and client: "opens_ok (procs st pa)" "0 \<in> set (p_open (procs st pa))" "pa \<noteq> sp"
    and new: "pr \<noteq> 0" "sm \<noteq> 0" "ref_ring port st xs" "pr \<notin> set xs"
  shows "\<exists>slot st1. msg_connect_start pa name mode pr sm ids idlen st = Some (Inr slot, st1) \<and>
    (\<forall>n um st2. msg_receive vtop stale env1 env2 sp vas portid m True s ps st1 = Some (Inr n, Some um, st2) \<longrightarrow>
      um_op um = M_CONNECT \<and> um_sender um = of_nat pr \<and> um_arg um = mode \<and>
      (\<exists>st3 st4. msg_accept sp (um_sender um) st2 = (Inr (), st3) \<and> msg_connect_done pa slot pr sm st3 = (Inr slot, st4) \<and>
        opens_ok (procs st4 pa) \<and> p_open (procs st4 pa) = (p_open (procs st pa))[slot := pr] \<and>
        p_port (prs st4 pr) = port \<and> p_state (prs st4 pr) = PS_IODONE \<and> p_iowait (prs st4 pr) = 0 \<and>
        serves sp st4 pr \<and> clients_ok sp st4 \<and> ref_ring port st4 (after_first pr xs) \<and> ready sp portid port st4))"
proof (rule connect_received [OF assms, of mode ids idlen vtop stale env1 env2 vas m s ps], goal_cases)
  case (1 slot p' st1)
  show ?case
  proof (rule exI [of _ slot], rule exI [of _ st1], intro conjI allI impI, rule 1(1), goal_cases)
    case (4 n um st2)
    note f = 1(6) [OF 4]
    let ?st3 = "upd_pr pr (\<lambda>r. r\<lparr>p_state := PS_IODONE, p_iowait := p_iowait r + 1\<rparr>) st2"
    let ?st4 = "upd_proc pa (\<lambda>p. p\<lparr>p_open := (p_open p)[slot := pr]\<rparr>) ?st3"
    have "msg_accept sp (um_sender um) st2 = (Inr (), ?st3)" using f by (simp add: msg_accept_def tran_find_def)
    moreover have "msg_connect_done pa slot pr sm ?st3 = (Inr slot, ?st4)"
      using f srv(1) by (simp add: msg_connect_done_def upd_pr_def ready_def)
    moreover have "opens_ok (procs ?st4 pa)"
      using f 1(2,3,4) new(1) used_update [of slot "p_open p'" pr] client(1) by (auto simp: opens_ok_def ipc_upd)
    moreover have "p_open (procs ?st4 pa) = (p_open (procs st pa))[slot := pr]" using f 1(4) by (simp add: ipc_upd)
    moreover have "p_port (prs ?st4 pr) = port" "p_state (prs ?st4 pr) = PS_IODONE" "p_iowait (prs ?st4 pr) = 0"
      using f by (simp_all add: ipc_upd)
    moreover have "ref_ring port ?st4 (after_first pr xs)" using f by (simp add: ref_ring_def ipc_upd)
    moreover have "ready sp portid port st2" using f by blast
    then have "ready sp portid port ?st4" by (rule ready_cong) (simp_all add: ipc_upd client(3))
    moreover have "serves sp ?st4 pr" "clients_ok sp ?st4" using f client(3) by (auto simp: serves_def clients_ok_def ipc_upd)
    ultimately show ?case by blast
  qed (use 1(6) in blast)+
qed

theorem connect_accepted_witness:
  "\<exists>um st2 st3 st4. msg_receive id (\<lambda>_. (0, 0)) (Pair False) (Pair False) 1 1 32 demo_user True 70 71 demo_asked = Some (Inr 16, Some um, st2) \<and>
    msg_accept 1 (um_sender um) st2 = (Inr (), st3) \<and> msg_connect_done 2 0 50 60 st3 = (Inr 0, st4) \<and>
    p_open (procs st4 2) ! 0 = 50 \<and> ref_ring 9 st4 [50]"
proof -
  obtain um st2 where r: "msg_receive id (\<lambda>_. (0, 0)) (Pair False) (Pair False) 1 1 32 demo_user True 70 71 demo_asked = Some (Inr 16, Some um, st2)"
    using demo_receive by blast
  have "length (p_open (procs demo_srv 2)) = 32" by (simp add: demo_srv_def)
  then show ?thesis
    using connect_accepted [OF demo_srv_facts(1-6), where ?pr = 50 and ?sm = 60 and ?xs = "[]" and ?mode = 3 and ?ids = "0x2000" and ?idlen = 16
        and ?vtop = id and ?stale = "\<lambda>_. (0, 0)" and ?env1.0 = "Pair False" and ?env2.0 = "Pair False" and ?vas = 1 and ?m = demo_user and ?s = 70 and ?ps = 71]
      demo_srv_facts(7) demo_asked_start r by fastforce
qed

text \<open>
  A connection the server rejects by \<open>msg_err\<close> leaves no trace: the client gets the server's
  string as its error, its table of slots is as before the call, and so are the ring of the
  port and the server's table of clients.
\<close>

theorem connect_refused:
  assumes srv: "ready sp portid port st" "clients_ok sp st" "hash_lookup (p_prefs (procs st sp)) (of_nat pr) = None"
    and name: "hash_lookup (portnames st) name = Some port"
    and client: "opens_ok (procs st pa)" "0 \<in> set (p_open (procs st pa))" "pa \<noteq> sp"
    and new: "pr \<noteq> 0" "sm \<noteq> 0" "ref_ring port st xs" "pr \<notin> set xs"
    and why: "1 \<le> len" "len < 16"
  shows "\<exists>slot st1. msg_connect_start pa name mode pr sm ids idlen st = Some (Inr slot, st1) \<and>
    (\<forall>n um st2. msg_receive vtop stale env1 env2 sp vas portid m True s ps st1 = Some (Inr n, Some um, st2) \<longrightarrow>
      (\<exists>st3 st4. msg_err sp (um_sender um) (Inr why) len st2 = Some (Inr (), st3) \<and>
        msg_connect_done pa slot pr sm st3 = (Inl why, st4) \<and> procs st4 pa = procs st pa \<and>
        p_iowait (prs st4 pr) = 0 \<and> ref_ring port st4 xs \<and> clients_ok sp st4 \<and>
        hash_lookup (p_prefs (procs st4 sp)) = hash_lookup (p_prefs (procs st sp)) \<and> ready sp portid port st4))"
proof (rule connect_received [OF srv name client new, of mode ids idlen vtop stale env1 env2 vas m s ps], goal_cases)
  case (1 slot p' st1)
  note recv = 1(6)
  note undo = 1(5)
  show ?case
  proof (rule exI [of _ slot], rule exI [of _ st1], intro conjI allI impI, rule 1(1), goal_cases)
    case (1 n um st2)
    note f = recv [OF 1]
    obtain h where h: "snd (hash_delete (p_prefs (procs st2 sp)) (of_nat pr)) = Some h" "hash_tinv h"
      "\<forall>k. hash_get h k = (if k = of_nat pr then None else hash_lookup (p_prefs (procs st2 sp)) k)"
      using del_client_eff [of sp st2 "of_nat pr"] f by auto
    define st2' where "st2' = upd_proc sp (\<lambda>p. p\<lparr>p_prefs := Some h\<rparr>) st2"
    obtain as bs where ab: "after_first pr xs = as @ pr # bs" "as @ bs = xs" using after_first_split by blast
    have "ref_ring port st2' (as @ pr # bs)" using f ab(1) by (simp add: ref_ring_def st2'_def ipc_upd)
    moreover have "ready sp portid port st2'" using f by (simp add: ready_def st2'_def ipc_upd msg_q_def)
    ultimately obtain st3 where d: "deref_port port pr st2' = Some st3" "ref_ring port st3 xs" "prs st3 = prs st2"
      "msgs st3 = msgs st2" "procs st3 = procs st2'" "ready sp portid port st3"
      using deref_port_ring ab(2) by (fastforce simp: st2'_def ipc_upd)
    let ?st4 = "upd_pr pr (\<lambda>r. r\<lparr>p_state := PS_ABDONE, p_iowait := p_iowait r + 1\<rparr>)
        (upd_msg sm (\<lambda>k. k\<lparr>m_err := why\<rparr>) st3)"
    let ?st5 = "upd_proc pa (free_open slot) ?st4"
    have "msg_err sp (um_sender um) (Inr why) len st2 = Some (Inr (), ?st4)"
      using f d why srv(1) h(1) by (simp add: msg_err_def Let_def ready_def ipc_upd st2'_def)
    moreover have "msg_connect_done pa slot pr sm ?st4 = (Inl why, ?st5)"
      using f d(3) srv(1) by (simp add: msg_connect_done_def ipc_upd ready_def)
    moreover have "procs ?st5 pa = procs st pa"
      using f d(5) client(3) undo by (simp add: ipc_upd st2'_def)
    moreover have "p_iowait (prs ?st5 pr) = 0" using f d(3) by (simp add: ipc_upd)
    moreover have "ref_ring port ?st5 xs" using d(2) by (simp add: ref_ring_def ipc_upd)
    moreover have p: "procs ?st5 sp = (procs st2 sp)\<lparr>p_prefs := Some h\<rparr>" using d(5) client(3) by (simp add: ipc_upd st2'_def)
    moreover have "clients_ok sp ?st5" using p h(2) by (simp add: clients_ok_def)
    moreover have "hash_lookup (p_prefs (procs ?st5 sp)) = hash_lookup (p_prefs (procs st sp))"
      using h(3) f srv(3) unfolding p by (auto simp: hash_get_def)
    moreover have "ready sp portid port ?st5"
      by (rule ready_cong [OF d(6)]) (use client(3) in \<open>simp_all add: ipc_upd\<close>)
    ultimately show ?case by blast
  qed
qed

theorem connect_refused_witness:
  "\<exists>um st2 st3 st4. msg_receive id (\<lambda>_. (0, 0)) (Pair False) (Pair False) 1 1 32 demo_user True 70 71 demo_asked = Some (Inr 16, Some um, st2) \<and>
    msg_err 1 (um_sender um) (Inr EPERM) 4 st2 = Some (Inr (), st3) \<and> msg_connect_done 2 0 50 60 st3 = (Inl EPERM, st4) \<and>
    procs st4 2 = procs demo_srv 2"
proof -
  obtain um st2 where r: "msg_receive id (\<lambda>_. (0, 0)) (Pair False) (Pair False) 1 1 32 demo_user True 70 71 demo_asked = Some (Inr 16, Some um, st2)"
    using demo_receive by blast
  show ?thesis
    using connect_refused [OF demo_srv_facts(1-6), where ?pr = 50 and ?sm = 60 and ?xs = "[]" and ?mode = 3 and ?ids = "0x2000" and ?idlen = 16
        and ?vtop = id and ?stale = "\<lambda>_. (0, 0)" and ?env1.0 = "Pair False" and ?env2.0 = "Pair False" and ?vas = 1 and ?m = demo_user and ?s = 70 and ?ps = 71
        and ?len = 4 and ?why = EPERM]
      demo_srv_facts(7) demo_asked_start r by fastforce
qed

text \<open>
  C28. Closing a connection: the \<open>M_DISCONNECT\<close> of \<open>shut_client\<close> reaches the server, receiving it takes
  the connection, and nothing else, out of the ring of the port and the server's table, and
  wakes the client, whose portref is then free of segments.
\<close>

theorem disconnect_roundtrip:
  assumes srv: "ready sp portid port st" "clients_ok sp st" "serves sp st pr"
    and conn: "p_port (prs st pr) = port" "p_iowait (prs st pr) = 0" "mapped (p_segs (prs st pr)) = []"
    and ring: "ref_ring port st (as @ pr # bs)" and sm: "sm \<noteq> 0"
  shows "\<exists>st1 um st2 st3. shut_client_start pr sm st = Some (True, st1) \<and>
    msg_receive vtop stale env1 env2 sp vas portid m True s ps st1 = Some (Inr 0, Some um, st2) \<and>
    um_op um = M_DISCONNECT \<and> um_sender um = of_nat pr \<and> free_portref pr st2 = Some st3 \<and>
    p_iowait (prs st3 pr) = 0 \<and> ref_ring port st3 (as @ bs) \<and> clients_ok sp st3 \<and>
    (\<forall>k. hash_lookup (p_prefs (procs st3 sp)) k = (if k = of_nat pr then None else hash_lookup (p_prefs (procs st sp)) k)) \<and>
    ready sp portid port st3"
proof -
  have q: "p_hd (pts st port) = 0" "p_tl (pts st port) = 0" "port \<noteq> 0"
    and slot: "port_slot (procs st sp) portid = Some port" and sem: "0 < pt_sema (pts st port)" "0 \<le> p_wait (pts st port)"
    using srv(1) by (auto simp: ready_def msg_q_def)
  define st1 where "st1 = upd_pr pr (\<lambda>r. r\<lparr>p_iowait := p_iowait r - 1\<rparr>) (queue_msg port sm
      (upd_pr pr (\<lambda>r. r\<lparr>p_state := PS_CLOSING\<rparr>)
        (upd_msg sm (\<lambda>k. k\<lparr>m_sender := pr, m_op := M_DISCONNECT, m_arg := of_nat pr, m_arg1 := 0, m_nseg := 0\<rparr>) st)))"
  have start: "shut_client_start pr sm st = Some (True, st1)"
    using conn(1) q(3) by (simp add: shut_client_start_def st1_def Let_def ipc_upd)
  have s1: "procs st1 = procs st" "p_hd (pts st1 port) = sm" "m_next st1 sm = 0"
    "prs st1 pr = (prs st pr)\<lparr>p_state := PS_CLOSING, p_iowait := -1\<rparr>"
    "m_op (msgs st1 sm) = M_DISCONNECT" "m_sender (msgs st1 sm) = pr" "m_nseg (msgs st1 sm) = 0"
    "p_refs (pts st1 port) = p_refs (pts st port)" "p_next st1 = p_next st" "p_prev st1 = p_prev st"
    "pt_sema (pts st1 port) = pt_sema (pts st port)" "p_wait (pts st1 port) = p_wait (pts st port) + 1"
    using q conn(2) by (simp_all add: st1_def ipc_upd queue_msg_def lqueue_msg_def Let_def)
  let ?s = "take_msg port (upd_pt port (\<lambda>p. p\<lparr>pt_sema := pt_sema p - 1, p_wait := p_wait p - 1\<rparr>) st1)"
  have t: "prs ?s = prs st1" "msgs ?s = msgs st1" "procs ?s = procs st" "p_next ?s = p_next st" "p_prev ?s = p_prev st"
    "pts ?s port = (pts st1 port)\<lparr>pt_sema := pt_sema (pts st port) - 1, p_wait := p_wait (pts st port), p_hd := 0, p_tl := 0\<rparr>"
    using s1 by (simp_all add: take_msg_def ipc_upd Let_def)
  have r1: "ref_ring port ?s (as @ pr # bs)" using ring ref_ring_cong [of ?s port st] t s1(8) by auto
  have w1: "as @ bs = [] \<Longrightarrow> 0 \<le> p_wait (pts ?s port) \<and> msg_q port ?s [] \<and>
      list_all (\<lambda>sm. m_op (msgs ?s sm) = M_ISR \<or> m_op (msgs ?s sm) = M_CONNECT) []"
    using sem t(6) by (simp add: msg_q_def)
  obtain st2 where d: "deref_port port pr ?s = Some st2" "ref_ring port st2 (as @ bs)" "prs st2 = prs st1"
    "msgs st2 = msgs st1" "procs st2 = procs st" "\<forall>f. pts st2 f = (pts ?s f)\<lparr>p_refs := p_refs (pts st2 f)\<rparr>"
    using deref_port_refs [OF r1 w1] t by auto
  obtain h where h: "snd (hash_delete (p_prefs (procs st sp)) (of_nat pr)) = Some h" "hash_tinv h"
    "\<forall>k. hash_get h k = (if k = of_nat pr then None else hash_lookup (p_prefs (procs st sp)) k)"
    using del_client_eff [OF srv(2)] srv(3) by (auto simp: serves_def)
  define st3 where "st3 = upd_pr pr (\<lambda>r. r\<lparr>p_iowait := p_iowait r + 1\<rparr>) (upd_proc sp (\<lambda>p. p\<lparr>p_prefs := Some h\<rparr>) st2)"
  have disc: "receive_disconnect sp port pr ?s = Some st3"
    using t(1) s1(4) conn d(1,3,5) h(1) srv(3)
    by (simp add: receive_disconnect_def del_client_def serves_def unmap_portref_def unmapsegs_none ipc_upd st3_def)
  have s3: "m_nseg (msgs st3 sm) = 0" "m_op (msgs st3 sm) = M_DISCONNECT" "m_sender (msgs st3 sm) = pr"
    using d(4) s1 by (simp_all add: st3_def ipc_upd)
  let ?st4 = "upd_pt port (\<lambda>p. p\<lparr>pt_sema := pt_sema p + 1\<rparr>) (upd_msg sm (\<lambda>k. k\<lparr>m_nseg := 0\<rparr>) st3)"
  have "port_slot (procs st1 sp) portid = Some port" "0 < pt_sema (pts st1 port)" "0 < p_wait (pts st1 port)"
    using slot sem s1 by auto
  note rr = msg_receive_ready [OF this, of vtop stale env1 env2 vas m True s ps]
  have ne: "M_DISCONNECT \<noteq> M_ISR" "M_DISCONNECT \<noteq> M_CONNECT" "M_DISCONNECT AND NOT M_READ = M_DISCONNECT"
    by (simp_all add: op_defs)
  have recv: "msg_receive vtop stale env1 env2 sp vas portid m True s ps st1 = Some (Inr 0, Some (fst (sm_to_m stale sm m st3)), ?st4)"
    unfolding rr using s1(2,5,6) sm t(2) disc s3(1) ne
    by (simp add: msg_receive_done_def Let_def upd_pt_def [of port "\<lambda>p. p\<lparr>pt_sema := pt_sema p - 1, p_wait := p_wait p - 1\<rparr>"] receive_deliver_plain)
  let ?st5 = ?st4
  have free: "free_portref pr ?st4 = Some (upd_pr pr (\<lambda>r. r\<lparr>p_segs := p_segs r\<rparr>) (?st4\<lparr>vm := vm st3\<rparr>))"
    using conn(3) d(3) s1(4) by (simp add: free_portref_def unmap_portref_def unmapsegs_none ipc_upd st3_def)
  let ?fin = "upd_pr pr (\<lambda>r. r\<lparr>p_segs := p_segs r\<rparr>) (?st4\<lparr>vm := vm st3\<rparr>)"
  obtain refs where pt: "pts st2 port = (pts ?s port)\<lparr>p_refs := refs\<rparr>" using d(6) by blast
  have "p_iowait (prs ?fin pr) = 0" using d(3) s1(4) by (simp add: st3_def ipc_upd)
  moreover have "ref_ring port ?fin (as @ bs)" using d(2) by (simp add: ref_ring_def st3_def ipc_upd)
  moreover have p: "procs ?fin sp = (procs st sp)\<lparr>p_prefs := Some h\<rparr>" using d(5) by (simp add: st3_def ipc_upd)
  moreover have "clients_ok sp ?fin" using p h(2) by (simp add: clients_ok_def)
  moreover have "\<forall>k. hash_lookup (p_prefs (procs ?fin sp)) k = (if k = of_nat pr then None else hash_lookup (p_prefs (procs st sp)) k)"
    using h(3) unfolding p by (auto simp: hash_get_def)
  moreover have "ready sp portid port ?fin"
    using pt t(6) q(3) slot sem d(5) by (simp add: ready_def msg_q_def st3_def ipc_upd)
  moreover have "um_op (fst (sm_to_m stale sm m st3)) = M_DISCONNECT" "um_sender (fst (sm_to_m stale sm m st3)) = of_nat pr"
    using s3 ne(3) by (simp_all add: sm_to_m_def Let_def)
  ultimately show ?thesis using start recv free by blast
qed

theorem disconnect_roundtrip_witness:
  "\<exists>st1 um st2 st3. shut_client_start 50 60 demo_conn = Some (True, st1) \<and>
    msg_receive id (\<lambda>_. (0, 0)) (Pair False) (Pair False) 1 1 32 demo_user True 70 71 st1 = Some (Inr 0, Some um, st2) \<and>
    free_portref 50 st2 = Some st3 \<and> ref_ring 9 st3 []"
  using disconnect_roundtrip [OF demo_conn_facts(1,2,3,5,6,7,4), of 60 id "\<lambda>_. (0, 0)" "Pair False" "Pair False" 1 demo_user 70 71]
  by auto

section \<open>The protocol on the example\<close>

definition demo_start :: conn where
  "demo_start = \<lparr>kst = demo_conn, phase = CIdle, svc = False, sent = 0, answered = 0\<rparr>"

lemma demo_start_ok: "conn_ok 50 demo_start"
  by (simp add: conn_ok_def demo_start_def demo_conn_def alloc_portref_def pending_def)

lemma demo_sent:
  obtains st where "msg_send_queue 50 60 demo_conn = Some st"
    "reach 50 demo_start (demo_start\<lparr>kst := st, phase := CWait 60, sent := 1\<rparr>)"
    "p_port (prs st 50) \<noteq> 0" "p_iowait (prs st 50) = -1" "m_nseg (msgs st 61) = 0"
    "p_state (prs st 50) = PS_IOWAIT" "p_msg (prs st 50) = 60" "m_op (msgs st 60) \<noteq> M_DUP" "procs st = procs demo_conn"
proof -
  obtain st where s: "msg_send_queue 50 60 demo_conn = Some st"
    using demo_conn_facts(1,5,6) by (auto simp: msg_send_queue_def Let_def ipc_upd ready_def)
  have op: "m_op (msgs demo_conn 60) \<noteq> M_DUP" by (simp add: demo_conn_def demo_srv_def demo_ipc_def op_defs)
  have "cstep 50 demo_start (demo_start\<lparr>kst := st, phase := CWait 60, sent := Suc (sent demo_start)\<rparr>)"
    by (rule cstep.send) (use s op demo_conn_facts(5) in \<open>simp_all add: demo_start_def\<close>)
  then have "reach 50 demo_start (demo_start\<lparr>kst := st, phase := CWait 60, sent := 1\<rparr>)"
    using reach.step [OF reach.start] by (simp add: demo_start_def)
  moreover have "procs st = procs demo_conn" "m_nseg (msgs st 61) = 0"
    using s by (auto simp: msg_send_queue_def Let_def ipc_upd queue_msg_def lqueue_msg_def demo_conn_def demo_srv_def demo_ipc_def
        split: if_splits)
  ultimately show ?thesis using that [OF s] msg_send_queue_eff [OF s] op demo_conn_facts(1,5) by (simp add: ready_def)
qed

lemma demo_replied:
  obtains d st where "reach 50 demo_start d" "reply_switch 1 50 61 (kst d) = Some (Inr (), True, st)"
    "reach 50 demo_start (d\<lparr>kst := st, phase := wake 50 (kst d) st (phase d), svc := svc d \<or> True, answered := Suc (answered d)\<rparr>)"
    "procs st = procs demo_conn" "p_port (prs (kst d) 50) \<noteq> 0" "wake 50 (kst d) st (phase d) = CRun 60" "m_nseg (msgs st 60) = 0"
proof -
  obtain st where s: "reach 50 demo_start (demo_start\<lparr>kst := st, phase := CWait 60, sent := 1\<rparr>)"
    "p_port (prs st 50) \<noteq> 0" "p_iowait (prs st 50) = -1" "m_nseg (msgs st 61) = 0"
    "p_state (prs st 50) = PS_IOWAIT" "p_msg (prs st 50) = 60" "m_op (msgs st 60) \<noteq> M_DUP" "procs st = procs demo_conn"
    by (rule demo_sent)
  let ?d = "demo_start\<lparr>kst := st, phase := CWait 60, sent := 1\<rparr>"
  obtain st' where r: "reply_switch 1 50 61 (kst ?d) = Some (Inr (), True, st')" "procs st' = procs demo_conn"
    "wake 50 (kst ?d) st' (phase ?d) = CRun 60" "m_nseg (msgs st' 60) = 0"
    using s(2-8) by (simp add: reply_switch_def Let_def ipc_upd wake_def)
  have p: "p_port (prs (kst ?d) 50) \<noteq> 0" using s(2) by simp
  show ?thesis using that [OF s(1) r(1)] r(2-4) p reach.step [OF s(1) cstep.reply [OF p r(1)]] by blast
qed



theorem second_answer_refused_witness:
  "\<exists>d st. reach 50 demo_start d \<and> reply_switch 1 50 61 (kst d) = Some (Inr (), True, st) \<and>
    reply_switch 1 50 62 st = Some (Inl EINVAL, False, st)"
proof -
  obtain d st where d: "reach 50 demo_start d" "reply_switch 1 50 61 (kst d) = Some (Inr (), True, st)" "procs st = procs demo_conn"
    "p_port (prs (kst d) 50) \<noteq> 0"
    by (rule demo_replied)
  have "hash_lookup (p_prefs (procs st 1)) (of_nat 50) = Some 50" using demo_conn_facts(3) d(3) by (simp add: serves_def)
  then show ?thesis using second_answer_refused [OF d(1) demo_start_ok d(4) d(2)] d(1,2) by blast
qed

end
