(* ===== verification/Ipc_Defects.thy ===== *)
theory Ipc_Defects
  imports Ipc_Roundtrips
begin

text \<open>
  Where the message system does not do what its comments promise.  Each theorem is about the
  functions as they are; the states in its hypotheses can be reached by ordinary processes.
\<close>

text \<open>
  A process cannot close a port: \<open>msg_disconnect\<close> and \<open>delete_port\<close> both subtract
  \<open>PROCOPENS\<close>, so that every handle \<open>msg_port\<close> gives out is refused and the port stays.
\<close>

theorem port_never_disconnected:
  assumes "slot < PROCPORTS"
  shows "msg_disconnect env1 env2 pa (int (slot + PROCOPENS)) sm st = Some (Inl EINVAL, st)"
  using assms by (simp add: msg_disconnect_def delete_port_def port_slot_def Let_def)

theorem port_never_disconnected_witness:
  "msg_disconnect id id 1 32 60 demo_srv = Some (Inl EINVAL, demo_srv) \<and> p_ports (procs demo_srv 1) ! 0 = 9"
  using port_never_disconnected [of 0 id id 1 60 demo_srv] by (simp add: demo_srv_def)

text \<open>
  A server that goes away while a client waits for its reply makes the client's \<open>msg_send\<close>
  succeed: \<open>close_client\<close> wakes it without marking the message, so the call returns the
  argument of the request as the answer.
\<close>

theorem server_exit_reports_success:
  assumes "p_iowait (prs st pr) = -1" "p_hd (pts st port) = 0" "mapped (p_segs (prs st pr)) = []"
    and "m_nseg (msgs st sm) = 0" "m_arg (msgs st sm) \<noteq> - 1" "close_client port pr st = Some (False, st1)"
  shows "p_port (prs st1 pr) = 0 \<and> p_iowait (prs st1 pr) = 0 \<and>
    (\<exists>st2. msg_send_done flt stale vas pr sm m cok st1 = Some (Inr (m_arg (msgs st sm)), None, st2))"
proof -
  have "prs st1 pr = (prs st pr)\<lparr>p_port := 0, p_iowait := 0\<rparr> \<and> msgs st1 = msgs st"
    using assms(1,2,3,6)
    by (auto simp: close_client_def unmap_portref_def unmapsegs_none ipc_upd deref_port_def deref_check_def Let_def
        split: if_splits bind_splits option.splits)
  then show ?thesis using assms(4,5) by (auto simp: msg_send_done_plain)
qed

theorem server_exit_reports_success_witness:
  "\<exists>st1. close_client 9 50 (upd_pr 50 (\<lambda>r. r\<lparr>p_state := PS_IOWAIT, p_iowait := -1\<rparr>) demo_conn) = Some (False, st1) \<and>
    (\<exists>st2. msg_send_done (\<lambda>_ _ _. False) (\<lambda>_. (0, 0)) 2 50 60 demo_user True st1 = Some (Inr 7, None, st2))"
proof -
  let ?st = "upd_pr 50 (\<lambda>r. r\<lparr>p_state := PS_IOWAIT, p_iowait := -1\<rparr>) demo_conn"
  have m: "p_iowait (prs ?st 50) = -1" "p_hd (pts ?st 9) = 0" "mapped (p_segs (prs ?st 50)) = []"
    "m_nseg (msgs ?st 60) = 0" "m_arg (msgs ?st 60) = 7" "m_arg (msgs ?st 60) \<noteq> - 1"
    using demo_conn_facts by (simp_all add: ipc_upd ready_def msg_q_def demo_conn_def demo_srv_def demo_ipc_def)
  let ?st'' = "upd_pr 50 (\<lambda>r. r\<lparr>p_state := PS_IOWAIT, p_port := 0, p_iowait := 0\<rparr>) demo_conn"
  have "ref_ring 9 ?st'' ([] @ 50 # [])" "ready 1 32 9 ?st''"
    using demo_conn_facts(1,4) by (simp_all add: ref_ring_def ipc_upd ready_def msg_q_def)
  then obtain st1 where "deref_port 9 50 ?st'' = Some st1" using deref_port_ring by blast
  moreover have "?st'' = (?st\<lparr>prs := (prs ?st)(50 := (prs ?st 50)\<lparr>p_port := 0, p_iowait := 0\<rparr>)\<rparr>)"
    by (simp add: ipc_upd)
  ultimately have "close_client 9 50 ?st = Some (False, st1)"
    using m(1,2,3) by (simp add: close_client_def unmap_portref_def unmapsegs_none ipc_upd)
  then show ?thesis using server_exit_reports_success [OF m(1-4,6)] m(5) by fastforce
qed

text \<open>
  A message with more than \<open>MSGSEGS\<close> segments is refused before its descriptor is filled in,
  and the way out releases the segments that the descriptor's storage last held, although
  they belong to somebody else by now.
\<close>

theorem oversized_message_frees_stale_segments:
  assumes "\<not> reserved_op (um_op m)" "int MSGSEGS < um_nseg m"
    and "m_nseg (msgs st sm) = 1" "m_seg (msgs st sm) = s # ss"
    and "seg_live (vm st) s" "ps_refs (vm st) (p_set (pviews (vm st) s)) \<noteq> 0"
  shows "\<exists>st'. msg_send flt stale env1 env2 env3 pa vas port m cok sm sm2 as st = Some (Inl EINVAL, None, st') \<and>
    \<not> seg_live (vm st') s"
  using assms by (auto simp: msg_send_def m_to_sm_def drop_msg_def freesegs_def live_segs_def upd_vm_def free_seg_def deref_pset_def ipc_upd)

theorem oversized_message_frees_stale_segments_witness:
  "\<exists>st'. msg_send (\<lambda>_ _ _. False) (\<lambda>_. (0, 0)) (Pair False) (Pair False) id 2 2 0 (demo_user\<lparr>um_nseg := 5\<rparr>) True 60 61 []
      (upd_msg 60 (\<lambda>k. k\<lparr>m_nseg := 1, m_seg := [20]\<rparr>) demo_conn) = Some (Inl EINVAL, None, st') \<and> \<not> seg_live (vm st') 20"
  by (rule oversized_message_frees_stale_segments [where ss = "[]"])
    (simp_all add: reserved_op_def demo_user_def op_defs ipc_upd demo_conn_def demo_srv_def demo_ipc_def demo_vm_def)

text \<open>
  A reply whose copy to the client faults is released twice: once by \<open>unmapsegs\<close> and again by
  \<open>freesegs\<close> on the way out.
\<close>

lemma unmap_list_dead: "unmap_list ss v = Some v' \<Longrightarrow> s \<in> set ss \<Longrightarrow> \<not> seg_live v' s"
proof (induction ss arbitrary: v)
  case (Cons a ss)
  have keep: "\<not> seg_live w' x" if "unmap_list xs w = Some w'" "\<not> seg_live w x" for xs w w' x
    using that
  proof (induction xs arbitrary: w)
    case (Cons b xs)
    then obtain w1 w2 where f: "detach_seg b w = Some w1" "free_seg b w1 = Some w2" "unmap_list xs w2 = Some w'"
      by (auto split: bind_splits)
    have "seg_live w1 = seg_live w" using f(1)
      by (auto simp: detach_seg_def detach_pview_def hat_detach_def upd_vas_def Let_def split: option.splits if_splits prod.splits)
    then have "\<not> seg_live w2 x" using f(2) Cons.prems(2)
      by (auto simp: free_seg_def deref_pset_def split: bind_splits if_splits)
    then show ?case using Cons.IH f(3) by blast
  qed simp
  from Cons.prems obtain v1 v2 where "detach_seg a v = Some v1" "free_seg a v1 = Some v2" "unmap_list ss v2 = Some v'"
    by (auto split: bind_splits)
  moreover from this(2) have "\<not> seg_live v2 a" by (auto simp: free_seg_def split: bind_splits if_splits)
  ultimately show ?case using Cons keep by auto
qed simp

theorem faulting_reply_freed_twice:
  assumes "m_arg (msgs st sm) \<noteq> - 1" "m_nseg (msgs st sm) = 1" "m_seg (msgs st sm) = s # ss" "s \<noteq> 0"
    and "attach_seg vas s (vm st) = (0, v1)" "s_len (segs v1 s) \<noteq> - 1"
    and "copyoutsegs flt [s] 1 (um_seg m) (um_nseg m) v1 = Some (Inl EFAULT, v2, bs, tr)"
  shows "msg_send_done flt stale vas pr sm m cok st = None"
proof -
  let ?refs = "s # 0 # replicate (MSGSEGS) 0"
  have map: "mapsegs vas (msgs st sm) (replicate (MSGSEGS + 2) 0) (vm st) = Some (Inr (s_len (segs v1 s)), ?refs, v1)"
    using assms by (simp add: mapsegs_def live_segs_def numeral_nat)
  show ?thesis
  proof (cases "unmapsegs ?refs v2")
    case None
    then show ?thesis using assms map by (simp add: msg_send_done_def msg_send_result_def give_back_def live_segs_def)
  next
    case (Some x)
    obtain r3 v3 where x: "x = (r3, v3)" by (cases x)
    have "mapped ?refs = [s]" using assms(4) by (simp add: mapped_def numeral_nat)
    then have "\<not> seg_live v3 s" using Some x unmap_list_dead [of "[s]" v2 v3 s] by (auto simp: unmapsegs_def)
    then have "free_seg s v3 = None" by (simp add: free_seg_def deref_pset_def)
    then show ?thesis using assms map Some x
      by (simp add: msg_send_done_def msg_send_result_def give_back_def live_segs_def msg_send_out_def freesegs_def
          upd_vm_def Let_def ipc_upd)
  qed
qed

text \<open>
  A connection request that waits in the queue of a port without clients is lost when the
  port is closed: the port is gone, and the client sleeps on without a wake-up to come.
\<close>

theorem queued_connect_lost:
  assumes "p_refs (pts st port) = 0"
  shows "\<exists>st'. shut_server sp port st = Some st' \<and> p_iowait (prs st' pr) = p_iowait (prs st pr) \<and>
    p_port (prs st' pr) = p_port (prs st pr) \<and> p_hd (pts st' port) = p_hd (pts st port)"
  using assms by (simp add: shut_server_def Let_def ipc_upd shut_loop.simps)

theorem queued_connect_lost_witness:
  "\<exists>st'. shut_server 1 9 demo_asked = Some st' \<and> p_iowait (prs st' 50) = -1 \<and> p_hd (pts st' 9) = 60"
  using queued_connect_lost [of demo_asked 9 1 50] demo_asked_facts(1,11,12) by auto

text \<open>
  When a port with a client closes, a connection request in its queue is taken for a message
  with segments: the array of the connector's abilities is freed as if it were a segment.
\<close>

theorem bounced_connect_frees_abilities:
  assumes "m_sender (msgs st sm) \<noteq> 0" "p_port (prs st (m_sender (msgs st sm))) = port"
    and "m_op (msgs st sm) = M_CONNECT" "0 < m_nseg (msgs st sm)" "m_seg (msgs st sm) = ids # ss" "\<not> seg_live (vm st) ids"
  shows "bounce_one port sm st = None"
proof -
  have "free_seg ids v = None" if "\<not> seg_live v ids" for v
    using that by (simp add: free_seg_def deref_pset_def)
  moreover have "live_segs (msgs st sm) = ids # take (nat (m_nseg (msgs st sm)) - 1) ss"
    using assms(4,5) by (simp add: live_segs_def take_Cons')
  ultimately show ?thesis using assms by (simp add: bounce_one_def Let_def freesegs_def upd_vm_def)
qed

text \<open>
  The reply to an \<open>M_DUP\<close> leaves the connection in the state \<open>PS_IOWAIT\<close>: until the client has
  run, a second reply is accepted as well, and the count of \<open>p_iowait\<close> it leaves makes the
  next message of the connection fail the assertion of \<open>msg_send\<close>.
\<close>

theorem dup_answered_twice:
  assumes "p_state (prs st pr) = PS_IOWAIT" "m_op (msgs st (p_msg (prs st pr))) = M_DUP" "p_iowait (prs st pr) = -1"
    and "reply_switch pa pr sm st = Some (Inr (), False, st1)" "m_arg (msgs st sm) \<noteq> - 1"
    and "m_arg (msgs st1 sm2) = - 1"
  shows "\<exists>st2. reply_switch pa pr sm2 st1 = Some (Inr (), True, st2) \<and>
    p_iowait (prs st2 pr) = 1 \<and> msg_send_queue pr sm3 st2 = None"
proof -
  have "prs st1 pr = (prs st pr)\<lparr>p_iowait := 0\<rparr>" "msgs st1 = msgs st"
    using assms(1-5) by (auto simp: reply_switch_def new_client_def ipc_upd Let_def split: if_splits)
  then show ?thesis using assms by (simp add: reply_switch_def msg_send_queue_def Let_def ipc_upd)
qed

end
