(* ===== verification/Dos_Fat12.thy ===== *)
theory Dos_Fat12
  imports Vsta_Prelude
begin

text \<open>
  The packing of a 12-bit file allocation table into the 16-bit table in core and back,
  \<open>fat12_fat16\<close> and \<open>fat16_fat12\<close> of \<open>srv/dos/fat.c\<close>.
\<close>

section \<open>Tables of 12-bit entries\<close>

fun fat12_scan :: "u8 list \<Rightarrow> u16 list" where
  "fat12_scan (a # b # c # rest) =
     (ucast a OR push_bit 8 (ucast b AND 0xF)) # (drop_bit 4 (ucast b AND 0xF0) OR push_bit 4 (ucast c)) # fat12_scan rest"
| "fat12_scan [a, b] = [ucast a OR push_bit 8 (ucast b AND 0xF)]"
| "fat12_scan _ = []"

definition widen :: "u16 \<Rightarrow> u16" where
  "widen u = (if 0xFF0 \<le> u then u OR 0xF000 else u)"

definition fat12_fat16 :: "u8 list \<Rightarrow> u16 list" where
  "fat12_fat16 l = map widen (fat12_scan l)"

fun fat16_pack :: "u16 list \<Rightarrow> u8 list" where
  "fat16_pack (x # y # rest) =
     ucast (x AND 0xFF) # ucast (drop_bit 8 (x AND 0xF00) OR push_bit 4 (y AND 0xF)) # ucast (drop_bit 4 (y AND 0xFF0)) # fat16_pack rest"
| "fat16_pack [x] = [ucast (x AND 0xFF), ucast (drop_bit 8 (x AND 0xF00))]"
| "fat16_pack [] = []"

text \<open>The loop ends at the first entry that starts at or after byte \<open>len\<close>.\<close>

definition fat16_fat12 :: "u16 list \<Rightarrow> nat \<Rightarrow> u8 list" where
  "fat16_fat12 fat len = fat16_pack (take ((len + 1) div 2) fat)"

text \<open>The size of the table in core for a 12-bit table of \<open>fat12len\<close> bytes.\<close>

definition fatlen12 :: "nat \<Rightarrow> nat" where
  "fatlen12 fat12len = fat12len + fat12len div 3 + 3"

lemma mask_bits:
  "bit (0xF :: u16) n = (n < 4)" "bit (0xFF :: u16) n = (n < 8)" "bit (0xF0 :: u16) n = (4 \<le> n \<and> n < 8)"
  "bit (0xF00 :: u16) n = (8 \<le> n \<and> n < 12)" "bit (0xFF0 :: u16) n = (4 \<le> n \<and> n < 12)"
  "bit (0xF000 :: u16) n = (12 \<le> n \<and> n < 16)"
proof -
  have m: "(0xF :: u16) = mask 4" "(0xFF :: u16) = mask 8" "(0xF0 :: u16) = push_bit 4 (mask 4)"
    "(0xF00 :: u16) = push_bit 8 (mask 4)" "(0xFF0 :: u16) = push_bit 4 (mask 8)" "(0xF000 :: u16) = push_bit 12 (mask 4)"
    by (simp_all add: mask_eq_exp_minus_1 push_bit_eq_mult)
  show "bit (0xF :: u16) n = (n < 4)" "bit (0xFF :: u16) n = (n < 8)" "bit (0xF0 :: u16) n = (4 \<le> n \<and> n < 8)"
    "bit (0xF00 :: u16) n = (8 \<le> n \<and> n < 12)" "bit (0xFF0 :: u16) n = (4 \<le> n \<and> n < 12)"
    "bit (0xF000 :: u16) n = (12 \<le> n \<and> n < 16)"
    unfolding m by (auto simp: bit_mask_iff bit_push_bit_iff)
qed

lemma bit_widen: "n < 12 \<Longrightarrow> bit (widen u) n = bit u n"
  by (cases "0xFF0 \<le> u") (simp_all only: widen_def if_True if_False bit_or_iff mask_bits, auto)

lemma bit_u8_hi: "8 \<le> n \<Longrightarrow> \<not> bit (b :: u8) n"
  using bit_imp_le_length [of b n] by auto

lemma lo_bits:
  "bit (ucast (a :: u8) OR push_bit 8 (ucast (b :: u8) AND 0xF) :: u16) n = (if n < 8 then bit a n else n < 12 \<and> bit b (n - 8))"
  by (simp only: bit_or_iff bit_push_bit_iff bit_and_iff mask_bits bit_ucast_iff) (auto simp: bit_u8_hi)

lemma hi_bits:
  "bit (drop_bit 4 (ucast (b :: u8) AND 0xF0) OR push_bit 4 (ucast (c :: u8)) :: u16) n =
   (if n < 4 then bit b (n + 4) else n < 12 \<and> bit c (n - 4))"
  by (simp only: bit_or_iff bit_push_bit_iff bit_and_iff bit_drop_bit_eq comp_def mask_bits bit_ucast_iff)
    (use bit_u8_hi [of "n - 4" c] bit_u8_hi [of "n + 4" b] in \<open>cases "n < 12"; auto simp: add.commute\<close>)

text \<open>Two entries and the three bytes that hold them.\<close>

lemma byte0: "bit (ucast (x AND 0xFF :: u16) :: u8) n = (n < 8 \<and> bit x n)"
  by (simp only: bit_ucast_iff bit_and_iff mask_bits) auto

lemma byte1: "bit (ucast (drop_bit 8 (x AND 0xF00) OR push_bit 4 (y AND 0xF) :: u16) :: u8) n =
   (n < 8 \<and> (if n < 4 then bit x (n + 8) else bit y (n - 4)))"
  by (simp only: bit_ucast_iff bit_or_iff bit_drop_bit_eq comp_def bit_push_bit_iff bit_and_iff mask_bits) (auto simp: add.commute)

lemma byte1_last: "bit (ucast (drop_bit 8 (x AND 0xF00) :: u16) :: u8) n = (n < 4 \<and> bit x (n + 8))"
  by (simp only: bit_ucast_iff bit_drop_bit_eq comp_def bit_and_iff mask_bits) (auto simp: add.commute)

lemma byte2: "bit (ucast (drop_bit 4 (y AND 0xFF0) :: u16) :: u8) n = (n < 8 \<and> bit y (n + 4))"
  by (simp only: bit_ucast_iff bit_drop_bit_eq comp_def bit_and_iff mask_bits) (auto simp: add.commute)

lemma pack_bytes:
  fixes x y :: u16 and a b c :: u8
  assumes x: "\<And>n. n < 12 \<Longrightarrow> bit x n = (if n < 8 then bit a n else bit b (n - 8))"
    and y: "\<And>n. n < 12 \<Longrightarrow> bit y n = (if n < 4 then bit b (n + 4) else bit c (n - 4))"
  shows "ucast (x AND 0xFF) = (a :: u8)" "ucast (drop_bit 8 (x AND 0xF00) OR push_bit 4 (y AND 0xF)) = (b :: u8)"
    "ucast (drop_bit 4 (y AND 0xFF0)) = (c :: u8)"
proof -
  show "ucast (x AND 0xFF) = a" by (rule bit_word_eqI) (simp only: byte0, simp add: x)
  show "ucast (drop_bit 8 (x AND 0xF00) OR push_bit 4 (y AND 0xF)) = b" by (rule bit_word_eqI) (simp only: byte1, auto simp: x y less_diff_conv2)
  show "ucast (drop_bit 4 (y AND 0xFF0)) = c" by (rule bit_word_eqI) (simp only: byte2, simp add: y)
qed

lemma pack_scan: "length l mod 3 = 0 \<Longrightarrow> fat16_pack (fat12_fat16 l @ junk) = l @ fat16_pack junk"
proof (induction l rule: fat12_scan.induct)
  case (1 a b c rest)
  have x: "bit (widen (ucast a OR push_bit 8 (ucast b AND 0xF))) n = (if n < 8 then bit a n else bit b (n - 8))" if "n < 12" for n
    using that by (simp only: bit_widen lo_bits) simp
  have y: "bit (widen (drop_bit 4 (ucast b AND 0xF0) OR push_bit 4 (ucast c))) n = (if n < 4 then bit b (n + 4) else bit c (n - 4))"
    if "n < 12" for n using that by (simp only: bit_widen hi_bits) simp
  show ?case using 1 pack_bytes [OF x y] by (simp only: fat12_fat16_def) simp
qed (auto simp: fat12_fat16_def)

lemma fat12_append: "length l mod 3 = 0 \<Longrightarrow> fat12_fat16 (l @ r) = fat12_fat16 l @ fat12_fat16 r"
  by (induction l rule: fat12_scan.induct) (auto simp: fat12_fat16_def)

lemma length_fat12: "length l mod 3 = 0 \<Longrightarrow> length (fat12_fat16 l) = 2 * (length l div 3)"
  by (induction l rule: fat12_scan.induct) (auto simp: fat12_fat16_def)

lemma length_pack: "length (fat16_pack xs) = 3 * (length xs div 2) + 2 * (length xs mod 2)"
  by (induction xs rule: fat16_pack.induct) auto

text \<open>
  C36. What is read from a 12-bit table is written back unchanged, as far as it holds pairs of whole
  entries, whatever follows in the table in core.
\<close>

theorem fat12_roundtrip:
  assumes "n = 3 * (length l div 3)" "length l \<le> fat12len"
  shows "take n (fat16_fat12 (fat12_fat16 l @ junk) (fatlen12 fat12len)) = take n l"
proof -
  let ?m = "(fatlen12 fat12len + 1) div 2"
  have n: "n \<le> length l" "length (take n l) mod 3 = 0" "length (take n l) = n" using assms(1) by simp_all
  have "fat12_fat16 l = fat12_fat16 (take n l) @ fat12_fat16 (drop n l)"
    using fat12_append [OF n(2), of "drop n l"] by simp
  moreover have "length (fat12_fat16 (take n l)) \<le> ?m"
    using length_fat12 [OF n(2)] n assms unfolding fatlen12_def by linarith
  ultimately have "take ?m (fat12_fat16 l @ junk) = fat12_fat16 (take n l) @ take (?m - length (fat12_fat16 (take n l))) (fat12_fat16 (drop n l) @ junk)"
    by simp
  then have "fat16_fat12 (fat12_fat16 l @ junk) (fatlen12 fat12len) = take n l @ fat16_pack (take (?m - length (fat12_fat16 (take n l))) (fat12_fat16 (drop n l) @ junk))"
    using pack_scan [OF n(2)] by (simp add: fat16_fat12_def)
  then show ?thesis using n by simp
qed

theorem fat12_roundtrip_witness:
  "take 3 (fat16_fat12 (fat12_fat16 [0xF0, 0xFF, 0xFF, 0x12] @ [7, 8]) (fatlen12 512)) = [0xF0, 0xFF, 0xFF]"
  using fat12_roundtrip [of 3 "[0xF0, 0xFF, 0xFF, 0x12]" 512 "[7, 8]"] by simp

text \<open>
  The table in core is larger than the 12-bit one it came from, and all of it is packed: the result
  never fits into the buffer.
\<close>

lemma fat12_overrun:
  assumes "fatlen12 fat12len div 2 \<le> length fat"
  shows "fat12len < length (fat16_fat12 fat (fatlen12 fat12len))"
proof -
  define m where "m = min (length fat) ((fatlen12 fat12len + 1) div 2)"
  have l: "length (fat16_fat12 fat (fatlen12 fat12len)) = 3 * (m div 2) + 2 * (m mod 2)"
    by (simp add: fat16_fat12_def length_pack m_def)
  have "3 * m \<le> 2 * (3 * (m div 2) + 2 * (m mod 2))" by presburger
  moreover have "fatlen12 fat12len div 2 \<le> m" using assms unfolding m_def by simp
  then have "fat12len + fat12len div 3 + 3 \<le> 2 * m + 1" unfolding fatlen12_def by linarith
  moreover have "fat12len \<le> 3 * (fat12len div 3) + 2" by linarith
  moreover have "fat12len < X" if "3 * m \<le> 2 * X" "fat12len + q + 3 \<le> 2 * m + 1" "fat12len \<le> 3 * q + 2" for X q :: nat
    using that by linarith
  ultimately show ?thesis unfolding l by blast
qed

end
