(* ===== verification/Dos_Fat.thy ===== *)
theory Dos_Fat
  imports Dos_Fat12 "HOL-Library.Monad_Syntax"
begin

text \<open>
  The chains of clusters of the DOS file server, \<open>srv/dos/fat.c\<close>: growing, shrinking and reading the
  chain of a file.

  \<open>fat\<close> is the table in core; a cluster of a file holds the number of the next one, the last one a
  number from \<open>FAT_RESERVED\<close> on, and a free cluster 0.  \<open>dev\<close> are the bytes of the disk, and
  \<open>fat12\<close> the buffer for a 12-bit table, if the disk has one.  An access beyond an
  array, a failing assertion and a loop that does not end are \<open>None\<close>.
\<close>

definition SECSZ :: nat where "SECSZ = 512"
definition FAT_RESERVED :: u16 where "FAT_RESERVED = 0xFFF0"
definition FAT_EOF :: u16 where "FAT_EOF = 0xFFF8"

section \<open>Chains of clusters\<close>

record fatfs =
  fat :: "u16 list"
  dirtymap :: "bool list"
  fat_dirty :: bool
  nclust :: nat
  clsize :: u32
  fatlen :: nat
  fat12 :: "u8 list option"
  data0 :: u32
  dirents :: u32
  dev :: "nat \<Rightarrow> u8"

record clust =
  c_clust :: "u16 list"
  c_nclust :: nat

text \<open>An assignment to the table together with \<open>DIRTY\<close>.\<close>

definition DIRTY :: "nat \<Rightarrow> nat" where "DIRTY idx = idx * 2 div SECSZ"

definition set_fat :: "u16 \<Rightarrow> u16 \<Rightarrow> fatfs \<Rightarrow> fatfs option" where
  "set_fat y v st =
     (if length (fat st) \<le> unat y \<or> length (dirtymap st) \<le> DIRTY (unat y) then None
      else Some (st\<lparr>fat := (fat st)[unat y := v], dirtymap := (dirtymap st)[DIRTY (unat y) := True]\<rparr>))"

fun free_clusters :: "u16 list \<Rightarrow> fatfs \<Rightarrow> fatfs option" where
  "free_clusters [] st = Some st"
| "free_clusters (y # ys) st = do { st1 \<leftarrow> set_fat y 0 st; free_clusters ys st1 }"

text \<open>The scan for the next free cluster, from \<open>y\<close> on.\<close>

function next_free :: "u16 list \<Rightarrow> nat \<Rightarrow> nat \<Rightarrow> nat option" where
  "next_free ft m y =
     (if \<not> y < m then Some y else if length ft \<le> y then None
      else if ft ! y \<noteq> 0 then next_free ft m (Suc y) else Some y)"
  by pat_completeness auto
termination by (relation "measure (\<lambda>(ft, m, y). m - y)") auto

declare next_free.simps [simp del]

text \<open>The search for \<open>n\<close> clusters: those found, and whether they are enough.\<close>

fun pick_clusters :: "u16 list \<Rightarrow> nat \<Rightarrow> nat \<Rightarrow> nat \<Rightarrow> (u16 list \<times> bool) option" where
  "pick_clusters ft m 0 y = Some ([], True)"
| "pick_clusters ft m (Suc n) y = do {
     z \<leftarrow> next_free ft m y;
     if m \<le> z then Some ([], False)
     else if z < 2 then None
     else do { (zs, ok) \<leftarrow> pick_clusters ft m n (Suc z); Some (of_nat z # zs, ok) }
   }"

text \<open>Chaining: each cluster to the next one, and the end mark for the last.\<close>

fun link_chain :: "u16 list \<Rightarrow> fatfs \<Rightarrow> fatfs option" where
  "link_chain [] st = Some st"
| "link_chain [x] st = set_fat x FAT_EOF st"
| "link_chain (x # y # zs) st = do { st1 \<leftarrow> set_fat x y st; link_chain (y # zs) st1 }"

text \<open>\<open>roundup(newlen, clsize) / clsize\<close>, in 32 bits.\<close>

definition clusters_for :: "u32 \<Rightarrow> u32 \<Rightarrow> nat" where
  "clusters_for newlen cs = unat ((newlen + (cs - 1)) div cs * cs div cs)"

text \<open>The results are 0 and 1 as in the source; \<open>mem\<close> is whether \<open>realloc\<close> finds storage.\<close>

definition clust_setlen :: "bool \<Rightarrow> clust \<Rightarrow> u32 \<Rightarrow> fatfs \<Rightarrow> (nat \<times> clust \<times> fatfs) option" where
  "clust_setlen mem c newlen st =
     (let newclust = clusters_for newlen (clsize st); n = c_nclust c; old = take n (c_clust c) in
      if n = newclust then Some (0, c, st)
      else if newclust < n then do {
        st1 \<leftarrow> free_clusters (drop newclust old) st;
        st2 \<leftarrow> (if 0 < newclust then set_fat (old ! (newclust - 1)) FAT_EOF st1 else Some st1);
        Some (0, c\<lparr>c_nclust := newclust\<rparr>, st2\<lparr>fat_dirty := True\<rparr>)
      }
      else if \<not> mem then Some (1, c, st)
      else do {
        (zs, ok) \<leftarrow> pick_clusters (fat st) (nclust st) (newclust - n) 0;
        let c1 = c\<lparr>c_clust := old @ zs\<rparr>;
        if \<not> ok then Some (1, c1, st)
        else do {
          st1 \<leftarrow> link_chain ((if 0 < n then [last old] else []) @ zs) st;
          Some (0, c1\<lparr>c_nclust := newclust\<rparr>, st1\<lparr>fat_dirty := True\<rparr>)
        }
      })"

text \<open>The walk along a chain, which \<open>alloc_clust\<close> makes twice.\<close>

partial_function (option) clust_walk :: "u16 list \<Rightarrow> u16 \<Rightarrow> u16 list option" where
  "clust_walk ft x =
     (if length ft \<le> unat x then None
      else if ft ! unat x < FAT_RESERVED then
        (if x < 2 then None else do { xs \<leftarrow> clust_walk ft (ft ! unat x); Some (x # xs) })
      else Some [x])"

text \<open>\<open>Some None\<close> is the null result, without storage for the description or for its array.\<close>

definition alloc_clust :: "bool \<Rightarrow> bool \<Rightarrow> u16 \<Rightarrow> fatfs \<Rightarrow> clust option option" where
  "alloc_clust mem1 mem2 start st =
     (if \<not> mem1 then Some None
      else if start = 0 then Some (Some \<lparr>c_clust = [], c_nclust = 0\<rparr>)
      else do {
        xs \<leftarrow> clust_walk (fat st) start;
        Some (if mem2 then Some \<lparr>c_clust = xs, c_nclust = length xs\<rparr> else None)
      })"

definition get_clust0 :: "clust \<Rightarrow> u16 option" where
  "get_clust0 c = (if 0 < c_nclust c then Some (c_clust c ! 0) else None)"
section \<open>Files on the disk\<close>

definition clusters :: "clust \<Rightarrow> u16 list" where
  "clusters c = take (c_nclust c) (c_clust c)"

fun chained :: "u16 list \<Rightarrow> u16 list \<Rightarrow> bool" where
  "chained ft [] = True"
| "chained ft [x] = (FAT_RESERVED \<le> ft ! unat x)"
| "chained ft (x # y # zs) = (ft ! unat x = y \<and> chained ft (y # zs))"

definition fat_ok :: "fatfs \<Rightarrow> bool" where
  "fat_ok st = (2 \<le> nclust st \<and> nclust st \<le> length (fat st) \<and> nclust st \<le> 65520 \<and>
     fat st ! 0 \<noteq> 0 \<and> fat st ! 1 \<noteq> 0 \<and> 2 * nclust st \<le> SECSZ * length (dirtymap st))"

text \<open>The clusters of all files, each list in the order of its file.\<close>

definition files_ok :: "fatfs \<Rightarrow> u16 list list \<Rightarrow> bool" where
  "files_ok st fs = (fat_ok st \<and> distinct (concat fs) \<and>
     (\<forall>x \<in> set (concat fs). 2 \<le> unat x \<and> unat x < nclust st) \<and> (\<forall>l \<in> set fs. chained (fat st) l))"

definition free_set :: "fatfs \<Rightarrow> nat set" where
  "free_set st = {y. y < nclust st \<and> fat st ! y = 0}"

lemma chained_cong: "(\<And>x. x \<in> set l \<Longrightarrow> ft' ! unat x = ft ! unat x) \<Longrightarrow> chained ft' l = chained ft l"
  by (induction ft l rule: chained.induct) auto

lemma dirty_in: "2 * n \<le> SECSZ * m \<Longrightarrow> y < n \<Longrightarrow> DIRTY y < m"
  unfolding DIRTY_def SECSZ_def by linarith

text \<open>What assignments within the table change.\<close>

definition table_step :: "fatfs \<Rightarrow> u16 list \<Rightarrow> fatfs \<Rightarrow> bool" where
  "table_step st xs st' = (\<exists>ft dm. st' = st\<lparr>fat := ft, dirtymap := dm\<rparr> \<and> length ft = length (fat st) \<and>
     length dm = length (dirtymap st) \<and> (\<forall>y. y \<notin> unat ` set xs \<longrightarrow> ft ! y = fat st ! y) \<and>
     (\<forall>x < length dm. dirtymap st ! x \<longrightarrow> dm ! x) \<and> (\<forall>y < length ft. ft ! y \<noteq> fat st ! y \<longrightarrow> DIRTY y < length dm \<and> dm ! DIRTY y))"

lemma table_stepE:
  assumes "table_step st xs st'"
  obtains ft dm where "st' = st\<lparr>fat := ft, dirtymap := dm\<rparr>" "length ft = length (fat st)" "length dm = length (dirtymap st)"
    "\<And>y. y \<notin> unat ` set xs \<Longrightarrow> ft ! y = fat st ! y" "\<And>x. x < length dm \<Longrightarrow> dirtymap st ! x \<Longrightarrow> dm ! x"
    "\<And>y. y < length ft \<Longrightarrow> ft ! y \<noteq> fat st ! y \<Longrightarrow> DIRTY y < length dm \<and> dm ! DIRTY y"
  using assms unfolding table_step_def by blast

lemma table_step_trans:
  assumes "table_step a xs b" "table_step b ys c"
  shows "table_step a (xs @ ys) c"
proof -
  obtain f1 d1 where b: "b = a\<lparr>fat := f1, dirtymap := d1\<rparr>" "length f1 = length (fat a)" "length d1 = length (dirtymap a)"
    "\<And>y. y \<notin> unat ` set xs \<Longrightarrow> f1 ! y = fat a ! y" "\<And>x. x < length d1 \<Longrightarrow> dirtymap a ! x \<Longrightarrow> d1 ! x"
    "\<And>y. y < length f1 \<Longrightarrow> f1 ! y \<noteq> fat a ! y \<Longrightarrow> DIRTY y < length d1 \<and> d1 ! DIRTY y"
    using assms(1) unfolding table_step_def by blast
  obtain f2 d2 where c: "c = b\<lparr>fat := f2, dirtymap := d2\<rparr>" "length f2 = length f1" "length d2 = length d1"
    "\<And>y. y \<notin> unat ` set ys \<Longrightarrow> f2 ! y = f1 ! y" "\<And>x. x < length d2 \<Longrightarrow> d1 ! x \<Longrightarrow> d2 ! x"
    "\<And>y. y < length f2 \<Longrightarrow> f2 ! y \<noteq> f1 ! y \<Longrightarrow> DIRTY y < length d2 \<and> d2 ! DIRTY y"
    using assms(2) unfolding table_step_def b(1) by auto
  have "DIRTY y < length d2 \<and> d2 ! DIRTY y" if "y < length f2" "f2 ! y \<noteq> fat a ! y" for y
  proof (cases "f2 ! y = f1 ! y")
    case True
    then show ?thesis using b(6) [of y] c(5) that c(2,3) by simp
  qed (use c(6) that in simp)
  moreover have "f2 ! y = fat a ! y" if "y \<notin> unat ` set (xs @ ys)" for y
  proof -
    have "y \<notin> unat ` set xs" "y \<notin> unat ` set ys" using that by (auto simp: image_Un)
    then show ?thesis using b(4) c(4) by simp
  qed
  ultimately show ?thesis unfolding table_step_def using b(1-3,5) c(1-3,5)
    by (intro exI [of _ f2] exI [of _ d2]) simp
qed

lemma unat_image: "(unat (x :: u16) \<in> unat ` A) = (x \<in> A)"
  by (auto simp: image_iff dest: word_unat_eq_iff [THEN iffD2])

lemma table_step_keeps: "table_step st xs st' \<Longrightarrow> y \<notin> set xs \<Longrightarrow> fat st' ! unat y = fat st ! unat y"
  by (auto simp: table_step_def unat_image)

lemma set_fat_ok:
  assumes "fat_ok st" "unat y < nclust st"
  shows "\<exists>st'. set_fat y v st = Some st' \<and> table_step st [y] st' \<and> fat st' ! unat y = v"
proof -
  have "DIRTY (unat y) < length (dirtymap st)" using assms dirty_in [of "nclust st" _ "unat y"] by (simp add: fat_ok_def)
  then show ?thesis using assms
    by (auto simp: set_fat_def table_step_def fat_ok_def nth_list_update split: if_splits intro!: exI [of _ "(fat st)[unat y := v]"] exI [of _ "(dirtymap st)[DIRTY (unat y) := True]"])
qed

lemma table_step_ok:
  assumes "table_step st xs st'" "fat_ok st" "\<forall>x \<in> set xs. 2 \<le> unat x"
  shows "fat_ok st' \<and> nclust st' = nclust st"
proof -
  obtain ft dm where s: "st' = st\<lparr>fat := ft, dirtymap := dm\<rparr>" "length ft = length (fat st)" "length dm = length (dirtymap st)"
    "\<And>y. y \<notin> unat ` set xs \<Longrightarrow> ft ! y = fat st ! y"
    using assms(1) unfolding table_step_def by auto
  have "0 \<notin> unat ` set xs" "1 \<notin> unat ` set xs" using assms(3) by auto
  then have "ft ! 0 = fat st ! 0" "ft ! 1 = fat st ! 1" using s(4) by blast+
  then show ?thesis using s assms(2) unfolding fat_ok_def by simp
qed

lemma free_clusters_ok:
  assumes "fat_ok st" "\<forall>x \<in> set xs. 2 \<le> unat x \<and> unat x < nclust st"
  shows "\<exists>st'. free_clusters xs st = Some st' \<and> table_step st xs st' \<and> (\<forall>x \<in> set xs. fat st' ! unat x = 0)"
  using assms
proof (induction xs arbitrary: st)
  case Nil
  show ?case by (simp add: table_step_def) (rule exI [of _ "fat st"], rule exI [of _ "dirtymap st"], simp)
next
  case (Cons y ys)
  obtain st1 where s: "set_fat y 0 st = Some st1" "table_step st [y] st1" "fat st1 ! unat y = 0"
    using set_fat_ok [of st y 0] Cons.prems by auto
  have ok: "fat_ok st1" "nclust st1 = nclust st" using table_step_ok [OF s(2)] Cons.prems by auto
  obtain st2 where t: "free_clusters ys st1 = Some st2" "table_step st1 ys st2" "\<forall>x \<in> set ys. fat st2 ! unat x = 0"
    using Cons.IH [of st1] Cons.prems(2) ok by auto
  have "fat st2 ! unat y = 0" using t(3) s(3) table_step_keeps [OF t(2), of y] by (cases "y \<in> set ys") auto
  then show ?case using s(1) t table_step_trans [OF s(2) t(2)] by auto
qed

lemma link_chain_ok:
  assumes "fat_ok st" "\<forall>x \<in> set xs. 2 \<le> unat x \<and> unat x < nclust st" "distinct xs"
  shows "\<exists>st'. link_chain xs st = Some st' \<and> table_step st xs st' \<and> chained (fat st') xs"
  using assms
proof (induction xs arbitrary: st rule: induct_list012)
  case 1
  show ?case by (simp add: table_step_def) (rule exI [of _ "fat st"], rule exI [of _ "dirtymap st"], simp)
next
  case (2 x)
  then obtain st1 where "set_fat x FAT_EOF st = Some st1" "table_step st [x] st1" "fat st1 ! unat x = FAT_EOF"
    using set_fat_ok by (metis list.set_intros(1))
  then show ?case by (simp add: FAT_EOF_def FAT_RESERVED_def)
next
  case (3 x y zs)
  obtain st1 where s: "set_fat x y st = Some st1" "table_step st [x] st1" "fat st1 ! unat x = y"
    using set_fat_ok 3 by (metis list.set_intros(1))
  have ok: "fat_ok st1" "nclust st1 = nclust st" using table_step_ok [OF s(2)] 3 by auto
  obtain st2 where t: "link_chain (y # zs) st1 = Some st2" "table_step st1 (y # zs) st2" "chained (fat st2) (y # zs)"
  proof -
    have "\<forall>x \<in> set (y # zs). 2 \<le> unat x \<and> unat x < nclust st1" "distinct (y # zs)" using "3.prems" ok(2) by auto
    then show ?thesis using "3.IH"(2) [OF ok(1)] that by blast
  qed
  have "fat st2 ! unat x = y" using s(3) table_step_keeps [OF t(2), of x] "3.prems"(3) by auto
  then show ?case using s(1) t table_step_trans [OF s(2) t(2)] by auto
qed

lemma next_free_ok:
  "m \<le> length ft \<Longrightarrow> \<exists>z. next_free ft m y = Some z \<and> y \<le> z \<and> (\<forall>i. y \<le> i \<and> i < z \<and> i < m \<longrightarrow> ft ! i \<noteq> 0) \<and> (z < m \<longrightarrow> ft ! z = 0)"
proof (induction ft m y rule: next_free.induct)
  case (1 ft m y)
  show ?case
  proof (cases "y < m \<and> ft ! y \<noteq> 0")
    case True
    then obtain z where z: "next_free ft m (Suc y) = Some z" "Suc y \<le> z" "\<forall>i. Suc y \<le> i \<and> i < z \<and> i < m \<longrightarrow> ft ! i \<noteq> 0" "z < m \<longrightarrow> ft ! z = 0"
      using 1 by auto
    have "\<forall>i. y \<le> i \<and> i < z \<and> i < m \<longrightarrow> ft ! i \<noteq> 0" using z(3) True by (metis le_neq_implies_less Suc_leI)
    then show ?thesis using z True 1(2) by (subst next_free.simps) auto
  next
    case False
    then show ?thesis using 1(2) by (subst next_free.simps) auto
  qed
qed

lemma pick_clusters_ok:
  assumes "m \<le> length ft" "m \<le> 65520" "ft ! 0 \<noteq> 0" "ft ! 1 \<noteq> 0"
  shows "\<exists>zs ok. pick_clusters ft m n y = Some (zs, ok) \<and> distinct zs \<and>
    (\<forall>z \<in> set zs. y \<le> unat z \<and> 2 \<le> unat z \<and> unat z < m \<and> ft ! unat z = 0) \<and>
    (if ok then length zs = n else card {i. y \<le> i \<and> i < m \<and> ft ! i = 0} < n)"
proof (induction n arbitrary: y)
  case (Suc n)
  obtain z where z: "next_free ft m y = Some z" "y \<le> z" "\<And>i. y \<le> i \<Longrightarrow> i < z \<Longrightarrow> i < m \<Longrightarrow> ft ! i \<noteq> 0" "z < m \<Longrightarrow> ft ! z = 0"
    using next_free_ok [OF assms(1), of y] by auto
  show ?case
  proof (cases "z < m")
    case False
    then have "\<not> (y \<le> i \<and> i < m \<and> ft ! i = 0)" for i using z(3) [of i] by linarith
    then have e: "{i. y \<le> i \<and> i < m \<and> ft ! i = 0} = {}" by blast
    have "pick_clusters ft m (Suc n) y = Some ([], False)" using z(1) False by simp
    then show ?thesis by (intro exI [of _ "[]"] exI [of _ False]) (simp add: e)
  next
    case True
    have "z \<noteq> 0" "z \<noteq> 1" using z(4) [OF True] assms(3,4) by - (rule notI, simp)+
    then have z2: "2 \<le> z" by linarith
    have u: "unat (of_nat z :: u16) = z" using True assms(2) by (simp add: unat_of_nat take_bit_eq_mod)
    obtain zs ok where r: "pick_clusters ft m n (Suc z) = Some (zs, ok)" "distinct zs"
      "\<forall>z' \<in> set zs. Suc z \<le> unat z' \<and> 2 \<le> unat z' \<and> unat z' < m \<and> ft ! unat z' = 0"
      "if ok then length zs = n else card {i. Suc z \<le> i \<and> i < m \<and> ft ! i = 0} < n"
      using Suc.IH [of "Suc z"] by auto
    let ?A = "{i. Suc z \<le> i \<and> i < m \<and> ft ! i = 0}" and ?B = "{i. y \<le> i \<and> i < m \<and> ft ! i = 0}"
    have "?B \<subseteq> insert z ?A"
    proof
      fix i assume "i \<in> ?B"
      moreover then have "\<not> i < z" using z(3) by blast
      ultimately show "i \<in> insert z ?A" by auto
    qed
    then have "card ?B \<le> card (insert z ?A)" by (rule card_mono [rotated]) simp
    also have "\<dots> = Suc (card ?A)" by simp
    finally have cd: "card ?B \<le> Suc (card ?A)" .
    have nz: "of_nat z \<notin> set zs"
    proof
      assume "of_nat z \<in> set zs"
      then have "Suc z \<le> unat (of_nat z :: u16)" using r(3) by blast
      then show False using u by simp
    qed
    have p: "pick_clusters ft m (Suc n) y = Some (of_nat z # zs, ok)" using z(1) True z2 r(1) by simp
    have e: "\<forall>v \<in> set (of_nat z # zs). y \<le> unat v \<and> 2 \<le> unat v \<and> unat v < m \<and> ft ! unat v = 0"
      using r(3) z(2) z(4) [OF True] z2 True u by auto
    have c: "if ok then length (of_nat z # zs :: u16 list) = Suc n else card ?B < Suc n"
      using r(4) cd by (cases ok) simp_all
    show ?thesis using p r(2) nz e c by (intro exI [of _ "of_nat z # zs"] exI [of _ ok]) simp
  qed
qed (intro exI [of _ "[]"] exI [of _ True], simp)

lemma chained_join:
  assumes "chained ft (xs @ y # ys)" "\<And>x. x \<in> set xs \<Longrightarrow> ft' ! unat x = ft ! unat x" "chained ft' (y # zs)"
  shows "chained ft' (xs @ y # zs)"
  using assms
proof (induction xs)
  case (Cons x xs)
  then show ?case by (cases xs) auto
qed simp

lemma used_entry:
  assumes "chained ft l" "x \<in> set l" "\<forall>y \<in> set l. 2 \<le> unat y"
  shows "ft ! unat x \<noteq> 0"
  using assms
proof (induction ft l rule: chained.induct)
  case (2 ft z)
  then show ?case by (auto simp: FAT_RESERVED_def)
next
  case (3 ft z y zs)
  show ?case
  proof (cases "x = z")
    case True
    have "2 \<le> unat y" using 3 by simp
    then show ?thesis using 3 True by auto
  qed (use 3 in auto)
qed simp

lemma files_ok_replace:
  assumes "files_ok st (as @ l # bs)" "fat_ok st'" "nclust st' = nclust st" "distinct l'"
    "\<forall>x \<in> set l'. 2 \<le> unat x \<and> unat x < nclust st" "set l' \<inter> (set (concat as) \<union> set (concat bs)) = {}"
    "chained (fat st') l'" "\<And>x. x \<in> set (concat as) \<union> set (concat bs) \<Longrightarrow> fat st' ! unat x = fat st ! unat x"
  shows "files_ok st' (as @ l' # bs)"
proof -
  have c: "chained (fat st') k" if "k \<in> set as \<union> set bs" for k
  proof -
    have "chained (fat st) k" using assms(1) that by (auto simp: files_ok_def)
    moreover have "fat st' ! unat x = fat st ! unat x" if "x \<in> set k" for x
      using assms(8) [of x] that \<open>k \<in> set as \<union> set bs\<close> by auto
    ultimately show ?thesis using chained_cong [of k "fat st'" "fat st"] by simp
  qed
  have d: "distinct (concat as)" "distinct (concat bs)" "set (concat as) \<inter> set (concat bs) = {}"
    "\<forall>x \<in> set (concat as) \<union> set (concat bs). 2 \<le> unat x \<and> unat x < nclust st"
    using assms(1) unfolding files_ok_def by auto
  have "distinct (concat (as @ l' # bs))" using d(1-3) assms(4,6) by (simp del: set_concat) blast
  moreover have "\<forall>x \<in> set (concat (as @ l' # bs)). 2 \<le> unat x \<and> unat x < nclust st'"
    using d(4) assms(3,5) by (simp del: set_concat) blast
  ultimately show ?thesis using c assms(2,7) unfolding files_ok_def by auto
qed

text \<open>One file among all those of the disk.\<close>

lemma shrink_ok:
  assumes f: "files_ok st (as @ l # bs)" and k: "k < length l"
  shows "\<exists>st1 st2. free_clusters (drop k l) st = Some st1 \<and>
    (if 0 < k then set_fat (l ! (k - 1)) FAT_EOF st1 else Some st1) = Some st2 \<and>
    files_ok st2 (as @ take k l # bs) \<and> (\<exists>xs. table_step st xs st2) \<and> nclust st2 = nclust st \<and>
    card (free_set st2) = card (free_set st) + (length l - k)"
proof -
  have o: "fat_ok st" "distinct l" "\<forall>x \<in> set l. 2 \<le> unat x \<and> unat x < nclust st" "chained (fat st) l"
    "set l \<inter> (set (concat as) \<union> set (concat bs)) = {}" using f by (auto simp: files_ok_def)
  have dr: "\<forall>x \<in> set (drop k l). 2 \<le> unat x \<and> unat x < nclust st" using o(3) set_drop_subset [of k l] by blast
  obtain st1 where s1: "free_clusters (drop k l) st = Some st1" "table_step st (drop k l) st1" "\<forall>x \<in> set (drop k l). fat st1 ! unat x = 0"
    using free_clusters_ok [OF o(1) dr] by auto
  have ok1: "fat_ok st1" "nclust st1 = nclust st" using table_step_ok [OF s1(2) o(1)] dr by auto
  have "\<exists>st2. (if 0 < k then set_fat (l ! (k - 1)) FAT_EOF st1 else Some st1) = Some st2 \<and>
      table_step st1 (if 0 < k then [l ! (k - 1)] else []) st2 \<and> (0 < k \<longrightarrow> fat st2 ! unat (l ! (k - 1)) = FAT_EOF)"
  proof (cases "0 < k")
    case True
    then have "l ! (k - 1) \<in> set l" using k by auto
    then show ?thesis using set_fat_ok [OF ok1(1), of "l ! (k - 1)" FAT_EOF] o(3) ok1(2) True by auto
  qed (use free_clusters_ok [OF ok1(1), of "[]"] in auto)
  then obtain st2 where s2: "(if 0 < k then set_fat (l ! (k - 1)) FAT_EOF st1 else Some st1) = Some st2"
    "table_step st1 (if 0 < k then [l ! (k - 1)] else []) st2" "0 < k \<Longrightarrow> fat st2 ! unat (l ! (k - 1)) = FAT_EOF" by auto
  have km: "0 < k \<Longrightarrow> l ! (k - 1) \<in> set (take k l)" using k by (auto simp: in_set_conv_nth intro!: exI [of _ "k - 1"])
  have tk: "set (if 0 < k then [l ! (k - 1)] else []) \<subseteq> set (take k l)" using km by auto
  have ok2: "fat_ok st2" "nclust st2 = nclust st"
    using table_step_ok [OF s2(2) ok1(1)] ok1(2) tk o(3) set_take_subset [of k l] by fastforce+
  have T: "table_step st (drop k l @ (if 0 < k then [l ! (k - 1)] else [])) st2" by (rule table_step_trans [OF s1(2) s2(2)])
  have dis: "set (take k l) \<inter> set (drop k l) = {}" using o(2) by (simp add: set_take_disj_set_drop_if_distinct)
  have ch: "chained (fat st2) (take k l)"
  proof (cases "0 < k")
    case True
    have l: "l = take (k - 1) l @ l ! (k - 1) # drop k l" using True k by (metis Suc_diff_1 Suc_lessD id_take_nth_drop)
    have t: "take k l = take (k - 1) l @ [l ! (k - 1)]" using True k by (metis Suc_diff_1 Suc_lessD take_Suc_conv_app_nth)
    have "fat st2 ! unat x = fat st ! unat x" if x: "x \<in> set (take (k - 1) l)" for x
    proof -
      have "x \<in> set (take k l)" using x t by simp
      then have "x \<notin> set (drop k l)" using dis by blast
      moreover have "x \<noteq> l ! (k - 1)" using o(2) x l by (metis disjoint_iff distinct_append list.set_intros(1))
      ultimately show ?thesis using table_step_keeps [OF T, of x] by auto
    qed
    then show ?thesis using chained_join [of "fat st" "take (k - 1) l" "l ! (k - 1)" "drop k l" "fat st2" "[]"] o(4) l t s2(3) True
      by (simp add: FAT_EOF_def FAT_RESERVED_def)
  qed simp
  have other: "fat st2 ! unat x = fat st ! unat x" if "x \<in> set (concat as) \<union> set (concat bs)" for x
  proof -
    have "x \<notin> set l" using that o(5) by blast
    then have "x \<notin> set (drop k l @ (if 0 < k then [l ! (k - 1)] else []))" using tk set_drop_subset [of k l] set_take_subset [of k l] by fastforce
    then show ?thesis by (rule table_step_keeps [OF T])
  qed
  have files: "files_ok st2 (as @ take k l # bs)"
  proof (rule files_ok_replace [OF f ok2(1,2) _ _ _ ch other])
    show "distinct (take k l)" using o(2) by simp
    show "\<forall>x \<in> set (take k l). 2 \<le> unat x \<and> unat x < nclust st" using o(3) set_take_subset [of k l] by blast
    show "set (take k l) \<inter> (set (concat as) \<union> set (concat bs)) = {}" using o(5) set_take_subset [of k l] by blast
  qed
  have nz: "fat st ! unat x \<noteq> 0" if "x \<in> set l" for x using used_entry [OF o(4) that] o(3) by blast
  have "free_set st2 = free_set st \<union> unat ` set (drop k l)"
  proof (rule set_eqI)
    fix y
    show "y \<in> free_set st2 \<longleftrightarrow> y \<in> free_set st \<union> unat ` set (drop k l)"
    proof (cases "y \<in> unat ` set (drop k l)")
      case True
      then obtain x where x: "y = unat x" "x \<in> set (drop k l)" by auto
      then have "x \<notin> set (if 0 < k then [l ! (k - 1)] else [])" using dis tk by blast
      then have "fat st2 ! y = 0" using table_step_keeps [OF s2(2)] s1(3) x by auto
      then show ?thesis using x dr ok2(2) by (auto simp: free_set_def)
    next
      case False
      show ?thesis
      proof (cases "0 < k \<and> y = unat (l ! (k - 1))")
        case True
        then have "fat st2 ! y \<noteq> 0" "fat st ! y \<noteq> 0" using s2(3) nz km set_take_subset [of k l] by (auto simp: FAT_EOF_def)
        then show ?thesis using False by (simp add: free_set_def)
      next
        case F: False
        have "y \<notin> unat ` set (drop k l @ (if 0 < k then [l ! (k - 1)] else []))" using False F by auto
        then have "fat st2 ! y = fat st ! y" using T unfolding table_step_def by auto
        then show ?thesis using False ok2(2) by (simp add: free_set_def)
      qed
    qed
  qed
  moreover have "free_set st \<inter> unat ` set (drop k l) = {}" using nz set_drop_subset [of k l] by (auto simp: free_set_def)
  moreover have "card (unat ` set (drop k l)) = length l - k"
    using o(2) distinct_card [of "drop k l"] by (subst card_image) (auto simp: inj_on_def dest: word_unat_eq_iff [THEN iffD2])
  ultimately have "card (free_set st2) = card (free_set st) + (length l - k)"
    by (simp add: card_Un_disjoint free_set_def)
  then show ?thesis using s1(1) s2(1) files T ok2(2) by blast
qed

lemma grow_ok:
  assumes f: "files_ok st (as @ l # bs)" and zs: "distinct zs" "zs \<noteq> []"
    "\<forall>z \<in> set zs. 2 \<le> unat z \<and> unat z < nclust st \<and> fat st ! unat z = 0"
  shows "\<exists>st1. link_chain ((if l \<noteq> [] then [last l] else []) @ zs) st = Some st1 \<and>
    files_ok st1 (as @ (l @ zs) # bs) \<and> (\<exists>xs. table_step st xs st1) \<and> nclust st1 = nclust st \<and>
    card (free_set st1) + length zs = card (free_set st)"
proof -
  let ?h = "if l \<noteq> [] then [last l] else []"
  have o: "fat_ok st" "distinct l" "\<forall>x \<in> set l. 2 \<le> unat x \<and> unat x < nclust st" "chained (fat st) l"
    "set l \<inter> (set (concat as) \<union> set (concat bs)) = {}" using f by (auto simp: files_ok_def)
  have nz: "fat st ! unat x \<noteq> 0" if x: "x \<in> set (concat (as @ l # bs))" for x
  proof -
    obtain k where "k \<in> set (as @ l # bs)" "x \<in> set k" using x by auto
    moreover have "\<forall>y \<in> set k. 2 \<le> unat y" "chained (fat st) k" using f \<open>k \<in> _\<close> unfolding files_ok_def by auto
    ultimately show ?thesis using used_entry by blast
  qed
  then have new: "z \<notin> set l" "z \<notin> set (concat as) \<union> set (concat bs)" if "z \<in> set zs" for z using zs(3) that by auto
  have hl: "set ?h \<subseteq> set l" by (cases "l = []") auto
  have rg: "\<forall>x \<in> set (?h @ zs). 2 \<le> unat x \<and> unat x < nclust st" using o(3) zs(3) hl by auto
  have di: "distinct (?h @ zs)" using zs(1) new(1) [of "last l"] last_in_set [of l] by auto
  obtain st1 where s1: "link_chain (?h @ zs) st = Some st1" "table_step st (?h @ zs) st1" "chained (fat st1) (?h @ zs)"
    using link_chain_ok [OF o(1) rg di] by auto
  have ok1: "fat_ok st1" "nclust st1 = nclust st" using table_step_ok [OF s1(2) o(1)] rg by auto
  have ch: "chained (fat st1) (l @ zs)"
  proof (cases "l = []")
    case False
    then have l: "l = butlast l @ [last l]" by simp
    have "fat st1 ! unat x = fat st ! unat x" if x: "x \<in> set (butlast l)" for x
    proof -
      have "x \<noteq> last l" using x o(2) False not_in_butlast by metis
      moreover have "x \<notin> set zs" using new(1) in_set_butlastD [OF x] by blast
      ultimately show ?thesis using table_step_keeps [OF s1(2), of x] False by simp
    qed
    moreover have "chained (fat st) (butlast l @ last l # [])" using o(4) l by simp
    moreover have "chained (fat st1) (last l # zs)" using s1(3) False by simp
    ultimately have "chained (fat st1) (butlast l @ last l # zs)" using chained_join by metis
    then show ?thesis using l by (metis append_Cons append_Nil append_assoc)
  qed (use s1(3) in simp)
  have other: "fat st1 ! unat x = fat st ! unat x" if "x \<in> set (concat as) \<union> set (concat bs)" for x
  proof -
    have "x \<notin> set l" "x \<notin> set zs" using that o(5) new(2) by blast+
    then show ?thesis using table_step_keeps [OF s1(2), of x] hl by auto
  qed
  have files: "files_ok st1 (as @ (l @ zs) # bs)"
  proof (rule files_ok_replace [OF f ok1(1,2) _ _ _ ch other])
    show "distinct (l @ zs)" using o(2) zs(1) new(1) by auto
    show "\<forall>x \<in> set (l @ zs). 2 \<le> unat x \<and> unat x < nclust st" using o(3) zs(3) by auto
    show "set (l @ zs) \<inter> (set (concat as) \<union> set (concat bs)) = {}" using o(5) new(2) by auto
  qed
  have nz1: "fat st1 ! unat x \<noteq> 0" if "x \<in> set (l @ zs)" for x
    using used_entry [OF ch that] o(3) zs(3) by auto
  have "free_set st1 = free_set st - unat ` set zs"
  proof (rule set_eqI)
    fix y
    show "y \<in> free_set st1 \<longleftrightarrow> y \<in> free_set st - unat ` set zs"
    proof (cases "y \<in> unat ` set (?h @ zs)")
      case True
      then obtain x where x: "y = unat x" "x \<in> set (?h @ zs)" by blast
      then have "fat st1 ! y \<noteq> 0" using nz1 hl by auto
      moreover have "y \<notin> free_set st - unat ` set zs"
      proof (cases "x \<in> set zs")
        case False
        then have "fat st ! y \<noteq> 0" using x hl nz by auto
        then show ?thesis by (simp add: free_set_def)
      qed (use x in auto)
      ultimately show ?thesis by (simp add: free_set_def)
    next
      case False
      then have "fat st1 ! y = fat st ! y" using s1(2) unfolding table_step_def by auto
      then show ?thesis using False ok1(2) by (auto simp: free_set_def)
    qed
  qed
  moreover have sub: "unat ` set zs \<subseteq> free_set st" using zs(3) by (auto simp: free_set_def)
  moreover have "card (unat ` set zs) = length zs"
    using zs(1) distinct_card [of zs] by (subst card_image) (auto simp: inj_on_def dest: word_unat_eq_iff [THEN iffD2])
  moreover have "finite (free_set st)" by (simp add: free_set_def)
  ultimately have "card (free_set st1) + length zs = card (free_set st)"
    using card_Diff_subset [OF finite_subset [OF sub] sub] card_mono [OF _ sub] by simp
  then show ?thesis using s1 files ok1(2) by blast
qed

end
