(* ===== verification/Dos_Disk.thy ===== *)
theory Dos_Disk
  imports Dos_Fat
begin

text \<open>
  Reading the file allocation table from the disk and writing it back, \<open>fat_init\<close> and \<open>fat_sync\<close>
  of \<open>srv/dos/fat.c\<close>: what a crash or a restart of the server finds.
\<close>

section \<open>Writing the table\<close>

definition fat_byte :: "u16 list \<Rightarrow> nat \<Rightarrow> u8" where
  "fat_byte ft i = (if even i then ucast (ft ! (i div 2)) else ucast (drop_bit 8 (ft ! (i div 2))))"

definition write_at :: "nat \<Rightarrow> u8 list \<Rightarrow> fatfs \<Rightarrow> fatfs" where
  "write_at off bs st = st\<lparr>dev := (\<lambda>a. if off \<le> a \<and> a < off + length bs then bs ! (a - off) else dev st a)\<rparr>"

text \<open>
  One pass over the dirty map.  \<open>short pass x\<close> is the number of bytes that a write gets done when
  it fails; then the server exits, which is \<open>False\<close>.
\<close>

function map_pass :: "(nat \<Rightarrow> nat \<Rightarrow> nat option) \<Rightarrow> nat \<Rightarrow> nat \<Rightarrow> fatfs \<Rightarrow> (bool \<times> fatfs) option" where
  "map_pass short pass x st =
     (if \<not> x < length (dirtymap st) then Some (True, st)
      else if \<not> dirtymap st ! x then map_pass short pass (Suc x) st
      else
        let cnt = length (takeWhile id (drop x (dirtymap st)));
            bs = map (fat_byte (fat st)) [x * SECSZ..<x * SECSZ + SECSZ * cnt];
            off = SECSZ + x * SECSZ + pass * fatlen st
        in if 2 * length (fat st) < x * SECSZ + SECSZ * cnt then None
           else case short pass x of
             Some k \<Rightarrow> Some (False, write_at off (take k bs) st)
           | None \<Rightarrow> map_pass short pass (x + cnt) (write_at off bs st))"
  by pat_completeness auto
termination
proof (relation "measure (\<lambda>(short, pass, x, st). length (dirtymap st) - x)", goal_cases)
  case (3 short pass x st cnt bs off)
  then have "drop x (dirtymap st) = True # drop (Suc x) (dirtymap st)" by (simp add: Cons_nth_drop_Suc [symmetric])
  then have "0 < cnt" using 3 by simp
  then have "x < x + cnt" by simp
  then show ?case using 3 by (simp add: write_at_def diff_less_mono2)
qed auto

declare map_pass.simps [simp del]

definition map_write :: "(nat \<Rightarrow> nat \<Rightarrow> nat option) \<Rightarrow> fatfs \<Rightarrow> (bool \<times> fatfs) option" where
  "map_write short st = do {
     (ok, st1) \<leftarrow> map_pass short 0 0 st;
     if \<not> ok then Some (False, st1)
     else do {
       (ok2, st2) \<leftarrow> map_pass short 1 0 st1;
       if \<not> ok2 then Some (False, st2)
       else Some (True, st2\<lparr>dirtymap := replicate (length (dirtymap st2)) False, fat_dirty := False\<rparr>)
     }
   }"

text \<open>
  With a 12-bit table the whole of it is packed into its buffer and written twice, one copy behind
  the other.
\<close>

definition fat12_write :: "(nat \<Rightarrow> nat \<Rightarrow> nat option) \<Rightarrow> u8 list \<Rightarrow> fatfs \<Rightarrow> (bool \<times> fatfs) option" where
  "fat12_write short buf st =
     (let bs = fat16_fat12 (fat st) (fatlen st); buf1 = bs @ drop (length bs) buf; st1 = st\<lparr>fat12 := Some buf1\<rparr> in
      if length (fat st) < (fatlen st + 1) div 2 \<or> length buf < length bs then None
      else case short 0 0 of Some k \<Rightarrow> Some (False, write_at SECSZ (take k buf1) st1)
      | None \<Rightarrow> let st2 = write_at SECSZ buf1 st1 in
          (case short 1 0 of Some k \<Rightarrow> Some (False, write_at (SECSZ + length buf) (take k buf1) st2)
           | None \<Rightarrow> Some (True, (write_at (SECSZ + length buf) buf1 st2)\<lparr>fat_dirty := False\<rparr>)))"

definition fat_sync :: "(nat \<Rightarrow> nat \<Rightarrow> nat option) \<Rightarrow> fatfs \<Rightarrow> (bool \<times> fatfs) option" where
  "fat_sync short st =
     (if \<not> fat_dirty st then Some (True, st)
      else case fat12 st of Some buf \<Rightarrow> fat12_write short buf st | None \<Rightarrow> map_write short st)"

section \<open>Starting\<close>

record boot =
  secsize0 :: u8
  secsize1 :: u8
  bb_clsize :: u8
  nrsvsect :: u16
  nfat :: u8
  dirents0 :: u8
  dirents1 :: u8
  psect0 :: u8
  psect1 :: u8
  bb_fatlen :: u16
  bigsect :: u32

definition two_bytes :: "u8 \<Rightarrow> u8 \<Rightarrow> u32" where
  "two_bytes lo hi = ucast lo + push_bit 8 (ucast hi)"

definition boot_clsize :: "boot \<Rightarrow> u32" where
  "boot_clsize b = ucast (bb_clsize b) * of_nat SECSZ"

definition boot_sectors :: "boot \<Rightarrow> u32" where
  "boot_sectors b = (let x = two_bytes (psect0 b) (psect1 b) in if 0 < x then x else bigsect b)"

definition boot_nclust :: "boot \<Rightarrow> u32" where
  "boot_nclust b = boot_sectors b * of_nat SECSZ div boot_clsize b"

definition boot_dirents :: "boot \<Rightarrow> u32" where
  "boot_dirents b = two_bytes (dirents0 b) (dirents1 b)"

text \<open>An entry of a directory has 32 bytes.\<close>

definition boot_data0 :: "boot \<Rightarrow> u32" where
  "boot_data0 b = (ucast (nrsvsect b) + ucast (nfat b) * ucast (bb_fatlen b) + boot_dirents b * 32 div of_nat SECSZ) * of_nat SECSZ"

definition boot_dirtymap :: "boot \<Rightarrow> nat" where
  "boot_dirtymap b = clusters_for (boot_nclust b * 2) (of_nat SECSZ)"

definition boot_fatlen :: "boot \<Rightarrow> nat" where
  "boot_fatlen b = unat (bb_fatlen b) * SECSZ"

text \<open>Entries of a table as bytes of the machine.\<close>

definition fat_read :: "(nat \<Rightarrow> u8) \<Rightarrow> nat \<Rightarrow> u16 list" where
  "fat_read d len = map (\<lambda>i. ucast (d (SECSZ + 2 * i)) OR push_bit 8 (ucast (d (SECSZ + (2 * i + 1))))) [0..<len div 2]"

text \<open>
  \<open>mem\<close> is whether the allocations find storage and \<open>rd\<close> whether the table is read in full; the
  server ends otherwise.  \<open>junk\<close> is what new storage holds.
\<close>

definition fat_init :: "bool \<Rightarrow> bool \<Rightarrow> (nat \<Rightarrow> u16) \<Rightarrow> boot \<Rightarrow> (nat \<Rightarrow> u8) \<Rightarrow> fatfs option" where
  "fat_init mem rd junk b d =
     (if two_bytes (secsize0 b) (secsize1 b) \<noteq> of_nat SECSZ \<or> boot_clsize b = 0 \<or> \<not> mem \<or> \<not> rd then None
      else
        let len = boot_fatlen b; short12 = boot_nclust b < 4086;
            buf = map (\<lambda>i. d (SECSZ + i)) [0..<len]; len16 = (if short12 then fatlen12 len else len);
            es = (if short12 then fat12_fat16 buf else fat_read d len)
        in Some \<lparr>fat = map (\<lambda>i. if i < length es then es ! i else junk i) [0..<len16 div 2],
             dirtymap = replicate (boot_dirtymap b) False, fat_dirty = False, nclust = unat (boot_nclust b),
             clsize = boot_clsize b, fatlen = len16, fat12 = (if short12 then Some buf else None),
             data0 = boot_data0 b, dirents = boot_dirents b, dev = d\<rparr>)"

section \<open>The copies on the disk\<close>

definition byte_pos :: "fatfs \<Rightarrow> nat \<Rightarrow> nat \<Rightarrow> nat" where
  "byte_pos st p b = SECSZ + p * fatlen st + b"

definition synced :: "fatfs \<Rightarrow> nat \<Rightarrow> nat \<Rightarrow> bool" where
  "synced st p b = (dev st (byte_pos st p b) = fat_byte (fat st) b)"

definition dirty_byte :: "fatfs \<Rightarrow> nat \<Rightarrow> bool" where
  "dirty_byte st b = (b < SECSZ * length (dirtymap st) \<and> dirtymap st ! (b div SECSZ))"

definition disk_ok :: "fatfs \<Rightarrow> bool" where
  "disk_ok st = (fat12 st = None \<and> fatlen st = 2 * length (fat st) \<and> SECSZ * length (dirtymap st) \<le> fatlen st \<and>
     (\<forall>b < fatlen st. dirty_byte st b \<or> synced st 0 b \<and> synced st 1 b) \<and> (\<not> fat_dirty st \<longrightarrow> True \<notin> set (dirtymap st)))"

definition same_disk :: "fatfs \<Rightarrow> fatfs \<Rightarrow> bool" where
  "same_disk st st' = (nclust st' = nclust st \<and> clsize st' = clsize st \<and> fatlen st' = fatlen st \<and> data0 st' = data0 st \<and>
     dirents st' = dirents st \<and> fat12 st' = fat12 st \<and> length (dirtymap st') = length (dirtymap st) \<and> length (fat st') = length (fat st))"

definition pass_change :: "nat \<Rightarrow> nat \<Rightarrow> fatfs \<Rightarrow> fatfs \<Rightarrow> bool" where
  "pass_change p x st st' = (\<exists>d. st' = st\<lparr>dev := d\<rparr> \<and>
     (\<forall>a. d a = dev st a \<or> (\<exists>b. x * SECSZ \<le> b \<and> dirty_byte st b \<and> a = byte_pos st p b \<and> d a = fat_byte (fat st) b)))"

lemma byte_pos_inj [simp]: "byte_pos st p b = byte_pos st p c \<longleftrightarrow> b = c"
  by (simp add: byte_pos_def)

lemma run_dirty:
  assumes "x < length dm" "cnt = length (takeWhile id (drop x dm))" "x * SECSZ \<le> b" "b < x * SECSZ + SECSZ * cnt"
  shows "b < SECSZ * length dm \<and> dm ! (b div SECSZ)"
proof -
  have c: "x + cnt \<le> length dm" using assms(1,2) length_takeWhile_le [of id "drop x dm"] by simp
  have d: "x \<le> b div SECSZ" "b div SECSZ < x + cnt"
    using assms(3,4) by (auto simp: SECSZ_def less_eq_div_iff_mult_less_eq div_less_iff_less_mult algebra_simps)
  then have "b div SECSZ - x < cnt" by simp
  then have "drop x dm ! (b div SECSZ - x)" using assms(2) nth_mem [of "b div SECSZ - x" "takeWhile id (drop x dm)"]
    by (metis id_apply set_takeWhileD takeWhile_nth)
  moreover have "b < SECSZ * (x + cnt)" using assms(4) by (simp add: algebra_simps)
  ultimately show ?thesis using c d by (auto simp: SECSZ_def intro: less_le_trans)
qed

lemma pass_change_write:
  assumes x: "x < length (dirtymap st)" and cnt: "cnt = length (takeWhile id (drop x (dirtymap st)))"
    and bs: "bs = map (fat_byte (fat st)) [x * SECSZ..<x * SECSZ + SECSZ * cnt]"
  shows "pass_change p x st (write_at (byte_pos st p (x * SECSZ)) (take k bs) st)"
    "\<And>b. x * SECSZ \<le> b \<Longrightarrow> b < x * SECSZ + SECSZ * cnt \<Longrightarrow> synced (write_at (byte_pos st p (x * SECSZ)) bs st) p b"
proof -
  let ?o = "byte_pos st p (x * SECSZ)"
  have e: "take k bs ! j = fat_byte (fat st) (x * SECSZ + j) \<and> dirty_byte st (x * SECSZ + j)" if j: "j < length (take k bs)" for j
  proof -
    have "j < SECSZ * cnt" using j bs by simp
    then have "dirty_byte st (x * SECSZ + j)" using run_dirty [OF x cnt, of "x * SECSZ + j"] by (simp add: dirty_byte_def)
    moreover have "take k bs ! j = fat_byte (fat st) (x * SECSZ + j)" using j bs by simp
    ultimately show ?thesis by simp
  qed
  define d where "d = (\<lambda>a. if ?o \<le> a \<and> a < ?o + length (take k bs) then take k bs ! (a - ?o) else dev st a)"
  have "d a = dev st a \<or> (\<exists>b. x * SECSZ \<le> b \<and> dirty_byte st b \<and> a = byte_pos st p b \<and> d a = fat_byte (fat st) b)" for a
  proof (cases "?o \<le> a \<and> a < ?o + length (take k bs)")
    case True
    then obtain j where j: "a = ?o + j" "j < length (take k bs)" by (metis le_Suc_ex nat_add_left_cancel_less)
    then have "d a = take k bs ! j" by (simp add: d_def)
    moreover have "a = byte_pos st p (x * SECSZ + j)" using j(1) by (simp add: byte_pos_def)
    ultimately show ?thesis using e [OF j(2)] by (intro disjI2 exI [of _ "x * SECSZ + j"]) simp
  qed (simp only: d_def if_False, simp)
  moreover have "write_at ?o (take k bs) st = st\<lparr>dev := d\<rparr>" by (simp only: write_at_def d_def)
  ultimately show "pass_change p x st (write_at ?o (take k bs) st)" unfolding pass_change_def by blast
  fix b assume "x * SECSZ \<le> b" "b < x * SECSZ + SECSZ * cnt"
  then show "synced (write_at ?o bs st) p b" using bs
    by (simp add: synced_def write_at_def byte_pos_def)
qed

lemma pass_change_trans:
  assumes "pass_change p x st st1" "pass_change p y st1 st2" "x \<le> y"
  shows "pass_change p x st st2"
proof -
  obtain d1 where d1: "st1 = st\<lparr>dev := d1\<rparr>" "\<And>a. d1 a = dev st a \<or> (\<exists>b. x * SECSZ \<le> b \<and> dirty_byte st b \<and> a = byte_pos st p b \<and> d1 a = fat_byte (fat st) b)"
    using assms(1) unfolding pass_change_def by blast
  obtain d2 where d2: "st2 = st\<lparr>dev := d2\<rparr>" "\<And>a. d2 a = d1 a \<or> (\<exists>b. y * SECSZ \<le> b \<and> dirty_byte st b \<and> a = byte_pos st p b \<and> d2 a = fat_byte (fat st) b)"
    using assms(2) unfolding pass_change_def d1(1) by (auto simp: dirty_byte_def byte_pos_def)
  have "d2 a = dev st a \<or> (\<exists>b. x * SECSZ \<le> b \<and> dirty_byte st b \<and> a = byte_pos st p b \<and> d2 a = fat_byte (fat st) b)" for a
  proof -
    have "x * SECSZ \<le> y * SECSZ" using assms(3) by simp
    then show ?thesis using d1(2) [of a] d2(2) [of a] by (metis order_trans)
  qed
  then show ?thesis using d2(1) unfolding pass_change_def by blast
qed

lemma pass_change_synced:
  assumes "pass_change p y st st'" "synced st p b"
  shows "synced st' p b"
proof -
  obtain d where d: "st' = st\<lparr>dev := d\<rparr>" "\<And>a. d a = dev st a \<or> (\<exists>b. y * SECSZ \<le> b \<and> dirty_byte st b \<and> a = byte_pos st p b \<and> d a = fat_byte (fat st) b)"
    using assms(1) unfolding pass_change_def by blast
  have "d (byte_pos st p b) = fat_byte (fat st) b" using d(2) [of "byte_pos st p b"] assms(2) by (auto simp: synced_def)
  then show ?thesis using d(1) by (simp add: synced_def byte_pos_def)
qed

lemma map_pass_ok:
  assumes "SECSZ * length (dirtymap st) \<le> 2 * length (fat st)"
  shows "\<exists>ok st'. map_pass short p x st = Some (ok, st') \<and> pass_change p x st st' \<and>
    (ok \<longrightarrow> (\<forall>b. x * SECSZ \<le> b \<and> dirty_byte st b \<longrightarrow> synced st' p b)) \<and> ((\<forall>p x. short p x = None) \<longrightarrow> ok)"
  using assms
proof (induction short p x st rule: map_pass.induct)
  case (1 short p x st)
  show ?case
  proof (cases "x < length (dirtymap st)")
    case False
    have "\<not> (x * SECSZ \<le> b \<and> dirty_byte st b)" for b
    proof
      assume b: "x * SECSZ \<le> b \<and> dirty_byte st b"
      have "length (dirtymap st) * SECSZ \<le> x * SECSZ" using False by simp
      moreover have "b < length (dirtymap st) * SECSZ" "x * SECSZ \<le> b" using b by (auto simp: dirty_byte_def mult.commute)
      ultimately show False by linarith
    qed
    moreover have "map_pass short p x st = Some (True, st)" using False by (subst map_pass.simps) simp
    moreover have "pass_change p x st st" unfolding pass_change_def by (rule exI [of _ "dev st"]) simp
    ultimately show ?thesis by blast
  next
    case x: True
    show ?thesis
    proof (cases "dirtymap st ! x")
      case False
      obtain ok st' where r: "map_pass short p (Suc x) st = Some (ok, st')" "pass_change p (Suc x) st st'"
        "ok \<longrightarrow> (\<forall>b. Suc x * SECSZ \<le> b \<and> dirty_byte st b \<longrightarrow> synced st' p b)" "(\<forall>p x. short p x = None) \<longrightarrow> ok"
        using "1.IH"(1) x False "1.prems" by blast
      have m: "map_pass short p x st = Some (ok, st')" using x False r(1) by (subst map_pass.simps) simp
      have "Suc x * SECSZ \<le> b" if "x * SECSZ \<le> b" "dirty_byte st b" for b
      proof -
        have "b div SECSZ \<noteq> x" using that(2) False by (auto simp: dirty_byte_def)
        moreover have "x \<le> b div SECSZ" using that(1) by (simp add: SECSZ_def less_eq_div_iff_mult_less_eq)
        ultimately have "Suc x \<le> b div SECSZ" by simp
        then show ?thesis by (simp add: SECSZ_def less_eq_div_iff_mult_less_eq)
      qed
      moreover have "pass_change p x st st" unfolding pass_change_def by (rule exI [of _ "dev st"]) simp
      then have "pass_change p x st st'" using pass_change_trans r(2) by (metis le_SucI order_refl)
      ultimately show ?thesis using m r(3,4) by blast
    next
      case True
      define cnt where "cnt = length (takeWhile id (drop x (dirtymap st)))"
      define bs where "bs = map (fat_byte (fat st)) [x * SECSZ..<x * SECSZ + SECSZ * cnt]"
      let ?o = "SECSZ + x * SECSZ + p * fatlen st"
      have o: "byte_pos st p (x * SECSZ) = ?o" by (simp add: byte_pos_def)
      note W = pass_change_write(1) [OF x cnt_def bs_def, where p = p, unfolded o] pass_change_write(2) [OF x cnt_def bs_def, where p = p, unfolded o]
      have "x + cnt \<le> length (dirtymap st)" using x length_takeWhile_le [of id "drop x (dirtymap st)"] by (simp add: cnt_def)
      then have "x * SECSZ + SECSZ * cnt \<le> SECSZ * length (dirtymap st)"
        by (metis add_mult_distrib2 mult.commute mult_le_mono2)
      then have g: "\<not> 2 * length (fat st) < x * SECSZ + SECSZ * cnt" using "1.prems" by simp
      show ?thesis
      proof (cases "short p x")
        case (Some k)
        have "map_pass short p x st = Some (False, write_at ?o (take k bs) st)"
          using x True g Some by (subst map_pass.simps) (simp add: Let_def cnt_def bs_def)
        moreover have "\<not> (\<forall>p x. short p x = None)" using Some by (metis option.distinct(1))
        ultimately show ?thesis using W(1) [of k] by blast
      next
        case None
        let ?s = "write_at ?o bs st"
        have m: "map_pass short p x st = map_pass short p (x + cnt) ?s"
          using x True g None by (subst map_pass.simps) (simp add: Let_def cnt_def bs_def)
        have f: "dirtymap ?s = dirtymap st" "fat ?s = fat st" by (simp_all add: write_at_def)
        obtain ok st' where r: "map_pass short p (x + cnt) ?s = Some (ok, st')" "pass_change p (x + cnt) ?s st'"
          "ok \<longrightarrow> (\<forall>b. (x + cnt) * SECSZ \<le> b \<and> dirty_byte ?s b \<longrightarrow> synced st' p b)" "(\<forall>p x. short p x = None) \<longrightarrow> ok"
          using "1.IH"(2) [OF _ _ cnt_def bs_def refl g None] x True "1.prems" f by auto
        have w: "pass_change p x st ?s" using W(1) [of "length bs"] by simp
        have "synced st' p b" if ok "x * SECSZ \<le> b" "dirty_byte st b" for b
        proof (cases "b < x * SECSZ + SECSZ * cnt")
          case True
          then show ?thesis using W(2) [of b] that(2) pass_change_synced [OF r(2)] by blast
        next
          case False
          then have "(x + cnt) * SECSZ \<le> b" by (simp add: algebra_simps)
          then show ?thesis using r(3) that f by (simp add: dirty_byte_def)
        qed
        moreover have "map_pass short p x st = Some (ok, st')" using m r(1) by simp
        moreover have "pass_change p x st st'" using pass_change_trans [OF w r(2)] by simp
        ultimately show ?thesis using r(4) by blast
      qed
    qed
  qed
qed

lemma disk_ok_step:
  assumes d: "disk_ok st" and t: "table_step st xs st'"
  shows "disk_ok (st'\<lparr>fat_dirty := True\<rparr>)"
proof -
  obtain ft dm where s: "st' = st\<lparr>fat := ft, dirtymap := dm\<rparr>" "length ft = length (fat st)" "length dm = length (dirtymap st)"
    "\<And>x. x < length dm \<Longrightarrow> dirtymap st ! x \<Longrightarrow> dm ! x" "\<And>y. y < length ft \<Longrightarrow> ft ! y \<noteq> fat st ! y \<Longrightarrow> DIRTY y < length dm \<and> dm ! DIRTY y"
    using t unfolding table_step_def by blast
  let ?s = "st'\<lparr>fat_dirty := True\<rparr>"
  have "dirty_byte ?s b \<or> synced ?s 0 b \<and> synced ?s 1 b" if b: "b < fatlen st" for b
  proof (cases "ft ! (b div 2) = fat st ! (b div 2)")
    case True
    have "dirty_byte ?s b" if "dirty_byte st b"
      using that s(1,3,4) by (auto simp: dirty_byte_def div_less_iff_less_mult SECSZ_def mult.commute)
    moreover have "synced ?s p b = synced st p b" for p using True s(1) by (simp add: synced_def fat_byte_def byte_pos_def)
    ultimately show ?thesis using d b unfolding disk_ok_def by blast
  next
    case False
    have "b div 2 < length ft" using b d s(2) unfolding disk_ok_def by linarith
    then have c: "DIRTY (b div 2) < length dm" "dm ! DIRTY (b div 2)" using s(5) False by blast+
    have "2 * (b div 2) div (2 * 256) = b div 2 div 256" by (rule div_mult_mult1) simp
    also have "\<dots> = b div (2 * 256)" by (simp only: div_mult2_eq)
    finally have e: "b div SECSZ = DIRTY (b div 2)" by (simp add: DIRTY_def SECSZ_def mult.commute)
    have "b < SECSZ * length dm" using c(1) unfolding e [symmetric] by (simp add: SECSZ_def div_less_iff_less_mult mult.commute)
    then show ?thesis using c e s(1) by (simp add: dirty_byte_def)
  qed
  then show ?thesis using d s(1-3) unfolding disk_ok_def by simp
qed

lemma same_disk_refl [simp]: "same_disk st st"
  by (simp add: same_disk_def)

lemma same_disk_trans: "same_disk a b \<Longrightarrow> same_disk b c \<Longrightarrow> same_disk a c"
  by (simp add: same_disk_def)

lemma table_step_same: "table_step st xs st' \<Longrightarrow> same_disk st (st'\<lparr>fat_dirty := True\<rparr>)"
  by (auto simp: table_step_def same_disk_def)

lemma pass_change_same: "pass_change p x st st' \<Longrightarrow> same_disk st st'"
  by (auto simp: pass_change_def same_disk_def)

lemma pass_change_fields:
  "pass_change p x st st' \<Longrightarrow> fat st' = fat st \<and> dirtymap st' = dirtymap st \<and> fatlen st' = fatlen st \<and> nclust st' = nclust st \<and>
   fat_dirty st' = fat_dirty st \<and> clsize st' = clsize st \<and> fat12 st' = fat12 st"
  by (auto simp: pass_change_def)

lemma pass_change_other:
  assumes c: "pass_change p x st st'" and d: "SECSZ * length (dirtymap st) \<le> fatlen st" and b: "b < fatlen st" and p: "p \<noteq> q"
  shows "dev st' (byte_pos st q b) = dev st (byte_pos st q b)"
proof -
  obtain d' where e: "st' = st\<lparr>dev := d'\<rparr>" "\<And>a. d' a = dev st a \<or> (\<exists>b. x * SECSZ \<le> b \<and> dirty_byte st b \<and> a = byte_pos st p b \<and> d' a = fat_byte (fat st) b)"
    using c unfolding pass_change_def by blast
  have "byte_pos st q b \<noteq> byte_pos st p c" if "dirty_byte st c" for c
  proof
    assume "byte_pos st q b = byte_pos st p c"
    then have eq: "q * fatlen st + b = p * fatlen st + c" by (simp add: byte_pos_def)
    have c: "c < fatlen st" using that d by (simp add: dirty_byte_def)
    have "(q * fatlen st + b) div fatlen st = q" "(p * fatlen st + c) div fatlen st = p" using b c by simp_all
    then show False using eq p by simp
  qed
  then show ?thesis using e(1) e(2) [of "byte_pos st q b"] by auto
qed

lemma fat_sync_ok:
  assumes d: "disk_ok st"
  shows "\<exists>ok st'. fat_sync short st = Some (ok, st') \<and> fat st' = fat st \<and> same_disk st st' \<and>
    (if ok then disk_ok st' \<and> \<not> fat_dirty st' \<and> (\<forall>b < fatlen st. synced st' 0 b \<and> synced st' 1 b)
     else (\<forall>b < fatlen st. synced st' 0 b) \<or> (\<forall>b < fatlen st. dev st' (byte_pos st 1 b) = dev st (byte_pos st 1 b))) \<and>
    ((\<forall>p x. short p x = None) \<longrightarrow> ok)"
proof (cases "fat_dirty st")
  case False
  then have "\<not> dirty_byte st b" for b using d by (auto simp: disk_ok_def dirty_byte_def SECSZ_def in_set_conv_nth div_less_iff_less_mult mult.commute)
  then show ?thesis using False d by (intro exI [of _ True] exI [of _ st]) (simp add: fat_sync_def disk_ok_def)
next
  case True
  have n12: "fat12 st = None" using d by (simp add: disk_ok_def)
  have l: "SECSZ * length (dirtymap st) \<le> 2 * length (fat st)" "SECSZ * length (dirtymap st) \<le> fatlen st" using d by (simp_all add: disk_ok_def)
  obtain ok1 st1 where r1: "map_pass short 0 0 st = Some (ok1, st1)" "pass_change 0 0 st st1"
    "ok1 \<longrightarrow> (\<forall>b. dirty_byte st b \<longrightarrow> synced st1 0 b)" "(\<forall>p x. short p x = None) \<longrightarrow> ok1"
    using map_pass_ok [OF l(1), of short 0 0] by auto
  note f1 = pass_change_fields [OF r1(2)]
  have o1: "dev st1 (byte_pos st 1 b) = dev st (byte_pos st 1 b)" if "b < fatlen st" for b
    using pass_change_other [OF r1(2) l(2) that] by simp
  show ?thesis
  proof (cases ok1)
    case False
    then have "fat_sync short st = Some (False, st1)" using True r1(1) by (simp add: fat_sync_def map_write_def n12)
    then show ?thesis using f1 o1 r1(4) False pass_change_same [OF r1(2)] by auto
  next
    case ok1: True
    have s1: "synced st1 0 b" if "b < fatlen st" for b
      using d that r1(3) ok1 pass_change_synced [OF r1(2)] by (auto simp: disk_ok_def)
    obtain ok2 st2 where r2: "map_pass short 1 0 st1 = Some (ok2, st2)" "pass_change 1 0 st1 st2"
      "ok2 \<longrightarrow> (\<forall>b. dirty_byte st1 b \<longrightarrow> synced st2 1 b)" "(\<forall>p x. short p x = None) \<longrightarrow> ok2"
      using map_pass_ok [of st1 short 1 0] l(1) f1 by auto
    note f2 = pass_change_fields [OF r2(2)]
    have sd: "same_disk st st2" using same_disk_trans pass_change_same [OF r1(2)] pass_change_same [OF r2(2)] by blast
    have s0: "synced st2 0 b" if b: "b < fatlen st" for b
      using s1 [OF b] pass_change_other [OF r2(2), of b 0] l(2) b f1 f2 by (simp add: synced_def byte_pos_def)
    show ?thesis
    proof (cases ok2)
      case False
      then have "fat_sync short st = Some (False, st2)" using True r1(1) ok1 r2(1) by (simp add: fat_sync_def map_write_def n12)
      then show ?thesis using f1 f2 s0 r2(4) False sd by auto
    next
      case ok2: True
      have db: "dirty_byte st1 b = dirty_byte st b" for b using f1 by (simp add: dirty_byte_def)
      have s2: "synced st2 1 b" if b: "b < fatlen st" for b
      proof (cases "dirty_byte st b")
        case False
        then have "synced st 1 b" using d b by (auto simp: disk_ok_def)
        then have "synced st1 1 b" using o1 [OF b] f1 by (simp add: synced_def byte_pos_def)
        then show ?thesis by (rule pass_change_synced [OF r2(2)])
      qed (use r2(3) ok2 db in blast)
      let ?s = "st2\<lparr>dirtymap := replicate (length (dirtymap st2)) False, fat_dirty := False\<rparr>"
      have r: "fat_sync short st = Some (True, ?s)" using True r1(1) ok1 r2(1) ok2 by (simp add: fat_sync_def map_write_def n12)
      have "\<not> fat_dirty ?s" by simp
      have y: "synced ?s p b = synced st2 p b" for p b by (simp add: synced_def byte_pos_def)
      have "disk_ok ?s" using d s0 s2 f1 f2 y by (simp add: disk_ok_def)
      moreover have "same_disk st ?s" using sd by (simp add: same_disk_def)
      ultimately show ?thesis using r f1 f2 y s0 s2 by auto
    qed
  qed
qed

section \<open>Histories\<close>

lemma setlen_ok:
  assumes f: "files_ok st fs" and i: "i < length fs" and c: "clusters c = fs ! i" "c_nclust c \<le> length (c_clust c)"
    and k: "k = clusters_for len (clsize st)"
  shows "\<exists>r c' st'. clust_setlen mem c len st = Some (r, c', st') \<and>
    files_ok st' (fs[i := clusters c']) \<and> c_nclust c' \<le> length (c_clust c') \<and>
    r = (if k \<le> c_nclust c \<or> mem \<and> k - c_nclust c \<le> card (free_set st) then 0 else 1) \<and>
    (if r = 0 then c_nclust c' = k \<and> take k (fs ! i) = take (c_nclust c) (clusters c') \<and>
        card (free_set st') + k = card (free_set st) + c_nclust c
      else st' = st \<and> clusters c' = clusters c) \<and>
    (disk_ok st \<longrightarrow> disk_ok st') \<and> same_disk st st'"
proof -
  let ?n = "c_nclust c" and ?l = "clusters c"
  define as where "as = take i fs"
  define bs where "bs = drop (Suc i) fs"
  have fs: "fs = as @ ?l # bs" using i c(1) by (simp add: as_def bs_def id_take_nth_drop)
  have fi: "fs ! i = ?l" using c(1) by simp
  have rep: "fs[i := l'] = as @ l' # bs" for l' using i by (simp add: as_def bs_def upd_conv_take_nth_drop)
  have ln: "length ?l = ?n" using c(2) by (simp add: clusters_def)
  have old: "take ?n (c_clust c) = ?l" by (simp add: clusters_def)
  have f': "files_ok st (as @ ?l # bs)" using f fs by simp
  consider (same) "k = ?n" | (less) "k < ?n" | (nomem) "?n < k" "\<not> mem" | (grow) "?n < k" "mem" by linarith
  then show ?thesis
  proof cases
    case same
    have "clust_setlen mem c len st = Some (0, c, st)" using same k by (simp add: clust_setlen_def Let_def)
    moreover have "fs[i := ?l] = fs" using rep fs by simp
    ultimately show ?thesis using same f c(2) fi ln by (intro exI [of _ 0] exI [of _ c] exI [of _ st]) simp
  next
    case less
    obtain st1 st2 where s: "free_clusters (drop k ?l) st = Some st1"
      "(if 0 < k then set_fat (?l ! (k - 1)) FAT_EOF st1 else Some st1) = Some st2"
      "files_ok st2 (as @ take k ?l # bs)" "nclust st2 = nclust st" "card (free_set st2) = card (free_set st) + (length ?l - k)"
      "\<exists>xs. table_step st xs st2"
      using shrink_ok [OF f', of k] less ln by auto
    let ?c = "c\<lparr>c_nclust := k\<rparr>" and ?s = "st2\<lparr>fat_dirty := True\<rparr>"
    have r: "clust_setlen mem c len st = Some (0, ?c, ?s)"
      using s(1,2) less k old by (cases "0 < k") (simp_all add: clust_setlen_def Let_def)
    have cl: "clusters ?c = take k ?l" using less by (simp add: clusters_def min_def)
    have fo: "files_ok ?s (fs[i := clusters ?c])" using s(3) cl rep by (simp add: files_ok_def fat_ok_def)
    have "free_set ?s = free_set st2" by (simp add: free_set_def)
    then have fr: "card (free_set ?s) + k = card (free_set st) + ?n" using s(5) less ln by simp
    have tk: "take k (fs ! i) = take ?n (clusters ?c)" using fi cl less by simp
    have "disk_ok st \<longrightarrow> disk_ok ?s" "same_disk st ?s" using s(6) disk_ok_step table_step_same by blast+
    then show ?thesis using r fo tk fr less c(2) by (intro exI [of _ 0] exI [of _ ?c] exI [of _ ?s]) simp
  next
    case nomem
    have "clust_setlen mem c len st = Some (1, c, st)" using nomem k by (simp add: clust_setlen_def Let_def)
    moreover have "fs[i := ?l] = fs" using rep fs by simp
    ultimately show ?thesis using nomem f c(2) by (intro exI [of _ 1] exI [of _ c] exI [of _ st]) simp
  next
    case grow
    have fo: "fat_ok st" using f by (simp add: files_ok_def)
    have set0: "{i. (0 :: nat) \<le> i \<and> i < nclust st \<and> fat st ! i = 0} = free_set st" by (auto simp: free_set_def)
    obtain zs ok where z: "pick_clusters (fat st) (nclust st) (k - ?n) 0 = Some (zs, ok)" "distinct zs"
      "\<forall>z \<in> set zs. 2 \<le> unat z \<and> unat z < nclust st \<and> fat st ! unat z = 0"
      "if ok then length zs = k - ?n else card (free_set st) < k - ?n"
      using pick_clusters_ok [of "nclust st" "fat st" "k - ?n" 0] fo unfolding fat_ok_def set0 by auto
    let ?c = "c\<lparr>c_clust := ?l @ zs\<rparr>"
    show ?thesis
    proof (cases ok)
      case False
      have "clust_setlen mem c len st = Some (1, ?c, st)" using z(1) False grow k old by (simp add: clust_setlen_def Let_def)
      moreover have "clusters ?c = ?l" using ln by (simp add: clusters_def)
      moreover have "fs[i := ?l] = fs" using rep fs by simp
      moreover have "\<not> (k \<le> ?n \<or> mem \<and> k - ?n \<le> card (free_set st))" using False z(4) grow by simp
      ultimately show ?thesis using f ln by (intro exI [of _ 1] exI [of _ ?c] exI [of _ st]) simp
    next
      case True
      then have lz: "length zs = k - ?n" "zs \<noteq> []" using z(4) grow by auto
      obtain st1 where s: "link_chain ((if ?l \<noteq> [] then [last ?l] else []) @ zs) st = Some st1"
        "files_ok st1 (as @ (?l @ zs) # bs)" "nclust st1 = nclust st" "card (free_set st1) + length zs = card (free_set st)"
        "\<exists>xs. table_step st xs st1"
        using grow_ok [OF f' z(2) lz(2) z(3)] by auto
      let ?d = "?c\<lparr>c_nclust := k\<rparr>" and ?s = "st1\<lparr>fat_dirty := True\<rparr>"
      have h: "link_chain ((if 0 < ?n then [last ?l] else []) @ zs) st = Some st1" using s(1) ln by (cases "?l = []") auto
      have r: "clust_setlen mem c len st = Some (0, ?d, ?s)"
        using z(1) True grow k old h by (cases "0 < ?n") (simp_all add: clust_setlen_def Let_def)
      have cl: "clusters ?d = ?l @ zs" using ln lz grow by (simp add: clusters_def)
      have fo': "files_ok ?s (fs[i := clusters ?d])" using s(2) cl rep by (simp add: files_ok_def fat_ok_def)
      have "free_set ?s = free_set st1" by (simp add: free_set_def)
      then have fr: "card (free_set ?s) + k = card (free_set st) + ?n" using s(4) lz grow by simp
      have tk: "take k (fs ! i) = take ?n (clusters ?d)" using fi cl ln grow by simp
      have en: "k \<le> ?n \<or> mem \<and> k - ?n \<le> card (free_set st)" using grow lz(1) s(4) by simp
      have "disk_ok st \<longrightarrow> disk_ok ?s" "same_disk st ?s" using s(5) disk_ok_step table_step_same by blast+
      moreover have "c_nclust ?d \<le> length (c_clust ?d)" using ln lz grow by simp
      ultimately show ?thesis using r fo' tk fr en by (intro exI [of _ 0] exI [of _ ?d] exI [of _ ?s]) simp
    qed
  qed
qed

text \<open>A chain read along the table is the list of its clusters.\<close>

lemma clust_walk_chained:
  assumes "chained ft l" "l \<noteq> []" "\<forall>x \<in> set l. 2 \<le> unat x \<and> unat x < m" "m \<le> length ft" "m \<le> 65520"
  shows "clust_walk ft (hd l) = Some l"
  using assms
proof (induction ft l rule: chained.induct)
  case (2 ft x)
  then have "unat x < length ft" by simp
  then show ?case using 2 by (subst clust_walk.simps) auto
next
  case (3 ft x y zs)
  then have "unat x < length ft" "\<not> x < 2" by (auto simp: word_less_nat_alt)
  moreover have "y < FAT_RESERVED" using 3 by (auto simp: word_less_nat_alt FAT_RESERVED_def)
  moreover have "clust_walk ft y = Some (y # zs)" using 3 by simp
  ultimately show ?case using "3.prems"(1) by (subst clust_walk.simps) simp
qed simp

lemma word_of_bytes: "ucast (ucast w :: u8) OR push_bit 8 (ucast (ucast (drop_bit 8 w) :: u8)) = (w :: u16)"
  by (rule bit_word_eqI) (auto simp: bit_or_iff bit_push_bit_iff bit_ucast_iff bit_drop_bit_eq)

lemma fat_read_synced:
  assumes "fatlen st = 2 * length (fat st)" "\<forall>b < fatlen st. synced st 0 b"
  shows "fat_read (dev st) (fatlen st) = fat st"
proof (rule nth_equalityI)
  show "length (fat_read (dev st) (fatlen st)) = length (fat st)" using assms(1) by (simp add: fat_read_def)
  fix i assume "i < length (fat_read (dev st) (fatlen st))"
  then have i: "i < length (fat st)" using assms(1) by (simp add: fat_read_def)
  have b: "dev st (SECSZ + j) = fat_byte (fat st) j" if "j < fatlen st" for j
    using assms(2) that by (simp add: synced_def byte_pos_def)
  have "dev st (SECSZ + 2 * i) = ucast (fat st ! i)" "dev st (SECSZ + (2 * i + 1)) = ucast (drop_bit 8 (fat st ! i))"
    using b [of "2 * i"] b [of "2 * i + 1"] i assms(1) by (simp_all add: fat_byte_def)
  then show "fat_read (dev st) (fatlen st) ! i = fat st ! i" using i assms(1) word_of_bytes by (simp add: fat_read_def)
qed

text \<open>The numbers that the boot sector gives for a 16-bit table.\<close>

definition geometry :: "boot \<Rightarrow> fatfs \<Rightarrow> bool" where
  "geometry b st = (two_bytes (secsize0 b) (secsize1 b) = of_nat SECSZ \<and> boot_clsize b \<noteq> 0 \<and> 4086 \<le> boot_nclust b \<and>
     nclust st = unat (boot_nclust b) \<and> clsize st = boot_clsize b \<and> fatlen st = boot_fatlen b \<and> fat12 st = None \<and>
     data0 st = boot_data0 b \<and> dirents st = boot_dirents b \<and> length (dirtymap st) = boot_dirtymap b)"

lemma geometry_same: "geometry b st \<Longrightarrow> same_disk st st' \<Longrightarrow> geometry b st'"
  by (simp add: geometry_def same_disk_def)

lemma fat_init_synced:
  assumes g: "geometry b st" and f: "fatlen st = 2 * length (fat st)" "\<forall>b < fatlen st. synced st 0 b"
    and c: "dirtymap st = replicate (length (dirtymap st)) False" "\<not> fat_dirty st"
  shows "fat_init True True junk b (dev st) = Some st"
proof -
  have l: "length (fat_read (dev st) (boot_fatlen b)) = boot_fatlen b div 2" by (simp add: fat_read_def)
  have e: "map (\<lambda>i. if i < n then es ! i else junk i) [0..<n] = es" if "length es = n" for es n
    using that by (auto intro: nth_equalityI)
  have r: "fat_read (dev st) (boot_fatlen b) = fat st" using fat_read_synced [OF f] g by (simp add: geometry_def)
  have "\<not> boot_nclust b < 4086" using g by (simp add: geometry_def linorder_not_less)
  then show ?thesis using g c r e [OF l] l unfolding geometry_def fat_init_def by (simp add: Let_def)
qed

datatype fat_op = Setlen nat bool u32 | Sync

fun fat_run :: "fat_op list \<Rightarrow> clust list \<Rightarrow> fatfs \<Rightarrow> (clust list \<times> fatfs) option" where
  "fat_run [] cs st = Some (cs, st)"
| "fat_run (Setlen i mem len # ops) cs st =
     (if i < length cs then do {
        (r, c, st1) \<leftarrow> clust_setlen mem (cs ! i) len st;
        fat_run ops (cs[i := c]) st1
      } else None)"
| "fat_run (Sync # ops) cs st = do {
     (ok, st1) \<leftarrow> fat_sync (\<lambda>_ _. None) st;
     if ok then fat_run ops cs st1 else None
   }"

definition in_range :: "nat \<Rightarrow> fat_op \<Rightarrow> bool" where
  "in_range n opn = (case opn of Setlen i _ _ \<Rightarrow> i < n | Sync \<Rightarrow> True)"

lemma fat_run_ok:
  assumes "files_ok st (map clusters cs)" "\<forall>c \<in> set cs. c_nclust c \<le> length (c_clust c)" "disk_ok st"
    "list_all (in_range (length cs)) ops"
  shows "\<exists>cs' st'. fat_run ops cs st = Some (cs', st') \<and> length cs' = length cs \<and> files_ok st' (map clusters cs') \<and>
    (\<forall>c \<in> set cs'. c_nclust c \<le> length (c_clust c)) \<and> disk_ok st' \<and> same_disk st st'"
  using assms
proof (induction ops arbitrary: cs st)
  case (Cons a ops)
  show ?case
  proof (cases a)
    case (Setlen i mem len)
    then have i: "i < length cs" using Cons.prems(4) by (simp add: in_range_def)
    obtain r c' st1 where r: "clust_setlen mem (cs ! i) len st = Some (r, c', st1)"
      "files_ok st1 ((map clusters cs)[i := clusters c'])" "c_nclust c' \<le> length (c_clust c')" "disk_ok st1" "same_disk st st1"
      using setlen_ok [OF Cons.prems(1), of i "cs ! i" _ len mem] i Cons.prems(2,3) by auto
    have "files_ok st1 (map clusters (cs[i := c']))" using r(2) by (simp add: map_update)
    moreover have "\<forall>c \<in> set (cs[i := c']). c_nclust c \<le> length (c_clust c)"
      using Cons.prems(2) r(3) set_update_subset_insert [of cs i c'] by auto
    moreover have "list_all (in_range (length (cs[i := c']))) ops" using Cons.prems(4) by simp
    ultimately obtain cs2 st2 where s: "fat_run ops (cs[i := c']) st1 = Some (cs2, st2)" "length cs2 = length (cs[i := c'])"
      "files_ok st2 (map clusters cs2)" "\<forall>c \<in> set cs2. c_nclust c \<le> length (c_clust c)" "disk_ok st2" "same_disk st1 st2"
      using Cons.IH [OF _ _ r(4)] by blast
    then show ?thesis using Setlen i r(1) same_disk_trans [OF r(5)] by simp
  next
    case Sync
    obtain ok st1 where r: "fat_sync (\<lambda>_ _. None) st = Some (ok, st1)" "fat st1 = fat st" "same_disk st st1" "if ok then disk_ok st1 else True" ok
      using fat_sync_ok [OF Cons.prems(3), of "\<lambda>_ _. None"] by auto
    have "files_ok st1 (map clusters cs)" using Cons.prems(1) r(2,3) by (simp add: files_ok_def fat_ok_def same_disk_def)
    then obtain cs2 st2 where "fat_run ops cs st1 = Some (cs2, st2)" "length cs2 = length cs"
      "files_ok st2 (map clusters cs2)" "\<forall>c \<in> set cs2. c_nclust c \<le> length (c_clust c)" "disk_ok st2" "same_disk st1 st2"
      using Cons.IH [of st1 cs] Cons.prems(2,4) r(4,5) by auto
    then show ?thesis using Sync r(1,5) same_disk_trans [OF r(3)] by simp
  qed
qed simp

text \<open>
  C13. The clusters of every file, in every history: setting the length of a file keeps all chains
  of the disk intact and apart, never runs off the table, gives exactly the number of clusters that
  the length needs and keeps those that the file had, takes them from the free ones and gives them
  back, and fails only without storage or when there are not enough, and then changes nothing.
\<close>

theorem fat_files:
  assumes f: "files_ok st fs" and i: "i < length fs" and c: "clusters c = fs ! i" "c_nclust c \<le> length (c_clust c)"
    and k: "k = clusters_for len (clsize st)"
  shows "\<exists>r c' st'. clust_setlen mem c len st = Some (r, c', st') \<and>
    files_ok st' (fs[i := clusters c']) \<and> c_nclust c' \<le> length (c_clust c') \<and>
    r = (if k \<le> c_nclust c \<or> mem \<and> k - c_nclust c \<le> card (free_set st) then 0 else 1) \<and>
    (if r = 0 then c_nclust c' = k \<and> take k (fs ! i) = take (c_nclust c) (clusters c') \<and>
        card (free_set st') + k = card (free_set st) + c_nclust c
      else st' = st \<and> clusters c' = clusters c)"
  using setlen_ok [OF f i c k, of mem] by blast

text \<open>A disk of 4096 clusters with a file of two clusters and an empty one.\<close>

definition demo_free :: nat where "demo_free = 4092"

definition demo_boot :: boot where
  "demo_boot = \<lparr>secsize0 = 0, secsize1 = 2, bb_clsize = 1, nrsvsect = 1, nfat = 2, dirents0 = 0, dirents1 = 2,
     psect0 = 0, psect1 = 16, bb_fatlen = 16, bigsect = 0\<rparr>"

definition demo_table :: "u16 list" where
  "demo_table = [0xFFF8, 0xFFFF, 3, 0xFFF8] @ replicate demo_free 0"

definition demo_fat :: fatfs where
  "demo_fat = \<lparr>fat = demo_table, dirtymap = replicate 16 False, fat_dirty = False, nclust = 4096, clsize = 512, fatlen = 8192,
     fat12 = None, data0 = 33280, dirents = 512, dev = (\<lambda>a. fat_byte demo_table ((a - 512) mod 8192))\<rparr>"

definition demo_clusts :: "clust list" where
  "demo_clusts = [\<lparr>c_clust = [2, 3], c_nclust = 2\<rparr>, \<lparr>c_clust = [], c_nclust = 0\<rparr>]"

lemma demo_table_facts: "length demo_table = 4096" "demo_table ! 0 = 0xFFF8" "demo_table ! 1 = 0xFFFF" "demo_table ! 2 = 3" "demo_table ! 3 = 0xFFF8"
  "4 \<le> i \<Longrightarrow> i < 4096 \<Longrightarrow> demo_table ! i = 0"
  by (simp_all add: demo_table_def demo_free_def nth_append)

lemma demo_files: "files_ok demo_fat (map clusters demo_clusts)"
  using demo_table_facts by (simp add: files_ok_def fat_ok_def demo_fat_def demo_clusts_def clusters_def SECSZ_def FAT_RESERVED_def)

lemma demo_disk: "disk_ok demo_fat"
  using demo_table_facts(1) by (simp add: disk_ok_def synced_def byte_pos_def demo_fat_def SECSZ_def)

lemma demo_geometry: "geometry demo_boot demo_fat"
  by (simp add: geometry_def demo_boot_def demo_fat_def two_bytes_def SECSZ_def boot_clsize_def boot_nclust_def boot_sectors_def
      boot_fatlen_def boot_data0_def boot_dirents_def boot_dirtymap_def clusters_for_def)

theorem fat_files_witness:
  "\<exists>c' st'. clust_setlen True (demo_clusts ! 1) 1025 demo_fat = Some (0, c', st') \<and> c_nclust c' = 3 \<and> files_ok st' [[2, 3], clusters c']"
proof -
  have f: "files_ok demo_fat [[2, 3], []]" using demo_files by (simp add: demo_clusts_def clusters_def)
  have k: "3 = clusters_for 1025 (clsize demo_fat)" by (simp add: clusters_for_def demo_fat_def)
  have "{4, 5, 6} \<subseteq> free_set demo_fat" using demo_table_facts by (auto simp: free_set_def demo_fat_def)
  then have "card {4, 5, 6 :: nat} \<le> card (free_set demo_fat)" by (rule card_mono [rotated]) (simp add: free_set_def)
  then have e: "3 \<le> card (free_set demo_fat)" by simp
  show ?thesis using fat_files [OF f, of 1 "demo_clusts ! 1" 3 1025 True] k e by (auto simp: demo_clusts_def clusters_def)
qed

text \<open>
  C14. Writing a 16-bit table (\<open>disk_ok\<close> asks for no buffer of a 12-bit one; for that see
  \<open>fat12_overflow\<close>) ends, with the table in core unchanged.  When the server does not have to
  give up, both copies on the disk equal the table and nothing is dirty any more; when a write fails
  and it gives up, either the first copy is complete or the second is as it was before.
\<close>

theorem fat_sync_copies:
  assumes "disk_ok st"
  shows "\<exists>ok st'. fat_sync short st = Some (ok, st') \<and> fat st' = fat st \<and>
    (if ok then disk_ok st' \<and> \<not> fat_dirty st' \<and> (\<forall>b < fatlen st. synced st' 0 b \<and> synced st' 1 b)
     else (\<forall>b < fatlen st. synced st' 0 b) \<or> (\<forall>b < fatlen st. dev st' (byte_pos st 1 b) = dev st (byte_pos st 1 b))) \<and>
    ((\<forall>p x. short p x = None) \<longrightarrow> ok)"
  using fat_sync_ok [OF assms, of short] by blast

theorem fat_sync_copies_witness:
  "\<exists>st st'. set_fat 5 0xFFF8 demo_fat = Some st \<and> fat_sync (\<lambda>_ _. None) (st\<lparr>fat_dirty := True\<rparr>) = Some (True, st') \<and> synced st' 1 11"
proof -
  have f: "fat_ok demo_fat" using demo_files by (simp add: files_ok_def)
  have "unat (5 :: u16) < nclust demo_fat" by (simp add: demo_fat_def)
  then obtain st where s: "set_fat 5 0xFFF8 demo_fat = Some st" "table_step demo_fat [5] st"
    using set_fat_ok [OF f, of 5 "0xFFF8"] by blast
  have d: "disk_ok (st\<lparr>fat_dirty := True\<rparr>)" by (rule disk_ok_step [OF demo_disk s(2)])
  have l: "fatlen st = 8192" using s(2) by (auto simp: table_step_def demo_fat_def)
  from fat_sync_copies [OF d, of "\<lambda>_ _. None"] show ?thesis using s(1) l by auto
qed

lemma sync_clean:
  assumes "disk_ok st" "fat_sync (\<lambda>_ _. None) st = Some (True, st')"
  shows "dirtymap st' = replicate (length (dirtymap st')) False \<and> \<not> fat_dirty st'"
proof -
  obtain ok st1 where r: "fat_sync (\<lambda>_ _. None) st = Some (ok, st1)" ok "if ok then disk_ok st1 \<and> \<not> fat_dirty st1 else True"
    using fat_sync_ok [OF assms(1), of "\<lambda>_ _. None"] by auto
  then have "disk_ok st'" "\<not> fat_dirty st'" using assms(2) by auto
  then have "\<forall>x \<in> set (dirtymap st'). x = False" by (auto simp: disk_ok_def)
  then show ?thesis using \<open>\<not> fat_dirty st'\<close> by (metis replicate_eqI)
qed

lemma fat_restart:
  assumes d: "disk_ok st" and g: "geometry b st" and f: "files_ok st fs"
  shows "\<exists>st'. fat_sync (\<lambda>_ _. None) st = Some (True, st') \<and> fat_init True True junk b (dev st') = Some st' \<and>
    files_ok st' fs \<and> disk_ok st' \<and> same_disk st st'"
proof -
  obtain ok st' where s: "fat_sync (\<lambda>_ _. None) st = Some (ok, st')" "fat st' = fat st" "same_disk st st'" ok
    "if ok then disk_ok st' \<and> (\<forall>b < fatlen st. synced st' 0 b \<and> synced st' 1 b) else True"
    using fat_sync_ok [OF d, of "\<lambda>_ _. None"] by auto
  have sy: "fat_sync (\<lambda>_ _. None) st = Some (True, st')" using s(1,4) by simp
  have g': "geometry b st'" by (rule geometry_same [OF g s(3)])
  have d': "disk_ok st'" "\<forall>b < fatlen st'. synced st' 0 b" using s(3-5) by (simp_all add: same_disk_def)
  have "fat_init True True junk b (dev st') = Some st'"
    using fat_init_synced [OF g' _ d'(2)] sync_clean [OF d sy] d'(1) by (simp add: disk_ok_def)
  moreover have "files_ok st' fs" using f s(2,3) by (simp add: files_ok_def fat_ok_def same_disk_def)
  ultimately show ?thesis using sy d'(1) s(3) by blast
qed

text \<open>The chain of a file, read from its first cluster.\<close>

lemma chain_read:
  assumes "files_ok st fs" "l \<in> set fs" "l \<noteq> []"
  shows "hd l \<noteq> 0 \<and> alloc_clust True True (hd l) st = Some (Some \<lparr>c_clust = l, c_nclust = length l\<rparr>)"
proof -
  have w: "chained (fat st) l" "\<forall>x \<in> set l. 2 \<le> unat x \<and> unat x < nclust st" "nclust st \<le> length (fat st)" "nclust st \<le> 65520"
    using assms by (auto simp: files_ok_def fat_ok_def)
  have "hd l \<noteq> 0" using w(2) assms(3) hd_in_set by fastforce
  then show ?thesis using clust_walk_chained [OF w(1) assms(3) w(2-4)] by (simp add: alloc_clust_def)
qed

text \<open>
  What is on the disk can be read back: after any history of changes and flushes and a final
  flush, a server that starts again on the same disk finds, from the first cluster that the
  directory holds, exactly the clusters of each file.
\<close>

theorem fat_remount:
  assumes "files_ok st (map clusters cs)" "\<forall>c \<in> set cs. c_nclust c \<le> length (c_clust c)" "disk_ok st"
    "geometry b st" "list_all (in_range (length cs)) ops"
  shows "\<exists>cs' st' st'' st3. fat_run ops cs st = Some (cs', st') \<and> length cs' = length cs \<and> files_ok st' (map clusters cs') \<and>
    fat_sync (\<lambda>_ _. None) st' = Some (True, st'') \<and> fat_init True True junk b (dev st'') = Some st3 \<and>
    files_ok st3 (map clusters cs') \<and> disk_ok st3 \<and>
    (\<forall>c \<in> set cs'. 0 < c_nclust c \<longrightarrow> (\<exists>x. get_clust0 c = Some x \<and>
       alloc_clust True True x st3 = Some (Some \<lparr>c_clust = clusters c, c_nclust = c_nclust c\<rparr>)))"
proof -
  obtain cs' st' where r: "fat_run ops cs st = Some (cs', st')" "length cs' = length cs" "files_ok st' (map clusters cs')"
    "\<forall>c \<in> set cs'. c_nclust c \<le> length (c_clust c)" "disk_ok st'" "same_disk st st'"
    using fat_run_ok [OF assms(1-3,5)] by blast
  obtain st'' where s: "fat_sync (\<lambda>_ _. None) st' = Some (True, st'')" "fat_init True True junk b (dev st'') = Some st''"
    "files_ok st'' (map clusters cs')" "disk_ok st''"
    using fat_restart [OF r(5) geometry_same [OF assms(4) r(6)] r(3)] by blast
  have "\<exists>x. get_clust0 c = Some x \<and> alloc_clust True True x st'' = Some (Some \<lparr>c_clust = clusters c, c_nclust = c_nclust c\<rparr>)"
    if c: "c \<in> set cs'" "0 < c_nclust c" for c
  proof -
    have l: "length (clusters c) = c_nclust c" "clusters c \<noteq> []" using c r(4) by (auto simp: clusters_def)
    then have "c_clust c \<noteq> []" by (auto simp: clusters_def)
    then have "get_clust0 c = Some (hd (clusters c))" using c(2) by (simp add: get_clust0_def clusters_def hd_conv_nth)
    then show ?thesis using chain_read [OF s(3), of "clusters c"] c(1) l by simp
  qed
  then show ?thesis using r(1-3) s by blast
qed

theorem fat_remount_witness:
  "\<exists>cs' st' st'' st3. fat_run [Setlen 1 True 1025, Sync, Setlen 0 True 100] demo_clusts demo_fat = Some (cs', st') \<and>
     fat_sync (\<lambda>_ _. None) st' = Some (True, st'') \<and> fat_init True True (\<lambda>_. 0) demo_boot (dev st'') = Some st3 \<and>
     files_ok st3 (map clusters cs') \<and> length cs' = 2"
  using fat_remount [OF demo_files _ demo_disk demo_geometry, of "[Setlen 1 True 1025, Sync, Setlen 0 True 100]" "\<lambda>_. 0"]
  by (fastforce simp: demo_clusts_def in_range_def)

section \<open>Where the code goes wrong\<close>

lemma free_clusters_same: "free_clusters ys st = Some st' \<Longrightarrow> same_disk st st'"
proof (induction ys arbitrary: st)
  case (Cons y ys)
  then obtain st1 where s: "set_fat y 0 st = Some st1" "free_clusters ys st1 = Some st'" by (auto split: Option.bind_splits)
  then have "same_disk st st1" by (auto simp: set_fat_def same_disk_def split: if_splits)
  then show ?case using Cons.IH [OF s(2)] same_disk_trans by blast
qed simp

lemma set_fat_same: "set_fat y v st = Some st' \<Longrightarrow> same_disk st st'"
  by (auto simp: set_fat_def same_disk_def split: if_splits)

lemma link_chain_same: "link_chain xs st = Some st' \<Longrightarrow> same_disk st st'"
proof (induction xs st rule: link_chain.induct)
  case (3 x y zs st)
  then obtain st1 where s: "set_fat x y st = Some st1" "link_chain (y # zs) st1 = Some st'" by (auto split: Option.bind_splits)
  then show ?case using "3.IH" [OF s] set_fat_same [OF s(1)] same_disk_trans by blast
qed (auto dest: set_fat_same)

lemma same_disk_dirty: "same_disk st st' \<Longrightarrow> same_disk st (st'\<lparr>fat_dirty := d\<rparr>)"
  by (simp add: same_disk_def)

lemma clust_setlen_same:
  assumes r: "clust_setlen mem c len st = Some (r, c', st')"
  shows "same_disk st st' \<and> (st' = st \<or> fat_dirty st')"
proof -
  let ?k = "clusters_for len (clsize st)" and ?n = "c_nclust c" and ?old = "take (c_nclust c) (c_clust c)"
  consider (same) "?n = ?k" | (less) "?k < ?n" | (grow) "?n < ?k" by linarith
  then show ?thesis
  proof cases
    case less
    then obtain st1 st2 where s: "free_clusters (drop ?k ?old) st = Some st1"
      "(if 0 < ?k then set_fat (?old ! (?k - 1)) FAT_EOF st1 else Some st1) = Some st2" "st' = st2\<lparr>fat_dirty := True\<rparr>"
      using r unfolding clust_setlen_def Let_def by (simp split: Option.bind_splits)
    have "same_disk st1 st2" using s(2) set_fat_same by (auto split: if_splits)
    then show ?thesis using same_disk_trans [OF free_clusters_same [OF s(1)]] same_disk_dirty s(3) by simp
  next
    case grow
    show ?thesis
    proof (cases "st' = st")
      case False
      then obtain zs st1 where s: "link_chain ((if 0 < ?n then [last ?old] else []) @ zs) st = Some st1" "st' = st1\<lparr>fat_dirty := True\<rparr>"
        using r grow unfolding clust_setlen_def Let_def by (simp split: Option.bind_splits if_splits prod.splits)
      show ?thesis using same_disk_dirty [OF link_chain_same [OF s(1)]] s(2) by simp
    qed simp
  qed (use r in \<open>simp add: clust_setlen_def Let_def\<close>)
qed

lemma fat12_init_size:
  assumes "fat_init mem rd junk b d = Some st" "boot_nclust b < 4086"
  shows "\<exists>buf. fat12 st = Some buf \<and> length (fat st) = fatlen12 (length buf) div 2 \<and> fatlen st = fatlen12 (length buf)"
  using assms by (auto simp: fat_init_def Let_def split: if_splits)

text \<open>
  C37. On a disk with a 12-bit table, the first flush after a file has changed its clusters writes
  beyond the end of the buffer: the table in core is packed in full, and it is larger than the one
  that was read.
\<close>

theorem fat12_overflow:
  assumes "fat_init mem rd junk b d = Some st" "boot_nclust b < 4086"
    "clust_setlen mem' c len st = Some (r, c', st')" "st' \<noteq> st"
  shows "fat_sync short st' = None"
proof -
  obtain buf where i: "fat12 st = Some buf" "length (fat st) = fatlen12 (length buf) div 2" "fatlen st = fatlen12 (length buf)"
    using fat12_init_size [OF assms(1,2)] by blast
  have s: "same_disk st st'" "fat_dirty st'" using clust_setlen_same [OF assms(3)] assms(4) by auto
  have "length buf < length (fat16_fat12 (fat st') (fatlen12 (length buf)))"
    using fat12_overrun [of "length buf" "fat st'"] i s(1) by (simp add: same_disk_def)
  then show ?thesis using i s by (simp add: fat_sync_def fat12_write_def same_disk_def Let_def)
qed

text \<open>A small disk with a 12-bit table.\<close>

definition floppy_boot :: boot where
  "floppy_boot = \<lparr>secsize0 = 0, secsize1 = 2, bb_clsize = 1, nrsvsect = 1, nfat = 2, dirents0 = 16, dirents1 = 0,
     psect0 = 8, psect1 = 0, bb_fatlen = 1, bigsect = 0\<rparr>"

theorem fat12_overflow_witness:
  "\<exists>st st'. fat_init True True (\<lambda>_. 0) floppy_boot (\<lambda>_. 0) = Some st \<and>
     clust_setlen True \<lparr>c_clust = [2], c_nclust = 1\<rparr> 0 st = Some (0, \<lparr>c_clust = [2], c_nclust = 0\<rparr>, st') \<and>
     fat_sync (\<lambda>_ _. None) st' = None"
proof -
  obtain st where i: "fat_init True True (\<lambda>_. 0) floppy_boot (\<lambda>_. 0) = Some st" "length (fat st) = 342" "length (dirtymap st) = 1" "clsize st = 512"
    "\<not> fat_dirty st"
    by (simp add: fat_init_def Let_def floppy_boot_def two_bytes_def SECSZ_def boot_clsize_def boot_fatlen_def boot_nclust_def
        boot_sectors_def boot_dirtymap_def clusters_for_def fatlen12_def)
  obtain st1 where s: "set_fat 2 0 st = Some st1" using i(2,3) by (simp add: set_fat_def DIRTY_def SECSZ_def)
  let ?s = "st1\<lparr>fat_dirty := True\<rparr>"
  have c: "clust_setlen True \<lparr>c_clust = [2], c_nclust = 1\<rparr> 0 st = Some (0, \<lparr>c_clust = [2], c_nclust = 0\<rparr>, ?s)"
    using s i(4) by (simp add: clust_setlen_def clusters_for_def)
  have n: "boot_nclust floppy_boot < 4086"
    by (simp add: floppy_boot_def two_bytes_def SECSZ_def boot_clsize_def boot_nclust_def boot_sectors_def)
  have "?s \<noteq> st" using i(5) by auto
  then show ?thesis using fat12_overflow [OF i(1) n c, of "\<lambda>_ _. None"] i(1) c by blast
qed

text \<open>\<open>BOFF\<close> of \<open>block.c\<close>: where a cluster is on the disk.\<close>

definition BOFF :: "u32 \<Rightarrow> u32 \<Rightarrow> u32 \<Rightarrow> u32" where
  "BOFF bs d0 clnum = (clnum - 2) * bs + d0"

lemma unat_mult_small: "unat (x :: u32) * unat y < 2 ^ 32 \<Longrightarrow> unat (x * y) = unat x * unat y"
  by (simp add: unat_word_ariths)

lemma clusters_for_exact:
  assumes "0 < cs" "unat len + unat cs \<le> 2 ^ 32"
  shows "clusters_for len cs = (unat len + unat cs - 1) div unat cs"
proof -
  have c: "0 < unat cs" using assms(1) by (simp add: word_less_nat_alt)
  have "unat (cs - 1) = unat cs - 1" using c by (simp add: unat_sub_if' unat_eq_zero)
  then have s: "unat (len + (cs - 1)) = unat len + unat cs - 1" using assms(2) c by (subst unat_add_no_overflow) auto
  have d: "unat ((len + (cs - 1)) div cs) = (unat len + unat cs - 1) div unat cs" by (simp add: unat_div_distrib s)
  have "unat ((len + (cs - 1)) div cs * cs) = (unat len + unat cs - 1) div unat cs * unat cs"
  proof -
    have "(unat len + unat cs - 1) div unat cs * unat cs \<le> unat len + unat cs - 1" by (rule div_times_less_eq_dividend)
    also have "\<dots> = unat (len + (cs - 1))" by (rule s [symmetric])
    also have "\<dots> < 2 ^ LENGTH(32)" by (rule unsigned_less)
    finally show ?thesis by (subst unat_mult_small) (simp_all add: d)
  qed
  then show ?thesis using c by (simp add: clusters_for_def unat_div_distrib)
qed

text \<open>A file that needs one cluster when only the cluster \<open>y\<close> is free.\<close>

lemma only_free_cluster:
  assumes y: "y < nclust st" "2 \<le> y" and n: "nclust st \<le> 65520" "nclust st \<le> length (fat st)"
    and free: "fat st ! y = 0" "\<forall>x < y. fat st ! x \<noteq> 0"
    and k: "clusters_for 1 (clsize st) = 1" and dm: "DIRTY y < length (dirtymap st)"
  shows "\<exists>c st'. clust_setlen True \<lparr>c_clust = [], c_nclust = 0\<rparr> 1 st = Some (0, c, st') \<and> clusters c = [of_nat y]"
proof -
  let ?m = "nclust st"
  obtain z where z: "next_free (fat st) ?m 0 = Some z" "\<And>i. i < z \<Longrightarrow> i < ?m \<Longrightarrow> fat st ! i \<noteq> 0" "z < ?m \<Longrightarrow> fat st ! z = 0"
    using next_free_ok [OF n(2), of 0] by auto
  have "\<not> z < y"
  proof
    assume h: "z < y"
    then have "z < ?m" using y(1) by simp
    then show False using z(3) free(2) h by simp
  qed
  moreover have "\<not> y < z" using z(2) [of y] y(1) free(1) by auto
  ultimately have "z = y" by simp
  then have p: "pick_clusters (fat st) ?m 1 0 = Some ([of_nat y], True)" using z(1) y(1,2) by (simp add: linorder_not_less)
  have u: "unat (of_nat y :: u16) = y" using y n by (simp add: unat_of_nat)
  then obtain st1 where l: "set_fat (of_nat y) FAT_EOF st = Some st1" using y n dm by (simp add: set_fat_def)
  let ?c = "\<lparr>c_clust = [of_nat y], c_nclust = 1\<rparr>"
  have r: "clust_setlen True \<lparr>c_clust = [], c_nclust = 0\<rparr> 1 st = Some (0, ?c, st1\<lparr>fat_dirty := True\<rparr>)"
    using k p l unfolding clust_setlen_def Let_def by simp
  then show ?thesis by (intro exI [of _ ?c] exI [of _ "st1\<lparr>fat_dirty := True\<rparr>"]) (simp add: clusters_def)
qed

text \<open>Where the last of \<open>m\<close> clusters is.\<close>

lemma last_offset:
  assumes m: "m = unat (boot_nclust b)" "3 \<le> m" "m \<le> 65520" and cs: "0 < unat (boot_clsize b)"
    and big: "4 * unat (boot_clsize b) \<le> unat (boot_data0 b)"
    and small: "unat (boot_sectors b) * SECSZ < 2 ^ 32" "m * unat (boot_clsize b) + unat (boot_data0 b) < 2 ^ 32"
  shows "unat (boot_sectors b) * SECSZ \<le> unat (BOFF (boot_clsize b) (boot_data0 b) (of_nat (m - 1)))"
proof -
  let ?cs = "boot_clsize b"
  define y where "y = m - 1"
  have y: "y < m" "2 \<le> y" "y - 2 \<le> m" "m + 1 = y - 2 + 4" using m(2) by (simp_all add: y_def)
  have "unat (of_nat y :: u32) = y" using y m by (simp add: unat_of_nat)
  then have m2: "unat (of_nat y - 2 :: u32) = y - 2" using y(2) by (simp add: unat_sub_if')
  have lt: "(y - 2) * unat ?cs \<le> m * unat ?cs" by (rule mult_le_mono1) (rule y(3))
  have lt2: "(y - 2) * unat ?cs + unat (boot_data0 b) < 2 ^ 32" using small(2) lt by linarith
  then have mm: "unat ((of_nat y - 2) * ?cs) = (y - 2) * unat ?cs" unfolding m2 [symmetric] by (subst unat_mult_small) linarith+
  then have bo: "unat (BOFF ?cs (boot_data0 b) (of_nat y)) = (y - 2) * unat ?cs + unat (boot_data0 b)"
    unfolding BOFF_def using lt2 by (subst unat_add_no_overflow) simp_all
  have "m = unat (boot_sectors b) * SECSZ div unat ?cs"
    using m(1) small(1) by (simp add: boot_nclust_def unat_div_distrib unat_mult_small SECSZ_def)
  then have "unat (boot_sectors b) * SECSZ < (m + 1) * unat ?cs"
    using cs by (simp add: dividend_less_div_times)
  moreover have "(m + 1) * unat ?cs = (y - 2) * unat ?cs + 4 * unat ?cs" unfolding y(4) by (rule add_mult_distrib)
  ultimately show ?thesis unfolding y_def [symmetric] bo using big by linarith
qed

text \<open>
  C38. The count of clusters covers the whole disk, although the boot sector, the tables and the root
  directory come before the first one: when those take four clusters or more, the last cluster
  number that the search for free clusters accepts lies beyond the end of the disk, and a file gets
  it when nothing else is free.
\<close>

theorem last_cluster_off_disk:
  assumes i: "fat_init mem rd junk b d = Some st" and n: "3 \<le> nclust st" "nclust st \<le> 65520" "nclust st \<le> length (fat st)"
    and free: "fat st ! (nclust st - 1) = 0" "\<forall>y < nclust st - 1. fat st ! y \<noteq> 0"
    and big: "4 * unat (boot_clsize b) \<le> unat (boot_data0 b)"
    and small: "unat (boot_sectors b) * SECSZ < 2 ^ 32" "nclust st * unat (boot_clsize b) + unat (boot_data0 b) < 2 ^ 32"
  shows "\<exists>c st'. clust_setlen True \<lparr>c_clust = [], c_nclust = 0\<rparr> 1 st = Some (0, c, st') \<and>
    clusters c = [of_nat (nclust st - 1)] \<and>
    unat (boot_sectors b) * SECSZ \<le> unat (BOFF (clsize st) (data0 st) (of_nat (nclust st - 1)))"
proof -
  let ?m = "nclust st" and ?cs = "boot_clsize b"
  have f: "?m = unat (boot_nclust b)" "clsize st = ?cs" "data0 st = boot_data0 b" "?cs \<noteq> 0" "length (dirtymap st) = boot_dirtymap b"
    using i by (auto simp: fat_init_def Let_def split: if_splits)
  have cs0: "0 < ?cs" "0 < unat ?cs" using f(4) by (simp_all add: word_gt_0 unat_gt_0)
  have csb: "unat ?cs + ?m * unat ?cs \<le> 2 ^ 32" using big small(2) cs0 by linarith
  have "1 * unat ?cs \<le> ?m * unat ?cs" by (rule mult_le_mono1) (use n(1) in simp)
  moreover have "unat ?cs + ?m * unat ?cs \<le> 4294967296" using csb by simp
  ultimately have "unat ?cs \<le> 4294967295" using cs0(2) by linarith
  then have k: "clusters_for 1 (clsize st) = 1"
    using clusters_for_exact [OF cs0(1), of 1] f(2) cs0(2) by simp
  have "boot_dirtymap b = (unat (boot_nclust b * 2) + 511) div 512"
    unfolding boot_dirtymap_def using f(1) n(2) by (subst clusters_for_exact) (auto simp: SECSZ_def unat_word_ariths)
  moreover have "unat (boot_nclust b * 2) = 2 * ?m" using f(1) n(2) by (simp add: unat_word_ariths)
  ultimately have dm: "DIRTY (?m - 1) < length (dirtymap st)" using f(5) n(1) by (simp add: DIRTY_def SECSZ_def)
  have "?m - 1 < ?m" "2 \<le> ?m - 1" using n(1) by simp_all
  from only_free_cluster [OF this n(2,3) free k dm] last_offset [OF f(1) n(1,2) cs0(2) big small] show ?thesis
    unfolding f(2,3) by blast
qed

theorem last_cluster_off_disk_witness:
  "\<exists>st c st'. fat_init True True (\<lambda>_. 0) demo_boot (\<lambda>a. if a < 8702 then 0xFF else 0) = Some st \<and>
     clust_setlen True \<lparr>c_clust = [], c_nclust = 0\<rparr> 1 st = Some (0, c, st') \<and> clusters c = [4095] \<and>
     4096 * SECSZ \<le> unat (BOFF (clsize st) (data0 st) 4095)"
proof -
  let ?d = "\<lambda>a. if a < 8702 then 0xFF else 0 :: u8"
  have b: "boot_nclust demo_boot = 4096" "boot_clsize demo_boot = 512" "boot_sectors demo_boot = 4096" "boot_data0 demo_boot = 33280" "boot_fatlen demo_boot = 8192"
    by (simp_all add: demo_boot_def two_bytes_def SECSZ_def boot_clsize_def boot_nclust_def boot_sectors_def boot_data0_def boot_dirents_def boot_fatlen_def)
  obtain st where i: "fat_init True True (\<lambda>_. 0) demo_boot ?d = Some st" "nclust st = 4096" "length (fat st) = 4096"
    "\<And>y. y < 4096 \<Longrightarrow> fat st ! y = fat_read ?d 8192 ! y"
    using b by (simp add: fat_init_def Let_def fat_read_def demo_boot_def two_bytes_def SECSZ_def)
  have f: "fat_read ?d 8192 ! y = (if y < 4095 then 0xFFFF else 0)" if "y < 4096" for y
    using that by (simp add: fat_read_def SECSZ_def)
  show ?thesis
    using last_cluster_off_disk [OF i(1)] i f b by (simp add: SECSZ_def)
qed

end
