(* ===== verification/Dos_Cache.thy ===== *)
theory Dos_Cache
  imports Dos_Disk
begin

text \<open>
  The block cache of the DOS file server, \<open>srv/dos/block.c\<close>: at most \<open>NCACHE\<close> blocks of the disk,
  each with a count of references, written back when their buffer is reused or on \<open>bsync\<close>.

  \<open>blocks\<close> is the storage of the block structures by address; \<open>allblocks\<close> and the chains of \<open>bhash\<close>
  are the lists of nodes, in the order of their links, of which the last is the newest.
  Storage for the nodes is taken to be found.  \<open>mal\<close> gives the address of new storage, none when
  there is none left; \<open>io_read\<close> is whether a block can be read, and \<open>io_write\<close> the number of bytes
  that a write gets done when it fails.  A failing assertion is \<open>None\<close>.
\<close>

section \<open>Blocks\<close>

record block =
  b_blkno :: u32
  b_flags :: u32
  b_data :: "u8 list"
  b_refs :: nat

record bcache =
  cached :: nat
  blocks :: "addr \<Rightarrow> block"
  allblocks :: "addr list"
  bhash :: "nat \<Rightarrow> addr list"
  bsize :: u32
  bdata0 :: u32
  disk :: "nat \<Rightarrow> u8"

record io =
  io_read :: "nat \<Rightarrow> bool"
  io_write :: "nat \<Rightarrow> nat option"

definition B_DIRTY :: u32 where "B_DIRTY = 1"
definition NCACHE :: nat where "NCACHE = 80"
definition HASHSIZE :: nat where "HASHSIZE = 32"

definition chain_of :: "u32 \<Rightarrow> nat" where
  "chain_of blkno = unat (blkno AND of_nat (HASHSIZE - 1))"

text \<open>\<open>BOFF\<close> of a block, and the bytes of the disk there.\<close>

definition boff :: "bcache \<Rightarrow> u32 \<Rightarrow> nat" where
  "boff st blkno = unat (BOFF (bsize st) (bdata0 st) blkno)"

definition disk_bytes :: "bcache \<Rightarrow> u32 \<Rightarrow> u8 list" where
  "disk_bytes st blkno = map (\<lambda>i. disk st (boff st blkno + i)) [0..<unat (bsize st)]"

definition disk_write :: "nat \<Rightarrow> u8 list \<Rightarrow> (nat \<Rightarrow> u8) \<Rightarrow> nat \<Rightarrow> u8" where
  "disk_write off bs d = (\<lambda>a. if off \<le> a \<and> a < off + length bs then bs ! (a - off) else d a)"

text \<open>A dirty block goes to the disk; nobody looks at the result of the write.\<close>

definition push_block :: "io \<Rightarrow> addr \<Rightarrow> bcache \<Rightarrow> bcache" where
  "push_block io a st =
     (let b = blocks st a; off = boff st (b_blkno b);
          bs = (case io_write io off of None \<Rightarrow> b_data b | Some k \<Rightarrow> take k (b_data b))
      in if b_flags b AND B_DIRTY \<noteq> 0 then
           st\<lparr>disk := disk_write off bs (disk st), blocks := (blocks st)(a := b\<lparr>b_flags := b_flags b AND NOT B_DIRTY\<rparr>)\<rparr>
         else st)"

definition binit :: "u32 \<Rightarrow> u32 \<Rightarrow> (nat \<Rightarrow> u8) \<Rightarrow> (addr \<Rightarrow> block) \<Rightarrow> bcache" where
  "binit bs d0 d mem = \<lparr>cached = 0, blocks = mem, allblocks = [], bhash = (\<lambda>_. []), bsize = bs, bdata0 = d0, disk = d\<rparr>"

definition bnew :: "io \<Rightarrow> (addr list \<Rightarrow> addr option) \<Rightarrow> u32 \<Rightarrow> bcache \<Rightarrow> (addr \<times> bcache) option" where
  "bnew io mal blkno st =
     (case (if cached st < NCACHE then mal (allblocks st) else None) of
        Some a \<Rightarrow> Some (a, st\<lparr>
          blocks := (blocks st)(a := (blocks st a)\<lparr>b_blkno := blkno, b_flags := 0, b_refs := 1\<rparr>),
          allblocks := allblocks st @ [a],
          bhash := (bhash st)(chain_of blkno := bhash st (chain_of blkno) @ [a]), cached := cached st + 1\<rparr>)
      | None \<Rightarrow>
          if cached st = 0 then None
          else case find (\<lambda>a. \<not> 0 < b_refs (blocks st a)) (allblocks st) of
            None \<Rightarrow> None
          | Some a \<Rightarrow>
              let st1 = push_block io a st; b = blocks st1 a; h = chain_of (b_blkno b);
                  ch = (bhash st1)(h := remove1 a (bhash st1 h))
              in Some (a, st1\<lparr>
                allblocks := remove1 a (allblocks st1) @ [a],
                bhash := ch(chain_of blkno := ch (chain_of blkno) @ [a]),
                blocks := (blocks st1)(a := b\<lparr>b_refs := 1, b_blkno := blkno\<rparr>)\<rparr>))"

definition bfind :: "u32 \<Rightarrow> bcache \<Rightarrow> (addr \<times> bcache) option" where
  "bfind blkno st =
     (case find (\<lambda>a. blkno = b_blkno (blocks st a)) (bhash st (chain_of blkno)) of
        None \<Rightarrow> None
      | Some a \<Rightarrow> Some (a, st\<lparr>blocks := (blocks st)(a := (blocks st a)\<lparr>b_refs := b_refs (blocks st a) + 1\<rparr>)\<rparr>))"

definition bdirty :: "addr \<Rightarrow> bcache \<Rightarrow> bcache option" where
  "bdirty a st = (let b = blocks st a in
     if 0 < b_refs b then Some (st\<lparr>blocks := (blocks st)(a := b\<lparr>b_flags := b_flags b OR B_DIRTY\<rparr>)\<rparr>) else None)"

definition bjunk :: "addr \<Rightarrow> bcache \<Rightarrow> bcache" where
  "bjunk a st = (let h = chain_of (b_blkno (blocks st a)) in
     st\<lparr>bhash := (bhash st)(h := remove1 a (bhash st h)), allblocks := remove1 a (allblocks st), cached := cached st - 1\<rparr>)"

text \<open>The null result is \<open>None\<close> in the pair.\<close>

definition bget :: "io \<Rightarrow> (addr list \<Rightarrow> addr option) \<Rightarrow> u32 \<Rightarrow> bcache \<Rightarrow> (addr option \<times> bcache) option" where
  "bget io mal blkno st =
     (case bfind blkno st of
        Some (a, st1) \<Rightarrow> Some (Some a, st1)
      | None \<Rightarrow> do {
          (a, st1) \<leftarrow> bnew io mal blkno st;
          if \<not> io_read io (boff st1 blkno) then Some (None, bjunk a st1)
          else Some (Some a, st1\<lparr>blocks := (blocks st1)(a := (blocks st1 a)\<lparr>b_data := disk_bytes st1 blkno\<rparr>)\<rparr>)
        })"

definition bdata :: "addr \<Rightarrow> bcache \<Rightarrow> u8 list option" where
  "bdata a st = (if 0 < b_refs (blocks st a) then Some (b_data (blocks st a)) else None)"

definition bfree :: "addr \<Rightarrow> bcache \<Rightarrow> bcache option" where
  "bfree a st = (let b = blocks st a in
     if 0 < b_refs b then Some (st\<lparr>blocks := (blocks st)(a := b\<lparr>b_refs := b_refs b - 1\<rparr>)\<rparr>) else None)"

definition bsync :: "io \<Rightarrow> bcache \<Rightarrow> bcache" where
  "bsync io st = fold (push_block io) (allblocks st) st"

text \<open>A \<open>memcpy\<close> into the data of a block, from its byte \<open>off\<close> on.\<close>

definition splice :: "nat \<Rightarrow> 'a list \<Rightarrow> 'a list \<Rightarrow> 'a list" where
  "splice off bs l = take off l @ bs @ drop (off + length bs) l"

definition bcopyin :: "addr \<Rightarrow> nat \<Rightarrow> u8 list \<Rightarrow> bcache \<Rightarrow> bcache option" where
  "bcopyin a off bs st = do {
     l \<leftarrow> bdata a st;
     if length l < off + length bs then None
     else Some (st\<lparr>blocks := (blocks st)(a := (blocks st a)\<lparr>b_data := splice off bs l\<rparr>)\<rparr>)
   }"

section \<open>What the cache shows\<close>

definition good_block :: "bcache \<Rightarrow> u32 \<Rightarrow> bool" where
  "good_block st b = (2 \<le> b \<and> unat (b - 2) * unat (bsize st) + unat (bdata0 st) + unat (bsize st) \<le> 2 ^ 32)"

definition view :: "bcache \<Rightarrow> u32 \<Rightarrow> u8 list" where
  "view st b = (case find (\<lambda>a. b_blkno (blocks st a) = b) (allblocks st) of
     Some a \<Rightarrow> b_data (blocks st a) | None \<Rightarrow> disk_bytes st b)"

definition block_ok :: "bcache \<Rightarrow> addr \<Rightarrow> bool" where
  "block_ok st a = (let b = blocks st a in
     good_block st (b_blkno b) \<and> length (b_data b) = unat (bsize st) \<and>
     (b_flags b AND B_DIRTY = 0 \<longrightarrow> b_data b = disk_bytes st (b_blkno b)))"

definition lists_ok :: "bcache \<Rightarrow> bool" where
  "lists_ok st = (distinct (allblocks st) \<and> cached st = length (allblocks st) \<and> cached st \<le> NCACHE \<and>
     inj_on (\<lambda>a. b_blkno (blocks st a)) (set (allblocks st)) \<and>
     (\<forall>h. distinct (bhash st h) \<and> set (bhash st h) = {a \<in> set (allblocks st). chain_of (b_blkno (blocks st a)) = h}))"

definition cache_ok :: "bcache \<Rightarrow> bool" where
  "cache_ok st = (0 < unat (bsize st) \<and> lists_ok st \<and> (\<forall>a \<in> set (allblocks st). block_ok st a))"

text \<open>No references, and one reference to one block.\<close>

definition idle :: "bcache \<Rightarrow> bool" where
  "idle st = (cache_ok st \<and> (\<forall>a \<in> set (allblocks st). b_refs (blocks st a) = 0))"

definition holds :: "bcache \<Rightarrow> addr \<Rightarrow> u32 \<Rightarrow> bool" where
  "holds st a b = (cache_ok st \<and> a \<in> set (allblocks st) \<and> b_blkno (blocks st a) = b \<and>
     (\<forall>c \<in> set (allblocks st). b_refs (blocks st c) = (if c = a then 1 else 0)))"

definition same_place :: "bcache \<Rightarrow> bcache \<Rightarrow> bool" where
  "same_place st st' = (bsize st' = bsize st \<and> bdata0 st' = bdata0 st)"

lemma B_DIRTY_bits [simp]: "(x OR B_DIRTY) AND B_DIRTY \<noteq> 0" "(x AND NOT B_DIRTY) AND B_DIRTY = 0"
proof -
  have "(x OR B_DIRTY) AND B_DIRTY = B_DIRTY" by (rule bit_word_eqI) (auto simp: bit_or_iff bit_and_iff)
  then show "(x OR B_DIRTY) AND B_DIRTY \<noteq> 0" by (simp add: B_DIRTY_def)
  show "(x AND NOT B_DIRTY) AND B_DIRTY = 0" by (rule bit_word_eqI) (auto simp: bit_and_iff bit_not_iff)
qed

lemma same_place_refl [simp]: "same_place st st"
  by (simp add: same_place_def)

lemma same_place_trans: "same_place a b \<Longrightarrow> same_place b c \<Longrightarrow> same_place a c"
  by (simp add: same_place_def)

lemma place_cong: "same_place st st' \<Longrightarrow> boff st' = boff st \<and> good_block st' = good_block st"
  by (simp add: same_place_def boff_def good_block_def fun_eq_iff)

lemma boff_good:
  assumes "good_block st b" "0 < unat (bsize st)"
  shows "boff st b = unat (b - 2) * unat (bsize st) + unat (bdata0 st)"
proof -
  have l: "unat (b - 2) * unat (bsize st) + unat (bdata0 st) < 2 ^ 32" using assms by (simp add: good_block_def)
  then have m: "unat ((b - 2) * bsize st) = unat (b - 2) * unat (bsize st)" by (intro unat_mult_small) linarith
  then have "unat ((b - 2) * bsize st + bdata0 st) = unat (b - 2) * unat (bsize st) + unat (bdata0 st)"
    using l by (subst unat_add_no_overflow) simp_all
  then show ?thesis by (simp add: boff_def BOFF_def)
qed

text \<open>Different blocks have no byte in common.\<close>

lemma blocks_apart:
  assumes "good_block st b" "good_block st c" "b \<noteq> c" "0 < unat (bsize st)" "i < unat (bsize st)" "j < unat (bsize st)"
  shows "boff st b + i \<noteq> boff st c + j"
proof
  assume "boff st b + i = boff st c + j"
  then have e: "unat (b - 2) * unat (bsize st) + i = unat (c - 2) * unat (bsize st) + j"
    using boff_good assms by simp
  have "(unat (b - 2) * unat (bsize st) + i) div unat (bsize st) = unat (b - 2)" using assms(5) by simp
  moreover have "(unat (c - 2) * unat (bsize st) + j) div unat (bsize st) = unat (c - 2)" using assms(6) by simp
  ultimately have "unat (b - 2) = unat (c - 2)" using e by simp
  then have "b - 2 = c - 2" by (simp add: word_unat_eq_iff)
  then show False using assms(3) by simp
qed

lemma disk_bytes_length [simp]: "length (disk_bytes st b) = unat (bsize st)"
  by (simp add: disk_bytes_def)

lemma disk_bytes_write:
  assumes "good_block st b" "good_block st c" "0 < unat (bsize st)" "length bs = unat (bsize st)"
  shows "disk_bytes (st\<lparr>disk := disk_write (boff st b) bs (disk st)\<rparr>) c = (if c = b then bs else disk_bytes st c)"
proof (cases "c = b")
  case True
  then show ?thesis using assms(4) by (intro nth_equalityI) (simp_all add: disk_bytes_def disk_write_def boff_def)
next
  case False
  have "disk_write (boff st b) bs (disk st) (boff st c + i) = disk st (boff st c + i)" if i: "i < unat (bsize st)" for i
  proof -
    have "\<not> (boff st b \<le> boff st c + i \<and> boff st c + i < boff st b + length bs)"
    proof
      assume "boff st b \<le> boff st c + i \<and> boff st c + i < boff st b + length bs"
      then obtain j where "boff st c + i = boff st b + j" "j < unat (bsize st)" using assms(4) by (metis le_Suc_ex nat_add_left_cancel_less)
      then show False using blocks_apart [OF assms(2,1) False assms(3) i] by blast
    qed
    then show ?thesis unfolding disk_write_def by (rule if_not_P)
  qed
  then show ?thesis using False by (simp add: disk_bytes_def boff_def)
qed

lemma find_unique:
  assumes "a \<in> set l" "P a" "\<And>c. c \<in> set l \<Longrightarrow> P c \<Longrightarrow> c = a"
  shows "find P l = Some a"
  using assms
proof (induction l)
  case (Cons x l)
  show ?case
  proof (cases "P x")
    case True
    then have "x = a" by (intro Cons.prems(3)) simp_all
    then show ?thesis using True by simp
  next
    case False
    then have "a \<in> set l" using Cons.prems(1,2) by auto
    then have "find P l = Some a" by (rule Cons.IH [OF _ Cons.prems(2)]) (rule Cons.prems(3), simp_all)
    then show ?thesis using False by simp
  qed
qed simp

lemma view_in:
  assumes "lists_ok st" "a \<in> set (allblocks st)"
  shows "view st (b_blkno (blocks st a)) = b_data (blocks st a)"
proof -
  have "find (\<lambda>c. b_blkno (blocks st c) = b_blkno (blocks st a)) (allblocks st) = Some a"
    by (rule find_unique) (use assms in \<open>auto simp: lists_ok_def inj_on_def\<close>)
  then show ?thesis by (simp add: view_def)
qed

lemma view_out: "\<forall>a \<in> set (allblocks st). b_blkno (blocks st a) \<noteq> b \<Longrightarrow> view st b = disk_bytes st b"
  using find_None_iff [of "\<lambda>a. b_blkno (blocks st a) = b" "allblocks st"] by (auto simp: view_def)

lemma lists_ok_cong:
  assumes "lists_ok st" "allblocks st' = allblocks st" "bhash st' = bhash st" "cached st' = cached st"
    "\<And>a. a \<in> set (allblocks st) \<Longrightarrow> b_blkno (blocks st' a) = b_blkno (blocks st a)"
  shows "lists_ok st'"
proof -
  have "inj_on (\<lambda>a. b_blkno (blocks st' a)) (set (allblocks st))"
    using assms(1,5) by (auto simp: lists_ok_def inj_on_def)
  moreover have "{a \<in> set (allblocks st). chain_of (b_blkno (blocks st' a)) = h} = {a \<in> set (allblocks st). chain_of (b_blkno (blocks st a)) = h}" for h
    using assms(5) by auto
  ultimately show ?thesis using assms(1-4) by (simp add: lists_ok_def)
qed

text \<open>Pushing a block changes nothing that the cache shows.\<close>

lemma push_block_ok:
  assumes ok: "0 < unat (bsize st)" "lists_ok st" "\<forall>c \<in> set (allblocks st). block_ok st c" and a: "a \<in> set (allblocks st)"
    and w: "\<forall>off. io_write io off = None" and st': "st' = push_block io a st"
  shows "same_place st st' \<and> lists_ok st' \<and> (\<forall>c \<in> set (allblocks st). block_ok st' c) \<and> allblocks st' = allblocks st \<and>
    bhash st' = bhash st \<and> cached st' = cached st \<and> (\<forall>c. b_refs (blocks st' c) = b_refs (blocks st c)) \<and>
    (\<forall>c. b_blkno (blocks st' c) = b_blkno (blocks st c)) \<and> (\<forall>c. b_data (blocks st' c) = b_data (blocks st c)) \<and>
    (\<forall>c. c \<noteq> a \<longrightarrow> blocks st' c = blocks st c) \<and> b_flags (blocks st' a) AND B_DIRTY = 0 \<and>
    (\<forall>b. good_block st b \<longrightarrow> view st' b = view st b)"
proof (cases "b_flags (blocks st a) AND B_DIRTY = 0")
  case True
  then show ?thesis using ok a st' by (simp add: push_block_def Let_def)
next
  case False
  let ?b = "blocks st a"
  have s: "st' = st\<lparr>disk := disk_write (boff st (b_blkno ?b)) (b_data ?b) (disk st), blocks := (blocks st)(a := ?b\<lparr>b_flags := b_flags ?b AND NOT B_DIRTY\<rparr>)\<rparr>"
    using False w st' by (simp add: push_block_def Let_def)
  have g: "good_block st (b_blkno ?b)" "length (b_data ?b) = unat (bsize st)" using ok(3) a by (auto simp: block_ok_def Let_def)
  have db: "disk_bytes st' c = (if c = b_blkno ?b then b_data ?b else disk_bytes st c)" if "good_block st c" for c
    using disk_bytes_write [OF g(1) that ok(1) g(2)] s by (simp add: disk_bytes_def boff_def)
  have p: "same_place st st'" using s by (simp add: same_place_def)
  have f: "b_blkno (blocks st' c) = b_blkno (blocks st c)" "b_data (blocks st' c) = b_data (blocks st c)" "b_refs (blocks st' c) = b_refs (blocks st c)" for c
    using s by simp_all
  have l: "lists_ok st'" by (rule lists_ok_cong [OF ok(2)]) (use s in simp_all)
  have bo: "block_ok st' c" if c: "c \<in> set (allblocks st)" for c
  proof -
    have gc: "good_block st (b_blkno (blocks st c))" using ok(3) c by (auto simp: block_ok_def Let_def)
    show ?thesis
    proof (cases "c = a")
      case True
      then show ?thesis using db [OF g(1)] g f place_cong [OF p] s by (simp add: block_ok_def Let_def)
    next
      case False
      then have "b_blkno (blocks st c) \<noteq> b_blkno ?b" using ok(2) a c by (auto simp: lists_ok_def inj_on_def)
      then show ?thesis using db [OF gc] ok(3) c f place_cong [OF p] s False by (simp add: block_ok_def Let_def)
    qed
  qed
  have v: "view st' b = view st b" if b: "good_block st b" for b
  proof (cases "\<exists>c \<in> set (allblocks st). b_blkno (blocks st c) = b")
    case True
    then obtain c where c: "c \<in> set (allblocks st)" "b_blkno (blocks st c) = b" by blast
    have "view st' (b_blkno (blocks st' c)) = b_data (blocks st' c)" by (rule view_in [OF l]) (use c s in simp)
    then show ?thesis using view_in [OF ok(2) c(1)] c(2) f by simp
  next
    case out: False
    then have "b \<noteq> b_blkno ?b" using a by blast
    then have "disk_bytes st' b = disk_bytes st b" using db [OF b] by simp
    moreover have "view st' b = disk_bytes st' b" by (rule view_out) (use out s in auto)
    ultimately show ?thesis using view_out out by simp
  qed
  show ?thesis using p l bo v f s by simp
qed

text \<open>What the calls of the server rely on: new storage is new, there is some for a first block, and writes get done.\<close>

definition env_ok :: "io \<Rightarrow> (addr list \<Rightarrow> addr option) \<Rightarrow> bool" where
  "env_ok io mal = ((\<forall>off. io_write io off = None) \<and> mal [] \<noteq> None \<and> (\<forall>l a. mal l = Some a \<longrightarrow> a \<notin> set l))"

definition uncached :: "bcache \<Rightarrow> u32 \<Rightarrow> bool" where
  "uncached st b = (\<forall>a \<in> set (allblocks st). b_blkno (blocks st a) \<noteq> b)"

text \<open>A block taken out of the cache, or out of none, and put in under a new number.\<close>

definition fresh_block :: "bcache \<Rightarrow> bcache \<Rightarrow> addr \<Rightarrow> u32 \<Rightarrow> bool" where
  "fresh_block st st' a b = (same_place st st' \<and> lists_ok st' \<and> a \<in> set (allblocks st') \<and> b_blkno (blocks st' a) = b \<and>
     b_flags (blocks st' a) AND B_DIRTY = 0 \<and> b_refs (blocks st' a) = 1 \<and> disk_bytes st' b = view st b \<and>
     (\<forall>c \<in> set (allblocks st') - {a}. block_ok st' c \<and> b_refs (blocks st' c) = 0) \<and>
     (\<forall>d. good_block st d \<and> d \<noteq> b \<longrightarrow> view st' d = view st d))"

lemma block_ok_cong:
  "block_ok st c \<Longrightarrow> same_place st st' \<Longrightarrow> blocks st' c = blocks st c \<Longrightarrow> disk st' = disk st \<Longrightarrow> block_ok st' c"
  by (simp add: block_ok_def Let_def good_block_def same_place_def disk_bytes_def boff_def)

lemma disk_bytes_cong: "same_place st st' \<Longrightarrow> disk st' = disk st \<Longrightarrow> disk_bytes st' = disk_bytes st"
  by (rule ext) (simp add: same_place_def disk_bytes_def boff_def)

text \<open>The view of all blocks but \<open>b\<close>, when \<open>a\<close> alone changes.\<close>

lemma view_other:
  assumes "lists_ok st" "lists_ok st'" "same_place st st'" "disk st' = disk st" "d \<noteq> b"
    and new: "\<And>c. c \<in> set (allblocks st') \<Longrightarrow> c = a \<and> b_blkno (blocks st' c) = b \<or> c \<noteq> a \<and> c \<in> set (allblocks st) \<and> blocks st' c = blocks st c"
    and old: "\<And>c. c \<in> set (allblocks st) \<Longrightarrow> c = a \<and> (b_blkno (blocks st a) = b \<or> b_data (blocks st a) = disk_bytes st (b_blkno (blocks st a))) \<or> c \<noteq> a \<and> c \<in> set (allblocks st')"
  shows "view st' d = view st d"
proof (cases "\<exists>c \<in> set (allblocks st'). b_blkno (blocks st' c) = d")
  case True
  then obtain c where c: "c \<in> set (allblocks st')" "b_blkno (blocks st' c) = d" by blast
  then have o: "c \<in> set (allblocks st)" "blocks st' c = blocks st c" using new [OF c(1)] assms(5) by auto
  then show ?thesis using view_in [OF assms(2) c(1)] view_in [OF assms(1) o(1)] c(2) by simp
next
  case out: False
  then have v: "view st' d = disk_bytes st d" using view_out [of st' d] disk_bytes_cong [OF assms(3,4)] by simp
  show ?thesis
  proof (cases "\<exists>c \<in> set (allblocks st). b_blkno (blocks st c) = d")
    case True
    then obtain c where c: "c \<in> set (allblocks st)" "b_blkno (blocks st c) = d" by blast
    then have "c = a" using old [OF c(1)] out new by metis
    then show ?thesis using old [OF c(1)] view_in [OF assms(1) c(1)] c(2) v assms(5) by auto
  qed (use v view_out in auto)
qed

lemma bnew_fresh:
  assumes i: "idle st" and g: "good_block st b" and u: "uncached st b" and c: "cached st < NCACHE" and n: "a \<notin> set (allblocks st)"
    and st': "st' = st\<lparr>blocks := (blocks st)(a := (blocks st a)\<lparr>b_blkno := b, b_flags := 0, b_refs := 1\<rparr>),
      allblocks := allblocks st @ [a], bhash := (bhash st)(chain_of b := bhash st (chain_of b) @ [a]), cached := cached st + 1\<rparr>"
  shows "fresh_block st st' a b"
proof -
  have l: "lists_ok st" "\<forall>c \<in> set (allblocks st). block_ok st c \<and> b_refs (blocks st c) = 0" using i by (auto simp: idle_def cache_ok_def)
  have p: "same_place st st'" using st' by (simp add: same_place_def)
  have bl: "blocks st' c = blocks st c" if "c \<noteq> a" for c using st' that by simp
  have h: "a \<notin> set (bhash st x)" for x using l(1) n by (auto simp: lists_ok_def)
  have inj: "inj_on (\<lambda>c. b_blkno (blocks st' c)) (insert a (set (allblocks st)))"
    using l(1) u n bl st' by (auto simp: lists_ok_def inj_on_def uncached_def)
  have l': "lists_ok st'"
    using l(1) n c h inj unfolding lists_ok_def st' by (auto simp: st')
  have v: "view st' d = view st d" if "d \<noteq> b" for d
    by (rule view_other [OF l(1) l' p _ that, of a]) (use st' n in auto)
  have "disk_bytes st' b = view st b" using view_out [of st b] u disk_bytes_cong [OF p] st' by (simp add: uncached_def)
  moreover have "\<forall>c \<in> set (allblocks st') - {a}. block_ok st' c \<and> b_refs (blocks st' c) = 0"
    using l(2) st' bl block_ok_cong [OF _ p] by auto
  ultimately show ?thesis using p l' v st' unfolding fresh_block_def by simp
qed

lemma bnew_reuse:
  assumes i: "lists_ok st" "\<forall>c \<in> set (allblocks st). block_ok st c \<and> b_refs (blocks st c) = 0" and g: "good_block st b" and u: "uncached st b"
    and a: "a \<in> set (allblocks st)" "b_flags (blocks st a) AND B_DIRTY = 0"
    and h: "h = chain_of (b_blkno (blocks st a))" and ch: "ch = (bhash st)(h := remove1 a (bhash st h))"
    and st': "st' = st\<lparr>allblocks := remove1 a (allblocks st) @ [a], bhash := ch(chain_of b := ch (chain_of b) @ [a]),
      blocks := (blocks st)(a := (blocks st a)\<lparr>b_refs := 1, b_blkno := b\<rparr>)\<rparr>"
  shows "fresh_block st st' a b"
proof -
  have d: "distinct (allblocks st)" "\<And>x. distinct (bhash st x)"
    "\<And>x. set (bhash st x) = {c \<in> set (allblocks st). chain_of (b_blkno (blocks st c)) = x}" using i(1) by (auto simp: lists_ok_def)
  have p: "same_place st st'" using st' by (simp add: same_place_def)
  have bl: "blocks st' c = blocks st c" if "c \<noteq> a" for c using st' that by simp
  have sa: "set (allblocks st') = set (allblocks st)" using st' d(1) a(1) by auto
  have chs: "set (ch x) = {c \<in> set (allblocks st) - {a}. chain_of (b_blkno (blocks st c)) = x}" "distinct (ch x)" for x
    using d(2,3) h ch by auto
  have dist: "distinct (bhash st' x)" "set (bhash st' x) = {c \<in> set (allblocks st'). chain_of (b_blkno (blocks st' c)) = x}" for x
    using chs [of x] sa a(1) st' bl by (auto split: if_splits)
  have inj: "inj_on (\<lambda>c. b_blkno (blocks st' c)) (set (allblocks st'))"
    using i(1) u sa bl st' by (auto simp: lists_ok_def inj_on_def uncached_def)
  have "length (remove1 a (allblocks st)) + 1 = length (allblocks st)"
    using a(1) length_pos_if_in_set [OF a(1)] by (simp add: length_remove1)
  then have l': "lists_ok st'"
    using i(1) d(1) dist inj st' unfolding lists_ok_def by auto
  have v: "view st' e = view st e" if "e \<noteq> b" for e
    by (rule view_other [OF i(1) l' p _ that, of a]) (use st' sa a i(2) bl in \<open>auto simp: block_ok_def Let_def\<close>)
  have "disk_bytes st' b = view st b" using view_out [of st b] u disk_bytes_cong [OF p] st' by (simp add: uncached_def)
  moreover have "\<forall>c \<in> set (allblocks st') - {a}. block_ok st' c \<and> b_refs (blocks st' c) = 0"
    using i(2) sa bl block_ok_cong [OF _ p] st' by auto
  ultimately show ?thesis using p l' v st' a unfolding fresh_block_def by simp
qed

lemma bnew_ok:
  assumes i: "idle st" and g: "good_block st b" and u: "uncached st b" and e: "env_ok io mal"
  shows "\<exists>a st'. bnew io mal b st = Some (a, st') \<and> fresh_block st st' a b"
proof (cases "if cached st < NCACHE then mal (allblocks st) else None")
  case (Some a)
  then have "cached st < NCACHE" "a \<notin> set (allblocks st)" using e by (auto simp: env_ok_def split: if_splits)
  then show ?thesis using bnew_fresh [OF i g u, of a] Some by (simp add: bnew_def del: fun_upd_apply)
next
  case None
  have ok: "cache_ok st" "lists_ok st" "0 < unat (bsize st)" "\<forall>c \<in> set (allblocks st). block_ok st c" using i by (simp_all add: idle_def cache_ok_def)
  have "allblocks st \<noteq> []"
  proof
    assume "allblocks st = []"
    then have "mal [] = None" using None ok(2) by (auto simp: lists_ok_def NCACHE_def split: if_splits)
    then show False using e by (simp add: env_ok_def)
  qed
  then obtain a l where al: "allblocks st = a # l" by (cases "allblocks st") auto
  then have a: "a \<in> set (allblocks st)" by simp
  have c0: "cached st \<noteq> 0" using al ok(2) by (simp add: lists_ok_def)
  have f: "find (\<lambda>a. \<not> 0 < b_refs (blocks st a)) (allblocks st) = Some a" using al i by (simp add: idle_def)
  define st1 where "st1 = push_block io a st"
  have w: "\<forall>off. io_write io off = None" using e by (simp add: env_ok_def)
  note P = push_block_ok [OF ok(3,2,4) a w st1_def]
  have r: "\<forall>c \<in> set (allblocks st1). block_ok st1 c \<and> b_refs (blocks st1 c) = 0" using P i by (auto simp: idle_def)
  have g1: "good_block st1 b" using g P place_cong by metis
  have u1: "uncached st1 b" using u P by (simp add: uncached_def)
  have a1: "a \<in> set (allblocks st1)" "b_flags (blocks st1 a) AND B_DIRTY = 0" using a P by auto
  have l1: "lists_ok st1" using P by blast
  from bnew_reuse [OF l1 r g1 u1 a1 refl refl refl] obtain st' where
    s: "bnew io mal b st = Some (a, st')" "fresh_block st1 st' a b"
    using None c0 f by (simp add: bnew_def Let_def st1_def)
  have "fresh_block st st' a b"
  proof -
    have p: "same_place st st1" and v: "\<And>d. good_block st d \<Longrightarrow> view st1 d = view st d" using P by blast+
    have "same_place st st'" using s(2) same_place_trans [OF p] by (simp add: fresh_block_def)
    moreover have "good_block st1 = good_block st" using place_cong [OF p] by simp
    ultimately show ?thesis using s(2) v g unfolding fresh_block_def by simp
  qed
  then show ?thesis using s(1) by blast
qed

lemma junk_ok:
  assumes f: "fresh_block st st' a b" and s: "0 < unat (bsize st)" "good_block st b"
  shows "idle (bjunk a st') \<and> same_place st (bjunk a st') \<and> (\<forall>d. good_block st d \<longrightarrow> view (bjunk a st') d = view st d)"
proof -
  let ?j = "bjunk a st'"
  have p: "same_place st st'" "lists_ok st'" "a \<in> set (allblocks st')" using f by (simp_all add: fresh_block_def)
  have j: "?j = st'\<lparr>bhash := (bhash st')(chain_of (b_blkno (blocks st' a)) := remove1 a (bhash st' (chain_of (b_blkno (blocks st' a))))),
      allblocks := remove1 a (allblocks st'), cached := cached st' - 1\<rparr>" by (simp add: bjunk_def Let_def)
  have d: "distinct (allblocks st')" "\<And>x. distinct (bhash st' x)"
    "\<And>x. set (bhash st' x) = {c \<in> set (allblocks st'). chain_of (b_blkno (blocks st' c)) = x}" using p(2) by (auto simp: lists_ok_def)
  have sa: "set (allblocks ?j) = set (allblocks st') - {a}" using j d(1) by simp
  have dist: "distinct (bhash ?j x)" "set (bhash ?j x) = {c \<in> set (allblocks ?j). chain_of (b_blkno (blocks ?j c)) = x}" for x
  proof -
    have bj: "blocks ?j = blocks st'" "bhash ?j x = (if x = chain_of (b_blkno (blocks st' a)) then remove1 a (bhash st' x) else bhash st' x)"
      unfolding j by simp_all
    show "distinct (bhash ?j x)" unfolding bj using d(2) by simp
    have "set (bhash ?j x) = set (bhash st' x) - {a}" 
    proof (cases "x = chain_of (b_blkno (blocks st' a))")
      case True
      then show ?thesis unfolding bj(2) using set_remove1_eq [OF d(2) [of x]] by simp
    next
      case False
      then have "a \<notin> set (bhash st' x)" unfolding d(3) by simp
      then show ?thesis unfolding bj(2) using False by simp
    qed
    then show "set (bhash ?j x) = {c \<in> set (allblocks ?j). chain_of (b_blkno (blocks ?j c)) = x}"
      unfolding sa bj(1) d(3) by blast
  qed
  have inj: "inj_on (\<lambda>c. b_blkno (blocks ?j c)) (set (allblocks ?j))"
    using p(2) sa by (auto simp: j lists_ok_def inj_on_def)
  have l: "lists_ok ?j"
    using p(2,3) d(1) dist inj length_pos_if_in_set [OF p(3)] unfolding lists_ok_def by (auto simp: j length_remove1)
  have pj: "same_place st' ?j" by (simp add: j same_place_def)
  have v: "view ?j d = view st' d" if "d \<noteq> b" for d
    by (rule view_other [OF p(2) l pj _ that, of a]) (use f j sa in \<open>auto simp: fresh_block_def\<close>)
  have vb: "view ?j b = view st b"
  proof -
    have "uncached ?j b" using f sa by (auto simp: uncached_def fresh_block_def lists_ok_def inj_on_def j)
    then have "view ?j b = disk_bytes ?j b" by (simp add: view_out uncached_def)
    then show ?thesis using f disk_bytes_cong [OF pj] by (simp add: j fresh_block_def)
  qed
  have "\<forall>c \<in> set (allblocks ?j). block_ok ?j c \<and> b_refs (blocks ?j c) = 0"
    using f sa block_ok_cong [OF _ pj] by (auto simp: fresh_block_def j)
  moreover have "0 < unat (bsize ?j)" using s p(1) pj by (simp add: same_place_def)
  ultimately have "idle ?j" using l by (simp add: idle_def cache_ok_def)
  moreover have "view ?j d = view st d" if "good_block st d" for d
    using that v [of d] vb f by (cases "d = b") (simp_all add: fresh_block_def)
  ultimately show ?thesis using same_place_trans [OF p(1) pj] by blast
qed

lemma fill_ok:
  assumes f: "fresh_block st st' a b" and s: "0 < unat (bsize st)" "good_block st b"
    and r: "st2 = st'\<lparr>blocks := (blocks st')(a := (blocks st' a)\<lparr>b_data := disk_bytes st' b\<rparr>)\<rparr>"
  shows "holds st2 a b \<and> same_place st st2 \<and> (\<forall>d. good_block st d \<longrightarrow> view st2 d = view st d)"
proof -
  have p: "same_place st st'" "lists_ok st'" "a \<in> set (allblocks st')" "b_blkno (blocks st' a) = b" using f by (simp_all add: fresh_block_def)
  have p2: "same_place st' st2" using r by (simp add: same_place_def)
  have l2: "lists_ok st2" by (rule lists_ok_cong [OF p(2)]) (use r in simp_all)
  have db: "disk_bytes st2 = disk_bytes st'" by (rule disk_bytes_cong [OF p2]) (simp add: r)
  have g2: "good_block st2 b" using s(2) place_cong p(1) p2 by metis
  have "block_ok st2 a" using g2 db p(4) r by (simp add: block_ok_def Let_def)
  moreover have "block_ok st2 c" if "c \<in> set (allblocks st') - {a}" for c
    using f that block_ok_cong [OF _ p2, of c] r by (simp add: fresh_block_def)
  ultimately have "cache_ok st2" using l2 s(1) p(1) p2 r by (auto simp: cache_ok_def same_place_def)
  then have h: "holds st2 a b" using f p(3,4) r by (simp add: holds_def fresh_block_def)
  have "view st2 d = view st d" if "good_block st d" for d
  proof (cases "d = b")
    case True
    have "view st2 (b_blkno (blocks st2 a)) = b_data (blocks st2 a)" by (rule view_in [OF l2]) (use p(3) r in simp)
    then show ?thesis using True f r p(4) by (simp add: fresh_block_def)
  next
    case False
    have "view st2 d = view st' d"
    proof (cases "\<exists>c \<in> set (allblocks st'). b_blkno (blocks st' c) = d")
      case True
      then obtain c where c: "c \<in> set (allblocks st')" "b_blkno (blocks st' c) = d" by blast
      then have "c \<noteq> a" using p(4) False by auto
      then show ?thesis using view_in [OF l2, of c] view_in [OF p(2) c(1)] c r by simp
    next
      case out: False
      then have "view st2 d = disk_bytes st2 d" by (intro view_out) (use r in auto)
      then show ?thesis using view_out out db by simp
    qed
    then show ?thesis using f that False by (simp add: fresh_block_def)
  qed
  then show ?thesis using h same_place_trans [OF p(1) p2] by blast
qed

lemma bfind_hit:
  assumes "lists_ok st" "a \<in> set (allblocks st)" "b_blkno (blocks st a) = b"
  shows "bfind b st = Some (a, st\<lparr>blocks := (blocks st)(a := (blocks st a)\<lparr>b_refs := b_refs (blocks st a) + 1\<rparr>)\<rparr>)"
proof -
  have c: "set (bhash st (chain_of b)) = {c \<in> set (allblocks st). chain_of (b_blkno (blocks st c)) = chain_of b}"
    using assms(1) by (simp add: lists_ok_def)
  have "find (\<lambda>c. b = b_blkno (blocks st c)) (bhash st (chain_of b)) = Some a"
    by (rule find_unique) (use assms c in \<open>auto simp: lists_ok_def inj_on_def\<close>)
  then show ?thesis by (simp add: bfind_def)
qed

lemma bfind_miss:
  assumes "lists_ok st" "uncached st b"
  shows "bfind b st = None"
proof -
  have "find (\<lambda>c. b = b_blkno (blocks st c)) (bhash st (chain_of b)) = None"
    unfolding find_None_iff using assms by (auto simp: lists_ok_def uncached_def)
  then show ?thesis by (simp add: bfind_def)
qed

text \<open>A change of references and of data in place.\<close>

lemma touch_block_ok:
  assumes ok: "cache_ok st" and a: "a \<in> set (allblocks st)" "b_blkno (blocks st a) = b"
    and st': "st' = st\<lparr>blocks := (blocks st)(a := (blocks st a)\<lparr>b_refs := r, b_data := l, b_flags := f\<rparr>)\<rparr>"
    and l: "length l = unat (bsize st)" "f AND B_DIRTY \<noteq> 0 \<or> f = b_flags (blocks st a) \<and> l = b_data (blocks st a)"
  shows "cache_ok st' \<and> same_place st st' \<and> (\<forall>d. view st' d = (if d = b then l else view st d))"
proof -
  have o: "lists_ok st" "\<forall>c \<in> set (allblocks st). block_ok st c" using ok by (simp_all add: cache_ok_def)
  have p: "same_place st st'" using st' by (simp add: same_place_def)
  have lo: "lists_ok st'" by (rule lists_ok_cong [OF o(1)]) (use st' in simp_all)
  have db: "disk_bytes st' = disk_bytes st" by (rule disk_bytes_cong [OF p]) (simp add: st')
  have "block_ok st' c" if "c \<in> set (allblocks st)" for c
  proof (cases "c = a")
    case True
    then show ?thesis using o(2) that l db place_cong [OF p] p st' by (auto simp: block_ok_def Let_def same_place_def)
  next
    case False
    then show ?thesis using block_ok_cong [OF _ p, of c] o(2) that st' by simp
  qed
  then have c: "cache_ok st'" using ok lo st' by (simp add: cache_ok_def)
  have "view st' d = (if d = b then l else view st d)" for d
  proof (cases "\<exists>c \<in> set (allblocks st). b_blkno (blocks st c) = d")
    case True
    then obtain c where c: "c \<in> set (allblocks st)" "b_blkno (blocks st c) = d" by blast
    have "view st' (b_blkno (blocks st' c)) = b_data (blocks st' c)" by (rule view_in [OF lo]) (use c st' in simp)
    moreover have "c = a" if "d = b" using o(1) c a that by (auto simp: lists_ok_def inj_on_def)
    ultimately show ?thesis using view_in [OF o(1) c(1)] c(2) a(2) st' by (cases "c = a") auto
  next
    case out: False
    then have "view st' d = disk_bytes st' d" by (intro view_out) (use st' in auto)
    then show ?thesis using view_out [of st d] out db a by auto
  qed
  then show ?thesis using c p by simp
qed

lemma bget_ok:
  assumes i: "idle st" and g: "good_block st b" and e: "env_ok io mal"
  shows "\<exists>h st'. bget io mal b st = Some (h, st') \<and> same_place st st' \<and> (\<forall>d. good_block st d \<longrightarrow> view st' d = view st d) \<and>
    (case h of None \<Rightarrow> idle st' \<and> \<not> (\<forall>off. io_read io off) | Some a \<Rightarrow> holds st' a b)"
proof (cases "uncached st b")
  case True
  have l: "lists_ok st" "0 < unat (bsize st)" using i by (simp_all add: idle_def cache_ok_def)
  obtain a st1 where n: "bnew io mal b st = Some (a, st1)" "fresh_block st st1 a b" using bnew_ok [OF i g True e] by blast
  show ?thesis
  proof (cases "io_read io (boff st1 b)")
    case True
    let ?s = "st1\<lparr>blocks := (blocks st1)(a := (blocks st1 a)\<lparr>b_data := disk_bytes st1 b\<rparr>)\<rparr>"
    have "bget io mal b st = Some (Some a, ?s)" using bfind_miss [OF l(1) \<open>uncached st b\<close>] n(1) True by (simp add: bget_def)
    then show ?thesis using fill_ok [OF n(2) l(2) g refl] by (intro exI [of _ "Some a"] exI [of _ ?s]) simp
  next
    case False
    have "bget io mal b st = Some (None, bjunk a st1)" using bfind_miss [OF l(1) \<open>uncached st b\<close>] n(1) False by (simp add: bget_def)
    then show ?thesis using junk_ok [OF n(2) l(2) g] False by (intro exI [of _ None] exI [of _ "bjunk a st1"]) auto
  qed
next
  case False
  then obtain a where a: "a \<in> set (allblocks st)" "b_blkno (blocks st a) = b" by (auto simp: uncached_def)
  let ?s = "st\<lparr>blocks := (blocks st)(a := (blocks st a)\<lparr>b_refs := b_refs (blocks st a) + 1\<rparr>)\<rparr>"
  have c: "cache_ok st" "lists_ok st" using i by (simp_all add: idle_def cache_ok_def)
  have len: "length (b_data (blocks st a)) = unat (bsize st)" using c(1) a by (auto simp: cache_ok_def block_ok_def Let_def)
  have T: "cache_ok ?s \<and> same_place st ?s \<and> (\<forall>d. view ?s d = (if d = b then b_data (blocks st a) else view st d))"
    by (rule touch_block_ok [OF c(1) a _ len, where f = "b_flags (blocks st a)"]) simp_all
  then have "holds ?s a b" using a i by (simp add: holds_def idle_def)
  moreover have "view ?s d = view st d" for d using T view_in [OF c(2) a(1)] a(2) by auto
  moreover have "bget io mal b st = Some (Some a, ?s)" using bfind_hit [OF c(2) a] by (simp add: bget_def)
  ultimately show ?thesis using T by (intro exI [of _ "Some a"] exI [of _ ?s]) simp
qed

text \<open>What the handlers of the server do with a block they hold: a \<open>memcpy\<close> followed by \<open>bdirty\<close>.\<close>

definition block_put :: "addr \<Rightarrow> nat \<Rightarrow> u8 list \<Rightarrow> bcache \<Rightarrow> bcache option" where
  "block_put a off bs st = do { st1 \<leftarrow> bcopyin a off bs st; bdirty a st1 }"

lemma holds_view: "holds st a b \<Longrightarrow> view st b = b_data (blocks st a) \<and> length (b_data (blocks st a)) = unat (bsize st)"
  using view_in [of st a] by (auto simp: holds_def cache_ok_def block_ok_def Let_def)

lemma bdata_ok: "holds st a b \<Longrightarrow> bdata a st = Some (view st b)"
  using holds_view [of st a b] by (simp add: bdata_def holds_def)

lemma block_put_ok:
  assumes h: "holds st a b" and l: "off + length bs \<le> unat (bsize st)"
  shows "\<exists>st'. block_put a off bs st = Some st' \<and> holds st' a b \<and> same_place st st' \<and>
    (\<forall>d. view st' d = (if d = b then splice off bs (view st b) else view st d))"
proof -
  note hv = holds_view [OF h]
  have a: "cache_ok st" "a \<in> set (allblocks st)" "b_blkno (blocks st a) = b" "b_refs (blocks st a) = 1" using h by (auto simp: holds_def)
  let ?x = "splice off bs (view st b)" and ?f = "b_flags (blocks st a) OR B_DIRTY"
  let ?s = "st\<lparr>blocks := (blocks st)(a := (blocks st a)\<lparr>b_data := ?x, b_flags := ?f\<rparr>)\<rparr>"
  have "(blocks st a)\<lparr>b_data := ?x, b_flags := ?f\<rparr> = (blocks st a)\<lparr>b_refs := 1, b_data := ?x, b_flags := ?f\<rparr>"
    by (rule block.equality) (use a(4) in simp_all)
  then have e: "?s = st\<lparr>blocks := (blocks st)(a := (blocks st a)\<lparr>b_refs := 1, b_data := ?x, b_flags := ?f\<rparr>)\<rparr>" by (simp only:)
  have "length ?x = unat (bsize st)" using hv l by (simp add: splice_def)
  then have T: "cache_ok ?s \<and> same_place st ?s \<and> (\<forall>d. view ?s d = (if d = b then ?x else view st d))"
    by (rule touch_block_ok [OF a(1-3) e]) (rule disjI1, rule B_DIRTY_bits)
  have "block_put a off bs st = Some ?s"
    using a(4) hv l by (simp add: block_put_def bcopyin_def bdata_def bdirty_def Let_def)
  moreover have "holds ?s a b" using T h by (simp add: holds_def)
  ultimately show ?thesis using T by blast
qed

lemma bfree_ok:
  assumes h: "holds st a b"
  shows "\<exists>st'. bfree a st = Some st' \<and> idle st' \<and> same_place st st' \<and> (\<forall>d. view st' d = view st d)"
proof -
  note hv = holds_view [OF h]
  have a: "cache_ok st" "a \<in> set (allblocks st)" "b_blkno (blocks st a) = b" "b_refs (blocks st a) = 1" using h by (auto simp: holds_def)
  let ?s = "st\<lparr>blocks := (blocks st)(a := (blocks st a)\<lparr>b_refs := 0\<rparr>)\<rparr>"
  have T: "cache_ok ?s \<and> same_place st ?s \<and> (\<forall>d. view ?s d = (if d = b then b_data (blocks st a) else view st d))"
    by (rule touch_block_ok [OF a(1-3), where r = 0 and f = "b_flags (blocks st a)"]) (use hv in simp_all)
  moreover have "bfree a st = Some ?s" using a(4) by (simp add: bfree_def Let_def)
  moreover have "idle ?s" using T h by (simp add: idle_def holds_def)
  ultimately show ?thesis using hv by (intro exI [of _ ?s]) auto
qed

lemma bsync_fold:
  assumes "0 < unat (bsize st)" "lists_ok st" "\<forall>c \<in> set (allblocks st). block_ok st c" "set l \<subseteq> set (allblocks st)"
    "\<forall>off. io_write io off = None"
  shows "let st' = fold (push_block io) l st in same_place st st' \<and> lists_ok st' \<and> (\<forall>c \<in> set (allblocks st). block_ok st' c) \<and>
    allblocks st' = allblocks st \<and> (\<forall>c. b_refs (blocks st' c) = b_refs (blocks st c)) \<and>
    (\<forall>c. b_flags (blocks st c) AND B_DIRTY = 0 \<or> c \<in> set l \<longrightarrow> b_flags (blocks st' c) AND B_DIRTY = 0) \<and>
    (\<forall>b. good_block st b \<longrightarrow> view st' b = view st b)"
  using assms
proof (induction l arbitrary: st)
  case (Cons a l)
  define st1 where "st1 = push_block io a st"
  have a: "a \<in> set (allblocks st)" using Cons.prems(4) by simp
  have P: "same_place st st1" "lists_ok st1" "\<forall>c \<in> set (allblocks st). block_ok st1 c" "allblocks st1 = allblocks st"
    "\<forall>c. b_refs (blocks st1 c) = b_refs (blocks st c)" "\<forall>c. c \<noteq> a \<longrightarrow> blocks st1 c = blocks st c"
    "b_flags (blocks st1 a) AND B_DIRTY = 0" "\<forall>b. good_block st b \<longrightarrow> view st1 b = view st b"
    using push_block_ok [OF Cons.prems(1-3) a Cons.prems(5) st1_def] by simp_all
  have "0 < unat (bsize st1)" using Cons.prems(1) P(1) by (simp add: same_place_def)
  note I = Cons.IH [OF this P(2) _ _ Cons.prems(5), unfolded P(4), OF P(3)]
  have s: "set l \<subseteq> set (allblocks st)" using Cons.prems(4) by simp
  have fl: "b_flags (blocks st1 c) AND B_DIRTY = 0" if "b_flags (blocks st c) AND B_DIRTY = 0 \<or> c = a" for c
    using P(6,7) that by (cases "c = a") auto
  have gb: "good_block st1 = good_block st" using place_cong [OF P(1)] by simp
  show ?case using I [OF s] P(5,8) fl same_place_trans [OF P(1)] by (simp add: Let_def gb flip: st1_def)
qed simp

lemma bsync_ok:
  assumes i: "idle st" and e: "env_ok io mal"
  shows "idle (bsync io st) \<and> same_place st (bsync io st) \<and>
    (\<forall>b. good_block st b \<longrightarrow> view (bsync io st) b = view st b \<and> disk_bytes (bsync io st) b = view st b)"
proof -
  have o: "0 < unat (bsize st)" "lists_ok st" "\<forall>c \<in> set (allblocks st). block_ok st c" using i by (simp_all add: idle_def cache_ok_def)
  let ?s = "bsync io st"
  have w: "\<forall>off. io_write io off = None" using e by (simp add: env_ok_def)
  have F: "same_place st ?s" "lists_ok ?s" "\<forall>c \<in> set (allblocks st). block_ok ?s c" "allblocks ?s = allblocks st"
    "\<forall>c. b_refs (blocks ?s c) = b_refs (blocks st c)" "\<forall>c \<in> set (allblocks st). b_flags (blocks ?s c) AND B_DIRTY = 0"
    "\<forall>b. good_block st b \<longrightarrow> view ?s b = view st b"
    using bsync_fold [OF o order_refl w] by (simp_all add: bsync_def Let_def)
  have "disk_bytes ?s b = view ?s b" for b
  proof (cases "\<exists>c \<in> set (allblocks ?s). b_blkno (blocks ?s c) = b")
    case True
    then obtain c where c: "c \<in> set (allblocks ?s)" "b_blkno (blocks ?s c) = b" by blast
    then show ?thesis using view_in [OF F(2) c(1)] F(3,4,6) by (auto simp: block_ok_def Let_def)
  qed (use view_out in auto)
  moreover have "idle ?s" using i F o(1) by (simp add: idle_def cache_ok_def same_place_def)
  ultimately show ?thesis using F(1,7) by simp
qed

text \<open>
  C40. Nobody looks whether a write to the disk succeeds: after a flush whose writes all fail the blocks
  count as clean, while the disk is as it was before, so that the data are lost when a buffer is reused.
\<close>

theorem bsync_forgets:
  assumes "\<forall>off. io_write io off = Some 0"
  shows "disk (bsync io st) = disk st \<and> (\<forall>a \<in> set (allblocks st). b_flags (blocks (bsync io st) a) AND B_DIRTY = 0)"
proof -
  have w: "disk_write off [] d = d" for off d by (rule ext) (auto simp: disk_write_def)
  have p: "disk (push_block io a st) = disk st" "b_flags (blocks (push_block io a st) a) AND B_DIRTY = 0"
    "b_flags (blocks st c) AND B_DIRTY = 0 \<Longrightarrow> b_flags (blocks (push_block io a st) c) AND B_DIRTY = 0" for a c st
    using assms w by (simp_all add: push_block_def Let_def)
  have "disk (fold (push_block io) l st) = disk st \<and>
    (\<forall>a. a \<in> set l \<or> b_flags (blocks st a) AND B_DIRTY = 0 \<longrightarrow> b_flags (blocks (fold (push_block io) l st) a) AND B_DIRTY = 0)" for l
  proof (induction l arbitrary: st)
    case (Cons a l)
    then show ?case using p by (auto simp del: fun_upd_apply)
  qed simp
  then show ?thesis by (simp add: bsync_def)
qed

definition demo_dirty :: bcache where
  "demo_dirty = \<lparr>cached = 1, blocks = (\<lambda>_. \<lparr>b_blkno = 2, b_flags = B_DIRTY, b_data = replicate 4 9, b_refs = 0\<rparr>), allblocks = [1],
     bhash = (\<lambda>h. if h = 2 then [1] else []), bsize = 4, bdata0 = 0, disk = (\<lambda>_. 7)\<rparr>"

theorem bsync_forgets_witness:
  "disk (bsync \<lparr>io_read = (\<lambda>_. True), io_write = (\<lambda>_. Some 0)\<rparr> demo_dirty) 0 = 7 \<and>
   b_flags (blocks (bsync \<lparr>io_read = (\<lambda>_. True), io_write = (\<lambda>_. Some 0)\<rparr> demo_dirty) 1) AND B_DIRTY = 0 \<and>
   b_data (blocks demo_dirty 1) = [9, 9, 9, 9]"
proof -
  have d: "disk demo_dirty 0 = 7" "1 \<in> set (allblocks demo_dirty)" "b_data (blocks demo_dirty 1) = [9, 9, 9, 9]"
    by (simp_all add: demo_dirty_def numeral_eq_Suc)
  show ?thesis using bsync_forgets [of "\<lparr>io_read = (\<lambda>_. True), io_write = (\<lambda>_. Some 0)\<rparr>" demo_dirty] d by simp
qed

section \<open>The interface\<close>

text \<open>
  What the handlers of the server rely on: a store of blocks \<open>shown\<close>, which an operation changes only
  where it writes.  \<open>inv\<close> holds while nothing is referenced, \<open>held st h b\<close> while \<open>h\<close> is the only
  reference, to the block \<open>b\<close>; \<open>reads\<close> says that the disk can be read.
\<close>

locale block_store =
  fixes get :: "u32 \<Rightarrow> 'c \<Rightarrow> ('h option \<times> 'c) option"
    and dat :: "'h \<Rightarrow> 'c \<Rightarrow> u8 list option"
    and put :: "'h \<Rightarrow> nat \<Rightarrow> u8 list \<Rightarrow> 'c \<Rightarrow> 'c option"
    and rel :: "'h \<Rightarrow> 'c \<Rightarrow> 'c option"
    and inv :: "'c \<Rightarrow> bool"
    and held :: "'c \<Rightarrow> 'h \<Rightarrow> u32 \<Rightarrow> bool"
    and shown :: "'c \<Rightarrow> u32 \<Rightarrow> u8 list"
    and good :: "'c \<Rightarrow> u32 \<Rightarrow> bool"
    and place :: "'c \<Rightarrow> 'p"
    and bytes_of :: "'p \<Rightarrow> nat"
    and reads :: bool
  assumes get: "inv st \<Longrightarrow> good st b \<Longrightarrow> \<exists>h st'. get b st = Some (h, st') \<and> good st' = good st \<and> place st' = place st \<and>
      (\<forall>d. good st d \<longrightarrow> shown st' d = shown st d) \<and> (case h of None \<Rightarrow> inv st' \<and> \<not> reads | Some a \<Rightarrow> held st' a b)"
    and dat: "held st a b \<Longrightarrow> dat a st = Some (shown st b)"
    and put: "held st a b \<Longrightarrow> off + length bs \<le> bytes_of (place st) \<Longrightarrow> \<exists>st'. put a off bs st = Some st' \<and> held st' a b \<and>
      good st' = good st \<and> place st' = place st \<and> (\<forall>d. shown st' d = (if d = b then splice off bs (shown st b) else shown st d))"
    and rel: "held st a b \<Longrightarrow> \<exists>st'. rel a st = Some st' \<and> inv st' \<and> good st' = good st \<and> place st' = place st \<and> shown st' = shown st"
    and size_of: "inv st \<Longrightarrow> length (shown st b) = bytes_of (place st)"

lemma view_length: "cache_ok st \<Longrightarrow> length (view st b) = unat (bsize st)"
proof (cases "uncached st b")
  case False
  assume c: "cache_ok st"
  from False obtain a where "a \<in> set (allblocks st)" "b_blkno (blocks st a) = b" by (auto simp: uncached_def)
  then show ?thesis using view_in [of st a] c by (auto simp: cache_ok_def block_ok_def Let_def)
qed (simp add: view_out uncached_def)

lemma same_place_parts: "same_place st st' \<Longrightarrow> good_block st' = good_block st \<and> (bsize st', bdata0 st') = (bsize st, bdata0 st)"
  using place_cong [of st st'] by (simp add: same_place_def)

interpretation bc: block_store "bget io mal" bdata block_put bfree "\<lambda>st. env_ok io mal \<and> idle st"
  "\<lambda>st a b. env_ok io mal \<and> holds st a b" view good_block "\<lambda>st. (bsize st, bdata0 st)" "\<lambda>p. unat (fst p)" "\<forall>off. io_read io off" for io mal
proof
  fix st :: bcache and b d :: u32 and a :: addr and off :: nat and bs :: "u8 list"
  show "\<exists>h st'. bget io mal b st = Some (h, st') \<and> good_block st' = good_block st \<and> (bsize st', bdata0 st') = (bsize st, bdata0 st) \<and>
      (\<forall>d. good_block st d \<longrightarrow> view st' d = view st d) \<and>
      (case h of None \<Rightarrow> (env_ok io mal \<and> idle st') \<and> \<not> (\<forall>off. io_read io off) | Some a \<Rightarrow> env_ok io mal \<and> holds st' a b)"
    if e: "env_ok io mal \<and> idle st" and g: "good_block st b"
  proof -
    obtain h st' where r: "bget io mal b st = Some (h, st')" "same_place st st'" "\<forall>d. good_block st d \<longrightarrow> view st' d = view st d"
      "case h of None \<Rightarrow> idle st' \<and> \<not> (\<forall>off. io_read io off) | Some a \<Rightarrow> holds st' a b" using bget_ok [of st b io mal] e g by blast
    then show ?thesis using e same_place_parts [OF r(2)] by (intro exI [of _ h] exI [of _ st']) (auto split: option.splits)
  qed
  show "bdata a st = Some (view st b)" if "env_ok io mal \<and> holds st a b" using bdata_ok that by blast
  show "\<exists>st'. block_put a off bs st = Some st' \<and> (env_ok io mal \<and> holds st' a b) \<and>
      good_block st' = good_block st \<and> (bsize st', bdata0 st') = (bsize st, bdata0 st) \<and> (\<forall>d. view st' d = (if d = b then splice off bs (view st b) else view st d))"
    if h: "env_ok io mal \<and> holds st a b" and l: "off + length bs \<le> unat (fst (bsize st, bdata0 st))"
  proof -
    obtain st' where "block_put a off bs st = Some st'" "holds st' a b" "same_place st st'"
      "\<forall>d. view st' d = (if d = b then splice off bs (view st b) else view st d)" using block_put_ok [of st a b off bs] h l by auto
    then show ?thesis using same_place_parts [of st st'] h by (intro exI [of _ st']) simp
  qed
  show "\<exists>st'. bfree a st = Some st' \<and> (env_ok io mal \<and> idle st') \<and> good_block st' = good_block st \<and> (bsize st', bdata0 st') = (bsize st, bdata0 st) \<and> view st' = view st"
    if "env_ok io mal \<and> holds st a b"
    using bfree_ok [of st a b] same_place_parts that by (metis ext)
  show "length (view st b) = unat (fst (bsize st, bdata0 st))" if "env_ok io mal \<and> idle st" using view_length that by (simp add: idle_def)
qed

end
