(* ===== verification/Dos_Files.thy ===== *)
theory Dos_Files
  imports Dos_Cache
begin

text \<open>
  Reading and writing the data of files, \<open>srv/dos/rw.c\<close>: the loops over the blocks of a file work on
  any store of blocks, which the block cache is.
\<close>

section \<open>The loops\<close>

lemma mask_less: "0 < bs \<Longrightarrow> 0 < unat (bs - (pos AND (bs - 1) :: u32))"
proof -
  assume b: "0 < bs"
  have "pos AND (bs - 1) \<le> bs - 1" by (rule word_and_le1)
  moreover have "bs \<noteq> 0" using b by auto
  then have "bs - 1 < bs" using unat_minus_one [of bs] b by (simp add: word_less_nat_alt)
  ultimately have "pos AND (bs - 1) < bs" by simp
  then have "bs - (pos AND (bs - 1)) \<noteq> 0" by auto
  then show ?thesis by (simp add: unat_gt_0)
qed

text \<open>
  \<open>do_write\<close>: the array \<open>cl\<close> of clusters, the position and the data still to write.  The result is 0
  or 1 as in the source.
\<close>

function do_write :: "(u32 \<Rightarrow> 'c \<Rightarrow> ('h option \<times> 'c) option) \<Rightarrow> ('h \<Rightarrow> nat \<Rightarrow> u8 list \<Rightarrow> 'c \<Rightarrow> 'c option) \<Rightarrow> ('h \<Rightarrow> 'c \<Rightarrow> 'c option) \<Rightarrow>
    u32 \<Rightarrow> u16 list \<Rightarrow> u32 \<Rightarrow> u8 list \<Rightarrow> 'c \<Rightarrow> (nat \<times> 'c) option" where
  "do_write get put rel bs cl pos buf st =
     (if buf = [] then Some (0, st)
      else if bs = 0 then None
      else
        let bo = pos AND (bs - 1); step = min (unat (bs - bo)) (length buf); blk = unat (pos div bs) in
        if length cl \<le> blk then None
        else do {
          (h, st1) \<leftarrow> get (ucast (cl ! blk)) st;
          case h of None \<Rightarrow> Some (1, st1)
          | Some a \<Rightarrow> do {
              st2 \<leftarrow> put a (unat bo) (take step buf) st1;
              st3 \<leftarrow> rel a st2;
              do_write get put rel bs cl (pos + of_nat step) (drop step buf) st3
            }
        })"
  by pat_completeness auto

termination
proof (relation "measure (\<lambda>(get, put, rel, bs, cl, pos, buf, st). length buf)", goal_cases)
  case (2 get put rel bs cl pos buf st bo step)
  then have "0 < step" using mask_less [of bs pos] by (simp add: word_gt_0)
  then show ?case using 2 by simp
qed simp

declare do_write.simps [simp del]

text \<open>
  The loop of \<open>dos_read\<close>, with the number of bytes still to read.  The result has the bytes, none after
  an error, and the position.
\<close>

function read_loop :: "(u32 \<Rightarrow> 'c \<Rightarrow> ('h option \<times> 'c) option) \<Rightarrow> ('h \<Rightarrow> 'c \<Rightarrow> u8 list option) \<Rightarrow> ('h \<Rightarrow> 'c \<Rightarrow> 'c option) \<Rightarrow>
    u32 \<Rightarrow> u16 list \<Rightarrow> u32 \<Rightarrow> nat \<Rightarrow> 'c \<Rightarrow> (u8 list option \<times> u32 \<times> 'c) option" where
  "read_loop get dat rel bs cl pos n st =
     (if n = 0 then Some (Some [], pos, st)
      else if bs = 0 then None
      else
        let bo = pos AND (bs - 1); step = min (unat (bs - bo)) n; blk = unat (pos div bs) in
        if length cl \<le> blk then None
        else do {
          (h, st1) \<leftarrow> get (ucast (cl ! blk)) st;
          case h of None \<Rightarrow> Some (None, pos, st1)
          | Some a \<Rightarrow> do {
              l \<leftarrow> dat a st1;
              st2 \<leftarrow> rel a st1;
              (r, pos', st3) \<leftarrow> read_loop get dat rel bs cl (pos + of_nat step) (n - step) st2;
              Some (map_option (\<lambda>rest. take step (drop (unat bo) l) @ rest) r, pos', st3)
            }
        })"
  by pat_completeness auto

termination
proof (relation "measure (\<lambda>(get, dat, rel, bs, cl, pos, n, st). n)", goal_cases)
  case (2 get dat rel bs cl pos n st bo step)
  then have "0 < step" using mask_less [of bs pos] by (simp add: word_gt_0)
  then show ?case using 2 by simp
qed simp

declare read_loop.simps [simp del]

section \<open>The bytes of a file\<close>

definition file_bytes :: "(u32 \<Rightarrow> u8 list) \<Rightarrow> u16 list \<Rightarrow> u8 list" where
  "file_bytes shown cl = concat (map (\<lambda>c. shown (ucast c)) cl)"

lemma concat_length: "\<forall>l \<in> set ls. length l = m \<Longrightarrow> length (concat ls) = m * length ls"
  by (induction ls) auto

lemma concat_take_drop:
  assumes "\<forall>l \<in> set ls. length l = m" "j < length ls" "bo + k \<le> m"
  shows "take k (drop bo (ls ! j)) = take k (drop (j * m + bo) (concat ls))"
proof -
  have s: "concat ls = concat (take j ls) @ ls ! j @ concat (drop (Suc j) ls)"
    using assms(2) id_take_nth_drop [of j ls] by (metis concat.simps(2) concat_append)
  have "length (concat (take j ls)) = m * j"
    using concat_length [of "take j ls" m] assms by (auto dest: in_set_takeD)
  moreover have "length (ls ! j) = m" using assms(1,2) by simp
  ultimately show ?thesis using assms(3) by (simp add: s mult.commute)
qed

lemma concat_splice:
  assumes "\<forall>l \<in> set ls. length l = m" "j < length ls" "bo + length bs \<le> m"
  shows "concat (ls[j := splice bo bs (ls ! j)]) = splice (j * m + bo) bs (concat ls)"
proof -
  have s: "concat ls = concat (take j ls) @ ls ! j @ concat (drop (Suc j) ls)"
    using assms(2) id_take_nth_drop [of j ls] by (metis concat.simps(2) concat_append)
  have l: "length (concat (take j ls)) = j * m"
    using concat_length [of "take j ls" m] assms by (auto dest: in_set_takeD simp: mult.commute)
  have m: "length (ls ! j) = m" using assms(1,2) by simp
  show ?thesis using assms(2,3) l m by (simp add: s upd_conv_take_nth_drop splice_def)
qed

lemma splice_splice: "p + length a \<le> length l \<Longrightarrow> splice (p + length a) b (splice p a l) = splice p (a @ b) l"
  by (simp add: splice_def ac_simps)

lemma splice_length: "p + length a \<le> length l \<Longrightarrow> length (splice p a l) = length l"
  by (simp add: splice_def)

lemma splice_Nil [simp]: "splice p [] l = l"
  by (simp add: splice_def)

lemma pos_mask:
  assumes "unat (bs :: u32) = 2 ^ k"
  shows "unat (pos AND (bs - 1)) = unat pos mod unat bs"
proof -
  have "k < 32"
  proof (rule ccontr)
    assume "\<not> k < 32"
    then have "(2 :: nat) ^ 32 \<le> 2 ^ k" by (intro power_increasing) simp_all
    then show False using assms unat_lt_u32 [of bs] by simp
  qed
  have "bs = of_nat (unat bs)" by simp
  then have b: "bs = 2 ^ k" unfolding assms by simp
  have "pos AND (bs - 1) = take_bit k pos" by (simp add: b take_bit_eq_mask mask_eq_exp_minus_1)
  moreover have "unat (take_bit k pos) = take_bit k (unat pos)" by (rule unsigned_take_bit_eq)
  ultimately show ?thesis using assms by (simp only: take_bit_eq_mod)
qed

text \<open>One step of the loops: where it reads or writes, and how far it gets.\<close>

lemma step_place:
  assumes b: "unat (bs :: u32) = 2 ^ k" and n: "0 < n" "unat pos + n \<le> unat bs * m" "unat pos + n < 2 ^ 32"
    and bo: "bo = pos AND (bs - 1)" and step: "step = min (unat (bs - bo)) n" and blk: "blk = unat (pos div bs)"
  shows "bs \<noteq> 0" "blk < m" "unat pos = blk * unat bs + unat bo" "0 < step" "unat bo + step \<le> unat bs"
    "unat (pos + of_nat step) = unat pos + step"
proof -
  have "0 < unat bs" using b by simp
  then show b0: "bs \<noteq> 0" by (simp add: unat_gt_0)
  have o: "unat bo = unat pos mod unat bs" using pos_mask [OF b] bo by simp
  have bd: "blk = unat pos div unat bs" using blk by (simp add: unat_div_distrib)
  show "unat pos = blk * unat bs + unat bo" using o bd by simp
  have "unat pos < unat bs * m" using n by linarith
  then show "blk < m" using \<open>0 < unat bs\<close> bd by (simp add: div_less_iff_less_mult mult.commute)
  have "bo \<le> bs" using o \<open>0 < unat bs\<close> by (simp add: word_le_nat_alt less_imp_le)
  then have d: "unat (bs - bo) = unat bs - unat bo" by (rule unat_sub_le)
  have "unat bo < unat bs" using o \<open>0 < unat bs\<close> by simp
  then show "0 < step" "unat bo + step \<le> unat bs" using d n step by auto
  have s: "step \<le> n" using step by simp
  have "unat (of_nat step :: u32) = step" using s n(3) by (simp add: unat_of_nat)
  then show "unat (pos + of_nat step) = unat pos + step" using s n(3) by (subst unat_add_no_overflow) simp_all
qed

lemma unat_clust [simp]: "unat (ucast (c :: u16) :: u32) = unat c"
proof -
  have "unat c < 2 ^ 16" using unsigned_less [of c] by simp
  then show ?thesis by (simp add: unsigned_ucast_eq take_bit_nat_eq_self)
qed

lemma clust_inj [simp]: "(ucast (c :: u16) :: u32) = ucast d \<longleftrightarrow> c = d"
proof
  assume "(ucast c :: u32) = ucast d"
  then have "unat (ucast c :: u32) = unat (ucast d :: u32)" by simp
  then show "c = d" unfolding unat_clust by (simp only: word_unat_eq_iff)
qed simp

lemma file_bytes_upd:
  assumes "distinct cl" "j < length cl" "\<And>b. b \<in> ucast ` set cl \<Longrightarrow> length (v b) = m" "bo + length bs \<le> m"
    "\<And>b. b \<in> ucast ` set cl \<Longrightarrow> v' b = (if b = ucast (cl ! j) then splice bo bs (v b) else v b)"
  shows "file_bytes v' cl = splice (j * m + bo) bs (file_bytes v cl)"
proof -
  let ?ls = "map (\<lambda>c. v (ucast c)) cl"
  have "map (\<lambda>c. v' (ucast c)) cl = ?ls[j := splice bo bs (?ls ! j)]"
    using assms(1,2,5) by (intro nth_equalityI) (auto simp: nth_list_update nth_eq_iff_index_eq)
  then show ?thesis using concat_splice [of ?ls m j bo bs] assms(2-4) by (simp add: file_bytes_def)
qed

lemma file_bytes_length:
  assumes "\<And>b. b \<in> ucast ` set cl \<Longrightarrow> length (v b) = m"
  shows "length (file_bytes v cl) = m * length cl"
  using concat_length [of "map (\<lambda>c. v (ucast c)) cl" m] assms by (simp add: file_bytes_def)

section \<open>Files on a store of blocks\<close>

context block_store begin

text \<open>A store that differs from another one only in the blocks of \<open>cl\<close>.\<close>

definition only :: "'c \<Rightarrow> u16 list \<Rightarrow> 'c \<Rightarrow> bool" where
  "only st cl st' = (inv st' \<and> good st' = good st \<and> place st' = place st \<and>
     (\<forall>d. good st d \<and> d \<notin> ucast ` set cl \<longrightarrow> shown st' d = shown st d))"

lemma write_step:
  assumes i: "inv st" and g: "good st (ucast (cl ! j))" "\<forall>c \<in> set cl. good st (ucast c)" and cl: "distinct cl" "j < length cl" and l: "bo + length bs \<le> bytes_of (place st)"
  shows "\<exists>h st1. get (ucast (cl ! j)) st = Some (h, st1) \<and>
    (case h of None \<Rightarrow> \<not> reads \<and> only st cl st1
     | Some a \<Rightarrow> \<exists>st2 st3. put a bo bs st1 = Some st2 \<and> rel a st2 = Some st3 \<and> only st cl st3 \<and>
         file_bytes (shown st3) cl = splice (j * bytes_of (place st) + bo) bs (file_bytes (shown st) cl))"
proof -
  let ?b = "ucast (cl ! j) :: u32"
  obtain h st1 where r: "get ?b st = Some (h, st1)" "good st1 = good st" "place st1 = place st"
    "\<forall>d. good st d \<longrightarrow> shown st1 d = shown st d" "case h of None \<Rightarrow> inv st1 \<and> \<not> reads | Some a \<Rightarrow> held st1 a ?b"
    using get [OF i g(1)] by blast
  show ?thesis
  proof (cases h)
    case None
    then show ?thesis using r by (intro exI [of _ None] exI [of _ st1]) (simp add: only_def)
  next
    case (Some a)
    then have h: "held st1 a ?b" using r(5) by simp
    obtain st2 where p: "put a bo bs st1 = Some st2" "held st2 a ?b" "good st2 = good st" "place st2 = place st"
      "\<forall>d. shown st2 d = (if d = ?b then splice bo bs (shown st1 ?b) else shown st1 d)"
      using put [OF h] l r(2,3) by fastforce
    obtain st3 where q: "rel a st2 = Some st3" "inv st3" "good st3 = good st" "place st3 = place st" "shown st3 = shown st2"
      using rel [OF p(2)] p(3,4) by auto
    have m: "?b \<in> ucast ` set cl" using cl(2) by simp
    have o: "only st cl st3" unfolding only_def using q p(5) r(4) m by auto
    have "file_bytes (shown st3) cl = splice (j * bytes_of (place st) + bo) bs (file_bytes (shown st) cl)"
      by (rule file_bytes_upd [OF cl]) (use size_of [OF i] l q(5) p(5) r(4) g in auto)
    then show ?thesis using r(1) Some p(1) q(1) o by (intro exI [of _ "Some a"] exI [of _ st1]) simp
  qed
qed

lemma only_refl: "inv st \<Longrightarrow> only st cl st"
  by (simp add: only_def)

lemma only_trans: "only a cl b \<Longrightarrow> only b cl c \<Longrightarrow> only a cl c"
  by (simp add: only_def)

lemma do_write_ok:
  assumes "inv st" "\<forall>c \<in> set cl. good st (ucast c)" "distinct cl" "bytes_of (place st) = unat bs" "unat bs = 2 ^ k"
    "unat pos + length buf \<le> unat bs * length cl" "unat pos + length buf < 2 ^ 32"
  shows "\<exists>r st'. do_write get put rel bs cl pos buf st = Some (r, st') \<and> only st cl st' \<and> (r = 0 \<or> r = 1 \<and> \<not> reads) \<and>
    (r = 0 \<longrightarrow> file_bytes (shown st') cl = splice (unat pos) buf (file_bytes (shown st) cl))"
  using assms
proof (induction "length buf" arbitrary: pos buf st rule: less_induct)
  case less
  show ?case
  proof (cases "buf = []")
    case True
    have "do_write get put rel bs cl pos buf st = Some (0, st)" using True by (subst do_write.simps) simp
    then show ?thesis using only_refl [OF less.prems(1)] True by (intro exI [of _ 0] exI [of _ st]) simp
  next
    case False
    define bo step blk where d: "bo = pos AND (bs - 1)" "step = min (unat (bs - bo)) (length buf)" "blk = unat (pos div bs)"
    have n: "0 < length buf" using False by simp
    note S = step_place [OF less.prems(5) n less.prems(6,7) d]
    have lt: "length (take step buf) = step" using d(2) by simp
    have g: "good st (ucast (cl ! blk))" using less.prems(2) S(2) by simp
    have w: "unat bo + length (take step buf) \<le> bytes_of (place st)" using S(5) less.prems(4) lt by simp
    obtain h st1 where r: "get (ucast (cl ! blk)) st = Some (h, st1)"
      "case h of None \<Rightarrow> \<not> reads \<and> only st cl st1
       | Some a \<Rightarrow> \<exists>st2 st3. put a (unat bo) (take step buf) st1 = Some st2 \<and> rel a st2 = Some st3 \<and> only st cl st3 \<and>
           file_bytes (shown st3) cl = splice (blk * bytes_of (place st) + unat bo) (take step buf) (file_bytes (shown st) cl)"
      using write_step [OF less.prems(1) g less.prems(2,3) S(2) w] by blast
    have u: "do_write get put rel bs cl pos buf st = (case h of None \<Rightarrow> Some (1, st1) | Some a \<Rightarrow> do {
        st2 \<leftarrow> put a (unat bo) (take step buf) st1; st3 \<leftarrow> rel a st2;
        do_write get put rel bs cl (pos + of_nat step) (drop step buf) st3 })"
      using False S(1,2) r(1) by (subst do_write.simps) (simp only: Let_def d [symmetric], simp)
    show ?thesis
    proof (cases h)
      case None
      then show ?thesis using u r(2) by (intro exI [of _ 1] exI [of _ st1]) simp
    next
      case (Some a)
      then obtain st2 st3 where q: "put a (unat bo) (take step buf) st1 = Some st2" "rel a st2 = Some st3" "only st cl st3"
        "file_bytes (shown st3) cl = splice (unat pos) (take step buf) (file_bytes (shown st) cl)"
        using r(2) S(3) less.prems(4) by auto
      have len: "length (drop step buf) < length buf" using S(4) n by simp
      have st3: "inv st3" "\<forall>c \<in> set cl. good st3 (ucast c)" "bytes_of (place st3) = unat bs" using q(3) less.prems(2,4) by (simp_all add: only_def)
      have "step \<le> length buf" using d(2) by simp
      then have p: "unat (pos + of_nat step) + length (drop step buf) = unat pos + length buf" using S(6) by simp
      obtain r st' where i: "do_write get put rel bs cl (pos + of_nat step) (drop step buf) st3 = Some (r, st')" "only st3 cl st'"
        "r = 0 \<or> r = 1 \<and> \<not> reads"
        "r = 0 \<longrightarrow> file_bytes (shown st') cl = splice (unat (pos + of_nat step)) (drop step buf) (file_bytes (shown st3) cl)"
        using less.hyps [OF len st3(1,2) less.prems(3) st3(3) less.prems(5), of "pos + of_nat step", unfolded p, OF less.prems(6,7)] by (elim exE conjE) (rule that)
      have fl: "length (file_bytes (shown st) cl) = unat bs * length cl"
        by (rule file_bytes_length) (use size_of [OF less.prems(1)] less.prems(4) in simp)
      have "splice (unat (pos + of_nat step)) (drop step buf) (file_bytes (shown st3) cl) = splice (unat pos) buf (file_bytes (shown st) cl)"
        using splice_splice [of "unat pos" "take step buf" "file_bytes (shown st) cl" "drop step buf"] fl less.prems(6) lt S(6) q(4) \<open>step \<le> length buf\<close> by simp
      then show ?thesis using u Some q(1,2) i only_trans [OF q(3) i(2)] by (intro exI [of _ r] exI [of _ st']) simp
    qed
  qed
qed

lemma read_step:
  assumes i: "inv st" and g: "good st (ucast (cl ! j))" and cl: "j < length cl" and l: "bo + n \<le> bytes_of (place st)"
  shows "\<exists>h st1. get (ucast (cl ! j)) st = Some (h, st1) \<and>
    (case h of None \<Rightarrow> \<not> reads \<and> only st [] st1
     | Some a \<Rightarrow> \<exists>x st2. dat a st1 = Some x \<and> rel a st1 = Some st2 \<and> only st [] st2 \<and>
         take n (drop bo x) = take n (drop (j * bytes_of (place st) + bo) (file_bytes (shown st) cl)))"
proof -
  let ?b = "ucast (cl ! j) :: u32"
  obtain h st1 where r: "get ?b st = Some (h, st1)" "good st1 = good st" "place st1 = place st"
    "\<forall>d. good st d \<longrightarrow> shown st1 d = shown st d" "case h of None \<Rightarrow> inv st1 \<and> \<not> reads | Some a \<Rightarrow> held st1 a ?b"
    using get [OF i g] by blast
  show ?thesis
  proof (cases h)
    case None
    then show ?thesis using r by (intro exI [of _ None] exI [of _ st1]) (simp add: only_def)
  next
    case (Some a)
    then have h: "held st1 a ?b" using r(5) by simp
    obtain st2 where q: "rel a st1 = Some st2" "inv st2" "good st2 = good st" "place st2 = place st" "shown st2 = shown st1"
      using rel [OF h] r(2,3) by auto
    have "take n (drop bo (shown st ?b)) = take n (drop (j * bytes_of (place st) + bo) (file_bytes (shown st) cl))"
      using concat_take_drop [of "map (\<lambda>c. shown st (ucast c)) cl" "bytes_of (place st)" j bo n] size_of [OF i] cl l by (simp add: file_bytes_def)
    moreover have "only st [] st2" using q r(4) by (simp add: only_def)
    ultimately show ?thesis using r(1,4) g Some dat [OF h] q(1) by (intro exI [of _ "Some a"] exI [of _ st1]) simp
  qed
qed

lemma read_loop_ok:
  assumes "inv st" "\<forall>c \<in> set cl. good st (ucast c)" "bytes_of (place st) = unat bs" "unat bs = 2 ^ k"
    "unat pos + n \<le> unat bs * length cl" "unat pos + n < 2 ^ 32"
  shows "\<exists>r pos' st'. read_loop get dat rel bs cl pos n st = Some (r, pos', st') \<and> only st [] st' \<and>
    (case r of None \<Rightarrow> \<not> reads \<and> unat pos \<le> unat pos' \<and> unat pos' \<le> unat pos + n
     | Some l \<Rightarrow> l = take n (drop (unat pos) (file_bytes (shown st) cl)) \<and> unat pos' = unat pos + n)"
  using assms
proof (induction n arbitrary: pos st rule: less_induct)
  case (less n)
  show ?case
  proof (cases "n = 0")
    case True
    have "read_loop get dat rel bs cl pos n st = Some (Some [], pos, st)" using True by (subst read_loop.simps) simp
    then show ?thesis using only_refl [OF less.prems(1)] True by (intro exI [of _ "Some []"] exI [of _ pos] exI [of _ st]) simp
  next
    case False
    define bo step blk where d: "bo = pos AND (bs - 1)" "step = min (unat (bs - bo)) n" "blk = unat (pos div bs)"
    have n: "0 < n" using False by simp
    note S = step_place [OF less.prems(4) n less.prems(5,6) d]
    have g: "good st (ucast (cl ! blk))" using less.prems(2) S(2) by simp
    have w: "unat bo + step \<le> bytes_of (place st)" using S(5) less.prems(3) by simp
    obtain h st1 where r: "get (ucast (cl ! blk)) st = Some (h, st1)"
      "case h of None \<Rightarrow> \<not> reads \<and> only st [] st1
       | Some a \<Rightarrow> \<exists>x st2. dat a st1 = Some x \<and> rel a st1 = Some st2 \<and> only st [] st2 \<and>
           take step (drop (unat bo) x) = take step (drop (blk * bytes_of (place st) + unat bo) (file_bytes (shown st) cl))"
      using read_step [OF less.prems(1) g S(2) w] by blast
    have u: "read_loop get dat rel bs cl pos n st = (case h of None \<Rightarrow> Some (None, pos, st1) | Some a \<Rightarrow> do {
        l \<leftarrow> dat a st1; st2 \<leftarrow> rel a st1;
        (r, pos', st3) \<leftarrow> read_loop get dat rel bs cl (pos + of_nat step) (n - step) st2;
        Some (map_option (\<lambda>rest. take step (drop (unat bo) l) @ rest) r, pos', st3) })"
      using False S(1,2) r(1) by (subst read_loop.simps) (simp only: Let_def d [symmetric], simp)
    show ?thesis
    proof (cases h)
      case None
      then show ?thesis using u r(2) by (intro exI [of _ None] exI [of _ pos] exI [of _ st1]) simp
    next
      case (Some a)
      then obtain x st2 where q: "dat a st1 = Some x" "rel a st1 = Some st2" "only st [] st2"
        "take step (drop (unat bo) x) = take step (drop (unat pos) (file_bytes (shown st) cl))"
        using r(2) S(3) less.prems(3) by auto
      have len: "n - step < n" using S(4) n by simp
      have st2: "inv st2" "\<forall>c \<in> set cl. good st2 (ucast c)" "bytes_of (place st2) = unat bs" using q(3) less.prems(2,3) by (simp_all add: only_def)
      have sn: "step \<le> n" using d(2) by simp
      have fb: "file_bytes (shown st2) cl = file_bytes (shown st) cl"
        using q(3) less.prems(2) by (auto simp: only_def file_bytes_def intro!: arg_cong [of _ _ concat])
      have p: "unat (pos + of_nat step) + (n - step) = unat pos + n" using S(6) sn by simp
      obtain r pos' st' where i: "read_loop get dat rel bs cl (pos + of_nat step) (n - step) st2 = Some (r, pos', st')" "only st2 [] st'"
        "case r of None \<Rightarrow> \<not> reads \<and> unat (pos + of_nat step) \<le> unat pos' \<and> unat pos' \<le> unat pos + n
         | Some l \<Rightarrow> l = take (n - step) (drop (unat (pos + of_nat step)) (file_bytes (shown st2) cl)) \<and> unat pos' = unat pos + n"
        using less.IH [OF len st2 less.prems(4), of "pos + of_nat step", unfolded p, OF less.prems(5,6)] by (elim exE conjE) (rule that)
      have t: "take step y @ take (n - step) (drop step y) = take n y" for y :: "u8 list"
        using take_add [of step "n - step" y] sn by simp
      have o: "only st [] st'" by (rule only_trans [OF q(3) i(2)])
      show ?thesis
      proof (cases r)
        case None
        then show ?thesis using u Some q(1,2) i p S(6) o by (intro exI [of _ None] exI [of _ pos'] exI [of _ st']) simp
      next
        case (Some l)
        have "take step (drop (unat bo) x) @ l = take n (drop (unat pos) (file_bytes (shown st) cl))"
          using i(3) Some fb q(4) S(6) t [of "drop (unat pos) (file_bytes (shown st) cl)"] by (simp add: add.commute)
        then show ?thesis using u \<open>h = Some a\<close> q(1,2) i p Some o
          by (intro exI [of _ "Some (take step (drop (unat bo) x) @ l)"] exI [of _ pos'] exI [of _ st']) simp
      qed
    qed
  qed
qed

end

section \<open>Open files\<close>

definition T_DIR :: u32 where "T_DIR = 1"
definition T_FILE :: u32 where "T_FILE = 2"
definition N_DIRTY :: u32 where "N_DIRTY = 1"
definition ACC_WRITE :: u32 where "ACC_WRITE = 2"

text \<open>
  \<open>nodes\<close> are all files and directories of the disk that own clusters, those that nobody has open
  too; \<open>files\<close> are the open files of the clients.
\<close>

record node =
  n_type :: u32
  n_clust :: clust
  n_flags :: u32
  n_len :: u32

record open_file =
  f_perm :: u32
  f_pos :: u32
  f_node :: nat

record dos =
  fats :: fatfs
  cache :: bcache
  nodes :: "node list"
  files :: "open_file list"

text \<open>What a client gets: an error of the server, that of the failed transfer, or a value with data.\<close>

datatype reply = Msg_err errstr | Msg_strerror | Msg_reply u32 "u8 list"

text \<open>The test whether a write needs more clusters: the result of \<open>clust_setlen\<close> and the node.\<close>

definition grow_file :: "bool \<Rightarrow> node \<Rightarrow> u32 \<Rightarrow> fatfs \<Rightarrow> (nat \<times> node \<times> fatfs) option" where
  "grow_file mem n newlen fs =
     (if n_len n < newlen then do {
        (r, c, fs1) \<leftarrow> clust_setlen mem (n_clust n) newlen fs;
        Some (r, if r = 0 then n\<lparr>n_clust := c, n_len := newlen\<rparr> else n\<lparr>n_clust := c\<rparr>, fs1)
      } else Some (0, n, fs))"

definition dos_write :: "io \<Rightarrow> (addr list \<Rightarrow> addr option) \<Rightarrow> bool \<Rightarrow> nat \<Rightarrow> u8 list \<Rightarrow> dos \<Rightarrow> (reply \<times> dos) option" where
  "dos_write io mal mem i buf st =
     (if length (files st) \<le> i \<or> length (nodes st) \<le> f_node (files st ! i) then None
      else
        let f = files st ! i; k = f_node f; n = nodes st ! k; len = of_nat (length buf) in
        if n_type n = T_DIR \<or> f_perm f AND ACC_WRITE = 0 then Some (Msg_err EPERM, st)
        else do {
          (r, n1, fs1) \<leftarrow> grow_file mem n (f_pos f + len) (fats st);
          let n2 = n1\<lparr>n_flags := n_flags n1 OR N_DIRTY\<rparr>;
          if r \<noteq> 0 then Some (Msg_err ENOSPC, st\<lparr>nodes := (nodes st)[k := n1], fats := fs1\<rparr>)
          else do {
            (e, c1) \<leftarrow> do_write (bget io mal) block_put bfree (clsize fs1) (c_clust (n_clust n2)) (f_pos f) buf (cache st);
            let st1 = st\<lparr>nodes := (nodes st)[k := n2], fats := fs1, cache := c1\<rparr>;
            if e \<noteq> 0 then Some (Msg_strerror, st1)
            else Some (Msg_reply len [], st1\<lparr>files := (files st)[i := f\<lparr>f_pos := f_pos f + len\<rparr>]\<rparr>)
          }
        })"

text \<open>
  Directories.  The blocks of a directory are not interpreted here: \<open>dirview\<close> tells which node is
  the root, and what \<open>dir_copy\<close> finds in a slot, the eight bytes of the name and the three of the
  extension.  \<open>readdir_loop\<close> is the loop of \<open>dos_readdir\<close>, with the position, and the buffer as far as it is
  filled; the length of that is \<open>x\<close> of the source.  \<open>None\<close> is the debug assertion of \<open>pack_name\<close>, or a
  directory of deleted entries without an end.
\<close>

record dirview =
  is_root :: "nat \<Rightarrow> bool"
  dir_copy :: "nat \<Rightarrow> u32 \<Rightarrow> (u8 list \<times> u8 list) option"

definition tolower :: "u8 \<Rightarrow> u8" where
  "tolower c = (if 65 \<le> c \<and> c \<le> 90 then c + 32 else c)"

definition pack_name :: "u8 list \<Rightarrow> u8 list \<Rightarrow> u8 list" where
  "pack_name name ext = map tolower (takeWhile (\<lambda>c. c \<noteq> 32) name) @
     (if ext ! 0 \<noteq> 32 then 46 # map tolower (takeWhile (\<lambda>c. c \<noteq> 32) ext) else [])"

partial_function (option) readdir_loop :: "(u32 \<Rightarrow> (u8 list \<times> u8 list) option) \<Rightarrow> nat \<Rightarrow> u32 \<Rightarrow> u8 list \<Rightarrow> (u8 list \<times> u32) option" where
  [code]: "readdir_loop dcopy len pos buf =
     (if len \<le> length buf then Some (buf, pos)
      else case dcopy pos of
        None \<Rightarrow> Some (buf, pos + 1)
      | Some (name, ext) \<Rightarrow>
          if name ! 0 = 0 then Some (buf, pos + 1)
          else if name ! 0 = 0xE5 then readdir_loop dcopy len (pos + 1) buf
          else if ext ! 0 = 0 then None
          else
            let file = takeWhile (\<lambda>c. c \<noteq> 0) (pack_name name ext) in
            if len \<le> length buf + length file + 1 then Some (buf, pos + 1 - 1)
            else readdir_loop dcopy len (pos + 1) (buf @ file @ [10]))"

definition dos_readdir :: "dirview \<Rightarrow> bool \<Rightarrow> nat \<Rightarrow> u32 \<Rightarrow> dos \<Rightarrow> (reply \<times> dos) option" where
  "dos_readdir dv mem i arg st =
     (let f = files st ! i; len = (if 256 < arg then 256 else arg) in
      if \<not> mem then Some (Msg_strerror, st)
      else do {
        (buf, pos) \<leftarrow> readdir_loop (dir_copy dv (f_node f)) (unat len)
          (if \<not> is_root dv (f_node f) \<and> f_pos f = 0 then 2 else f_pos f) [];
        Some (Msg_reply (of_nat (length buf)) buf, st\<lparr>files := (files st)[i := f\<lparr>f_pos := pos\<rparr>]\<rparr>)
      })"

text \<open>
  \<open>dos_read\<close> of a file; \<open>mem\<close> is whether there is storage for the data.  Counts are signed: for a
  negative one the loop does nothing.
\<close>

definition dos_read_file :: "io \<Rightarrow> (addr list \<Rightarrow> addr option) \<Rightarrow> bool \<Rightarrow> nat \<Rightarrow> u32 \<Rightarrow> dos \<Rightarrow> (reply \<times> dos) option" where
  "dos_read_file io mal mem i arg st =
     (if length (files st) \<le> i \<or> length (nodes st) \<le> f_node (files st ! i) then None
      else
        let f = files st ! i; n = nodes st ! f_node f; c = n_clust n in
        if n_len n \<le> f_pos f then Some (Msg_reply 0 [], st)
        else if c_nclust c = 0 then None
        else
          let cnt = (if n_len n - f_pos f < arg then n_len n - f_pos f else arg) in
          if \<not> mem then Some (Msg_strerror, st)
          else do {
            (r, pos, c1) \<leftarrow> read_loop (bget io mal) bdata bfree (clsize (fats st)) (clusters c) (f_pos f)
               (if sint cnt < 0 then 0 else unat cnt) (cache st);
            let st1 = st\<lparr>cache := c1, files := (files st)[i := f\<lparr>f_pos := pos\<rparr>]\<rparr>;
            Some (case r of None \<Rightarrow> Msg_strerror | Some l \<Rightarrow> Msg_reply cnt l, st1)
          })"

definition dos_read :: "dirview \<Rightarrow> io \<Rightarrow> (addr list \<Rightarrow> addr option) \<Rightarrow> bool \<Rightarrow> nat \<Rightarrow> u32 \<Rightarrow> dos \<Rightarrow> (reply \<times> dos) option" where
  "dos_read dv io mal mem i arg st =
     (if length (files st) \<le> i \<or> length (nodes st) \<le> f_node (files st ! i) then None
      else if n_type (nodes st ! f_node (files st ! i)) = T_DIR then dos_readdir dv mem i arg st
      else dos_read_file io mal mem i arg st)"

definition dos_seek :: "nat \<Rightarrow> u32 \<Rightarrow> dos \<Rightarrow> (reply \<times> dos) option" where
  "dos_seek i arg st =
     (if length (files st) \<le> i then None
      else if sint arg < 0 then Some (Msg_err EINVAL, st)
      else Some (Msg_reply 0 [], st\<lparr>files := (files st)[i := (files st ! i)\<lparr>f_pos := arg\<rparr>]\<rparr>))"

section \<open>The contents of files\<close>

text \<open>The bytes of all clusters of a node, and the contents of the file that it is.\<close>

definition raw :: "dos \<Rightarrow> nat \<Rightarrow> u8 list" where
  "raw st j = file_bytes (view (cache st)) (clusters (n_clust (nodes st ! j)))"

definition contents :: "dos \<Rightarrow> nat \<Rightarrow> u8 list" where
  "contents st j = take (unat (n_len (nodes st ! j))) (raw st j)"

definition node_ok :: "u32 \<Rightarrow> node \<Rightarrow> bool" where
  "node_ok bs n = (c_nclust (n_clust n) \<le> length (c_clust (n_clust n)) \<and> unat (n_len n) \<le> unat bs * c_nclust (n_clust n))"

definition chains :: "dos \<Rightarrow> u16 list list" where
  "chains st = map (\<lambda>n. clusters (n_clust n)) (nodes st)"

definition dos_ok :: "dos \<Rightarrow> bool" where
  "dos_ok st = (files_ok (fats st) (chains st) \<and> disk_ok (fats st) \<and> idle (cache st) \<and> bsize (cache st) = clsize (fats st) \<and>
     bdata0 (cache st) = data0 (fats st) \<and> (\<exists>k. unat (clsize (fats st)) = 2 ^ k) \<and>
     (\<forall>c :: u16. 2 \<le> unat c \<and> unat c < nclust (fats st) \<longrightarrow> good_block (cache st) (ucast c)) \<and>
     (\<forall>n \<in> set (nodes st). node_ok (clsize (fats st)) n) \<and> (\<forall>f \<in> set (files st). f_node f < length (nodes st)))"

lemma do_write_prefix:
  assumes "unat bs = 2 ^ k" "unat pos + length buf \<le> unat bs * length cl" "unat pos + length buf < 2 ^ 32"
  shows "do_write get put rel bs (cl @ rest) pos buf st = do_write get put rel bs cl pos buf st"
  using assms(2,3)
proof (induction "length buf" arbitrary: pos buf st rule: less_induct)
  case less
  show ?case
  proof (cases "buf = []")
    case True
    then show ?thesis by (simp add: do_write.simps)
  next
    case False
    define bo step blk where d: "bo = pos AND (bs - 1)" "step = min (unat (bs - bo)) (length buf)" "blk = unat (pos div bs)"
    have n: "0 < length buf" using False by simp
    note S = step_place [OF assms(1) n less.prems d]
    have "step \<le> length buf" using d(2) by simp
    then have p: "unat (pos + of_nat step) + length (drop step buf) = unat pos + length buf" using S(6) by simp
    have len: "length (drop step buf) < length buf" using S(4) n by simp
    note I = less.hyps [OF len, of "pos + of_nat step", unfolded p, OF less.prems]
    have I: "do_write get put rel bs (cl @ rest) (pos + of_nat step) (drop step buf) = do_write get put rel bs cl (pos + of_nat step) (drop step buf)"
      by (rule ext) (rule I)
    have nth: "(cl @ rest) ! blk = cl ! blk" "blk < length (cl @ rest)" using S(2) by (simp_all add: nth_append)
    show ?thesis
      by (subst (1 2) do_write.simps) (simp only: Let_def d [symmetric] nth I S(2) if_False linorder_not_less [symmetric] not_not if_True False)
  qed
qed

lemma file_bytes_take:
  assumes "\<And>b. length (v b) = m"
  shows "file_bytes v (take j cl) = take (m * j) (file_bytes v cl)"
proof (induction cl arbitrary: j)
  case (Cons c cl)
  then show ?case using assms by (cases j) (simp_all add: file_bytes_def)
qed (simp add: file_bytes_def)

lemma file_bytes_cong: "(\<And>c. c \<in> set cl \<Longrightarrow> v (ucast c) = w (ucast c)) \<Longrightarrow> file_bytes v cl = file_bytes w cl"
  by (simp add: file_bytes_def cong: map_cong)

lemma dos_okD:
  assumes "dos_ok st"
  shows "files_ok (fats st) (chains st)" "idle (cache st)" "bsize (cache st) = clsize (fats st)" "\<exists>k. unat (clsize (fats st)) = 2 ^ k"
    "\<And>c :: u16. 2 \<le> unat c \<Longrightarrow> unat c < nclust (fats st) \<Longrightarrow> good_block (cache st) (ucast c)"
    "\<And>n. n \<in> set (nodes st) \<Longrightarrow> node_ok (clsize (fats st)) n" "\<And>f. f \<in> set (files st) \<Longrightarrow> f_node f < length (nodes st)"
    "disk_ok (fats st)" "bdata0 (cache st) = data0 (fats st)"
  using assms unfolding dos_ok_def by blast+

lemma chains_nth: "j < length (nodes st) \<Longrightarrow> chains st ! j = clusters (n_clust (nodes st ! j)) \<and> length (chains st) = length (nodes st)"
  by (simp add: chains_def)

lemma chain_clusters:
  assumes "dos_ok st" "j < length (nodes st)"
  shows "distinct (clusters (n_clust (nodes st ! j)))"
    "\<forall>c \<in> set (clusters (n_clust (nodes st ! j))). good_block (cache st) (ucast c)"
    "length (clusters (n_clust (nodes st ! j))) = c_nclust (n_clust (nodes st ! j))"
proof -
  have n: "nodes st ! j \<in> set (nodes st)" using assms(2) by simp
  have f: "files_ok (fats st) (chains st)" by (rule dos_okD [OF assms(1)])
  have m: "clusters (n_clust (nodes st ! j)) \<in> set (chains st)" using n by (simp add: chains_def)
  show "distinct (clusters (n_clust (nodes st ! j)))" using f m by (auto simp: files_ok_def distinct_concat_iff)
  show "\<forall>c \<in> set (clusters (n_clust (nodes st ! j))). good_block (cache st) (ucast c)"
    using f m dos_okD(5) [OF assms(1)] unfolding files_ok_def by auto
  show "length (clusters (n_clust (nodes st ! j))) = c_nclust (n_clust (nodes st ! j))"
    using dos_okD(6) [OF assms(1) n] by (simp add: node_ok_def clusters_def)
qed

lemma concat_apart:
  assumes "distinct (concat ls)" "i < j" "j < length ls"
  shows "set (ls ! i) \<inter> set (ls ! j) = {}"
proof -
  have "ls = take j ls @ ls ! j # drop (Suc j) ls" using assms(3) by (rule id_take_nth_drop)
  then have "concat ls = concat (take j ls) @ ls ! j @ concat (drop (Suc j) ls)"
    by (metis concat.simps(2) concat_append)
  moreover have "ls ! i \<in> set (take j ls)" using assms(2,3) by (auto simp: in_set_conv_nth intro!: exI [of _ i])
  ultimately show ?thesis using assms(1) by fastforce
qed

lemma chains_apart:
  assumes "dos_ok st" "i < length (nodes st)" "j < length (nodes st)" "i \<noteq> j" "c \<in> set (clusters (n_clust (nodes st ! j)))"
  shows "c \<notin> set (clusters (n_clust (nodes st ! i)))"
proof -
  have d: "distinct (concat (chains st))" using dos_okD(1) [OF assms(1)] by (simp add: files_ok_def)
  have "set (chains st ! i) \<inter> set (chains st ! j) = {}"
    using concat_apart [OF d, of i j] concat_apart [OF d, of j i] assms(2-4) by (cases "i < j") (auto simp: chains_def)
  then show ?thesis using assms(2,3,5) chains_nth by fastforce
qed

lemma view_size: "dos_ok st \<Longrightarrow> length (view (cache st) b) = unat (clsize (fats st))"
  using view_length dos_okD(2,3) by (simp add: idle_def)

lemma raw_length:
  assumes "dos_ok st" "j < length (nodes st)"
  shows "length (raw st j) = unat (clsize (fats st)) * c_nclust (n_clust (nodes st ! j))"
  unfolding raw_def using file_bytes_length [of "clusters (n_clust (nodes st ! j))" "view (cache st)"] view_size [OF assms(1)] chain_clusters(3) [OF assms] by simp

lemma contents_length:
  assumes "dos_ok st" "j < length (nodes st)"
  shows "length (contents st j) = unat (n_len (nodes st ! j))"
  using raw_length [OF assms] dos_okD(6) [OF assms(1), of "nodes st ! j"] assms(2) by (simp add: contents_def node_ok_def)

text \<open>A change of one node and of the table.\<close>

lemma dos_ok_node:
  assumes ok: "dos_ok st" and j: "j < length (nodes st)" and f: "files_ok fs1 ((chains st)[j := clusters (n_clust n1)])"
    and s: "same_disk (fats st) fs1" and n: "node_ok (clsize (fats st)) n1" and d: "disk_ok fs1"
  shows "dos_ok (st\<lparr>nodes := (nodes st)[j := n1], fats := fs1\<rparr>)"
proof -
  have c: "chains (st\<lparr>nodes := (nodes st)[j := n1], fats := fs1\<rparr>) = (chains st)[j := clusters (n_clust n1)]"
    by (simp add: chains_def map_update)
  have "\<forall>m \<in> set ((nodes st)[j := n1]). node_ok (clsize (fats st)) m" using dos_okD(6) [OF ok] n set_update_subset_insert [of "nodes st" j n1] by auto
  then show ?thesis using dos_okD [OF ok] f s d unfolding dos_ok_def by (simp add: c same_disk_def)
qed

text \<open>Why a file cannot have the length \<open>newlen\<close>.\<close>

definition no_room :: "bool \<Rightarrow> node \<Rightarrow> u32 \<Rightarrow> fatfs \<Rightarrow> bool" where
  "no_room mem n newlen fs = (let k = clusters_for newlen (clsize fs); c = c_nclust (n_clust n) in
     c < k \<and> (\<not> mem \<or> card (free_set fs) < k - c))"

text \<open>A file that has got the length \<open>newlen\<close>: its clusters, and what is free on the disk.\<close>

definition grown :: "bool \<Rightarrow> node \<Rightarrow> u32 \<Rightarrow> fatfs \<Rightarrow> node \<Rightarrow> fatfs \<Rightarrow> bool" where
  "grown mem n newlen fs n1 fs1 = (let k = clusters_for newlen (clsize fs); c = c_nclust (n_clust n) in
     if n_len n < newlen then \<not> no_room mem n newlen fs \<and> c_nclust (n_clust n1) = k \<and> card (free_set fs1) + k = card (free_set fs) + c \<and>
       take k (clusters (n_clust n)) = take c (clusters (n_clust n1))
     else n_clust n1 = n_clust n \<and> fs1 = fs)"

lemma grow_ok_file:
  assumes ok: "dos_ok st" and j: "j < length (nodes st)" and n: "n = nodes st ! j" and nl: "unat newlen + unat (clsize (fats st)) \<le> 2 ^ 32"
  shows "\<exists>r n1 fs1. grow_file mem n newlen (fats st) = Some (r, n1, fs1) \<and>
    files_ok fs1 ((chains st)[j := clusters (n_clust n1)]) \<and> same_disk (fats st) fs1 \<and> node_ok (clsize (fats st)) n1 \<and> disk_ok fs1 \<and> n_type n1 = n_type n \<and> n_flags n1 = n_flags n \<and>
    (if r = 0 then n_len n1 = max (n_len n) newlen \<and> take (unat (n_len n)) (file_bytes (view (cache st)) (clusters (n_clust n1))) = contents st j \<and>
       grown mem n newlen (fats st) n1 fs1
     else fs1 = fats st \<and> clusters (n_clust n1) = clusters (n_clust n) \<and> c_nclust (n_clust n1) = c_nclust (n_clust n) \<and> n_len n1 = n_len n \<and>
       n_len n < newlen \<and> no_room mem n newlen (fats st))"
proof (cases "n_len n < newlen")
  case False
  have "(chains st)[j := clusters (n_clust n)] = chains st" using n j by (metis chains_nth list_update_id)
  moreover have "node_ok (clsize (fats st)) n" using dos_okD(6) [OF ok] n j by simp
  ultimately show ?thesis using False n dos_okD(1,8) [OF ok]
    by (intro exI [of _ 0] exI [of _ n] exI [of _ "fats st"]) (simp add: grow_file_def contents_def raw_def max_def grown_def)
next
  case True
  let ?c = "n_clust n" and ?bs = "unat (clsize (fats st))" and ?v = "view (cache st)"
  have nk: "node_ok (clsize (fats st)) n" using dos_okD(6) [OF ok] n j by simp
  have f: "files_ok (fats st) (chains st)" "j < length (chains st)" "clusters ?c = chains st ! j" "c_nclust ?c \<le> length (c_clust ?c)"
    using dos_okD(1) [OF ok] j n nk by (simp_all add: chains_def node_ok_def)
  obtain r c1 fs1 where r: "clust_setlen mem ?c newlen (fats st) = Some (r, c1, fs1)"
    "files_ok fs1 ((chains st)[j := clusters c1])" "c_nclust c1 \<le> length (c_clust c1)" "same_disk (fats st) fs1" "disk_ok fs1"
    "if r = 0 then c_nclust c1 = clusters_for newlen (clsize (fats st)) \<and> take (clusters_for newlen (clsize (fats st))) (chains st ! j) = take (c_nclust ?c) (clusters c1) \<and>
       card (free_set fs1) + clusters_for newlen (clsize (fats st)) = card (free_set (fats st)) + c_nclust ?c
     else fs1 = fats st \<and> clusters c1 = clusters ?c"
    using setlen_ok [OF f refl, of mem newlen] dos_okD(8) [OF ok] by auto
  have nr: "r \<noteq> 0 \<longleftrightarrow> no_room mem n newlen (fats st)"
  proof -
    have "r = (if clusters_for newlen (clsize (fats st)) \<le> c_nclust ?c \<or> mem \<and> clusters_for newlen (clsize (fats st)) - c_nclust ?c \<le> card (free_set (fats st)) then 0 else 1)"
      using setlen_ok [OF f refl, of mem newlen] r(1) by (elim exE conjE) (simp only: option.inject prod.inject)
    then show ?thesis by (auto simp: no_room_def Let_def split: if_splits)
  qed
  have p: "0 < ?bs" using dos_okD(4) [OF ok] by auto
  have cb: "clusters_for newlen (clsize (fats st)) = (unat newlen + ?bs - 1) div ?bs"
    using clusters_for_exact [OF _ nl] p by (simp add: word_gt_0 unat_gt_0)
  have fits: "unat newlen \<le> ?bs * ((unat newlen + ?bs - 1) div ?bs)"
  proof -
    have "unat newlen + ?bs - 1 < ((unat newlen + ?bs - 1) div ?bs + 1) * ?bs" using p by (simp add: dividend_less_div_times)
    then show ?thesis using p by (simp add: algebra_simps)
  qed
  show ?thesis
  proof (cases "r = 0")
    case r0: True
    let ?n1 = "n\<lparr>n_clust := c1, n_len := newlen\<rparr>" and ?k = "c_nclust c1"
    have k: "?k = clusters_for newlen (clsize (fats st))" "take ?k (clusters ?c) = take (c_nclust ?c) (clusters c1)" using r(6) r0 f(3) by simp_all
    have gr: "grown mem n newlen (fats st) ?n1 fs1" using True r(6) r0 nr k(2) by (simp add: grown_def Let_def)
    have g: "grow_file mem n newlen (fats st) = Some (0, ?n1, fs1)" using True r(1) r0 by (simp add: grow_file_def)
    have l1: "unat newlen \<le> ?bs * ?k" using fits k(1) cb by simp
    have l0: "unat (n_len n) \<le> ?bs * c_nclust ?c" "unat (n_len n) < unat newlen" using nk True by (simp_all add: node_ok_def word_less_nat_alt)
    have le: "unat (n_len n) \<le> ?bs * ?k" using l0(2) l1 by simp
    have t: "take (?bs * ?k) (file_bytes ?v (clusters ?c)) = take (?bs * c_nclust ?c) (file_bytes ?v (clusters c1))"
      using file_bytes_take [of ?v ?bs] view_size [OF ok] k(2) by metis
    have "take (unat (n_len n)) (file_bytes ?v (clusters c1)) = take (unat (n_len n)) (take (?bs * c_nclust ?c) (file_bytes ?v (clusters c1)))"
      using l0(1) by (simp add: min_def)
    also have "\<dots> = take (unat (n_len n)) (file_bytes ?v (clusters ?c))" using le by (simp flip: t add: min_def)
    finally have "take (unat (n_len n)) (file_bytes ?v (clusters (n_clust ?n1))) = contents st j"
      using n by (simp add: contents_def raw_def)
    moreover have "node_ok (clsize (fats st)) ?n1" using r(3) l1 by (simp add: node_ok_def)
    moreover have "n_len ?n1 = max (n_len n) newlen" using True by (simp add: max_def less_imp_le)
    ultimately show ?thesis using g gr r(2,4,5) by (intro exI [of _ 0] exI [of _ ?n1] exI [of _ fs1]) simp
  next
    case False
    let ?n1 = "n\<lparr>n_clust := c1\<rparr>"
    have s: "fs1 = fats st" "clusters c1 = clusters ?c" using r(6) False by simp_all
    have g: "grow_file mem n newlen (fats st) = Some (r, ?n1, fs1)" using True r(1) False by (simp add: grow_file_def)
    have "length (clusters c1) = length (clusters ?c)" using s by simp
    then have k: "c_nclust c1 = c_nclust ?c" using r(3) f(4) by (simp add: clusters_def)
    then have "node_ok (clsize (fats st)) ?n1" using nk r(3) by (simp add: node_ok_def)
    then show ?thesis using g r(2,4,5) nr s k True False by (intro exI [of _ r] exI [of _ ?n1] exI [of _ fs1]) simp
  qed
qed

text \<open>Writing into the blocks of one node.\<close>

lemma write_blocks_ok:
  assumes ok: "dos_ok st" and j: "j < length (nodes st)" and e: "env_ok io mal"
    and n: "unat pos + length buf \<le> unat (clsize (fats st)) * c_nclust (n_clust (nodes st ! j))" "unat pos + length buf < 2 ^ 32"
  shows "\<exists>r c1. do_write (bget io mal) block_put bfree (clsize (fats st)) (c_clust (n_clust (nodes st ! j))) pos buf (cache st) = Some (r, c1) \<and>
    dos_ok (st\<lparr>cache := c1\<rparr>) \<and> (\<forall>i < length (nodes st). i \<noteq> j \<longrightarrow> raw (st\<lparr>cache := c1\<rparr>) i = raw st i) \<and>
    ((\<forall>off. io_read io off) \<longrightarrow> r = 0) \<and> (r = 0 \<longrightarrow> raw (st\<lparr>cache := c1\<rparr>) j = splice (unat pos) buf (raw st j))"
proof -
  let ?cl = "clusters (n_clust (nodes st ! j))" and ?bs = "clsize (fats st)"
  obtain k where k: "unat ?bs = 2 ^ k" using dos_okD(4) [OF ok] by blast
  note C = chain_clusters [OF ok j]
  have i: "env_ok io mal \<and> idle (cache st)" using e dos_okD(2) [OF ok] by simp
  have s: "unat (fst (bsize (cache st), bdata0 (cache st))) = unat ?bs" using dos_okD(3) [OF ok] by simp
  have n': "unat pos + length buf \<le> unat ?bs * length ?cl" using n(1) C(3) by simp
  obtain r c1 where w: "do_write (bget io mal) block_put bfree ?bs ?cl pos buf (cache st) = Some (r, c1)" "bc.only io mal (cache st) ?cl c1"
    "r = 0 \<or> r = 1 \<and> \<not> (\<forall>off. io_read io off)" "r = 0 \<longrightarrow> file_bytes (view c1) ?cl = splice (unat pos) buf (file_bytes (view (cache st)) ?cl)"
    using bc.do_write_ok [OF i C(2,1) s k n' n(2)] by (elim exE conjE) (rule that)
  have "c_clust (n_clust (nodes st ! j)) = ?cl @ drop (c_nclust (n_clust (nodes st ! j))) (c_clust (n_clust (nodes st ! j)))"
    by (simp add: clusters_def)
  then have d: "do_write (bget io mal) block_put bfree ?bs (c_clust (n_clust (nodes st ! j))) pos buf (cache st) = Some (r, c1)"
    using do_write_prefix [OF k n' n(2)] w(1) by metis
  have o: "idle c1" "good_block c1 = good_block (cache st)" "bsize c1 = bsize (cache st)" "bdata0 c1 = bdata0 (cache st)"
    "\<forall>d. good_block (cache st) d \<and> d \<notin> ucast ` set ?cl \<longrightarrow> view c1 d = view (cache st) d"
    using w(2) by (simp_all add: bc.only_def)
  have b: "bsize c1 = ?bs" "bdata0 c1 = data0 (fats st)" using o(3,4) dos_okD(3,9) [OF ok] by simp_all
  have ch: "chains (st\<lparr>cache := c1\<rparr>) = chains st" by (simp add: chains_def)
  have "dos_ok (st\<lparr>cache := c1\<rparr>)" using dos_okD [OF ok] o(1,2) b unfolding dos_ok_def ch by simp
  moreover have "raw (st\<lparr>cache := c1\<rparr>) i = raw st i" if i: "i < length (nodes st)" "i \<noteq> j" for i
  proof -
    have "view c1 (ucast c) = view (cache st) (ucast c)" if c: "c \<in> set (clusters (n_clust (nodes st ! i)))" for c
    proof -
      have "c \<notin> set ?cl" using chains_apart [OF ok j i(1) i(2) [symmetric] c] .
      then have "(ucast c :: u32) \<notin> ucast ` set ?cl" by auto
      then show ?thesis using o(5) chain_clusters(2) [OF ok i(1)] c by blast
    qed
    then show ?thesis unfolding raw_def by (simp add: file_bytes_def cong: map_cong)
  qed
  moreover have "r = 0 \<longrightarrow> raw (st\<lparr>cache := c1\<rparr>) j = splice (unat pos) buf (raw st j)" using w(4) by (simp add: raw_def)
  ultimately show ?thesis using d w(3) by (intro exI [of _ r] exI [of _ c1]) auto
qed

lemma dos_ok_flags: "dos_ok st \<Longrightarrow> j < length (nodes st) \<Longrightarrow> dos_ok (st\<lparr>nodes := (nodes st)[j := (nodes st ! j)\<lparr>n_flags := x\<rparr>]\<rparr>)"
proof -
  assume ok: "dos_ok st" and j: "j < length (nodes st)"
  let ?n = "(nodes st ! j)\<lparr>n_flags := x\<rparr>"
  have nk: "node_ok (clsize (fats st)) ?n" using dos_okD(6) [OF ok, of "nodes st ! j"] j by (simp add: node_ok_def)
  have c: "(chains st)[j := clusters (n_clust ?n)] = chains st" using chains_nth [OF j] by (metis list_update_id node.select_convs(2) node.surjective node.update_convs(3))
  have "st\<lparr>nodes := (nodes st)[j := ?n], fats := fats st\<rparr> = st\<lparr>nodes := (nodes st)[j := ?n]\<rparr>" by simp
  moreover have "dos_ok (st\<lparr>nodes := (nodes st)[j := ?n], fats := fats st\<rparr>)"
    by (rule dos_ok_node [OF ok j _ _ nk]) (use c dos_okD(1,8) [OF ok] in \<open>simp_all add: same_disk_def\<close>)
  ultimately show ?thesis by simp
qed

text \<open>
  What a write does to contents: the bytes from \<open>p\<close> on are those written, the others stay; when the
  file ended before \<open>p\<close>, those in between are not said.
\<close>

definition written :: "nat \<Rightarrow> u8 list \<Rightarrow> u8 list \<Rightarrow> u8 list \<Rightarrow> bool" where
  "written p buf old new = (length new = max (length old) (p + length buf) \<and>
     (\<forall>k < length new. (p \<le> k \<and> k < p + length buf \<longrightarrow> new ! k = buf ! (k - p)) \<and>
        ((k < p \<or> p + length buf \<le> k) \<and> k < length old \<longrightarrow> new ! k = old ! k)))"

lemma splice_nth:
  assumes "p + length b \<le> length l" "k < length l"
  shows "splice p b l ! k = (if p \<le> k \<and> k < p + length b then b ! (k - p) else l ! k)"
  using assms by (auto simp: splice_def nth_append min_def)

lemma written_splice:
  assumes "n \<le> length l" "p + length b \<le> length l"
  shows "written p b (take n l) (take (max n (p + length b)) (splice p b l))"
  using assms by (auto simp: written_def splice_nth splice_length)

lemma written_inside: "written p b old new \<Longrightarrow> p \<le> length old \<Longrightarrow> new = splice p b old"
  by (rule nth_equalityI) (auto simp: written_def splice_def nth_append min_def)

lemma dos_write_ok:
  assumes ok: "dos_ok st" and e: "env_ok io mal" and i: "i < length (files st)"
    and f: "f = files st ! i" and j: "j = f_node f"
    and fit: "unat (f_pos f) + length buf + unat (clsize (fats st)) \<le> 2 ^ 32"
  shows "\<exists>r st'. dos_write io mal mem i buf st = Some (r, st') \<and> dos_ok st' \<and> length (nodes st') = length (nodes st) \<and> same_disk (fats st) (fats st') \<and>
    (\<forall>m < length (nodes st). m \<noteq> j \<longrightarrow> nodes st' ! m = nodes st ! m \<and> contents st' m = contents st m) \<and> n_type (nodes st' ! j) = n_type (nodes st ! j) \<and>
    (case r of
       Msg_err x \<Rightarrow> (if n_type (nodes st ! j) = T_DIR \<or> f_perm f AND ACC_WRITE = 0 then x = EPERM
           else x = ENOSPC \<and> n_len (nodes st ! j) < f_pos f + of_nat (length buf) \<and> no_room mem (nodes st ! j) (f_pos f + of_nat (length buf)) (fats st)) \<and>
         files st' = files st \<and> contents st' j = contents st j \<and> fats st' = fats st \<and> n_len (nodes st' ! j) = n_len (nodes st ! j) \<and>
         clusters (n_clust (nodes st' ! j)) = clusters (n_clust (nodes st ! j)) \<and> c_nclust (n_clust (nodes st' ! j)) = c_nclust (n_clust (nodes st ! j)) \<and>
         n_flags (nodes st' ! j) = n_flags (nodes st ! j)
     | Msg_strerror \<Rightarrow> \<not> (\<forall>off. io_read io off) \<and> files st' = files st
     | Msg_reply a d \<Rightarrow> grown mem (nodes st ! j) (f_pos f + of_nat (length buf)) (fats st) (nodes st' ! j) (fats st') \<and>
         n_flags (nodes st' ! j) = n_flags (nodes st ! j) OR N_DIRTY \<and> unat a = length buf \<and> d = [] \<and> n_type (nodes st ! j) \<noteq> T_DIR \<and> f_perm f AND ACC_WRITE \<noteq> 0 \<and>
         files st' = (files st)[i := f\<lparr>f_pos := f_pos f + a\<rparr>] \<and>
         unat (n_len (nodes st' ! j)) = max (unat (n_len (nodes st ! j))) (unat (f_pos f) + length buf) \<and>
         written (unat (f_pos f)) buf (contents st j) (contents st' j) \<and>
         contents st' j = take (max (unat (n_len (nodes st ! j))) (unat (f_pos f) + length buf))
           (splice (unat (f_pos f)) buf (file_bytes (view (cache st)) (clusters (n_clust (nodes st' ! j))))))"
proof -
  let ?n = "nodes st ! j" and ?len = "of_nat (length buf) :: u32"
  have jn: "j < length (nodes st)" using dos_okD(7) [OF ok, of f] i f j by simp
  have g0: "\<not> (length (files st) \<le> i \<or> length (nodes st) \<le> f_node (files st ! i))" using i jn f j by simp
  have "0 < unat (clsize (fats st))" using dos_okD(4) [OF ok] by auto
  then have lb: "0 < unat (clsize (fats st))" "length buf < 2 ^ 32" using fit by linarith+
  then have ul: "unat ?len = length buf" by (simp add: unat_of_nat)
  show ?thesis
  proof (cases "n_type ?n = T_DIR \<or> f_perm f AND ACC_WRITE = 0")
    case True
    then have "dos_write io mal mem i buf st = Some (Msg_err EPERM, st)" using g0 f j by (simp add: dos_write_def Let_def)
    then show ?thesis using ok True by (intro exI [of _ "Msg_err EPERM"] exI [of _ st]) simp
  next
    case perm: False
    let ?nl = "f_pos f + ?len"
    have un: "unat ?nl = unat (f_pos f) + length buf" using ul fit lb by (subst unat_add_no_overflow) simp_all
    have nl: "unat ?nl + unat (clsize (fats st)) \<le> 2 ^ 32" using un fit by simp
    obtain r n1 fs1 where g: "grow_file mem ?n ?nl (fats st) = Some (r, n1, fs1)"
      "files_ok fs1 ((chains st)[j := clusters (n_clust n1)])" "same_disk (fats st) fs1" "node_ok (clsize (fats st)) n1" "disk_ok fs1" "n_type n1 = n_type ?n \<and> n_flags n1 = n_flags ?n"
      "if r = 0 then n_len n1 = max (n_len ?n) ?nl \<and> take (unat (n_len ?n)) (file_bytes (view (cache st)) (clusters (n_clust n1))) = contents st j \<and>
         grown mem ?n ?nl (fats st) n1 fs1
       else fs1 = fats st \<and> clusters (n_clust n1) = clusters (n_clust ?n) \<and> c_nclust (n_clust n1) = c_nclust (n_clust ?n) \<and> n_len n1 = n_len ?n \<and>
         n_len ?n < ?nl \<and> no_room mem ?n ?nl (fats st)"
      using grow_ok_file [OF ok jn refl nl, of mem] by blast
    have cs: "clsize fs1 = clsize (fats st)" using g(3) by (simp add: same_disk_def)
    let ?s = "st\<lparr>nodes := (nodes st)[j := n1], fats := fs1\<rparr>"
    have sok: "dos_ok ?s" by (rule dos_ok_node [OF ok jn g(2-5)])
    show ?thesis
    proof (cases "r = 0")
      case False
      have "dos_write io mal mem i buf st = Some (Msg_err ENOSPC, ?s)" using g0 f j perm g(1) False by (simp add: dos_write_def Let_def)
      moreover have "contents ?s j = contents st j" using g(7) False jn by (simp add: contents_def raw_def)
      moreover have "contents ?s m = contents st m" if "m \<noteq> j" for m using that by (simp add: contents_def raw_def)
      ultimately show ?thesis using sok g(3,6,7) False perm jn by (intro exI [of _ "Msg_err ENOSPC"] exI [of _ ?s]) simp
    next
      case r0: True
      let ?n2 = "n1\<lparr>n_flags := n_flags n1 OR N_DIRTY\<rparr>"
      let ?t = "st\<lparr>nodes := (nodes st)[j := ?n2], fats := fs1\<rparr>"
      have "dos_ok (?s\<lparr>nodes := (nodes ?s)[j := (nodes ?s ! j)\<lparr>n_flags := n_flags n1 OR N_DIRTY\<rparr>]\<rparr>)"
        by (rule dos_ok_flags [OF sok]) (use jn in simp)
      then have "dos_ok (st\<lparr>fats := fs1, nodes := (nodes st)[j := ?n2]\<rparr>)" using jn by simp
      moreover have "?t = st\<lparr>fats := fs1, nodes := (nodes st)[j := ?n2]\<rparr>" by (rule dos.equality) simp_all
      ultimately have tok: "dos_ok ?t" by (simp only:)
      have tj: "j < length (nodes ?t)" "nodes ?t ! j = ?n2" "clsize (fats ?t) = clsize (fats st)" "cache ?t = cache st" using jn cs by simp_all
      have len1: "unat (n_len n1) = max (unat (n_len ?n)) (unat ?nl)" using g(7) r0 by (simp add: max_def word_le_nat_alt)
      have "unat (n_len n1) \<le> unat (clsize (fats st)) * c_nclust (n_clust n1)" using g(4) by (simp add: node_ok_def)
      then have cap: "unat (f_pos f) + length buf \<le> unat (clsize (fats ?t)) * c_nclust (n_clust (nodes ?t ! j))" using len1 un tj by simp
      have lt: "unat (f_pos f) + length buf < 2 ^ 32" using fit lb by linarith
      obtain w c1 where w: "do_write (bget io mal) block_put bfree (clsize fs1) (c_clust (n_clust ?n2)) (f_pos f) buf (cache st) = Some (w, c1)"
        "dos_ok (?t\<lparr>cache := c1\<rparr>)" "\<forall>m < length (nodes st). m \<noteq> j \<longrightarrow> raw (?t\<lparr>cache := c1\<rparr>) m = raw ?t m"
        "(\<forall>off. io_read io off) \<longrightarrow> w = 0" "w = 0 \<longrightarrow> raw (?t\<lparr>cache := c1\<rparr>) j = splice (unat (f_pos f)) buf (raw ?t j)"
        using write_blocks_ok [OF tok tj(1) e cap lt] tj cs by auto
      let ?u = "?t\<lparr>cache := c1\<rparr>"
      have other: "nodes ?u ! m = nodes st ! m \<and> contents ?u m = contents st m" if "m < length (nodes st)" "m \<noteq> j" for m
        using w(3) that by (simp add: contents_def raw_def)
      show ?thesis
      proof (cases "w = 0")
        case False
        have "dos_write io mal mem i buf st = Some (Msg_strerror, ?u)" using g0 f j perm g(1) r0 w(1) False by (simp add: dos_write_def Let_def)
        then show ?thesis using w(2,4) other False g(3,6) jn by (intro exI [of _ Msg_strerror] exI [of _ ?u]) simp
      next
        case True
        let ?f = "f\<lparr>f_pos := f_pos f + ?len\<rparr>" let ?x = "?u\<lparr>files := (files st)[i := ?f]\<rparr>"
        have d: "dos_write io mal mem i buf st = Some (Msg_reply ?len [], ?x)" using g0 f j perm g(1) r0 w(1) True by (simp add: dos_write_def Let_def)
        have fn: "\<forall>h \<in> set ((files st)[i := ?f]). f_node h < length (nodes st)"
          using dos_okD(7) [OF ok] set_update_subset_insert [of "files st" i ?f] jn j by auto
        have xc: "contents ?x m = contents ?u m" for m by (simp add: contents_def raw_def)
        have "chains ?x = chains ?u" by (simp add: chains_def)
        then have xok: "dos_ok ?x" using dos_okD [OF w(2)] fn unfolding dos_ok_def by simp
        have rl: "length (raw ?t j) = unat (clsize (fats st)) * c_nclust (n_clust n1)" using raw_length [OF tok tj(1)] tj by simp
        have wr: "written (unat (f_pos f)) buf (contents st j) (contents ?x j)"
          and ex: "contents ?x j = take (max (unat (n_len ?n)) (unat (f_pos f) + length buf)) (splice (unat (f_pos f)) buf (raw ?t j))"
        proof -
          have old: "take (unat (n_len ?n)) (raw ?t j) = contents st j" using g(7) r0 tj by (simp add: raw_def)
          have nl1: "unat (n_len ?n) \<le> length (raw ?t j)" using rl len1 \<open>unat (n_len n1) \<le> _\<close> by simp
          have "contents ?x j = take (max (unat (n_len ?n)) (unat (f_pos f) + length buf)) (raw ?u j)"
            using len1 un jn by (simp add: contents_def raw_def)
          then show x: "contents ?x j = take (max (unat (n_len ?n)) (unat (f_pos f) + length buf)) (splice (unat (f_pos f)) buf (raw ?t j))"
            using w(5) True by simp
          show "written (unat (f_pos f)) buf (contents st j) (contents ?x j)" using x written_splice [OF nl1, of "unat (f_pos f)" buf] cap rl tj old by simp
        qed
        moreover have "raw ?t j = file_bytes (view (cache st)) (clusters (n_clust (nodes ?x ! j)))" using tj jn by (simp add: raw_def)
        moreover have "unat (n_len (nodes ?x ! j)) = max (unat (n_len ?n)) (unat (f_pos f) + length buf)" using len1 un jn by simp
        moreover have "grown mem ?n ?nl (fats st) (nodes ?x ! j) (fats ?x)" using g(7) r0 jn by (simp add: grown_def Let_def)
        ultimately show ?thesis using d xok other xc ul perm g(3,6) wr ex jn
          by (intro exI [of _ "Msg_reply ?len []"] exI [of _ ?x]) simp
      qed
    qed
  qed
qed

lemma dos_read_ok:
  assumes ok: "dos_ok st" and e: "env_ok io mal" and i: "i < length (files st)"
    and f: "f = files st ! i" and j: "j = f_node f"
    and cnt: "min (unat arg) (length (contents st j) - unat (f_pos f)) < 2 ^ 31"
  shows "\<exists>r st'. dos_read_file io mal mem i arg st = Some (r, st') \<and> dos_ok st' \<and> nodes st' = nodes st \<and> fats st' = fats st \<and>
    (\<forall>m < length (nodes st). contents st' m = contents st m) \<and>
    (case r of
       Msg_err x \<Rightarrow> False
     | Msg_strerror \<Rightarrow> \<not> mem \<or> \<not> (\<forall>off. io_read io off)
     | Msg_reply a d \<Rightarrow> d = take (unat arg) (drop (unat (f_pos f)) (contents st j)) \<and> unat a = length d \<and>
         files st' = (files st)[i := f\<lparr>f_pos := f_pos f + a\<rparr>])"
proof -
  let ?n = "nodes st ! j" and ?v = "view (cache st)"
  let ?cl = "clusters (n_clust ?n)" and ?bs = "clsize (fats st)"
  have jn: "j < length (nodes st)" using dos_okD(7) [OF ok, of f] i f j by simp
  have g0: "\<not> (length (files st) \<le> i \<or> length (nodes st) \<le> f_node (files st ! i))" using i jn f j by simp
  have cl: "length (contents st j) = unat (n_len ?n)" by (rule contents_length [OF ok jn])
  show ?thesis
  proof (cases "n_len ?n \<le> f_pos f")
    case True
    then have "dos_read_file io mal mem i arg st = Some (Msg_reply 0 [], st)" using g0 f j by (simp add: dos_read_file_def Let_def)
    moreover have "drop (unat (f_pos f)) (contents st j) = []" using True cl by (simp add: word_le_nat_alt)
    moreover have "files st = (files st)[i := f\<lparr>f_pos := f_pos f + 0\<rparr>]" using f by simp
    ultimately show ?thesis using ok by (intro exI [of _ "Msg_reply 0 []"] exI [of _ st]) simp
  next
    case False
    then have lt: "unat (f_pos f) < unat (n_len ?n)" unfolding linorder_not_le word_less_nat_alt .
    have nk: "unat (n_len ?n) \<le> unat ?bs * c_nclust (n_clust ?n)" using dos_okD(6) [OF ok, of ?n] jn by (simp add: node_ok_def)
    then have c0: "c_nclust (n_clust ?n) \<noteq> 0" using lt by (cases "c_nclust (n_clust ?n)") auto
    define c where "c = (if n_len ?n - f_pos f < arg then n_len ?n - f_pos f else arg)"
    have sub: "unat (n_len ?n - f_pos f) = unat (n_len ?n) - unat (f_pos f)" using lt by (intro unat_sub_le) (simp add: word_le_nat_alt)
    have uc: "unat c = min (unat arg) (unat (n_len ?n) - unat (f_pos f))" using sub by (auto simp: c_def word_less_nat_alt)
    then have "unat c < 2147483648" using cnt cl by simp
    then have "int (unat c) < 2147483648" by linarith
    then have "uint c < 2147483648" by simp
    then have sc: "\<not> sint c < 0" using uint_ge_0 [of c] unfolding sint_u32 by simp
    show ?thesis
    proof (cases mem)
      case False
      have "dos_read_file io mal mem i arg st = Some (Msg_strerror, st)"
        using g0 f j \<open>\<not> n_len ?n \<le> f_pos f\<close> c0 False by (simp add: dos_read_file_def Let_def)
      then show ?thesis using ok False by (intro exI [of _ Msg_strerror] exI [of _ st]) simp
    next
      case mem: True
      obtain k where k: "unat ?bs = 2 ^ k" using dos_okD(4) [OF ok] by blast
      note C = chain_clusters [OF ok jn]
      have iv: "env_ok io mal \<and> idle (cache st)" using e dos_okD(2) [OF ok] by simp
      have s: "unat (fst (bsize (cache st), bdata0 (cache st))) = unat ?bs" using dos_okD(3) [OF ok] by simp
      have le: "unat (f_pos f) + unat c \<le> unat (n_len ?n)" using uc lt by simp
      then have n': "unat (f_pos f) + unat c \<le> unat ?bs * length ?cl" using nk C(3) by simp
      have n2: "unat (f_pos f) + unat c < 2 ^ 32" using le_less_trans [OF le unat_lt_u32] by simp
      obtain r pos c1 where w: "read_loop (bget io mal) bdata bfree ?bs ?cl (f_pos f) (unat c) (cache st) = Some (r, pos, c1)"
        "bc.only io mal (cache st) [] c1"
        "case r of None \<Rightarrow> \<not> (\<forall>off. io_read io off) \<and> unat (f_pos f) \<le> unat pos \<and> unat pos \<le> unat (f_pos f) + unat c
         | Some l \<Rightarrow> l = take (unat c) (drop (unat (f_pos f)) (file_bytes ?v ?cl)) \<and> unat pos = unat (f_pos f) + unat c"
        using bc.read_loop_ok [OF iv C(2) s k n' n2] by (elim exE conjE) (rule that)
      let ?st = "st\<lparr>cache := c1, files := (files st)[i := f\<lparr>f_pos := pos\<rparr>]\<rparr>"
      have d: "dos_read_file io mal mem i arg st = Some (case r of None \<Rightarrow> Msg_strerror | Some l \<Rightarrow> Msg_reply c l, ?st)"
        using g0 [folded f, folded j] \<open>\<not> n_len ?n \<le> f_pos f\<close> c0 mem w(1) sc
        unfolding dos_read_file_def Let_def f [symmetric] j [symmetric] c_def [symmetric] by simp
      have o: "idle c1" "good_block c1 = good_block (cache st)" "bsize c1 = bsize (cache st)" "bdata0 c1 = bdata0 (cache st)"
        "\<forall>d. good_block (cache st) d \<longrightarrow> view c1 d = view (cache st) d"
        using w(2) by (simp_all add: bc.only_def)
      have b: "bsize c1 = ?bs" "bdata0 c1 = data0 (fats st)" using o(3,4) dos_okD(3,9) [OF ok] by simp_all
      have ch: "chains ?st = chains st" by (simp add: chains_def)
      have fn: "\<forall>h \<in> set ((files st)[i := f\<lparr>f_pos := pos\<rparr>]). f_node h < length (nodes st)"
        using dos_okD(7) [OF ok] set_update_subset_insert [of "files st" i "f\<lparr>f_pos := pos\<rparr>"] jn j by auto
      have okst: "dos_ok ?st" using dos_okD [OF ok] o(1,2) b fn unfolding dos_ok_def ch by simp
      have ct: "contents ?st m = contents st m" if m: "m < length (nodes st)" for m
      proof -
        have "file_bytes (view c1) (clusters (n_clust (nodes st ! m))) = file_bytes ?v (clusters (n_clust (nodes st ! m)))"
          by (rule file_bytes_cong) (use o(5) chain_clusters(2) [OF ok m] in blast)
        then show ?thesis by (simp add: contents_def raw_def)
      qed
      show ?thesis
      proof (cases r)
        case None
        then show ?thesis using d okst ct w(3) by (intro exI [of _ Msg_strerror] exI [of _ ?st]) simp
      next
        case (Some l)
        have "take (unat arg) (drop (unat (f_pos f)) (contents st j)) = take (unat c) (drop (unat (f_pos f)) (raw st j))"
          unfolding contents_def uc by (simp add: drop_take)
        then have l: "l = take (unat arg) (drop (unat (f_pos f)) (contents st j))" using w(3) Some by (simp add: raw_def)
        have "length l = unat c" unfolding l using uc cl by simp
        moreover have "pos = f_pos f + c" using w(3) Some n2 by (simp add: word_unat_eq_iff unat_add_no_overflow)
        ultimately show ?thesis using d okst ct Some l by (intro exI [of _ "Msg_reply c l"] exI [of _ ?st]) simp
      qed
    qed
  qed
qed

end
