(* ===== verification/Dos_Server.thy ===== *)
theory Dos_Server
  imports Dos_Files
begin

text \<open>
  The DOS file server as its clients see it: reading, writing and seeking in open files, and the
  flush \<open>sync\<close> of \<open>srv/dos/main.c\<close>, here without the root directory, which comes with the theory of
  closing and starting again.
\<close>

section \<open>What clients see\<close>

datatype dos_op = Dwrite nat bool "u8 list" | Dread nat bool u32 | Dseek nat u32 | Dsync

text \<open>
  The contents of all files, the position in each open file, the number of clusters that each file
  has, and how many are free.
\<close>

record spec =
  sp_data :: "u8 list list"
  sp_pos :: "nat list"
  sp_held :: "nat list"
  sp_free :: nat

definition abs_dos :: "dos \<Rightarrow> spec" where
  "abs_dos st = \<lparr>sp_data = map (contents st) [0..<length (nodes st)], sp_pos = map (\<lambda>f. unat (f_pos f)) (files st),
     sp_held = map (\<lambda>n. c_nclust (n_clust n)) (nodes st), sp_free = card (free_set (fats st))\<rparr>"

text \<open>The file that a client has open, and whether the client may write to it.\<close>

definition owners :: "dos \<Rightarrow> (nat \<times> bool) list" where
  "owners st = map (\<lambda>f. (f_node f, n_type (nodes st ! f_node f) \<noteq> T_DIR \<and> f_perm f AND ACC_WRITE \<noteq> 0)) (files st)"

text \<open>
  The steps of the specification: an operation, its reply, and what becomes of the files.  A cluster
  has \<open>cs\<close> bytes.  A write is refused exactly when the client may not write, or when the file
  needs more clusters than are free or finds no storage to note them.
\<close>

fun spec_step :: "nat \<Rightarrow> (nat \<times> bool) list \<Rightarrow> dos_op \<Rightarrow> reply \<Rightarrow> spec \<Rightarrow> spec \<Rightarrow> bool" where
  "spec_step cs own (Dwrite i mem buf) r s s' =
     (let j = fst (own ! i); p = sp_pos s ! i; k = (p + length buf + cs - 1) div cs; h = sp_held s ! j;
          longer = (length (sp_data s ! j) < p + length buf) in
      if \<not> snd (own ! i) then r = Msg_err EPERM \<and> s' = s
      else if longer \<and> h < k \<and> (\<not> mem \<or> sp_free s < k - h) then r = Msg_err ENOSPC \<and> s' = s
      else \<exists>a new. r = Msg_reply a [] \<and> unat a = length buf \<and> written p buf (sp_data s ! j) new \<and>
        s' = \<lparr>sp_data = (sp_data s)[j := new], sp_pos = (sp_pos s)[i := p + length buf],
              sp_held = (if longer then (sp_held s)[j := k] else sp_held s), sp_free = (if longer then sp_free s + h - k else sp_free s)\<rparr>)"
| "spec_step cs own (Dread i mem arg) r s s' =
     (case r of Msg_err x \<Rightarrow> False | Msg_strerror \<Rightarrow> \<not> mem \<and> sp_pos s ! i < length (sp_data s ! fst (own ! i)) \<and> s' = s
      | Msg_reply a d \<Rightarrow> (mem \<or> d = []) \<and> unat a = length d \<and>
          d = take (unat arg) (drop (sp_pos s ! i) (sp_data s ! fst (own ! i))) \<and>
          s' = s\<lparr>sp_pos := (sp_pos s)[i := sp_pos s ! i + length d]\<rparr>)"
| "spec_step cs own (Dseek i arg) r s s' =
     (if sint arg < 0 then r = Msg_err EINVAL \<and> s' = s else r = Msg_reply 0 [] \<and> s' = s\<lparr>sp_pos := (sp_pos s)[i := unat arg]\<rparr>)"
| "spec_step cs own Dsync r s s' = (r = Msg_reply 0 [] \<and> s' = s)"

section \<open>The server\<close>

text \<open>\<open>short\<close> are the failures of writes of the table; the server ends after one, which is \<open>False\<close>.\<close>

definition sync_data :: "io \<Rightarrow> (nat \<Rightarrow> nat \<Rightarrow> nat option) \<Rightarrow> dos \<Rightarrow> (bool \<times> dos) option" where
  "sync_data io short st = do {
     (ok, fs) \<leftarrow> fat_sync short (fats st);
     Some (ok, st\<lparr>cache := bsync io (cache st), fats := fs\<rparr>)
   }"

fun dos_do :: "dirview \<Rightarrow> io \<Rightarrow> (addr list \<Rightarrow> addr option) \<Rightarrow> dos_op \<Rightarrow> dos \<Rightarrow> (reply \<times> dos) option" where
  "dos_do dv io mal (Dwrite i mem buf) st = dos_write io mal mem i buf st"
| "dos_do dv io mal (Dread i mem arg) st = dos_read dv io mal mem i arg st"
| "dos_do dv io mal (Dseek i arg) st = dos_seek i arg st"
| "dos_do dv io mal Dsync st = do { (ok, st1) \<leftarrow> sync_data io (\<lambda>_ _. None) st; if ok then Some (Msg_reply 0 [], st1) else None }"

text \<open>
  The files that a client names are open, no directory is read, and no count or position comes near
  the end of the numbers.
\<close>

fun fits :: "dos \<Rightarrow> dos_op \<Rightarrow> bool" where
  "fits st (Dwrite i mem buf) = (i < length (files st) \<and>
     unat (f_pos (files st ! i)) + length buf + unat (clsize (fats st)) \<le> 2 ^ 32)"
| "fits st (Dread i mem arg) = (i < length (files st) \<and> n_type (nodes st ! f_node (files st ! i)) \<noteq> T_DIR \<and>
     min (unat arg) (unat (n_len (nodes st ! f_node (files st ! i))) - unat (f_pos (files st ! i))) < 2 ^ 31)"
| "fits st (Dseek i arg) = (i < length (files st))"
| "fits st Dsync = True"

lemma sync_data_ok:
  assumes ok: "dos_ok st" and e: "env_ok io mal"
  shows "\<exists>st'. sync_data io (\<lambda>_ _. None) st = Some (True, st') \<and> dos_ok st' \<and> nodes st' = nodes st \<and> files st' = files st \<and>
    same_disk (fats st) (fats st') \<and> free_set (fats st') = free_set (fats st) \<and> (\<forall>m < length (nodes st). contents st' m = contents st m) \<and>
    (\<forall>b. good_block (cache st') b \<longrightarrow> disk_bytes (cache st') b = view (cache st') b)"
proof -
  obtain k fs where s: "fat_sync (\<lambda>_ _. None) (fats st) = Some (k, fs)" "fat fs = fat (fats st)" "same_disk (fats st) fs" "disk_ok fs" k
    using fat_sync_ok [OF dos_okD(8) [OF ok], of "\<lambda>_ _. None"] by auto
  have B: "idle (bsync io (cache st))" "same_place (cache st) (bsync io (cache st))"
    "\<forall>b. good_block (cache st) b \<longrightarrow> view (bsync io (cache st)) b = view (cache st) b \<and> disk_bytes (bsync io (cache st)) b = view (cache st) b"
    using bsync_ok [OF dos_okD(2) [OF ok] e] by simp_all
  note gb = same_place_parts [OF B(2)]
  let ?s = "st\<lparr>cache := bsync io (cache st), fats := fs\<rparr>"
  have ch: "chains ?s = chains st" by (simp add: chains_def)
  have f: "files_ok fs (chains st)" using dos_okD(1) [OF ok] s(2,3) by (simp add: files_ok_def fat_ok_def same_disk_def)
  have "dos_ok ?s" using dos_okD [OF ok] f s(3,4) B(1) gb unfolding dos_ok_def ch by (simp add: same_disk_def)
  moreover have "contents ?s m = contents st m" if m: "m < length (nodes st)" for m
  proof -
    have "file_bytes (view (bsync io (cache st))) (clusters (n_clust (nodes st ! m))) = file_bytes (view (cache st)) (clusters (n_clust (nodes st ! m)))"
      by (rule file_bytes_cong) (use B(3) chain_clusters(2) [OF ok m] in blast)
    then show ?thesis by (simp add: contents_def raw_def)
  qed
  moreover have "free_set (fats ?s) = free_set (fats st)" using s(2,3) by (simp add: free_set_def same_disk_def)
  moreover have "sync_data io (\<lambda>_ _. None) st = Some (True, ?s)" using s(1,5) by (simp add: sync_data_def)
  ultimately show ?thesis using s(3) B(3) gb by (intro exI [of _ ?s]) simp
qed

lemma abs_data_nth: "j < length (nodes st) \<Longrightarrow> sp_data (abs_dos st) ! j = contents st j"
  by (simp add: abs_dos_def)

lemma abs_same:
  assumes "nodes st' = nodes st" "files st' = files st" "free_set (fats st') = free_set (fats st)"
    and "\<And>m. m < length (nodes st) \<Longrightarrow> contents st' m = contents st m"
  shows "abs_dos st' = abs_dos st"
  using assms by (simp add: abs_dos_def)

lemma owners_nth: "i < length (files st) \<Longrightarrow>
   owners st ! i = (f_node (files st ! i), n_type (nodes st ! f_node (files st ! i)) \<noteq> T_DIR \<and> f_perm (files st ! i) AND ACC_WRITE \<noteq> 0)"
  by (simp add: owners_def)

lemma owners_pos:
  assumes "files st' = (files st)[i := (files st ! i)\<lparr>f_pos := p\<rparr>]" "i < length (files st)"
    and "\<And>m. m < length (nodes st) \<Longrightarrow> n_type (nodes st' ! m) = n_type (nodes st ! m)" "dos_ok st"
  shows "owners st' = owners st"
proof (rule nth_equalityI)
  fix k assume "k < length (owners st')"
  then have k: "k < length (files st)" "f_node (files st ! k) < length (nodes st)" using assms(1) dos_okD(7) [OF assms(4)] by (auto simp: owners_def)
  then show "owners st' ! k = owners st ! k" using assms(1-3) by (simp add: owners_def nth_list_update)
qed (simp add: owners_def assms(1))

text \<open>What the specification needs to know of a write.\<close>

lemma cluster_count:
  assumes "dos_ok st" "unat newlen + unat (clsize (fats st)) \<le> 2 ^ 32"
  shows "clusters_for newlen (clsize (fats st)) = (unat newlen + unat (clsize (fats st)) - 1) div unat (clsize (fats st))"
proof -
  have "0 < unat (clsize (fats st))" using dos_okD(4) [OF assms(1)] by auto
  then show ?thesis using clusters_for_exact [OF _ assms(2)] by (simp add: word_gt_0 unat_gt_0)
qed

lemma abs_grown:
  assumes ok: "dos_ok st" and j: "j < length (nodes st)" and g: "grown mem (nodes st ! j) newlen (fats st) (nodes st' ! j) (fats st')"
    and nl: "unat newlen + unat (clsize (fats st)) \<le> 2 ^ 32" and k: "k = (unat newlen + unat (clsize (fats st)) - 1) div unat (clsize (fats st))"
    and len: "length (nodes st') = length (nodes st)" and o: "\<And>m. m < length (nodes st) \<Longrightarrow> m \<noteq> j \<Longrightarrow> nodes st' ! m = nodes st ! m"
  shows "length (contents st j) < unat newlen \<longrightarrow> \<not> (sp_held (abs_dos st) ! j < k \<and> (\<not> mem \<or> sp_free (abs_dos st) < k - sp_held (abs_dos st) ! j))"
    "sp_held (abs_dos st') = (if length (contents st j) < unat newlen then (sp_held (abs_dos st))[j := k] else sp_held (abs_dos st))"
    "sp_free (abs_dos st') = (if length (contents st j) < unat newlen then sp_free (abs_dos st) + sp_held (abs_dos st) ! j - k else sp_free (abs_dos st))"
proof -
  have kk: "clusters_for newlen (clsize (fats st)) = k" using cluster_count [OF ok nl] k by simp
  have lt: "n_len (nodes st ! j) < newlen \<longleftrightarrow> length (contents st j) < unat newlen"
    using contents_length [OF ok j] by (simp add: word_less_nat_alt)
  note G = g [unfolded grown_def Let_def kk lt]
  show "length (contents st j) < unat newlen \<longrightarrow> \<not> (sp_held (abs_dos st) ! j < k \<and> (\<not> mem \<or> sp_free (abs_dos st) < k - sp_held (abs_dos st) ! j))"
    using G j by (auto simp: abs_dos_def no_room_def Let_def kk split: if_splits)
  show "sp_held (abs_dos st') = (if length (contents st j) < unat newlen then (sp_held (abs_dos st))[j := k] else sp_held (abs_dos st))"
    by (rule nth_equalityI) (use G j o len in \<open>auto simp: abs_dos_def nth_list_update\<close>)
  show "sp_free (abs_dos st') = (if length (contents st j) < unat newlen then sp_free (abs_dos st) + sp_held (abs_dos st) ! j - k else sp_free (abs_dos st))"
    using G j by (auto simp: abs_dos_def)
qed

lemma write_refines:
  assumes ok: "dos_ok st" and e: "env_ok io mal" and rd: "\<forall>off. io_read io off" and ft: "fits st (Dwrite i mem buf)"
  shows "\<exists>r st'. dos_write io mal mem i buf st = Some (r, st') \<and> dos_ok st' \<and> owners st' = owners st \<and> same_disk (fats st) (fats st') \<and>
    spec_step (unat (clsize (fats st))) (owners st) (Dwrite i mem buf) r (abs_dos st) (abs_dos st')"
proof -
  have i: "i < length (files st)" and fit: "unat (f_pos (files st ! i)) + length buf + unat (clsize (fats st)) \<le> 2 ^ 32"
    using ft by simp_all
  let ?f = "files st ! i" and ?j = "f_node (files st ! i)" and ?cs = "unat (clsize (fats st))"
  let ?may = "n_type (nodes st ! ?j) \<noteq> T_DIR \<and> f_perm ?f AND ACC_WRITE \<noteq> 0"
  let ?nl = "f_pos ?f + of_nat (length buf)" and ?k = "(unat (f_pos ?f) + length buf + ?cs - 1) div ?cs"
  have jn: "?j < length (nodes st)" using dos_okD(7) [OF ok] i by simp
  have "0 < ?cs" using dos_okD(4) [OF ok] by auto
  then have lb: "length buf < 2 ^ 32" "unat (f_pos ?f) + length buf < 2 ^ 32" using fit by linarith+
  have un: "unat ?nl = unat (f_pos ?f) + length buf" using lb by (subst unat_add_no_overflow) (simp_all add: unat_of_nat)
  have nl: "unat ?nl + ?cs \<le> 2 ^ 32" "?k = (unat ?nl + ?cs - 1) div ?cs" using un fit by simp_all
  have kk: "clusters_for ?nl (clsize (fats st)) = ?k" using cluster_count [OF ok nl(1)] un by simp
  have sp: "sp_pos (abs_dos st) ! i = unat (f_pos ?f)" "sp_data (abs_dos st) ! ?j = contents st ?j" "sp_held (abs_dos st) ! ?j = c_nclust (n_clust (nodes st ! ?j))"
    "sp_free (abs_dos st) = card (free_set (fats st))"
    using i jn by (simp_all add: abs_dos_def)
  have lt: "n_len (nodes st ! ?j) < ?nl \<longleftrightarrow> length (contents st ?j) < unat (f_pos ?f) + length buf"
    using contents_length [OF ok jn] un by (simp add: word_less_nat_alt)
  obtain r st' where w: "dos_write io mal mem i buf st = Some (r, st')" "dos_ok st'" "length (nodes st') = length (nodes st)" "same_disk (fats st) (fats st')"
    "\<forall>m < length (nodes st). m \<noteq> ?j \<longrightarrow> nodes st' ! m = nodes st ! m \<and> contents st' m = contents st m" "n_type (nodes st' ! ?j) = n_type (nodes st ! ?j)"
    "case r of
       Msg_err x \<Rightarrow> (if n_type (nodes st ! ?j) = T_DIR \<or> f_perm ?f AND ACC_WRITE = 0 then x = EPERM
           else x = ENOSPC \<and> n_len (nodes st ! ?j) < ?nl \<and> no_room mem (nodes st ! ?j) ?nl (fats st)) \<and>
         files st' = files st \<and> contents st' ?j = contents st ?j \<and> fats st' = fats st \<and> n_len (nodes st' ! ?j) = n_len (nodes st ! ?j) \<and>
         clusters (n_clust (nodes st' ! ?j)) = clusters (n_clust (nodes st ! ?j)) \<and> c_nclust (n_clust (nodes st' ! ?j)) = c_nclust (n_clust (nodes st ! ?j)) \<and>
         n_flags (nodes st' ! ?j) = n_flags (nodes st ! ?j)
     | Msg_strerror \<Rightarrow> \<not> (\<forall>off. io_read io off) \<and> files st' = files st
     | Msg_reply a d \<Rightarrow> grown mem (nodes st ! ?j) ?nl (fats st) (nodes st' ! ?j) (fats st') \<and>
         n_flags (nodes st' ! ?j) = n_flags (nodes st ! ?j) OR N_DIRTY \<and> unat a = length buf \<and> d = [] \<and> n_type (nodes st ! ?j) \<noteq> T_DIR \<and>
         f_perm ?f AND ACC_WRITE \<noteq> 0 \<and> files st' = (files st)[i := ?f\<lparr>f_pos := f_pos ?f + a\<rparr>] \<and>
         unat (n_len (nodes st' ! ?j)) = max (unat (n_len (nodes st ! ?j))) (unat (f_pos ?f) + length buf) \<and>
         written (unat (f_pos ?f)) buf (contents st ?j) (contents st' ?j) \<and>
         contents st' ?j = take (max (unat (n_len (nodes st ! ?j))) (unat (f_pos ?f) + length buf))
           (splice (unat (f_pos ?f)) buf (file_bytes (view (cache st)) (clusters (n_clust (nodes st' ! ?j)))))"
    using dos_write_ok [OF ok e i refl refl fit, of mem] by (elim exE conjE) (rule that)
  have ty: "n_type (nodes st' ! m) = n_type (nodes st ! m)" if "m < length (nodes st)" for m using w(5,6) that by (cases "m = ?j") simp_all
  show ?thesis
  proof (cases r)
    case (Msg_err x)
    note W = w(7) [unfolded Msg_err reply.case]
    have c: "contents st' m = contents st m" if "m < length (nodes st)" for m using w(5) W that by (cases "m = ?j") simp_all
    have h: "map (\<lambda>n. c_nclust (n_clust n)) (nodes st') = map (\<lambda>n. c_nclust (n_clust n)) (nodes st)"
      by (rule nth_equalityI) (use w(3,5) W in \<open>simp_all, metis\<close>)
    have fe: "files st' = (files st)[i := ?f\<lparr>f_pos := f_pos ?f\<rparr>]" using W by simp
    have ow: "owners st' = owners st" by (rule owners_pos [OF fe i ty ok])
    have "abs_dos st' = abs_dos st" unfolding abs_dos_def h using w(3) W c by simp
    moreover have "(if \<not> ?may then r = Msg_err EPERM else length (contents st ?j) < unat (f_pos ?f) + length buf \<and>
        no_room mem (nodes st ! ?j) ?nl (fats st) \<and> r = Msg_err ENOSPC)" using W Msg_err lt by (auto split: if_splits)
    ultimately have "spec_step ?cs (owners st) (Dwrite i mem buf) r (abs_dos st) (abs_dos st')"
      by (simp add: Let_def owners_nth [OF i] sp no_room_def kk split: if_splits)
    then show ?thesis using w(1,2,4) ow by blast
  next
    case Msg_strerror
    then show ?thesis using w(7) rd by simp
  next
    case (Msg_reply a d)
    note W = w(7) [unfolded Msg_reply reply.case]
    have ul: "unat (f_pos ?f + a) = unat (f_pos ?f) + length buf" using W lb by (subst unat_add_no_overflow) simp_all
    have fe: "files st' = (files st)[i := ?f\<lparr>f_pos := f_pos ?f + a\<rparr>]" using W by simp
    then have p: "sp_pos (abs_dos st') = (sp_pos (abs_dos st))[i := unat (f_pos ?f) + length buf]" using ul by (simp add: abs_dos_def map_update)
    have "map (contents st') [0..<length (nodes st)] = (map (contents st) [0..<length (nodes st)])[?j := contents st' ?j]"
      by (rule nth_equalityI) (use w(5) jn in \<open>auto simp: nth_list_update\<close>)
    then have q: "sp_data (abs_dos st') = (sp_data (abs_dos st))[?j := contents st' ?j]" using w(3) by (simp add: abs_dos_def)
    have G: "grown mem (nodes st ! ?j) ?nl (fats st) (nodes st' ! ?j) (fats st')" using W by simp
    note A = abs_grown [OF ok jn G nl w(3), unfolded un]
    have o: "m < length (nodes st) \<Longrightarrow> m \<noteq> ?j \<Longrightarrow> nodes st' ! m = nodes st ! m" for m using w(5) by simp
    have "written (unat (f_pos ?f)) buf (contents st ?j) (contents st' ?j)" "unat a = length buf" "d = []" "?may" using W by blast+
    moreover have "abs_dos st' = \<lparr>sp_data = (sp_data (abs_dos st))[?j := contents st' ?j], sp_pos = (sp_pos (abs_dos st))[i := unat (f_pos ?f) + length buf],
        sp_held = (if length (contents st ?j) < unat (f_pos ?f) + length buf then (sp_held (abs_dos st))[?j := ?k] else sp_held (abs_dos st)),
        sp_free = (if length (contents st ?j) < unat (f_pos ?f) + length buf then sp_free (abs_dos st) + sp_held (abs_dos st) ! ?j - ?k else sp_free (abs_dos st))\<rparr>"
      using A(2,3) [OF o] p q by (intro spec.equality) simp_all
    ultimately have "spec_step ?cs (owners st) (Dwrite i mem buf) r (abs_dos st) (abs_dos st')"
      unfolding spec_step.simps Let_def owners_nth [OF i] fst_conv snd_conv sp(1,2) Msg_reply using A(1) [OF o]
      by (auto simp del: spec.ext_inject)
    moreover have "owners st' = owners st" by (rule owners_pos [OF fe i ty ok])
    ultimately show ?thesis using w(1,2,4) by blast
  qed
qed

lemma dos_read_mem:
  assumes "dos_read_file io mal mem i arg st = Some (r, st')" "dos_ok st" "f_node (files st ! i) < length (nodes st)" "i < length (files st)"
  shows "\<not> mem \<longrightarrow> st' = st \<and> (r = Msg_strerror \<and> unat (f_pos (files st ! i)) < length (contents st (f_node (files st ! i))) \<or> (\<exists>a. r = Msg_reply a []))"
  using assms(1) contents_length [OF assms(2,3)] unfolding dos_read_file_def Let_def
  by (auto simp: word_less_nat_alt not_le split: if_splits)

lemma read_refines:
  assumes ok: "dos_ok st" and e: "env_ok io mal" and rd: "\<forall>off. io_read io off" and ft: "fits st (Dread i mem arg)"
  shows "\<exists>r st'. dos_read dv io mal mem i arg st = Some (r, st') \<and> dos_ok st' \<and> owners st' = owners st \<and> same_disk (fats st) (fats st') \<and>
    spec_step (unat (clsize (fats st))) (owners st) (Dread i mem arg) r (abs_dos st) (abs_dos st')"
proof -
  have i: "i < length (files st)" and nd: "n_type (nodes st ! f_node (files st ! i)) \<noteq> T_DIR" using ft by simp_all
  let ?f = "files st ! i" and ?j = "f_node (files st ! i)"
  have jn: "?j < length (nodes st)" using dos_okD(7) [OF ok] i by simp
  have fl: "dos_read dv io mal mem i arg st = dos_read_file io mal mem i arg st" using i jn nd by (simp add: dos_read_def)
  have own: "fst (owners st ! i) = ?j" using i by (simp add: owners_def)
  have cl: "length (contents st ?j) = unat (n_len (nodes st ! ?j))" by (rule contents_length [OF ok jn])
  have cnt: "min (unat arg) (length (contents st ?j) - unat (f_pos ?f)) < 2 ^ 31" unfolding cl using ft by simp
  obtain r st' where w: "dos_read_file io mal mem i arg st = Some (r, st')" "dos_ok st'" "nodes st' = nodes st" "fats st' = fats st"
    "\<forall>m < length (nodes st). contents st' m = contents st m"
    "case r of Msg_err x \<Rightarrow> False | Msg_strerror \<Rightarrow> \<not> mem \<or> \<not> (\<forall>off. io_read io off)
     | Msg_reply a d \<Rightarrow> d = take (unat arg) (drop (unat (f_pos ?f)) (contents st ?j)) \<and> unat a = length d \<and>
         files st' = (files st)[i := ?f\<lparr>f_pos := f_pos ?f + a\<rparr>]"
    using dos_read_ok [OF ok e i refl refl cnt, of mem] by (elim exE conjE) (rule that)
  note M = dos_read_mem [OF w(1) ok jn i]
  have sd: "same_disk (fats st) (fats st')" using w(4) by simp
  have sp: "sp_pos (abs_dos st) ! i = unat (f_pos ?f)" "sp_data (abs_dos st) ! ?j = contents st ?j" using i jn by (simp_all add: abs_dos_def)
  show ?thesis
  proof (cases r)
    case (Msg_err x)
    then show ?thesis using w(6) by simp
  next
    case Msg_strerror
    then have m: "\<not> mem" using w(6) rd by simp
    then have "st' = st" "unat (f_pos ?f) < length (contents st ?j)" using M Msg_strerror by auto
    then show ?thesis using w(1,2) m Msg_strerror fl own sp by (intro exI [of _ r] exI [of _ st']) simp
  next
    case (Msg_reply a d)
    then have R: "d = take (unat arg) (drop (unat (f_pos ?f)) (contents st ?j))" "unat a = length d" "files st' = (files st)[i := ?f\<lparr>f_pos := f_pos ?f + a\<rparr>]"
      using w(6) by simp_all
    have md: "mem \<or> d = []" using M Msg_reply by auto
    have "unat (f_pos ?f + a) = unat (f_pos ?f) + length d"
    proof (cases "d = []")
      case True
      then have "a = 0" using R(2) by (simp add: unat_eq_0)
      then show ?thesis using True by simp
    next
      case False
      then have "unat (f_pos ?f) + length d \<le> length (contents st ?j)" using R(1) by auto
      then have "unat (f_pos ?f) + unat a \<le> unat (n_len (nodes st ! ?j))" using R(2) cl by simp
      from le_less_trans [OF this unat_lt_u32] show ?thesis using R(2) by (subst unat_add_no_overflow) simp_all
    qed
    then have p: "sp_pos (abs_dos st') = (sp_pos (abs_dos st))[i := unat (f_pos ?f) + length d]" using R(3) by (simp add: abs_dos_def map_update)
    have q: "sp_data (abs_dos st') = sp_data (abs_dos st)" "sp_held (abs_dos st') = sp_held (abs_dos st)" "sp_free (abs_dos st') = sp_free (abs_dos st)"
      using w(3-5) by (simp_all add: abs_dos_def)
    have "abs_dos st' = (abs_dos st)\<lparr>sp_pos := (sp_pos (abs_dos st))[i := sp_pos (abs_dos st) ! i + length d]\<rparr>"
      by (rule spec.equality) (use p q i sp in \<open>simp_all only: spec.simps, simp_all\<close>)
    then have "spec_step (unat (clsize (fats st))) (owners st) (Dread i mem arg) r (abs_dos st) (abs_dos st')"
      using R md Msg_reply own sp by simp
    moreover have "owners st' = owners st" by (rule owners_pos [OF R(3) i _ ok]) (simp add: w(3))
    ultimately show ?thesis using w(1,2) sd fl by (intro exI [of _ r] exI [of _ st']) simp
  qed
qed

lemma seek_refines:
  assumes ok: "dos_ok st" and ft: "fits st (Dseek i arg)"
  shows "\<exists>r st'. dos_seek i arg st = Some (r, st') \<and> dos_ok st' \<and> owners st' = owners st \<and> same_disk (fats st) (fats st') \<and>
    spec_step (unat (clsize (fats st))) (owners st) (Dseek i arg) r (abs_dos st) (abs_dos st')"
proof (cases "sint arg < 0")
  case True
  then show ?thesis using ok ft by (intro exI [of _ "Msg_err EINVAL"] exI [of _ st]) (simp add: dos_seek_def)
next
  case False
  let ?s = "st\<lparr>files := (files st)[i := (files st ! i)\<lparr>f_pos := arg\<rparr>]\<rparr>"
  have fn: "\<forall>h \<in> set (files ?s). f_node h < length (nodes st)"
    using dos_okD(7) [OF ok] set_update_subset_insert [of "files st" i "(files st ! i)\<lparr>f_pos := arg\<rparr>"] ft by auto
  have i: "i < length (files st)" using ft by simp
  have "chains ?s = chains st" by (simp add: chains_def)
  then have "dos_ok ?s" using dos_okD [OF ok] fn unfolding dos_ok_def by simp
  moreover have "abs_dos ?s = (abs_dos st)\<lparr>sp_pos := (sp_pos (abs_dos st))[i := unat arg]\<rparr>"
    by (rule spec.equality) (simp_all add: abs_dos_def contents_def raw_def map_update)
  moreover have "owners ?s = owners st" by (rule nth_equalityI) (simp_all add: owners_def nth_list_update i)
  ultimately show ?thesis using False ft by (intro exI [of _ "Msg_reply 0 []"] exI [of _ ?s]) (simp add: dos_seek_def)
qed

lemma sync_refines:
  assumes ok: "dos_ok st" and e: "env_ok io mal"
  shows "\<exists>r st'. dos_do dv io mal Dsync st = Some (r, st') \<and> dos_ok st' \<and> owners st' = owners st \<and> same_disk (fats st) (fats st') \<and>
    spec_step (unat (clsize (fats st))) (owners st) Dsync r (abs_dos st) (abs_dos st')"
proof -
  obtain st' where s: "sync_data io (\<lambda>_ _. None) st = Some (True, st')" "dos_ok st'" "nodes st' = nodes st" "files st' = files st"
    "same_disk (fats st) (fats st')" "free_set (fats st') = free_set (fats st)" "\<forall>m < length (nodes st). contents st' m = contents st m"
    using sync_data_ok [OF ok e] by blast
  have "abs_dos st' = abs_dos st" by (rule abs_same) (use s in simp_all)
  then show ?thesis using s by (intro exI [of _ "Msg_reply 0 []"] exI [of _ st']) (simp add: owners_def)
qed

text \<open>Every operation of the server is a step of the specification.\<close>

lemma dos_do_refines:
  assumes "dos_ok st" "env_ok io mal" "\<forall>off. io_read io off" "fits st opn"
  shows "\<exists>r st'. dos_do dv io mal opn st = Some (r, st') \<and> dos_ok st' \<and> owners st' = owners st \<and> same_disk (fats st) (fats st') \<and>
    spec_step (unat (clsize (fats st))) (owners st) opn r (abs_dos st) (abs_dos st')"
proof (cases opn)
  case (Dwrite i mem buf)
  show ?thesis unfolding Dwrite dos_do.simps by (rule write_refines) (use assms Dwrite in simp_all)
next
  case (Dread i mem arg)
  show ?thesis unfolding Dread dos_do.simps by (rule read_refines) (use assms Dread in simp_all)
next
  case (Dseek i arg)
  show ?thesis unfolding Dseek dos_do.simps by (rule seek_refines) (use assms Dseek in simp_all)
next
  case Dsync
  show ?thesis unfolding Dsync by (rule sync_refines) (use assms in simp_all)
qed

section \<open>Histories\<close>

fun dos_run :: "dirview \<Rightarrow> io \<Rightarrow> (addr list \<Rightarrow> addr option) \<Rightarrow> dos_op list \<Rightarrow> dos \<Rightarrow> (reply list \<times> dos) option" where
  "dos_run dv io mal [] st = Some ([], st)"
| "dos_run dv io mal (opn # ops) st = do {
     (r, st1) \<leftarrow> dos_do dv io mal opn st;
     (rs, st2) \<leftarrow> dos_run dv io mal ops st1;
     Some (r # rs, st2)
   }"

fun all_fit :: "dirview \<Rightarrow> io \<Rightarrow> (addr list \<Rightarrow> addr option) \<Rightarrow> dos_op list \<Rightarrow> dos \<Rightarrow> bool" where
  "all_fit dv io mal [] st = True"
| "all_fit dv io mal (opn # ops) st = (fits st opn \<and> (case dos_do dv io mal opn st of None \<Rightarrow> True | Some (r, st1) \<Rightarrow> all_fit dv io mal ops st1))"

inductive spec_run :: "nat \<Rightarrow> (nat \<times> bool) list \<Rightarrow> dos_op list \<Rightarrow> reply list \<Rightarrow> spec \<Rightarrow> spec \<Rightarrow> bool" for cs own where
  spec_nil: "spec_run cs own [] [] s s"
| spec_cons: "spec_step cs own opn r s s1 \<Longrightarrow> spec_run cs own ops rs s1 s2 \<Longrightarrow> spec_run cs own (opn # ops) (r # rs) s s2"

inductive_cases spec_run_Cons: "spec_run cs own (opn # ops) (r # rs) s s'"

lemma dos_run_refines:
  assumes "dos_ok st" "env_ok io mal" "\<forall>off. io_read io off" "all_fit dv io mal ops st"
  shows "\<exists>rs st'. dos_run dv io mal ops st = Some (rs, st') \<and> dos_ok st' \<and> owners st' = owners st \<and> same_disk (fats st) (fats st') \<and>
    spec_run (unat (clsize (fats st))) (owners st) ops rs (abs_dos st) (abs_dos st')"
  using assms(1,4)
proof (induction ops arbitrary: st)
  case Nil
  then show ?case by (simp add: spec_nil)
next
  case (Cons opn ops)
  obtain r st1 where s: "dos_do dv io mal opn st = Some (r, st1)" "dos_ok st1" "owners st1 = owners st" "same_disk (fats st) (fats st1)"
    "spec_step (unat (clsize (fats st))) (owners st) opn r (abs_dos st) (abs_dos st1)"
    using dos_do_refines [OF Cons.prems(1) assms(2,3), of opn dv] Cons.prems(2) by auto
  obtain rs st' where t: "dos_run dv io mal ops st1 = Some (rs, st')" "dos_ok st'" "owners st' = owners st1" "same_disk (fats st1) (fats st')"
    "spec_run (unat (clsize (fats st1))) (owners st1) ops rs (abs_dos st1) (abs_dos st')"
    using Cons.IH [OF s(2)] Cons.prems(2) s(1) by auto
  have "clsize (fats st1) = clsize (fats st)" using s(4) by (simp add: same_disk_def)
  moreover have "dos_run dv io mal (opn # ops) st = Some (r # rs, st')" using s(1) t(1) by simp
  ultimately show ?case using t(2,3) s(3) same_disk_trans [OF s(4) t(4)] spec_cons [OF s(5)] t(5) by auto
qed

lemma binit_idle: "0 < unat bs \<Longrightarrow> idle (binit bs d0 d mem)"
  by (simp add: idle_def cache_ok_def lists_ok_def binit_def)

section \<open>The properties of the server\<close>

text \<open>A disk with a file of 600 bytes in two clusters and an empty file, both open for writing.\<close>

definition demo_io :: io where
  "demo_io = \<lparr>io_read = (\<lambda>_. True), io_write = (\<lambda>_. None)\<rparr>"

definition demo_mal :: "addr list \<Rightarrow> addr option" where
  "demo_mal l = Some (sum_list l + 1)"

definition demo_dos :: dos where
  "demo_dos = \<lparr>fats = demo_fat, cache = binit 512 33280 (\<lambda>_. 7) (\<lambda>_. \<lparr>b_blkno = 0, b_flags = 0, b_data = [], b_refs = 0\<rparr>),
     nodes = [\<lparr>n_type = T_FILE, n_clust = \<lparr>c_clust = [2, 3], c_nclust = 2\<rparr>, n_flags = 0, n_len = 600\<rparr>,
              \<lparr>n_type = T_FILE, n_clust = \<lparr>c_clust = [], c_nclust = 0\<rparr>, n_flags = 0, n_len = 0\<rparr>],
     files = [\<lparr>f_perm = ACC_WRITE, f_pos = 0, f_node = 0\<rparr>, \<lparr>f_perm = ACC_WRITE, f_pos = 0, f_node = 1\<rparr>]\<rparr>"

definition demo_dirs :: dirview where
  "demo_dirs = \<lparr>is_root = (\<lambda>_. False), dir_copy = (\<lambda>_ _. None)\<rparr>"

lemma demo_env: "env_ok demo_io demo_mal" "\<forall>off. io_read demo_io off"
proof -
  have "sum_list l + 1 \<notin> set l" for l :: "addr list" using member_le_sum_list [of "sum_list l + 1" l] by auto
  then show "env_ok demo_io demo_mal" by (simp add: env_ok_def demo_io_def demo_mal_def)
qed (simp add: demo_io_def)

lemma demo_dos_ok: "dos_ok demo_dos"
proof -
  have c: "chains demo_dos = map clusters demo_clusts" by (simp add: chains_def demo_dos_def demo_clusts_def)
  have g: "good_block (cache demo_dos) (ucast c)" if "2 \<le> unat c" "unat c < 4096" for c :: u16
  proof -
    have "unat ((ucast c :: u32) - 2) = unat c - 2" using that(1) by (subst unat_sub_le) (simp_all add: word_le_nat_alt)
    then show ?thesis using that by (simp add: good_block_def demo_dos_def binit_def word_le_nat_alt)
  qed
  have s: "\<exists>k. unat (clsize (fats demo_dos)) = 2 ^ k"
    by (rule exI [of _ 9]) (simp add: demo_dos_def demo_fat_def)
  have "files_ok (fats demo_dos) (map clusters demo_clusts)" "disk_ok (fats demo_dos)" "nclust (fats demo_dos) = 4096"
    using demo_files demo_disk by (simp_all add: demo_dos_def) (simp add: demo_fat_def)
  moreover have "idle (cache demo_dos)" using binit_idle [of 512] by (simp add: demo_dos_def)
  moreover have "bsize (cache demo_dos) = clsize (fats demo_dos)" "bdata0 (cache demo_dos) = data0 (fats demo_dos)"
    "\<forall>n \<in> set (nodes demo_dos). node_ok (clsize (fats demo_dos)) n" "\<forall>f \<in> set (files demo_dos). f_node f < length (nodes demo_dos)"
    by (simp_all add: demo_dos_def binit_def demo_fat_def node_ok_def)
  ultimately show ?thesis unfolding dos_ok_def c using g s by (intro conjI) simp_all
qed

lemma demo_all_fit: "all_fit demo_dirs demo_io demo_mal [Dwrite 1 True [1, 2, 3], Dsync] demo_dos"
  by (auto simp: demo_dos_def demo_fat_def split: option.split)

text \<open>
  C3. The server does what its clients expect of files.  On a disk with a 16-bit table that answers
  every transfer, in every history of reads and writes of files, seeks and flushes, each reply and
  the contents of all files are those of the specification, in which a file is a list of bytes: a
  read gives the bytes at the position, a write is refused exactly without permission or without
  room and else changes the bytes at the position, with whatever it likes in a gap before them.
  The clusters, the cache with its reuse of buffers and the copies of the table do not show.
  (Reading a directory is not part of such a history.)
\<close>

theorem dos_refines:
  assumes "dos_ok st" "env_ok io mal" "\<forall>off. io_read io off" "all_fit dv io mal ops st"
  shows "\<exists>rs st'. dos_run dv io mal ops st = Some (rs, st') \<and> dos_ok st' \<and> spec_run (unat (clsize (fats st))) (owners st) ops rs (abs_dos st) (abs_dos st')"
  using dos_run_refines [OF assms] by blast

theorem dos_refines_witness:
  "\<exists>rs st'. dos_run demo_dirs demo_io demo_mal [Dwrite 1 True [1, 2, 3], Dsync] demo_dos = Some (rs, st') \<and> dos_ok st' \<and>
     spec_run 512 [(0, True), (1, True)] [Dwrite 1 True [1, 2, 3], Dsync] rs (abs_dos demo_dos) (abs_dos st')"
proof -
  have "owners demo_dos = [(0, True), (1, True)]" "unat (clsize (fats demo_dos)) = 512"
    by (simp_all add: owners_def demo_dos_def demo_fat_def T_DIR_def T_FILE_def ACC_WRITE_def)
  then show ?thesis using dos_refines [OF demo_dos_ok demo_env demo_all_fit] by simp
qed

text \<open>
  C39. A write behind the end of a file leaves a gap that the server does not clear: a client reads
  there what the cluster held before, also when another file had it.
\<close>

theorem dos_gap_stale:
  assumes "dos_ok st" "env_ok io mal" "i < length (files st)" "j = f_node (files st ! i)"
    "unat (f_pos (files st ! i)) + length buf + unat (clsize (fats st)) \<le> 2 ^ 32"
    "dos_write io mal mem i buf st = Some (Msg_reply a d, st')"
    "length (contents st j) \<le> k" "k < unat (f_pos (files st ! i))"
  shows "k < length (contents st' j) \<and> contents st' j ! k = file_bytes (view (cache st)) (clusters (n_clust (nodes st' ! j))) ! k"
proof -
  let ?p = "unat (f_pos (files st ! i))"
  have W: "dos_ok st' \<and> written ?p buf (contents st j) (contents st' j) \<and>
    contents st' j = take (max (unat (n_len (nodes st ! j))) (?p + length buf))
      (splice ?p buf (file_bytes (view (cache st)) (clusters (n_clust (nodes st' ! j)))))"
    using dos_write_ok [OF assms(1-3) refl assms(4,5), of mem] assms(6) by auto
  then have len: "length (contents st' j) = max (length (contents st j)) (?p + length buf)" unfolding written_def by blast
  then have l: "k < length (contents st' j)" using assms(8) by simp
  let ?l = "file_bytes (view (cache st)) (clusters (n_clust (nodes st' ! j)))"
  have c: "contents st' j = take (max (unat (n_len (nodes st ! j))) (?p + length buf)) (splice ?p buf ?l)" using W by blast
  have "k < length (take (max (unat (n_len (nodes st ! j))) (?p + length buf)) (splice ?p buf ?l))" using l by (simp only: c [symmetric])
  then have "contents st' j ! k = splice ?p buf ?l ! k" unfolding c by simp
  also have "\<dots> = ?l ! k"
  proof (cases "?p \<le> length ?l")
    case True
    then show ?thesis using assms(8) by (simp add: splice_def nth_append)
  next
    case False
    have "length (contents st' j) \<le> length ?l + length buf" unfolding c using False by (simp add: splice_def)
    then show ?thesis using False len by simp
  qed
  finally show ?thesis using l by simp
qed

definition demo_seek :: dos where
  "demo_seek = demo_dos\<lparr>files := [\<lparr>f_perm = ACC_WRITE, f_pos = 700, f_node = 0\<rparr>]\<rparr>"

lemma demo_seek_ok: "dos_ok demo_seek"
proof -
  have "chains demo_seek = chains demo_dos" by (simp add: chains_def demo_seek_def)
  then show ?thesis using dos_okD [OF demo_dos_ok] unfolding dos_ok_def by (simp add: demo_dos_def demo_seek_def)
qed

lemma demo_seek_write: "\<exists>a d st'. dos_write demo_io demo_mal True 0 [1] demo_seek = Some (Msg_reply a d, st')"
proof -
  have "\<not> no_room True (nodes demo_seek ! 0) (700 + 1) (fats demo_seek)"
    by (simp add: no_room_def demo_seek_def demo_dos_def demo_fat_def clusters_for_def)
  moreover have "n_type (nodes demo_seek ! 0) \<noteq> T_DIR" "f_perm (files demo_seek ! 0) AND ACC_WRITE \<noteq> 0" "f_pos (files demo_seek ! 0) = 700"
    "f_node (files demo_seek ! 0) = 0" "0 < length (files demo_seek)" "unat (700 :: u32) + length [1 :: u8] + unat (clsize (fats demo_seek)) \<le> 2 ^ 32"
    by (simp_all add: demo_seek_def demo_dos_def demo_fat_def T_DIR_def T_FILE_def ACC_WRITE_def)
  ultimately show ?thesis
    using dos_write_ok [OF demo_seek_ok demo_env(1), of 0 "files demo_seek ! 0" 0 "[1]" True] demo_env(2) by (auto split: reply.splits) (metis reply.exhaust)
qed

theorem dos_gap_stale_witness:
  "\<exists>a d st'. dos_write demo_io demo_mal True 0 [1] demo_seek = Some (Msg_reply a d, st') \<and>
     contents st' 0 ! 650 = file_bytes (view (cache demo_dos)) (clusters (n_clust (nodes st' ! 0))) ! 650"
proof -
  obtain a d st' where w: "dos_write demo_io demo_mal True 0 [1] demo_seek = Some (Msg_reply a d, st')" using demo_seek_write by blast
  have "length (contents demo_seek 0) = 600" using contents_length [OF demo_seek_ok, of 0] by (simp add: demo_dos_def demo_seek_def)
  moreover have "cache demo_seek = cache demo_dos" by (simp add: demo_seek_def)
  ultimately show ?thesis
    using dos_gap_stale [OF demo_seek_ok demo_env(1), of 0 0 "[1]" True a d st' 650] w by (auto simp: demo_seek_def demo_dos_def demo_fat_def)
qed

end
