(* ===== verification/Dos_Restart.thy ===== *)
theory Dos_Restart
  imports Dos_Server
begin

text \<open>
  Closing a file and starting the server again: \<open>deref_node\<close> of \<open>srv/dos/node.c\<close>, \<open>dir_setlen\<close> and
  \<open>root_sync\<close> of \<open>srv/dos/dir.c\<close>, \<open>sync\<close> of \<open>srv/dos/main.c\<close> with the root directory, and what
  \<open>fat_init\<close>, \<open>binit\<close>, \<open>dir_init\<close> and \<open>dir_look\<close> find on the disk.  The files are those of the root
  directory.  What \<open>dos_remove\<close> marks with \<open>N_DEL\<close> does not occur.
\<close>

section \<open>Entries of the root directory\<close>

text \<open>
  The members of a directory entry that change when a file is written.  \<open>refs\<close> and \<open>slots\<close> are \<open>n_refs\<close>
  and \<open>n_slot\<close> of the nodes; the place of a node without references, which is not in core, stands
  for the file on the disk.  \<open>opened\<close> tells which clients are still connected, \<open>rootdisk\<close> is the root
  directory on the disk.
\<close>

record dent =
  d_size :: u32
  d_start :: u16

record dosfs =
  srv :: dos
  refs :: "nat list"
  slots :: "nat list"
  opened :: "bool list"
  rootdirents :: "dent list"
  root_dirty :: bool
  rootdisk :: "dent list"

definition entry :: "dosfs \<Rightarrow> nat \<Rightarrow> dent" where
  "entry st k = rootdirents st ! (slots st ! k)"

text \<open>\<open>None\<close> is one of the debug assertions.\<close>

definition dir_setlen :: "nat \<Rightarrow> dosfs \<Rightarrow> dosfs option" where
  "dir_setlen k st =
     (let n = nodes (srv st) ! k; c = n_clust n in
      if n_type n \<noteq> T_FILE then Some st
      else if d_size (entry st k) = n_len n then Some st
      else if (c_nclust c \<noteq> 0) = (n_len n = 0) then None
      else Some (st\<lparr>
        rootdirents := (rootdirents st)[slots st ! k := \<lparr>d_size = n_len n, d_start = (if c_nclust c \<noteq> 0 then c_clust c ! 0 else 0)\<rparr>],
        root_dirty := True\<rparr>))"

text \<open>\<open>w\<close> is whether the disk takes the whole of the root directory; the server ends when not.\<close>

definition root_sync :: "bool \<Rightarrow> dosfs \<Rightarrow> bool \<times> dosfs" where
  "root_sync w st =
     (if \<not> root_dirty st then (True, st)
      else if w then (True, st\<lparr>rootdisk := rootdirents st, root_dirty := False\<rparr>)
      else (False, st))"

definition sync :: "io \<Rightarrow> bool \<Rightarrow> (nat \<Rightarrow> nat \<Rightarrow> nat option) \<Rightarrow> dosfs \<Rightarrow> (bool \<times> dosfs) option" where
  "sync io w short st =
     (let (ok, st2) = root_sync w (st\<lparr>srv := (srv st)\<lparr>cache := bsync io (cache (srv st))\<rparr>\<rparr>) in
      if \<not> ok then Some (False, st2)
      else do {
        (ok, fs) \<leftarrow> fat_sync short (fats (srv st2));
        Some (ok, st2\<lparr>srv := (srv st2)\<lparr>fats := fs\<rparr>\<rparr>)
      })"

definition set_flags :: "nat \<Rightarrow> u32 \<Rightarrow> dosfs \<Rightarrow> dosfs" where
  "set_flags k x st = st\<lparr>srv := (srv st)\<lparr>nodes := (nodes (srv st))[k := (nodes (srv st) ! k)\<lparr>n_flags := x\<rparr>]\<rparr>\<rparr>"

text \<open>
  \<open>deref_node\<close> of a file: with the last reference the node goes, and the next \<open>dir_look\<close> makes a new
  one without flags.
\<close>

definition deref_node :: "io \<Rightarrow> bool \<Rightarrow> (nat \<Rightarrow> nat \<Rightarrow> nat option) \<Rightarrow> nat \<Rightarrow> dosfs \<Rightarrow> (bool \<times> dosfs) option" where
  "deref_node io w short k st =
     (if refs st ! k = 0 then None
      else
        let st1 = st\<lparr>refs := (refs st)[k := refs st ! k - 1]\<rparr>; dirty = (n_flags (nodes (srv st) ! k) AND N_DIRTY \<noteq> 0) in
        do {
          (ok, st2) \<leftarrow> (if dirty then Option.bind (dir_setlen k st1) (sync io w short) else Some (True, st1));
          Some (ok,
            if \<not> ok then st2
            else if 0 < refs st2 ! k then
              (if dirty then set_flags k (n_flags (nodes (srv st2) ! k) AND NOT N_DIRTY) st2 else st2)
            else set_flags k 0 st2)
        })"

definition dos_close :: "io \<Rightarrow> bool \<Rightarrow> (nat \<Rightarrow> nat \<Rightarrow> nat option) \<Rightarrow> nat \<Rightarrow> dosfs \<Rightarrow> (bool \<times> dosfs) option" where
  "dos_close io w short i st =
     (if length (opened st) \<le> i \<or> \<not> opened st ! i then None
      else deref_node io w short (f_node (files (srv st) ! i)) (st\<lparr>opened := (opened st)[i := False]\<rparr>))"

section \<open>What clients do\<close>

datatype fs_op = Fop dos_op | Fclose nat

fun client :: "dos_op \<Rightarrow> nat option" where
  "client (Dwrite i mem buf) = Some i"
| "client (Dread i mem arg) = Some i"
| "client (Dseek i arg) = Some i"
| "client Dsync = None"

text \<open>A disconnected client gets no reply.  The disk takes every write.\<close>

fun fs_do :: "dirview \<Rightarrow> io \<Rightarrow> (addr list \<Rightarrow> addr option) \<Rightarrow> fs_op \<Rightarrow> dosfs \<Rightarrow> (reply option \<times> dosfs) option" where
  "fs_do dv io mal (Fop x) st =
     (if x = Dsync then do {
        (ok, st1) \<leftarrow> sync io True (\<lambda>_ _. None) st;
        if ok then Some (Some (Msg_reply 0 []), st1) else None
      }
      else map_option (\<lambda>(r, s). (Some r, st\<lparr>srv := s\<rparr>)) (dos_do dv io mal x (srv st)))"
| "fs_do dv io mal (Fclose i) st = do {
     (ok, st1) \<leftarrow> dos_close io True (\<lambda>_ _. None) i st;
     if ok then Some (None, st1) else None
   }"

fun fs_fits :: "dosfs \<Rightarrow> fs_op \<Rightarrow> bool" where
  "fs_fits st (Fop x) = (fits (srv st) x \<and> (case client x of None \<Rightarrow> True | Some i \<Rightarrow> opened st ! i))"
| "fs_fits st (Fclose i) = (i < length (opened st) \<and> opened st ! i)"

text \<open>The specification notes for each file the length that it had when a client closed it last.\<close>

type_synonym fspec = "spec \<times> nat list"

definition abs_fs :: "dosfs \<Rightarrow> fspec" where
  "abs_fs st = (abs_dos (srv st), map (\<lambda>k. unat (d_size (entry st k))) [0..<length (nodes (srv st))])"

fun fs_spec_step :: "nat \<Rightarrow> (nat \<times> bool) list \<Rightarrow> fs_op \<Rightarrow> reply option \<Rightarrow> fspec \<Rightarrow> fspec \<Rightarrow> bool" where
  "fs_spec_step cs own (Fop x) r s s' = (\<exists>y. r = Some y \<and> spec_step cs own x y (fst s) (fst s') \<and> snd s' = snd s)"
| "fs_spec_step cs own (Fclose i) r s s' =
     (r = None \<and> fst s' = fst s \<and> snd s' = (snd s)[fst (own ! i) := length (sp_data (fst s) ! fst (own ! i))])"

fun fs_run :: "dirview \<Rightarrow> io \<Rightarrow> (addr list \<Rightarrow> addr option) \<Rightarrow> fs_op list \<Rightarrow> dosfs \<Rightarrow> (reply option list \<times> dosfs) option" where
  "fs_run dv io mal [] st = Some ([], st)"
| "fs_run dv io mal (x # xs) st = do {
     (r, st1) \<leftarrow> fs_do dv io mal x st;
     (rs, st2) \<leftarrow> fs_run dv io mal xs st1;
     Some (r # rs, st2)
   }"

fun fs_all_fit :: "dirview \<Rightarrow> io \<Rightarrow> (addr list \<Rightarrow> addr option) \<Rightarrow> fs_op list \<Rightarrow> dosfs \<Rightarrow> bool" where
  "fs_all_fit dv io mal [] st = True"
| "fs_all_fit dv io mal (x # xs) st =
     (fs_fits st x \<and> (case fs_do dv io mal x st of None \<Rightarrow> True | Some (r, st1) \<Rightarrow> fs_all_fit dv io mal xs st1))"

inductive fs_spec_run :: "nat \<Rightarrow> (nat \<times> bool) list \<Rightarrow> fs_op list \<Rightarrow> reply option list \<Rightarrow> fspec \<Rightarrow> fspec \<Rightarrow> bool" for cs own where
  fs_nil: "fs_spec_run cs own [] [] s s"
| fs_cons: "fs_spec_step cs own x r s s1 \<Longrightarrow> fs_spec_run cs own xs rs s1 s2 \<Longrightarrow> fs_spec_run cs own (x # xs) (r # rs) s s2"

section \<open>The invariant\<close>

definition entry_ok :: "node \<Rightarrow> dent \<Rightarrow> bool" where
  "entry_ok n d = (n_type n = T_FILE \<and> (n_len n = 0 \<longleftrightarrow> c_nclust (n_clust n) = 0) \<and>
     (n_flags n AND N_DIRTY = 0 \<longrightarrow> d_size d = n_len n) \<and> d_size d \<le> n_len n \<and>
     d_start d = (if d_size d = 0 then 0 else hd (clusters (n_clust n))))"

definition ents_ok :: "dosfs \<Rightarrow> bool" where
  "ents_ok st = (dos_ok (srv st) \<and> length (slots st) = length (nodes (srv st)) \<and> length (refs st) = length (nodes (srv st)) \<and>
     length (opened st) = length (files (srv st)) \<and> distinct (slots st) \<and> (\<forall>s \<in> set (slots st). s < length (rootdirents st)) \<and>
     (\<not> root_dirty st \<longrightarrow> rootdisk st = rootdirents st) \<and>
     (\<forall>k < length (nodes (srv st)). entry_ok (nodes (srv st) ! k) (entry st k)))"

text \<open>The references of a node are the clients that have it open.\<close>

definition users :: "dosfs \<Rightarrow> nat \<Rightarrow> nat set" where
  "users st k = {i. i < length (opened st) \<and> opened st ! i \<and> f_node (files (srv st) ! i) = k}"

definition fs_ok :: "dosfs \<Rightarrow> bool" where
  "fs_ok st = (ents_ok st \<and> (\<forall>k < length (nodes (srv st)). refs st ! k = card (users st k)))"

lemma hd_clusters: "c_nclust c \<noteq> 0 \<Longrightarrow> c_nclust c \<le> length (c_clust c) \<Longrightarrow> hd (clusters c) = c_clust c ! 0"
  by (cases "c_clust c"; cases "c_nclust c") (auto simp: clusters_def)

lemma ents_okD:
  assumes "ents_ok st"
  shows "dos_ok (srv st)" "length (slots st) = length (nodes (srv st))" "length (refs st) = length (nodes (srv st))"
    "length (opened st) = length (files (srv st))" "distinct (slots st)" "\<And>s. s \<in> set (slots st) \<Longrightarrow> s < length (rootdirents st)"
    "\<not> root_dirty st \<Longrightarrow> rootdisk st = rootdirents st"
    "\<And>k. k < length (nodes (srv st)) \<Longrightarrow> entry_ok (nodes (srv st) ! k) (entry st k)"
  using assms by (simp_all add: ents_ok_def)

text \<open>A write keeps what relates a node to its entry.\<close>

lemma grown_entry:
  assumes e: "entry_ok n d" and g: "grown mem n newlen fs n1 fs1" and l: "n_len n1 = max (n_len n) newlen" and t: "n_type n1 = n_type n"
    and f: "n_flags n1 AND N_DIRTY \<noteq> 0" and k: "newlen \<noteq> 0 \<longrightarrow> clusters_for newlen (clsize fs) \<noteq> 0"
    and c: "c_nclust (n_clust n) \<le> length (c_clust (n_clust n))"
  shows "entry_ok n1 d"
proof (cases "n_len n < newlen")
  case True
  let ?k = "clusters_for newlen (clsize fs)" and ?c = "c_nclust (n_clust n)"
  have nz: "newlen \<noteq> 0" "?k \<noteq> 0" using True k by auto
  have G: "c_nclust (n_clust n1) = ?k" "take ?k (clusters (n_clust n)) = take ?c (clusters (n_clust n1))"
    using g True by (simp_all add: grown_def Let_def)
  have l1: "n_len n1 = newlen" using l True by (simp add: max_def less_imp_le)
  have "hd (clusters (n_clust n1)) = hd (clusters (n_clust n))" if "d_size d \<noteq> 0"
  proof -
    have "n_len n \<noteq> 0" using that e by (auto simp: entry_ok_def)
    then have c0: "?c \<noteq> 0" using e by (simp add: entry_ok_def)
    have "hd (take ?k (clusters (n_clust n))) = hd (clusters (n_clust n))" "hd (take ?c (clusters (n_clust n1))) = hd (clusters (n_clust n1))"
      using nz(2) c0 by (simp_all add: hd_take)
    then show ?thesis using G(2) by simp
  qed
  moreover have "d_size d \<le> n_len n1" using e True l1 by (auto simp: entry_ok_def)
  ultimately show ?thesis using e G(1) nz f t l1 by (simp add: entry_ok_def)
next
  case False
  then have "n_len n1 = n_len n" "n_clust n1 = n_clust n" using g l by (simp_all add: grown_def Let_def max_def not_less)
  then show ?thesis using e f t by (simp add: entry_ok_def)
qed

lemma write_entries:
  assumes ok: "dos_ok st" and e: "env_ok io mal" and rd: "\<forall>off. io_read io off" and ft: "fits st (Dwrite i mem buf)"
    and w: "dos_write io mal mem i buf st = Some (r, st')" and d: "\<And>k. k < length (nodes st) \<Longrightarrow> entry_ok (nodes st ! k) (d k)"
  shows "length (nodes st') = length (nodes st) \<and> (\<forall>k < length (nodes st). entry_ok (nodes st' ! k) (d k))"
proof -
  let ?f = "files st ! i" and ?j = "f_node (files st ! i)"
  let ?n = "nodes st ! ?j" and ?nl = "f_pos ?f + of_nat (length buf)" and ?cs = "unat (clsize (fats st))"
  have i: "i < length (files st)" and fit: "unat (f_pos ?f) + length buf + ?cs \<le> 2 ^ 32" using ft by simp_all
  have jn: "?j < length (nodes st)" using dos_okD(7) [OF ok] i by simp
  have p: "0 < ?cs" using dos_okD(4) [OF ok] by auto
  then have lb: "length buf < 2 ^ 32" "unat (f_pos ?f) + length buf < 2 ^ 32" using fit by linarith+
  have un: "unat ?nl = unat (f_pos ?f) + length buf" using lb by (subst unat_add_no_overflow) (simp_all add: unat_of_nat)
  have k: "clusters_for ?nl (clsize (fats st)) \<noteq> 0" if "?nl \<noteq> 0"
  proof -
    have "0 < unat ?nl" using that by (simp add: unat_gt_0)
    then have "?cs \<le> unat ?nl + ?cs - 1" using p by linarith
    then show ?thesis using cluster_count [OF ok, of ?nl] fit un p by (simp add: div_greater_zero_iff)
  qed
  have c: "c_nclust (n_clust ?n) \<le> length (c_clust (n_clust ?n))" using dos_okD(6) [OF ok, of ?n] jn by (simp add: node_ok_def)
  note D = dos_write_ok [OF ok e i refl refl fit, of mem]
  have v: "length (nodes st') = length (nodes st)" "n_type (nodes st' ! ?j) = n_type ?n"
    "\<forall>m < length (nodes st). m \<noteq> ?j \<longrightarrow> nodes st' ! m = nodes st ! m"
    using D w by (elim exE conjE, simp)+
  have ej: "entry_ok (nodes st' ! ?j) (d ?j)"
  proof (cases r)
    case (Msg_err x)
    then have "n_len (nodes st' ! ?j) = n_len ?n \<and> clusters (n_clust (nodes st' ! ?j)) = clusters (n_clust ?n) \<and>
         c_nclust (n_clust (nodes st' ! ?j)) = c_nclust (n_clust ?n) \<and> n_flags (nodes st' ! ?j) = n_flags ?n"
      using D w by (elim exE conjE) simp
    then show ?thesis using v(2) d [OF jn] by (simp add: entry_ok_def)
  next
    case Msg_strerror
    then show ?thesis using D w rd by (elim exE conjE) simp
  next
    case (Msg_reply a b)
    then have R: "grown mem ?n ?nl (fats st) (nodes st' ! ?j) (fats st')" "n_flags (nodes st' ! ?j) = n_flags ?n OR N_DIRTY"
        "unat (n_len (nodes st' ! ?j)) = max (unat (n_len ?n)) (unat (f_pos ?f) + length buf)"
      using D w by (elim exE conjE, simp)+
    have "n_len (nodes st' ! ?j) = max (n_len ?n) ?nl" using R(3) un by (simp add: word_unat_eq_iff max_def word_le_nat_alt)
    moreover have "n_flags (nodes st' ! ?j) AND N_DIRTY \<noteq> 0" using R(2) by (simp add: bit.conj_disj_distrib2 N_DIRTY_def)
    ultimately show ?thesis using grown_entry [OF d [OF jn] R(1) _ v(2)] k c by blast
  qed
  have "entry_ok (nodes st' ! m) (d m)" if "m < length (nodes st)" for m using ej v(3) d [OF that] that by (cases "m = ?j") simp_all
  then show ?thesis using v(1) by simp
qed

lemma op_entries:
  assumes ok: "dos_ok st" and e: "env_ok io mal" and rd: "\<forall>off. io_read io off" and ft: "fits st x" and x: "x \<noteq> Dsync"
    and w: "dos_do dv io mal x st = Some (r, st')" and d: "\<And>k. k < length (nodes st) \<Longrightarrow> entry_ok (nodes st ! k) (d k)"
  shows "length (nodes st') = length (nodes st) \<and> (\<forall>k < length (nodes st). entry_ok (nodes st' ! k) (d k))"
proof (cases x)
  case (Dwrite i mem buf)
  show ?thesis by (rule write_entries [OF ok e rd _ _ d]) (use ft w Dwrite in simp_all)
next
  case (Dread i mem arg)
  have i: "i < length (files st)" "n_type (nodes st ! f_node (files st ! i)) \<noteq> T_DIR" using ft Dread by simp_all
  have jn: "f_node (files st ! i) < length (nodes st)" using dos_okD(7) [OF ok] i by simp
  have "min (unat arg) (length (contents st (f_node (files st ! i))) - unat (f_pos (files st ! i))) < 2 ^ 31"
    unfolding contents_length [OF ok jn] using ft Dread by simp
  from dos_read_ok [OF ok e i(1) refl refl this, of mem] have "nodes st' = nodes st" using w Dread i jn by (auto simp: dos_read_def)
  then show ?thesis using d by simp
next
  case (Dseek i arg)
  then have "nodes st' = nodes st" using w by (auto simp: dos_seek_def split: if_splits)
  then show ?thesis using d by simp
qed (use x in simp)

section \<open>Flushes and closes\<close>

lemma sync_split:
  "sync io True short st = map_option (\<lambda>(k, s). (k, st\<lparr>srv := s, rootdisk := (if root_dirty st then rootdirents st else rootdisk st), root_dirty := False\<rparr>))
     (sync_data io short (srv st))"
  by (cases "fat_sync short (fats (srv st))") (auto simp: sync_def sync_data_def root_sync_def Let_def)

definition same_table :: "dosfs \<Rightarrow> dosfs \<Rightarrow> bool" where
  "same_table st st' = (slots st' = slots st \<and> opened st' = opened st \<and> refs st' = refs st \<and> files (srv st') = files (srv st) \<and>
     length (nodes (srv st')) = length (nodes (srv st)) \<and> same_disk (fats (srv st)) (fats (srv st')))"

definition flushed :: "dosfs \<Rightarrow> bool" where
  "flushed st = (rootdisk st = rootdirents st \<and> (\<forall>b. good_block (cache (srv st)) b \<longrightarrow> disk_bytes (cache (srv st)) b = view (cache (srv st)) b))"

lemma sync_ok:
  assumes ok: "ents_ok st" and e: "env_ok io mal"
  shows "\<exists>st'. sync io True (\<lambda>_ _. None) st = Some (True, st') \<and> ents_ok st' \<and> same_table st st' \<and> flushed st' \<and>
    rootdirents st' = rootdirents st \<and> nodes (srv st') = nodes (srv st) \<and> abs_dos (srv st') = abs_dos (srv st)"
proof -
  note D = ents_okD [OF ok]
  obtain s where s: "sync_data io (\<lambda>_ _. None) (srv st) = Some (True, s)" "dos_ok s" "nodes s = nodes (srv st)" "files s = files (srv st)"
    "same_disk (fats (srv st)) (fats s)" "free_set (fats s) = free_set (fats (srv st))" "\<forall>m < length (nodes (srv st)). contents s m = contents (srv st) m"
    "\<forall>b. good_block (cache s) b \<longrightarrow> disk_bytes (cache s) b = view (cache s) b"
    using sync_data_ok [OF D(1) e] by blast
  let ?s = "st\<lparr>srv := s, rootdisk := (if root_dirty st then rootdirents st else rootdisk st), root_dirty := False\<rparr>"
  have "abs_dos s = abs_dos (srv st)" by (rule abs_same) (use s in simp_all)
  moreover have "ents_ok ?s" using D s(2-4) by (simp add: ents_ok_def entry_def)
  moreover have "sync io True (\<lambda>_ _. None) st = Some (True, ?s)" using s(1) by (simp add: sync_split)
  ultimately show ?thesis using s D(7) by (intro exI [of _ ?s]) (simp add: same_table_def flushed_def)
qed

lemma setlen_entry:
  assumes ok: "ents_ok st" and k: "k < length (nodes (srv st))"
  shows "\<exists>st'. dir_setlen k st = Some st' \<and> ents_ok st' \<and> srv st' = srv st \<and> same_table st st' \<and>
    (\<forall>m < length (nodes (srv st)). m \<noteq> k \<longrightarrow> entry st' m = entry st m) \<and> d_size (entry st' k) = n_len (nodes (srv st) ! k)"
proof -
  note D = ents_okD [OF ok]
  let ?n = "nodes (srv st) ! k"
  let ?c = "n_clust ?n"
  have E: "entry_ok ?n (entry st k)" by (rule D(8) [OF k])
  show ?thesis
  proof (cases "d_size (entry st k) = n_len ?n")
    case True
    then have "dir_setlen k st = Some st" using E by (simp add: dir_setlen_def Let_def entry_ok_def)
    then show ?thesis using ok True by (intro exI [of _ st]) (simp add: same_table_def same_disk_def)
  next
    case False
    let ?d = "\<lparr>d_size = n_len ?n, d_start = (if c_nclust ?c \<noteq> 0 then c_clust ?c ! 0 else 0)\<rparr>"
    let ?s = "st\<lparr>rootdirents := (rootdirents st)[slots st ! k := ?d], root_dirty := True\<rparr>"
    have s: "dir_setlen k st = Some ?s" using E False by (simp add: dir_setlen_def Let_def entry_ok_def)
    have sk: "slots st ! k < length (rootdirents st)" "k < length (slots st)" using D(2,6) k by simp_all
    have en: "entry ?s m = (if m = k then ?d else entry st m)" if "m < length (nodes (srv st))" for m
      using sk that D(2,5) by (simp add: entry_def nth_list_update nth_eq_iff_index_eq)
    have "c_nclust ?c \<le> length (c_clust ?c)" using dos_okD(6) [OF D(1), of ?n] k by (simp add: node_ok_def)
    then have "entry_ok ?n ?d" using E hd_clusters [of ?c] by (simp add: entry_ok_def)
    then have "entry_ok (nodes (srv st) ! m) (entry ?s m)" if "m < length (nodes (srv st))" for m
      unfolding en [OF that] using D(8) [OF that] by (cases "m = k") (simp_all only: if_True if_False simp_thms)
    then have "ents_ok ?s" using D by (simp add: ents_ok_def)
    then show ?thesis using s en k by (intro exI [of _ ?s]) (simp add: same_table_def same_disk_def)
  qed
qed

lemma set_flags_ok:
  assumes ok: "ents_ok st" and k: "k < length (nodes (srv st))" and d: "d_size (entry st k) = n_len (nodes (srv st) ! k)"
  shows "ents_ok (set_flags k x st) \<and> same_table st (set_flags k x st) \<and> abs_dos (srv (set_flags k x st)) = abs_dos (srv st) \<and>
    rootdirents (set_flags k x st) = rootdirents st"
proof -
  note D = ents_okD [OF ok]
  let ?s = "set_flags k x st"
  have n: "clusters (n_clust (nodes (srv ?s) ! m)) = clusters (n_clust (nodes (srv st) ! m)) \<and> n_len (nodes (srv ?s) ! m) = n_len (nodes (srv st) ! m)" for m
    using k by (cases "m = k") (simp_all add: set_flags_def)
  have h: "map (\<lambda>n. c_nclust (n_clust n)) (nodes (srv ?s)) = map (\<lambda>n. c_nclust (n_clust n)) (nodes (srv st))"
    by (rule nth_equalityI) (use k in \<open>auto simp: set_flags_def nth_list_update\<close>)
  have c: "cache (srv ?s) = cache (srv st)" by (simp add: set_flags_def)
  have ct: "contents (srv ?s) m = contents (srv st) m" for m unfolding contents_def raw_def c using n by simp
  have ab: "abs_dos (srv ?s) = abs_dos (srv st)" unfolding abs_dos_def h ct by (simp add: set_flags_def)
  have dk: "dos_ok (srv ?s)" unfolding set_flags_def using dos_ok_flags [OF D(1) k, of x] by simp
  have "entry_ok (nodes (srv ?s) ! m) (entry ?s m)" if "m < length (nodes (srv st))" for m
    using D(8) [OF that] d k by (cases "m = k") (simp_all add: set_flags_def entry_def entry_ok_def)
  then have "ents_ok ?s" using D dk by (simp add: ents_ok_def) (simp add: set_flags_def)
  then show ?thesis using ab by (simp add: same_table_def same_disk_def set_flags_def)
qed

lemma same_table_trans: "same_table a b \<Longrightarrow> same_table b c \<Longrightarrow> same_table a c"
  using same_disk_trans by (auto simp: same_table_def)

lemma abs_fs_update:
  assumes "abs_dos (srv st') = abs_dos (srv st)" "length (nodes (srv st')) = length (nodes (srv st))" "k < length (nodes (srv st))"
    and "\<And>m. m < length (nodes (srv st)) \<Longrightarrow> m \<noteq> k \<Longrightarrow> entry st' m = entry st m" "d_size (entry st' k) = n_len (nodes (srv st) ! k)" "dos_ok (srv st)"
  shows "fst (abs_fs st') = fst (abs_fs st)" "snd (abs_fs st') = (snd (abs_fs st))[k := length (sp_data (fst (abs_fs st)) ! k)]"
proof -
  show "fst (abs_fs st') = fst (abs_fs st)" using assms(1) by (simp add: abs_fs_def)
  show "snd (abs_fs st') = (snd (abs_fs st))[k := length (sp_data (fst (abs_fs st)) ! k)]"
    by (rule nth_equalityI) (use assms(2-5) contents_length [OF assms(6,3)] in \<open>auto simp: abs_fs_def abs_dos_def nth_list_update\<close>)
qed

text \<open>
  A client that closes a file: the length of the file is in its entry afterwards, whether or not
  other clients still have it open.
\<close>

lemma deref_ok:
  assumes ok: "ents_ok st" and e: "env_ok io mal" and k: "k < length (nodes (srv st))" and r: "0 < refs st ! k"
  shows "\<exists>st'. deref_node io True (\<lambda>_ _. None) k st = Some (True, st') \<and> ents_ok st' \<and> same_table (st\<lparr>refs := (refs st)[k := refs st ! k - 1]\<rparr>) st' \<and>
    fst (abs_fs st') = fst (abs_fs st) \<and> snd (abs_fs st') = (snd (abs_fs st))[k := length (sp_data (fst (abs_fs st)) ! k)]"
proof -
  let ?s1 = "st\<lparr>refs := (refs st)[k := refs st ! k - 1]\<rparr>"
  let ?dirty = "n_flags (nodes (srv st) ! k) AND N_DIRTY \<noteq> 0"
  note D = ents_okD [OF ok]
  have en1: "entry ?s1 = entry st" by (simp add: entry_def fun_eq_iff)
  have ok1: "ents_ok ?s1" using D unfolding ents_ok_def en1 by simp
  have "\<exists>s2. (if ?dirty then Option.bind (dir_setlen k ?s1) (sync io True (\<lambda>_ _. None)) else Some (True, ?s1)) = Some (True, s2) \<and>
    ents_ok s2 \<and> same_table ?s1 s2 \<and> nodes (srv s2) = nodes (srv st) \<and> abs_dos (srv s2) = abs_dos (srv st) \<and>
    (\<forall>m < length (nodes (srv st)). m \<noteq> k \<longrightarrow> entry s2 m = entry st m) \<and> d_size (entry s2 k) = n_len (nodes (srv st) ! k)"
  proof (cases ?dirty)
    case True
    obtain s where s: "dir_setlen k ?s1 = Some s" "ents_ok s" "srv s = srv st" "same_table ?s1 s"
      "\<forall>m < length (nodes (srv st)). m \<noteq> k \<longrightarrow> entry s m = entry st m" "d_size (entry s k) = n_len (nodes (srv st) ! k)"
      using setlen_entry [OF ok1, of k] k en1 by auto
    obtain s2 where s2: "sync io True (\<lambda>_ _. None) s = Some (True, s2)" "ents_ok s2" "same_table s s2" "rootdirents s2 = rootdirents s"
      "nodes (srv s2) = nodes (srv s)" "abs_dos (srv s2) = abs_dos (srv s)" using sync_ok [OF s(2) e] by blast
    have "entry s2 = entry s" using s2(3,4) by (simp add: entry_def fun_eq_iff same_table_def)
    then show ?thesis using True s s2 same_table_trans [OF s(4) s2(3)] by (intro exI [of _ s2]) simp
  next
    case False
    then have "d_size (entry st k) = n_len (nodes (srv st) ! k)" using D(8) [OF k] by (simp add: entry_ok_def)
    then show ?thesis using False ok1 en1 by (intro exI [of _ ?s1]) (simp add: same_table_def same_disk_def)
  qed
  then obtain s2 where s2: "(if ?dirty then Option.bind (dir_setlen k ?s1) (sync io True (\<lambda>_ _. None)) else Some (True, ?s1)) = Some (True, s2)"
    "ents_ok s2" "same_table ?s1 s2" "nodes (srv s2) = nodes (srv st)" "abs_dos (srv s2) = abs_dos (srv st)"
    "\<forall>m < length (nodes (srv st)). m \<noteq> k \<longrightarrow> entry s2 m = entry st m" "d_size (entry s2 k) = n_len (nodes (srv st) ! k)" by blast
  have F: "ents_ok (set_flags k x s2) \<and> same_table s2 (set_flags k x s2) \<and> abs_dos (srv (set_flags k x s2)) = abs_dos (srv s2) \<and>
      rootdirents (set_flags k x s2) = rootdirents s2" for x
    using set_flags_ok [OF s2(2), of k x] s2(4,7) k by simp
  have en2: "entry (set_flags k x s2) = entry s2" for x by (simp add: entry_def set_flags_def fun_eq_iff)
  let ?fin = "if 0 < refs s2 ! k then (if ?dirty then set_flags k (n_flags (nodes (srv s2) ! k) AND NOT N_DIRTY) s2 else s2) else set_flags k 0 s2"
  have fin: "ents_ok ?fin \<and> same_table ?s1 ?fin \<and> abs_dos (srv ?fin) = abs_dos (srv st) \<and> entry ?fin = entry s2"
    using F s2(2,3,5) same_table_trans en2 by auto
  have "deref_node io True (\<lambda>_ _. None) k st = Some (True, ?fin)"
    unfolding deref_node_def Let_def s2(1) using r by simp
  moreover have "fst (abs_fs ?fin) = fst (abs_fs st)" "snd (abs_fs ?fin) = (snd (abs_fs st))[k := length (sp_data (fst (abs_fs st)) ! k)]"
    using abs_fs_update [of ?fin st k] fin s2(6,7) k D(1) by (simp_all add: same_table_def)
  ultimately show ?thesis using fin by blast
qed

lemma close_refines:
  assumes ok: "fs_ok st" and e: "env_ok io mal" and i: "i < length (opened st)" "opened st ! i"
  shows "\<exists>st'. dos_close io True (\<lambda>_ _. None) i st = Some (True, st') \<and> fs_ok st' \<and> owners (srv st') = owners (srv st) \<and>
    same_disk (fats (srv st)) (fats (srv st')) \<and>
    fs_spec_step (unat (clsize (fats (srv st)))) (owners (srv st)) (Fclose i) None (abs_fs st) (abs_fs st')"
proof -
  have eo: "ents_ok st" and rc: "\<And>k. k < length (nodes (srv st)) \<Longrightarrow> refs st ! k = card (users st k)" using ok by (simp_all add: fs_ok_def)
  note D = ents_okD [OF eo]
  let ?k = "f_node (files (srv st) ! i)"
  let ?s = "st\<lparr>opened := (opened st)[i := False]\<rparr>"
  have il: "i < length (files (srv st))" using i(1) D(4) by simp
  have k: "?k < length (nodes (srv st))" using dos_okD(7) [OF D(1)] il by simp
  have en: "entry ?s = entry st" by (simp add: entry_def fun_eq_iff)
  have eos: "ents_ok ?s" using D unfolding ents_ok_def en by simp
  have us: "users ?s m = users st m - {i}" for m using i by (auto simp: users_def nth_list_update split: if_splits)
  have iu: "i \<in> users st m \<longleftrightarrow> m = ?k" for m using i by (auto simp: users_def)
  have fin: "finite (users st m)" for m by (simp add: users_def)
  have cs: "card (users ?s m) = (if m = ?k then card (users st m) - 1 else card (users st m))" for m
    using us [of m] iu [of m] card_Diff_singleton [of i "users st m"] by (cases "m = ?k") simp_all
  have "0 < refs ?s ! ?k" using rc [OF k] iu [of ?k] fin [of ?k] by (auto simp: card_gt_0_iff)
  from deref_ok [OF eos e _ this] k obtain st' where s: "deref_node io True (\<lambda>_ _. None) ?k ?s = Some (True, st')" "ents_ok st'"
    "same_table (?s\<lparr>refs := (refs ?s)[?k := refs ?s ! ?k - 1]\<rparr>) st'" "fst (abs_fs st') = fst (abs_fs ?s)"
    "snd (abs_fs st') = (snd (abs_fs ?s))[?k := length (sp_data (fst (abs_fs ?s)) ! ?k)]" by auto
  have ab: "abs_fs ?s = abs_fs st" by (simp add: abs_fs_def en)
  have t: "slots st' = slots st" "opened st' = opened ?s" "refs st' = (refs st)[?k := refs st ! ?k - 1]" "files (srv st') = files (srv st)"
    "length (nodes (srv st')) = length (nodes (srv st))" "same_disk (fats (srv st)) (fats (srv st'))" using s(3) by (simp_all add: same_table_def)
  have "refs st' ! m = card (users st' m)" if m: "m < length (nodes (srv st))" for m
  proof -
    have "users st' m = users ?s m" using t(2,4) by (simp add: users_def)
    then show ?thesis using cs [of m] rc [OF m] t(3) k D(3) by (cases "m = ?k") simp_all
  qed
  then have "fs_ok st'" using s(2) t(5) by (simp add: fs_ok_def)
  moreover have "owners (srv st') = owners (srv st)"
  proof (rule nth_equalityI)
    fix m assume "m < length (owners (srv st'))"
    then have m: "m < length (files (srv st))" "f_node (files (srv st) ! m) < length (nodes (srv st))"
      using t(4) dos_okD(7) [OF D(1)] by (simp_all add: owners_def)
    have "n_type (nodes (srv st') ! f_node (files (srv st) ! m)) = n_type (nodes (srv st) ! f_node (files (srv st) ! m))"
      using D(8) [OF m(2)] ents_okD(8) [OF s(2)] m(2) t(5) by (simp add: entry_ok_def)
    then show "owners (srv st') ! m = owners (srv st) ! m" using m(1) t(4) by (simp add: owners_def)
  qed (simp add: owners_def t(4))
  moreover have "fst (owners (srv st) ! i) = ?k" using il by (simp add: owners_def)
  moreover have "dos_close io True (\<lambda>_ _. None) i st = Some (True, st')" using i s(1) by (simp add: dos_close_def)
  ultimately show ?thesis using s(4,5) t(6) ab by (intro exI [of _ st']) simp
qed

lemma op_refines:
  assumes ok: "fs_ok st" and e: "env_ok io mal" and rd: "\<forall>off. io_read io off" and ft: "fits (srv st) x"
  shows "\<exists>r st'. fs_do dv io mal (Fop x) st = Some (r, st') \<and> fs_ok st' \<and> owners (srv st') = owners (srv st) \<and>
    same_disk (fats (srv st)) (fats (srv st')) \<and>
    fs_spec_step (unat (clsize (fats (srv st)))) (owners (srv st)) (Fop x) r (abs_fs st) (abs_fs st')"
proof -
  have eo: "ents_ok st" and rc: "\<And>k. k < length (nodes (srv st)) \<Longrightarrow> refs st ! k = card (users st k)" using ok by (simp_all add: fs_ok_def)
  note D = ents_okD [OF eo]
  show ?thesis
  proof (cases "x = Dsync")
    case True
    obtain st' where s: "sync io True (\<lambda>_ _. None) st = Some (True, st')" "ents_ok st'" "same_table st st'" "rootdirents st' = rootdirents st"
      "nodes (srv st') = nodes (srv st)" "abs_dos (srv st') = abs_dos (srv st)" using sync_ok [OF eo e] by blast
    have t: "entry st' = entry st" "users st' = users st" "owners (srv st') = owners (srv st)" "refs st' = refs st"
      using s(3-5) by (simp_all add: entry_def users_def owners_def same_table_def fun_eq_iff)
    then have "fs_ok st'" using rc s(2,5) by (simp add: fs_ok_def)
    then show ?thesis using s t True by (intro exI [of _ "Some (Msg_reply 0 [])"] exI [of _ st']) (simp add: abs_fs_def same_table_def)
  next
    case False
    obtain y s where s: "dos_do dv io mal x (srv st) = Some (y, s)" "dos_ok s" "owners s = owners (srv st)" "same_disk (fats (srv st)) (fats s)"
      "spec_step (unat (clsize (fats (srv st)))) (owners (srv st)) x y (abs_dos (srv st)) (abs_dos s)"
      using dos_do_refines [OF D(1) e rd ft, of dv] by blast
    let ?s = "st\<lparr>srv := s\<rparr>"
    have N: "length (nodes s) = length (nodes (srv st))" "\<forall>k < length (nodes (srv st)). entry_ok (nodes s ! k) (entry st k)"
      using op_entries [OF D(1) e rd ft False s(1), of "entry st"] D(8) by auto
    have "map fst (owners s) = map fst (owners (srv st))" using s(3) by simp
    then have F: "map f_node (files s) = map f_node (files (srv st))" by (simp add: owners_def comp_def)
    then have fl: "length (files s) = length (files (srv st))" by (metis length_map)
    have fn: "f_node (files s ! m) = f_node (files (srv st) ! m)" if "m < length (files (srv st))" for m
      using arg_cong [OF F, of "\<lambda>l. l ! m"] that fl by simp
    have us: "users ?s = users st" using fn D(4) by (auto simp: users_def fun_eq_iff)
    have en: "entry ?s = entry st" by (simp add: entry_def fun_eq_iff)
    have "ents_ok ?s" using D s(2) N fl unfolding ents_ok_def en by simp
    then have "fs_ok ?s" using rc us N(1) by (simp add: fs_ok_def)
    then show ?thesis using s(1,3-5) False en N(1) by (intro exI [of _ "Some y"] exI [of _ ?s]) (simp add: abs_fs_def)
  qed
qed

lemma fs_do_refines:
  assumes "fs_ok st" "env_ok io mal" "\<forall>off. io_read io off" "fs_fits st x"
  shows "\<exists>r st'. fs_do dv io mal x st = Some (r, st') \<and> fs_ok st' \<and> owners (srv st') = owners (srv st) \<and>
    same_disk (fats (srv st)) (fats (srv st')) \<and>
    fs_spec_step (unat (clsize (fats (srv st)))) (owners (srv st)) x r (abs_fs st) (abs_fs st')"
proof (cases x)
  case (Fop y)
  show ?thesis unfolding Fop by (rule op_refines) (use assms Fop in simp_all)
next
  case (Fclose i)
  obtain st' where "dos_close io True (\<lambda>_ _. None) i st = Some (True, st')" "fs_ok st'" "owners (srv st') = owners (srv st)"
    "same_disk (fats (srv st)) (fats (srv st'))" "fs_spec_step (unat (clsize (fats (srv st)))) (owners (srv st)) (Fclose i) None (abs_fs st) (abs_fs st')"
    using close_refines [OF assms(1,2), of i] assms(4) Fclose by auto
  then show ?thesis unfolding Fclose by (intro exI [of _ None] exI [of _ st']) simp
qed

lemma fs_run_refines:
  assumes "fs_ok st" "env_ok io mal" "\<forall>off. io_read io off" "fs_all_fit dv io mal xs st"
  shows "\<exists>rs st'. fs_run dv io mal xs st = Some (rs, st') \<and> fs_ok st' \<and> owners (srv st') = owners (srv st) \<and>
    same_disk (fats (srv st)) (fats (srv st')) \<and>
    fs_spec_run (unat (clsize (fats (srv st)))) (owners (srv st)) xs rs (abs_fs st) (abs_fs st')"
  using assms(1,4)
proof (induction xs arbitrary: st)
  case Nil
  then show ?case by (simp add: fs_nil)
next
  case (Cons x xs)
  obtain r st1 where s: "fs_do dv io mal x st = Some (r, st1)" "fs_ok st1" "owners (srv st1) = owners (srv st)" "same_disk (fats (srv st)) (fats (srv st1))"
    "fs_spec_step (unat (clsize (fats (srv st)))) (owners (srv st)) x r (abs_fs st) (abs_fs st1)"
    using fs_do_refines [OF Cons.prems(1) assms(2,3), of x dv] Cons.prems(2) by auto
  obtain rs st' where t: "fs_run dv io mal xs st1 = Some (rs, st')" "fs_ok st'" "owners (srv st') = owners (srv st1)" "same_disk (fats (srv st1)) (fats (srv st'))"
    "fs_spec_run (unat (clsize (fats (srv st1)))) (owners (srv st1)) xs rs (abs_fs st1) (abs_fs st')"
    using Cons.IH [OF s(2)] Cons.prems(2) s(1) by auto
  have cs: "clsize (fats (srv st1)) = clsize (fats (srv st))" using s(4) by (simp add: same_disk_def)
  have "fs_run dv io mal (x # xs) st = Some (r # rs, st')" using s(1) t(1) by (simp del: fs_do.simps)
  then show ?case using t(2,3) s(3) same_disk_trans [OF s(4) t(4)] fs_cons [OF s(5)] t(5) cs by auto
qed

section \<open>Starting again\<close>

text \<open>What \<open>dir_look\<close> makes of an entry: the chain from its first cluster, and its length.\<close>

definition load_node :: "fatfs \<Rightarrow> node \<Rightarrow> dent \<Rightarrow> node option" where
  "load_node fs n d = do {
     c \<leftarrow> alloc_clust True True (d_start d) fs;
     c1 \<leftarrow> c;
     Some (n\<lparr>n_clust := c1, n_flags := 0, n_len := d_size d\<rparr>)
   }"

definition fs_start :: "(nat \<Rightarrow> u16) \<Rightarrow> (addr \<Rightarrow> block) \<Rightarrow> boot \<Rightarrow> dosfs \<Rightarrow> dosfs option" where
  "fs_start junk mem b st = do {
     fs \<leftarrow> fat_init True True junk b (dev (fats (srv st)));
     ns \<leftarrow> those (map (\<lambda>k. load_node fs (nodes (srv st) ! k) (rootdisk st ! (slots st ! k))) [0..<length (nodes (srv st))]);
     Some \<lparr>srv = \<lparr>fats = fs, cache = binit (clsize fs) (data0 fs) (disk (cache (srv st))) mem, nodes = ns, files = []\<rparr>,
       refs = replicate (length ns) 0, slots = slots st, opened = [], rootdirents = rootdisk st, root_dirty = False, rootdisk = rootdisk st\<rparr>
   }"

lemma those_map: "(\<And>x. x \<in> set xs \<Longrightarrow> f x = Some (g x)) \<Longrightarrow> those (map f xs) = Some (map g xs)"
  by (induction xs) simp_all

lemma binit_view: "view (binit bs d0 d mem) b = disk_bytes (binit bs d0 d mem) b"
  by (rule view_out) (simp add: binit_def)

lemma distinct_some:
  "distinct (concat (map f xs)) \<Longrightarrow> distinct (concat (map (\<lambda>x. if P x then [] else f x) xs))"
  by (induction xs) auto

text \<open>The clusters that a file has after the restart.\<close>

definition found :: "dosfs \<Rightarrow> nat \<Rightarrow> u16 list" where
  "found st k = (if d_size (entry st k) = 0 then [] else clusters (n_clust (nodes (srv st) ! k)))"

lemma found_ok:
  assumes "files_ok fs (chains (srv st))"
  shows "files_ok fs (map (found st) [0..<length (nodes (srv st))])"
proof -
  let ?l = "[0..<length (nodes (srv st))]" and ?g = "\<lambda>k. clusters (n_clust (nodes (srv st) ! k))"
  have c: "chains (srv st) = map ?g ?l" unfolding chains_def by (rule nth_equalityI) simp_all
  have "distinct (concat (map (found st) ?l))"
    unfolding found_def [abs_def] by (rule distinct_some) (use assms c in \<open>simp add: files_ok_def\<close>)
  moreover have "set (concat (map (found st) ?l)) \<subseteq> set (concat (chains (srv st)))" unfolding c by (auto simp: found_def split: if_splits)
  ultimately show ?thesis using assms unfolding files_ok_def c by (auto simp: found_def)
qed

lemma load_node_ok:
  assumes ok: "ents_ok st" and k: "k < length (nodes (srv st))" and f: "files_ok fs (chains (srv st))"
  shows "load_node fs (nodes (srv st) ! k) (entry st k) =
    Some ((nodes (srv st) ! k)\<lparr>n_clust := \<lparr>c_clust = found st k, c_nclust = length (found st k)\<rparr>, n_flags := 0, n_len := d_size (entry st k)\<rparr>)"
proof -
  let ?n = "nodes (srv st) ! k" and ?d = "entry st k"
  have E: "entry_ok ?n ?d" by (rule ents_okD(8) [OF ok k])
  show ?thesis
  proof (cases "d_size ?d = 0")
    case True
    then show ?thesis using E by (simp add: load_node_def entry_ok_def alloc_clust_def found_def)
  next
    case False
    then have "n_len ?n \<noteq> 0" using E by (auto simp: entry_ok_def)
    then have "c_nclust (n_clust ?n) \<noteq> 0" using E by (simp add: entry_ok_def)
    then have ne: "clusters (n_clust ?n) \<noteq> []" using chain_clusters(3) [OF ents_okD(1) [OF ok] k] by auto
    have m: "clusters (n_clust ?n) \<in> set (chains (srv st))" using k by (simp add: chains_def)
    show ?thesis using chain_read [OF f m ne] False E by (simp add: load_node_def entry_ok_def found_def)
  qed
qed

lemma restart_ok:
  assumes ok: "fs_ok st" and e: "env_ok io mal" and g: "geometry b (fats (srv st))"
  shows "\<exists>st1 st2. sync io True (\<lambda>_ _. None) st = Some (True, st1) \<and> fs_start junk mem b st1 = Some st2 \<and> fs_ok st2 \<and>
    sp_data (fst (abs_fs st2)) = map (\<lambda>(l, d). take l d) (zip (snd (abs_fs st)) (sp_data (fst (abs_fs st))))"
proof -
  have eo: "ents_ok st" using ok by (simp add: fs_ok_def)
  note D = ents_okD [OF eo]
  obtain st1 where s: "sync io True (\<lambda>_ _. None) st = Some (True, st1)" "ents_ok st1" "same_table st st1" "flushed st1" "rootdirents st1 = rootdirents st"
    "nodes (srv st1) = nodes (srv st)" "abs_dos (srv st1) = abs_dos (srv st)" using sync_ok [OF eo e] by blast
  obtain fs where r: "fat_sync (\<lambda>_ _. None) (fats (srv st)) = Some (True, fs)" "fat_init True True junk b (dev fs) = Some fs"
    "files_ok fs (chains (srv st))" "disk_ok fs" "same_disk (fats (srv st)) fs"
    using fat_restart [OF dos_okD(8) [OF D(1)] g dos_okD(1) [OF D(1)]] by blast
  have fs1: "fats (srv st1) = fs" using s(1) r(1) by (auto simp: sync_split sync_data_def)
  note D1 = ents_okD [OF s(2)]
  have en: "entry st1 = entry st" using s(3,5) by (simp add: entry_def same_table_def fun_eq_iff)
  have rd: "rootdisk st1 = rootdirents st1" "\<And>bk. good_block (cache (srv st1)) bk \<Longrightarrow> disk_bytes (cache (srv st1)) bk = view (cache (srv st1)) bk"
    using s(4) by (simp_all add: flushed_def)
  let ?N = "length (nodes (srv st))" and ?c = "binit (clsize fs) (data0 fs) (disk (cache (srv st1))) mem"
  let ?ld = "\<lambda>k. (nodes (srv st1) ! k)\<lparr>n_clust := \<lparr>c_clust = found st1 k, c_nclust = length (found st1 k)\<rparr>, n_flags := 0, n_len := d_size (entry st1 k)\<rparr>"
  let ?ns = "map ?ld [0..<?N]"
  let ?srv = "\<lparr>fats = fs, cache = ?c, nodes = ?ns, files = []\<rparr>"
  let ?st2 = "\<lparr>srv = ?srv, refs = replicate ?N 0, slots = slots st1, opened = [], rootdirents = rootdirents st1, root_dirty = False, rootdisk = rootdirents st1\<rparr>"
  have f1: "files_ok fs (chains (srv st1))" using r(3) s(6) by (simp add: chains_def)
  have "those (map (\<lambda>k. load_node fs (nodes (srv st1) ! k) (rootdisk st1 ! (slots st1 ! k))) [0..<?N]) = Some ?ns"
    by (rule those_map) (use load_node_ok [OF s(2) _ f1] s(6) rd(1) in \<open>simp add: entry_def\<close>)
  then have d: "fs_start junk mem b st1 = Some ?st2" using r(2) fs1 s(6) rd(1) by (simp add: fs_start_def)
  have clk: "clusters (n_clust (?ld k)) = found st1 k" for k by (simp add: clusters_def)
  have ch: "chains ?srv = map (found st1) [0..<?N]" unfolding chains_def by (rule nth_equalityI) (simp_all add: clusters_def)
  have place: "bsize (cache (srv st1)) = clsize fs" "bdata0 (cache (srv st1)) = data0 fs" using dos_okD(3,9) [OF D1(1)] fs1 by simp_all
  have sp: "same_place (cache (srv st1)) ?c" using place by (simp add: same_place_def binit_def)
  have db: "disk_bytes ?c = disk_bytes (cache (srv st1))" by (rule disk_bytes_cong [OF sp]) (simp add: binit_def)
  have gb: "good_block ?c = good_block (cache (srv st1))" using place_cong [OF sp] by simp
  have p: "0 < unat (clsize fs)" using dos_okD(4) [OF D1(1)] fs1 by auto
  have nk: "node_ok (clsize fs) (?ld k)" if "k < ?N" for k
  proof -
    have k: "k < length (nodes (srv st1))" using that s(6) by simp
    have "node_ok (clsize fs) (nodes (srv st1) ! k)" using dos_okD(6) [OF D1(1), of "nodes (srv st1) ! k"] k fs1 by simp
    moreover have "d_size (entry st1 k) \<le> n_len (nodes (srv st1) ! k)" using D1(8) [OF k] by (simp add: entry_ok_def)
    ultimately show ?thesis using chain_clusters(3) [OF D1(1) k] by (simp add: node_ok_def found_def word_le_nat_alt)
  qed
  have gd: "good_block ?c (ucast x)" if "2 \<le> unat x" "unat x < nclust fs" for x :: u16
    using dos_okD(5) [OF D1(1)] that fs1 unfolding gb by simp
  have bi: "bsize ?c = clsize fs" "bdata0 ?c = data0 fs" by (simp_all add: binit_def)
  have dk: "dos_ok ?srv"
    unfolding dos_ok_def ch using found_ok [OF f1] s(6) r(4) binit_idle [OF p] bi dos_okD(4) [OF D1(1)] fs1 gd nk by simp
  have ek: "entry_ok (?ld k) (entry st1 k)" if "k < ?N" for k
  proof -
    have k: "k < length (nodes (srv st1))" using that s(6) by simp
    have E: "entry_ok (nodes (srv st1) ! k) (entry st1 k)" by (rule D1(8) [OF k])
    have "found st1 k \<noteq> []" if "d_size (entry st1 k) \<noteq> 0"
    proof -
      have "n_len (nodes (srv st1) ! k) \<noteq> 0" using that E by (auto simp: entry_ok_def)
      then have "c_nclust (n_clust (nodes (srv st1) ! k)) \<noteq> 0" using E by (simp add: entry_ok_def)
      then show ?thesis using chain_clusters(3) [OF D1(1) k] that by (auto simp: found_def)
    qed
    moreover have "clusters \<lparr>c_clust = found st1 k, c_nclust = length (found st1 k)\<rparr> = found st1 k" by (simp add: clusters_def)
    ultimately show ?thesis using E by (simp add: entry_ok_def) (simp add: found_def)
  qed
  have e2: "entry ?st2 = entry st1" by (simp add: entry_def fun_eq_iff)
  have "ents_ok ?st2" unfolding ents_ok_def e2 using dk ek D1(2,5,6) s(6) by simp
  then have ok2: "fs_ok ?st2" by (simp add: fs_ok_def users_def)
  have "contents ?srv m = take (unat (d_size (entry st m))) (contents (srv st1) m)" if m: "m < ?N" for m
  proof -
    have k: "m < length (nodes (srv st1))" using m s(6) by simp
    have le: "unat (d_size (entry st1 m)) \<le> unat (n_len (nodes (srv st1) ! m))" using D1(8) [OF k] by (simp add: entry_ok_def word_le_nat_alt)
    have v: "file_bytes (view ?c) (clusters (n_clust (nodes (srv st1) ! m))) = raw (srv st1) m"
      unfolding raw_def by (rule file_bytes_cong) (use chain_clusters(2) [OF D1(1) k] rd(2) binit_view db in auto)
    have "contents ?srv m = take (unat (d_size (entry st1 m))) (raw (srv st1) m)"
    proof (cases "d_size (entry st1 m) = 0")
      case False
      have "clusters (n_clust (nodes ?srv ! m)) = found st1 m" using m clk [of m] by simp
      then have "raw ?srv m = file_bytes (view ?c) (found st1 m)" by (simp add: raw_def)
      then have "raw ?srv m = raw (srv st1) m" using False v by (simp add: found_def)
      then show ?thesis using m by (simp add: contents_def)
    qed (use m in \<open>simp add: contents_def\<close>)
    then show ?thesis using le en by (simp add: contents_def min_def)
  qed
  moreover have "contents (srv st1) m = contents (srv st) m" if "m < ?N" for m
    using arg_cong [OF s(7), of "\<lambda>a. sp_data a ! m"] that s(6) by (simp add: abs_dos_def)
  ultimately have "sp_data (fst (abs_fs ?st2)) = map (\<lambda>(l, d). take l d) (zip (snd (abs_fs st)) (sp_data (fst (abs_fs st))))"
    by (intro nth_equalityI) (simp_all add: abs_fs_def abs_dos_def)
  then show ?thesis using s(1) d ok2 by (intro exI [of _ st1] exI [of _ ?st2]) simp
qed

section \<open>The properties\<close>


text \<open>The second of two clients writes three bytes to an empty file and closes it, or leaves it open.\<close>

definition demo_fs :: dosfs where
  "demo_fs = \<lparr>srv = demo_dos, refs = [1, 1], slots = [0, 1], opened = [True, True],
     rootdirents = [\<lparr>d_size = 600, d_start = 2\<rparr>, \<lparr>d_size = 0, d_start = 0\<rparr>], root_dirty = False,
     rootdisk = [\<lparr>d_size = 600, d_start = 2\<rparr>, \<lparr>d_size = 0, d_start = 0\<rparr>]\<rparr>"

definition demo_write :: fs_op where
  "demo_write = Fop (Dwrite 1 True [1, 2, 3])"

lemma demo_fs_ok: "fs_ok demo_fs"
proof -
  have u: "users demo_fs k = (if k < 2 then {k} else {})" for k
  proof -
    have "i < length (opened demo_fs) \<and> opened demo_fs ! i \<and> f_node (files (srv demo_fs) ! i) = k \<longleftrightarrow> i = k \<and> k < 2" for i
    proof (cases i)
      case (Suc j)
      then show ?thesis by (cases j) (auto simp: demo_fs_def demo_dos_def)
    qed (auto simp: demo_fs_def demo_dos_def)
    then show ?thesis by (auto simp: users_def)
  qed
  have "entry_ok (nodes demo_dos ! k) (entry demo_fs k)" if "k < 2" for k
    using that by (auto simp: less_2_cases_iff entry_ok_def entry_def demo_fs_def demo_dos_def clusters_def N_DIRTY_def)
  moreover have "srv demo_fs = demo_dos" "refs demo_fs = [1, 1]" "slots demo_fs = [0, 1]" "opened demo_fs = [True, True]"
    "length (rootdirents demo_fs) = 2" "rootdisk demo_fs = rootdirents demo_fs" "length (nodes demo_dos) = 2" "length (files demo_dos) = 2"
    by (simp_all add: demo_fs_def demo_dos_def)
  moreover have "[1, 1] ! k = (1 :: nat)" if "k < 2" for k using that by (auto simp: less_2_cases_iff)
  ultimately show ?thesis using demo_dos_ok u unfolding fs_ok_def ents_ok_def by simp
qed

lemma demo_fs_parts: "srv demo_fs = demo_dos" "opened demo_fs = [True, True]" "owners demo_dos = [(0, True), (1, True)]"
    "clsize (fats demo_dos) = 512" "snd (abs_fs demo_fs) = [600, 0]" "sp_data (abs_dos demo_dos) ! 1 = []" "sp_pos (abs_dos demo_dos) = [0, 0]"
    "sp_held (abs_dos demo_dos) = [2, 0]" "length (sp_data (abs_dos demo_dos)) = 2"
  by (simp_all add: demo_fs_def abs_fs_def entry_def upt_rec) (simp_all add: demo_dos_def owners_def T_DIR_def T_FILE_def ACC_WRITE_def demo_fat_def abs_dos_def contents_def)

lemma demo_room: "0 < sp_free (abs_dos demo_dos)"
proof -
  have "4 \<in> free_set demo_fat" using demo_table_facts by (auto simp: free_set_def demo_fat_def)
  then have "0 < card (free_set demo_fat)" by (auto simp: card_gt_0_iff free_set_def)
  then show ?thesis by (simp add: abs_dos_def demo_dos_def)
qed

lemma demo_fit: "fs_all_fit dv demo_io demo_mal [demo_write, Fclose 1] demo_fs" "fs_all_fit dv demo_io demo_mal [demo_write] demo_fs"
  by (auto simp: demo_write_def demo_fs_parts split: option.split) (auto simp: demo_fs_def demo_dos_def demo_fat_def)

text \<open>What the specification says of the write.\<close>

lemma demo_written:
  assumes "fs_spec_step 512 [(0, True), (1, True)] demo_write r (abs_fs demo_fs) s"
  shows "sp_data (fst s) ! 1 = [1, 2, 3]" "snd s = [600, 0]" "length (sp_data (fst s)) = 2"
proof -
  have ab: "fst (abs_fs demo_fs) = abs_dos demo_dos" by (simp add: abs_fs_def demo_fs_parts)
  obtain y where y: "spec_step 512 [(0, True), (1, True)] (Dwrite 1 True [1, 2, 3]) y (abs_dos demo_dos) (fst s)" "snd s = [600, 0]"
    using assms ab by (auto simp: demo_write_def demo_fs_parts)
  show "snd s = [600, 0]" by (rule y(2))
  obtain new where n: "written 0 [1, 2, 3] [] new" "sp_data (fst s) = (sp_data (abs_dos demo_dos))[1 := new]"
    using y(1) demo_room demo_fs_parts(6) by (auto simp: demo_fs_parts Let_def split: if_splits)
  have "new = [1, 2, 3]"
  proof (rule nth_equalityI)
    show "length new = length [1, 2, 3 :: u8]" using n(1) by (simp add: written_def)
    fix k assume "k < length new"
    then show "new ! k = [1, 2, 3] ! k" using n(1) by (auto simp: written_def)
  qed
  then show "sp_data (fst s) ! 1 = [1, 2, 3]" "length (sp_data (fst s)) = 2" using n(2) demo_fs_parts(9) by simp_all
qed

inductive_cases fs_run_oneE: "fs_spec_run cs own [x] rs s s'"
inductive_cases fs_run_twoE: "fs_spec_run cs own [x, y] rs s s'"
inductive_cases fs_run_nilE: "fs_spec_run cs own [] rs s s'"

lemma demo_restart_data:
  assumes "snd s = [600, l]" "length (sp_data (fst s)) = 2"
  shows "map (\<lambda>(l, d). take l d) (zip (snd s) (sp_data (fst s))) ! 1 = take l (sp_data (fst s) ! 1)"
  using assms by simp


text \<open>
  The same history without the close: the bytes are written, and the flush is complete, yet the new
  server finds the file empty.
\<close>

theorem open_file_lost:
  "\<exists>rs st' st1 st2. fs_run demo_dirs demo_io demo_mal [demo_write] demo_fs = Some (rs, st') \<and> sp_data (fst (abs_fs st')) ! 1 = [1, 2, 3] \<and>
     sync demo_io True (\<lambda>_ _. None) st' = Some (True, st1) \<and>
     fs_start (\<lambda>_. 0) (\<lambda>_. \<lparr>b_blkno = 0, b_flags = 0, b_data = [], b_refs = 0\<rparr>) demo_boot st1 = Some st2 \<and>
     sp_data (fst (abs_fs st2)) ! 1 = []"
proof -
  let ?mem = "\<lambda>_. \<lparr>b_blkno = 0, b_flags = 0, b_data = [], b_refs = 0\<rparr>"
  have g: "geometry demo_boot (fats (srv demo_fs))" using demo_geometry by (simp add: demo_fs_parts) (simp add: demo_dos_def)
  obtain rs st' where r: "fs_run demo_dirs demo_io demo_mal [demo_write] demo_fs = Some (rs, st')" "fs_ok st'"
    "same_disk (fats (srv demo_fs)) (fats (srv st'))"
    "fs_spec_run (unat (clsize (fats (srv demo_fs)))) (owners (srv demo_fs)) [demo_write] rs (abs_fs demo_fs) (abs_fs st')"
    using fs_run_refines [OF demo_fs_ok demo_env demo_fit(2)] by blast
  have s: "\<exists>r1. fs_spec_step 512 [(0, True), (1, True)] demo_write r1 (abs_fs demo_fs) (abs_fs st')"
    using r(4) by (auto simp: demo_fs_parts elim!: fs_run_oneE fs_run_nilE simp del: fs_spec_step.simps)
  then have W: "sp_data (fst (abs_fs st')) ! 1 = [1, 2, 3]" "snd (abs_fs st') = [600, 0]" "length (sp_data (fst (abs_fs st'))) = 2"
    using demo_written by blast+
  obtain st1 st2 where t: "sync demo_io True (\<lambda>_ _. None) st' = Some (True, st1)" "fs_start (\<lambda>_. 0) ?mem demo_boot st1 = Some st2"
    "sp_data (fst (abs_fs st2)) = map (\<lambda>(l, d). take l d) (zip (snd (abs_fs st')) (sp_data (fst (abs_fs st'))))"
    using restart_ok [OF r(2) demo_env(1) geometry_same [OF g r(3)]] by blast
  then have "sp_data (fst (abs_fs st2)) ! 1 = []" using W demo_restart_data [of "abs_fs st'" 0] by simp
  then show ?thesis using r(1) t(1,2) W(1) by blast
qed

end
