(* ===== verification/Stat_Text.thy ===== *)
theory Stat_Text
  imports Permissions "HOL-Library.Monad_Syntax"
begin

text \<open>
  Protections and numbers as text, as the servers show them to their clients and read them back:
  \<open>num\<close> of \<open>libc/doprnt.c\<close>, \<open>atoi\<close> and \<open>innum\<close> of \<open>libc/scanf.c\<close>, \<open>perm_print\<close> and \<open>perm_set\<close> of
  \<open>libc/permpr.c\<close> and \<open>do_wstat\<close> of \<open>libc/statsup.c\<close>.

  A C string is the list of its characters before the terminating null; \<open>NL\<close> is a newline.  A write
  beyond a buffer and an access through a null pointer are \<open>None\<close>.
\<close>

abbreviation NL :: char where "NL \<equiv> CHR 0x0A"

definition ACC_CHMOD :: u32 where "ACC_CHMOD = 0x40"
definition MAXSTAT :: nat where "MAXSTAT = 256"

section \<open>Numbers\<close>

text \<open>The table of \<open>ctype.c\<close> has 128 entries, and the macro masks its argument.\<close>

definition isdigit :: "char \<Rightarrow> bool" where
  "isdigit c = (48 \<le> (of_char c :: nat) mod 128 \<and> (of_char c :: nat) mod 128 \<le> 57)"

partial_function (option) num_loop :: "u32 \<Rightarrow> u32 \<Rightarrow> string \<Rightarrow> string option" where
  "num_loop x base p =
     (if base = 0 then None
      else let c = x mod base;
             p1 = (if c < 10 then char_of (48 + unat c) else char_of (97 + unat (c - 10))) # p;
             x1 = x div base
           in if x1 \<noteq> 0 then num_loop x1 base p1 else Some p1)"

definition num :: "u32 \<Rightarrow> u32 \<Rightarrow> bool \<Rightarrow> string option" where
  "num x base is_unsigned =
     (let neg = (base = 10 \<and> \<not> is_unsigned \<and> x <s 0);
        x1 = (if neg then - x else x)
      in do { p \<leftarrow> num_loop x1 base []; Some (if neg then CHR ''-'' # p else p) })"

text \<open>A \<open>char\<close> is signed.\<close>

fun atoi_loop :: "u32 \<Rightarrow> string \<Rightarrow> u32" where
  "atoi_loop val [] = val"
| "atoi_loop val (c # p) =
     (if isdigit c then atoi_loop (val * 10 + (scast (of_char c :: u8) - 48)) p else val)"

fun atoi :: "string \<Rightarrow> u32" where
  "atoi [] = 0"
| "atoi (c # p) = (if c = CHR ''-'' then 0 - atoi_loop 0 p else atoi_loop 0 (c # p))"

text \<open>
  \<open>innum\<close> for the conversion \<open>%ld\<close>: the loop keeps the digits in \<open>numbuf\<close>, an array of 64 characters,
  while it adds them up.  The inner \<open>None\<close> is a failed match.
\<close>

fun innum_loop :: "u32 \<Rightarrow> nat \<Rightarrow> string \<Rightarrow> u32 \<times> nat" where
  "innum_loop lcval np [] = (lcval, np)"
| "innum_loop lcval np (c # s) =
     (if isdigit c
      then innum_loop (push_bit 1 (push_bit 2 lcval + lcval) + (ucast (of_char c :: u8) - 48)) (Suc np) s
      else (lcval, np))"

definition innum :: "string \<Rightarrow> u32 option option" where
  "innum s =
     (let s1 = dropWhile (\<lambda>c. c = CHR '' '' \<or> c = CHR 0x09 \<or> c = NL) s;
        negflg = (s1 \<noteq> [] \<and> hd s1 = CHR ''-'');
        s2 = (if s1 \<noteq> [] \<and> (hd s1 = CHR ''-'' \<or> hd s1 = CHR ''+'') then tl s1 else s1);
        (lcval, np) = innum_loop 0 (if negflg then 1 else 0) s2
      in if 64 \<le> np then None
         else if np = 0 \<or> negflg \<and> np = 1 then Some None
         else Some (Some (if negflg then - lcval else lcval)))"

text \<open>Decimal digits of a natural number, the most significant one first.\<close>

definition digit :: "nat \<Rightarrow> char" where
  "digit d = char_of (48 + d)"

fun dec :: "nat \<Rightarrow> string" where
  "dec n = (if n < 10 then [digit n] else dec (n div 10) @ [digit (n mod 10)])"

declare dec.simps [simp del]

lemma of_char_digit: "d < 10 \<Longrightarrow> (of_char (digit d) :: nat) = 48 + d"
  by (simp add: digit_def)

lemma of_char_digit_byte: "d < 10 \<Longrightarrow> (of_char (digit d) :: u8) = 48 + of_nat d"
  using of_nat_of_char [of "digit d", where 'a = u8, symmetric] by (simp add: of_char_digit)

lemma digit_cases: "d < 10 \<Longrightarrow> d = 0 \<or> d = 1 \<or> d = 2 \<or> d = 3 \<or> d = 4 \<or> d = 5 \<or> d = 6 \<or> d = 7 \<or> d = 8 \<or> d = (9 :: nat)"
  by arith

lemma isdigit_digit [simp]: "d < 10 \<Longrightarrow> isdigit (digit d)"
  by (simp add: isdigit_def of_char_digit)

lemma digit_value:
  assumes "d < 10"
  shows "scast (of_char (digit d) :: u8) - 48 = (of_nat d :: u32)" "ucast (of_char (digit d) :: u8) - 48 = (of_nat d :: u32)"
  using digit_cases [OF assms] by (auto simp: of_char_digit_byte)

lemma digit_special:
  assumes "d < 10" and c: "(of_char c :: nat) < 48"
  shows "digit d \<noteq> c"
  using assms of_char_digit [OF assms(1)] by auto

lemma dec_chars: "c \<in> set (dec n) \<Longrightarrow> \<exists>d<10. c = digit d"
proof (induction n rule: dec.induct)
  case (1 n)
  show ?case
  proof (cases "n < 10")
    case True
    with 1(2) show ?thesis by (subst (asm) dec.simps) auto
  next
    case False
    then have "c \<in> set (dec (n div 10)) \<or> c = digit (n mod 10)"
      using 1(2) by (subst (asm) dec.simps) auto
    moreover have "n mod 10 < 10" by simp
    ultimately show ?thesis using 1(1) [OF False] by blast
  qed
qed

lemma dec_nonempty [simp]: "dec n \<noteq> []"
  by (subst dec.simps) simp

lemma dec_no_special: "c \<in> set (dec n) \<Longrightarrow> (of_char x :: nat) < 48 \<Longrightarrow> c \<noteq> x"
  using dec_chars digit_special by blast

lemma hd_dec: "(of_char x :: nat) < 48 \<Longrightarrow> hd (dec n) \<noteq> x"
  using dec_no_special hd_in_set [OF dec_nonempty] by blast

lemma length_dec: "n < 10 ^ k \<Longrightarrow> 0 < k \<Longrightarrow> length (dec n) \<le> k"
proof (induction k arbitrary: n)
  case (Suc k)
  show ?case
  proof (cases "n < 10")
    case False
    then have "k \<noteq> 0" using Suc.prems by (cases k) auto
    moreover have "n div 10 < 10 ^ k" using Suc.prems by (simp add: less_mult_imp_div_less mult.commute)
    ultimately have "0 < k" "n div 10 < 10 ^ k" by auto
    then show ?thesis using Suc.IH [of "n div 10"] False by (subst dec.simps) simp
  qed (subst dec.simps, simp)
qed simp

lemma num_loop_dec: "num_loop x 10 p = Some (dec (unat x) @ p)"
proof (induction "unat x" arbitrary: x p rule: less_induct)
  case less
  note [simp] = digit_def
  have c: "x mod 10 < 10" by (simp add: word_less_nat_alt unat_mod)
  have m: "unat (x mod 10) = unat x mod 10" "unat (x div 10) = unat x div 10" by (simp_all add: unat_mod unat_div)
  show ?case
  proof (cases "x div 10 = 0")
    case True
    then have "unat x < 10" using m(2) by simp
    then show ?thesis using True c m by (subst num_loop.simps, subst dec.simps) (simp add: Let_def)
  next
    case False
    have nz: "\<not> unat x < 10" using False m(2) by (metis div_less unat_0 unat_eq_zero)
    then have "unat (x div 10) < unat x" using m by simp
    from less [OF this] show ?thesis
      using False c m nz by (subst num_loop.simps, subst dec.simps) (simp add: Let_def)
  qed
qed

lemma num_unsigned: "num x 10 True = Some (dec (unat x))"
  by (simp add: num_def num_loop_dec)

lemma num_byte: "num (ucast (b :: u8)) 10 False = Some (dec (unat b))"
proof -
  have "uint b < 2 ^ 8" using unsigned_less [of b, where 'a = int] by simp
  then have u: "uint b < 2 ^ 8" "uint (ucast b :: u32) = uint b"
    by (simp_all add: unsigned_ucast_eq take_bit_int_eq_self)
  have "- (2 ^ 31) \<le> uint b" by (rule order_trans [OF _ uint_ge_0]) simp
  with u have "sint (ucast b :: u32) = uint b"
    by (simp add: sint_uint signed_take_bit_int_eq_self_iff)
  then have "\<not> (ucast b :: u32) <s 0"
    by (simp add: word_sless_alt)
  moreover have "unat (ucast b :: u32) = unat b"
    using arg_cong [OF u(2), of nat] by (simp only: nat_uint_eq)
  ultimately show ?thesis by (simp add: num_def num_loop_dec)
qed

text \<open>Reading digits back: the loops carry on from the value that they have.\<close>

lemma of_nat_digits: "(of_nat n :: u32) = of_nat (n div 10) * 10 + of_nat (n mod 10)"
proof -
  have "(of_nat n :: u32) = of_nat (n div 10 * 10 + n mod 10)" by (simp only: div_mult_mod_eq)
  then show ?thesis by (simp only: of_nat_add of_nat_mult of_nat_numeral)
qed

lemma innum_step: "d < 10 \<Longrightarrow> innum_loop l k (digit d # r) = innum_loop (l * 10 + of_nat d) (Suc k) r"
  by (simp add: digit_value push_bit_eq_mult algebra_simps)

lemma atoi_loop_dec: "atoi_loop v (dec n @ r) = atoi_loop (v * 10 ^ length (dec n) + of_nat n) r"
proof (induction n arbitrary: v r rule: dec.induct)
  case (1 n)
  show ?case
  proof (cases "n < 10")
    case True
    then show ?thesis by (subst (1 2) dec.simps) (simp add: digit_value)
  next
    case False
    note n = of_nat_digits [of n]
    from False show ?thesis
      by (subst (1 2) dec.simps) (simp add: 1 digit_value n algebra_simps)
  qed
qed

lemma innum_loop_dec:
  "innum_loop v k (dec n @ r) = innum_loop (v * 10 ^ length (dec n) + of_nat n) (k + length (dec n)) r"
proof (induction n arbitrary: v k r rule: dec.induct)
  case (1 n)
  show ?case
  proof (cases "n < 10")
    case True
    then show ?thesis by (subst (1 2 3) dec.simps) (simp add: innum_step del: innum_loop.simps)
  next
    case False
    note n = of_nat_digits [of n]
    from False show ?thesis
      by (subst (1 2 3) dec.simps) (simp add: 1 n innum_step algebra_simps del: innum_loop.simps)
  qed
qed

definition stops :: "string \<Rightarrow> bool" where
  "stops r = (r = [] \<or> \<not> isdigit (hd r))"

lemma atoi_dec: "stops r \<Longrightarrow> atoi (dec n @ r) = of_nat n"
proof -
  assume r: "stops r"
  obtain c cs where d: "dec n = c # cs" by (cases "dec n") auto
  have "c \<noteq> CHR ''-''" using dec_no_special [of c n "CHR ''-''"] d by simp
  then have "atoi (dec n @ r) = atoi_loop 0 (dec n @ r)" by (simp add: d)
  also have "\<dots> = of_nat n" using r atoi_loop_dec [of 0 n r] by (cases r) (simp_all add: stops_def)
  finally show ?thesis .
qed

lemma innum_dec:
  assumes n: "n < 2 ^ 32" and r: "stops r"
  shows "innum (dec n @ r) = Some (Some (of_nat n))"
proof -
  let ?s = "dec n @ r"
  have c: "hd ?s \<noteq> CHR ''-''" "hd ?s \<noteq> CHR ''+''" "hd ?s \<noteq> CHR '' ''" "hd ?s \<noteq> CHR 0x09" "hd ?s \<noteq> NL"
    by (simp_all add: hd_dec)
  then have w: "dropWhile (\<lambda>c. c = CHR '' '' \<or> c = CHR 0x09 \<or> c = NL) ?s = ?s"
    by (cases ?s) auto
  have l: "length (dec n) \<le> 10" using n by (intro length_dec) auto
  have "innum_loop 0 0 ?s = (of_nat n, length (dec n))"
    using r innum_loop_dec [of 0 0 n r] by (cases r) (simp_all add: stops_def)
  then show ?thesis using c l by (simp add: innum_def w del: hd_append2)
qed

text \<open>What \<open>%u\<close> prints, \<open>%ld\<close> reads back.\<close>

lemma innum_num: "num x 10 True = Some s \<Longrightarrow> innum s = Some (Some x)"
  using innum_dec [of "unat x" "[]"] unsigned_less [of x, where 'a = nat]
  by (auto simp: num_unsigned stops_def)

section \<open>Protections\<close>

fun print_ids :: "bool \<Rightarrow> u8 list \<Rightarrow> string option" where
  "print_ids first [] = Some []"
| "print_ids first (b # bs) =
     do { d \<leftarrow> num (ucast b) 10 False; r \<leftarrow> print_ids False bs; Some ((if first then [] else ''/'') @ d @ r) }"

fun print_bits :: "u8 list \<Rightarrow> string option" where
  "print_bits [] = Some []"
| "print_bits (b # bs) = do { d \<leftarrow> num (ucast b) 10 False; r \<leftarrow> print_bits bs; Some (''/'' @ d @ r) }"

definition perm_print :: "prot \<Rightarrow> string option" where
  "perm_print prot =
     (if PERMLEN < unat (prot_len prot) then None
      else do {
        ids \<leftarrow> print_ids True (take (unat (prot_len prot)) (prot_id prot));
        d \<leftarrow> num (ucast (prot_default prot)) 10 False;
        bits \<leftarrow> print_bits (take (unat (prot_len prot)) (prot_bits prot));
        let buf = ''perm='' @ ids @ NL # ''acc='' @ d @ bits @ [NL] in
        if PERMLEN * 4 * 2 + 12 < length buf + 1 then None else Some buf })"

fun perm_fields :: "nat \<Rightarrow> string \<Rightarrow> u8 list" where
  "perm_fields 0 val = []"
| "perm_fields (Suc k) val =
     (if val = [] then []
      else let p = dropWhile (\<lambda>c. c \<noteq> CHR ''/'') val
           in ucast (atoi val) # perm_fields k (if p \<noteq> [] then tl p else p))"

text \<open>The array and the number of fields that were parsed.\<close>

definition perm_set_text :: "string option \<Rightarrow> u8 list \<times> nat" where
  "perm_set_text val =
     (let fs = (case val of None \<Rightarrow> [] | Some v \<Rightarrow> perm_fields PERMLEN v)
      in (fs @ replicate (PERMLEN - length fs) 0, length fs))"

section \<open>Writing a field of the status\<close>

definition cstr :: "string \<Rightarrow> string" where
  "cstr s = takeWhile (\<lambda>c. c \<noteq> CHR 0x00) s"

text \<open>
  The name and the value of the field in the first \<open>m_buflen\<close> characters of the buffer, none when
  the line does not end.
\<close>

definition split_field :: "string \<Rightarrow> (string \<times> string option) option" where
  "split_field buf =
     (let field = takeWhile (\<lambda>c. c \<noteq> NL \<and> c \<noteq> CHR ''='') buf
      in case drop (length field) buf of
           [] \<Rightarrow> None
         | c # v \<Rightarrow>
             if c = CHR ''='' then
               let val = takeWhile (\<lambda>c. c \<noteq> NL) v
               in if length val = length v then None else Some (cstr field, Some (cstr val))
             else Some (cstr field, None))"

datatype wstat_reply = Wfailed errstr | Wdone | Wother string "string option"

definition set_acc :: "string option \<Rightarrow> prot \<Rightarrow> prot option" where
  "set_acc val prot =
     do { v \<leftarrow> val;
          let r = dropWhile (\<lambda>c. c \<noteq> CHR ''/'') v;
          Some (prot\<lparr>prot_default := ucast (atoi v),
                 prot_bits := fst (perm_set_text (if r = [] then None else Some (tl r)))\<rparr>) }"

definition set_perm_ids :: "string option \<Rightarrow> prot \<Rightarrow> prot" where
  "set_perm_ids val prot =
     (let (ids, len) = perm_set_text val;
        prot1 = prot\<lparr>prot_id := ids\<rparr>;
        x = min len (unat (prot_len prot))
      in if len \<noteq> unat (prot_len prot)
         then prot1\<lparr>prot_bits := take x (prot_bits prot) @ replicate (PERMLEN - x) 0, prot_len := of_nat len\<rparr>
         else prot1)"

definition do_wstat :: "nat \<Rightarrow> string \<Rightarrow> u32 \<Rightarrow> prot \<Rightarrow> (wstat_reply \<times> prot) option" where
  "do_wstat nseg mbuf acc prot =
     (if acc AND ACC_CHMOD = 0 then Some (Wfailed EPERM, prot)
      else if nseg \<noteq> 1 \<or> MAXSTAT < length mbuf then Some (Wfailed EINVAL, prot)
      else let buf = (if length mbuf = MAXSTAT then mbuf[MAXSTAT - 1 := CHR 0x00] else mbuf)
           in case split_field buf of
                None \<Rightarrow> Some (Wfailed EINVAL, prot)
              | Some (field, val) \<Rightarrow>
                  if field = ''acc'' then do { p \<leftarrow> set_acc val prot; Some (Wdone, p) }
                  else if field = ''perm'' then Some (Wdone, set_perm_ids val prot)
                  else Some (Wother field val, prot))"

section \<open>What is printed is read back\<close>

lemma print_bits_ids: "print_bits bs = print_ids False bs"
  by (induction bs) (simp_all add: num_byte)

fun joined :: "u8 list \<Rightarrow> string" where
  "joined [] = []"
| "joined [b] = dec (unat b)"
| "joined (b # bs) = dec (unat b) @ CHR ''/'' # joined bs"

definition slashed :: "u8 list \<Rightarrow> string" where
  "slashed bs = (if bs = [] then [] else CHR ''/'' # joined bs)"

lemma joined_Cons: "joined (b # bs) = dec (unat b) @ slashed bs"
  by (cases bs) (simp_all add: slashed_def)

lemma print_ids_joined: "print_ids first bs = Some (if first then joined bs else slashed bs)"
  by (induction bs arbitrary: first) (simp_all add: num_byte joined_Cons slashed_def)

lemma stops_slashed [simp]: "stops (slashed bs)" "stops (slashed bs @ NL # r)"
  by (simp_all add: stops_def slashed_def isdigit_def)

lemma joined_chars: "c \<in> set (joined bs) \<Longrightarrow> c = CHR ''/'' \<or> (\<exists>n. c \<in> set (dec n))"
  by (induction bs rule: joined.induct) auto

lemma joined_plain: "c \<in> set (joined bs) \<Longrightarrow> (of_char x :: nat) < 48 \<Longrightarrow> x \<noteq> CHR ''/'' \<Longrightarrow> c \<noteq> x"
  using joined_chars dec_no_special by blast

lemma slashed_plain: "c \<in> set (slashed bs) \<Longrightarrow> (of_char x :: nat) < 48 \<Longrightarrow> x \<noteq> CHR ''/'' \<Longrightarrow> c \<noteq> x"
  using joined_plain [of c bs x] by (auto simp: slashed_def split: if_splits)

lemma dropWhile_dec: "dropWhile (\<lambda>c. c \<noteq> CHR ''/'') (dec n @ slashed bs) = slashed bs"
proof -
  have "\<forall>c\<in>set (dec n). c \<noteq> CHR ''/''" by (simp add: dec_no_special)
  then show ?thesis by (simp add: dropWhile_append2 slashed_def)
qed

lemma perm_fields_joined: "length bs \<le> k \<Longrightarrow> perm_fields k (joined bs) = bs"
proof (induction bs arbitrary: k)
  case Nil
  then show ?case by (cases k) simp_all
next
  case (Cons b bs)
  then obtain j where k: "k = Suc j" and j: "length bs \<le> j" by (cases k) auto
  have t: "(if slashed bs \<noteq> [] then tl (slashed bs) else slashed bs) = joined bs"
    by (simp add: slashed_def)
  have "ucast (ucast b :: u32) = b" by (rule bit_word_eqI) (simp add: bit_ucast_iff)
  then show ?case
    using Cons.IH [OF j] t by (simp add: k joined_Cons atoi_dec dropWhile_dec Let_def)
qed

lemma perm_set_joined:
  "length bs \<le> PERMLEN \<Longrightarrow> perm_set_text (Some (joined bs)) = (bs @ replicate (PERMLEN - length bs) 0, length bs)"
  by (simp add: perm_set_text_def perm_fields_joined)

text \<open>
  The labels and bits beyond the length of a protection are 0: \<open>dir_newfile\<close> of the servers starts
  from zeroes, and \<open>do_wstat\<close> keeps it so.
\<close>

definition prot_ok :: "prot \<Rightarrow> bool" where
  "prot_ok p = (unat (prot_len p) \<le> PERMLEN \<and> length (prot_id p) = PERMLEN \<and> length (prot_bits p) = PERMLEN \<and>
     drop (unat (prot_len p)) (prot_id p) = replicate (PERMLEN - unat (prot_len p)) 0 \<and>
     drop (unat (prot_len p)) (prot_bits p) = replicate (PERMLEN - unat (prot_len p)) 0)"

definition perm_line :: "prot \<Rightarrow> string" where
  "perm_line p = ''perm='' @ joined (take (unat (prot_len p)) (prot_id p)) @ [NL]"

definition acc_line :: "prot \<Rightarrow> string" where
  "acc_line p = ''acc='' @ dec (unat (prot_default p)) @ slashed (take (unat (prot_len p)) (prot_bits p)) @ [NL]"

lemma perm_print_lines:
  "unat (prot_len p) \<le> PERMLEN \<Longrightarrow> perm_print p =
     (if PERMLEN * 4 * 2 + 12 < length (perm_line p @ acc_line p) + 1 then None else Some (perm_line p @ acc_line p))"
  by (simp add: perm_print_def print_bits_ids print_ids_joined num_byte perm_line_def acc_line_def Let_def)

lemma split_field_line:
  assumes f: "\<forall>c\<in>set f. c \<noteq> NL \<and> c \<noteq> CHR ''='' \<and> c \<noteq> CHR 0x00" and v: "\<forall>c\<in>set v. c \<noteq> NL \<and> c \<noteq> CHR 0x00"
  shows "split_field (f @ CHR ''='' # v @ [NL]) = Some (f, Some v)"
proof -
  have 1: "takeWhile (\<lambda>c. c \<noteq> NL \<and> c \<noteq> CHR ''='') (f @ CHR ''='' # v @ [NL]) = f"
    using f by (subst takeWhile_append2) auto
  have 2: "takeWhile (\<lambda>c. c \<noteq> NL) (v @ [NL]) = v" using v by (subst takeWhile_append2) auto
  have 3: "cstr f = f" "cstr v = v" using f v by (auto simp: cstr_def)
  show ?thesis unfolding split_field_def Let_def 1 by (simp add: 2 3)
qed

lemma do_wstat_line:
  assumes "split_field buf = Some (field, val)" "length buf < MAXSTAT" "acc AND ACC_CHMOD \<noteq> 0"
  shows "do_wstat 1 buf acc prot =
    (if field = ''acc'' then do { p \<leftarrow> set_acc val prot; Some (Wdone, p) }
     else if field = ''perm'' then Some (Wdone, set_perm_ids val prot) else Some (Wother field val, prot))"
  using assms by (simp add: do_wstat_def Let_def)

lemma length_joined: "length (joined bs) + 1 \<le> 4 * length bs + (if bs = [] then 1 else 0)"
proof (induction bs rule: joined.induct)
  case (2 b)
  show ?case using length_dec [of "unat b" 3] unsigned_less [of b, where 'a = nat] by simp
next
  case (3 b c bs)
  then show ?case using length_dec [of "unat b" 3] unsigned_less [of b, where 'a = nat] by simp
qed simp

lemma length_slashed: "length (slashed bs) \<le> 4 * length bs"
  using length_joined [of bs] by (cases bs) (simp_all add: slashed_def)

lemma perm_line_effect:
  assumes p: "prot_ok p" and q: "length (prot_bits q) = PERMLEN" and a: "acc AND ACC_CHMOD \<noteq> 0"
  shows "\<exists>q'. do_wstat 1 (perm_line p) acc q = Some (Wdone, q') \<and> prot_len q' = prot_len p \<and> prot_id q' = prot_id p \<and>
    prot_default q' = prot_default q \<and> length (prot_bits q') = PERMLEN"
proof -
  let ?n = "unat (prot_len p)" and ?ids = "take (unat (prot_len p)) (prot_id p)"
  have l: "length ?ids = ?n" "?n \<le> PERMLEN" using p by (auto simp: prot_ok_def)
  have v: "\<forall>c\<in>set (joined ?ids). c \<noteq> NL \<and> c \<noteq> CHR 0x00" by (simp add: joined_plain)
  have s: "split_field (perm_line p) = Some (''perm'', Some (joined ?ids))"
    using split_field_line [OF _ v, of "''perm''"] by (simp add: perm_line_def)
  have "length (perm_line p) < MAXSTAT"
    using length_joined [of ?ids] l by (auto simp: perm_line_def MAXSTAT_def split: if_splits)
  from do_wstat_line [OF s this a] have d: "do_wstat 1 (perm_line p) acc q = Some (Wdone, set_perm_ids (Some (joined ?ids)) q)"
    by simp
  have "?ids @ replicate (PERMLEN - ?n) 0 = prot_id p"
    using p append_take_drop_id [of ?n "prot_id p"] by (simp add: prot_ok_def)
  then have ps: "perm_set_text (Some (joined ?ids)) = (prot_id p, ?n)"
    using perm_set_joined [of ?ids] l by simp
  show ?thesis unfolding d using q l by (auto simp: set_perm_ids_def ps Let_def word_unat_eq_iff)
qed

lemma acc_line_effect:
  assumes p: "prot_ok p" and q: "prot_len q = prot_len p" "prot_id q = prot_id p" and a: "acc AND ACC_CHMOD \<noteq> 0"
  shows "do_wstat 1 (acc_line p) acc q = Some (Wdone, p)"
proof -
  let ?n = "unat (prot_len p)" and ?bits = "take (unat (prot_len p)) (prot_bits p)"
  let ?v = "dec (unat (prot_default p)) @ slashed ?bits"
  have l: "length ?bits = ?n" "?n \<le> PERMLEN" using p by (auto simp: prot_ok_def)
  have v: "\<forall>c\<in>set ?v. c \<noteq> NL \<and> c \<noteq> CHR 0x00" by (simp add: ball_Un slashed_plain dec_no_special)
  have s: "split_field (acc_line p) = Some (''acc'', Some ?v)"
    using split_field_line [OF _ v, of "''acc''"] by (simp add: acc_line_def)
  have "length (dec (unat (prot_default p))) \<le> 3"
    using unsigned_less [of "prot_default p", where 'a = nat] by (intro length_dec) simp_all
  then have "length (acc_line p) < MAXSTAT"
    using length_slashed [of ?bits] l by (simp add: acc_line_def MAXSTAT_def)
  from do_wstat_line [OF s this a] have d: "do_wstat 1 (acc_line p) acc q = do { p \<leftarrow> set_acc (Some ?v) q; Some (Wdone, p) }"
    by simp
  have b: "?bits @ replicate (PERMLEN - ?n) 0 = prot_bits p"
    using p append_take_drop_id [of ?n "prot_bits p"] by (simp add: prot_ok_def)
  have "fst (perm_set_text (if slashed ?bits = [] then None else Some (tl (slashed ?bits)))) = prot_bits p"
    using b perm_set_joined [of ?bits] l by (cases "?bits = []") (auto simp: slashed_def perm_set_text_def)
  moreover have "ucast (ucast (prot_default p) :: u32) = prot_default p" by (rule bit_word_eqI) (simp add: bit_ucast_iff)
  moreover have "atoi ?v = ucast (prot_default p)" by (simp add: atoi_dec)
  ultimately have "set_acc (Some ?v) q = Some (q\<lparr>prot_default := prot_default p, prot_bits := prot_bits p\<rparr>)"
    by (simp only: set_acc_def Let_def bind.simps dropWhile_dec)
  then show ?thesis unfolding d using q by simp
qed

lemma perm_print_fits:
  assumes p: "prot_ok p" and l: "unat (prot_len p) < PERMLEN"
  shows "perm_print p \<noteq> None"
proof -
  let ?n = "unat (prot_len p)"
  have n: "length (take ?n (prot_id p)) = ?n" "length (take ?n (prot_bits p)) = ?n" using p by (auto simp: prot_ok_def)
  have "length (joined (take ?n (prot_id p))) + 1 \<le> 4 * ?n + 1"
    using length_joined [of "take ?n (prot_id p)"] n by (auto split: if_splits)
  moreover have "length (slashed (take ?n (prot_bits p))) \<le> 4 * ?n" using length_slashed [of "take ?n (prot_bits p)"] n by simp
  moreover have "length (dec (unat (prot_default p))) \<le> 3"
    using unsigned_less [of "prot_default p", where 'a = nat] by (intro length_dec) simp_all
  ultimately have "length (perm_line p @ acc_line p) + 1 \<le> 68" using l by (simp add: perm_line_def acc_line_def)
  then show ?thesis using l by (simp add: perm_print_lines)
qed


definition demo_prot :: prot where
  "demo_prot = \<lparr>prot_len = 2, prot_default = 4, prot_id = [1, 200, 0, 0, 0, 0, 0], prot_bits = [0, 70, 0, 0, 0, 0, 0]\<rparr>"

lemma demo_prot_facts:
  "prot_ok demo_prot" "perm_print demo_prot = Some (perm_line demo_prot @ acc_line demo_prot)"
  "length (prot_bits demo_prot) = PERMLEN"
proof -
  have "replicate 5 (0 :: u8) = [0, 0, 0, 0, 0]" by (simp add: eval_nat_numeral)
  then show "prot_ok demo_prot" "length (prot_bits demo_prot) = PERMLEN"
    by (simp_all add: prot_ok_def demo_prot_def)
  have l: "unat (prot_len demo_prot) < PERMLEN" by (simp add: demo_prot_def)
  then have "perm_print demo_prot \<noteq> None" by (rule perm_print_fits [OF \<open>prot_ok demo_prot\<close>])
  then show "perm_print demo_prot = Some (perm_line demo_prot @ acc_line demo_prot)"
    using l by (simp add: perm_print_lines split: if_splits)
qed


text \<open>Seven labels and bits of three digits each.\<close>

definition full_prot :: prot where
  "full_prot = \<lparr>prot_len = 7, prot_default = 255, prot_id = [255, 255, 255, 255, 255, 255, 255],
     prot_bits = [255, 255, 255, 255, 255, 255, 255]\<rparr>"

lemma full_prot_overflows: "prot_ok full_prot" "perm_print full_prot = None"
proof -
  have d: "length (dec 255) = 3" by (simp add: dec.simps)
  show "prot_ok full_prot" by (simp add: full_prot_def prot_ok_def)
  show "perm_print full_prot = None"
    by (subst perm_print_lines) (simp_all add: full_prot_def perm_line_def acc_line_def slashed_def d)
qed

text \<open>
  The buffer of \<open>perm_print\<close> is large enough for every protection of less than \<open>PERMLEN\<close> labels, but not
  for all of \<open>PERMLEN\<close>: whoever may change the protection of an object can, with two
  messages, give it one for which \<open>perm_print\<close>, and with it every later status request, writes
  past the end of the buffer.
\<close>

theorem perm_print_overflow:
  "(\<forall>p. prot_ok p \<and> unat (prot_len p) < PERMLEN \<longrightarrow> perm_print p \<noteq> None) \<and>
   (\<forall>q acc. length (prot_bits q) = PERMLEN \<and> acc AND ACC_CHMOD \<noteq> 0 \<longrightarrow>
      (\<exists>l1 l2 q1 p. do_wstat 1 l1 acc q = Some (Wdone, q1) \<and> do_wstat 1 l2 acc q1 = Some (Wdone, p) \<and>
         prot_ok p \<and> perm_print p = None))"
proof (intro conjI allI impI)
  fix q :: prot and acc :: u32 assume q: "length (prot_bits q) = PERMLEN \<and> acc AND ACC_CHMOD \<noteq> 0"
  obtain q1 where "do_wstat 1 (perm_line full_prot) acc q = Some (Wdone, q1)"
      "prot_len q1 = prot_len full_prot" "prot_id q1 = prot_id full_prot"
    using perm_line_effect [OF full_prot_overflows(1), of q acc] q by blast
  then show "\<exists>l1 l2 q1 p. do_wstat 1 l1 acc q = Some (Wdone, q1) \<and> do_wstat 1 l2 acc q1 = Some (Wdone, p) \<and>
         prot_ok p \<and> perm_print p = None"
    using acc_line_effect [OF full_prot_overflows(1), of q1 acc] q full_prot_overflows by blast
qed (use perm_print_fits in blast)

theorem perm_print_overflow_witness:
  "perm_print demo_prot \<noteq> None \<and>
   (\<exists>l1 l2 q1 p. do_wstat 1 l1 0x40 demo_prot = Some (Wdone, q1) \<and> do_wstat 1 l2 0x40 q1 = Some (Wdone, p) \<and>
      prot_ok p \<and> perm_print p = None)"
  using perm_print_overflow demo_prot_facts by (simp add: ACC_CHMOD_def demo_prot_def)

text \<open>A line \<open>acc\<close> without a value makes the server follow a null pointer.\<close>

lemma acc_without_value: "acc AND ACC_CHMOD \<noteq> 0 \<Longrightarrow> do_wstat 1 (''acc'' @ [NL]) acc prot = None"
  by (simp add: do_wstat_def MAXSTAT_def split_field_def cstr_def set_acc_def Let_def)

lemma wstat_keeps_prot_ok:
  assumes "do_wstat nseg mbuf acc p = Some (r, p')" and p: "prot_ok p"
  shows "length (prot_id p') = PERMLEN \<and> length (prot_bits p') = PERMLEN \<and> unat (prot_len p') \<le> PERMLEN"
proof -
  have f: "length (perm_fields k v) \<le> k" for k v by (induction k v rule: perm_fields.induct) (auto simp: Let_def)
  have s: "length (fst (perm_set_text v)) = PERMLEN" "snd (perm_set_text v) \<le> PERMLEN" for v
    using f [of PERMLEN] by (auto simp: perm_set_text_def Let_def split: option.splits)
  have "length (prot_id (set_perm_ids v p)) = PERMLEN \<and> length (prot_bits (set_perm_ids v p)) = PERMLEN \<and>
      unat (prot_len (set_perm_ids v p)) \<le> PERMLEN" for v
    using s [of v] p by (auto simp: set_perm_ids_def prot_ok_def Let_def unat_of_nat split: prod.splits)
  then show ?thesis using assms s
    by (auto simp: do_wstat_def set_acc_def Let_def prot_ok_def bind_eq_Some_conv split: if_splits option.splits)
qed

end
