(* ===== verification/Spec2Isabelle.thy ===== *)
theory Spec2Isabelle
  imports Event_Slots Clock Exit_Groups Processes Core_Pages Kernel_Malloc Page_Copies Hash_Table Resource_Map Permissions Spinlocks Scheduler Semaphores Segments Ports Messages
    Connections Ipc_Protocol Ipc_Roundtrips Ipc_Defects Dos_Restart Stat_Text
begin

text \<open>
  A verification development for the kernel of VSTa, a microkernel for the i386, and for its
  DOS file server.

  \<^bold>\<open>The program.\<close>  The kernel (\<open>os/kern\<close>, \<open>os/mach\<close>) runs threads, moves messages and manages
  memory; file systems, drivers and name services are processes that serve messages (\<open>srv\<close>).
  A process is one address space with threads, credentials, ports that it serves and references
  to ports of others.  A message carries segments, which are views of the sender's memory.  All
  waiting is on sleeping semaphores, whose queue discipline the scheduler and the event system
  share.  A thread that touches a page without a translation faults; the page comes from a page
  set, and a daemon takes pages away again.  The C sources are translated function by function,
  with the names of the source; paths are under \<open>src/\<close> of the repository.

  \<^bold>\<open>How C is read.\<close>  Pointers are natural numbers with 0 for null, a struct is a record, and the
  members of the structs of one kind are functions from addresses in a record of the state, so
  that aliasing is what it is in C.  Integers are words of their width where the width can be
  felt (\<open>Vsta_Prelude\<close>); counters that are bounded by the number of objects are \<open>int\<close> or \<open>nat\<close>.
  A system call that fails is \<open>Inl e\<close> with the string that it passes to \<open>err()\<close>.  \<open>None\<close> stands for
  a failing \<open>ASSERT\<close>, a panic or a loop that does not end: loops over linked structures are
  \<open>partial_function (option)\<close> and there is no fuel anywhere; where a property says that a function
  gives \<open>Some\<close>, it says that the function returns and that no assertion fails.  The kernel is the
  uniprocessor one: code between taking and releasing a spinlock is one step.  A function that may
  sleep is split at \<open>swtch()\<close>, into what it does before and what it does when it runs again;
  orders of events are step relations over these parts.

  \<^bold>\<open>Shared layer.\<close>
    \<^item> \<open>Vsta_Prelude\<close>: the types, the error strings, facts about words, and the collections \<open>frame\<close>,
      \<open>inv_simps\<close> and \<open>upd_simps\<close>.
    \<^item> \<open>Ring_Lists\<close>: doubly linked rings and chains as the kernel builds them by hand, with the
      interface \<open>fifo\<close> of a queue; it is interpreted on the run queues, on the sleep queue of a
      semaphore and on the message queue of a port.

  \<^bold>\<open>Library routines that the kernel links.\<close>
    \<^item> \<open>Hash_Table\<close> (\<open>libc/hash.c\<close>): refinement of a map; interface \<open>id_table\<close>.
    \<^item> \<open>Resource_Map\<close> (\<open>libc/rmap.c\<close>): the set of free units, first fit, what a full map loses,
      disjointness of what clients hold; interface \<open>range_allocator\<close>.
    \<^item> \<open>Permissions\<close> (\<open>libc/permsup.c\<close>, \<open>os/kern/misc.c\<close>): which bits \<open>perm_calc\<close> grants; \<open>perm_ctl\<close> never
      adds rights, as long as no label has the length byte \<open>0x87\<close>, which makes a process root.
    \<^item> \<open>Stat_Text\<close> (\<open>libc/permpr.c\<close>, \<open>libc/statsup.c\<close>, \<open>num\<close> of \<open>libc/doprnt.c\<close>, \<open>atoi\<close> and \<open>innum\<close> of
      \<open>libc/scanf.c\<close>), linked by the servers: protections as text; what is shown is read back, and where
      the buffer is too short.

  \<^bold>\<open>Threads.\<close>
    \<^item> \<open>Spinlocks\<close> and \<open>Semaphores\<close> (\<open>os/mach/mutex.c\<close>): counts and sleep queues; mutual exclusion,
      order of waking, interruption.
    \<^item> \<open>Scheduler\<close> (\<open>os/kern/sched.c\<close>): the tree of scheduling nodes as a tree, which \<open>lsetrun\<close> and
      \<open>pick_run\<close> change by exactly one leaf; the dice are an argument.
    \<^item> \<open>Clock\<close> (\<open>os/kern/xclock.c\<close>): ticks that interrupt the handling of ticks, the time of day and
      the list of sleepers.
    \<^item> \<open>Processes\<close> (\<open>os/kern/proc.c\<close>): the ring and hash of processes, thread lists, process numbers.
    \<^item> \<open>Exit_Groups\<close> (\<open>os/kern/exitgrp.c\<close>): parents that wait for children, as a step relation.
    \<^item> \<open>Process_Groups\<close>, \<open>Events\<close>, \<open>Event_Slots\<close> (\<open>os/kern/event.c\<close>, \<open>sendev\<close> of \<open>os/mach/trap.c\<close>,
      \<open>get_ustr\<close> of \<open>os/kern/misc.c\<close>): a group is a multiset; an event reaches exactly the threads
      of a process, one after the other, or those before the one whose slot it has to wait for; the
      slot of a thread is never overwritten, in a step relation with all the semaphores of the system;
      a thread that exits can deadlock with a sender.

  \<^bold>\<open>Messages.\<close>
    \<^item> \<open>Segments\<close> (\<open>os/kern/seg.c\<close>): views of memory for messages; the copying loop against
      concatenation.
    \<^item> \<open>Ports\<close> (\<open>os/kern/port.c\<close>, parts of \<open>msg.c\<close> and \<open>msgcon.c\<close>): queues, rings of references, tables
      of descriptors, names.
    \<^item> \<open>Messages\<close> (\<open>os/kern/msg.c\<close>, \<open>os/kern/msgkern.c\<close>) and \<open>Connections\<close> (\<open>os/kern/msgcon.c\<close>): every
      system call of the message system, split where the thread sleeps.
    \<^item> \<open>Ipc_Protocol\<close>: client and server of one connection as a step relation, with its invariant: the
      server may close its port at any time; the client neither closes nor duplicates the connection.
    \<^item> \<open>Ipc_Roundtrips\<close>: the transactions from one end to the other.
    \<^item> \<open>Ipc_Defects\<close>: states in which the code does not keep its comments' promises.

  \<^bold>\<open>Memory.\<close>
    \<^item> \<open>Core_Pages\<close> (\<open>os/kern/vm_page.c\<close>): the free list and contiguous pages; interface \<open>pool\<close>.
    \<^item> \<open>Kernel_Malloc\<close> (\<open>os/kern/malloc.c\<close>): buckets; blocks in use never overlap.
    \<^item> \<open>Page_Sets\<close> (\<open>os/kern/pset*.c\<close>, \<open>atl.c\<close>, \<open>qio.c\<close>, the allocation of \<open>vm_swap.c\<close>): slots, attach
      lists, filling, writing, copying and freeing.  \<open>frames\<close> is the memory of the machine and \<open>dev\<close>
      what the servers of swap and files hold; \<open>dev_fails\<close> says which transfers fail.
    \<^item> \<open>Page_Faults\<close> (\<open>os/mach/hat.c\<close>, \<open>os/kern/pview.c\<close>, \<open>vas.c\<close>, \<open>vm_fault.c\<close>): translations, views,
      address spaces, faults.
    \<^item> \<open>Page_Stealing\<close> (\<open>os/kern/vm_steal.c\<close>): the two hands of the daemon.
    \<^item> \<open>Paging\<close>: the invariant \<open>vm_ok\<close>: attach lists name exactly the valid translations, counts of slots
      count them, no page has two owners, and a page that is neither modified nor shown by a
      modified translation equals its image on swap.  A fault, a step of a hand and the end of a
      transfer keep it.
    \<^item> \<open>Virtual_Memory\<close>: the contents \<open>abs_mem\<close> of a set are those last stored, whatever comes in between
      (refinement of a memory of bytes), and an access that the view allows goes through.  The
      sets are zero-filled ones that are shared and not copied; one processor, transfers in order,
      none of which fails to write, and one fault at a time.  Stores are lost when two threads are in
      a fault on one page, and the kernel writes through read-only views.
    \<^item> \<open>Page_Copies\<close>: copy on write, and what is lost by the copies that a fork makes.

  \<^bold>\<open>Servers.\<close>  The file server for DOS disks (\<open>srv/dos\<close>), from the table of clusters up to what a client
  reads back after the machine was started again.
    \<^item> \<open>Dos_Fat12\<close> (\<open>fat12_fat16\<close> and \<open>fat16_fat12\<close> of \<open>fat.c\<close>): reading and packing entries of 12 bits, and
      the round trip.
    \<^item> \<open>Dos_Fat\<close> (\<open>fat.c\<close>): lists of clusters, their allocation, growing and shrinking; the chains in the
      table are exactly the lists that the server holds, and no cluster is in two of them.
    \<^item> \<open>Dos_Disk\<close> (\<open>fat_init\<close> and \<open>fat_sync\<close> of \<open>fat.c\<close>): the copies of the table on disk, written from the
      map of dirty sectors; what a server finds that starts on them; where a 12-bit table overflows.
    \<^item> \<open>Dos_Cache\<close> (\<open>block.c\<close>): handles, the hash of blocks, the list in order of use, reading, writing
      and flushing of clusters.  The interface \<open>block_store\<close> says that the data of a handle are those of
      its cluster; it is interpreted on the cache.
    \<^item> \<open>Dos_Files\<close> (\<open>rw.c\<close>): reading, writing and seeking over the blocks of a file, proved inside
      \<open>block_store\<close>; a file is a list of bytes.  Names in directories are a parameter, \<open>dirview\<close>.
    \<^item> \<open>Dos_Server\<close>: histories of the operations on all the files against a specification with the bytes
      of each file, the positions and the room on the disk, for disks with a 16-bit table.
    \<^item> \<open>Dos_Restart\<close> (\<open>deref_node\<close> of \<open>node.c\<close>, \<open>dir_setlen\<close> and \<open>root_sync\<close> of \<open>dir.c\<close>, \<open>sync\<close> of \<open>main.c\<close>): closing files
      of the root directory, and the start of the next server on the same disk.
  \<open>disk\<close> of a cache is the part of the disk that holds clusters, \<open>dev\<close> of a table the part that holds the
  copies of the table, \<open>rootdisk\<close> the part that holds the root directory.
  \<open>env_ok\<close> and \<open>fits\<close> say that the disk answers and that sizes are those of one disk; storage for
  handles and list nodes is always found.  Of \<open>struct node\<close> and \<open>struct file\<close> the members are there
  that reading and writing use.

  \<^bold>\<open>Kinds of statement.\<close>  Each component has the facts of its operations on every branch, most have
  an invariant with its preservation, and the properties named by a claim number in the theories
  are those that span operations: safety over all interleavings, refinement of an abstract
  specification, round trips, and concrete defects, each proved of the code as it is.  A witness
  follows every property that has a hypothesis, at a small concrete system: \<open>demo_kern\<close>,
  \<open>demo_sched\<close>, \<open>demo_ptab\<close>, \<open>demo_events\<close>, \<open>demo_vm0\<close> and their like.

  \<^bold>\<open>Not modelled.\<close>  Parameters stand for what is outside: dice, results of copies from and to user
  memory, storage that may be exhausted, answers of swap and file servers.  Left out are:
  the assertions of \<open>p_sema\<close> and \<open>swtch\<close> that no spinlock is held and that preemption is on;
  \<open>fork\<close>, \<open>fork_thread\<close>, \<open>bootproc\<close> and \<open>do_exit\<close> as wholes, of which the parts that change the
  process table, the thread lists, the exit groups and the senders are there; \<open>exec.c\<close>, \<open>mmap.c\<close>,
  \<open>phys.c\<close>, \<open>ptrace.c\<close>, \<open>pstat.c\<close>, \<open>main.c\<close>; the message exchange of \<open>pageio\<close> and the pool of daemons of
  \<open>qio.c\<close>; tracing; saved registers, the floating point unit, trap entry and other assembly, but
  for the range checks of \<open>copyin\<close> and \<open>uucopy\<close>; the debugger; the other servers; of the DOS server names, making and removing
  files, directories but for the lengths in the root directory, and opening; drivers, the rest of the
  C library, the boot loader and user programs, which the kernel sees only as messages.
\<close>

end
